(* ===== verification/Prelude.thy ===== *)
theory Prelude
  imports Main "HOL-Library.Word"
begin

text \<open>
  Shared base of the development: the machine integer types, the three-valued result of a
  Rust function (a value, an error value, a panic), little-endian byte strings and the
  bit-level reading of a byte string that the bit readers and writers are specified by.
\<close>

unbundle bit_operations_syntax

named_theorems result_simps "rules that evaluate a result-valued computation"

section \<open>Machine integers and results\<close>

type_synonym u8 = "8 word"
type_synonym u16 = "16 word"
type_synonym u32 = "32 word"
type_synonym u64 = "64 word"

text \<open>
  \<open>Ok\<close> and \<open>Err\<close> are the constructors of Rust's \<open>Result\<close>; \<open>Panic\<close> is a failed assertion, an
  index out of range, or an \<open>unreachable!\<close> or \<open>panic!\<close> that was reached.
\<close>

datatype ('a, 'e) result = Ok 'a | Err 'e | Panic

fun rbind :: "('a, 'e) result \<Rightarrow> ('a \<Rightarrow> ('b, 'e) result) \<Rightarrow> ('b, 'e) result" where
  "rbind (Ok x) f = f x"
| "rbind (Err e) f = Err e"
| "rbind Panic f = Panic"

fun map_err :: "('e \<Rightarrow> 'f) \<Rightarrow> ('a, 'e) result \<Rightarrow> ('a, 'f) result" where
  "map_err g (Ok x) = Ok x"
| "map_err g (Err e) = Err (g e)"
| "map_err g Panic = Panic"

text \<open>\<open>ensure b e\<close> is \<open>if !b { return Err(e) }\<close>, \<open>rassert b\<close> is \<open>assert!(b)\<close>.\<close>

definition ensure :: "bool \<Rightarrow> 'e \<Rightarrow> (unit, 'e) result" where
  "ensure b e = (if b then Ok () else Err e)"

definition rassert :: "bool \<Rightarrow> (unit, 'e) result" where
  "rassert b = (if b then Ok () else Panic)"

text \<open>
  Operations that can panic but not fail return an option, \<open>None\<close> for the panic; \<open>or_panic\<close> is
  their use inside a function that returns a \<open>Result\<close>.
\<close>

fun or_panic :: "'a option \<Rightarrow> ('a, 'e) result" where
  "or_panic (Some x) = Ok x"
| "or_panic None = Panic"

text \<open>Slice indexing panics out of range.\<close>

definition index_of :: "'a list \<Rightarrow> nat \<Rightarrow> ('a, 'e) result" where
  "index_of xs i = (if i < length xs then Ok (xs ! i) else Panic)"

lemma rbind_cong [fundef_cong]:
  "\<lbrakk>m = m'; \<And>x. m' = Ok x \<Longrightarrow> f x = g x\<rbrakk> \<Longrightarrow> rbind m f = rbind m' g"
  by (cases m') auto

lemma rbind_Ok_iff: "rbind m f = Ok y \<longleftrightarrow> (\<exists>x. m = Ok x \<and> f x = Ok y)"
  by (cases m) auto

lemma rbind_Err_iff: "rbind m f = Err e \<longleftrightarrow> m = Err e \<or> (\<exists>x. m = Ok x \<and> f x = Err e)"
  by (cases m) auto

lemma rbind_Panic_iff: "rbind m f = Panic \<longleftrightarrow> m = Panic \<or> (\<exists>x. m = Ok x \<and> f x = Panic)"
  by (cases m) auto

lemma rbind_assoc: "rbind (rbind m f) g = rbind m (\<lambda>x. rbind (f x) g)"
  by (cases m) auto

lemma map_err_Ok_iff [simp]: "map_err g m = Ok x \<longleftrightarrow> m = Ok x"
  by (cases m) auto

lemma map_err_Panic_iff [simp]: "map_err g m = Panic \<longleftrightarrow> m = Panic"
  by (cases m) auto

lemma or_panic_iffs [simp]:
  "or_panic m = Ok x \<longleftrightarrow> m = Some x" "or_panic m = Panic \<longleftrightarrow> m = None" "or_panic m \<noteq> Err e"
  by (cases m; simp)+

lemma ensure_simps [simp, result_simps]:
  "ensure True e = Ok ()" "ensure False e = Err e" "ensure b e = Ok u \<longleftrightarrow> b"
  "ensure b e = Err e' \<longleftrightarrow> \<not> b \<and> e' = e" "ensure b e \<noteq> Panic"
  by (auto simp: ensure_def)

lemma rassert_simps [simp, result_simps]:
  "rassert True = Ok ()" "rassert False = Panic" "rassert b = Ok u \<longleftrightarrow> b"
  "rassert b = Panic \<longleftrightarrow> \<not> b" "rassert b \<noteq> Err e"
  by (auto simp: rassert_def)

lemma index_of_simps [simp, result_simps]:
  "i < length xs \<Longrightarrow> index_of xs i = Ok (xs ! i)" "index_of xs i = Panic \<longleftrightarrow> length xs \<le> i"
  "index_of xs i = Ok x \<longleftrightarrow> i < length xs \<and> x = xs ! i" "index_of xs i \<noteq> Err e"
  by (auto simp: index_of_def)

lemmas result_iffs = rbind_Ok_iff rbind_Err_iff rbind_Panic_iff

section \<open>Byte and bit positions\<close>

lemma bit_position_in_byte:
  assumes "a mod 8 + i < (8 :: nat)"
  shows "(a + i) div 8 = a div 8" "(a + i) mod 8 = a mod 8 + i"
proof -
  have eq: "a + i = (a mod 8 + i) + a div 8 * 8" by simp
  show "(a + i) div 8 = a div 8"
    by (subst eq, subst div_mult_self1) (use assms in simp_all)
  show "(a + i) mod 8 = a mod 8 + i"
    by (subst eq, subst mod_mult_self1) (use assms in simp)
qed

lemma next_byte_after: "a + (8 - a mod 8) = 8 * (a div 8) + (8 :: nat)"
proof -
  have "a mod 8 < 8" and "8 * (a div 8) + a mod 8 = a" by simp_all
  then show ?thesis by linarith
qed

lemma next_byte_boundary: "(8 :: nat) dvd a + (8 - a mod 8)"
  by (simp add: next_byte_after)

section \<open>Bits of bytes and words\<close>

text \<open>\<open>sbit bs i\<close> is bit \<open>i\<close> of the byte string read as one little-endian number.\<close>

definition sbit :: "u8 list \<Rightarrow> nat \<Rightarrow> bool" where
  "sbit bs i \<longleftrightarrow> i div 8 < length bs \<and> bit (bs ! (i div 8)) (i mod 8)"

definition word_bits :: "nat \<Rightarrow> 'a::len word \<Rightarrow> bool list" where
  "word_bits n w = map (bit w) [0..<n]"

definition bits_of :: "u8 list \<Rightarrow> bool list" where
  "bits_of bs = map (sbit bs) [0..<8 * length bs]"

fun le_val :: "u8 list \<Rightarrow> nat" where
  "le_val [] = 0"
| "le_val (b # bs) = unat b + 256 * le_val bs"

text \<open>\<open>uN::from_le_bytes\<close> and \<open>uN::to_le_bytes\<close>.\<close>

definition from_le_bytes :: "u8 list \<Rightarrow> 'a::len word" where
  "from_le_bytes bs = word_of_nat (le_val bs)"

definition to_le_bytes :: "nat \<Rightarrow> 'a::len word \<Rightarrow> u8 list" where
  "to_le_bytes n w = map (\<lambda>i. ucast (drop_bit (8 * i) w)) [0..<n]"

lemma sbit_Nil [simp]: "\<not> sbit [] i"
  by (simp add: sbit_def)

lemma sbit_Cons: "sbit (b # bs) i = (if i < 8 then bit b i else sbit bs (i - 8))"
proof (cases "i < 8")
  case True
  then show ?thesis by (simp add: sbit_def)
next
  case False
  then have "i div 8 = Suc ((i - 8) div 8)" and "i mod 8 = (i - 8) mod 8"
    by (simp_all add: le_div_geq le_mod_geq)
  with False show ?thesis by (simp add: sbit_def)
qed

lemma sbit_ge: "8 * length bs \<le> i \<Longrightarrow> \<not> sbit bs i"
  by (auto simp: sbit_def div_less_iff_less_mult)

lemma sbit_less: "sbit bs i \<Longrightarrow> i < 8 * length bs"
  using sbit_ge [of bs i] by force

lemma sbit_append:
  "sbit (xs @ ys) i = (if i < 8 * length xs then sbit xs i else sbit ys (i - 8 * length xs))"
proof (induction xs arbitrary: i)
  case (Cons x xs)
  then show ?case by (auto simp: sbit_Cons)
qed simp

lemma sbit_drop: "sbit (drop k bs) i = sbit bs (8 * k + i)"
  by (cases "k \<le> length bs") (auto simp: sbit_def)

lemma sbit_take: "sbit (take k bs) i \<longleftrightarrow> i < 8 * k \<and> sbit bs i"
  by (auto simp: sbit_def)

lemma length_word_bits [simp]: "length (word_bits n w) = n"
  by (simp add: word_bits_def)

lemma nth_word_bits [simp]: "i < n \<Longrightarrow> word_bits n w ! i = bit w i"
  by (simp add: word_bits_def)

lemma length_bits_of [simp]: "length (bits_of bs) = 8 * length bs"
  by (simp add: bits_of_def)

lemma nth_bits_of [simp]: "i < 8 * length bs \<Longrightarrow> bits_of bs ! i = sbit bs i"
  by (simp add: bits_of_def)

lemma bits_of_Nil [simp]: "bits_of [] = []"
  by (simp add: bits_of_def)

lemma bits_of_append [simp]: "bits_of (xs @ ys) = bits_of xs @ bits_of ys"
  by (rule nth_equalityI) (auto simp: nth_append sbit_append)

lemma word_bits_0 [simp]: "word_bits 0 w = []"
  by (simp add: word_bits_def)

lemma word_bits_add: "word_bits (m + n) w = word_bits m w @ word_bits n (drop_bit m w)"
  by (rule nth_equalityI) (auto simp: nth_append bit_simps)

lemma bits_of_single: "bits_of [b] = word_bits 8 b"
  by (rule nth_equalityI) (auto simp: sbit_Cons)

lemma bit_concat_nat:
  assumes "a < 2 ^ n"
  shows "bit (a + 2 ^ n * b) i = (if i < n then bit a i else bit (b :: nat) (i - n))"
proof (cases "i < n")
  case True
  then have "(2 :: nat) ^ n = 2 ^ (n - i) * 2 ^ i" by (simp flip: power_add)
  then have "a + 2 ^ n * b = a + (2 ^ (n - i) * b) * 2 ^ i" by simp
  then have "(a + 2 ^ n * b) div 2 ^ i = a div 2 ^ i + 2 ^ (n - i) * b"
    by (simp only: div_mult_self1 [of "2 ^ i :: nat"]) simp
  then show ?thesis using True by (simp add: bit_iff_odd)
next
  case False
  have "(a + 2 ^ n * b) div 2 ^ n = b" using assms by simp
  then have "(a + 2 ^ n * b) div 2 ^ i = b div 2 ^ (i - n)"
    using False by (metis div_exp_eq le_add_diff_inverse not_less)
  then show ?thesis using False by (simp only: bit_iff_odd) simp
qed

lemma bit_nat_bound: "\<lbrakk>bit (x :: nat) i; x < 2 ^ n\<rbrakk> \<Longrightarrow> i < n"
proof (rule ccontr)
  assume x: "bit x i" "x < 2 ^ n" and "\<not> i < n"
  then have "x < 2 ^ i" using power_increasing [of n i "2 :: nat"] by linarith
  with x(1) show False by (simp add: bit_iff_odd)
qed

lemma bit_le_val: "bit (le_val bs) i = sbit bs i"
proof (induction bs arbitrary: i)
  case (Cons b bs)
  have "unat b < 2 ^ 8" using unsigned_less [of b] by simp
  from bit_concat_nat [OF this, of "le_val bs" i] Cons.IH show ?case
    by (simp add: sbit_Cons bit_unsigned_iff)
qed simp

lemma bit_from_le_bytes: "bit (from_le_bytes bs :: 'a::len word) i \<longleftrightarrow> i < LENGTH('a) \<and> sbit bs i"
  by (simp add: from_le_bytes_def bit_of_nat_iff bit_le_val)

lemma length_to_le_bytes [simp]: "length (to_le_bytes n w) = n"
  by (simp add: to_le_bytes_def)

lemma nth_to_le_bytes [simp]: "i < n \<Longrightarrow> to_le_bytes n w ! i = ucast (drop_bit (8 * i) w)"
  by (simp add: to_le_bytes_def)

lemma sbit_to_le_bytes: "sbit (to_le_bytes n w) i \<longleftrightarrow> i < 8 * n \<and> bit w i"
proof -
  have "8 * (i div 8) + i mod 8 = i" by simp
  then show ?thesis
    by (auto simp: sbit_def bit_simps)
qed

lemma bits_of_to_le_bytes: "bits_of (to_le_bytes n w) = word_bits (8 * n) w"
  by (rule nth_equalityI) (auto simp: sbit_to_le_bytes)

lemma take_to_le_bytes: "k \<le> n \<Longrightarrow> take k (to_le_bytes n w) = to_le_bytes k w"
  by (simp add: to_le_bytes_def take_map)

lemma drop_to_le_bytes:
  "k \<le> n \<Longrightarrow> drop k (to_le_bytes n w) = to_le_bytes (n - k) (drop_bit (8 * k) w)"
  by (rule nth_equalityI) (auto simp: algebra_simps)

lemma bytes_eqI: "\<lbrakk>length xs = length ys; \<And>i. sbit xs i = sbit ys i\<rbrakk> \<Longrightarrow> (xs :: u8 list) = ys"
proof (rule nth_equalityI)
  fix i assume len: "length xs = length ys" and eq: "\<And>i. sbit xs i = sbit ys i" and i: "i < length xs"
  show "xs ! i = ys ! i"
  proof (rule bit_word_eqI)
    fix j assume "j < LENGTH(8)"
    then have j: "(8 * i + j) div 8 = i" "(8 * i + j) mod 8 = j" by simp_all
    from eq [of "8 * i + j"] show "bit (xs ! i) j = bit (ys ! i) j"
      using len i j by (simp add: sbit_def)
  qed
qed

lemma from_to_le_bytes:
  "LENGTH('a::len) \<le> 8 * n \<Longrightarrow> from_le_bytes (to_le_bytes n (w :: 'a word)) = w"
  by (rule bit_word_eqI) (simp add: bit_from_le_bytes sbit_to_le_bytes)

lemma to_from_le_bytes:
  "8 * length bs \<le> LENGTH('a::len) \<Longrightarrow> to_le_bytes (length bs) (from_le_bytes bs :: 'a word) = bs"
  by (rule bytes_eqI) (auto simp: sbit_to_le_bytes bit_from_le_bytes dest: sbit_less)

lemma le_val_append: "le_val (xs @ ys) = le_val xs + 2 ^ (8 * length xs) * le_val ys"
  by (induction xs) (simp_all add: algebra_simps power_add)

lemma le_val_to_le_bytes: "le_val (to_le_bytes n w) = take_bit (8 * n) (unat w)"
  by (rule bit_eqI) (auto simp: bit_le_val sbit_to_le_bytes bit_take_bit_iff bit_unsigned_iff dest: bit_imp_le_length)

lemma le_val_less: "le_val bs < 2 ^ (8 * length bs)"
proof (induction bs)
  case (Cons b bs)
  have "unat b < 256" using unsigned_less [of b] by simp
  with Cons show ?case by (simp add: power_add)
qed simp

text \<open>\<open>buf[..n].copy_from_slice(b)\<close> over a zeroed array of \<open>n\<close> bytes.\<close>

definition zero_extend :: "nat \<Rightarrow> u8 list \<Rightarrow> u8 list" where
  "zero_extend n b = b @ replicate (n - length b) 0"

lemma le_val_zeros: "le_val (replicate n 0) = 0"
  by (induction n) simp_all

lemma from_le_zero_extend: "from_le_bytes (zero_extend n bs) = from_le_bytes bs"
  by (simp add: from_le_bytes_def zero_extend_def le_val_append le_val_zeros)

lemma push_1_minus_1: "push_bit n 1 - 1 = (mask n :: 'a::len word)"
  by (simp add: mask_eq_exp_minus_1 push_bit_eq_mult)

lemma unat_power_word: "k < LENGTH('a) \<Longrightarrow> unat (2 ^ k :: 'a::len word) = 2 ^ k"
proof -
  assume "k < LENGTH('a)"
  then have "(2 :: nat) ^ k < 2 ^ LENGTH('a)" by (intro power_strict_increasing) simp_all
  then have "unat (of_nat (2 ^ k) :: 'a word) = 2 ^ k" by (simp only: unat_of_nat) simp
  then show ?thesis by simp
qed

lemma unat_power_u64: "k < 64 \<Longrightarrow> unat (2 ^ k :: u64) = 2 ^ k"
  by (rule unat_power_word) simp

lemma drop_bit_eq_0_iff: "drop_bit n (w :: 'a::len word) = 0 \<longleftrightarrow> (\<forall>i\<ge>n. \<not> bit w i)"
proof -
  have "drop_bit n w = 0 \<longleftrightarrow> (\<forall>k. \<not> bit w (n + k))"
    by (subst bit_eq_iff) (use bit_imp_le_length in \<open>fastforce simp: bit_drop_bit_eq\<close>)
  also have "\<dots> \<longleftrightarrow> (\<forall>i\<ge>n. \<not> bit w i)"
    by (metis le_Suc_ex le_add1)
  finally show ?thesis .
qed

lemma drop_bit_eq_0_iff_less:
  "drop_bit n (w :: 'a::len word) = 0 \<longleftrightarrow> unat w < 2 ^ n"
proof -
  have "drop_bit n w = 0 \<longleftrightarrow> unat (drop_bit n w) = 0" by (simp add: unat_eq_0)
  also have "\<dots> \<longleftrightarrow> unat w div 2 ^ n = 0" by (simp only: unat_drop_bit_eq) (simp only: drop_bit_eq_div)
  finally show ?thesis by (simp add: div_eq_0_iff)
qed

section \<open>Binary logarithm\<close>

text \<open>\<open>u32::ilog2\<close> of a positive number.\<close>

fun ilog2 :: "nat \<Rightarrow> nat" where
  "ilog2 n = (if n < 2 then 0 else Suc (ilog2 (n div 2)))"

declare ilog2.simps [simp del]

lemma ilog2_bounds: "0 < n \<Longrightarrow> 2 ^ ilog2 n \<le> n \<and> n < 2 ^ Suc (ilog2 n)"
proof (induction n rule: ilog2.induct)
  case (1 n)
  show ?case
  proof (cases "n < 2")
    case True
    with "1.prems" show ?thesis by (auto simp: ilog2.simps)
  next
    case False
    then have "0 < n div 2" by simp
    with "1.IH" [OF False] have "2 ^ ilog2 (n div 2) \<le> n div 2" "n div 2 < 2 ^ Suc (ilog2 (n div 2))" by blast+
    then have "2 * 2 ^ ilog2 (n div 2) \<le> n" "n < 2 * 2 ^ Suc (ilog2 (n div 2))" by linarith+
    then show ?thesis using False by (simp add: ilog2.simps [of n])
  qed
qed

lemma ilog2_split: "0 < n \<Longrightarrow> 2 ^ ilog2 n + n mod 2 ^ ilog2 n = n"
proof -
  assume "0 < n"
  then have "n div 2 ^ ilog2 n = 1"
    using ilog2_bounds [of n] by (intro div_nat_eqI) auto
  then show ?thesis by (metis add.commute mod_div_mult_eq mult_1)
qed

lemma ilog2_eqI: "\<lbrakk>2 ^ k \<le> n; n < 2 ^ Suc k\<rbrakk> \<Longrightarrow> ilog2 n = k"
proof -
  assume b: "2 ^ k \<le> n" "n < 2 ^ Suc k"
  then have "0 < n" by (metis gr0I not_le zero_less_numeral zero_less_power)
  with ilog2_bounds [of n] b have "2 ^ k < (2 :: nat) ^ Suc (ilog2 n)" "2 ^ ilog2 n < (2 :: nat) ^ Suc k" by linarith+
  then have "k < Suc (ilog2 n)" "ilog2 n < Suc k"
    using power_strict_increasing_iff [of "2 :: nat"] by (simp_all only: one_less_numeral_iff semiring_norm)
  then show ?thesis by simp
qed

lemma ilog2_range: "\<lbrakk>2 ^ a \<le> n; n < 2 ^ b\<rbrakk> \<Longrightarrow> a \<le> ilog2 n \<and> ilog2 n < b"
proof -
  assume n: "2 ^ a \<le> n" "n < 2 ^ b"
  then have "0 < n" by (metis gr0I not_le zero_less_numeral zero_less_power)
  with ilog2_bounds [of n] n have "2 ^ a < (2 :: nat) ^ Suc (ilog2 n)" "2 ^ ilog2 n < (2 :: nat) ^ b" by linarith+
  then have "a < Suc (ilog2 n)" "ilog2 n < b"
    using power_strict_increasing_iff [of "2 :: nat"] by (simp_all only: one_less_numeral_iff semiring_norm)
  then show ?thesis by simp
qed

section \<open>Small fields of a byte\<close>

lemma byte_less: "unat (b :: u8) < 2 ^ 8"
  using unsigned_less [of b] by simp

lemma bit_two_bits: "bit (w AND (3 :: 'a::len word)) i \<longleftrightarrow> i < 2 \<and> bit w i"
proof -
  have "(3 :: 'a word) = mask 2" by (simp add: mask_eq_exp_minus_1)
  then show ?thesis using bit_imp_le_length [of w i] by (simp only: bit_and_iff bit_mask_iff) auto
qed

lemma two_bits_word: "(w :: u8) AND 3 = word_of_nat (take_bit 2 (unat w))"
proof (rule bit_word_eqI)
  fix i assume "i < LENGTH(8)"
  have "(3 :: u8) = mask 2" by (simp add: mask_eq_exp_minus_1)
  then have "bit (w AND 3) i \<longleftrightarrow> bit w i \<and> i < 2" by (simp only: bit_and_iff bit_mask_iff) auto
  with \<open>i < LENGTH(8)\<close> show "bit (w AND 3) i = bit (word_of_nat (take_bit 2 (unat w)) :: u8) i"
    by (auto simp: bit_of_nat_iff bit_take_bit_iff bit_unsigned_iff)
qed

lemma two_bits_cases:
  fixes c :: nat assumes "c = take_bit 2 x" shows "c = 0 \<or> c = 1 \<or> c = 2 \<or> c = 3"
  using assms by (simp add: take_bit_eq_mod) linarith

lemma two_bit_word_cases: "(w :: u8) AND 3 = 0 \<or> w AND 3 = 1 \<or> w AND 3 = 2 \<or> w AND 3 = 3"
  unfolding two_bits_word using two_bits_cases [OF refl, of "unat w"] by auto

lemma top_two_bits: "drop_bit 6 (m :: u8) AND 3 = drop_bit 6 m"
proof (rule bit_word_eqI)
  fix i
  show "bit (drop_bit 6 m AND 3) i = bit (drop_bit 6 m) i"
    by (simp only: bit_two_bits bit_drop_bit_eq) (auto dest: bit_imp_le_length)
qed

lemma low_bit_flag: "drop_bit n (d :: u8) AND 1 = 1 \<longleftrightarrow> bit d n"
  by (simp add: and_one_eq mod_2_eq_odd bit_iff_odd_drop_bit)

end
