(* ===== verification/Bit_Reader.thy ===== *)
theory Bit_Reader
  imports Prelude
begin

text \<open>
  The forward bit reader of \<^verbatim>\<open>zstd/src/bit_io/bit_reader.rs\<close>: a cursor counting bits over a byte
  slice. A read assembles the value from the rest of the current byte, whole bytes, and the low
  bits of a last byte; it is specified by the bits of the slice (\<open>sbit\<close>).
\<close>

section \<open>The reader\<close>

record bit_reader =
  br_idx :: nat
  br_source :: "u8 list"

datatype get_bits_error =
    TooManyBits (num_requested_bits: nat) (limit: nat)
  | NotEnoughRemainingBits (requested: nat) (remaining: nat)

definition bit_reader_new :: "u8 list \<Rightarrow> bit_reader" where
  "bit_reader_new source = \<lparr>br_idx = 0, br_source = source\<rparr>"

definition bits_left :: "bit_reader \<Rightarrow> nat" where
  "bits_left r = length (br_source r) * 8 - br_idx r"

text \<open>The loop \<open>for _ in 0..full_bytes_needed\<close>: cursor, shift and value are its state.\<close>

fun collect_full_bytes ::
  "u8 list \<Rightarrow> nat \<Rightarrow> nat \<Rightarrow> nat \<Rightarrow> u64 \<Rightarrow> (nat \<times> nat \<times> u64, 'e) result" where
  "collect_full_bytes source 0 idx bit_shift value = Ok (idx, bit_shift, value)"
| "collect_full_bytes source (Suc k) idx bit_shift value =
     rbind (index_of source (idx div 8)) (\<lambda>b.
       collect_full_bytes source k (idx + 8) (bit_shift + 8)
         (value OR push_bit bit_shift (ucast b)))"

text \<open>The second arm of the read, for a field that leaves the current byte.\<close>

definition get_bits_tail ::
  "bit_reader \<Rightarrow> nat \<Rightarrow> nat \<Rightarrow> nat \<Rightarrow> u64 \<Rightarrow> (u64 \<times> bit_reader, get_bits_error) result" where
  "get_bits_tail r at n left value =
     (let source = br_source r;
          full_bytes_needed = (n - left) div 8;
          bits_in_last_byte_needed = n - left - full_bytes_needed * 8
      in rbind (collect_full_bytes source full_bytes_needed (at + left) left value)
           (\<lambda>(idx, bit_shift, value).
             if bits_in_last_byte_needed > 0
             then rbind (index_of source (idx div 8)) (\<lambda>b.
                    let val_las_byte = ucast b AND (push_bit bits_in_last_byte_needed 1 - 1)
                    in Ok (value OR push_bit bit_shift val_las_byte,
                           r\<lparr>br_idx := idx + bits_in_last_byte_needed\<rparr>))
             else Ok (value, r\<lparr>br_idx := idx\<rparr>)))"

definition get_bits :: "bit_reader \<Rightarrow> nat \<Rightarrow> (u64 \<times> bit_reader, get_bits_error) result" where
  "get_bits r n =
     (if n > 64 then Err (TooManyBits n 64)
      else if bits_left r < n then Err (NotEnoughRemainingBits n (bits_left r))
      else
        let source = br_source r;
            bits_left_in_current_byte = 8 - br_idx r mod 8;
            bits_not_needed_in_current_byte = 8 - bits_left_in_current_byte
        in rbind (index_of source (br_idx r div 8)) (\<lambda>b.
             let value = ucast (drop_bit bits_not_needed_in_current_byte b) in
             if bits_left_in_current_byte \<ge> n
             then Ok (value AND (push_bit n 1 - 1), r\<lparr>br_idx := br_idx r + n\<rparr>)
             else get_bits_tail r (br_idx r) n bits_left_in_current_byte value))"

section \<open>Correctness\<close>

text \<open>\<open>holds_bits v source at n\<close>: \<open>v\<close> is the \<open>n\<close>-bit field of the slice at bit \<open>at\<close>.\<close>

definition holds_bits :: "u64 \<Rightarrow> u8 list \<Rightarrow> nat \<Rightarrow> nat \<Rightarrow> bool" where
  "holds_bits v source at n \<longleftrightarrow> (\<forall>i. bit v i \<longleftrightarrow> i < n \<and> sbit source (at + i))"

lemma first_byte_bits:
  assumes "at < 8 * length source"
  shows "bit (ucast (drop_bit (at mod 8) (source ! (at div 8))) :: u64) i
     \<longleftrightarrow> i < 8 - at mod 8 \<and> sbit source (at + i)"
proof (cases "i < 8 - at mod 8")
  case True
  then have "(at + i) div 8 = at div 8" and "(at + i) mod 8 = at mod 8 + i"
    using bit_position_in_byte [of at i] by simp_all
  with assms True show ?thesis by (auto simp: sbit_def bit_simps)
next
  case False
  then show ?thesis by (auto simp: bit_simps dest: bit_imp_le_length)
qed

lemma aligned_byte_bits:
  assumes "8 dvd idx" "idx < 8 * length source"
  shows "bit (ucast (source ! (idx div 8)) :: u64) i \<longleftrightarrow> i < 8 \<and> sbit source (idx + i)"
  using first_byte_bits [OF assms(2), of i] assms(1) by simp

lemma holds_bits_extend:
  assumes "holds_bits v source at m" "m + k \<le> 64"
    and "\<And>i. bit w i \<longleftrightarrow> i < k \<and> sbit source (at + m + i)"
  shows "holds_bits (v OR push_bit m w) source at (m + k)"
  unfolding holds_bits_def
proof
  fix i
  show "bit (v OR push_bit m w) i \<longleftrightarrow> i < m + k \<and> sbit source (at + i)"
  proof (cases "i < m")
    case True
    with assms(1) show ?thesis by (simp add: holds_bits_def bit_simps)
  next
    case False
    then obtain j where i: "i = m + j" using le_Suc_ex not_less by blast
    from assms(1) have "\<not> bit v i" using i by (simp add: holds_bits_def)
    moreover have "bit (push_bit m w) i \<longleftrightarrow> j < k \<and> sbit source (at + m + j)"
      using assms(2) unfolding i bit_push_bit_iff assms(3) [of j, symmetric]
      by (auto simp: assms(3) [of j])
    ultimately show ?thesis using i by (simp add: bit_or_iff add.assoc)
  qed
qed

lemma collect_full_bytes_ok:
  assumes "8 dvd idx" "idx + 8 * k \<le> 8 * length source" "m + 8 * k \<le> 64" "idx = at + m"
    and "holds_bits v source at m"
  shows "\<exists>v'. collect_full_bytes source k idx m v = Ok (idx + 8 * k, m + 8 * k, v')
     \<and> holds_bits v' source at (m + 8 * k)"
  using assms
proof (induction k arbitrary: idx m v)
  case (Suc k)
  let ?v = "v OR push_bit m (ucast (source ! (idx div 8)))"
  have "holds_bits ?v source at (m + 8)"
    using Suc.prems by (intro holds_bits_extend) (auto simp: aligned_byte_bits)
  moreover have "8 dvd idx + 8" "idx + 8 = at + (m + 8)" using Suc.prems by simp_all
  ultimately show ?case
    using Suc.IH [of "idx + 8" "m + 8" ?v] Suc.prems by (simp add: div_less_iff_less_mult add.assoc)
qed simp

lemma get_bits_tail_ok:
  assumes n: "n \<le> 64" "left < n" and fit: "at + n \<le> 8 * length (br_source r)"
    and dvd: "8 dvd at + left" and v: "holds_bits v (br_source r) at left"
  shows "\<exists>v'. get_bits_tail r at n left v = Ok (v', r\<lparr>br_idx := at + n\<rparr>)
     \<and> holds_bits v' (br_source r) at n"
proof -
  define src where "src = br_source r"
  define full where "full = (n - left) div 8"
  define rest where "rest = n - left - full * 8"
  note defs = src_def [symmetric] full_def [symmetric] rest_def [symmetric]
  have total: "left + 8 * full + rest = n" and rest8: "rest < 8"
    using n by (auto simp: full_def rest_def)
  obtain v1 where loop: "collect_full_bytes src full (at + left) left v =
        (Ok (at + left + 8 * full, left + 8 * full, v1) :: (_, get_bits_error) result)"
    and v1: "holds_bits v1 src at (left + 8 * full)"
    using collect_full_bytes_ok [OF dvd _ _ refl v [folded src_def], of full] fit n total
    by (auto simp: defs)
  have tail: "get_bits_tail r at n left v =
      (if rest > 0 then rbind (index_of src ((at + left + 8 * full) div 8)) (\<lambda>b.
         Ok (v1 OR push_bit (left + 8 * full) (ucast b AND mask rest),
             r\<lparr>br_idx := at + left + 8 * full + rest\<rparr>))
       else Ok (v1, r\<lparr>br_idx := at + left + 8 * full\<rparr>))"
    unfolding get_bits_tail_def Let_def defs loop push_1_minus_1 by simp
  show ?thesis
  proof (cases "rest > 0")
    case True
    then have inside: "at + left + 8 * full < 8 * length src"
      using fit total by (simp add: defs)
    let ?w = "ucast (src ! ((at + left + 8 * full) div 8)) AND (mask rest :: u64)"
    have al: "8 dvd at + left + 8 * full" using dvd by simp
    have "bit ?w i \<longleftrightarrow> i < rest \<and> sbit src (at + (left + 8 * full) + i)" for i
      using aligned_byte_bits [OF al inside, of i] rest8 by (auto simp: bit_simps add.assoc)
    then have "holds_bits (v1 OR push_bit (left + 8 * full) ?w) src at (left + 8 * full + rest)"
      using v1 n total by (intro holds_bits_extend) auto
    then show ?thesis
      using True inside total unfolding tail defs by (simp add: div_less_iff_less_mult add.assoc)
  next
    case False
    then show ?thesis using v1 total unfolding tail defs by (simp add: add.assoc)
  qed
qed

lemma get_bits_ok:
  assumes n: "n \<le> 64" "n \<le> bits_left r" and pos: "br_idx r < 8 * length (br_source r)"
  shows "\<exists>v. get_bits r n = Ok (v, r\<lparr>br_idx := br_idx r + n\<rparr>)
     \<and> holds_bits v (br_source r) (br_idx r) n"
proof -
  define at where "at = br_idx r"
  define src where "src = br_source r"
  define left where "left = 8 - at mod 8"
  define v0 :: u64 where "v0 = ucast (drop_bit (8 - left) (src ! (at div 8)))"
  note defs = at_def [symmetric] src_def [symmetric]
  have idx0: "at div 8 < length src" and pos': "at < 8 * length src"
    using pos by (simp_all add: defs div_less_iff_less_mult)
  have nn: "8 - left = at mod 8" by (simp add: left_def)
  have v0: "holds_bits v0 src at left"
    unfolding holds_bits_def v0_def nn using first_byte_bits [OF pos'] by (simp add: left_def)
  have body: "get_bits r n =
      (if left \<ge> n then Ok (v0 AND (push_bit n 1 - 1), r\<lparr>br_idx := at + n\<rparr>)
       else get_bits_tail r at n left v0)"
    using n idx0 unfolding get_bits_def Let_def defs left_def [symmetric]
    by (simp add: v0_def)
  show ?thesis
  proof (cases "n \<le> left")
    case True
    have "holds_bits (v0 AND mask n) src at n"
      unfolding holds_bits_def bit_and_iff bit_mask_iff v0 [unfolded holds_bits_def, rule_format]
      using True n by auto
    then show ?thesis using True unfolding body push_1_minus_1 defs by simp
  next
    case False
    have "8 dvd at + left" unfolding left_def by (rule next_byte_boundary)
    moreover have "at + n \<le> 8 * length src"
      using n(2) pos' unfolding bits_left_def defs by linarith
    ultimately have "\<exists>v. get_bits_tail r at n left v0 = Ok (v, r\<lparr>br_idx := at + n\<rparr>) \<and> holds_bits v src at n"
      using get_bits_tail_ok [of n left at r v0] v0 False n unfolding src_def by simp
    then show ?thesis using False unfolding body defs by simp
  qed
qed

lemma get_bits_errors:
  "n > 64 \<Longrightarrow> get_bits r n = Err (TooManyBits n 64)"
  "\<lbrakk>n \<le> 64; bits_left r < n\<rbrakk> \<Longrightarrow> get_bits r n = Err (NotEnoughRemainingBits n (bits_left r))"
  by (auto simp: get_bits_def)

lemma holds_bits_value:
  "holds_bits v source at n \<Longrightarrow> v = word_of_nat (take_bit n (drop_bit at (le_val source)))"
proof (rule bit_word_eqI)
  fix i assume "holds_bits v source at n" "i < LENGTH(64)"
  then show "bit v i = bit (word_of_nat (take_bit n (drop_bit at (le_val source))) :: u64) i"
    by (simp add: holds_bits_def bit_of_nat_iff bit_take_bit_iff bit_drop_bit_eq bit_le_val)
qed

lemma get_bits_spec:
  "get_bits r n =
     (if 64 < n then Err (TooManyBits n 64)
      else if bits_left r < n then Err (NotEnoughRemainingBits n (bits_left r))
      else if bits_left r = 0 then Panic
      else Ok (word_of_nat (take_bit n (drop_bit (br_idx r) (le_val (br_source r)))),
               r\<lparr>br_idx := br_idx r + n\<rparr>))"
proof (cases "n \<le> 64 \<and> n \<le> bits_left r \<and> bits_left r \<noteq> 0")
  case True
  then have "br_idx r < 8 * length (br_source r)" by (simp add: bits_left_def)
  with True get_bits_ok [of n r] show ?thesis by (auto dest: holds_bits_value)
next
  case False
  then consider "64 < n" | "n \<le> 64" "bits_left r < n" | "n = 0" "bits_left r = 0" by linarith
  then show ?thesis
  proof cases
    case 3
    then have "length (br_source r) \<le> br_idx r div 8" by (simp add: bits_left_def)
    with 3 show ?thesis by (simp add: get_bits_def index_of_def)
  qed (auto simp: get_bits_errors)
qed

section \<open>Properties\<close>

text \<open>
  C31. The forward bit reader, on every input: a width above 64 and a read past the end are the two
  errors; every other read returns the field of the slice read as one little-endian number and
  moves the cursor by the width, except that a zero-width read of an exhausted reader panics.
\<close>

theorem get_bits_complete:
  "get_bits r n =
     (if 64 < n then Err (TooManyBits n 64)
      else if bits_left r < n then Err (NotEnoughRemainingBits n (bits_left r))
      else if bits_left r = 0 then Panic
      else Ok (word_of_nat (take_bit n (drop_bit (br_idx r) (le_val (br_source r)))),
               r\<lparr>br_idx := br_idx r + n\<rparr>))"
  by (rule get_bits_spec)

end
