(* ===== verification/Cpu_Kernel.thy ===== *)
theory Cpu_Kernel
  imports Prelude
begin

text \<open>
  The bit-mask part of the CPU kernel trait of \<^verbatim>\<open>zstd/src/cpu_kernel.rs\<close>. The decoders are generic
  over the kernel, so the interface they rely on is the locale \<open>cpu_kernel\<close>: masking keeps the low
  \<open>n\<close> bits for every width up to 64. It is interpreted on the scalar kernel (a mask table) and on
  the two-instruction form the 32-bit x86 kernel uses.
\<close>

section \<open>The kernels\<close>

text \<open>\<open>BIT_MASK\<close>: 256 entries, the low \<open>i\<close> bits for \<open>i < 64\<close> and all ones beyond.\<close>

definition BIT_MASK :: "nat \<Rightarrow> u64" where
  "BIT_MASK i = (if i < 64 then push_bit i 1 - 1 else - 1)"

definition scalar_mask_lower_bits :: "u64 \<Rightarrow> nat \<Rightarrow> u64" where
  "scalar_mask_lower_bits value n = value AND BIT_MASK n"

text \<open>The instruction \<open>_bzhi_u32\<close> zeroes the bits from position \<open>n\<close> on.\<close>

definition bzhi_u32 :: "u32 \<Rightarrow> nat \<Rightarrow> u32" where
  "bzhi_u32 value n = take_bit n value"

text \<open>The function has one body per pointer width: the 64-bit instruction on x86-64, and two halves on 32-bit x86.\<close>

definition bzhi_u64 :: "u64 \<Rightarrow> nat \<Rightarrow> u64" where
  "bzhi_u64 value n = take_bit n value"

definition mask_lower_bits_bmi2_x64 :: "u64 \<Rightarrow> nat \<Rightarrow> u64" where
  "mask_lower_bits_bmi2_x64 value n = bzhi_u64 value n"

definition mask_lower_bits_bmi2_impl :: "u64 \<Rightarrow> nat \<Rightarrow> u64" where
  "mask_lower_bits_bmi2_impl value n =
     (if n \<ge> 64 then value
      else if n \<le> 32 then ucast (bzhi_u32 (ucast value) n)
      else let high = bzhi_u32 (ucast (drop_bit 32 value)) (n - 32)
           in (value AND ucast (- 1 :: u32)) OR push_bit 32 (ucast high))"

text \<open>\<open>wrapping_shr\<close> takes the shift amount modulo 64.\<close>

definition wrapping_shr :: "u64 \<Rightarrow> nat \<Rightarrow> u64" where
  "wrapping_shr w k = drop_bit (k mod 64) w"

definition extract_triple ::
  "(u64 \<Rightarrow> nat \<Rightarrow> u64) \<Rightarrow> u64 \<Rightarrow> nat \<Rightarrow> nat \<Rightarrow> nat \<Rightarrow> u64 \<times> u64 \<times> u64" where
  "extract_triple mask_lower_bits packed n1 n2 n3 =
     (mask_lower_bits (wrapping_shr packed (n3 + n2)) n1,
      mask_lower_bits (wrapping_shr packed n3) n2,
      mask_lower_bits packed n3)"

section \<open>The interface\<close>

locale cpu_kernel =
  fixes mask_lower_bits :: "u64 \<Rightarrow> nat \<Rightarrow> u64"
  assumes mask_lower_bits: "n \<le> 64 \<Longrightarrow> mask_lower_bits value n = take_bit n value"
begin

lemma mask_lower_bits_0: "mask_lower_bits value 0 = 0"
  by (simp add: mask_lower_bits)

lemma extract_triple_fields:
  assumes "n1 + n2 + n3 < 64"
  shows "extract_triple mask_lower_bits packed n1 n2 n3 =
     (take_bit n1 (drop_bit (n3 + n2) packed), take_bit n2 (drop_bit n3 packed), take_bit n3 packed)"
  using assms by (simp add: extract_triple_def mask_lower_bits wrapping_shr_def)

end

lemma take_bit_64: "take_bit 64 (v :: u64) = v"
  by (rule bit_word_eqI) (simp add: bit_take_bit_iff)

lemma low_half_mask: "ucast (- 1 :: u32) = (mask 32 :: u64)"
  by (rule bit_word_eqI) (auto simp: bit_simps)

interpretation scalar_kernel: cpu_kernel scalar_mask_lower_bits
proof
  fix n :: nat and v :: u64
  assume "n \<le> 64"
  then show "scalar_mask_lower_bits v n = take_bit n v"
    by (cases "n = 64")
      (simp add: scalar_mask_lower_bits_def BIT_MASK_def take_bit_64,
       simp add: scalar_mask_lower_bits_def BIT_MASK_def take_bit_eq_mask mask_eq_exp_minus_1
         push_bit_eq_mult)
qed

interpretation bmi2_x64_kernel: cpu_kernel mask_lower_bits_bmi2_x64
  by unfold_locales (simp add: mask_lower_bits_bmi2_x64_def bzhi_u64_def)

text \<open>Both bodies give the same mask.\<close>

interpretation bmi2_kernel: cpu_kernel mask_lower_bits_bmi2_impl
proof
  fix n :: nat and v :: u64
  assume n: "n \<le> 64"
  show "mask_lower_bits_bmi2_impl v n = take_bit n v"
  proof (cases "n = 64")
    case True
    then show ?thesis by (simp add: mask_lower_bits_bmi2_impl_def take_bit_64)
  next
    case False
    with n have "n < 64" by simp
    show ?thesis
    proof (rule bit_word_eqI)
      fix i assume "i < LENGTH(64)"
      then show "bit (mask_lower_bits_bmi2_impl v n) i = bit (take_bit n v) i"
        using \<open>n < 64\<close> unfolding mask_lower_bits_bmi2_impl_def bzhi_u32_def low_half_mask Let_def
        by (auto simp: bit_and_iff bit_or_iff bit_mask_iff bit_push_bit_iff bit_take_bit_iff
            bit_unsigned_iff bit_drop_bit_eq)
    qed
  qed
qed

end
