(* ===== verification/Bit_Reader_Reverse.thy ===== *)
theory Bit_Reader_Reverse
  imports Cpu_Kernel
begin

text \<open>
  The reversed bit reader of \<^verbatim>\<open>zstd/src/bit_io/bit_reader_reverse.rs\<close>: it reads a byte slice from
  its last bit to its first through a 64-bit container. Refilling moves an eight-byte window
  backwards; at the front of the slice the container is shifted and the missing low bits count as
  \<open>extra_bits\<close>. Reading past the front yields zero bits.

  The specification is positional: bit \<open>p\<close> of the slice, with zero at every negative position. The
  invariant says which positions the unread part of the container holds. The flag \<open>on_amd\<close> stands
  for \<open>cfg!(target_arch = "x86_64")\<close>, the parameter \<open>mlb\<close> for the kernel's \<open>mask_lower_bits\<close>.
  Only slice indexing can panic, so the operations return an option, \<open>None\<close> for the panic.
  The \<open>u8\<close> counters are natural numbers: they stay below 128 for the widths up to 56 that the
  reader accepts.
\<close>

section \<open>The reader\<close>

record bit_reader_rev =
  rr_index :: nat
  rr_bits_consumed :: nat
  rr_extra_bits :: nat
  rr_source :: "u8 list"
  rr_bit_container :: u64

definition bits_remaining :: "bit_reader_rev \<Rightarrow> int" where
  "bits_remaining r =
     int (rr_index r) * 8 + (64 - int (rr_bits_consumed r)) - int (rr_extra_bits r)"

definition bit_reader_rev_new :: "u8 list \<Rightarrow> bit_reader_rev" where
  "bit_reader_rev_new source =
     \<lparr>rr_index = length source, rr_bits_consumed = 64, rr_extra_bits = 0, rr_source = source,
      rr_bit_container = 0\<rparr>"

text \<open>\<open>u64::from_le_bytes((&source[i..][..8]).try_into().unwrap())\<close>\<close>

definition load_window :: "u8 list \<Rightarrow> nat \<Rightarrow> u64 option" where
  "load_window source i =
     (if i + 8 \<le> length source then Some (from_le_bytes (take 8 (drop i source))) else None)"

definition refill_slow :: "bit_reader_rev \<Rightarrow> bit_reader_rev option" where
  "refill_slow r =
     (if rr_index r > 0 then
        let source = rr_source r in
        Option.bind (if length source \<ge> 8 then load_window source 0
               else Some (from_le_bytes (source @ replicate (8 - length source) 0))) (\<lambda>container.
          let consumed = rr_bits_consumed r - 8 * rr_index r
          in Some (r\<lparr>rr_bit_container := push_bit consumed container, rr_index := 0,
                   rr_extra_bits := rr_extra_bits r + consumed, rr_bits_consumed := 0\<rparr>))
      else
        Some (r\<lparr>rr_bit_container :=
                (if rr_bits_consumed r < 64
                 then push_bit (rr_bits_consumed r) (rr_bit_container r) else 0),
              rr_extra_bits := rr_extra_bits r + rr_bits_consumed r, rr_bits_consumed := 0\<rparr>))"

definition slide_window :: "bit_reader_rev \<Rightarrow> nat \<Rightarrow> bit_reader_rev option" where
  "slide_window r bytes_consumed =
     (let index = rr_index r - bytes_consumed in
      Option.bind (load_window (rr_source r) index) (\<lambda>container.
        Some (r\<lparr>rr_index := index, rr_bits_consumed := rr_bits_consumed r mod 8,
              rr_bit_container := container\<rparr>)))"

definition refill :: "bool \<Rightarrow> bit_reader_rev \<Rightarrow> bit_reader_rev option" where
  "refill on_amd r =
     (let bytes_consumed = rr_bits_consumed r div 8 in
      if on_amd \<and> rr_index r \<ge> 8 then slide_window r bytes_consumed
      else if bytes_consumed = 0 then Some r
      else if rr_index r \<ge> bytes_consumed then slide_window r bytes_consumed
      else refill_slow r)"

text \<open>
  \<open>refill_sequence\<close> on aarch64 and x86-64 (\<open>fast\<close>) reads the window without a bounds check: the
  model keeps the check, so that an access outside the slice is a panic here. Elsewhere it is
  \<open>refill\<close>.
\<close>

definition refill_sequence :: "bool \<Rightarrow> bool \<Rightarrow> bit_reader_rev \<Rightarrow> bit_reader_rev option" where
  "refill_sequence fast on_amd r =
     (if \<not> fast then refill on_amd r
      else let bytes_consumed = rr_bits_consumed r div 8 in
        if bytes_consumed = 0 then Some r
        else if rr_index r \<ge> 8 then slide_window r bytes_consumed
        else refill on_amd r)"

definition peek_bits :: "(u64 \<Rightarrow> nat \<Rightarrow> u64) \<Rightarrow> bit_reader_rev \<Rightarrow> nat \<Rightarrow> u64" where
  "peek_bits mlb r n =
     (let shift_by = (64 - rr_bits_consumed r + 256 - n) mod 256
      in mlb (wrapping_shr (rr_bit_container r) shift_by) n)"

definition consume :: "bit_reader_rev \<Rightarrow> nat \<Rightarrow> bit_reader_rev" where
  "consume r n = r\<lparr>rr_bits_consumed := rr_bits_consumed r + n\<rparr>"

definition get_bits_rev ::
  "bool \<Rightarrow> (u64 \<Rightarrow> nat \<Rightarrow> u64) \<Rightarrow> bit_reader_rev \<Rightarrow> nat \<Rightarrow> (u64 \<times> bit_reader_rev) option" where
  "get_bits_rev on_amd mlb r n =
     Option.bind (if rr_bits_consumed r + n > 64 then refill on_amd r else Some r) (\<lambda>r.
       Some (peek_bits mlb r n, consume r n))"

definition ensure_bits :: "bool \<Rightarrow> bit_reader_rev \<Rightarrow> nat \<Rightarrow> bit_reader_rev option" where
  "ensure_bits on_amd r n = (if rr_bits_consumed r + n > 64 then refill on_amd r else Some r)"

definition get_bits_unchecked ::
  "(u64 \<Rightarrow> nat \<Rightarrow> u64) \<Rightarrow> bit_reader_rev \<Rightarrow> nat \<Rightarrow> u64 \<times> bit_reader_rev" where
  "get_bits_unchecked mlb r n = (peek_bits mlb r n, consume r n)"

definition peek_bits_triple ::
  "(u64 \<Rightarrow> nat \<Rightarrow> u64) \<Rightarrow> bit_reader_rev \<Rightarrow> nat \<Rightarrow> nat \<Rightarrow> nat \<Rightarrow> nat \<Rightarrow> u64 \<times> u64 \<times> u64" where
  "peek_bits_triple mlb r nsum n1 n2 n3 =
     (let shift_by = (64 - rr_bits_consumed r + 256 - nsum) mod 256;
          all_three = wrapping_shr (rr_bit_container r) shift_by
      in extract_triple mlb all_three n1 n2 n3)"

definition get_bits_triple ::
  "bool \<Rightarrow> (u64 \<Rightarrow> nat \<Rightarrow> u64) \<Rightarrow> bit_reader_rev \<Rightarrow> nat \<Rightarrow> nat \<Rightarrow> nat
     \<Rightarrow> ((u64 \<times> u64 \<times> u64) \<times> bit_reader_rev) option" where
  "get_bits_triple on_amd mlb r n1 n2 n3 =
     (let sum_wide = n1 + n2 + n3 in
      if sum_wide \<le> 56 then
        Option.bind (ensure_bits on_amd r sum_wide) (\<lambda>r.
          Some (peek_bits_triple mlb r sum_wide n1 n2 n3, consume r sum_wide))
      else
        Option.bind (get_bits_rev on_amd mlb r n1) (\<lambda>(v1, r).
        Option.bind (get_bits_rev on_amd mlb r n2) (\<lambda>(v2, r).
        Option.bind (get_bits_rev on_amd mlb r n3) (\<lambda>(v3, r). Some ((v1, v2, v3), r)))))"

section \<open>Positions and the invariant\<close>

definition zbit :: "u8 list \<Rightarrow> int \<Rightarrow> bool" where
  "zbit source p \<longleftrightarrow> 0 \<le> p \<and> sbit source (nat p)"

text \<open>The \<open>n\<close> bits below position \<open>p\<close>, the lowest first.\<close>

definition rev_field :: "u8 list \<Rightarrow> int \<Rightarrow> nat \<Rightarrow> u64 \<Rightarrow> bool" where
  "rev_field source p n v \<longleftrightarrow> (\<forall>i. bit v i \<longleftrightarrow> i < n \<and> zbit source (p - int n + int i))"

definition window_base :: "bit_reader_rev \<Rightarrow> int" where
  "window_base r = 8 * int (rr_index r) - int (rr_extra_bits r)"

definition window_placed :: "bit_reader_rev \<Rightarrow> bool" where
  "window_placed r \<longleftrightarrow> rr_index r + 8 \<le> length (rr_source r) \<or> rr_index r = 0
     \<or> (rr_index r = length (rr_source r) \<and> rr_bits_consumed r = 64)"

definition rev_inv :: "bit_reader_rev \<Rightarrow> bool" where
  "rev_inv r \<longleftrightarrow> rr_bits_consumed r \<le> 64 \<and> window_placed r
     \<and> (rr_extra_bits r = 0 \<or> rr_index r = 0)
     \<and> (\<forall>j < 64 - rr_bits_consumed r.
          bit (rr_bit_container r) j = zbit (rr_source r) (window_base r + int j))"

lemma bits_remaining_window: "bits_remaining r = window_base r + (64 - int (rr_bits_consumed r))"
  by (simp add: bits_remaining_def window_base_def)

lemma zbit_nonneg: "zbit source (int k) = sbit source k"
  by (simp add: zbit_def)

lemma rev_inv_new: "rev_inv (bit_reader_rev_new source)"
  by (simp add: rev_inv_def bit_reader_rev_new_def window_placed_def)

lemma bits_remaining_new: "bits_remaining (bit_reader_rev_new source) = 8 * int (length source)"
  by (simp add: bits_remaining_def bit_reader_rev_new_def)

lemma load_window_bits:
  assumes "i + 8 \<le> length source"
  shows "\<exists>c. load_window source i = Some c \<and> (\<forall>j < 64. bit c j = zbit source (8 * int i + int j))"
proof (intro exI conjI allI impI)
  show "load_window source i = Some (from_le_bytes (take 8 (drop i source)))"
    using assms by (simp add: load_window_def)
  fix j :: nat assume "j < 64"
  have "8 * int i + int j = int (8 * i + j)" by simp
  with \<open>j < 64\<close> show "bit (from_le_bytes (take 8 (drop i source)) :: u64) j = zbit source (8 * int i + int j)"
    unfolding bit_from_le_bytes sbit_take sbit_drop by (simp only: zbit_nonneg) simp
qed

lemma slide_window_ok:
  assumes inv: "rev_inv r" and bytes: "bytes = rr_bits_consumed r div 8" "bytes \<le> rr_index r"
    and fits: "rr_index r - bytes + 8 \<le> length (rr_source r)" and idx: "rr_extra_bits r = 0"
  shows "\<exists>r'. slide_window r bytes = Some r' \<and> rev_inv r' \<and> rr_bits_consumed r' < 8
     \<and> bits_remaining r' = bits_remaining r \<and> rr_source r' = rr_source r"
proof -
  obtain c where c: "load_window (rr_source r) (rr_index r - bytes) = Some c"
    "\<forall>j < 64. bit c j = zbit (rr_source r) (8 * int (rr_index r - bytes) + int j)"
    using load_window_bits [OF fits] by blast
  define r' where "r' = r\<lparr>rr_index := rr_index r - bytes,
     rr_bits_consumed := rr_bits_consumed r mod 8, rr_bit_container := c\<rparr>"
  have "slide_window r bytes = Some r'"
    by (simp add: slide_window_def Let_def c r'_def)
  moreover have "rev_inv r'"
    using c(2) fits idx by (auto simp: rev_inv_def r'_def window_placed_def window_base_def)
  moreover have "bits_remaining r' = bits_remaining r"
  proof -
    have "int (rr_bits_consumed r) = 8 * int bytes + int (rr_bits_consumed r mod 8)"
      unfolding bytes(1) by presburger
    then show ?thesis using bytes(2) by (simp add: bits_remaining_def r'_def)
  qed
  ultimately show ?thesis by (auto simp: r'_def)
qed

lemma padded_window_bits:
  assumes "length source < 8" "j < 64"
  shows "bit (from_le_bytes (source @ replicate (8 - length source) 0) :: u64) j = zbit source (int j)"
proof -
  have "sbit (replicate (8 - length source) 0) k = False" for k
    by (simp add: sbit_def)
  then show ?thesis
    using assms by (auto simp: bit_from_le_bytes sbit_append zbit_nonneg dest: sbit_less)
qed

lemma refill_slow_ok:
  assumes inv: "rev_inv r" and low: "rr_index r < rr_bits_consumed r div 8"
  shows "\<exists>r'. refill_slow r = Some r' \<and> rev_inv r' \<and> rr_bits_consumed r' < 8
     \<and> bits_remaining r' = bits_remaining r \<and> rr_source r' = rr_source r"
proof (cases "rr_index r > 0")
  case True
  define consumed where "consumed = rr_bits_consumed r - 8 * rr_index r"
  have le: "8 * rr_index r \<le> rr_bits_consumed r" using low by linarith
  have extra: "rr_extra_bits r = 0" and c64: "rr_bits_consumed r \<le> 64"
    using inv True by (auto simp: rev_inv_def)
  let ?src = "rr_source r"
  obtain c where c: "(if length ?src \<ge> 8 then load_window ?src 0
      else Some (from_le_bytes (?src @ replicate (8 - length ?src) 0))) = Some c"
    and bits: "\<forall>j < 64. bit c j = zbit ?src (int j)"
    using load_window_bits [of 0 ?src] padded_window_bits [of ?src] by (cases "length ?src \<ge> 8") auto
  define r' where "r' = r\<lparr>rr_bit_container := push_bit consumed c, rr_index := 0,
     rr_extra_bits := rr_extra_bits r + consumed, rr_bits_consumed := 0\<rparr>"
  have eq: "refill_slow r = Some r'"
    using True c by (simp add: refill_slow_def Let_def r'_def consumed_def)
  have "bit (push_bit consumed c) j = zbit ?src (int j - int consumed)" if "j < 64" for j
  proof (cases "consumed \<le> j")
    case True
    with that have "bit c (j - consumed) = zbit ?src (int j - int consumed)"
      using bits [rule_format, of "j - consumed"] by simp
    with True that show ?thesis by (simp add: bit_push_bit_iff)
  next
    case False
    then show ?thesis by (simp add: bit_push_bit_iff zbit_def)
  qed
  then have "rev_inv r'"
    by (simp add: rev_inv_def r'_def window_placed_def window_base_def extra)
  with eq le extra show ?thesis
    by (auto simp: r'_def bits_remaining_def consumed_def)
next
  case False
  define r' where "r' = r\<lparr>rr_bit_container :=
      (if rr_bits_consumed r < 64 then push_bit (rr_bits_consumed r) (rr_bit_container r) else 0),
      rr_extra_bits := rr_extra_bits r + rr_bits_consumed r, rr_bits_consumed := 0\<rparr>"
  have eq: "refill_slow r = Some r'" using False by (simp add: refill_slow_def r'_def)
  have old: "bit (rr_bit_container r) j = zbit (rr_source r) (int j - int (rr_extra_bits r))"
    if "j < 64 - rr_bits_consumed r" for j
    using inv that False by (simp add: rev_inv_def window_base_def)
  have "bit (rr_bit_container r') j = zbit (rr_source r) (int j - int (rr_extra_bits r'))"
    if "j < 64" for j
  proof (cases "rr_bits_consumed r \<le> j")
    case True
    with that old [of "j - rr_bits_consumed r"] show ?thesis
      by (simp add: r'_def bit_push_bit_iff algebra_simps)
  next
    case False
    then show ?thesis by (simp add: r'_def bit_push_bit_iff zbit_def)
  qed
  then have "rev_inv r'"
    using False by (simp add: rev_inv_def r'_def window_placed_def window_base_def algebra_simps)
  with eq False show ?thesis by (auto simp: r'_def bits_remaining_def)
qed

lemma refill_ok:
  assumes inv: "rev_inv r"
  shows "\<exists>r'. refill on_amd r = Some r' \<and> rev_inv r' \<and> rr_bits_consumed r' < 8
     \<and> bits_remaining r' = bits_remaining r \<and> rr_source r' = rr_source r"
proof -
  let ?bytes = "rr_bits_consumed r div 8"
  have slide: "\<exists>r'. slide_window r ?bytes = Some r' \<and> rev_inv r' \<and> rr_bits_consumed r' < 8
     \<and> bits_remaining r' = bits_remaining r \<and> rr_source r' = rr_source r"
    if "?bytes \<le> rr_index r" "0 < rr_index r" "on_amd \<or> 0 < ?bytes"
    using slide_window_ok [OF inv refl that(1)] inv that
    by (auto simp: rev_inv_def window_placed_def)
  show ?thesis
  proof (cases "on_amd \<and> rr_index r \<ge> 8")
    case True
    have "?bytes \<le> 8" using inv by (auto simp: rev_inv_def)
    with True slide show ?thesis by (auto simp: refill_def Let_def)
  next
    case False
    then consider "?bytes = 0" | "0 < ?bytes" "?bytes \<le> rr_index r" | "rr_index r < ?bytes"
      by linarith
    then show ?thesis
    proof cases
      case 1
      then show ?thesis using False inv by (auto simp: refill_def div_eq_0_iff)
    next
      case 2
      with slide have "\<exists>r'. slide_window r ?bytes = Some r' \<and> rev_inv r' \<and> rr_bits_consumed r' < 8
         \<and> bits_remaining r' = bits_remaining r \<and> rr_source r' = rr_source r" by auto
      then show ?thesis using 2 False by (auto simp: refill_def Let_def)
    next
      case 3
      then have "refill on_amd r = refill_slow r" using False by (auto simp: refill_def Let_def)
      then show ?thesis using refill_slow_ok [OF inv 3] by simp
    qed
  qed
qed

text \<open>The unchecked reload of the sequence loop is in bounds under the invariant.\<close>

lemma refill_sequence_ok:
  assumes inv: "rev_inv r"
  shows "\<exists>r'. refill_sequence fast on_amd r = Some r' \<and> rev_inv r' \<and> rr_bits_consumed r' < 8
     \<and> bits_remaining r' = bits_remaining r \<and> rr_source r' = rr_source r"
proof (cases "fast \<and> rr_bits_consumed r div 8 \<noteq> 0 \<and> rr_index r \<ge> 8")
  case True
  then have "refill_sequence fast on_amd r = refill True r"
    by (simp add: refill_sequence_def refill_def Let_def)
  then show ?thesis using refill_ok [OF inv, of True] by simp
next
  case False
  show ?thesis
  proof (cases "fast \<and> rr_bits_consumed r div 8 = 0")
    case True
    then have "refill_sequence fast on_amd r = Some r" "rr_bits_consumed r < 8"
      by (auto simp: refill_sequence_def div_eq_0_iff)
    then show ?thesis using inv by simp
  next
    case slow: False
    have "refill_sequence fast on_amd r = refill on_amd r"
      using slow False unfolding refill_sequence_def Let_def by (cases fast) auto
    then show ?thesis using refill_ok [OF inv, of on_amd] by simp
  qed
qed

lemma ensure_bits_ok:
  assumes "rev_inv r" "n \<le> 56"
  shows "\<exists>r'. ensure_bits on_amd r n = Some r' \<and> rev_inv r' \<and> rr_bits_consumed r' + n \<le> 64
     \<and> bits_remaining r' = bits_remaining r \<and> rr_source r' = rr_source r"
  using refill_ok [OF assms(1), of on_amd] assms by (fastforce simp: ensure_bits_def)

lemma rev_inv_consume:
  "\<lbrakk>rev_inv r; rr_bits_consumed r + n \<le> 64\<rbrakk> \<Longrightarrow> rev_inv (consume r n)"
  by (auto simp: rev_inv_def consume_def window_placed_def window_base_def)

lemma bits_remaining_consume: "bits_remaining (consume r n) = bits_remaining r - int n"
  by (simp add: bits_remaining_def consume_def)

lemma source_consume [simp]: "rr_source (consume r n) = rr_source r"
  by (simp add: consume_def)

lemma rev_field_unique: "rev_field source p n v \<Longrightarrow> rev_field source p n w \<Longrightarrow> v = w"
  by (rule bit_word_eqI) (simp add: rev_field_def)

lemma window_field:
  assumes inv: "rev_inv r" and fits: "rr_bits_consumed r + k + n \<le> 64"
  shows "rev_field (rr_source r) (bits_remaining r - int k) n
     (take_bit n (drop_bit (64 - rr_bits_consumed r - k - n) (rr_bit_container r)))"
  unfolding rev_field_def
proof
  fix i
  let ?s = "64 - rr_bits_consumed r - k - n"
  show "bit (take_bit n (drop_bit ?s (rr_bit_container r))) i
     \<longleftrightarrow> i < n \<and> zbit (rr_source r) (bits_remaining r - int k - int n + int i)"
  proof (cases "i < n")
    case True
    with fits have lt: "?s + i < 64 - rr_bits_consumed r" by linarith
    with inv have "bit (rr_bit_container r) (?s + i)
        = zbit (rr_source r) (window_base r + int (?s + i))"
      by (simp add: rev_inv_def)
    also have "window_base r + int (?s + i) = bits_remaining r - int k - int n + int i"
      using fits by (simp add: bits_remaining_window)
    finally show ?thesis using True by (simp add: bit_take_bit_iff bit_drop_bit_eq)
  next
    case False
    then show ?thesis by (simp add: bit_take_bit_iff)
  qed
qed

text \<open>The wrapping \<open>u8\<close> subtraction and \<open>wrapping_shr\<close> compute the plain shift amount.\<close>

lemma shift_amount:
  assumes "c + k \<le> 64" "0 < k"
  shows "(64 - c + 256 - k) mod 256 mod 64 = 64 - c - (k :: nat)"
proof -
  have "64 - c + 256 - k = (64 - c - k) + 256" using assms by linarith
  then have "(64 - c + 256 - k) mod 256 = 64 - c - k" by simp
  then show ?thesis using assms by simp
qed

context cpu_kernel
begin

lemma peek_bits_field:
  assumes "rev_inv r" "rr_bits_consumed r + n \<le> 64"
  shows "rev_field (rr_source r) (bits_remaining r) n (peek_bits mask_lower_bits r n)"
proof (cases "n = 0")
  case True
  then show ?thesis by (simp add: rev_field_def peek_bits_def mask_lower_bits_0)
next
  case False
  with assms have "(64 - rr_bits_consumed r + 256 - n) mod 256 mod 64 = 64 - rr_bits_consumed r - n"
    by (intro shift_amount) simp_all
  with assms False have "peek_bits mask_lower_bits r n
      = take_bit n (drop_bit (64 - rr_bits_consumed r - 0 - n) (rr_bit_container r))"
    by (simp add: peek_bits_def wrapping_shr_def mask_lower_bits)
  then show ?thesis using window_field [OF assms(1), of 0 n] assms(2) by simp
qed

lemma get_bits_rev_ok:
  assumes "rev_inv r" "n \<le> 56"
  shows "\<exists>v r'. get_bits_rev on_amd mask_lower_bits r n = Some (v, r')
     \<and> rev_field (rr_source r) (bits_remaining r) n v
     \<and> rev_inv r' \<and> bits_remaining r' = bits_remaining r - int n \<and> rr_source r' = rr_source r"
proof -
  obtain r1 where r1: "ensure_bits on_amd r n = Some r1" "rev_inv r1" "rr_bits_consumed r1 + n \<le> 64"
    "bits_remaining r1 = bits_remaining r" "rr_source r1 = rr_source r"
    using ensure_bits_ok [OF assms] by blast
  have "get_bits_rev on_amd mask_lower_bits r n = Some (peek_bits mask_lower_bits r1 n, consume r1 n)"
    using r1(1) by (simp add: get_bits_rev_def ensure_bits_def)
  then show ?thesis
    using r1 peek_bits_field [OF r1(2,3)] rev_inv_consume [OF r1(2,3)]
    by (auto simp: bits_remaining_consume)
qed

lemma get_bits_unchecked_ok:
  assumes "rev_inv r" "rr_bits_consumed r + n \<le> 64"
  shows "\<exists>v r'. get_bits_unchecked mask_lower_bits r n = (v, r')
     \<and> rev_field (rr_source r) (bits_remaining r) n v
     \<and> rev_inv r' \<and> bits_remaining r' = bits_remaining r - int n \<and> rr_source r' = rr_source r
     \<and> rr_bits_consumed r' = rr_bits_consumed r + n"
  using peek_bits_field [OF assms] rev_inv_consume [OF assms]
  by (simp add: get_bits_unchecked_def bits_remaining_consume) (simp add: consume_def)

lemma peek_bits_triple_fields:
  assumes inv: "rev_inv r" and fits: "rr_bits_consumed r + (n1 + n2 + n3) \<le> 64"
    and lt: "n1 + n2 + n3 < 64"
  shows "\<exists>v1 v2 v3. peek_bits_triple mask_lower_bits r (n1 + n2 + n3) n1 n2 n3 = (v1, v2, v3)
     \<and> rev_field (rr_source r) (bits_remaining r) n1 v1
     \<and> rev_field (rr_source r) (bits_remaining r - int n1) n2 v2
     \<and> rev_field (rr_source r) (bits_remaining r - int (n1 + n2)) n3 v3"
proof (cases "n1 + n2 + n3 = 0")
  case True
  then show ?thesis
    by (simp add: peek_bits_triple_def extract_triple_def mask_lower_bits_0 rev_field_def)
next
  case False
  let ?c = "rr_bits_consumed r" and ?w = "rr_bit_container r"
  have "(64 - ?c + 256 - (n1 + n2 + n3)) mod 256 mod 64 = 64 - ?c - (n1 + n2 + n3)"
    using fits False by (intro shift_amount) simp_all
  then have "peek_bits_triple mask_lower_bits r (n1 + n2 + n3) n1 n2 n3 =
     extract_triple mask_lower_bits (drop_bit (64 - ?c - (n1 + n2 + n3)) ?w) n1 n2 n3"
    by (simp add: peek_bits_triple_def wrapping_shr_def)
  moreover have "n3 + n2 + (64 - ?c - (n1 + n2 + n3)) = 64 - ?c - 0 - n1"
    "n3 + (64 - ?c - (n1 + n2 + n3)) = 64 - ?c - n1 - n2"
    "64 - ?c - (n1 + n2 + n3) = 64 - ?c - (n1 + n2) - n3"
    using fits by simp_all
  ultimately show ?thesis
    using window_field [OF inv, of 0 n1] window_field [OF inv, of n1 n2]
      window_field [OF inv, of "n1 + n2" n3] fits
    by (simp add: extract_triple_fields [OF lt])
qed

lemma get_bits_triple_ok:
  assumes "rev_inv r" "n1 \<le> 56" "n2 \<le> 56" "n3 \<le> 56"
  shows "\<exists>v1 v2 v3 r'. get_bits_triple on_amd mask_lower_bits r n1 n2 n3 = Some ((v1, v2, v3), r')
     \<and> rev_field (rr_source r) (bits_remaining r) n1 v1
     \<and> rev_field (rr_source r) (bits_remaining r - int n1) n2 v2
     \<and> rev_field (rr_source r) (bits_remaining r - int n1 - int n2) n3 v3
     \<and> rev_inv r' \<and> bits_remaining r' = bits_remaining r - int (n1 + n2 + n3)
     \<and> rr_source r' = rr_source r"
proof (cases "n1 + n2 + n3 \<le> 56")
  case True
  obtain r1 where r1: "ensure_bits on_amd r (n1 + n2 + n3) = Some r1" "rev_inv r1"
    "rr_bits_consumed r1 + (n1 + n2 + n3) \<le> 64"
    "bits_remaining r1 = bits_remaining r" "rr_source r1 = rr_source r"
    using ensure_bits_ok [OF assms(1) True] by blast
  have "n1 + n2 + n3 < 64" using True by simp
  from peek_bits_triple_fields [OF r1(2,3) this] rev_inv_consume [OF r1(2,3)] r1 True
  show ?thesis by (auto simp: get_bits_triple_def Let_def bits_remaining_consume algebra_simps)
next
  case False
  obtain v1 r1 where s1: "get_bits_rev on_amd mask_lower_bits r n1 = Some (v1, r1)"
    "rev_field (rr_source r) (bits_remaining r) n1 v1" "rev_inv r1"
    "bits_remaining r1 = bits_remaining r - int n1" "rr_source r1 = rr_source r"
    using get_bits_rev_ok [OF assms(1,2)] by blast
  obtain v2 r2 where s2: "get_bits_rev on_amd mask_lower_bits r1 n2 = Some (v2, r2)"
    "rev_field (rr_source r) (bits_remaining r1) n2 v2" "rev_inv r2"
    "bits_remaining r2 = bits_remaining r1 - int n2" "rr_source r2 = rr_source r"
    using get_bits_rev_ok [OF s1(3) assms(3)] s1(5) by metis
  obtain v3 r3 where s3: "get_bits_rev on_amd mask_lower_bits r2 n3 = Some (v3, r3)"
    "rev_field (rr_source r) (bits_remaining r2) n3 v3" "rev_inv r3"
    "bits_remaining r3 = bits_remaining r2 - int n3" "rr_source r3 = rr_source r"
    using get_bits_rev_ok [OF s2(3) assms(4)] s2(5) by metis
  show ?thesis using False s1 s2 s3 by (simp add: get_bits_triple_def Let_def)
qed

lemma get_bits_triple_three_reads:
  assumes "rev_inv r" "n1 \<le> 56" "n2 \<le> 56" "n3 \<le> 56"
  shows "\<exists>v1 v2 v3 r1 r2 r3 r'.
     get_bits_rev on_amd mask_lower_bits r n1 = Some (v1, r1)
     \<and> get_bits_rev on_amd mask_lower_bits r1 n2 = Some (v2, r2)
     \<and> get_bits_rev on_amd mask_lower_bits r2 n3 = Some (v3, r3)
     \<and> get_bits_triple on_amd mask_lower_bits r n1 n2 n3 = Some ((v1, v2, v3), r')
     \<and> bits_remaining r' = bits_remaining r3 \<and> rr_source r' = rr_source r3 \<and> rev_inv r'"
proof -
  obtain v1 r1 where s1: "get_bits_rev on_amd mask_lower_bits r n1 = Some (v1, r1)"
    "rev_field (rr_source r) (bits_remaining r) n1 v1" "rev_inv r1"
    "bits_remaining r1 = bits_remaining r - int n1" "rr_source r1 = rr_source r"
    using get_bits_rev_ok [OF assms(1,2)] by blast
  obtain v2 r2 where s2: "get_bits_rev on_amd mask_lower_bits r1 n2 = Some (v2, r2)"
    "rev_field (rr_source r) (bits_remaining r1) n2 v2" "rev_inv r2"
    "bits_remaining r2 = bits_remaining r1 - int n2" "rr_source r2 = rr_source r"
    using get_bits_rev_ok [OF s1(3) assms(3)] s1(5) by metis
  obtain v3 r3 where s3: "get_bits_rev on_amd mask_lower_bits r2 n3 = Some (v3, r3)"
    "rev_field (rr_source r) (bits_remaining r2) n3 v3" "rev_inv r3"
    "bits_remaining r3 = bits_remaining r2 - int n3" "rr_source r3 = rr_source r"
    using get_bits_rev_ok [OF s2(3) assms(4)] s2(5) by metis
  obtain u1 u2 u3 r' where t: "get_bits_triple on_amd mask_lower_bits r n1 n2 n3 = Some ((u1, u2, u3), r')"
    "rev_field (rr_source r) (bits_remaining r) n1 u1"
    "rev_field (rr_source r) (bits_remaining r - int n1) n2 u2"
    "rev_field (rr_source r) (bits_remaining r - int n1 - int n2) n3 u3"
    "rev_inv r'" "bits_remaining r' = bits_remaining r - int (n1 + n2 + n3)" "rr_source r' = rr_source r"
    using get_bits_triple_ok [OF assms] by metis
  have "u1 = v1" "u2 = v2" "u3 = v3"
    using rev_field_unique t(2-4) s1 s2 s3 by metis+
  with s1 s2 s3 t show ?thesis by auto
qed

end

section \<open>Properties\<close>

text \<open>
  The unchecked eight-byte load of the sequence loop's refill never leaves the slice, on any
  target: from every reader that satisfies the invariant, \<open>refill_sequence\<close> returns, keeps the
  invariant, the source and the stream position, and makes at least 57 bits available.
\<close>

theorem refill_sequence_in_bounds:
  assumes "rev_inv r"
  shows "\<exists>r'. refill_sequence fast on_amd r = Some r' \<and> rev_inv r' \<and> rr_bits_consumed r' < 8
     \<and> bits_remaining r' = bits_remaining r \<and> rr_source r' = rr_source r"
  by (rule refill_sequence_ok [OF assms])

theorem refill_sequence_in_bounds_witness:
  "\<exists>r'. refill_sequence True True (bit_reader_rev_new [1, 2, 3, 4, 5, 6, 7, 8, 9]) = Some r'
     \<and> rev_inv r' \<and> rr_bits_consumed r' < 8
     \<and> bits_remaining r' = bits_remaining (bit_reader_rev_new [1, 2, 3, 4, 5, 6, 7, 8, 9])
     \<and> rr_source r' = rr_source (bit_reader_rev_new [1, 2, 3, 4, 5, 6, 7, 8, 9])"
  by (rule refill_sequence_in_bounds) (rule rev_inv_new)

text \<open>
  C32. The combined triple read is three single reads, with the plain and with the BMI2 kernel: both
  return, with the same three values and with readers at the same position of the same slice.
\<close>

theorem get_bits_triple_is_three_reads:
  assumes "rev_inv r" "n1 \<le> 56" "n2 \<le> 56" "n3 \<le> 56"
    and kernel: "mlb \<in> {scalar_mask_lower_bits, mask_lower_bits_bmi2_impl}"
  shows "\<exists>v1 v2 v3 r1 r2 r3 r'.
     get_bits_rev on_amd mlb r n1 = Some (v1, r1) \<and> get_bits_rev on_amd mlb r1 n2 = Some (v2, r2)
     \<and> get_bits_rev on_amd mlb r2 n3 = Some (v3, r3)
     \<and> get_bits_triple on_amd mlb r n1 n2 n3 = Some ((v1, v2, v3), r')
     \<and> bits_remaining r' = bits_remaining r3 \<and> rr_source r' = rr_source r3 \<and> rev_inv r'"
  using kernel scalar_kernel.get_bits_triple_three_reads [OF assms(1-4)]
    bmi2_kernel.get_bits_triple_three_reads [OF assms(1-4)] by blast

theorem get_bits_triple_is_three_reads_witness:
  "\<exists>v1 v2 v3 r1 r2 r3 r'.
     get_bits_rev True scalar_mask_lower_bits (bit_reader_rev_new [0x5A, 0xC3]) 3 = Some (v1, r1)
     \<and> get_bits_rev True scalar_mask_lower_bits r1 5 = Some (v2, r2)
     \<and> get_bits_rev True scalar_mask_lower_bits r2 4 = Some (v3, r3)
     \<and> get_bits_triple True scalar_mask_lower_bits (bit_reader_rev_new [0x5A, 0xC3]) 3 5 4
         = Some ((v1, v2, v3), r')
     \<and> bits_remaining r' = bits_remaining r3 \<and> rr_source r' = rr_source r3 \<and> rev_inv r'"
  by (rule get_bits_triple_is_three_reads) (simp_all add: rev_inv_new)

end
