(* ===== verification/Bit_Writer.thy ===== *)
theory Bit_Writer
  imports Prelude
begin

text \<open>
  The bit writer of \<^verbatim>\<open>zstd/src/bit_io/bit_writer.rs\<close> and its burst mode. A writer holds whole bytes
  in \<open>output\<close> and up to 63 pending bits in \<open>partial\<close>; its abstraction is the list of all bits
  written so far, and every operation is specified by what it does to that list. Failed assertions
  are \<open>None\<close>.
\<close>

section \<open>The writer\<close>

record bit_writer =
  bw_output :: "u8 list"
  bw_partial :: u64
  bw_bits_in_partial :: nat
  bw_bit_idx :: nat

definition bit_writer_from :: "u8 list \<Rightarrow> bit_writer" where
  "bit_writer_from output =
     \<lparr>bw_output = output, bw_partial = 0, bw_bits_in_partial = 0, bw_bit_idx = length output * 8\<rparr>"

definition bw_index :: "bit_writer \<Rightarrow> nat" where
  "bw_index w = bw_bit_idx w + bw_bits_in_partial w"

definition misaligned :: "bit_writer \<Rightarrow> nat" where
  "misaligned w = (let idx = bw_index w in if 8 dvd idx then 0 else 8 - idx mod 8)"

text \<open>\<open>Vec::resize(n, 0)\<close>\<close>

definition resize_zero :: "u8 list \<Rightarrow> nat \<Rightarrow> u8 list" where
  "resize_zero xs n = take n xs @ replicate (n - length xs) 0"

definition reset_to :: "bit_writer \<Rightarrow> nat \<Rightarrow> bit_writer option" where
  "reset_to w index =
     (if 8 dvd index
      then Some \<lparr>bw_output = resize_zero (bw_output w) (index div 8), bw_partial = 0,
                 bw_bits_in_partial = 0, bw_bit_idx = index\<rparr>
      else None)"

definition bw_flush :: "bit_writer \<Rightarrow> bit_writer option" where
  "bw_flush w =
     (if 8 dvd bw_bits_in_partial w then
        let full_bytes = bw_bits_in_partial w div 8 in
        Some (w\<lparr>bw_output := bw_output w @ take full_bytes (to_le_bytes 8 (bw_partial w)),
                bw_partial := (if full_bytes = 8 then 0 else drop_bit (full_bytes * 8) (bw_partial w)),
                bw_bits_in_partial := bw_bits_in_partial w - full_bytes * 8,
                bw_bit_idx := bw_bit_idx w + full_bytes * 8\<rparr>)
      else None)"

text \<open>\<open>xs[i] = v\<close>, a panic out of range.\<close>

definition set_at :: "'a list \<Rightarrow> nat \<Rightarrow> 'a \<Rightarrow> 'a list option" where
  "set_at xs i v = (if i < length xs then Some (xs[i := v]) else None)"

text \<open>The loop of \<open>change_bits_64\<close> over whole bytes, then its leftover bits.\<close>

fun change_full_bytes :: "u8 list \<Rightarrow> nat \<Rightarrow> u64 \<Rightarrow> nat \<Rightarrow> u8 list option" where
  "change_full_bytes output idx bits num_bits =
     (if num_bits \<ge> 8 then
        Option.bind (set_at output idx (ucast bits)) (\<lambda>output.
          change_full_bytes output (idx + 1) (drop_bit 8 bits) (num_bits - 8))
      else if num_bits > 0 then
        (if idx < length output
         then Some (output[idx := (output ! idx AND push_bit num_bits 0xFF) OR ucast bits])
         else None)
      else Some output)"

definition change_first_byte :: "u8 list \<Rightarrow> nat \<Rightarrow> u64 \<Rightarrow> nat \<Rightarrow> u8 list option" where
  "change_first_byte output idx bits bits_in_first_byte =
     (if idx div 8 < length output
      then Some (output[idx div 8 := (output ! (idx div 8) AND drop_bit bits_in_first_byte 0xFF)
                          OR ucast (push_bit (8 - bits_in_first_byte) bits)])
      else None)"

definition change_bits_64 :: "bit_writer \<Rightarrow> nat \<Rightarrow> u64 \<Rightarrow> nat \<Rightarrow> bit_writer option" where
  "change_bits_64 w idx bits num_bits =
     Option.bind (bw_flush w) (\<lambda>w.
       if \<not> idx + num_bits < bw_index w then None
       else if \<not> bw_index w - (idx + num_bits) > bw_bits_in_partial w then None
       else if \<not> 8 dvd idx then
         let bits_in_first_byte = 8 - idx mod 8 in
         if \<not> bits_in_first_byte \<le> num_bits then None
         else Option.bind (change_first_byte (bw_output w) idx bits bits_in_first_byte) (\<lambda>output.
              Option.bind (change_full_bytes output ((idx + bits_in_first_byte) div 8)
                 (drop_bit bits_in_first_byte bits) (num_bits - bits_in_first_byte)) (\<lambda>output.
              Some (w\<lparr>bw_output := output\<rparr>)))
       else Option.bind (change_full_bytes (bw_output w) (idx div 8) bits num_bits) (\<lambda>output.
              Some (w\<lparr>bw_output := output\<rparr>)))"

definition append_bytes :: "bit_writer \<Rightarrow> u8 list \<Rightarrow> bit_writer option" where
  "append_bytes w data =
     (if misaligned w \<noteq> 0 then None
      else Option.bind (bw_flush w) (\<lambda>w.
        Some (w\<lparr>bw_output := bw_output w @ data, bw_bit_idx := bw_bit_idx w + length data * 8\<rparr>)))"

text \<open>The closure of \<open>with_aligned_output_mut\<close> is a function on the byte vector.\<close>

definition with_aligned_output_mut ::
  "bit_writer \<Rightarrow> (u8 list \<Rightarrow> 'r \<times> u8 list) \<Rightarrow> ('r \<times> bit_writer) option" where
  "with_aligned_output_mut w f =
     (if \<not> 8 dvd bw_bits_in_partial w then None
      else Option.bind (bw_flush w) (\<lambda>w.
        let prev_len = length (bw_output w); (res, output) = f (bw_output w);
            new_len = length output
        in if new_len \<ge> prev_len
           then Some (res, w\<lparr>bw_output := output, bw_bit_idx := bw_bit_idx w + (new_len - prev_len) * 8\<rparr>)
           else None))"

text \<open>The loop \<open>while num_bits / 8 > 0\<close> of the cold path.\<close>

fun push_full_bytes :: "u8 list \<Rightarrow> nat \<Rightarrow> u64 \<Rightarrow> nat \<Rightarrow> u8 list \<times> nat \<times> u64 \<times> nat" where
  "push_full_bytes output bit_idx bits num_bits =
     (if num_bits div 8 > 0
      then push_full_bytes (output @ [ucast bits]) (bit_idx + 8) (drop_bit 8 bits) (num_bits - 8)
      else (output, bit_idx, bits, num_bits))"

definition write_bits_64_cold :: "bit_writer \<Rightarrow> u64 \<Rightarrow> nat \<Rightarrow> bit_writer option" where
  "write_bits_64_cold w bits num_bits =
     (if \<not> bw_bits_in_partial w + num_bits \<ge> 64 then None
      else
        let bits_free_in_partial = 64 - bw_bits_in_partial w;
            part = push_bit (64 - bits_free_in_partial) bits;
            merged = bw_partial w OR part
        in if \<not> bits_free_in_partial < 64 then None
           else
             let (output, bit_idx, bits, num_bits) =
                   push_full_bytes (bw_output w @ to_le_bytes 8 merged) (bw_bit_idx w + 64)
                     (drop_bit bits_free_in_partial bits) (num_bits - bits_free_in_partial)
             in if num_bits > 0
                then Some \<lparr>bw_output = output, bw_partial = bits AND (push_bit num_bits 1 - 1),
                           bw_bits_in_partial = num_bits, bw_bit_idx = bit_idx\<rparr>
                else Some \<lparr>bw_output = output, bw_partial = 0, bw_bits_in_partial = 0,
                           bw_bit_idx = bit_idx\<rparr>)"

definition write_bits_64 :: "bit_writer \<Rightarrow> u64 \<Rightarrow> nat \<Rightarrow> bit_writer option" where
  "write_bits_64 w bits num_bits =
     (if num_bits = 0 then Some w
      else if \<not> num_bits \<le> 64 then None
      else if num_bits = 64 \<and> bw_bits_in_partial w = 0
      then Some (w\<lparr>bw_output := bw_output w @ to_le_bytes 8 bits, bw_bit_idx := bw_bit_idx w + 64\<rparr>)
      else if \<not> (num_bits = 64 \<or> drop_bit num_bits bits = 0) then None
      else if num_bits + bw_bits_in_partial w < 64
      then Some (w\<lparr>bw_partial := bw_partial w OR push_bit (bw_bits_in_partial w) bits,
                   bw_bits_in_partial := bw_bits_in_partial w + num_bits\<rparr>)
      else write_bits_64_cold w bits num_bits)"

definition dump :: "bit_writer \<Rightarrow> u8 list option" where
  "dump w = (if misaligned w \<noteq> 0 then None else map_option bw_output (bw_flush w))"

section \<open>The burst\<close>

text \<open>
  A burst writes through a raw cursor into the vector's spare capacity. \<open>bb_mem\<close> is the vector's
  memory up to the end of the reserved room, whose last bytes start out as whatever \<open>spare\<close> holds.
  The debug assertion that a flush stays inside the room is kept as a panic.
\<close>

record bit_burst =
  bb_writer :: bit_writer
  bb_partial :: u64
  bb_bits_in_partial :: nat
  bb_mem :: "u8 list"
  bb_cursor :: nat

definition burst_flush :: "bit_burst \<Rightarrow> bit_burst option" where
  "burst_flush b =
     (let nb_bytes = bb_bits_in_partial b div 8 in
      if bb_cursor b + 8 \<le> length (bb_mem b)
      then Some (b\<lparr>bb_mem := take (bb_cursor b) (bb_mem b) @ to_le_bytes 8 (bb_partial b)
                     @ drop (bb_cursor b + 8) (bb_mem b),
                   bb_cursor := bb_cursor b + nb_bytes,
                   bb_partial := drop_bit (nb_bytes * 8) (bb_partial b),
                   bb_bits_in_partial := bb_bits_in_partial b mod 8\<rparr>)
      else None)"

definition bw_burst :: "bit_writer \<Rightarrow> nat \<Rightarrow> u8 list \<Rightarrow> bit_burst option" where
  "bw_burst w max_bytes spare =
     (let room = max_bytes + 8 in
      burst_flush \<lparr>bb_writer = w, bb_partial = bw_partial w,
        bb_bits_in_partial = bw_bits_in_partial w, bb_mem = bw_output w @ take room spare,
        bb_cursor = length (bw_output w)\<rparr>)"

definition burst_add :: "bit_burst \<Rightarrow> u64 \<Rightarrow> nat \<Rightarrow> bit_burst" where
  "burst_add b bits num_bits =
     b\<lparr>bb_partial := bb_partial b OR push_bit (bb_bits_in_partial b) bits,
       bb_bits_in_partial := bb_bits_in_partial b + num_bits\<rparr>"

definition burst_finish :: "bit_burst \<Rightarrow> bit_writer" where
  "burst_finish b =
     (bb_writer b)\<lparr>bw_output := take (bb_cursor b) (bb_mem b), bw_bit_idx := bb_cursor b * 8,
       bw_partial := bb_partial b, bw_bits_in_partial := bb_bits_in_partial b\<rparr>"

section \<open>Abstraction to a list of bits\<close>

definition clean_above :: "nat \<Rightarrow> u64 \<Rightarrow> bool" where
  "clean_above n w \<longleftrightarrow> (\<forall>i\<ge>n. \<not> bit w i)"

definition bw_bits :: "bit_writer \<Rightarrow> bool list" where
  "bw_bits w = bits_of (bw_output w) @ word_bits (bw_bits_in_partial w) (bw_partial w)"

definition bw_inv :: "bit_writer \<Rightarrow> bool" where
  "bw_inv w \<longleftrightarrow> bw_bits_in_partial w < 64 \<and> clean_above (bw_bits_in_partial w) (bw_partial w)
     \<and> bw_bit_idx w = 8 * length (bw_output w)"

lemma clean_above_drop_bit: "clean_above n w \<longleftrightarrow> drop_bit n w = 0"
  by (simp add: clean_above_def drop_bit_eq_0_iff)

lemma bw_inv_from: "bw_inv (bit_writer_from output)" "bw_bits (bit_writer_from output) = bits_of output"
  by (simp_all add: bw_inv_def bw_bits_def bit_writer_from_def clean_above_def)

lemma bw_index_length: "bw_inv w \<Longrightarrow> bw_index w = length (bw_bits w)"
  by (simp add: bw_inv_def bw_index_def bw_bits_def)

lemma word_bits_or_push:
  assumes "clean_above m p" "m + n \<le> 64"
  shows "word_bits (m + n) (p OR push_bit m b) = word_bits m p @ word_bits n (b :: u64)"
proof (rule nth_equalityI)
  fix i assume "i < length (word_bits (m + n) (p OR push_bit m b))"
  then have i: "i < m + n" by simp
  show "word_bits (m + n) (p OR push_bit m b) ! i = (word_bits m p @ word_bits n b) ! i"
    using assms i by (auto simp: nth_append bit_or_iff bit_push_bit_iff clean_above_def)
qed simp

lemma clean_above_or_push:
  "\<lbrakk>clean_above m p; clean_above n b\<rbrakk> \<Longrightarrow> clean_above (m + n) (p OR push_bit m b)"
  by (auto simp: clean_above_def bit_or_iff bit_push_bit_iff)

lemma bits_of_low_byte: "bits_of [ucast w] = word_bits 8 (w :: u64)"
  unfolding bits_of_single by (rule nth_equalityI) (auto simp: bit_unsigned_iff)

declare push_full_bytes.simps [simp del]

lemma push_full_bytes_bits:
  "push_full_bytes out bi bits n = (out', bi', bits', n') \<Longrightarrow>
     n' = n mod 8 \<and> bits_of out' @ word_bits n' bits' = bits_of out @ word_bits n bits
     \<and> (bi = 8 * length out \<longrightarrow> bi' = 8 * length out')"
proof (induction out bi bits n rule: push_full_bytes.induct)
  case (1 out bi bits n)
  note unfold = push_full_bytes.simps [of out bi bits n]
  show ?case
  proof (cases "n div 8 > 0")
    case True
    then have n: "8 \<le> n" by linarith
    then have "word_bits n bits = word_bits 8 bits @ word_bits (n - 8) (drop_bit 8 bits)"
      using word_bits_add [of 8 "n - 8" bits] by simp
    with True n 1 show ?thesis by (auto simp: unfold bits_of_low_byte le_mod_geq)
  next
    case False
    then have "n mod 8 = n" by (simp add: div_eq_0_iff)
    with False 1 show ?thesis by (simp add: unfold)
  qed
qed

lemma write_bits_64_cold_bits:
  assumes inv: "bw_inv w" and full: "64 \<le> bw_bits_in_partial w + n"
    and n: "n \<le> 64" "0 < bw_bits_in_partial w"
  shows "\<exists>w'. write_bits_64_cold w bits n = Some w' \<and> bw_inv w'
     \<and> bw_bits w' = bw_bits w @ word_bits n bits"
proof -
  define held where "held = bw_bits_in_partial w"
  define free where "free = 64 - held"
  define merged where "merged = bw_partial w OR push_bit held bits"
  obtain out bi rest k where loop: "push_full_bytes (bw_output w @ to_le_bytes 8 merged)
      (bw_bit_idx w + 64) (drop_bit free bits) (n - free) = (out, bi, rest, k)"
    by (metis prod_cases4)
  have held: "held < 64" "0 < held" and idx: "bw_bit_idx w = 8 * length (bw_output w)"
    and clean: "clean_above held (bw_partial w)"
    using inv n by (auto simp: held_def bw_inv_def)
  have split: "held + free = 64" "free + (n - free) = n"
    using held full by (simp_all add: free_def held_def [symmetric])
  have held_free: "64 - free = held" using split by simp
  have k: "k = (n - free) mod 8" "k < 64" and bi: "bi = 8 * length out"
    and bits: "bits_of out @ word_bits k rest =
       bits_of (bw_output w @ to_le_bytes 8 merged) @ word_bits (n - free) (drop_bit free bits)"
    using push_full_bytes_bits [OF loop] idx by (auto intro: less_trans [OF mod_less_divisor])
  have "word_bits 64 merged = word_bits held (bw_partial w) @ word_bits free bits"
    using word_bits_or_push [OF clean, of free bits] split by (simp add: merged_def)
  then have "bits_of out @ word_bits k rest = bw_bits w @ word_bits n bits"
    using bits word_bits_add [of free "n - free" bits] split
    by (simp add: bits_of_to_le_bytes bw_bits_def held_def)
  moreover have "word_bits k (rest AND mask k) = word_bits k rest"
    by (rule nth_equalityI) (use \<open>k < 64\<close> in \<open>auto simp: bit_and_iff bit_mask_iff\<close>)
  moreover have "clean_above k (rest AND mask k)"
    by (simp add: clean_above_def bit_and_iff bit_mask_iff)
  moreover have "write_bits_64_cold w bits n = Some (if k > 0
     then \<lparr>bw_output = out, bw_partial = rest AND mask k, bw_bits_in_partial = k, bw_bit_idx = bi\<rparr>
     else \<lparr>bw_output = out, bw_partial = 0, bw_bits_in_partial = 0, bw_bit_idx = bi\<rparr>)"
    using full held split loop held_free unfolding write_bits_64_cold_def held_def [symmetric]
    by (simp add: Let_def free_def [symmetric] merged_def [symmetric] mask_eq_exp_minus_1
        push_bit_of_1)
  ultimately show ?thesis
    using k bi by (cases "k > 0") (auto simp: bw_inv_def bw_bits_def clean_above_def)
qed

lemma write_bits_64_bits:
  assumes inv: "bw_inv w" and n: "n \<le> 64" and clean: "clean_above n bits"
  shows "\<exists>w'. write_bits_64 w bits n = Some w' \<and> bw_inv w'
     \<and> bw_bits w' = bw_bits w @ word_bits n bits"
proof -
  consider "n = 0" | "n = 64" "bw_bits_in_partial w = 0"
    | "n \<noteq> 0" "n + bw_bits_in_partial w < 64"
    | "n \<noteq> 0" "64 \<le> n + bw_bits_in_partial w" "0 < bw_bits_in_partial w"
    using n by linarith
  then show ?thesis
  proof cases
    case 1
    then show ?thesis using inv by (simp add: write_bits_64_def)
  next
    case 2
    then show ?thesis
      using inv by (simp add: write_bits_64_def bw_inv_def bw_bits_def bits_of_to_le_bytes clean_above_def)
  next
    case 3
    moreover have "clean_above (bw_bits_in_partial w) (bw_partial w)"
      using inv by (simp add: bw_inv_def)
    ultimately show ?thesis
      using inv clean word_bits_or_push [of "bw_bits_in_partial w" "bw_partial w" n bits]
        clean_above_or_push [of "bw_bits_in_partial w" "bw_partial w" n bits]
      by (auto simp: write_bits_64_def bw_inv_def bw_bits_def add.commute
          simp flip: clean_above_drop_bit)
  next
    case 4
    then have "write_bits_64 w bits n = write_bits_64_cold w bits n"
      using n clean by (simp add: write_bits_64_def flip: clean_above_drop_bit)
    then show ?thesis
      using write_bits_64_cold_bits [OF inv _ n] 4 by (simp add: add.commute)
  qed
qed

text \<open>The writer refuses a value with bits above its width and a width above 64.\<close>

lemma write_bits_64_rejects:
  "64 < n \<Longrightarrow> write_bits_64 w bits n = None"
  "\<lbrakk>0 < n; n < 64; \<not> clean_above n bits\<rbrakk> \<Longrightarrow> write_bits_64 w bits n = None"
  by (simp_all add: write_bits_64_def clean_above_drop_bit)

lemma bw_flush_bits:
  assumes "bw_inv w" "8 dvd bw_bits_in_partial w"
  shows "\<exists>w'. bw_flush w = Some w' \<and> bw_inv w' \<and> bw_bits w' = bw_bits w
     \<and> bw_bits_in_partial w' = 0 \<and> bits_of (bw_output w') = bw_bits w"
proof -
  obtain k where k: "bw_bits_in_partial w = k * 8" "k < 8"
    using assms by (auto simp: bw_inv_def elim!: dvdE)
  have "drop_bit (k * 8) (bw_partial w) = 0"
    using assms(1) k by (simp add: bw_inv_def flip: clean_above_drop_bit)
  with assms k show ?thesis
    by (auto simp: bw_flush_def bw_inv_def bw_bits_def take_to_le_bytes bits_of_to_le_bytes
        clean_above_def mult.commute)
qed

lemma misaligned_0_iff: "bw_inv w \<Longrightarrow> misaligned w = 0 \<longleftrightarrow> 8 dvd bw_bits_in_partial w"
  by (auto simp: misaligned_def bw_index_def bw_inv_def Let_def dvd_add_right_iff)

lemma append_bytes_bits:
  assumes "bw_inv w" "8 dvd bw_bits_in_partial w"
  shows "\<exists>w'. append_bytes w data = Some w' \<and> bw_inv w' \<and> bw_bits w' = bw_bits w @ bits_of data"
proof -
  obtain w1 where "bw_flush w = Some w1" "bw_inv w1" "bw_bits_in_partial w1 = 0"
    "bits_of (bw_output w1) = bw_bits w"
    using bw_flush_bits [OF assms] by blast
  then show ?thesis
    using assms by (auto simp: append_bytes_def misaligned_0_iff bw_inv_def bw_bits_def)
qed

lemma dump_bits:
  assumes "bw_inv w" "8 dvd bw_bits_in_partial w"
  shows "\<exists>out. dump w = Some out \<and> bits_of out = bw_bits w"
  using bw_flush_bits [OF assms] assms by (auto simp: dump_def misaligned_0_iff)

section \<open>Changing bits already written\<close>

text \<open>\<open>patched\<close> is what \<open>change_bits_64\<close> promises: the named field is replaced, nothing else.\<close>

definition patched :: "u8 list \<Rightarrow> nat \<Rightarrow> nat \<Rightarrow> u64 \<Rightarrow> u8 list \<Rightarrow> bool" where
  "patched xs idx n bits ys \<longleftrightarrow> length ys = length xs
     \<and> (\<forall>j. sbit ys j = (if idx \<le> j \<and> j < idx + n then bit bits (j - idx) else sbit xs j))"

lemma sbit_update:
  "k < length xs \<Longrightarrow> sbit (xs[k := b]) j = (if j div 8 = k then bit b (j mod 8) else sbit xs j)"
  by (auto simp: sbit_def nth_list_update)

lemma patched_trans:
  "\<lbrakk>patched xs i m b ys; patched ys (i + m) n (drop_bit m b) zs\<rbrakk> \<Longrightarrow> patched xs i (m + n) b zs"
  by (auto simp: patched_def bit_drop_bit_eq)

lemma patched_refl: "patched xs i 0 b xs"
  by (auto simp: patched_def)

lemma patched_byte:
  assumes "k < length xs" "s + n \<le> 8"
    and b: "\<And>j. j < 8 \<Longrightarrow> bit b j = (if s \<le> j \<and> j < s + n then bit v (j - s) else bit (xs ! k) j)"
  shows "patched xs (8 * k + s) n v (xs[k := b])"
  unfolding patched_def
proof (intro conjI allI)
  fix j
  show "sbit (xs[k := b]) j =
    (if 8 * k + s \<le> j \<and> j < 8 * k + s + n then bit v (j - (8 * k + s)) else sbit xs j)"
  proof (cases "j div 8 = k")
    case True
    then have j: "j = 8 * k + j mod 8" by auto
    moreover have "j - (8 * k + s) = j mod 8 - s" using j by simp
    moreover have "8 * k + s \<le> j \<longleftrightarrow> s \<le> j mod 8" "j < 8 * k + s + n \<longleftrightarrow> j mod 8 < s + n"
      using j by linarith+
    ultimately show ?thesis
      using True assms by (simp add: sbit_update) (simp add: sbit_def)
  next
    case False
    then have "j < 8 * k \<or> 8 * k + 8 \<le> j" by (metis add.commute div_nat_eqI mult.commute mult_Suc not_less)
    then show ?thesis using False assms(1,2) by (auto simp: sbit_update)
  qed
qed simp

lemma bit_FF [simp]: "bit (0xFF :: nat) i \<longleftrightarrow> i < 8" "bit (0xFF :: int) i \<longleftrightarrow> i < 8"
proof -
  have "(0xFF :: nat) = mask 8" "(0xFF :: int) = mask 8" by (simp_all add: mask_eq_exp_minus_1)
  then show "bit (0xFF :: nat) i \<longleftrightarrow> i < 8" "bit (0xFF :: int) i \<longleftrightarrow> i < 8" by (simp_all only: bit_mask_iff) simp_all
qed

declare change_full_bytes.simps [simp del]

lemma change_full_bytes_patched:
  assumes "8 * k + n \<le> 8 * length xs" "clean_above n v"
  shows "\<exists>ys. change_full_bytes xs k v n = Some ys \<and> patched xs (8 * k) n v ys"
  using assms
proof (induction xs k v n rule: change_full_bytes.induct)
  case (1 xs k v n)
  note unfold = change_full_bytes.simps [of xs k v n]
  consider "8 \<le> n" | "0 < n" "n < 8" | "n = 0" by linarith
  then show ?case
  proof cases
    case 1
    then have k: "k < length xs" using "1.prems" by linarith
    have first: "patched xs (8 * k) 8 v (xs[k := ucast v])"
      using patched_byte [OF k, of 0 8 "ucast v" v] by (simp add: bit_unsigned_iff)
    have "clean_above (n - 8) (drop_bit 8 v)"
      using "1.prems"(2) 1 by (auto simp: clean_above_def bit_drop_bit_eq)
    then obtain ys where "change_full_bytes (xs[k := ucast v]) (k + 1) (drop_bit 8 v) (n - 8) = Some ys"
      "patched (xs[k := ucast v]) (8 * (k + 1)) (n - 8) (drop_bit 8 v) ys"
      using "1.IH" [OF 1, of "xs[k := ucast v]"] "1.prems"(1) 1 k by (auto simp: set_at_def)
    then show ?thesis
      using patched_trans [OF first, of "n - 8" ys] 1 k by (simp add: unfold set_at_def add.commute)
  next
    case 2
    then have k: "k < length xs" using "1.prems" by linarith
    have "bit ((xs ! k AND push_bit n 0xFF) OR ucast v) j =
        (if 0 \<le> j \<and> j < 0 + n then bit v (j - 0) else bit (xs ! k) j)" if "j < 8" for j
      using that "1.prems"(2)
      by (auto simp: bit_or_iff bit_and_iff bit_push_bit_iff bit_unsigned_iff clean_above_def)
    from patched_byte [OF k _ this] 2 k show ?thesis by (simp add: unfold)
  next
    case 3
    with unfold show ?thesis by (simp add: patched_refl)
  qed
qed

lemma change_first_byte_patched:
  assumes "i div 8 < length xs" "f = 8 - i mod 8"
  shows "\<exists>ys. change_first_byte xs i v f = Some ys \<and> patched xs i f v ys"
proof -
  define s where "s = i mod 8"
  have s: "s < 8" "s + f = 8" "8 * (i div 8) + s = i" using assms by (simp_all add: s_def)
  have "bit ((xs ! (i div 8) AND drop_bit f 0xFF) OR ucast (push_bit (8 - f) v)) j =
      (if s \<le> j \<and> j < s + f then bit v (j - s) else bit (xs ! (i div 8)) j)" if "j < 8" for j
  proof -
    have "8 - f = s" "j + f < 8 \<longleftrightarrow> j < s" using s by linarith+
    then show ?thesis
      using that s by (auto simp: bit_or_iff bit_and_iff bit_drop_bit_eq bit_unsigned_iff
          bit_push_bit_iff add.commute [of f])
  qed
  from patched_byte [OF assms(1) _ this] assms s show ?thesis
    by (simp add: change_first_byte_def)
qed

lemma change_bits_64_patched:
  assumes inv: "bw_inv w" and partial: "8 dvd bw_bits_in_partial w"
    and room: "idx + n < bw_index w" and clean: "clean_above n bits"
    and first: "8 dvd idx \<or> 8 - idx mod 8 \<le> n"
  shows "\<exists>w1 w'. bw_flush w = Some w1 \<and> change_bits_64 w idx bits n = Some w' \<and> bw_inv w'
     \<and> patched (bw_output w1) idx n bits (bw_output w') \<and> bw_bits_in_partial w' = 0
     \<and> length (bw_bits w') = length (bw_bits w)"
proof -
  obtain w1 where flush: "bw_flush w = Some w1" and w1: "bw_inv w1" "bw_bits_in_partial w1 = 0"
    "bits_of (bw_output w1) = bw_bits w" "bw_bits w1 = bw_bits w"
    using bw_flush_bits [OF inv partial] by blast
  have idx: "bw_index w1 = 8 * length (bw_output w1)" and room1: "idx + n < 8 * length (bw_output w1)"
    using w1 room bw_index_length [OF inv] by (simp_all add: bw_index_def bw_inv_def flip: w1(3))
  have finish: ?thesis if "change_bits_64 w idx bits n = Some (w1\<lparr>bw_output := ys\<rparr>)"
    "patched (bw_output w1) idx n bits ys" for ys
    using that flush w1(1,2) arg_cong [OF w1(4), of length] by (auto simp: bw_inv_def bw_bits_def patched_def)
  show ?thesis
  proof (cases "8 dvd idx")
    case True
    then have "8 * (idx div 8) = idx" by simp
    then obtain ys where "change_full_bytes (bw_output w1) (idx div 8) bits n = Some ys"
      "patched (bw_output w1) idx n bits ys"
      using change_full_bytes_patched [of "idx div 8" n "bw_output w1" bits] room1 clean by auto
    then show ?thesis
      using True flush w1 idx room1 by (intro finish) (auto simp: change_bits_64_def)
  next
    case False
    define f where "f = 8 - idx mod 8"
    have f: "f \<le> n" "8 * ((idx + f) div 8) = idx + f"
      using False first next_byte_boundary [of idx] by (auto simp: f_def)
    have "idx div 8 < length (bw_output w1)" using room1 by linarith
    then obtain xs where xs: "change_first_byte (bw_output w1) idx bits f = Some xs"
      "patched (bw_output w1) idx f bits xs"
      using change_first_byte_patched f_def by blast
    have "clean_above (n - f) (drop_bit f bits)"
      using clean f by (auto simp: clean_above_def bit_drop_bit_eq)
    moreover have "length xs = length (bw_output w1)" using xs(2) by (simp add: patched_def)
    ultimately obtain ys where "change_full_bytes xs ((idx + f) div 8) (drop_bit f bits) (n - f) = Some ys"
      "patched xs (idx + f) (n - f) (drop_bit f bits) ys"
      using change_full_bytes_patched [of "(idx + f) div 8" "n - f" xs "drop_bit f bits"] room1 f by auto
    then show ?thesis
      using False flush w1 idx room1 f(1) xs patched_trans [OF xs(2), of "n - f" ys]
      by (intro finish) (auto simp: change_bits_64_def Let_def f_def [symmetric])
  qed
qed

section \<open>Resetting, writing through the byte vector\<close>

lemma reset_to_bits:
  assumes "bw_inv w" "8 dvd bw_bits_in_partial w" "8 dvd i" "i \<le> 8 * length (bw_output w)"
  shows "\<exists>w'. reset_to w i = Some w' \<and> bw_inv w' \<and> bw_bits w' = take i (bw_bits w)"
proof -
  obtain k where k: "i = 8 * k" using assms(3) by (elim dvdE)
  have "bits_of (take k (bw_output w)) = take i (bits_of (bw_output w))"
    using bits_of_append [of "take k (bw_output w)" "drop k (bw_output w)"] k assms(4)
    by (simp add: min_def del: bits_of_append)
  then show ?thesis
    using assms k by (auto simp: reset_to_def bw_inv_def bw_bits_def resize_zero_def clean_above_def)
qed

lemma with_aligned_output_mut_bits:
  assumes inv: "bw_inv w" "8 dvd bw_bits_in_partial w"
    and f: "\<And>xs. snd (f xs) = xs @ g xs"
  shows "\<exists>r w' xs. with_aligned_output_mut w f = Some (r, w') \<and> bw_inv w'
     \<and> bits_of xs = bw_bits w \<and> bw_bits w' = bw_bits w @ bits_of (g xs) \<and> r = fst (f xs)"
proof -
  obtain w1 where w1: "bw_flush w = Some w1" "bw_inv w1" "bw_bits_in_partial w1 = 0"
    "bits_of (bw_output w1) = bw_bits w"
    using bw_flush_bits [OF inv] by blast
  moreover obtain r where "f (bw_output w1) = (r, bw_output w1 @ g (bw_output w1))"
    by (metis f prod.collapse)
  ultimately show ?thesis
    using inv by (auto simp: with_aligned_output_mut_def bw_inv_def bw_bits_def intro!: exI [of _ "bw_output w1"])
qed

section \<open>The burst is the writer\<close>

definition bb_bits :: "bit_burst \<Rightarrow> bool list" where
  "bb_bits b = bits_of (take (bb_cursor b) (bb_mem b)) @ word_bits (bb_bits_in_partial b) (bb_partial b)"

definition bb_inv :: "bit_burst \<Rightarrow> bool" where
  "bb_inv b \<longleftrightarrow> bb_bits_in_partial b \<le> 64 \<and> clean_above (bb_bits_in_partial b) (bb_partial b)
     \<and> bb_cursor b \<le> length (bb_mem b)"

lemma burst_flush_bits:
  assumes inv: "bb_inv b" and room: "bb_cursor b + 8 \<le> length (bb_mem b)"
    and n: "bb_bits_in_partial b < 64"
  shows "\<exists>b'. burst_flush b = Some b' \<and> bb_inv b' \<and> bb_bits b' = bb_bits b
     \<and> bb_bits_in_partial b' < 8 \<and> length (bb_mem b') = length (bb_mem b)
     \<and> bb_cursor b' = bb_cursor b + bb_bits_in_partial b div 8"
proof -
  define n where "n = bb_bits_in_partial b"
  define k where "k = n div 8"
  have k: "k \<le> 8" "8 * k + n mod 8 = n" "n < 64" "n mod 8 < 8"
    using n by (simp_all add: k_def n_def)
  have "clean_above (n mod 8) (drop_bit (k * 8) (bb_partial b))"
    using inv k by (auto simp: clean_above_def bb_inv_def n_def bit_drop_bit_eq)
  moreover have "word_bits n (bb_partial b)
      = word_bits (8 * k) (bb_partial b) @ word_bits (n mod 8) (drop_bit (8 * k) (bb_partial b))"
    using word_bits_add [of "8 * k" "n mod 8" "bb_partial b"] k by simp
  moreover have "take (bb_cursor b + k) (take (bb_cursor b) (bb_mem b) @ to_le_bytes 8 (bb_partial b)
      @ drop (bb_cursor b + 8) (bb_mem b)) = take (bb_cursor b) (bb_mem b) @ to_le_bytes k (bb_partial b)"
    using room k by (simp add: min_def take_to_le_bytes)
  ultimately show ?thesis
    using room k unfolding burst_flush_def Let_def n_def [symmetric] k_def [symmetric] bb_bits_def bb_inv_def
    by (simp add: bits_of_to_le_bytes mult.commute)
qed

lemma bw_burst_bits:
  assumes inv: "bw_inv w" and spare: "max_bytes + 8 \<le> length spare"
  shows "\<exists>b. bw_burst w max_bytes spare = Some b \<and> bb_inv b \<and> bb_bits b = bw_bits w
     \<and> bb_bits_in_partial b < 8 \<and> bb_writer b = w
     \<and> length (bb_mem b) = length (bw_output w) + max_bytes + 8"
proof -
  let ?b = "\<lparr>bb_writer = w, bb_partial = bw_partial w, bb_bits_in_partial = bw_bits_in_partial w,
     bb_mem = bw_output w @ take (max_bytes + 8) spare, bb_cursor = length (bw_output w)\<rparr>"
  have b: "bb_inv ?b" "bb_cursor ?b + 8 \<le> length (bb_mem ?b)" "bb_bits_in_partial ?b < 64"
    and "bb_bits ?b = bw_bits w"
    using inv spare by (auto simp: bb_inv_def bw_inv_def bb_bits_def bw_bits_def)
  moreover have "bb_writer b' = bb_writer c" if "burst_flush c = Some b'" for b' c
    using that by (auto simp: burst_flush_def Let_def split: if_splits)
  moreover have "bw_burst w max_bytes spare = burst_flush ?b"
    by (simp add: bw_burst_def Let_def)
  ultimately show ?thesis
    using burst_flush_bits [OF b] spare by fastforce
qed

lemma burst_add_bits:
  assumes "bb_inv b" "bb_bits_in_partial b + n \<le> 64" "clean_above n v"
  shows "bb_inv (burst_add b v n)" "bb_bits (burst_add b v n) = bb_bits b @ word_bits n v"
  using assms word_bits_or_push [of "bb_bits_in_partial b" "bb_partial b" n v]
    clean_above_or_push [of "bb_bits_in_partial b" "bb_partial b" n v]
  by (auto simp: bb_inv_def bb_bits_def burst_add_def)

lemma burst_finish_bits:
  assumes "bb_inv b" "bb_bits_in_partial b < 64"
  shows "bw_inv (burst_finish b)" "bw_bits (burst_finish b) = bb_bits b"
  using assms by (auto simp: bb_inv_def bw_inv_def bb_bits_def bw_bits_def burst_finish_def)

text \<open>
  A run of flushes, each writing one group of fields that fits the accumulator: the encoder's use
  of the burst.
\<close>

fun burst_adds :: "bit_burst \<Rightarrow> (u64 \<times> nat) list \<Rightarrow> bit_burst" where
  "burst_adds b [] = b"
| "burst_adds b ((v, n) # fs) = burst_adds (burst_add b v n) fs"

fun burst_groups :: "bit_burst \<Rightarrow> (u64 \<times> nat) list list \<Rightarrow> bit_burst option" where
  "burst_groups b [] = Some b"
| "burst_groups b (g # gs) = Option.bind (burst_flush (burst_adds b g)) (\<lambda>b. burst_groups b gs)"

fun field_bits :: "(u64 \<times> nat) list \<Rightarrow> bool list" where
  "field_bits [] = []"
| "field_bits ((v, n) # fs) = word_bits n v @ field_bits fs"

fun write_fields :: "bit_writer \<Rightarrow> (u64 \<times> nat) list \<Rightarrow> bit_writer option" where
  "write_fields w [] = Some w"
| "write_fields w ((v, n) # fs) = Option.bind (write_bits_64 w v n) (\<lambda>w. write_fields w fs)"

definition fields_ok :: "(u64 \<times> nat) list \<Rightarrow> bool" where
  "fields_ok fs \<longleftrightarrow> (\<forall>(v, n) \<in> set fs. n \<le> 64 \<and> unat v < 2 ^ n)"

lemma clean_above_iff_less: "clean_above n v \<longleftrightarrow> unat v < 2 ^ n"
  by (simp add: clean_above_drop_bit drop_bit_eq_0_iff_less)

lemma length_field_bits [simp]: "length (field_bits fs) = sum_list (map snd fs)"
  by (induction fs) auto

lemma field_bits_append [simp]: "field_bits (fs @ gs) = field_bits fs @ field_bits gs"
  by (induction fs) auto

lemma write_fields_bits:
  "\<lbrakk>bw_inv w; fields_ok fs\<rbrakk> \<Longrightarrow>
     \<exists>w'. write_fields w fs = Some w' \<and> bw_inv w' \<and> bw_bits w' = bw_bits w @ field_bits fs"
proof (induction fs arbitrary: w)
  case (Cons f fs)
  obtain v n where f: "f = (v, n)" by force
  have ok: "n \<le> 64" "clean_above n v" "fields_ok fs"
    using Cons.prems by (auto simp: f fields_ok_def clean_above_iff_less)
  obtain w1 where "write_bits_64 w v n = Some w1" "bw_inv w1" "bw_bits w1 = bw_bits w @ word_bits n v"
    using write_bits_64_bits [OF Cons.prems(1) ok(1,2)] by blast
  with Cons.IH [OF _ ok(3), of w1] show ?case by (auto simp: f)
qed simp

lemma burst_adds_bits:
  "\<lbrakk>bb_inv b; fields_ok fs; bb_bits_in_partial b + sum_list (map snd fs) \<le> 64\<rbrakk> \<Longrightarrow>
     bb_inv (burst_adds b fs) \<and> bb_bits (burst_adds b fs) = bb_bits b @ field_bits fs
     \<and> bb_bits_in_partial (burst_adds b fs) = bb_bits_in_partial b + sum_list (map snd fs)
     \<and> bb_mem (burst_adds b fs) = bb_mem b \<and> bb_cursor (burst_adds b fs) = bb_cursor b"
proof (induction fs arbitrary: b)
  case (Cons f fs)
  obtain v n where f: "f = (v, n)" by force
  have ok: "bb_bits_in_partial b + n \<le> 64" "clean_above n v" "fields_ok fs"
    using Cons.prems by (auto simp: f fields_ok_def clean_above_iff_less)
  have sel: "bb_bits_in_partial (burst_add b v n) = bb_bits_in_partial b + n"
    "bb_mem (burst_add b v n) = bb_mem b" "bb_cursor (burst_add b v n) = bb_cursor b"
    by (simp_all add: burst_add_def)
  show ?case
    using Cons.IH [OF burst_add_bits(1) ok(3)] Cons.prems ok sel burst_add_bits(2)
    by (simp add: f)
qed simp

lemma burst_groups_bits:
  assumes "bb_inv b" "bb_bits_in_partial b < 8" "\<forall>g \<in> set gs. fields_ok g \<and> sum_list (map snd g) \<le> 56"
    "8 * bb_cursor b + bb_bits_in_partial b + sum_list (map snd (concat gs)) + 64 \<le> 8 * length (bb_mem b)"
  shows "\<exists>b'. burst_groups b gs = Some b' \<and> bb_inv b' \<and> bb_bits_in_partial b' < 8
     \<and> bb_bits b' = bb_bits b @ field_bits (concat gs)"
  using assms
proof (induction gs arbitrary: b)
  case (Cons g gs)
  let ?b = "burst_adds b g"
  have g: "fields_ok g" "bb_bits_in_partial b + sum_list (map snd g) \<le> 63"
    using Cons.prems by auto
  then have adds: "bb_inv ?b" "bb_bits ?b = bb_bits b @ field_bits g"
      "bb_bits_in_partial ?b = bb_bits_in_partial b + sum_list (map snd g)"
      "bb_mem ?b = bb_mem b" "bb_cursor ?b = bb_cursor b"
    using burst_adds_bits [OF Cons.prems(1) g(1)] by simp_all
  obtain b1 where b1: "burst_flush ?b = Some b1" "bb_inv b1" "bb_bits b1 = bb_bits ?b"
    "bb_bits_in_partial b1 < 8" "length (bb_mem b1) = length (bb_mem b)"
    "bb_cursor b1 = bb_cursor b + bb_bits_in_partial ?b div 8"
    using burst_flush_bits [OF adds(1)] adds g Cons.prems(4) by (auto simp: adds)
  have "length (bb_bits b1) = length (bb_bits ?b)" by (simp add: b1)
  then have "8 * bb_cursor b1 + bb_bits_in_partial b1 = 8 * bb_cursor b + bb_bits_in_partial b + sum_list (map snd g)"
    using b1(2) adds Cons.prems(1) by (simp add: bb_bits_def bb_inv_def min_absorb2)
  then show ?case
    using Cons.IH [OF b1(2,4)] Cons.prems b1 adds by auto
qed simp

text \<open>The number that a run of fields spells, and the bytes that hold it.\<close>

fun fields_val :: "(u64 \<times> nat) list \<Rightarrow> nat" where
  "fields_val [] = 0"
| "fields_val ((v, n) # fs) = unat v + 2 ^ n * fields_val fs"

lemma bit_fields_val:
  "fields_ok fs \<Longrightarrow> bit (fields_val fs) i \<longleftrightarrow> i < sum_list (map snd fs) \<and> field_bits fs ! i"
proof (induction fs arbitrary: i)
  case (Cons f fs)
  obtain v n where f: "f = (v, n)" by force
  have ok: "unat v < 2 ^ n" "fields_ok fs" using Cons.prems by (auto simp: f fields_ok_def)
  have "bit (fields_val (f # fs)) i = (if i < n then bit v i else bit (fields_val fs) (i - n))"
    using bit_concat_nat [OF ok(1), of "fields_val fs" i] by (simp add: f bit_unsigned_iff)
  with Cons.IH [OF ok(2), of "i - n"] show ?case by (auto simp: f nth_append)
qed simp

lemma fields_bytes:
  assumes "fields_ok fs" "sum_list (map snd fs) = 8 * k" "k \<le> 8"
  shows "\<exists>hdr. length hdr = k \<and> bits_of hdr = field_bits fs \<and> le_val hdr = fields_val fs"
proof (intro exI conjI)
  let ?hdr = "to_le_bytes k (word_of_nat (fields_val fs) :: u64)"
  show "length ?hdr = k" by simp
  have bits: "sbit ?hdr i \<longleftrightarrow> i < 8 * k \<and> field_bits fs ! i" for i
    using bit_fields_val [OF assms(1), of i] assms(2,3) by (auto simp: sbit_to_le_bytes bit_of_nat_iff)
  show "bits_of ?hdr = field_bits fs"
    by (rule nth_equalityI) (use assms(2) bits in simp_all)
  show "le_val ?hdr = fields_val fs"
    by (rule bit_eqI) (use bit_fields_val [OF assms(1)] assms(2) bits in \<open>simp add: bit_le_val\<close>)
qed

lemma write_fields_bytes:
  assumes "bw_inv w" "fields_ok fs" "sum_list (map snd fs) = 8 * k" "k \<le> 8"
  shows "\<exists>w' hdr. write_fields w fs = Some w' \<and> bw_inv w' \<and> bw_bits w' = bw_bits w @ bits_of hdr
     \<and> length hdr = k \<and> le_val hdr = fields_val fs"
  using write_fields_bits [OF assms(1,2)] fields_bytes [OF assms(2-4)] by metis

lemma bits_of_inject: "bits_of xs = bits_of ys \<Longrightarrow> xs = ys"
proof (rule bytes_eqI)
  assume eq: "bits_of xs = bits_of ys"
  show len: "length xs = length ys" using arg_cong [OF eq, of length] by simp
  show "sbit xs i = sbit ys i" for i
    using arg_cong [OF eq, of "\<lambda>l. l ! i"] len by (cases "i < 8 * length xs") (auto simp: sbit_ge)
qed

lemma dump_determined:
  assumes "bw_inv w" "bw_inv w'" "bw_bits w = bw_bits w'"
  shows "dump w = dump w'"
proof (cases "8 dvd bw_bits_in_partial w")
  case True
  moreover have "misaligned w = misaligned w'"
    using assms by (simp add: misaligned_def bw_index_length)
  then have "8 dvd bw_bits_in_partial w'" using True misaligned_0_iff assms by metis
  ultimately show ?thesis
    using dump_bits [OF assms(1)] dump_bits [OF assms(2)] assms(3) bits_of_inject by metis
next
  case False
  moreover have "misaligned w = misaligned w'"
    using assms by (simp add: misaligned_def bw_index_length)
  ultimately show ?thesis
    using misaligned_0_iff [OF assms(1)] by (simp add: dump_def)
qed

section \<open>Properties\<close>

text \<open>
  C33. The writer appends exactly the given bits: for a value that fits its width, whatever is
  pending, \<open>write_bits_64\<close> returns (through the fast path, the direct 64-bit path or the cold path),
  keeps the invariant and extends the written bits by the value's bits; a zero width writes nothing,
  a value too wide or a width above 64 panics.
\<close>

theorem write_bits_64_appends:
  assumes "bw_inv w"
  shows "(if n = 0 then write_bits_64 w bits n = Some w
          else if n \<le> 64 \<and> unat bits < 2 ^ n
          then \<exists>w'. write_bits_64 w bits n = Some w' \<and> bw_inv w'
                 \<and> bw_bits w' = bw_bits w @ word_bits n bits
          else write_bits_64 w bits n = None)"
proof -
  have "unat bits < 2 ^ 64" using unsigned_less [of bits] by simp
  then have "n = 0 \<or> n \<le> 64 \<and> unat bits < 2 ^ n \<or> 64 < n \<or> 0 < n \<and> n < 64 \<and> \<not> unat bits < 2 ^ n"
    by (cases "n = 64") auto
  then show ?thesis
    using write_bits_64_bits [OF assms, of n bits] write_bits_64_rejects(1) [of n w bits] write_bits_64_rejects(2) [of n bits w]
      clean_above_iff_less [of n bits] by (auto simp: write_bits_64_def [of w bits 0])
qed

theorem write_bits_64_appends_witness:
  "(if 12 = (0 :: nat) then write_bits_64 (bit_writer_from [7]) 0xABC 12 = Some (bit_writer_from [7])
    else if 12 \<le> (64 :: nat) \<and> unat (0xABC :: u64) < 2 ^ 12
    then \<exists>w'. write_bits_64 (bit_writer_from [7]) 0xABC 12 = Some w' \<and> bw_inv w'
           \<and> bw_bits w' = bw_bits (bit_writer_from [7]) @ word_bits 12 (0xABC :: u64)
    else write_bits_64 (bit_writer_from [7]) 0xABC 12 = None)"
  by (rule write_bits_64_appends) (rule bw_inv_from)

text \<open>
  \<open>change_bits_64\<close> on a byte-aligned writer replaces the field at bit \<open>idx\<close> and no other bit,
  through its first-byte, whole-byte and leftover cases.
\<close>

theorem change_bits_64_replaces_field:
  assumes "bw_inv w" "8 dvd bw_bits_in_partial w" "idx + n < bw_index w" "unat bits < 2 ^ n"
    and "8 dvd idx \<or> 8 - idx mod 8 \<le> n"
  shows "\<exists>w1 w'. bw_flush w = Some w1 \<and> change_bits_64 w idx bits n = Some w' \<and> bw_inv w'
     \<and> patched (bw_output w1) idx n bits (bw_output w') \<and> bw_bits_in_partial w' = 0
     \<and> length (bw_bits w') = length (bw_bits w)"
  using assms by (intro change_bits_64_patched) (simp_all add: clean_above_iff_less)

theorem change_bits_64_replaces_field_witness:
  "\<exists>w1 w'. bw_flush (bit_writer_from [1, 2, 3]) = Some w1
     \<and> change_bits_64 (bit_writer_from [1, 2, 3]) 4 0x155 10 = Some w' \<and> bw_inv w'
     \<and> patched (bw_output w1) 4 10 0x155 (bw_output w') \<and> bw_bits_in_partial w' = 0
     \<and> length (bw_bits w') = length (bw_bits (bit_writer_from [1, 2, 3]))"
  by (rule change_bits_64_replaces_field)
    (simp add: bw_inv_from, simp_all add: bit_writer_from_def bw_index_def)

text \<open>
  C34. The burst is the writer: a burst opened with room for its fields, flushed after every group of
  at most 56 bits, never stores outside the reserved room, and its \<open>finish\<close> leaves a writer that
  dumps the same bytes as writing the fields one by one.
\<close>

theorem burst_refines_writer:
  assumes inv: "bw_inv w" and spare: "max_bytes + 8 \<le> length spare"
    and groups: "\<forall>g \<in> set gs. fields_ok g \<and> sum_list (map snd g) \<le> 56"
    and fits: "bw_bits_in_partial w + sum_list (map snd (concat gs)) \<le> 8 * max_bytes"
  shows "\<exists>b b' w'. bw_burst w max_bytes spare = Some b \<and> burst_groups b gs = Some b'
     \<and> write_fields w (concat gs) = Some w' \<and> bw_inv (burst_finish b')
     \<and> bw_bits (burst_finish b') = bw_bits w' \<and> dump (burst_finish b') = dump w'"
proof -
  obtain b where b: "bw_burst w max_bytes spare = Some b" "bb_inv b" "bb_bits b = bw_bits w"
    "bb_bits_in_partial b < 8" "length (bb_mem b) = length (bw_output w) + max_bytes + 8"
    using bw_burst_bits [OF inv spare] by blast
  have "8 * bb_cursor b + bb_bits_in_partial b = 8 * length (bw_output w) + bw_bits_in_partial w"
    using arg_cong [OF b(3), of length] b(2) by (simp add: bb_bits_def bw_bits_def bb_inv_def min_absorb2)
  then obtain b' where b': "burst_groups b gs = Some b'" "bb_inv b'" "bb_bits_in_partial b' < 8"
    "bb_bits b' = bw_bits w @ field_bits (concat gs)"
    using burst_groups_bits [OF b(2,4) groups] b fits by auto
  have "fields_ok (concat gs)" using groups by (auto simp: fields_ok_def)
  then obtain w' where "write_fields w (concat gs) = Some w'" "bw_inv w'"
    "bw_bits w' = bw_bits w @ field_bits (concat gs)"
    using write_fields_bits [OF inv] by blast
  then show ?thesis
    using b b' burst_finish_bits [OF b'(2)] dump_determined [of "burst_finish b'" w'] by auto
qed

theorem burst_refines_writer_witness:
  "\<exists>b b' w'. bw_burst (bit_writer_from [9]) 4 (replicate 12 0) = Some b
     \<and> burst_groups b [[(5, 3), (1, 2)], [(0x7F, 11)]] = Some b'
     \<and> write_fields (bit_writer_from [9]) (concat [[(5, 3), (1, 2)], [(0x7F, 11)]]) = Some w'
     \<and> bw_inv (burst_finish b') \<and> bw_bits (burst_finish b') = bw_bits w'
     \<and> dump (burst_finish b') = dump w'"
  by (rule burst_refines_writer)
    (simp add: bw_inv_from, simp_all add: bit_writer_from_def fields_ok_def)

end
