(* ===== verification/Bit_Streams.thy ===== *)
theory Bit_Streams
  imports Bit_Reader_Reverse Bit_Writer
begin

text \<open>
  Bit streams that are written forwards and read backwards: the encoder closes a stream with a
  one bit and zeros up to the byte boundary, the decoder skips the zeros of the last byte and the
  one bit, then reads the fields in reverse order. Both ends are modelled here from the places that
  use them, \<^verbatim>\<open>huff0/huff0_encoder.rs\<close>, \<^verbatim>\<open>encoding/blocks/compressed.rs\<close> and
  \<^verbatim>\<open>decoding/sequence_section_decoder.rs\<close>.
\<close>

section \<open>Operations\<close>

definition close_stream :: "bit_writer \<Rightarrow> bit_writer option" where
  "close_stream w =
     (let bits_to_fill = misaligned w in
      if bits_to_fill = 0 then write_bits_64 w 1 8 else write_bits_64 w 1 bits_to_fill)"

text \<open>The loop stops after nine reads at the latest.\<close>

function skip_padding_loop ::
  "bool \<Rightarrow> (u64 \<Rightarrow> nat \<Rightarrow> u64) \<Rightarrow> bit_reader_rev \<Rightarrow> nat \<Rightarrow> (bit_reader_rev \<times> nat) option" where
  "skip_padding_loop on_amd mlb br skipped_bits =
     (case get_bits_rev on_amd mlb br 1 of
        None \<Rightarrow> None
      | Some (val, br) \<Rightarrow>
          if val = 1 \<or> skipped_bits + 1 > 8 then Some (br, skipped_bits + 1)
          else skip_padding_loop on_amd mlb br (skipped_bits + 1))"
  by pat_completeness auto
termination by (relation "measure (\<lambda>(_, _, _, n). 9 - n)") auto

datatype padding_error = ExtraPadding nat

definition open_stream ::
  "bool \<Rightarrow> (u64 \<Rightarrow> nat \<Rightarrow> u64) \<Rightarrow> u8 list \<Rightarrow> (bit_reader_rev, padding_error) result" where
  "open_stream on_amd mlb source =
     (case skip_padding_loop on_amd mlb (bit_reader_rev_new source) 0 of
        None \<Rightarrow> Panic
      | Some (br, skipped_bits) \<Rightarrow>
          if skipped_bits > 8 then Err (ExtraPadding skipped_bits) else Ok br)"

fun read_fields ::
  "bool \<Rightarrow> (u64 \<Rightarrow> nat \<Rightarrow> u64) \<Rightarrow> bit_reader_rev \<Rightarrow> nat list \<Rightarrow> (u64 list \<times> bit_reader_rev) option" where
  "read_fields on_amd mlb br [] = Some ([], br)"
| "read_fields on_amd mlb br (n # ns) =
     Option.bind (get_bits_rev on_amd mlb br n) (\<lambda>(v, br).
       Option.bind (read_fields on_amd mlb br ns) (\<lambda>(vs, br). Some (v # vs, br)))"

section \<open>Closing a stream\<close>

lemma word_bits_1: "\<lbrakk>0 < n; n \<le> 64\<rbrakk> \<Longrightarrow> word_bits n (1 :: u64) = True # replicate (n - 1) False"
  by (rule nth_equalityI) (auto simp: nth_Cons' bit_1_iff)

lemma close_stream_bits:
  assumes inv: "bw_inv w"
  shows "\<exists>w' out p. close_stream w = Some w' \<and> dump w' = Some out \<and> p < 8
     \<and> bits_of out = bw_bits w @ True # replicate p False"
proof -
  define n where "n = (if misaligned w = 0 then 8 else misaligned w)"
  have idx: "bw_index w + n = 8 * (bw_index w div 8) + 8" "0 < n" "n \<le> 8"
    using next_byte_after [of "bw_index w"] by (auto simp: n_def misaligned_def Let_def dvd_eq_mod_eq_0)
  have "clean_above n (1 :: u64)" using idx by (auto simp: clean_above_def bit_1_iff)
  then obtain w' where w': "write_bits_64 w 1 n = Some w'" "bw_inv w'"
      "bw_bits w' = bw_bits w @ word_bits n (1 :: u64)"
    using write_bits_64_bits [OF inv, of n 1] idx by auto
  have "bw_index w' = bw_index w + n"
    using bw_index_length [OF inv] bw_index_length [OF w'(2)] w'(3) by simp
  then have "8 dvd bw_index w'" using idx(1) by simp
  then have "8 dvd bw_bits_in_partial w'"
    using w'(2) by (simp add: bw_index_def bw_inv_def dvd_add_right_iff)
  from dump_bits [OF w'(2) this] obtain out where "dump w' = Some out" "bits_of out = bw_bits w'" by blast
  moreover have "close_stream w = Some w'"
    using w'(1) by (simp add: close_stream_def n_def Let_def split: if_splits)
  ultimately show ?thesis
    using w'(3) word_bits_1 [of n] idx by (intro exI [of _ w'] exI [of _ out] exI [of _ "n - 1"]) auto
qed

section \<open>Reading it back\<close>

lemma rev_field_bits_of:
  assumes bits: "bits_of source = pre @ word_bits n v @ post" and v: "clean_above n v"
  shows "rev_field source (int (length pre + n)) n v"
  unfolding rev_field_def
proof
  fix i
  have at: "int (length pre + n) - int n + int i = int (length pre + i)" by simp
  have len: "8 * length source = length pre + n + length post"
    using arg_cong [OF bits, of length] by simp
  show "bit v i \<longleftrightarrow> i < n \<and> zbit source (int (length pre + n) - int n + int i)"
  proof (cases "i < n")
    case True
    then have "bits_of source ! (length pre + i) = bit v i"
      unfolding bits by (simp add: nth_append)
    moreover have "length pre + i < 8 * length source" using len True by simp
    ultimately show ?thesis unfolding at zbit_nonneg using True by simp
  next
    case False
    then show ?thesis using v by (simp add: clean_above_def)
  qed
qed

declare skip_padding_loop.simps [simp del]

context cpu_kernel
begin

lemma get_bits_rev_field:
  assumes inv: "rev_inv r" and bits: "bits_of (rr_source r) = pre @ word_bits n v @ post"
    and at: "bits_remaining r = int (length pre + n)" and v: "clean_above n v" "n \<le> 56"
  shows "\<exists>r'. get_bits_rev on_amd mask_lower_bits r n = Some (v, r') \<and> rev_inv r'
     \<and> bits_remaining r' = int (length pre) \<and> rr_source r' = rr_source r"
proof -
  obtain v' r' where r': "get_bits_rev on_amd mask_lower_bits r n = Some (v', r')"
    "rev_field (rr_source r) (bits_remaining r) n v'" "rev_inv r'"
    "bits_remaining r' = bits_remaining r - int n" "rr_source r' = rr_source r"
    using get_bits_rev_ok [OF inv v(2)] by blast
  moreover have "v' = v"
    using rev_field_unique [OF r'(2)] rev_field_bits_of [OF bits v(1)] at by simp
  ultimately show ?thesis using at by auto
qed

lemma skip_padding_loop_ok:
  assumes "rev_inv r" "bits_of (rr_source r) = body @ True # replicate p False @ rest"
    "bits_remaining r = int (length body + 1 + p)" "k + p < 8"
  shows "\<exists>r'. skip_padding_loop on_amd mask_lower_bits r k = Some (r', k + p + 1) \<and> rev_inv r'
     \<and> bits_remaining r' = int (length body) \<and> rr_source r' = rr_source r"
  using assms
proof (induction p arbitrary: r k rest)
  case 0
  have "bits_of (rr_source r) = body @ word_bits 1 (1 :: u64) @ rest"
    using 0 by (simp add: word_bits_1)
  with get_bits_rev_field [OF 0(1) this, where on_amd = on_amd] 0 show ?case
    by (auto simp: skip_padding_loop.simps [of on_amd mask_lower_bits r] clean_above_def bit_1_iff)
next
  case (Suc p)
  have "bits_of (rr_source r) = (body @ True # replicate p False) @ word_bits 1 (0 :: u64) @ rest"
    using Suc.prems(2) by (simp add: word_bits_def replicate_append_same)
  from get_bits_rev_field [OF Suc.prems(1) this, where on_amd = on_amd] Suc.prems(3)
  obtain r1 where r1: "get_bits_rev on_amd mask_lower_bits r 1 = Some (0, r1)" "rev_inv r1"
      "bits_remaining r1 = int (length body + 1 + p)" "rr_source r1 = rr_source r"
    by (auto simp: clean_above_def)
  have "bits_of (rr_source r1) = body @ True # replicate p False @ (False # rest)"
    using Suc.prems(2) r1(4) by (simp add: replicate_app_Cons_same)
  from Suc.IH [OF r1(2) this r1(3), of "Suc k"] Suc.prems(4) r1(1,4) show ?case
    by (auto simp: skip_padding_loop.simps [of on_amd mask_lower_bits r])
qed

lemma open_stream_ok:
  assumes "bits_of source = body @ True # replicate p False" "p < 8"
  shows "\<exists>r. open_stream on_amd mask_lower_bits source = Ok r \<and> rev_inv r
     \<and> bits_remaining r = int (length body) \<and> rr_source r = source"
proof -
  have "bits_remaining (bit_reader_rev_new source) = int (length body + 1 + p)"
    using arg_cong [OF assms(1), of length] by (simp add: bits_remaining_new)
  then show ?thesis
    using skip_padding_loop_ok [OF rev_inv_new, of source body p "[]" 0 on_amd] assms
    by (auto simp: open_stream_def bit_reader_rev_new_def)
qed

lemma read_fields_ok:
  assumes "rev_inv r" "bits_of (rr_source r) = pre @ field_bits fs @ post"
    "bits_remaining r = int (length pre + sum_list (map snd fs))"
    "fields_ok fs" "\<forall>n \<in> snd ` set fs. n \<le> 56"
  shows "\<exists>r'. read_fields on_amd mask_lower_bits r (rev (map snd fs)) = Some (rev (map fst fs), r')
     \<and> rev_inv r' \<and> bits_remaining r' = int (length pre) \<and> rr_source r' = rr_source r"
  using assms
proof (induction fs arbitrary: r post rule: rev_induct)
  case (snoc f fs)
  obtain v n where f: "f = (v, n)" by force
  have ok: "fields_ok fs" "clean_above n v" "n \<le> 56"
    using snoc.prems(4,5) by (auto simp: f fields_ok_def clean_above_iff_less)
  have "bits_of (rr_source r) = (pre @ field_bits fs) @ word_bits n v @ post"
    using snoc.prems(2) by (simp add: f)
  from get_bits_rev_field [OF snoc.prems(1) this _ ok(2,3), where on_amd = on_amd] snoc.prems(3)
  obtain r1 where r1: "get_bits_rev on_amd mask_lower_bits r n = Some (v, r1)" "rev_inv r1"
      "bits_remaining r1 = int (length pre + sum_list (map snd fs))" "rr_source r1 = rr_source r"
    by (auto simp: f)
  from snoc.IH [OF r1(2) _ r1(3) ok(1), of "word_bits n v @ post"] snoc.prems(2,5) r1(1,4)
  show ?case by (auto simp: f)
qed simp

text \<open>Skipping never fails, whatever the bytes.\<close>

lemma skip_padding_total:
  "rev_inv r \<Longrightarrow> \<exists>r' k'. skip_padding_loop on_amd mask_lower_bits r k = Some (r', k') \<and> rev_inv r' \<and> rr_source r' = rr_source r"
proof (induction "8 - k" arbitrary: r k rule: less_induct)
  case less
  obtain v r1 where r1: "get_bits_rev on_amd mask_lower_bits r 1 = Some (v, r1)" "rev_inv r1" "rr_source r1 = rr_source r"
    using get_bits_rev_ok [OF less.prems, of 1 on_amd] by auto
  show ?case
  proof (cases "v = 1 \<or> k + 1 > 8")
    case True
    then show ?thesis using r1 by (simp add: skip_padding_loop.simps [of on_amd mask_lower_bits r])
  next
    case False
    then have "8 - (k + 1) < 8 - k" by linarith
    from less.hyps [OF this r1(2)] show ?thesis using r1 False by (simp add: skip_padding_loop.simps [of on_amd mask_lower_bits r])
  qed
qed

lemma stream_roundtrip:
  assumes ok: "fields_ok fs" and small: "\<forall>n \<in> snd ` set fs. n \<le> 56"
  shows "\<exists>w w' out br br'. write_fields (bit_writer_from []) fs = Some w \<and> close_stream w = Some w'
     \<and> dump w' = Some out \<and> open_stream on_amd mask_lower_bits out = Ok br
     \<and> read_fields on_amd mask_lower_bits br (rev (map snd fs)) = Some (rev (map fst fs), br')
     \<and> bits_remaining br' = 0"
proof -
  obtain w where w: "write_fields (bit_writer_from []) fs = Some w" "bw_inv w" "bw_bits w = field_bits fs"
    using write_fields_bits [OF bw_inv_from(1) ok, of "[]"] by (auto simp: bw_inv_from)
  obtain w' out p where w': "close_stream w = Some w'" "dump w' = Some out" "p < 8"
      "bits_of out = field_bits fs @ True # replicate p False"
    using close_stream_bits [OF w(2)] w(3) by auto
  obtain br where br: "open_stream on_amd mask_lower_bits out = Ok br" "rev_inv br"
      "bits_remaining br = int (length (field_bits fs))" "rr_source br = out"
    using open_stream_ok [OF w'(4,3)] by blast
  show ?thesis
    using read_fields_ok [OF br(2) _ _ ok small, of "[]"] br w w' by auto
qed

end

section \<open>Properties\<close>

text \<open>
  C9. Bit streams round-trip: any fields of at most 56 bits written forwards and closed with the
  marker bit are read back, last first, by the reversed reader after it skipped the padding, with
  either mask kernel and on either refill path, and the reader ends with no bits left.
\<close>

theorem bit_stream_roundtrip:
  assumes "fields_ok fs" "\<forall>n \<in> snd ` set fs. n \<le> 56"
    and kernel: "mlb \<in> {scalar_mask_lower_bits, mask_lower_bits_bmi2_impl}"
  shows "\<exists>w w' out br br'. write_fields (bit_writer_from []) fs = Some w \<and> close_stream w = Some w'
     \<and> dump w' = Some out \<and> open_stream on_amd mlb out = Ok br
     \<and> read_fields on_amd mlb br (rev (map snd fs)) = Some (rev (map fst fs), br')
     \<and> bits_remaining br' = 0"
  using kernel scalar_kernel.stream_roundtrip [OF assms(1,2)] bmi2_kernel.stream_roundtrip [OF assms(1,2)]
  by blast

theorem bit_stream_roundtrip_witness:
  "\<exists>w w' out br br'. write_fields (bit_writer_from []) [(5, 3), (0x2A, 7), (0, 0), (0xFFFF, 16)] = Some w
     \<and> close_stream w = Some w' \<and> dump w' = Some out
     \<and> open_stream True mask_lower_bits_bmi2_impl out = Ok br
     \<and> read_fields True mask_lower_bits_bmi2_impl br (rev (map snd [(5, 3), (0x2A, 7), (0, 0), (0xFFFF :: u64, 16)]))
         = Some (rev (map fst [(5, 3), (0x2A, 7), (0, 0), (0xFFFF, 16 :: nat)]), br')
     \<and> bits_remaining br' = 0"
  by (rule bit_stream_roundtrip) (simp_all add: fields_ok_def)

end
