(* ===== verification/Cpu_Ceiling.thy ===== *)
theory Cpu_Ceiling
  imports Prelude
begin

text \<open>
  The CPU level ladder, the process-wide kernel ceiling and the kernel selection of
  \<^verbatim>\<open>zstd/src/cpu_kernel.rs\<close>. The ceiling is one atomic byte that is frozen by its first read or by
  the first successful \<open>set_cpu_ceiling\<close>; calls from several threads interleave between its atomic
  accesses, so besides the sequential operations there is a step relation whose steps are the
  atomic accesses. What the CPU supports (\<open>is_x86_feature_detected!\<close>), the build's architecture
  and its kernel features are parameters.
\<close>

section \<open>Levels\<close>

datatype cpu_level = Scalar | Sse2 | Sse42 | Bmi2 | Avx2 | Avx512 | Neon | Sve

datatype ladder_kind = AnyLadder | X86 | Arm

datatype target_arch = X86_32 | X86_64 | Aarch64 | OtherArch

definition ALL_LEVELS :: "cpu_level list" where
  "ALL_LEVELS = [Scalar, Sse2, Sse42, Bmi2, Avx2, Avx512, Neon, Sve]"

fun level_name :: "cpu_level \<Rightarrow> string" where
  "level_name Scalar = ''scalar''"
| "level_name Sse2 = ''sse2''"
| "level_name Sse42 = ''sse4.2''"
| "level_name Bmi2 = ''bmi2''"
| "level_name Avx2 = ''avx2''"
| "level_name Avx512 = ''avx512''"
| "level_name Neon = ''neon''"
| "level_name Sve = ''sve''"

fun ladder :: "cpu_level \<Rightarrow> ladder_kind \<times> nat" where
  "ladder Scalar = (AnyLadder, 0)"
| "ladder Sse2 = (X86, 1)"
| "ladder Sse42 = (X86, 2)"
| "ladder Bmi2 = (X86, 3)"
| "ladder Avx2 = (X86, 4)"
| "ladder Avx512 = (X86, 5)"
| "ladder Neon = (Arm, 1)"
| "ladder Sve = (Arm, 2)"

definition native :: "target_arch \<Rightarrow> cpu_level \<Rightarrow> bool" where
  "native arch l = (case fst (ladder l) of
      AnyLadder \<Rightarrow> True
    | X86 \<Rightarrow> arch = X86_32 \<or> arch = X86_64
    | Arm \<Rightarrow> arch = Aarch64)"

text \<open>\<open>str::eq_ignore_ascii_case\<close>\<close>

definition ascii_lower :: "char \<Rightarrow> char" where
  "ascii_lower c = (let k = (of_char c :: nat) in if 65 \<le> k \<and> k \<le> 90 then char_of (k + 32) else c)"

definition eq_ignore_ascii_case :: "string \<Rightarrow> string \<Rightarrow> bool" where
  "eq_ignore_ascii_case s t \<longleftrightarrow> map ascii_lower s = map ascii_lower t"

datatype unknown_cpu_level = UnknownCpuLevel

definition from_str :: "string \<Rightarrow> (cpu_level, unknown_cpu_level) result" where
  "from_str txt =
     (let lower = eq_ignore_ascii_case txt in
      case find (\<lambda>l. lower (level_name l)) ALL_LEVELS of
        Some l \<Rightarrow> Ok l
      | None \<Rightarrow>
          if lower ''sse42'' then Ok Sse42
          else if lower ''avx-512'' \<or> lower ''avx512f'' then Ok Avx512
          else Err UnknownCpuLevel)"

section \<open>The ceiling\<close>

datatype cpu_ceiling_error = AlreadyResolved | OtherArchitecture cpu_level | Unsupported

definition CEILING_NONE :: u8 where
  "CEILING_NONE = 255"

text \<open>\<open>AtomicU8::compare_exchange\<close>: the previous value on either side, and the new memory.\<close>

definition compare_exchange :: "u8 \<Rightarrow> u8 \<Rightarrow> u8 \<Rightarrow> (u8, u8) result \<times> u8" where
  "compare_exchange cell current_value new =
     (if cell = current_value then (Ok cell, new) else (Err cell, cell))"

fun level_position :: "cpu_level \<Rightarrow> cpu_level list \<Rightarrow> nat option" where
  "level_position l [] = None"
| "level_position l (x # xs) = (if x = l then Some 0 else map_option Suc (level_position l xs))"

text \<open>
  \<open>set_cpu_ceiling\<close> on the cell \<open>CEILING\<close>; \<open>has_atomic\<close> is \<open>cfg(target_has_atomic = "8")\<close>. The
  \<open>expect\<close> on the position is the \<open>None\<close> of the outer option.
\<close>

definition set_cpu_ceiling ::
  "bool \<Rightarrow> target_arch \<Rightarrow> cpu_level \<Rightarrow> u8 \<Rightarrow> (unit, cpu_ceiling_error) result \<times> u8" where
  "set_cpu_ceiling has_atomic arch l cell =
     (if \<not> native arch l then (Err (OtherArchitecture l), cell)
      else if has_atomic then
        (case level_position l ALL_LEVELS of
           None \<Rightarrow> (Panic, cell)
         | Some index \<Rightarrow>
             (case compare_exchange cell 0 (of_nat index + 1) of
                (Ok _, cell) \<Rightarrow> (Ok (), cell)
              | (_, cell) \<Rightarrow> (Err AlreadyResolved, cell)))
      else (Err Unsupported, cell))"

text \<open>The answer read from a non-zero cell; the index into \<open>ALL\<close> panics out of range.\<close>

definition decode_ceiling :: "u8 \<Rightarrow> cpu_level option option" where
  "decode_ceiling stored =
     (if stored \<noteq> CEILING_NONE
      then (if unat (stored - 1) < length ALL_LEVELS then Some (Some (ALL_LEVELS ! unat (stored - 1)))
            else None)
      else Some None)"

text \<open>The compare-exchange of the first read, after a load that saw zero.\<close>

definition freeze_ceiling :: "u8 \<Rightarrow> u8 \<times> u8" where
  "freeze_ceiling cell = (case compare_exchange cell 0 CEILING_NONE of
      (Err stored, cell) \<Rightarrow> (stored, cell)
    | (_, cell) \<Rightarrow> (CEILING_NONE, cell))"

definition cpu_ceiling :: "bool \<Rightarrow> u8 \<Rightarrow> cpu_level option option \<times> u8" where
  "cpu_ceiling has_atomic cell =
     (if has_atomic then
        let (stored, cell) = (if cell = 0 then freeze_ceiling cell else (cell, cell))
        in (decode_ceiling stored, cell)
      else (Some None, cell))"

fun allowed_under :: "cpu_level option \<Rightarrow> cpu_level \<Rightarrow> bool" where
  "allowed_under None needed = True"
| "allowed_under (Some ceiling) needed =
     (let (needed_ladder, needed_rung) = ladder needed; (ceiling_ladder, ceiling_rung) = ladder ceiling
      in needed_rung = 0 \<or> (needed_ladder = ceiling_ladder \<and> needed_rung \<le> ceiling_rung))"

definition cpu_allows :: "bool \<Rightarrow> cpu_level \<Rightarrow> u8 \<Rightarrow> bool option \<times> u8" where
  "cpu_allows has_atomic needed cell =
     (let (ceiling, cell) = cpu_ceiling has_atomic cell
      in (map_option (\<lambda>c. allowed_under c needed) ceiling, cell))"

section \<open>Kernel selection\<close>

datatype cpu_kernel_tag = KScalar | KSse2 | KBmi2 | KAvx2 | KVbmi2 | KNeon | KSve

record kernel_features =
  kernel_vbmi2 :: bool
  kernel_avx2 :: bool
  kernel_bmi2 :: bool
  kernel_sse :: bool
  kernel_neon :: bool
  kernel_sve :: bool

definition select_x86_kernel ::
  "kernel_features \<Rightarrow> bool \<Rightarrow> bool \<Rightarrow> bool \<Rightarrow> bool \<Rightarrow> bool \<Rightarrow> bool \<Rightarrow> bool \<Rightarrow> cpu_kernel_tag" where
  "select_x86_kernel feat has_avx512vbmi2 has_avx512f has_avx512vl has_avx512bw has_bmi2 has_avx2 has_sse2 =
     (if kernel_vbmi2 feat \<and> has_avx512vbmi2 \<and> has_avx512f \<and> has_avx512vl \<and> has_avx512bw \<and> has_bmi2
         \<and> has_avx2 then KVbmi2
      else if kernel_avx2 feat \<and> has_avx2 \<and> has_bmi2 then KAvx2
      else if kernel_bmi2 feat \<and> has_bmi2 then KBmi2
      else if kernel_sse feat \<and> has_sse2 then KSse2
      else KScalar)"

text \<open>
  \<open>detect_cpu_kernel_uncached\<close> of the \<open>std\<close> build: \<open>cpu\<close> answers the feature probes, \<open>ceiling\<close> is
  the ceiling that the \<open>cpu_allows\<close> calls read (frozen by the first of them).
\<close>

definition detect_cpu_kernel_uncached ::
  "target_arch \<Rightarrow> kernel_features \<Rightarrow> (string \<Rightarrow> bool) \<Rightarrow> cpu_level option \<Rightarrow> cpu_kernel_tag" where
  "detect_cpu_kernel_uncached arch feat cpu ceiling =
     (let allows = allowed_under ceiling in
      case arch of
        X86_64 \<Rightarrow>
          let avx512 = kernel_vbmi2 feat \<and> allows Avx512 in
          select_x86_kernel feat
            (avx512 \<and> cpu ''avx512vbmi2'') (avx512 \<and> cpu ''avx512f'')
            (avx512 \<and> cpu ''avx512vl'') (avx512 \<and> cpu ''avx512bw'')
            (kernel_bmi2 feat \<and> allows Bmi2 \<and> cpu ''bmi2'')
            (kernel_avx2 feat \<and> allows Avx2 \<and> cpu ''avx2'')
            (kernel_sse feat \<and> allows Sse2 \<and> cpu ''sse2'')
      | X86_32 \<Rightarrow>
          if kernel_sse feat then
            let bmi2 = kernel_bmi2 feat \<and> allows Bmi2 \<and> cpu ''bmi2'' in
            if kernel_avx2 feat \<and> bmi2 \<and> allows Avx2 \<and> cpu ''avx2'' then KAvx2
            else if bmi2 then KBmi2
            else if allows Sse2 \<and> cpu ''sse2'' then KSse2
            else KScalar
          else KScalar
      | Aarch64 \<Rightarrow>
          if kernel_sve feat \<and> allows Sve \<and> cpu ''sve'' then KSve
          else if kernel_neon feat \<and> allows Neon \<and> cpu ''neon'' then KNeon
          else KScalar
      | OtherArch \<Rightarrow> KScalar)"

text \<open>
  \<open>detect_cpu_kernel\<close> of a build without \<open>std\<close>: \<open>target\<close> answers \<open>cfg!(target_feature)\<close>.
\<close>

definition detect_cpu_kernel_no_std ::
  "target_arch \<Rightarrow> kernel_features \<Rightarrow> (string \<Rightarrow> bool) \<Rightarrow> cpu_level option \<Rightarrow> cpu_kernel_tag" where
  "detect_cpu_kernel_no_std arch feat target ceiling =
     (let allows = allowed_under ceiling in
      case arch of
        X86_64 \<Rightarrow>
          let avx512 = allows Avx512 in
          select_x86_kernel feat
            (avx512 \<and> target ''avx512vbmi2'') (avx512 \<and> target ''avx512f'')
            (avx512 \<and> target ''avx512vl'') (avx512 \<and> target ''avx512bw'')
            (allows Bmi2 \<and> target ''bmi2'')
            (allows Avx2 \<and> target ''avx2'')
            (allows Sse2 \<and> target ''sse2'')
      | X86_32 \<Rightarrow>
          let bmi2 = allows Bmi2 \<and> target ''bmi2'' in
          if kernel_bmi2 feat \<and> kernel_avx2 feat \<and> bmi2 \<and> allows Avx2 \<and> target ''avx2'' then KAvx2
          else if kernel_bmi2 feat \<and> bmi2 then KBmi2
          else if kernel_sse feat \<and> allows Sse2 \<and> target ''sse2'' then KSse2
          else KScalar
      | Aarch64 \<Rightarrow>
          if kernel_sve feat \<and> target ''sve'' \<and> allows Sve then KSve
          else if kernel_neon feat \<and> target ''neon'' \<and> allows Neon then KNeon
          else KScalar
      | OtherArch \<Rightarrow> KScalar)"

fun tag_name :: "cpu_kernel_tag \<Rightarrow> string" where
  "tag_name KScalar = ''scalar''"
| "tag_name KSse2 = ''sse2''"
| "tag_name KBmi2 = ''bmi2''"
| "tag_name KAvx2 = ''avx2''"
| "tag_name KVbmi2 = ''vbmi2''"
| "tag_name KNeon = ''neon''"
| "tag_name KSve = ''sve''"

section \<open>Levels are ordered by their ladders\<close>

instantiation cpu_level :: order
begin

definition less_eq_cpu_level :: "cpu_level \<Rightarrow> cpu_level \<Rightarrow> bool" where
  "less_eq_cpu_level l m = allowed_under (Some m) l"

definition less_cpu_level :: "cpu_level \<Rightarrow> cpu_level \<Rightarrow> bool" where
  "less_cpu_level l m \<longleftrightarrow> l \<le> m \<and> \<not> m \<le> (l :: cpu_level)"

instance
proof
  fix l m k :: cpu_level
  show "l \<le> l" by (cases l) (simp_all add: less_eq_cpu_level_def)
  show "l < m \<longleftrightarrow> l \<le> m \<and> \<not> m \<le> l" by (rule less_cpu_level_def)
  show "l \<le> m \<Longrightarrow> m \<le> l \<Longrightarrow> l = m" by (cases l; cases m) (simp_all add: less_eq_cpu_level_def)
  show "l \<le> m \<Longrightarrow> m \<le> k \<Longrightarrow> l \<le> k"
    by (cases l; cases m; cases k) (simp_all add: less_eq_cpu_level_def)
qed

end

lemma allowed_under_le: "allowed_under (Some c) l \<longleftrightarrow> l \<le> c"
  by (simp add: less_eq_cpu_level_def)

lemma ascii_lower_name: "map ascii_lower (level_name l) = level_name l"
  by (cases l) (simp_all add: ascii_lower_def Let_def)

lemma level_name_inject: "level_name l = level_name m \<longleftrightarrow> l = m"
  by (cases l; cases m) simp_all

lemma find_level:
  "find (\<lambda>l. eq_ignore_ascii_case s (level_name l)) ALL_LEVELS = Some l
     \<longleftrightarrow> map ascii_lower s = level_name l"
proof -
  have "eq_ignore_ascii_case s (level_name m) \<longleftrightarrow> map ascii_lower s = level_name m" for m
    by (simp add: eq_ignore_ascii_case_def ascii_lower_name)
  then show ?thesis by (cases l) (auto simp: ALL_LEVELS_def split: if_splits)
qed

section \<open>Interleaved calls\<close>

text \<open>
  Threads run \<open>set_cpu_ceiling\<close> (one compare-exchange) and \<open>cpu_ceiling\<close> (a load, and a
  compare-exchange when it saw zero). A step is one atomic access of one thread.
\<close>

datatype ceiling_thread =
    Idle
  | Loaded_zero
  | Set_done cpu_level "(unit, cpu_ceiling_error) result"
  | Get_done "cpu_level option option"

record ceiling_state =
  cs_cell :: u8
  cs_threads :: "nat \<Rightarrow> ceiling_thread"

inductive ceiling_step :: "target_arch \<Rightarrow> ceiling_state \<Rightarrow> ceiling_state \<Rightarrow> bool"
  for arch where
  step_set: "\<lbrakk>cs_threads s t = Idle; set_cpu_ceiling True arch l (cs_cell s) = (res, cell)\<rbrakk> \<Longrightarrow>
     ceiling_step arch s (s\<lparr>cs_cell := cell, cs_threads := (cs_threads s)(t := Set_done l res)\<rparr>)"
| step_load_frozen: "\<lbrakk>cs_threads s t = Idle; cs_cell s \<noteq> 0\<rbrakk> \<Longrightarrow>
     ceiling_step arch s (s\<lparr>cs_threads := (cs_threads s)(t := Get_done (decode_ceiling (cs_cell s)))\<rparr>)"
| step_load_zero: "\<lbrakk>cs_threads s t = Idle; cs_cell s = 0\<rbrakk> \<Longrightarrow>
     ceiling_step arch s (s\<lparr>cs_threads := (cs_threads s)(t := Loaded_zero)\<rparr>)"
| step_freeze: "\<lbrakk>cs_threads s t = Loaded_zero; freeze_ceiling (cs_cell s) = (stored, cell)\<rbrakk> \<Longrightarrow>
     ceiling_step arch s (s\<lparr>cs_cell := cell, cs_threads := (cs_threads s)(t := Get_done (decode_ceiling stored))\<rparr>)"

inductive ceiling_reachable :: "target_arch \<Rightarrow> ceiling_state \<Rightarrow> bool" for arch where
  reach_init: "ceiling_reachable arch \<lparr>cs_cell = 0, cs_threads = \<lambda>_. Idle\<rparr>"
| reach_step: "\<lbrakk>ceiling_reachable arch s; ceiling_step arch s s'\<rbrakk> \<Longrightarrow> ceiling_reachable arch s'"

inductive_cases ceiling_stepE: "ceiling_step arch s s'"

fun stored_level :: "cpu_level \<Rightarrow> u8" where
  "stored_level l = of_nat (the (level_position l ALL_LEVELS)) + 1"

lemma stored_level:
  "level_position l ALL_LEVELS = Some (the (level_position l ALL_LEVELS))"
  "stored_level l \<noteq> 0" "decode_ceiling (stored_level l) = Some (Some l)"
  by (cases l; simp add: ALL_LEVELS_def decode_ceiling_def CEILING_NONE_def)+

declare stored_level.simps [simp del]

lemma decode_ceiling_none: "decode_ceiling CEILING_NONE = Some None"
  by (simp add: decode_ceiling_def)

lemma set_cpu_ceiling_cases:
  "set_cpu_ceiling True arch l cell =
     (if \<not> native arch l then (Err (OtherArchitecture l), cell)
      else if cell = 0 then (Ok (), stored_level l) else (Err AlreadyResolved, cell))"
  using stored_level(1) [of l]
  by (auto simp: set_cpu_ceiling_def compare_exchange_def stored_level.simps split: option.splits)

lemma freeze_ceiling_cases:
  "freeze_ceiling cell = (if cell = 0 then (CEILING_NONE, CEILING_NONE) else (cell, cell))"
  by (simp add: freeze_ceiling_def compare_exchange_def)

text \<open>What the cell says about the calls that have returned.\<close>

definition thread_agrees :: "u8 \<Rightarrow> ceiling_thread \<Rightarrow> bool" where
  "thread_agrees cell t = (case t of
      Get_done v \<Rightarrow> cell \<noteq> 0 \<and> v = decode_ceiling cell
    | Set_done l res \<Rightarrow> res \<noteq> Panic \<and> (res = Ok () \<longrightarrow> cell = stored_level l)
        \<and> (res = Err AlreadyResolved \<longrightarrow> cell \<noteq> 0)
    | _ \<Rightarrow> True)"

definition ceiling_inv :: "ceiling_state \<Rightarrow> bool" where
  "ceiling_inv s \<longleftrightarrow> (cs_cell s = 0 \<or> cs_cell s = CEILING_NONE \<or> (\<exists>l. cs_cell s = stored_level l))
     \<and> (\<forall>t. thread_agrees (cs_cell s) (cs_threads s t))"

definition won :: "ceiling_state \<Rightarrow> nat \<Rightarrow> bool" where
  "won s t \<longleftrightarrow> (\<exists>l. cs_threads s t = Set_done l (Ok ()))"

lemma ceiling_frozen:
  "\<lbrakk>ceiling_step arch s s'; cs_cell s \<noteq> 0\<rbrakk> \<Longrightarrow> cs_cell s' = cs_cell s"
  by (auto elim!: ceiling_stepE simp: set_cpu_ceiling_cases freeze_ceiling_cases split: if_splits)

lemma thread_agrees_zero: "thread_agrees 0 t \<Longrightarrow> thread_agrees cell t"
  using stored_level(2) by (cases t) (auto simp: thread_agrees_def dest: sym)

lemma ceiling_inv_step: "\<lbrakk>ceiling_step arch s s'; ceiling_inv s\<rbrakk> \<Longrightarrow> ceiling_inv s'"
proof (induction rule: ceiling_step.induct)
  case (step_set s t l res cell)
  then show ?case
    by (auto simp: ceiling_inv_def set_cpu_ceiling_cases thread_agrees_def [of _ "Set_done l res"]
        split: if_splits intro: thread_agrees_zero)
next
  case (step_freeze s t stored cell)
  then show ?case
    by (auto simp: ceiling_inv_def freeze_ceiling_cases thread_agrees_def [of _ "Get_done _"]
        CEILING_NONE_def split: if_splits intro: thread_agrees_zero)
qed (auto simp: ceiling_inv_def thread_agrees_def)

lemma ceiling_inv_reachable: "ceiling_reachable arch s \<Longrightarrow> ceiling_inv s"
proof (induction rule: ceiling_reachable.induct)
  case reach_init
  then show ?case by (simp add: ceiling_inv_def thread_agrees_def)
next
  case (reach_step s s')
  then show ?case by (blast intro: ceiling_inv_step)
qed

lemma won_frozen: "\<lbrakk>ceiling_inv s; won s t\<rbrakk> \<Longrightarrow> cs_cell s \<noteq> 0"
  using stored_level(2) by (force simp: ceiling_inv_def won_def thread_agrees_def dest: spec [of _ t])

lemma won_once:
  "\<lbrakk>ceiling_reachable arch s; won s t; won s t'\<rbrakk> \<Longrightarrow> t = t'"
proof (induction arbitrary: t t' rule: ceiling_reachable.induct)
  case reach_init
  then show ?case by (simp add: won_def)
next
  case (reach_step s s')
  have inv: "ceiling_inv s" using reach_step.hyps(1) by (rule ceiling_inv_reachable)
  from reach_step.hyps(2) show ?case
  proof cases
    case (step_set u l res cell)
    then have "won s' v \<longleftrightarrow> (v = u \<and> native arch l \<and> cs_cell s = 0) \<or> (v \<noteq> u \<and> won s v)" for v
      by (auto simp: won_def set_cpu_ceiling_cases split: if_splits)
    with reach_step.prems reach_step.IH won_frozen [OF inv] show ?thesis by metis
  qed (use reach_step.prems reach_step.IH in \<open>auto simp: won_def split: if_splits\<close>)
qed



text \<open>A run: a load that sees zero, a successful set, then the delayed freeze.\<close>

definition ceiling_demo :: ceiling_state where
  "ceiling_demo = \<lparr>cs_cell = 4, cs_threads =
     (\<lambda>_. Idle)(1 := Get_done (Some (Some Bmi2)), 0 := Set_done Bmi2 (Ok ()))\<rparr>"

lemma ceiling_demo_reachable: "ceiling_reachable X86_64 ceiling_demo"
proof -
  let ?s0 = "\<lparr>cs_cell = 0, cs_threads = \<lambda>_. Idle\<rparr>"
  let ?s1 = "?s0\<lparr>cs_threads := (cs_threads ?s0)(1 := Loaded_zero)\<rparr>"
  let ?s2 = "?s1\<lparr>cs_cell := 4, cs_threads := (cs_threads ?s1)(0 := Set_done Bmi2 (Ok ()))\<rparr>"
  let ?s3 = "?s2\<lparr>cs_cell := 4, cs_threads := (cs_threads ?s2)(1 := Get_done (decode_ceiling 4))\<rparr>"
  have lvl: "stored_level Bmi2 = 4" by (simp add: stored_level.simps ALL_LEVELS_def)
  have "ceiling_step X86_64 ?s0 ?s1" by (rule step_load_zero) simp_all
  moreover have "ceiling_step X86_64 ?s1 ?s2"
    by (rule step_set) (simp_all add: set_cpu_ceiling_cases native_def lvl)
  moreover have "ceiling_step X86_64 ?s2 ?s3"
    by (rule step_freeze) (simp_all add: freeze_ceiling_cases)
  ultimately have "ceiling_reachable X86_64 ?s3"
    by (blast intro: reach_init reach_step)
  moreover have "?s3 = ceiling_demo"
    using stored_level(3) [of Bmi2] by (auto simp: ceiling_demo_def lvl)
  ultimately show ?thesis by simp
qed

section \<open>Properties\<close>

text \<open>
  C35. The ceiling is decided once, in every interleaving of the threads' atomic accesses: all calls
  of \<open>cpu_ceiling\<close> that have returned gave the same answer (and none hit the index panic), at most
  one \<open>set_cpu_ceiling\<close> succeeded, and when one did, every answer is its level.
\<close>

theorem cpu_ceiling_decided_once:
  assumes "ceiling_reachable arch s"
  shows "\<exists>answer. (\<forall>t v. cs_threads s t = Get_done v \<longrightarrow> v = Some answer)
     \<and> (\<forall>t l. cs_threads s t = Set_done l (Ok ()) \<longrightarrow> answer = Some l)
     \<and> (\<forall>t t' l l'. cs_threads s t = Set_done l (Ok ()) \<longrightarrow> cs_threads s t' = Set_done l' (Ok ()) \<longrightarrow> t = t')
     \<and> (\<forall>s'. ceiling_step arch s s' \<longrightarrow> cs_cell s \<noteq> 0 \<longrightarrow> cs_cell s' = cs_cell s)"
proof -
  have inv: "ceiling_inv s" by (rule ceiling_inv_reachable [OF assms])
  then have agrees: "thread_agrees (cs_cell s) (cs_threads s t)" for t by (simp add: ceiling_inv_def)
  define answer where "answer = the (decode_ceiling (cs_cell s))"
  have some: "decode_ceiling (cs_cell s) = Some answer" if "cs_cell s \<noteq> 0"
    using inv that by (auto simp: ceiling_inv_def answer_def stored_level decode_ceiling_none)
  have "v = Some answer" if "cs_threads s t = Get_done v" for t v
    using agrees [of t] that some by (simp add: thread_agrees_def)
  moreover have "answer = Some l" if "cs_threads s t = Set_done l (Ok ())" for t l
    using agrees [of t] that by (simp add: thread_agrees_def answer_def stored_level)
  moreover have "t = t'" if "cs_threads s t = Set_done l (Ok ())" "cs_threads s t' = Set_done l' (Ok ())" for t t' l l'
    using won_once [OF assms, of t t'] that by (auto simp: won_def)
  ultimately show ?thesis using ceiling_frozen by blast
qed

theorem cpu_ceiling_decided_once_witness:
  "\<exists>answer. (\<forall>t v. cs_threads ceiling_demo t = Get_done v \<longrightarrow> v = Some answer)
     \<and> (\<forall>t l. cs_threads ceiling_demo t = Set_done l (Ok ()) \<longrightarrow> answer = Some l)
     \<and> (\<forall>t t' l l'. cs_threads ceiling_demo t = Set_done l (Ok ())
          \<longrightarrow> cs_threads ceiling_demo t' = Set_done l' (Ok ()) \<longrightarrow> t = t')
     \<and> (\<forall>s'. ceiling_step X86_64 ceiling_demo s'
          \<longrightarrow> cs_cell ceiling_demo \<noteq> 0 \<longrightarrow> cs_cell s' = cs_cell ceiling_demo)"
  by (rule cpu_ceiling_decided_once) (rule ceiling_demo_reachable)



text \<open>
  Parsing a level inverts printing up to ASCII case, accepts exactly the three extra spellings,
  and refuses every other text.
\<close>

theorem from_str_complete:
  "from_str s = Ok l \<longleftrightarrow> map ascii_lower s = level_name l
     \<or> (l = Sse42 \<and> map ascii_lower s = ''sse42'')
     \<or> (l = Avx512 \<and> map ascii_lower s \<in> {''avx-512'', ''avx512f''})"
proof -
  have lower: "eq_ignore_ascii_case s t \<longleftrightarrow> map ascii_lower s = t" if "map ascii_lower t = t" for t
    using that by (simp add: eq_ignore_ascii_case_def)
  have extra: "eq_ignore_ascii_case s ''sse42'' \<longleftrightarrow> map ascii_lower s = ''sse42''"
    "eq_ignore_ascii_case s ''avx-512'' \<longleftrightarrow> map ascii_lower s = ''avx-512''"
    "eq_ignore_ascii_case s ''avx512f'' \<longleftrightarrow> map ascii_lower s = ''avx512f''"
    by (rule lower, simp add: ascii_lower_def Let_def)+
  show ?thesis
  proof (cases "find (\<lambda>l. eq_ignore_ascii_case s (level_name l)) ALL_LEVELS")
    case (Some m)
    then have m: "map ascii_lower s = level_name m" by (simp add: find_level)
    have "from_str s = Ok m" by (simp add: from_str_def Some)
    moreover have "level_name m \<notin> {''sse42'', ''avx-512'', ''avx512f''}" by (cases m) simp_all
    ultimately show ?thesis using m by (auto simp: level_name_inject)
  next
    case None
    then have "map ascii_lower s \<noteq> level_name l" for l
      using find_level [of s l] by simp
    then show ?thesis
      by (auto simp: from_str_def None extra Let_def simp del: level_name.simps split: if_splits)
  qed
qed

text \<open>
  A build without \<open>std\<close> compiled for exactly the features that a CPU reports picks the kernel that
  the run-time detection of a \<open>std\<close> build picks on that CPU, under every ceiling, as long as the kernel
  features imply each other the way the manifest declares.
\<close>

theorem no_std_kernel_equals_detected:
  assumes "kernel_vbmi2 feat \<longrightarrow> kernel_avx2 feat" "kernel_avx2 feat \<longrightarrow> kernel_bmi2 feat"
    "kernel_bmi2 feat \<longrightarrow> kernel_sse feat"
  shows "detect_cpu_kernel_no_std arch feat cpu ceiling = detect_cpu_kernel_uncached arch feat cpu ceiling"
  using assms unfolding detect_cpu_kernel_no_std_def detect_cpu_kernel_uncached_def select_x86_kernel_def Let_def
  by (cases arch; cases "kernel_sse feat"; cases "kernel_bmi2 feat"; cases "kernel_avx2 feat"; cases "kernel_vbmi2 feat")
    (simp_all del: allowed_under.simps add: conj_commute)

theorem no_std_kernel_equals_detected_witness:
  "detect_cpu_kernel_no_std X86_64
      \<lparr>kernel_vbmi2 = False, kernel_avx2 = True, kernel_bmi2 = True, kernel_sse = True, kernel_neon = True, kernel_sve = True\<rparr>
      (\<lambda>f. f = ''bmi2'' \<or> f = ''avx2'') (Some Bmi2)
   = detect_cpu_kernel_uncached X86_64
      \<lparr>kernel_vbmi2 = False, kernel_avx2 = True, kernel_bmi2 = True, kernel_sse = True, kernel_neon = True, kernel_sve = True\<rparr>
      (\<lambda>f. f = ''bmi2'' \<or> f = ''avx2'') (Some Bmi2)"
  by (rule no_std_kernel_equals_detected) simp_all

end
