(* ===== verification/Block_Header.thy ===== *)
theory Block_Header
  imports Prelude
begin

text \<open>
  Block headers: the encoder's \<^verbatim>\<open>encoding/block_header.rs\<close> and the decoder's half of
  \<^verbatim>\<open>decoding/block_decoder.rs\<close> that reads a header and holds a block to the frame's block maximum.
  A byte source (\<open>impl Read\<close>) is the list of bytes it still has; a short read is an error.
\<close>

section \<open>Types\<close>

datatype block_type = Raw | RLE | Compressed | Reserved

record block_header =
  bh_last_block :: bool
  bh_block_type :: block_type
  bh_decompressed_size :: u32
  bh_content_size :: u32

record enc_block_header =
  ebh_last_block :: bool
  ebh_block_type :: block_type
  ebh_block_size :: u32

datatype decoder_state = ReadyToDecodeNextHeader | ReadyToDecodeNextBody | Failed

record block_decoder =
  bd_header_buffer :: "u8 list"
  bd_internal_state :: decoder_state

datatype io_error = UnexpectedEof

datatype block_type_error = InvalidBlocktypeNumber u8
datatype block_size_error = BlockSizeTooLarge u32

datatype block_header_read_error =
    ReadError io_error
  | FoundReservedBlock
  | BlockTypeError block_type_error
  | BlockSizeError block_size_error

definition MAX_BLOCK_SIZE :: u32 where
  "MAX_BLOCK_SIZE = 128 * 1024"

definition read_exact :: "nat \<Rightarrow> u8 list \<Rightarrow> (u8 list \<times> u8 list, io_error) result" where
  "read_exact n r = (if n \<le> length r then Ok (take n r, drop n r) else Err UnexpectedEof)"

section \<open>Encoder\<close>

text \<open>The panic is the reserved block type. \<open>block_size << 3\<close> drops the upper three bits.\<close>

definition block_header_to_le_bytes :: "enc_block_header \<Rightarrow> u8 list option" where
  "block_header_to_le_bytes h =
     Option.bind (case ebh_block_type h of Raw \<Rightarrow> Some (0 :: u32) | RLE \<Rightarrow> Some 1 | Compressed \<Rightarrow> Some 2
             | Reserved \<Rightarrow> None) (\<lambda>encoded_block_type.
       let block_header = push_bit 3 (ebh_block_size h);
           block_header = block_header OR push_bit 1 encoded_block_type;
           block_header = block_header OR of_bool (ebh_last_block h);
           le = to_le_bytes 4 block_header
       in Some [le ! 0, le ! 1, le ! 2])"

definition block_header_serialize :: "enc_block_header \<Rightarrow> u8 list \<Rightarrow> u8 list option" where
  "block_header_serialize h out = map_option (\<lambda>bs. out @ bs) (block_header_to_le_bytes h)"

section \<open>Decoder\<close>

definition reset_buffer :: "block_decoder \<Rightarrow> block_decoder" where
  "reset_buffer d = d\<lparr>bd_header_buffer := [0, 0, 0]\<rparr>"

definition is_last :: "block_decoder \<Rightarrow> bool" where
  "is_last d \<longleftrightarrow> bd_header_buffer d ! 0 AND 1 = 1"

definition block_type_of :: "block_decoder \<Rightarrow> (block_type, block_type_error) result" where
  "block_type_of d =
     (let t = drop_bit 1 (bd_header_buffer d ! 0) AND 3 in
      if t = 0 then Ok Raw
      else if t = 1 then Ok RLE
      else if t = 2 then Ok Compressed
      else if t = 3 then Ok Reserved
      else Err (InvalidBlocktypeNumber t))"

definition block_content_size_unchecked :: "block_decoder \<Rightarrow> u32" where
  "block_content_size_unchecked d =
     ucast (drop_bit 3 (bd_header_buffer d ! 0)) OR push_bit 5 (ucast (bd_header_buffer d ! 1))
       OR push_bit 13 (ucast (bd_header_buffer d ! 2))"

definition block_content_size :: "block_decoder \<Rightarrow> (u32, block_size_error) result" where
  "block_content_size d =
     (let val = block_content_size_unchecked d in
      if val > MAX_BLOCK_SIZE then Err (BlockSizeTooLarge val) else Ok val)"

definition read_block_header ::
  "block_decoder \<Rightarrow> u8 list
     \<Rightarrow> block_decoder \<times> (block_header \<times> nat \<times> u8 list, block_header_read_error) result" where
  "read_block_header d r = (case read_exact 3 r of
      Err e \<Rightarrow> (d, Err (ReadError e))
    | Panic \<Rightarrow> (d, Panic)
    | Ok (buf, rest) \<Rightarrow>
        let d = d\<lparr>bd_header_buffer := buf\<rparr> in
        case block_type_of d of
          Err e \<Rightarrow> (d, Err (BlockTypeError e))
        | Panic \<Rightarrow> (d, Panic)
        | Ok btype \<Rightarrow>
            if btype = Reserved then (d, Err FoundReservedBlock)
            else case block_content_size d of
              Err e \<Rightarrow> (d, Err (BlockSizeError e))
            | Panic \<Rightarrow> (d, Panic)
            | Ok block_size \<Rightarrow>
                let decompressed_size = (case btype of Raw \<Rightarrow> block_size | RLE \<Rightarrow> block_size
                      | Reserved \<Rightarrow> 0 | Compressed \<Rightarrow> 0);
                    content_size = (case btype of Raw \<Rightarrow> block_size | Compressed \<Rightarrow> block_size
                      | RLE \<Rightarrow> 1 | Reserved \<Rightarrow> 0);
                    last_block = is_last d
                in ((reset_buffer d)\<lparr>bd_internal_state := ReadyToDecodeNextBody\<rparr>,
                    Ok (\<lparr>bh_last_block = last_block, bh_block_type = btype,
                         bh_decompressed_size = decompressed_size, bh_content_size = content_size\<rparr>,
                        3, rest)))"

definition block_maximum :: "nat \<Rightarrow> nat" where
  "block_maximum window_size = min window_size (unat MAX_BLOCK_SIZE)"

datatype decompress_block_error =
    ExpandsPastBlockMaximum (epbm_size: nat) (epbm_maximum: nat)
  | ContentPastBlockMaximum (cpbm_size: nat) (cpbm_maximum: nat)

definition block_fits_the_maximum :: "block_header \<Rightarrow> nat \<Rightarrow> (unit, decompress_block_error) result" where
  "block_fits_the_maximum header maximum =
     (let size = unat (bh_decompressed_size header) in
      if size > maximum then Err (ExpandsPastBlockMaximum size maximum) else Ok ())"

definition compressed_content_fits :: "block_header \<Rightarrow> nat \<Rightarrow> (unit, decompress_block_error) result" where
  "compressed_content_fits header maximum =
     (let size = unat (bh_content_size header) in
      if size > maximum then Err (ContentPastBlockMaximum size maximum) else Ok ())"

section \<open>Correctness\<close>

fun type_code :: "block_type \<Rightarrow> u32" where
  "type_code Raw = 0"
| "type_code RLE = 1"
| "type_code Compressed = 2"
| "type_code Reserved = 3"

lemma to_le_bytes_first3: "[to_le_bytes 4 w ! 0, to_le_bytes 4 w ! 1, to_le_bytes 4 w ! 2] = to_le_bytes 3 w"
proof -
  have "take 3 (to_le_bytes 4 w) = [to_le_bytes 4 w ! 0, to_le_bytes 4 w ! 1, to_le_bytes 4 w ! 2]"
    by (rule nth_equalityI) (auto simp: less_Suc_eq numeral_3_eq_3)
  then show ?thesis by (simp add: take_to_le_bytes)
qed

definition header_word :: "enc_block_header \<Rightarrow> u32" where
  "header_word h =
     (push_bit 3 (ebh_block_size h) OR push_bit 1 (type_code (ebh_block_type h))) OR of_bool (ebh_last_block h)"

lemma block_header_to_le_bytes_eq:
  "block_header_to_le_bytes h =
     (if ebh_block_type h = Reserved then None else Some (to_le_bytes 3 (header_word h)))"
  by (cases "ebh_block_type h")
    (simp_all only: block_header_to_le_bytes_def Let_def to_le_bytes_first3 header_word_def
      block_type.case type_code.simps Option.bind.simps block_type.distinct if_True if_False simp_thms)

lemma bit_type_code: "bit (type_code t) i \<longleftrightarrow> (i = 0 \<and> t \<in> {RLE, Reserved}) \<or> (i = 1 \<and> t \<in> {Compressed, Reserved})"
proof -
  have two: "(2 :: u32) = 2 ^ 1" and three: "(3 :: u32) = mask 2" by (simp_all add: mask_eq_exp_minus_1)
  have "bit (2 :: u32) i \<longleftrightarrow> i = 1" by (subst two, subst bit_exp_iff) auto
  moreover have "bit (3 :: u32) i \<longleftrightarrow> i < 2" by (subst three, subst bit_mask_iff) auto
  ultimately show ?thesis by (cases t) (auto simp: bit_1_iff)
qed

lemma bit_type_code_less: "bit (type_code t) i \<Longrightarrow> i < 2"
  by (auto simp: bit_type_code)

lemma bit_header_word:
  "bit (header_word h) i \<longleftrightarrow> (if i = 0 then ebh_last_block h
     else if i < 3 then bit (type_code (ebh_block_type h)) (i - 1)
     else i < 32 \<and> bit (ebh_block_size h) (i - 3))"
proof -
  have "bit (header_word h) i \<longleftrightarrow> (3 \<le> i \<and> i < 32 \<and> bit (ebh_block_size h) (i - 3))
      \<or> (1 \<le> i \<and> i < 32 \<and> bit (type_code (ebh_block_type h)) (i - 1)) \<or> (ebh_last_block h \<and> i = 0)"
    unfolding header_word_def bit_or_iff bit_push_bit_iff bit_of_bool_iff by (simp add: conj_commute)
  then show ?thesis by (auto simp: bit_type_code)
qed

text \<open>The decoded fields in terms of the bits of the three bytes.\<close>

lemma size_bits:
  assumes "length buf = 3" "bd_header_buffer d = buf"
  shows "bit (block_content_size_unchecked d) i \<longleftrightarrow> i < 21 \<and> sbit buf (i + 3)"
proof -
  obtain a b c where buf: "buf = [a, b, c]"
    using assms(1) by (auto simp: length_Suc_conv numeral_3_eq_3)
  show ?thesis
    unfolding block_content_size_unchecked_def assms(2) buf
    by (auto simp: bit_or_iff bit_push_bit_iff bit_unsigned_iff bit_drop_bit_eq sbit_Cons ac_simps
        dest: bit_imp_le_length)
qed

lemma is_last_bit:
  assumes "length buf = 3" "bd_header_buffer d = buf"
  shows "is_last d \<longleftrightarrow> sbit buf 0"
proof -
  have "b AND 1 = 1 \<longleftrightarrow> bit b 0" for b :: u8
    by (simp add: and_one_eq mod_2_eq_odd bit_0)
  then show ?thesis using assms by (cases buf) (auto simp: is_last_def sbit_Cons)
qed

lemma type_bits:
  assumes "length buf = 3" "bd_header_buffer d = buf"
  shows "block_type_of d = Ok t \<longleftrightarrow> (\<forall>i < 2. bit (type_code t) i = sbit buf (Suc i))"
    "\<exists>t. block_type_of d = Ok t"
proof -
  let ?t = "drop_bit 1 (bd_header_buffer d ! 0) AND 3"
  have bits: "bit ?t i \<longleftrightarrow> i < 2 \<and> sbit buf (Suc i)" for i
    using assms by (cases buf) (auto simp: bit_two_bits bit_drop_bit_eq sbit_Cons)
  have code: "?t = ucast (type_code t) \<longleftrightarrow> (\<forall>i < 2. bit (type_code t) i = sbit buf (Suc i))" for t
  proof -
    have "?t = ucast (type_code t) \<longleftrightarrow> (\<forall>i < 8. (i < 2 \<and> sbit buf (Suc i)) = bit (type_code t) i)"
      unfolding bit_eq_iff bits bit_unsigned_iff by auto
    also have "\<dots> \<longleftrightarrow> (\<forall>i < 2. bit (type_code t) i = sbit buf (Suc i))"
      by (metis bit_type_code_less less_le_trans numeral_le_iff semiring_norm(68,69,71))
    finally show ?thesis .
  qed
  have "\<exists>t. ?t = ucast (type_code t)"
    unfolding code by (cases "sbit buf 1"; cases "sbit buf 2")
      (auto simp: bit_type_code less_2_cases_iff intro: exI [of _ Raw] exI [of _ RLE] exI [of _ Compressed] exI [of _ Reserved])
  then obtain u where u: "?t = ucast (type_code u)" ..
  then have "block_type_of d = Ok u" unfolding block_type_of_def u Let_def by (cases u) simp_all
  moreover have "ucast (type_code u) = (ucast (type_code t) :: u8) \<longleftrightarrow> u = t" by (cases u; cases t) simp_all
  ultimately show "block_type_of d = Ok t \<longleftrightarrow> (\<forall>i < 2. bit (type_code t) i = sbit buf (Suc i))"
    "\<exists>t. block_type_of d = Ok t" unfolding code [symmetric] u by auto
qed

text \<open>The encoder's bytes and the decoder's reading of them, both ways.\<close>

lemma decode_encoded:
  assumes "block_header_to_le_bytes h = Some buf" "bd_header_buffer d = buf"
    "unat (ebh_block_size h) < 2 ^ 21"
  shows "block_type_of d = Ok (ebh_block_type h)" "is_last d = ebh_last_block h"
    "block_content_size_unchecked d = ebh_block_size h" "length buf = 3"
proof -
  have buf: "buf = to_le_bytes 3 (header_word h)"
    using assms(1) by (simp add: block_header_to_le_bytes_eq split: if_splits)
  then show len: "length buf = 3" by simp
  have bits: "sbit buf i \<longleftrightarrow> i < 24 \<and> bit (header_word h) i" for i
    by (simp add: buf sbit_to_le_bytes)
  show "block_type_of d = Ok (ebh_block_type h)"
    unfolding type_bits [OF len assms(2)] by (auto simp: bits bit_header_word)
  show "is_last d = ebh_last_block h"
    unfolding is_last_bit [OF len assms(2)] by (simp add: bits bit_header_word)
  have "drop_bit 21 (ebh_block_size h) = 0" using assms(3) by (simp add: drop_bit_eq_0_iff_less)
  then have small: "\<not> bit (ebh_block_size h) i" if "21 \<le> i" for i
    using that by (simp add: drop_bit_eq_0_iff)
  show "block_content_size_unchecked d = ebh_block_size h"
  proof (rule bit_word_eqI)
    fix i
    show "bit (block_content_size_unchecked d) i = bit (ebh_block_size h) i"
      unfolding size_bits [OF len assms(2)] bits bit_header_word using small [of i] by (cases "i < 21") auto
  qed
qed

lemma encode_decoded:
  assumes "length buf = 3" "bd_header_buffer d = buf" "block_type_of d = Ok t" "t \<noteq> Reserved"
  shows "block_header_to_le_bytes \<lparr>ebh_last_block = is_last d, ebh_block_type = t,
      ebh_block_size = block_content_size_unchecked d\<rparr> = Some buf"
proof -
  let ?h = "\<lparr>ebh_last_block = is_last d, ebh_block_type = t, ebh_block_size = block_content_size_unchecked d\<rparr>"
  have t: "i < 2 \<Longrightarrow> bit (type_code t) i = sbit buf (Suc i)" for i
    using assms(3) type_bits(1) [OF assms(1,2)] by blast
  have "to_le_bytes 3 (header_word ?h) = buf"
  proof (rule bytes_eqI)
    fix i
    show "sbit (to_le_bytes 3 (header_word ?h)) i = sbit buf i"
      using t [of "i - 1"] sbit_less [of buf i] assms(1)
      by (auto simp: sbit_to_le_bytes bit_header_word is_last_bit [OF assms(1,2)] size_bits [OF assms(1,2)])
  qed (use assms(1) in simp)
  then show ?thesis using assms(4) by (simp add: block_header_to_le_bytes_eq)
qed

lemma read_exact_iffs:
  "read_exact n r = Ok (b, rest) \<longleftrightarrow> n \<le> length r \<and> b = take n r \<and> rest = drop n r"
  "read_exact n r = Err e \<longleftrightarrow> length r < n \<and> e = UnexpectedEof" "read_exact n r \<noteq> Panic"
  by (auto simp: read_exact_def)

text \<open>Every outcome of reading a header, by the three bytes.\<close>

lemma read_block_header_cases:
  assumes "d1 = d\<lparr>bd_header_buffer := take 3 r\<rparr>" "block_type_of d1 = Ok t" "3 \<le> length r"
  shows "read_block_header d r =
    (if t = Reserved then (d1, Err FoundReservedBlock)
     else if MAX_BLOCK_SIZE < block_content_size_unchecked d1
     then (d1, Err (BlockSizeError (BlockSizeTooLarge (block_content_size_unchecked d1))))
     else (d1\<lparr>bd_header_buffer := [0, 0, 0], bd_internal_state := ReadyToDecodeNextBody\<rparr>,
           Ok (\<lparr>bh_last_block = is_last d1, bh_block_type = t,
                bh_decompressed_size = (if t = Compressed then 0 else block_content_size_unchecked d1),
                bh_content_size = (if t = RLE then 1 else block_content_size_unchecked d1)\<rparr>,
               3, drop 3 r)))"
  using assms
  by (cases t) (auto simp: read_block_header_def read_exact_def block_content_size_def reset_buffer_def Let_def)

lemma read_block_header_short: "length r < 3 \<Longrightarrow> read_block_header d r = (d, Err (ReadError UnexpectedEof))"
  by (simp add: read_block_header_def read_exact_def)

section \<open>Properties\<close>

text \<open>
  C23. Block headers round-trip: what the encoder writes for a block of at most 128 KiB is read back
  by the decoder as the same type, flag and size (the content of an RLE block is one byte, the
  output of a compressed block unknown), consumes three bytes and moves the decoder to its body
  state with a cleared buffer.
\<close>

theorem block_header_roundtrip:
  assumes "ebh_block_type h \<noteq> Reserved" "ebh_block_size h \<le> MAX_BLOCK_SIZE"
  shows "\<exists>bs. block_header_to_le_bytes h = Some bs \<and> length bs = 3 \<and>
     read_block_header d (bs @ rest) =
       (d\<lparr>bd_header_buffer := [0, 0, 0], bd_internal_state := ReadyToDecodeNextBody\<rparr>,
        Ok (\<lparr>bh_last_block = ebh_last_block h, bh_block_type = ebh_block_type h,
             bh_decompressed_size = (if ebh_block_type h = Compressed then 0 else ebh_block_size h),
             bh_content_size = (if ebh_block_type h = RLE then 1 else ebh_block_size h)\<rparr>, 3, rest))"
proof -
  obtain bs where bs: "block_header_to_le_bytes h = Some bs"
    using assms(1) by (simp add: block_header_to_le_bytes_eq)
  have small: "unat (ebh_block_size h) < 2 ^ 21"
    using assms(2) by (simp add: MAX_BLOCK_SIZE_def word_le_nat_alt)
  let ?d = "d\<lparr>bd_header_buffer := bs\<rparr>"
  note dec = decode_encoded [OF bs _ small, of ?d, simplified]
  show ?thesis
    using bs dec read_block_header_cases [of ?d "bs @ rest" d "ebh_block_type h"] assms
    by (auto simp: not_less)
qed

theorem block_header_roundtrip_witness:
  "\<exists>bs. block_header_to_le_bytes \<lparr>ebh_last_block = True, ebh_block_type = RLE, ebh_block_size = 4096\<rparr> = Some bs
     \<and> length bs = 3 \<and>
     read_block_header \<lparr>bd_header_buffer = [0, 0, 0], bd_internal_state = ReadyToDecodeNextHeader\<rparr> (bs @ [7, 9]) =
       (\<lparr>bd_header_buffer = [0, 0, 0], bd_internal_state = ReadyToDecodeNextHeader\<rparr>
          \<lparr>bd_header_buffer := [0, 0, 0], bd_internal_state := ReadyToDecodeNextBody\<rparr>,
        Ok (\<lparr>bh_last_block = True, bh_block_type = RLE, bh_decompressed_size = 4096,
             bh_content_size = 1\<rparr>, 3, [7, 9]))"
  using block_header_roundtrip [of "\<lparr>ebh_last_block = True, ebh_block_type = RLE, ebh_block_size = 4096\<rparr>"
      "\<lparr>bd_header_buffer = [0, 0, 0], bd_internal_state = ReadyToDecodeNextHeader\<rparr>" "[7, 9]"]
  by (simp add: MAX_BLOCK_SIZE_def)

text \<open>
  C24. Every accepted block header is canonical and within bounds: if the decoder accepts a header it
  consumed exactly three bytes, the sizes are at most 128 KiB, the type is not reserved, and encoding
  the decoded fields gives the same three bytes.
\<close>

theorem read_block_header_canonical:
  assumes "read_block_header d r = (d', Ok (hdr, n, rest))"
  shows "n = 3 \<and> r = take 3 r @ rest \<and> length (take 3 r) = 3 \<and> bh_block_type hdr \<noteq> Reserved
     \<and> bh_decompressed_size hdr \<le> MAX_BLOCK_SIZE \<and> bh_content_size hdr \<le> MAX_BLOCK_SIZE
     \<and> block_header_to_le_bytes \<lparr>ebh_last_block = bh_last_block hdr, ebh_block_type = bh_block_type hdr,
         ebh_block_size = (if bh_block_type hdr = RLE then bh_decompressed_size hdr else bh_content_size hdr)\<rparr>
         = Some (take 3 r)
     \<and> bd_internal_state d' = ReadyToDecodeNextBody"
proof -
  have len: "3 \<le> length r"
    using assms read_block_header_short [of r d] by (cases "length r < 3") auto
  define d1 where "d1 = d\<lparr>bd_header_buffer := take 3 r\<rparr>"
  have buf: "length (take 3 r) = 3" "bd_header_buffer d1 = take 3 r" using len by (simp_all add: d1_def)
  obtain t where t: "block_type_of d1 = Ok t" using type_bits(2) [OF buf] by blast
  have t': "t \<noteq> Reserved" and fields:
      "\<not> MAX_BLOCK_SIZE < block_content_size_unchecked d1" "hdr = \<lparr>bh_last_block = is_last d1, bh_block_type = t,
       bh_decompressed_size = (if t = Compressed then 0 else block_content_size_unchecked d1),
       bh_content_size = (if t = RLE then 1 else block_content_size_unchecked d1)\<rparr>"
      "n = 3" "rest = drop 3 r" "bd_internal_state d' = ReadyToDecodeNextBody"
    using assms unfolding read_block_header_cases [OF d1_def t len] by (auto split: if_splits)
  have "1 \<le> MAX_BLOCK_SIZE" "0 \<le> MAX_BLOCK_SIZE" by (simp_all add: MAX_BLOCK_SIZE_def)
  with encode_decoded [OF buf t t'] fields t' buf(1) show ?thesis
    by (cases t) (simp_all add: not_less)
qed

theorem read_block_header_canonical_witness:
  "(3 :: nat) = 3 \<and> [0x25, 0, 0, 1] = take 3 [0x25, 0, 0, 1] @ [1 :: u8] \<and> length (take 3 [0x25, 0, 0, 1 :: u8]) = 3
     \<and> Compressed \<noteq> Reserved \<and> 0 \<le> MAX_BLOCK_SIZE \<and> 4 \<le> MAX_BLOCK_SIZE
     \<and> block_header_to_le_bytes \<lparr>ebh_last_block = True, ebh_block_type = Compressed, ebh_block_size = 4\<rparr>
         = Some (take 3 [0x25, 0, 0, 1])
     \<and> ReadyToDecodeNextBody = ReadyToDecodeNextBody"
  using read_block_header_canonical
    [of "\<lparr>bd_header_buffer = [0, 0, 0], bd_internal_state = ReadyToDecodeNextHeader\<rparr>" "[0x25, 0, 0, 1]"
        "\<lparr>bd_header_buffer = [0, 0, 0], bd_internal_state = ReadyToDecodeNextBody\<rparr>"
        "\<lparr>bh_last_block = True, bh_block_type = Compressed, bh_decompressed_size = 0, bh_content_size = 4\<rparr>" 3 "[1]"]
  by (simp add: read_block_header_def read_exact_def block_type_of_def block_content_size_def
      block_content_size_unchecked_def is_last_def reset_buffer_def MAX_BLOCK_SIZE_def)

end
