(* ===== verification/Section_Headers.thy ===== *)
theory Section_Headers
  imports Bit_Reader Bit_Writer
begin

text \<open>
  The headers of the two sections of a compressed block: \<^verbatim>\<open>blocks/literals_section.rs\<close> and
  \<^verbatim>\<open>blocks/sequence_section.rs\<close> on the decoder's side, the header writers of
  \<^verbatim>\<open>encoding/blocks/compressed.rs\<close> on the encoder's. Sizes of at most 20 bits are natural
  numbers: none of the sums below reaches the width of \<open>u32\<close>. A parser takes the structure it
  fills and returns it beside the result, since it fills it before it can fail.
\<close>

section \<open>Literals section header\<close>

datatype literals_section_type = LitRaw | LitRLE | LitCompressed | LitTreeless

record literals_section =
  ls_regenerated_size :: nat
  ls_compressed_size :: "nat option"
  ls_num_streams :: "nat option"
  ls_type :: literals_section_type

datatype literals_section_parse_error =
    IllegalLiteralSectionType u8
  | GetBitsError get_bits_error
  | LitNotEnoughBytes (lit_have: nat) (lit_need: nat)

definition literals_section_new :: literals_section where
  "literals_section_new = \<lparr>ls_regenerated_size = 0, ls_compressed_size = None, ls_num_streams = None,
     ls_type = LitRaw\<rparr>"

definition section_type :: "u8 \<Rightarrow> (literals_section_type, literals_section_parse_error) result" where
  "section_type raw =
     (let t = raw AND 3 in
      if t = 0 then Ok LitRaw
      else if t = 1 then Ok LitRLE
      else if t = 2 then Ok LitCompressed
      else if t = 3 then Ok LitTreeless
      else Err (IllegalLiteralSectionType t))"

definition header_bytes_needed :: "u8 \<Rightarrow> (nat, literals_section_parse_error) result" where
  "header_bytes_needed first_byte =
     rbind (section_type first_byte) (\<lambda>t.
       let size_format = drop_bit 2 first_byte AND 3 in
       if t = LitRLE \<or> t = LitRaw then
         (if size_format = 0 \<or> size_format = 2 then Ok 1
          else if size_format = 1 then Ok 2
          else if size_format = 3 then Ok 3
          else Panic)
       else
         (if size_format = 0 \<or> size_format = 1 then Ok 3
          else if size_format = 2 then Ok 4
          else if size_format = 3 then Ok 5
          else Panic))"

text \<open>\<open>u32::from(raw[i])\<close>\<close>

definition byte_at :: "u8 list \<Rightarrow> nat \<Rightarrow> (nat, 'e) result" where
  "byte_at raw i = rbind (index_of raw i) (\<lambda>b. Ok (unat b))"

text \<open>The two arms of the match on the section type.\<close>

definition parse_plain_sizes ::
  "literals_section \<Rightarrow> nat \<Rightarrow> u8 list \<Rightarrow> (literals_section \<times> nat, literals_section_parse_error) result" where
  "parse_plain_sizes self size_format raw =
     (let self = self\<lparr>ls_compressed_size := None\<rparr> in
      if size_format = 0 \<or> size_format = 2 then
        rbind (byte_at raw 0) (\<lambda>b0. Ok (self\<lparr>ls_regenerated_size := drop_bit 3 b0\<rparr>, 1))
      else if size_format = 1 then
        rbind (byte_at raw 0) (\<lambda>b0. rbind (byte_at raw 1) (\<lambda>b1.
          Ok (self\<lparr>ls_regenerated_size := drop_bit 4 b0 + push_bit 4 b1\<rparr>, 2)))
      else if size_format = 3 then
        rbind (byte_at raw 0) (\<lambda>b0. rbind (byte_at raw 1) (\<lambda>b1. rbind (byte_at raw 2) (\<lambda>b2.
          Ok (self\<lparr>ls_regenerated_size := drop_bit 4 b0 + push_bit 4 b1 + push_bit 12 b2\<rparr>, 3))))
      else Panic)"

definition parse_huffman_sizes ::
  "literals_section \<Rightarrow> nat \<Rightarrow> u8 list \<Rightarrow> (literals_section \<times> nat, literals_section_parse_error) result" where
  "parse_huffman_sizes self size_format raw =
     rbind (if size_format = 0 then Ok (self\<lparr>ls_num_streams := Some 1\<rparr>)
            else if 1 \<le> size_format \<and> size_format \<le> 3 then Ok (self\<lparr>ls_num_streams := Some 4\<rparr>)
            else Panic) (\<lambda>self.
       if size_format = 0 \<or> size_format = 1 then
         rbind (byte_at raw 0) (\<lambda>b0. rbind (byte_at raw 1) (\<lambda>b1. rbind (byte_at raw 2) (\<lambda>b2.
           Ok (self\<lparr>ls_regenerated_size := drop_bit 4 b0 + push_bit 4 (b1 AND 0x3F),
                    ls_compressed_size := Some (drop_bit 6 b1 + push_bit 2 b2)\<rparr>, 3))))
       else if size_format = 2 then
         rbind (byte_at raw 0) (\<lambda>b0. rbind (byte_at raw 1) (\<lambda>b1. rbind (byte_at raw 2) (\<lambda>b2.
         rbind (byte_at raw 3) (\<lambda>b3.
           Ok (self\<lparr>ls_regenerated_size := drop_bit 4 b0 + push_bit 4 b1 + push_bit 12 (b2 AND 0x3),
                    ls_compressed_size := Some (drop_bit 2 b2 + push_bit 6 b3)\<rparr>, 4)))))
       else if size_format = 3 then
         rbind (byte_at raw 0) (\<lambda>b0. rbind (byte_at raw 1) (\<lambda>b1. rbind (byte_at raw 2) (\<lambda>b2.
         rbind (byte_at raw 3) (\<lambda>b3. rbind (byte_at raw 4) (\<lambda>b4.
           Ok (self\<lparr>ls_regenerated_size := drop_bit 4 b0 + push_bit 4 b1 + push_bit 12 (b2 AND 0x3F),
                    ls_compressed_size := Some (drop_bit 6 b2 + push_bit 2 b3 + push_bit 10 b4)\<rparr>, 5))))))
       else Panic)"

text \<open>\<open>LiteralsSection::parse_from_header\<close>: \<open>lit_parse_body\<close> is everything after the type is known.\<close>

definition lit_parse_body ::
  "literals_section \<Rightarrow> bit_reader \<Rightarrow> u8 list \<Rightarrow> (literals_section \<times> nat, literals_section_parse_error) result" where
  "lit_parse_body self br raw =
     rbind (map_err GetBitsError (get_bits br 2)) (\<lambda>(sf, br).
     let size_format = unat (ucast sf :: u8) in
     rbind (index_of raw 0) (\<lambda>first.
     rbind (header_bytes_needed first) (\<lambda>byte_needed.
       if length raw < byte_needed then Err (LitNotEnoughBytes (length raw) byte_needed)
       else if ls_type self = LitRLE \<or> ls_type self = LitRaw then parse_plain_sizes self size_format raw
       else parse_huffman_sizes self size_format raw)))"

definition lit_parse_from_header ::
  "literals_section \<Rightarrow> u8 list \<Rightarrow> literals_section \<times> (nat, literals_section_parse_error) result" where
  "lit_parse_from_header self raw =
     (case rbind (map_err GetBitsError (get_bits (bit_reader_new raw) 2)) (\<lambda>(bt, br).
              rbind (section_type (ucast bt)) (\<lambda>t. Ok (t, br))) of
        Err e \<Rightarrow> (self, Err e)
      | Panic \<Rightarrow> (self, Panic)
      | Ok (t, br) \<Rightarrow>
          let self = self\<lparr>ls_type := t\<rparr> in
          (case lit_parse_body self br raw of
             Ok (self', n) \<Rightarrow> (self', Ok n)
           | Err e \<Rightarrow> (self, Err e)
           | Panic \<Rightarrow> (self, Panic)))"

section \<open>Sequences section header\<close>

datatype mode_type = Predefined | ModeRLE | FSECompressed | RepeatMode

definition decode_mode :: "u8 \<Rightarrow> mode_type option" where
  "decode_mode m =
     (if m = 0 then Some Predefined else if m = 1 then Some ModeRLE
      else if m = 2 then Some FSECompressed else if m = 3 then Some RepeatMode else None)"

definition ll_mode :: "u8 \<Rightarrow> mode_type option" where
  "ll_mode m = decode_mode (drop_bit 6 m)"

definition of_mode :: "u8 \<Rightarrow> mode_type option" where
  "of_mode m = decode_mode (drop_bit 4 m AND 3)"

definition ml_mode :: "u8 \<Rightarrow> mode_type option" where
  "ml_mode m = decode_mode (drop_bit 2 m AND 3)"

record sequences_header =
  sh_num_sequences :: nat
  sh_modes :: "u8 option"

definition sequences_header_new :: sequences_header where
  "sequences_header_new = \<lparr>sh_num_sequences = 0, sh_modes = None\<rparr>"

datatype sequences_header_parse_error = SeqNotEnoughBytes (need_at_least: nat) (got: nat)

definition seq_parse_from_header ::
  "sequences_header \<Rightarrow> u8 list \<Rightarrow> sequences_header \<times> (nat, sequences_header_parse_error) result" where
  "seq_parse_from_header self source =
     (if source = [] then (self, Err (SeqNotEnoughBytes 1 0))
      else
        let b0 = unat (source ! 0); n = length source in
        if b0 = 0 then (self\<lparr>sh_num_sequences := 0\<rparr>, Ok 1)
        else if b0 \<le> 127 then
          (if n < 2 then (self, Err (SeqNotEnoughBytes 2 n))
           else (self\<lparr>sh_num_sequences := b0, sh_modes := Some (source ! 1)\<rparr>, Ok 2))
        else if b0 \<le> 254 then
          (if n < 2 then (self, Err (SeqNotEnoughBytes 2 n))
           else
             let self = self\<lparr>sh_num_sequences := push_bit 8 (b0 - 128) + unat (source ! 1)\<rparr> in
             if sh_num_sequences self \<noteq> 0 then
               (if n < 3 then (self, Err (SeqNotEnoughBytes 3 n))
                else (self\<lparr>sh_modes := Some (source ! 2)\<rparr>, Ok 3))
             else (self, Ok 2))
        else
          (if n < 4 then (self, Err (SeqNotEnoughBytes 4 n))
           else (self\<lparr>sh_num_sequences := unat (source ! 1) + push_bit 8 (unat (source ! 2)) + 0x7F00,
                      sh_modes := Some (source ! 3)\<rparr>, Ok 4)))"

section \<open>Encoder\<close>

text \<open>
  The writers of \<^verbatim>\<open>encoding/blocks/compressed.rs\<close>; a panic is a value that does not fit its field
  (\<open>write_bits\<close>) or the \<open>unreachable!\<close> arm. A cast to a narrower type keeps the low bits.
\<close>

definition encode_seqnum :: "nat \<Rightarrow> bit_writer \<Rightarrow> bit_writer option" where
  "encode_seqnum seqnum w =
     (if 1 \<le> seqnum \<and> seqnum \<le> 127 then write_bits_64 w (of_nat seqnum) 8
      else if 128 \<le> seqnum \<and> seqnum \<le> 0x7FFF then
        let upper = (of_nat (drop_bit 8 seqnum OR 0x80) :: u8); lower = (of_nat seqnum :: u8) in
        Option.bind (write_bits_64 w (ucast upper) 8) (\<lambda>w. write_bits_64 w (ucast lower) 8)
      else if 0x8000 \<le> seqnum \<and> seqnum \<le> 0xFFFF + 0x7F00 then
        let encode = seqnum - 0x7F00;
            upper = (of_nat (drop_bit 8 encode) :: u8); lower = (of_nat encode :: u8) in
        Option.bind (write_bits_64 w 255 8) (\<lambda>w.
        Option.bind (write_bits_64 w (ucast upper) 8) (\<lambda>w. write_bits_64 w (ucast lower) 8))
      else None)"

definition write_uncompressed_literals_header :: "u8 \<Rightarrow> nat \<Rightarrow> bit_writer \<Rightarrow> bit_writer option" where
  "write_uncompressed_literals_header ty literals_len w =
     Option.bind (write_bits_64 w (ucast ty) 2) (\<lambda>w.
       if literals_len \<le> 31 then
         Option.bind (write_bits_64 w 0 1) (\<lambda>w. write_bits_64 w (ucast (of_nat literals_len :: u8)) 5)
       else if literals_len \<le> 4095 then
         Option.bind (write_bits_64 w 1 2) (\<lambda>w. write_bits_64 w (ucast (of_nat literals_len :: u16)) 12)
       else
         Option.bind (write_bits_64 w 3 2) (\<lambda>w. write_bits_64 w (ucast (of_nat literals_len :: u32)) 20))"

definition raw_literals :: "u8 list \<Rightarrow> bit_writer \<Rightarrow> bit_writer option" where
  "raw_literals literals w =
     Option.bind (write_uncompressed_literals_header 0 (length literals) w) (\<lambda>w. append_bytes w literals)"

definition rle_literals :: "u8 list \<Rightarrow> bit_writer \<Rightarrow> bit_writer option" where
  "rle_literals literals w =
     Option.bind (write_uncompressed_literals_header 1 (length literals) w) (\<lambda>w.
       if literals = [] then None else append_bytes w (take 1 literals))"

definition all_bytes_identical :: "u8 list \<Rightarrow> bool" where
  "all_bytes_identical literals = (case literals of [] \<Rightarrow> False | first # _ \<Rightarrow> (\<forall>b \<in> set literals. b = first))"

text \<open>The mode byte, from what each of the three tables is coded as.\<close>

fun mode_to_bits :: "mode_type \<Rightarrow> u8" where
  "mode_to_bits Predefined = 0"
| "mode_to_bits ModeRLE = 1"
| "mode_to_bits FSECompressed = 2"
| "mode_to_bits RepeatMode = 3"

definition encode_fse_table_modes :: "mode_type \<Rightarrow> mode_type \<Rightarrow> mode_type \<Rightarrow> u8" where
  "encode_fse_table_modes ll ml off =
     push_bit 6 (mode_to_bits ll) OR push_bit 4 (mode_to_bits off) OR push_bit 2 (mode_to_bits ml)"

section \<open>The parsers read little-endian bit fields\<close>

lemma drop_concat:
  "\<lbrakk>a < 2 ^ m; n \<le> m\<rbrakk> \<Longrightarrow> drop_bit n (a + 2 ^ m * x :: nat) = drop_bit n a + 2 ^ (m - n) * x"
proof -
  assume a: "a < 2 ^ m" and n: "n \<le> m"
  have "drop_bit n a < 2 ^ (m - n)"
    using a n by (simp add: drop_bit_eq_div less_mult_imp_div_less flip: power_add)
  then show ?thesis
    using a n by (intro bit_eqI) (auto simp: bit_drop_bit_eq bit_concat_nat add.commute)
qed

lemma drop_concat_above:
  "\<lbrakk>a < 2 ^ m; m \<le> n\<rbrakk> \<Longrightarrow> drop_bit n (a + 2 ^ m * x :: nat) = drop_bit (n - m) x"
  by (rule bit_eqI) (auto simp: bit_drop_bit_eq bit_concat_nat)

lemma take_concat:
  "\<lbrakk>a < 2 ^ m; n \<le> m\<rbrakk> \<Longrightarrow> take_bit n (a + 2 ^ m * x :: nat) = take_bit n a"
  by (rule bit_eqI) (auto simp: bit_take_bit_iff bit_concat_nat)

lemma take_concat_above:
  "\<lbrakk>a < 2 ^ m; m \<le> n\<rbrakk> \<Longrightarrow> take_bit n (a + 2 ^ m * x :: nat) = a + 2 ^ m * take_bit (n - m) x"
  by (rule bit_eqI) (auto simp: bit_take_bit_iff bit_concat_nat)

text \<open>The fields of the format, as numbers read from the header's little-endian value.\<close>

fun lit_type_of_code :: "nat \<Rightarrow> literals_section_type" where
  "lit_type_of_code c = (if c = 0 then LitRaw else if c = 1 then LitRLE else if c = 2 then LitCompressed
     else LitTreeless)"

definition lit_header_len :: "literals_section_type \<Rightarrow> nat \<Rightarrow> nat" where
  "lit_header_len t sf =
     (if t = LitRaw \<or> t = LitRLE then (if even sf then 1 else if sf = 1 then 2 else 3)
      else (if sf \<le> 1 then 3 else if sf = 2 then 4 else 5))"

definition lit_size_width :: "nat \<Rightarrow> nat" where
  "lit_size_width sf = (if sf \<le> 1 then 10 else if sf = 2 then 14 else 18)"

definition lit_header_spec ::
  "literals_section \<Rightarrow> u8 list \<Rightarrow> literals_section \<times> (nat, literals_section_parse_error) result" where
  "lit_header_spec self raw =
     (if raw = [] then (self, Err (GetBitsError (NotEnoughRemainingBits 2 0)))
      else
        let V = le_val raw; t = lit_type_of_code (take_bit 2 V); sf = take_bit 2 (drop_bit 2 V);
            need = lit_header_len t sf; w = lit_size_width sf; self = self\<lparr>ls_type := t\<rparr> in
        if length raw < need then (self, Err (LitNotEnoughBytes (length raw) need))
        else if t = LitRaw \<or> t = LitRLE then
          (self\<lparr>ls_compressed_size := None,
                ls_regenerated_size := (if even sf then take_bit 5 (drop_bit 3 V)
                   else take_bit (if sf = 1 then 12 else 20) (drop_bit 4 V))\<rparr>, Ok need)
        else
          (self\<lparr>ls_num_streams := Some (if sf = 0 then 1 else 4),
                ls_regenerated_size := take_bit w (drop_bit 4 V),
                ls_compressed_size := Some (take_bit w (drop_bit (4 + w) V))\<rparr>, Ok need))"

lemma section_type_code:
  "c = take_bit 2 x \<Longrightarrow> section_type (word_of_nat c) = Ok (lit_type_of_code c)"
  using two_bits_cases [of c x] by (auto simp: section_type_def Let_def)

declare lit_type_of_code.simps [simp del]

lemma section_type_byte: "section_type b = Ok (lit_type_of_code (take_bit 2 (unat b)))"
proof -
  define c where "c = take_bit 2 (unat b)"
  have "b AND 3 = word_of_nat c" by (simp add: two_bits_word c_def)
  with two_bits_cases [OF c_def] show ?thesis
    unfolding section_type_def c_def [symmetric] by (auto simp: lit_type_of_code.simps)
qed

lemma header_bytes_needed_byte:
  "header_bytes_needed b = Ok (lit_header_len (lit_type_of_code (take_bit 2 (unat b))) (take_bit 2 (drop_bit 2 (unat b))))"
proof -
  define sf where "sf = take_bit 2 (drop_bit 2 (unat b))"
  have "drop_bit 2 b AND 3 = word_of_nat sf"
    by (simp add: two_bits_word unat_drop_bit_eq sf_def)
  with two_bits_cases [OF sf_def] show ?thesis
    unfolding header_bytes_needed_def section_type_byte sf_def [symmetric]
    by (auto simp: lit_header_len_def)
qed

lemma byte_at_less: "i < length raw \<Longrightarrow> byte_at raw i = Ok (unat (raw ! i))"
  by (simp add: byte_at_def)

lemma low6: "x AND 0x3F = take_bit 6 (x :: nat)" and low2: "x AND 3 = take_bit 2 (x :: nat)"
proof -
  have "(0x3F :: nat) = mask 6" "(3 :: nat) = mask 2" by (simp_all add: mask_eq_exp_minus_1)
  then show "x AND 0x3F = take_bit 6 (x :: nat)" "x AND 3 = take_bit 2 (x :: nat)"
    by (simp_all only: take_bit_eq_mask)
qed

lemma drop_byte_less: "n \<le> 8 \<Longrightarrow> drop_bit n (unat (b :: u8)) < 2 ^ (8 - n)"
  using byte_less [of b] by (simp add: drop_bit_eq_div less_mult_imp_div_less flip: power_add)

text \<open>Fields of a little-endian number, one byte at a time.\<close>

lemma le_val_Cons: "le_val (b # bs) = unat b + 2 ^ 8 * le_val bs"
  by simp

lemma field_concat:
  assumes "k \<le> 8"
  shows "take_bit ((8 - k) + j) (drop_bit k (le_val (a # bs)))
     = drop_bit k (unat a) + push_bit (8 - k) (take_bit j (le_val bs))"
  unfolding le_val_Cons drop_concat [OF byte_less assms]
  by (subst take_concat_above [OF drop_byte_less [OF assms]]) (simp_all add: push_bit_eq_mult mult.commute)

lemma field_skip: "8 \<le> k \<Longrightarrow> drop_bit k (le_val (a # bs)) = drop_bit (k - 8) (le_val bs)"
  unfolding le_val_Cons by (rule drop_concat_above [OF byte_less])

lemma field_byte: "take_bit (8 + j) (le_val (a # bs)) = unat a + push_bit 8 (take_bit j (le_val bs))"
  unfolding le_val_Cons by (subst take_concat_above [OF byte_less]) (simp_all add: push_bit_eq_mult mult.commute)

lemma field_low: "j \<le> 8 \<Longrightarrow> take_bit j (le_val (a # bs)) = take_bit j (unat a)"
  unfolding le_val_Cons by (rule take_concat [OF byte_less])

lemma field_inside: "k + j \<le> 8 \<Longrightarrow> take_bit j (drop_bit k (le_val (a # bs))) = take_bit j (drop_bit k (unat a))"
  unfolding le_val_Cons by (subst drop_concat [OF byte_less], simp, rule take_concat [OF drop_byte_less]) simp_all

lemma take_byte: "8 \<le> j \<Longrightarrow> take_bit j (unat (a :: u8)) = unat a"
  using byte_less [of a] by (simp add: take_bit_nat_eq_self_iff less_le_trans [OF _ power_increasing [of 8 j]])

lemma shift_sum: "push_bit m (a + push_bit n b) = push_bit m a + push_bit (m + n) (b :: nat)"
  by (simp add: push_bit_eq_mult algebra_simps power_add)

lemma literals_size_fields:
  "take_bit 5 (drop_bit 3 (le_val (a # r))) = drop_bit 3 (unat a)"
  "take_bit 12 (drop_bit 4 (le_val (a # b # r))) = drop_bit 4 (unat a) + push_bit 4 (unat b)"
  "take_bit 20 (drop_bit 4 (le_val (a # b # c # r))) = drop_bit 4 (unat a) + push_bit 4 (unat b) + push_bit 12 (unat c)"
  "take_bit 10 (drop_bit 4 (le_val (a # b # r))) = drop_bit 4 (unat a) + push_bit 4 (take_bit 6 (unat b))"
  "take_bit 10 (drop_bit 14 (le_val (a # b # c # r))) = drop_bit 6 (unat b) + push_bit 2 (unat c)"
  "take_bit 14 (drop_bit 4 (le_val (a # b # c # r))) = drop_bit 4 (unat a) + push_bit 4 (unat b) + push_bit 12 (take_bit 2 (unat c))"
  "take_bit 14 (drop_bit 18 (le_val (a # b # c # d # r))) = drop_bit 2 (unat c) + push_bit 6 (unat d)"
  "take_bit 18 (drop_bit 4 (le_val (a # b # c # r))) = drop_bit 4 (unat a) + push_bit 4 (unat b) + push_bit 12 (take_bit 6 (unat c))"
  "take_bit 18 (drop_bit 22 (le_val (a # b # c # d # e # r))) = drop_bit 6 (unat c) + push_bit 2 (unat d) + push_bit 10 (unat e)"
  using field_concat [of 3 0 a] field_concat [of 4 8 a] field_concat [of 4 16 a] field_concat [of 4 6 a]
    field_concat [of 6 8] field_concat [of 4 10 a] field_concat [of 2 8] field_concat [of 4 14 a] field_concat [of 6 16]
    field_byte [of 0] field_byte [of 8] field_byte [of 2] field_byte [of 6]
  by (simp_all add: field_skip field_low take_byte shift_sum del: le_val.simps)

lemma get_two_bits:
  assumes "raw \<noteq> []" "k \<le> 2"
  shows "get_bits \<lparr>br_idx = k, br_source = raw\<rparr> 2 =
     Ok (word_of_nat (take_bit 2 (drop_bit k (le_val raw))), \<lparr>br_idx = k + 2, br_source = raw\<rparr>)"
proof -
  have "2 \<le> bits_left \<lparr>br_idx = k, br_source = raw\<rparr>"
    using assms by (cases raw) (auto simp: bits_left_def)
  then show ?thesis by (simp add: get_bits_spec)
qed

lemma two_bits_as_byte: "ucast (word_of_nat (take_bit 2 x) :: u64) = (word_of_nat (take_bit 2 x) :: u8)"
  using two_bits_cases [OF refl, of x] by auto

lemma unat_two_bits: "unat (word_of_nat (take_bit 2 x) :: u8) = take_bit 2 x"
  using two_bits_cases [OF refl, of x] by auto

lemmas read_field_simps = two_bits_as_byte unat_two_bits field_low

lemma lit_parse_body_eq:
  assumes "raw = b0 # bs" "t = ls_type self" "t = lit_type_of_code (take_bit 2 (le_val raw))"
    "sf = take_bit 2 (drop_bit 2 (le_val raw))"
  shows "lit_parse_body self \<lparr>br_idx = 2, br_source = raw\<rparr> raw =
     (if length raw < lit_header_len t sf then Err (LitNotEnoughBytes (length raw) (lit_header_len t sf))
      else if t = LitRLE \<or> t = LitRaw then parse_plain_sizes self sf raw
      else parse_huffman_sizes self sf raw)"
proof -
  have "take_bit 2 (drop_bit 2 (le_val raw)) = take_bit 2 (drop_bit 2 (unat b0))"
    by (simp add: assms(1) field_inside del: le_val.simps)
  then have "header_bytes_needed b0 = Ok (lit_header_len t sf)"
    using assms(3,4) by (simp add: assms(1) header_bytes_needed_byte field_low del: le_val.simps)
  moreover have "get_bits \<lparr>br_idx = 2, br_source = raw\<rparr> 2 = Ok (word_of_nat sf, \<lparr>br_idx = 2 + 2, br_source = raw\<rparr>)"
    unfolding assms(4) by (rule get_two_bits) (simp_all add: assms(1))
  ultimately show ?thesis
    using assms(2,4) by (simp add: lit_parse_body_def assms(1) two_bits_as_byte unat_two_bits del: le_val.simps)
qed

lemma parse_plain_sizes_eq:
  assumes "sf = take_bit 2 x" "lit_header_len LitRaw sf \<le> length raw" "raw \<noteq> []"
  shows "parse_plain_sizes self sf raw =
     Ok (self\<lparr>ls_compressed_size := None,
           ls_regenerated_size := (if even sf then take_bit 5 (drop_bit 3 (le_val raw))
              else take_bit (if sf = 1 then 12 else 20) (drop_bit 4 (le_val raw)))\<rparr>, lit_header_len LitRaw sf)"
proof -
  obtain a r where raw: "raw = a # r" using assms(3) by (cases raw) auto
  consider "sf = 0 \<or> sf = 2" | "sf = 1" | "sf = 3" using two_bits_cases [OF assms(1)] by blast
  then show ?thesis
  proof cases
    case 2
    then obtain b r' where "r = b # r'" using assms(2) by (cases r) (auto simp: lit_header_len_def raw)
    then show ?thesis using 2
      by (simp add: parse_plain_sizes_def lit_header_len_def byte_at_less raw literals_size_fields del: le_val.simps)
  next
    case 3
    then have "2 \<le> length r" using assms(2) by (simp add: lit_header_len_def raw)
    then obtain b c r' where "r = b # c # r'" by (cases r; cases "tl r") auto
    then show ?thesis using 3
      by (simp add: parse_plain_sizes_def lit_header_len_def byte_at_less raw literals_size_fields del: le_val.simps)
  qed (auto simp: parse_plain_sizes_def lit_header_len_def byte_at_less raw literals_size_fields simp del: le_val.simps)
qed

lemma parse_huffman_sizes_eq:
  assumes "sf = take_bit 2 x" "lit_header_len LitCompressed sf \<le> length raw"
  shows "parse_huffman_sizes self sf raw =
     Ok (self\<lparr>ls_num_streams := Some (if sf = 0 then 1 else 4),
           ls_regenerated_size := take_bit (lit_size_width sf) (drop_bit 4 (le_val raw)),
           ls_compressed_size := Some (take_bit (lit_size_width sf) (drop_bit (4 + lit_size_width sf) (le_val raw)))\<rparr>,
         lit_header_len LitCompressed sf)"
proof -
  have "3 \<le> length raw" using assms(2) by (auto simp: lit_header_len_def split: if_splits)
  then obtain a b c r where raw: "raw = a # b # c # r" by (auto simp: le_Suc_ex numeral_3_eq_3 Suc_le_length_iff)
  note simps = parse_huffman_sizes_def lit_header_len_def lit_size_width_def byte_at_less raw literals_size_fields
    low6 low2
  consider "sf = 0 \<or> sf = 1" | "sf = 2" | "sf = 3" using two_bits_cases [OF assms(1)] by blast
  then show ?thesis
  proof cases
    case 2
    then obtain d r' where "r = d # r'" using assms(2) by (cases r) (auto simp: lit_header_len_def raw)
    then show ?thesis using 2 by (simp add: simps del: le_val.simps)
  next
    case 3
    then have "2 \<le> length r" using assms(2) by (simp add: lit_header_len_def raw)
    then obtain d e r' where "r = d # e # r'" by (cases r; cases "tl r") auto
    then show ?thesis using 3 by (simp add: simps del: le_val.simps)
  qed (auto simp: simps simp del: le_val.simps)
qed

lemma lit_parse_from_header_eq: "lit_parse_from_header self raw = lit_header_spec self raw"
proof (cases raw)
  case Nil
  then show ?thesis
    by (simp add: lit_parse_from_header_def lit_header_spec_def bit_reader_new_def get_bits_spec bits_left_def)
next
  case (Cons b0 bs)
  define t where "t = lit_type_of_code (take_bit 2 (le_val raw))"
  define sf where "sf = take_bit 2 (drop_bit 2 (le_val raw))"
  have "get_bits (bit_reader_new raw) 2 = Ok (word_of_nat (take_bit 2 (le_val raw)), \<lparr>br_idx = 2, br_source = raw\<rparr>)"
    using get_two_bits [of raw 0] Cons by (simp add: bit_reader_new_def)
  then have "lit_parse_from_header self raw =
      (case lit_parse_body (self\<lparr>ls_type := t\<rparr>) \<lparr>br_idx = 2, br_source = raw\<rparr> raw of
         Ok (self', n) \<Rightarrow> (self', Ok n) | Err e \<Rightarrow> (self\<lparr>ls_type := t\<rparr>, Err e) | Panic \<Rightarrow> (self\<lparr>ls_type := t\<rparr>, Panic))"
    by (simp add: lit_parse_from_header_def two_bits_as_byte section_type_code [OF refl] Let_def t_def [symmetric]
       )
  moreover have "lit_header_len t sf = lit_header_len (if t = LitRLE \<or> t = LitRaw then LitRaw else LitCompressed) sf"
    by (auto simp: lit_header_len_def)
  moreover have "t = ls_type (self\<lparr>ls_type := t\<rparr>)" by simp
  ultimately show ?thesis
    using lit_parse_body_eq [OF Cons _ t_def sf_def]
      parse_plain_sizes_eq [OF sf_def, of raw "self\<lparr>ls_type := t\<rparr>"]
      parse_huffman_sizes_eq [OF sf_def, of raw "self\<lparr>ls_type := t\<rparr>"] Cons
    unfolding lit_header_spec_def Let_def t_def [symmetric] sf_def [symmetric]
    by (cases "t = LitRLE \<or> t = LitRaw") auto
qed

section \<open>Sequence counts and modes\<close>

lemma mode_bits_roundtrip:
  "ll_mode (encode_fse_table_modes ll ml off) = Some ll"
  "of_mode (encode_fse_table_modes ll ml off) = Some off"
  "ml_mode (encode_fse_table_modes ll ml off) = Some ml"
  by (cases ll; cases ml; cases off;
      simp add: encode_fse_table_modes_def ll_mode_def of_mode_def ml_mode_def decode_mode_def)+

lemma modes_total: "ll_mode m \<noteq> None" "of_mode m \<noteq> None" "ml_mode m \<noteq> None"
proof -
  have two: "decode_mode (w AND 3) \<noteq> None" for w
    unfolding two_bits_word using two_bits_cases [OF refl, of "unat w"] by (auto simp: decode_mode_def)
  from two [of "drop_bit 6 m"] top_two_bits [of m] show "ll_mode m \<noteq> None" by (simp add: ll_mode_def)
  show "of_mode m \<noteq> None" "ml_mode m \<noteq> None" unfolding of_mode_def ml_mode_def by (rule two)+
qed

section \<open>Headers written are headers read\<close>

lemma extract_field:
  "\<lbrakk>fields_ok fs; fs = pre @ (v, n) # post\<rbrakk> \<Longrightarrow>
     take_bit n (drop_bit (sum_list (map snd pre)) (fields_val fs + 2 ^ sum_list (map snd fs) * R)) = unat v"
proof (induction pre arbitrary: fs)
  case Nil
  let ?rest = "fields_val post + 2 ^ sum_list (map snd post) * R"
  have "unat v < 2 ^ n" using Nil by (auto simp: fields_ok_def)
  moreover have "fields_val fs + 2 ^ sum_list (map snd fs) * R = unat v + 2 ^ n * ?rest"
    using Nil by (simp add: algebra_simps power_add)
  ultimately show ?case by (simp add: take_concat [of _ n n] take_bit_nat_eq_self_iff)
next
  case (Cons p pre)
  obtain u m where p: "p = (u, m)" by force
  let ?fs = "pre @ (v, n) # post"
  have u: "unat u < 2 ^ m" and ok: "fields_ok ?fs" using Cons.prems by (auto simp: p fields_ok_def)
  have "fields_val fs + 2 ^ sum_list (map snd fs) * R
      = unat u + 2 ^ m * (fields_val ?fs + 2 ^ sum_list (map snd ?fs) * R)"
    using Cons.prems by (simp add: p algebra_simps power_add)
  then show ?case using Cons.IH [OF ok refl] drop_concat_above [OF u, of "m + sum_list (map snd pre)"]
    by (simp add: p)
qed

lemma le_val_header:
  "\<lbrakk>length hdr = k; le_val hdr = fields_val fs; sum_list (map snd fs) = 8 * k\<rbrakk> \<Longrightarrow>
     le_val (hdr @ rest) = fields_val fs + 2 ^ sum_list (map snd fs) * le_val rest"
  by (simp add: le_val_append)

definition literals_header_fields :: "u64 \<Rightarrow> nat \<Rightarrow> (u64 \<times> nat) list" where
  "literals_header_fields ty len =
     (if len \<le> 31 then [(ty, 2), (0, 1), (of_nat len, 5)]
      else if len \<le> 4095 then [(ty, 2), (1, 2), (of_nat len, 12)]
      else [(ty, 2), (3, 2), (of_nat len, 20)])"

lemma ucast_of_nat_small: "n < 2 ^ LENGTH('a) \<Longrightarrow> (ucast (of_nat n :: 'a::len word) :: u64) = of_nat n"
  by (simp add: unsigned_of_nat take_bit_nat_eq_self)

lemma unat_of_nat_u64: "n < 2 ^ 64 \<Longrightarrow> unat (of_nat n :: u64) = n"
  by (simp add: unat_of_nat)

lemma write_literals_header_fields:
  "write_uncompressed_literals_header ty len w = write_fields w (literals_header_fields (ucast ty) len)"
  if "len < 2 ^ 20"
  using that
  by (simp add: write_uncompressed_literals_header_def literals_header_fields_def ucast_of_nat_small
      split: option.splits bind_splits)

lemma literals_header_fields_ok:
  assumes "unat ty < 2" "len < 2 ^ 20"
  shows "fields_ok (literals_header_fields ty len)"
    "sum_list (map snd (literals_header_fields ty len)) = 8 * (if len \<le> 31 then 1 else if len \<le> 4095 then 2 else 3)"
  using assms by (auto simp: literals_header_fields_def fields_ok_def unat_of_nat_u64)

lemma lit_header_spec_plain:
  assumes "raw \<noteq> []" "take_bit 2 (le_val raw) = ty" "ty < 2"
    and sf: "if len \<le> 31 then take_bit 1 (drop_bit 2 (le_val raw)) = 0 \<and> take_bit 5 (drop_bit 3 (le_val raw)) = len
             else if len \<le> 4095 then take_bit 2 (drop_bit 2 (le_val raw)) = 1 \<and> take_bit 12 (drop_bit 4 (le_val raw)) = len
             else take_bit 2 (drop_bit 2 (le_val raw)) = 3 \<and> take_bit 20 (drop_bit 4 (le_val raw)) = len"
    and k: "k = (if len \<le> 31 then 1 else if len \<le> 4095 then 2 else 3)" "k \<le> length raw"
  shows "lit_header_spec self raw =
     (self\<lparr>ls_type := (if ty = 0 then LitRaw else LitRLE), ls_compressed_size := None, ls_regenerated_size := len\<rparr>, Ok k)"
proof -
  have t: "lit_type_of_code ty = (if ty = 0 then LitRaw else LitRLE)"
    using assms(3) by (auto simp: lit_type_of_code.simps)
  have even: "even (take_bit 2 x) \<longleftrightarrow> take_bit 1 x = 0" for x :: nat
    by (simp add: take_bit_Suc even_take_bit_eq) (simp add: even_iff_mod_2_eq_zero)
  have odd: "odd x" if "take_bit 2 x = Suc 0 \<or> take_bit 2 x = 3" for x :: nat
    using that even_take_bit_eq [of 2 x] by (auto simp del: even_take_bit_eq)
  show ?thesis
    unfolding lit_header_spec_def Let_def assms(2) t
    using assms(1) sf k even [of "drop_bit 2 (le_val raw)"] odd [of "drop_bit 2 (le_val raw)"]
    by (auto simp: lit_header_len_def split: if_splits)
qed

lemma literals_header_roundtrip_lemma:
  assumes inv: "bw_inv w" and ty: "unat ty < 2" and len: "len < 2 ^ 20"
  shows "\<exists>w' hdr. write_uncompressed_literals_header ty len w = Some w' \<and> bw_inv w'
     \<and> bw_bits w' = bw_bits w @ bits_of hdr
     \<and> lit_parse_from_header self (hdr @ rest) =
         (self\<lparr>ls_type := (if ty = 0 then LitRaw else LitRLE), ls_compressed_size := None,
               ls_regenerated_size := len\<rparr>, Ok (length hdr))"
proof -
  define fs where "fs = literals_header_fields (ucast ty) len"
  define k where "k = (if len \<le> 31 then 1 else if len \<le> 4095 then 2 else 3 :: nat)"
  have uty: "unat (ucast ty :: u64) = unat ty" by (simp add: unsigned_ucast_eq take_bit_nat_eq_self_iff less_trans [OF unsigned_less])
  have ok: "fields_ok fs" "sum_list (map snd fs) = 8 * k" "k \<le> 8"
    using literals_header_fields_ok [of "ucast ty" len] ty len uty by (simp_all add: fs_def k_def)
  obtain w' hdr where w': "write_fields w fs = Some w'" "bw_inv w'" "bw_bits w' = bw_bits w @ bits_of hdr"
      "length hdr = k" "le_val hdr = fields_val fs"
    using write_fields_bytes [OF inv ok] by blast
  let ?V = "fields_val fs + 2 ^ sum_list (map snd fs) * le_val rest"
  have V: "le_val (hdr @ rest) = ?V" by (rule le_val_header [OF w'(4,5) ok(2)])
  have ne: "hdr @ rest \<noteq> []" using w'(4) by (auto simp: k_def split: if_splits)
  have len64: "unat (of_nat len :: u64) = len" using len by (intro unat_of_nat_u64) simp
  note fieldx = extract_field [OF ok(1), where R = "le_val rest"]
  have type_bits: "take_bit 2 ?V = unat ty"
    using fieldx [of "[]" "ucast ty" 2 "tl fs"] uty by (simp add: fs_def literals_header_fields_def split: if_splits)
  have "if len \<le> 31 then take_bit 1 (drop_bit 2 ?V) = 0 \<and> take_bit 5 (drop_bit 3 ?V) = len
      else if len \<le> 4095 then take_bit 2 (drop_bit 2 ?V) = 1 \<and> take_bit 12 (drop_bit 4 ?V) = len
      else take_bit 2 (drop_bit 2 ?V) = 3 \<and> take_bit 20 (drop_bit 4 ?V) = len"
    using fieldx [of "[hd fs]" "fst (fs ! 1)" "snd (fs ! 1)" "drop 2 fs"]
      fieldx [of "[hd fs, fs ! 1]" "fst (fs ! 2)" "snd (fs ! 2)" "[]"] len64
    by (auto simp: fs_def literals_header_fields_def)
  then have "lit_header_spec self (hdr @ rest) = (self\<lparr>ls_type := (if unat ty = 0 then LitRaw else LitRLE),
      ls_compressed_size := None, ls_regenerated_size := len\<rparr>, Ok k)"
    unfolding V [symmetric]
    by (intro lit_header_spec_plain [OF ne]) (use type_bits ty w'(4) in \<open>simp_all add: V k_def\<close>)
  then show ?thesis
    using w' write_literals_header_fields [OF len, of ty w]
    by (auto simp: lit_parse_from_header_eq fs_def unat_eq_0)
qed

text \<open>The bytes of a sequence count.\<close>

definition seqnum_bytes :: "nat \<Rightarrow> u8 list" where
  "seqnum_bytes n =
     (if n \<le> 127 then [of_nat n]
      else if n \<le> 0x7FFF then [of_nat (n div 256 + 128), of_nat n]
      else [255, of_nat ((n - 0x7F00) div 256), of_nat (n - 0x7F00)])"

fun byte_fields :: "u8 list \<Rightarrow> (u64 \<times> nat) list" where
  "byte_fields [] = []"
| "byte_fields (b # bs) = (ucast b, 8) # byte_fields bs"

lemma word_bits_ucast: "word_bits 8 (ucast b :: u64) = word_bits 8 (b :: u8)"
  by (rule nth_equalityI) (auto simp: bit_unsigned_iff)

lemma byte_fields: "fields_ok (byte_fields bs)" "field_bits (byte_fields bs) = bits_of bs"
proof (induction bs)
  case (Cons b bs)
  { case 1
    have "unat (ucast b :: u64) < 2 ^ 8"
      using byte_less [of b] by (simp add: unsigned_ucast_eq take_byte)
    with Cons(1) show ?case by (simp add: fields_ok_def)
  next
    case 2
    have "bits_of (b # bs) = bits_of [b] @ bits_of bs" using bits_of_append [of "[b]" bs] by simp
    with Cons(2) show ?case by (simp add: bits_of_single word_bits_ucast) }
qed (simp_all add: fields_ok_def)

lemma or_0x80: "x OR 0x80 = x + 128" if "(x :: nat) < 128"
proof (rule bit_eqI)
  fix i
  have x: "x < 2 ^ 7" using that by simp
  have "bit (128 :: nat) i \<longleftrightarrow> i = 7" using bit_exp_iff [of 7 i, where 'a = nat] by auto
  moreover have "bit (x + 128) i = (if i < 7 then bit x i else bit (1 :: nat) (i - 7))"
    using bit_concat_nat [OF x, of 1 i] by simp
  ultimately show "bit (x OR 0x80) i = bit (x + 128) i"
    using bit_nat_bound [OF _ x, of i] by (auto simp: bit_or_iff bit_Suc_0_iff)
qed

lemma encode_seqnum_bytes:
  assumes "1 \<le> n" "n \<le> 0xFFFF + 0x7F00"
  shows "encode_seqnum n w = write_fields w (byte_fields (seqnum_bytes n))"
proof -
  consider "n \<le> 127" | "128 \<le> n" "n \<le> 0x7FFF" | "0x8000 \<le> n" by linarith
  then show ?thesis
  proof cases
    case 1
    then show ?thesis
      using assms(1) by (simp add: encode_seqnum_def seqnum_bytes_def ucast_of_nat_small)
  next
    case 2
    then have "n div 256 < 128" by linarith
    then have "drop_bit 8 n OR 0x80 = n div 256 + 128" by (simp add: drop_bit_eq_div or_0x80)
    with 2 show ?thesis by (simp add: encode_seqnum_def seqnum_bytes_def Let_def)
  next
    case 3
    with assms(2) show ?thesis
      by (simp add: encode_seqnum_def seqnum_bytes_def Let_def drop_bit_eq_div)
  qed
qed

lemma encode_seqnum_written:
  assumes "bw_inv w" "1 \<le> n" "n \<le> 0xFFFF + 0x7F00"
  shows "\<exists>w'. encode_seqnum n w = Some w' \<and> bw_inv w' \<and> bw_bits w' = bw_bits w @ bits_of (seqnum_bytes n)"
  using write_fields_bits [OF assms(1) byte_fields(1)] encode_seqnum_bytes [OF assms(2,3)]
  by (simp add: byte_fields(2))

lemma unat_of_nat_u8: "unat (of_nat n :: u8) = n mod 256"
  by (simp add: unat_of_nat)

lemma seqnum_parsed:
  assumes "1 \<le> n" "n < 0x7F00"
  shows "seq_parse_from_header self (seqnum_bytes n @ modes # rest) =
     (self\<lparr>sh_num_sequences := n, sh_modes := Some modes\<rparr>, Ok (length (seqnum_bytes n) + 1))"
proof (cases "n \<le> 127")
  case True
  with assms(1) show ?thesis
    by (simp add: seq_parse_from_header_def seqnum_bytes_def unat_of_nat_u8 Let_def)
next
  case False
  define hi where "hi = (of_nat (n div 256 + 128) :: u8)"
  have bytes: "seqnum_bytes n = [hi, of_nat n]" using False assms by (simp add: seqnum_bytes_def hi_def)
  have "n div 256 < 127" using assms(2) by linarith
  then have hi: "unat hi = n div 256 + 128" unfolding hi_def unat_of_nat_u8 by simp
  have "n div 256 * 256 + n mod 256 = n" "n div 256 + 128 \<le> 254" "n \<noteq> 0" using assms by simp_all
  then show ?thesis
    unfolding bytes by (simp add: seq_parse_from_header_def hi unat_of_nat_u8 Let_def push_bit_eq_mult)
qed

lemma seqnum_parsed_long:
  assumes "0x8000 \<le> n" "n \<le> 0xFFFF + 0x7F00"
  shows "seq_parse_from_header self (seqnum_bytes n @ modes # rest) =
     (self\<lparr>sh_num_sequences := (n - 0x7F00) div 256 + 256 * ((n - 0x7F00) mod 256) + 0x7F00,
           sh_modes := Some modes\<rparr>, Ok 4)"
proof -
  have "(n - 0x7F00) div 256 < 256" using assms(2) by simp
  moreover have "unat (of_nat (n - 0x7F00) :: u8) = (n - 0x7F00) mod 256" by (rule unat_of_nat_u8)
  ultimately show ?thesis
    using assms by (simp add: seq_parse_from_header_def seqnum_bytes_def unat_of_nat_u8 Let_def push_bit_eq_mult
        del: of_nat_diff)
qed

lemma seqnum_parsed_gap:
  assumes "0x7F00 \<le> n" "n \<le> 0x7FFF"
  shows "seq_parse_from_header self (seqnum_bytes n @ modes # m2 # rest) =
     (self\<lparr>sh_num_sequences := n mod 256 + 256 * unat modes + 0x7F00, sh_modes := Some m2\<rparr>, Ok 4)"
proof -
  define hi where "hi = (of_nat (n div 256 + 128) :: u8)"
  have bytes: "seqnum_bytes n = [hi, of_nat n]" using assms by (simp add: seqnum_bytes_def hi_def)
  have "n div 256 = 127" using assms by linarith
  then have hi: "unat hi = 255" unfolding hi_def unat_of_nat_u8 by simp
  show ?thesis
    unfolding bytes by (simp add: seq_parse_from_header_def hi unat_of_nat_u8 Let_def push_bit_eq_mult)
qed

section \<open>Properties\<close>

text \<open>
  C25. The literals section parser reads exactly the little-endian bit fields of the format, on every
  input: the type in two bits, the size format, the sizes of 5, 12 and 20 bits of raw and RLE
  sections, the two sizes of 10, 14 or 18 bits and the stream count of Huffman sections, the header
  length, and the two errors; it never panics.
\<close>

theorem lit_parse_from_header_fields: "lit_parse_from_header self raw = lit_header_spec self raw"
  by (rule lit_parse_from_header_eq)

text \<open>
  C26. A raw or RLE literals header round-trips: for fewer than 1048576 literals the encoder appends whole
  bytes from which the decoder reads the same type and length, consuming them all.
\<close>

theorem literals_header_roundtrip:
  assumes "bw_inv w" "unat ty < 2" "len < 2 ^ 20"
  shows "\<exists>w' hdr. write_uncompressed_literals_header ty len w = Some w' \<and> bw_inv w'
     \<and> bw_bits w' = bw_bits w @ bits_of hdr
     \<and> lit_parse_from_header self (hdr @ rest) =
         (self\<lparr>ls_type := (if ty = 0 then LitRaw else LitRLE), ls_compressed_size := None,
               ls_regenerated_size := len\<rparr>, Ok (length hdr))"
  by (rule literals_header_roundtrip_lemma [OF assms])

theorem literals_header_roundtrip_witness:
  "\<exists>w' hdr. write_uncompressed_literals_header 1 5000 (bit_writer_from [3]) = Some w' \<and> bw_inv w'
     \<and> bw_bits w' = bw_bits (bit_writer_from [3]) @ bits_of hdr
     \<and> lit_parse_from_header literals_section_new (hdr @ [42]) =
         (literals_section_new\<lparr>ls_type := (if (1 :: u8) = 0 then LitRaw else LitRLE), ls_compressed_size := None,
               ls_regenerated_size := 5000\<rparr>, Ok (length hdr))"
  by (rule literals_header_roundtrip) (simp_all add: bw_inv_from)

text \<open>
  C27. Sequence counts round-trip below 0x7F00: the encoder appends one or two bytes, and the decoder
  reads the count and the mode byte after them; the mode byte carries the three table modes.
\<close>

theorem seqnum_roundtrip:
  assumes "bw_inv w" "1 \<le> n" "n < 0x7F00"
  shows "\<exists>w' hdr. encode_seqnum n w = Some w' \<and> bw_inv w' \<and> bw_bits w' = bw_bits w @ bits_of hdr
     \<and> seq_parse_from_header self (hdr @ encode_fse_table_modes ll ml off # rest) =
         (self\<lparr>sh_num_sequences := n, sh_modes := Some (encode_fse_table_modes ll ml off)\<rparr>, Ok (length hdr + 1))
     \<and> ll_mode (encode_fse_table_modes ll ml off) = Some ll
     \<and> ml_mode (encode_fse_table_modes ll ml off) = Some ml
     \<and> of_mode (encode_fse_table_modes ll ml off) = Some off"
  using encode_seqnum_written [OF assms(1,2)] seqnum_parsed [OF assms(2,3)] mode_bits_roundtrip [of ll ml off] assms(3)
  by (force intro: exI [of _ "seqnum_bytes n"])

theorem seqnum_roundtrip_witness:
  "\<exists>w' hdr. encode_seqnum 1000 (bit_writer_from []) = Some w' \<and> bw_inv w'
     \<and> bw_bits w' = bw_bits (bit_writer_from []) @ bits_of hdr
     \<and> seq_parse_from_header sequences_header_new (hdr @ encode_fse_table_modes Predefined FSECompressed RepeatMode # []) =
         (sequences_header_new\<lparr>sh_num_sequences := 1000,
            sh_modes := Some (encode_fse_table_modes Predefined FSECompressed RepeatMode)\<rparr>, Ok (length hdr + 1))
     \<and> ll_mode (encode_fse_table_modes Predefined FSECompressed RepeatMode) = Some Predefined
     \<and> ml_mode (encode_fse_table_modes Predefined FSECompressed RepeatMode) = Some FSECompressed
     \<and> of_mode (encode_fse_table_modes Predefined FSECompressed RepeatMode) = Some RepeatMode"
  by (rule seqnum_roundtrip) (simp_all add: bw_inv_from)

text \<open>
  From 0x8000 sequences up the encoder writes the long form's two bytes high byte first, while
  the decoder reads them low byte first: the count read back has the two bytes exchanged, so the
  count survives only when they are equal.
\<close>

theorem seqnum_long_form_exchanged:
  assumes "bw_inv w" "0x8000 \<le> n" "n \<le> 0xFFFF + 0x7F00"
  shows "\<exists>w' hdr m. encode_seqnum n w = Some w' \<and> bw_bits w' = bw_bits w @ bits_of hdr
     \<and> seq_parse_from_header self (hdr @ modes # rest) =
         (self\<lparr>sh_num_sequences := m, sh_modes := Some modes\<rparr>, Ok 4)
     \<and> m = (n - 0x7F00) div 256 + 256 * ((n - 0x7F00) mod 256) + 0x7F00
     \<and> (m = n \<longleftrightarrow> (n - 0x7F00) div 256 = (n - 0x7F00) mod 256)"
proof -
  define d where "d = n - 0x7F00"
  have "n = d + 0x7F00" "d = d div 256 * 256 + d mod 256" using assms(2) by (simp_all add: d_def)
  then have "d div 256 + 256 * (d mod 256) + 0x7F00 = n \<longleftrightarrow> d div 256 = d mod 256" by linarith
  then show ?thesis
    using encode_seqnum_written [OF assms(1), of n] seqnum_parsed_long [OF assms(2,3)] assms(2,3)
    by (force simp: d_def intro: exI [of _ "seqnum_bytes n"])
qed

theorem seqnum_long_form_exchanged_witness:
  "\<exists>w' hdr m. encode_seqnum 0x8000 (bit_writer_from []) = Some w'
     \<and> bw_bits w' = bw_bits (bit_writer_from []) @ bits_of hdr
     \<and> seq_parse_from_header sequences_header_new (hdr @ 0 # []) =
         (sequences_header_new\<lparr>sh_num_sequences := m, sh_modes := Some 0\<rparr>, Ok 4)
     \<and> m = (0x8000 - 0x7F00) div 256 + 256 * ((0x8000 - 0x7F00) mod 256) + 0x7F00
     \<and> (m = 0x8000 \<longleftrightarrow> ((0x8000 :: nat) - 0x7F00) div 256 = (0x8000 - 0x7F00) mod 256)"
  by (rule seqnum_long_form_exchanged) (simp_all add: bw_inv_from)

end
