(* ===== verification/Sequence_Codes.thy ===== *)
theory Sequence_Codes
  imports Prelude
begin

text \<open>
  How a sequence's three numbers are coded. The encoder (\<^verbatim>\<open>encoding/blocks/compressed.rs\<close>) splits
  lengths and offsets into a code and extra bits and replaces recent offsets by repeat codes; the
  decoder has packed baseline tables (\<^verbatim>\<open>decoding/sequence_section_decoder.rs\<close>) and undoes the
  repeat codes (\<^verbatim>\<open>decoding/sequence_execution.rs\<close>). Lengths are natural numbers below the \<open>u32\<close>
  bound; offsets and their history are 32-bit words, since the repeat codes wrap.
\<close>

section \<open>Length and offset codes\<close>

definition LL_CODE :: "nat list" where
  "LL_CODE = [
    0, 1, 2, 3, 4, 5, 6, 7, 8, 9, 10, 11, 12, 13, 14, 15, 16, 16, 17, 17, 18, 18, 19, 19, 20, 20,
    20, 20, 21, 21, 21, 21, 22, 22, 22, 22, 22, 22, 22, 22, 23, 23, 23, 23, 23, 23, 23, 23, 24, 24,
    24, 24, 24, 24, 24, 24, 24, 24, 24, 24, 24, 24, 24, 24]"

definition LL_DELTA_CODE :: nat where
  "LL_DELTA_CODE = 19"

definition LL_EXTRA_BITS :: "nat list" where
  "LL_EXTRA_BITS = [
    0, 0, 0, 0, 0, 0, 0, 0, 0, 0, 0, 0, 0, 0, 0, 0, 1, 1, 1, 1, 2, 2, 3, 3, 4, 6, 7, 8, 9, 10, 11,
    12, 13, 14, 15, 16]"

definition ML_CODE :: "nat list" where
  "ML_CODE = [
    0, 1, 2, 3, 4, 5, 6, 7, 8, 9, 10, 11, 12, 13, 14, 15, 16, 17, 18, 19, 20, 21, 22, 23, 24, 25,
    26, 27, 28, 29, 30, 31, 32, 32, 33, 33, 34, 34, 35, 35, 36, 36, 36, 36, 37, 37, 37, 37, 38, 38,
    38, 38, 38, 38, 38, 38, 39, 39, 39, 39, 39, 39, 39, 39, 40, 40, 40, 40, 40, 40, 40, 40, 40, 40,
    40, 40, 40, 40, 40, 40, 41, 41, 41, 41, 41, 41, 41, 41, 41, 41, 41, 41, 41, 41, 41, 41, 42, 42,
    42, 42, 42, 42, 42, 42, 42, 42, 42, 42, 42, 42, 42, 42, 42, 42, 42, 42, 42, 42, 42, 42, 42, 42,
    42, 42, 42, 42, 42, 42]"

definition ML_DELTA_CODE :: nat where
  "ML_DELTA_CODE = 36"

definition ML_EXTRA_BITS :: "nat list" where
  "ML_EXTRA_BITS = [
    0, 0, 0, 0, 0, 0, 0, 0, 0, 0, 0, 0, 0, 0, 0, 0, 0, 0, 0, 0, 0, 0, 0, 0, 0, 0, 0, 0, 0, 0, 0, 0,
    1, 1, 1, 1, 2, 2, 3, 3, 4, 4, 5, 7, 8, 9, 10, 11, 12, 13, 14, 15, 16]"

text \<open>The code in the low byte, its extra-bit width above it; \<open>code | bits << 8\<close> for bytes.\<close>

definition fuse_code_bits :: "nat list \<Rightarrow> nat list \<Rightarrow> nat list" where
  "fuse_code_bits codes bits = map (\<lambda>code. code + 256 * bits ! code) codes"

definition LL_CODE_BITS :: "nat list" where
  "LL_CODE_BITS = fuse_code_bits LL_CODE LL_EXTRA_BITS"

definition ML_CODE_BITS :: "nat list" where
  "ML_CODE_BITS = fuse_code_bits ML_CODE ML_EXTRA_BITS"

definition low_bits :: "nat \<Rightarrow> nat \<Rightarrow> nat" where
  "low_bits v bits = v AND (push_bit bits 1 - 1)"

definition encode_literal_length :: "nat \<Rightarrow> (nat \<times> nat \<times> nat) option" where
  "encode_literal_length len =
     (if len < 64 then
        let fused = LL_CODE_BITS ! len; code = fused mod 256; bits = fused div 256
        in Some (code, low_bits len bits, bits)
      else if len < 131072 then
        let log = ilog2 len in Some (log + LL_DELTA_CODE, low_bits len log, log)
      else None)"

definition encode_match_len :: "nat \<Rightarrow> (nat \<times> nat \<times> nat) option" where
  "encode_match_len len =
     (if \<not> len \<ge> 3 then None
      else
        let base = len - 3 in
        if base < 128 then
          let fused = ML_CODE_BITS ! base; code = fused mod 256; bits = fused div 256
          in Some (code, low_bits base bits, bits)
        else if base < 131072 then
          let log = ilog2 base in Some (log + ML_DELTA_CODE, low_bits base log, log)
        else None)"

text \<open>\<open>ilog2\<close> of zero panics.\<close>

definition encode_offset :: "nat \<Rightarrow> (nat \<times> nat \<times> nat) option" where
  "encode_offset len = (if len = 0 then None else let log = ilog2 len in Some (log, low_bits len log, log))"

text \<open>The decoder's packed tables: the baseline in 24 bits, the extra-bit width above them.\<close>

definition LL_BASE :: "nat list" where
  "LL_BASE = [
    0, 1, 2, 3, 4, 5, 6, 7, 8, 9, 10, 11, 12, 13, 14, 15, 16, 18, 20, 22, 24, 28, 32, 40, 48,
    64, 128, 256, 512, 1024, 2048, 4096, 8192, 16384, 32768, 65536]"

definition ML_BASE :: "nat list" where
  "ML_BASE = [
    3, 4, 5, 6, 7, 8, 9, 10, 11, 12, 13, 14, 15, 16, 17, 18, 19, 20, 21, 22, 23, 24, 25, 26,
    27, 28, 29, 30, 31, 32, 33, 34, 35, 37, 39, 41, 43, 47, 51, 59, 67, 83, 99, 131, 259, 515,
    1027, 2051, 4099, 8195, 16387, 32771, 65539]"

definition pack_code_meta :: "nat list \<Rightarrow> nat list \<Rightarrow> nat list option" where
  "pack_code_meta bases extra_bits =
     (if list_all (\<lambda>b. b < 2 ^ 24) bases \<and> list_all (\<lambda>e. e \<le> 16) extra_bits
      then Some (map (\<lambda>(b, e). b + 2 ^ 24 * e) (zip bases extra_bits)) else None)"

definition LL_META :: "nat list" where
  "LL_META = the (pack_code_meta LL_BASE [
    0, 0, 0, 0, 0, 0, 0, 0, 0, 0, 0, 0, 0, 0, 0, 0, 1, 1, 1, 1, 2, 2, 3, 3, 4, 6, 7, 8, 9, 10,
    11, 12, 13, 14, 15, 16])"

definition ML_META :: "nat list" where
  "ML_META = the (pack_code_meta ML_BASE [
    0, 0, 0, 0, 0, 0, 0, 0, 0, 0, 0, 0, 0, 0, 0, 0, 0, 0, 0, 0, 0, 0, 0, 0, 0, 0, 0, 0, 0, 0,
    0, 0, 1, 1, 1, 1, 2, 2, 3, 3, 4, 4, 5, 7, 8, 9, 10, 11, 12, 13, 14, 15, 16])"

section \<open>Repeat offsets\<close>

type_synonym offset_hist = "u32 \<times> u32 \<times> u32"

text \<open>\<open>offset_hist[i]\<close>; an index above 2 panics.\<close>

fun hist_at :: "offset_hist \<Rightarrow> nat \<Rightarrow> u32 option" where
  "hist_at (h0, h1, h2) i = (if i = 0 then Some h0 else if i = 1 then Some h1 else if i = 2 then Some h2 else None)"

fun encode_offset_with_history :: "u32 \<Rightarrow> u32 \<Rightarrow> offset_hist \<Rightarrow> u32 \<times> offset_hist" where
  "encode_offset_with_history actual_offset lit_len (h0, h1, h2) =
     (let encoded =
            (if lit_len > 0 then
               (if actual_offset = h0 then 1
                else if actual_offset = h1 then 2
                else if actual_offset = h2 then 3
                else actual_offset + 3)
             else
               (if actual_offset = h1 then 1
                else if actual_offset = h2 then 2
                else if actual_offset = h0 - 1 \<and> h0 > 1 then 3
                else actual_offset + 3));
          hist =
            (if lit_len > 0 then
               (if encoded = 1 then (h0, h1, h2)
                else if encoded = 2 then (actual_offset, h0, h2)
                else (actual_offset, h0, h1))
             else
               (if encoded = 1 then (actual_offset, h0, h2)
                else if encoded = 2 then (actual_offset, h0, h1)
                else (actual_offset, h0, h1)))
      in (encoded, hist))"

fun encode_offset_with_history_fast :: "u32 \<Rightarrow> u32 \<Rightarrow> offset_hist \<Rightarrow> u32 \<times> offset_hist" where
  "encode_offset_with_history_fast actual_offset lit_len (h0, h1, h2) =
     (if lit_len > 0 \<and> actual_offset = h0 then (1, h0, h1, h2)
      else if \<not> lit_len > 0 \<and> actual_offset = h1 then (1, actual_offset, h0, h2)
      else (actual_offset + 3, actual_offset, h0, h1))"

fun do_offset_history_repcode :: "u32 \<Rightarrow> u32 \<Rightarrow> offset_hist \<Rightarrow> (u32 \<times> offset_hist) option" where
  "do_offset_history_repcode offset_value lit_len (h0, h1, h2) =
     (if offset_value = 0 then Some (0, h0, h1, h2)
      else
        let index = offset_value - 1 + of_bool (lit_len = 0) in
        if index = 0 then Some (h0, h0, h1, h2)
        else Option.bind (if index = 3 then Some (h0 - 1) else hist_at (h0, h1, h2) (unat index)) (\<lambda>actual.
          let h2 = (if index \<noteq> 1 then h1 else h2)
          in Some (actual, actual, h0, h2)))"

fun do_offset_history :: "u32 \<Rightarrow> u32 \<Rightarrow> offset_hist \<Rightarrow> (u32 \<times> offset_hist) option" where
  "do_offset_history offset_value lit_len (h0, h1, h2) =
     (if offset_value \<ge> 4 then let actual = offset_value - 3 in Some (actual, actual, h0, h1)
      else do_offset_history_repcode offset_value lit_len (h0, h1, h2))"

text \<open>A block's offsets, coded and resolved in order.\<close>

fun encode_offsets ::
  "(u32 \<Rightarrow> u32 \<Rightarrow> offset_hist \<Rightarrow> u32 \<times> offset_hist) \<Rightarrow> (u32 \<times> u32) list \<Rightarrow> offset_hist
     \<Rightarrow> (u32 \<times> u32) list \<times> offset_hist" where
  "encode_offsets enc [] hist = ([], hist)"
| "encode_offsets enc ((off, ll) # seqs) hist =
     (let (code, hist) = enc off ll hist; (codes, hist) = encode_offsets enc seqs hist
      in ((code, ll) # codes, hist))"

fun resolve_offsets :: "(u32 \<times> u32) list \<Rightarrow> offset_hist \<Rightarrow> (u32 list \<times> offset_hist) option" where
  "resolve_offsets [] hist = Some ([], hist)"
| "resolve_offsets ((code, ll) # seqs) hist =
     Option.bind (do_offset_history code ll hist) (\<lambda>(off, hist).
       Option.bind (resolve_offsets seqs hist) (\<lambda>(offs, hist). Some (off # offs, hist)))"

section \<open>Codes decode to the length they encode\<close>

lemma low_bits_mod: "low_bits v n = v mod 2 ^ n"
proof -
  have "push_bit n 1 - 1 = (mask n :: nat)" by (simp add: mask_eq_exp_minus_1)
  then show ?thesis by (simp add: low_bits_def take_bit_eq_mod flip: take_bit_eq_mask)
qed

definition meta_base :: "nat \<Rightarrow> nat" where
  "meta_base m = m mod 2 ^ 24"

definition meta_bits :: "nat \<Rightarrow> nat" where
  "meta_bits m = m div 2 ^ 24"

lemma pack_code_meta_nth:
  assumes "pack_code_meta bases extra = Some metas" "i < length bases" "length extra = length bases"
  shows "meta_base (metas ! i) = bases ! i" "meta_bits (metas ! i) = extra ! i" "length metas = length bases"
proof -
  have "bases ! i < 2 ^ 24"
    using assms by (simp add: pack_code_meta_def list_all_length split: if_splits)
  then show "meta_base (metas ! i) = bases ! i" "meta_bits (metas ! i) = extra ! i" "length metas = length bases"
    using assms by (auto simp: pack_code_meta_def meta_base_def meta_bits_def split: if_splits)
qed

lemma extra_bits_shared:
  "pack_code_meta LL_BASE LL_EXTRA_BITS = Some LL_META" "pack_code_meta ML_BASE ML_EXTRA_BITS = Some ML_META"
  by (simp_all add: LL_META_def ML_META_def pack_code_meta_def LL_BASE_def ML_BASE_def LL_EXTRA_BITS_def ML_EXTRA_BITS_def)

lemma table_lengths:
  "length LL_BASE = 36" "length LL_EXTRA_BITS = 36" "length ML_BASE = 53" "length ML_EXTRA_BITS = 53"
  "length LL_CODE = 64" "length ML_CODE = 128"
  by (simp_all add: LL_BASE_def LL_EXTRA_BITS_def ML_BASE_def ML_EXTRA_BITS_def LL_CODE_def ML_CODE_def)

lemma ll_meta: "c < 36 \<Longrightarrow> meta_base (LL_META ! c) = LL_BASE ! c \<and> meta_bits (LL_META ! c) = LL_EXTRA_BITS ! c"
  using pack_code_meta_nth [OF extra_bits_shared(1)] by (simp add: table_lengths)

lemma ml_meta: "c < 53 \<Longrightarrow> meta_base (ML_META ! c) = ML_BASE ! c \<and> meta_bits (ML_META ! c) = ML_EXTRA_BITS ! c"
  using pack_code_meta_nth [OF extra_bits_shared(2)] by (simp add: table_lengths)

text \<open>A table of codes for short lengths fits the decoder's table when every entry does.\<close>

fun codes_fit :: "nat list \<Rightarrow> nat list \<Rightarrow> nat \<Rightarrow> nat \<Rightarrow> nat list \<Rightarrow> bool" where
  "codes_fit bases extra shift len [] = True"
| "codes_fit bases extra shift len (c # cs) =
     (c < length bases \<and> bases ! c + len mod 2 ^ (extra ! c) = len + shift
      \<and> codes_fit bases extra shift (Suc len) cs)"

lemma codes_fit_nth:
  "\<lbrakk>codes_fit bases extra shift len cs; i < length cs\<rbrakk> \<Longrightarrow>
     cs ! i < length bases \<and> bases ! (cs ! i) + (len + i) mod 2 ^ (extra ! (cs ! i)) = len + i + shift"
proof (induction cs arbitrary: len i)
  case (Cons c cs)
  then show ?case by (cases i) fastforce+
qed simp

lemma ll_codes_fit: "codes_fit LL_BASE LL_EXTRA_BITS 0 0 LL_CODE"
  by (simp add: LL_CODE_def LL_BASE_def LL_EXTRA_BITS_def)

lemma ml_codes_fit: "codes_fit ML_BASE ML_EXTRA_BITS 3 0 ML_CODE"
  by (simp add: ML_CODE_def ML_BASE_def ML_EXTRA_BITS_def)

lemma fuse_code_bits_nth:
  assumes "i < length codes" "\<forall>c \<in> set codes. c < 256"
  shows "fuse_code_bits codes bits ! i mod 256 = codes ! i"
    "fuse_code_bits codes bits ! i div 256 = bits ! (codes ! i)"
  using assms nth_mem [OF assms(1)] by (simp_all add: fuse_code_bits_def)

lemma code_bytes: "\<forall>c \<in> set LL_CODE. c < 256" "\<forall>c \<in> set ML_CODE. c < 256"
  by (simp_all add: LL_CODE_def ML_CODE_def)

lemma long_codes:
  "\<lbrakk>6 \<le> k; k < 17\<rbrakk> \<Longrightarrow> LL_BASE ! (k + 19) = 2 ^ k \<and> LL_EXTRA_BITS ! (k + 19) = k"
  "\<lbrakk>7 \<le> k; k < 17\<rbrakk> \<Longrightarrow> ML_BASE ! (k + 36) = 2 ^ k + 3 \<and> ML_EXTRA_BITS ! (k + 36) = k"
proof -
  assume "6 \<le> k" "k < 17"
  then have "k = 6 \<or> k = 7 \<or> k = 8 \<or> k = 9 \<or> k = 10 \<or> k = 11 \<or> k = 12 \<or> k = 13 \<or> k = 14 \<or> k = 15 \<or> k = 16"
    by presburger
  then show "LL_BASE ! (k + 19) = 2 ^ k \<and> LL_EXTRA_BITS ! (k + 19) = k"
    by (auto simp: LL_BASE_def LL_EXTRA_BITS_def)
next
  assume "7 \<le> k" "k < 17"
  then have "k = 7 \<or> k = 8 \<or> k = 9 \<or> k = 10 \<or> k = 11 \<or> k = 12 \<or> k = 13 \<or> k = 14 \<or> k = 15 \<or> k = 16"
    by presburger
  then show "ML_BASE ! (k + 36) = 2 ^ k + 3 \<and> ML_EXTRA_BITS ! (k + 36) = k"
    by (auto simp: ML_BASE_def ML_EXTRA_BITS_def)
qed

lemma encode_literal_length_decodes:
  assumes "len < 131072"
  shows "\<exists>c x b. encode_literal_length len = Some (c, x, b) \<and> c \<le> 35 \<and> meta_bits (LL_META ! c) = b
     \<and> x < 2 ^ b \<and> meta_base (LL_META ! c) + x = len"
proof (cases "len < 64")
  case True
  then show ?thesis
    using codes_fit_nth [OF ll_codes_fit, of len] fuse_code_bits_nth [of len LL_CODE LL_EXTRA_BITS] code_bytes(1)
      ll_meta [of "LL_CODE ! len"]
    by (auto simp: encode_literal_length_def LL_CODE_BITS_def Let_def low_bits_mod table_lengths)
next
  case False
  then have k: "6 \<le> ilog2 len" "ilog2 len < 17" using ilog2_range [of 6 len 17] assms by auto
  then show ?thesis
    using False assms long_codes(1) [OF k] ll_meta [of "ilog2 len + 19"] ilog2_split [of len]
    by (auto simp: encode_literal_length_def Let_def low_bits_mod LL_DELTA_CODE_def)
qed

lemma encode_match_len_decodes:
  assumes "3 \<le> len" "len < 131075"
  shows "\<exists>c x b. encode_match_len len = Some (c, x, b) \<and> c \<le> 52 \<and> meta_bits (ML_META ! c) = b
     \<and> x < 2 ^ b \<and> meta_base (ML_META ! c) + x = len"
proof -
  define base where "base = len - 3"
  have len: "len = base + 3" "base < 131072" using assms by (simp_all add: base_def)
  show ?thesis
  proof (cases "base < 128")
    case True
    then show ?thesis
      using codes_fit_nth [OF ml_codes_fit, of base] fuse_code_bits_nth [of base ML_CODE ML_EXTRA_BITS]
        code_bytes(2) ml_meta [of "ML_CODE ! base"]
      by (auto simp: len encode_match_len_def ML_CODE_BITS_def Let_def low_bits_mod table_lengths)
  next
    case False
    then have k: "7 \<le> ilog2 base" "ilog2 base < 17" using ilog2_range [of 7 base 17] len by auto
    then show ?thesis
      using False len(2) long_codes(2) [OF k] ml_meta [of "ilog2 base + 36"] ilog2_split [of base]
      by (auto simp: len(1) encode_match_len_def Let_def low_bits_mod ML_DELTA_CODE_def)
  qed
qed

lemma encode_offset_decodes:
  assumes "0 < v" "v < 2 ^ 32"
  shows "\<exists>c x. encode_offset v = Some (c, x, c) \<and> c \<le> 31 \<and> x < 2 ^ c \<and> 2 ^ c + x = v"
  using ilog2_split [OF assms(1)] ilog2_range [of 0 v 32] assms
  by (auto simp: encode_offset_def Let_def low_bits_mod)

section \<open>Repeat codes resolve to the offset they replace\<close>

lemma repeat_codes_small: "\<not> (4 :: u32) \<le> 1" "\<not> (4 :: u32) \<le> 2" "\<not> (4 :: u32) \<le> 3"
  by (simp_all add: word_le_nat_alt)

lemma offset_plus_3:
  assumes "0 < a" "unat a + 3 < 2 ^ 32"
  shows "4 \<le> a + 3" "a + 3 \<noteq> 1" "a + 3 \<noteq> 2" "a + 3 \<noteq> (3 :: u32)"
proof -
  have "unat (a + 3) = unat a + 3" using assms(2) by (subst unat_add_lem [THEN iffD1]) auto
  moreover have "0 < unat a" using assms(1) by (simp add: word_less_nat_alt)
  ultimately have "4 \<le> unat (a + 3)" by simp
  then show "4 \<le> a + 3" by (simp add: word_le_nat_alt)
  then show "a + 3 \<noteq> 1" "a + 3 \<noteq> 2" "a + 3 \<noteq> 3" using repeat_codes_small by metis+
qed

lemma offset_with_history_resolves:
  assumes a: "0 < a" "unat a + 3 < 2 ^ 32"
  shows "do_offset_history (fst (encode_offset_with_history a ll hist)) ll hist
     = Some (a, snd (encode_offset_with_history a ll hist))"
proof (cases hist)
  case (fields h0 h1 h2)
  show ?thesis
    using offset_plus_3 [OF a] repeat_codes_small
    by (cases "ll = 0") (auto simp: fields Let_def word_gt_0)
qed

lemma offset_with_history_fast_resolves:
  assumes a: "0 < a" "unat a + 3 < 2 ^ 32"
  shows "do_offset_history (fst (encode_offset_with_history_fast a ll hist)) ll hist
     = Some (a, snd (encode_offset_with_history_fast a ll hist))"
proof (cases hist)
  case (fields h0 h1 h2)
  show ?thesis
    using offset_plus_3 [OF a] repeat_codes_small
    by (cases "ll = 0") (auto simp: fields Let_def word_gt_0)
qed

lemma encode_offsets_resolve:
  assumes enc: "\<And>a ll hist. \<lbrakk>0 < a; unat a + 3 < 2 ^ 32\<rbrakk> \<Longrightarrow>
     do_offset_history (fst (enc a ll hist)) ll hist = Some (a, snd (enc a ll hist))"
    and offs: "\<forall>(off, ll) \<in> set seqs. 0 < off \<and> unat off + 3 < 2 ^ 32"
  shows "resolve_offsets (fst (encode_offsets enc seqs hist)) hist
     = Some (map fst seqs, snd (encode_offsets enc seqs hist))"
  using offs
proof (induction seqs arbitrary: hist)
  case (Cons s seqs)
  obtain off ll where s: "s = (off, ll)" by force
  obtain code hist' where code: "enc off ll hist = (code, hist')" by (cases "enc off ll hist")
  from Cons.prems enc [of off ll hist] have "do_offset_history code ll hist = Some (off, hist')"
    by (auto simp: s code)
  with Cons.IH [of hist'] Cons.prems show ?case by (auto simp: s code Let_def split: prod.splits)
qed simp

section \<open>Properties\<close>

text \<open>
  C22. Every encodable length and offset survives its code: for literal lengths below 131072, match
  lengths from 3 to 131074 and nonzero 32-bit offset values, the encoder's code is within the
  decoder's table, the extra bits fit the table's width, and baseline plus extra bits is the number.
\<close>

theorem sequence_codes_roundtrip:
  "(\<forall>ll. ll < 131072 \<longrightarrow> (\<exists>c x b. encode_literal_length ll = Some (c, x, b) \<and> c \<le> 35
       \<and> meta_bits (LL_META ! c) = b \<and> x < 2 ^ b \<and> meta_base (LL_META ! c) + x = ll))
   \<and> (\<forall>ml. 3 \<le> ml \<and> ml < 131075 \<longrightarrow> (\<exists>c x b. encode_match_len ml = Some (c, x, b) \<and> c \<le> 52
       \<and> meta_bits (ML_META ! c) = b \<and> x < 2 ^ b \<and> meta_base (ML_META ! c) + x = ml))
   \<and> (\<forall>v. 0 < v \<and> v < 2 ^ 32 \<longrightarrow> (\<exists>c x. encode_offset v = Some (c, x, c) \<and> c \<le> 31
       \<and> x < 2 ^ c \<and> 2 ^ c + x = v))"
  using encode_literal_length_decodes encode_match_len_decodes encode_offset_decodes by blast

theorem sequence_codes_roundtrip_witness:
  "\<exists>c x b. encode_literal_length 1000 = Some (c, x, b) \<and> c \<le> 35
     \<and> meta_bits (LL_META ! c) = b \<and> x < 2 ^ b \<and> meta_base (LL_META ! c) + x = 1000"
  using sequence_codes_roundtrip by simp

text \<open>
  C16. The decoder's repeat-offset history undoes the encoder's: over any list of sequences with
  offsets from 1 to 2 ^ 32 - 4 and any starting history, resolving the emitted offset codes gives
  the original offsets and the encoder's final history, for the full search and for the fast
  converter.
\<close>

theorem offset_history_roundtrip:
  assumes "\<forall>(off, ll) \<in> set seqs. 0 < off \<and> unat off + 3 < 2 ^ 32"
  shows "resolve_offsets (fst (encode_offsets encode_offset_with_history seqs hist)) hist
      = Some (map fst seqs, snd (encode_offsets encode_offset_with_history seqs hist))
     \<and> resolve_offsets (fst (encode_offsets encode_offset_with_history_fast seqs hist)) hist
      = Some (map fst seqs, snd (encode_offsets encode_offset_with_history_fast seqs hist))"
  using encode_offsets_resolve [OF offset_with_history_resolves assms]
    encode_offsets_resolve [OF offset_with_history_fast_resolves assms] by blast

theorem offset_history_roundtrip_witness:
  "resolve_offsets (fst (encode_offsets encode_offset_with_history [(8, 3), (1, 0), (7, 0), (8, 2)] (1, 4, 8))) (1, 4, 8)
      = Some ([8, 1, 7, 8], snd (encode_offsets encode_offset_with_history [(8, 3), (1, 0), (7, 0), (8, 2)] (1, 4, 8)))
   \<and> resolve_offsets (fst (encode_offsets encode_offset_with_history_fast [(8, 3), (1, 0), (7, 0), (8, 2)] (1, 4, 8))) (1, 4, 8)
      = Some ([8, 1, 7, 8], snd (encode_offsets encode_offset_with_history_fast [(8, 3), (1, 0), (7, 0), (8, 2)] (1, 4, 8)))"
  using offset_history_roundtrip [of "[(8, 3), (1, 0), (7, 0), (8, 2)]" "(1, 4, 8)"]
  by (simp del: encode_offsets.simps resolve_offsets.simps)

end
