(* ===== verification/Frame_Header.thy ===== *)
theory Frame_Header
  imports Block_Header
begin

text \<open>
  Frame headers: the encoder's \<^verbatim>\<open>encoding/frame_header.rs\<close> with the size classes of
  \<^verbatim>\<open>encoding/util.rs\<close>, and the decoder's \<^verbatim>\<open>decoding/frame.rs\<close>, which parses a header in two ways
  (through \<open>Read\<close> and straight from a slice) and measures one from its first bytes. A parser takes
  the remaining input and returns what is left of it beside its result, as the code advances a
  \<open>&mut &[u8]\<close> on success and on failure.
\<close>

section \<open>Parsers over a borrowed slice\<close>

type_synonym ('a, 'e) parser = "u8 list \<Rightarrow> u8 list \<times> ('a, 'e) result"

definition pbind :: "('a, 'e) parser \<Rightarrow> ('a \<Rightarrow> ('b, 'e) parser) \<Rightarrow> ('b, 'e) parser" where
  "pbind p f inp = (case p inp of
      (rest, Ok x) \<Rightarrow> f x rest
    | (rest, Err e) \<Rightarrow> (rest, Err e)
    | (rest, Panic) \<Rightarrow> (rest, Panic))"

definition preturn :: "('a, 'e) result \<Rightarrow> ('a, 'e) parser" where
  "preturn x inp = (inp, x)"

section \<open>Constants and data\<close>

definition MAGIC_NUM :: u32 where
  "MAGIC_NUM = 0xFD2FB528"

definition MIN_WINDOW_SIZE :: u64 where
  "MIN_WINDOW_SIZE = 1024"

definition MAX_WINDOW_SIZE :: u64 where
  "MAX_WINDOW_SIZE = push_bit 41 1 + 7 * push_bit 38 1"

record enc_frame_header =
  efh_frame_content_size :: "u64 option"
  efh_single_segment :: bool
  efh_content_checksum :: bool
  efh_dictionary_id :: "u64 option"
  efh_window_size :: "u64 option"
  efh_magicless :: bool

record frame_header =
  fh_descriptor :: u8
  fh_window_descriptor :: u8
  fh_dict_id :: "u32 option"
  fh_frame_content_size :: u64

datatype frame_descriptor_error = InvalidFrameContentSizeFlag u8 | ReservedBitSet

datatype frame_header_error = WindowTooBig u64 | WindowTooSmall u64

datatype read_frame_header_error =
    MagicNumberReadError io_error
  | BadMagicNumber u32
  | FrameDescriptorReadError io_error
  | InvalidFrameDescriptor frame_descriptor_error
  | WindowDescriptorReadError io_error
  | DictionaryIdReadError io_error
  | FrameContentSizeReadError io_error
  | SkipFrame (skip_magic: u32) (skip_length: u32)

section \<open>Encoder\<close>

definition find_min_size :: "u64 \<Rightarrow> nat" where
  "find_min_size val =
     (if val = 0 then 1
      else if drop_bit 8 val = 0 then 1
      else if drop_bit 16 val = 0 then 2
      else if drop_bit 32 val = 0 then 4
      else 8)"

definition write_minified_val :: "u64 \<Rightarrow> u8 list" where
  "write_minified_val val = take (find_min_size val) (to_le_bytes 8 val)"

definition find_fcs_field_size :: "u64 \<Rightarrow> bool \<Rightarrow> nat" where
  "find_fcs_field_size val single_segment =
     (if single_segment \<and> val \<le> 255 then 1
      else if 256 \<le> val \<and> val \<le> 65791 then 2
      else if val \<le> 0xFFFFFFFF then 4
      else 8)"

text \<open>The bytes appended to the output; an invalid field size is the \<open>unreachable!\<close> arm.\<close>

definition write_fcs :: "u64 \<Rightarrow> nat \<Rightarrow> u8 list option" where
  "write_fcs val field_size =
     (if field_size = 2 then Some (take field_size (to_le_bytes 8 (val - 256)))
      else if field_size = 1 \<or> field_size = 4 \<or> field_size = 8
      then Some (take field_size (to_le_bytes 8 val))
      else None)"

definition single_segment :: "u64 option \<Rightarrow> u64 \<Rightarrow> bool" where
  "single_segment content_size window_size =
     (case content_size of None \<Rightarrow> False | Some sz \<Rightarrow> sz \<le> window_size)"

definition descriptor :: "enc_frame_header \<Rightarrow> u8 option" where
  "descriptor h =
     Option.bind (case map_option find_min_size (efh_dictionary_id h) of
         None \<Rightarrow> Some (0 :: u8)
       | Some n \<Rightarrow> if n = 1 then Some 1 else if n = 2 then Some 2 else if n = 4 then Some 3 else None) (\<lambda>dict_id_flag.
     if efh_single_segment h \<and> efh_frame_content_size h = None then None
     else if \<not> efh_single_segment h \<and> efh_window_size h = None then None
     else
     Option.bind (case efh_frame_content_size h of
         Some frame_content_size \<Rightarrow>
           (let n = find_fcs_field_size frame_content_size (efh_single_segment h) in
            if n = 1 then Some (0 :: u8) else if n = 2 then Some 1 else if n = 4 then Some 2
            else if n = 8 then Some 3 else None)
       | None \<Rightarrow> Some 0) (\<lambda>fcs_flag.
     let checksum_flag = (of_bool (efh_content_checksum h) :: u8);
         single_segment_flag = (of_bool (efh_single_segment h) :: u8)
     in Some (dict_id_flag OR push_bit 2 checksum_flag OR push_bit 5 single_segment_flag
              OR push_bit 6 fcs_flag)))"

text \<open>
  \<open>window_size.next_power_of_two().ilog2()\<close>: the logarithm of the least power of two that is not
  smaller; above 2 ^ 63 the power does not fit and the code panics.
\<close>

definition next_power_of_two_log :: "u64 \<Rightarrow> nat option" where
  "next_power_of_two_log w =
     (let n = unat w in
      if n \<le> 1 then Some 0 else if n \<le> 2 ^ 63 then Some (Suc (ilog2 (n - 1))) else None)"

text \<open>The window descriptor byte, written unless the frame is single-segment.\<close>

definition window_byte :: "enc_frame_header \<Rightarrow> u8 list option" where
  "window_byte h =
     (case (efh_single_segment h, efh_window_size h) of
        (False, Some window_size) \<Rightarrow>
          Option.bind (next_power_of_two_log window_size) (\<lambda>log.
            let exponent = (if log > 10 then of_nat (log - 10) else 1 :: u8)
            in Some [push_bit 3 exponent])
      | _ \<Rightarrow> Some [])"

definition serialize :: "enc_frame_header \<Rightarrow> u8 list \<Rightarrow> u8 list option" where
  "serialize h output =
     (let output = (if \<not> efh_magicless h then output @ to_le_bytes 4 MAGIC_NUM else output) in
      Option.bind (descriptor h) (\<lambda>d.
      let output = output @ [d] in
      Option.bind (window_byte h) (\<lambda>wb.
      let output = output @ wb;
          output = (case efh_dictionary_id h of Some did \<Rightarrow> output @ write_minified_val did | None \<Rightarrow> output) in
      case efh_frame_content_size h of
        Some frame_content_size \<Rightarrow>
          let field_size = find_fcs_field_size frame_content_size (efh_single_segment h)
          in map_option (\<lambda>bs. output @ bs) (write_fcs frame_content_size field_size)
      | None \<Rightarrow> Some output)))"

section \<open>Descriptor and header accessors\<close>

definition frame_content_size_flag :: "u8 \<Rightarrow> u8" where
  "frame_content_size_flag d = drop_bit 6 d"

definition reserved_flag :: "u8 \<Rightarrow> bool" where
  "reserved_flag d \<longleftrightarrow> drop_bit 3 d AND 1 = 1"

definition single_segment_flag :: "u8 \<Rightarrow> bool" where
  "single_segment_flag d \<longleftrightarrow> drop_bit 5 d AND 1 = 1"

definition content_checksum_flag :: "u8 \<Rightarrow> bool" where
  "content_checksum_flag d \<longleftrightarrow> drop_bit 2 d AND 1 = 1"

definition dict_id_flag :: "u8 \<Rightarrow> u8" where
  "dict_id_flag d = d AND 3"

definition check_reserved_bit :: "u8 \<Rightarrow> (unit, frame_descriptor_error) result" where
  "check_reserved_bit d = (if reserved_flag d then Err ReservedBitSet else Ok ())"

definition frame_content_size_bytes :: "u8 \<Rightarrow> (nat, frame_descriptor_error) result" where
  "frame_content_size_bytes d =
     (let flag = frame_content_size_flag d in
      if flag = 0 then (if single_segment_flag d then Ok 1 else Ok 0)
      else if flag = 1 then Ok 2
      else if flag = 2 then Ok 4
      else if flag = 3 then Ok 8
      else Err (InvalidFrameContentSizeFlag flag))"

definition dictionary_id_bytes :: "u8 \<Rightarrow> (nat, frame_descriptor_error) result" where
  "dictionary_id_bytes d =
     (let flag = dict_id_flag d in
      if flag = 0 then Ok 0
      else if flag = 1 then Ok 1
      else if flag = 2 then Ok 2
      else if flag = 3 then Ok 4
      else Err (InvalidFrameContentSizeFlag flag))"

fun ok_or_zero :: "(nat, 'e) result \<Rightarrow> nat" where
  "ok_or_zero (Ok n) = n"
| "ok_or_zero _ = 0"

definition header_len :: "u8 \<Rightarrow> nat" where
  "header_len d =
     (let window = (if single_segment_flag d then 0 else 1);
          dict = ok_or_zero (dictionary_id_bytes d);
          fcs = ok_or_zero (frame_content_size_bytes d)
      in 1 + window + dict + fcs)"

definition window_size :: "frame_header \<Rightarrow> (u64, frame_header_error) result" where
  "window_size h =
     (if single_segment_flag (fh_descriptor h) then Ok (fh_frame_content_size h)
      else
        let exp = drop_bit 3 (fh_window_descriptor h);
            mantissa = fh_window_descriptor h AND 7;
            window_log = 10 + unat exp;
            window_base = (push_bit window_log 1 :: u64);
            window_add = (window_base div 8) * ucast mantissa;
            window_size = window_base + window_add
        in if window_size \<ge> MIN_WINDOW_SIZE then
             (if window_size < MAX_WINDOW_SIZE then Ok window_size else Err (WindowTooBig window_size))
           else Err (WindowTooSmall window_size))"

definition fcs_declared :: "frame_header \<Rightarrow> bool" where
  "fcs_declared h = (case frame_content_size_bytes (fh_descriptor h) of Ok n \<Rightarrow> n \<noteq> 0 | _ \<Rightarrow> False)"

definition window_descriptor :: "frame_header \<Rightarrow> u8 option" where
  "window_descriptor h = (if single_segment_flag (fh_descriptor h) then None else Some (fh_window_descriptor h))"

section \<open>Parsing through Read\<close>

definition read_field ::
  "nat \<Rightarrow> (io_error \<Rightarrow> read_frame_header_error) \<Rightarrow> (u8 list, read_frame_header_error) parser" where
  "read_field n wrap inp = (case read_exact n inp of
      Ok (buf, rest) \<Rightarrow> (rest, Ok buf)
    | Err e \<Rightarrow> (inp, Err (wrap e))
    | Panic \<Rightarrow> (inp, Panic))"

definition is_skippable_magic :: "u32 \<Rightarrow> bool" where
  "is_skippable_magic m \<longleftrightarrow> 0x184D2A50 \<le> m \<and> m \<le> 0x184D2A5F"

text \<open>\<open>for (i, &b) in buf.iter().enumerate() { acc += (b as uN) << (8 * i); }\<close>\<close>

fun sum_shifted :: "nat \<Rightarrow> u8 list \<Rightarrow> 'a::len word \<Rightarrow> 'a word" where
  "sum_shifted i [] acc = acc"
| "sum_shifted i (b # bs) acc = sum_shifted (Suc i) bs (acc + push_bit (8 * i) (ucast b))"

definition read_magic :: "(unit, read_frame_header_error) parser" where
  "read_magic =
     pbind (read_field 4 MagicNumberReadError) (\<lambda>buf.
       let magic_num = from_le_bytes buf in
       if is_skippable_magic magic_num then
         pbind (read_field 4 FrameDescriptorReadError) (\<lambda>buf.
           preturn (Err (SkipFrame magic_num (from_le_bytes buf))))
       else if magic_num \<noteq> MAGIC_NUM then preturn (Err (BadMagicNumber magic_num))
       else preturn (Ok ()))"

text \<open>The optional fields; each returns the header with the field set and the bytes it read.\<close>

definition read_window :: "u8 \<Rightarrow> frame_header \<Rightarrow> (frame_header \<times> nat, read_frame_header_error) parser" where
  "read_window desc fh =
     (if \<not> single_segment_flag desc then
        pbind (read_field 1 WindowDescriptorReadError) (\<lambda>buf.
          preturn (Ok (fh\<lparr>fh_window_descriptor := buf ! 0\<rparr>, 1)))
      else preturn (Ok (fh, 0)))"

definition read_dict_id :: "u8 \<Rightarrow> frame_header \<Rightarrow> (frame_header \<times> nat, read_frame_header_error) parser" where
  "read_dict_id desc fh =
     pbind (preturn (map_err InvalidFrameDescriptor (dictionary_id_bytes desc))) (\<lambda>dict_id_len.
       if dict_id_len \<noteq> 0 then
         pbind (read_field dict_id_len DictionaryIdReadError) (\<lambda>buf.
           let dict_id = sum_shifted 0 buf (0 :: u32)
           in preturn (Ok (if dict_id \<noteq> 0 then fh\<lparr>fh_dict_id := Some dict_id\<rparr> else fh, dict_id_len)))
       else preturn (Ok (fh, 0)))"

definition read_fcs :: "u8 \<Rightarrow> frame_header \<Rightarrow> (frame_header \<times> nat, read_frame_header_error) parser" where
  "read_fcs desc fh =
     pbind (preturn (map_err InvalidFrameDescriptor (frame_content_size_bytes desc))) (\<lambda>fcs_len.
       if fcs_len \<noteq> 0 then
         pbind (read_field fcs_len FrameContentSizeReadError) (\<lambda>buf.
           let fcs = sum_shifted 0 buf (0 :: u64);
               fcs = (if fcs_len = 2 then fcs + 256 else fcs)
           in preturn (Ok (fh\<lparr>fh_frame_content_size := fcs\<rparr>, fcs_len)))
       else preturn (Ok (fh, 0)))"

definition read_frame_header_with_format ::
  "bool \<Rightarrow> (frame_header \<times> nat, read_frame_header_error) parser" where
  "read_frame_header_with_format magicless =
     pbind (if \<not> magicless then pbind read_magic (\<lambda>_. preturn (Ok 4)) else preturn (Ok 0)) (\<lambda>bytes_read.
     pbind (read_field 1 FrameDescriptorReadError) (\<lambda>buf.
     let desc = buf ! 0; bytes_read = bytes_read + 1;
         fh = \<lparr>fh_descriptor = desc, fh_window_descriptor = 0, fh_dict_id = None, fh_frame_content_size = 0\<rparr> in
     pbind (read_window desc fh) (\<lambda>(fh, n1).
     pbind (read_dict_id desc fh) (\<lambda>(fh, n2).
     pbind (read_fcs desc fh) (\<lambda>(fh, n3).
     pbind (preturn (map_err InvalidFrameDescriptor (check_reserved_bit desc))) (\<lambda>_.
       preturn (Ok (fh, bytes_read + n1 + n2 + n3))))))))"

section \<open>Parsing from a slice\<close>

definition take_slice :: "nat \<Rightarrow> read_frame_header_error \<Rightarrow> (u8 list, read_frame_header_error) parser" where
  "take_slice n e inp = (if length inp < n then (inp, Err e) else (drop n inp, Ok (take n inp)))"

definition take_magic_from_slice :: "(unit, read_frame_header_error) parser" where
  "take_magic_from_slice =
     pbind (take_slice 4 (MagicNumberReadError UnexpectedEof)) (\<lambda>m.
       let magic_num = from_le_bytes m in
       if is_skippable_magic magic_num then
         pbind (take_slice 4 (FrameDescriptorReadError UnexpectedEof)) (\<lambda>s.
           preturn (Err (SkipFrame magic_num (from_le_bytes s))))
       else if magic_num \<noteq> MAGIC_NUM then preturn (Err (BadMagicNumber magic_num))
       else preturn (Ok ()))"

definition measure_header_with_format :: "u8 list \<Rightarrow> bool \<Rightarrow> (nat, read_frame_header_error) result" where
  "measure_header_with_format input magicless =
     snd (pbind (if magicless then preturn (Ok 0) else pbind take_magic_from_slice (\<lambda>_. preturn (Ok 4)))
       (\<lambda>magic_len. pbind (take_slice 1 (FrameDescriptorReadError UnexpectedEof)) (\<lambda>d.
          preturn (Ok (magic_len + header_len (d ! 0))))) input)"

definition SKIPPABLE_MAGIC_START :: u32 where
  "SKIPPABLE_MAGIC_START = 0x184D2A50"

definition SKIPPABLE_MAGIC_MASK :: u32 where
  "SKIPPABLE_MAGIC_MASK = 0xFFFFFFF0"

definition header_input_needed :: "u8 list \<Rightarrow> bool \<Rightarrow> (nat, read_frame_header_error) result" where
  "header_input_needed input magicless =
     (let start = (if magicless then 1 else 5) in
      rbind (if \<not> magicless \<and> input \<noteq> [] then
               let n = min (length input) 4;
                   zstd = take n input @ drop n (to_le_bytes 4 MAGIC_NUM);
                   skip = take n input @ drop n (to_le_bytes 4 SKIPPABLE_MAGIC_START);
                   read = from_le_bytes zstd
               in if read \<noteq> MAGIC_NUM then
                    (if from_le_bytes skip AND SKIPPABLE_MAGIC_MASK \<noteq> SKIPPABLE_MAGIC_START
                     then Err (BadMagicNumber read) else Ok (length input \<ge> 4))
                  else Ok False
             else Ok False) (\<lambda>skippable.
        if length input < start then Ok start
        else if skippable then Ok 8
        else measure_header_with_format input magicless))"

definition slice_window :: "u8 \<Rightarrow> frame_header \<Rightarrow> (frame_header \<times> nat, read_frame_header_error) parser" where
  "slice_window desc fh =
     (if \<not> single_segment_flag desc then
        pbind (take_slice 1 (WindowDescriptorReadError UnexpectedEof)) (\<lambda>w.
          preturn (Ok (fh\<lparr>fh_window_descriptor := w ! 0\<rparr>, 1)))
      else preturn (Ok (fh, 0)))"

definition slice_dict_id :: "u8 \<Rightarrow> frame_header \<Rightarrow> (frame_header \<times> nat, read_frame_header_error) parser" where
  "slice_dict_id desc fh =
     pbind (preturn (map_err InvalidFrameDescriptor (dictionary_id_bytes desc))) (\<lambda>dict_id_len.
       if dict_id_len \<noteq> 0 then
         pbind (take_slice dict_id_len (DictionaryIdReadError UnexpectedEof)) (\<lambda>b.
           let dict_id = (from_le_bytes (zero_extend 4 b) :: u32)
           in preturn (Ok (if dict_id \<noteq> 0 then fh\<lparr>fh_dict_id := Some dict_id\<rparr> else fh, dict_id_len)))
       else preturn (Ok (fh, 0)))"

definition slice_fcs :: "u8 \<Rightarrow> frame_header \<Rightarrow> (frame_header \<times> nat, read_frame_header_error) parser" where
  "slice_fcs desc fh =
     pbind (preturn (map_err InvalidFrameDescriptor (frame_content_size_bytes desc))) (\<lambda>fcs_len.
       if fcs_len \<noteq> 0 then
         pbind (take_slice fcs_len (FrameContentSizeReadError UnexpectedEof)) (\<lambda>b.
           let fcs = (from_le_bytes (zero_extend 8 b) :: u64);
               fcs = (if fcs_len = 2 then fcs + 256 else fcs)
           in preturn (Ok (fh\<lparr>fh_frame_content_size := fcs\<rparr>, fcs_len)))
       else preturn (Ok (fh, 0)))"

definition read_frame_header_from_slice ::
  "bool \<Rightarrow> (frame_header \<times> nat, read_frame_header_error) parser" where
  "read_frame_header_from_slice magicless =
     pbind (if \<not> magicless then pbind take_magic_from_slice (\<lambda>_. preturn (Ok 4)) else preturn (Ok 0)) (\<lambda>bytes_read.
     pbind (take_slice 1 (FrameDescriptorReadError UnexpectedEof)) (\<lambda>d.
     let desc = d ! 0; bytes_read = bytes_read + 1;
         fh = \<lparr>fh_descriptor = desc, fh_window_descriptor = 0, fh_dict_id = None, fh_frame_content_size = 0\<rparr> in
     pbind (slice_window desc fh) (\<lambda>(fh, n1).
     pbind (slice_dict_id desc fh) (\<lambda>(fh, n2).
     pbind (slice_fcs desc fh) (\<lambda>(fh, n3).
     pbind (preturn (map_err InvalidFrameDescriptor (check_reserved_bit desc))) (\<lambda>_.
       preturn (Ok (fh, bytes_read + n1 + n2 + n3))))))))"

section \<open>The two parsers agree\<close>

lemma pbind_Ok [simp]: "pbind (preturn (Ok x)) f = f x"
  by (rule ext) (simp add: pbind_def preturn_def)

lemma read_field_take: "read_field n wrap = take_slice n (wrap UnexpectedEof)"
  by (rule ext) (simp add: read_field_def take_slice_def read_exact_def)

lemma sum_shifted_le: "sum_shifted i bs acc = acc + word_of_nat (2 ^ (8 * i) * le_val bs)"
proof (induction bs arbitrary: i acc)
  case (Cons b bs)
  have "(ucast b :: 'a word) = word_of_nat (unat b)"
    by simp
  then have "push_bit (8 * i) (ucast b :: 'a word) = word_of_nat (2 ^ (8 * i) * unat b)"
    by (simp add: push_bit_eq_mult mult.commute)
  moreover have "2 ^ (8 * i) * le_val (b # bs) = 2 ^ (8 * i) * unat b + 2 ^ (8 * Suc i) * le_val bs"
    by (simp add: algebra_simps power_add)
  ultimately show ?case by (simp only: sum_shifted.simps Cons.IH of_nat_add add.assoc)
qed simp

lemma sum_shifted_from_le: "sum_shifted 0 bs 0 = from_le_bytes bs"
  by (simp add: sum_shifted_le from_le_bytes_def)

lemma slice_fields_equal_read:
  "take_magic_from_slice = read_magic" "slice_window = read_window"
  "slice_dict_id = read_dict_id" "slice_fcs = read_fcs"
  unfolding take_magic_from_slice_def read_magic_def slice_window_def [abs_def] read_window_def [abs_def]
    slice_dict_id_def [abs_def] read_dict_id_def [abs_def] slice_fcs_def [abs_def] read_fcs_def [abs_def]
    read_field_take from_le_zero_extend sum_shifted_from_le
  by (rule refl)+

lemma slice_equals_read: "read_frame_header_from_slice magicless = read_frame_header_with_format magicless"
  unfolding read_frame_header_from_slice_def read_frame_header_with_format_def slice_fields_equal_read
    read_field_take by (rule refl)

section \<open>What a header's descriptor announces\<close>

lemmas descriptor_flags = single_segment_flag_def [unfolded low_bit_flag] reserved_flag_def [unfolded low_bit_flag]
  content_checksum_flag_def [unfolded low_bit_flag]

lemma descriptor_field_sizes:
  "\<exists>n. dictionary_id_bytes d = Ok n \<and> n \<le> 4" "\<exists>n. frame_content_size_bytes d = Ok n \<and> n \<le> 8"
proof -
  show "\<exists>n. dictionary_id_bytes d = Ok n \<and> n \<le> 4"
    using two_bit_word_cases [of d] by (auto simp: dictionary_id_bytes_def dict_id_flag_def Let_def)
  show "\<exists>n. frame_content_size_bytes d = Ok n \<and> n \<le> 8"
    using two_bit_word_cases [of "drop_bit 6 d"]
    by (auto simp: top_two_bits frame_content_size_bytes_def frame_content_size_flag_def Let_def)
qed

lemma header_len_bounds: "2 \<le> header_len d \<and> header_len d \<le> 14"
proof -
  obtain n m where "dictionary_id_bytes d = Ok n" "n \<le> 4" "frame_content_size_bytes d = Ok m" "m \<le> 8"
    using descriptor_field_sizes [of d] by auto
  moreover have "single_segment_flag d \<Longrightarrow> m \<noteq> 0"
    using \<open>frame_content_size_bytes d = Ok m\<close> by (auto simp: frame_content_size_bytes_def Let_def split: if_splits)
  ultimately show ?thesis by (auto simp: header_len_def)
qed

section \<open>Parsing a complete header\<close>

lemma take_slice_append: "length xs = n \<Longrightarrow> take_slice n e (xs @ ys) = (ys, Ok xs)"
  by (simp add: take_slice_def)

lemma pbind_take: "length xs = n \<Longrightarrow> pbind (take_slice n e) f (xs @ ys) = f xs ys"
  by (simp add: pbind_def take_slice_append)

lemma pbind_run: "p inp = (r, Ok x) \<Longrightarrow> pbind p f inp = f x r"
  by (simp add: pbind_def)

lemma pbind_take_one: "pbind (take_slice (Suc 0) e) f (x # ys) = f [x] ys"
  using pbind_take [of "[x]" "Suc 0" e f ys] by simp

definition parsed_fields :: "u8 \<Rightarrow> u8 list \<Rightarrow> u8 list \<Rightarrow> u8 list \<Rightarrow> frame_header" where
  "parsed_fields d wb db fb =
     \<lparr>fh_descriptor = d, fh_window_descriptor = (if single_segment_flag d then 0 else wb ! 0),
      fh_dict_id = (let i = from_le_bytes db in if i \<noteq> 0 then Some i else None),
      fh_frame_content_size = (if length fb = 2 then from_le_bytes fb + 256 else from_le_bytes fb)\<rparr>"

lemma from_le_Nil: "from_le_bytes [] = 0"
  by (simp add: from_le_bytes_def)

lemma parse_after_magic:
  assumes wb: "length wb = (if single_segment_flag d then 0 else 1)"
    and db: "dictionary_id_bytes d = Ok (length db)" and fb: "frame_content_size_bytes d = Ok (length fb)"
    and reserved: "\<not> reserved_flag d"
  shows "read_frame_header_with_format True (d # wb @ db @ fb @ rest)
     = (rest, Ok (parsed_fields d wb db fb, header_len d))"
proof -
  define fh0 where "fh0 = \<lparr>fh_descriptor = d, fh_window_descriptor = 0, fh_dict_id = None, fh_frame_content_size = 0\<rparr>"
  define fh1 where "fh1 = fh0\<lparr>fh_window_descriptor := (if single_segment_flag d then 0 else wb ! 0)\<rparr>"
  define fh2 where "fh2 = fh1\<lparr>fh_dict_id := (let i = from_le_bytes db in if i \<noteq> 0 then Some i else None)\<rparr>"
  have 1: "read_window d fh0 (wb @ ys) = (ys, Ok (fh1, length wb))" for ys
    using wb by (auto simp: read_window_def read_field_take pbind_take preturn_def fh0_def fh1_def)
  have 2: "read_dict_id d fh1 (db @ ys) = (ys, Ok (fh2, length db))" for ys
    using db by (auto simp: read_dict_id_def read_field_take pbind_take preturn_def sum_shifted_from_le
        Let_def from_le_Nil fh0_def fh1_def fh2_def)
  have 3: "read_fcs d fh2 (fb @ ys) = (ys, Ok (parsed_fields d wb db fb, length fb))" for ys
    using fb by (auto simp: read_fcs_def read_field_take pbind_take preturn_def sum_shifted_from_le
        parsed_fields_def from_le_Nil fh0_def fh1_def fh2_def)
  have len: "header_len d = 1 + length wb + length db + length fb"
    using wb db fb by (simp add: header_len_def)
  have "read_frame_header_with_format True (d # wb @ db @ fb @ rest) =
     pbind (read_window d fh0) (\<lambda>(fh, n1). pbind (read_dict_id d fh) (\<lambda>(fh, n2).
     pbind (read_fcs d fh) (\<lambda>(fh, n3). preturn (Ok (fh, 1 + n1 + n2 + n3))))) (wb @ db @ fb @ rest)"
    using reserved
    by (simp add: read_frame_header_with_format_def read_field_take pbind_take_one check_reserved_bit_def Let_def fh0_def)
  then show ?thesis
    by (simp add: pbind_run [where p = "read_window d fh0", OF 1] pbind_run [where p = "read_dict_id d fh1", OF 2]
        pbind_run [where p = "read_fcs d fh2", OF 3] preturn_def len)
qed

lemma magic_read: "read_magic (to_le_bytes 4 MAGIC_NUM @ ys) = (ys, Ok ())"
proof -
  have "from_le_bytes (to_le_bytes 4 MAGIC_NUM) = MAGIC_NUM" by (rule from_to_le_bytes) simp
  moreover have "\<not> is_skippable_magic MAGIC_NUM"
    by (simp add: is_skippable_magic_def MAGIC_NUM_def word_le_nat_alt)
  ultimately show ?thesis
    by (simp add: read_magic_def read_field_take pbind_take preturn_def)
qed

lemma parse_with_magic:
  assumes "read_frame_header_with_format True inp = (rest, Ok (fh, n))"
  shows "read_frame_header_with_format False (to_le_bytes 4 MAGIC_NUM @ inp) = (rest, Ok (fh, 4 + n))"
  using assms magic_read [of inp]
  by (auto simp: read_frame_header_with_format_def pbind_def preturn_def Let_def
      split: prod.splits result.splits)

section \<open>What the encoder writes\<close>

lemma descriptor_fields:
  fixes a f :: u8
  assumes d: "d = a OR push_bit 2 (of_bool c) OR push_bit 5 (of_bool s) OR push_bit 6 f"
    and a: "a AND 3 = a" and f: "f AND 3 = f"
  shows "dict_id_flag d = a" "frame_content_size_flag d = f" "single_segment_flag d = s"
    "content_checksum_flag d = c" "\<not> reserved_flag d"
proof -
  have a2: "bit a i \<Longrightarrow> i < 2" and f2: "bit f i \<Longrightarrow> i < 2" for i
    using bit_two_bits [of a i] bit_two_bits [of f i] a f by simp_all
  have bits: "bit d i \<longleftrightarrow> bit a i \<or> (i = 2 \<and> c) \<or> (i = 5 \<and> s) \<or> (6 \<le> i \<and> i < 8 \<and> bit f (i - 6))" for i
    unfolding d bit_or_iff bit_push_bit_iff bit_of_bool_iff by auto
  show "dict_id_flag d = a"
    unfolding dict_id_flag_def by (rule bit_word_eqI) (auto simp: bit_two_bits bits dest: a2)
  show "frame_content_size_flag d = f"
    unfolding frame_content_size_flag_def
    by (rule bit_word_eqI) (auto simp: bit_drop_bit_eq bits dest: a2 f2)
  show "single_segment_flag d = s" "content_checksum_flag d = c" "\<not> reserved_flag d"
    unfolding descriptor_flags bits by (auto dest: a2)
qed

lemma find_min_size_cases:
  "find_min_size v = (if unat v < 2 ^ 8 then 1 else if unat v < 2 ^ 16 then 2 else if unat v < 2 ^ 32 then 4 else 8)"
  by (simp add: find_min_size_def drop_bit_eq_0_iff_less)

lemma fcs_one_byte: "find_fcs_field_size v s = Suc 0 \<Longrightarrow> s"
  by (simp add: find_fcs_field_size_def split: if_splits)

lemma bind_guards:
  "Option.bind A (\<lambda>a. if p then None else if q then None else Option.bind F (g a)) = Some d \<Longrightarrow>
     \<exists>a f. A = Some a \<and> F = Some f \<and> \<not> p \<and> \<not> q \<and> g a f = Some d"
  by (cases A; cases F) (auto split: if_splits)

lemma descriptor_announces:
  assumes "descriptor h = Some d"
  shows "dictionary_id_bytes d = Ok (case efh_dictionary_id h of None \<Rightarrow> 0 | Some v \<Rightarrow> find_min_size v)"
    "frame_content_size_bytes d = Ok (case efh_frame_content_size h of None \<Rightarrow> 0
       | Some v \<Rightarrow> find_fcs_field_size v (efh_single_segment h))"
    "single_segment_flag d = efh_single_segment h" "content_checksum_flag d = efh_content_checksum h"
    "\<not> reserved_flag d" "efh_single_segment h \<Longrightarrow> efh_frame_content_size h \<noteq> None"
    "\<not> efh_single_segment h \<Longrightarrow> efh_window_size h \<noteq> None"
    "efh_dictionary_id h = Some v \<Longrightarrow> unat v < 2 ^ 32"
proof -
  obtain a f where
      a: "(case map_option find_min_size (efh_dictionary_id h) of None \<Rightarrow> Some (0 :: u8)
         | Some n \<Rightarrow> if n = 1 then Some 1 else if n = 2 then Some 2 else if n = 4 then Some 3 else None) = Some a"
      and f: "(case efh_frame_content_size h of
         Some frame_content_size \<Rightarrow>
           (let n = find_fcs_field_size frame_content_size (efh_single_segment h) in
            if n = 1 then Some (0 :: u8) else if n = 2 then Some 1 else if n = 4 then Some 2
            else if n = 8 then Some 3 else None)
       | None \<Rightarrow> Some 0) = Some f"
      and d: "d = a OR push_bit 2 (of_bool (efh_content_checksum h)) OR push_bit 5 (of_bool (efh_single_segment h)) OR push_bit 6 f"
      and segs: "efh_single_segment h \<Longrightarrow> efh_frame_content_size h \<noteq> None"
        "\<not> efh_single_segment h \<Longrightarrow> efh_window_size h \<noteq> None"
    using bind_guards [OF assms [unfolded descriptor_def]] by (auto simp: Let_def simp del: bit_or_iff)
  have "a AND 3 = a" using a by (auto split: option.splits if_splits)
  moreover have "f AND 3 = f" using f by (auto simp: Let_def split: option.splits if_splits)
  ultimately have flags: "dict_id_flag d = a" "frame_content_size_flag d = f"
      "single_segment_flag d = efh_single_segment h" "content_checksum_flag d = efh_content_checksum h" "\<not> reserved_flag d"
    by (rule descriptor_fields [OF d])+
  show "single_segment_flag d = efh_single_segment h" "content_checksum_flag d = efh_content_checksum h"
    "\<not> reserved_flag d" by (rule flags)+
  show "efh_single_segment h \<Longrightarrow> efh_frame_content_size h \<noteq> None"
    "\<not> efh_single_segment h \<Longrightarrow> efh_window_size h \<noteq> None" by (fact segs)+
  show "dictionary_id_bytes d = Ok (case efh_dictionary_id h of None \<Rightarrow> 0 | Some v \<Rightarrow> find_min_size v)"
    unfolding dictionary_id_bytes_def flags Let_def using a by (auto split: option.splits if_splits)
  show "frame_content_size_bytes d = Ok (case efh_frame_content_size h of None \<Rightarrow> 0
       | Some v \<Rightarrow> find_fcs_field_size v (efh_single_segment h))"
    unfolding frame_content_size_bytes_def flags Let_def using f segs(1)
    by (auto simp: Let_def dest: fcs_one_byte split: option.splits if_splits)
  show "efh_dictionary_id h = Some v \<Longrightarrow> unat v < 2 ^ 32"
    using a by (auto simp: find_min_size_cases split: if_splits)
qed

lemma from_le_short:
  assumes "unat v < 2 ^ (8 * n)" "n \<le> 8"
  shows "(from_le_bytes (take n (to_le_bytes 8 (v :: u64))) :: 'a::len word) = ucast v"
proof -
  have "le_val (take n (to_le_bytes 8 v)) = unat v"
    using assms by (simp add: take_to_le_bytes le_val_to_le_bytes take_bit_nat_eq_self)
  then show ?thesis by (simp add: from_le_bytes_def)
qed

lemma dict_id_bytes_read:
  assumes "unat v < 2 ^ 32"
  shows "(from_le_bytes (write_minified_val v) :: u32) = ucast v" "length (write_minified_val v) = find_min_size v"
    "(ucast v :: u32) = 0 \<longleftrightarrow> v = 0"
proof -
  show "(from_le_bytes (write_minified_val v) :: u32) = ucast v"
    unfolding write_minified_val_def by (rule from_le_short) (use assms in \<open>auto simp: find_min_size_cases\<close>)
  show "length (write_minified_val v) = find_min_size v"
    by (simp add: write_minified_val_def find_min_size_cases)
  have "unat (ucast v :: u32) = unat v"
    using assms by (simp add: unsigned_ucast_eq take_bit_nat_eq_self)
  then show "(ucast v :: u32) = 0 \<longleftrightarrow> v = 0" by (metis unat_eq_0)
qed

lemma fcs_bytes_read:
  assumes n_def: "n = find_fcs_field_size v s"
  shows "\<exists>fb. write_fcs v n = Some fb \<and> length fb = n
     \<and> (if n = 2 then from_le_bytes fb + 256 else from_le_bytes fb) = v"
proof -
  have v64: "unat v < 2 ^ 64" using unsigned_less [of v] by simp
  have n: "n = (if s \<and> unat v \<le> 255 then 1 else if 256 \<le> unat v \<and> unat v \<le> 65791 then 2
      else if unat v \<le> 4294967295 then 4 else 8)"
    by (simp add: n_def find_fcs_field_size_def word_le_nat_alt)
  consider "n = 1" "unat v < 2 ^ 8" | "n = 2" "256 \<le> unat v" "unat v \<le> 65791"
    | "n = 4" "unat v < 2 ^ 32" | "n = 8"
    using n by (cases "s \<and> unat v \<le> 255"; cases "256 \<le> unat v \<and> unat v \<le> 65791"; cases "unat v \<le> 4294967295") auto
  then show ?thesis
  proof cases
    case 2
    have "unat (v - 256) = unat v - 256" using 2 by (simp add: unat_sub word_le_nat_alt)
    then have "unat (v - 256) < 2 ^ (8 * 2)" using 2 by simp
    then show ?thesis using 2 from_le_short [of "v - 256" 2, where 'a = 64]
      by (simp add: write_fcs_def)
  qed (use v64 in \<open>auto simp: write_fcs_def from_le_short from_to_le_bytes\<close>)
qed

lemma fcs_part:
  assumes "case fcs of None \<Rightarrow> fb = [] | Some v \<Rightarrow> write_fcs v (find_fcs_field_size v s) = Some fb"
  shows "(case fcs of None \<Rightarrow> 0 | Some v \<Rightarrow> find_fcs_field_size v s) = length fb"
    "(if length fb = 2 then from_le_bytes fb + 256 else from_le_bytes fb) = (case fcs of None \<Rightarrow> 0 | Some v \<Rightarrow> v)"
    "(length fb \<noteq> 0) = (fcs \<noteq> None)"
proof -
  have nz: "find_fcs_field_size v s \<noteq> 0" for v by (simp add: find_fcs_field_size_def)
  show len: "(case fcs of None \<Rightarrow> 0 | Some v \<Rightarrow> find_fcs_field_size v s) = length fb"
    and "(if length fb = 2 then from_le_bytes fb + 256 else from_le_bytes fb) = (case fcs of None \<Rightarrow> 0 | Some v \<Rightarrow> v)"
    using assms fcs_bytes_read [OF refl, of "the fcs" s] by (cases fcs; fastforce simp: from_le_Nil)+
  show "(length fb \<noteq> 0) = (fcs \<noteq> None)"
  proof (cases fcs)
    case (Some v)
    with len nz [of v] show ?thesis by simp
  qed (use assms in simp)
qed

text \<open>The window byte the encoder writes is read back as a power of two that covers the window.\<close>

lemma next_power_of_two_log:
  assumes "unat w \<le> 2 ^ 41"
  shows "\<exists>log. next_power_of_two_log w = Some log \<and> log \<le> 41 \<and> unat w \<le> 2 ^ log"
proof (cases "unat w \<le> 1")
  case True
  then show ?thesis by (auto simp: next_power_of_two_log_def)
next
  case False
  then have pos: "0 < unat w - 1" by simp
  have "ilog2 (unat w - 1) < 41" using ilog2_range [of 0 "unat w - 1" 41] assms False by auto
  moreover have "unat w \<le> 2 ^ Suc (ilog2 (unat w - 1))" using ilog2_bounds [OF pos] by linarith
  ultimately show ?thesis using False assms by (auto simp: next_power_of_two_log_def Let_def)
qed

lemma window_byte_read:
  assumes "e \<le> 31" "1 \<le> e" "\<not> single_segment_flag (fh_descriptor fh)"
    "fh_window_descriptor fh = push_bit 3 (of_nat e)"
  shows "window_size fh = Ok (2 ^ (10 + e))"
proof -
  let ?b = "push_bit 3 (of_nat e) :: u8"
  have bits: "bit (of_nat e :: u8) i \<Longrightarrow> i < 5" for i
    using assms(1) bit_nat_bound [of e i 5] by (auto simp: bit_of_nat_iff)
  have "drop_bit 3 ?b = of_nat e"
    by (rule bit_word_eqI) (auto simp: bit_drop_bit_eq bit_push_bit_iff dest: bits)
  then have exp: "unat (drop_bit 3 ?b) = e" using assms(1) by (simp add: unat_of_nat)
  have "(7 :: u8) = mask 3" by (simp add: mask_eq_exp_minus_1)
  then have man: "?b AND 7 = 0" by (intro bit_word_eqI) (simp only: bit_and_iff bit_mask_iff bit_push_bit_iff, auto)
  have pow: "unat (2 ^ (10 + e) :: u64) = 2 ^ (10 + e)"
    using assms(1) by (intro unat_power_u64) simp
  have "(2 :: nat) ^ 10 \<le> 2 ^ (10 + e)" "(2 :: nat) ^ (10 + e) \<le> 2 ^ 41"
    using assms(1) by (intro power_increasing; simp)+
  then have "MIN_WINDOW_SIZE \<le> 2 ^ (10 + e)" "2 ^ (10 + e) < MAX_WINDOW_SIZE"
    unfolding word_le_nat_alt word_less_nat_alt pow
    by (simp_all add: MIN_WINDOW_SIZE_def MAX_WINDOW_SIZE_def push_bit_eq_mult)
  then show ?thesis
    using assms(3,4) by (simp add: window_size_def exp man Let_def)
qed

text \<open>The parts of a serialized header.\<close>

lemma serialize_parts:
  assumes ser: "serialize h [] = Some bytes"
    and win: "\<not> efh_single_segment h \<longrightarrow> (\<forall>w. efh_window_size h = Some w \<longrightarrow> unat w \<le> 2 ^ 41)"
  shows "\<exists>d wb db fb e w. descriptor h = Some d
     \<and> bytes = (if efh_magicless h then [] else to_le_bytes 4 MAGIC_NUM) @ d # wb @ db @ fb
     \<and> (if efh_single_segment h then wb = []
        else efh_window_size h = Some w \<and> wb = [push_bit 3 (of_nat e)] \<and> 1 \<le> e \<and> e \<le> 31 \<and> unat w \<le> 2 ^ (10 + e))
     \<and> db = (case efh_dictionary_id h of None \<Rightarrow> [] | Some v \<Rightarrow> write_minified_val v)
     \<and> (case efh_frame_content_size h of None \<Rightarrow> fb = []
        | Some v \<Rightarrow> write_fcs v (find_fcs_field_size v (efh_single_segment h)) = Some fb)"
proof -
  define magic where "magic = (if efh_magicless h then [] else to_le_bytes 4 MAGIC_NUM)"
  define db where "db = (case efh_dictionary_id h of None \<Rightarrow> [] | Some v \<Rightarrow> write_minified_val v)"
  obtain d where d: "descriptor h = Some d"
    using ser by (auto simp: serialize_def Let_def bind_eq_Some_conv)
  have rest: "\<exists>fb. bytes = magic @ d # wb @ db @ fb \<and> (case efh_frame_content_size h of None \<Rightarrow> fb = []
      | Some v \<Rightarrow> write_fcs v (find_fcs_field_size v (efh_single_segment h)) = Some fb)"
    if "window_byte h = Some wb" for wb
    using ser that d unfolding serialize_def
    by (cases "efh_frame_content_size h"; cases "efh_dictionary_id h") (auto simp: Let_def magic_def db_def)
  show ?thesis
  proof (cases "efh_single_segment h")
    case True
    then obtain fb where "bytes = magic @ d # [] @ db @ fb"
      "case efh_frame_content_size h of None \<Rightarrow> fb = []
       | Some v \<Rightarrow> write_fcs v (find_fcs_field_size v (efh_single_segment h)) = Some fb"
      using rest [of "[]"] by (auto simp: window_byte_def)
    then show ?thesis
      using True d unfolding magic_def db_def
      by (intro exI [of _ d] exI [of _ "[]"] exI exI [of _ fb] conjI) auto
  next
    case False
    then obtain w where w: "efh_window_size h = Some w" using descriptor_announces(7) [OF d] by blast
    obtain log where log: "next_power_of_two_log w = Some log" "log \<le> 41" "unat w \<le> 2 ^ log"
      using next_power_of_two_log [of w] win False w by blast
    define e where "e = (if log > 10 then log - 10 else 1)"
    have "(2 :: nat) ^ log \<le> 2 ^ (10 + e)" by (rule power_increasing) (simp_all add: e_def)
    then have "unat w \<le> 2 ^ (10 + e)" using log(3) by (rule order_trans [rotated])
    then have e: "1 \<le> e" "e \<le> 31" "unat w \<le> 2 ^ (10 + e)" using log(2) by (auto simp: e_def)
    have "(if log > 10 then of_nat (log - 10) else 1 :: u8) = of_nat e" by (simp add: e_def)
    then have "window_byte h = Some [push_bit 3 (of_nat e)]"
      using False w log(1) by (simp add: window_byte_def Let_def)
    from rest [OF this] obtain fb where "bytes = magic @ d # [push_bit 3 (of_nat e)] @ db @ fb"
      "case efh_frame_content_size h of None \<Rightarrow> fb = []
       | Some v \<Rightarrow> write_fcs v (find_fcs_field_size v (efh_single_segment h)) = Some fb" by blast
    then show ?thesis
      using False w d e unfolding magic_def db_def
      by (intro exI [of _ d] exI [of _ "[push_bit 3 (of_nat e)]"] exI exI [of _ fb] exI [of _ e] exI [of _ w] conjI) auto
  qed
qed

section \<open>Properties\<close>

text \<open>
  C10. Frame headers round-trip, with and without the magic number: a header with a window of at most 2 TiB, or of a single-segment
  frame, that the encoder serializes is parsed completely by the decoder, with the same flags, content size (declared exactly when
  the encoder wrote one), dictionary id (an id of zero reads as absent) and a window that is a power of two covering the encoder's,
  or the content size of a single-segment frame.
\<close>

theorem frame_header_roundtrip:
  assumes ser: "serialize h [] = Some bytes"
    and win: "\<not> efh_single_segment h \<longrightarrow> (\<forall>w. efh_window_size h = Some w \<longrightarrow> unat w \<le> 2 ^ 41)"
  shows "\<exists>fh. read_frame_header_with_format (efh_magicless h) (bytes @ rest) = (rest, Ok (fh, length bytes))
     \<and> single_segment_flag (fh_descriptor fh) = efh_single_segment h
     \<and> content_checksum_flag (fh_descriptor fh) = efh_content_checksum h
     \<and> fcs_declared fh = (efh_frame_content_size h \<noteq> None)
     \<and> fh_frame_content_size fh = (case efh_frame_content_size h of None \<Rightarrow> 0 | Some v \<Rightarrow> v)
     \<and> fh_dict_id fh = (case efh_dictionary_id h of None \<Rightarrow> None | Some v \<Rightarrow> if v = 0 then None else Some (ucast v))
     \<and> (if efh_single_segment h then window_size fh = Ok (fh_frame_content_size fh)
        else \<exists>k w. window_size fh = Ok (2 ^ k) \<and> efh_window_size h = Some w \<and> k \<le> 41 \<and> unat w \<le> 2 ^ k)"
proof -
  obtain d wb db fb e w where d: "descriptor h = Some d"
    and bytes: "bytes = (if efh_magicless h then [] else to_le_bytes 4 MAGIC_NUM) @ d # wb @ db @ fb"
    and wb: "if efh_single_segment h then wb = []
        else efh_window_size h = Some w \<and> wb = [push_bit 3 (of_nat e)] \<and> 1 \<le> e \<and> e \<le> 31 \<and> unat w \<le> 2 ^ (10 + e)"
    and db: "db = (case efh_dictionary_id h of None \<Rightarrow> [] | Some v \<Rightarrow> write_minified_val v)"
    and fb: "case efh_frame_content_size h of None \<Rightarrow> fb = []
        | Some v \<Rightarrow> write_fcs v (find_fcs_field_size v (efh_single_segment h)) = Some fb"
    using serialize_parts [OF ser win] by (elim exE conjE) (rule that; assumption)
  note ann = descriptor_announces [OF d]
  define fh where "fh = parsed_fields d wb db fb"
  have fcs: "frame_content_size_bytes d = Ok (length fb)"
      "(if length fb = 2 then from_le_bytes fb + 256 else from_le_bytes fb)
        = (case efh_frame_content_size h of None \<Rightarrow> 0 | Some v \<Rightarrow> v)"
      "(length fb \<noteq> 0) = (efh_frame_content_size h \<noteq> None)"
    using fcs_part [OF fb] ann(2) by simp_all
  have dict: "dictionary_id_bytes d = Ok (length db)"
      "fh_dict_id fh = (case efh_dictionary_id h of None \<Rightarrow> None | Some v \<Rightarrow> if v = 0 then None else Some (ucast v))"
    using db ann(1) ann(8) dict_id_bytes_read
    by (auto simp: fh_def parsed_fields_def from_le_Nil Let_def split: option.splits)
  have seg: "length wb = (if single_segment_flag d then 0 else 1)" using wb ann(3) by (auto split: if_splits)
  have parsed: "read_frame_header_with_format True (d # wb @ db @ fb @ rest) = (rest, Ok (fh, header_len d))"
    unfolding fh_def by (rule parse_after_magic [OF seg dict(1) fcs(1) ann(5)])
  have len: "header_len d = length (d # wb @ db @ fb)" using seg dict(1) fcs(1) by (simp add: header_len_def)
  have "read_frame_header_with_format (efh_magicless h) (bytes @ rest) = (rest, Ok (fh, length bytes))"
    using parsed parse_with_magic [OF parsed] len by (simp add: bytes)
  moreover have "fh_descriptor fh = d" "fh_frame_content_size fh = (case efh_frame_content_size h of None \<Rightarrow> 0 | Some v \<Rightarrow> v)"
    using fcs(2) by (simp_all add: fh_def parsed_fields_def)
  moreover have "if efh_single_segment h then window_size fh = Ok (fh_frame_content_size fh)
      else window_size fh = Ok (2 ^ (10 + e)) \<and> efh_window_size h = Some w \<and> 10 + e \<le> 41 \<and> unat w \<le> 2 ^ (10 + e)"
    using wb ann(3) window_byte_read [of e fh] window_size_def [of fh] by (auto simp: fh_def parsed_fields_def)
  ultimately show ?thesis
    using ann(3,4) fcs dict by (auto simp: fcs_declared_def split: if_splits)
qed

theorem frame_header_roundtrip_witness:
  "\<exists>fh. read_frame_header_with_format False
        ([0x28, 0xB5, 0x2F, 0xFD, 0x64, 0x05, 0] @ [9]) = ([9], Ok (fh, length [0x28, 0xB5, 0x2F, 0xFD, 0x64, 0x05, 0 :: u8]))
     \<and> single_segment_flag (fh_descriptor fh) = True
     \<and> content_checksum_flag (fh_descriptor fh) = True
     \<and> fcs_declared fh = (Some (261 :: u64) \<noteq> None)
     \<and> fh_frame_content_size fh = (case Some 261 of None \<Rightarrow> 0 | Some v \<Rightarrow> v)
     \<and> fh_dict_id fh = None
     \<and> window_size fh = Ok (fh_frame_content_size fh)"
proof -
  let ?h = "\<lparr>efh_frame_content_size = Some 261, efh_single_segment = True, efh_content_checksum = True,
      efh_dictionary_id = None, efh_window_size = None, efh_magicless = False\<rparr>"
  have "serialize ?h [] = Some [0x28, 0xB5, 0x2F, 0xFD, 0x64, 0x05, 0]"
    by (simp add: serialize_def descriptor_def window_byte_def write_fcs_def find_fcs_field_size_def
        MAGIC_NUM_def to_le_bytes_def upt_rec)
  from frame_header_roundtrip [OF this, of "[9]"] show ?thesis by simp
qed

text \<open>
  Above 2 TiB, which the field's comment allows up to 3.75 TB, the exponent does not fit its five bits: a window of 3 TiB is written as
  one of 1 KiB.
\<close>

definition three_tib_header :: enc_frame_header where
  "three_tib_header = \<lparr>efh_frame_content_size = None, efh_single_segment = False, efh_content_checksum = False,
      efh_dictionary_id = None, efh_window_size = Some 3298534883328, efh_magicless = True\<rparr>"

lemma window_above_two_tib_wraps:
  "serialize three_tib_header [] = Some [0, 0]"
  "map_option (\<lambda>(fh, n). window_size fh) (case read_frame_header_with_format True [0, 0] of (_, Ok r) \<Rightarrow> Some r | _ \<Rightarrow> None) = Some (Ok 1024)"
proof -
  have "ilog2 3298534883327 = 41" by (rule ilog2_eqI) simp_all
  then have "next_power_of_two_log 3298534883328 = Some 42" by (simp add: next_power_of_two_log_def)
  then show "serialize three_tib_header [] = Some [0, 0]" by (simp add: three_tib_header_def serialize_def descriptor_def window_byte_def push_bit_eq_mult)
  show "map_option (\<lambda>(fh, n). window_size fh) (case read_frame_header_with_format True [0, 0] of (_, Ok r) \<Rightarrow> Some r | _ \<Rightarrow> None) = Some (Ok 1024)"
    by code_simp
qed

text \<open>
  C28. The slice parser is the \<open>Read\<close> parser: on every input and in both formats they return the same
  result, the same error for every truncation, and leave the same rest of the input.
\<close>

theorem slice_parser_equals_read_parser:
  "read_frame_header_from_slice magicless input = read_frame_header_with_format magicless input"
  by (simp only: slice_equals_read)

text \<open>The window byte splits into an exponent of five bits and a mantissa of three.\<close>

lemma window_byte_split:
  fixes b :: u8
  defines "e \<equiv> unat (drop_bit 3 b)" and "m \<equiv> unat (b AND 7)"
  shows "e < 32" "m < 8" "unat b = 8 * e + m"
proof -
  have "(7 :: u8) = mask 3" by (simp add: mask_eq_exp_minus_1)
  then have m: "m = unat b mod 8"
    unfolding m_def by (simp only: unsigned_take_bit_eq flip: take_bit_eq_mask) (simp add: take_bit_eq_mod)
  have e: "e = unat b div 8"
    unfolding e_def by (simp only: unat_drop_bit_eq) (simp add: drop_bit_eq_div)
  show "e < 32" "m < 8" "unat b = 8 * e + m" using byte_less [of b] unfolding e m by simp_all
qed

lemma unat_window_value:
  fixes w :: u64
  assumes "e < 32" "unat (m :: u8) < 8" "w = push_bit (10 + e) 1 + push_bit (10 + e) 1 div 8 * ucast m"
  shows "unat w = (8 + unat m) * 2 ^ (7 + e)"
proof -
  have "(2 :: nat) ^ (7 + e) \<le> 2 ^ 38" using assms(1) by (intro power_increasing) simp_all
  then have "(8 + unat m) * 2 ^ (7 + e) \<le> 15 * 2 ^ 38" using assms(2) by (intro mult_le_mono) simp_all
  moreover have "w = of_nat ((8 + unat m) * 2 ^ (7 + e))"
  proof -
    have "drop_bit 3 (2 ^ (10 + e) :: u64) = 2 ^ (7 + e)"
      using assms(1) by (simp add: drop_bit_exp_eq)
    then have "(2 :: u64) ^ (10 + e) div 8 = 2 ^ (7 + e)" by (simp only: drop_bit_eq_div) simp
    moreover have "(2 :: u64) ^ (10 + e) = 8 * 2 ^ (7 + e)" by (simp add: power_add)
    ultimately show ?thesis
      by (simp only: assms(3) push_bit_eq_mult) (simp add: algebra_simps)
  qed
  ultimately show ?thesis by (simp only: unat_of_nat) simp
qed

lemma window_value_maximum:
  fixes e m :: nat
  assumes "e < 32" "m < 8"
  shows "(8 + m) * 2 ^ (7 + e) < 15 * 2 ^ 38 \<longleftrightarrow> \<not> (e = 31 \<and> m = 7)"
proof (cases "e = 31")
  case True then show ?thesis using assms(2) by auto
next
  case False
  then have "(2 :: nat) ^ (7 + e) \<le> 2 ^ 37" using assms(1) by (intro power_increasing) simp_all
  then have "(8 + m) * 2 ^ (7 + e) \<le> 15 * 2 ^ 37" using assms(2) by (intro mult_le_mono) simp_all
  then show ?thesis using False by simp
qed

text \<open>
  C30. The window size of a header that is not single-segment is \<open>(8 + mantissa) * 2 ^ (7 + exponent)\<close>
  without overflow. Of the 256 window bytes only \<open>0xFF\<close> is refused, with the format's maximum as the
  size it reports, and no window byte is ever too small. A single-segment header has its content size as
  its window.
\<close>

theorem window_size_complete:
  "window_size fh =
     (if single_segment_flag (fh_descriptor fh) then Ok (fh_frame_content_size fh)
      else if fh_window_descriptor fh = 0xFF then Err (WindowTooBig MAX_WINDOW_SIZE)
      else Ok (of_nat ((8 + unat (fh_window_descriptor fh AND 7)) * 2 ^ (7 + unat (drop_bit 3 (fh_window_descriptor fh))))))"
proof (cases "single_segment_flag (fh_descriptor fh)")
  case True then show ?thesis by (simp add: window_size_def)
next
  case False
  define b e m where "b = fh_window_descriptor fh" and "e = unat (drop_bit 3 b)" and "m = b AND 7"
  define w :: u64 where "w = push_bit (10 + e) 1 + push_bit (10 + e) 1 div 8 * ucast m"
  have sp: "e < 32" "unat m < 8" "unat b = 8 * e + unat m"
    using window_byte_split [of b] by (simp_all only: e_def m_def)
  have uw: "unat w = (8 + unat m) * 2 ^ (7 + e)" using unat_window_value [OF sp(1,2) w_def] .
  have "(2 :: nat) ^ 7 \<le> 2 ^ (7 + e)" by (intro power_increasing) simp_all
  then have "8 * 2 ^ 7 \<le> (8 + unat m) * 2 ^ (7 + e)" by (intro mult_le_mono) simp_all
  then have min: "MIN_WINDOW_SIZE \<le> w" unfolding word_le_nat_alt uw by (simp add: MIN_WINDOW_SIZE_def)
  have umax: "unat MAX_WINDOW_SIZE = 15 * 2 ^ 38" by (simp add: MAX_WINDOW_SIZE_def push_bit_eq_mult)
  have "b = 0xFF \<longleftrightarrow> unat b = 255" by (simp add: word_unat_eq_iff)
  also have "\<dots> \<longleftrightarrow> e = 31 \<and> unat m = 7" using sp by presburger
  finally have ff: "b = 0xFF \<longleftrightarrow> e = 31 \<and> unat m = 7" .
  have max: "w < MAX_WINDOW_SIZE \<longleftrightarrow> b \<noteq> 0xFF"
    unfolding word_less_nat_alt uw umax window_value_maximum [OF sp(1,2)] ff ..
  have big: "w = MAX_WINDOW_SIZE" if "b = 0xFF"
  proof -
    have "e = 31" "unat m = 7" using that ff by blast+
    then show ?thesis unfolding word_unat_eq_iff uw umax by simp
  qed
  have "window_size fh = (if w < MAX_WINDOW_SIZE then Ok w else Err (WindowTooBig w))"
    using False min by (simp add: window_size_def Let_def w_def e_def m_def b_def)
  moreover have "w = of_nat ((8 + unat m) * 2 ^ (7 + e))" by (simp only: flip: uw) simp
  ultimately show ?thesis using False max big by (simp add: b_def e_def m_def)
qed

section \<open>Measuring a header from its first bytes\<close>

text \<open>The errors that say the input ended inside the header.\<close>

fun truncation_error :: "read_frame_header_error \<Rightarrow> bool" where
  "truncation_error (MagicNumberReadError _) = True"
| "truncation_error (FrameDescriptorReadError _) = True"
| "truncation_error (WindowDescriptorReadError _) = True"
| "truncation_error (DictionaryIdReadError _) = True"
| "truncation_error (FrameContentSizeReadError _) = True"
| "truncation_error _ = False"

definition truncated :: "u8 list \<times> ('a, read_frame_header_error) result \<Rightarrow> bool" where
  "truncated r \<longleftrightarrow> (case snd r of Err e \<Rightarrow> truncation_error e | _ \<Rightarrow> False)"

definition measured :: "nat \<Rightarrow> u8 list \<Rightarrow> u8 list \<times> (frame_header \<times> nat, read_frame_header_error) result \<Rightarrow> bool" where
  "measured n input r \<longleftrightarrow> truncated r = (length input < n)
     \<and> (case r of (rest, Ok (fh, k)) \<Rightarrow> k = n \<and> rest = drop n input | _ \<Rightarrow> True)"

lemma body_measured: "measured (header_len d) (d # ys) (read_frame_header_with_format True (d # ys))"
proof -
  obtain n m where n: "dictionary_id_bytes d = Ok n" "frame_content_size_bytes d = Ok m"
    using descriptor_field_sizes [of d] by auto
  show ?thesis
    unfolding read_frame_header_with_format_def read_window_def read_dict_id_def read_fcs_def read_field_take
    by (auto simp: n header_len_def check_reserved_bit_def pbind_def take_slice_def preturn_def measured_def
        truncated_def Let_def) (simp_all add: add.commute)
qed

lemma with_magic_measured:
  assumes "input = to_le_bytes 4 MAGIC_NUM @ body" "measured n body (read_frame_header_with_format True body)"
  shows "measured (4 + n) input (read_frame_header_with_format False input)"
proof -
  have "read_frame_header_with_format False input
     = (case read_frame_header_with_format True body of
          (rest, Ok (fh, k)) \<Rightarrow> (rest, Ok (fh, 4 + k)) | r \<Rightarrow> r)"
    using magic_read [of body]
    by (auto simp: assms(1) read_frame_header_with_format_def pbind_def preturn_def Let_def split: prod.splits result.splits)
  then show ?thesis using assms by (auto simp: measured_def truncated_def split: prod.splits result.splits)
qed

lemma skippable_mask: "(m :: u32) AND SKIPPABLE_MAGIC_MASK = SKIPPABLE_MAGIC_START \<longleftrightarrow> is_skippable_magic m"
proof -
  have "SKIPPABLE_MAGIC_MASK = NOT (mask 4)" by (simp add: SKIPPABLE_MAGIC_MASK_def mask_eq_exp_minus_1)
  then have "m AND SKIPPABLE_MAGIC_MASK = push_bit 4 (drop_bit 4 m)"
    by (simp add: bit_eq_iff bit_simps) auto
  moreover have "unat (push_bit 4 (drop_bit 4 m)) = 16 * (unat m div 16)"
  proof -
    have "16 * (unat m div 16) \<le> unat m" by simp
    moreover have "unat m < 2 ^ 32" using unsigned_less [of m] by simp
    ultimately have "16 * (unat m div 16) < 2 ^ 32" by (rule le_less_trans)
    then have "unat (of_nat (16 * (unat m div 16)) :: u32) = 16 * (unat m div 16)"
      by (simp only: unat_of_nat) simp
    moreover have "push_bit 4 (drop_bit 4 m) = of_nat (16 * (unat m div 16))"
      by (simp add: push_bit_eq_mult drop_bit_eq_div word_arith_nat_div)
    ultimately show ?thesis by (simp only:)
  qed
  ultimately show ?thesis
    by (auto simp: word_unat_eq_iff is_skippable_magic_def SKIPPABLE_MAGIC_START_def word_le_nat_alt)
qed

lemma header_input_needed_magic:
  assumes "4 \<le> length input" "magic = from_le_bytes (take 4 input)"
  shows "header_input_needed input False =
     (if magic \<noteq> MAGIC_NUM \<and> \<not> is_skippable_magic magic then Err (BadMagicNumber magic)
      else if length input < 5 then Ok 5
      else if magic \<noteq> MAGIC_NUM then Ok 8
      else measure_header_with_format input False)"
proof -
  have "input \<noteq> []" "min (length input) 4 = 4" using assms(1) by auto
  then show ?thesis using assms by (simp add: header_input_needed_def skippable_mask Let_def)
qed

lemma header_input_needed_measured:
  assumes "header_input_needed input magicless = Ok n"
  shows "measured n input (read_frame_header_with_format magicless input)"
proof (cases magicless)
  case True
  then show ?thesis
  proof (cases input)
    case Nil
    with True assms have "n = 1" by (simp add: header_input_needed_def )
    then show ?thesis
      by (simp add: Nil True measured_def truncated_def read_frame_header_with_format_def read_field_take take_slice_def pbind_def)
  next
    case (Cons d ys)
    then have "n = header_len d"
      using True assms by (simp add: header_input_needed_def  measure_header_with_format_def pbind_take_one preturn_def)
    then show ?thesis using body_measured [of d ys] True Cons by simp
  qed
next
  case False
  define magic :: u32 where "magic = from_le_bytes (take 4 input)"
  consider "length input < 4" | "4 \<le> length input" "magic = MAGIC_NUM" | "4 \<le> length input" "magic \<noteq> MAGIC_NUM" by linarith
  then show ?thesis
  proof cases
    case 1
    then have "n = 5" using False assms by (auto simp: header_input_needed_def  Let_def split: if_splits)
    then show ?thesis using 1
      by (simp add: False measured_def truncated_def read_frame_header_with_format_def read_magic_def read_field_take take_slice_def pbind_def)
  next
    case 2
    have "take 4 input = to_le_bytes 4 magic" using 2(1) using to_from_le_bytes [of "take 4 input", where 'a = 32] by (simp add: magic_def)
    then obtain body where body: "input = to_le_bytes 4 MAGIC_NUM @ body" 
      using 2 by (metis append_take_drop_id)
    show ?thesis
    proof (cases body)
      case Nil
      then have "n = 5"
        using assms False 2 header_input_needed_magic [OF 2(1) magic_def] by (simp add: body)
      then show ?thesis using False body Nil magic_read [of body]
        by (simp add: measured_def truncated_def read_frame_header_with_format_def read_field_take take_slice_def pbind_def preturn_def)
    next
      case (Cons d ys)
      then have "n = 4 + header_len d" using assms False 2 header_input_needed_magic [OF 2(1) magic_def] magic_read [of body]
        by (simp add: body measure_header_with_format_def slice_fields_equal_read
            pbind_def take_slice_def preturn_def)
      then show ?thesis using with_magic_measured [OF body] body_measured [of d ys] False Cons by simp
    qed
  next
    case 3
    then have "is_skippable_magic magic" "n = (if length input = 4 then 5 else 8)"
      using assms False by (auto simp: header_input_needed_magic [OF _ magic_def] split: if_splits)
    then show ?thesis using False 3
      by (auto simp: measured_def truncated_def read_frame_header_with_format_def read_magic_def read_field_take
          take_slice_def pbind_def preturn_def magic_def Let_def)
  qed
qed

text \<open>
  C29. Whatever the input holds of a header, \<open>header_input_needed\<close> returns a number that decides the
  parse: when the input is shorter the parser stops with an end-of-input error, when it is not the
  parser never reports one, and a parsed header has exactly that length and leaves the rest of the
  input after it.
\<close>

theorem header_input_needed_decides:
  assumes "header_input_needed input magicless = Ok n"
  shows "(length input < n) = truncated (read_frame_header_from_slice magicless input)
     \<and> (case read_frame_header_from_slice magicless input of
          (rest, Ok (fh, k)) \<Rightarrow> k = n \<and> rest = drop n input | _ \<Rightarrow> True)"
  using header_input_needed_measured [OF assms] unfolding measured_def slice_equals_read by simp

theorem header_input_needed_decides_witness:
  "header_input_needed [0x28, 0xB5, 0x2F, 0xFD, 0x00] False = Ok 6
     \<and> truncated (read_frame_header_from_slice False [0x28, 0xB5, 0x2F, 0xFD, 0x00])"
proof -
  have n: "header_input_needed [0x28, 0xB5, 0x2F, 0xFD, 0x00] False = Ok 6"
    by (simp add: header_input_needed_def measure_header_with_format_def take_magic_from_slice_def pbind_def take_slice_def
        preturn_def from_le_bytes_def MAGIC_NUM_def Let_def is_skippable_magic_def header_len_def single_segment_flag_def
        dictionary_id_bytes_def frame_content_size_bytes_def dict_id_flag_def frame_content_size_flag_def to_le_bytes_def
        upt_rec word_le_nat_alt)
  then show ?thesis using header_input_needed_decides [OF n] by simp
qed

end
