(* ===== verification/Fse_Table.thy ===== *)
theory Fse_Table
  imports Bit_Reader
begin

text \<open>
  The FSE decoding table of \<^verbatim>\<open>zstd/src/fse/fse_decoder.rs\<close>: its storage, the symbol spread in both
  forms, the construction of the entries, and the table's life cycle. The trait \<open>FseEntry\<close> that the
  table is generic over is a record of its operations; its contract is the locale \<open>fse_entry\<close>,
  interpreted on the two entry types of the code. The decode array holds \<open>None\<close> where the source has
  uninitialised memory; sizes and symbol counters are natural numbers, as none of them leaves the range
  of its machine type.
\<close>

section \<open>Entries\<close>

record entry =
  e_new_state :: u16
  e_symbol :: u8
  e_num_bits :: u8

record seq_symbol =
  ss_new_state :: u16
  ss_num_bits :: u8
  ss_num_additional_bits :: u8
  ss_base_value :: u32

text \<open>The trait \<open>FseEntry\<close>, as the operations a generic function receives.\<close>

record 'e fse_entry_ops =
  fe_num_bits :: "'e \<Rightarrow> u8"
  fe_new_state :: "'e \<Rightarrow> u16"
  fe_with_seq_meta :: "'e \<Rightarrow> u32 \<Rightarrow> u8 \<Rightarrow> 'e"
  fe_from_raw :: "u16 \<Rightarrow> u8 \<Rightarrow> u8 \<Rightarrow> 'e"

definition entry_ops :: "entry fse_entry_ops" where
  "entry_ops = \<lparr>fe_num_bits = e_num_bits, fe_new_state = e_new_state,
     fe_with_seq_meta = (\<lambda>e base_value num_additional_bits. e),
     fe_from_raw = (\<lambda>ns s nb. \<lparr>e_new_state = ns, e_symbol = s, e_num_bits = nb\<rparr>)\<rparr>"

definition seq_symbol_ops :: "seq_symbol fse_entry_ops" where
  "seq_symbol_ops = \<lparr>fe_num_bits = ss_num_bits, fe_new_state = ss_new_state,
     fe_with_seq_meta = (\<lambda>e base_value num_additional_bits.
        e\<lparr>ss_base_value := base_value, ss_num_additional_bits := num_additional_bits\<rparr>),
     fe_from_raw = (\<lambda>ns s nb.
        \<lparr>ss_new_state = ns, ss_num_bits = nb, ss_num_additional_bits = 0, ss_base_value = 0\<rparr>)\<rparr>"

datatype seq_meta = NoMeta | Packed "u32 list" | Offsets

section \<open>The table\<close>

record 'e fse_table =
  ft_max_symbol :: u8
  ft_decode :: "'e option list"
  ft_decode_len :: nat
  ft_symbol_spread_buffer :: "u8 list"
  ft_accuracy_log :: nat
  ft_symbol_probabilities :: "int list"

datatype fse_table_error =
    AccLogIsZero
  | AccLogTooBig (acc_got: nat) (acc_max: nat)
  | FseGetBitsError get_bits_error
  | ProbabilityCounterMismatch (sum_got: nat) (expected_sum: nat) (mismatch_probabilities: "int list")
  | TooManySymbols (tms_got: nat)
  | InvalidProbability (ip_value: int) (ip_table_size: nat) (ip_accuracy_log: nat)
  | TableInvariantViolation (tiv_prob: int) (tiv_symbol: u8) (tiv_num_bits: u8) (tiv_accuracy_log: nat)

definition ACC_LOG_OFFSET :: nat where
  "ACC_LOG_OFFSET = 5"

definition ENTRY_MAX_ACCURACY_LOG :: nat where
  "ENTRY_MAX_ACCURACY_LOG = 16"

definition FSE_FAST_SPREAD_BUF :: nat where
  "FSE_FAST_SPREAD_BUF = 512 + 8"

text \<open>\<open>CAP\<close> is the const generic: the length of the decode array.\<close>

definition fse_table_new :: "nat \<Rightarrow> u8 \<Rightarrow> 'e fse_table" where
  "fse_table_new CAP max_symbol =
     \<lparr>ft_max_symbol = max_symbol, ft_decode = replicate CAP None, ft_decode_len = 0,
      ft_symbol_spread_buffer = [], ft_accuracy_log = 0, ft_symbol_probabilities = []\<rparr>"

definition fse_reset :: "'e fse_table \<Rightarrow> 'e fse_table" where
  "fse_reset t = t\<lparr>ft_symbol_probabilities := [], ft_symbol_spread_buffer := [], ft_decode_len := 0,
                   ft_accuracy_log := 0\<rparr>"

definition reinit_from :: "'e fse_table \<Rightarrow> 'e fse_table \<Rightarrow> 'e fse_table" where
  "reinit_from t other =
     (fse_reset t)\<lparr>ft_decode := ft_decode other, ft_decode_len := ft_decode_len other,
                   ft_accuracy_log := ft_accuracy_log other\<rparr>"

definition is_populated :: "'e fse_table \<Rightarrow> bool" where
  "is_populated t \<longleftrightarrow> ft_decode_len t \<noteq> 0"

text \<open>\<open>highest_bit_set\<close> panics on zero.\<close>

definition highest_bit_set :: "nat \<Rightarrow> nat option" where
  "highest_bit_set x = (if x > 0 then Some (Suc (ilog2 x)) else None)"

section \<open>Symbol spread\<close>

text \<open>\<open>p &= table_size - 1\<close> with a power of two for \<open>table_size\<close>.\<close>

definition spread_step :: "nat \<Rightarrow> nat" where
  "spread_step table_size = drop_bit 1 table_size + drop_bit 3 table_size + 3"

definition next_position :: "nat \<Rightarrow> nat \<Rightarrow> nat" where
  "next_position p table_size = (p + spread_step table_size) AND (table_size - 1)"

text \<open>Writing into a slice: \<open>None\<close> is the out-of-range panic.\<close>

definition store :: "'a list \<Rightarrow> nat \<Rightarrow> 'a \<Rightarrow> 'a list option" where
  "store xs i x = (if i < length xs then Some (xs[i := x]) else None)"

definition copy_into :: "'a list \<Rightarrow> nat \<Rightarrow> 'a list \<Rightarrow> 'a list option" where
  "copy_into buf pos bytes =
     (if pos + length bytes \<le> length buf
      then Some (take pos buf @ bytes @ drop (pos + length bytes) buf) else None)"

text \<open>Pass 1: the symbols of probability \<open>-1\<close>, from the top of the table down.\<close>

fun place_low_probability ::
  "int list \<Rightarrow> nat \<Rightarrow> nat \<Rightarrow> u8 list \<Rightarrow> nat list \<Rightarrow> (nat \<times> u8 list \<times> nat list) option" where
  "place_low_probability [] symbol negative_idx spread symbol_next = Some (negative_idx, spread, symbol_next)"
| "place_low_probability (prob # probs) symbol negative_idx spread symbol_next =
     (if prob = -1 then
        (if negative_idx = 0 then None else
         Option.bind (store spread (negative_idx - 1) (of_nat symbol)) (\<lambda>spread.
         Option.bind (store symbol_next symbol 1) (\<lambda>symbol_next.
           place_low_probability probs (Suc symbol) (negative_idx - 1) spread symbol_next)))
      else place_low_probability probs (Suc symbol) negative_idx spread symbol_next)"

text \<open>Pass 2 without low-probability symbols: lay the symbols down in order, eight bytes at a time.\<close>

function lay_eights :: "nat \<Rightarrow> nat \<Rightarrow> nat \<Rightarrow> u8 list \<Rightarrow> u8 list \<Rightarrow> u8 list option" where
  "lay_eights i n pos bytes in_order =
     (if i < n then Option.bind (copy_into in_order (pos + i) bytes) (lay_eights (i + 8) n pos bytes)
      else Some in_order)"
  by pat_completeness auto
termination by (relation "measure (\<lambda>(i, n, pos, bytes, in_order). n - i)") auto

definition symbol_eight :: "nat \<Rightarrow> u8 list" where
  "symbol_eight symbol = to_le_bytes 8 (ucast (of_nat symbol :: u8) * (0x0101010101010101 :: u64))"

fun lay_in_order ::
  "int list \<Rightarrow> nat \<Rightarrow> nat \<Rightarrow> u8 list \<Rightarrow> nat list \<Rightarrow> (nat \<times> u8 list \<times> nat list) option" where
  "lay_in_order [] symbol pos in_order symbol_next = Some (pos, in_order, symbol_next)"
| "lay_in_order (prob # probs) symbol pos in_order symbol_next =
     (if prob \<le> 0 then lay_in_order probs (Suc symbol) pos in_order symbol_next
      else
        let n = nat prob; bytes = symbol_eight symbol in
        Option.bind (store symbol_next symbol n) (\<lambda>symbol_next.
        Option.bind (copy_into in_order pos bytes) (\<lambda>in_order.
        Option.bind (lay_eights 8 n pos bytes in_order) (\<lambda>in_order.
          lay_in_order probs (Suc symbol) (pos + n) in_order symbol_next))))"

text \<open>Then distribute them two at a time.\<close>

function distribute_pairs :: "nat \<Rightarrow> nat \<Rightarrow> nat \<Rightarrow> u8 list \<Rightarrow> u8 list \<Rightarrow> u8 list option" where
  "distribute_pairs table_size s position in_order spread =
     (if s < table_size then
        let table_mask = table_size - 1; step = spread_step table_size in
        if s + 1 < length in_order then
          Option.bind (store spread position (in_order ! s)) (\<lambda>spread.
          Option.bind (store spread ((position + step) AND table_mask) (in_order ! (s + 1))) (\<lambda>spread.
            distribute_pairs table_size (s + 2) ((position + 2 * step) AND table_mask) in_order spread))
        else None
      else Some spread)"
  by pat_completeness auto
termination by (relation "measure (\<lambda>(table_size, s, position, in_order, spread). table_size - s)") auto

definition spread_fast :: "int list \<Rightarrow> nat \<Rightarrow> u8 list \<Rightarrow> nat list \<Rightarrow> (u8 list \<times> nat list) option" where
  "spread_fast probs table_size spread symbol_next =
     Option.bind (lay_in_order probs 0 0 (replicate FSE_FAST_SPREAD_BUF 0) symbol_next) (\<lambda>(_, in_order, symbol_next).
     Option.bind (distribute_pairs table_size 0 0 in_order spread) (\<lambda>spread. Some (spread, symbol_next)))"

text \<open>
  Pass 2 with low-probability symbols: one slot at a time, skipping the slots they took. The inner
  \<open>while\<close> has no bound in the source, so its model has no result where the loop does not end.
\<close>

partial_function (option) skip_taken :: "nat \<Rightarrow> nat \<Rightarrow> nat \<Rightarrow> nat option" where
  "skip_taken table_size negative_idx position =
     (if position \<ge> negative_idx then skip_taken table_size negative_idx (next_position position table_size)
      else Some position)"

fun place_times :: "nat \<Rightarrow> nat \<Rightarrow> nat \<Rightarrow> u8 \<Rightarrow> nat \<Rightarrow> u8 list \<Rightarrow> (nat \<times> u8 list) option" where
  "place_times table_size negative_idx 0 symbol position spread = Some (position, spread)"
| "place_times table_size negative_idx (Suc k) symbol position spread =
     Option.bind (store spread position symbol) (\<lambda>spread.
     Option.bind (skip_taken table_size negative_idx (next_position position table_size)) (\<lambda>position.
       place_times table_size negative_idx k symbol position spread))"

fun spread_slow ::
  "int list \<Rightarrow> nat \<Rightarrow> nat \<Rightarrow> nat \<Rightarrow> nat \<Rightarrow> u8 list \<Rightarrow> nat list \<Rightarrow> (u8 list \<times> nat list) option" where
  "spread_slow [] symbol table_size negative_idx position spread symbol_next = Some (spread, symbol_next)"
| "spread_slow (prob # probs) symbol table_size negative_idx position spread symbol_next =
     (if prob \<le> 0 then spread_slow probs (Suc symbol) table_size negative_idx position spread symbol_next
      else
        Option.bind (store symbol_next symbol (nat prob)) (\<lambda>symbol_next.
        Option.bind (place_times table_size negative_idx (nat prob) (of_nat symbol) position spread) (\<lambda>(position, spread).
          spread_slow probs (Suc symbol) table_size negative_idx position spread symbol_next)))"

definition spread_symbols :: "int list \<Rightarrow> nat \<Rightarrow> (u8 list \<times> nat list) option" where
  "spread_symbols probs table_size =
     Option.bind (place_low_probability probs 0 table_size (replicate table_size 0) (replicate 256 0))
       (\<lambda>(negative_idx, spread, symbol_next).
          if negative_idx = table_size then spread_fast probs table_size spread symbol_next
          else spread_slow probs 0 table_size negative_idx 0 spread symbol_next)"

section \<open>Entries of the table\<close>

text \<open>The state transition of a state whose symbol counter is \<open>next_state\<close>.\<close>

definition transition_bits :: "nat \<Rightarrow> nat \<Rightarrow> u8" where
  "transition_bits accuracy_log high_bit = ucast ((of_nat (accuracy_log + 1) :: u32) - of_nat high_bit)"

fun attach_meta :: "'e fse_entry_ops \<Rightarrow> seq_meta \<Rightarrow> u8 \<Rightarrow> 'e \<Rightarrow> 'e" where
  "attach_meta ops NoMeta symbol e = e"
| "attach_meta ops (Packed packed) symbol e =
     (let m = (if unat symbol < length packed then packed ! unat symbol else 0)
      in fe_with_seq_meta ops e (m AND 0x00FFFFFF) (ucast (drop_bit 24 m)))"
| "attach_meta ops Offsets symbol e =
     (if symbol < 32 then fe_with_seq_meta ops e (push_bit (unat symbol) 1) symbol else e)"

fun build_entries ::
  "'e fse_entry_ops \<Rightarrow> seq_meta \<Rightarrow> nat \<Rightarrow> int list \<Rightarrow> u8 list \<Rightarrow> nat \<Rightarrow> nat list \<Rightarrow> 'e option list
     \<Rightarrow> 'e option list \<times> (unit, fse_table_error) result" where
  "build_entries ops meta accuracy_log probs [] state_idx symbol_next decode = (decode, Ok ())"
| "build_entries ops meta accuracy_log probs (symbol # spread) state_idx symbol_next decode =
     (let next_state = symbol_next ! unat symbol;
          symbol_next = symbol_next[unat symbol := next_state + 1] in
      case highest_bit_set next_state of
        None \<Rightarrow> (decode, Panic)
      | Some high_bit \<Rightarrow>
          let nb = transition_bits accuracy_log high_bit in
          if unat nb > accuracy_log then
            (decode, rbind (index_of probs (unat symbol)) (\<lambda>prob.
               Err (TableInvariantViolation prob symbol nb accuracy_log)))
          else if next_state * 2 ^ unat nb < 2 ^ accuracy_log then (decode, Panic)
          else
            let new_state = next_state * 2 ^ unat nb - 2 ^ accuracy_log;
                e = attach_meta ops meta symbol (fe_from_raw ops (of_nat new_state) symbol nb) in
            case store decode state_idx (Some e) of
              None \<Rightarrow> (decode, Panic)
            | Some decode \<Rightarrow> build_entries ops meta accuracy_log probs spread (Suc state_idx) symbol_next decode)"

text \<open>\<open>build_decoding_table_inner\<close> borrows the table's fields one by one and writes three of them.\<close>

definition build_decoding_table_inner ::
  "'e fse_entry_ops \<Rightarrow> seq_meta \<Rightarrow> 'e fse_table \<Rightarrow> 'e fse_table \<times> (unit, fse_table_error) result" where
  "build_decoding_table_inner ops meta t =
     (let probs = ft_symbol_probabilities t; accuracy_log = ft_accuracy_log t;
          nb_symbols = length probs; CAP = length (ft_decode t) in
      if nb_symbols > unat (ft_max_symbol t) + 1 then (t, Err (TooManySymbols nb_symbols))
      else
        let table_size = 2 ^ accuracy_log in
        if table_size > CAP then (t, Err (AccLogTooBig accuracy_log (ilog2 CAP)))
        else case spread_symbols probs table_size of
          None \<Rightarrow> (t, Panic)
        | Some (spread, symbol_next) \<Rightarrow>
            (case build_entries ops meta accuracy_log probs spread 0 symbol_next (ft_decode t) of
               (decode, Ok _) \<Rightarrow>
                 (t\<lparr>ft_symbol_spread_buffer := spread, ft_decode := decode, ft_decode_len := table_size\<rparr>, Ok ())
             | (decode, r) \<Rightarrow>
                 (t\<lparr>ft_symbol_spread_buffer := spread, ft_decode := decode, ft_decode_len := 0\<rparr>, r)))"

definition build_decoding_table_meta ::
  "'e fse_entry_ops \<Rightarrow> seq_meta \<Rightarrow> 'e fse_table \<Rightarrow> 'e fse_table \<times> (unit, fse_table_error) result" where
  "build_decoding_table_meta ops meta t =
     (case build_decoding_table_inner ops meta t of
        (t, Err e) \<Rightarrow> (fse_reset t, Err e)
      | r \<Rightarrow> r)"

text \<open>The sum of the probabilities, \<open>-1\<close> counting as one slot.\<close>

definition prob_slots :: "int \<Rightarrow> nat" where
  "prob_slots p = (if p = -1 then 1 else nat p)"

definition build_from_probabilities ::
  "'e fse_entry_ops \<Rightarrow> nat \<Rightarrow> int list \<Rightarrow> 'e fse_table \<Rightarrow> 'e fse_table \<times> (unit, fse_table_error) result" where
  "build_from_probabilities ops acc_log probs t =
     (if acc_log = 0 then (t, Err AccLogIsZero)
      else if acc_log > ENTRY_MAX_ACCURACY_LOG then (t, Err (AccLogTooBig acc_log ENTRY_MAX_ACCURACY_LOG))
      else if length probs > unat (ft_max_symbol t) + 1 then (t, Err (TooManySymbols (length probs)))
      else
        let table_size = 2 ^ acc_log in
        case find (\<lambda>p. p < -1 \<or> p > int table_size) probs of
          Some p \<Rightarrow> (t, Err (InvalidProbability p table_size acc_log))
        | None \<Rightarrow>
            let probability_sum = sum_list (map prob_slots probs) in
            if probability_sum \<noteq> table_size
            then (t, Err (ProbabilityCounterMismatch probability_sum table_size probs))
            else build_decoding_table_meta ops NoMeta
                   (t\<lparr>ft_symbol_probabilities := probs, ft_accuracy_log := acc_log\<rparr>))"

section \<open>Sequence tables\<close>

definition enrich_entry :: "(u8 \<Rightarrow> u32 \<times> u8) \<Rightarrow> u8 \<Rightarrow> seq_symbol option \<Rightarrow> seq_symbol option" where
  "enrich_entry f symbol e =
     map_option (\<lambda>e. e\<lparr>ss_base_value := fst (f symbol), ss_num_additional_bits := snd (f symbol)\<rparr>) e"

text \<open>The enrich loops walk the live span and the spread buffer together.\<close>

definition enrich :: "(u8 \<Rightarrow> u32 \<times> u8) \<Rightarrow> seq_symbol fse_table \<Rightarrow> seq_symbol fse_table option" where
  "enrich f t =
     (let n = ft_decode_len t in
      if n \<le> length (ft_symbol_spread_buffer t) \<and> n \<le> length (ft_decode t) then
        Some (t\<lparr>ft_decode := map2 (enrich_entry f) (take n (ft_symbol_spread_buffer t)) (take n (ft_decode t))
                              @ drop n (ft_decode t)\<rparr>)
      else None)"

definition enrich_with_packed_seq_meta :: "u32 list \<Rightarrow> seq_symbol fse_table \<Rightarrow> seq_symbol fse_table option" where
  "enrich_with_packed_seq_meta packed =
     enrich (\<lambda>symbol. let sym = unat symbol in
       if sym < length packed then (packed ! sym AND 0x00FFFFFF, ucast (drop_bit 24 (packed ! sym))) else (0, 0))"

definition enrich_for_offsets :: "seq_symbol fse_table \<Rightarrow> seq_symbol fse_table option" where
  "enrich_for_offsets = enrich (\<lambda>code. if code < 32 then (push_bit (unat code) 1, code) else (0, 0))"

definition build_rle :: "u8 \<Rightarrow> seq_symbol fse_table \<Rightarrow> seq_symbol fse_table option" where
  "build_rle symbol t =
     (let t = fse_reset t in
      map_option (\<lambda>decode. t\<lparr>ft_symbol_spread_buffer := [symbol], ft_decode := decode, ft_decode_len := 1\<rparr>)
        (store (ft_decode t) 0
           (Some \<lparr>ss_new_state = 0, ss_num_bits = 0, ss_num_additional_bits = 0, ss_base_value = 0\<rparr>)))"

end
