(* ===== verification/Fse_Walk.thy ===== *)
theory Fse_Walk
  imports Prelude "HOL-Library.Multiset"
begin

text \<open>
  The arithmetic behind the symbol spread of an FSE table: a walk with an odd step visits every slot of
  a table whose size is a power of two exactly once, writing a list of values along distinct slots
  keeps them as a multiset, and the state transitions of a symbol cut the table into intervals.
\<close>

section \<open>The walk\<close>

definition walk :: "nat \<Rightarrow> nat \<Rightarrow> nat \<Rightarrow> nat" where
  "walk step table_size i = (i * step) mod table_size"

lemma walk_0 [simp]: "walk step n 0 = 0"
  by (simp add: walk_def)

lemma walk_less: "0 < n \<Longrightarrow> walk step n i < n"
  by (simp add: walk_def)

lemma walk_Suc: "walk step n (Suc i) = (walk step n i + step) mod n"
  by (simp add: walk_def mod_simps algebra_simps)

lemma walk_period: "walk step n (n * j) = 0"
  by (simp add: walk_def)

lemma walk_inj:
  assumes "odd step"
  shows "inj_on (walk step (2 ^ k)) {..<2 ^ k}"
proof (rule linorder_inj_onI)
  fix i j :: nat
  assume ij: "i < j" "i \<in> {..<2 ^ k}" "j \<in> {..<2 ^ k}"
  have "coprime (2 ^ k) step" using assms by (simp add: coprime_left_2_iff_odd)
  show "walk step (2 ^ k) i \<noteq> walk step (2 ^ k) j"
  proof
    assume "walk step (2 ^ k) i = walk step (2 ^ k) j"
    then have "(j * step) mod 2 ^ k = (i * step) mod 2 ^ k" by (simp add: walk_def)
    then have "2 ^ k dvd j * step - i * step" using ij by (simp add: mod_eq_dvd_iff_nat)
    then have "2 ^ k dvd (j - i) * step" by (simp add: diff_mult_distrib)
    then have "2 ^ k dvd j - i" using \<open>coprime (2 ^ k) step\<close> by (simp add: coprime_dvd_mult_left_iff)
    with ij show False by (auto dest: dvd_imp_le)
  qed
qed auto

lemma walk_slots:
  assumes "odd step"
  shows "distinct (map (walk step (2 ^ k)) [0..<2 ^ k])"
    "set (map (walk step (2 ^ k)) [0..<2 ^ k]) = {..<2 ^ k}"
proof -
  have inj: "inj_on (walk step (2 ^ k)) {..<2 ^ k}" using assms by (rule walk_inj)
  then show "distinct (map (walk step (2 ^ k)) [0..<2 ^ k])"
    by (simp add: distinct_map atLeast_upt)
  have "walk step (2 ^ k) ` {..<2 ^ k} \<subseteq> {..<2 ^ k}" by (auto simp: walk_less)
  then have "walk step (2 ^ k) ` {..<2 ^ k} = {..<2 ^ k}"
    using inj by (intro card_subset_eq) (simp_all add: card_image)
  then show "set (map (walk step (2 ^ k)) [0..<2 ^ k]) = {..<2 ^ k}"
    by (simp add: atLeast_upt)
qed

lemma and_mask_mod: "(x :: nat) AND (2 ^ k - 1) = x mod 2 ^ k"
  by (metis mask_eq_exp_minus_1 take_bit_eq_mask take_bit_eq_mod)

section \<open>Writing along distinct slots\<close>

fun scatter :: "nat list \<Rightarrow> 'a list \<Rightarrow> 'a list \<Rightarrow> 'a list" where
  "scatter (p # ps) (x # xs) buf = scatter ps xs (buf[p := x])"
| "scatter _ _ buf = buf"

lemma length_scatter [simp]: "length (scatter ps xs buf) = length buf"
  by (induction ps xs buf rule: scatter.induct) simp_all

lemma scatter_other: "q \<notin> set ps \<Longrightarrow> scatter ps xs buf ! q = buf ! q"
  by (induction ps xs buf rule: scatter.induct) auto

lemma scatter_slots:
  assumes "distinct ps" "set ps \<subseteq> {..<length buf}" "length xs = length ps"
  shows "map ((!) (scatter ps xs buf)) ps = xs"
  using assms
proof (induction ps xs buf rule: scatter.induct)
  case (1 p ps x xs buf)
  then show ?case by (simp add: scatter_other)
qed auto

lemma scatter_append:
  "length ps = length xs \<Longrightarrow> scatter (ps @ qs) (xs @ ys) buf = scatter qs ys (scatter ps xs buf)"
  by (induction ps xs arbitrary: buf rule: list_induct2) simp_all

lemma mset_nth_slots:
  assumes "distinct ps" "set ps = {..<n}" "n \<le> length buf"
  shows "mset (take n buf) = mset (map ((!) buf) ps)"
proof -
  have "mset ps = mset_set {..<n}" using assms(1,2) by (metis mset_set_set)
  also have "\<dots> = mset [0..<n]" by (simp add: lessThan_atLeast0 flip: mset_upt)
  finally have "mset (map ((!) buf) ps) = mset (map ((!) buf) [0..<n])" by simp
  also have "map ((!) buf) [0..<n] = take n buf" using assms(3) by (intro nth_equalityI) simp_all
  finally show ?thesis by simp
qed

lemma mset_scatter:
  assumes "distinct ps" "set ps = {..<n}" "n \<le> length buf" "length xs = length ps"
  shows "mset (take n (scatter ps xs buf)) = mset xs" "drop n (scatter ps xs buf) = drop n buf"
proof -
  show "mset (take n (scatter ps xs buf)) = mset xs"
    using mset_nth_slots [OF assms(1,2), of "scatter ps xs buf"] scatter_slots [OF assms(1) _ assms(4), of buf] assms(2,3)
    by simp
  show "drop n (scatter ps xs buf) = drop n buf"
    by (rule nth_equalityI) (use assms(2) in \<open>auto simp: scatter_other\<close>)
qed

section \<open>State transitions\<close>

text \<open>
  A state whose symbol counter is \<open>c\<close> reads \<open>al - ilog2 c\<close> bits and goes to the interval of that
  width at \<open>c * 2 ^ bits - 2 ^ al\<close>.
\<close>

definition state_bits :: "nat \<Rightarrow> nat \<Rightarrow> nat" where
  "state_bits al c = al - ilog2 c"

definition state_base :: "nat \<Rightarrow> nat \<Rightarrow> nat" where
  "state_base al c = c * 2 ^ state_bits al c - 2 ^ al"

lemma ilog2_less_Suc: "\<lbrakk>0 < c; c < 2 ^ Suc al\<rbrakk> \<Longrightarrow> ilog2 c \<le> al"
  using ilog2_range [of 0 c "Suc al"] by simp

lemma state_interval:
  assumes "0 < c" "c < 2 ^ Suc al"
  shows "2 ^ al \<le> c * 2 ^ state_bits al c" "state_base al c + 2 ^ state_bits al c \<le> 2 ^ al"
proof -
  define l where "l = ilog2 c"
  have l: "l \<le> al" "2 ^ l \<le> c" "Suc c \<le> 2 ^ Suc l"
    using ilog2_less_Suc [OF assms] ilog2_bounds [OF assms(1)] by (simp_all add: l_def)
  have b: "state_bits al c = al - l" by (simp add: state_bits_def l_def)
  have "2 ^ l * 2 ^ (al - l) \<le> c * 2 ^ (al - l)" using l(2) by (rule mult_le_mono1)
  then show lo: "2 ^ al \<le> c * 2 ^ state_bits al c" using l(1) by (simp add: b flip: power_add)
  have "Suc c * 2 ^ (al - l) \<le> 2 ^ Suc l * 2 ^ (al - l)" using l(3) by (rule mult_le_mono1)
  also have "\<dots> = 2 * 2 ^ al" using l(1) by (simp flip: power_add)
  finally have "c * 2 ^ (al - l) + 2 ^ (al - l) \<le> 2 * 2 ^ al" by simp
  with lo show "state_base al c + 2 ^ state_bits al c \<le> 2 ^ al"
    by (simp add: state_base_def b)
qed

lemma div_eq_interval: "0 < n \<Longrightarrow> (y :: nat) div n = c \<longleftrightarrow> c * n \<le> y \<and> y < Suc c * n"
  using div_times_less_eq_dividend [of y n] dividend_less_div_times [of n y]
  by (auto simp: mult.commute intro!: div_nat_eqI)

lemma in_state_interval:
  assumes "0 < c" "c < 2 ^ Suc al"
  shows "state_base al c \<le> x \<and> x < state_base al c + 2 ^ state_bits al c
     \<longleftrightarrow> (x + 2 ^ al) div 2 ^ state_bits al c = c"
proof -
  define n where "n = (2 :: nat) ^ state_bits al c"
  have lo: "2 ^ al \<le> c * n" using state_interval(1) [OF assms] by (simp add: n_def)
  have "(x + 2 ^ al) div n = c \<longleftrightarrow> c * n \<le> x + 2 ^ al \<and> x + 2 ^ al < Suc c * n"
    by (rule div_eq_interval) (simp add: n_def)
  then show ?thesis using lo by (auto simp: state_base_def n_def)
qed

text \<open>The counters \<open>n .. 2 n - 1\<close> of a symbol with \<open>n\<close> slots cut the table into disjoint intervals.\<close>

lemma state_intervals_partition:
  assumes n: "0 < n" "n \<le> 2 ^ al" and x: "x < 2 ^ al"
  shows "\<exists>!c. n \<le> c \<and> c < 2 * n \<and> state_base al c \<le> x \<and> x < state_base al c + 2 ^ state_bits al c"
proof -
  define y where "y = x + 2 ^ al"
  have y: "2 ^ al \<le> y" "y < 2 ^ Suc al" using x by (simp_all add: y_def)
  have in_iff: "state_base al c \<le> x \<and> x < state_base al c + 2 ^ state_bits al c \<longleftrightarrow> y div 2 ^ state_bits al c = c"
    if "n \<le> c" "c < 2 * n" for c
    using in_state_interval [of c al x] that n by (simp add: y_def)
  have log: "ilog2 (y div 2 ^ j) = al - j" if "j \<le> al" for j
  proof (rule ilog2_eqI)
    have "2 ^ (al - j) = (2 :: nat) ^ al div 2 ^ j" using that by (simp add: power_diff)
    also have "\<dots> \<le> y div 2 ^ j" using y(1) by (rule div_le_mono)
    finally show "2 ^ (al - j) \<le> y div 2 ^ j" .
    have "(2 :: nat) ^ Suc al = 2 ^ Suc (al - j) * 2 ^ j"
      using that by (simp only: Suc_diff_le [symmetric] flip: power_add) simp
    then have "y < 2 ^ Suc (al - j) * 2 ^ j" using y(2) by simp
    then show "y div 2 ^ j < 2 ^ Suc (al - j)" by (simp only: less_mult_imp_div_less)
  qed
  have half: "y div 2 ^ Suc j = y div 2 ^ j div 2" for j
    by (metis div_mult2_eq power_Suc2)
  have "\<exists>j \<le> al. n \<le> y div 2 ^ j \<and> y div 2 ^ Suc j < n"
  proof -
    have "y div 2 ^ Suc al < n" using y(2) n(1) by simp
    moreover have "\<not> y div 2 ^ 0 < n" using y(1) n(2) by simp
    ultimately obtain j where "j < Suc al" "\<forall>i\<le>j. \<not> y div 2 ^ i < n" "y div 2 ^ Suc j < n"
      using ex_least_nat_less [of "\<lambda>j. y div 2 ^ j < n" "Suc al"] by auto
    then show ?thesis by (intro exI [of _ j]) (simp add: not_less)
  qed
  then obtain j where j: "j \<le> al" "n \<le> y div 2 ^ j" "y div 2 ^ Suc j < n" by blast
  show ?thesis
  proof (rule ex1I [of _ "y div 2 ^ j"])
    have c: "y div 2 ^ j < 2 * n" using j(3) half [of j] by linarith
    have "state_bits al (y div 2 ^ j) = j" using log [OF j(1)] j(1) by (simp add: state_bits_def)
    then show "n \<le> y div 2 ^ j \<and> y div 2 ^ j < 2 * n \<and> state_base al (y div 2 ^ j) \<le> x
       \<and> x < state_base al (y div 2 ^ j) + 2 ^ state_bits al (y div 2 ^ j)"
      using in_iff [OF j(2) c] j(2) c by simp
  next
    fix c
    assume c: "n \<le> c \<and> c < 2 * n \<and> state_base al c \<le> x \<and> x < state_base al c + 2 ^ state_bits al c"
    define b where "b = state_bits al c"
    have yb: "y div 2 ^ b = c" using in_iff [of c] c by (simp add: b_def)
    have mono: "y div 2 ^ k \<le> y div 2 ^ Suc i" if "i < k" for i k
      using that power_increasing [of "Suc i" k "2 :: nat"] by (intro div_le_mono2) simp_all
    consider "b = j" | "b < j" | "j < b" by linarith
    then show "c = y div 2 ^ j"
    proof cases
      case 2
      then have "y div 2 ^ j \<le> c div 2" using mono [of b j] half [of b] yb by simp
      with c j(2) show ?thesis by linarith
    next
      case 3
      then have "c \<le> y div 2 ^ Suc j" using mono [of j b] yb by simp
      with c j(3) show ?thesis by linarith
    qed (use yb in simp)
  qed
qed

end
