(* ===== verification/Fse_Spread.thy ===== *)
theory Fse_Spread
  imports Fse_Table Fse_Walk
begin

text \<open>
  The symbol spread of an FSE table: both forms of it are the same walk, every symbol gets as many
  slots as its probability says, and the inner loop of the slow form ends.
\<close>

section \<open>What the passes write\<close>

text \<open>The symbols of a probability list in order, each as often as its probability says.\<close>

fun low_symbols :: "nat \<Rightarrow> int list \<Rightarrow> u8 list" where
  "low_symbols symbol [] = []"
| "low_symbols symbol (p # ps) = (if p = -1 then [of_nat symbol] else []) @ low_symbols (Suc symbol) ps"

fun ordered_symbols :: "nat \<Rightarrow> int list \<Rightarrow> u8 list" where
  "ordered_symbols symbol [] = []"
| "ordered_symbols symbol (p # ps) = replicate (nat p) (of_nat symbol) @ ordered_symbols (Suc symbol) ps"

text \<open>The counters a pass sets.\<close>

fun counted :: "(int \<Rightarrow> bool) \<Rightarrow> nat \<Rightarrow> int list \<Rightarrow> nat list \<Rightarrow> nat list" where
  "counted P symbol [] sn = sn"
| "counted P symbol (p # ps) sn = counted P (Suc symbol) ps (if P p then sn[symbol := prob_slots p] else sn)"

lemma length_counted [simp]: "length (counted P symbol ps sn) = length sn"
  by (induction ps arbitrary: symbol sn) simp_all

lemma nth_counted:
  "s < length sn \<Longrightarrow> counted P symbol ps sn ! s =
     (if symbol \<le> s \<and> s < symbol + length ps \<and> P (ps ! (s - symbol)) then prob_slots (ps ! (s - symbol)) else sn ! s)"
proof (induction ps arbitrary: symbol sn)
  case (Cons p ps)
  show ?case
  proof (cases "s = symbol")
    case True
    with Cons.prems Cons.IH [of "sn[symbol := prob_slots p]" "Suc symbol"] Cons.IH [of sn "Suc symbol"]
    show ?thesis by simp
  next
    case False
    then have "s - symbol = Suc (s - Suc symbol)" if "symbol \<le> s" using that by simp
    with False Cons.prems show ?thesis by (auto simp: Cons.IH)
  qed
qed simp

lemma length_low_le: "length (low_symbols symbol ps) \<le> sum_list (map prob_slots ps)"
  by (induction ps arbitrary: symbol) (auto simp: prob_slots_def intro: trans_le_add2)

lemma slots_split:
  "list_all (\<lambda>p. -1 \<le> p) ps \<Longrightarrow>
     length (low_symbols symbol ps) + length (ordered_symbols symbol ps) = sum_list (map prob_slots ps)"
  by (induction ps arbitrary: symbol) (auto simp: prob_slots_def)

section \<open>Pass 1\<close>

lemma place_low_probability_spec:
  assumes "length (low_symbols symbol ps) \<le> neg" "neg \<le> length spread" "symbol + length ps \<le> length sn"
  shows "place_low_probability ps symbol neg spread sn =
     Some (neg - length (low_symbols symbol ps),
       take (neg - length (low_symbols symbol ps)) spread @ rev (low_symbols symbol ps) @ drop neg spread,
       counted (\<lambda>p. p = -1) symbol ps sn)"
  using assms
proof (induction ps arbitrary: symbol neg spread sn)
  case (Cons p ps)
  show ?case
  proof (cases "p = -1")
    case True
    let ?n = "length (low_symbols (Suc symbol) ps)"
    have n: "?n \<le> neg - 1" "0 < neg" "neg - 1 < length spread" "symbol < length sn" using Cons.prems True by auto
    have upd: "spread[neg - 1 := x] = take (neg - 1) spread @ [x] @ drop neg spread" for x
      using n by (simp add: upd_conv_take_nth_drop)
    have IH: "place_low_probability ps (Suc symbol) (neg - 1) (spread[neg - 1 := of_nat symbol]) (sn[symbol := 1]) =
       Some (neg - 1 - ?n, take (neg - 1 - ?n) (spread[neg - 1 := of_nat symbol]) @ rev (low_symbols (Suc symbol) ps)
           @ drop (neg - 1) (spread[neg - 1 := of_nat symbol]), counted (\<lambda>p. p = -1) (Suc symbol) ps (sn[symbol := 1]))"
      using Cons.prems n by (intro Cons.IH) simp_all
    moreover have "take (neg - 1 - ?n) (spread[neg - 1 := of_nat symbol]) = take (neg - Suc ?n) spread"
      using n by simp
    moreover have "drop (neg - 1) (spread[neg - 1 := of_nat symbol]) = of_nat symbol # drop neg spread"
      unfolding upd using n by simp
    ultimately show ?thesis using True n by (simp add: store_def prob_slots_def)
  next
    case False
    then show ?thesis using Cons by simp
  qed
qed simp

section \<open>Pass 2, fast form\<close>

lemma symbol_eight_replicate: "symbol_eight symbol = replicate 8 (of_nat symbol)"
proof -
  let ?b = "of_nat symbol :: u8"
  have "replicate 8 ?b = [?b, ?b, ?b, ?b, ?b, ?b, ?b, ?b]" by (simp add: eval_nat_numeral)
  then have "le_val (replicate 8 ?b) = unat ?b * 0x0101010101010101" by simp
  then have "(from_le_bytes (replicate 8 ?b) :: u64) = ucast ?b * 0x0101010101010101"
    by (simp add: from_le_bytes_def)
  then have "symbol_eight symbol = to_le_bytes (length (replicate 8 ?b)) (from_le_bytes (replicate 8 ?b) :: u64)"
    by (simp add: symbol_eight_def)
  also have "\<dots> = replicate 8 ?b" by (rule to_from_le_bytes) simp
  finally show ?thesis .
qed

declare lay_eights.simps [simp del] distribute_pairs.simps [simp del]

lemma copy_into_spec:
  assumes "pos + length bytes \<le> length buf"
  shows "\<exists>r. copy_into buf pos bytes = Some r \<and> length r = length buf \<and> take pos r = take pos buf
     \<and> (\<forall>q < pos. r ! q = buf ! q) \<and> (\<forall>j < length bytes. r ! (pos + j) = bytes ! j)"
  using assms by (simp add: copy_into_def nth_append)

lemma lay_eights_spec:
  assumes "pos + n + 7 \<le> length buf" "\<forall>q. pos \<le> q \<and> q < pos + i \<longrightarrow> buf ! q = b"
  shows "\<exists>r. lay_eights i n pos (replicate 8 b) buf = Some r \<and> length r = length buf \<and> take pos r = take pos buf
     \<and> (\<forall>q. pos \<le> q \<and> q < pos + n \<longrightarrow> r ! q = b)"
  using assms
proof (induction i n pos "replicate 8 b" buf rule: lay_eights.induct)
  case (1 i n pos buf)
  show ?case
  proof (cases "i < n")
    case True
    obtain r where r: "copy_into buf (pos + i) (replicate 8 b) = Some r" "length r = length buf"
        "take (pos + i) r = take (pos + i) buf" "\<forall>q < pos + i. r ! q = buf ! q" "\<forall>j < 8. r ! (pos + i + j) = b"
      using copy_into_spec [of "pos + i" "replicate 8 b" buf] True "1.prems"(1) by auto
    have "r ! q = b" if "pos \<le> q" "q < pos + (i + 8)" for q
      using r(4,5) "1.prems"(2) that by (cases "q < pos + i") (auto dest: spec [of _ "q - (pos + i)"])
    moreover have "take pos r = take pos buf"
      using arg_cong [OF r(3), of "take pos"] by simp
    ultimately show ?thesis
      using "1.hyps" [OF True r(1)] "1.prems"(1) r(1,2) True by (simp add: lay_eights.simps [of i])
  next
    case False
    then show ?thesis using "1.prems" by (simp add: lay_eights.simps [of i])
  qed
qed

lemma lay_in_order_spec:
  assumes "pos + length (ordered_symbols symbol ps) + 7 \<le> length buf" "symbol + length ps \<le> length sn"
  shows "\<exists>r. lay_in_order ps symbol pos buf sn
       = Some (pos + length (ordered_symbols symbol ps), r, counted (\<lambda>p. 0 < p) symbol ps sn)
     \<and> length r = length buf
     \<and> take (pos + length (ordered_symbols symbol ps)) r = take pos buf @ ordered_symbols symbol ps"
  using assms
proof (induction ps arbitrary: symbol pos buf sn)
  case (Cons p ps)
  show ?case
  proof (cases "p \<le> 0")
    case True
    then show ?thesis using Cons by simp
  next
    case False
    define n b where "n = nat p" and "b = (of_nat symbol :: u8)"
    have n: "0 < n" "pos + n + 7 \<le> length buf" using False Cons.prems(1) by (simp_all add: n_def)
    obtain b0 where b0: "copy_into buf pos (replicate 8 b) = Some b0" "length b0 = length buf"
        "take pos b0 = take pos buf" "\<forall>j < 8. b0 ! (pos + j) = b"
      using copy_into_spec [of pos "replicate 8 b" buf] n by auto
    have "\<forall>q. pos \<le> q \<and> q < pos + 8 \<longrightarrow> b0 ! q = b"
      using b0(4) by (metis add_diff_inverse_nat less_diff_conv2 not_less add.commute)
    then obtain b1 where b1: "lay_eights 8 n pos (replicate 8 b) b0 = Some b1" "length b1 = length buf"
        "take pos b1 = take pos buf" "\<forall>q. pos \<le> q \<and> q < pos + n \<longrightarrow> b1 ! q = b"
      using lay_eights_spec [of pos n b0 8 b] n b0(2,3) by auto
    have run: "take (pos + n) b1 = take pos buf @ replicate n b"
    proof -
      have "take n (drop pos b1) = replicate n b"
        using b1(2,4) n by (intro nth_equalityI) auto
      then show ?thesis using b1(3) by (simp add: take_add)
    qed
    have "symbol < length sn" using Cons.prems(2) by simp
    moreover have "\<exists>r. lay_in_order ps (Suc symbol) (pos + n) b1 (sn[symbol := n])
         = Some (pos + n + length (ordered_symbols (Suc symbol) ps), r, counted (\<lambda>p. 0 < p) (Suc symbol) ps (sn[symbol := n]))
       \<and> length r = length b1
       \<and> take (pos + n + length (ordered_symbols (Suc symbol) ps)) r = take (pos + n) b1 @ ordered_symbols (Suc symbol) ps"
      using Cons.prems b1(2) by (intro Cons.IH) (simp_all add: n_def)
    ultimately show ?thesis
      using False b0(1) b1(1,2) run
      by (auto simp: store_def symbol_eight_replicate Let_def prob_slots_def n_def b_def add.assoc)
  qed
qed simp

section \<open>The walk of the table\<close>

abbreviation table_walk :: "nat \<Rightarrow> nat \<Rightarrow> nat" where
  "table_walk k i \<equiv> walk (spread_step (2 ^ k)) (2 ^ k) i"

lemma next_position_walk: "next_position (table_walk k i) (2 ^ k) = table_walk k (Suc i)"
  by (simp add: next_position_def and_mask_mod walk_Suc del: One_nat_def)

text \<open>The step is odd for tables of four slots and of sixteen and more.\<close>

lemma odd_spread_step: "k = 2 \<or> 4 \<le> k \<Longrightarrow> odd (spread_step (2 ^ k))"
proof -
  assume k: "k = 2 \<or> 4 \<le> k"
  show ?thesis
  proof (cases "k = 2")
    case True
    then show ?thesis by (simp add: spread_step_def drop_bit_eq_div)
  next
    case False
    with k have "drop_bit 1 ((2 :: nat) ^ k) = 2 ^ (k - 1)" "drop_bit 3 ((2 :: nat) ^ k) = 2 ^ (k - 3)"
      by (simp_all add: drop_bit_exp_eq)
    then show ?thesis using False k by (simp add: spread_step_def)
  qed
qed

lemma distribute_pairs_spec:
  assumes "even s" "s \<le> 2 ^ k" "0 < k" "2 ^ k \<le> length in_order" "length spread = 2 ^ k"
  shows "distribute_pairs (2 ^ k) s (table_walk k s) in_order spread
     = Some (scatter (map (table_walk k) [s..<2 ^ k]) (take (2 ^ k - s) (drop s in_order)) spread)"
  using assms
proof (induction "2 ^ k - s" arbitrary: s spread rule: less_induct)
  case less
  show ?case
  proof (cases "s < 2 ^ k")
    case True
    have "even ((2 :: nat) ^ k)" using less.prems(3) by simp
    with True less.prems(1) have s1: "Suc s < 2 ^ k"
      by (metis Suc_lessI even_Suc)
    have lt: "table_walk k i < 2 ^ k" for i by (simp add: walk_less)
    have step1: "(table_walk k s + spread_step (2 ^ k)) AND (2 ^ k - 1) = table_walk k (Suc s)"
      by (simp add: and_mask_mod walk_Suc del: One_nat_def)
    have step2: "(table_walk k s + 2 * spread_step (2 ^ k)) AND (2 ^ k - 1) = table_walk k (s + 2)"
      by (simp add: and_mask_mod walk_Suc mod_simps mult_2 add.assoc del: One_nat_def)
    let ?sp = "spread[table_walk k s := in_order ! s, table_walk k (Suc s) := in_order ! Suc s]"
    have "distribute_pairs (2 ^ k) (s + 2) (table_walk k (s + 2)) in_order ?sp
       = Some (scatter (map (table_walk k) [s + 2..<2 ^ k]) (take (2 ^ k - (s + 2)) (drop (s + 2) in_order)) ?sp)"
      using less.prems s1 True by (intro less.hyps) simp_all
    moreover have "[s..<2 ^ k] = s # Suc s # [s + 2..<2 ^ k]" using s1 by (simp add: upt_conv_Cons)
    moreover have "take (2 ^ k - s) (drop s in_order)
        = in_order ! s # in_order ! Suc s # take (2 ^ k - (s + 2)) (drop (s + 2) in_order)"
    proof -
      have "drop s in_order = in_order ! s # in_order ! Suc s # drop (s + 2) in_order"
        using s1 less.prems(4) by (simp add: Cons_nth_drop_Suc)
      moreover have "2 ^ k - s = Suc (Suc (2 ^ k - (s + 2)))" using s1 by simp
      ultimately show ?thesis by simp
    qed
    ultimately show ?thesis
      using True s1 less.prems(4,5)
      by (subst distribute_pairs.simps) (simp only: step1 step2 store_def Let_def if_True if_False length_list_update lt scatter.simps list.map bind.simps(2) Suc_eq_plus1 [symmetric], simp add: lt)
  next
    case False
    then show ?thesis using less.prems by (subst distribute_pairs.simps) simp
  qed
qed

section \<open>Pass 2, slow form\<close>

text \<open>The free slots from step \<open>i\<close> of the walk on.\<close>

definition free_slots :: "nat \<Rightarrow> nat \<Rightarrow> nat \<Rightarrow> nat list" where
  "free_slots k neg i = filter (\<lambda>p. p < neg) (map (table_walk k) [i..<2 ^ k])"

lemma skip_taken_walk:
  assumes "i \<le> j" "table_walk k j < neg" "\<forall>m. i \<le> m \<and> m < j \<longrightarrow> neg \<le> table_walk k m"
  shows "skip_taken (2 ^ k) neg (table_walk k i) = Some (table_walk k j)"
  using assms
proof (induction i rule: inc_induct)
  case base
  then show ?case by (subst skip_taken.simps) simp
next
  case (step i)
  then show ?case by (subst skip_taken.simps) (simp add: next_position_walk)
qed

lemma next_free_slot:
  assumes "0 < neg"
  shows "\<exists>j \<ge> i. table_walk k j < neg \<and> (\<forall>m. i \<le> m \<and> m < j \<longrightarrow> neg \<le> table_walk k m)"
proof -
  have "i \<le> 2 ^ k * i" by simp
  moreover have "table_walk k (2 ^ k * i) < neg" using assms by (simp only: walk_period)
  ultimately have "\<exists>j. i \<le> j \<and> table_walk k j < neg" by blast
  then obtain j where "i \<le> j \<and> table_walk k j < neg" "\<forall>m < j. \<not> (i \<le> m \<and> table_walk k m < neg)"
    using exists_least_iff [of "\<lambda>j. i \<le> j \<and> table_walk k j < neg"] by blast
  then show ?thesis by (metis not_less)
qed

lemma free_slots_next:
  assumes "i \<le> j" "\<forall>m. i \<le> m \<and> m < j \<longrightarrow> neg \<le> table_walk k m"
  shows "free_slots k neg i = [] \<or> (j < 2 ^ k \<and> free_slots k neg i = free_slots k neg j)"
proof (cases "j < 2 ^ k")
  case True
  then have "[i..<2 ^ k] = [i..<j] @ [j..<2 ^ k]" using assms(1) upt_add_eq_append [of i j "2 ^ k - j"] by simp
  moreover have "filter (\<lambda>p. p < neg) (map (table_walk k) [i..<j]) = []"
    using assms(2) by (auto simp: filter_empty_conv not_less)
  ultimately show ?thesis using True by (simp add: free_slots_def)
next
  case False
  then show ?thesis using assms(2) by (auto simp: free_slots_def filter_empty_conv not_less)
qed

definition at_slot :: "nat \<Rightarrow> nat \<Rightarrow> nat \<Rightarrow> nat list \<Rightarrow> bool" where
  "at_slot k neg pos rem \<longleftrightarrow> rem = []
     \<or> (\<exists>i < 2 ^ k. pos = table_walk k i \<and> pos < neg \<and> rem = free_slots k neg i)"

lemma place_times_spec:
  assumes "at_slot k neg pos rem" "n \<le> length rem" "neg \<le> length spread"
  shows "\<exists>pos'. place_times (2 ^ k) neg n s pos spread = Some (pos', scatter (take n rem) (replicate n s) spread)
     \<and> at_slot k neg pos' (drop n rem)"
  using assms
proof (induction n arbitrary: pos rem spread)
  case (Suc n)
  from Suc.prems(1,2) obtain i where i: "i < 2 ^ k" "pos = table_walk k i" "pos < neg" "rem = free_slots k neg i"
    by (auto simp: at_slot_def)
  have rem: "rem = pos # free_slots k neg (Suc i)"
    using i by (simp add: free_slots_def upt_conv_Cons)
  obtain j where j: "Suc i \<le> j" "table_walk k j < neg" "\<forall>m. Suc i \<le> m \<and> m < j \<longrightarrow> neg \<le> table_walk k m"
    using next_free_slot [of neg "Suc i" k] i(3) by auto
  have skip: "skip_taken (2 ^ k) neg (next_position pos (2 ^ k)) = Some (table_walk k j)"
    unfolding i(2) next_position_walk by (rule skip_taken_walk [OF j])
  have "at_slot k neg (table_walk k j) (free_slots k neg (Suc i))"
    using free_slots_next [OF j(1,3)] j(2) by (auto simp: at_slot_def)
  from Suc.IH [OF this, of "spread[pos := s]"] Suc.prems(2,3) i(3) skip
  show ?case by (simp add: rem store_def)
qed (simp add: at_slot_def)

lemma spread_slow_spec:
  assumes "at_slot k neg pos rem" "length (ordered_symbols symbol ps) \<le> length rem" "neg \<le> length spread"
    "symbol + length ps \<le> length sn"
  shows "spread_slow ps symbol (2 ^ k) neg pos spread sn
     = Some (scatter (take (length (ordered_symbols symbol ps)) rem) (ordered_symbols symbol ps) spread,
             counted (\<lambda>p. 0 < p) symbol ps sn)"
  using assms
proof (induction ps arbitrary: symbol pos rem spread sn)
  case (Cons p ps)
  show ?case
  proof (cases "p \<le> 0")
    case False
    obtain pos' where place: "place_times (2 ^ k) neg (nat p) (of_nat symbol) pos spread
         = Some (pos', scatter (take (nat p) rem) (replicate (nat p) (of_nat symbol)) spread)"
        and at: "at_slot k neg pos' (drop (nat p) rem)"
      using place_times_spec [OF Cons.prems(1), of "nat p" spread "of_nat symbol"] Cons.prems(2,3) by auto
    have "length (take (nat p) rem) = length (replicate (nat p) (of_nat symbol :: u8))"
      using Cons.prems(2) by simp
    from scatter_append [OF this] False place Cons.prems show ?thesis
      by (simp add: Cons.IH [OF at] store_def prob_slots_def take_add)
  qed (use Cons in simp)
qed simp

section \<open>The spread table\<close>

text \<open>The slots the walk offers below \<open>neg\<close>.\<close>

lemma free_slots_all:
  assumes "odd (spread_step (2 ^ k))" "neg \<le> 2 ^ k"
  shows "distinct (free_slots k neg 0)" "set (free_slots k neg 0) = {..<neg}" "length (free_slots k neg 0) = neg"
proof -
  show d: "distinct (free_slots k neg 0)"
    using walk_slots(1) [OF assms(1)] by (simp add: free_slots_def distinct_filter)
  show s: "set (free_slots k neg 0) = {..<neg}"
    using walk_slots(2) [OF assms(1), of k] assms(2) by (auto simp: free_slots_def)
  show "length (free_slots k neg 0) = neg"
    using distinct_card [OF d] s by simp
qed

lemma free_slots_whole: "free_slots k (2 ^ k) 0 = map (table_walk k) [0..<2 ^ k]"
  by (simp add: free_slots_def filter_map comp_def walk_less)

lemma spread_fast_spec:
  assumes "0 < k" "(2 :: nat) ^ k \<le> 512" "length (ordered_symbols 0 ps) = 2 ^ k" "length ps \<le> length sn"
    "length spread = 2 ^ k"
  shows "spread_fast ps (2 ^ k) spread sn
     = Some (scatter (map (table_walk k) [0..<2 ^ k]) (ordered_symbols 0 ps) spread, counted (\<lambda>p. 0 < p) 0 ps sn)"
proof -
  obtain r where r: "lay_in_order ps 0 0 (replicate FSE_FAST_SPREAD_BUF 0) sn
       = Some (2 ^ k, r, counted (\<lambda>p. 0 < p) 0 ps sn)" "length r = FSE_FAST_SPREAD_BUF"
      "take (2 ^ k) r = ordered_symbols 0 ps"
    using lay_in_order_spec [of 0 0 ps "replicate FSE_FAST_SPREAD_BUF 0" sn] assms
    by (auto simp: FSE_FAST_SPREAD_BUF_def)
  have "distribute_pairs (2 ^ k) 0 (table_walk k 0) r spread
     = Some (scatter (map (table_walk k) [0..<2 ^ k]) (take (2 ^ k - 0) (drop 0 r)) spread)"
    using assms r(2) by (intro distribute_pairs_spec) (simp_all add: FSE_FAST_SPREAD_BUF_def)
  then show ?thesis using r by (simp add: spread_fast_def)
qed

text \<open>A probability list that fills a table of \<open>2 ^ k\<close> slots.\<close>

definition probs_fill :: "nat \<Rightarrow> int list \<Rightarrow> bool" where
  "probs_fill k ps \<longleftrightarrow> list_all (\<lambda>p. -1 \<le> p) ps \<and> sum_list (map prob_slots ps) = 2 ^ k \<and> length ps \<le> 256"

lemma spread_symbols_scatter:
  assumes fill: "probs_fill k ps" and k: "0 < k" "(2 :: nat) ^ k \<le> 512" and odd: "odd (spread_step (2 ^ k))"
  defines "low \<equiv> low_symbols 0 ps" and "neg \<equiv> 2 ^ k - length (low_symbols 0 ps)"
  shows "spread_symbols ps (2 ^ k)
     = Some (scatter (free_slots k neg 0) (ordered_symbols 0 ps) (replicate neg 0 @ rev low),
             counted (\<lambda>p. 0 < p) 0 ps (counted (\<lambda>p. p = -1) 0 ps (replicate 256 0)))"
proof -
  have len: "length low + length (ordered_symbols 0 ps) = 2 ^ k" "length ps \<le> 256"
    using fill slots_split [of ps 0] by (simp_all add: probs_fill_def low_def)
  then have low: "length low \<le> 2 ^ k" "length (ordered_symbols 0 ps) = neg" by (simp_all add: neg_def low_def)
  note slots = free_slots_all [OF odd, of neg]
  have pass1: "place_low_probability ps 0 (2 ^ k) (replicate (2 ^ k) 0) (replicate 256 0)
     = Some (neg, replicate neg 0 @ rev low, counted (\<lambda>p. p = -1) 0 ps (replicate 256 0))"
    using place_low_probability_spec [of 0 ps "2 ^ k" "replicate (2 ^ k) 0" "replicate 256 0"] low len(2)
    by (simp add: neg_def low_def)
  show ?thesis
  proof (cases "neg = 2 ^ k")
    case True
    then have "low = []" using len(1) low(2) by simp
    then show ?thesis
      using spread_fast_spec [OF k, of ps "counted (\<lambda>p. p = -1) 0 ps (replicate 256 0)" "replicate neg 0"] True low len pass1
      by (simp add: spread_symbols_def free_slots_whole)
  next
    case False
    have "at_slot k neg 0 (free_slots k neg 0)"
      using slots(3) by (cases "neg = 0") (auto simp: at_slot_def neg_def intro!: exI [of _ 0])
    from spread_slow_spec [OF this, of 0 ps "replicate neg 0 @ rev low" "counted (\<lambda>p. p = -1) 0 ps (replicate 256 0)"]
    show ?thesis using False low len pass1 slots(3) by (simp add: spread_symbols_def neg_def)
  qed
qed

lemma count_ordered:
  assumes "symbol + length ps \<le> 256" "s < 256"
  shows "count (mset (ordered_symbols symbol ps)) (of_nat s)
     = (if symbol \<le> s \<and> s < symbol + length ps then nat (ps ! (s - symbol)) else 0)"
  using assms(1)
proof (induction ps arbitrary: symbol)
  case (Cons p ps)
  have "(of_nat symbol :: u8) = of_nat s \<longleftrightarrow> symbol = s"
    using Cons.prems assms(2) by (auto simp: word_unat_eq_iff unat_of_nat)
  moreover have "s - symbol = Suc (s - Suc symbol)" if "symbol < s" using that by simp
  ultimately show ?case using Cons by (auto simp: not_less_eq_eq le_eq_less_or_eq)
qed simp

lemma count_low:
  assumes "symbol + length ps \<le> 256" "s < 256"
  shows "count (mset (low_symbols symbol ps)) (of_nat s)
     = (if symbol \<le> s \<and> s < symbol + length ps \<and> ps ! (s - symbol) = -1 then 1 else 0)"
  using assms(1)
proof (induction ps arbitrary: symbol)
  case (Cons p ps)
  have "(of_nat symbol :: u8) = of_nat s \<longleftrightarrow> symbol = s"
    using Cons.prems assms(2) by (auto simp: word_unat_eq_iff unat_of_nat)
  moreover have "s - symbol = Suc (s - Suc symbol)" if "symbol < s" using that by simp
  ultimately show ?case using Cons by (auto simp: not_less_eq_eq le_eq_less_or_eq)
qed simp

text \<open>The slots of each symbol, as a number of a probability list.\<close>

definition slots_of :: "int list \<Rightarrow> u8 \<Rightarrow> nat" where
  "slots_of ps s = (if unat s < length ps then prob_slots (ps ! unat s) else 0)"

lemma spread_symbols_spec:
  assumes fill: "probs_fill k ps" and k: "k = 2 \<or> 4 \<le> k" "(2 :: nat) ^ k \<le> 512"
  shows "\<exists>spread sn. spread_symbols ps (2 ^ k) = Some (spread, sn) \<and> length spread = 2 ^ k \<and> length sn = 256
     \<and> (\<forall>s. count (mset spread) s = slots_of ps s) \<and> (\<forall>s. sn ! unat s = slots_of ps s)"
proof -
  define low neg where "low = low_symbols 0 ps" and "neg = 2 ^ k - length (low_symbols 0 ps)"
  define spread where "spread = scatter (free_slots k neg 0) (ordered_symbols 0 ps) (replicate neg 0 @ rev low)"
  define sn where "sn = counted (\<lambda>p. 0 < p) 0 ps (counted (\<lambda>p. p = -1) 0 ps (replicate 256 (0 :: nat)))"
  have odd: "odd (spread_step (2 ^ k))" using k(1) by (rule odd_spread_step)
  have len: "length low + length (ordered_symbols 0 ps) = 2 ^ k" "length ps \<le> 256" "list_all (\<lambda>p. -1 \<le> p) ps"
    using fill slots_split [of ps 0] by (simp_all add: probs_fill_def low_def)
  then have neg: "length (ordered_symbols 0 ps) = neg" "neg \<le> 2 ^ k" "neg + length low = 2 ^ k"
    by (simp_all add: neg_def low_def)
  note slots = free_slots_all [OF odd neg(2)]
  have "mset spread = mset (take neg spread) + mset (drop neg spread)"
    by (metis append_take_drop_id mset_append)
  also have "\<dots> = mset (ordered_symbols 0 ps) + mset low"
    unfolding spread_def using mset_scatter [OF slots(1,2), of "replicate neg 0 @ rev low" "ordered_symbols 0 ps"] neg slots(3)
    by simp
  finally have m: "mset spread = mset (ordered_symbols 0 ps) + mset low" .
  have ge: "-1 \<le> ps ! s" if "s < length ps" for s using len(3) that by (simp add: list_all_length)
  have "count (mset spread) s = slots_of ps s" for s
  proof -
    have s: "unat s < 256" "of_nat (unat s) = s" using byte_less [of s] by simp_all
    show ?thesis
      unfolding m low_def slots_of_def prob_slots_def
      using count_ordered [OF _ s(1), of 0 ps] count_low [OF _ s(1), of 0 ps] len(2) ge [of "unat s"] s by auto
  qed
  moreover have "sn ! unat s = slots_of ps s" for s
    using byte_less [of s] ge [of "unat s"] by (auto simp: sn_def nth_counted slots_of_def prob_slots_def)
  moreover have "spread_symbols ps (2 ^ k) = Some (spread, sn)"
    unfolding spread_def sn_def neg_def low_def
    by (rule spread_symbols_scatter [OF fill _ k(2) odd]) (use k(1) in auto)
  ultimately show ?thesis using neg by (simp add: spread_def sn_def)
qed

section \<open>Properties\<close>

text \<open>
  C19. The two forms of the spread pass agree: on a probability list without low-probability symbols
  that fills a table of up to 512 slots, the fast form (eight-byte lay-down, then two slots at a time)
  writes the same spread and the same counters as the symbol-by-symbol form, and both return.
\<close>

theorem fast_spread_equals_slow:
  assumes "list_all (\<lambda>p. 0 \<le> p) ps" "probs_fill k ps" "0 < k" "(2 :: nat) ^ k \<le> 512"
    "length spread = 2 ^ k" "length sn = 256"
  shows "spread_fast ps (2 ^ k) spread sn = spread_slow ps 0 (2 ^ k) (2 ^ k) 0 spread sn
     \<and> spread_fast ps (2 ^ k) spread sn \<noteq> None"
proof -
  have "low_symbols symbol qs = []" if "list_all (\<lambda>p. 0 \<le> p) qs" for symbol qs
    using that by (induction qs arbitrary: symbol) auto
  then have len: "length (ordered_symbols 0 ps) = 2 ^ k" "length ps \<le> length sn"
    using slots_split [of ps 0] assms(1,2,6) by (simp_all add: probs_fill_def)
  have "at_slot k (2 ^ k) 0 (free_slots k (2 ^ k) 0)" by (auto simp: at_slot_def intro!: exI [of _ 0])
  from spread_slow_spec [OF this, of 0 ps spread sn] spread_fast_spec [OF assms(3,4) len assms(5)] show ?thesis
    using len assms(5) by (simp add: free_slots_whole)
qed

theorem fast_spread_equals_slow_witness:
  "spread_fast [20, 0, 12] (2 ^ 5) (replicate 32 0) (replicate 256 0)
     = spread_slow [20, 0, 12] 0 (2 ^ 5) (2 ^ 5) 0 (replicate 32 0) (replicate 256 0)
   \<and> spread_fast [20, 0, 12] (2 ^ 5) (replicate 32 0) (replicate 256 0) \<noteq> None"
  by (rule fast_spread_equals_slow) (simp_all add: probs_fill_def prob_slots_def)

text \<open>
  The spread always ends and gives every symbol its share: on a probability list that fills a table
  of 4 or of 16 to 512 slots, with or without low-probability symbols, each symbol occurs in the spread
  as often as its probability says (once for \<open>-1\<close>), and its counter starts at that number.
\<close>

theorem spread_symbols_shares:
  assumes "probs_fill k ps" "k = 2 \<or> 4 \<le> k" "(2 :: nat) ^ k \<le> 512"
  shows "\<exists>spread sn. spread_symbols ps (2 ^ k) = Some (spread, sn) \<and> length spread = 2 ^ k
     \<and> (\<forall>s. count (mset spread) s = slots_of ps s \<and> sn ! unat s = slots_of ps s)"
  using spread_symbols_spec [OF assms] by blast

theorem spread_symbols_shares_witness:
  "\<exists>spread sn. spread_symbols [20, -1, 11] (2 ^ 5) = Some (spread, sn) \<and> length spread = 2 ^ 5
     \<and> (\<forall>s. count (mset spread) s = slots_of [20, -1, 11] s \<and> sn ! unat s = slots_of [20, -1, 11] s)"
  by (rule spread_symbols_shares) (simp_all add: probs_fill_def prob_slots_def)

end
