(* ===== verification/Fse_Build.thy ===== *)
theory Fse_Build
  imports Fse_Spread
begin

text \<open>
  The entries of an FSE decoding table. The locale \<open>fse_entry\<close> is the contract of the trait
  \<open>FseEntry\<close>: an entry keeps the transition it was made from, and attaching sequence metadata does
  not touch it. Under the contract every table that the code builds is well formed: the transition of
  each state stays inside the table. The transitions of a symbol's states cut the table into disjoint
  intervals, which is what makes decoding deterministic in both directions.
\<close>

section \<open>The contract of an entry\<close>

locale fse_entry =
  fixes ops :: "'e fse_entry_ops"
  assumes num_bits_from_raw: "fe_num_bits ops (fe_from_raw ops ns s nb) = nb"
    and new_state_from_raw: "fe_new_state ops (fe_from_raw ops ns s nb) = ns"
    and num_bits_with_meta: "fe_num_bits ops (fe_with_seq_meta ops e base extra) = fe_num_bits ops e"
    and new_state_with_meta: "fe_new_state ops (fe_with_seq_meta ops e base extra) = fe_new_state ops e"
begin

lemma attach_meta_transition:
  "fe_num_bits ops (attach_meta ops meta s e) = fe_num_bits ops e"
  "fe_new_state ops (attach_meta ops meta s e) = fe_new_state ops e"
  by (cases meta; simp add: num_bits_with_meta new_state_with_meta Let_def)+

end

interpretation huf_entry: fse_entry entry_ops
  by unfold_locales (simp_all add: entry_ops_def)

interpretation seq_entry: fse_entry seq_symbol_ops
  by unfold_locales (simp_all add: seq_symbol_ops_def)

section \<open>Well-formed tables\<close>

definition entry_ok :: "'e fse_entry_ops \<Rightarrow> nat \<Rightarrow> 'e \<Rightarrow> bool" where
  "entry_ok ops al e \<longleftrightarrow> unat (fe_num_bits ops e) \<le> al
     \<and> unat (fe_new_state ops e) + 2 ^ unat (fe_num_bits ops e) \<le> 2 ^ al"

definition table_ok :: "'e fse_entry_ops \<Rightarrow> 'e fse_table \<Rightarrow> bool" where
  "table_ok ops t \<longleftrightarrow> ft_decode_len t = 2 ^ ft_accuracy_log t \<and> ft_decode_len t \<le> length (ft_decode t)
     \<and> ft_accuracy_log t \<le> 16
     \<and> (\<forall>i < ft_decode_len t. \<exists>e. ft_decode t ! i = Some e \<and> entry_ok ops (ft_accuracy_log t) e)"

section \<open>The entries that are built\<close>

definition built_entry :: "'e fse_entry_ops \<Rightarrow> seq_meta \<Rightarrow> nat \<Rightarrow> u8 \<Rightarrow> nat \<Rightarrow> 'e" where
  "built_entry ops meta al symbol c =
     attach_meta ops meta symbol (fe_from_raw ops (of_nat (state_base al c)) symbol (of_nat (state_bits al c)))"

lemma transition_bits_state:
  assumes "0 < c" "c < 2 ^ Suc al" "al \<le> 16"
  shows "transition_bits al (Suc (ilog2 c)) = of_nat (state_bits al c)" "unat (of_nat (state_bits al c) :: u8) = state_bits al c"
proof -
  have l: "ilog2 c \<le> al" by (rule ilog2_less_Suc [OF assms(1,2)])
  have "(of_nat (al + 1) :: u32) - of_nat (Suc (ilog2 c)) = of_nat (state_bits al c)"
    using l by (simp add: state_bits_def of_nat_diff)
  moreover have "state_bits al c \<le> 16" using assms(3) by (simp add: state_bits_def)
  ultimately show "transition_bits al (Suc (ilog2 c)) = of_nat (state_bits al c)"
    by (simp add: transition_bits_def unsigned_of_nat take_bit_nat_eq_self)
  show "unat (of_nat (state_bits al c) :: u8) = state_bits al c"
    using \<open>state_bits al c \<le> 16\<close> by (simp add: unat_of_nat)
qed

lemma state_bits_le: "state_bits al c \<le> al"
  by (simp add: state_bits_def)

lemma build_entries_spec:
  assumes "al \<le> 16" "idx + length rest \<le> length decode" "length sn = 256"
    "\<forall>s \<in> set rest. 0 < sn ! unat s \<and> sn ! unat s + count_list rest s \<le> 2 ^ Suc al"
  shows "\<exists>decode'. build_entries ops meta al probs rest idx sn decode = (decode', Ok ()) \<and> length decode' = length decode
     \<and> (\<forall>i < length rest. decode' ! (idx + i)
          = Some (built_entry ops meta al (rest ! i) (sn ! unat (rest ! i) + count_list (take i rest) (rest ! i))))
     \<and> (\<forall>j. j < idx \<or> idx + length rest \<le> j \<longrightarrow> decode' ! j = decode ! j)"
  using assms(2-)
proof (induction rest arbitrary: idx sn decode)
  case (Cons s rest)
  define c where "c = sn ! unat s"
  have c: "0 < c" "c < 2 ^ Suc al" using Cons.prems(3) by (auto simp: c_def)
  have idx: "idx < length decode" using Cons.prems(1) by simp
  have s: "unat s < length sn" using byte_less [of s] Cons.prems(2) by simp
  let ?sn = "sn[unat s := c + 1]" and ?d = "decode[idx := Some (built_entry ops meta al s c)]"
  have cond: "0 < ?sn ! unat x \<and> ?sn ! unat x + count_list rest x \<le> 2 ^ Suc al" if "x \<in> set rest" for x
  proof (cases "x = s")
    case True
    have "count_list rest s + 1 = count_list (s # rest) s" by simp
    then show ?thesis using Cons.prems(3) s True by (simp add: c_def)
  next
    case False
    then have "unat s \<noteq> unat x" by (simp add: word_unat_eq_iff)
    then show ?thesis using Cons.prems(3) that False by auto
  qed
  have step: "build_entries ops meta al probs (s # rest) idx sn decode
      = build_entries ops meta al probs rest (Suc idx) ?sn ?d"
    using transition_bits_state [OF c assms(1)] state_interval(1) [OF c] state_bits_le [of al c] idx c
    by (simp add: c_def [symmetric] highest_bit_set_def store_def Let_def state_base_def built_entry_def not_less)
  obtain d' where d': "build_entries ops meta al probs rest (Suc idx) ?sn ?d = (d', Ok ())" "length d' = length decode"
      "\<forall>i < length rest. d' ! (Suc idx + i)
          = Some (built_entry ops meta al (rest ! i) (?sn ! unat (rest ! i) + count_list (take i rest) (rest ! i)))"
      "\<forall>j. j < Suc idx \<or> Suc idx + length rest \<le> j \<longrightarrow> d' ! j = ?d ! j"
    using Cons.IH [of "Suc idx" ?d ?sn] Cons.prems(1,2) cond by auto
  have "d' ! (idx + i) = Some (built_entry ops meta al ((s # rest) ! i)
      (sn ! unat ((s # rest) ! i) + count_list (take i (s # rest)) ((s # rest) ! i)))" if "i < length (s # rest)" for i
  proof (cases i)
    case 0
    then show ?thesis using d'(4) idx by (simp add: c_def)
  next
    case (Suc m)
    have "?sn ! unat (rest ! m) = (if rest ! m = s then c + 1 else sn ! unat (rest ! m))"
      using s by (simp add: nth_list_update word_unat_eq_iff eq_commute)
    then show ?thesis using Suc d'(3) that by (simp add: c_def)
  qed
  then show ?case using step d' idx by auto
qed simp

section \<open>Building a table\<close>

text \<open>A table whose decode array can hold the accuracy log and whose symbols are in range.\<close>

definition buildable :: "'e fse_table \<Rightarrow> bool" where
  "buildable t \<longleftrightarrow> probs_fill (ft_accuracy_log t) (ft_symbol_probabilities t)
     \<and> (ft_accuracy_log t = 2 \<or> 4 \<le> ft_accuracy_log t)
     \<and> length (ft_symbol_probabilities t) \<le> unat (ft_max_symbol t) + 1
     \<and> 2 ^ ft_accuracy_log t \<le> length (ft_decode t) \<and> length (ft_decode t) \<le> 512"

lemma log_of_512: "(2 :: nat) ^ k \<le> 512 \<Longrightarrow> k \<le> 9"
  by (rule ccontr) (use power_increasing [of 10 k "2 :: nat"] in auto)

text \<open>What the build leaves in the table: the spread and one entry per slot, by the symbol's counter.\<close>

definition built :: "'e fse_entry_ops \<Rightarrow> seq_meta \<Rightarrow> 'e fse_table \<Rightarrow> u8 list \<Rightarrow> 'e fse_table \<Rightarrow> bool" where
  "built ops meta t spread t' \<longleftrightarrow>
     length spread = 2 ^ ft_accuracy_log t
     \<and> map_option fst (spread_symbols (ft_symbol_probabilities t) (2 ^ ft_accuracy_log t)) = Some spread
     \<and> (\<forall>s. count_list spread s = slots_of (ft_symbol_probabilities t) s)
     \<and> ft_accuracy_log t' = ft_accuracy_log t \<and> ft_symbol_probabilities t' = ft_symbol_probabilities t
     \<and> ft_max_symbol t' = ft_max_symbol t \<and> ft_symbol_spread_buffer t' = spread
     \<and> ft_decode_len t' = 2 ^ ft_accuracy_log t \<and> length (ft_decode t') = length (ft_decode t)
     \<and> (\<forall>i < 2 ^ ft_accuracy_log t. ft_decode t' ! i
          = Some (built_entry ops meta (ft_accuracy_log t) (spread ! i)
              (slots_of (ft_symbol_probabilities t) (spread ! i) + count_list (take i spread) (spread ! i))))
     \<and> (\<forall>j \<ge> 2 ^ ft_accuracy_log t. ft_decode t' ! j = ft_decode t ! j)"

lemma slots_of_le: "probs_fill k ps \<Longrightarrow> slots_of ps s \<le> 2 ^ k"
  using member_le_sum_list [of "prob_slots (ps ! unat s)" "map prob_slots ps"] by (auto simp: slots_of_def probs_fill_def)

lemma build_decoding_table_spec:
  assumes "buildable t"
  shows "\<exists>spread t'. build_decoding_table_meta ops meta t = (t', Ok ()) \<and> built ops meta t spread t'"
proof -
  let ?k = "ft_accuracy_log t" and ?ps = "ft_symbol_probabilities t"
  have fill: "probs_fill ?k ?ps" and k: "?k = 2 \<or> 4 \<le> ?k" "(2 :: nat) ^ ?k \<le> 512"
    using assms by (auto simp: buildable_def)
  have cap: "2 ^ ?k \<le> length (ft_decode t)" using assms by (simp add: buildable_def)
  obtain spread sn where sp: "spread_symbols ?ps (2 ^ ?k) = Some (spread, sn)" "length spread = 2 ^ ?k" "length sn = 256"
      "\<forall>s. count (mset spread) s = slots_of ?ps s" "\<forall>s. sn ! unat s = slots_of ?ps s"
    using spread_symbols_spec [OF fill k] by blast
  have cnt: "count_list spread s = slots_of ?ps s" for s using sp(4) by (simp add: count_mset)
  have "0 < sn ! unat s \<and> sn ! unat s + count_list spread s \<le> 2 ^ Suc ?k" if "s \<in> set spread" for s
    using that cnt [of s] sp(5) slots_of_le [OF fill, of s] count_list_0_iff [of spread s] by auto
  then obtain d' where d': "build_entries ops meta ?k ?ps spread 0 sn (ft_decode t) = (d', Ok ())"
      "length d' = length (ft_decode t)"
      "\<forall>i < length spread. d' ! i
          = Some (built_entry ops meta ?k (spread ! i) (sn ! unat (spread ! i) + count_list (take i spread) (spread ! i)))"
      "\<forall>j \<ge> length spread. d' ! j = ft_decode t ! j"
    using build_entries_spec [of ?k 0 spread "ft_decode t" sn ops meta ?ps] log_of_512 [OF k(2)] cap sp(2,3)
    by (simp only: add_0 le_trans) fastforce
  let ?t = "t\<lparr>ft_symbol_spread_buffer := spread, ft_decode := d', ft_decode_len := 2 ^ ?k\<rparr>"
  have "build_decoding_table_meta ops meta t = (?t, Ok ())"
    using assms sp(1) d'(1) by (simp add: build_decoding_table_meta_def build_decoding_table_inner_def buildable_def Let_def)
  moreover have "built ops meta t spread ?t"
    using sp(1,2,5) cnt d'(2-4) by (simp add: built_def)
  ultimately show ?thesis by blast
qed

lemma counter_range:
  assumes "built ops meta t spread t'" "probs_fill (ft_accuracy_log t) (ft_symbol_probabilities t)" "i < length spread"
  defines "n \<equiv> slots_of (ft_symbol_probabilities t) (spread ! i)"
  shows "0 < n" "n + count_list (take i spread) (spread ! i) < 2 * n" "2 * n \<le> 2 ^ Suc (ft_accuracy_log t)"
proof -
  have cnt: "count_list spread (spread ! i) = n" using assms(1) by (simp add: built_def n_def)
  have "count_list spread (spread ! i) = count_list (take i spread) (spread ! i) + Suc (count_list (drop (Suc i) spread) (spread ! i))"
    using arg_cong [OF id_take_nth_drop [OF assms(3)], of "\<lambda>xs. count_list xs (spread ! i)"] by (simp only: count_list_append) simp
  with cnt show "0 < n" "n + count_list (take i spread) (spread ! i) < 2 * n" by linarith+
  show "2 * n \<le> 2 ^ Suc (ft_accuracy_log t)"
    using slots_of_le [OF assms(2), of "spread ! i"] by (simp add: n_def)
qed

context fse_entry
begin

lemma built_entry_transition:
  assumes "0 < c" "c < 2 ^ Suc al" "al \<le> 16"
  shows "unat (fe_num_bits ops (built_entry ops meta al s c)) = state_bits al c"
    "unat (fe_new_state ops (built_entry ops meta al s c)) = state_base al c"
    "entry_ok ops al (built_entry ops meta al s c)"
proof -
  have "(2 :: nat) ^ al \<le> 2 ^ 16" using assms(3) by (intro power_increasing) simp_all
  moreover have "0 < (2 :: nat) ^ state_bits al c" by simp
  ultimately have "state_base al c < 2 ^ 16" using state_interval(2) [OF assms(1,2)] by linarith
  then have b: "unat (of_nat (state_base al c) :: u16) = state_base al c" by (simp add: unat_of_nat)
  show nb: "unat (fe_num_bits ops (built_entry ops meta al s c)) = state_bits al c"
    using transition_bits_state(2) [OF assms] by (simp add: built_entry_def attach_meta_transition num_bits_from_raw)
  show ns: "unat (fe_new_state ops (built_entry ops meta al s c)) = state_base al c"
    using b by (simp add: built_entry_def attach_meta_transition new_state_from_raw)
  show "entry_ok ops al (built_entry ops meta al s c)"
    using state_interval(2) [OF assms(1,2)] by (simp add: entry_ok_def nb ns state_bits_def)
qed

lemma built_table_ok:
  assumes "buildable t" "built ops meta t spread t'"
  shows "table_ok ops t'"
  unfolding table_ok_def
proof (intro conjI allI impI)
  have fill: "probs_fill (ft_accuracy_log t) (ft_symbol_probabilities t)" and al: "ft_accuracy_log t \<le> 16"
    using assms(1) log_of_512 [of "ft_accuracy_log t"] by (auto simp: buildable_def)
  show "ft_decode_len t' = 2 ^ ft_accuracy_log t'" "ft_decode_len t' \<le> length (ft_decode t')" "ft_accuracy_log t' \<le> 16"
    using assms al by (auto simp: built_def buildable_def)
  fix i assume "i < ft_decode_len t'"
  then have i: "i < length spread" "i < 2 ^ ft_accuracy_log t" using assms(2) by (auto simp: built_def)
  note r = counter_range [OF assms(2) fill i(1)]
  have "entry_ok ops (ft_accuracy_log t) (built_entry ops meta (ft_accuracy_log t) (spread ! i)
      (slots_of (ft_symbol_probabilities t) (spread ! i) + count_list (take i spread) (spread ! i)))"
    using r al by (intro built_entry_transition(3)) linarith+
  then show "\<exists>e. ft_decode t' ! i = Some e \<and> entry_ok ops (ft_accuracy_log t') e"
    using assms(2) i(2) by (auto simp: built_def)
qed

end

section \<open>The transitions of a symbol\<close>

lemma nth_occurrence:
  assumes "m < count_list xs s"
  shows "\<exists>!i. i < length xs \<and> xs ! i = s \<and> count_list (take i xs) s = m"
  using assms
proof (induction xs arbitrary: m)
  case (Cons x xs)
  show ?case
  proof (cases "x = s \<and> m = 0")
    case True
    show ?thesis
    proof (rule ex1I [of _ 0])
      fix i assume "i < length (x # xs) \<and> (x # xs) ! i = s \<and> count_list (take i (x # xs)) s = m"
      then show "i = 0" using True by (cases i) simp_all
    qed (use True in simp)
  next
    case False
    define m' where "m' = (if x = s then m - 1 else m)"
    have "m' < count_list xs s" using Cons.prems False by (auto simp: m'_def)
    from Cons.IH [OF this] obtain i where i: "i < length xs" "xs ! i = s" "count_list (take i xs) s = m'"
        and uniq: "\<And>j. j < length xs \<and> xs ! j = s \<and> count_list (take j xs) s = m' \<Longrightarrow> j = i" by blast
    show ?thesis
    proof (rule ex1I [of _ "Suc i"])
      fix j assume j: "j < length (x # xs) \<and> (x # xs) ! j = s \<and> count_list (take j (x # xs)) s = m"
      then obtain j' where "j = Suc j'" using False by (cases j) auto
      then show "j = Suc i" using j uniq [of j'] by (auto simp: m'_def split: if_splits)
    qed (use i False in \<open>auto simp: m'_def\<close>)
  qed
qed simp

context fse_entry
begin

lemma transitions_partition:
  assumes t: "buildable t" "built ops meta t spread t'"
    and s: "0 < slots_of (ft_symbol_probabilities t) s" and x: "x < 2 ^ ft_accuracy_log t"
  shows "\<exists>!i. i < 2 ^ ft_accuracy_log t \<and> spread ! i = s
     \<and> unat (fe_new_state ops (the (ft_decode t' ! i))) \<le> x
     \<and> x < unat (fe_new_state ops (the (ft_decode t' ! i))) + 2 ^ unat (fe_num_bits ops (the (ft_decode t' ! i)))"
proof -
  define al n where "al = ft_accuracy_log t" and "n = slots_of (ft_symbol_probabilities t) s"
  define ctr where "ctr i = n + count_list (take i spread) s" for i
  have fill: "probs_fill al (ft_symbol_probabilities t)" and al: "al \<le> 16"
    using t(1) log_of_512 [of al] by (auto simp: buildable_def al_def)
  have n: "0 < n" "n \<le> 2 ^ al" using s slots_of_le [OF fill] by (simp_all add: n_def)
  have len: "length spread = 2 ^ al" and cnt: "count_list spread s = n"
    using t(2) by (simp_all add: built_def al_def n_def)
  have entry: "unat (fe_new_state ops (the (ft_decode t' ! i))) = state_base al (ctr i)"
      "unat (fe_num_bits ops (the (ft_decode t' ! i))) = state_bits al (ctr i)" and ctr: "ctr i < 2 * n"
    if "i < length spread" "spread ! i = s" for i
  proof -
    note r = counter_range [OF t(2) fill [unfolded al_def] that(1)]
    show "ctr i < 2 * n" using r(2) that(2) by (simp add: ctr_def n_def)
    then have "0 < ctr i" "ctr i < 2 ^ Suc al" using n by (simp_all add: ctr_def)
    note e = built_entry_transition [OF this al]
    have "ft_decode t' ! i = Some (built_entry ops meta al s (ctr i))"
      using t(2) that len by (simp add: built_def ctr_def n_def al_def)
    then show "unat (fe_new_state ops (the (ft_decode t' ! i))) = state_base al (ctr i)"
      "unat (fe_num_bits ops (the (ft_decode t' ! i))) = state_bits al (ctr i)"
      using e(1,2) by simp_all
  qed
  obtain c where c: "n \<le> c" "c < 2 * n" "state_base al c \<le> x" "x < state_base al c + 2 ^ state_bits al c"
      and c_uniq: "\<And>d. n \<le> d \<and> d < 2 * n \<and> state_base al d \<le> x \<and> x < state_base al d + 2 ^ state_bits al d \<Longrightarrow> d = c"
    using state_intervals_partition [OF n, of x] x by (auto simp: al_def)
  have "c - n < count_list spread s" using c cnt by linarith
  from nth_occurrence [OF this] obtain i where i: "i < length spread" "spread ! i = s" "count_list (take i spread) s = c - n"
      and i_uniq: "\<And>j. j < length spread \<and> spread ! j = s \<and> count_list (take j spread) s = c - n \<Longrightarrow> j = i" by blast
  have "ctr i = c" using i(3) c(1) by (simp add: ctr_def)
  show ?thesis
  proof (rule ex1I [of _ i])
    show "i < 2 ^ ft_accuracy_log t \<and> spread ! i = s \<and> unat (fe_new_state ops (the (ft_decode t' ! i))) \<le> x
       \<and> x < unat (fe_new_state ops (the (ft_decode t' ! i))) + 2 ^ unat (fe_num_bits ops (the (ft_decode t' ! i)))"
      using i c entry [OF i(1,2)] \<open>ctr i = c\<close> len by (simp add: al_def)
  next
    fix j assume j: "j < 2 ^ ft_accuracy_log t \<and> spread ! j = s \<and> unat (fe_new_state ops (the (ft_decode t' ! j))) \<le> x
       \<and> x < unat (fe_new_state ops (the (ft_decode t' ! j))) + 2 ^ unat (fe_num_bits ops (the (ft_decode t' ! j)))"
    then have js: "j < length spread" "spread ! j = s" using len by (simp_all add: al_def)
    have "ctr j = c" using j entry [OF js] ctr [OF js] by (intro c_uniq) (simp add: ctr_def)
    then have "count_list (take j spread) s = c - n" by (simp add: ctr_def)
    with js i_uniq show "j = i" by blast
  qed
qed

end

section \<open>Metadata\<close>

text \<open>The metadata that a build attaches, as a function of the symbol.\<close>

fun meta_of :: "seq_meta \<Rightarrow> u8 \<Rightarrow> u32 \<times> u8" where
  "meta_of NoMeta s = (0, 0)"
| "meta_of (Packed packed) s =
     (let m = (if unat s < length packed then packed ! unat s else 0) in (m AND 0x00FFFFFF, ucast (drop_bit 24 m)))"
| "meta_of Offsets s = (if s < 32 then (push_bit (unat s) 1, s) else (0, 0))"

lemma built_seq_symbol:
  "built_entry seq_symbol_ops meta al s c =
     \<lparr>ss_new_state = of_nat (state_base al c), ss_num_bits = of_nat (state_bits al c),
      ss_num_additional_bits = snd (meta_of meta s), ss_base_value = fst (meta_of meta s)\<rparr>"
  by (cases meta) (simp_all add: built_entry_def seq_symbol_ops_def Let_def)

lemma built_spread:
  "built ops meta t spread t' \<Longrightarrow>
     map_option fst (spread_symbols (ft_symbol_probabilities t) (2 ^ ft_accuracy_log t)) = Some spread"
  by (simp only: built_def)

lemma enrich_built:
  assumes "built seq_symbol_ops NoMeta t spread t1" "built seq_symbol_ops meta t spread' t2"
    "2 ^ ft_accuracy_log t \<le> length (ft_decode t)"
  shows "enrich (meta_of meta) t1 = Some t2"
proof -
  let ?n = "2 ^ ft_accuracy_log t :: nat"
  have sp: "spread' = spread" using built_spread [OF assms(1)] built_spread [OF assms(2)] by (simp only: option.inject)
  have "map2 (enrich_entry (meta_of meta)) (take ?n spread) (take ?n (ft_decode t1)) @ drop ?n (ft_decode t1) = ft_decode t2"
  proof (rule nth_equalityI)
    fix i assume i: "i < length (map2 (enrich_entry (meta_of meta)) (take ?n spread) (take ?n (ft_decode t1)) @ drop ?n (ft_decode t1))"
    show "(map2 (enrich_entry (meta_of meta)) (take ?n spread) (take ?n (ft_decode t1)) @ drop ?n (ft_decode t1)) ! i = ft_decode t2 ! i"
      using i assms unfolding sp
      by (cases "i < ?n") (simp_all add: built_def nth_append enrich_entry_def built_seq_symbol)
  qed (use assms in \<open>simp add: built_def\<close>)
  moreover have "t1\<lparr>ft_decode := ft_decode t2\<rparr> = t2"
    using assms(1,2) unfolding sp by (intro fse_table.equality) (simp_all add: built_def)
  moreover have "ft_decode_len t1 = ?n" "ft_symbol_spread_buffer t1 = spread" "length spread = ?n" "?n \<le> length (ft_decode t1)"
    using assms(1,3) by (simp_all add: built_def)
  ultimately show ?thesis by (simp add: enrich_def Let_def)
qed

lemma enrich_functions:
  "enrich_with_packed_seq_meta packed = enrich (meta_of (Packed packed))" "enrich_for_offsets = enrich (meta_of Offsets)"
  by (auto simp: enrich_with_packed_seq_meta_def enrich_for_offsets_def Let_def intro!: arg_cong [of _ _ enrich])

section \<open>Properties\<close>

text \<open>A sequence table and a Huffman-weight table with a probability list that fills 32 slots.\<close>

definition demo_seq_table :: "seq_symbol fse_table" where
  "demo_seq_table = (fse_table_new 512 35)\<lparr>ft_accuracy_log := 5, ft_symbol_probabilities := [20, -1, 11]\<rparr>"

definition demo_weight_table :: "entry fse_table" where
  "demo_weight_table = (fse_table_new 64 255)\<lparr>ft_accuracy_log := 5, ft_symbol_probabilities := [16, 16]\<rparr>"

lemma demo_tables: "buildable demo_seq_table" "buildable demo_weight_table"
  by (simp_all add: buildable_def demo_seq_table_def demo_weight_table_def fse_table_new_def probs_fill_def prob_slots_def)

text \<open>
  C17. Building never fails on a valid probability list: for a sequence table with any metadata and for a
  Huffman-weight table, the build returns, raises no invariant violation and no panic, and leaves a
  well-formed table: one initialised entry per state, each with at most \<open>accuracy_log\<close> transition bits
  and a transition that stays inside the table, which is what the unchecked reads of the decoder need.
\<close>

theorem fse_build_wellformed:
  assumes "buildable t" "buildable u"
  shows "(\<exists>t'. build_decoding_table_meta seq_symbol_ops meta t = (t', Ok ()) \<and> table_ok seq_symbol_ops t')
     \<and> (\<exists>u'. build_decoding_table_meta entry_ops NoMeta u = (u', Ok ()) \<and> table_ok entry_ops u')"
  using build_decoding_table_spec [OF assms(1), of seq_symbol_ops meta] build_decoding_table_spec [OF assms(2), of entry_ops NoMeta]
    seq_entry.built_table_ok [OF assms(1)] huf_entry.built_table_ok [OF assms(2)] by blast

theorem fse_build_wellformed_witness:
  "(\<exists>t'. build_decoding_table_meta seq_symbol_ops Offsets demo_seq_table = (t', Ok ()) \<and> table_ok seq_symbol_ops t')
   \<and> (\<exists>u'. build_decoding_table_meta entry_ops NoMeta demo_weight_table = (u', Ok ()) \<and> table_ok entry_ops u')"
  by (rule fse_build_wellformed) (rule demo_tables)+

text \<open>
  C18. The states of a symbol share the table out: for every symbol with a non-zero probability and every
  target state there is exactly one state of that symbol whose transition reaches the target. So an
  encoder that knows the next state and the symbol has exactly one predecessor to choose.
\<close>

theorem fse_transitions_partition:
  assumes "buildable t" "build_decoding_table_meta seq_symbol_ops meta t = (t', Ok ())"
    "0 < slots_of (ft_symbol_probabilities t) s" "x < 2 ^ ft_accuracy_log t"
  shows "\<exists>!i. i < 2 ^ ft_accuracy_log t \<and> ft_symbol_spread_buffer t' ! i = s
     \<and> unat (ss_new_state (the (ft_decode t' ! i))) \<le> x
     \<and> x < unat (ss_new_state (the (ft_decode t' ! i))) + 2 ^ unat (ss_num_bits (the (ft_decode t' ! i)))"
proof -
  obtain spread where "built seq_symbol_ops meta t spread t'"
    using build_decoding_table_spec [OF assms(1), of seq_symbol_ops meta] assms(2) by auto
  moreover from this have "ft_symbol_spread_buffer t' = spread" by (simp add: built_def)
  ultimately show ?thesis
    using seq_entry.transitions_partition [OF assms(1) _ assms(3,4)] by (simp add: seq_symbol_ops_def)
qed

theorem fse_transitions_partition_witness:
  "\<exists>!i. i < 2 ^ ft_accuracy_log demo_seq_table
     \<and> ft_symbol_spread_buffer (fst (build_decoding_table_meta seq_symbol_ops Offsets demo_seq_table)) ! i = 2
     \<and> unat (ss_new_state (the (ft_decode (fst (build_decoding_table_meta seq_symbol_ops Offsets demo_seq_table)) ! i))) \<le> 7
     \<and> 7 < unat (ss_new_state (the (ft_decode (fst (build_decoding_table_meta seq_symbol_ops Offsets demo_seq_table)) ! i)))
         + 2 ^ unat (ss_num_bits (the (ft_decode (fst (build_decoding_table_meta seq_symbol_ops Offsets demo_seq_table)) ! i)))"
proof (rule fse_transitions_partition [OF demo_tables(1)])
  show "build_decoding_table_meta seq_symbol_ops Offsets demo_seq_table
      = (fst (build_decoding_table_meta seq_symbol_ops Offsets demo_seq_table), Ok ())"
    using build_decoding_table_spec [OF demo_tables(1), of seq_symbol_ops Offsets] by auto
qed (simp_all add: demo_seq_table_def slots_of_def prob_slots_def)

text \<open>
  The fused build is the build followed by the enrich pass: for literal and match lengths with any
  packed metadata list, and for offsets, both orders leave the same table.
\<close>

theorem fused_build_equals_enrich:
  assumes "buildable t"
  shows "\<exists>t1 t2 t3. build_decoding_table_meta seq_symbol_ops NoMeta t = (t1, Ok ())
     \<and> build_decoding_table_meta seq_symbol_ops (Packed packed) t = (t2, Ok ())
     \<and> build_decoding_table_meta seq_symbol_ops Offsets t = (t3, Ok ())
     \<and> enrich_with_packed_seq_meta packed t1 = Some t2 \<and> enrich_for_offsets t1 = Some t3"
proof -
  have cap: "2 ^ ft_accuracy_log t \<le> length (ft_decode t)" using assms by (simp add: buildable_def)
  obtain s1 t1 s2 t2 s3 t3 where
      "build_decoding_table_meta seq_symbol_ops NoMeta t = (t1, Ok ())" "built seq_symbol_ops NoMeta t s1 t1"
      "build_decoding_table_meta seq_symbol_ops (Packed packed) t = (t2, Ok ())" "built seq_symbol_ops (Packed packed) t s2 t2"
      "build_decoding_table_meta seq_symbol_ops Offsets t = (t3, Ok ())" "built seq_symbol_ops Offsets t s3 t3"
    using build_decoding_table_spec [OF assms, of seq_symbol_ops] by metis
  then show ?thesis using enrich_built [OF _ _ cap] by (metis enrich_functions)
qed

theorem fused_build_equals_enrich_witness:
  "\<exists>t1 t2 t3. build_decoding_table_meta seq_symbol_ops NoMeta demo_seq_table = (t1, Ok ())
     \<and> build_decoding_table_meta seq_symbol_ops (Packed [5, 0x01000007]) demo_seq_table = (t2, Ok ())
     \<and> build_decoding_table_meta seq_symbol_ops Offsets demo_seq_table = (t3, Ok ())
     \<and> enrich_with_packed_seq_meta [5, 0x01000007] t1 = Some t2 \<and> enrich_for_offsets t1 = Some t3"
  by (rule fused_build_equals_enrich [OF demo_tables(1)])

section \<open>An accuracy log of three\<close>

text \<open>
  For eight slots the spread step is a multiple of the table size, so the walk never leaves slot zero.
  \<open>build_from_probabilities\<close> accepts this accuracy log and reports success.
\<close>

lemma spread_of_eight_slots:
  "spread_symbols [4, 4] (2 ^ 3) = Some ([1, 0, 0, 0, 0, 0, 0, 0], (replicate 256 0)[0 := 4, Suc 0 := 4])"
proof -
  have "spread_fast [4, 4] (2 ^ 3) (replicate 8 0) (replicate 256 0)
     = Some (scatter (map (table_walk 3) [0..<2 ^ 3]) (ordered_symbols 0 [4, 4]) (replicate 8 0),
             counted (\<lambda>p. 0 < p) 0 [4, 4] (replicate 256 0))"
    by (rule spread_fast_spec) simp_all
  moreover have "table_walk 3 i = 0" for i
    by (simp add: walk_def spread_step_def drop_bit_eq_div)
  then have "map (table_walk 3) [0..<2 ^ 3] = [0, 0, 0, 0, 0, 0, 0, 0]"
    by (simp add: upt_rec)
  moreover have "ordered_symbols 0 [4, 4] = [0, 0, 0, 0, 1, 1, 1, 1]" by (simp add: numeral_eq_Suc)
  moreover have "replicate 8 (0 :: u8) = [0, 0, 0, 0, 0, 0, 0, 0]" by (simp add: numeral_eq_Suc)
  ultimately show ?thesis
    by (simp add: spread_symbols_def prob_slots_def)
qed

lemma accuracy_log_three_shares:
  "\<exists>t'. build_from_probabilities entry_ops 3 [4, 4] (fse_table_new 64 255) = (t', Ok ())
   \<and> count_list (ft_symbol_spread_buffer t') 0 = 7 \<and> count_list (ft_symbol_spread_buffer t') 1 = 1"
  using spread_of_eight_slots
  by (simp add: build_from_probabilities_def ENTRY_MAX_ACCURACY_LOG_def fse_table_new_def prob_slots_def
      build_decoding_table_meta_def build_decoding_table_inner_def Let_def highest_bit_set_def ilog2.simps
      transition_bits_def store_def)

end
