(* ===== verification/Fse_Read.thy ===== *)
theory Fse_Read
  imports Fse_Build
begin

text \<open>
  Reading an FSE table description (\<open>read_probabilities\<close> and its callers in
  \<^verbatim>\<open>zstd/src/fse/fse_decoder.rs\<close>): the accuracy log, then one variable-width field per probability with
  runs of zeros, until the probabilities fill the table. The \<open>u32\<close> counters are natural numbers: every
  subtraction of the source is shown not to underflow.
\<close>

section \<open>Reading fields\<close>

text \<open>\<open>&source[byte..]\<close> panics past the end; the callers check the remaining bits first.\<close>

definition field_at :: "u8 list \<Rightarrow> nat \<Rightarrow> nat \<Rightarrow> u64" where
  "field_at source bit_pos n =
     (let byte = bit_pos div 8; remaining = drop byte source;
          window = (if 8 \<le> length remaining then from_le_bytes (take 8 remaining)
                    else from_le_bytes (zero_extend 8 remaining))
      in drop_bit (bit_pos mod 8) window AND (push_bit n 1 - 1))"

text \<open>The macro \<open>read_bits!\<close>: the value and the advanced position.\<close>

definition read_bits :: "u8 list \<Rightarrow> nat \<Rightarrow> nat \<Rightarrow> (nat \<times> nat, fse_table_error) result" where
  "read_bits source bit_pos n =
     (let total_bits = length source * 8 in
      if total_bits - bit_pos < n then Err (FseGetBitsError (NotEnoughRemainingBits n (total_bits - bit_pos)))
      else Ok (unat (field_at source bit_pos n), bit_pos + n))"

section \<open>Probabilities\<close>

text \<open>The loop that skips further zero probabilities; the list grows also when it fails.\<close>

function skip_zeros :: "u8 list \<Rightarrow> nat \<Rightarrow> nat \<Rightarrow> int list \<Rightarrow> int list \<times> (nat, fse_table_error) result" where
  "skip_zeros source max_symbols bit_pos probs =
     (case read_bits source bit_pos 2 of
        Ok (skip_amount, bit_pos') \<Rightarrow>
          let new_len = length probs + skip_amount in
          if new_len > max_symbols then (probs, Err (TooManySymbols new_len))
          else
            let probs = probs @ replicate skip_amount 0 in
            if skip_amount \<noteq> 3 then (probs, Ok bit_pos')
            else skip_zeros source max_symbols bit_pos' probs
      | Err e \<Rightarrow> (probs, Err e)
      | Panic \<Rightarrow> (probs, Panic))"
  by pat_completeness auto
termination
  by (relation "measure (\<lambda>(source, m, bit_pos, probs). length source * 8 - bit_pos)")
    (auto simp: read_bits_def Let_def split: if_splits)

declare skip_zeros.simps [simp del]

lemma skip_zeros_grows: "length probs \<le> length (fst (skip_zeros source m bit_pos probs))"
proof (induction source m bit_pos probs rule: skip_zeros.induct)
  case (1 source m bit_pos probs)
  show ?case
  proof (cases "read_bits source bit_pos 2")
    case (Ok r)
    obtain a p where r: "r = (a, p)" by fastforce
    show ?thesis
      using "1.IH" [OF Ok r [symmetric] refl _ refl] Ok by (subst skip_zeros.simps) (auto simp: r Let_def)
  qed (subst skip_zeros.simps; simp)+
qed

lemma skip_zeros_length: "(probs', r) = skip_zeros source m bit_pos (probs @ [x]) \<Longrightarrow> length probs < length probs'"
  using skip_zeros_grows [of "probs @ [x]" source m bit_pos] by (metis Suc_le_eq fst_conv length_append_singleton)

text \<open>The value of a field read with \<open>bits\<close> bits when \<open>max_remaining\<close> is the largest value.\<close>

definition short_value :: "nat \<Rightarrow> nat \<Rightarrow> nat \<Rightarrow> nat \<times> bool" where
  "short_value bits max_remaining unchecked =
     (let low_threshold = (2 ^ bits - 1) - max_remaining;
          msk = 2 ^ (bits - 1) - 1;
          small_value = unchecked AND msk
      in if small_value < low_threshold then (small_value, True)
         else if unchecked > msk then (unchecked - low_threshold, False)
         else (unchecked, False))"

function read_loop ::
  "u8 list \<Rightarrow> nat \<Rightarrow> nat \<Rightarrow> nat \<Rightarrow> nat \<Rightarrow> int list \<Rightarrow> int list \<times> (nat \<times> nat, fse_table_error) result" where
  "read_loop source max_symbols probability_sum bit_pos probability_counter probs =
     (if probability_counter < probability_sum then
        let max_remaining_value = probability_sum - probability_counter + 1;
            bits_to_read = Suc (ilog2 max_remaining_value) in
        case read_bits source bit_pos bits_to_read of
          Ok (unchecked_value, bit_pos) \<Rightarrow>
            let (value, put_back) = short_value bits_to_read max_remaining_value unchecked_value;
                bit_pos = (if put_back then bit_pos - 1 else bit_pos);
                prob = int value - 1 in
            if length probs \<ge> max_symbols then (probs, Err (TooManySymbols (length probs + 1)))
            else
              let probs = probs @ [prob] in
              if prob \<noteq> 0 then
                if prob > 0 then
                  read_loop source max_symbols probability_sum bit_pos (probability_counter + nat prob) probs
                else if prob = -1 then
                  read_loop source max_symbols probability_sum bit_pos (probability_counter + 1) probs
                else (probs, Panic)
              else
                (case skip_zeros source max_symbols bit_pos probs of
                   (probs, Ok bit_pos) \<Rightarrow>
                     read_loop source max_symbols probability_sum bit_pos probability_counter probs
                 | (probs, Err e) \<Rightarrow> (probs, Err e)
                 | (probs, Panic) \<Rightarrow> (probs, Panic))
        | Err e \<Rightarrow> (probs, Err e)
        | Panic \<Rightarrow> (probs, Panic)
      else (probs, Ok (bit_pos, probability_counter)))"
  by pat_completeness auto
termination
proof (relation "measure (\<lambda>(source, max_symbols, sum, bit_pos, counter, probs). max_symbols - length probs)", goal_cases)
  case (4 source max_symbols sum bit_pos counter probs)
  then show ?case by (auto simp: not_le dest!: skip_zeros_length intro!: diff_less_mono2)
qed auto

declare read_loop.simps [simp del]

definition read_probabilities ::
  "u8 list \<Rightarrow> nat \<Rightarrow> 'e fse_table \<Rightarrow> 'e fse_table \<times> (nat, fse_table_error) result" where
  "read_probabilities source max_log t =
     (let t = t\<lparr>ft_symbol_probabilities := []\<rparr> in
      case read_bits source 0 4 of
        Ok (v, bit_pos) \<Rightarrow>
          let accuracy_log = ACC_LOG_OFFSET + v;
              t = t\<lparr>ft_accuracy_log := accuracy_log\<rparr> in
          if accuracy_log > ENTRY_MAX_ACCURACY_LOG then (t, Err (AccLogTooBig accuracy_log ENTRY_MAX_ACCURACY_LOG))
          else if accuracy_log > max_log then (t, Err (AccLogTooBig accuracy_log max_log))
          else if accuracy_log = 0 then (t, Err AccLogIsZero)
          else
            let probability_sum = 2 ^ accuracy_log in
            (case read_loop source (unat (ft_max_symbol t) + 1) probability_sum bit_pos 0 [] of
               (probs, Ok (bit_pos, probability_counter)) \<Rightarrow>
                 let t = t\<lparr>ft_symbol_probabilities := probs\<rparr> in
                 if probability_counter \<noteq> probability_sum
                 then (t, Err (ProbabilityCounterMismatch probability_counter probability_sum probs))
                 else (t, Ok (if bit_pos mod 8 = 0 then bit_pos div 8 else bit_pos div 8 + 1))
             | (probs, Err e) \<Rightarrow> (t\<lparr>ft_symbol_probabilities := probs\<rparr>, Err e)
             | (probs, Panic) \<Rightarrow> (t\<lparr>ft_symbol_probabilities := probs\<rparr>, Panic))
      | Err e \<Rightarrow> (t, Err e)
      | Panic \<Rightarrow> (t, Panic))"

definition build_decoder_fused ::
  "'e fse_entry_ops \<Rightarrow> u8 list \<Rightarrow> nat \<Rightarrow> seq_meta \<Rightarrow> 'e fse_table \<Rightarrow> 'e fse_table \<times> (nat, fse_table_error) result" where
  "build_decoder_fused ops source max_log meta t =
     (let max_log = min max_log ENTRY_MAX_ACCURACY_LOG;
          t = t\<lparr>ft_accuracy_log := 0\<rparr> in
      case read_probabilities source max_log t of
        (t, Ok bytes_read) \<Rightarrow>
          (case build_decoding_table_meta ops meta t of
             (t, Ok _) \<Rightarrow> (t, Ok bytes_read)
           | (t, Err e) \<Rightarrow> (t, Err e)
           | (t, Panic) \<Rightarrow> (t, Panic))
      | (t, Err e) \<Rightarrow> (t, Err e)
      | (t, Panic) \<Rightarrow> (t, Panic))"

definition build_decoder ::
  "'e fse_entry_ops \<Rightarrow> u8 list \<Rightarrow> nat \<Rightarrow> 'e fse_table \<Rightarrow> 'e fse_table \<times> (nat, fse_table_error) result" where
  "build_decoder ops source max_log t = build_decoder_fused ops source max_log NoMeta t"

definition read_table_probabilities ::
  "u8 list \<Rightarrow> nat \<Rightarrow> 'e fse_table \<Rightarrow> 'e fse_table \<times> (nat, fse_table_error) result" where
  "read_table_probabilities source max_log t =
     (let max_log = min max_log ENTRY_MAX_ACCURACY_LOG
      in read_probabilities source max_log (t\<lparr>ft_accuracy_log := 0, ft_decode_len := 0\<rparr>))"

section \<open>What the loops return\<close>

lemma field_at_less: "unat (field_at source bit_pos n) < 2 ^ n"
proof -
  have "push_bit n 1 - 1 = (mask n :: u64)" by (rule push_1_minus_1)
  then have "field_at source bit_pos n = take_bit n (drop_bit (bit_pos mod 8)
      (if 8 \<le> length (drop (bit_pos div 8) source) then from_le_bytes (take 8 (drop (bit_pos div 8) source))
       else from_le_bytes (zero_extend 8 (drop (bit_pos div 8) source))))"
    by (simp only: field_at_def Let_def flip: take_bit_eq_mask)
  then show ?thesis by (simp only: unsigned_take_bit_eq take_bit_nat_less_exp)
qed

lemma read_bits_cases:
  "read_bits source p n = Err (FseGetBitsError (NotEnoughRemainingBits n (length source * 8 - p)))
   \<or> (\<exists>v < 2 ^ n. read_bits source p n = Ok (v, p + n)) \<and> (0 < n \<longrightarrow> p + n \<le> length source * 8)"
  using field_at_less [of source p n] by (auto simp: read_bits_def Let_def)

lemma skip_zeros_spec:
  assumes "skip_zeros source m p ps = (ps', r)" "length ps \<le> m"
  shows "(\<exists>j. ps' = ps @ replicate j 0) \<and> length ps' \<le> m \<and> r \<noteq> Panic
     \<and> (case r of Ok p' \<Rightarrow> p' \<le> length source * 8 | Err e \<Rightarrow> (\<exists>n. e = TooManySymbols n) \<or> (\<exists>g. e = FseGetBitsError g) | _ \<Rightarrow> True)"
  using assms
proof (induction source m p ps arbitrary: ps' r rule: skip_zeros.induct)
  case (1 source m p ps)
  from read_bits_cases [of source p 2] consider
    g where "read_bits source p 2 = Err (FseGetBitsError g)"
    | v where "read_bits source p 2 = Ok (v, p + 2)" "p + 2 \<le> length source * 8" by auto
  then show ?case
  proof cases
    case 1
    then show ?thesis using "1.prems" by (subst (asm) skip_zeros.simps) auto
  next
    case (2 v)
    consider "length ps + v > m" | "length ps + v \<le> m" "v \<noteq> 3" | "length ps + v \<le> m" "v = 3" by linarith
    then show ?thesis
    proof cases
      case 3
      then have "skip_zeros source m (p + 2) (ps @ replicate v 0) = (ps', r)"
        using "1.prems"(1) 2 by (subst (asm) skip_zeros.simps) simp
      from "1.IH" [OF 2(1) refl refl _ refl _ this] 3 obtain j where
        "ps' = ps @ replicate (v + j) 0" "length ps' \<le> m" "r \<noteq> Panic"
        "case r of Ok p' \<Rightarrow> p' \<le> length source * 8 | Err e \<Rightarrow> (\<exists>n. e = TooManySymbols n) \<or> (\<exists>g. e = FseGetBitsError g) | _ \<Rightarrow> True"
        by (auto simp: replicate_add)
      then show ?thesis by blast
    qed (use "1.prems" 2 in \<open>subst (asm) skip_zeros.simps; auto\<close>)+
  qed
qed

lemma short_value_range:
  assumes "0 < M" "bits = Suc (ilog2 M)" "u < 2 ^ bits" "short_value bits M u = (v, b)"
  shows "v \<le> M"
proof -
  define q where "q = (2 :: nat) ^ (bits - 1)"
  have M: "q \<le> M" "M < 2 * q" using ilog2_bounds [OF assms(1)] assms(2) by (simp_all add: q_def)
  have p: "(2 :: nat) ^ bits = 2 * q" using assms(2) by (simp add: q_def)
  have "u AND (q - 1) < q" unfolding q_def and_mask_mod by simp
  then show ?thesis using assms(3,4) M unfolding short_value_def Let_def p q_def [symmetric]
    by (auto split: if_splits simp del: One_nat_def; linarith)
qed

text \<open>The subtraction of the source that gives the low threshold does not underflow.\<close>

lemma low_threshold_exact: "0 < M \<Longrightarrow> M \<le> 2 ^ Suc (ilog2 M) - 1"
  using ilog2_bounds [of M] by linarith

definition only_input_errors :: "fse_table_error \<Rightarrow> bool" where
  "only_input_errors e \<longleftrightarrow> (\<exists>n. e = TooManySymbols n) \<or> (\<exists>g. e = FseGetBitsError g) \<or> (\<exists>g m. e = AccLogTooBig g m)"

definition loop_result_ok :: "nat \<Rightarrow> nat \<Rightarrow> nat \<Rightarrow> int list \<times> (nat \<times> nat, fse_table_error) result \<Rightarrow> bool" where
  "loop_result_ok bits m S r \<longleftrightarrow> (case r of
      (ps, Ok (p, c)) \<Rightarrow> list_all (\<lambda>q. -1 \<le> q) ps \<and> sum_list (map prob_slots ps) = S \<and> c = S \<and> length ps \<le> m \<and> p \<le> bits
    | (ps, Err e) \<Rightarrow> only_input_errors e
    | (ps, Panic) \<Rightarrow> False)"

lemma read_loop_ok:
  assumes "list_all (\<lambda>q. -1 \<le> q) ps" "sum_list (map prob_slots ps) = c" "c \<le> S" "length ps \<le> m" "p \<le> length source * 8"
  shows "loop_result_ok (length source * 8) m S (read_loop source m S p c ps)"
  using assms
proof (induction source m S p c ps rule: read_loop.induct)
  case (1 source m S p c ps)
  show ?case
  proof (cases "c < S")
    case False
    then show ?thesis using "1.prems" by (subst read_loop.simps) (simp add: loop_result_ok_def)
  next
    case True
    define M bits where "M = Suc (S - c)" and "bits = Suc (ilog2 M)"
    have M': "M = S - c + 1" by (simp add: M_def)
    note fold = M_def [symmetric] bits_def [symmetric]
    from read_bits_cases [of source p bits] consider
      g where "read_bits source p bits = Err (FseGetBitsError g)"
      | u where "u < 2 ^ bits" "read_bits source p bits = Ok (u, p + bits)" "p + bits \<le> length source * 8"
      by (auto simp: bits_def)
    then show ?thesis
    proof cases
      case 1
      then show ?thesis using True
        by (subst read_loop.simps) (simp add: fold loop_result_ok_def only_input_errors_def Let_def)
    next
      case (2 u)
      obtain v b where vb: "short_value bits M u = (v, b)" by fastforce
      define p' where "p' = (if b then p + bits - 1 else p + bits)"
      have v: "v \<le> M" using short_value_range [OF _ bits_def 2(1) vb] by (simp add: M_def)
      have p': "p' \<le> length source * 8" using 2(3) by (cases b) (simp_all add: p'_def)
      note IH = "1.IH" [OF True M' bits_def 2(2) refl refl vb [symmetric] p'_def refl]
      show ?thesis
      proof (cases "m \<le> length ps")
        case full: True
        then show ?thesis using True 2(2) vb
          by (subst read_loop.simps) (simp add: fold loop_result_ok_def only_input_errors_def Let_def)
      next
        case False
        have step: "read_loop source m S p c ps =
           (if v \<noteq> 1 then if v > 1 then read_loop source m S p' (c + (v - 1)) (ps @ [int v - 1])
                           else read_loop source m S p' (c + 1) (ps @ [int v - 1])
            else (case skip_zeros source m p' (ps @ [int v - 1]) of
                   (ps, Ok p) \<Rightarrow> read_loop source m S p c ps
                 | (ps, Err e) \<Rightarrow> (ps, Err e) | (ps, Panic) \<Rightarrow> (ps, Panic)))"
          using True False 2(2) vb
          by (subst read_loop.simps) (auto simp: fold Let_def p'_def nat_diff_distrib)
        consider "v = 0" | "v > 1" | "v = 1" by linarith
        then show ?thesis
        proof cases
          case 1
          have "loop_result_ok (length source * 8) m S (read_loop source m S p' (c + 1) (ps @ [int v - 1]))"
            using IH(2) 1 False True "1.prems" p' by (simp add: prob_slots_def)
          then show ?thesis using 1 step by simp
        next
          case 2
          then have "loop_result_ok (length source * 8) m S (read_loop source m S p' (c + nat (int v - 1)) (ps @ [int v - 1]))"
            using IH(1) False "1.prems" p' v True by (simp add: prob_slots_def M_def)
          moreover have "nat (int v - 1) = v - 1" by simp
          ultimately show ?thesis using 2 step by simp
        next
          case 3
          obtain ps' r where z: "skip_zeros source m p' (ps @ [int v - 1]) = (ps', r)" by fastforce
          obtain j where j: "ps' = (ps @ [int v - 1]) @ replicate j 0" and zr: "length ps' \<le> m" "r \<noteq> Panic"
              "case r of Ok p'' \<Rightarrow> p'' \<le> length source * 8 | Err e \<Rightarrow> (\<exists>n. e = TooManySymbols n) \<or> (\<exists>g. e = FseGetBitsError g) | _ \<Rightarrow> True"
            using skip_zeros_spec [OF z] False by auto
          have ps': "list_all (\<lambda>q. -1 \<le> q) ps'" "sum_list (map prob_slots ps') = c"
          proof -
            have "prob_slots 0 = 0" by (simp add: prob_slots_def)
            then show "list_all (\<lambda>q. -1 \<le> q) ps'" "sum_list (map prob_slots ps') = c"
              using "1.prems"(1,2) 3 by (auto simp: j list_all_iff sum_list_replicate)
          qed
          show ?thesis
          proof (cases r)
            case (Ok p'')
            then have "loop_result_ok (length source * 8) m S (read_loop source m S p'' c ps')"
              using IH(3) 3 False z zr ps' "1.prems" by simp
            then show ?thesis using step 3 z Ok by simp
          next
            case (Err e)
            then show ?thesis using step 3 z zr by (auto simp: loop_result_ok_def only_input_errors_def)
          qed (use zr in simp)
        qed
      qed
    qed
  qed
qed

section \<open>A table description as a whole\<close>

lemma read_probabilities_spec:
  assumes "read_probabilities source max_log t = (t', r)"
  shows "case r of
      Ok n \<Rightarrow> n \<le> length source \<and> ft_accuracy_log t' \<le> max_log \<and> 5 \<le> ft_accuracy_log t' \<and> ft_accuracy_log t' \<le> 16
         \<and> probs_fill (ft_accuracy_log t') (ft_symbol_probabilities t')
         \<and> length (ft_symbol_probabilities t') \<le> unat (ft_max_symbol t) + 1
    | Err e \<Rightarrow> only_input_errors e
    | Panic \<Rightarrow> False"
    "ft_decode t' = ft_decode t" "ft_max_symbol t' = ft_max_symbol t"
proof -
  let ?m = "unat (ft_max_symbol t) + 1"
  have m: "?m \<le> 256" using byte_less [of "ft_max_symbol t"] by simp
  from read_bits_cases [of source 0 4] consider
      g where "read_bits source 0 4 = Err (FseGetBitsError g)"
    | v where "read_bits source 0 4 = Ok (v, 4)" "4 \<le> length source * 8" by auto
  then have "(case r of
      Ok n \<Rightarrow> n \<le> length source \<and> ft_accuracy_log t' \<le> max_log \<and> 5 \<le> ft_accuracy_log t' \<and> ft_accuracy_log t' \<le> 16
         \<and> probs_fill (ft_accuracy_log t') (ft_symbol_probabilities t')
         \<and> length (ft_symbol_probabilities t') \<le> unat (ft_max_symbol t) + 1
    | Err e \<Rightarrow> only_input_errors e
    | Panic \<Rightarrow> False) \<and> ft_decode t' = ft_decode t \<and> ft_max_symbol t' = ft_max_symbol t"
  proof cases
    case 1
    then show ?thesis using assms by (auto simp: read_probabilities_def only_input_errors_def)
  next
    case (2 v)
    define al where "al = ACC_LOG_OFFSET + v"
    have al: "5 \<le> al" by (simp add: al_def ACC_LOG_OFFSET_def)
    show ?thesis
    proof (cases "al > ENTRY_MAX_ACCURACY_LOG \<or> al > max_log")
      case True
      then show ?thesis using assms 2(1)
        by (auto simp: read_probabilities_def al_def [symmetric] only_input_errors_def Let_def split: if_splits)
    next
      case False
      obtain ps q where loop: "read_loop source ?m (2 ^ al) 4 0 [] = (ps, q)" by fastforce
      have ok: "loop_result_ok (length source * 8) ?m (2 ^ al) (ps, q)"
        using read_loop_ok [of "[]" 0 "2 ^ al" ?m 4 source] 2(2) loop by simp
      show ?thesis
      proof (cases q)
        case (Ok pc)
        obtain p c where pc: "pc = (p, c)" by fastforce
        have l: "list_all (\<lambda>q. -1 \<le> q) ps" "sum_list (map prob_slots ps) = 2 ^ al" "c = 2 ^ al" "length ps \<le> ?m" "p \<le> length source * 8"
          using ok by (simp_all add: loop_result_ok_def Ok pc)
        have "(if p mod 8 = 0 then p div 8 else p div 8 + 1) \<le> length source"
          using l(5) by (cases "p mod 8 = 0") (simp, simp, presburger)
        then show ?thesis using assms 2(1) False al loop l m
          by (auto simp: read_probabilities_def al_def [symmetric] Ok pc probs_fill_def ENTRY_MAX_ACCURACY_LOG_def Let_def)
      next
        case (Err e)
        then show ?thesis using assms 2(1) False al loop ok
          by (auto simp: read_probabilities_def al_def [symmetric] loop_result_ok_def Let_def)
      qed (use ok in \<open>simp add: loop_result_ok_def\<close>)
    qed
  qed
  then show "case r of
      Ok n \<Rightarrow> n \<le> length source \<and> ft_accuracy_log t' \<le> max_log \<and> 5 \<le> ft_accuracy_log t' \<and> ft_accuracy_log t' \<le> 16
         \<and> probs_fill (ft_accuracy_log t') (ft_symbol_probabilities t')
         \<and> length (ft_symbol_probabilities t') \<le> unat (ft_max_symbol t) + 1
    | Err e \<Rightarrow> only_input_errors e
    | Panic \<Rightarrow> False" "ft_decode t' = ft_decode t" "ft_max_symbol t' = ft_max_symbol t" by blast+
qed

definition decoder_result_ok ::
  "'e fse_entry_ops \<Rightarrow> u8 list \<Rightarrow> nat \<Rightarrow> 'e fse_table \<times> (nat, fse_table_error) result \<Rightarrow> bool" where
  "decoder_result_ok ops source max_log r \<longleftrightarrow> (case r of
      (t, Ok n) \<Rightarrow> n \<le> length source \<and> table_ok ops t \<and> 5 \<le> ft_accuracy_log t \<and> ft_accuracy_log t \<le> max_log
         \<and> probs_fill (ft_accuracy_log t) (ft_symbol_probabilities t)
    | (t, Err e) \<Rightarrow> only_input_errors e
    | (t, Panic) \<Rightarrow> False)"

context fse_entry
begin

lemma build_decoder_ok:
  assumes "2 ^ max_log \<le> length (ft_decode t)" "length (ft_decode t) \<le> 512"
  shows "decoder_result_ok ops source max_log (build_decoder_fused ops source max_log meta t)"
proof -
  have ml: "max_log \<le> 9" using assms log_of_512 [of max_log] by linarith
  then have min: "min max_log ENTRY_MAX_ACCURACY_LOG = max_log" by (simp add: ENTRY_MAX_ACCURACY_LOG_def)
  obtain t1 r where rd: "read_probabilities source max_log (t\<lparr>ft_accuracy_log := 0\<rparr>) = (t1, r)" by fastforce
  note spec = read_probabilities_spec [OF rd]
  show ?thesis
  proof (cases r)
    case (Ok n)
    have f: "n \<le> length source" "ft_accuracy_log t1 \<le> max_log" "5 \<le> ft_accuracy_log t1"
        "probs_fill (ft_accuracy_log t1) (ft_symbol_probabilities t1)"
        "length (ft_symbol_probabilities t1) \<le> unat (ft_max_symbol t) + 1"
      using spec(1) by (simp_all add: Ok)
    have "(2 :: nat) ^ ft_accuracy_log t1 \<le> 2 ^ max_log" using f(2) by (intro power_increasing) simp_all
    then have "2 ^ ft_accuracy_log t1 \<le> length (ft_decode t)" using assms(1) by (rule order_trans)
    then have b: "buildable t1" using f spec(2,3) assms by (simp add: buildable_def)
    obtain spread t2 where t2: "build_decoding_table_meta ops meta t1 = (t2, Ok ())" "built ops meta t1 spread t2"
      using build_decoding_table_spec [OF b] by blast
    have "table_ok ops t2" using built_table_ok [OF b t2(2)] .
    then show ?thesis using f t2 rd Ok
      by (simp add: decoder_result_ok_def build_decoder_fused_def min Let_def built_def)
  qed (use spec(1) rd in \<open>simp_all add: decoder_result_ok_def build_decoder_fused_def min Let_def\<close>)
qed

lemma build_decoder_keeps:
  assumes "2 ^ max_log \<le> length (ft_decode t)" "length (ft_decode t) \<le> 512"
  shows "length (ft_decode (fst (build_decoder_fused ops source max_log meta t))) = length (ft_decode t)"
proof -
  have ml: "max_log \<le> 9" using assms log_of_512 [of max_log] by linarith
  then have min: "min max_log ENTRY_MAX_ACCURACY_LOG = max_log" by (simp add: ENTRY_MAX_ACCURACY_LOG_def)
  obtain t1 r where rd: "read_probabilities source max_log (t\<lparr>ft_accuracy_log := 0\<rparr>) = (t1, r)" by fastforce
  note spec = read_probabilities_spec [OF rd]
  show ?thesis
  proof (cases r)
    case (Ok n)
    have f: "ft_accuracy_log t1 \<le> max_log" "5 \<le> ft_accuracy_log t1" "probs_fill (ft_accuracy_log t1) (ft_symbol_probabilities t1)"
        "length (ft_symbol_probabilities t1) \<le> unat (ft_max_symbol t) + 1"
      using spec(1) by (simp_all add: Ok)
    have "(2 :: nat) ^ ft_accuracy_log t1 \<le> 2 ^ max_log" using f(1) by (intro power_increasing) simp_all
    then have "2 ^ ft_accuracy_log t1 \<le> length (ft_decode t)" using assms(1) by (rule order_trans)
    then have b: "buildable t1" using f spec(2,3) assms by (simp add: buildable_def)
    obtain spread t2 where "build_decoding_table_meta ops meta t1 = (t2, Ok ())" "built ops meta t1 spread t2"
      using build_decoding_table_spec [OF b] by blast
    then show ?thesis using rd Ok spec(2) by (simp add: build_decoder_fused_def min Let_def built_def)
  qed (use spec(2) rd in \<open>simp_all add: build_decoder_fused_def min Let_def\<close>)
qed

end

section \<open>Properties\<close>

text \<open>
  C20. Building a decoding table from untrusted bytes is total and safe. For every input, every accuracy
  limit the array can hold and every earlier state of the table, the build returns; on success the
  probabilities fill the table, the table is well formed and the bytes counted are part of the input;
  the only errors are too few bits, too many symbols and an accuracy log above the limit, so the sum
  mismatch, the invariant violation and every panic of the code are unreachable.
\<close>

theorem build_decoder_total:
  assumes "2 ^ max_log \<le> length (ft_decode t)" "length (ft_decode t) \<le> 512"
    "2 ^ weight_log \<le> length (ft_decode u)" "length (ft_decode u) \<le> 512"
  shows "decoder_result_ok seq_symbol_ops source max_log (build_decoder_fused seq_symbol_ops source max_log meta t)
     \<and> decoder_result_ok entry_ops source weight_log (build_decoder entry_ops source weight_log u)"
  unfolding build_decoder_def
  using seq_entry.build_decoder_ok [OF assms(1,2)] huf_entry.build_decoder_ok [OF assms(3,4)] by blast

theorem build_decoder_total_witness:
  "decoder_result_ok seq_symbol_ops [0x30, 0x6F] 9
      (build_decoder_fused seq_symbol_ops [0x30, 0x6F] 9 Offsets (fse_table_new 512 31))
   \<and> decoder_result_ok entry_ops [0x30, 0x6F] 6 (build_decoder entry_ops [0x30, 0x6F] 6 (fse_table_new 64 255))"
  by (rule build_decoder_total) (simp_all add: fse_table_new_def)

end
