(* ===== verification/Fse_Decoder.thy ===== *)
theory Fse_Decoder
  imports Fse_Read Bit_Reader_Reverse
begin

text \<open>
  The FSE state machine of \<^verbatim>\<open>zstd/src/fse/fse_decoder.rs\<close> over the reversed bit reader: the first
  state, and the checked and the unchecked state update. \<open>read_entry\<close> has no bounds check in the
  source; here it has no result outside the initialised entries, so a read the code must not make is a
  missing result.
\<close>

section \<open>The decoder\<close>

record 'e fse_decoder =
  fd_state :: 'e
  fd_table :: "'e fse_table"

datatype fse_decoder_error =
    FseDecGetBitsError get_bits_error
  | TableIsUninitialized
  | InvalidTableShape (shape_decode_len: nat) (shape_accuracy_log: nat)

definition fse_decoder_new :: "'e \<Rightarrow> 'e fse_table \<Rightarrow> 'e fse_decoder" where
  "fse_decoder_new default_state table = \<lparr>fd_state = default_state, fd_table = table\<rparr>"

definition decode_symbol :: "entry fse_decoder \<Rightarrow> u8" where
  "decode_symbol d = e_symbol (fd_state d)"

definition read_entry :: "'e fse_decoder \<Rightarrow> nat \<Rightarrow> 'e option" where
  "read_entry d idx =
     (if idx < ft_decode_len (fd_table d) \<and> idx < length (ft_decode (fd_table d))
      then ft_decode (fd_table d) ! idx else None)"

text \<open>\<open>1usize.checked_shl(n)\<close>\<close>

definition checked_shl_one :: "nat \<Rightarrow> nat option" where
  "checked_shl_one n = (if n < 64 then Some (2 ^ n) else None)"

definition init_state ::
  "bool \<Rightarrow> (u64 \<Rightarrow> nat \<Rightarrow> u64) \<Rightarrow> 'e fse_decoder \<Rightarrow> bit_reader_rev
     \<Rightarrow> ('e fse_decoder \<times> bit_reader_rev, fse_decoder_error) result" where
  "init_state on_amd mlb d bits =
     (let table = fd_table d; accuracy_log = ft_accuracy_log table; decode_len = ft_decode_len table in
      if decode_len = 0 then Err TableIsUninitialized
      else case checked_shl_one accuracy_log of
        None \<Rightarrow> Err (InvalidTableShape decode_len accuracy_log)
      | Some expected \<Rightarrow>
          if decode_len \<noteq> expected then Err (InvalidTableShape decode_len accuracy_log)
          else
            rbind (or_panic (get_bits_rev on_amd mlb bits accuracy_log)) (\<lambda>(new_state, bits).
            rbind (or_panic (read_entry d (unat new_state))) (\<lambda>st.
              Ok (d\<lparr>fd_state := st\<rparr>, bits))))"

definition update_state ::
  "'e fse_entry_ops \<Rightarrow> bool \<Rightarrow> (u64 \<Rightarrow> nat \<Rightarrow> u64) \<Rightarrow> 'e fse_decoder \<Rightarrow> bit_reader_rev
     \<Rightarrow> ('e fse_decoder \<times> bit_reader_rev) option" where
  "update_state ops on_amd mlb d bits =
     (if ft_decode_len (fd_table d) = 0 then None
      else
        let num_bits = unat (fe_num_bits ops (fd_state d)) in
        Option.bind (get_bits_rev on_amd mlb bits num_bits) (\<lambda>(add, bits).
        let next_state = unat (fe_new_state ops (fd_state d)) + unat add in
        Option.bind (read_entry d next_state) (\<lambda>st. Some (d\<lparr>fd_state := st\<rparr>, bits))))"

definition update_state_fast ::
  "'e fse_entry_ops \<Rightarrow> (u64 \<Rightarrow> nat \<Rightarrow> u64) \<Rightarrow> 'e fse_decoder \<Rightarrow> bit_reader_rev
     \<Rightarrow> ('e fse_decoder \<times> bit_reader_rev) option" where
  "update_state_fast ops mlb d bits =
     (let num_bits = unat (fe_num_bits ops (fd_state d));
          (add, bits) = get_bits_unchecked mlb bits num_bits;
          next_state = unat (fe_new_state ops (fd_state d)) + unat add
      in Option.bind (read_entry d next_state) (\<lambda>st. Some (d\<lparr>fd_state := st\<rparr>, bits)))"

section \<open>States of a well-formed table\<close>

text \<open>A decoder whose state is one of its table's entries.\<close>

definition decoder_ok :: "'e fse_entry_ops \<Rightarrow> 'e fse_decoder \<Rightarrow> bool" where
  "decoder_ok ops d \<longleftrightarrow> table_ok ops (fd_table d) \<and> Some (fd_state d) \<in> set (take (ft_decode_len (fd_table d)) (ft_decode (fd_table d)))"

lemma decoder_ok_entry: "decoder_ok ops d \<Longrightarrow> entry_ok ops (ft_accuracy_log (fd_table d)) (fd_state d)"
  by (auto simp: decoder_ok_def table_ok_def in_set_conv_nth)

lemma read_entry_ok:
  assumes "table_ok ops (fd_table d)" "idx < 2 ^ ft_accuracy_log (fd_table d)"
  shows "\<exists>e. read_entry d idx = Some e \<and> decoder_ok ops (d\<lparr>fd_state := e\<rparr>)"
proof -
  let ?t = "fd_table d"
  have t: "ft_decode_len ?t = 2 ^ ft_accuracy_log ?t" "ft_decode_len ?t \<le> length (ft_decode ?t)"
    using assms(1) by (simp_all add: table_ok_def)
  with assms obtain e where e: "ft_decode ?t ! idx = Some e" by (auto simp: table_ok_def)
  then have "read_entry d idx = Some e" using assms(2) t by (simp add: read_entry_def)
  moreover have "Some e \<in> set (take (ft_decode_len ?t) (ft_decode ?t))"
    using e assms(2) t by (auto simp: in_set_conv_nth intro!: exI [of _ idx])
  ultimately show ?thesis using assms(1) by (auto simp: decoder_ok_def)
qed

lemma rev_field_less:
  assumes "rev_field source p n v"
  shows "unat v < 2 ^ n"
proof -
  have "drop_bit n v = 0" using assms by (simp add: drop_bit_eq_0_iff rev_field_def)
  then show ?thesis by (simp only: drop_bit_eq_0_iff_less)
qed

context cpu_kernel
begin

lemma init_state_ok:
  assumes "table_ok ops (fd_table d)" "rev_inv r"
  shows "\<exists>d' r' v. init_state on_amd mask_lower_bits d r = Ok (d', r') \<and> decoder_ok ops d' \<and> fd_table d' = fd_table d
     \<and> rev_inv r' \<and> bits_remaining r' = bits_remaining r - int (ft_accuracy_log (fd_table d)) \<and> rr_source r' = rr_source r
     \<and> rev_field (rr_source r) (bits_remaining r) (ft_accuracy_log (fd_table d)) v \<and> read_entry d (unat v) = Some (fd_state d')"
proof -
  let ?al = "ft_accuracy_log (fd_table d)"
  have t: "?al \<le> 16" "ft_decode_len (fd_table d) = 2 ^ ?al" using assms(1) by (simp_all add: table_ok_def)
  obtain v r' where v: "get_bits_rev on_amd mask_lower_bits r ?al = Some (v, r')" "rev_field (rr_source r) (bits_remaining r) ?al v"
      "rev_inv r'" "bits_remaining r' = bits_remaining r - int ?al" "rr_source r' = rr_source r"
    using get_bits_rev_ok [OF assms(2), of ?al on_amd] t(1) by auto
  obtain e where "read_entry d (unat v) = Some e" "decoder_ok ops (d\<lparr>fd_state := e\<rparr>)"
    using read_entry_ok [OF assms(1) rev_field_less [OF v(2)]] by blast
  then show ?thesis using t v by (auto simp: init_state_def checked_shl_one_def Let_def)
qed

text \<open>One state update: the next state is the table entry the transition names.\<close>

lemma update_state_fast_ok:
  assumes "decoder_ok ops d" "rev_inv r" "rr_bits_consumed r + unat (fe_num_bits ops (fd_state d)) \<le> 64"
  shows "\<exists>d' r'. update_state_fast ops mask_lower_bits d r = Some (d', r') \<and> decoder_ok ops d' \<and> fd_table d' = fd_table d
     \<and> rev_inv r' \<and> bits_remaining r' = bits_remaining r - int (unat (fe_num_bits ops (fd_state d))) \<and> rr_source r' = rr_source r
     \<and> rr_bits_consumed r' = rr_bits_consumed r + unat (fe_num_bits ops (fd_state d))"
proof -
  let ?nb = "unat (fe_num_bits ops (fd_state d))"
  obtain v r' where v: "get_bits_unchecked mask_lower_bits r ?nb = (v, r')" "rev_field (rr_source r) (bits_remaining r) ?nb v"
      "rev_inv r'" "bits_remaining r' = bits_remaining r - int ?nb" "rr_source r' = rr_source r"
      "rr_bits_consumed r' = rr_bits_consumed r + ?nb"
    using get_bits_unchecked_ok [OF assms(2,3)] by blast
  have "unat (fe_new_state ops (fd_state d)) + unat v < 2 ^ ft_accuracy_log (fd_table d)"
    using decoder_ok_entry [OF assms(1)] rev_field_less [OF v(2)] by (simp add: entry_ok_def)
  with read_entry_ok [of ops d] assms(1) obtain e where
      "read_entry d (unat (fe_new_state ops (fd_state d)) + unat v) = Some e" "decoder_ok ops (d\<lparr>fd_state := e\<rparr>)"
    by (auto simp: decoder_ok_def)
  then show ?thesis using v by (auto simp: update_state_fast_def Let_def)
qed

text \<open>The checked update reads the same field, refilling first when the container is short.\<close>

lemma update_state_ok:
  assumes "decoder_ok ops d" "rev_inv r"
  shows "\<exists>d' r'. update_state ops on_amd mask_lower_bits d r = Some (d', r') \<and> decoder_ok ops d' \<and> fd_table d' = fd_table d
     \<and> rev_inv r' \<and> bits_remaining r' = bits_remaining r - int (unat (fe_num_bits ops (fd_state d))) \<and> rr_source r' = rr_source r
     \<and> (rr_bits_consumed r + unat (fe_num_bits ops (fd_state d)) \<le> 64
          \<longrightarrow> update_state_fast ops mask_lower_bits d r = Some (d', r'))"
proof -
  let ?nb = "unat (fe_num_bits ops (fd_state d))"
  have nb: "?nb \<le> 56" "ft_decode_len (fd_table d) \<noteq> 0"
    using decoder_ok_entry [OF assms(1)] assms(1) by (auto simp: entry_ok_def decoder_ok_def table_ok_def)
  obtain r1 where r1: "ensure_bits on_amd r ?nb = Some r1" "rev_inv r1" "rr_bits_consumed r1 + ?nb \<le> 64"
      "bits_remaining r1 = bits_remaining r" "rr_source r1 = rr_source r"
    using ensure_bits_ok [OF assms(2) nb(1)] by blast
  have "update_state ops on_amd mask_lower_bits d r = update_state_fast ops mask_lower_bits d r1"
    using r1(1) nb(2)
    by (simp add: update_state_def update_state_fast_def get_bits_rev_def ensure_bits_def get_bits_unchecked_def Let_def)
  moreover have "r1 = r" if "rr_bits_consumed r + ?nb \<le> 64" using r1(1) that by (simp add: ensure_bits_def)
  ultimately show ?thesis using update_state_fast_ok [OF assms(1) r1(2,3)] r1(4,5) by auto
qed

end

section \<open>Properties\<close>

text \<open>Any number of checked updates after the first state.\<close>

fun run_updates ::
  "'e fse_entry_ops \<Rightarrow> bool \<Rightarrow> (u64 \<Rightarrow> nat \<Rightarrow> u64) \<Rightarrow> nat \<Rightarrow> 'e fse_decoder \<Rightarrow> bit_reader_rev
     \<Rightarrow> ('e fse_decoder \<times> bit_reader_rev) option" where
  "run_updates ops on_amd mlb 0 d r = Some (d, r)"
| "run_updates ops on_amd mlb (Suc n) d r =
     Option.bind (update_state ops on_amd mlb d r) (\<lambda>(d, r). run_updates ops on_amd mlb n d r)"

context cpu_kernel
begin

lemma run_updates_ok:
  assumes "decoder_ok ops d" "rev_inv r"
  shows "\<exists>d' r'. run_updates ops on_amd mask_lower_bits n d r = Some (d', r') \<and> decoder_ok ops d' \<and> fd_table d' = fd_table d
     \<and> rev_inv r'"
  using assms
proof (induction n arbitrary: d r)
  case (Suc n)
  obtain d1 r1 where "update_state ops on_amd mask_lower_bits d r = Some (d1, r1)" "decoder_ok ops d1" "fd_table d1 = fd_table d" "rev_inv r1"
    using update_state_ok [OF Suc.prems, of on_amd] by blast
  with Suc.IH [of d1 r1] show ?case by auto
qed simp

end

text \<open>
  C21. FSE decoding never leaves its table. From a well-formed table and any byte string, the first state
  and any number of state updates, also past the end of the bits, read only initialised entries of the
  table, with either mask kernel; and whenever the container already holds the bits, the update without
  a refill check does the same as the checked one.
\<close>

theorem fse_decoding_stays_in_table:
  assumes "table_ok seq_symbol_ops t" "mlb \<in> {scalar_mask_lower_bits, mask_lower_bits_bmi2_impl}"
  shows "\<exists>d0 r0 d r. init_state on_amd mlb (fse_decoder_new s0 t) (bit_reader_rev_new source) = Ok (d0, r0)
     \<and> run_updates seq_symbol_ops on_amd mlb n d0 r0 = Some (d, r) \<and> decoder_ok seq_symbol_ops d \<and> fd_table d = t
     \<and> (rr_bits_consumed r + unat (ss_num_bits (fd_state d)) \<le> 64
          \<longrightarrow> update_state_fast seq_symbol_ops mlb d r = update_state seq_symbol_ops on_amd mlb d r)"
proof -
  have kernel: "cpu_kernel mlb"
    using assms(2) scalar_kernel.cpu_kernel_axioms bmi2_kernel.cpu_kernel_axioms by auto
  obtain d0 r0 where i: "init_state on_amd mlb (fse_decoder_new s0 t) (bit_reader_rev_new source) = Ok (d0, r0)"
      "decoder_ok seq_symbol_ops d0" "fd_table d0 = t" "rev_inv r0"
    using cpu_kernel.init_state_ok [OF kernel, of seq_symbol_ops "fse_decoder_new s0 t"] assms(1) rev_inv_new
    by (fastforce simp: fse_decoder_new_def)
  obtain d r where r: "run_updates seq_symbol_ops on_amd mlb n d0 r0 = Some (d, r)" "decoder_ok seq_symbol_ops d"
      "fd_table d = t" "rev_inv r"
    using cpu_kernel.run_updates_ok [OF kernel i(2,4)] i(3) by metis
  have "rr_bits_consumed r + unat (ss_num_bits (fd_state d)) \<le> 64
      \<longrightarrow> update_state_fast seq_symbol_ops mlb d r = update_state seq_symbol_ops on_amd mlb d r"
    using cpu_kernel.update_state_ok [OF kernel r(2,4), of on_amd] by (auto simp: seq_symbol_ops_def)
  with i(1) r show ?thesis by blast
qed

lemma demo_table_ok: "table_ok seq_symbol_ops (fst (build_decoding_table_meta seq_symbol_ops Offsets demo_seq_table))"
proof -
  obtain spread t' where "build_decoding_table_meta seq_symbol_ops Offsets demo_seq_table = (t', Ok ())"
      "built seq_symbol_ops Offsets demo_seq_table spread t'"
    using build_decoding_table_spec [OF demo_tables(1), of seq_symbol_ops Offsets] by blast
  then show ?thesis using seq_entry.built_table_ok [OF demo_tables(1)] by simp
qed

theorem fse_decoding_stays_in_table_witness:
  "\<exists>d0 r0 d r. init_state True scalar_mask_lower_bits
        (fse_decoder_new \<lparr>ss_new_state = 0, ss_num_bits = 0, ss_num_additional_bits = 0, ss_base_value = 0\<rparr>
           (fst (build_decoding_table_meta seq_symbol_ops Offsets demo_seq_table)))
        (bit_reader_rev_new [0x5A, 0xC3]) = Ok (d0, r0)
     \<and> run_updates seq_symbol_ops True scalar_mask_lower_bits 3 d0 r0 = Some (d, r) \<and> decoder_ok seq_symbol_ops d
     \<and> fd_table d = fst (build_decoding_table_meta seq_symbol_ops Offsets demo_seq_table)
     \<and> (rr_bits_consumed r + unat (ss_num_bits (fd_state d)) \<le> 64
          \<longrightarrow> update_state_fast seq_symbol_ops scalar_mask_lower_bits d r
              = update_state seq_symbol_ops True scalar_mask_lower_bits d r)"
  by (rule fse_decoding_stays_in_table [OF demo_table_ok]) simp

end
