(* ===== verification/Sequence_Decoder.thy ===== *)
theory Sequence_Decoder
  imports Fse_Decoder Sequence_Codes Bit_Streams
begin

text \<open>
  Decoding sequences from the bit stream (\<^verbatim>\<open>zstd/src/decoding/seq_decoder_scalar.rs\<close>): the reading of one
  sequence in its two forms, the three state updates after it, and the loops over a block's sequences,
  the direct one and the pipelined one with its ring of eight. The execution of a sequence is an
  argument of the loops. The parameter \<open>fast\<close> stands for the targets whose \<open>refill_sequence\<close> is its own
  (see the reversed reader); the prefetches of the pipelined loop have no effect and are left out.
\<close>

section \<open>One sequence\<close>

record sequence =
  sq_ll :: u32
  sq_ml :: u32
  sq_of :: u32

text \<open>\<open>decode_one_body!\<close>: the offset value is still coded.\<close>

definition decode_one ::
  "bool \<Rightarrow> (u64 \<Rightarrow> nat \<Rightarrow> u64) \<Rightarrow> seq_symbol \<Rightarrow> seq_symbol \<Rightarrow> seq_symbol \<Rightarrow> bit_reader_rev
     \<Rightarrow> (sequence \<times> bit_reader_rev) option" where
  "decode_one on_amd mlb ll_state ml_state of_state br =
     Option.bind (get_bits_triple on_amd mlb br (unat (ss_num_additional_bits of_state))
         (unat (ss_num_additional_bits ml_state)) (unat (ss_num_additional_bits ll_state)))
       (\<lambda>((obits, ml_add, ll_add), br).
          let offset = ucast obits + ss_base_value of_state
          in Some (\<lparr>sq_ll = ss_base_value ll_state + ucast ll_add,
                    sq_ml = ss_base_value ml_state + ucast ml_add, sq_of = offset\<rparr>, br))"

definition read_additional_bits :: "bit_reader_rev \<Rightarrow> nat \<Rightarrow> u32 \<times> bit_reader_rev" where
  "read_additional_bits br n =
     (let v = drop_bit (64 - n) (push_bit (rr_bits_consumed br mod 64) (rr_bit_container br))
      in (ucast v, consume br n))"

text \<open>\<open>if n == 0 { 0 } else { read_additional_bits(br, n) }\<close>\<close>

definition read_optional_bits :: "bit_reader_rev \<Rightarrow> nat \<Rightarrow> u32 \<times> bit_reader_rev" where
  "read_optional_bits br n = (if n = 0 then (0, br) else read_additional_bits br n)"

text \<open>The offset part of \<open>decode_resolved\<close>: it resolves the repeat codes while it reads their bits.\<close>

fun resolve_offset ::
  "seq_symbol \<Rightarrow> seq_symbol \<Rightarrow> bit_reader_rev \<Rightarrow> offset_hist \<Rightarrow> (u32 \<times> offset_hist \<times> bit_reader_rev) option" where
  "resolve_offset ll of_state br (h0, h1, h2) =
     (let n = unat (ss_num_additional_bits of_state) in
      if n > 1 then
        let (v, br) = read_additional_bits br n;
            offset = ss_base_value of_state + v - 3
        in Some (offset, (offset, h0, h1), br)
      else if n = 0 then
        let offset = (if ss_base_value ll = 0 then h1 else h0);
            h1 = (if ss_base_value ll = 0 then h0 else h1)
        in Some (offset, (offset, h1, h2), br)
      else
        let (v, br) = read_additional_bits br 1;
            index = 1 + of_bool (ss_base_value ll = 0) + unat v in
        Option.bind (if index = 3 then Some (h0 - 1) else hist_at (h0, h1, h2) index) (\<lambda>offset.
          let h2 = (if index \<noteq> 1 then h1 else h2)
          in Some (offset, (offset, h0, h2), br)))"

definition decode_resolved ::
  "bool \<Rightarrow> bool \<Rightarrow> seq_symbol \<Rightarrow> seq_symbol \<Rightarrow> seq_symbol \<Rightarrow> bit_reader_rev \<Rightarrow> offset_hist
     \<Rightarrow> (sequence \<times> bit_reader_rev \<times> offset_hist) option" where
  "decode_resolved fast on_amd ll ml of_state br hist =
     Option.bind (resolve_offset ll of_state br hist) (\<lambda>(offset, hist, br).
     let (ml_add, br) = read_optional_bits br (unat (ss_num_additional_bits ml));
         ll_budget = unat (ss_num_additional_bits ll) + 9 + 9 + 8 in
     Option.bind (if rr_bits_consumed br + ll_budget > 64 then refill_sequence fast on_amd br else Some br) (\<lambda>br.
     let (ll_add, br) = read_optional_bits br (unat (ss_num_additional_bits ll))
     in Some (\<lparr>sq_ll = ss_base_value ll + ll_add, sq_ml = ss_base_value ml + ml_add, sq_of = offset\<rparr>, br, hist)))"

section \<open>The loops\<close>

definition ADVANCE :: nat where
  "ADVANCE = 8"

definition ADVANCE_MASK :: nat where
  "ADVANCE_MASK = ADVANCE - 1"

text \<open>The gate of the pipelined loop; \<open>min_share\<close> is 7 on 64-bit targets and 20 elsewhere.\<close>

definition compute_use_long_pipeline :: "nat \<Rightarrow> nat \<Rightarrow> bool \<Rightarrow> nat \<Rightarrow> nat \<Rightarrow> bool" where
  "compute_use_long_pipeline min_share num_sequences ddict_is_cold total_history offsets_long_share \<longleftrightarrow>
     num_sequences \<ge> ADVANCE * 2
     \<and> (ddict_is_cold \<or> (total_history > 2 ^ 24 \<and> offsets_long_share \<ge> min_share))"

record seq_decs =
  sd_ll :: "seq_symbol fse_decoder"
  sd_ml :: "seq_symbol fse_decoder"
  sd_of :: "seq_symbol fse_decoder"

text \<open>The three \<open>update_state_fast\<close> calls after a sequence.\<close>

definition update_three ::
  "(u64 \<Rightarrow> nat \<Rightarrow> u64) \<Rightarrow> seq_decs \<Rightarrow> bit_reader_rev \<Rightarrow> (seq_decs \<times> bit_reader_rev) option" where
  "update_three mlb d br =
     Option.bind (update_state_fast seq_symbol_ops mlb (sd_ll d) br) (\<lambda>(ll, br).
     Option.bind (update_state_fast seq_symbol_ops mlb (sd_ml d) br) (\<lambda>(ml, br).
     Option.bind (update_state_fast seq_symbol_ops mlb (sd_of d) br) (\<lambda>(off, br).
       Some (\<lparr>sd_ll = ll, sd_ml = ml, sd_of = off\<rparr>, br))))"

text \<open>
  \<open>execute_one_body!\<close> is the argument \<open>exec\<close>: it changes the output state and may fail. The state it
  leaves is returned also with an error.
\<close>

type_synonym ('x, 'e) executor = "'x \<Rightarrow> sequence \<Rightarrow> 'x \<times> (unit, 'e) result"

fun direct_loop ::
  "('x, 'e) executor \<Rightarrow> bool \<Rightarrow> bool \<Rightarrow> (u64 \<Rightarrow> nat \<Rightarrow> u64) \<Rightarrow> nat \<Rightarrow> seq_decs \<Rightarrow> bit_reader_rev \<Rightarrow> offset_hist
     \<Rightarrow> 'x \<Rightarrow> u32 \<Rightarrow> 'x \<times> (offset_hist \<times> bit_reader_rev \<times> u32, 'e) result" where
  "direct_loop exec fast on_amd mlb 0 d br shadow_hist x seq_sum = (x, Ok (shadow_hist, br, seq_sum))"
| "direct_loop exec fast on_amd mlb (Suc n) d br shadow_hist x seq_sum =
     (case decode_resolved fast on_amd (fd_state (sd_ll d)) (fd_state (sd_ml d)) (fd_state (sd_of d)) br shadow_hist of
        None \<Rightarrow> (x, Panic)
      | Some (seq, br, shadow_hist) \<Rightarrow>
          (case (if n > 0 then
                   Option.bind (update_three mlb d br) (\<lambda>(d, br).
                   Option.bind (refill_sequence fast on_amd br) (\<lambda>br. Some (d, br)))
                 else Some (d, br)) of
             None \<Rightarrow> (x, Panic)
           | Some (d, br) \<Rightarrow>
               (case exec x seq of
                  (x, Ok _) \<Rightarrow> direct_loop exec fast on_amd mlb n d br shadow_hist x (seq_sum + sq_ll seq + sq_ml seq)
                | (x, Err e) \<Rightarrow> (x, Err e)
                | (x, Panic) \<Rightarrow> (x, Panic))))"

definition decode_short_sequences ::
  "('x, 'e) executor \<Rightarrow> bool \<Rightarrow> bool \<Rightarrow> (u64 \<Rightarrow> nat \<Rightarrow> u64) \<Rightarrow> nat \<Rightarrow> seq_decs \<Rightarrow> bit_reader_rev \<Rightarrow> offset_hist
     \<Rightarrow> 'x \<Rightarrow> 'x \<times> (offset_hist \<times> bit_reader_rev \<times> u32, 'e) result" where
  "decode_short_sequences exec fast on_amd mlb num_sequences d br offset_hist x =
     (case refill_sequence fast on_amd br of
        None \<Rightarrow> (x, Panic)
      | Some br \<Rightarrow> direct_loop exec fast on_amd mlb num_sequences d br offset_hist x 0)"

text \<open>Decoding ahead: a sequence with its offset resolved on the shadow history.\<close>

definition decode_ahead ::
  "bool \<Rightarrow> (u64 \<Rightarrow> nat \<Rightarrow> u64) \<Rightarrow> seq_decs \<Rightarrow> bit_reader_rev \<Rightarrow> offset_hist
     \<Rightarrow> (sequence \<times> bit_reader_rev \<times> offset_hist) option" where
  "decode_ahead on_amd mlb d br shadow_hist =
     Option.bind (decode_one on_amd mlb (fd_state (sd_ll d)) (fd_state (sd_ml d)) (fd_state (sd_of d)) br) (\<lambda>(seq, br).
     Option.bind (do_offset_history (sq_of seq) (sq_ll seq) shadow_hist) (\<lambda>(actual_offset, shadow_hist).
       Some (seq\<lparr>sq_of := actual_offset\<rparr>, br, shadow_hist)))"

definition ensure_and_update ::
  "bool \<Rightarrow> (u64 \<Rightarrow> nat \<Rightarrow> u64) \<Rightarrow> nat \<Rightarrow> seq_decs \<Rightarrow> bit_reader_rev \<Rightarrow> (seq_decs \<times> bit_reader_rev) option" where
  "ensure_and_update on_amd mlb max_update_bits d br =
     Option.bind (ensure_bits on_amd br max_update_bits) (update_three mlb d)"

fun prefill_ring ::
  "bool \<Rightarrow> (u64 \<Rightarrow> nat \<Rightarrow> u64) \<Rightarrow> nat \<Rightarrow> nat \<Rightarrow> seq_decs \<Rightarrow> bit_reader_rev \<Rightarrow> offset_hist
     \<Rightarrow> (sequence list \<times> seq_decs \<times> bit_reader_rev \<times> offset_hist) option" where
  "prefill_ring on_amd mlb max_update_bits 0 d br shadow_hist = Some ([], d, br, shadow_hist)"
| "prefill_ring on_amd mlb max_update_bits (Suc k) d br shadow_hist =
     Option.bind (decode_ahead on_amd mlb d br shadow_hist) (\<lambda>(seq, br, shadow_hist).
     Option.bind (ensure_and_update on_amd mlb max_update_bits d br) (\<lambda>(d, br).
     Option.bind (prefill_ring on_amd mlb max_update_bits k d br shadow_hist) (\<lambda>(ring, d, br, shadow_hist).
       Some (seq # ring, d, br, shadow_hist))))"

text \<open>The loop from \<open>i\<close> on with \<open>m\<close> sequences to go, and the drain of the ring after it.\<close>

fun drain_ring ::
  "('x, 'e) executor \<Rightarrow> nat \<Rightarrow> nat \<Rightarrow> sequence list \<Rightarrow> 'x \<Rightarrow> u32 \<Rightarrow> nat \<Rightarrow> 'x \<times> (u32, 'e) result" where
  "drain_ring exec num_sequences k ring x seq_sum 0 = (x, Ok seq_sum)"
| "drain_ring exec num_sequences k ring x seq_sum (Suc j) =
     (case index_of ring ((num_sequences + k) AND ADVANCE_MASK) of
        Ok exec_seq \<Rightarrow>
          (case exec x exec_seq of
             (x, Ok _) \<Rightarrow> drain_ring exec num_sequences (Suc k) ring x (seq_sum + sq_ll exec_seq + sq_ml exec_seq) j
           | (x, Err e) \<Rightarrow> (x, Err e)
           | (x, Panic) \<Rightarrow> (x, Panic))
      | Err e \<Rightarrow> (x, Err e)
      | Panic \<Rightarrow> (x, Panic))"

fun pipeline_loop ::
  "('x, 'e) executor \<Rightarrow> bool \<Rightarrow> (u64 \<Rightarrow> nat \<Rightarrow> u64) \<Rightarrow> nat \<Rightarrow> nat \<Rightarrow> nat \<Rightarrow> nat \<Rightarrow> seq_decs \<Rightarrow> bit_reader_rev
     \<Rightarrow> offset_hist \<Rightarrow> sequence list \<Rightarrow> 'x \<Rightarrow> u32 \<Rightarrow> 'x \<times> (offset_hist \<times> bit_reader_rev \<times> u32, 'e) result" where
  "pipeline_loop exec on_amd mlb max_update_bits num_sequences i 0 d br shadow_hist ring x seq_sum =
     (case drain_ring exec num_sequences 0 ring x seq_sum ADVANCE of
        (x, Ok seq_sum) \<Rightarrow> (x, Ok (shadow_hist, br, seq_sum))
      | (x, Err e) \<Rightarrow> (x, Err e)
      | (x, Panic) \<Rightarrow> (x, Panic))"
| "pipeline_loop exec on_amd mlb max_update_bits num_sequences i (Suc m) d br shadow_hist ring x seq_sum =
     (case decode_ahead on_amd mlb d br shadow_hist of
        None \<Rightarrow> (x, Panic)
      | Some (seq, br, shadow_hist) \<Rightarrow>
          let slot = i AND ADVANCE_MASK in
          (case index_of ring slot of
             Ok exec_seq \<Rightarrow>
               let ring = ring[slot := seq] in
               (case exec x exec_seq of
                  (x, Ok _) \<Rightarrow>
                    let seq_sum = seq_sum + sq_ll exec_seq + sq_ml exec_seq in
                    (case (if m > 0 then ensure_and_update on_amd mlb max_update_bits d br else Some (d, br)) of
                       None \<Rightarrow> (x, Panic)
                     | Some (d, br) \<Rightarrow>
                         pipeline_loop exec on_amd mlb max_update_bits num_sequences (Suc i) m d br shadow_hist ring x seq_sum)
                | (x, Err e) \<Rightarrow> (x, Err e)
                | (x, Panic) \<Rightarrow> (x, Panic))
           | Err e \<Rightarrow> (x, Err e)
           | Panic \<Rightarrow> (x, Panic)))"

definition decode_long_sequences ::
  "('x, 'e) executor \<Rightarrow> bool \<Rightarrow> (u64 \<Rightarrow> nat \<Rightarrow> u64) \<Rightarrow> nat \<Rightarrow> nat \<Rightarrow> seq_decs \<Rightarrow> bit_reader_rev \<Rightarrow> offset_hist
     \<Rightarrow> 'x \<Rightarrow> 'x \<times> (offset_hist \<times> bit_reader_rev \<times> u32, 'e) result" where
  "decode_long_sequences exec on_amd mlb max_update_bits num_sequences d br offset_hist x =
     (case prefill_ring on_amd mlb max_update_bits ADVANCE d br offset_hist of
        None \<Rightarrow> (x, Panic)
      | Some (ring, d, br, shadow_hist) \<Rightarrow>
          pipeline_loop exec on_amd mlb max_update_bits num_sequences ADVANCE (num_sequences - ADVANCE) d br shadow_hist ring x 0)"

section \<open>Reading extra bits\<close>

lemma shifted_field:
  assumes "c + n \<le> 64" "0 < n"
  shows "drop_bit (64 - n) (push_bit (c mod 64) (w :: u64)) = take_bit n (drop_bit (64 - c - n) w)"
proof (rule bit_word_eqI)
  fix i assume "i < LENGTH(64)"
  have "c mod 64 = c" using assms by simp
  moreover have "64 - n + i - c = 64 - c - n + i" "c \<le> 64 - n + i" using assms by linarith+
  ultimately show "bit (drop_bit (64 - n) (push_bit (c mod 64) w)) i = bit (take_bit n (drop_bit (64 - c - n) w)) i"
    using assms by (auto simp: bit_drop_bit_eq bit_push_bit_iff bit_take_bit_iff)
qed

lemma read_additional_bits_ok:
  assumes "rev_inv r" "rr_bits_consumed r + n \<le> 64" "0 < n"
  shows "\<exists>v. read_additional_bits r n = (ucast v, consume r n) \<and> rev_field (rr_source r) (bits_remaining r) n v"
proof -
  have "read_additional_bits r n
     = (ucast (take_bit n (drop_bit (64 - rr_bits_consumed r - n) (rr_bit_container r))), consume r n)"
    unfolding read_additional_bits_def Let_def by (simp only: shifted_field [OF assms(2,3)])
  then show ?thesis using window_field [OF assms(1), of 0 n] assms(2) by auto
qed

lemma rev_field_0: "rev_field source p 0 v \<longleftrightarrow> v = 0"
  by (auto simp: rev_field_def intro: bit_word_eqI)

lemma read_optional_bits_ok:
  assumes "rev_inv r" "rr_bits_consumed r + n \<le> 64"
  shows "\<exists>v. read_optional_bits r n = (ucast v, consume r n) \<and> rev_field (rr_source r) (bits_remaining r) n v"
proof (cases "n = 0")
  case True
  then have "read_optional_bits r n = (ucast (0 :: u64), consume r n)"
    by (simp add: read_optional_bits_def consume_def)
  then show ?thesis using True by (auto simp: rev_field_0)
next
  case False
  with read_additional_bits_ok [OF assms] show ?thesis by (simp add: read_optional_bits_def)
qed

section \<open>Both forms decode the same sequence\<close>

text \<open>The metadata a validated table gives its states.\<close>

definition seq_states_ok :: "seq_symbol \<Rightarrow> seq_symbol \<Rightarrow> seq_symbol \<Rightarrow> bool" where
  "seq_states_ok ll ml off \<longleftrightarrow>
     unat (ss_num_additional_bits off) \<le> 31 \<and> ss_base_value off = push_bit (unat (ss_num_additional_bits off)) 1
     \<and> unat (ss_num_additional_bits ll) \<le> 16 \<and> unat (ss_num_additional_bits ml) \<le> 16
     \<and> unat (ss_base_value ll) \<le> 65536 \<and> (ss_base_value ll = 0 \<longrightarrow> ss_num_additional_bits ll = 0)"

lemma unat_field_u32:
  assumes "rev_field source p n v" "n \<le> 32"
  shows "unat (ucast v :: u32) = unat v" "unat (ucast v :: u32) < 2 ^ n"
proof -
  have "unat v < 2 ^ n" by (rule rev_field_less [OF assms(1)])
  moreover have "(2 :: nat) ^ n \<le> 2 ^ 32" using assms(2) by (intro power_increasing) simp_all
  ultimately show "unat (ucast v :: u32) = unat v" "unat (ucast v :: u32) < 2 ^ n"
    by (simp_all add: unsigned_ucast_eq take_bit_nat_eq_self)
qed

lemma offset_value:
  assumes "rev_field source p n v" "n \<le> 31"
  shows "unat (ucast v + push_bit n 1 :: u32) = unat v + 2 ^ n"
proof -
  have "unat (ucast v :: u32) = unat v" "unat v < 2 ^ n"
    using unat_field_u32 [OF assms(1)] rev_field_less [OF assms(1)] assms(2) by simp_all
  moreover have "(2 :: nat) ^ n \<le> 2 ^ 31" using assms(2) by (intro power_increasing) simp_all
  moreover have "unat (push_bit n 1 :: u32) = 2 ^ n"
    using assms(2) by (simp add: push_bit_eq_mult unat_power_word)
  ultimately show ?thesis by (simp add: unat_word_ariths)
qed

lemma small_field_cases:
  assumes "rev_field source p 1 v"
  shows "v = 0 \<or> v = 1"
  using rev_field_less [OF assms] by (auto simp: word_unat_eq_iff)

lemma resolve_offset_ok:
  assumes "rev_inv r" "rr_bits_consumed r + n \<le> 64" "n \<le> 31"
    and n: "n = unat (ss_num_additional_bits off)" "ss_base_value off = push_bit n 1"
    and lit: "lit_len = 0 \<longleftrightarrow> ss_base_value ll = 0"
  shows "\<exists>v a hist'. rev_field (rr_source r) (bits_remaining r) n v
     \<and> resolve_offset ll off r hist = Some (a, hist', consume r n)
     \<and> do_offset_history (ucast v + ss_base_value off) lit_len hist = Some (a, hist')"
proof -
  obtain h0 h1 h2 where hist: "hist = (h0, h1, h2)" by (cases hist) auto
  consider "n = 0" | "n = 1" | "1 < n" by linarith
  then show ?thesis
  proof cases
    case 1
    then show ?thesis using n lit by (auto simp: hist rev_field_0 consume_def Let_def word_le_nat_alt)
  next
    case 2
    obtain v where v: "read_additional_bits r 1 = (ucast v, consume r 1)" "rev_field (rr_source r) (bits_remaining r) 1 v"
      using read_additional_bits_ok [OF assms(1,2)] 2 by auto
    have base: "unat (ss_num_additional_bits off) = 1" "ss_base_value off = 2"
      using n(1) 2 by simp (use n(2) in \<open>simp only: 2, simp\<close>)
    have "\<exists>a hist'. resolve_offset ll off r hist = Some (a, hist', consume r 1)
       \<and> do_offset_history (ucast v + 2) lit_len hist = Some (a, hist')"
      using small_field_cases [OF v(2)]
      by (elim disjE; cases "ss_base_value ll = 0"; simp add: hist v(1) [unfolded One_nat_def] base lit Let_def word_le_nat_alt)
    then show ?thesis using v(2) 2 base(2) by auto
  next
    case 3
    obtain v where v: "read_additional_bits r n = (ucast v, consume r n)" "rev_field (rr_source r) (bits_remaining r) n v"
      using read_additional_bits_ok [OF assms(1,2)] 3 by auto
    have "4 \<le> unat v + 2 ^ n" using power_increasing [of 2 n "2 :: nat"] 3 by simp
    then have "4 \<le> (ucast v + push_bit n 1 :: u32)"
      using offset_value [OF v(2) assms(3)] by (simp only: word_le_nat_alt) simp
    then have "do_offset_history (ucast v + ss_base_value off) lit_len hist
        = Some (ss_base_value off + ucast v - 3, ss_base_value off + ucast v - 3, h0, h1)"
      by (simp add: hist n(2) Let_def add.commute)
    moreover have "resolve_offset ll off r hist
        = Some (ss_base_value off + ucast v - 3, (ss_base_value off + ucast v - 3, h0, h1), consume r n)"
      using 3 by (simp add: hist v(1) n(1) [symmetric] Let_def)
    ultimately show ?thesis using v(2) by blast
  qed
qed

lemma lit_len_zero:
  assumes "seq_states_ok ll ml off" "rev_field source p (unat (ss_num_additional_bits ll)) v"
  shows "ss_base_value ll + ucast v = 0 \<longleftrightarrow> ss_base_value ll = 0"
proof (cases "ss_base_value ll = 0")
  case True
  then show ?thesis using assms by (auto simp: seq_states_ok_def rev_field_0)
next
  case False
  have n: "unat (ss_num_additional_bits ll) \<le> 16" "unat (ss_base_value ll) \<le> 65536"
    using assms(1) by (simp_all add: seq_states_ok_def)
  have "unat (ucast v :: u32) < 2 ^ unat (ss_num_additional_bits ll)" using unat_field_u32 [OF assms(2)] n by simp
  moreover have "(2 :: nat) ^ unat (ss_num_additional_bits ll) \<le> 2 ^ 16" using n by (intro power_increasing) simp_all
  ultimately have "unat (ss_base_value ll + ucast v) = unat (ss_base_value ll) + unat (ucast v :: u32)"
    using n by (simp add: unat_word_ariths)
  then show ?thesis using False by (auto simp: word_unat_eq_iff)
qed

context cpu_kernel
begin

lemma decode_resolved_ok:
  assumes st: "seq_states_ok ll ml off" and r: "rev_inv r" "rr_bits_consumed r \<le> 8"
  shows "\<exists>s r1 a hist' r2. decode_one on_amd mask_lower_bits ll ml off r = Some (s, r1)
     \<and> do_offset_history (sq_of s) (sq_ll s) hist = Some (a, hist')
     \<and> decode_resolved fast on_amd ll ml off r hist = Some (s\<lparr>sq_of := a\<rparr>, r2, hist')
     \<and> rev_inv r1 \<and> rev_inv r2 \<and> rr_source r1 = rr_source r \<and> rr_source r2 = rr_source r
     \<and> bits_remaining r2 = bits_remaining r1 \<and> rr_bits_consumed r2 + 26 \<le> 64"
proof -
  let ?no = "unat (ss_num_additional_bits off)" and ?nm = "unat (ss_num_additional_bits ml)" and ?nl = "unat (ss_num_additional_bits ll)"
  have n: "?no \<le> 31" "?nm \<le> 16" "?nl \<le> 16" using st by (simp_all add: seq_states_ok_def)
  obtain v1 v2 v3 r1 where t: "get_bits_triple on_amd mask_lower_bits r ?no ?nm ?nl = Some ((v1, v2, v3), r1)"
      "rev_field (rr_source r) (bits_remaining r) ?no v1"
      "rev_field (rr_source r) (bits_remaining r - int ?no) ?nm v2"
      "rev_field (rr_source r) (bits_remaining r - int ?no - int ?nm) ?nl v3"
      "rev_inv r1" "bits_remaining r1 = bits_remaining r - int (?no + ?nm + ?nl)" "rr_source r1 = rr_source r"
    using get_bits_triple_ok [OF r(1), of ?no ?nm ?nl on_amd] n by auto
  have one: "decode_one on_amd mask_lower_bits ll ml off r = Some (\<lparr>sq_ll = ss_base_value ll + ucast v3,
      sq_ml = ss_base_value ml + ucast v2, sq_of = ucast v1 + ss_base_value off\<rparr>, r1)"
    using t(1) by (simp add: decode_one_def)
  obtain a hist' where a: "resolve_offset ll off r hist = Some (a, hist', consume r ?no)"
      "do_offset_history (ucast v1 + ss_base_value off) (ss_base_value ll + ucast v3) hist = Some (a, hist')"
    using resolve_offset_ok [OF r(1) _ n(1) refl _ lit_len_zero [OF st t(4)], of hist] st r(2) n rev_field_unique [OF t(2)]
    by (auto simp: seq_states_ok_def)
  have q1: "rev_inv (consume r ?no)" "bits_remaining (consume r ?no) = bits_remaining r - int ?no"
      "rr_bits_consumed (consume r ?no) = rr_bits_consumed r + ?no"
    using rev_inv_consume [OF r(1)] r(2) n by (simp_all add: bits_remaining_consume) (simp add: consume_def)
  obtain m where m: "read_optional_bits (consume r ?no) ?nm = (ucast v2, consume (consume r ?no) ?nm)"
    using read_optional_bits_ok [OF q1(1), of ?nm] q1 r(2) n rev_field_unique [OF t(3)] by auto
  define r3 where "r3 = consume (consume r ?no) ?nm"
  have q2: "rev_inv r3" "bits_remaining r3 = bits_remaining r - int ?no - int ?nm" "rr_source r3 = rr_source r"
    using rev_inv_consume [OF q1(1), of ?nm] q1 r(2) n unfolding r3_def by (simp_all add: bits_remaining_consume)
  obtain r4 where r4: "(if rr_bits_consumed r3 + (?nl + 9 + 9 + 8) > 64 then refill_sequence fast on_amd r3 else Some r3) = Some r4"
      "rev_inv r4" "rr_bits_consumed r4 + (?nl + 26) \<le> 64" "bits_remaining r4 = bits_remaining r3" "rr_source r4 = rr_source r"
  proof (cases "rr_bits_consumed r3 + (?nl + 9 + 9 + 8) > 64")
    case True
    obtain r' where "refill_sequence fast on_amd r3 = Some r'" "rev_inv r'" "rr_bits_consumed r' < 8"
        "bits_remaining r' = bits_remaining r3" "rr_source r' = rr_source r3"
      using refill_sequence_ok [OF q2(1)] by blast
    then show ?thesis using True n q2(3) by (intro that [of r']) simp_all
  qed (use q2 in \<open>intro that [of r3]; simp\<close>)
  have l: "read_optional_bits r4 ?nl = (ucast v3, consume r4 ?nl)"
    using read_optional_bits_ok [OF r4(2), of ?nl] r4 q2 rev_field_unique [OF t(4)] by auto
  have "decode_resolved fast on_amd ll ml off r hist = Some (\<lparr>sq_ll = ss_base_value ll + ucast v3,
      sq_ml = ss_base_value ml + ucast v2, sq_of = a\<rparr>, consume r4 ?nl, hist')"
    using a(1) m r4(1) l by (simp add: decode_resolved_def r3_def [symmetric] Let_def)
  moreover have "rev_inv (consume r4 ?nl)" using r4 by (intro rev_inv_consume) simp_all
  moreover have "bits_remaining (consume r4 ?nl) = bits_remaining r1" using r4 q2 t(6) by (simp add: bits_remaining_consume)
  moreover have "rr_bits_consumed (consume r4 ?nl) + 26 \<le> 64" using r4(3) by (simp add: consume_def)
  ultimately show ?thesis using one a(2) t(5,7) r4(5) by (cases hist') simp
qed

end

end
