(* ===== verification/Sequence_Tables.thy ===== *)
theory Sequence_Tables
  imports Sequence_Decoder Section_Headers
begin

text \<open>
  The three sequence tables of a block: the workspace that keeps them across blocks with the source each
  axis reads from (\<open>FSEScratch\<close> of \<^verbatim>\<open>zstd/src/decoding/scratch.rs\<close>), their update from a block's modes and
  the opening of its bit stream (\<^verbatim>\<open>zstd/src/decoding/sequence_section_decoder.rs\<close>). The parameter \<open>std\<close>
  stands for the cargo feature that decides whether a predefined table is read from the process-wide
  cache or rebuilt in place; the cache itself holds one value that never changes, so it is the function
  that computes it. Of a dictionary only its workspace is read here.
\<close>

section \<open>The workspace\<close>

datatype seq_table_source = Local | Dict | PredefinedTable "seq_symbol fse_table"

record fse_scratch =
  fs_offsets :: "seq_symbol fse_table"
  fs_literal_lengths :: "seq_symbol fse_table"
  fs_match_lengths :: "seq_symbol fse_table"
  fs_offsets_long_share :: u32
  fs_ddict_is_cold :: bool
  fs_ll_source :: seq_table_source
  fs_of_source :: seq_table_source
  fs_ml_source :: seq_table_source

definition MAX_LITERAL_LENGTH_CODE :: u8 where
  "MAX_LITERAL_LENGTH_CODE = 35"

definition MAX_MATCH_LENGTH_CODE :: u8 where
  "MAX_MATCH_LENGTH_CODE = 52"

definition MAX_OFFSET_CODE :: u8 where
  "MAX_OFFSET_CODE = 31"

text \<open>\<open>SeqFSETable\<close> has 512 slots.\<close>

definition fse_scratch_new :: fse_scratch where
  "fse_scratch_new =
     \<lparr>fs_offsets = fse_table_new 512 MAX_OFFSET_CODE, fs_literal_lengths = fse_table_new 512 MAX_LITERAL_LENGTH_CODE,
      fs_match_lengths = fse_table_new 512 MAX_MATCH_LENGTH_CODE, fs_offsets_long_share = 0, fs_ddict_is_cold = False,
      fs_ll_source = Local, fs_of_source = Local, fs_ml_source = Local\<rparr>"

text \<open>\<open>expect_dict\<close>: a missing dictionary is a panic.\<close>

definition ll_table :: "fse_scratch \<Rightarrow> fse_scratch option \<Rightarrow> seq_symbol fse_table option" where
  "ll_table s dict = (case fs_ll_source s of
      Local \<Rightarrow> Some (fs_literal_lengths s) | Dict \<Rightarrow> map_option fs_literal_lengths dict | PredefinedTable t \<Rightarrow> Some t)"

definition of_table :: "fse_scratch \<Rightarrow> fse_scratch option \<Rightarrow> seq_symbol fse_table option" where
  "of_table s dict = (case fs_of_source s of
      Local \<Rightarrow> Some (fs_offsets s) | Dict \<Rightarrow> map_option fs_offsets dict | PredefinedTable t \<Rightarrow> Some t)"

definition ml_table :: "fse_scratch \<Rightarrow> fse_scratch option \<Rightarrow> seq_symbol fse_table option" where
  "ml_table s dict = (case fs_ml_source s of
      Local \<Rightarrow> Some (fs_match_lengths s) | Dict \<Rightarrow> map_option fs_match_lengths dict | PredefinedTable t \<Rightarrow> Some t)"

definition fse_scratch_reinit_from :: "fse_scratch \<Rightarrow> fse_scratch \<Rightarrow> fse_scratch option \<Rightarrow> fse_scratch option" where
  "fse_scratch_reinit_from s other dict =
     Option.bind (ll_table other dict) (\<lambda>ll.
     Option.bind (of_table other dict) (\<lambda>off.
     Option.bind (ml_table other dict) (\<lambda>ml.
       Some \<lparr>fs_offsets = reinit_from (fs_offsets s) off, fs_literal_lengths = reinit_from (fs_literal_lengths s) ll,
             fs_match_lengths = reinit_from (fs_match_lengths s) ml, fs_offsets_long_share = fs_offsets_long_share other,
             fs_ddict_is_cold = False, fs_ll_source = Local, fs_of_source = Local, fs_ml_source = Local\<rparr>)))"

definition attach_dict :: "fse_scratch \<Rightarrow> fse_scratch \<Rightarrow> fse_scratch" where
  "attach_dict dict s = s\<lparr>fs_offsets_long_share := fs_offsets_long_share dict,
     fs_ll_source := Dict, fs_of_source := Dict, fs_ml_source := Dict\<rparr>"

definition detach_dict :: "fse_scratch \<Rightarrow> fse_scratch" where
  "detach_dict s = s\<lparr>fs_ll_source := Local, fs_of_source := Local, fs_ml_source := Local\<rparr>"

text \<open>The sequence half of \<open>init_from_dict\<close> and of \<open>reset_entropy\<close>.\<close>

definition fse_init_from_dict :: "fse_scratch \<Rightarrow> fse_scratch \<Rightarrow> fse_scratch" where
  "fse_init_from_dict dict s = (attach_dict dict s)\<lparr>fs_ddict_is_cold := True\<rparr>"

definition reset_if_populated :: "'e fse_table \<Rightarrow> 'e fse_table" where
  "reset_if_populated t = (if is_populated t then fse_reset t else t)"

definition fse_reset_entropy :: "fse_scratch \<Rightarrow> fse_scratch" where
  "fse_reset_entropy s =
     (let s = s\<lparr>fs_literal_lengths := reset_if_populated (fs_literal_lengths s),
               fs_match_lengths := reset_if_populated (fs_match_lengths s),
               fs_offsets := reset_if_populated (fs_offsets s), fs_offsets_long_share := 0\<rparr>
      in (detach_dict s)\<lparr>fs_ddict_is_cold := False\<rparr>)"

section \<open>Predefined tables\<close>

definition LL_DEFAULT_ACC_LOG :: nat where
  "LL_DEFAULT_ACC_LOG = 6"

definition LITERALS_LENGTH_DEFAULT_DISTRIBUTION :: "int list" where
  "LITERALS_LENGTH_DEFAULT_DISTRIBUTION = [
    4, 3, 2, 2, 2, 2, 2, 2, 2, 2, 2, 2, 2, 1, 1, 1, 2, 2, 2, 2, 2, 2, 2, 2, 2, 3, 2, 1, 1, 1, 1, 1,
    -1, -1, -1, -1]"

definition ML_DEFAULT_ACC_LOG :: nat where
  "ML_DEFAULT_ACC_LOG = 6"

definition MATCH_LENGTH_DEFAULT_DISTRIBUTION :: "int list" where
  "MATCH_LENGTH_DEFAULT_DISTRIBUTION = [
    1, 4, 3, 2, 2, 2, 2, 2, 2, 1, 1, 1, 1, 1, 1, 1, 1, 1, 1, 1, 1, 1, 1, 1, 1, 1, 1, 1, 1, 1, 1, 1,
    1, 1, 1, 1, 1, 1, 1, 1, 1, 1, 1, 1, 1, 1, -1, -1, -1, -1, -1, -1, -1]"

definition OF_DEFAULT_ACC_LOG :: nat where
  "OF_DEFAULT_ACC_LOG = 5"

definition OFFSET_DEFAULT_DISTRIBUTION :: "int list" where
  "OFFSET_DEFAULT_DISTRIBUTION = [
    1, 1, 1, 1, 1, 1, 2, 2, 2, 1, 1, 1, 1, 1, 1, 1, 1, 1, 1, 1, 1, 1, 1, 1, -1, -1, -1, -1, -1]"

text \<open>The packed metadata as the 32-bit words of the source.\<close>

definition LL_PACKED :: "u32 list" where
  "LL_PACKED = map of_nat LL_META"

definition ML_PACKED :: "u32 list" where
  "ML_PACKED = map of_nat ML_META"

text \<open>A failing build is the \<open>expect\<close> panic.\<close>

definition predefined_ll_table :: "seq_symbol fse_table option" where
  "predefined_ll_table =
     (case build_from_probabilities seq_symbol_ops LL_DEFAULT_ACC_LOG LITERALS_LENGTH_DEFAULT_DISTRIBUTION
             (fse_table_new 512 MAX_LITERAL_LENGTH_CODE) of
        (t, Ok _) \<Rightarrow> enrich_with_packed_seq_meta LL_PACKED t | _ \<Rightarrow> None)"

definition predefined_ml_table :: "seq_symbol fse_table option" where
  "predefined_ml_table =
     (case build_from_probabilities seq_symbol_ops ML_DEFAULT_ACC_LOG MATCH_LENGTH_DEFAULT_DISTRIBUTION
             (fse_table_new 512 MAX_MATCH_LENGTH_CODE) of
        (t, Ok _) \<Rightarrow> enrich_with_packed_seq_meta ML_PACKED t | _ \<Rightarrow> None)"

text \<open>\<open>as u32\<close> and the shift wrap as in the source; the live span is the table's \<open>decode()\<close>.\<close>

definition compute_offsets_long_share :: "seq_symbol fse_table \<Rightarrow> u32" where
  "compute_offsets_long_share offsets =
     (let raw = length (filter (\<lambda>e. case e of Some e \<Rightarrow> unat (ss_num_additional_bits e) > 22 | None \<Rightarrow> False)
                  (take (ft_decode_len offsets) (ft_decode offsets)))
      in push_bit (8 - ft_accuracy_log offsets) (of_nat raw))"

definition predefined_of_table :: "(seq_symbol fse_table \<times> u32) option" where
  "predefined_of_table =
     (case build_from_probabilities seq_symbol_ops OF_DEFAULT_ACC_LOG OFFSET_DEFAULT_DISTRIBUTION
             (fse_table_new 512 MAX_OFFSET_CODE) of
        (t, Ok _) \<Rightarrow> map_option (\<lambda>t. (t, compute_offsets_long_share t)) (enrich_for_offsets t) | _ \<Rightarrow> None)"

definition PREDEFINED_OF_LONG_SHARE :: u32 where
  "PREDEFINED_OF_LONG_SHARE = 48"

section \<open>Updating the tables\<close>

datatype decode_sequence_error =
    SeqFSEDecoderError fse_decoder_error
  | SeqFSETableError fse_table_error
  | SeqExtraPadding nat
  | NotEnoughBytesForNumSequences
  | ExtraBits int
  | MissingCompressionMode
  | MissingByteForRleLlTable
  | MissingByteForRleOfTable
  | MissingByteForRleMlTable
  | InvalidRleCode (rle_axis: string) (rle_code: u8)

definition LL_MAX_LOG :: nat where
  "LL_MAX_LOG = 9"

definition ML_MAX_LOG :: nat where
  "ML_MAX_LOG = 9"

definition OF_MAX_LOG :: nat where
  "OF_MAX_LOG = 8"

type_synonym 'a seq_result = "('a, decode_sequence_error) result"

text \<open>The three ways to rebuild a local table; the table is kept also with an error.\<close>

definition build_axis_fse ::
  "u8 list \<Rightarrow> nat \<Rightarrow> seq_meta \<Rightarrow> seq_symbol fse_table \<Rightarrow> seq_symbol fse_table \<times> nat seq_result" where
  "build_axis_fse source max_log meta t =
     (case build_decoder_fused seq_symbol_ops source max_log meta t of
        (t, Ok n) \<Rightarrow> (t, Ok n) | (t, Err e) \<Rightarrow> (t, Err (SeqFSETableError e)) | (t, Panic) \<Rightarrow> (t, Panic))"

definition build_axis_rle ::
  "u8 list \<Rightarrow> decode_sequence_error \<Rightarrow> string \<Rightarrow> u8 \<Rightarrow> (seq_symbol fse_table \<Rightarrow> seq_symbol fse_table option)
     \<Rightarrow> seq_symbol fse_table \<Rightarrow> seq_symbol fse_table \<times> nat seq_result" where
  "build_axis_rle source missing axis max_code enrich_pass t =
     (case source of
        [] \<Rightarrow> (t, Err missing)
      | code # _ \<Rightarrow>
          if code > max_code then (t, Err (InvalidRleCode axis code))
          else (case Option.bind (build_rle code t) enrich_pass of
                  None \<Rightarrow> (t, Panic) | Some t \<Rightarrow> (t, Ok 1)))"

definition build_axis_default ::
  "nat \<Rightarrow> int list \<Rightarrow> (seq_symbol fse_table \<Rightarrow> seq_symbol fse_table option)
     \<Rightarrow> seq_symbol fse_table \<Rightarrow> seq_symbol fse_table \<times> nat seq_result" where
  "build_axis_default acc_log probs enrich_pass t =
     (case build_from_probabilities seq_symbol_ops acc_log probs t of
        (t, Ok _) \<Rightarrow> (case enrich_pass t of None \<Rightarrow> (t, Panic) | Some t \<Rightarrow> (t, Ok 0))
      | (t, Err e) \<Rightarrow> (t, Err (SeqFSETableError e))
      | (t, Panic) \<Rightarrow> (t, Panic))"

text \<open>Each axis: the bytes it used, with the workspace. \<open>None\<close> for a mode is the \<open>unreachable!\<close> panic.\<close>

definition update_ll :: "bool \<Rightarrow> mode_type option \<Rightarrow> u8 list \<Rightarrow> fse_scratch \<Rightarrow> fse_scratch \<times> nat seq_result" where
  "update_ll std mode source s = (case mode of
     None \<Rightarrow> (s, Panic)
   | Some FSECompressed \<Rightarrow>
       (case build_axis_fse source LL_MAX_LOG (Packed LL_PACKED) (fs_literal_lengths s) of
          (t, Ok n) \<Rightarrow> (s\<lparr>fs_literal_lengths := t, fs_ll_source := Local\<rparr>, Ok n)
        | (t, r) \<Rightarrow> (s\<lparr>fs_literal_lengths := t\<rparr>, r))
   | Some ModeRLE \<Rightarrow>
       (case build_axis_rle source MissingByteForRleLlTable ''LL'' MAX_LITERAL_LENGTH_CODE
               (enrich_with_packed_seq_meta LL_PACKED) (fs_literal_lengths s) of
          (t, Ok n) \<Rightarrow> (s\<lparr>fs_literal_lengths := t, fs_ll_source := Local\<rparr>, Ok n)
        | (t, r) \<Rightarrow> (s\<lparr>fs_literal_lengths := t\<rparr>, r))
   | Some Predefined \<Rightarrow>
       if std then (case predefined_ll_table of
          None \<Rightarrow> (s, Panic) | Some t \<Rightarrow> (s\<lparr>fs_ll_source := PredefinedTable t\<rparr>, Ok 0))
       else (case build_axis_default LL_DEFAULT_ACC_LOG LITERALS_LENGTH_DEFAULT_DISTRIBUTION
                    (enrich_with_packed_seq_meta LL_PACKED) (fs_literal_lengths s) of
          (t, Ok n) \<Rightarrow> (s\<lparr>fs_literal_lengths := t, fs_ll_source := Local\<rparr>, Ok n)
        | (t, r) \<Rightarrow> (s\<lparr>fs_literal_lengths := t\<rparr>, r))
   | Some RepeatMode \<Rightarrow> (s, Ok 0))"

definition update_of :: "bool \<Rightarrow> mode_type option \<Rightarrow> u8 list \<Rightarrow> fse_scratch \<Rightarrow> fse_scratch \<times> nat seq_result" where
  "update_of std mode source s = (case mode of
     None \<Rightarrow> (s, Panic)
   | Some FSECompressed \<Rightarrow>
       (case build_axis_fse source OF_MAX_LOG Offsets (fs_offsets s) of
          (t, Ok n) \<Rightarrow> (s\<lparr>fs_offsets := t, fs_offsets_long_share := compute_offsets_long_share t, fs_of_source := Local\<rparr>, Ok n)
        | (t, r) \<Rightarrow> (s\<lparr>fs_offsets := t\<rparr>, r))
   | Some ModeRLE \<Rightarrow>
       (case build_axis_rle source MissingByteForRleOfTable ''OF'' MAX_OFFSET_CODE enrich_for_offsets (fs_offsets s) of
          (t, Ok n) \<Rightarrow> (s\<lparr>fs_offsets := t, fs_offsets_long_share := compute_offsets_long_share t, fs_of_source := Local\<rparr>, Ok n)
        | (t, r) \<Rightarrow> (s\<lparr>fs_offsets := t\<rparr>, r))
   | Some Predefined \<Rightarrow>
       if std then (case predefined_of_table of
          None \<Rightarrow> (s, Panic)
        | Some (t, _) \<Rightarrow> (s\<lparr>fs_of_source := PredefinedTable t, fs_offsets_long_share := PREDEFINED_OF_LONG_SHARE\<rparr>, Ok 0))
       else (case build_axis_default OF_DEFAULT_ACC_LOG OFFSET_DEFAULT_DISTRIBUTION enrich_for_offsets (fs_offsets s) of
          (t, Ok n) \<Rightarrow> (s\<lparr>fs_offsets := t, fs_offsets_long_share := compute_offsets_long_share t, fs_of_source := Local\<rparr>, Ok n)
        | (t, r) \<Rightarrow> (s\<lparr>fs_offsets := t\<rparr>, r))
   | Some RepeatMode \<Rightarrow> (s, Ok 0))"

definition update_ml :: "bool \<Rightarrow> mode_type option \<Rightarrow> u8 list \<Rightarrow> fse_scratch \<Rightarrow> fse_scratch \<times> nat seq_result" where
  "update_ml std mode source s = (case mode of
     None \<Rightarrow> (s, Panic)
   | Some FSECompressed \<Rightarrow>
       (case build_axis_fse source ML_MAX_LOG (Packed ML_PACKED) (fs_match_lengths s) of
          (t, Ok n) \<Rightarrow> (s\<lparr>fs_match_lengths := t, fs_ml_source := Local\<rparr>, Ok n)
        | (t, r) \<Rightarrow> (s\<lparr>fs_match_lengths := t\<rparr>, r))
   | Some ModeRLE \<Rightarrow>
       (case build_axis_rle source MissingByteForRleMlTable ''ML'' MAX_MATCH_LENGTH_CODE
               (enrich_with_packed_seq_meta ML_PACKED) (fs_match_lengths s) of
          (t, Ok n) \<Rightarrow> (s\<lparr>fs_match_lengths := t, fs_ml_source := Local\<rparr>, Ok n)
        | (t, r) \<Rightarrow> (s\<lparr>fs_match_lengths := t\<rparr>, r))
   | Some Predefined \<Rightarrow>
       if std then (case predefined_ml_table of
          None \<Rightarrow> (s, Panic) | Some t \<Rightarrow> (s\<lparr>fs_ml_source := PredefinedTable t\<rparr>, Ok 0))
       else (case build_axis_default ML_DEFAULT_ACC_LOG MATCH_LENGTH_DEFAULT_DISTRIBUTION
                    (enrich_with_packed_seq_meta ML_PACKED) (fs_match_lengths s) of
          (t, Ok n) \<Rightarrow> (s\<lparr>fs_match_lengths := t, fs_ml_source := Local\<rparr>, Ok n)
        | (t, r) \<Rightarrow> (s\<lparr>fs_match_lengths := t\<rparr>, r))
   | Some RepeatMode \<Rightarrow> (s, Ok 0))"

text \<open>\<open>&source[bytes_read..]\<close> panics past the end.\<close>

definition slice_from :: "'a list \<Rightarrow> nat \<Rightarrow> 'a list option" where
  "slice_from xs n = (if n \<le> length xs then Some (drop n xs) else None)"

definition maybe_update_fse_tables ::
  "bool \<Rightarrow> sequences_header \<Rightarrow> u8 list \<Rightarrow> fse_scratch \<Rightarrow> fse_scratch \<times> nat seq_result" where
  "maybe_update_fse_tables std section source s =
     (case sh_modes section of
        None \<Rightarrow> (s, Err MissingCompressionMode)
      | Some modes \<Rightarrow>
          (case update_ll std (ll_mode modes) source s of
             (s, Ok ll_bytes) \<Rightarrow>
               (case slice_from source ll_bytes of
                  None \<Rightarrow> (s, Panic)
                | Some of_source \<Rightarrow>
                    (case update_of std (of_mode modes) of_source s of
                       (s, Ok of_bytes) \<Rightarrow>
                         (case slice_from source (ll_bytes + of_bytes) of
                            None \<Rightarrow> (s, Panic)
                          | Some ml_source \<Rightarrow>
                              (case update_ml std (ml_mode modes) ml_source s of
                                 (s, Ok ml_bytes) \<Rightarrow> (s, Ok (ll_bytes + of_bytes + ml_bytes))
                               | (s, r) \<Rightarrow> (s, r)))
                     | (s, r) \<Rightarrow> (s, r)))
           | (s, r) \<Rightarrow> (s, r)))"

section \<open>Opening a block's sequences\<close>

record seq_stream_setup =
  st_br :: bit_reader_rev
  st_decs :: seq_decs
  st_max_update_bits :: nat
  st_old_buffer_size :: nat
  st_num_sequences :: nat
  st_use_long_pipeline :: bool

definition seq_symbol_default :: seq_symbol where
  "seq_symbol_default = \<lparr>ss_new_state = 0, ss_num_bits = 0, ss_num_additional_bits = 0, ss_base_value = 0\<rparr>"

text \<open>
  The buffer's length and window size and the dictionary's content length are the arguments
  \<open>old_buffer_size\<close>, \<open>window_size\<close> and \<open>dict_len\<close>; \<open>min_share\<close> is the target's threshold and \<open>usize_max\<close>
  its largest \<open>usize\<close>.
\<close>

definition total_history :: "nat \<Rightarrow> nat \<Rightarrow> nat \<Rightarrow> nat" where
  "total_history usize_max window_size dict_len =
     (if window_size + dict_len \<le> usize_max then window_size + dict_len else usize_max)"

definition init_decoders ::
  "bool \<Rightarrow> (u64 \<Rightarrow> nat \<Rightarrow> u64) \<Rightarrow> fse_scratch \<Rightarrow> fse_scratch option \<Rightarrow> bit_reader_rev
     \<Rightarrow> (seq_decs \<times> bit_reader_rev) seq_result" where
  "init_decoders on_amd mlb s dict br =
     rbind (or_panic (ll_table s dict)) (\<lambda>ll_src.
     rbind (or_panic (ml_table s dict)) (\<lambda>ml_src.
     rbind (or_panic (of_table s dict)) (\<lambda>of_src.
     rbind (map_err SeqFSEDecoderError (init_state on_amd mlb (fse_decoder_new seq_symbol_default ll_src) br)) (\<lambda>(ll, br).
     rbind (map_err SeqFSEDecoderError (init_state on_amd mlb (fse_decoder_new seq_symbol_default of_src) br)) (\<lambda>(off, br).
     rbind (map_err SeqFSEDecoderError (init_state on_amd mlb (fse_decoder_new seq_symbol_default ml_src) br)) (\<lambda>(ml, br).
       Ok (\<lparr>sd_ll = ll, sd_ml = ml, sd_of = off\<rparr>, br)))))))"

definition init_sequence_stream ::
  "bool \<Rightarrow> bool \<Rightarrow> (u64 \<Rightarrow> nat \<Rightarrow> u64) \<Rightarrow> nat \<Rightarrow> nat \<Rightarrow> sequences_header \<Rightarrow> u8 list \<Rightarrow> fse_scratch \<Rightarrow> fse_scratch option
     \<Rightarrow> nat \<Rightarrow> nat \<Rightarrow> nat \<Rightarrow> fse_scratch \<times> seq_stream_setup seq_result" where
  "init_sequence_stream std on_amd mlb min_share usize_max section source s dict old_buffer_size window_size dict_len =
     (let ddict_is_cold = fs_ddict_is_cold s; s = s\<lparr>fs_ddict_is_cold := False\<rparr> in
      case maybe_update_fse_tables std section source s of
        (s, Ok bytes_read) \<Rightarrow>
          (s, rbind (or_panic (slice_from source bytes_read)) (\<lambda>bit_stream.
              rbind (map_err (\<lambda>e. case e of ExtraPadding n \<Rightarrow> SeqExtraPadding n) (open_stream on_amd mlb bit_stream)) (\<lambda>br.
              rbind (init_decoders on_amd mlb s dict br) (\<lambda>(decs, br).
                Ok \<lparr>st_br = br, st_decs = decs,
                    st_max_update_bits = ft_accuracy_log (fd_table (sd_ll decs)) + ft_accuracy_log (fd_table (sd_ml decs))
                       + ft_accuracy_log (fd_table (sd_of decs)),
                    st_old_buffer_size = old_buffer_size, st_num_sequences = sh_num_sequences section,
                    st_use_long_pipeline = compute_use_long_pipeline min_share (sh_num_sequences section) ddict_is_cold
                       (total_history usize_max window_size dict_len) (unat (fs_offsets_long_share s))\<rparr>))))
      | (s, Err e) \<Rightarrow> (s, Err e)
      | (s, Panic) \<Rightarrow> (s, Panic))"

end
