(* ===== verification/Sequence_Setup.thy ===== *)
theory Sequence_Setup
  imports Sequence_Tables
begin

text \<open>
  The sequence tables are fit for the decoding loops: whatever a block's modes and bytes are, the
  workspace keeps tables whose reads are in bounds, and a stream that opens has three decoders the loops
  can rely on.
\<close>

section \<open>Fit tables\<close>

text \<open>What the metadata of a table must satisfy on each axis.\<close>

definition ll_meta_ok :: "seq_symbol \<Rightarrow> bool" where
  "ll_meta_ok e \<longleftrightarrow> unat (ss_num_additional_bits e) \<le> 16 \<and> unat (ss_base_value e) \<le> 65536
     \<and> (ss_base_value e = 0 \<longrightarrow> ss_num_additional_bits e = 0)"

definition ml_meta_ok :: "seq_symbol \<Rightarrow> bool" where
  "ml_meta_ok e \<longleftrightarrow> unat (ss_num_additional_bits e) \<le> 16"

definition of_meta_ok :: "seq_symbol \<Rightarrow> bool" where
  "of_meta_ok e \<longleftrightarrow> unat (ss_num_additional_bits e) \<le> 31
     \<and> ss_base_value e = push_bit (unat (ss_num_additional_bits e)) 1"

definition axis_ok :: "(seq_symbol \<Rightarrow> bool) \<Rightarrow> nat \<Rightarrow> seq_symbol fse_table \<Rightarrow> bool" where
  "axis_ok meta_ok max_log t \<longleftrightarrow> table_ok seq_symbol_ops t \<and> ft_accuracy_log t \<le> max_log
     \<and> (\<forall>i < ft_decode_len t. \<forall>e. ft_decode t ! i = Some e \<longrightarrow> meta_ok e)"

definition seq_decs_ok :: "seq_decs \<Rightarrow> bool" where
  "seq_decs_ok d \<longleftrightarrow>
     decoder_ok seq_symbol_ops (sd_ll d) \<and> axis_ok ll_meta_ok 9 (fd_table (sd_ll d))
     \<and> decoder_ok seq_symbol_ops (sd_ml d) \<and> axis_ok ml_meta_ok 9 (fd_table (sd_ml d))
     \<and> decoder_ok seq_symbol_ops (sd_of d) \<and> axis_ok of_meta_ok 8 (fd_table (sd_of d))"

text \<open>\<open>max_update_bits\<close> of the stream setup.\<close>

definition update_bits_of :: "seq_decs \<Rightarrow> nat" where
  "update_bits_of d = ft_accuracy_log (fd_table (sd_ll d)) + ft_accuracy_log (fd_table (sd_ml d))
     + ft_accuracy_log (fd_table (sd_of d))"

lemma axis_ok_state: "decoder_ok seq_symbol_ops d \<Longrightarrow> axis_ok meta_ok n (fd_table d) \<Longrightarrow> meta_ok (fd_state d)"
  by (auto simp: decoder_ok_def axis_ok_def in_set_conv_nth)

lemma seq_decs_states:
  "seq_decs_ok d \<Longrightarrow> seq_states_ok (fd_state (sd_ll d)) (fd_state (sd_ml d)) (fd_state (sd_of d))"
  using axis_ok_state [of "sd_ll d" ll_meta_ok] axis_ok_state [of "sd_ml d" ml_meta_ok] axis_ok_state [of "sd_of d" of_meta_ok]
  by (auto simp: seq_decs_ok_def seq_states_ok_def ll_meta_ok_def ml_meta_ok_def of_meta_ok_def)

lemma update_bits_bound: "seq_decs_ok d \<Longrightarrow> update_bits_of d \<le> 26"
  by (simp add: seq_decs_ok_def axis_ok_def update_bits_of_def)

text \<open>
  A stored table is empty or fit for some accuracy log: a failed rebuild keeps the entries of the table
  before it but may leave another accuracy log, which the shape check of \<open>init_state\<close> finds.
\<close>

definition stored_ok :: "(seq_symbol \<Rightarrow> bool) \<Rightarrow> nat \<Rightarrow> seq_symbol fse_table \<Rightarrow> bool" where
  "stored_ok meta_ok max_log t \<longleftrightarrow> ft_decode_len t = 0 \<or> (\<exists>k. axis_ok meta_ok max_log (t\<lparr>ft_accuracy_log := k\<rparr>))"

definition axis_state_ok ::
  "(seq_symbol \<Rightarrow> bool) \<Rightarrow> nat \<Rightarrow> u8 \<Rightarrow> seq_symbol fse_table \<Rightarrow> seq_table_source \<Rightarrow> seq_symbol fse_table option \<Rightarrow> bool" where
  "axis_state_ok meta_ok max_log max_code t source dict_table \<longleftrightarrow>
     length (ft_decode t) = 512 \<and> ft_max_symbol t = max_code \<and> stored_ok meta_ok max_log t
     \<and> (case source of Local \<Rightarrow> True
        | Dict \<Rightarrow> (case dict_table of None \<Rightarrow> False | Some d \<Rightarrow> stored_ok meta_ok max_log d)
        | PredefinedTable p \<Rightarrow> axis_ok meta_ok max_log p)"

definition fse_scratch_ok :: "fse_scratch option \<Rightarrow> fse_scratch \<Rightarrow> bool" where
  "fse_scratch_ok dict s \<longleftrightarrow>
     axis_state_ok ll_meta_ok LL_MAX_LOG MAX_LITERAL_LENGTH_CODE (fs_literal_lengths s) (fs_ll_source s)
       (map_option fs_literal_lengths dict)
     \<and> axis_state_ok of_meta_ok OF_MAX_LOG MAX_OFFSET_CODE (fs_offsets s) (fs_of_source s) (map_option fs_offsets dict)
     \<and> axis_state_ok ml_meta_ok ML_MAX_LOG MAX_MATCH_LENGTH_CODE (fs_match_lengths s) (fs_ml_source s)
       (map_option fs_match_lengths dict)"

lemma axis_ok_stored: "axis_ok meta_ok n t \<Longrightarrow> stored_ok meta_ok n t"
  by (auto simp: stored_ok_def intro!: exI [of _ "ft_accuracy_log t"])

section \<open>Metadata of the three axes\<close>

definition meta_fits :: "(seq_symbol \<Rightarrow> bool) \<Rightarrow> seq_meta \<Rightarrow> u8 \<Rightarrow> bool" where
  "meta_fits meta_ok meta max_code \<longleftrightarrow> (\<forall>s ns nb. s \<le> max_code \<longrightarrow> meta_ok
     \<lparr>ss_new_state = ns, ss_num_bits = nb, ss_num_additional_bits = snd (meta_of meta s), ss_base_value = fst (meta_of meta s)\<rparr>)"

definition packed_ok :: "(u32 \<Rightarrow> u8 \<Rightarrow> bool) \<Rightarrow> u32 list \<Rightarrow> bool" where
  "packed_ok P packed = list_all (\<lambda>m. P (m AND 0x00FFFFFF) (ucast (drop_bit 24 m))) packed"

lemma packed_meta:
  assumes "packed_ok P packed" "unat s < length packed"
  shows "P (fst (meta_of (Packed packed) s)) (snd (meta_of (Packed packed) s))"
  using assms by (simp add: packed_ok_def list_all_length Let_def)

lemma ll_packed_ok:
  "packed_ok (\<lambda>b n. unat n \<le> 16 \<and> unat b \<le> 65536 \<and> (b = 0 \<longrightarrow> n = 0)) LL_PACKED" "length LL_PACKED = 36"
  by (simp_all add: LL_PACKED_def LL_META_def pack_code_meta_def packed_ok_def LL_BASE_def)

lemma ml_packed_ok: "packed_ok (\<lambda>b n. unat n \<le> 16) ML_PACKED" "length ML_PACKED = 53"
  by (simp_all add: ML_PACKED_def ML_META_def pack_code_meta_def packed_ok_def ML_BASE_def)

lemma meta_fits_axes:
  "meta_fits ll_meta_ok (Packed LL_PACKED) MAX_LITERAL_LENGTH_CODE"
  "meta_fits ml_meta_ok (Packed ML_PACKED) MAX_MATCH_LENGTH_CODE"
  "meta_fits of_meta_ok Offsets MAX_OFFSET_CODE"
proof -
  show "meta_fits ll_meta_ok (Packed LL_PACKED) MAX_LITERAL_LENGTH_CODE"
    using packed_meta [OF ll_packed_ok(1)] ll_packed_ok(2)
    by (auto simp: meta_fits_def ll_meta_ok_def MAX_LITERAL_LENGTH_CODE_def word_le_nat_alt simp del: meta_of.simps)
  show "meta_fits ml_meta_ok (Packed ML_PACKED) MAX_MATCH_LENGTH_CODE"
    using packed_meta [OF ml_packed_ok(1)] ml_packed_ok(2)
    by (auto simp: meta_fits_def ml_meta_ok_def MAX_MATCH_LENGTH_CODE_def word_le_nat_alt simp del: meta_of.simps)
  show "meta_fits of_meta_ok Offsets MAX_OFFSET_CODE"
    by (auto simp: meta_fits_def of_meta_ok_def MAX_OFFSET_CODE_def word_le_nat_alt word_less_nat_alt)
qed

section \<open>Rebuilding an axis\<close>

lemma built_axis_ok:
  assumes "buildable t" "built seq_symbol_ops meta t spread t'" "meta_fits meta_ok meta (ft_max_symbol t)"
    "ft_accuracy_log t \<le> max_log"
  shows "axis_ok meta_ok max_log t'"
proof -
  have "meta_ok e" if i: "i < 2 ^ ft_accuracy_log t" and e: "ft_decode t' ! i = Some e" for i e
  proof -
    let ?s = "spread ! i"
    have "?s \<in> set spread" using i assms(2) by (simp add: built_def)
    then have "0 < slots_of (ft_symbol_probabilities t) ?s"
      using assms(2) count_list_0_iff [of spread ?s] by (auto simp: built_def)
    then have "unat ?s < length (ft_symbol_probabilities t)" by (simp add: slots_of_def split: if_splits)
    then have "?s \<le> ft_max_symbol t" using assms(1) by (simp add: buildable_def word_le_nat_alt)
    then show ?thesis using assms(2,3) i e by (auto simp: built_def built_seq_symbol meta_fits_def)
  qed
  then show ?thesis
    using seq_entry.built_table_ok [OF assms(1,2)] assms(2,4) by (simp add: axis_ok_def built_def)
qed

lemma read_probabilities_keeps:
  "read_probabilities source max_log t = (t', r) \<Longrightarrow> ft_decode_len t' = ft_decode_len t"
  by (auto simp: read_probabilities_def Let_def split: result.splits prod.splits if_splits)

text \<open>What every way of rebuilding gives: a fit table, or an error and the stored table still sound.\<close>

definition rebuilt_ok ::
  "(seq_symbol \<Rightarrow> bool) \<Rightarrow> nat \<Rightarrow> u8 \<Rightarrow> nat \<Rightarrow> seq_symbol fse_table \<times> nat seq_result \<Rightarrow> bool" where
  "rebuilt_ok meta_ok max_log max_code len p \<longleftrightarrow>
     length (ft_decode (fst p)) = 512 \<and> ft_max_symbol (fst p) = max_code
     \<and> (case snd p of Ok n \<Rightarrow> n \<le> len \<and> axis_ok meta_ok max_log (fst p)
        | Err e \<Rightarrow> stored_ok meta_ok max_log (fst p) | Panic \<Rightarrow> False)"

lemma build_axis_fse_ok:
  assumes t: "length (ft_decode t) = 512" "ft_max_symbol t = max_code" "stored_ok meta_ok max_log t"
    and m: "meta_fits meta_ok meta max_code" "max_log \<le> 9"
  shows "rebuilt_ok meta_ok max_log max_code (length source) (build_axis_fse source max_log meta t)"
proof -
  have min: "min max_log ENTRY_MAX_ACCURACY_LOG = max_log" using m(2) by (simp add: ENTRY_MAX_ACCURACY_LOG_def)
  obtain t1 r where rd: "read_probabilities source max_log (t\<lparr>ft_accuracy_log := 0\<rparr>) = (t1, r)" by fastforce
  have t1: "ft_decode t1 = ft_decode t" "ft_max_symbol t1 = max_code" "ft_decode_len t1 = ft_decode_len t"
    using read_probabilities_spec(2,3) [OF rd] read_probabilities_keeps [OF rd] t by simp_all
  show ?thesis
  proof (cases r)
    case (Ok n)
    have f: "n \<le> length source" "ft_accuracy_log t1 \<le> max_log" "5 \<le> ft_accuracy_log t1"
        "probs_fill (ft_accuracy_log t1) (ft_symbol_probabilities t1)"
        "length (ft_symbol_probabilities t1) \<le> unat max_code + 1"
      using read_probabilities_spec(1) [OF rd] t(2) by (simp_all add: Ok)
    have "(2 :: nat) ^ ft_accuracy_log t1 \<le> 2 ^ 9" using f(2) m(2) by (intro power_increasing) simp_all
    then have b: "buildable t1" using f t1 t(1) by (simp add: buildable_def)
    obtain spread t2 where t2: "build_decoding_table_meta seq_symbol_ops meta t1 = (t2, Ok ())" "built seq_symbol_ops meta t1 spread t2"
      using build_decoding_table_spec [OF b] by blast
    have "axis_ok meta_ok max_log t2" using built_axis_ok [OF b t2(2)] t1(2) m(1) f(2) by simp
    moreover have "build_axis_fse source max_log meta t = (t2, Ok n)"
      using rd Ok t2(1) by (simp add: build_axis_fse_def build_decoder_fused_def min Let_def)
    ultimately show ?thesis using t2(2) t1 t(1) f(1) by (simp add: rebuilt_ok_def built_def)
  next
    case (Err e)
    have "stored_ok meta_ok max_log t1" using t(3) t1 by (simp add: stored_ok_def axis_ok_def table_ok_def)
    then show ?thesis
      using rd Err t1 t(1) by (simp add: rebuilt_ok_def build_axis_fse_def build_decoder_fused_def min Let_def)
  qed (use read_probabilities_spec(1) [OF rd] in simp)
qed

lemma build_axis_rle_ok:
  assumes t: "length (ft_decode t) = 512" "ft_max_symbol t = max_code" "stored_ok meta_ok max_log t"
    and m: "meta_fits meta_ok meta max_code" and e: "enrich_pass = enrich (meta_of meta)"
  shows "rebuilt_ok meta_ok max_log max_code (length source) (build_axis_rle source missing axis max_code enrich_pass t)"
proof (cases source)
  case (Cons code rest)
  show ?thesis
  proof (cases "code > max_code")
    case False
    define st where "st = \<lparr>ss_new_state = 0, ss_num_bits = 0, ss_num_additional_bits = snd (meta_of meta code),
        ss_base_value = fst (meta_of meta code)\<rparr>"
    define t' where "t' = (fse_reset t)\<lparr>ft_symbol_spread_buffer := [code], ft_decode := Some st # tl (ft_decode t), ft_decode_len := 1\<rparr>"
    obtain x xs where d: "ft_decode t = x # xs" using t(1) by (cases "ft_decode t") auto
    have "Option.bind (build_rle code t) enrich_pass = Some t'"
      by (simp add: build_rle_def e enrich_def enrich_entry_def store_def fse_reset_def d t'_def st_def Let_def)
    moreover have "axis_ok meta_ok max_log t'"
      using m False by (simp add: axis_ok_def table_ok_def t'_def fse_reset_def entry_ok_def seq_symbol_ops_def st_def meta_fits_def)
    moreover have "length (ft_decode t') = 512" "ft_max_symbol t' = max_code"
      using t d by (simp_all add: t'_def fse_reset_def)
    ultimately show ?thesis using False by (simp add: rebuilt_ok_def build_axis_rle_def Cons)
  qed (use t in \<open>simp add: rebuilt_ok_def build_axis_rle_def Cons\<close>)
qed (use t in \<open>simp add: rebuilt_ok_def build_axis_rle_def\<close>)

lemma build_from_probabilities_ok:
  assumes t: "length (ft_decode t) = 512" "ft_max_symbol t = max_code"
    and p: "probs_fill al probs" "al = 2 \<or> 4 \<le> al" "al \<le> 9" "length probs \<le> unat max_code + 1" "list_all (\<lambda>p. p \<le> 2 ^ al) probs"
    and m: "meta_fits meta_ok meta max_code" "al \<le> max_log"
  shows "\<exists>t1 t'. build_from_probabilities seq_symbol_ops al probs t = (t1, Ok ()) \<and> enrich (meta_of meta) t1 = Some t'
     \<and> axis_ok meta_ok max_log t' \<and> length (ft_decode t') = 512 \<and> ft_max_symbol t' = max_code"
proof -
  let ?t = "t\<lparr>ft_symbol_probabilities := probs, ft_accuracy_log := al\<rparr>"
  have "(2 :: nat) ^ al \<le> 2 ^ 9" using p(3) by (intro power_increasing) simp_all
  then have b: "buildable ?t" using t p by (simp add: buildable_def)
  obtain s1 t1 s2 t2 where x: "build_decoding_table_meta seq_symbol_ops NoMeta ?t = (t1, Ok ())" "built seq_symbol_ops NoMeta ?t s1 t1"
      "built seq_symbol_ops meta ?t s2 t2"
    using build_decoding_table_spec [OF b, of seq_symbol_ops] by metis
  have "find (\<lambda>p. p < -1 \<or> p > int (2 ^ al)) probs = None"
    using p(1,5) by (fastforce simp: find_None_iff probs_fill_def list_all_iff)
  moreover have "0 < al" using p(2) by auto
  ultimately have "build_from_probabilities seq_symbol_ops al probs t = (t1, Ok ())"
    using p t x(1) by (simp add: build_from_probabilities_def probs_fill_def ENTRY_MAX_ACCURACY_LOG_def Let_def)
  moreover have "enrich (meta_of meta) t1 = Some t2"
    using enrich_built [OF x(2,3)] b by (simp add: buildable_def)
  moreover have "axis_ok meta_ok max_log t2" using built_axis_ok [OF b x(3)] t m by simp
  ultimately show ?thesis using x(3) t by (auto simp: built_def)
qed

lemma default_distributions:
  "probs_fill LL_DEFAULT_ACC_LOG LITERALS_LENGTH_DEFAULT_DISTRIBUTION"
  "probs_fill ML_DEFAULT_ACC_LOG MATCH_LENGTH_DEFAULT_DISTRIBUTION"
  "probs_fill OF_DEFAULT_ACC_LOG OFFSET_DEFAULT_DISTRIBUTION"
  "list_all (\<lambda>p. p \<le> 2 ^ LL_DEFAULT_ACC_LOG) LITERALS_LENGTH_DEFAULT_DISTRIBUTION"
  "list_all (\<lambda>p. p \<le> 2 ^ ML_DEFAULT_ACC_LOG) MATCH_LENGTH_DEFAULT_DISTRIBUTION"
  "list_all (\<lambda>p. p \<le> 2 ^ OF_DEFAULT_ACC_LOG) OFFSET_DEFAULT_DISTRIBUTION"
  "length LITERALS_LENGTH_DEFAULT_DISTRIBUTION = 36" "length MATCH_LENGTH_DEFAULT_DISTRIBUTION = 53"
  "length OFFSET_DEFAULT_DISTRIBUTION = 29"
  by (simp_all add: probs_fill_def prob_slots_def LL_DEFAULT_ACC_LOG_def ML_DEFAULT_ACC_LOG_def OF_DEFAULT_ACC_LOG_def
      LITERALS_LENGTH_DEFAULT_DISTRIBUTION_def MATCH_LENGTH_DEFAULT_DISTRIBUTION_def OFFSET_DEFAULT_DISTRIBUTION_def)

lemmas seq_consts = LL_MAX_LOG_def ML_MAX_LOG_def OF_MAX_LOG_def MAX_LITERAL_LENGTH_CODE_def MAX_MATCH_LENGTH_CODE_def
  MAX_OFFSET_CODE_def LL_DEFAULT_ACC_LOG_def ML_DEFAULT_ACC_LOG_def OF_DEFAULT_ACC_LOG_def

lemma default_ll:
  assumes "length (ft_decode t) = 512" "ft_max_symbol t = MAX_LITERAL_LENGTH_CODE"
  shows "\<exists>t1 t'. build_from_probabilities seq_symbol_ops LL_DEFAULT_ACC_LOG LITERALS_LENGTH_DEFAULT_DISTRIBUTION t = (t1, Ok ())
     \<and> enrich_with_packed_seq_meta LL_PACKED t1 = Some t' \<and> axis_ok ll_meta_ok LL_MAX_LOG t'
     \<and> length (ft_decode t') = 512 \<and> ft_max_symbol t' = MAX_LITERAL_LENGTH_CODE"
  unfolding enrich_functions
  by (rule build_from_probabilities_ok [OF assms default_distributions(1) _ _ _ default_distributions(4) meta_fits_axes(1)])
    (simp_all add: seq_consts default_distributions(7))

lemma default_ml:
  assumes "length (ft_decode t) = 512" "ft_max_symbol t = MAX_MATCH_LENGTH_CODE"
  shows "\<exists>t1 t'. build_from_probabilities seq_symbol_ops ML_DEFAULT_ACC_LOG MATCH_LENGTH_DEFAULT_DISTRIBUTION t = (t1, Ok ())
     \<and> enrich_with_packed_seq_meta ML_PACKED t1 = Some t' \<and> axis_ok ml_meta_ok ML_MAX_LOG t'
     \<and> length (ft_decode t') = 512 \<and> ft_max_symbol t' = MAX_MATCH_LENGTH_CODE"
  unfolding enrich_functions
  by (rule build_from_probabilities_ok [OF assms default_distributions(2) _ _ _ default_distributions(5) meta_fits_axes(2)])
    (simp_all add: seq_consts default_distributions(8))

lemma default_of:
  assumes "length (ft_decode t) = 512" "ft_max_symbol t = MAX_OFFSET_CODE"
  shows "\<exists>t1 t'. build_from_probabilities seq_symbol_ops OF_DEFAULT_ACC_LOG OFFSET_DEFAULT_DISTRIBUTION t = (t1, Ok ())
     \<and> enrich_for_offsets t1 = Some t' \<and> axis_ok of_meta_ok OF_MAX_LOG t'
     \<and> length (ft_decode t') = 512 \<and> ft_max_symbol t' = MAX_OFFSET_CODE"
  unfolding enrich_functions
  by (rule build_from_probabilities_ok [OF assms default_distributions(3) _ _ _ default_distributions(6) meta_fits_axes(3)])
    (simp_all add: seq_consts default_distributions(9))

lemma count_list_filter: "count_list (filter P xs) s = (if P s then count_list xs s else 0)"
  by (induction xs) auto

lemma length_filter_bools: "length (filter P xs) = length (filter (\<lambda>b. b) (map P xs))"
  by (simp add: filter_map comp_def)

text \<open>The share of a built offsets table counts the slots of the long codes.\<close>

lemma built_offsets_long:
  assumes "buildable t" "built seq_symbol_ops Offsets t spread t'" "ft_max_symbol t \<le> 31"
  shows "compute_offsets_long_share t' = push_bit (8 - ft_accuracy_log t) (of_nat (length (filter (\<lambda>s. 22 < s) spread)))"
proof -
  let ?n = "2 ^ ft_accuracy_log t :: nat"
  let ?long = "\<lambda>e. case e of Some e \<Rightarrow> unat (ss_num_additional_bits e) > 22 | None \<Rightarrow> False"
  have len: "length spread = ?n" "?n \<le> length (ft_decode t')" "ft_decode_len t' = ?n" "ft_accuracy_log t' = ft_accuracy_log t"
    using assms(1,2) by (simp_all add: built_def buildable_def)
  have "map ?long (take ?n (ft_decode t')) = map (\<lambda>s. 22 < s) spread"
  proof (rule nth_equalityI)
    fix i assume "i < length (map ?long (take ?n (ft_decode t')))"
    then have i: "i < ?n" using len by simp
    have "spread ! i \<in> set spread" using i len by simp
    then have "unat (spread ! i) < length (ft_symbol_probabilities t)"
      using assms(2) count_list_0_iff [of spread "spread ! i"] by (fastforce simp: built_def slots_of_def split: if_splits)
    then have "spread ! i < 32" using assms(1,3) by (simp add: buildable_def word_le_nat_alt word_less_nat_alt)
    then show "map ?long (take ?n (ft_decode t')) ! i = map (\<lambda>s. 22 < s) spread ! i"
      using i len assms(2) by (simp add: built_def built_seq_symbol word_less_nat_alt)
  qed (use len in simp)
  then have "length (filter ?long (take ?n (ft_decode t'))) = length (filter (\<lambda>s. 22 < s) spread)"
    using length_filter_bools [of ?long "take ?n (ft_decode t')"] length_filter_bools [of "\<lambda>s. 22 < s" spread] by simp
  then show ?thesis using len by (simp add: compute_offsets_long_share_def)
qed

lemma default_offsets_long:
  assumes "length (ft_decode t) = 512" "ft_max_symbol t = MAX_OFFSET_CODE"
    "build_from_probabilities seq_symbol_ops OF_DEFAULT_ACC_LOG OFFSET_DEFAULT_DISTRIBUTION t = (t1, Ok ())"
    "enrich_for_offsets t1 = Some t'"
  shows "compute_offsets_long_share t' = PREDEFINED_OF_LONG_SHARE"
proof -
  let ?ps = OFFSET_DEFAULT_DISTRIBUTION and ?t = "t\<lparr>ft_symbol_probabilities := OFFSET_DEFAULT_DISTRIBUTION, ft_accuracy_log := 5\<rparr>"
  have b: "buildable ?t"
    using default_distributions(3,9) assms(1,2) by (simp add: buildable_def seq_consts)
  obtain s1 u1 s2 u2 where x: "build_decoding_table_meta seq_symbol_ops NoMeta ?t = (u1, Ok ())" "built seq_symbol_ops NoMeta ?t s1 u1"
      "built seq_symbol_ops Offsets ?t s2 u2"
    using build_decoding_table_spec [OF b, of seq_symbol_ops] by metis
  have "find (\<lambda>p. p < -1 \<or> p > int (2 ^ 5)) ?ps = None" "sum_list (map prob_slots ?ps) = 32"
    by (simp_all add: OFFSET_DEFAULT_DISTRIBUTION_def prob_slots_def)
  then have "u1 = t1"
    using assms(2,3) x(1) default_distributions(9)
    by (simp add: build_from_probabilities_def seq_consts ENTRY_MAX_ACCURACY_LOG_def Let_def)
  then have "u2 = t'" using enrich_built [OF x(2,3)] assms(1,4) enrich_functions(2) by simp
  have cnt: "count_list s2 s = slots_of ?ps s" for s using x(3) by (simp add: built_def)
  have "set (filter (\<lambda>s. 22 < s) s2) \<subseteq> {23, 24, 25, 26, 27, 28}"
  proof
    fix s assume "s \<in> set (filter (\<lambda>s. 22 < s) s2)"
    then have "22 < s" "0 < slots_of ?ps s" using cnt [of s] count_list_0_iff [of s2 s] by auto
    then have "22 < unat s" "unat s < 29" using default_distributions(9) by (simp_all add: slots_of_def word_less_nat_alt split: if_splits)
    then have "unat s \<in> {23, 24, 25, 26, 27, 28}" by auto
    then show "s \<in> {23, 24, 25, 26, 27, 28}" by (auto simp: word_unat_eq_iff)
  qed
  from sum_count_set [OF this] have "length (filter (\<lambda>s. 22 < s) s2) = sum (\<lambda>s. slots_of ?ps s) {23, 24, 25, 26, 27, 28}"
    by (simp add: count_list_filter cnt)
  also have "\<dots> = 6" by (simp add: slots_of_def OFFSET_DEFAULT_DISTRIBUTION_def prob_slots_def)
  finally show ?thesis
    using built_offsets_long [OF b x(3)] assms(2) \<open>u2 = t'\<close> by (simp add: PREDEFINED_OF_LONG_SHARE_def seq_consts)
qed

section \<open>Updating the workspace\<close>

text \<open>What an axis update gives: a sound workspace, and on success an axis to read from.\<close>

definition update_result_ok :: "fse_scratch option \<Rightarrow> nat \<Rightarrow> fse_scratch \<times> nat seq_result \<Rightarrow> bool" where
  "update_result_ok dict len p \<longleftrightarrow>
     fse_scratch_ok dict (fst p) \<and> (case snd p of Ok n \<Rightarrow> n \<le> len | Err e \<Rightarrow> True | Panic \<Rightarrow> False)"

text \<open>Storing a rebuilt table into an axis, and pointing the axis at it on success.\<close>

lemma rebuilt_axis_state:
  assumes "rebuilt_ok meta_ok max_log max_code len (t, r)" "axis_state_ok meta_ok max_log max_code t0 src d"
  shows "axis_state_ok meta_ok max_log max_code t src d" "r = Ok n \<Longrightarrow> axis_state_ok meta_ok max_log max_code t Local d"
    "r = Ok n \<Longrightarrow> n \<le> len" "r \<noteq> Panic"
  using assms axis_ok_stored by (auto simp: rebuilt_ok_def axis_state_ok_def split: result.splits)

lemma update_ll_ok:
  assumes s: "fse_scratch_ok dict s" and m: "mode \<noteq> None"
  shows "update_result_ok dict (length source) (update_ll std mode source s)"
proof -
  let ?t = "fs_literal_lengths s" and ?ok = "rebuilt_ok ll_meta_ok LL_MAX_LOG MAX_LITERAL_LENGTH_CODE (length source)"
  have st: "axis_state_ok ll_meta_ok LL_MAX_LOG MAX_LITERAL_LENGTH_CODE ?t (fs_ll_source s) (map_option fs_literal_lengths dict)"
    using s by (simp add: fse_scratch_ok_def)
  then have t: "length (ft_decode ?t) = 512" "ft_max_symbol ?t = MAX_LITERAL_LENGTH_CODE" "stored_ok ll_meta_ok LL_MAX_LOG ?t"
    by (simp_all add: axis_state_ok_def)
  have store: "update_result_ok dict (length source) (case p of (t, Ok n) \<Rightarrow> (s\<lparr>fs_literal_lengths := t, fs_ll_source := Local\<rparr>, Ok n)
        | (t, r) \<Rightarrow> (s\<lparr>fs_literal_lengths := t\<rparr>, r))" if "?ok p" for p
    using that s rebuilt_axis_state [OF _ st, of "length source" "fst p" "snd p"]
    by (cases p) (auto simp: update_result_ok_def fse_scratch_ok_def split: result.splits)
  obtain md where md: "mode = Some md" using m by blast
  show ?thesis
  proof (cases md)
    case FSECompressed
    have "?ok (build_axis_fse source LL_MAX_LOG (Packed LL_PACKED) ?t)"
      by (rule build_axis_fse_ok [OF t meta_fits_axes(1)]) (simp add: LL_MAX_LOG_def)
    then show ?thesis using store by (simp add: update_ll_def md FSECompressed)
  next
    case ModeRLE
    have "?ok (build_axis_rle source MissingByteForRleLlTable ''LL'' MAX_LITERAL_LENGTH_CODE (enrich_with_packed_seq_meta LL_PACKED) ?t)"
      by (rule build_axis_rle_ok [OF t meta_fits_axes(1) enrich_functions(1)])
    then show ?thesis using store by (simp add: update_ll_def md ModeRLE)
  next
    case Predefined
    have default: "?ok (build_axis_default LL_DEFAULT_ACC_LOG LITERALS_LENGTH_DEFAULT_DISTRIBUTION (enrich_with_packed_seq_meta LL_PACKED) ?t)"
      using default_ll [OF t(1,2)] by (auto simp: build_axis_default_def rebuilt_ok_def)
    obtain p where p: "predefined_ll_table = Some p" "axis_ok ll_meta_ok LL_MAX_LOG p"
      using default_ll [of "fse_table_new 512 MAX_LITERAL_LENGTH_CODE"] by (auto simp: predefined_ll_table_def fse_table_new_def)
    have "update_result_ok dict (length source) (s\<lparr>fs_ll_source := PredefinedTable p\<rparr>, Ok 0)"
      using p(2) s t by (simp add: update_result_ok_def fse_scratch_ok_def axis_state_ok_def)
    then show ?thesis using store [OF default] by (cases std) (simp_all add: update_ll_def md Predefined p(1))
  qed (use s in \<open>simp add: update_ll_def md update_result_ok_def\<close>)
qed

lemma update_of_ok:
  assumes s: "fse_scratch_ok dict s" and m: "mode \<noteq> None"
  shows "update_result_ok dict (length source) (update_of std mode source s)"
proof -
  let ?t = "fs_offsets s" and ?ok = "rebuilt_ok of_meta_ok OF_MAX_LOG MAX_OFFSET_CODE (length source)"
  have st: "axis_state_ok of_meta_ok OF_MAX_LOG MAX_OFFSET_CODE ?t (fs_of_source s) (map_option fs_offsets dict)"
    using s by (simp add: fse_scratch_ok_def)
  then have t: "length (ft_decode ?t) = 512" "ft_max_symbol ?t = MAX_OFFSET_CODE" "stored_ok of_meta_ok OF_MAX_LOG ?t"
    by (simp_all add: axis_state_ok_def)
  have store: "update_result_ok dict (length source) (case p of (t, Ok n) \<Rightarrow> (s\<lparr>fs_offsets := t, fs_offsets_long_share := compute_offsets_long_share t, fs_of_source := Local\<rparr>, Ok n)
        | (t, r) \<Rightarrow> (s\<lparr>fs_offsets := t\<rparr>, r))" if "?ok p" for p
    using that s rebuilt_axis_state [OF _ st, of "length source" "fst p" "snd p"]
    by (cases p) (auto simp: update_result_ok_def fse_scratch_ok_def split: result.splits)
  obtain md where md: "mode = Some md" using m by blast
  show ?thesis
  proof (cases md)
    case FSECompressed
    have "?ok (build_axis_fse source OF_MAX_LOG Offsets ?t)"
      by (rule build_axis_fse_ok [OF t meta_fits_axes(3)]) (simp add: OF_MAX_LOG_def)
    then show ?thesis using store by (simp add: update_of_def md FSECompressed)
  next
    case ModeRLE
    have "?ok (build_axis_rle source MissingByteForRleOfTable ''OF'' MAX_OFFSET_CODE enrich_for_offsets ?t)"
      by (rule build_axis_rle_ok [OF t meta_fits_axes(3) enrich_functions(2)])
    then show ?thesis using store by (simp add: update_of_def md ModeRLE)
  next
    case Predefined
    have default: "?ok (build_axis_default OF_DEFAULT_ACC_LOG OFFSET_DEFAULT_DISTRIBUTION enrich_for_offsets ?t)"
      using default_of [OF t(1,2)] by (auto simp: build_axis_default_def rebuilt_ok_def)
    obtain p sh where p: "predefined_of_table = Some (p, sh)" "axis_ok of_meta_ok OF_MAX_LOG p"
      using default_of [of "fse_table_new 512 MAX_OFFSET_CODE"] by (auto simp: predefined_of_table_def fse_table_new_def)
    have "update_result_ok dict (length source) (s\<lparr>fs_of_source := PredefinedTable p, fs_offsets_long_share := PREDEFINED_OF_LONG_SHARE\<rparr>, Ok 0)"
      using p(2) s t by (simp add: update_result_ok_def fse_scratch_ok_def axis_state_ok_def)
    then show ?thesis using store [OF default] by (cases std) (simp_all add: update_of_def md Predefined p(1))
  qed (use s in \<open>simp add: update_of_def md update_result_ok_def\<close>)
qed

lemma update_ml_ok:
  assumes s: "fse_scratch_ok dict s" and m: "mode \<noteq> None"
  shows "update_result_ok dict (length source) (update_ml std mode source s)"
proof -
  let ?t = "fs_match_lengths s" and ?ok = "rebuilt_ok ml_meta_ok ML_MAX_LOG MAX_MATCH_LENGTH_CODE (length source)"
  have st: "axis_state_ok ml_meta_ok ML_MAX_LOG MAX_MATCH_LENGTH_CODE ?t (fs_ml_source s) (map_option fs_match_lengths dict)"
    using s by (simp add: fse_scratch_ok_def)
  then have t: "length (ft_decode ?t) = 512" "ft_max_symbol ?t = MAX_MATCH_LENGTH_CODE" "stored_ok ml_meta_ok ML_MAX_LOG ?t"
    by (simp_all add: axis_state_ok_def)
  have store: "update_result_ok dict (length source) (case p of (t, Ok n) \<Rightarrow> (s\<lparr>fs_match_lengths := t, fs_ml_source := Local\<rparr>, Ok n)
        | (t, r) \<Rightarrow> (s\<lparr>fs_match_lengths := t\<rparr>, r))" if "?ok p" for p
    using that s rebuilt_axis_state [OF _ st, of "length source" "fst p" "snd p"]
    by (cases p) (auto simp: update_result_ok_def fse_scratch_ok_def split: result.splits)
  obtain md where md: "mode = Some md" using m by blast
  show ?thesis
  proof (cases md)
    case FSECompressed
    have "?ok (build_axis_fse source ML_MAX_LOG (Packed ML_PACKED) ?t)"
      by (rule build_axis_fse_ok [OF t meta_fits_axes(2)]) (simp add: ML_MAX_LOG_def)
    then show ?thesis using store by (simp add: update_ml_def md FSECompressed)
  next
    case ModeRLE
    have "?ok (build_axis_rle source MissingByteForRleMlTable ''ML'' MAX_MATCH_LENGTH_CODE (enrich_with_packed_seq_meta ML_PACKED) ?t)"
      by (rule build_axis_rle_ok [OF t meta_fits_axes(2) enrich_functions(1)])
    then show ?thesis using store by (simp add: update_ml_def md ModeRLE)
  next
    case Predefined
    have default: "?ok (build_axis_default ML_DEFAULT_ACC_LOG MATCH_LENGTH_DEFAULT_DISTRIBUTION (enrich_with_packed_seq_meta ML_PACKED) ?t)"
      using default_ml [OF t(1,2)] by (auto simp: build_axis_default_def rebuilt_ok_def)
    obtain p where p: "predefined_ml_table = Some p" "axis_ok ml_meta_ok ML_MAX_LOG p"
      using default_ml [of "fse_table_new 512 MAX_MATCH_LENGTH_CODE"] by (auto simp: predefined_ml_table_def fse_table_new_def)
    have "update_result_ok dict (length source) (s\<lparr>fs_ml_source := PredefinedTable p\<rparr>, Ok 0)"
      using p(2) s t by (simp add: update_result_ok_def fse_scratch_ok_def axis_state_ok_def)
    then show ?thesis using store [OF default] by (cases std) (simp_all add: update_ml_def md Predefined p(1))
  qed (use s in \<open>simp add: update_ml_def md update_result_ok_def\<close>)
qed

lemma maybe_update_ok:
  assumes "fse_scratch_ok dict s"
  shows "update_result_ok dict (length source) (maybe_update_fse_tables std section source s)"
proof (cases "sh_modes section")
  case None
  then show ?thesis using assms by (simp add: maybe_update_fse_tables_def update_result_ok_def)
next
  case (Some modes)
  obtain s1 r1 where u1: "update_ll std (ll_mode modes) source s = (s1, r1)" by fastforce
  have o1: "update_result_ok dict (length source) (s1, r1)"
    using update_ll_ok [OF assms modes_total(1)] u1 by metis
  show ?thesis
  proof (cases r1)
    case (Ok n1)
    have k1: "fse_scratch_ok dict s1" "n1 \<le> length source" using o1 by (simp_all add: Ok update_result_ok_def)
    obtain s2 r2 where u2: "update_of std (of_mode modes) (drop n1 source) s1 = (s2, r2)" by fastforce
    have o2: "update_result_ok dict (length (drop n1 source)) (s2, r2)"
      using update_of_ok [OF k1(1) modes_total(2)] u2 by metis
    show ?thesis
    proof (cases r2)
      case (Ok n2)
      have k2: "fse_scratch_ok dict s2" "n1 + n2 \<le> length source" using o2 k1(2) by (auto simp: Ok update_result_ok_def)
      obtain s3 r3 where u3: "update_ml std (ml_mode modes) (drop (n1 + n2) source) s2 = (s3, r3)" by fastforce
      have o3: "update_result_ok dict (length (drop (n1 + n2) source)) (s3, r3)"
        using update_ml_ok [OF k2(1) modes_total(3)] u3 by metis
      then show ?thesis
        using k1(2) k2(2) by (cases r3)
          (auto simp: maybe_update_fse_tables_def Some u1 u2 u3 \<open>r1 = Ok n1\<close> Ok slice_from_def update_result_ok_def)
    qed (use o2 k1(2) in \<open>simp_all add: maybe_update_fse_tables_def Some u1 u2 Ok slice_from_def update_result_ok_def\<close>)
  qed (use o1 in \<open>simp_all add: maybe_update_fse_tables_def Some u1 update_result_ok_def\<close>)
qed

section \<open>Opening the stream\<close>

context cpu_kernel
begin

lemma open_stream_cases:
  obtains r where "open_stream on_amd mask_lower_bits source = Ok r" "rev_inv r" "rr_source r = source"
    | n where "open_stream on_amd mask_lower_bits source = Err (ExtraPadding n)"
proof -
  obtain r' k' where "skip_padding_loop on_amd mask_lower_bits (bit_reader_rev_new source) 0 = Some (r', k')" "rev_inv r'"
      "rr_source r' = source"
    using skip_padding_total [OF rev_inv_new, of on_amd source 0] by (auto simp: bit_reader_rev_new_def)
  then show ?thesis using that by (cases "k' > 8") (simp_all add: open_stream_def)
qed

text \<open>A stored table opens as a fit decoder or is refused.\<close>

lemma init_stored:
  assumes "stored_ok meta_ok max_log t" "rev_inv r"
  obtains d r' where "init_state on_amd mask_lower_bits (fse_decoder_new e t) r = Ok (d, r')" "decoder_ok seq_symbol_ops d"
      "fd_table d = t" "axis_ok meta_ok max_log t" "rev_inv r'"
    | err where "init_state on_amd mask_lower_bits (fse_decoder_new e t) r = Err err"
proof (cases "ft_decode_len t = 0 \<or> checked_shl_one (ft_accuracy_log t) \<noteq> Some (ft_decode_len t)")
  case True
  then have "\<exists>err. init_state on_amd mask_lower_bits (fse_decoder_new e t) r = Err err"
    by (auto simp: init_state_def fse_decoder_new_def Let_def split: option.split)
  then show ?thesis using that(2) by blast
next
  case False
  then obtain k where k: "axis_ok meta_ok max_log (t\<lparr>ft_accuracy_log := k\<rparr>)" using assms(1) by (auto simp: stored_ok_def)
  then have "(2 :: nat) ^ ft_accuracy_log t = 2 ^ k"
    using False by (simp add: axis_ok_def table_ok_def checked_shl_one_def split: if_splits)
  then have "k = ft_accuracy_log t" by simp
  with k have a: "axis_ok meta_ok max_log t" by (simp add: axis_ok_def table_ok_def)
  then have "table_ok seq_symbol_ops (fd_table (fse_decoder_new e t))" by (simp add: axis_ok_def fse_decoder_new_def)
  from init_state_ok [OF this assms(2), of on_amd] show ?thesis using that(1) a by (auto simp: fse_decoder_new_def)
qed

lemma init_decoders_ok:
  assumes s: "fse_scratch_ok dict s" and r: "rev_inv r"
  obtains d r' where "init_decoders on_amd mask_lower_bits s dict r = Ok (d, r')" "seq_decs_ok d" "rev_inv r'"
    | e where "init_decoders on_amd mask_lower_bits s dict r = Err (SeqFSEDecoderError e)"
proof -
  obtain ll where ll: "ll_table s dict = Some ll" "stored_ok ll_meta_ok 9 ll"
    using s axis_ok_stored by (auto simp: fse_scratch_ok_def axis_state_ok_def ll_table_def seq_consts split: seq_table_source.splits option.splits)
  obtain ml where ml: "ml_table s dict = Some ml" "stored_ok ml_meta_ok 9 ml"
    using s axis_ok_stored by (auto simp: fse_scratch_ok_def axis_state_ok_def ml_table_def seq_consts split: seq_table_source.splits option.splits)
  obtain off where off: "of_table s dict = Some off" "stored_ok of_meta_ok 8 off"
    using s axis_ok_stored by (auto simp: fse_scratch_ok_def axis_state_ok_def of_table_def seq_consts split: seq_table_source.splits option.splits)
  note def = init_decoders_def ll(1) ml(1) off(1)
  show ?thesis
  proof (cases rule: init_stored [OF ll(2) r, of on_amd seq_symbol_default])
    case (1 dl r1)
    show ?thesis
    proof (cases rule: init_stored [OF off(2) 1(5), of on_amd seq_symbol_default])
      case (1 do r2)
      show ?thesis
      proof (cases rule: init_stored [OF ml(2) 1(5), of on_amd seq_symbol_default])
        case (1 dm r3)
        show ?thesis
          using \<open>init_state on_amd mask_lower_bits (fse_decoder_new seq_symbol_default ll) r = _\<close>
            \<open>init_state on_amd mask_lower_bits (fse_decoder_new seq_symbol_default off) r1 = _\<close> 1
            \<open>decoder_ok seq_symbol_ops dl\<close> \<open>fd_table dl = ll\<close> \<open>axis_ok ll_meta_ok 9 ll\<close>
            \<open>decoder_ok seq_symbol_ops do\<close> \<open>fd_table do = off\<close> \<open>axis_ok of_meta_ok 8 off\<close>
          by (intro that(1) [of "\<lparr>sd_ll = dl, sd_ml = dm, sd_of = do\<rparr>" r3]) (simp_all add: def seq_decs_ok_def)
      qed (use 1 \<open>init_state on_amd mask_lower_bits (fse_decoder_new seq_symbol_default ll) r = _\<close> that(2) in \<open>simp add: def\<close>)
    qed (use 1 that(2) in \<open>simp add: def\<close>)
  qed (use that(2) in \<open>simp add: def\<close>)
qed

end

lemma update_cold:
  "fs_ddict_is_cold (fst (update_ll std mode source s)) = fs_ddict_is_cold s"
  "fs_ddict_is_cold (fst (update_of std mode source s)) = fs_ddict_is_cold s"
  "fs_ddict_is_cold (fst (update_ml std mode source s)) = fs_ddict_is_cold s"
  by (auto simp: update_ll_def update_of_def update_ml_def split: option.split mode_type.split prod.split result.split)

lemma maybe_update_cold: "fs_ddict_is_cold (fst (maybe_update_fse_tables std section source s)) = fs_ddict_is_cold s"
  using update_cold
  by (auto simp: maybe_update_fse_tables_def split: option.split prod.split result.split) (metis fst_conv)+

section \<open>Properties\<close>

text \<open>The workspace operations of a frame.\<close>

lemma fse_scratch_new_ok: "fse_scratch_ok dict fse_scratch_new"
  by (simp add: fse_scratch_ok_def axis_state_ok_def stored_ok_def fse_scratch_new_def fse_table_new_def)

lemma stored_reset: "stored_ok meta_ok n (fse_reset t)"
  by (simp add: stored_ok_def fse_reset_def)

lemma reset_entropy_ok: "fse_scratch_ok dict s \<Longrightarrow> fse_scratch_ok dict' (fse_reset_entropy s)"
  by (simp add: fse_scratch_ok_def axis_state_ok_def fse_reset_entropy_def detach_dict_def reset_if_populated_def
      stored_reset Let_def) (simp add: fse_reset_def)

lemma init_from_dict_ok: "fse_scratch_ok d dict \<Longrightarrow> fse_scratch_ok d' s \<Longrightarrow> fse_scratch_ok (Some dict) (fse_init_from_dict dict s)"
  by (simp add: fse_scratch_ok_def axis_state_ok_def fse_init_from_dict_def attach_dict_def)

lemma reinit_stored: "stored_ok meta_ok n other \<Longrightarrow> stored_ok meta_ok n (reinit_from t other)"
  by (auto simp: stored_ok_def reinit_from_def fse_reset_def axis_ok_def table_ok_def)

text \<open>
  C12. Opening a block's sequences is total and safe. With a sound workspace, any header and any bytes, either
  mask kernel and either build, it returns without a panic: an error, or three decoders on fit tables at a
  reader inside the bytes, with at most 26 update bits; the workspace stays sound and the cold mark of
  its dictionary is used up also by an error.
\<close>

theorem init_sequence_stream_safe:
  assumes "fse_scratch_ok dict s" and kernel: "mlb \<in> {scalar_mask_lower_bits, mask_lower_bits_bmi2_impl}"
  shows "\<exists>s' r. init_sequence_stream std on_amd mlb min_share usize_max section source s dict len window dlen = (s', r)
     \<and> fse_scratch_ok dict s' \<and> \<not> fs_ddict_is_cold s'
     \<and> (case r of Ok st \<Rightarrow> seq_decs_ok (st_decs st) \<and> rev_inv (st_br st) \<and> st_max_update_bits st \<le> 26
            \<and> st_num_sequences st = sh_num_sequences section
        | Err e \<Rightarrow> True | Panic \<Rightarrow> False)"
proof -
  have "cpu_kernel mlb" using kernel scalar_kernel.cpu_kernel_axioms bmi2_kernel.cpu_kernel_axioms by auto
  note open_cases = cpu_kernel.open_stream_cases [OF this] and init_cases = cpu_kernel.init_decoders_ok [OF this]
  define s0 where "s0 = s\<lparr>fs_ddict_is_cold := False\<rparr>"
  have s0: "fse_scratch_ok dict s0" "\<not> fs_ddict_is_cold s0" using assms(1) by (simp_all add: s0_def fse_scratch_ok_def)
  obtain s1 r1 where u: "maybe_update_fse_tables std section source s0 = (s1, r1)" by fastforce
  have k: "fse_scratch_ok dict s1" "case r1 of Ok n \<Rightarrow> n \<le> length source | Err e \<Rightarrow> True | Panic \<Rightarrow> False" "\<not> fs_ddict_is_cold s1"
    using maybe_update_ok [OF s0(1), of source std "section"] maybe_update_cold [of std "section" source s0] s0(2) u
    by (simp_all add: update_result_ok_def)
  show ?thesis
  proof (cases r1)
    case (Ok n)
    show ?thesis
    proof (cases rule: open_cases [of on_amd "drop n source"])
      case (1 br)
      show ?thesis
      proof (cases rule: init_cases [OF k(1) 1(2), of on_amd])
        case (1 d r')
        then show ?thesis using k u Ok \<open>open_stream on_amd mlb (drop n source) = _\<close> update_bits_bound [of d]
          by (simp add: init_sequence_stream_def s0_def [symmetric] slice_from_def update_bits_of_def)
      qed (use k u Ok 1 in \<open>simp add: init_sequence_stream_def s0_def [symmetric] slice_from_def\<close>)
    qed (use k u Ok in \<open>simp add: init_sequence_stream_def s0_def [symmetric] slice_from_def\<close>)
  qed (use k u in \<open>simp_all add: init_sequence_stream_def s0_def [symmetric]\<close>)
qed

theorem init_sequence_stream_safe_witness:
  "\<exists>s' r. init_sequence_stream True False scalar_mask_lower_bits 7 (2 ^ 64 - 1) \<lparr>sh_num_sequences = 2, sh_modes = Some 0\<rparr>
        [0x35, 0xA7, 0x1C] fse_scratch_new None 0 1024 0 = (s', r)
     \<and> fse_scratch_ok None s' \<and> \<not> fs_ddict_is_cold s'
     \<and> (case r of Ok st \<Rightarrow> seq_decs_ok (st_decs st) \<and> rev_inv (st_br st) \<and> st_max_update_bits st \<le> 26
            \<and> st_num_sequences st = sh_num_sequences \<lparr>sh_num_sequences = 2, sh_modes = Some 0\<rparr>
        | Err e \<Rightarrow> True | Panic \<Rightarrow> False)"
  by (rule init_sequence_stream_safe [OF fse_scratch_new_ok]) simp

text \<open>
  The share of long offsets does not depend on the build: a predefined offsets block leaves 48 in a sound
  workspace whether the constant of the cached build or the walk of the rebuilt table gives it, and the
  share cached beside the table is the same number.
\<close>

theorem predefined_long_share:
  assumes "fse_scratch_ok dict s"
  shows "fs_offsets_long_share (fst (update_of std (Some Predefined) source s)) = PREDEFINED_OF_LONG_SHARE
     \<and> map_option snd predefined_of_table = Some PREDEFINED_OF_LONG_SHARE"
proof -
  have t: "length (ft_decode (fs_offsets s)) = 512" "ft_max_symbol (fs_offsets s) = MAX_OFFSET_CODE"
    using assms by (simp_all add: fse_scratch_ok_def axis_state_ok_def)
  have n: "length (ft_decode (fse_table_new 512 MAX_OFFSET_CODE)) = 512"
      "ft_max_symbol (fse_table_new 512 MAX_OFFSET_CODE) = MAX_OFFSET_CODE" by (simp_all add: fse_table_new_def)
  obtain t1 t' where d: "build_from_probabilities seq_symbol_ops OF_DEFAULT_ACC_LOG OFFSET_DEFAULT_DISTRIBUTION (fs_offsets s) = (t1, Ok ())"
      "enrich_for_offsets t1 = Some t'" using default_of [OF t] by blast
  obtain u1 u' where e: "build_from_probabilities seq_symbol_ops OF_DEFAULT_ACC_LOG OFFSET_DEFAULT_DISTRIBUTION
      (fse_table_new 512 MAX_OFFSET_CODE) = (u1, Ok ())" "enrich_for_offsets u1 = Some u'" using default_of [OF n] by blast
  have "map_option snd predefined_of_table = Some PREDEFINED_OF_LONG_SHARE"
    using e default_offsets_long [OF n e] by (simp add: predefined_of_table_def)
  moreover have "fs_offsets_long_share (fst (update_of std (Some Predefined) source s)) = PREDEFINED_OF_LONG_SHARE"
    using d e default_offsets_long [OF t d] by (simp add: update_of_def build_axis_default_def predefined_of_table_def)
  ultimately show ?thesis by simp
qed

theorem predefined_long_share_witness:
  "fs_offsets_long_share (fst (update_of False (Some Predefined) [1, 2] fse_scratch_new)) = PREDEFINED_OF_LONG_SHARE
   \<and> map_option snd predefined_of_table = Some PREDEFINED_OF_LONG_SHARE"
  using predefined_long_share [OF fse_scratch_new_ok [of None]] by simp

end
