(* ===== verification/Sequence_Pipeline.thy ===== *)
theory Sequence_Pipeline
  imports Sequence_Setup
begin

text \<open>
  The pipelined loop and the direct loop over a block's sequences do the same work: both execute the
  list of sequences that a plain decoder produces, in order, and end at the same bit of the stream.
\<close>

section \<open>A plain decoder\<close>

text \<open>The sequences of a block, in order, with the offsets resolved; the last one is not followed by state updates.\<close>

fun decode_list ::
  "bool \<Rightarrow> (u64 \<Rightarrow> nat \<Rightarrow> u64) \<Rightarrow> nat \<Rightarrow> nat \<Rightarrow> seq_decs \<Rightarrow> bit_reader_rev \<Rightarrow> offset_hist
     \<Rightarrow> (sequence list \<times> bit_reader_rev \<times> offset_hist) option" where
  "decode_list on_amd mlb max_update_bits 0 d br hist = Some ([], br, hist)"
| "decode_list on_amd mlb max_update_bits (Suc n) d br hist =
     Option.bind (decode_ahead on_amd mlb d br hist) (\<lambda>(seq, br, hist).
     Option.bind (if n > 0 then ensure_and_update on_amd mlb max_update_bits d br else Some (d, br)) (\<lambda>(d, br).
     Option.bind (decode_list on_amd mlb max_update_bits n d br hist) (\<lambda>(seqs, br, hist).
       Some (seq # seqs, br, hist))))"

text \<open>Executing a list of sequences up to the first error, with the sum of the lengths.\<close>

fun exec_all :: "('x, 'e) executor \<Rightarrow> 'x \<Rightarrow> sequence list \<Rightarrow> u32 \<Rightarrow> 'x \<times> (u32, 'e) result" where
  "exec_all exec x [] seq_sum = (x, Ok seq_sum)"
| "exec_all exec x (seq # seqs) seq_sum =
     (case exec x seq of
        (x, Ok _) \<Rightarrow> exec_all exec x seqs (seq_sum + sq_ll seq + sq_ml seq)
      | (x, Err e) \<Rightarrow> (x, Err e)
      | (x, Panic) \<Rightarrow> (x, Panic))"

definition finish_with :: "offset_hist \<Rightarrow> bit_reader_rev \<Rightarrow> 'x \<times> (u32, 'e) result
    \<Rightarrow> 'x \<times> (offset_hist \<times> bit_reader_rev \<times> u32, 'e) result" where
  "finish_with hist br p =
     (case p of (x, Ok s) \<Rightarrow> (x, Ok (hist, br, s)) | (x, Err e) \<Rightarrow> (x, Err e) | (x, Panic) \<Rightarrow> (x, Panic))"

lemma finish_with_simps [simp]:
  "finish_with hist br (x, Ok s) = (x, Ok (hist, br, s))" "finish_with hist br (x, Err e) = (x, Err e)"
  "finish_with hist br (x, Panic) = (x, Panic)"
  by (simp_all add: finish_with_def)

section \<open>The ring\<close>

text \<open>The contents of the ring in the order of their use from index \<open>i\<close> on.\<close>

definition ring_window :: "'a list \<Rightarrow> nat \<Rightarrow> nat \<Rightarrow> 'a list" where
  "ring_window ring i k = map (\<lambda>j. ring ! ((i + j) mod 8)) [0..<k]"

lemma advance_mask: "n AND ADVANCE_MASK = n mod 8"
proof -
  have "(ADVANCE_MASK :: nat) = mask 3" by (simp add: ADVANCE_MASK_def ADVANCE_def mask_eq_exp_minus_1)
  then have "n AND ADVANCE_MASK = take_bit 3 n" by (simp only: take_bit_eq_mask)
  then show ?thesis by (simp add: take_bit_eq_mod)
qed

lemma ring_window_Suc: "ring_window ring i (Suc k) = ring ! (i mod 8) # ring_window ring (Suc i) k"
  by (rule nth_equalityI) (auto simp: ring_window_def nth_Cons' nth_append simp del: upt_Suc)

lemma ring_window_start: "length ring = 8 \<Longrightarrow> ring_window ring 8 8 = ring"
  by (rule nth_equalityI) (simp_all add: ring_window_def)

lemma ring_window_store:
  assumes "length ring = 8"
  shows "ring_window (ring[i mod 8 := s]) (Suc i) 8 = ring_window ring (Suc i) 7 @ [s]"
proof (rule nth_equalityI)
  fix j assume "j < length (ring_window (ring[i mod 8 := s]) (Suc i) 8)"
  then have j: "j < 8" by (simp add: ring_window_def)
  have less: "(Suc i + j) mod 8 < length ring" using assms by simp
  have "8 dvd Suc j \<longleftrightarrow> j = 7" using j by presburger
  moreover have "Suc i + j - i = Suc j" by simp
  ultimately have "(Suc i + j) mod 8 = i mod 8 \<longleftrightarrow> j = 7"
    using mod_eq_dvd_iff_nat [of i "Suc i + j" 8] by simp
  then have "ring[i mod 8 := s] ! ((Suc i + j) mod 8) = (if j = 7 then s else ring ! ((Suc i + j) mod 8))"
    using less by (metis nth_list_update_eq nth_list_update_neq)
  then show "ring_window (ring[i mod 8 := s]) (Suc i) 8 ! j = (ring_window ring (Suc i) 7 @ [s]) ! j"
    using j by (simp add: ring_window_def nth_append)
qed (simp add: ring_window_def)

lemma drain_ring_spec:
  assumes "length ring = 8"
  shows "drain_ring exec i k ring x seq_sum j = exec_all exec x (ring_window ring (i + k) j) seq_sum"
proof (induction j arbitrary: k x seq_sum)
  case (Suc j)
  show ?case
    using Suc.IH [of "Suc k"] assms
    by (simp add: advance_mask ring_window_Suc split: prod.split result.split)
qed (simp add: ring_window_def)

lemma pipeline_loop_spec:
  assumes "decode_list on_amd mlb mub m d br hist = Some (seqs, br', hist')" "length ring = 8" "n = i + m"
  shows "pipeline_loop exec on_amd mlb mub n i m d br hist ring x seq_sum
     = finish_with hist' br' (exec_all exec x (ring_window ring i 8 @ seqs) seq_sum)"
  using assms
proof (induction m arbitrary: i d br hist ring x seq_sum seqs)
  case 0
  then show ?case
    by (simp add: ADVANCE_def drain_ring_spec finish_with_def split: prod.split result.split)
next
  case (Suc m)
  obtain seq br1 h1 d2 br2 rest where s: "decode_ahead on_amd mlb d br hist = Some (seq, br1, h1)"
      "(if m > 0 then ensure_and_update on_amd mlb mub d br1 else Some (d, br1)) = Some (d2, br2)"
      "decode_list on_amd mlb mub m d2 br2 h1 = Some (rest, br', hist')" "seqs = seq # rest"
    using Suc.prems(1) by (auto simp: Option.bind_eq_Some_conv simp del: if_split_asm split del: if_split)
  have w: "ring_window ring i 8 @ seqs
      = ring ! (i mod 8) # (ring_window (ring[i mod 8 := seq]) (Suc i) 8 @ rest)"
    using ring_window_Suc [of ring i 7] by (simp add: ring_window_store [OF Suc.prems(2)] s(4))
  show ?case
    using Suc.IH [OF s(3), of "ring[i mod 8 := seq]"] Suc.prems(2,3) unfolding w
    by (simp add: s(1,2) advance_mask Let_def split: prod.split result.split)
qed

lemma decode_list_prefill:
  assumes "0 < m"
  shows "decode_list on_amd mlb mub (k + m) d br hist =
     Option.bind (prefill_ring on_amd mlb mub k d br hist) (\<lambda>(ring, d, br, hist).
     Option.bind (decode_list on_amd mlb mub m d br hist) (\<lambda>(seqs, br, hist). Some (ring @ seqs, br, hist)))"
proof (induction k arbitrary: d br hist)
  case (Suc k)
  then show ?case using assms
    by (simp add: bind_assoc split_def Option.bind_assoc cong: option.case_cong) 
qed (auto simp: split_def)

lemma prefill_ring_length: "prefill_ring on_amd mlb mub k d br hist = Some (ring, d', br', hist') \<Longrightarrow> length ring = k"
  by (induction k arbitrary: d br hist ring) (auto simp: Option.bind_eq_Some_conv)

lemma decode_long_sequences_spec:
  assumes "decode_list on_amd mlb mub n d br hist = Some (seqs, br', hist')" "ADVANCE < n"
  shows "decode_long_sequences exec on_amd mlb mub n d br hist x
     = finish_with hist' br' (exec_all exec x seqs 0)"
proof -
  define m where "m = n - 8"
  have n: "n = 8 + m" "0 < m" using assms(2) by (simp_all add: m_def ADVANCE_def)
  obtain ring d1 br1 h1 rest where p: "prefill_ring on_amd mlb mub 8 d br hist = Some (ring, d1, br1, h1)"
      "decode_list on_amd mlb mub m d1 br1 h1 = Some (rest, br', hist')" "seqs = ring @ rest"
    using assms(1) unfolding n(1) decode_list_prefill [OF n(2)] by (auto simp: Option.bind_eq_Some_conv)
  have len: "length ring = 8" by (rule prefill_ring_length [OF p(1)])
  show ?thesis
    using p n pipeline_loop_spec [OF p(2) len n(1), of exec x 0] ring_window_start [OF len]
    by (simp add: decode_long_sequences_def ADVANCE_def)
qed

section \<open>Readers at the same bit\<close>

text \<open>Two readers of the same bytes at the same bit may hold different windows.\<close>

definition same_pos :: "bit_reader_rev \<Rightarrow> bit_reader_rev \<Rightarrow> bool" where
  "same_pos r s \<longleftrightarrow> rev_inv r \<and> rev_inv s \<and> rr_source r = rr_source s \<and> bits_remaining r = bits_remaining s"

context cpu_kernel
begin

lemma update_fast_same:
  assumes d: "decoder_ok ops d" and p: "same_pos r s"
    and room: "rr_bits_consumed r + ft_accuracy_log (fd_table d) + k \<le> 64" "rr_bits_consumed s + ft_accuracy_log (fd_table d) + l \<le> 64"
  shows "\<exists>d' r' s'. update_state_fast ops mask_lower_bits d r = Some (d', r')
     \<and> update_state_fast ops mask_lower_bits d s = Some (d', s') \<and> same_pos r' s' \<and> decoder_ok ops d' \<and> fd_table d' = fd_table d
     \<and> rr_bits_consumed r' + k \<le> 64 \<and> rr_bits_consumed s' + l \<le> 64"
proof -
  let ?nb = "unat (fe_num_bits ops (fd_state d))"
  have nb: "?nb \<le> ft_accuracy_log (fd_table d)" using decoder_ok_entry [OF d] by (simp add: entry_ok_def)
  obtain v r' where r: "get_bits_unchecked mask_lower_bits r ?nb = (v, r')" "rev_field (rr_source r) (bits_remaining r) ?nb v"
      "rev_inv r'" "bits_remaining r' = bits_remaining r - int ?nb" "rr_source r' = rr_source r"
      "rr_bits_consumed r' = rr_bits_consumed r + ?nb"
    using get_bits_unchecked_ok [of r ?nb] p nb room by (auto simp: same_pos_def)
  obtain w s' where s: "get_bits_unchecked mask_lower_bits s ?nb = (w, s')" "rev_field (rr_source s) (bits_remaining s) ?nb w"
      "rev_inv s'" "bits_remaining s' = bits_remaining s - int ?nb" "rr_source s' = rr_source s"
      "rr_bits_consumed s' = rr_bits_consumed s + ?nb"
    using get_bits_unchecked_ok [of s ?nb] p nb room by (auto simp: same_pos_def)
  have "w = v" using rev_field_unique r(2) s(2) p by (simp add: same_pos_def)
  moreover obtain d' q where "update_state_fast ops mask_lower_bits d r = Some (d', q)" "decoder_ok ops d'" "fd_table d' = fd_table d"
    using update_state_fast_ok [OF d, of r] p nb room by (auto simp: same_pos_def)
  ultimately show ?thesis
    using r s p nb room
    by (auto simp: update_state_fast_def same_pos_def Let_def Option.bind_eq_Some_conv)
qed

lemma decode_one_same:
  assumes st: "seq_states_ok ll ml off" and p: "same_pos r s"
  shows "\<exists>q r' s'. decode_one on_amd mask_lower_bits ll ml off r = Some (q, r')
     \<and> decode_one on_amd mask_lower_bits ll ml off s = Some (q, s') \<and> same_pos r' s'"
proof -
  let ?no = "unat (ss_num_additional_bits off)" and ?nm = "unat (ss_num_additional_bits ml)" and ?nl = "unat (ss_num_additional_bits ll)"
  have n: "?no \<le> 56" "?nm \<le> 56" "?nl \<le> 56" and inv: "rev_inv r" "rev_inv s" using st p by (auto simp: seq_states_ok_def same_pos_def)
  obtain v1 v2 v3 r' where t: "get_bits_triple on_amd mask_lower_bits r ?no ?nm ?nl = Some ((v1, v2, v3), r')"
      "rev_field (rr_source r) (bits_remaining r) ?no v1" "rev_field (rr_source r) (bits_remaining r - int ?no) ?nm v2"
      "rev_field (rr_source r) (bits_remaining r - int ?no - int ?nm) ?nl v3"
      "rev_inv r'" "bits_remaining r' = bits_remaining r - int (?no + ?nm + ?nl)" "rr_source r' = rr_source r"
    using get_bits_triple_ok [OF inv(1) n, of on_amd] by blast
  obtain w1 w2 w3 s' where u: "get_bits_triple on_amd mask_lower_bits s ?no ?nm ?nl = Some ((w1, w2, w3), s')"
      "rev_field (rr_source s) (bits_remaining s) ?no w1" "rev_field (rr_source s) (bits_remaining s - int ?no) ?nm w2"
      "rev_field (rr_source s) (bits_remaining s - int ?no - int ?nm) ?nl w3"
      "rev_inv s'" "bits_remaining s' = bits_remaining s - int (?no + ?nm + ?nl)" "rr_source s' = rr_source s"
    using get_bits_triple_ok [OF inv(2) n, of on_amd] by blast
  have eq: "rr_source s = rr_source r" "bits_remaining s = bits_remaining r" using p by (simp_all add: same_pos_def)
  note f = u(2-4) [unfolded eq]
  have "w1 = v1" "w2 = v2" "w3 = v3"
    using rev_field_unique [OF t(2) f(1)] rev_field_unique [OF t(3) f(2)] rev_field_unique [OF t(4) f(3)] by simp_all
  then show ?thesis using t(1,5-7) u(1,5-7) eq by (simp add: decode_one_def same_pos_def Let_def)
qed

lemma update_three_same:
  assumes d: "seq_decs_ok d" and p: "same_pos r s"
    and room: "rr_bits_consumed r + update_bits_of d \<le> 64" "rr_bits_consumed s + update_bits_of d \<le> 64"
  shows "\<exists>d' r' s'. update_three mask_lower_bits d r = Some (d', r') \<and> update_three mask_lower_bits d s = Some (d', s')
     \<and> same_pos r' s' \<and> seq_decs_ok d' \<and> update_bits_of d' = update_bits_of d"
proof -
  let ?m = "ft_accuracy_log (fd_table (sd_ml d))" and ?o = "ft_accuracy_log (fd_table (sd_of d))"
  have ok: "decoder_ok seq_symbol_ops (sd_ll d)" "decoder_ok seq_symbol_ops (sd_ml d)" "decoder_ok seq_symbol_ops (sd_of d)"
    using d by (simp_all add: seq_decs_ok_def)
  obtain ll r1 s1 where u1: "update_state_fast seq_symbol_ops mask_lower_bits (sd_ll d) r = Some (ll, r1)"
      "update_state_fast seq_symbol_ops mask_lower_bits (sd_ll d) s = Some (ll, s1)" "same_pos r1 s1" "decoder_ok seq_symbol_ops ll"
      "fd_table ll = fd_table (sd_ll d)" "rr_bits_consumed r1 + (?m + ?o) \<le> 64" "rr_bits_consumed s1 + (?m + ?o) \<le> 64"
    using update_fast_same [OF ok(1) p, of "?m + ?o" "?m + ?o"] room by (auto simp: update_bits_of_def)
  obtain ml r2 s2 where u2: "update_state_fast seq_symbol_ops mask_lower_bits (sd_ml d) r1 = Some (ml, r2)"
      "update_state_fast seq_symbol_ops mask_lower_bits (sd_ml d) s1 = Some (ml, s2)" "same_pos r2 s2" "decoder_ok seq_symbol_ops ml"
      "fd_table ml = fd_table (sd_ml d)" "rr_bits_consumed r2 + ?o \<le> 64" "rr_bits_consumed s2 + ?o \<le> 64"
    using update_fast_same [OF ok(2) u1(3), of ?o ?o] u1(6,7) by auto
  obtain off r3 s3 where u3: "update_state_fast seq_symbol_ops mask_lower_bits (sd_of d) r2 = Some (off, r3)"
      "update_state_fast seq_symbol_ops mask_lower_bits (sd_of d) s2 = Some (off, s3)" "same_pos r3 s3" "decoder_ok seq_symbol_ops off"
      "fd_table off = fd_table (sd_of d)"
    using update_fast_same [OF ok(3) u2(3), of 0 0] u2(6,7) by auto
  show ?thesis
    using u1(1,2,4,5) u2(1,2,4,5) u3 d
    by (simp add: update_three_def seq_decs_ok_def update_bits_of_def)
qed

text \<open>The direct form on one reader and the form of the pipelined loop on the other.\<close>

lemma decode_step_same:
  assumes d: "seq_decs_ok d" and p: "same_pos r s" "rr_bits_consumed r \<le> 8"
  shows "\<exists>seq r' s' hist'. decode_resolved fast on_amd (fd_state (sd_ll d)) (fd_state (sd_ml d)) (fd_state (sd_of d)) r hist
        = Some (seq, r', hist')
     \<and> decode_ahead on_amd mask_lower_bits d s hist = Some (seq, s', hist') \<and> same_pos r' s' \<and> rr_bits_consumed r' + 26 \<le> 64"
proof -
  let ?ll = "fd_state (sd_ll d)" and ?ml = "fd_state (sd_ml d)" and ?of = "fd_state (sd_of d)"
  have inv: "rev_inv r" using p(1) by (simp add: same_pos_def)
  obtain q r1 a hist' r2 where x: "decode_one on_amd mask_lower_bits ?ll ?ml ?of r = Some (q, r1)"
      "do_offset_history (sq_of q) (sq_ll q) hist = Some (a, hist')"
      "decode_resolved fast on_amd ?ll ?ml ?of r hist = Some (q\<lparr>sq_of := a\<rparr>, r2, hist')"
      "rev_inv r1" "rev_inv r2" "rr_source r1 = rr_source r" "rr_source r2 = rr_source r"
      "bits_remaining r2 = bits_remaining r1" "rr_bits_consumed r2 + 26 \<le> 64"
    using decode_resolved_ok [OF seq_decs_states [OF d] inv p(2)] by blast
  obtain s1 where y: "decode_one on_amd mask_lower_bits ?ll ?ml ?of s = Some (q, s1)" "same_pos r1 s1"
    using decode_one_same [OF seq_decs_states [OF d] p(1)] x(1) by (metis option.inject prod.inject)
  have "same_pos r2 s1" using y(2) x by (simp add: same_pos_def)
  then show ?thesis using x y by (auto simp: decode_ahead_def)
qed

lemma direct_loop_spec:
  assumes "seq_decs_ok d" "same_pos r s" "rr_bits_consumed r \<le> 8"
  shows "\<exists>seqs r' s' hist'. decode_list on_amd mask_lower_bits (update_bits_of d) n d s hist = Some (seqs, s', hist')
     \<and> length seqs = n \<and> same_pos r' s'
     \<and> (\<forall>x seq_sum. direct_loop exec fast on_amd mask_lower_bits n d r hist x seq_sum
            = (let y = exec_all exec x seqs seq_sum in finish_with hist' r' y))"
  using assms
proof (induction n arbitrary: d r s hist)
  case (Suc n)
  obtain seq r1 s1 h1 where step: "decode_resolved fast on_amd (fd_state (sd_ll d)) (fd_state (sd_ml d)) (fd_state (sd_of d)) r hist
        = Some (seq, r1, h1)" "decode_ahead on_amd mask_lower_bits d s hist = Some (seq, s1, h1)" "same_pos r1 s1"
      "rr_bits_consumed r1 + 26 \<le> 64"
    using decode_step_same [OF Suc.prems, of fast on_amd hist] by blast
  show ?case
  proof (cases "n = 0")
    case True
    then show ?thesis using step by (auto simp: Let_def split: prod.split result.split)
  next
    case False
    have b: "update_bits_of d \<le> 26" by (rule update_bits_bound [OF Suc.prems(1)])
    obtain s2 where e: "ensure_bits on_amd s1 (update_bits_of d) = Some s2" "rev_inv s2"
        "rr_bits_consumed s2 + update_bits_of d \<le> 64" "bits_remaining s2 = bits_remaining s1" "rr_source s2 = rr_source s1"
      using ensure_bits_ok [of s1 "update_bits_of d" on_amd] step(3) b by (auto simp: same_pos_def)
    then have "same_pos r1 s2" using step(3) by (simp add: same_pos_def)
    then obtain d2 r3 s3 where u: "update_three mask_lower_bits d r1 = Some (d2, r3)" "update_three mask_lower_bits d s2 = Some (d2, s3)"
        "same_pos r3 s3" "seq_decs_ok d2" "update_bits_of d2 = update_bits_of d"
      using update_three_same [OF Suc.prems(1), of r1 s2] e(3) step(4) b by auto
    obtain r4 where f: "refill_sequence fast on_amd r3 = Some r4" "rev_inv r4" "rr_bits_consumed r4 < 8"
        "bits_remaining r4 = bits_remaining r3" "rr_source r4 = rr_source r3"
      using refill_sequence_ok [of r3 fast on_amd] u(3) by (auto simp: same_pos_def)
    have "same_pos r4 s3" using u(3) f by (simp add: same_pos_def)
    with Suc.IH [OF u(4), of r4 s3 h1] f(3) u(5) obtain seqs r' s' hist' where
        i: "decode_list on_amd mask_lower_bits (update_bits_of d) n d2 s3 h1 = Some (seqs, s', hist')" "length seqs = n" "same_pos r' s'"
        "\<forall>x seq_sum. direct_loop exec fast on_amd mask_lower_bits n d2 r4 h1 x seq_sum = finish_with hist' r' (exec_all exec x seqs seq_sum)"
      by (auto simp: Let_def)
    have "decode_list on_amd mask_lower_bits (update_bits_of d) (Suc n) d s hist = Some (seq # seqs, s', hist')"
      using step(2) e(1) u(2) i(1) False by (simp add: ensure_and_update_def)
    moreover have "direct_loop exec fast on_amd mask_lower_bits (Suc n) d r hist x seq_sum
        = finish_with hist' r' (exec_all exec x (seq # seqs) seq_sum)" for x seq_sum
      using step(1) u(1) f(1) i(4) False by (simp split: prod.split result.split)
    ultimately show ?thesis using i(2,3) by (auto simp: Let_def)
  qed
qed (auto simp: Let_def)

end

section \<open>Properties\<close>

text \<open>
  C15. A sequence read in one go is the sequence read in steps. For states with in-range metadata and a reader
  with at least 56 bits in its window, the form that resolves the repeat offsets while it reads gives the
  same lengths, offset and history as the plain decoding followed by the history update, ends at the same
  bit, and leaves the 26 bits of the state updates in the window.
\<close>

theorem decode_resolved_equals_decode_one:
  assumes "seq_states_ok ll ml off" "rev_inv r" "rr_bits_consumed r \<le> 8"
    and kernel: "mlb \<in> {scalar_mask_lower_bits, mask_lower_bits_bmi2_impl}"
  shows "\<exists>s r1 a hist' r2. decode_one on_amd mlb ll ml off r = Some (s, r1)
     \<and> do_offset_history (sq_of s) (sq_ll s) hist = Some (a, hist')
     \<and> decode_resolved fast on_amd ll ml off r hist = Some (s\<lparr>sq_of := a\<rparr>, r2, hist')
     \<and> bits_remaining r2 = bits_remaining r1 \<and> rr_bits_consumed r2 + 26 \<le> 64"
  using kernel scalar_kernel.decode_resolved_ok [OF assms(1-3), of on_amd hist fast]
    bmi2_kernel.decode_resolved_ok [OF assms(1-3), of on_amd hist fast] by auto

theorem decode_resolved_equals_decode_one_witness:
  "\<exists>s r1 a hist' r2. decode_one False scalar_mask_lower_bits
        \<lparr>ss_new_state = 0, ss_num_bits = 0, ss_num_additional_bits = 1, ss_base_value = 16\<rparr>
        \<lparr>ss_new_state = 0, ss_num_bits = 0, ss_num_additional_bits = 0, ss_base_value = 5\<rparr>
        \<lparr>ss_new_state = 0, ss_num_bits = 0, ss_num_additional_bits = 1, ss_base_value = 2\<rparr>
        (the (refill False (bit_reader_rev_new [1, 2, 3, 4, 5, 6, 7, 8, 9]))) = Some (s, r1)
     \<and> do_offset_history (sq_of s) (sq_ll s) (1, 4, 8) = Some (a, hist')
     \<and> decode_resolved True False
        \<lparr>ss_new_state = 0, ss_num_bits = 0, ss_num_additional_bits = 1, ss_base_value = 16\<rparr>
        \<lparr>ss_new_state = 0, ss_num_bits = 0, ss_num_additional_bits = 0, ss_base_value = 5\<rparr>
        \<lparr>ss_new_state = 0, ss_num_bits = 0, ss_num_additional_bits = 1, ss_base_value = 2\<rparr>
        (the (refill False (bit_reader_rev_new [1, 2, 3, 4, 5, 6, 7, 8, 9]))) (1, 4, 8) = Some (s\<lparr>sq_of := a\<rparr>, r2, hist')
     \<and> bits_remaining r2 = bits_remaining r1 \<and> rr_bits_consumed r2 + 26 \<le> 64"
proof (rule decode_resolved_equals_decode_one)
  obtain r' where "refill False (bit_reader_rev_new [1, 2, 3, 4, 5, 6, 7, 8, 9]) = Some r'" "rev_inv r'" "rr_bits_consumed r' < 8"
    using refill_ok [OF rev_inv_new] by blast
  then show "rev_inv (the (refill False (bit_reader_rev_new [1, 2, 3, 4, 5, 6, 7, 8, 9])))"
      "rr_bits_consumed (the (refill False (bit_reader_rev_new [1, 2, 3, 4, 5, 6, 7, 8, 9]))) \<le> 8" by simp_all
qed (simp_all add: seq_states_ok_def)

text \<open>
  C11. The pipelined loop is the direct loop. For decoders on fit tables and a block of more than eight
  sequences, both loops run over the bits without a panic of their own and execute the same list of
  sequences in the same order up to the first error, whatever the executor does with its state; they
  end with the same history and at the same bit of the stream, which is what the check for left-over bits
  reads.
\<close>

theorem pipelined_loop_equals_direct:
  assumes "seq_decs_ok d" "rev_inv br" "ADVANCE < n"
    and kernel: "mlb \<in> {scalar_mask_lower_bits, mask_lower_bits_bmi2_impl}"
  shows "\<exists>seqs br_l br_s hist'. length seqs = n \<and> bits_remaining br_l = bits_remaining br_s
     \<and> decode_list on_amd mlb (update_bits_of d) n d br hist = Some (seqs, br_l, hist')
     \<and> decode_long_sequences exec on_amd mlb (update_bits_of d) n d br hist x = finish_with hist' br_l (exec_all exec x seqs 0)
     \<and> decode_short_sequences exec fast on_amd mlb n d br hist x = finish_with hist' br_s (exec_all exec x seqs 0)"
proof -
  have "cpu_kernel mlb" using kernel scalar_kernel.cpu_kernel_axioms bmi2_kernel.cpu_kernel_axioms by auto
  note direct = cpu_kernel.direct_loop_spec [OF this assms(1)]
  obtain r where r: "refill_sequence fast on_amd br = Some r" "rev_inv r" "rr_bits_consumed r < 8"
      "bits_remaining r = bits_remaining br" "rr_source r = rr_source br"
    using refill_sequence_ok [OF assms(2)] by blast
  then have "same_pos r br" "rr_bits_consumed r \<le> 8" using assms(2) by (simp_all add: same_pos_def)
  from direct [OF this, of on_amd n hist exec fast] obtain seqs r' s' hist' where
      l: "decode_list on_amd mlb (update_bits_of d) n d br hist = Some (seqs, s', hist')" "length seqs = n" "same_pos r' s'"
      "direct_loop exec fast on_amd mlb n d r hist x 0 = finish_with hist' r' (exec_all exec x seqs 0)"
    by (auto simp: Let_def)
  moreover have "decode_short_sequences exec fast on_amd mlb n d br hist x = finish_with hist' r' (exec_all exec x seqs 0)"
    using r(1) l(4) by (simp add: decode_short_sequences_def)
  moreover have "decode_long_sequences exec on_amd mlb (update_bits_of d) n d br hist x
      = finish_with hist' s' (exec_all exec x seqs 0)"
    by (rule decode_long_sequences_spec [OF l(1) assms(3)])
  ultimately show ?thesis
    by (intro exI [of _ seqs] exI [of _ s'] exI [of _ r'] exI [of _ hist']) (simp add: same_pos_def)
qed

text \<open>Decoders on the single-state tables of an RLE block.\<close>

definition rle_decoder :: "u32 \<Rightarrow> u8 \<Rightarrow> seq_symbol fse_decoder" where
  "rle_decoder base bits =
     (let e = \<lparr>ss_new_state = 0, ss_num_bits = 0, ss_num_additional_bits = bits, ss_base_value = base\<rparr> in
      \<lparr>fd_state = e, fd_table = (fse_table_new 512 31)\<lparr>ft_decode := [Some e], ft_decode_len := 1\<rparr>\<rparr>)"

definition rle_decs :: seq_decs where
  "rle_decs = \<lparr>sd_ll = rle_decoder 3 0, sd_ml = rle_decoder 7 0, sd_of = rle_decoder 4 2\<rparr>"

text \<open>An executor that fails at the eighteenth sequence.\<close>

definition count_exec :: "(nat, string) executor" where
  "count_exec n seq = (n + 1, if n < 17 then Ok () else Err ''full'')"

lemma rle_decs_ok: "seq_decs_ok rle_decs"
  by (simp add: rle_decs_def seq_decs_ok_def decoder_ok_def axis_ok_def table_ok_def entry_ok_def rle_decoder_def
      fse_table_new_def seq_symbol_ops_def ll_meta_ok_def ml_meta_ok_def of_meta_ok_def Let_def)

theorem pipelined_loop_equals_direct_witness:
  "\<exists>seqs br_l br_s hist'. length seqs = 20 \<and> bits_remaining br_l = bits_remaining br_s
     \<and> decode_list False scalar_mask_lower_bits (update_bits_of rle_decs) 20 rle_decs (bit_reader_rev_new [0x55, 0xAA])
         (1, 4, 8) = Some (seqs, br_l, hist')
     \<and> decode_long_sequences count_exec False scalar_mask_lower_bits (update_bits_of rle_decs) 20 rle_decs
         (bit_reader_rev_new [0x55, 0xAA]) (1, 4, 8) 0 = finish_with hist' br_l (exec_all count_exec 0 seqs 0)
     \<and> decode_short_sequences count_exec True False scalar_mask_lower_bits 20 rle_decs
         (bit_reader_rev_new [0x55, 0xAA]) (1, 4, 8) 0 = finish_with hist' br_s (exec_all count_exec 0 seqs 0)"
  by (rule pipelined_loop_equals_direct [OF rle_decs_ok rev_inv_new]) (simp_all add: ADVANCE_def)

end
