(* ===== verification/Wild_Copy.thy ===== *)
theory Wild_Copy
  imports Prelude
begin

text \<open>
  The byte copies of \<^verbatim>\<open>zstd/src/decoding/simd_copy.rs\<close>, which may write more than asked for inside the
  room they are given. Memory is a byte list and an address an index into it; a load or store outside it
  has no result. Allocations that cannot alias are laid out one after the other in the same list. What
  the decoder needs of a copy is the relation \<open>copied\<close>; the trait's copy operations are a record, their
  contract the locale \<open>copy_kernel\<close>, and every kernel of the source interprets it.
\<close>

section \<open>Memory\<close>

type_synonym mem = "u8 list"

definition load :: "mem \<Rightarrow> nat \<Rightarrow> nat \<Rightarrow> u8 list option" where
  "load mem src n = (if src + n \<le> length mem then Some (take n (drop src mem)) else None)"

definition store_bytes :: "mem \<Rightarrow> nat \<Rightarrow> u8 list \<Rightarrow> mem option" where
  "store_bytes mem dst xs =
     (if dst + length xs \<le> length mem then Some (take dst mem @ xs @ drop (dst + length xs) mem) else None)"

text \<open>One load and one store of \<open>n\<close> bytes; also \<open>copy_from_nonoverlapping\<close>.\<close>

definition move_block :: "nat \<Rightarrow> mem \<Rightarrow> nat \<Rightarrow> nat \<Rightarrow> mem option" where
  "move_block n mem src dst = Option.bind (load mem src n) (store_bytes mem dst)"

section \<open>The copies\<close>

text \<open>The loop the chunked copies share: a load and a store per chunk until the source reaches its end.\<close>

function copy_chunked :: "nat \<Rightarrow> mem \<Rightarrow> nat \<Rightarrow> nat \<Rightarrow> nat \<Rightarrow> mem option" where
  "copy_chunked c mem src dst src_end =
     (if 0 < c \<and> src < src_end
      then Option.bind (move_block c mem src dst) (\<lambda>mem. copy_chunked c mem (src + c) (dst + c) src_end)
      else Some mem)"
  by pat_completeness auto
termination by (relation "measure (\<lambda>(c, mem, src, dst, src_end). src_end - src)") auto

declare copy_chunked.simps [simp del]

definition SCALAR_COPY_CHUNK :: nat where
  "SCALAR_COPY_CHUNK = 8"

definition BULK_MEMCPY_THRESHOLD :: nat where
  "BULK_MEMCPY_THRESHOLD = 2048"

definition copy_scalar :: "mem \<Rightarrow> nat \<Rightarrow> nat \<Rightarrow> nat \<Rightarrow> mem option" where
  "copy_scalar mem src dst len = copy_chunked SCALAR_COPY_CHUNK mem src dst (src + len)"

text \<open>\<open>copy_neon\<close> and \<open>copy_simd128\<close> are the same loop over their own 16-byte vectors.\<close>

definition copy_sse2 :: "mem \<Rightarrow> nat \<Rightarrow> nat \<Rightarrow> nat \<Rightarrow> mem option" where
  "copy_sse2 mem src dst len = copy_chunked 16 mem src dst (src + len)"

text \<open>Two 32-byte vectors per turn, both loaded before either is stored.\<close>

definition move_two_vectors :: "mem \<Rightarrow> nat \<Rightarrow> nat \<Rightarrow> mem option" where
  "move_two_vectors mem src dst =
     Option.bind (load mem src 32) (\<lambda>v0. Option.bind (load mem (src + 32) 32) (\<lambda>v1.
     Option.bind (store_bytes mem dst v0) (\<lambda>mem. store_bytes mem (dst + 32) v1)))"

function copy_avx2_loop :: "mem \<Rightarrow> nat \<Rightarrow> nat \<Rightarrow> nat \<Rightarrow> nat \<Rightarrow> (mem \<times> nat \<times> nat \<times> nat) option" where
  "copy_avx2_loop mem src dst copied end_unrolled =
     (if copied < end_unrolled
      then Option.bind (move_two_vectors mem src dst)
             (\<lambda>mem. copy_avx2_loop mem (src + 64) (dst + 64) (copied + 64) end_unrolled)
      else Some (mem, src, dst, copied))"
  by pat_completeness auto
termination by (relation "measure (\<lambda>(mem, src, dst, copied, end_unrolled). end_unrolled - copied)") auto

declare copy_avx2_loop.simps [simp del]

definition copy_avx2 :: "mem \<Rightarrow> nat \<Rightarrow> nat \<Rightarrow> nat \<Rightarrow> mem option" where
  "copy_avx2 mem src dst len =
     (let end_unrolled = len - len mod 64 in
      Option.bind (copy_avx2_loop mem src dst 0 end_unrolled) (\<lambda>(mem, src, dst, copied).
        if copied < len then move_block 32 mem src dst else Some mem))"

definition copy16_portable :: "mem \<Rightarrow> nat \<Rightarrow> nat \<Rightarrow> mem option" where
  "copy16_portable mem src dst =
     Option.bind (load mem src 8) (\<lambda>lo. Option.bind (load mem (src + 8) 8) (\<lambda>hi.
     Option.bind (store_bytes mem dst lo) (\<lambda>mem. store_bytes mem (dst + 8) hi)))"

fun copy_byte_loop :: "nat \<Rightarrow> nat \<Rightarrow> mem \<Rightarrow> nat \<Rightarrow> nat \<Rightarrow> mem option" where
  "copy_byte_loop 0 i mem src dst = Some mem"
| "copy_byte_loop (Suc n) i mem src dst =
     Option.bind (move_block 1 mem (src + i) (dst + i)) (\<lambda>mem. copy_byte_loop n (Suc i) mem src dst)"

definition copy_exact_small :: "mem \<Rightarrow> nat \<Rightarrow> nat \<Rightarrow> nat \<Rightarrow> mem option" where
  "copy_exact_small mem src dst len =
     (if len \<le> 8 then copy_byte_loop len 0 mem src dst
      else if len \<le> 16 then
        Option.bind (load mem src 8) (\<lambda>lo. Option.bind (load mem (src + (len - 8)) 8) (\<lambda>hi.
        Option.bind (store_bytes mem dst lo) (\<lambda>mem. store_bytes mem (dst + (len - 8)) hi)))
      else
        Option.bind (copy16_portable mem src dst) (\<lambda>mem.
        Option.bind (load mem (src + (len - 16)) 8) (\<lambda>lo. Option.bind (load mem (src + (len - 8)) 8) (\<lambda>hi.
        Option.bind (store_bytes mem (dst + (len - 16)) lo) (\<lambda>mem. store_bytes mem (dst + (len - 8)) hi)))))"

text \<open>The exact copies of 33 bytes and more: vectors from both ends, or vector loops and one overlapping tail.\<close>

definition move_pair :: "nat \<Rightarrow> mem \<Rightarrow> nat \<Rightarrow> nat \<Rightarrow> nat \<Rightarrow> nat \<Rightarrow> mem option" where
  "move_pair w mem src dst p q =
     Option.bind (load mem (src + p) w) (\<lambda>a. Option.bind (load mem (src + q) w) (\<lambda>b.
     Option.bind (store_bytes mem (dst + p) a) (\<lambda>mem. store_bytes mem (dst + q) b)))"

definition move_quad :: "nat \<Rightarrow> mem \<Rightarrow> nat \<Rightarrow> nat \<Rightarrow> nat \<Rightarrow> nat \<Rightarrow> nat \<Rightarrow> nat \<Rightarrow> mem option" where
  "move_quad w mem src dst p q r s =
     Option.bind (load mem (src + p) w) (\<lambda>a. Option.bind (load mem (src + q) w) (\<lambda>b.
     Option.bind (load mem (src + r) w) (\<lambda>c. Option.bind (load mem (src + s) w) (\<lambda>d.
     Option.bind (store_bytes mem (dst + p) a) (\<lambda>mem. Option.bind (store_bytes mem (dst + q) b) (\<lambda>mem.
     Option.bind (store_bytes mem (dst + r) c) (\<lambda>mem. store_bytes mem (dst + s) d)))))))"

function exact_pairs :: "nat \<Rightarrow> mem \<Rightarrow> nat \<Rightarrow> nat \<Rightarrow> nat \<Rightarrow> nat \<Rightarrow> (mem \<times> nat) option" where
  "exact_pairs w mem src dst off len =
     (if 0 < w \<and> off + 2 * w \<le> len
      then Option.bind (move_pair w mem src dst off (off + w)) (\<lambda>mem. exact_pairs w mem src dst (off + 2 * w) len)
      else Some (mem, off))"
  by pat_completeness auto
termination by (relation "measure (\<lambda>(w, mem, src, dst, off, len). len - off)") auto

function exact_singles :: "nat \<Rightarrow> mem \<Rightarrow> nat \<Rightarrow> nat \<Rightarrow> nat \<Rightarrow> nat \<Rightarrow> (mem \<times> nat) option" where
  "exact_singles w mem src dst off len =
     (if 0 < w \<and> off + w \<le> len
      then Option.bind (move_block w mem (src + off) (dst + off)) (\<lambda>mem. exact_singles w mem src dst (off + w) len)
      else Some (mem, off))"
  by pat_completeness auto
termination by (relation "measure (\<lambda>(w, mem, src, dst, off, len). len - off)") auto

declare exact_pairs.simps [simp del] exact_singles.simps [simp del]

definition exact_loops :: "nat \<Rightarrow> mem \<Rightarrow> nat \<Rightarrow> nat \<Rightarrow> nat \<Rightarrow> mem option" where
  "exact_loops w mem src dst len =
     Option.bind (exact_pairs w mem src dst 0 len) (\<lambda>(mem, off). Option.bind (exact_singles w mem src dst off len) (\<lambda>(mem, off).
       if off < len then move_block w mem (src + (len - w)) (dst + (len - w)) else Some mem))"

definition copy_exact_avx2 :: "mem \<Rightarrow> nat \<Rightarrow> nat \<Rightarrow> nat \<Rightarrow> mem option" where
  "copy_exact_avx2 mem src dst len =
     (if len \<le> 64 then move_pair 32 mem src dst 0 (len - 32)
      else if len \<le> 128 then move_quad 32 mem src dst 0 32 (len - 64) (len - 32)
      else exact_loops 32 mem src dst len)"

definition copy_exact_sse2 :: "mem \<Rightarrow> nat \<Rightarrow> nat \<Rightarrow> nat \<Rightarrow> mem option" where
  "copy_exact_sse2 mem src dst len =
     (if len \<le> 64 then move_quad 16 mem src dst 0 16 (len - 32) (len - 16) else exact_loops 16 mem src dst len)"

text \<open>The copy half of the trait \<open>CpuKernel\<close>.\<close>

record copy_ops =
  ck_COPY_CHUNK :: nat
  ck_copy_chunks :: "mem \<Rightarrow> nat \<Rightarrow> nat \<Rightarrow> nat \<Rightarrow> mem option"
  ck_STEP_CHUNK :: nat
  ck_copy_step :: "mem \<Rightarrow> nat \<Rightarrow> nat \<Rightarrow> nat \<Rightarrow> mem option"
  ck_copy16 :: "mem \<Rightarrow> nat \<Rightarrow> nat \<Rightarrow> mem option"

text \<open>The defaults of the trait, which the scalar kernel takes; the SSE2 copies, shared by the SSE2 and BMI2 kernels and
  in their vectors by the NEON and SVE ones; and those of the AVX2 and VBMI2 kernels.\<close>

definition scalar_copy :: copy_ops where
  "scalar_copy = \<lparr>ck_COPY_CHUNK = SCALAR_COPY_CHUNK, ck_copy_chunks = copy_scalar, ck_STEP_CHUNK = SCALAR_COPY_CHUNK,
     ck_copy_step = copy_scalar, ck_copy16 = copy16_portable\<rparr>"

definition sse2_copy :: copy_ops where
  "sse2_copy = \<lparr>ck_COPY_CHUNK = 16, ck_copy_chunks = copy_sse2, ck_STEP_CHUNK = 16, ck_copy_step = copy_sse2,
     ck_copy16 = (\<lambda>mem src dst. copy_sse2 mem src dst 16)\<rparr>"

definition avx2_copy :: copy_ops where
  "avx2_copy = \<lparr>ck_COPY_CHUNK = 32, ck_copy_chunks = copy_avx2, ck_STEP_CHUNK = 16, ck_copy_step = copy_sse2,
     ck_copy16 = (\<lambda>mem src dst. copy_sse2 mem src dst 16)\<rparr>"

definition next_multiple_of :: "nat \<Rightarrow> nat \<Rightarrow> nat" where
  "next_multiple_of n c = (n + c - 1) div c * c"

fun copy_bytes_overshooting :: "copy_ops \<Rightarrow> mem \<Rightarrow> nat \<times> nat \<Rightarrow> nat \<times> nat \<Rightarrow> nat \<Rightarrow> mem option" where
  "copy_bytes_overshooting k mem (src, src_len) (dst, dst_len) copy_at_least =
     (let min_buffer_size = min src_len dst_len in
      if copy_at_least = 0 then Some mem
      else if copy_at_least \<le> 16 \<and> min_buffer_size \<ge> 16 then ck_copy16 k mem src dst
      else if copy_at_least \<le> 32 then copy_exact_small mem src dst copy_at_least
      else if copy_at_least \<ge> BULK_MEMCPY_THRESHOLD then move_block copy_at_least mem src dst
      else if min_buffer_size \<ge> next_multiple_of copy_at_least (ck_COPY_CHUNK k)
        then ck_copy_chunks k mem src dst (next_multiple_of copy_at_least (ck_COPY_CHUNK k))
      else if ck_STEP_CHUNK k < ck_COPY_CHUNK k \<and> min_buffer_size \<ge> next_multiple_of copy_at_least (ck_STEP_CHUNK k)
        then ck_copy_step k mem src dst (next_multiple_of copy_at_least (ck_STEP_CHUNK k))
      else if min_buffer_size \<ge> next_multiple_of copy_at_least SCALAR_COPY_CHUNK
        then copy_scalar mem src dst (next_multiple_of copy_at_least SCALAR_COPY_CHUNK)
      else move_block copy_at_least mem src dst)"

section \<open>What a copy does\<close>

text \<open>
  The first \<open>n\<close> bytes arrive, and no byte outside the \<open>room\<close> bytes at the destination changes.
\<close>

definition copied :: "mem \<Rightarrow> nat \<Rightarrow> nat \<Rightarrow> nat \<Rightarrow> nat \<Rightarrow> mem \<Rightarrow> bool" where
  "copied mem src dst n room mem' \<longleftrightarrow> length mem' = length mem \<and> (\<forall>j < n. mem' ! (dst + j) = mem ! (src + j))
     \<and> (\<forall>i < length mem. i < dst \<or> dst + room \<le> i \<longrightarrow> mem' ! i = mem ! i)"

definition apart :: "nat \<Rightarrow> nat \<Rightarrow> nat \<Rightarrow> bool" where
  "apart src dst n \<longleftrightarrow> src + n \<le> dst \<or> dst + n \<le> src"

lemma copied_mono: "copied mem src dst n room mem' \<Longrightarrow> m \<le> n \<Longrightarrow> room \<le> room' \<Longrightarrow> copied mem src dst m room' mem'"
  by (auto simp: copied_def)

lemma copied_0: "copied mem src dst 0 0 mem"
  by (simp add: copied_def)

lemma store_bytes_nth:
  assumes "store_bytes mem dst xs = Some mem'"
  shows "length mem' = length mem"
    "i < length mem \<Longrightarrow> mem' ! i = (if dst \<le> i \<and> i < dst + length xs then xs ! (i - dst) else mem ! i)"
  using assms by (auto simp: store_bytes_def nth_append split: if_splits)

lemma store_bytes_Some: "dst + length xs \<le> length mem \<Longrightarrow> \<exists>mem'. store_bytes mem dst xs = Some mem'"
  by (simp add: store_bytes_def)

lemma move_block_ok:
  assumes "src + n \<le> length mem" "dst + n \<le> length mem"
  shows "\<exists>mem'. move_block n mem src dst = Some mem' \<and> copied mem src dst n n mem'"
proof -
  obtain mem' where m: "store_bytes mem dst (take n (drop src mem)) = Some mem'"
    using store_bytes_Some [of dst "take n (drop src mem)" mem] assms by auto
  then have "move_block n mem src dst = Some mem'" using assms by (simp add: move_block_def load_def)
  moreover have "copied mem src dst n n mem'"
    using store_bytes_nth [OF m] assms by (auto simp: copied_def)
  ultimately show ?thesis by blast
qed

text \<open>A further chunk after the first \<open>k\<close> bytes; only it may go past the \<open>n\<close> bytes wanted.\<close>

lemma copied_step:
  assumes k: "copied mem src dst k k m1" "k \<le> n" and c: "copied m1 (src + k) (dst + k) c c m2"
    and ap: "apart src dst n" and room: "src + n \<le> length mem" "dst + n \<le> length mem"
  shows "copied mem src dst (min (k + c) n) (k + c) m2"
proof -
  have len: "length m1 = length mem" "length m2 = length mem" using k(1) c by (simp_all add: copied_def)
  have old: "m1 ! (src + j) = mem ! (src + j)" if "k \<le> j" "j < n" for j
    using k that ap room by (auto simp: copied_def apart_def)
  have new: "m2 ! (dst + k + i) = m1 ! (src + k + i)" if "i < c" for i using c that by (simp add: copied_def)
  have low: "m2 ! (dst + j) = m1 ! (dst + j)" if "j < k" "dst + j < length mem" for j
    using c that len by (simp add: copied_def)
  have "m2 ! (dst + j) = mem ! (src + j)" if j: "j < min (k + c) n" for j
  proof (cases "j < k")
    case True
    have "dst + j < length mem" using room(2) j True k(2) by linarith
    then show ?thesis using low [OF True] k(1) True by (simp add: copied_def)
  next
    case False
    then have "m2 ! (dst + k + (j - k)) = m1 ! (src + k + (j - k))" using j by (intro new) linarith
    then show ?thesis using False old [of j] j by simp
  qed
  then show ?thesis using k(1) c by (auto simp: copied_def)
qed


lemma copy_chunked_ok:
  assumes c: "0 < c" and k: "copied mem src dst k k m1" "k \<le> n" and ap: "apart src dst n" and r: "n \<le> r" "r < n + c" "c dvd r" "c dvd k"
    and room: "src + r \<le> length mem" "dst + r \<le> length mem"
  shows "\<exists>mem'. copy_chunked c m1 (src + k) (dst + k) (src + r) = Some mem' \<and> copied mem src dst n r mem'"
  using k r(4)
proof (induction "r - k" arbitrary: k m1 rule: less_induct)
  case less
  show ?case
  proof (cases "k < r")
    case False
    then have "k = n" "r = n" using less.prems r by linarith+
    then show ?thesis using less.prems(1) by (simp add: copy_chunked.simps [of c m1])
  next
    case True
    have kc: "k + c \<le> r"
    proof -
      have "c dvd r - k" using r(3) less.prems(3) by (simp add: dvd_diff_nat)
      then show ?thesis using True dvd_imp_le [of c "r - k"] by linarith
    qed
    have len: "length m1 = length mem" using less.prems(1) by (simp add: copied_def)
    obtain m2 where m2: "move_block c m1 (src + k) (dst + k) = Some m2" "copied m1 (src + k) (dst + k) c c m2"
      using move_block_ok [of "src + k" c m1 "dst + k"] kc room len by auto
    have st: "copied mem src dst (min (k + c) n) (k + c) m2"
      using copied_step [OF less.prems(1,2) m2(2) ap] room r(1) by linarith
    show ?thesis
    proof (cases "k + c \<le> n")
      case True
      then have "copied mem src dst (k + c) (k + c) m2" using st by simp
      moreover have "r - (k + c) < r - k" using kc c by linarith
      ultimately obtain mem' where "copy_chunked c m2 (src + (k + c)) (dst + (k + c)) (src + r) = Some mem'" "copied mem src dst n r mem'"
        using less.hyps True less.prems(3) by (metis dvd_add dvd_refl)
      then show ?thesis using m2(1) \<open>k < r\<close> c by (simp add: copy_chunked.simps [of c m1] add.assoc)
    next
      case False
      have "c dvd r - (k + c)" using r(3) less.prems(3) by (simp add: dvd_diff_nat)
      moreover have "r - (k + c) < c" using False r(2) c by linarith
      ultimately have "r - (k + c) = 0" using nat_dvd_not_less [of "r - (k + c)" c] by blast
      then have "k + c = r" using kc by linarith
      then show ?thesis using m2(1) st False \<open>k < r\<close> c
        by (simp add: copy_chunked.simps [of c m1] copy_chunked.simps [of c m2] add.assoc)
    qed
  qed
qed

lemma next_multiple_of_bounds:
  assumes "0 < c"
  shows "n \<le> next_multiple_of n c" "next_multiple_of n c < n + c" "c dvd next_multiple_of n c"
proof -
  let ?x = "n + c - 1"
  have "?x div c * c + ?x mod c = ?x" "?x mod c < c" using assms by simp_all
  then show "n \<le> next_multiple_of n c" "next_multiple_of n c < n + c"
    using assms unfolding next_multiple_of_def by linarith+
qed (simp add: next_multiple_of_def)

text \<open>What the decoder asks of a chunked copy of a rounded length.\<close>

definition chunk_copier :: "nat \<Rightarrow> (mem \<Rightarrow> nat \<Rightarrow> nat \<Rightarrow> nat \<Rightarrow> mem option) \<Rightarrow> bool" where
  "chunk_copier c f \<longleftrightarrow> 0 < c \<and> (\<forall>mem src dst n. 0 < n \<and> src + next_multiple_of n c \<le> length mem
     \<and> dst + next_multiple_of n c \<le> length mem \<and> apart src dst n
     \<longrightarrow> (\<exists>mem'. f mem src dst (next_multiple_of n c) = Some mem' \<and> copied mem src dst n (next_multiple_of n c) mem'))"

lemma chunked_copier: "0 < c \<Longrightarrow> chunk_copier c (\<lambda>mem src dst len. copy_chunked c mem src dst (src + len))"
  unfolding chunk_copier_def
proof (intro conjI allI impI)
  fix mem :: mem and src dst n
  assume c: "0 < c" and a: "0 < n \<and> src + next_multiple_of n c \<le> length mem \<and> dst + next_multiple_of n c \<le> length mem \<and> apart src dst n"
  show "\<exists>mem'. copy_chunked c mem src dst (src + next_multiple_of n c) = Some mem' \<and> copied mem src dst n (next_multiple_of n c) mem'"
    using copy_chunked_ok [OF c copied_0, of n src dst "next_multiple_of n c" mem] a next_multiple_of_bounds [OF c, of n] by simp
qed

lemma scalar_copier: "chunk_copier SCALAR_COPY_CHUNK copy_scalar"
  using chunked_copier [of SCALAR_COPY_CHUNK] by (simp add: copy_scalar_def [abs_def] SCALAR_COPY_CHUNK_def)

lemma sse2_copier: "chunk_copier 16 copy_sse2"
  using chunked_copier [of 16] by (simp add: copy_sse2_def [abs_def])

text \<open>Two loads before two stores are one wide move.\<close>

lemma two_loads_one_move:
  assumes "src + (a + b) \<le> length mem" "dst + (a + b) \<le> length mem"
  shows "Option.bind (load mem src a) (\<lambda>x. Option.bind (load mem (src + a) b) (\<lambda>y.
     Option.bind (store_bytes mem dst x) (\<lambda>mem. store_bytes mem (dst + a) y))) = move_block (a + b) mem src dst"
proof -
  let ?x = "take a (drop src mem)" and ?y = "take b (drop (src + a) mem)"
  have "store_bytes (take dst mem @ ?x @ drop (dst + a) mem) (dst + a) ?y = store_bytes mem dst (?x @ ?y)"
    using assms by (simp add: store_bytes_def ac_simps)
  moreover have "?x @ ?y = take (a + b) (drop src mem)" by (simp add: take_add add.commute)
  ultimately show ?thesis using assms by (simp add: load_def move_block_def store_bytes_def [of mem dst ?x])
qed

lemma move_two_vectors_eq:
  "src + 64 \<le> length mem \<Longrightarrow> dst + 64 \<le> length mem \<Longrightarrow> move_two_vectors mem src dst = move_block 64 mem src dst"
  using two_loads_one_move [of src 32 32 mem dst] by (simp add: move_two_vectors_def)

lemma copy16_portable_eq:
  "src + 16 \<le> length mem \<Longrightarrow> dst + 16 \<le> length mem \<Longrightarrow> copy16_portable mem src dst = move_block 16 mem src dst"
  using two_loads_one_move [of src 8 8 mem dst] by (simp add: copy16_portable_def)

lemma copy_avx2_loop_ok:
  assumes k: "copied mem src dst k k m1" "k \<le> e" "k \<le> n" and ap: "apart src dst n" and e: "e < n + 64" "64 dvd e" "64 dvd k"
    and room: "src + e \<le> length mem" "dst + e \<le> length mem" "src + n \<le> length mem" "dst + n \<le> length mem"
  shows "\<exists>m2. copy_avx2_loop m1 (src + k) (dst + k) k e = Some (m2, src + e, dst + e, e) \<and> copied mem src dst (min e n) e m2"
  using k e(3)
proof (induction "e - k" arbitrary: k m1 rule: less_induct)
  case less
  show ?case
  proof (cases "k < e")
    case False
    then show ?thesis using less.prems by (simp add: copy_avx2_loop.simps [of m1] min_def)
  next
    case True
    have "64 dvd e - k" using e(2) less.prems(4) by (simp add: dvd_diff_nat)
    then have kc: "k + 64 \<le> e" using True dvd_imp_le [of 64 "e - k"] by linarith
    have len: "length m1 = length mem" using less.prems(1) by (simp add: copied_def)
    obtain m2 where m2: "move_block 64 m1 (src + k) (dst + k) = Some m2" "copied m1 (src + k) (dst + k) 64 64 m2"
      using move_block_ok [of "src + k" 64 m1 "dst + k"] kc room len by auto
    have st: "copied mem src dst (min (k + 64) n) (k + 64) m2"
      by (rule copied_step [OF less.prems(1,3) m2(2) ap room(3,4)])
    have mv: "move_two_vectors m1 (src + k) (dst + k) = Some m2"
      using m2(1) move_two_vectors_eq [of "src + k" m1 "dst + k"] kc room len by simp
    show ?thesis
    proof (cases "k + 64 \<le> n")
      case True
      have "e - (k + 64) < e - k" "64 dvd k + 64" "copied mem src dst (k + 64) (k + 64) m2"
        using kc less.prems(4) st True by simp_all
      then obtain m3 where "copy_avx2_loop m2 (src + (k + 64)) (dst + (k + 64)) (k + 64) e = Some (m3, src + e, dst + e, e)"
          "copied mem src dst (min e n) e m3"
        using less.hyps [of "k + 64" m2] kc True by blast
      then show ?thesis using mv \<open>k < e\<close> by (simp add: copy_avx2_loop.simps [of m1] add.assoc)
    next
      case False
      have "64 dvd e - (k + 64)" using e(2) less.prems(4) by (simp add: dvd_diff_nat)
      moreover have "e - (k + 64) < 64" using False e(1) by linarith
      ultimately have "e - (k + 64) = 0" using nat_dvd_not_less [of "e - (k + 64)" 64] by blast
      then have "k + 64 = e" using kc by linarith
      then show ?thesis using mv st \<open>k < e\<close>
        by (auto simp: copy_avx2_loop.simps [of m1] copy_avx2_loop.simps [of m2])
    qed
  qed
qed

lemma avx2_copier: "chunk_copier 32 copy_avx2"
  unfolding chunk_copier_def
proof (intro conjI allI impI)
  fix mem :: mem and src dst n
  let ?r = "next_multiple_of n 32"
  assume a: "0 < n \<and> src + ?r \<le> length mem \<and> dst + ?r \<le> length mem \<and> apart src dst n"
  define e where "e = ?r - ?r mod 64"
  have b: "n \<le> ?r" "?r < n + 32" "32 dvd ?r" using next_multiple_of_bounds [of 32 n] by simp_all
  have m: "?r mod 64 = 0 \<or> ?r mod 64 = 32" using b(3) by presburger
  have e: "64 dvd e" "e = ?r \<or> e + 32 = ?r" "e < n + 64" "e \<le> ?r" using m b mod_less_eq_dividend [of ?r 64] by (auto simp: e_def dvd_minus_mod)
  obtain m2 where m2: "copy_avx2_loop mem src dst 0 e = Some (m2, src + e, dst + e, e)" "copied mem src dst (min e n) e m2"
    using copy_avx2_loop_ok [OF copied_0, of e n src dst mem] a b e by auto
  show "\<exists>mem'. copy_avx2 mem src dst ?r = Some mem' \<and> copied mem src dst n ?r mem'"
  proof (cases "e = ?r")
    case True
    then have "min e n = n" using b(1) by simp
    then show ?thesis using m2 True by (simp add: copy_avx2_def e_def [symmetric])
  next
    case False
    then have er: "e + 32 = ?r" "e \<le> n" using e(2) b by linarith+
    have len: "length m2 = length mem" using m2(2) by (simp add: copied_def)
    obtain m3 where m3: "move_block 32 m2 (src + e) (dst + e) = Some m3" "copied m2 (src + e) (dst + e) 32 32 m3"
      using move_block_ok [of "src + e" 32 m2 "dst + e"] er a len by auto
    have "copied mem src dst e e m2" using m2(2) er(2) by (simp add: min_def)
    from copied_step [OF this er(2) m3(2)] have "copied mem src dst (min ?r n) ?r m3" using a b er by simp
    moreover have "min ?r n = n" using b(1) by simp
    ultimately show ?thesis using m2(1) m3(1) er by (simp add: copy_avx2_def e_def [symmetric])
  qed
qed simp

text \<open>The exact small copies.\<close>

lemma copy_byte_loop_ok:
  assumes "copied mem src dst i i m1" "i + n = len" "apart src dst len" "src + len \<le> length mem" "dst + len \<le> length mem"
  shows "\<exists>mem'. copy_byte_loop n i m1 src dst = Some mem' \<and> copied mem src dst len len mem'"
  using assms(1,2)
proof (induction n arbitrary: i m1)
  case (Suc n)
  have len: "length m1 = length mem" using Suc.prems(1) by (simp add: copied_def)
  obtain m2 where m2: "move_block 1 m1 (src + i) (dst + i) = Some m2" "copied m1 (src + i) (dst + i) 1 1 m2"
    using move_block_ok [of "src + i" 1 m1 "dst + i"] Suc.prems(2) assms len by auto
  have "copied mem src dst (Suc i) (Suc i) m2"
    using copied_step [OF Suc.prems(1) _ m2(2) assms(3-5)] Suc.prems(2) by simp
  from Suc.IH [OF this] m2(1) Suc.prems(2) show ?case by simp
qed simp

text \<open>The source is out of the destination's way, so a load may come before or after earlier stores; a block
  stored at its place, past or over what has arrived, extends it.\<close>

lemma copied_load:
  assumes "copied mem src dst n len m1" "off + k \<le> len" "apart src dst len" "src + len \<le> length mem"
  shows "load m1 (src + off) k = Some (take k (drop (src + off) mem))"
proof -
  have len: "length m1 = length mem" using assms(1) by (simp add: copied_def)
  have "take k (drop (src + off) m1) = take k (drop (src + off) mem)"
  proof (rule nth_equalityI)
    fix i assume "i < length (take k (drop (src + off) m1))"
    then show "take k (drop (src + off) m1) ! i = take k (drop (src + off) mem) ! i"
      using assms len by (auto simp: copied_def apart_def add.assoc)
  qed (simp add: len)
  then show ?thesis using assms len by (simp add: load_def)
qed

lemma copied_patch:
  assumes c: "copied mem src dst n len m1" and o: "off \<le> n" "off + k \<le> len" "n \<le> len"
    and room: "src + len \<le> length mem" "dst + len \<le> length mem"
  shows "\<exists>m2. store_bytes m1 (dst + off) (take k (drop (src + off) mem)) = Some m2
      \<and> copied mem src dst (max n (off + k)) len m2"
proof -
  let ?b = "take k (drop (src + off) mem)"
  have len: "length m1 = length mem" "length ?b = k" using c o room by (simp_all add: copied_def)
  obtain m2 where m2: "store_bytes m1 (dst + off) ?b = Some m2"
    using store_bytes_Some [of "dst + off" ?b m1] len o room by auto
  note st = store_bytes_nth [OF m2, unfolded len]
  have "m2 ! (dst + j) = mem ! (src + j)" if "j < max n (off + k)" "dst + j < length mem" for j
    using st(2) [OF that(2)] c o that(1) room by (auto simp: copied_def)
  moreover have "m2 ! i = mem ! i" if "i < length mem" "i < dst \<or> dst + len \<le> i" for i
    using st(2) [OF that(1)] c o that by (auto simp: copied_def)
  moreover have "dst + j < length mem" if "j < max n (off + k)" for j
    using that o room by linarith
  ultimately have "copied mem src dst (max n (off + k)) len m2" using st(1) by (simp add: copied_def)
  then show ?thesis using m2 by blast
qed

text \<open>A copy to whose result every step is a patch.\<close>

lemma move_block_patch:
  assumes c: "copied mem src dst n len m1" and o: "off \<le> n" "off + k \<le> len" "n \<le> len" and ap: "apart src dst len"
    and room: "src + len \<le> length mem" "dst + len \<le> length mem"
  shows "\<exists>m2. move_block k m1 (src + off) (dst + off) = Some m2 \<and> copied mem src dst (max n (off + k)) len m2"
  using copied_patch [OF c o room] copied_load [OF c o(2) ap room(1)] by (auto simp: move_block_def)

lemma move_pair_patch:
  assumes c: "copied mem src dst n len m1" and o: "p \<le> n" "q \<le> max n (p + w)" "p + w \<le> len" "q + w \<le> len" "n \<le> len"
    and ap: "apart src dst len" and room: "src + len \<le> length mem" "dst + len \<le> length mem"
  shows "\<exists>m2. move_pair w m1 src dst p q = Some m2 \<and> copied mem src dst (max (max n (p + w)) (q + w)) len m2"
proof -
  obtain m2 where m2: "store_bytes m1 (dst + p) (take w (drop (src + p) mem)) = Some m2" "copied mem src dst (max n (p + w)) len m2"
    using copied_patch [OF c o(1,3,5) room] by blast
  obtain m3 where "store_bytes m2 (dst + q) (take w (drop (src + q) mem)) = Some m3"
      "copied mem src dst (max (max n (p + w)) (q + w)) len m3"
    using copied_patch [OF m2(2) o(2,4) _ room] o(3,5) by auto
  then show ?thesis using m2(1) copied_load [OF c o(3) ap room(1)] copied_load [OF c o(4) ap room(1)] by (simp add: move_pair_def)
qed

lemma move_quad_pairs:
  assumes c: "copied mem src dst n len m1" and o: "p + w \<le> len" "q + w \<le> len" "r + w \<le> len" "s + w \<le> len" "n \<le> len"
    and pq: "p \<le> n" "q \<le> max n (p + w)" and ap: "apart src dst len"
    and room: "src + len \<le> length mem" "dst + len \<le> length mem"
  shows "move_quad w m1 src dst p q r s = Option.bind (move_pair w m1 src dst p q) (\<lambda>m. move_pair w m src dst r s)"
proof -
  note l = copied_load [OF c _ ap room(1), of _ w]
  obtain m2 where m2: "move_pair w m1 src dst p q = Some m2" "copied mem src dst (max (max n (p + w)) (q + w)) len m2"
    using move_pair_patch [OF c pq o(1,2,5) ap room] by blast
  note l2 = copied_load [OF m2(2) _ ap room(1), of _ w]
  obtain ma where "store_bytes m1 (dst + p) (take w (drop (src + p) mem)) = Some ma"
      "store_bytes ma (dst + q) (take w (drop (src + q) mem)) = Some m2"
    using m2(1) by (auto simp: move_pair_def l o Option.bind_eq_Some_conv)
  then show ?thesis using m2(1) by (simp add: move_quad_def move_pair_def [of w m2] l l2 o)
qed

lemma exact_pairs_ok:
  assumes "copied mem src dst n len m1" "n \<le> len" and ap: "apart src dst len" and w: "0 < w"
    and room: "src + len \<le> length mem" "dst + len \<le> length mem"
  shows "\<exists>m2 e. exact_pairs w m1 src dst n len = Some (m2, e) \<and> copied mem src dst e len m2 \<and> e \<le> len \<and> len < e + 2 * w"
  using assms(1,2)
proof (induction "len - n" arbitrary: n m1 rule: less_induct)
  case less
  show ?case
  proof (cases "n + 2 * w \<le> len")
    case True
    have mx: "max (max n (n + w)) (n + w + w) = n + 2 * w" "n + w + w = n + 2 * w" by simp_all
    obtain m2 where m2: "move_pair w m1 src dst n (n + w) = Some m2" "copied mem src dst (n + 2 * w) len m2"
      using move_pair_patch [OF less.prems(1) _ _ _ _ less.prems(2) ap room, of n "n + w" w] True by (auto simp: mx)
    have "len - (n + 2 * w) < len - n" using True w by linarith
    from less.hyps [OF this m2(2) True] m2(1) show ?thesis using True w by (simp add: exact_pairs.simps [of w m1])
  next
    case False
    then show ?thesis using less.prems by (simp add: exact_pairs.simps [of w m1])
  qed
qed

lemma exact_singles_ok:
  assumes "copied mem src dst n len m1" "n \<le> len" and ap: "apart src dst len" and w: "0 < w"
    and room: "src + len \<le> length mem" "dst + len \<le> length mem"
  shows "\<exists>m2 e. exact_singles w m1 src dst n len = Some (m2, e) \<and> copied mem src dst e len m2 \<and> e \<le> len \<and> len < e + w"
  using assms(1,2)
proof (induction "len - n" arbitrary: n m1 rule: less_induct)
  case less
  show ?case
  proof (cases "n + w \<le> len")
    case True
    obtain m2 where m2: "move_block w m1 (src + n) (dst + n) = Some m2" "copied mem src dst (n + w) len m2"
      using move_block_patch [OF less.prems(1) _ _ less.prems(2) ap room, of n w] True by (auto simp: max_def)
    have "len - (n + w) < len - n" using True w by linarith
    from less.hyps [OF this m2(2) True] m2(1) show ?thesis using True w by (simp add: exact_singles.simps [of w m1])
  next
    case False
    then show ?thesis using less.prems by (simp add: exact_singles.simps [of w m1])
  qed
qed

lemma exact_loops_ok:
  assumes w: "0 < w" "w \<le> len" and ap: "apart src dst len" and room: "src + len \<le> length mem" "dst + len \<le> length mem"
  shows "\<exists>mem'. exact_loops w mem src dst len = Some mem' \<and> copied mem src dst len len mem'"
proof -
  have c0: "copied mem src dst 0 len mem" by (simp add: copied_def)
  obtain m2 e where m2: "exact_pairs w mem src dst 0 len = Some (m2, e)" "copied mem src dst e len m2" "e \<le> len"
    using exact_pairs_ok [OF c0 _ ap w(1) room] by auto
  obtain m3 f where m3: "exact_singles w m2 src dst e len = Some (m3, f)" "copied mem src dst f len m3" "f \<le> len" "len < f + w"
    using exact_singles_ok [OF m2(2,3) ap w(1) room] by auto
  show ?thesis
  proof (cases "f < len")
    case True
    have "max f (len - w + w) = len" using m3(3) w(2) by simp
    then show ?thesis using move_block_patch [OF m3(2) _ _ m3(3) ap room, of "len - w" w] m2(1) m3(1,4) True w(2)
      by (auto simp: exact_loops_def)
  next
    case False
    then have "f = len" using m3(3) by linarith
    then show ?thesis using m2(1) m3(1,2) by (simp add: exact_loops_def)
  qed
qed

lemma move_pair_exact:
  assumes "w \<le> len" "len \<le> 2 * w" "apart src dst len" "src + len \<le> length mem" "dst + len \<le> length mem"
  shows "\<exists>mem'. move_pair w mem src dst 0 (len - w) = Some mem' \<and> copied mem src dst len len mem'"
proof -
  have c0: "copied mem src dst 0 len mem" by (simp add: copied_def)
  have "max (max 0 (0 + w)) (len - w + w) = len" using assms(1) by simp
  then show ?thesis using move_pair_patch [OF c0 _ _ _ _ _ assms(3-5), of 0 "len - w" w] assms(1,2) by auto
qed

lemma move_quad_exact:
  assumes "2 * w \<le> len" "len \<le> 4 * w" "apart src dst len" "src + len \<le> length mem" "dst + len \<le> length mem"
  shows "\<exists>mem'. move_quad w mem src dst 0 w (len - 2 * w) (len - w) = Some mem' \<and> copied mem src dst len len mem'"
proof -
  have c0: "copied mem src dst 0 len mem" by (simp add: copied_def)
  have mx: "max (max 0 (0 + w)) (w + w) = 2 * w" "max (max (2 * w) (len - 2 * w + w)) (len - w + w) = len"
    using assms(1,2) by simp_all
  obtain m2 where m2: "move_pair w mem src dst 0 w = Some m2" "copied mem src dst (2 * w) len m2"
    using move_pair_patch [OF c0 _ _ _ _ _ assms(3-5), of 0 w w, unfolded mx] assms(1) by auto
  obtain m3 where "move_pair w m2 src dst (len - 2 * w) (len - w) = Some m3" "copied mem src dst len len m3"
    using move_pair_patch [OF m2(2) _ _ _ _ _ assms(3-5), of "len - 2 * w" "len - w" w, unfolded mx] assms(1,2)
      le_diff_conv [of len "2 * w" "2 * w"] by auto
  moreover have "move_quad w mem src dst 0 w (len - 2 * w) (len - w)
      = Option.bind (move_pair w mem src dst 0 w) (\<lambda>m. move_pair w m src dst (len - 2 * w) (len - w))"
    using assms(1,2) by (intro move_quad_pairs [OF c0 _ _ _ _ _ _ _ assms(3-5)]) auto
  ultimately show ?thesis using m2(1) by simp
qed

definition exact_copier :: "(mem \<Rightarrow> nat \<Rightarrow> nat \<Rightarrow> nat \<Rightarrow> mem option) \<Rightarrow> (nat \<Rightarrow> bool) \<Rightarrow> bool" where
  "exact_copier f P \<longleftrightarrow> (\<forall>mem src dst len. P len \<and> apart src dst len \<and> src + len \<le> length mem \<and> dst + len \<le> length mem
     \<longrightarrow> (\<exists>mem'. f mem src dst len = Some mem' \<and> copied mem src dst len len mem'))"

lemma exact_small_copier: "exact_copier copy_exact_small (\<lambda>len. len \<le> 32)"
  unfolding exact_copier_def
proof (intro allI impI, elim conjE)
  fix mem :: mem and src dst len
  assume a: "len \<le> 32" "apart src dst len" "src + len \<le> length mem" "dst + len \<le> length mem"
  have c0: "copied mem src dst 0 len mem" by (simp add: copied_def)
  consider "len \<le> 8" | "8 < len" "len \<le> 16" | "16 < len" by linarith
  then show "\<exists>mem'. copy_exact_small mem src dst len = Some mem' \<and> copied mem src dst len len mem'"
  proof cases
    case 1
    then show ?thesis using copy_byte_loop_ok [OF copied_0, of len len src dst mem] a by (simp add: copy_exact_small_def)
  next
    case 2
    then show ?thesis using move_pair_exact [of 8 len src dst mem] a by (simp add: copy_exact_small_def move_pair_def)
  next
    case 3
    have mx: "max (max 16 (len - 16 + 8)) (len - 8 + 8) = len" using 3 a(1) by simp
    obtain m2 where m2: "move_block 16 mem src dst = Some m2" "copied mem src dst 16 len m2"
      using move_block_patch [OF c0 _ _ _ a(2-4), of 0 16] 3 by auto
    have "copy16_portable mem src dst = Some m2" using m2(1) copy16_portable_eq [of src mem dst] a 3 by simp
    moreover obtain m3 where "move_pair 8 m2 src dst (len - 16) (len - 8) = Some m3" "copied mem src dst len len m3"
      using move_pair_patch [OF m2(2) _ _ _ _ _ a(2-4), of "len - 16" "len - 8" 8, unfolded mx] 3 a(1)
        le_diff_conv [of len 16 16] by auto
    ultimately show ?thesis using 3 by (simp add: copy_exact_small_def move_pair_def)
  qed
qed

lemma exact_avx2_copier: "exact_copier copy_exact_avx2 (\<lambda>len. 33 \<le> len)"
  unfolding exact_copier_def
proof (intro allI impI, elim conjE)
  fix mem :: mem and src dst len
  assume a: "33 \<le> len" "apart src dst len" "src + len \<le> length mem" "dst + len \<le> length mem"
  consider "len \<le> 64" | "64 < len" "len \<le> 128" | "128 < len" by linarith
  then show "\<exists>mem'. copy_exact_avx2 mem src dst len = Some mem' \<and> copied mem src dst len len mem'"
    using move_pair_exact [of 32 len, OF _ _ a(2-4)] move_quad_exact [of 32 len, OF _ _ a(2-4)]
      exact_loops_ok [of 32 len, OF _ _ a(2-4)] a(1)
    by cases (simp_all add: copy_exact_avx2_def)
qed

lemma exact_sse2_copier: "exact_copier copy_exact_sse2 (\<lambda>len. 33 \<le> len)"
  unfolding exact_copier_def
proof (intro allI impI, elim conjE)
  fix mem :: mem and src dst len
  assume a: "33 \<le> len" "apart src dst len" "src + len \<le> length mem" "dst + len \<le> length mem"
  show "\<exists>mem'. copy_exact_sse2 mem src dst len = Some mem' \<and> copied mem src dst len len mem'"
    using move_quad_exact [of 16 len, OF _ _ a(2-4)] exact_loops_ok [of 16 len, OF _ _ a(2-4)] a(1)
    by (simp add: copy_exact_sse2_def)
qed

section \<open>The contract of a kernel's copies\<close>

locale copy_kernel =
  fixes k :: copy_ops
  assumes chunks: "chunk_copier (ck_COPY_CHUNK k) (ck_copy_chunks k)"
    and step: "chunk_copier (ck_STEP_CHUNK k) (ck_copy_step k)"
    and copy16: "src + 16 \<le> length mem \<Longrightarrow> dst + 16 \<le> length mem \<Longrightarrow> ck_copy16 k mem src dst = move_block 16 mem src dst"
begin

lemma chunked_branch:
  assumes "chunk_copier c f" "0 < n" "next_multiple_of n c \<le> min src_len dst_len" "src + src_len \<le> length mem"
    "dst + dst_len \<le> length mem" "apart src dst n"
  shows "\<exists>mem'. f mem src dst (next_multiple_of n c) = Some mem' \<and> copied mem src dst n dst_len mem'"
  using assms copied_mono [of mem src dst n "next_multiple_of n c" _ n dst_len] unfolding chunk_copier_def
  by (meson add_left_mono le_trans min.boundedE order_refl)

lemma overshooting:
  assumes n: "n \<le> src_len" "n \<le> dst_len" and room: "src + src_len \<le> length mem" "dst + dst_len \<le> length mem"
    and ap: "apart src dst n"
  shows "\<exists>mem'. copy_bytes_overshooting k mem (src, src_len) (dst, dst_len) n = Some mem' \<and> copied mem src dst n dst_len mem'"
proof -
  let ?m = "min src_len dst_len"
  have fit: "src + n \<le> length mem" "dst + n \<le> length mem" using n room by linarith+
  obtain m1 where ex: "move_block n mem src dst = Some m1" "copied mem src dst n dst_len m1"
    using move_block_ok [OF fit] copied_mono n(2) by blast
  note branch = chunked_branch [OF _ _ _ room ap]
  consider "n = 0" | "0 < n" "n \<le> 16" "16 \<le> ?m" | "0 < n" "n \<le> 32" "\<not> (n \<le> 16 \<and> 16 \<le> ?m)" | "32 < n" by linarith
  then show ?thesis
  proof cases
    case 1
    then show ?thesis by (simp add: copied_def)
  next
    case 2
    then obtain m2 where "move_block 16 mem src dst = Some m2" "copied mem src dst 16 16 m2"
      using move_block_ok [of src 16 mem dst] room by auto
    then show ?thesis using 2 copy16 [of src mem dst] copied_mono [of mem src dst 16 16 m2 n dst_len] room by auto
  next
    case 3
    obtain m2 where "copy_exact_small mem src dst n = Some m2" "copied mem src dst n n m2"
      using exact_small_copier fit ap 3(2) unfolding exact_copier_def by blast
    then show ?thesis using 3 copied_mono [of mem src dst n n m2 n dst_len] n(2) by (auto simp: Let_def)
  next
    case 4
    then show ?thesis
      using ex branch [OF chunks] branch [OF step] branch [OF scalar_copier] by (simp add: Let_def)
  qed
qed

end

lemma copy_chunked_16:
  "src + 16 \<le> length mem \<Longrightarrow> dst + 16 \<le> length mem \<Longrightarrow> copy_sse2 mem src dst 16 = move_block 16 mem src dst"
  by (cases "move_block 16 mem src dst")
    (simp_all add: copy_sse2_def copy_chunked.simps [of 16 mem] copy_chunked.simps [of 16 _ "src + 16"])

interpretation scalar: copy_kernel scalar_copy
  by unfold_locales (simp_all add: scalar_copy_def scalar_copier copy16_portable_eq)

interpretation sse2: copy_kernel sse2_copy
  by unfold_locales (simp_all add: sse2_copy_def sse2_copier copy_chunked_16)

interpretation avx2: copy_kernel avx2_copy
  by unfold_locales (simp_all add: avx2_copy_def avx2_copier sse2_copier copy_chunked_16)

definition all_copies :: "copy_ops list" where
  "all_copies = [scalar_copy, sse2_copy, avx2_copy]"

text \<open>
  C40. Whatever the tier, \<open>copy_bytes_overshooting\<close> stays inside the two spans it was given (no access outside the
  memory), the bytes asked for arrive unchanged, and no byte outside the destination span is written, however far
  past the bytes asked for it stores.
\<close>

theorem copy_bytes_overshooting_exact:
  fixes mem :: mem
  assumes "k \<in> set all_copies" "n \<le> src_len" "n \<le> dst_len" "src + src_len \<le> length mem" "dst + dst_len \<le> length mem"
    and "apart src dst n"
  shows "\<exists>mem'. copy_bytes_overshooting k mem (src, src_len) (dst, dst_len) n = Some mem' \<and> length mem' = length mem
      \<and> take n (drop dst mem') = take n (drop src mem)
      \<and> take dst mem' = take dst mem \<and> drop (dst + dst_len) mem' = drop (dst + dst_len) mem"
proof -
  obtain mem' where m: "copy_bytes_overshooting k mem (src, src_len) (dst, dst_len) n = Some mem'" "copied mem src dst n dst_len mem'"
    using assms scalar.overshooting sse2.overshooting avx2.overshooting unfolding all_copies_def by (metis empty_iff empty_set set_ConsD)
  then have len: "length mem' = length mem" by (simp add: copied_def)
  have "take n (drop dst mem') = take n (drop src mem)"
    using m(2) len assms by (auto intro!: nth_equalityI simp: copied_def)
  moreover have "take dst mem' = take dst mem" "drop (dst + dst_len) mem' = drop (dst + dst_len) mem"
    using m(2) len assms by (auto intro!: nth_equalityI simp: copied_def)
  ultimately show ?thesis using m(1) len by blast
qed

theorem copy_bytes_overshooting_exact_witness:
  "\<exists>mem'. copy_bytes_overshooting avx2_copy (map word_of_nat [0..<120]) (0, 60) (60, 58) 40 = Some mem' \<and> length mem' = 120
      \<and> take 40 (drop 60 mem') = (take 40 (drop 0 (map word_of_nat [0..<120])) :: u8 list)
      \<and> take 60 mem' = take 60 (map word_of_nat [0..<120]) \<and> drop (60 + 58) mem' = drop (60 + 58) (map word_of_nat [0..<120])"
  using copy_bytes_overshooting_exact [of avx2_copy 40 60 58 0 "map word_of_nat [0..<120]" 60] by (simp add: all_copies_def apart_def)

end
