(* ===== verification/Ring_Buffer.thy ===== *)
theory Ring_Buffer
  imports Wild_Copy "HOL-Library.Log_Nat"
begin

text \<open>
  The ring buffer of \<^verbatim>\<open>zstd/src/decoding/ringbuffer.rs\<close> on a 64-bit target. Its allocation is a byte list of the
  indexing capacity plus the slack of the wild copies; an operation has no result where the code panics or
  would access memory outside the allocation. A buffer stands for the byte list \<open>rb_contents\<close>, and every
  operation is shown to do to that list what its name says.
\<close>

declare copy_bytes_overshooting.simps [simp del]

section \<open>State\<close>

definition WILDCOPY_OVERLENGTH :: nat where
  "WILDCOPY_OVERLENGTH = 32"

definition usize_max :: nat where
  "usize_max = 2 ^ 64 - 1"

definition isize_max :: nat where
  "isize_max = 2 ^ 63 - 1"

text \<open>An address is an index into \<open>rb_buf\<close>, the allocation, which is empty while the capacity is 0.\<close>

record ring_buffer =
  rb_buf :: mem
  rb_cap :: nat
  rb_head :: nat
  rb_tail :: nat
  rb_max_capacity :: nat
  rb_growth_limit :: nat
  rb_borrowed :: bool

definition rb_new :: ring_buffer where
  "rb_new = \<lparr>rb_buf = [], rb_cap = 0, rb_head = 0, rb_tail = 0, rb_max_capacity = usize_max, rb_growth_limit = usize_max,
     rb_borrowed = False\<rparr>"

definition rb_from_borrowed :: "mem \<Rightarrow> nat \<Rightarrow> ring_buffer" where
  "rb_from_borrowed buf cap = \<lparr>rb_buf = buf, rb_cap = cap, rb_head = 0, rb_tail = 0, rb_max_capacity = usize_max,
     rb_growth_limit = usize_max, rb_borrowed = True\<rparr>"

section \<open>Lengths and regions\<close>

definition data_slice_lengths :: "ring_buffer \<Rightarrow> nat \<times> nat" where
  "data_slice_lengths r =
     (if rb_tail r \<ge> rb_head r then (rb_tail r - rb_head r, 0) else (rb_cap r - rb_head r, rb_tail r))"

definition data_slice_parts :: "ring_buffer \<Rightarrow> (nat \<times> nat) \<times> (nat \<times> nat)" where
  "data_slice_parts r = (case data_slice_lengths r of (len_after_head, len_to_tail) \<Rightarrow> ((rb_head r, len_after_head), (0, len_to_tail)))"

definition free_slice_lengths :: "ring_buffer \<Rightarrow> nat \<times> nat" where
  "free_slice_lengths r =
     (if rb_tail r < rb_head r then (0, rb_head r - rb_tail r) else (rb_head r, rb_cap r - rb_tail r))"

definition free_slice_parts :: "ring_buffer \<Rightarrow> (nat \<times> nat) \<times> (nat \<times> nat)" where
  "free_slice_parts r = (case free_slice_lengths r of (len_to_head, len_after_tail) \<Rightarrow> ((rb_tail r, len_after_tail), (0, len_to_head)))"

definition rb_len :: "ring_buffer \<Rightarrow> nat" where
  "rb_len r = (case data_slice_lengths r of (x, y) \<Rightarrow> x + y)"

definition rb_wrap :: "ring_buffer \<Rightarrow> nat \<Rightarrow> nat" where
  "rb_wrap r x = (if x \<ge> rb_cap r then x - rb_cap r else x)"

definition rb_set_tail :: "ring_buffer \<Rightarrow> nat \<Rightarrow> ring_buffer" where
  "rb_set_tail r new_tail = r\<lparr>rb_tail := new_tail\<rparr>"

definition rb_free :: "ring_buffer \<Rightarrow> nat" where
  "rb_free r = (case free_slice_lengths r of (x, y) \<Rightarrow> x + y - 1)"

definition rb_clear :: "ring_buffer \<Rightarrow> ring_buffer" where
  "rb_clear r = r\<lparr>rb_head := 0, rb_tail := 0\<rparr>"

definition rb_set_max_capacity :: "ring_buffer \<Rightarrow> nat \<Rightarrow> ring_buffer" where
  "rb_set_max_capacity r max_capacity = r\<lparr>rb_max_capacity := max_capacity\<rparr>"

definition rb_set_growth_limit :: "ring_buffer \<Rightarrow> nat \<Rightarrow> ring_buffer" where
  "rb_set_growth_limit r growth_limit = r\<lparr>rb_growth_limit := growth_limit\<rparr>"

section \<open>Growth\<close>

text \<open>\<open>next_power_of_two\<close> of the standard library; past the largest power it wraps to 0 in a release build.\<close>

definition next_power_of_two :: "nat \<Rightarrow> nat" where
  "next_power_of_two n = (if n \<le> 1 then 1 else if n \<le> 2 ^ 63 then 2 ^ floorlog 2 (n - 1) else 0)"

definition checked_add :: "nat \<Rightarrow> nat \<Rightarrow> nat option" where
  "checked_add a b = (if a + b \<le> usize_max then Some (a + b) else None)"

definition growth_target :: "ring_buffer \<Rightarrow> nat \<Rightarrow> nat" where
  "growth_target r needed =
     (let doubled = max (next_power_of_two (rb_cap r)) (next_power_of_two needed) in
      if needed - 1 \<le> rb_growth_limit r then min doubled (rb_growth_limit r) else doubled)"

definition move_to_new_buf :: "ring_buffer \<Rightarrow> nat \<Rightarrow> ring_buffer option" where
  "move_to_new_buf r new_cap =
     (let new_buf = replicate (new_cap + WILDCOPY_OVERLENGTH) 0 in
      if rb_cap r > 0 then
        (case data_slice_parts r of ((s1_ptr, s1_len), (s2_ptr, s2_len)) \<Rightarrow>
          Option.bind (load (rb_buf r) s1_ptr s1_len) (\<lambda>s1. Option.bind (store_bytes new_buf 0 s1) (\<lambda>new_buf.
          Option.bind (load (rb_buf r) s2_ptr s2_len) (\<lambda>s2. Option.bind (store_bytes new_buf s1_len s2) (\<lambda>new_buf.
          Some (r\<lparr>rb_tail := s1_len + s2_len, rb_head := 0, rb_buf := new_buf, rb_cap := new_cap\<rparr>))))))
      else Some (r\<lparr>rb_buf := new_buf, rb_cap := new_cap\<rparr>))"

definition reserve_amortized :: "ring_buffer \<Rightarrow> nat \<Rightarrow> ring_buffer option" where
  "reserve_amortized r amount =
     (if rb_borrowed r then None
      else Option.bind (checked_add (rb_cap r) amount) (\<lambda>needed.
        Option.bind (checked_add (growth_target r needed) 1) (\<lambda>new_cap.
          if new_cap + WILDCOPY_OVERLENGTH > isize_max then None else move_to_new_buf r new_cap)))"

definition rb_reserve :: "ring_buffer \<Rightarrow> nat \<Rightarrow> ring_buffer option" where
  "rb_reserve r amount =
     (if rb_head r \<le> rb_tail r \<and> amount < rb_cap r - rb_tail r then Some r
      else let free = rb_free r in
        if free \<ge> amount then Some r else reserve_amortized r (amount - free))"

record backend_overflow =
  bo_tail :: nat
  bo_requested :: nat
  bo_capacity :: nat

definition rb_try_reserve :: "ring_buffer \<Rightarrow> nat \<Rightarrow> (ring_buffer, backend_overflow) result" where
  "rb_try_reserve r amount =
     (if (case checked_add (rb_len r) amount of None \<Rightarrow> True | Some needed \<Rightarrow> needed > rb_max_capacity r)
      then Err \<lparr>bo_tail = rb_tail r, bo_requested = amount, bo_capacity = rb_max_capacity r\<rparr>
      else if rb_head r \<le> rb_tail r \<and> amount < rb_cap r - rb_tail r then Ok r
      else let free = rb_free r in
        if free \<ge> amount then Ok r else or_panic (reserve_amortized r (amount - free)))"

section \<open>Reading\<close>

definition rb_get :: "ring_buffer \<Rightarrow> nat \<Rightarrow> u8 option option" where
  "rb_get r idx =
     (if idx < rb_len r then map_option (\<lambda>xs. Some (hd xs)) (load (rb_buf r) (rb_wrap r (rb_head r + idx)) 1) else Some None)"

definition rb_as_slices :: "ring_buffer \<Rightarrow> (u8 list \<times> u8 list) option" where
  "rb_as_slices r = (case data_slice_parts r of ((s1_ptr, s1_len), (s2_ptr, s2_len)) \<Rightarrow>
     Option.bind (load (rb_buf r) s1_ptr s1_len) (\<lambda>s1. map_option (\<lambda>s2. (s1, s2)) (load (rb_buf r) s2_ptr s2_len)))"

definition rb_drop_first_n :: "ring_buffer \<Rightarrow> nat \<Rightarrow> ring_buffer" where
  "rb_drop_first_n r amount = (let amount = min amount (rb_len r) in r\<lparr>rb_head := rb_wrap r (rb_head r + amount)\<rparr>)"

section \<open>Writing\<close>

text \<open>A copy from a slice outside the allocation: the slice lies after it.\<close>

definition copy_in :: "copy_ops \<Rightarrow> mem \<Rightarrow> u8 list \<Rightarrow> nat \<times> nat \<Rightarrow> nat \<times> nat \<Rightarrow> nat \<Rightarrow> mem option" where
  "copy_in k buf data src dst n = (case src of (src, src_len) \<Rightarrow>
     map_option (take (length buf)) (copy_bytes_overshooting k (buf @ data) (length buf + src, src_len) dst n))"

definition rb_push_back :: "ring_buffer \<Rightarrow> u8 \<Rightarrow> ring_buffer option" where
  "rb_push_back r byte = Option.bind (rb_reserve r 1) (\<lambda>r. Option.bind (store_bytes (rb_buf r) (rb_tail r) [byte]) (\<lambda>buf.
     Some (r\<lparr>rb_buf := buf, rb_tail := rb_wrap r (rb_tail r + 1)\<rparr>)))"

definition rb_extend :: "copy_ops \<Rightarrow> ring_buffer \<Rightarrow> u8 list \<Rightarrow> ring_buffer option" where
  "rb_extend k r data =
     (let len = length data in
      if len = 0 then Some r
      else if rb_head r \<le> rb_tail r \<and> len < rb_cap r - rb_tail r then
        Option.bind (copy_in k (rb_buf r) data (0, len) (rb_tail r, rb_cap r - rb_tail r + WILDCOPY_OVERLENGTH) len)
          (\<lambda>buf. Some (r\<lparr>rb_buf := buf, rb_tail := rb_tail r + len\<rparr>))
      else Option.bind (rb_reserve r len) (\<lambda>r.
        if rb_head r \<le> rb_tail r \<and> rb_tail r + len \<le> rb_cap r then
          Option.bind (copy_in k (rb_buf r) data (0, len) (rb_tail r, rb_cap r - rb_tail r + WILDCOPY_OVERLENGTH) len)
            (\<lambda>buf. Some (r\<lparr>rb_buf := buf, rb_tail := (if rb_tail r + len = rb_cap r then 0 else rb_tail r + len)\<rparr>))
        else
          (case free_slice_parts r of ((f1_ptr, f1_len), (f2_ptr, f2_len)) \<Rightarrow>
            let in_f1 = min len f1_len; in_f2 = len - in_f1;
                f1_dst_cap = (if rb_tail r \<ge> rb_head r then f1_len + WILDCOPY_OVERLENGTH else f1_len) in
            Option.bind (if in_f1 > 0 then copy_in k (rb_buf r) data (0, in_f1) (f1_ptr, f1_dst_cap) in_f1 else Some (rb_buf r)) (\<lambda>buf.
            Option.bind (if in_f2 > 0 then copy_in k buf data (in_f1, in_f2) (f2_ptr, f2_len) in_f2 else Some buf) (\<lambda>buf.
            Some (r\<lparr>rb_buf := buf, rb_tail := rb_wrap r (rb_tail r + len)\<rparr>))))))"

definition rb_extend_from_within_unchecked :: "copy_ops \<Rightarrow> ring_buffer \<Rightarrow> nat \<Rightarrow> nat \<Rightarrow> ring_buffer option" where
  "rb_extend_from_within_unchecked k r start len =
     Option.bind
      (if rb_head r < rb_tail r then
         (let after_tail = min len (rb_cap r - rb_tail r);
              src = rb_head r + start; src_len = rb_tail r - rb_head r - start + WILDCOPY_OVERLENGTH in
          Option.bind (copy_bytes_overshooting k (rb_buf r) (src, src_len)
              (rb_tail r, rb_cap r - rb_tail r + WILDCOPY_OVERLENGTH) after_tail) (\<lambda>buf.
            if after_tail < len
            then copy_bytes_overshooting k buf (src + after_tail, src_len - after_tail) (0, rb_head r) (len - after_tail)
            else Some buf))
       else if rb_head r + start \<ge> rb_cap r then
         (let start = rb_wrap r (rb_head r + start) in
          copy_bytes_overshooting k (rb_buf r) (start, rb_tail r - start + WILDCOPY_OVERLENGTH) (rb_tail r, rb_head r - rb_tail r) len)
       else
         (let after_start = min len (rb_cap r - rb_head r - start) in
          Option.bind (copy_bytes_overshooting k (rb_buf r) (rb_head r + start, rb_cap r - rb_head r - start + WILDCOPY_OVERLENGTH)
              (rb_tail r, rb_head r - rb_tail r) after_start) (\<lambda>buf.
            if after_start < len
            then copy_bytes_overshooting k buf (0, rb_tail r + WILDCOPY_OVERLENGTH)
                   (rb_tail r + after_start, rb_head r - rb_tail r - after_start) (len - after_start)
            else Some buf)))
      (\<lambda>buf. Some (r\<lparr>rb_buf := buf, rb_tail := rb_wrap r (rb_tail r + len)\<rparr>))"

definition rb_extend_from_within :: "copy_ops \<Rightarrow> ring_buffer \<Rightarrow> nat \<Rightarrow> nat \<Rightarrow> ring_buffer option" where
  "rb_extend_from_within k r start len =
     (if start + len > rb_len r then None
      else Option.bind (rb_reserve r len) (\<lambda>r. rb_extend_from_within_unchecked k r start len))"

text \<open>\<open>write_bytes\<close> fills a range with one byte.\<close>

definition write_bytes :: "mem \<Rightarrow> nat \<Rightarrow> u8 \<Rightarrow> nat \<Rightarrow> mem option" where
  "write_bytes mem dst b n = store_bytes mem dst (replicate n b)"

definition rb_extend_and_fill :: "ring_buffer \<Rightarrow> u8 \<Rightarrow> nat \<Rightarrow> ring_buffer option" where
  "rb_extend_and_fill r fill_with fill_length =
     (if fill_length = 0 then Some r
      else Option.bind (rb_reserve r fill_length) (\<lambda>r.
        case free_slice_parts r of ((ptr1, len1), (ptr2, len2)) \<Rightarrow>
        let fill1 = min len1 fill_length in
        Option.bind (write_bytes (rb_buf r) ptr1 fill_with fill1) (\<lambda>buf.
        Option.bind (if fill1 < fill_length then write_bytes buf ptr2 fill_with (fill_length - fill1) else Some buf) (\<lambda>buf.
        Some (r\<lparr>rb_buf := buf, rb_tail := rb_wrap r (rb_tail r + fill_length)\<rparr>)))))"

text \<open>
  The reader is a parameter: \<open>read_exact rd n\<close> gives the reader after the call, and either \<open>n\<close> bytes or an error.
\<close>

definition rb_extend_from_reader ::
    "('r \<Rightarrow> nat \<Rightarrow> 'r \<times> (u8 list, 'e) result) \<Rightarrow> ring_buffer \<Rightarrow> 'r \<Rightarrow> nat \<Rightarrow> (ring_buffer \<times> 'r \<times> (unit, 'e) result) option" where
  "rb_extend_from_reader read_exact r rd fill_length =
     (if fill_length = 0 then Some (r, rd, Ok ())
      else Option.bind (rb_reserve r fill_length) (\<lambda>r.
        case free_slice_parts r of ((ptr1, len1), (ptr2, len2)) \<Rightarrow>
        let fill1 = min len1 fill_length; fill2 = fill_length - fill1 in
        Option.bind (write_bytes (rb_buf r) ptr1 0 fill1) (\<lambda>buf.
        case read_exact rd fill1 of
          (rd, Panic) \<Rightarrow> None
        | (rd, Err e) \<Rightarrow> Some (r\<lparr>rb_buf := buf\<rparr>, rd, Err e)
        | (rd, Ok s1) \<Rightarrow> Option.bind (store_bytes buf ptr1 s1) (\<lambda>buf.
            if fill1 < fill_length then
              Option.bind (write_bytes buf ptr2 0 fill2) (\<lambda>buf.
              case read_exact rd fill2 of
                (rd, Panic) \<Rightarrow> None
              | (rd, Err e) \<Rightarrow> Some (r\<lparr>rb_buf := buf\<rparr>, rd, Err e)
              | (rd, Ok s2) \<Rightarrow> Option.bind (store_bytes buf ptr2 s2) (\<lambda>buf.
                  Some (r\<lparr>rb_buf := buf, rb_tail := rb_wrap r (rb_tail r + fill_length)\<rparr>, rd, Ok ())))
            else Some (r\<lparr>rb_buf := buf, rb_tail := rb_wrap r (rb_tail r + fill_length)\<rparr>, rd, Ok ())))))"

section \<open>The contents\<close>

definition rb_contents :: "ring_buffer \<Rightarrow> u8 list" where
  "rb_contents r = map (\<lambda>i. rb_buf r ! rb_wrap r (rb_head r + i)) [0..<rb_len r]"

text \<open>The invariants the source lists: a valid allocation, cursors in bounds.\<close>

definition rb_ok :: "ring_buffer \<Rightarrow> bool" where
  "rb_ok r \<longleftrightarrow> (if rb_cap r = 0 then rb_buf r = [] \<and> rb_head r = 0 \<and> rb_tail r = 0
     else length (rb_buf r) = rb_cap r + WILDCOPY_OVERLENGTH \<and> rb_head r < rb_cap r \<and> rb_tail r < rb_cap r)"

lemma rb_len_cases: "rb_len r = (if rb_tail r \<ge> rb_head r then rb_tail r - rb_head r else rb_cap r - rb_head r + rb_tail r)"
  by (simp add: rb_len_def data_slice_lengths_def)

lemma rb_len_parts: "rb_len r = fst (data_slice_lengths r) + snd (data_slice_lengths r)"
  by (simp add: rb_len_def case_prod_unfold)

lemma rb_free_cases: "rb_free r = (if rb_tail r < rb_head r then rb_head r - rb_tail r else rb_head r + (rb_cap r - rb_tail r)) - 1"
  by (simp add: rb_free_def free_slice_lengths_def)

lemma length_rb_contents [simp]: "length (rb_contents r) = rb_len r"
  by (simp add: rb_contents_def)

lemma rb_contents_nth: "i < rb_len r \<Longrightarrow> rb_contents r ! i = rb_buf r ! rb_wrap r (rb_head r + i)"
  by (simp add: rb_contents_def)

lemma rb_room: "rb_ok r \<Longrightarrow> rb_cap r > 0 \<Longrightarrow> rb_len r + rb_free r + 1 = rb_cap r"
  by (auto simp: rb_len_cases rb_free_cases rb_ok_def)

lemma rb_allocated:
  assumes "rb_ok r" "0 < rb_cap r"
  shows "length (rb_buf r) = rb_cap r + WILDCOPY_OVERLENGTH" "rb_tail r < rb_cap r" "rb_head r < rb_cap r"
  using assms by (simp_all add: rb_ok_def)

lemma rb_free_pos: "rb_ok r \<Longrightarrow> 0 < rb_free r \<Longrightarrow> 0 < rb_cap r"
  by (auto simp: rb_ok_def rb_free_cases split: if_splits)

text \<open>
  A write of the bytes \<open>ys\<close> at the write cursor: the live bytes stay, \<open>ys\<close> lies in the slots that follow.
\<close>

lemma rb_contents_append:
  assumes ok: "rb_ok r" and room: "rb_len r + length ys < rb_cap r"
    and len: "length buf = length (rb_buf r)"
    and live: "\<And>i. i < rb_len r \<Longrightarrow> buf ! rb_wrap r (rb_head r + i) = rb_buf r ! rb_wrap r (rb_head r + i)"
    and new: "\<And>j. j < length ys \<Longrightarrow> buf ! rb_wrap r (rb_tail r + j) = ys ! j"
    and r': "r' = r\<lparr>rb_buf := buf, rb_tail := rb_wrap r (rb_tail r + length ys)\<rparr>"
  shows "rb_ok r' \<and> rb_contents r' = rb_contents r @ ys"
proof -
  have L: "rb_len r' = rb_len r + length ys"
    using ok room by (auto simp: r' rb_len_cases rb_wrap_def rb_ok_def split: if_splits)
  have W: "rb_wrap r' = rb_wrap r" by (simp add: r' rb_wrap_def fun_eq_iff)
  have ok': "rb_ok r'" using ok room len by (auto simp: r' rb_ok_def rb_wrap_def)
  have pos: "rb_wrap r (rb_head r + i) = rb_wrap r (rb_tail r + (i - rb_len r))" if "rb_len r \<le> i" "i < rb_len r + length ys" for i
    using ok room that by (auto simp: rb_len_cases rb_wrap_def rb_ok_def split: if_splits)
  have "rb_contents r' = rb_contents r @ ys"
  proof (rule nth_equalityI)
    fix i assume "i < length (rb_contents r')"
    then have i: "i < rb_len r + length ys" by (simp add: L)
    have "rb_contents r' ! i = buf ! rb_wrap r (rb_head r + i)" using i L W by (simp add: rb_contents_nth r')
    then show "rb_contents r' ! i = (rb_contents r @ ys) ! i"
      using i live pos [of i] new [of "i - rb_len r"] by (cases "i < rb_len r") (simp_all add: nth_append rb_contents_nth)
  qed (simp add: L)
  then show ?thesis using ok' by blast
qed

definition rb_wrote :: "ring_buffer \<Rightarrow> u8 list \<Rightarrow> mem \<Rightarrow> bool" where
  "rb_wrote r ys buf \<longleftrightarrow> length buf = length (rb_buf r) \<and> (\<forall>i < rb_len r. buf ! rb_wrap r (rb_head r + i) = rb_buf r ! rb_wrap r (rb_head r + i))
     \<and> (\<forall>j < length ys. buf ! rb_wrap r (rb_tail r + j) = ys ! j)"

lemma rb_wrote_nothing: "rb_wrote r [] (rb_buf r)"
  by (simp add: rb_wrote_def)

lemma rb_wrote_append:
  assumes "rb_ok r" "rb_wrote r ys buf" "length ys \<le> rb_free r" "length ys = n"
  shows "rb_ok (r\<lparr>rb_buf := buf, rb_tail := rb_wrap r (rb_tail r + n)\<rparr>)
      \<and> rb_contents (r\<lparr>rb_buf := buf, rb_tail := rb_wrap r (rb_tail r + n)\<rparr>) = rb_contents r @ ys"
proof (cases "rb_cap r = 0")
  case True
  then have "rb_buf r = []" "ys = []" "n = 0" "rb_tail r = 0" "rb_head r = 0" using assms by (auto simp: rb_ok_def rb_free_cases)
  then show ?thesis using assms True by (simp add: rb_wrote_def rb_ok_def rb_wrap_def rb_contents_def rb_len_cases)
next
  case False
  then have "rb_len r + length ys < rb_cap r" using rb_room [OF assms(1)] assms(3) by simp
  then show ?thesis using rb_contents_append [OF assms(1), of ys buf] assms(2,4) by (simp add: rb_wrote_def)
qed

section \<open>Growth keeps the contents\<close>

lemma next_power_of_two_bounds:
  assumes "n \<le> 2 ^ 63"
  shows "n \<le> next_power_of_two n" "k \<le> 63 \<Longrightarrow> n \<le> 2 ^ k \<Longrightarrow> next_power_of_two n \<le> 2 ^ k"
proof -
  show "n \<le> next_power_of_two n"
    using assms floorlog_bounds [of "n - 1" 2] by (auto simp: next_power_of_two_def)
  show "next_power_of_two n \<le> 2 ^ k" if k: "k \<le> 63" "n \<le> 2 ^ k"
  proof (cases "n \<le> 1")
    case False
    then have "n - 1 < 2 ^ k" using k(2) by linarith
    then have "floorlog 2 (n - 1) \<le> k" using floorlog_leI [of "n - 1" 2 k] by simp
    then show ?thesis using False assms by (simp add: next_power_of_two_def)
  qed (simp add: next_power_of_two_def)
qed

lemma rb_slices:
  assumes "rb_ok r"
  shows "\<exists>s1 s2. load (rb_buf r) (fst (fst (data_slice_parts r))) (snd (fst (data_slice_parts r))) = Some s1
      \<and> load (rb_buf r) (fst (snd (data_slice_parts r))) (snd (snd (data_slice_parts r))) = Some s2
      \<and> s1 @ s2 = rb_contents r \<and> length s1 = fst (data_slice_lengths r) \<and> length s2 = snd (data_slice_lengths r)"
proof -
  let ?s1 = "take (fst (data_slice_lengths r)) (drop (rb_head r) (rb_buf r))" and ?s2 = "take (snd (data_slice_lengths r)) (rb_buf r)"
  have fit: "rb_head r + fst (data_slice_lengths r) \<le> length (rb_buf r)" "snd (data_slice_lengths r) \<le> length (rb_buf r)"
    using assms by (auto simp: rb_ok_def data_slice_lengths_def split: if_splits)
  then have l: "length ?s1 = fst (data_slice_lengths r)" "length ?s2 = snd (data_slice_lengths r)" by simp_all
  have "?s1 @ ?s2 = rb_contents r"
  proof (rule nth_equalityI)
    fix i assume "i < length (?s1 @ ?s2)"
    then have i: "i < rb_len r" using l by (simp add: rb_len_parts)
    show "(?s1 @ ?s2) ! i = rb_contents r ! i"
    proof (cases "i < length ?s1")
      case True
      then have "rb_wrap r (rb_head r + i) = rb_head r + i"
        using assms l by (auto simp: rb_wrap_def rb_ok_def data_slice_lengths_def split: if_splits)
      then show ?thesis using True i l fit by (simp add: nth_append rb_contents_nth)
    next
      case False
      then have "rb_wrap r (rb_head r + i) = i - length ?s1" "i - length ?s1 < snd (data_slice_lengths r)"
        using assms l i by (auto simp: rb_wrap_def rb_ok_def data_slice_lengths_def rb_len_cases split: if_splits)
      then show ?thesis using False i l fit by (simp add: nth_append rb_contents_nth)
    qed
  qed (use l in \<open>simp add: rb_len_parts\<close>)
  then show ?thesis using l fit by (simp add: data_slice_parts_def load_def case_prod_unfold)
qed

lemma rb_as_slices_contents: "rb_ok r \<Longrightarrow> \<exists>s1 s2. rb_as_slices r = Some (s1, s2) \<and> s1 @ s2 = rb_contents r"
  using rb_slices [of r] by (auto simp: rb_as_slices_def case_prod_unfold)

lemma rb_get_contents: "rb_ok r \<Longrightarrow> rb_get r i = Some (if i < rb_len r then Some (rb_contents r ! i) else None)"
  by (auto simp: rb_get_def load_def rb_contents_nth rb_ok_def rb_wrap_def hd_drop_conv_nth take_Suc_conv_app_nth rb_len_cases split: if_splits)

lemma rb_drop_first_n_contents:
  assumes "rb_ok r" "n \<le> rb_len r"
  shows "rb_ok (rb_drop_first_n r n)" "rb_contents (rb_drop_first_n r n) = drop n (rb_contents r)"
proof -
  let ?r = "rb_drop_first_n r n"
  show "rb_ok ?r" using assms by (auto simp: rb_drop_first_n_def rb_ok_def rb_wrap_def rb_len_cases split: if_splits)
  have L: "rb_len ?r = rb_len r - n"
    using assms by (auto simp: rb_drop_first_n_def rb_ok_def rb_wrap_def rb_len_cases split: if_splits)
  show "rb_contents ?r = drop n (rb_contents r)"
  proof (rule nth_equalityI)
    fix i assume "i < length (rb_contents ?r)"
    then have i: "i < rb_len r - n" by (simp add: L)
    then have "rb_wrap ?r (rb_head ?r + i) = rb_wrap r (rb_head r + (n + i))"
      using assms by (auto simp: rb_drop_first_n_def rb_ok_def rb_wrap_def rb_len_cases split: if_splits)
    then show "rb_contents ?r ! i = drop n (rb_contents r) ! i"
      using i L assms(2) by (simp add: rb_contents_nth) (simp add: rb_drop_first_n_def)
  qed (simp add: L)
qed

text \<open>
  Room for \<open>n\<close> more bytes: in place for memory the ring does not own; otherwise any amount below an
  eighth of the address space, except that a ring without an allocation must be allowed that many bytes by its
  growth limit.
\<close>

definition rb_writable :: "ring_buffer \<Rightarrow> nat \<Rightarrow> bool" where
  "rb_writable r n \<longleftrightarrow> rb_len r + n < 2 ^ 61 \<and> (if rb_borrowed r then n \<le> rb_free r else rb_cap r = 0 \<longrightarrow> n \<le> rb_growth_limit r)"

text \<open>What no write of the ring changes.\<close>

definition rb_same_limits :: "ring_buffer \<Rightarrow> ring_buffer \<Rightarrow> bool" where
  "rb_same_limits r r' \<longleftrightarrow> rb_max_capacity r' = rb_max_capacity r \<and> rb_growth_limit r' = rb_growth_limit r \<and> rb_borrowed r' = rb_borrowed r"

lemma grown_capacity:
  assumes "rb_ok r" "\<not> rb_borrowed r" "rb_free r < n" "rb_writable r n"
  defines "needed \<equiv> rb_cap r + (n - rb_free r)"
  shows "rb_len r + n \<le> growth_target r needed" "growth_target r needed \<le> 2 ^ 61" "needed \<le> 2 ^ 61" "rb_cap r \<le> growth_target r needed"
proof -
  let ?doubled = "max (next_power_of_two (rb_cap r)) (next_power_of_two needed)"
  have need: "needed = (if rb_cap r = 0 then n else rb_len r + n + 1)"
    using assms(3) rb_room [OF assms(1)] assms(1) by (auto simp: needed_def rb_ok_def rb_free_cases)
  have w: "rb_len r + n < 2 ^ 61" "rb_cap r = 0 \<Longrightarrow> n \<le> rb_growth_limit r"
    using assms(2,4) by (simp_all add: rb_writable_def)
  show n61: "needed \<le> 2 ^ 61" using w(1) by (simp add: need)
  have c61: "rb_cap r \<le> needed" by (simp add: needed_def)
  have pow: "needed \<le> next_power_of_two needed" "next_power_of_two needed \<le> 2 ^ 61" "next_power_of_two (rb_cap r) \<le> 2 ^ 61"
    using next_power_of_two_bounds(1) [of needed] next_power_of_two_bounds(2) [of needed 61]
      next_power_of_two_bounds(2) [of "rb_cap r" 61] n61 c61 by simp_all
  then show "growth_target r needed \<le> 2 ^ 61" by (auto simp: growth_target_def Let_def)
  have d: "needed \<le> ?doubled" using pow(1) by simp
  have l0: "rb_cap r = 0 \<Longrightarrow> rb_len r = 0" using assms(1) by (simp add: rb_ok_def rb_len_cases)
  show "rb_len r + n \<le> growth_target r needed"
    using d need w(2) l0 by (auto simp: growth_target_def Let_def min_def split: if_splits)
  then show "rb_cap r \<le> growth_target r needed" using assms(3) rb_room [OF assms(1)] by (cases "rb_cap r = 0") auto
qed

lemma store_two:
  assumes "length s1 + length s2 \<le> length mem"
  shows "\<exists>m1 m2. store_bytes mem 0 s1 = Some m1 \<and> store_bytes m1 (length s1) s2 = Some m2 \<and> length m2 = length mem
      \<and> take (length s1 + length s2) m2 = s1 @ s2"
  using assms by (simp add: store_bytes_def)

lemma flat_contents:
  assumes "rb_head r = 0" "rb_tail r = n" "n < rb_cap r" "n \<le> length (rb_buf r)" "take n (rb_buf r) = xs"
  shows "rb_contents r = xs"
  using assms by (auto intro!: nth_equalityI simp: rb_contents_def rb_wrap_def rb_len_cases)

lemma move_to_new_buf_ok:
  assumes ok: "rb_ok r" and c: "rb_len r < new_cap"
  shows "\<exists>r'. move_to_new_buf r new_cap = Some r' \<and> rb_ok r' \<and> rb_contents r' = rb_contents r \<and> rb_same_limits r r'
      \<and> rb_cap r' = new_cap"
proof (cases "rb_cap r > 0")
  case False
  let ?r = "r\<lparr>rb_buf := replicate (new_cap + WILDCOPY_OVERLENGTH) 0, rb_cap := new_cap\<rparr>"
  have e: "rb_head r = 0" "rb_tail r = 0" using ok False by (simp_all add: rb_ok_def)
  then have "rb_ok ?r" "rb_contents ?r = rb_contents r" using c by (simp_all add: rb_ok_def rb_contents_def rb_len_cases)
  then show ?thesis using False by (simp add: move_to_new_buf_def Let_def rb_same_limits_def)
next
  case True
  let ?nb = "replicate (new_cap + WILDCOPY_OVERLENGTH) (0 :: u8)"
  obtain s1 s2 where s: "load (rb_buf r) (fst (fst (data_slice_parts r))) (snd (fst (data_slice_parts r))) = Some s1"
      "load (rb_buf r) (fst (snd (data_slice_parts r))) (snd (snd (data_slice_parts r))) = Some s2"
      "s1 @ s2 = rb_contents r" "length s1 = fst (data_slice_lengths r)" "length s2 = snd (data_slice_lengths r)"
    using rb_slices [OF ok] by blast
  have len: "length s1 + length s2 = rb_len r" by (simp add: s(4,5) rb_len_parts)
  obtain m1 m2 where m: "store_bytes ?nb 0 s1 = Some m1" "store_bytes m1 (length s1) s2 = Some m2"
      "length m2 = new_cap + WILDCOPY_OVERLENGTH" "take (rb_len r) m2 = rb_contents r"
    using store_two [of s1 s2 ?nb] c len s(3) by auto
  let ?r = "r\<lparr>rb_tail := rb_len r, rb_head := 0, rb_buf := m2, rb_cap := new_cap\<rparr>"
  have "move_to_new_buf r new_cap = Some ?r"
    using True s(1,2) m(1,2) s(4,5) by (simp add: move_to_new_buf_def Let_def case_prod_unfold data_slice_parts_def rb_len_parts)
  moreover have "rb_ok ?r" using c m(3) by (simp add: rb_ok_def)
  moreover have "rb_contents ?r = rb_contents r" using flat_contents [of ?r "rb_len r" "rb_contents r"] c m(3,4) by simp
  ultimately show ?thesis by (simp add: rb_same_limits_def)
qed

lemma reserve_amortized_ok:
  assumes ok: "rb_ok r" and nb: "\<not> rb_borrowed r" and short: "rb_free r < n" and wr: "rb_writable r n"
  shows "\<exists>r'. reserve_amortized r (n - rb_free r) = Some r' \<and> rb_ok r' \<and> rb_contents r' = rb_contents r \<and> n \<le> rb_free r'
      \<and> rb_same_limits r r' \<and> rb_cap r < rb_cap r'"
proof -
  define needed where "needed = rb_cap r + (n - rb_free r)"
  note g = grown_capacity [OF ok nb short wr, folded needed_def]
  let ?c = "growth_target r needed + 1"
  have ca: "checked_add (rb_cap r) (n - rb_free r) = Some needed" "checked_add (growth_target r needed) 1 = Some ?c"
      "\<not> ?c + WILDCOPY_OVERLENGTH > isize_max"
    using g(2,3) by (simp_all add: checked_add_def usize_max_def isize_max_def WILDCOPY_OVERLENGTH_def needed_def)
  obtain r' where r': "move_to_new_buf r ?c = Some r'" "rb_ok r'" "rb_contents r' = rb_contents r" "rb_same_limits r r'" "rb_cap r' = ?c"
    using move_to_new_buf_ok [OF ok, of ?c] g(1) by auto
  have "rb_len r' = rb_len r" using arg_cong [OF r'(3), of length] by simp
  then have "n \<le> rb_free r'" using rb_room [OF r'(2)] r'(5) g(1) by simp
  moreover have "reserve_amortized r (n - rb_free r) = Some r'"
    using nb ca r'(1) by (simp add: reserve_amortized_def)
  ultimately show ?thesis using r' g(4) by simp
qed

lemma enough_free_below_cap:
  "rb_ok r \<Longrightarrow> rb_head r \<le> rb_tail r \<Longrightarrow> n < rb_cap r - rb_tail r \<Longrightarrow> n \<le> rb_free r"
  by (auto simp: rb_free_cases)

lemma rb_same_limits_refl [simp]: "rb_same_limits r r"
  by (simp add: rb_same_limits_def)

lemma rb_reserve_ok:
  assumes ok: "rb_ok r" and wr: "rb_writable r n"
  shows "\<exists>r'. rb_reserve r n = Some r' \<and> rb_ok r' \<and> rb_contents r' = rb_contents r \<and> n \<le> rb_free r'
      \<and> rb_same_limits r r' \<and> (r' = r \<or> rb_cap r < rb_cap r')"
proof (cases "n \<le> rb_free r")
  case True
  then have "rb_reserve r n = Some r" by (simp add: rb_reserve_def Let_def)
  then show ?thesis using ok True by simp
next
  case False
  then have "\<not> (rb_head r \<le> rb_tail r \<and> n < rb_cap r - rb_tail r)" "\<not> rb_borrowed r"
    using enough_free_below_cap [OF ok] wr by (auto simp: rb_writable_def)
  then show ?thesis using reserve_amortized_ok [OF ok _ _ wr] False by (auto simp: rb_reserve_def Let_def)
qed

lemma rb_try_reserve_ok:
  assumes ok: "rb_ok r" and wr: "rb_writable r n" and c: "rb_len r + n \<le> rb_max_capacity r" "rb_len r + n \<le> usize_max"
  shows "\<exists>r'. rb_try_reserve r n = Ok r' \<and> rb_reserve r n = Some r'"
proof -
  obtain r' where "rb_reserve r n = Some r'" using rb_reserve_ok [OF ok wr] by blast
  then show ?thesis using c by (auto simp: rb_try_reserve_def rb_reserve_def checked_add_def Let_def split: if_splits)
qed

lemma rb_try_reserve_err:
  assumes "rb_max_capacity r < rb_len r + n"
  shows "rb_try_reserve r n = Err \<lparr>bo_tail = rb_tail r, bo_requested = n, bo_capacity = rb_max_capacity r\<rparr>"
  using assms by (auto simp: rb_try_reserve_def checked_add_def)

section \<open>Writes append\<close>

context copy_kernel
begin

lemma copy_in_ok:
  assumes n: "n \<le> src_len" "n \<le> dst_len" and room: "src + src_len \<le> length data" "dst + dst_len \<le> length buf"
  shows "\<exists>buf'. copy_in k buf data (src, src_len) (dst, dst_len) n = Some buf' \<and> length buf' = length buf
      \<and> (\<forall>j < n. buf' ! (dst + j) = data ! (src + j)) \<and> (\<forall>i < length buf. i < dst \<or> dst + dst_len \<le> i \<longrightarrow> buf' ! i = buf ! i)"
proof -
  have "apart (length buf + src) dst n" using n room by (simp add: apart_def)
  then obtain m where m: "copy_bytes_overshooting k (buf @ data) (length buf + src, src_len) (dst, dst_len) n = Some m"
      "copied (buf @ data) (length buf + src) dst n dst_len m"
    using overshooting [of n src_len dst_len "length buf + src" "buf @ data" dst] n room by auto
  have len: "length m = length buf + length data" using m(2) by (simp add: copied_def)
  have "take (length buf) m ! (dst + j) = data ! (src + j)" if "j < n" for j
  proof -
    have "dst + j < length buf" "src + j < length data" using that n room by linarith+
    then show ?thesis using m(2) that by (simp add: copied_def nth_append add.assoc)
  qed
  moreover have "take (length buf) m ! i = buf ! i" if "i < length buf" "i < dst \<or> dst + dst_len \<le> i" for i
    using m(2) that by (auto simp: copied_def nth_append)
  ultimately show ?thesis using m(1) len by (auto simp: copy_in_def)
qed

lemma extend_flat:
  assumes ok: "rb_ok r" and flat: "rb_head r \<le> rb_tail r" "rb_tail r + length data \<le> rb_cap r" and room: "length data \<le> rb_free r"
    and pos: "0 < length data"
  shows "\<exists>buf. copy_in k (rb_buf r) data (0, length data) (rb_tail r, rb_cap r - rb_tail r + WILDCOPY_OVERLENGTH) (length data) = Some buf
      \<and> rb_ok (r\<lparr>rb_buf := buf, rb_tail := rb_wrap r (rb_tail r + length data)\<rparr>)
      \<and> rb_contents (r\<lparr>rb_buf := buf, rb_tail := rb_wrap r (rb_tail r + length data)\<rparr>) = rb_contents r @ data"
proof -
  have "0 < rb_cap r" using flat(2) pos by linarith
  note b = rb_allocated [OF ok this] this
  have fits: "length data \<le> rb_cap r - rb_tail r + WILDCOPY_OVERLENGTH" using flat(2) by linarith
  obtain buf where buf: "copy_in k (rb_buf r) data (0, length data) (rb_tail r, rb_cap r - rb_tail r + WILDCOPY_OVERLENGTH) (length data) = Some buf"
      "length buf = length (rb_buf r)" "\<forall>j < length data. buf ! (rb_tail r + j) = data ! j"
      "\<forall>i < length (rb_buf r). i < rb_tail r \<longrightarrow> buf ! i = rb_buf r ! i"
    using copy_in_ok [of "length data" "length data" "rb_cap r - rb_tail r + WILDCOPY_OVERLENGTH" 0 data "rb_tail r" "rb_buf r"] fits b by auto
  have "rb_len r + length data < rb_cap r" using rb_room [OF ok b(4)] room by linarith
  then have "rb_ok (r\<lparr>rb_buf := buf, rb_tail := rb_wrap r (rb_tail r + length data)\<rparr>)
      \<and> rb_contents (r\<lparr>rb_buf := buf, rb_tail := rb_wrap r (rb_tail r + length data)\<rparr>) = rb_contents r @ data"
    using ok flat b buf(2-4)
    by (intro rb_contents_append [OF ok _ buf(2) _ _ refl]) (auto simp: rb_wrap_def rb_len_cases)
  then show ?thesis using buf(1) by blast
qed

lemma extend_split:
  assumes ok: "rb_ok r" and wrap: "\<not> (rb_head r \<le> rb_tail r \<and> rb_tail r + length data \<le> rb_cap r)" and room: "length data \<le> rb_free r"
    and pos: "0 < length data"
    and parts: "free_slice_parts r = ((p1, f1), (p2, f2))"
  defines "n1 \<equiv> min (length data) f1"
  defines "d1 \<equiv> if rb_tail r \<ge> rb_head r then f1 + WILDCOPY_OVERLENGTH else f1"
  shows "\<exists>b1 b2. copy_in k (rb_buf r) data (0, n1) (p1, d1) n1 = Some b1 \<and> n1 > 0
      \<and> (if length data - n1 > 0 then copy_in k b1 data (n1, length data - n1) (p2, f2) (length data - n1) else Some b1) = Some b2
      \<and> rb_ok (r\<lparr>rb_buf := b2, rb_tail := rb_wrap r (rb_tail r + length data)\<rparr>)
      \<and> rb_contents (r\<lparr>rb_buf := b2, rb_tail := rb_wrap r (rb_tail r + length data)\<rparr>) = rb_contents r @ data"
proof -
  let ?n = "length data"
  have "0 < rb_cap r" using rb_free_pos [OF ok] room pos by linarith
  note b = rb_allocated [OF ok this] this
  have room': "rb_len r + ?n < rb_cap r" using rb_room [OF ok b(4)] room by linarith
  note c = copy_in_ok [where data = data]
  have p: "p1 = rb_tail r" "p2 = 0" and f: "f1 = (if rb_tail r < rb_head r then rb_head r - rb_tail r else rb_cap r - rb_tail r)"
      "f2 = (if rb_tail r < rb_head r then 0 else rb_head r)"
    using parts by (auto simp: free_slice_parts_def free_slice_lengths_def split: if_splits)
  show ?thesis
  proof (cases "rb_tail r < rb_head r")
    case True
    then have n1: "n1 = ?n" "d1 = rb_head r - rb_tail r" using room by (auto simp: n1_def f d1_def rb_free_cases)
    obtain b1 where b1: "copy_in k (rb_buf r) data (0, ?n) (rb_tail r, d1) ?n = Some b1" "length b1 = length (rb_buf r)"
        "\<forall>j < ?n. b1 ! (rb_tail r + j) = data ! j"
        "\<forall>i < length (rb_buf r). i < rb_tail r \<or> rb_head r \<le> i \<longrightarrow> b1 ! i = rb_buf r ! i"
      using c [of ?n ?n d1 0 "rb_tail r" "rb_buf r"] n1 True le_trans [OF room, of "rb_head r - rb_tail r"] b by (auto simp: rb_free_cases)
    have "rb_ok (r\<lparr>rb_buf := b1, rb_tail := rb_wrap r (rb_tail r + ?n)\<rparr>)
        \<and> rb_contents (r\<lparr>rb_buf := b1, rb_tail := rb_wrap r (rb_tail r + ?n)\<rparr>) = rb_contents r @ data"
      using True room b b1(2-4) by (intro rb_contents_append [OF ok room' b1(2) _ _ refl]) (auto simp: rb_wrap_def rb_len_cases rb_free_cases)
    then show ?thesis using b1(1) n1 pos by (auto simp: p)
  next
    case False
    then have n1: "n1 = rb_cap r - rb_tail r" "d1 = rb_cap r - rb_tail r + WILDCOPY_OVERLENGTH" "f2 = rb_head r" "0 < n1" "n1 < ?n"
      using wrap b by (auto simp: n1_def f d1_def)
    have h: "?n - n1 < rb_head r" using False n1 room b by (auto simp: rb_free_cases)
    have fits: "n1 \<le> d1" "0 + n1 \<le> ?n" "rb_tail r + d1 \<le> length (rb_buf r)" using n1 b by linarith+
    obtain b1 where b1: "copy_in k (rb_buf r) data (0, n1) (rb_tail r, d1) n1 = Some b1" "length b1 = length (rb_buf r)"
        "\<forall>j < n1. b1 ! (rb_tail r + j) = data ! j" "\<forall>i < length (rb_buf r). i < rb_tail r \<longrightarrow> b1 ! i = rb_buf r ! i"
      using c [OF order_refl fits] by auto
    obtain b2 where b2: "copy_in k b1 data (n1, ?n - n1) (0, rb_head r) (?n - n1) = Some b2" "length b2 = length b1"
        "\<forall>j < ?n - n1. b2 ! j = data ! (n1 + j)" "\<forall>i < length b1. rb_head r \<le> i \<longrightarrow> b2 ! i = b1 ! i"
      using c [of "?n - n1" "?n - n1" "rb_head r" n1 0 b1] n1(5) h b b1(2) by auto
    have live: "b2 ! rb_wrap r (rb_head r + i) = rb_buf r ! rb_wrap r (rb_head r + i)" if "i < rb_len r" for i
    proof -
      have "rb_wrap r (rb_head r + i) = rb_head r + i" "rb_head r + i < rb_tail r" "rb_head r + i < length (rb_buf r)"
        using that False b by (auto simp: rb_wrap_def rb_len_cases)
      then show ?thesis using b1(2,4) b2(4) by simp
    qed
    have new: "b2 ! rb_wrap r (rb_tail r + j) = data ! j" if "j < ?n" for j
    proof (cases "j < n1")
      case True
      then have "rb_wrap r (rb_tail r + j) = rb_tail r + j" "rb_tail r + j < length b1" "rb_head r \<le> rb_tail r + j"
        using n1 b b1(2) False by (auto simp: rb_wrap_def)
      then show ?thesis using b1(3) b2(4) True by simp
    next
      case False
      then have "rb_wrap r (rb_tail r + j) = j - n1" using n1 b by (auto simp: rb_wrap_def)
      then show ?thesis using b2(3) False that by simp
    qed
    have "rb_ok (r\<lparr>rb_buf := b2, rb_tail := rb_wrap r (rb_tail r + ?n)\<rparr>)
        \<and> rb_contents (r\<lparr>rb_buf := b2, rb_tail := rb_wrap r (rb_tail r + ?n)\<rparr>) = rb_contents r @ data"
      using rb_contents_append [OF ok room' _ live new refl] b1(2) b2(2) by simp
    then show ?thesis using b1(1) b2(1) n1 by (auto simp: p)
  qed
qed

lemma rb_extend_ok:
  assumes ok: "rb_ok r" and wr: "rb_writable r (length data)"
  shows "\<exists>r'. rb_extend k r data = Some r' \<and> rb_ok r' \<and> rb_contents r' = rb_contents r @ data \<and> rb_same_limits r r'
      \<and> (rb_cap r < rb_cap r' \<or> rb_cap r' = rb_cap r \<and> rb_head r' = rb_head r)"
proof -
  let ?n = "length data"
  consider "?n = 0" | "0 < ?n" "rb_head r \<le> rb_tail r" "?n < rb_cap r - rb_tail r"
    | "0 < ?n" "\<not> (rb_head r \<le> rb_tail r \<and> ?n < rb_cap r - rb_tail r)" by linarith
  then show ?thesis
  proof cases
    case 1
    then show ?thesis using ok by (simp add: rb_extend_def)
  next
    case 2
    have "rb_tail r + ?n \<le> rb_cap r" "rb_wrap r (rb_tail r + ?n) = rb_tail r + ?n" using 2(3) by (auto simp: rb_wrap_def)
    then show ?thesis using extend_flat [OF ok 2(2) _ enough_free_below_cap [OF ok 2(2,3)] 2(1)] 2
      by (auto simp: rb_extend_def Let_def rb_same_limits_def)
  next
    case 3
    obtain q where q: "rb_reserve r ?n = Some q" "rb_ok q" "rb_contents q = rb_contents r" "?n \<le> rb_free q"
        "rb_same_limits r q" "q = r \<or> rb_cap r < rb_cap q"
      using rb_reserve_ok [OF ok wr] by blast
    have go: "rb_extend k r data = (if rb_head q \<le> rb_tail q \<and> rb_tail q + ?n \<le> rb_cap q then
          Option.bind (copy_in k (rb_buf q) data (0, ?n) (rb_tail q, rb_cap q - rb_tail q + WILDCOPY_OVERLENGTH) ?n)
            (\<lambda>buf. Some (q\<lparr>rb_buf := buf, rb_tail := (if rb_tail q + ?n = rb_cap q then 0 else rb_tail q + ?n)\<rparr>))
        else
          (case free_slice_parts q of ((f1_ptr, f1_len), (f2_ptr, f2_len)) \<Rightarrow>
            let in_f1 = min ?n f1_len; in_f2 = ?n - in_f1;
                f1_dst_cap = (if rb_tail q \<ge> rb_head q then f1_len + WILDCOPY_OVERLENGTH else f1_len) in
            Option.bind (if in_f1 > 0 then copy_in k (rb_buf q) data (0, in_f1) (f1_ptr, f1_dst_cap) in_f1 else Some (rb_buf q)) (\<lambda>buf.
            Option.bind (if in_f2 > 0 then copy_in k buf data (in_f1, in_f2) (f2_ptr, f2_len) in_f2 else Some buf) (\<lambda>buf.
            Some (q\<lparr>rb_buf := buf, rb_tail := rb_wrap q (rb_tail q + ?n)\<rparr>)))))"
      using 3 q(1) unfolding rb_extend_def Let_def by (simp only: if_False if_True bind.bind_lunit simp_thms less_irrefl) simp
    have lim: "rb_same_limits r (q\<lparr>rb_buf := buf, rb_tail := t\<rparr>)" for buf t using q(5) by (simp add: rb_same_limits_def)
    have cap: "rb_cap r < rb_cap q \<or> rb_cap q = rb_cap r \<and> rb_head q = rb_head r" using q(6) by auto
    show ?thesis
    proof (cases "rb_head q \<le> rb_tail q \<and> rb_tail q + ?n \<le> rb_cap q")
      case True
      then have "rb_wrap q (rb_tail q + ?n) = (if rb_tail q + ?n = rb_cap q then 0 else rb_tail q + ?n)" by (auto simp: rb_wrap_def)
      then show ?thesis using extend_flat [OF q(2) _ _ q(4) 3(1)] True q(3) lim cap by (auto simp: go)
    next
      case False
      obtain p1 f1 p2 f2 where parts: "free_slice_parts q = ((p1, f1), (p2, f2))" by (metis prod.exhaust)
      show ?thesis using extend_split [OF q(2) False q(4) 3(1) parts] False q(3) lim cap by (auto simp: go parts Let_def)
    qed
  qed
qed

text \<open>The three layouts of a copy of the ring's own bytes.\<close>

lemma within_flat:
  assumes ok: "rb_ok r" and l: "rb_head r \<le> rb_tail r" and src: "start + len \<le> rb_len r" and room: "len \<le> rb_free r" and pos: "0 < len"
  defines "after_tail \<equiv> min len (rb_cap r - rb_tail r)"
  assumes sl: "after_tail \<le> sl" "rb_head r + start + sl \<le> rb_cap r + WILDCOPY_OVERLENGTH"
    and dl: "after_tail \<le> dl" "rb_tail r + dl \<le> rb_cap r + WILDCOPY_OVERLENGTH"
    and sl2: "len - after_tail \<le> sl2" "rb_head r + start + after_tail + sl2 \<le> rb_cap r + WILDCOPY_OVERLENGTH"
    and dl2: "len - after_tail \<le> dl2" "dl2 \<le> rb_head r"
  shows "\<exists>b1 b2. copy_bytes_overshooting k (rb_buf r) (rb_head r + start, sl) (rb_tail r, dl) after_tail = Some b1
      \<and> (if after_tail < len
          then copy_bytes_overshooting k b1 (rb_head r + start + after_tail, sl2) (0, dl2) (len - after_tail)
          else Some b1) = Some b2
      \<and> rb_wrote r (take len (drop start (rb_contents r))) b2"
proof -
  have "0 < rb_cap r" using rb_free_pos [OF ok] room pos by linarith
  note b = rb_allocated [OF ok this] this
  have ln: "rb_len r = rb_tail r - rb_head r" "start + len \<le> rb_tail r - rb_head r" using l src by (simp_all add: rb_len_cases)
  have f1: "rb_head r + start + sl \<le> length (rb_buf r)" "rb_tail r + dl \<le> length (rb_buf r)" "apart (rb_head r + start) (rb_tail r) after_tail"
    using ln(2) b l sl(2) dl(2) by (auto simp: after_tail_def apart_def)
  obtain b1 where b1: "copy_bytes_overshooting k (rb_buf r) (rb_head r + start, sl) (rb_tail r, dl) after_tail = Some b1"
      "copied (rb_buf r) (rb_head r + start) (rb_tail r) after_tail dl b1"
    using overshooting [OF sl(1) dl(1) f1] by blast
  have c1: "length b1 = length (rb_buf r)" "\<And>j. j < after_tail \<Longrightarrow> b1 ! (rb_tail r + j) = rb_buf r ! (rb_head r + start + j)"
      "\<And>i. i < rb_tail r \<Longrightarrow> b1 ! i = rb_buf r ! i"
    using b1(2) b by (auto simp: copied_def)
  have ys: "take len (drop start (rb_contents r)) ! j = rb_buf r ! (rb_head r + start + j)" if "j < len" for j
  proof -
    have "rb_head r + (start + j) < rb_cap r" "start + j < rb_len r" using that ln b by linarith+
    then show ?thesis using that by (simp add: rb_contents_nth rb_wrap_def add.assoc)
  qed
  have yl: "length (take len (drop start (rb_contents r))) = len" using src by simp
  show ?thesis
  proof (cases "after_tail < len")
    case False
    then have at: "after_tail = len" by (simp add: after_tail_def)
    have "rb_wrote r (take len (drop start (rb_contents r))) b1" unfolding rb_wrote_def yl
    proof (intro conjI allI impI)
      show "length b1 = length (rb_buf r)" by (rule c1)
      show "b1 ! rb_wrap r (rb_head r + i) = rb_buf r ! rb_wrap r (rb_head r + i)" if "i < rb_len r" for i
        using that ln b c1(3) by (simp add: rb_wrap_def)
      show "b1 ! rb_wrap r (rb_tail r + j) = take len (drop start (rb_contents r)) ! j" if "j < len" for j
      proof -
        have "rb_tail r + j < rb_cap r" using that at by (simp add: after_tail_def min_def split: if_splits)
        then show ?thesis using that c1(2) at ys by (simp add: rb_wrap_def)
      qed
    qed
    then show ?thesis using b1(1) at by auto
  next
    case True
    then have at: "after_tail = rb_cap r - rb_tail r" by (auto simp: after_tail_def min_def split: if_splits)
    have h: "len - after_tail < rb_head r" using room True at l b by (simp add: rb_free_cases)
    have f2: "rb_head r + start + after_tail + sl2 \<le> length b1" "0 + dl2 \<le> length b1" "apart (rb_head r + start + after_tail) 0 (len - after_tail)"
      using b h c1(1) sl2(2) dl2(2) by (auto simp: apart_def)
    obtain b2 where b2: "copy_bytes_overshooting k b1 (rb_head r + start + after_tail, sl2) (0, dl2) (len - after_tail) = Some b2"
        "copied b1 (rb_head r + start + after_tail) 0 (len - after_tail) dl2 b2"
      using overshooting [OF sl2(1) dl2(1) f2] by blast
    have c2: "length b2 = length b1" "\<And>j. j < len - after_tail \<Longrightarrow> b2 ! j = b1 ! (rb_head r + start + after_tail + j)"
        "\<And>i. rb_head r \<le> i \<Longrightarrow> i < length b1 \<Longrightarrow> b2 ! i = b1 ! i"
      using b2(2) dl2(2) by (auto simp: copied_def)
    have "rb_wrote r (take len (drop start (rb_contents r))) b2" unfolding rb_wrote_def yl
    proof (intro conjI allI impI)
      show "length b2 = length (rb_buf r)" by (simp add: c1 c2)
      show "b2 ! rb_wrap r (rb_head r + i) = rb_buf r ! rb_wrap r (rb_head r + i)" if "i < rb_len r" for i
        using that ln b c1 c2(3) by (simp add: rb_wrap_def)
      show "b2 ! rb_wrap r (rb_tail r + j) = take len (drop start (rb_contents r)) ! j" if j: "j < len" for j
      proof (cases "j < after_tail")
        case True
        then have "rb_wrap r (rb_tail r + j) = rb_tail r + j" "rb_tail r + j < length b1" using at b c1(1) by (simp_all add: rb_wrap_def)
        then show ?thesis using True c1(2) c2(3) l j ys by simp
      next
        case False
        then have w: "rb_wrap r (rb_tail r + j) = j - after_tail" "j - after_tail < len - after_tail"
            "rb_head r + start + after_tail + (j - after_tail) = rb_head r + start + j" "rb_head r + start + j < rb_tail r"
          using at b j ln(2) by (auto simp: rb_wrap_def)
        then show ?thesis using c2(2) [OF w(2)] c1(3) j ys by (simp add: add.assoc)
      qed
    qed
    then show ?thesis using b1(1) b2(1) True by auto
  qed
qed

lemma within_low:
  assumes ok: "rb_ok r" and l: "\<not> rb_head r \<le> rb_tail r" "rb_head r + start \<ge> rb_cap r" and src: "start + len \<le> rb_len r" and room: "len \<le> rb_free r"
    and pos: "0 < len" and sl: "len \<le> sl" "rb_wrap r (rb_head r + start) + sl \<le> rb_cap r + WILDCOPY_OVERLENGTH" and dl: "len \<le> dl" "dl \<le> rb_head r - rb_tail r"
  shows "\<exists>b. copy_bytes_overshooting k (rb_buf r) (rb_wrap r (rb_head r + start), sl) (rb_tail r, dl) len = Some b
      \<and> rb_wrote r (take len (drop start (rb_contents r))) b"
proof -
  have "0 < rb_cap r" using rb_free_pos [OF ok] room pos by linarith
  note b = rb_allocated [OF ok this] this
  let ?s = "rb_wrap r (rb_head r + start)"
  have th: "rb_tail r < rb_head r" using l by simp
  have s: "?s = rb_head r + start - rb_cap r" "?s + len \<le> rb_tail r" "rb_len r = rb_cap r - rb_head r + rb_tail r"
    using l src th b by (auto simp: rb_wrap_def rb_len_cases)
  have h: "len < rb_head r - rb_tail r" using room th pos by (simp add: rb_free_cases)
  have f: "?s + sl \<le> length (rb_buf r)" "rb_tail r + dl \<le> length (rb_buf r)" "apart ?s (rb_tail r) len"
    using s(2) sl(2) dl(2) th b by (auto simp: apart_def)
  obtain m where m: "copy_bytes_overshooting k (rb_buf r) (?s, sl) (rb_tail r, dl) len = Some m"
      "copied (rb_buf r) ?s (rb_tail r) len dl m"
    using overshooting [OF sl(1) dl(1) f] by blast
  have c: "length m = length (rb_buf r)" "\<And>j. j < len \<Longrightarrow> m ! (rb_tail r + j) = rb_buf r ! (?s + j)"
      "\<And>i. i < length (rb_buf r) \<Longrightarrow> i < rb_tail r \<or> rb_head r \<le> i \<Longrightarrow> m ! i = rb_buf r ! i"
    using m(2) th dl(2) by (auto simp: copied_def)
  have "rb_wrote r (take len (drop start (rb_contents r))) m" unfolding rb_wrote_def
  proof (intro conjI allI impI)
    show "length m = length (rb_buf r)" by (rule c)
    show "m ! rb_wrap r (rb_head r + i) = rb_buf r ! rb_wrap r (rb_head r + i)" if "i < rb_len r" for i
      using that s(3) b th by (intro c(3)) (auto simp: rb_wrap_def)
    fix j assume "j < length (take len (drop start (rb_contents r)))"
    then have j: "j < len" "start + j < rb_len r" using src by simp_all
    have "rb_wrap r (rb_tail r + j) = rb_tail r + j" "rb_wrap r (rb_head r + (start + j)) = ?s + j"
      using j h b l by (auto simp: rb_wrap_def)
    then show "m ! rb_wrap r (rb_tail r + j) = take len (drop start (rb_contents r)) ! j"
      using j c(2) by (simp add: rb_contents_nth)
  qed
  then show ?thesis using m(1) by blast
qed

lemma within_high:
  assumes ok: "rb_ok r" and l: "\<not> rb_head r \<le> rb_tail r" "rb_head r + start < rb_cap r" and src: "start + len \<le> rb_len r" and room: "len \<le> rb_free r"
    and pos: "0 < len"
  defines "after_start \<equiv> min len (rb_cap r - rb_head r - start)"
  assumes sl: "after_start \<le> sl" "rb_head r + start + sl \<le> rb_cap r + WILDCOPY_OVERLENGTH" and dl: "after_start \<le> dl" "dl \<le> rb_head r - rb_tail r"
    and sl2: "len - after_start \<le> sl2" "sl2 \<le> rb_cap r + WILDCOPY_OVERLENGTH"
    and dl2: "len - after_start \<le> dl2" "rb_tail r + after_start + dl2 \<le> rb_head r"
  shows "\<exists>b1 b2. copy_bytes_overshooting k (rb_buf r) (rb_head r + start, sl) (rb_tail r, dl) after_start = Some b1
      \<and> (if after_start < len
          then copy_bytes_overshooting k b1 (0, sl2) (rb_tail r + after_start, dl2) (len - after_start)
          else Some b1) = Some b2
      \<and> rb_wrote r (take len (drop start (rb_contents r))) b2"
proof -
  have "0 < rb_cap r" using rb_free_pos [OF ok] room pos by linarith
  note b = rb_allocated [OF ok this] this
  have th: "rb_tail r < rb_head r" using l by simp
  have ln: "rb_len r = rb_cap r - rb_head r + rb_tail r" using th by (simp add: rb_len_cases)
  have h: "len < rb_head r - rb_tail r" using room th pos by (simp add: rb_free_cases)
  have al: "after_start \<le> len" "after_start \<le> rb_cap r - rb_head r - start" by (simp_all add: after_start_def)
  have f1: "rb_head r + start + sl \<le> length (rb_buf r)" "rb_tail r + dl \<le> length (rb_buf r)" "apart (rb_head r + start) (rb_tail r) after_start"
    using h b l al th sl(2) dl(2) by (auto simp: apart_def)
  obtain b1 where b1: "copy_bytes_overshooting k (rb_buf r) (rb_head r + start, sl) (rb_tail r, dl) after_start = Some b1"
      "copied (rb_buf r) (rb_head r + start) (rb_tail r) after_start dl b1"
    using overshooting [OF sl(1) dl(1) f1] by blast
  have c1: "length b1 = length (rb_buf r)" "\<And>j. j < after_start \<Longrightarrow> b1 ! (rb_tail r + j) = rb_buf r ! (rb_head r + start + j)"
      "\<And>i. i < length (rb_buf r) \<Longrightarrow> i < rb_tail r \<or> rb_head r \<le> i \<Longrightarrow> b1 ! i = rb_buf r ! i"
    using b1(2) th dl(2) by (auto simp: copied_def)
  have tj: "rb_wrap r (rb_tail r + j) = rb_tail r + j" if "j < len" for j using that h b by (auto simp: rb_wrap_def)
  have ys: "take len (drop start (rb_contents r)) ! j = rb_buf r ! rb_wrap r (rb_head r + (start + j))" if "j < len" for j
    using that src by (simp add: rb_contents_nth)
  have yl: "length (take len (drop start (rb_contents r))) = len" using src by simp
  have hj: "rb_wrap r (rb_head r + (start + j)) = (if j < rb_cap r - rb_head r - start then rb_head r + start + j else j - (rb_cap r - rb_head r - start))"
    if "j < len" for j using that l(2) by (auto simp: rb_wrap_def)
  have pos_live: "rb_wrap r (rb_head r + i) < rb_tail r \<or> rb_head r \<le> rb_wrap r (rb_head r + i)" "rb_wrap r (rb_head r + i) < length (rb_buf r)"
    if "i < rb_len r" for i using that ln b th by (auto simp: rb_wrap_def)
  show ?thesis
  proof (cases "after_start < len")
    case False
    then have at: "after_start = len" by (simp add: after_start_def)
    have "rb_wrote r (take len (drop start (rb_contents r))) b1" unfolding rb_wrote_def yl
      using c1 pos_live tj ys hj at al(2) by (simp add: add.assoc)
    then show ?thesis using b1(1) at by auto
  next
    case True
    then have at: "after_start = rb_cap r - rb_head r - start" by (auto simp: after_start_def min_def split: if_splits)
    have lt: "len - after_start \<le> rb_tail r" using src ln at l(2) by linarith
    have f2: "0 + sl2 \<le> length b1" "rb_tail r + after_start + dl2 \<le> length b1" "apart 0 (rb_tail r + after_start) (len - after_start)"
      using lt h b al c1(1) sl2(2) dl2(2) by (auto simp: apart_def)
    obtain b2 where b2: "copy_bytes_overshooting k b1 (0, sl2) (rb_tail r + after_start, dl2) (len - after_start) = Some b2"
        "copied b1 0 (rb_tail r + after_start) (len - after_start) dl2 b2"
      using overshooting [OF sl2(1) dl2(1) f2] by blast
    have c2: "length b2 = length b1" "\<And>j. j < len - after_start \<Longrightarrow> b2 ! (rb_tail r + after_start + j) = b1 ! j"
        "\<And>i. i < length b1 \<Longrightarrow> i < rb_tail r + after_start \<or> rb_head r \<le> i \<Longrightarrow> b2 ! i = b1 ! i"
      using b2(2) dl2(2) by (auto simp: copied_def)
    have "rb_wrote r (take len (drop start (rb_contents r))) b2" unfolding rb_wrote_def yl
    proof (intro conjI allI impI)
      show "length b2 = length (rb_buf r)" by (simp add: c1 c2)
      show "b2 ! rb_wrap r (rb_head r + i) = rb_buf r ! rb_wrap r (rb_head r + i)" if "i < rb_len r" for i
        using pos_live [OF that] c1(1) c1(3) [of "rb_wrap r (rb_head r + i)"] c2(3) [of "rb_wrap r (rb_head r + i)"] by auto
      show "b2 ! rb_wrap r (rb_tail r + j) = take len (drop start (rb_contents r)) ! j" if j: "j < len" for j
      proof (cases "j < after_start")
        case True
        have "rb_tail r + j < length b1" using True al h b c1(1) by linarith
        then have "b2 ! (rb_tail r + j) = rb_buf r ! (rb_head r + start + j)" using c2(3) [of "rb_tail r + j"] c1(2) [OF True] True by simp
        then show ?thesis using True j ys tj hj at by simp
      next
        case False
        then have w: "j - after_start < len - after_start" "rb_tail r + after_start + (j - after_start) = rb_tail r + j"
            "j - after_start < rb_tail r" "j - after_start < length (rb_buf r)"
          using j lt b by linarith+
        then show ?thesis using c2(2) [OF w(1)] c1(3) [OF w(4)] j ys tj hj at False by simp
      qed
    qed
    then show ?thesis using b1(1) b2(1) True by auto
  qed
qed

lemma rb_within_ok:
  assumes ok: "rb_ok r" and src: "start + len \<le> rb_len r" and room: "len \<le> rb_free r"
  shows "\<exists>b. rb_extend_from_within_unchecked k r start len = Some (r\<lparr>rb_buf := b, rb_tail := rb_wrap r (rb_tail r + len)\<rparr>)
      \<and> rb_wrote r (take len (drop start (rb_contents r))) b"
proof (cases "len = 0")
  case True
  then show ?thesis using rb_wrote_nothing [of r]
    by (intro exI [of _ "rb_buf r"]) (simp add: rb_extend_from_within_unchecked_def Let_def copy_bytes_overshooting.simps)
next
  case False
  then have pos: "0 < len" by simp
  have "0 < rb_cap r" using rb_free_pos [OF ok] room pos by linarith
  note b = rb_allocated [OF ok this] this
  have ht: "rb_head r < rb_tail r \<longleftrightarrow> rb_head r \<le> rb_tail r" using src pos by (auto simp: rb_len_cases)
  consider "rb_head r \<le> rb_tail r" | "\<not> rb_head r \<le> rb_tail r" "rb_head r + start \<ge> rb_cap r"
    | "\<not> rb_head r \<le> rb_tail r" "\<not> rb_head r + start \<ge> rb_cap r" by blast
  then show ?thesis
  proof cases
    case 1
    let ?a = "min len (rb_cap r - rb_tail r)" and ?sl = "rb_tail r - rb_head r - start + WILDCOPY_OVERLENGTH"
    have n: "start + len \<le> rb_tail r - rb_head r" "len \<le> rb_head r + (rb_cap r - rb_tail r) - 1"
      using 1 src room by (simp_all add: rb_len_cases rb_free_cases)
    have c: "?a \<le> ?sl" "rb_head r + start + ?sl \<le> rb_cap r + WILDCOPY_OVERLENGTH"
        "?a \<le> rb_cap r - rb_tail r + WILDCOPY_OVERLENGTH" "rb_tail r + (rb_cap r - rb_tail r + WILDCOPY_OVERLENGTH) \<le> rb_cap r + WILDCOPY_OVERLENGTH"
        "len - ?a \<le> ?sl - ?a" "rb_head r + start + ?a + (?sl - ?a) \<le> rb_cap r + WILDCOPY_OVERLENGTH" "len - ?a \<le> rb_head r"
    proof -
      obtain e where e: "rb_tail r = rb_head r + start + len + e" using n(1) pos by (metis add.assoc le_add_diff_inverse le_iff_add 1)
      obtain d where d: "rb_cap r = rb_tail r + d" using b(2) by (metis less_imp_add_positive)
      have x: "rb_tail r - rb_head r - start = len + e" "rb_cap r - rb_tail r = d" using e d by simp_all
      show "?a \<le> ?sl" "rb_head r + start + ?sl \<le> rb_cap r + WILDCOPY_OVERLENGTH"
        "?a \<le> rb_cap r - rb_tail r + WILDCOPY_OVERLENGTH" "rb_tail r + (rb_cap r - rb_tail r + WILDCOPY_OVERLENGTH) \<le> rb_cap r + WILDCOPY_OVERLENGTH"
        "len - ?a \<le> ?sl - ?a" "rb_head r + start + ?a + (?sl - ?a) \<le> rb_cap r + WILDCOPY_OVERLENGTH" "len - ?a \<le> rb_head r"
        using n(2) unfolding x by (auto simp: e d min_def)
    qed
    note w = within_flat [OF ok 1 src room pos c order_refl]
    show ?thesis using w unfolding rb_extend_from_within_unchecked_def Let_def
      by (elim exE conjE) (simp only: ht 1 if_True Option.bind.bind_lunit, blast)
  next
    case 2
    let ?s = "rb_wrap r (rb_head r + start)"
    have th: "rb_tail r < rb_head r" using 2 by simp
    have c: "len \<le> rb_tail r - ?s + WILDCOPY_OVERLENGTH" "?s + (rb_tail r - ?s + WILDCOPY_OVERLENGTH) \<le> rb_cap r + WILDCOPY_OVERLENGTH"
        "len \<le> rb_head r - rb_tail r"
      using 2 src room th b by (auto simp: rb_wrap_def rb_len_cases rb_free_cases)
    note w = within_low [OF ok 2 src room pos c order_refl]
    show ?thesis using w unfolding rb_extend_from_within_unchecked_def Let_def
      by (elim exE conjE) (simp only: ht 2 if_True if_False Option.bind.bind_lunit, blast)
  next
    case 3
    let ?a = "min len (rb_cap r - rb_head r - start)" and ?sl = "rb_cap r - rb_head r - start + WILDCOPY_OVERLENGTH"
    have th: "rb_tail r < rb_head r" "rb_head r + start < rb_cap r" using 3 by simp_all
    have n: "start + len \<le> rb_cap r - rb_head r + rb_tail r" "len < rb_head r - rb_tail r"
      using th src room pos by (simp_all add: rb_len_cases rb_free_cases)
    have c: "?a \<le> ?sl" "rb_head r + start + ?sl \<le> rb_cap r + WILDCOPY_OVERLENGTH" "?a \<le> rb_head r - rb_tail r" "rb_head r - rb_tail r \<le> rb_head r - rb_tail r"
        "len - ?a \<le> rb_tail r + WILDCOPY_OVERLENGTH" "rb_tail r + WILDCOPY_OVERLENGTH \<le> rb_cap r + WILDCOPY_OVERLENGTH"
        "len - ?a \<le> rb_head r - rb_tail r - ?a" "rb_tail r + ?a + (rb_head r - rb_tail r - ?a) \<le> rb_head r"
    proof -
      obtain d where d: "rb_cap r = rb_head r + start + d" using th(2) by (metis less_imp_add_positive)
      obtain e where e: "rb_head r = rb_tail r + len + e" using n(2) th(1) by (metis add.assoc le_iff_add less_imp_le le_add_diff_inverse)
      have x: "rb_cap r - rb_head r - start = d" "rb_head r - rb_tail r = len + e" "len \<le> d + rb_tail r" using n(1) d e by simp_all
      show "?a \<le> ?sl" "rb_head r + start + ?sl \<le> rb_cap r + WILDCOPY_OVERLENGTH" "?a \<le> rb_head r - rb_tail r" "rb_head r - rb_tail r \<le> rb_head r - rb_tail r"
        "len - ?a \<le> rb_tail r + WILDCOPY_OVERLENGTH" "rb_tail r + WILDCOPY_OVERLENGTH \<le> rb_cap r + WILDCOPY_OVERLENGTH"
        "len - ?a \<le> rb_head r - rb_tail r - ?a" "rb_tail r + ?a + (rb_head r - rb_tail r - ?a) \<le> rb_head r"
        using x(3) b(2) unfolding x by (auto simp: e d min_def)
    qed
    note w = within_high [OF ok 3(1) th(2) src room pos c]
    show ?thesis using w unfolding rb_extend_from_within_unchecked_def Let_def
      by (elim exE conjE) (simp only: ht 3 if_False Option.bind.bind_lunit, blast)
  qed
qed

end

section \<open>Fills\<close>

text \<open>Bytes stored into the free region: up to its upper end, the rest at the start.\<close>

lemma free_store_ok:
  assumes ok: "rb_ok r" and room: "length ys \<le> rb_free r" and parts: "free_slice_parts r = ((p1, f1), (p2, f2))"
  defines "n1 \<equiv> min f1 (length ys)"
  shows "\<exists>b1 b2. store_bytes (rb_buf r) p1 (take n1 ys) = Some b1
      \<and> (if n1 < length ys then store_bytes b1 p2 (drop n1 ys) else Some b1) = Some b2 \<and> rb_wrote r ys b2"
proof (cases "length ys = 0")
  case True
  have "p1 \<le> length (rb_buf r)" using parts ok by (auto simp: free_slice_parts_def rb_ok_def split: prod.splits if_splits)
  then show ?thesis using True by (simp add: store_bytes_def rb_wrote_nothing [of r])
next
  case False
  have "0 < rb_cap r" using rb_free_pos [OF ok] room False by linarith
  note b = rb_allocated [OF ok this] this
  have p: "p1 = rb_tail r" "p2 = 0" and f: "f1 = (if rb_tail r < rb_head r then rb_head r - rb_tail r else rb_cap r - rb_tail r)"
    using parts by (auto simp: free_slice_parts_def free_slice_lengths_def split: if_splits)
  have n1: "n1 \<le> length ys" "n1 \<le> f1" "rb_tail r + f1 \<le> rb_cap r" using b f by (auto simp: n1_def)
  obtain b1 where b1: "store_bytes (rb_buf r) p1 (take n1 ys) = Some b1"
    using store_bytes_Some [of p1 "take n1 ys" "rb_buf r"] n1 b p by auto
  note s1 = store_bytes_nth [OF b1]
  have rest: "length ys - n1 \<le> (if rb_tail r < rb_head r then 0 else rb_head r)" using room f b by (auto simp: n1_def rb_free_cases)
  obtain b2 where b2: "(if n1 < length ys then store_bytes b1 p2 (drop n1 ys) else Some b1) = Some b2"
  proof (cases "n1 < length ys")
    case True
    then show ?thesis using that store_bytes_Some [of p2 "drop n1 ys" b1] rest s1(1) b p by (auto split: if_splits)
  qed (use that in simp)
  have s2: "length b2 = length (rb_buf r)" "\<And>i. i < length (rb_buf r) \<Longrightarrow> b2 ! i = (if i < length ys - n1 then ys ! (n1 + i) else b1 ! i)"
    using b2 store_bytes_nth [of b1 p2 "drop n1 ys" b2] s1(1) p by (auto split: if_splits)
  have live: "b2 ! rb_wrap r (rb_head r + i) = rb_buf r ! rb_wrap r (rb_head r + i)" if i: "i < rb_len r" for i
  proof -
    let ?x = "rb_wrap r (rb_head r + i)"
    have "?x < length (rb_buf r)" "length ys - n1 \<le> ?x" "?x < rb_tail r \<or> rb_tail r + n1 \<le> ?x"
      using i b rest n1 f by (auto simp: rb_wrap_def rb_len_cases split: if_splits)
    then show ?thesis using s1(2) s2(2) p n1(1) by auto
  qed
  have new: "b2 ! rb_wrap r (rb_tail r + j) = ys ! j" if j: "j < length ys" for j
  proof (cases "j < n1")
    case True
    then have x: "rb_wrap r (rb_tail r + j) = rb_tail r + j" "rb_tail r + j < length (rb_buf r)" "length ys - n1 \<le> rb_tail r + j"
      using n1 b rest f by (auto simp: rb_wrap_def split: if_splits)
    then show ?thesis using s1(2) [OF x(2)] s2(2) [OF x(2)] True p n1(1) by simp
  next
    case False
    then have "n1 = f1" "\<not> rb_tail r < rb_head r" using j rest by (auto simp: n1_def split: if_splits)
    then have "rb_wrap r (rb_tail r + j) = j - n1" using False f b by (auto simp: rb_wrap_def)
    moreover have "j - n1 < length (rb_buf r)" using rest j b by (auto split: if_splits)
    moreover have "j - n1 < length ys - n1" using False j by linarith
    ultimately show ?thesis using s2(2) False by simp
  qed
  show ?thesis using b1 b2 s2(1) live new by (auto simp: rb_wrote_def)
qed

lemma rb_extend_and_fill_ok:
  assumes ok: "rb_ok r" and wr: "rb_writable r n"
  shows "\<exists>r'. rb_extend_and_fill r c n = Some r' \<and> rb_ok r' \<and> rb_contents r' = rb_contents r @ replicate n c \<and> rb_same_limits r r'
      \<and> (rb_cap r < rb_cap r' \<or> rb_cap r' = rb_cap r \<and> rb_head r' = rb_head r)"
proof (cases "n = 0")
  case True
  then show ?thesis using ok by (simp add: rb_extend_and_fill_def)
next
  case False
  obtain q where q: "rb_reserve r n = Some q" "rb_ok q" "rb_contents q = rb_contents r" "n \<le> rb_free q" "rb_same_limits r q"
      "q = r \<or> rb_cap r < rb_cap q"
    using rb_reserve_ok [OF ok wr] by blast
  obtain p1 f1 p2 f2 where parts: "free_slice_parts q = ((p1, f1), (p2, f2))" by (metis prod.exhaust)
  obtain b1 b2 where b: "store_bytes (rb_buf q) p1 (replicate (min f1 n) c) = Some b1"
      "(if min f1 n < n then store_bytes b1 p2 (replicate (n - min f1 n) c) else Some b1) = Some b2" "rb_wrote q (replicate n c) b2"
    using free_store_ok [OF q(2) _ parts, of "replicate n c"] q(4)
    by (simp only: length_replicate take_replicate drop_replicate min.left_idem min.commute min.left_commute) (auto simp: ac_simps)
  have "rb_extend_and_fill r c n = Some (q\<lparr>rb_buf := b2, rb_tail := rb_wrap q (rb_tail q + n)\<rparr>)"
    using False q(1) b(1,2) unfolding rb_extend_and_fill_def Let_def write_bytes_def
    by (simp only: parts prod.case if_False Option.bind.bind_lunit)
  moreover have "rb_same_limits r (q\<lparr>rb_buf := b2, rb_tail := rb_wrap q (rb_tail q + n)\<rparr>)" using q(5) by (simp add: rb_same_limits_def)
  moreover have "rb_cap r < rb_cap q \<or> rb_cap q = rb_cap r \<and> rb_head q = rb_head r" using q(6) by auto
  ultimately show ?thesis using rb_wrote_append [OF q(2) b(3), of n] q(3,4) by auto
qed

lemma rb_push_back_ok:
  assumes ok: "rb_ok r" and wr: "rb_writable r 1"
  shows "\<exists>r'. rb_push_back r c = Some r' \<and> rb_ok r' \<and> rb_contents r' = rb_contents r @ [c]"
proof -
  obtain q where q: "rb_reserve r 1 = Some q" "rb_ok q" "rb_contents q = rb_contents r" "1 \<le> rb_free q"
    using rb_reserve_ok [OF ok wr] by blast
  have "0 < rb_cap q" using rb_free_pos [OF q(2)] q(4) by linarith
  note b = rb_allocated [OF q(2) this]
  obtain buf where s: "store_bytes (rb_buf q) (rb_tail q) [c] = Some buf"
    using store_bytes_Some [of "rb_tail q" "[c]" "rb_buf q"] b by auto
  have "rb_wrote q [c] buf" unfolding rb_wrote_def
  proof (intro conjI allI impI)
    fix i assume i: "i < rb_len q"
    then have "rb_wrap q (rb_head q + i) < length (rb_buf q)" "rb_wrap q (rb_head q + i) \<noteq> rb_tail q"
      using b by (auto simp: rb_wrap_def rb_len_cases split: if_splits)
    then show "buf ! rb_wrap q (rb_head q + i) = rb_buf q ! rb_wrap q (rb_head q + i)" using store_bytes_nth(2) [OF s] by auto
  next
    fix j assume "j < length [c]"
    then show "buf ! rb_wrap q (rb_tail q + j) = [c] ! j" using store_bytes_nth(2) [OF s, of "rb_tail q"] b by (simp add: rb_wrap_def)
  qed (rule store_bytes_nth(1) [OF s])
  then show ?thesis using rb_wrote_append [OF q(2), of "[c]" buf 1] q s by (auto simp: rb_push_back_def)
qed

section \<open>Reading from a source\<close>

lemma store_twice:
  assumes "store_bytes mem dst xs = Some m" "length ys = length xs"
  shows "store_bytes m dst ys = store_bytes mem dst ys"
  using assms by (auto simp: store_bytes_def split: if_splits)

lemma rb_wrote_keep: "rb_ok r \<Longrightarrow> rb_wrote r ys b \<Longrightarrow> rb_ok (r\<lparr>rb_buf := b\<rparr>) \<and> rb_contents (r\<lparr>rb_buf := b\<rparr>) = rb_contents r"
  by (auto simp: rb_wrote_def rb_ok_def rb_contents_def rb_len_cases rb_wrap_def)

text \<open>What \<open>read_exact\<close> promises: bytes in order, and on success as many as asked for.\<close>

locale exact_reader =
  fixes read_exact :: "'r \<Rightarrow> nat \<Rightarrow> 'r \<times> (u8 list, 'e) result" and remaining :: "'r \<Rightarrow> u8 list"
  assumes exact: "read_exact rd n = (rd', Ok xs) \<Longrightarrow> length xs = n \<and> remaining rd = xs @ remaining rd'"
    and no_panic: "snd (read_exact rd n) \<noteq> Panic"
begin

lemma rb_extend_from_reader_ok:
  assumes ok: "rb_ok r" and wr: "rb_writable r n"
  shows "\<exists>r' rd' res. rb_extend_from_reader read_exact r rd n = Some (r', rd', res) \<and> rb_ok r' \<and> rb_same_limits r r'
      \<and> (case res of Ok u \<Rightarrow> \<exists>xs. length xs = n \<and> remaining rd = xs @ remaining rd' \<and> rb_contents r' = rb_contents r @ xs
         | Err e \<Rightarrow> rb_contents r' = rb_contents r | Panic \<Rightarrow> False)"
proof (cases "n = 0")
  case True
  then show ?thesis using ok by (simp add: rb_extend_from_reader_def)
next
  case False
  obtain q where q: "rb_reserve r n = Some q" "rb_ok q" "rb_contents q = rb_contents r" "n \<le> rb_free q" "rb_same_limits r q"
    using rb_reserve_ok [OF ok wr] by blast
  obtain p1 f1 p2 f2 where parts: "free_slice_parts q = ((p1, f1), (p2, f2))" by (metis prod.exhaust)
  define n1 where "n1 = min f1 n"
  have n1: "n1 \<le> n" "n1 \<le> f1" by (simp_all add: n1_def)
  have st: "\<exists>b1 b2. store_bytes (rb_buf q) p1 xs = Some b1 \<and> (if n1 < n then store_bytes b1 p2 ys else Some b1) = Some b2 \<and> rb_wrote q (xs @ ys) b2"
    if "length xs = n1" "length ys = n - n1" for xs ys
  proof -
    have l: "length (xs @ ys) = n" "take n1 (xs @ ys) = xs" "drop n1 (xs @ ys) = ys" using that n1(1) by simp_all
    then show ?thesis using free_store_ok [OF q(2) _ parts, of "xs @ ys"] q(4) by (simp only: l n1_def [symmetric])
  qed
  have lim: "rb_same_limits r (q\<lparr>rb_buf := b\<rparr>)" "rb_same_limits r (q\<lparr>rb_buf := b, rb_tail := t\<rparr>)" for b t
    using q(5) by (simp_all add: rb_same_limits_def)
  let ?z = "replicate n1 (0 :: u8)" and ?z2 = "replicate (n - n1) (0 :: u8)"
  obtain b0 where b0: "write_bytes (rb_buf q) p1 0 n1 = Some b0" "rb_wrote q ?z b0"
  proof -
    have "min f1 n1 = n1" using n1(2) by simp
    then show ?thesis using free_store_ok [OF q(2) _ parts, of ?z] q(4) n1 that by (auto simp: write_bytes_def)
  qed
  obtain rd1 res1 where r1: "read_exact rd n1 = (rd1, res1)" by fastforce
  show ?thesis
  proof (cases res1)
    case (Ok s1)
    then have e1: "length s1 = n1" "remaining rd = s1 @ remaining rd1" using exact r1 by blast+
    have again: "store_bytes b0 p1 s1 = store_bytes (rb_buf q) p1 s1" using store_twice b0(1) e1(1) by (simp add: write_bytes_def)
    show ?thesis
    proof (cases "n1 < n")
      case False
      then have "n - n1 = 0" using n1(1) by simp
      then obtain b1 where b1: "store_bytes (rb_buf q) p1 s1 = Some b1" "rb_wrote q s1 b1" using st [OF e1(1), of "[]"] False by auto
      then have "rb_extend_from_reader read_exact r rd n = Some (q\<lparr>rb_buf := b1, rb_tail := rb_wrap q (rb_tail q + n)\<rparr>, rd1, Ok ())"
        using \<open>n \<noteq> 0\<close> q(1) b0(1) r1 Ok again False by (simp add: rb_extend_from_reader_def parts Let_def n1_def [symmetric])
      then show ?thesis using rb_wrote_append [OF q(2) b1(2), of n] e1 q(3,4) lim n1(1) False by auto
    next
      case True
      obtain b1 z where b1: "store_bytes (rb_buf q) p1 s1 = Some b1" "write_bytes b1 p2 0 (n - n1) = Some z" "rb_wrote q (s1 @ ?z2) z"
        using st [OF e1(1), of ?z2] True by (auto simp: write_bytes_def)
      obtain rd2 res2 where r2: "read_exact rd1 (n - n1) = (rd2, res2)" by fastforce
      show ?thesis
      proof (cases res2)
        case Ok2: (Ok s2)
        then have e2: "length s2 = n - n1" "remaining rd1 = s2 @ remaining rd2" using exact r2 by blast+
        obtain b2 where b2: "store_bytes b1 p2 s2 = Some b2" "rb_wrote q (s1 @ s2) b2" using st [OF e1(1) e2(1)] True b1(1) by auto
        have "store_bytes z p2 s2 = Some b2" using store_twice [of b1 p2 ?z2 z s2] b1(2) b2(1) e2(1) by (simp add: write_bytes_def)
        then have "rb_extend_from_reader read_exact r rd n = Some (q\<lparr>rb_buf := b2, rb_tail := rb_wrap q (rb_tail q + n)\<rparr>, rd2, Ok ())"
          using \<open>n \<noteq> 0\<close> q(1) b0(1) r1 r2 Ok Ok2 again b1 True by (simp add: rb_extend_from_reader_def parts Let_def n1_def [symmetric])
        then show ?thesis using rb_wrote_append [OF q(2) b2(2), of n] e1 e2 q(3,4) lim n1(1) by auto
      next
        case (Err e)
        then have "rb_extend_from_reader read_exact r rd n = Some (q\<lparr>rb_buf := z\<rparr>, rd2, Err e)"
          using \<open>n \<noteq> 0\<close> q(1) b0(1) r1 r2 Ok again b1 True by (simp add: rb_extend_from_reader_def parts Let_def n1_def [symmetric])
        then show ?thesis using rb_wrote_keep [OF q(2) b1(3)] q(3) lim by auto
      qed (use no_panic [of rd1 "n - n1"] r2 in auto)
    qed
  next
    case (Err e)
    then have "rb_extend_from_reader read_exact r rd n = Some (q\<lparr>rb_buf := b0\<rparr>, rd1, Err e)"
      using False q(1) b0(1) r1 by (simp add: rb_extend_from_reader_def parts Let_def n1_def [symmetric])
    then show ?thesis using rb_wrote_keep [OF q(2) b0(2)] q(3) lim by auto
  qed (use no_panic [of rd n1] r1 in auto)
qed

end

text \<open>The reader of a byte slice.\<close>

datatype error_kind = Interrupted | UnexpectedEof | WouldBlock | Other | WriteAllEof

fun slice_read_exact :: "u8 list \<Rightarrow> nat \<Rightarrow> u8 list \<times> (u8 list, error_kind) result" where
  "slice_read_exact data n = (if n \<le> length data then (drop n data, Ok (take n data)) else (data, Err UnexpectedEof))"

interpretation slice_reader: exact_reader slice_read_exact "\<lambda>data. data"
  by unfold_locales (auto split: if_splits)

end
