(* ===== verification/Ring_Branchless.thy ===== *)
theory Ring_Branchless
  imports Ring_Buffer
begin

text \<open>
  The branch-free copy of the ring's own bytes, its sixteen-way dispatch and the copies it is tested against.
\<close>

section \<open>The copies between the two slices\<close>

definition copy_if :: "bool \<Rightarrow> (mem \<Rightarrow> mem option) \<Rightarrow> mem \<Rightarrow> mem option" where
  "copy_if b f mem = (if b then f mem else Some mem)"

definition copy_without_checks :: "mem \<Rightarrow> nat \<Rightarrow> nat \<Rightarrow> nat \<Rightarrow> nat \<Rightarrow> nat \<Rightarrow> nat \<Rightarrow> nat \<Rightarrow> nat \<Rightarrow> mem option" where
  "copy_without_checks mem m1_ptr m2_ptr f1_ptr f2_ptr m1_in_f1 m2_in_f1 m1_in_f2 m2_in_f2 =
     Option.bind (move_block m1_in_f1 mem m1_ptr f1_ptr) (\<lambda>mem.
     Option.bind (move_block m2_in_f1 mem m2_ptr (f1_ptr + m1_in_f1)) (\<lambda>mem.
     Option.bind (move_block m1_in_f2 mem (m1_ptr + m1_in_f1) f2_ptr) (\<lambda>mem.
     move_block m2_in_f2 mem (m2_ptr + m2_in_f1) (f2_ptr + m1_in_f2))))"

definition copy_with_checks :: "copy_ops \<Rightarrow> mem \<Rightarrow> nat \<Rightarrow> nat \<Rightarrow> nat \<Rightarrow> nat \<Rightarrow> nat \<Rightarrow> nat \<Rightarrow> nat \<Rightarrow> nat \<Rightarrow> mem option" where
  "copy_with_checks k mem m1_ptr m2_ptr f1_ptr f2_ptr m1_in_f1 m2_in_f1 m1_in_f2 m2_in_f2 =
     (let m1_src_cap = m1_in_f1 + m1_in_f2; m2_src_cap = m2_in_f1 + m2_in_f2;
          f1_dst_cap = m1_in_f1 + m2_in_f1; f2_dst_cap = m1_in_f2 + m2_in_f2 in
      Option.bind (copy_if (m1_in_f1 \<noteq> 0) (\<lambda>mem. copy_bytes_overshooting k mem (m1_ptr, m1_src_cap) (f1_ptr, f1_dst_cap) m1_in_f1) mem) (\<lambda>mem.
      Option.bind (copy_if (m2_in_f1 \<noteq> 0) (\<lambda>mem. copy_bytes_overshooting k mem (m2_ptr, m2_src_cap) (f1_ptr + m1_in_f1, m2_in_f1) m2_in_f1) mem) (\<lambda>mem.
      Option.bind (copy_if (m1_in_f2 \<noteq> 0) (\<lambda>mem. copy_bytes_overshooting k mem (m1_ptr + m1_in_f1, m1_in_f2) (f2_ptr, f2_dst_cap) m1_in_f2) mem) (\<lambda>mem.
      copy_if (m2_in_f2 \<noteq> 0) (\<lambda>mem. copy_bytes_overshooting k mem (m2_ptr + m2_in_f1, m2_in_f2) (f2_ptr + m1_in_f2, m2_in_f2) m2_in_f2) mem))))"

text \<open>A case the source marks unreachable has no result.\<close>

definition copy_with_nobranch_check :: "copy_ops \<Rightarrow> mem \<Rightarrow> nat \<Rightarrow> nat \<Rightarrow> nat \<Rightarrow> nat \<Rightarrow> nat \<Rightarrow> nat \<Rightarrow> nat \<Rightarrow> nat \<Rightarrow> mem option" where
  "copy_with_nobranch_check k mem m1_ptr m2_ptr f1_ptr f2_ptr m1_in_f1 m2_in_f1 m1_in_f2 m2_in_f2 =
     (let m1_src_cap = m1_in_f1 + m1_in_f2; m2_src_cap = m2_in_f1 + m2_in_f2;
          f1_dst_cap = m1_in_f1 + m2_in_f1; f2_dst_cap = m1_in_f2 + m2_in_f2;
          branch = of_bool (m1_in_f1 > 0) + 2 * of_bool (m2_in_f1 > 0) + 4 * of_bool (m1_in_f2 > 0) + 8 * of_bool (m2_in_f2 > 0) :: nat;
          m1_f1 = (\<lambda>mem. copy_bytes_overshooting k mem (m1_ptr, m1_src_cap) (f1_ptr, f1_dst_cap) m1_in_f1);
          m2_f1_first = (\<lambda>mem. copy_bytes_overshooting k mem (m2_ptr, m2_src_cap) (f1_ptr, f1_dst_cap) m2_in_f1);
          m1_f2_first = (\<lambda>mem. copy_bytes_overshooting k mem (m1_ptr, m1_src_cap) (f2_ptr, f2_dst_cap) m1_in_f2);
          m2_f2_first = (\<lambda>mem. copy_bytes_overshooting k mem (m2_ptr, m2_src_cap) (f2_ptr, f2_dst_cap) m2_in_f2);
          m2_f1_next = (\<lambda>mem. copy_bytes_overshooting k mem (m2_ptr, m2_src_cap) (f1_ptr + m1_in_f1, m2_in_f1) m2_in_f1);
          m1_f2_rest = (\<lambda>mem. copy_bytes_overshooting k mem (m1_ptr + m1_in_f1, m1_in_f2) (f2_ptr, f2_dst_cap) m1_in_f2);
          m2_f2_rest = (\<lambda>mem. copy_bytes_overshooting k mem (m2_ptr + m2_in_f1, m2_in_f2) (f2_ptr, f2_dst_cap) m2_in_f2);
          m2_f2_next = (\<lambda>mem. copy_bytes_overshooting k mem (m2_ptr, m2_src_cap) (f2_ptr + m1_in_f2, m2_in_f2) m2_in_f2) in
      if branch = 0 then Some mem
      else if branch = 1 then m1_f1 mem
      else if branch = 2 then m2_f1_first mem
      else if branch = 4 then m1_f2_first mem
      else if branch = 8 then m2_f2_first mem
      else if branch = 3 then Option.bind (m1_f1 mem) m2_f1_next
      else if branch = 5 then Option.bind (m1_f1 mem) m1_f2_rest
      else if branch = 9 then Option.bind (m1_f1 mem) m2_f2_first
      else if branch = 10 then Option.bind (m2_f1_first mem) m2_f2_rest
      else if branch = 12 then Option.bind (m1_f2_first mem) m2_f2_next
      else if branch = 11 then Option.bind (m1_f1 mem) (\<lambda>mem. Option.bind (m2_f1_next mem) m2_f2_rest)
      else if branch = 13 then Option.bind (m1_f1 mem) (\<lambda>mem. Option.bind (m1_f2_rest mem) m2_f2_next)
      else None)"

definition rb_extend_from_within_unchecked_branchless :: "copy_ops \<Rightarrow> ring_buffer \<Rightarrow> nat \<Rightarrow> nat \<Rightarrow> ring_buffer option" where
  "rb_extend_from_within_unchecked_branchless k r start len =
     (case data_slice_parts r of ((s1_ptr, s1_len), (s2_ptr, s2_len)) \<Rightarrow>
      case free_slice_parts r of ((f1_ptr, f1_len), (f2_ptr, f2_len)) \<Rightarrow>
      let start_in_s1 = min s1_len start; end_in_s1 = min s1_len (start + len);
          m1_ptr = s1_ptr + start_in_s1; m1_len = end_in_s1 - start_in_s1;
          start_in_s2 = start - s1_len; end_in_s2 = start_in_s2 + (len - m1_len);
          m2_ptr = s2_ptr + start_in_s2; m2_len = end_in_s2 - start_in_s2;
          m1_in_f1 = min m1_len f1_len; m1_in_f2 = m1_len - m1_in_f1;
          m2_in_f1 = min (f1_len - m1_in_f1) m2_len; m2_in_f2 = m2_len - m2_in_f1 in
      Option.bind (copy_with_nobranch_check k (rb_buf r) m1_ptr m2_ptr f1_ptr f2_ptr m1_in_f1 m2_in_f1 m1_in_f2 m2_in_f2) (\<lambda>buf.
      Some (r\<lparr>rb_buf := buf, rb_tail := rb_wrap r (rb_tail r + len)\<rparr>)))"

section \<open>The dispatch is the checked copy\<close>

lemma nobranch_checked:
  assumes "m1_in_f2 = 0 \<or> m2_in_f1 = 0"
  shows "copy_with_nobranch_check k mem m1 m2 f1 f2 m1_in_f1 m2_in_f1 m1_in_f2 m2_in_f2
      = copy_with_checks k mem m1 m2 f1 f2 m1_in_f1 m2_in_f1 m1_in_f2 m2_in_f2"
  using assms
  by (cases "m1_in_f1 = 0"; cases "m2_in_f1 = 0"; cases "m1_in_f2 = 0"; cases "m2_in_f2 = 0")
    (simp_all add: copy_with_nobranch_check_def copy_with_checks_def copy_if_def)

text \<open>
  On every mask that can occur (bytes of the second part never share the first free slice while bytes of the
  first part are left for the second), the sixteen-way dispatch makes exactly the copies of \<open>copy_with_checks\<close>, the
  reference its test compares it with, spans included.
\<close>

theorem nobranch_equals_checked:
  assumes "m1_in_f2 = 0 \<or> m2_in_f1 = 0"
  shows "copy_with_nobranch_check k mem m1 m2 f1 f2 m1_in_f1 m2_in_f1 m1_in_f2 m2_in_f2
      = copy_with_checks k mem m1 m2 f1 f2 m1_in_f1 m2_in_f1 m1_in_f2 m2_in_f2"
  using assms by (rule nobranch_checked)

theorem nobranch_equals_checked_witness:
  "copy_with_nobranch_check sse2_copy [1, 2, 3, 4, 0, 0, 0, 0] 0 2 4 0 2 1 0 0 = copy_with_checks sse2_copy [1, 2, 3, 4, 0, 0, 0, 0] 0 2 4 0 2 1 0 0"
  by (rule nobranch_equals_checked) simp

section \<open>What the branch-free copy does\<close>

lemma checked_two_targets:
  "0 < a \<Longrightarrow> copy_with_checks k mem m1 m2 f1 f2 a 0 c 0
     = Option.bind (copy_bytes_overshooting k mem (m1, a + c) (f1, a) a)
         (\<lambda>mem. if 0 < c then copy_bytes_overshooting k mem (m1 + a, c) (f2, c) c else Some mem)"
  by (simp add: copy_with_checks_def copy_if_def Let_def)

lemma checked_two_sources:
  "0 < a \<Longrightarrow> copy_with_checks k mem m1 m2 f1 f2 a c 0 0
     = Option.bind (copy_bytes_overshooting k mem (m1, a) (f1, a + c) a)
         (\<lambda>mem. if 0 < c then copy_bytes_overshooting k mem (m2, c) (f1 + a, c) c else Some mem)"
  by (simp add: copy_with_checks_def copy_if_def Let_def)

lemma checked_second_source:
  "0 < c \<Longrightarrow> copy_with_checks k mem m1 m2 f1 f2 0 c 0 0 = copy_bytes_overshooting k mem (m2, c) (f1, c) c"
  by (simp add: copy_with_checks_def copy_if_def Let_def)

lemma branchless_flat:
  assumes "rb_head r \<le> rb_tail r" "start + len \<le> rb_tail r - rb_head r"
  defines "a \<equiv> min len (rb_cap r - rb_tail r)"
  shows "rb_extend_from_within_unchecked_branchless k r start len
      = Option.bind (copy_with_nobranch_check k (rb_buf r) (rb_head r + start) 0 (rb_tail r) 0 a 0 (len - a) 0)
          (\<lambda>buf. Some (r\<lparr>rb_buf := buf, rb_tail := rb_wrap r (rb_tail r + len)\<rparr>))"
proof -
  have m: "min (rb_tail r - rb_head r) start = start" "min (rb_tail r - rb_head r) (start + len) = start + len" "start - (rb_tail r - rb_head r) = 0"
    using assms(2) by simp_all
  have nl: "(rb_tail r \<ge> rb_head r) = True" "(rb_tail r < rb_head r) = False" using assms(1) by simp_all
  show ?thesis
    by (simp only: rb_extend_from_within_unchecked_branchless_def data_slice_parts_def data_slice_lengths_def free_slice_parts_def
        free_slice_lengths_def Let_def prod.case nl if_True if_False m add_diff_cancel_left' diff_self_eq_0 add_0 min_0R a_def [symmetric])
qed

lemma branchless_wrapped:
  fixes start :: nat
  assumes "rb_tail r < rb_head r" "len \<le> rb_head r - rb_tail r"
  defines "a \<equiv> min (rb_cap r - rb_head r) (start + len) - min (rb_cap r - rb_head r) start"
  shows "rb_extend_from_within_unchecked_branchless k r start len
      = Option.bind (copy_with_nobranch_check k (rb_buf r) (rb_head r + min (rb_cap r - rb_head r) start) (start - (rb_cap r - rb_head r)) (rb_tail r) 0 a (len - a) 0 0)
          (\<lambda>buf. Some (r\<lparr>rb_buf := buf, rb_tail := rb_wrap r (rb_tail r + len)\<rparr>))"
proof -
  have "a \<le> len" by (auto simp: a_def)
  then have m: "min a (rb_head r - rb_tail r) = a" "min (rb_head r - rb_tail r - a) (len - a) = len - a" using assms(2) by simp_all
  have nl: "(rb_tail r \<ge> rb_head r) = False" "(rb_tail r < rb_head r) = True" using assms(1) by simp_all
  show ?thesis
    by (simp only: rb_extend_from_within_unchecked_branchless_def data_slice_parts_def data_slice_lengths_def free_slice_parts_def
        free_slice_lengths_def Let_def prod.case nl if_True if_False a_def [symmetric] m add_diff_cancel_left' diff_self_eq_0 add_0)
qed

context copy_kernel
begin

lemma rb_branchless_ok:
  assumes ok: "rb_ok r" and src: "start + len \<le> rb_len r" and room: "len \<le> rb_free r"
  shows "\<exists>b. rb_extend_from_within_unchecked_branchless k r start len = Some (r\<lparr>rb_buf := b, rb_tail := rb_wrap r (rb_tail r + len)\<rparr>)
      \<and> rb_wrote r (take len (drop start (rb_contents r))) b"
proof (cases "len = 0")
  case True
  then show ?thesis using rb_wrote_nothing [of r]
    by (intro exI [of _ "rb_buf r"]) (simp add: rb_extend_from_within_unchecked_branchless_def copy_with_nobranch_check_def case_prod_unfold Let_def)
next
  case False
  then have pos: "0 < len" by simp
  have "0 < rb_cap r" using rb_free_pos [OF ok] room pos by linarith
  note b = rb_allocated [OF ok this] this
  show ?thesis
  proof (cases "rb_head r \<le> rb_tail r")
    case True
    define a where "a = min len (rb_cap r - rb_tail r)"
    have a: "0 < a" "a \<le> len" "a \<le> rb_cap r - rb_tail r" "len - a = 0 \<or> a = rb_cap r - rb_tail r" using pos b by (auto simp: a_def)
    have n: "start + len \<le> rb_tail r - rb_head r" "len \<le> rb_head r + (rb_cap r - rb_tail r) - 1"
      using True src room by (simp_all add: rb_len_cases rb_free_cases)
    have c: "a \<le> len" "rb_head r + start + len \<le> rb_cap r + WILDCOPY_OVERLENGTH" "a \<le> a" "rb_tail r + a \<le> rb_cap r + WILDCOPY_OVERLENGTH"
        "len - a \<le> len - a" "rb_head r + start + a + (len - a) \<le> rb_cap r + WILDCOPY_OVERLENGTH" "len - a \<le> len - a" "len - a \<le> rb_head r"
      using n a b by auto
    obtain b1 b2 where w: "copy_bytes_overshooting k (rb_buf r) (rb_head r + start, len) (rb_tail r, a) a = Some b1"
        "(if a < len then copy_bytes_overshooting k b1 (rb_head r + start + a, len - a) (0, len - a) (len - a) else Some b1) = Some b2"
        "rb_wrote r (take len (drop start (rb_contents r))) b2"
      using within_flat [OF ok True src room pos, folded a_def, OF c] by blast
    have "copy_with_nobranch_check k (rb_buf r) (rb_head r + start) 0 (rb_tail r) 0 a 0 (len - a) 0 = Some b2"
      using w(1,2) a(1,2) by (simp add: nobranch_checked checked_two_targets)
    then show ?thesis using w(3) branchless_flat [OF True n(1), of k] by (auto simp: a_def [symmetric])
  next
    case False
    then have th: "rb_tail r < rb_head r" by simp
    have n: "start + len \<le> rb_cap r - rb_head r + rb_tail r" "len < rb_head r - rb_tail r"
      using th src room pos by (simp_all add: rb_len_cases rb_free_cases)
    note br = branchless_wrapped [OF th less_imp_le [OF n(2)], of k start]
    show ?thesis
    proof (cases "rb_head r + start < rb_cap r")
      case True
      define a where "a = min len (rb_cap r - rb_head r - start)"
      have a: "0 < a" "a \<le> len" "a \<le> rb_cap r - rb_head r - start" using pos True by (auto simp: a_def)
      have aa: "min (rb_cap r - rb_head r) (start + len) - start = a" "min (rb_cap r - rb_head r) start = start"
          "start - (rb_cap r - rb_head r) = 0"
        using True by (auto simp: a_def min_def)
      have c: "a \<le> a" "rb_head r + start + a \<le> rb_cap r + WILDCOPY_OVERLENGTH" "a \<le> len" "len \<le> rb_head r - rb_tail r"
          "len - a \<le> len - a" "len - a \<le> rb_cap r + WILDCOPY_OVERLENGTH" "len - a \<le> len - a" "rb_tail r + a + (len - a) \<le> rb_head r"
        using n a b True by auto
      obtain b1 b2 where w: "copy_bytes_overshooting k (rb_buf r) (rb_head r + start, a) (rb_tail r, len) a = Some b1"
          "(if a < len then copy_bytes_overshooting k b1 (0, len - a) (rb_tail r + a, len - a) (len - a) else Some b1) = Some b2"
          "rb_wrote r (take len (drop start (rb_contents r))) b2"
        using within_high [OF ok False True src room pos, folded a_def, OF c] by blast
      have "copy_with_nobranch_check k (rb_buf r) (rb_head r + start) 0 (rb_tail r) 0 a (len - a) 0 0 = Some b2"
        using w(1,2) a(1,2) by (simp add: nobranch_checked checked_two_sources)
      then show ?thesis using w(3) br by (auto simp: aa)
    next
      case nf: False
      have aa: "min (rb_cap r - rb_head r) (start + len) - min (rb_cap r - rb_head r) start = 0" "start - (rb_cap r - rb_head r) = rb_wrap r (rb_head r + start)"
        using nf b by (auto simp: min_def rb_wrap_def)
      have c: "len \<le> len" "rb_wrap r (rb_head r + start) + len \<le> rb_cap r + WILDCOPY_OVERLENGTH" "len \<le> len" "len \<le> rb_head r - rb_tail r"
        using n nf b by (auto simp: rb_wrap_def)
      obtain b2 where w: "copy_bytes_overshooting k (rb_buf r) (rb_wrap r (rb_head r + start), len) (rb_tail r, len) len = Some b2"
          "rb_wrote r (take len (drop start (rb_contents r))) b2"
        using within_low [OF ok False _ src room pos c] nf by auto
      have "copy_with_nobranch_check k (rb_buf r) m1 (rb_wrap r (rb_head r + start)) (rb_tail r) 0 0 len 0 0 = Some b2" for m1
        using w(1) pos by (simp add: nobranch_checked checked_second_source)
      then show ?thesis using w(2) br by (auto simp: aa)
    qed
  qed
qed

end

end
