(* ===== verification/Buffer_Backend.thy ===== *)
theory Buffer_Backend
  imports Ring_Branchless
begin

text \<open>
  The trait \<open>BufferBackend\<close> of \<^verbatim>\<open>zstd/src/decoding/buffer_backend.rs\<close> as a record of operations, its contract as the
  locale \<open>buffer_backend\<close>, and the two growing backends: the ring buffer and the flat buffer of \<^verbatim>\<open>flat_buf.rs\<close>.
  The contract speaks of the byte list a buffer stands for; both backends interpret it with every copy kernel.
\<close>

section \<open>The trait\<close>

record 'b backend =
  bb_new :: 'b
  bb_clear :: "'b \<Rightarrow> 'b"
  bb_reserve :: "'b \<Rightarrow> nat \<Rightarrow> 'b option"
  bb_reserve_exact :: "'b \<Rightarrow> nat \<Rightarrow> 'b option"
  bb_try_reserve :: "'b \<Rightarrow> nat \<Rightarrow> ('b, backend_overflow) result"
  bb_set_max_capacity :: "'b \<Rightarrow> nat \<Rightarrow> 'b"
  bb_set_growth_limit :: "'b \<Rightarrow> nat \<Rightarrow> 'b"
  bb_len :: "'b \<Rightarrow> nat"
  bb_cap :: "'b \<Rightarrow> nat"
  bb_tail :: "'b \<Rightarrow> nat"
  bb_set_tail :: "'b \<Rightarrow> nat \<Rightarrow> 'b"
  bb_extend :: "'b \<Rightarrow> u8 list \<Rightarrow> 'b option"
  bb_extend_and_fill :: "'b \<Rightarrow> u8 \<Rightarrow> nat \<Rightarrow> 'b option"
  bb_extend_from_within_unchecked :: "'b \<Rightarrow> nat \<Rightarrow> nat \<Rightarrow> 'b option"
  bb_extend_from_within_unchecked_branchless :: "'b \<Rightarrow> nat \<Rightarrow> nat \<Rightarrow> 'b option"
  bb_as_slices :: "'b \<Rightarrow> (u8 list \<times> u8 list) option"
  bb_drop_first_n :: "'b \<Rightarrow> nat \<Rightarrow> 'b"

text \<open>The defaults of the fallible writes, which the growing backends keep.\<close>

definition try_extend :: "'b backend \<Rightarrow> 'b \<Rightarrow> u8 list \<Rightarrow> ('b, backend_overflow) result" where
  "try_extend B b data = or_panic (bb_extend B b data)"

definition try_extend_and_fill :: "'b backend \<Rightarrow> 'b \<Rightarrow> u8 \<Rightarrow> nat \<Rightarrow> ('b, backend_overflow) result" where
  "try_extend_and_fill B b fill_with fill_length = or_panic (bb_extend_and_fill B b fill_with fill_length)"

definition try_extend_from_within :: "'b backend \<Rightarrow> 'b \<Rightarrow> nat \<Rightarrow> nat \<Rightarrow> ('b, backend_overflow) result" where
  "try_extend_from_within B b start len =
     (let err = Err \<lparr>bo_tail = bb_tail B b, bo_requested = len, bo_capacity = bb_cap B b\<rparr> in
      case checked_add start len of
        None \<Rightarrow> err
      | Some src_end \<Rightarrow>
          if src_end > bb_len B b then err
          else rbind (or_panic (bb_reserve B b len)) (\<lambda>b. or_panic (bb_extend_from_within_unchecked B b start len)))"

section \<open>The contract\<close>

text \<open>
  \<open>contents\<close> is what a buffer holds, \<open>writable b n\<close> that growing by \<open>n\<close> bytes stays inside the address space, \<open>limit b\<close>
  the live bytes a reservation may reach, \<open>same_base b b'\<close> that a write cursor taken on \<open>b\<close> still means the same position
  of \<open>b'\<close>. \<open>wrote\<close> is a write of \<open>ys\<close>, or a reservation when \<open>ys\<close> is empty.
\<close>

definition wrote :: "'b backend \<Rightarrow> ('b \<Rightarrow> bool) \<Rightarrow> ('b \<Rightarrow> u8 list) \<Rightarrow> ('b \<Rightarrow> nat \<Rightarrow> bool) \<Rightarrow> ('b \<Rightarrow> nat) \<Rightarrow> ('b \<Rightarrow> 'b \<Rightarrow> bool) \<Rightarrow> 'b \<Rightarrow> u8 list \<Rightarrow> 'b \<Rightarrow> bool" where
  "wrote B ok contents writable limit same_base b ys b' \<longleftrightarrow> ok b' \<and> contents b' = contents b @ ys \<and> limit b' = limit b
     \<and> (\<forall>m. writable b (length ys + m) \<longrightarrow> writable b' m) \<and> bb_cap B b \<le> bb_cap B b' \<and> (bb_cap B b' = bb_cap B b \<longrightarrow> same_base b b')"

text \<open>\<open>room b n\<close>: \<open>n\<close> bytes fit without growth.\<close>

locale buffer_backend =
  fixes B :: "'b backend" and ok :: "'b \<Rightarrow> bool" and contents :: "'b \<Rightarrow> u8 list" and room :: "'b \<Rightarrow> nat \<Rightarrow> bool"
    and writable :: "'b \<Rightarrow> nat \<Rightarrow> bool" and limit :: "'b \<Rightarrow> nat" and same_base :: "'b \<Rightarrow> 'b \<Rightarrow> bool"
  assumes new: "ok (bb_new B)" "contents (bb_new B) = []"
    and clear: "ok b \<Longrightarrow> ok (bb_clear B b)" "ok b \<Longrightarrow> contents (bb_clear B b) = []"
    and len: "ok b \<Longrightarrow> bb_len B b = length (contents b)"
    and room_mono: "ok b \<Longrightarrow> room b n \<Longrightarrow> m \<le> n \<Longrightarrow> room b m"
    and writable_mono: "writable b n \<Longrightarrow> m \<le> n \<Longrightarrow> writable b m"
    and reserve: "ok b \<Longrightarrow> writable b n \<Longrightarrow>
        \<exists>b'. bb_reserve B b n = Some b' \<and> wrote B ok contents writable limit same_base b [] b' \<and> room b' n"
    and try_reserve: "ok b \<Longrightarrow> writable b n \<Longrightarrow> length (contents b) + n \<le> limit b \<Longrightarrow>
        \<exists>b'. bb_try_reserve B b n = Ok b' \<and> wrote B ok contents writable limit same_base b [] b' \<and> room b' n"
    and try_reserve_refused: "ok b \<Longrightarrow> limit b < length (contents b) + n \<Longrightarrow>
        bb_try_reserve B b n = Err \<lparr>bo_tail = bb_tail B b, bo_requested = n, bo_capacity = limit b\<rparr>"
    and extend: "ok b \<Longrightarrow> writable b (length data) \<Longrightarrow>
        \<exists>b'. bb_extend B b data = Some b' \<and> wrote B ok contents writable limit same_base b data b'"
    and fill: "ok b \<Longrightarrow> writable b n \<Longrightarrow>
        \<exists>b'. bb_extend_and_fill B b x n = Some b' \<and> wrote B ok contents writable limit same_base b (replicate n x) b'"
    and within: "ok b \<Longrightarrow> start + n \<le> length (contents b) \<Longrightarrow> room b n \<Longrightarrow>
        \<exists>b'. bb_extend_from_within_unchecked B b start n = Some b'
          \<and> wrote B ok contents writable limit same_base b (take n (drop start (contents b))) b' \<and> (\<forall>m. room b (n + m) \<longrightarrow> room b' m)"
    and branchless: "ok b \<Longrightarrow> start + n \<le> length (contents b) \<Longrightarrow> room b n \<Longrightarrow>
        \<exists>b'. bb_extend_from_within_unchecked_branchless B b start n = Some b'
          \<and> wrote B ok contents writable limit same_base b (take n (drop start (contents b))) b' \<and> (\<forall>m. room b (n + m) \<longrightarrow> room b' m)"
    and slices: "ok b \<Longrightarrow> \<exists>s1 s2. bb_as_slices B b = Some (s1, s2) \<and> s1 @ s2 = contents b"
    and drop_first: "ok b \<Longrightarrow> n \<le> length (contents b) \<Longrightarrow> ok (bb_drop_first_n B b n)"
      "ok b \<Longrightarrow> n \<le> length (contents b) \<Longrightarrow> contents (bb_drop_first_n B b n) = drop n (contents b)"
    and base: "ok b \<Longrightarrow> same_base b b" "same_base b b' \<Longrightarrow> same_base b' b'' \<Longrightarrow> same_base b b''"
    and set_tail: "ok b \<Longrightarrow> ok b' \<Longrightarrow> same_base b b' \<Longrightarrow> contents b' = contents b @ ys \<Longrightarrow> ok (bb_set_tail B b' (bb_tail B b))"
      "ok b \<Longrightarrow> ok b' \<Longrightarrow> same_base b b' \<Longrightarrow> contents b' = contents b @ ys \<Longrightarrow> contents (bb_set_tail B b' (bb_tail B b)) = contents b"

section \<open>The ring buffer as a backend\<close>

definition ring_backend :: "copy_ops \<Rightarrow> ring_buffer backend" where
  "ring_backend k = \<lparr>bb_new = rb_new, bb_clear = rb_clear, bb_reserve = rb_reserve, bb_reserve_exact = rb_reserve,
     bb_try_reserve = rb_try_reserve, bb_set_max_capacity = rb_set_max_capacity, bb_set_growth_limit = rb_set_growth_limit,
     bb_len = rb_len, bb_cap = rb_cap, bb_tail = rb_tail, bb_set_tail = rb_set_tail, bb_extend = rb_extend k,
     bb_extend_and_fill = rb_extend_and_fill, bb_extend_from_within_unchecked = rb_extend_from_within_unchecked k,
     bb_extend_from_within_unchecked_branchless = rb_extend_from_within_unchecked_branchless k,
     bb_as_slices = rb_as_slices, bb_drop_first_n = rb_drop_first_n\<rparr>"

definition rb_same_base :: "ring_buffer \<Rightarrow> ring_buffer \<Rightarrow> bool" where
  "rb_same_base r r' \<longleftrightarrow> rb_cap r' = rb_cap r \<and> rb_head r' = rb_head r"

lemma rb_contents_len: "rb_contents r' = rb_contents r @ ys \<Longrightarrow> rb_len r' = rb_len r + length ys"
  by (metis length_append length_rb_contents)

lemma rb_writable_step:
  assumes "rb_ok r" "rb_ok r'" "rb_same_limits r r'" "rb_len r' = rb_len r + n" "rb_cap r \<le> rb_cap r'" "rb_writable r (n + m)"
  shows "rb_writable r' m"
proof -
  have "m \<le> rb_free r'" if "rb_borrowed r"
  proof (cases "rb_cap r = 0")
    case True
    then show ?thesis using assms(1,6) that by (simp add: rb_writable_def rb_ok_def rb_free_cases)
  next
    case False
    then show ?thesis using rb_room [OF assms(1)] rb_room [OF assms(2)] assms(4-6) that by (simp add: rb_writable_def)
  qed
  then show ?thesis using assms(3-6) by (auto simp: rb_writable_def rb_same_limits_def)
qed

lemma rb_wrote_room:
  assumes "rb_ok r" "rb_wrote r ys b" "length ys \<le> rb_free r" "n = length ys"
  defines "r' \<equiv> r\<lparr>rb_buf := b, rb_tail := rb_wrap r (rb_tail r + n)\<rparr>"
  shows "rb_ok r'" "rb_contents r' = rb_contents r @ ys" "rb_max_capacity r' = rb_max_capacity r" "n + m \<le> rb_free r \<Longrightarrow> m \<le> rb_free r'"
    "rb_writable r (n + m) \<Longrightarrow> rb_writable r' m" "rb_cap r' = rb_cap r" "rb_same_base r r'"
proof -
  show ok': "rb_ok r'" and c: "rb_contents r' = rb_contents r @ ys"
    using rb_wrote_append [OF assms(1-3), of n] assms(4) by (simp_all add: r'_def)
  show "rb_max_capacity r' = rb_max_capacity r" "rb_cap r' = rb_cap r" "rb_same_base r r'" by (simp_all add: r'_def rb_same_base_def)
  have L: "rb_len r' = rb_len r + n" using rb_contents_len [OF c] assms(4) by simp
  show "m \<le> rb_free r'" if "n + m \<le> rb_free r"
  proof (cases "rb_cap r = 0")
    case True
    then show ?thesis using that assms(1) by (simp add: rb_ok_def rb_free_cases)
  next
    case False
    then show ?thesis using rb_room [OF assms(1)] rb_room [OF ok'] L that by (simp add: r'_def)
  qed
  show "rb_writable r' m" if "rb_writable r (n + m)"
    using rb_writable_step [OF assms(1) ok' _ L _ that] by (simp add: r'_def rb_same_limits_def)
qed

lemma rb_set_tail_ok:
  assumes "rb_ok r" "rb_ok r'" "rb_same_base r r'" "rb_contents r' = rb_contents r @ ys"
  shows "rb_ok (rb_set_tail r' (rb_tail r))" "rb_contents (rb_set_tail r' (rb_tail r)) = rb_contents r"
proof -
  let ?q = "rb_set_tail r' (rb_tail r)"
  show "rb_ok ?q" using assms(1-3) by (auto simp: rb_ok_def rb_set_tail_def rb_same_base_def)
  have L: "rb_len ?q = rb_len r" using assms(3) by (simp add: rb_len_cases rb_set_tail_def rb_same_base_def)
  show "rb_contents ?q = rb_contents r"
  proof (rule nth_equalityI)
    fix i assume "i < length (rb_contents ?q)"
    then have i: "i < rb_len r" "i < rb_len r'" using L rb_contents_len [OF assms(4)] by simp_all
    have "rb_contents ?q ! i = rb_contents r' ! i"
      using i L assms(3) by (simp add: rb_contents_nth) (simp add: rb_set_tail_def rb_wrap_def)
    then show "rb_contents ?q ! i = rb_contents r ! i" using assms(4) i(1) by (simp add: nth_append)
  qed (simp add: L)
qed

lemma rb_reserve_law:
  assumes "rb_ok r" "rb_writable r n"
  shows "\<exists>r'. rb_reserve r n = Some r' \<and> rb_ok r' \<and> rb_contents r' = rb_contents r \<and> n \<le> rb_free r' \<and> rb_max_capacity r' = rb_max_capacity r
      \<and> (\<forall>m. rb_writable r m \<longrightarrow> rb_writable r' m) \<and> rb_cap r \<le> rb_cap r' \<and> (rb_cap r' = rb_cap r \<longrightarrow> rb_same_base r r')"
proof -
  obtain r' where r': "rb_reserve r n = Some r'" "rb_ok r'" "rb_contents r' = rb_contents r" "n \<le> rb_free r'" "rb_same_limits r r'"
      "r' = r \<or> rb_cap r < rb_cap r'"
    using rb_reserve_ok [OF assms] by blast
  have L: "rb_len r' = rb_len r + 0" using arg_cong [OF r'(3), of length] by simp
  have "rb_writable r' m" if "rb_writable r m" for m
    using rb_writable_step [OF assms(1) r'(2,5) L, of m] r'(6) that by auto
  then show ?thesis using r' by (auto simp: rb_same_limits_def rb_same_base_def)
qed

lemma rb_append_law:
  assumes "rb_ok r" "rb_ok r'" "rb_contents r' = rb_contents r @ ys" "rb_same_limits r r'" "n = length ys"
    "rb_cap r < rb_cap r' \<or> rb_cap r' = rb_cap r \<and> rb_head r' = rb_head r"
  shows "rb_max_capacity r' = rb_max_capacity r" "rb_writable r (n + m) \<Longrightarrow> rb_writable r' m" "rb_cap r \<le> rb_cap r'" "rb_cap r' = rb_cap r \<longrightarrow> rb_same_base r r'"
  using rb_writable_step [OF assms(1,2,4), of n m] rb_contents_len [OF assms(3)] assms(4-6) by (auto simp: rb_same_limits_def rb_same_base_def)

sublocale copy_kernel \<subseteq> ring: buffer_backend "ring_backend k" rb_ok rb_contents "\<lambda>r n. n \<le> rb_free r" rb_writable rb_max_capacity rb_same_base
proof (unfold_locales, goal_cases)
  case 1 then show ?case by (simp add: ring_backend_def wrote_def rb_new_def rb_ok_def)
next
  case 2 then show ?case by (simp add: ring_backend_def wrote_def rb_new_def rb_contents_def rb_len_cases)
next
  case 3 then show ?case by (auto simp: ring_backend_def wrote_def rb_clear_def rb_ok_def)
next
  case 4 then show ?case by (simp add: ring_backend_def wrote_def rb_clear_def rb_contents_def rb_len_cases)
next
  case 5 then show ?case by (simp add: ring_backend_def wrote_def)
next
  case 6 then show ?case by simp
next
  case 7 then show ?case by (auto simp: rb_writable_def split: if_splits)
next
  case (8 b n) then show ?case using rb_reserve_law [OF 8] by (auto simp: ring_backend_def wrote_def)
next
  case (9 b n)
  have "rb_len b + n \<le> usize_max" using 9(2) by (simp add: rb_writable_def usize_max_def)
  then show ?case using rb_try_reserve_ok [OF 9(1,2)] rb_reserve_law [OF 9(1,2)] 9(3) by (auto simp: ring_backend_def wrote_def)
next
  case 10 then show ?case by (simp add: ring_backend_def wrote_def rb_try_reserve_err)
next
  case (11 b data)
  obtain r' where r': "rb_extend k b data = Some r'" "rb_ok r'" "rb_contents r' = rb_contents b @ data" "rb_same_limits b r'"
      "rb_cap b < rb_cap r' \<or> rb_cap r' = rb_cap b \<and> rb_head r' = rb_head b"
    using rb_extend_ok [OF 11] by blast
  then show ?case using rb_append_law [OF 11(1) r'(2-4) refl r'(5)] by (simp add: ring_backend_def wrote_def)
next
  case (12 b n x)
  obtain r' where r': "rb_extend_and_fill b x n = Some r'" "rb_ok r'" "rb_contents r' = rb_contents b @ replicate n x" "rb_same_limits b r'"
      "rb_cap b < rb_cap r' \<or> rb_cap r' = rb_cap b \<and> rb_head r' = rb_head b"
    using rb_extend_and_fill_ok [OF 12, of x] by blast
  then show ?case using rb_append_law [OF 12(1) r'(2-4) _ r'(5), of n] by (simp add: ring_backend_def wrote_def)
next
  case (13 b start n)
  obtain buf where w: "rb_extend_from_within_unchecked k b start n = Some (b\<lparr>rb_buf := buf, rb_tail := rb_wrap b (rb_tail b + n)\<rparr>)"
      "rb_wrote b (take n (drop start (rb_contents b))) buf"
    using rb_within_ok [of b start n] 13 by auto
  have "length (take n (drop start (rb_contents b))) \<le> rb_free b" "n = length (take n (drop start (rb_contents b)))" using 13 by simp_all
  then show ?case using w(1) rb_wrote_room [OF 13(1) w(2), of n] by (simp add: ring_backend_def wrote_def)
next
  case (14 b start n)
  obtain buf where w: "rb_extend_from_within_unchecked_branchless k b start n = Some (b\<lparr>rb_buf := buf, rb_tail := rb_wrap b (rb_tail b + n)\<rparr>)"
      "rb_wrote b (take n (drop start (rb_contents b))) buf"
    using rb_branchless_ok [of b start n] 14 by auto
  have "length (take n (drop start (rb_contents b))) \<le> rb_free b" "n = length (take n (drop start (rb_contents b)))" using 14 by simp_all
  then show ?case using w(1) rb_wrote_room [OF 14(1) w(2), of n] by (simp add: ring_backend_def wrote_def)
next
  case 15 then show ?case using rb_as_slices_contents by (simp add: ring_backend_def wrote_def)
next
  case 16 then show ?case using rb_drop_first_n_contents by (simp add: ring_backend_def wrote_def)
next
  case 17 then show ?case using rb_drop_first_n_contents by (simp add: ring_backend_def wrote_def)
next
  case 18 then show ?case by (simp add: rb_same_base_def)
next
  case 19 then show ?case by (simp add: rb_same_base_def)
next
  case 20 then show ?case using rb_set_tail_ok by (simp add: ring_backend_def wrote_def)
next
  case 21 then show ?case using rb_set_tail_ok by (simp add: ring_backend_def wrote_def)
qed

end
