(* ===== verification/Flat_Buf.thy ===== *)
theory Flat_Buf
  imports Buffer_Backend
begin

text \<open>
  The flat buffer of \<^verbatim>\<open>zstd/src/decoding/flat_buf.rs\<close>: a growing \<open>Vec\<close> and the index of its first live byte. The
  vector is its allocation and its length; the standard library's growth of a vector is written out.
\<close>

section \<open>State\<close>

text \<open>\<open>fb_mem\<close> is the vector's allocation, so its length is the capacity; \<open>fb_len\<close> is the vector's length.\<close>

record flat_buf =
  fb_mem :: mem
  fb_len :: nat
  fb_head :: nat
  fb_max_capacity :: nat

definition fb_new :: flat_buf where
  "fb_new = \<lparr>fb_mem = [], fb_len = 0, fb_head = 0, fb_max_capacity = usize_max\<rparr>"

definition fb_clear :: "flat_buf \<Rightarrow> flat_buf" where
  "fb_clear b = b\<lparr>fb_len := 0, fb_head := 0\<rparr>"

definition fb_live_len :: "flat_buf \<Rightarrow> nat" where
  "fb_live_len b = fb_len b - fb_head b"

definition fb_cap :: "flat_buf \<Rightarrow> nat" where
  "fb_cap b = length (fb_mem b)"

definition fb_set_tail :: "flat_buf \<Rightarrow> nat \<Rightarrow> flat_buf" where
  "fb_set_tail b new_tail = b\<lparr>fb_len := new_tail\<rparr>"

definition fb_set_max_capacity :: "flat_buf \<Rightarrow> nat \<Rightarrow> flat_buf" where
  "fb_set_max_capacity b max_capacity = b\<lparr>fb_max_capacity := max_capacity\<rparr>"

section \<open>Growth\<close>

text \<open>
  \<open>Vec::reserve\<close> and \<open>Vec::reserve_exact\<close> of the standard library: nothing to do when the spare capacity is enough;
  otherwise the larger of twice the capacity and what is required, at least eight bytes, or exactly what is required.
\<close>

definition vec_grow :: "flat_buf \<Rightarrow> nat \<Rightarrow> flat_buf option" where
  "vec_grow b new_cap = (if new_cap > isize_max then None
     else Some (b\<lparr>fb_mem := fb_mem b @ replicate (new_cap - fb_cap b) 0\<rparr>))"

definition vec_reserve :: "flat_buf \<Rightarrow> nat \<Rightarrow> flat_buf option" where
  "vec_reserve b additional =
     (if additional \<le> fb_cap b - fb_len b then Some b
      else Option.bind (checked_add (fb_len b) additional) (\<lambda>required. vec_grow b (max 8 (max (2 * fb_cap b) required))))"

definition vec_reserve_exact :: "flat_buf \<Rightarrow> nat \<Rightarrow> flat_buf option" where
  "vec_reserve_exact b additional =
     (if additional \<le> fb_cap b - fb_len b then Some b
      else Option.bind (checked_add (fb_len b) additional) (\<lambda>required. vec_grow b required))"

definition fb_reserve :: "flat_buf \<Rightarrow> nat \<Rightarrow> flat_buf option" where
  "fb_reserve b n = Option.bind (checked_add n WILDCOPY_OVERLENGTH) (vec_reserve b)"

definition fb_reserve_exact :: "flat_buf \<Rightarrow> nat \<Rightarrow> flat_buf option" where
  "fb_reserve_exact b n = Option.bind (checked_add n WILDCOPY_OVERLENGTH) (vec_reserve_exact b)"

definition fb_try_reserve :: "flat_buf \<Rightarrow> nat \<Rightarrow> (flat_buf, backend_overflow) result" where
  "fb_try_reserve b n =
     (if (case checked_add (fb_live_len b) n of None \<Rightarrow> True | Some needed \<Rightarrow> needed > fb_max_capacity b)
      then Err \<lparr>bo_tail = fb_len b, bo_requested = n, bo_capacity = fb_max_capacity b\<rparr>
      else let free = fb_cap b - fb_len b in
        if (case checked_add n WILDCOPY_OVERLENGTH of None \<Rightarrow> False | Some need \<Rightarrow> free \<ge> need) then Ok b
        else or_panic (fb_reserve b n))"

section \<open>Reading and writing\<close>

definition fb_as_slices :: "flat_buf \<Rightarrow> (u8 list \<times> u8 list) option" where
  "fb_as_slices b = (if fb_head b \<le> fb_len b then map_option (\<lambda>s. (s, [])) (load (fb_mem b) (fb_head b) (fb_len b - fb_head b)) else None)"

definition fb_drop_first_n :: "flat_buf \<Rightarrow> nat \<Rightarrow> flat_buf" where
  "fb_drop_first_n b n = b\<lparr>fb_head := fb_head b + n\<rparr>"

text \<open>\<open>extend_from_slice\<close> and \<open>resize\<close> reserve what they add, then write it behind the vector's end.\<close>

definition vec_append :: "flat_buf \<Rightarrow> u8 list \<Rightarrow> flat_buf option" where
  "vec_append b data = Option.bind (vec_reserve b (length data)) (\<lambda>b.
     Option.bind (store_bytes (fb_mem b) (fb_len b) data) (\<lambda>mem. Some (b\<lparr>fb_mem := mem, fb_len := fb_len b + length data\<rparr>)))"

definition fb_extend :: "flat_buf \<Rightarrow> u8 list \<Rightarrow> flat_buf option" where
  "fb_extend b data = vec_append b data"

definition fb_extend_and_fill :: "flat_buf \<Rightarrow> u8 \<Rightarrow> nat \<Rightarrow> flat_buf option" where
  "fb_extend_and_fill b fill_with fill_length = vec_append b (replicate fill_length fill_with)"

definition fb_extend_from_reader ::
    "('r \<Rightarrow> nat \<Rightarrow> 'r \<times> (u8 list, 'e) result) \<Rightarrow> flat_buf \<Rightarrow> 'r \<Rightarrow> nat \<Rightarrow> (flat_buf \<times> 'r \<times> (unit, 'e) result) option" where
  "fb_extend_from_reader read_exact b rd fill_length =
     (let old = fb_len b in
      Option.bind (fb_reserve b fill_length) (\<lambda>b. Option.bind (vec_append b (replicate fill_length 0)) (\<lambda>b.
        case read_exact rd fill_length of
          (rd, Panic) \<Rightarrow> None
        | (rd, Ok s) \<Rightarrow> Option.bind (store_bytes (fb_mem b) old s) (\<lambda>mem. Some (b\<lparr>fb_mem := mem\<rparr>, rd, Ok ()))
        | (rd, Err e) \<Rightarrow> Some (b\<lparr>fb_len := old\<rparr>, rd, Err e))))"

definition fb_extend_from_within_unchecked :: "copy_ops \<Rightarrow> flat_buf \<Rightarrow> nat \<Rightarrow> nat \<Rightarrow> flat_buf option" where
  "fb_extend_from_within_unchecked k b start len =
     (let dst_off = fb_len b; src_off = fb_head b + start;
          total_readable = fb_len b - src_off; total_writable = fb_cap b - dst_off in
      Option.bind (copy_bytes_overshooting k (fb_mem b) (src_off, total_readable) (dst_off, total_writable) len) (\<lambda>mem.
      Some (b\<lparr>fb_mem := mem, fb_len := dst_off + len\<rparr>)))"

definition flat_backend :: "copy_ops \<Rightarrow> flat_buf backend" where
  "flat_backend k = \<lparr>bb_new = fb_new, bb_clear = fb_clear, bb_reserve = fb_reserve, bb_reserve_exact = fb_reserve_exact,
     bb_try_reserve = fb_try_reserve, bb_set_max_capacity = fb_set_max_capacity, bb_set_growth_limit = (\<lambda>b limit. b),
     bb_len = fb_live_len, bb_cap = fb_cap, bb_tail = fb_len, bb_set_tail = fb_set_tail, bb_extend = fb_extend,
     bb_extend_and_fill = fb_extend_and_fill, bb_extend_from_within_unchecked = fb_extend_from_within_unchecked k,
     bb_extend_from_within_unchecked_branchless = fb_extend_from_within_unchecked k,
     bb_as_slices = fb_as_slices, bb_drop_first_n = fb_drop_first_n\<rparr>"

section \<open>The contents\<close>

definition fb_ok :: "flat_buf \<Rightarrow> bool" where
  "fb_ok b \<longleftrightarrow> fb_head b \<le> fb_len b \<and> fb_len b \<le> fb_cap b"

definition fb_contents :: "flat_buf \<Rightarrow> u8 list" where
  "fb_contents b = drop (fb_head b) (take (fb_len b) (fb_mem b))"

definition fb_room :: "flat_buf \<Rightarrow> nat \<Rightarrow> bool" where
  "fb_room b n \<longleftrightarrow> fb_len b + n \<le> fb_cap b"

definition fb_writable :: "flat_buf \<Rightarrow> nat \<Rightarrow> bool" where
  "fb_writable b n \<longleftrightarrow> fb_len b + n < 2 ^ 61"

definition fb_same_base :: "flat_buf \<Rightarrow> flat_buf \<Rightarrow> bool" where
  "fb_same_base b b' \<longleftrightarrow> fb_head b' = fb_head b"

lemma fb_len_contents [simp]: "fb_ok b \<Longrightarrow> length (fb_contents b) = fb_live_len b"
  by (simp add: fb_contents_def fb_ok_def fb_live_len_def fb_cap_def)

text \<open>A growth adds spare bytes and changes nothing else.\<close>

definition fb_grown :: "flat_buf \<Rightarrow> flat_buf \<Rightarrow> bool" where
  "fb_grown b b' \<longleftrightarrow> (\<exists>z. b' = b\<lparr>fb_mem := fb_mem b @ z\<rparr>)"

lemma fb_grown_keeps:
  assumes "fb_grown b b'" "fb_ok b"
  shows "fb_ok b'" "fb_contents b' = fb_contents b" "fb_len b' = fb_len b" "fb_head b' = fb_head b" "fb_max_capacity b' = fb_max_capacity b"
    "fb_cap b \<le> fb_cap b'"
  using assms by (auto simp: fb_grown_def fb_ok_def fb_cap_def fb_contents_def)

lemma vec_reserve_ok:
  assumes "fb_ok b" "fb_len b + n \<le> 2 ^ 61 + 32"
  shows "\<exists>b'. vec_reserve b n = Some b' \<and> fb_grown b b' \<and> fb_len b' + n \<le> fb_cap b'"
proof (cases "n \<le> fb_cap b - fb_len b")
  case True
  moreover have "fb_grown b b" by (auto simp: fb_grown_def intro: exI [of _ "[]"])
  ultimately show ?thesis using assms(1) by (auto simp: vec_reserve_def fb_ok_def)
next
  case False
  let ?c = "max 8 (max (2 * fb_cap b) (fb_len b + n))"
  have "fb_cap b < fb_len b + n" using False assms(1) by (auto simp: fb_ok_def)
  then have "\<not> isize_max < ?c" "fb_len b + n \<le> usize_max" using assms(2) by (auto simp: isize_max_def usize_max_def)
  then have "vec_reserve b n = Some (b\<lparr>fb_mem := fb_mem b @ replicate (?c - fb_cap b) 0\<rparr>)"
    using False by (simp add: vec_reserve_def vec_grow_def checked_add_def)
  then show ?thesis by (auto simp: fb_grown_def fb_cap_def)
qed

lemma fb_reserve_ok:
  assumes "fb_ok b" "fb_writable b n"
  shows "\<exists>b'. fb_reserve b n = Some b' \<and> fb_grown b b' \<and> fb_room b' n"
proof -
  have "fb_len b + (n + WILDCOPY_OVERLENGTH) \<le> 2 ^ 61 + 32" using assms(2) by (simp add: fb_writable_def WILDCOPY_OVERLENGTH_def)
  moreover have "checked_add n WILDCOPY_OVERLENGTH = Some (n + WILDCOPY_OVERLENGTH)"
    using assms(2) by (simp add: fb_writable_def WILDCOPY_OVERLENGTH_def checked_add_def usize_max_def)
  ultimately show ?thesis using vec_reserve_ok [OF assms(1), of "n + WILDCOPY_OVERLENGTH"] by (auto simp: fb_reserve_def fb_room_def)
qed

lemma fb_try_reserve_ok:
  assumes "fb_ok b" "fb_writable b n" "fb_live_len b + n \<le> fb_max_capacity b"
  shows "\<exists>b'. fb_try_reserve b n = Ok b' \<and> fb_grown b b' \<and> fb_room b' n"
proof -
  have c: "checked_add (fb_live_len b) n = Some (fb_live_len b + n)" "checked_add n WILDCOPY_OVERLENGTH = Some (n + WILDCOPY_OVERLENGTH)"
    using assms(2) by (auto simp: checked_add_def fb_writable_def fb_live_len_def usize_max_def WILDCOPY_OVERLENGTH_def)
  show ?thesis
  proof (cases "n + WILDCOPY_OVERLENGTH \<le> fb_cap b - fb_len b")
    case True
    moreover have "fb_grown b b" by (auto simp: fb_grown_def intro: exI [of _ "[]"])
    ultimately show ?thesis using c assms(1,3) by (auto simp: fb_try_reserve_def fb_room_def fb_ok_def)
  next
    case False
    then show ?thesis using c assms(3) fb_reserve_ok [OF assms(1,2)] by (auto simp: fb_try_reserve_def Let_def)
  qed
qed

lemma vec_append_ok:
  assumes "fb_ok b" "fb_writable b (length data)"
  shows "\<exists>b'. vec_append b data = Some b' \<and> fb_ok b' \<and> fb_contents b' = fb_contents b @ data \<and> fb_len b' = fb_len b + length data
      \<and> fb_head b' = fb_head b \<and> fb_max_capacity b' = fb_max_capacity b \<and> fb_cap b \<le> fb_cap b'"
proof -
  obtain q where q: "vec_reserve b (length data) = Some q" "fb_grown b q" "fb_len q + length data \<le> fb_cap q"
    using vec_reserve_ok [OF assms(1), of "length data"] assms(2) by (auto simp: fb_writable_def)
  note g = fb_grown_keeps [OF q(2) assms(1)]
  let ?m = "take (fb_len q) (fb_mem q) @ data @ drop (fb_len q + length data) (fb_mem q)"
  let ?b = "q\<lparr>fb_mem := ?m, fb_len := fb_len q + length data\<rparr>"
  have h: "fb_head q \<le> fb_len q" "fb_len q \<le> length (fb_mem q)" "fb_len q + length data \<le> length (fb_mem q)"
    using g(1) q(3) by (simp_all add: fb_ok_def fb_cap_def)
  have "vec_append b data = Some ?b" using q(1) h(3) by (simp add: vec_append_def store_bytes_def)
  moreover have "fb_ok ?b" using h by (simp add: fb_ok_def fb_cap_def)
  moreover have "fb_contents ?b = fb_contents b @ data" using h g(2) by (simp add: fb_contents_def)
  moreover have "fb_cap b \<le> fb_cap ?b" using q(2) h by (auto simp: fb_grown_def fb_cap_def)
  ultimately show ?thesis using g by simp
qed

lemma fb_set_tail_ok:
  assumes "fb_ok b" "fb_ok b'" "fb_same_base b b'" "fb_contents b' = fb_contents b @ ys"
  shows "fb_ok (fb_set_tail b' (fb_len b))" "fb_contents (fb_set_tail b' (fb_len b)) = fb_contents b"
proof -
  have h: "fb_head b' = fb_head b" "fb_head b \<le> fb_len b" "fb_head b \<le> fb_len b'" "fb_len b' \<le> length (fb_mem b')"
    using assms(1-3) by (simp_all add: fb_ok_def fb_same_base_def fb_cap_def)
  have "fb_live_len b' = fb_live_len b + length ys" using arg_cong [OF assms(4), of length] assms(1,2) by simp
  then have l: "fb_len b \<le> fb_len b'" using h by (simp add: fb_live_len_def)
  then show "fb_ok (fb_set_tail b' (fb_len b))" using h by (simp add: fb_ok_def fb_set_tail_def fb_cap_def)
  have "fb_contents (fb_set_tail b' (fb_len b)) = take (fb_live_len b) (fb_contents b')"
    using l h by (simp add: fb_contents_def fb_set_tail_def fb_live_len_def drop_take)
  then show "fb_contents (fb_set_tail b' (fb_len b)) = fb_contents b" using assms(1,4) by simp
qed

context copy_kernel
begin

lemma fb_within_ok:
  assumes "fb_ok b" "start + n \<le> fb_live_len b" "fb_room b n"
  shows "\<exists>b'. fb_extend_from_within_unchecked k b start n = Some b' \<and> fb_ok b' \<and> fb_contents b' = fb_contents b @ take n (drop start (fb_contents b))
      \<and> fb_len b' = fb_len b + n \<and> fb_head b' = fb_head b \<and> fb_max_capacity b' = fb_max_capacity b \<and> fb_cap b' = fb_cap b"
proof -
  have h: "fb_head b + start + n \<le> fb_len b" "fb_len b + n \<le> length (fb_mem b)"
    using assms by (auto simp: fb_ok_def fb_live_len_def fb_room_def fb_cap_def)
  have f: "n \<le> fb_len b - (fb_head b + start)" "n \<le> fb_cap b - fb_len b" "fb_head b + start + (fb_len b - (fb_head b + start)) \<le> length (fb_mem b)"
      "fb_len b + (fb_cap b - fb_len b) \<le> length (fb_mem b)" "apart (fb_head b + start) (fb_len b) n"
    using h by (auto simp: apart_def fb_cap_def)
  obtain m where m: "copy_bytes_overshooting k (fb_mem b) (fb_head b + start, fb_len b - (fb_head b + start)) (fb_len b, fb_cap b - fb_len b) n = Some m"
      "copied (fb_mem b) (fb_head b + start) (fb_len b) n (fb_cap b - fb_len b) m"
    using overshooting [OF f] by blast
  let ?b = "b\<lparr>fb_mem := m, fb_len := fb_len b + n\<rparr>"
  have len: "length m = length (fb_mem b)" using m(2) by (simp add: copied_def)
  have pre: "take (fb_len b) m = take (fb_len b) (fb_mem b)" using m(2) h len by (auto intro!: nth_equalityI simp: copied_def)
  have "take n (drop (fb_len b) m) = take n (drop (fb_head b + start) (fb_mem b))"
    using m(2) h len by (auto intro!: nth_equalityI simp: copied_def)
  moreover have "take n (drop start (fb_contents b)) = take n (drop (fb_head b + start) (fb_mem b))"
    using h(1) by (simp add: fb_contents_def drop_take min_absorb1 add.commute)
  moreover have "take (fb_len b + n) m = take (fb_len b) m @ take n (drop (fb_len b) m)" by (simp add: take_add)
  ultimately have "fb_contents ?b = fb_contents b @ take n (drop start (fb_contents b))"
    using h pre by (simp add: fb_contents_def)
  moreover have "fb_ok ?b" using h len by (simp add: fb_ok_def fb_cap_def)
  ultimately show ?thesis using m(1) len by (simp add: fb_extend_from_within_unchecked_def Let_def fb_cap_def)
qed

end

lemma fb_append_law: "fb_len b' = fb_len b + n \<Longrightarrow> fb_writable b (n + m) \<Longrightarrow> fb_writable b' m"
  by (simp add: fb_writable_def)

sublocale copy_kernel \<subseteq> flat: buffer_backend "flat_backend k" fb_ok fb_contents fb_room fb_writable fb_max_capacity fb_same_base
proof (unfold_locales, goal_cases)
  case 1 then show ?case by (simp add: flat_backend_def wrote_def fb_new_def fb_ok_def fb_cap_def)
next
  case 2 then show ?case by (simp add: flat_backend_def wrote_def fb_new_def fb_contents_def)
next
  case 3 then show ?case by (simp add: flat_backend_def wrote_def fb_clear_def fb_ok_def fb_cap_def)
next
  case 4 then show ?case by (simp add: flat_backend_def wrote_def fb_clear_def fb_contents_def)
next
  case 5 then show ?case by (simp add: flat_backend_def wrote_def)
next
  case 6 then show ?case by (simp add: fb_room_def)
next
  case 7 then show ?case by (simp add: fb_writable_def)
next
  case (8 b n)
  then show ?case using fb_reserve_ok [OF 8] fb_grown_keeps [OF _ 8(1)]
    by (auto simp: flat_backend_def wrote_def fb_writable_def fb_same_base_def)
next
  case (9 b n)
  then show ?case using fb_try_reserve_ok [of b n] fb_grown_keeps [OF _ 9(1)]
    by (auto simp: flat_backend_def wrote_def fb_writable_def fb_same_base_def)
next
  case (10 b n) then show ?case by (auto simp: flat_backend_def wrote_def fb_try_reserve_def checked_add_def)
next
  case (11 b data)
  then show ?case using vec_append_ok [OF 11] fb_append_law by (auto simp: flat_backend_def wrote_def fb_extend_def fb_same_base_def)
next
  case (12 b n x)
  then show ?case using vec_append_ok [of b "replicate n x"] fb_append_law by (auto simp: flat_backend_def wrote_def fb_extend_and_fill_def fb_same_base_def)
next
  case (13 b start n)
  then show ?case using fb_within_ok [of b start n] fb_append_law by (auto simp: flat_backend_def wrote_def fb_room_def fb_same_base_def)
next
  case (14 b start n)
  then show ?case using fb_within_ok [of b start n] fb_append_law by (auto simp: flat_backend_def wrote_def fb_room_def fb_same_base_def)
next
  case (15 b)
  then show ?case by (auto simp: flat_backend_def wrote_def fb_as_slices_def fb_ok_def load_def fb_cap_def fb_contents_def drop_take)
next
  case 16 then show ?case by (auto simp: flat_backend_def wrote_def fb_drop_first_n_def fb_ok_def fb_cap_def fb_contents_def)
next
  case 17 then show ?case by (simp add: flat_backend_def wrote_def fb_drop_first_n_def fb_contents_def add.commute)
next
  case 18 then show ?case by (simp add: fb_same_base_def)
next
  case 19 then show ?case by (simp add: fb_same_base_def)
next
  case 20 then show ?case using fb_set_tail_ok by (simp add: flat_backend_def wrote_def)
next
  case 21 then show ?case using fb_set_tail_ok by (simp add: flat_backend_def wrote_def)
qed

end
