(* ===== verification/Decode_Buffer.thy ===== *)
theory Decode_Buffer
  imports Flat_Buf Block_Header
begin

text \<open>
  The decode buffer of \<^verbatim>\<open>zstd/src/decoding/decode_buffer.rs\<close>, generic in its backend: pushes, match copies out of the
  buffer and out of a dictionary, the rollback point, and the delivery of decoded bytes with the window kept. The
  frame hash is third-party code: its state and its \<open>write\<close> are parameters. Prefetches have no effect and are left
  out; the output counter is a natural number, since no frame reaches \<open>2 ^ 64\<close> bytes.
\<close>

section \<open>State\<close>

record ('b, 'h) decode_buffer =
  db_buffer :: 'b
  db_window_size :: nat
  db_total_output_counter :: nat
  db_hash :: 'h
  db_compute_hash :: bool
  db_hash_dirty :: bool
  db_declared_content :: "nat option"
  db_block_limit :: nat
  db_delivered :: nat

record decode_buffer_checkpoint =
  cp_tail :: nat
  cp_total_output_counter :: nat
  cp_cap :: nat

datatype decode_buffer_error =
    NotEnoughBytesInDictionary nat nat
  | OffsetTooBig nat nat
  | ZeroOffset
  | BackendOverflow
  | OutputBufferOverflow nat nat nat

definition peak_buffered_len :: "nat \<Rightarrow> nat" where
  "peak_buffered_len window_size =
     (let block = min window_size (unat MAX_BLOCK_SIZE) in min usize_max (window_size + block))"

definition db_from_backend :: "'b backend \<Rightarrow> 'h \<Rightarrow> 'b \<Rightarrow> nat \<Rightarrow> ('b, 'h) decode_buffer" where
  "db_from_backend B h0 buffer window_size =
     \<lparr>db_buffer = bb_set_growth_limit B (bb_clear B buffer) (peak_buffered_len window_size), db_window_size = window_size,
      db_total_output_counter = 0, db_hash = h0, db_compute_hash = True, db_hash_dirty = False,
      db_declared_content = None, db_block_limit = unat MAX_BLOCK_SIZE, db_delivered = 0\<rparr>"

definition db_new :: "'b backend \<Rightarrow> 'h \<Rightarrow> nat \<Rightarrow> ('b, 'h) decode_buffer" where
  "db_new B h0 window_size =
     \<lparr>db_buffer = bb_set_growth_limit B (bb_new B) (peak_buffered_len window_size), db_window_size = window_size,
      db_total_output_counter = 0, db_hash = h0, db_compute_hash = True, db_hash_dirty = False,
      db_declared_content = None, db_block_limit = unat MAX_BLOCK_SIZE, db_delivered = 0\<rparr>"

definition db_len :: "'b backend \<Rightarrow> ('b, 'h) decode_buffer \<Rightarrow> nat" where
  "db_len B db = bb_len B (db_buffer db)"

definition db_capacity :: "'b backend \<Rightarrow> ('b, 'h) decode_buffer \<Rightarrow> nat" where
  "db_capacity B db = bb_cap B (db_buffer db)"

definition db_set_compute_hash :: "('b, 'h) decode_buffer \<Rightarrow> bool \<Rightarrow> ('b, 'h) decode_buffer" where
  "db_set_compute_hash db compute = db\<lparr>db_compute_hash := compute\<rparr>"

definition db_set_hash :: "('b, 'h) decode_buffer \<Rightarrow> 'h \<Rightarrow> ('b, 'h) decode_buffer" where
  "db_set_hash db hash = db\<lparr>db_hash := hash, db_hash_dirty := True\<rparr>"

definition db_set_block_output_ceiling :: "'b backend \<Rightarrow> ('b, 'h) decode_buffer \<Rightarrow> nat \<Rightarrow> ('b, 'h) decode_buffer" where
  "db_set_block_output_ceiling B db max_block_output =
     db\<lparr>db_buffer := bb_set_max_capacity B (db_buffer db) (bb_len B (db_buffer db) + max_block_output)\<rparr>"

definition db_block_maximum :: "('b, 'h) decode_buffer \<Rightarrow> nat" where
  "db_block_maximum db = min (db_window_size db) (db_block_limit db)"

definition db_set_block_limit :: "('b, 'h) decode_buffer \<Rightarrow> nat \<Rightarrow> ('b, 'h) decode_buffer" where
  "db_set_block_limit db limit = db\<lparr>db_block_limit := min limit (unat MAX_BLOCK_SIZE)\<rparr>"

definition db_set_declared_content :: "('b, 'h) decode_buffer \<Rightarrow> nat option \<Rightarrow> ('b, 'h) decode_buffer" where
  "db_set_declared_content db content_size = db\<lparr>db_declared_content := content_size\<rparr>"

definition db_remaining_declared :: "('b, 'h) decode_buffer \<Rightarrow> nat option" where
  "db_remaining_declared db = map_option (\<lambda>declared. min usize_max (declared - db_total_output_counter db)) (db_declared_content db)"

definition db_reserve_exact :: "'b backend \<Rightarrow> ('b, 'h) decode_buffer \<Rightarrow> nat \<Rightarrow> ('b, 'h) decode_buffer option" where
  "db_reserve_exact B db amount = map_option (\<lambda>b. db\<lparr>db_buffer := b\<rparr>) (bb_reserve_exact B (db_buffer db) amount)"

definition db_reserve_for_block :: "'b backend \<Rightarrow> ('b, 'h) decode_buffer \<Rightarrow> nat \<Rightarrow> ('b, 'h) decode_buffer option" where
  "db_reserve_for_block B db block_max =
     db_reserve_exact B db (case db_remaining_declared db of Some left \<Rightarrow> min block_max left | None \<Rightarrow> block_max)"

definition db_reset :: "'b backend \<Rightarrow> 'h \<Rightarrow> ('b, 'h) decode_buffer \<Rightarrow> nat \<Rightarrow> ('b, 'h) decode_buffer" where
  "db_reset B h0 db window_size =
     db\<lparr>db_window_size := window_size, db_declared_content := None,
        db_buffer := bb_set_max_capacity B (bb_set_growth_limit B (bb_clear B (db_buffer db)) (peak_buffered_len window_size)) usize_max,
        db_delivered := 0, db_total_output_counter := 0,
        db_hash := (if db_hash_dirty db then h0 else db_hash db), db_hash_dirty := False\<rparr>"

section \<open>Writes\<close>

definition db_push :: "'b backend \<Rightarrow> ('b, 'h) decode_buffer \<Rightarrow> u8 list \<Rightarrow> ('b, 'h) decode_buffer option" where
  "db_push B db data = map_option
     (\<lambda>b. db\<lparr>db_buffer := b, db_total_output_counter := db_total_output_counter db + length data\<rparr>) (bb_extend B (db_buffer db) data)"

definition db_extend_and_fill :: "'b backend \<Rightarrow> ('b, 'h) decode_buffer \<Rightarrow> u8 \<Rightarrow> nat \<Rightarrow> ('b, 'h) decode_buffer option" where
  "db_extend_and_fill B db fill_with fill_length = map_option
     (\<lambda>b. db\<lparr>db_buffer := b, db_total_output_counter := db_total_output_counter db + fill_length\<rparr>) (bb_extend_and_fill B (db_buffer db) fill_with fill_length)"

definition db_advance_output_counter :: "('b, 'h) decode_buffer \<Rightarrow> nat \<Rightarrow> ('b, 'h) decode_buffer" where
  "db_advance_output_counter db n = db\<lparr>db_total_output_counter := db_total_output_counter db + n\<rparr>"

definition db_set_total_output :: "('b, 'h) decode_buffer \<Rightarrow> nat \<Rightarrow> ('b, 'h) decode_buffer" where
  "db_set_total_output db produced = db\<lparr>db_total_output_counter := produced\<rparr>"

definition db_try_push :: "'b backend \<Rightarrow> ('b, 'h) decode_buffer \<Rightarrow> u8 list \<Rightarrow> (('b, 'h) decode_buffer, backend_overflow) result" where
  "db_try_push B db data = rbind (try_extend B (db_buffer db) data)
     (\<lambda>b. Ok (db\<lparr>db_buffer := b, db_total_output_counter := db_total_output_counter db + length data\<rparr>))"

definition db_try_extend_and_fill :: "'b backend \<Rightarrow> ('b, 'h) decode_buffer \<Rightarrow> u8 \<Rightarrow> nat \<Rightarrow> (('b, 'h) decode_buffer, backend_overflow) result" where
  "db_try_extend_and_fill B db fill_with fill_length = rbind (try_extend_and_fill B (db_buffer db) fill_with fill_length)
     (\<lambda>b. Ok (db\<lparr>db_buffer := b, db_total_output_counter := db_total_output_counter db + fill_length\<rparr>))"

section \<open>Match copies\<close>

definition byte_at :: "'b backend \<Rightarrow> 'b \<Rightarrow> nat \<Rightarrow> u8 option" where
  "byte_at B b idx = Option.bind (bb_as_slices B b) (\<lambda>(s1, s2).
     if idx < length s1 then Some (s1 ! idx) else if idx - length s1 < length s2 then Some (s2 ! (idx - length s1)) else None)"

text \<open>A turn that copies nothing would repeat for ever, so it has no result.\<close>

function repeat_in_chunks :: "'b backend \<Rightarrow> 'b \<Rightarrow> nat \<Rightarrow> nat \<Rightarrow> bool \<Rightarrow> 'b option" where
  "repeat_in_chunks B b remaining start_idx use_branchless_copy =
     (if remaining > 0 then
        let run = bb_len B b - start_idx; n = min run remaining in
        if n = 0 then None
        else Option.bind (if use_branchless_copy then bb_extend_from_within_unchecked_branchless B b start_idx n
                          else bb_extend_from_within_unchecked B b start_idx n)
               (\<lambda>b. repeat_in_chunks B b (remaining - n) start_idx use_branchless_copy)
      else Some b)"
  by pat_completeness auto
termination by (relation "measure (\<lambda>(B, b, remaining, start_idx, bl). remaining)") auto

declare repeat_in_chunks.simps [simp del]

text \<open>The sixteen-byte pattern of the offsets 1, 2 and 4, and the loop that appends it.\<close>

definition chunk16 :: "u8 list \<Rightarrow> nat \<Rightarrow> u8 list" where
  "chunk16 base offset = (let b0 = base ! 0; b1 = base ! 1; b2 = base ! 2; b3 = base ! 3 in
     if offset = 1 then replicate 16 b0
     else if offset = 2 then [b0, b1, b0, b1, b0, b1, b0, b1, b0, b1, b0, b1, b0, b1, b0, b1]
     else [b0, b1, b2, b3, b0, b1, b2, b3, b0, b1, b2, b3, b0, b1, b2, b3])"

function append_chunk16 :: "'b backend \<Rightarrow> 'b \<Rightarrow> u8 list \<Rightarrow> nat \<Rightarrow> nat \<Rightarrow> 'b option" where
  "append_chunk16 B b chunk done_so_far match_length =
     (if done_so_far + 16 \<le> match_length then Option.bind (bb_extend B b chunk) (\<lambda>b. append_chunk16 B b chunk (done_so_far + 16) match_length)
      else if done_so_far < match_length then bb_extend B b (take (match_length - done_so_far) chunk)
      else Some b)"
  by pat_completeness auto
termination by (relation "measure (\<lambda>(B, b, chunk, done_so_far, match_length). match_length - done_so_far)") auto

declare append_chunk16.simps [simp del]

text \<open>The eight-byte patterns of the other short offsets, one per phase.\<close>

definition phase_patterns :: "u8 list \<Rightarrow> nat \<Rightarrow> u8 list list" where
  "phase_patterns base offset =
     map (\<lambda>phase. if phase < offset then map (\<lambda>i. base ! ((phase + i) mod offset)) [0..<8] else replicate 8 0) [0..<7]"

function append_phases :: "'b backend \<Rightarrow> 'b \<Rightarrow> u8 list list \<Rightarrow> nat \<Rightarrow> nat \<Rightarrow> nat \<Rightarrow> nat \<Rightarrow> 'b option" where
  "append_phases B b patterns offset phase done_so_far match_length =
     (if done_so_far + 8 \<le> match_length
      then Option.bind (bb_extend B b (patterns ! phase)) (\<lambda>b.
             append_phases B b patterns offset ((phase + 8 mod offset) mod offset) (done_so_far + 8) match_length)
      else if done_so_far < match_length then bb_extend B b (take (match_length - done_so_far) (patterns ! phase))
      else Some b)"
  by pat_completeness auto
termination by (relation "measure (\<lambda>(B, b, patterns, offset, phase, done_so_far, match_length). match_length - done_so_far)") auto

declare append_phases.simps [simp del]

definition repeat_short_offset :: "'b backend \<Rightarrow> 'b \<Rightarrow> nat \<Rightarrow> nat \<Rightarrow> nat \<Rightarrow> 'b option" where
  "repeat_short_offset B b offset match_length start_idx =
     Option.bind (those (map (\<lambda>i. byte_at B b (start_idx + i)) [0..<offset])) (\<lambda>bytes.
       let base = bytes @ replicate (7 - offset) 0 in
       if offset = 1 \<or> offset = 2 \<or> offset = 4 then append_chunk16 B b (chunk16 base offset) 0 match_length
       else append_phases B b (phase_patterns base offset) offset 0 0 match_length)"

text \<open>\<open>bl\<close> is \<open>use_branchless_wildcopy\<close>, fixed by the target.\<close>

definition repeat_overlapping :: "'b backend \<Rightarrow> bool \<Rightarrow> 'b \<Rightarrow> nat \<Rightarrow> nat \<Rightarrow> nat \<Rightarrow> 'b option" where
  "repeat_overlapping B bl b offset match_length start_idx =
     (if offset \<ge> 16 then repeat_in_chunks B b match_length start_idx bl
      else if offset \<ge> 8 then repeat_in_chunks B b match_length start_idx False
      else repeat_short_offset B b offset match_length start_idx)"

fun overflow_error :: "backend_overflow \<Rightarrow> decode_buffer_error" where
  "overflow_error bo = OutputBufferOverflow (bo_tail bo) (bo_requested bo) (bo_capacity bo)"

definition repeat_resident :: "'b backend \<Rightarrow> bool \<Rightarrow> ('b, 'h) decode_buffer \<Rightarrow> nat \<Rightarrow> nat \<Rightarrow> ('b, 'h) decode_buffer \<times> (unit, decode_buffer_error) result" where
  "repeat_resident B bl db offset match_length =
     (let buf_len = bb_len B (db_buffer db); start_idx = buf_len - offset; end_idx = start_idx + match_length in
      case bb_try_reserve B (db_buffer db) match_length of
        Err bo \<Rightarrow> (db, Err (overflow_error bo))
      | Panic \<Rightarrow> (db, Panic)
      | Ok b \<Rightarrow>
          (case (if end_idx > buf_len then repeat_overlapping B bl b offset match_length start_idx
                 else if offset \<ge> 16 \<and> bl then bb_extend_from_within_unchecked_branchless B b start_idx match_length
                 else bb_extend_from_within_unchecked B b start_idx match_length) of
             None \<Rightarrow> (db\<lparr>db_buffer := b\<rparr>, Panic)
           | Some b \<Rightarrow> (db\<lparr>db_buffer := b, db_total_output_counter := db_total_output_counter db + match_length\<rparr>, Ok ())))"

text \<open>
  \<open>repeat_from_dict\<close> is entered only with an offset past the buffer; the copy of what the dictionary does not cover
  calls \<open>repeat\<close> again. \<open>dict\<close> is the content of the dictionary, empty without one.
\<close>

function repeat_inner :: "'b backend \<Rightarrow> bool \<Rightarrow> u8 list \<Rightarrow> ('b, 'h) decode_buffer \<Rightarrow> nat \<Rightarrow> nat \<Rightarrow> ('b, 'h) decode_buffer \<times> (unit, decode_buffer_error) result"
  and repeat_from_dict :: "'b backend \<Rightarrow> bool \<Rightarrow> u8 list \<Rightarrow> ('b, 'h) decode_buffer \<Rightarrow> nat \<Rightarrow> nat \<Rightarrow> ('b, 'h) decode_buffer \<times> (unit, decode_buffer_error) result" where
  "repeat_inner B bl dict db offset match_length =
     (if offset = 0 then (db, Err ZeroOffset)
      else if match_length = 0 then (db, Ok ())
      else if offset > bb_len B (db_buffer db) then repeat_from_dict B bl dict db offset match_length
      else repeat_resident B bl db offset match_length)"
| "repeat_from_dict B bl dict db offset match_length =
     (if offset \<le> bb_len B (db_buffer db) then (db, Panic)
      else if max (db_total_output_counter db) (bb_len B (db_buffer db)) \<le> db_window_size db then
        (let bytes_from_dict = offset - bb_len B (db_buffer db); dict_len = length dict in
         if bytes_from_dict > dict_len then (db, Err (NotEnoughBytesInDictionary dict_len bytes_from_dict))
         else
           (case bb_try_reserve B (db_buffer db) match_length of
              Err bo \<Rightarrow> (db, Err (overflow_error bo))
            | Panic \<Rightarrow> (db, Panic)
            | Ok b \<Rightarrow>
                if bytes_from_dict < match_length then
                  (case bb_extend B b (drop (dict_len - bytes_from_dict) dict) of
                     None \<Rightarrow> (db\<lparr>db_buffer := b\<rparr>, Panic)
                   | Some b \<Rightarrow> repeat_inner B bl dict (db\<lparr>db_buffer := b, db_total_output_counter := db_total_output_counter db + bytes_from_dict\<rparr>)
                                (bb_len B b) (match_length - bytes_from_dict))
                else
                  (case bb_extend B b (take match_length (drop (dict_len - bytes_from_dict) dict)) of
                     None \<Rightarrow> (db\<lparr>db_buffer := b\<rparr>, Panic)
                   | Some b \<Rightarrow> (db\<lparr>db_buffer := b, db_total_output_counter := db_total_output_counter db + match_length\<rparr>, Ok ()))))
      else (db, Err (OffsetTooBig offset (bb_len B (db_buffer db)))))"
  by pat_completeness auto
termination by (relation "measure (case_sum (\<lambda>(B, bl, dict, db, offset, ml). 2 * ml + 1) (\<lambda>(B, bl, dict, db, offset, ml). 2 * ml))") auto

declare repeat_inner.simps [simp del] repeat_from_dict.simps [simp del]

definition dict_match_source :: "'b backend \<Rightarrow> ('b, 'h) decode_buffer \<Rightarrow> u8 list \<Rightarrow> nat \<Rightarrow> nat \<Rightarrow> nat \<Rightarrow> u8 list option" where
  "dict_match_source B db dict_content lit_length offset match_length =
     (let after_literals = bb_len B (db_buffer db) + lit_length in
      if offset \<le> after_literals then None
      else let bytes_from_dict = offset - after_literals;
               total_output = max (db_total_output_counter db) (bb_len B (db_buffer db)) in
        if total_output + lit_length > db_window_size db then None
        else if bytes_from_dict > length dict_content \<or> match_length > bytes_from_dict then None
        else Some (drop (length dict_content - bytes_from_dict) dict_content))"

section \<open>Rollback\<close>

definition db_checkpoint :: "'b backend \<Rightarrow> ('b, 'h) decode_buffer \<Rightarrow> decode_buffer_checkpoint" where
  "db_checkpoint B db = \<lparr>cp_tail = bb_tail B (db_buffer db), cp_total_output_counter = db_total_output_counter db, cp_cap = bb_cap B (db_buffer db)\<rparr>"

definition db_try_restore_checkpoint :: "'b backend \<Rightarrow> ('b, 'h) decode_buffer \<Rightarrow> decode_buffer_checkpoint \<Rightarrow> ('b, 'h) decode_buffer \<times> bool" where
  "db_try_restore_checkpoint B db cp =
     (if bb_cap B (db_buffer db) \<noteq> cp_cap cp then (db, False)
      else (db\<lparr>db_buffer := bb_set_tail B (db_buffer db) (cp_tail cp), db_total_output_counter := cp_total_output_counter cp\<rparr>, True))"

section \<open>Delivery\<close>

definition undelivered :: "'b backend \<Rightarrow> ('b, 'h) decode_buffer \<Rightarrow> nat" where
  "undelivered B db = bb_len B (db_buffer db) - db_delivered db"

definition mark_delivered :: "'b backend \<Rightarrow> ('b, 'h) decode_buffer \<Rightarrow> ('b, 'h) decode_buffer" where
  "mark_delivered B db = db\<lparr>db_delivered := bb_len B (db_buffer db)\<rparr>"

definition release_delivered :: "'b backend \<Rightarrow> ('b, 'h) decode_buffer \<Rightarrow> bool \<Rightarrow> ('b, 'h) decode_buffer" where
  "release_delivered B db keep_window =
     (let keep = (if keep_window then db_window_size db else 0) in
      if bb_len B (db_buffer db) < keep then db
      else let release = min (bb_len B (db_buffer db) - keep) (db_delivered db) in
        if release \<noteq> 0 then db\<lparr>db_buffer := bb_drop_first_n B (db_buffer db) release, db_delivered := db_delivered db - release\<rparr> else db)"

definition hash_write :: "('h \<Rightarrow> u8 list \<Rightarrow> 'h) \<Rightarrow> ('b, 'h) decode_buffer \<Rightarrow> u8 list \<Rightarrow> ('b, 'h) decode_buffer" where
  "hash_write hw db bytes = (if db_compute_hash db then db\<lparr>db_hash := hw (db_hash db) bytes, db_hash_dirty := True\<rparr> else db)"

text \<open>
  \<open>write sink bytes\<close> is the closure \<open>write_bytes\<close>: the sink after it, how many bytes it took and its outcome.
\<close>

definition deliver_to :: "'b backend \<Rightarrow> ('h \<Rightarrow> u8 list \<Rightarrow> 'h) \<Rightarrow> ('s \<Rightarrow> u8 list \<Rightarrow> 's \<times> nat \<times> (unit, 'e) result) \<Rightarrow> ('b, 'h) decode_buffer \<Rightarrow> 's \<Rightarrow> nat \<Rightarrow> bool
    \<Rightarrow> (('b, 'h) decode_buffer \<times> 's \<times> (nat, 'e) result) option" where
  "deliver_to B hw write db sink amount keep_window =
     (let amount = min amount (undelivered B db) in
      map_option (\<lambda>(db, sink, taken, outcome).
          (release_delivered B (db\<lparr>db_delivered := db_delivered db + taken\<rparr>) keep_window, sink, rbind outcome (\<lambda>_. Ok taken)))
        (if amount \<noteq> 0 then
           Option.bind (bb_as_slices B (db_buffer db)) (\<lambda>(s1, s2).
           let start = db_delivered db;
               (head, tail) = (if start \<ge> length s1 then (drop (start - length s1) s2, []) else (drop start s1, s2));
               n1 = min (length head) amount; n2 = min (length tail) (amount - n1);
               (sink, written1, result1) = write sink (take n1 head) in
           if written1 > length head then None
           else
             let db = hash_write hw db (take written1 head) in
             if result1 = Ok () \<and> written1 = n1 \<and> n2 \<noteq> 0 then
               (let (sink, written2, result2) = write sink (take n2 tail) in
                if written2 > length tail then None
                else Some (hash_write hw db (take written2 tail), sink, written1 + written2, result2))
             else Some (db, sink, written1, result1))
         else Some (db, sink, 0, Ok ())))"

text \<open>The closure of \<open>drain\<close> and \<open>drain_to_window_size\<close>: append to a vector.\<close>

definition vec_sink :: "u8 list \<Rightarrow> u8 list \<Rightarrow> u8 list \<times> nat \<times> (unit, 'e) result" where
  "vec_sink vec buf = (vec @ buf, length buf, Ok ())"

text \<open>The closure of \<open>deliver_into\<close>: write behind what was written into the target.\<close>

fun target_sink :: "u8 list \<times> nat \<Rightarrow> u8 list \<Rightarrow> (u8 list \<times> nat) \<times> nat \<times> (unit, 'e) result" where
  "target_sink (target, written) buf =
     (case store_bytes target written buf of
        Some target \<Rightarrow> ((target, written + length buf), length buf, Ok ())
      | None \<Rightarrow> ((target, written), 0, Panic))"

definition drain :: "'b backend \<Rightarrow> ('h \<Rightarrow> u8 list \<Rightarrow> 'h) \<Rightarrow> ('b, 'h) decode_buffer \<Rightarrow> (('b, 'h) decode_buffer \<times> u8 list) option" where
  "drain B hw db = map_option (\<lambda>(db, vec, r :: (nat, unit) result). (db, vec)) (deliver_to B hw vec_sink db [] (undelivered B db) False)"

definition drain_to_window_size :: "'b backend \<Rightarrow> ('h \<Rightarrow> u8 list \<Rightarrow> 'h) \<Rightarrow> ('b, 'h) decode_buffer \<Rightarrow> (('b, 'h) decode_buffer \<times> u8 list option) option" where
  "drain_to_window_size B hw db =
     (if undelivered B db = 0 then Some (db, None)
      else map_option (\<lambda>(db, vec, r :: (nat, unit) result). (db, case r of Ok _ \<Rightarrow> Some vec | _ \<Rightarrow> None)) (deliver_to B hw vec_sink db [] (undelivered B db) True))"

definition deliver_into :: "'b backend \<Rightarrow> ('h \<Rightarrow> u8 list \<Rightarrow> 'h) \<Rightarrow> ('b, 'h) decode_buffer \<Rightarrow> u8 list \<Rightarrow> nat \<Rightarrow> bool \<Rightarrow> (('b, 'h) decode_buffer \<times> u8 list \<times> (nat, unit) result) option" where
  "deliver_into B hw db target amount keep_window =
     map_option (\<lambda>(db, (target, written), r). (db, target, r)) (deliver_to B hw target_sink db (target, 0) amount keep_window)"

definition read_all :: "'b backend \<Rightarrow> ('h \<Rightarrow> u8 list \<Rightarrow> 'h) \<Rightarrow> ('b, 'h) decode_buffer \<Rightarrow> u8 list \<Rightarrow> (('b, 'h) decode_buffer \<times> u8 list \<times> (nat, unit) result) option" where
  "read_all B hw db target = deliver_into B hw db target (min (undelivered B db) (length target)) False"

definition read_reporting_pending :: "'b backend \<Rightarrow> ('h \<Rightarrow> u8 list \<Rightarrow> 'h) \<Rightarrow> ('b, 'h) decode_buffer \<Rightarrow> u8 list \<Rightarrow> (('b, 'h) decode_buffer \<times> u8 list \<times> (nat \<times> nat, unit) result) option" where
  "read_reporting_pending B hw db target =
     (let waiting = undelivered B db; amount = min waiting (length target) in
      map_option (\<lambda>(db, target, r). (db, target, rbind r (\<lambda>_. Ok (amount, waiting - amount)))) (deliver_into B hw db target amount True))"

text \<open>\<open>write_all_bytes\<close> over a sink whose \<open>write\<close> takes some of the bytes, none when it is full, or fails.\<close>

function write_all_from :: "('s \<Rightarrow> u8 list \<Rightarrow> 's \<times> (nat, 'e) result) \<Rightarrow> 's \<Rightarrow> u8 list \<Rightarrow> nat \<Rightarrow> 's \<times> nat \<times> (unit, 'e) result" where
  "write_all_from wr sink buf written =
     (if written < length buf then
        (case wr sink (drop written buf) of
           (sink, Ok w) \<Rightarrow> if w = 0 then (sink, written, Ok ()) else write_all_from wr sink buf (written + w)
         | (sink, Err e) \<Rightarrow> (sink, written, Err e)
         | (sink, Panic) \<Rightarrow> (sink, written, Panic))
      else (sink, written, Ok ()))"
  by pat_completeness auto
termination by (relation "measure (\<lambda>(wr, sink, buf, written). length buf - written)") auto

declare write_all_from.simps [simp del]

definition write_all_bytes :: "('s \<Rightarrow> u8 list \<Rightarrow> 's \<times> (nat, 'e) result) \<Rightarrow> 's \<Rightarrow> u8 list \<Rightarrow> 's \<times> nat \<times> (unit, 'e) result" where
  "write_all_bytes wr sink buf = write_all_from wr sink buf 0"

definition drain_to_writer :: "'b backend \<Rightarrow> ('h \<Rightarrow> u8 list \<Rightarrow> 'h) \<Rightarrow> ('s \<Rightarrow> u8 list \<Rightarrow> 's \<times> (nat, 'e) result) \<Rightarrow> ('b, 'h) decode_buffer \<Rightarrow> 's \<Rightarrow> (('b, 'h) decode_buffer \<times> 's \<times> (nat, 'e) result) option" where
  "drain_to_writer B hw wr db sink = deliver_to B hw (write_all_bytes wr) db sink (undelivered B db) False"

definition drain_to_window_size_writer :: "'b backend \<Rightarrow> ('h \<Rightarrow> u8 list \<Rightarrow> 'h) \<Rightarrow> ('s \<Rightarrow> u8 list \<Rightarrow> 's \<times> (nat, 'e) result) \<Rightarrow> ('b, 'h) decode_buffer \<Rightarrow> 's \<Rightarrow> (('b, 'h) decode_buffer \<times> 's \<times> (nat, 'e) result) option" where
  "drain_to_window_size_writer B hw wr db sink = deliver_to B hw (write_all_bytes wr) db sink (undelivered B db) True"

definition drop_to_window_size :: "'b backend \<Rightarrow> ('b, 'h) decode_buffer \<Rightarrow> ('b, 'h) decode_buffer \<times> nat" where
  "drop_to_window_size B db =
     (let n = bb_len B (db_buffer db) in
      if n \<le> db_window_size db then (db, 0)
      else let can_drop = n - db_window_size db in
        (db\<lparr>db_total_output_counter := max (db_total_output_counter db) n, db_buffer := bb_drop_first_n B (db_buffer db) can_drop,
            db_delivered := db_delivered db - min (db_delivered db) can_drop\<rparr>, can_drop))"

definition discard_front :: "'b backend \<Rightarrow> ('b, 'h) decode_buffer \<Rightarrow> nat \<Rightarrow> ('b, 'h) decode_buffer" where
  "discard_front B db n =
     (if n \<noteq> 0 then db\<lparr>db_buffer := bb_drop_first_n B (db_buffer db) n, db_delivered := db_delivered db - min (db_delivered db) n\<rparr> else db)"

definition prime_window :: "'b backend \<Rightarrow> ('b, 'h) decode_buffer \<Rightarrow> u8 list \<Rightarrow> nat \<Rightarrow> ('b, 'h) decode_buffer option" where
  "prime_window B db prefix total_output =
     map_option (\<lambda>b. (mark_delivered B (db\<lparr>db_buffer := b\<rparr>))\<lparr>db_total_output_counter := total_output\<rparr>) (bb_extend B (db_buffer db) prefix)"

definition deliver_newest :: "'b backend \<Rightarrow> ('h \<Rightarrow> u8 list \<Rightarrow> 'h) \<Rightarrow> ('b, 'h) decode_buffer \<Rightarrow> nat \<Rightarrow> u8 list \<Rightarrow> (('b, 'h) decode_buffer \<times> u8 list) option" where
  "deliver_newest B hw db n target =
     Option.bind (bb_as_slices B (db_buffer db)) (\<lambda>(s1, s2).
       let total = length s1 + length s2; start = total - n;
           (head, tail) = (if start \<ge> length s1 then ([], drop (start - length s1) s2) else (drop start s1, s2)) in
       if length head \<le> length target \<and> length head + length tail = n \<and> n \<le> length target
       then Some (release_delivered B ((hash_write hw (hash_write hw db head) tail)\<lparr>db_delivered := total\<rparr>) True, head @ tail @ drop n target)
       else None)"

end
