(* ===== verification/Match_Copy.thy ===== *)
theory Match_Copy
  imports Decode_Buffer
begin

text \<open>
  A match copy appends what copying byte by byte from \<open>offset\<close> bytes back would append, whatever the overlap, the
  backend, the copy kernel and the path taken: proved once inside the backend's contract, then stated for the ring
  and the flat buffer.
\<close>

section \<open>The reference\<close>

primrec lz_copy :: "u8 list \<Rightarrow> nat \<Rightarrow> nat \<Rightarrow> u8 list" where
  "lz_copy hist offset 0 = hist"
| "lz_copy hist offset (Suc n) = lz_copy (hist @ [hist ! (length hist - offset)]) offset n"

text \<open>The same bytes in closed form: the last \<open>offset\<close> bytes, repeated.\<close>

definition lz_bytes :: "u8 list \<Rightarrow> nat \<Rightarrow> nat \<Rightarrow> u8 list" where
  "lz_bytes hist offset n = map (\<lambda>i. hist ! (length hist - offset + i mod offset)) [0..<n]"

lemma length_lz_bytes [simp]: "length (lz_bytes hist offset n) = n"
  by (simp add: lz_bytes_def)

lemma lz_bytes_nth: "i < n \<Longrightarrow> lz_bytes hist offset n ! i = hist ! (length hist - offset + i mod offset)"
  by (simp add: lz_bytes_def)

lemma lz_bytes_Suc:
  assumes "0 < offset" "offset \<le> length hist"
  shows "lz_bytes hist offset (Suc n) = hist ! (length hist - offset) # lz_bytes (hist @ [hist ! (length hist - offset)]) offset n"
proof (rule nth_equalityI)
  let ?x = "hist ! (length hist - offset)"
  fix i assume i: "i < length (lz_bytes hist offset (Suc n))"
  show "lz_bytes hist offset (Suc n) ! i = (?x # lz_bytes (hist @ [?x]) offset n) ! i"
  proof (cases i)
    case 0
    then show ?thesis by (simp add: lz_bytes_nth)
  next
    case (Suc j)
    have m: "j mod offset < offset" using assms by simp
    have "(hist @ [?x]) ! (length hist + 1 - offset + j mod offset) = hist ! (length hist - offset + Suc j mod offset)"
    proof (cases "Suc (j mod offset) = offset")
      case True
      then show ?thesis using assms by (simp add: nth_append mod_Suc)
    next
      case False
      then have "Suc j mod offset = Suc (j mod offset)" "Suc (j mod offset) < offset" using m by (simp_all add: mod_Suc)
      moreover have "length hist + 1 - offset + j mod offset = length hist - offset + Suc (j mod offset)"
        "length hist - offset + Suc (j mod offset) < length hist"
        using assms calculation(2) by linarith+
      ultimately show ?thesis by (simp add: nth_append)
    qed
    then show ?thesis using i Suc by (simp add: lz_bytes_nth)
  qed
qed simp

lemma lz_copy_bytes: "0 < offset \<Longrightarrow> offset \<le> length hist \<Longrightarrow> lz_copy hist offset n = hist @ lz_bytes hist offset n"
proof (induction n arbitrary: hist)
  case (Suc n)
  then show ?case using lz_bytes_Suc [OF Suc.prems] by simp
qed (simp add: lz_bytes_def)

text \<open>A run that starts on a period boundary continues the repetition.\<close>

lemma lz_bytes_add:
  assumes "0 < offset"
  shows "lz_bytes hist offset (m + n) = lz_bytes hist offset m @ map (\<lambda>i. hist ! (length hist - offset + (m + i) mod offset)) [0..<n]"
proof -
  have "map (\<lambda>i. i + m) [0..<n] = [m..<n + m]" by (rule map_add_upt)
  then have "[0..<m + n] = [0..<m] @ map (\<lambda>i. i + m) [0..<n]" using upt_add_eq_append [of 0 m n] by (simp add: add.commute)
  then show ?thesis by (simp add: lz_bytes_def add.commute)
qed

lemma lz_run_source:
  assumes "0 < offset" "offset \<le> length hist" "n \<le> offset + m"
  shows "take n (drop (length hist - offset) (hist @ lz_bytes hist offset m)) = lz_bytes hist offset n"
proof (rule nth_equalityI)
  fix i assume "i < length (take n (drop (length hist - offset) (hist @ lz_bytes hist offset m)))"
  then have i: "i < n" "i < offset + m" using assms by auto
  show "take n (drop (length hist - offset) (hist @ lz_bytes hist offset m)) ! i = lz_bytes hist offset n ! i"
  proof (cases "i < offset")
    case True
    then show ?thesis using i assms by (simp add: nth_append lz_bytes_nth)
  next
    case False
    have "i mod offset = (i - offset) mod offset" using False by (simp add: le_mod_geq)
    moreover have "length hist - offset + i - length hist = i - offset" using assms(2) False by simp
    ultimately show ?thesis using i False assms by (simp add: nth_append lz_bytes_nth)
  qed
qed (use assms in simp)

lemma lz_bytes_period:
  assumes "0 < offset" "offset dvd m"
  shows "lz_bytes hist offset (m + n) = lz_bytes hist offset m @ lz_bytes hist offset n"
proof -
  have "(m + i) mod offset = i mod offset" for i using assms(2) by (metis dvd_eq_mod_eq_0 mod_add_left_eq add_0)
  then show ?thesis using lz_bytes_add [OF assms(1)] by (simp add: lz_bytes_def)
qed

text \<open>A source inside the buffer is one plain run.\<close>

lemma lz_bytes_plain:
  assumes "offset \<le> length hist" "n \<le> offset"
  shows "lz_bytes hist offset n = take n (drop (length hist - offset) hist)"
  using assms by (auto intro!: nth_equalityI simp: lz_bytes_nth)

text \<open>A source that begins in the dictionary: its tail first, then the repetition over the buffer it was added to.\<close>

lemma lz_bytes_dict:
  assumes "length xs < offset" "offset \<le> length dict + length xs" "offset - length xs \<le> n"
  defines "t \<equiv> drop (length dict + length xs - offset) dict"
  shows "lz_bytes (dict @ xs) offset n = t @ lz_bytes (xs @ t) offset (n - length t)"
proof (rule nth_equalityI)
  let ?b = "offset - length xs"
  have t: "length t = ?b" using assms(1,2) by (simp add: t_def)
  show "length (lz_bytes (dict @ xs) offset n) = length (t @ lz_bytes (xs @ t) offset (n - length t))" using t assms(3) by simp
  fix i assume "i < length (lz_bytes (dict @ xs) offset n)"
  then have i: "i < n" by simp
  show "lz_bytes (dict @ xs) offset n ! i = (t @ lz_bytes (xs @ t) offset (n - length t)) ! i"
  proof (cases "i < ?b")
    case True
    then have "i mod offset = i" "length dict + length xs - offset + i < length dict" using assms(1,2) by auto
    then show ?thesis using i True t by (simp add: lz_bytes_nth nth_append t_def add.commute)
  next
    case False
    define p where "p = (i - ?b) mod offset"
    have p: "p < offset" using assms(1) by (simp add: p_def)
    have im: "i mod offset = (p + ?b) mod offset" using False by (simp add: p_def mod_add_left_eq)
    have R: "(t @ lz_bytes (xs @ t) offset (n - length t)) ! i = (xs @ t) ! p"
      using False i t assms(1) by (simp add: nth_append lz_bytes_nth p_def)
    show ?thesis
    proof (cases "p < length xs")
      case True
      then have "i mod offset = p + ?b" using im assms(1) by simp
      then show ?thesis using R True i assms(1,2) by (simp add: lz_bytes_nth nth_append)
    next
      case nl: False
      then have "offset \<le> p + ?b" "p + ?b - offset < offset" "p + ?b - offset = p - length xs" using assms(1) p by auto
      then have m: "i mod offset = p - length xs" using im by (simp add: le_mod_geq)
      have "length dict + length xs - offset + (p - length xs) < length dict" using nl p assms(1,2) by linarith
      then show ?thesis using R nl i m p assms(1,2) by (simp add: lz_bytes_nth nth_append t_def)
    qed
  qed
qed

section \<open>The copies of the buffer\<close>

definition lz_from :: "u8 list \<Rightarrow> nat \<Rightarrow> nat \<Rightarrow> nat \<Rightarrow> u8 list" where
  "lz_from hist offset p n = map (\<lambda>i. hist ! (length hist - offset + (p + i) mod offset)) [0..<n]"

lemma lz_from_0: "lz_from hist offset 0 n = lz_bytes hist offset n"
  by (simp add: lz_from_def lz_bytes_def)

lemma length_lz_from [simp]: "length (lz_from hist offset p n) = n"
  by (simp add: lz_from_def)

lemma take_lz_from: "k \<le> n \<Longrightarrow> take k (lz_from hist offset p n) = lz_from hist offset p k"
  by (simp add: lz_from_def take_map)

lemma lz_from_add: "lz_from hist offset p (m + n) = lz_from hist offset p m @ lz_from hist offset ((p + m) mod offset) n"
proof (rule nth_equalityI)
  fix i assume "i < length (lz_from hist offset p (m + n))"
  moreover have "((p + m) mod offset + (i - m)) mod offset = (p + i) mod offset" if "m \<le> i"
    using mod_add_left_eq [of "p + m" offset "i - m"] that by simp
  moreover have "[0..<n] ! (i - m) = i - m" if "m \<le> i" using calculation(1) that by simp
  ultimately show "lz_from hist offset p (m + n) ! i = (lz_from hist offset p m @ lz_from hist offset ((p + m) mod offset) n) ! i"
    by (cases "m \<le> i") (simp_all add: lz_from_def nth_append)
qed simp

lemma take_lz_bytes: "k \<le> n \<Longrightarrow> take k (lz_bytes hist offset n) = lz_bytes hist offset k"
  using take_lz_from [of k n hist offset 0] by (simp add: lz_from_0)

lemma chunk16_pattern:
  assumes "offset = 1 \<or> offset = 2 \<or> offset = 4" "\<forall>i < offset. base ! i = hist ! (length hist - offset + i)"
  shows "chunk16 base offset = lz_bytes hist offset 16"
proof -
  have u: "[0..<16] = [0, 1, 2, 3, 4, 5, 6, 7, 8, 9, 10, 11, 12, 13, 14, 15 :: nat]" by code_simp
  have replicate_16: "replicate 16 x = [x, x, x, x, x, x, x, x, x, x, x, x, x, x, x, x]" for x :: u8 by (simp add: numeral_eq_Suc)
  have b: "base ! (i mod offset) = hist ! (length hist - offset + i mod offset)" for i using assms by auto
  have "lz_bytes hist offset 16 = map (\<lambda>i. base ! (i mod offset)) [0..<16]" by (simp add: lz_bytes_def b)
  also have "\<dots> = chunk16 base offset" using assms(1) by (elim disjE) (simp_all add: chunk16_def u replicate_16 Let_def)
  finally show ?thesis by simp
qed

lemma phase_pattern:
  assumes "0 < offset" "offset \<le> 7" "phase < offset" "\<forall>i < offset. base ! i = hist ! (length hist - offset + i)"
  shows "phase_patterns base offset ! phase = lz_from hist offset phase 8"
  using assms by (simp add: phase_patterns_def lz_from_def)

context buffer_backend
begin

abbreviation app :: "'b \<Rightarrow> u8 list \<Rightarrow> 'b \<Rightarrow> bool" where
  "app b ys b' \<equiv> wrote B ok contents writable limit same_base b ys b'"

lemma wrote_ok: "app b ys b' \<Longrightarrow> ok b'" "app b ys b' \<Longrightarrow> contents b' = contents b @ ys" "app b ys b' \<Longrightarrow> limit b' = limit b"
    "app b ys b' \<Longrightarrow> writable b (length ys + m) \<Longrightarrow> writable b' m"
  by (simp_all add: wrote_def)

lemma wrote_refl: "ok b \<Longrightarrow> app b [] b"
  by (simp add: wrote_def base)

lemma wrote_trans:
  assumes "app b xs b'" "app b' ys b''"
  shows "app b (xs @ ys) b''"
proof -
  have "writable b'' m" if "writable b (length xs + length ys + m)" for m using assms that by (simp add: wrote_def add.assoc)
  moreover have "same_base b b''" if "bb_cap B b'' = bb_cap B b"
    using assms that base(2) by (auto simp: wrote_def)
  ultimately show ?thesis using assms by (auto simp: wrote_def)
qed

lemma within_any:
  assumes "ok b" "start + n \<le> length (contents b)" "room b n"
  shows "\<exists>b'. (if bl then bb_extend_from_within_unchecked_branchless B b start n else bb_extend_from_within_unchecked B b start n) = Some b'
      \<and> app b (take n (drop start (contents b))) b' \<and> (\<forall>m. room b (n + m) \<longrightarrow> room b' m)"
  using within [OF assms] branchless [OF assms] by auto

lemma repeat_in_chunks_ok:
  assumes off: "0 < offset" "offset \<le> length hist"
  shows "\<lbrakk>ok b; contents b = hist @ lz_bytes hist offset m; offset dvd m; room b remaining\<rbrakk> \<Longrightarrow>
    \<exists>b'. repeat_in_chunks B b remaining (length hist - offset) bl = Some b' \<and> app b (lz_bytes hist offset remaining) b'"
proof (induction remaining arbitrary: b m rule: less_induct)
  case (less remaining)
  show ?case
  proof (cases "remaining = 0")
    case True
    then show ?thesis using wrote_refl [OF less.prems(1)] by (simp add: repeat_in_chunks.simps [of B b] lz_bytes_def)
  next
    case False
    let ?start = "length hist - offset" and ?n = "min (offset + m) remaining"
    have run: "bb_len B b - ?start = offset + m" using len [OF less.prems(1)] less.prems(2) off(2) by simp
    have n: "0 < ?n" using off(1) False by simp
    have "room b ?n" using room_mono [OF less.prems(1,4)] by simp
    moreover have "?start + ?n \<le> length (contents b)" using less.prems(2) off(2) by simp
    moreover have "take ?n (drop ?start (contents b)) = lz_bytes hist offset ?n" unfolding less.prems(2) by (rule lz_run_source [OF off]) simp
    ultimately obtain b1 where b1: "(if bl then bb_extend_from_within_unchecked_branchless B b ?start ?n else bb_extend_from_within_unchecked B b ?start ?n) = Some b1"
        "app b (lz_bytes hist offset ?n) b1" "\<forall>m. room b (?n + m) \<longrightarrow> room b1 m"
      using within_any [OF less.prems(1), of ?start ?n bl] by auto
    have c1: "contents b1 = hist @ lz_bytes hist offset (m + ?n)"
      using wrote_ok(2) [OF b1(2)] less.prems(2) lz_bytes_period [OF off(1) less.prems(3)] by simp
    have go: "repeat_in_chunks B b remaining ?start bl = repeat_in_chunks B b1 (remaining - ?n) ?start bl"
    proof -
      have nz: "(?n = 0) = False" "(0 < remaining) = True" using n False by simp_all
      show ?thesis by (subst repeat_in_chunks.simps) (simp only: run Let_def nz if_True if_False b1(1) Option.bind.bind_lunit)
    qed
    show ?thesis
    proof (cases "remaining \<le> offset + m")
      case True
      then have "?n = remaining" by simp
      then show ?thesis using go b1(2) by (simp add: repeat_in_chunks.simps [of B b1])
    next
      case nl: False
      then have nn: "?n = offset + m" "?n < remaining" by simp_all
      have "room b1 (remaining - ?n)" using b1(3) less.prems(4) nn(2) by simp
      moreover have "offset dvd ?n" "offset dvd m + ?n" unfolding nn(1) using less.prems(3) by simp_all
      ultimately obtain b2 where b2: "repeat_in_chunks B b1 (remaining - ?n) ?start bl = Some b2" "app b1 (lz_bytes hist offset (remaining - ?n)) b2"
        using less.IH [of "remaining - ?n" b1 "m + ?n"] wrote_ok(1) [OF b1(2)] c1 n nn(2) by auto
      have "lz_bytes hist offset ?n @ lz_bytes hist offset (remaining - ?n) = lz_bytes hist offset remaining"
        using lz_bytes_period [OF off(1) \<open>offset dvd ?n\<close>, of hist "remaining - ?n"] nn(2) by simp
      then show ?thesis using go b2(1) wrote_trans [OF b1(2) b2(2)] by auto
    qed
  qed
qed

lemma append_chunk16_ok:
  assumes off: "0 < offset" "offset dvd 16" and chunk: "chunk = lz_bytes hist offset 16"
  shows "\<lbrakk>ok b; writable b (match_length - c)\<rbrakk> \<Longrightarrow>
    \<exists>b'. append_chunk16 B b chunk c match_length = Some b' \<and> app b (lz_bytes hist offset (match_length - c)) b'"
proof (induction "match_length - c" arbitrary: b c rule: less_induct)
  case less
  show ?case
  proof (cases "c + 16 \<le> match_length")
    case True
    have "writable b (length chunk)" using writable_mono [OF less.prems(2)] True chunk by simp
    then obtain b1 where b1: "bb_extend B b chunk = Some b1" "app b chunk b1" using extend [OF less.prems(1)] by blast
    define r where "r = match_length - (c + 16)"
    have e: "match_length - c = 16 + r" "match_length - (c + 16) = r" using True by (simp_all add: r_def)
    have "writable b1 r" using wrote_ok(4) [OF b1(2)] less.prems(2) chunk e by simp
    then obtain b2 where b2: "append_chunk16 B b1 chunk (c + 16) match_length = Some b2" "app b1 (lz_bytes hist offset r) b2"
      using less.hyps [of "c + 16" b1] wrote_ok(1) [OF b1(2)] by (auto simp: e)
    have "app b (lz_bytes hist offset (match_length - c)) b2"
      using wrote_trans [OF b1(2) b2(2)] lz_bytes_period [OF off(1,2), of hist r] chunk e by simp
    then show ?thesis using b1(1) b2(1) True by (simp add: append_chunk16.simps [of B b])
  next
    case False
    then have t: "take (match_length - c) chunk = lz_bytes hist offset (match_length - c)" using chunk by (simp add: take_lz_bytes)
    then have ex: "\<exists>b'. bb_extend B b (lz_bytes hist offset (match_length - c)) = Some b' \<and> app b (lz_bytes hist offset (match_length - c)) b'"
      using extend [OF less.prems(1), of "lz_bytes hist offset (match_length - c)"] less.prems(2) by simp
    then show ?thesis
    proof (cases "c < match_length")
      case True
      then show ?thesis using ex by (subst append_chunk16.simps) (simp only: False if_True if_False t)
    next
      case nl: False
      then show ?thesis using wrote_refl [OF less.prems(1)] False by (simp add: append_chunk16.simps [of B b] lz_bytes_def)
    qed
  qed
qed

lemma append_phases_ok:
  assumes off: "0 < offset" "offset \<le> 7" and pat: "\<And>phase. phase < offset \<Longrightarrow> patterns ! phase = lz_from hist offset phase 8"
  shows "\<lbrakk>ok b; writable b (match_length - c); phase < offset\<rbrakk> \<Longrightarrow>
    \<exists>b'. append_phases B b patterns offset phase c match_length = Some b' \<and> app b (lz_from hist offset phase (match_length - c)) b'"
proof (induction "match_length - c" arbitrary: b c phase rule: less_induct)
  case less
  note p = pat [OF less.prems(3)]
  show ?case
  proof (cases "c + 8 \<le> match_length")
    case True
    have "writable b (length (patterns ! phase))" using writable_mono [OF less.prems(2)] True p by simp
    then obtain b1 where b1: "bb_extend B b (patterns ! phase) = Some b1" "app b (patterns ! phase) b1" using extend [OF less.prems(1)] by blast
    define r where "r = match_length - (c + 8)"
    have e: "match_length - c = 8 + r" "match_length - (c + 8) = r" using True by (simp_all add: r_def)
    let ?q = "(phase + 8 mod offset) mod offset"
    have q: "?q = (phase + 8) mod offset" "?q < offset" using off(1) by (simp_all add: mod_add_right_eq)
    have "writable b1 r" using wrote_ok(4) [OF b1(2)] less.prems(2) p e by simp
    then obtain b2 where b2: "append_phases B b1 patterns offset ?q (c + 8) match_length = Some b2"
        "app b1 (lz_from hist offset ?q r) b2"
      using less.hyps [of "c + 8" b1 ?q] wrote_ok(1) [OF b1(2)] q(2) by (auto simp: e)
    have "app b (lz_from hist offset phase (match_length - c)) b2"
      using wrote_trans [OF b1(2) b2(2)] lz_from_add [of hist offset phase 8 r] p e q(1) by simp
    then show ?thesis using b1(1) b2(1) True by (simp add: append_phases.simps [of B b])
  next
    case False
    then have t: "take (match_length - c) (patterns ! phase) = lz_from hist offset phase (match_length - c)" using p by (simp add: take_lz_from)
    then have ex: "\<exists>b'. bb_extend B b (lz_from hist offset phase (match_length - c)) = Some b' \<and> app b (lz_from hist offset phase (match_length - c)) b'"
      using extend [OF less.prems(1), of "lz_from hist offset phase (match_length - c)"] less.prems(2) by simp
    then show ?thesis
    proof (cases "c < match_length")
      case True
      then show ?thesis using ex by (subst append_phases.simps) (simp only: False if_True if_False t)
    next
      case nl: False
      then show ?thesis using wrote_refl [OF less.prems(1)] False by (simp add: append_phases.simps [of B b] lz_from_def)
    qed
  qed
qed

lemma byte_at_contents: "ok b \<Longrightarrow> i < length (contents b) \<Longrightarrow> byte_at B b i = Some (contents b ! i)"
proof -
  assume a: "ok b" "i < length (contents b)"
  obtain s1 s2 where s: "bb_as_slices B b = Some (s1, s2)" "contents b = s1 @ s2" using slices [OF a(1)] by metis
  then show ?thesis using a(2) by (auto simp: byte_at_def nth_append)
qed

lemma those_Some: "(\<And>i. i \<in> set is \<Longrightarrow> f i = Some (g i)) \<Longrightarrow> those (map f is) = Some (map g is)"
  by (induction "is") auto

lemma repeat_short_offset_ok:
  assumes ok: "ok b" and off: "0 < offset" "offset \<le> 7" "offset \<le> length (contents b)" and wr: "writable b match_length"
  shows "\<exists>b'. repeat_short_offset B b offset match_length (length (contents b) - offset) = Some b' \<and> app b (lz_bytes (contents b) offset match_length) b'"
proof -
  let ?h = "contents b" and ?s = "length (contents b) - offset"
  let ?base = "map (\<lambda>i. ?h ! (?s + i)) [0..<offset] @ replicate (7 - offset) 0"
  have bytes: "those (map (\<lambda>i. byte_at B b (?s + i)) [0..<offset]) = Some (map (\<lambda>i. ?h ! (?s + i)) [0..<offset])"
    using off(3) by (intro those_Some byte_at_contents [OF ok]) auto
  have base: "\<forall>i < offset. ?base ! i = ?h ! (?s + i)" by (simp add: nth_append)
  show ?thesis
  proof (cases "offset = 1 \<or> offset = 2 \<or> offset = 4")
    case True
    have "offset dvd 16" using True by auto
    then show ?thesis using append_chunk16_ok [OF off(1) _ chunk16_pattern [OF True base], of b match_length 0] ok wr True bytes
      by (simp add: repeat_short_offset_def Let_def)
  next
    case False
    then show ?thesis
      using append_phases_ok [OF off(1,2) phase_pattern [OF off(1,2) _ base], of b match_length 0 0] ok wr off(1) bytes
      by (simp add: repeat_short_offset_def Let_def lz_from_0)
  qed
qed

lemma repeat_overlapping_ok:
  assumes ok: "ok b" and off: "0 < offset" "offset \<le> length (contents b)" and wr: "writable b match_length" "room b match_length"
  shows "\<exists>b'. repeat_overlapping B bl b offset match_length (length (contents b) - offset) = Some b' \<and> app b (lz_bytes (contents b) offset match_length) b'"
proof (cases "offset \<ge> 8")
  case True
  have "contents b = contents b @ lz_bytes (contents b) offset 0" by (simp add: lz_bytes_def)
  from repeat_in_chunks_ok [OF off ok this _ wr(2)] show ?thesis using True by (simp add: repeat_overlapping_def)
next
  case False
  then show ?thesis using repeat_short_offset_ok [OF ok off(1) _ off(2) wr(1)] by (simp add: repeat_overlapping_def)
qed

lemma repeat_resident_ok:
  assumes ok: "ok (db_buffer db)" and off: "0 < offset" "offset \<le> length (contents (db_buffer db))" and wr: "writable (db_buffer db) match_length"
    and lim: "length (contents (db_buffer db)) + match_length \<le> limit (db_buffer db)"
  shows "\<exists>b'. repeat_resident B bl db offset match_length
        = (db\<lparr>db_buffer := b', db_total_output_counter := db_total_output_counter db + match_length\<rparr>, Ok ())
      \<and> app (db_buffer db) (lz_bytes (contents (db_buffer db)) offset match_length) b'"
proof -
  let ?b = "db_buffer db" and ?s = "length (contents (db_buffer db)) - offset"
  obtain b1 where b1: "bb_try_reserve B ?b match_length = Ok b1" "app ?b [] b1" "room b1 match_length"
    using try_reserve [OF ok wr lim] by blast
  have c1: "ok b1" "contents b1 = contents ?b" using wrote_ok(1,2) [OF b1(2)] by simp_all
  have w1: "writable b1 match_length" using wrote_ok(4) [OF b1(2), of match_length] wr by simp
  have "\<exists>b2. (if ?s + match_length > length (contents ?b) then repeat_overlapping B bl b1 offset match_length ?s
         else if offset \<ge> 16 \<and> bl then bb_extend_from_within_unchecked_branchless B b1 ?s match_length
         else bb_extend_from_within_unchecked B b1 ?s match_length) = Some b2 \<and> app b1 (lz_bytes (contents ?b) offset match_length) b2"
  proof (cases "?s + match_length > length (contents ?b)")
    case True
    then show ?thesis using repeat_overlapping_ok [OF c1(1) off(1) _ w1 b1(3), of bl] off(2) c1(2) by simp
  next
    case False
    then have ml: "match_length \<le> offset" using off(2) by linarith
    have src: "take match_length (drop ?s (contents b1)) = lz_bytes (contents ?b) offset match_length" using lz_bytes_plain [OF off(2) ml] c1(2) by simp
    have "?s + match_length \<le> length (contents b1)" using False c1(2) by simp
    then show ?thesis using within_any [OF c1(1) _ b1(3), of ?s "16 \<le> offset \<and> bl"] src False by auto
  qed
  then obtain b2 where b2: "(if ?s + match_length > length (contents ?b) then repeat_overlapping B bl b1 offset match_length ?s
         else if offset \<ge> 16 \<and> bl then bb_extend_from_within_unchecked_branchless B b1 ?s match_length
         else bb_extend_from_within_unchecked B b1 ?s match_length) = Some b2" "app b1 (lz_bytes (contents ?b) offset match_length) b2" by blast
  have "repeat_resident B bl db offset match_length
      = (db\<lparr>db_buffer := b2, db_total_output_counter := db_total_output_counter db + match_length\<rparr>, Ok ())"
    unfolding repeat_resident_def Let_def by (simp only: len [OF ok] b1(1) result.case b2(1) option.case)
  then show ?thesis using wrote_trans [OF b1(2) b2(2)] by auto
qed

lemma repeat_inner_ok:
  assumes ok: "ok (db_buffer db)" and off: "0 < offset" "offset \<le> length dict + length (contents (db_buffer db))"
    and win: "length (contents (db_buffer db)) < offset \<Longrightarrow> max (db_total_output_counter db) (length (contents (db_buffer db))) \<le> db_window_size db"
    and wr: "writable (db_buffer db) match_length" and lim: "length (contents (db_buffer db)) + match_length \<le> limit (db_buffer db)"
  shows "\<exists>b'. repeat_inner B bl dict db offset match_length
        = (db\<lparr>db_buffer := b', db_total_output_counter := db_total_output_counter db + match_length\<rparr>, Ok ())
      \<and> app (db_buffer db) (lz_bytes (dict @ contents (db_buffer db)) offset match_length) b'"
proof -
  let ?b = "db_buffer db" and ?h = "contents (db_buffer db)"
  note L = len [OF ok]
  consider "match_length = 0" | "0 < match_length" "offset \<le> length ?h" | "0 < match_length" "length ?h < offset" by linarith
  then show ?thesis
  proof cases
    case 1
    then show ?thesis using off wrote_refl [OF ok] by (intro exI [of _ ?b]) (simp add: repeat_inner.simps lz_bytes_def)
  next
    case 2
    have "lz_bytes (dict @ ?h) offset match_length = lz_bytes ?h offset match_length"
      using 2(2) off(1) by (auto simp: lz_bytes_def nth_append)
    then show ?thesis using repeat_resident_ok [OF ok off(1) 2(2) wr lim, of bl] 2 off(1) L by (simp add: repeat_inner.simps)
  next
    case 3
    let ?n = "offset - length ?h" and ?t = "drop (length dict - (offset - length ?h)) dict"
    obtain b1 where b1: "bb_try_reserve B ?b match_length = Ok b1" "app ?b [] b1" using try_reserve [OF ok wr lim] by blast
    have c1: "ok b1" "contents b1 = ?h" "limit b1 = limit ?b" "writable b1 match_length"
      using wrote_ok [OF b1(2)] wr by simp_all
    have tl: "length ?t = ?n" using off(2) 3(2) by simp
    have start: "length dict - ?n = length dict + length ?h - offset" using 3(2) by simp
    have enter: "repeat_inner B bl dict db offset match_length = repeat_from_dict B bl dict db offset match_length"
      using off 3 L by (simp add: repeat_inner.simps [of B bl dict db])
    have nd: "\<not> length dict < ?n" using off(2) by simp
    show ?thesis
    proof (cases "?n < match_length")
      case True
      have "writable b1 (length ?t)" using writable_mono [OF c1(4)] tl True by simp
      then obtain b2 where b2: "bb_extend B b1 ?t = Some b2" "app b1 ?t b2" using extend [OF c1(1)] by blast
      have c2: "ok b2" "contents b2 = ?h @ ?t" "limit b2 = limit ?b" using wrote_ok [OF b2(2)] c1 by simp_all
      let ?db = "db\<lparr>db_buffer := b2, db_total_output_counter := db_total_output_counter db + ?n\<rparr>"
      have len2: "bb_len B b2 = offset" using len [OF c2(1)] c2(2) tl 3(2) by simp
      have "writable b2 (match_length - ?n)" using wrote_ok(4) [OF b2(2), of "match_length - ?n"] c1(4) tl True by simp
      then obtain b3 where b3: "repeat_resident B bl ?db offset (match_length - ?n)
            = (?db\<lparr>db_buffer := b3, db_total_output_counter := db_total_output_counter ?db + (match_length - ?n)\<rparr>, Ok ())"
          "app b2 (lz_bytes (?h @ ?t) offset (match_length - ?n)) b3"
        using repeat_resident_ok [of ?db offset "match_length - ?n" bl] c2 off(1) tl True 3(2) lim by auto
      have "repeat_inner B bl dict ?db offset (match_length - ?n) = repeat_resident B bl ?db offset (match_length - ?n)"
        using off(1) True len2 by (simp add: repeat_inner.simps [of B bl dict ?db])
      then have eq: "repeat_inner B bl dict db offset match_length
          = (db\<lparr>db_buffer := b3, db_total_output_counter := db_total_output_counter db + match_length\<rparr>, Ok ())"
        unfolding enter using 3(2) win b1(1) b2(1) b3(1) nd True len2 by (simp add: repeat_from_dict.simps L Let_def)
      have "lz_bytes (dict @ ?h) offset match_length = ?t @ lz_bytes (?h @ ?t) offset (match_length - ?n)"
        using lz_bytes_dict [OF 3(2) off(2), of match_length] True tl by (simp add: start)
      then show ?thesis using eq wrote_trans [OF b1(2) wrote_trans [OF b2(2) b3(2)]] by auto
    next
      case False
      let ?u = "take match_length ?t"
      have "length ?u = match_length" using tl False by simp
      then obtain b2 where b2: "bb_extend B b1 ?u = Some b2" "app b1 ?u b2" using extend [OF c1(1), of ?u] c1(4) by auto
      have eq: "repeat_inner B bl dict db offset match_length
          = (db\<lparr>db_buffer := b2, db_total_output_counter := db_total_output_counter db + match_length\<rparr>, Ok ())"
        unfolding enter using 3(2) win b1(1) b2(1) nd False by (simp add: repeat_from_dict.simps L Let_def)
      have "lz_bytes (dict @ ?h) offset match_length = ?u"
      proof -
        have "lz_bytes (dict @ ?h) offset match_length = take match_length (drop (length dict + length ?h - offset) (dict @ ?h))"
          using lz_bytes_plain [of offset "dict @ ?h" match_length] off(2) False 3(2) by simp
        also have "\<dots> = ?u" using off(2) False 3(2) tl by (simp add: start)
        finally show ?thesis .
      qed
      then show ?thesis using eq wrote_trans [OF b1(2) b2(2)] by auto
    qed
  qed
qed

lemma repeat_inner_refused:
  assumes ok: "ok (db_buffer db)" and ml: "0 < match_length"
  shows "repeat_inner B bl dict db 0 match_length = (db, Err ZeroOffset)"
    "\<lbrakk>0 < offset; offset \<le> length (contents (db_buffer db)); limit (db_buffer db) < length (contents (db_buffer db)) + match_length\<rbrakk> \<Longrightarrow>
      repeat_inner B bl dict db offset match_length
        = (db, Err (OutputBufferOverflow (bb_tail B (db_buffer db)) match_length (limit (db_buffer db))))"
    "\<lbrakk>length (contents (db_buffer db)) < offset; db_window_size db < max (db_total_output_counter db) (length (contents (db_buffer db)))\<rbrakk> \<Longrightarrow>
      repeat_inner B bl dict db offset match_length = (db, Err (OffsetTooBig offset (length (contents (db_buffer db)))))"
    "\<lbrakk>length dict + length (contents (db_buffer db)) < offset; max (db_total_output_counter db) (length (contents (db_buffer db))) \<le> db_window_size db\<rbrakk> \<Longrightarrow>
      repeat_inner B bl dict db offset match_length
        = (db, Err (NotEnoughBytesInDictionary (length dict) (offset - length (contents (db_buffer db)))))"
    "\<lbrakk>length (contents (db_buffer db)) < offset; offset \<le> length dict + length (contents (db_buffer db));
       max (db_total_output_counter db) (length (contents (db_buffer db))) \<le> db_window_size db;
       limit (db_buffer db) < length (contents (db_buffer db)) + match_length\<rbrakk> \<Longrightarrow>
      repeat_inner B bl dict db offset match_length
        = (db, Err (OutputBufferOverflow (bb_tail B (db_buffer db)) match_length (limit (db_buffer db))))"
proof -
  note L = len [OF ok]
  show "repeat_inner B bl dict db offset match_length = (db, Err (OutputBufferOverflow (bb_tail B (db_buffer db)) match_length (limit (db_buffer db))))"
    if "length (contents (db_buffer db)) < offset" "offset \<le> length dict + length (contents (db_buffer db))"
      "max (db_total_output_counter db) (length (contents (db_buffer db))) \<le> db_window_size db"
      "limit (db_buffer db) < length (contents (db_buffer db)) + match_length"
    using that ml try_reserve_refused [OF ok that(4)] by (auto simp: repeat_inner.simps [of B bl dict db] repeat_from_dict.simps L Let_def)
  show "repeat_inner B bl dict db 0 match_length = (db, Err ZeroOffset)" by (simp add: repeat_inner.simps)
  show "repeat_inner B bl dict db offset match_length = (db, Err (OutputBufferOverflow (bb_tail B (db_buffer db)) match_length (limit (db_buffer db))))"
    if "0 < offset" "offset \<le> length (contents (db_buffer db))" "limit (db_buffer db) < length (contents (db_buffer db)) + match_length"
    using that ml try_reserve_refused [OF ok that(3)] by (simp add: repeat_inner.simps repeat_resident_def L)
  show "repeat_inner B bl dict db offset match_length = (db, Err (OffsetTooBig offset (length (contents (db_buffer db)))))"
    if "length (contents (db_buffer db)) < offset" "db_window_size db < max (db_total_output_counter db) (length (contents (db_buffer db)))"
    using that ml by (auto simp: repeat_inner.simps [of B bl dict db] repeat_from_dict.simps L)
  show "repeat_inner B bl dict db offset match_length = (db, Err (NotEnoughBytesInDictionary (length dict) (offset - length (contents (db_buffer db)))))"
    if "length dict + length (contents (db_buffer db)) < offset" "max (db_total_output_counter db) (length (contents (db_buffer db))) \<le> db_window_size db"
  proof -
    have "length dict < offset - length (contents (db_buffer db))" using that(1) by linarith
    then show ?thesis using that ml by (auto simp: repeat_inner.simps [of B bl dict db] repeat_from_dict.simps L Let_def)
  qed
qed

end

section \<open>The two backends\<close>

text \<open>
  C4. A match copy in the ring buffer, with any copy kernel and either copy of the ring's own bytes, succeeds when its
  source lies in the dictionary and the buffer, the window still covers a dictionary source, and the output stays under the
  block's ceiling; and the buffer then holds, behind the dictionary, exactly what copying one byte at a time from \<open>offset\<close>
  bytes back gives, overlap and wrap-around included.
\<close>

theorem ring_repeat_is_byte_copy:
  fixes db :: "(ring_buffer, 'h) decode_buffer"
  defines "r \<equiv> db_buffer db"
  assumes "k \<in> set all_copies" and "rb_ok r" and "0 < offset" "offset \<le> length dict + rb_len r"
    and "rb_len r < offset \<Longrightarrow> max (db_total_output_counter db) (rb_len r) \<le> db_window_size db"
    and "rb_writable r match_length" and "rb_len r + match_length \<le> rb_max_capacity r"
  shows "\<exists>r'. repeat_inner (ring_backend k) bl dict db offset match_length
        = (db\<lparr>db_buffer := r', db_total_output_counter := db_total_output_counter db + match_length\<rparr>, Ok ())
      \<and> rb_ok r' \<and> dict @ rb_contents r' = lz_copy (dict @ rb_contents r) offset match_length"
proof -
  obtain r' where "repeat_inner (ring_backend k) bl dict db offset match_length
        = (db\<lparr>db_buffer := r', db_total_output_counter := db_total_output_counter db + match_length\<rparr>, Ok ())"
      "rb_ok r'" "rb_contents r' = rb_contents r @ lz_bytes (dict @ rb_contents r) offset match_length"
    using assms(2-8) scalar.ring.repeat_inner_ok [of db offset dict match_length bl] sse2.ring.repeat_inner_ok [of db offset dict match_length bl]
      avx2.ring.repeat_inner_ok [of db offset dict match_length bl]
    by (auto simp: wrote_def r_def all_copies_def)
  then show ?thesis using lz_copy_bytes [of offset "dict @ rb_contents r" match_length] assms(4,5) by auto
qed

definition wrapped_example :: ring_buffer where
  "wrapped_example = \<lparr>rb_buf = map word_of_nat [0..<39], rb_cap = 7, rb_head = 5, rb_tail = 2, rb_max_capacity = 100, rb_growth_limit = 50, rb_borrowed = False\<rparr>"

definition example_db :: "'b \<Rightarrow> ('b, unit) decode_buffer" where
  "example_db b = \<lparr>db_buffer = b, db_window_size = 40, db_total_output_counter = 4, db_hash = (), db_compute_hash = False, db_hash_dirty = False,
     db_declared_content = None, db_block_limit = 40, db_delivered = 0\<rparr>"

theorem ring_repeat_is_byte_copy_witness:
  "\<exists>r'. repeat_inner (ring_backend avx2_copy) True [7, 8, 9] (example_db wrapped_example) 6 10
        = ((example_db wrapped_example)\<lparr>db_buffer := r', db_total_output_counter := 14\<rparr>, Ok ())
      \<and> rb_ok r' \<and> [7, 8, 9] @ rb_contents r' = lz_copy ([7, 8, 9] @ rb_contents wrapped_example) 6 10"
  using ring_repeat_is_byte_copy [of avx2_copy "example_db wrapped_example" 6 "[7, 8, 9]" 10 True]
  by (simp add: example_db_def wrapped_example_def all_copies_def rb_ok_def rb_len_cases rb_writable_def WILDCOPY_OVERLENGTH_def)

text \<open>The same of the flat buffer.\<close>

theorem flat_repeat_is_byte_copy:
  fixes db :: "(flat_buf, 'h) decode_buffer"
  defines "b \<equiv> db_buffer db"
  assumes "k \<in> set all_copies" and "fb_ok b" and "0 < offset" "offset \<le> length dict + fb_live_len b"
    and "fb_live_len b < offset \<Longrightarrow> max (db_total_output_counter db) (fb_live_len b) \<le> db_window_size db"
    and "fb_writable b match_length" and "fb_live_len b + match_length \<le> fb_max_capacity b"
  shows "\<exists>b'. repeat_inner (flat_backend k) bl dict db offset match_length
        = (db\<lparr>db_buffer := b', db_total_output_counter := db_total_output_counter db + match_length\<rparr>, Ok ())
      \<and> fb_ok b' \<and> dict @ fb_contents b' = lz_copy (dict @ fb_contents b) offset match_length"
proof -
  obtain b' where "repeat_inner (flat_backend k) bl dict db offset match_length
        = (db\<lparr>db_buffer := b', db_total_output_counter := db_total_output_counter db + match_length\<rparr>, Ok ())"
      "fb_ok b'" "fb_contents b' = fb_contents b @ lz_bytes (dict @ fb_contents b) offset match_length"
    using assms(2-8) scalar.flat.repeat_inner_ok [of db offset dict match_length bl] sse2.flat.repeat_inner_ok [of db offset dict match_length bl]
      avx2.flat.repeat_inner_ok [of db offset dict match_length bl]
    by (auto simp: wrote_def b_def all_copies_def)
  then show ?thesis using lz_copy_bytes [of offset "dict @ fb_contents b" match_length] assms(3-5) by auto
qed

definition flat_example :: flat_buf where
  "flat_example = \<lparr>fb_mem = map word_of_nat [0..<12], fb_len = 9, fb_head = 4, fb_max_capacity = 100\<rparr>"

theorem flat_repeat_is_byte_copy_witness:
  "\<exists>b'. repeat_inner (flat_backend sse2_copy) False [7, 8, 9] (example_db flat_example) 3 20
        = ((example_db flat_example)\<lparr>db_buffer := b', db_total_output_counter := 24\<rparr>, Ok ())
      \<and> fb_ok b' \<and> [7, 8, 9] @ fb_contents b' = lz_copy ([7, 8, 9] @ fb_contents flat_example) 3 20"
  using flat_repeat_is_byte_copy [of sse2_copy "example_db flat_example" 3 "[7, 8, 9]" 20 False]
  by (simp add: example_db_def flat_example_def all_copies_def fb_ok_def fb_live_len_def fb_cap_def fb_writable_def)

text \<open>
  C39. A match copy that cannot be made is refused with the error its cause has, and leaves the buffer as it was: offset zero, output
  past the block's ceiling (even when it would fit the allocation) from a source in the buffer and from one in the dictionary, a
  source before the dictionary, and a dictionary source once the output has passed the window.
\<close>

theorem ring_repeat_refused:
  fixes db :: "(ring_buffer, 'h) decode_buffer"
  defines "r \<equiv> db_buffer db"
  assumes "k \<in> set all_copies" "rb_ok r" "0 < match_length"
  shows "repeat_inner (ring_backend k) bl dict db 0 match_length = (db, Err ZeroOffset)
    \<and> (0 < offset \<and> offset \<le> rb_len r \<and> rb_max_capacity r < rb_len r + match_length \<longrightarrow>
        repeat_inner (ring_backend k) bl dict db offset match_length = (db, Err (OutputBufferOverflow (rb_tail r) match_length (rb_max_capacity r))))
    \<and> (rb_len r < offset \<and> db_window_size db < max (db_total_output_counter db) (rb_len r) \<longrightarrow>
        repeat_inner (ring_backend k) bl dict db offset match_length = (db, Err (OffsetTooBig offset (rb_len r))))
    \<and> (length dict + rb_len r < offset \<and> max (db_total_output_counter db) (rb_len r) \<le> db_window_size db \<longrightarrow>
        repeat_inner (ring_backend k) bl dict db offset match_length = (db, Err (NotEnoughBytesInDictionary (length dict) (offset - rb_len r))))
    \<and> (rb_len r < offset \<and> offset \<le> length dict + rb_len r \<and> max (db_total_output_counter db) (rb_len r) \<le> db_window_size db
          \<and> rb_max_capacity r < rb_len r + match_length \<longrightarrow>
        repeat_inner (ring_backend k) bl dict db offset match_length = (db, Err (OutputBufferOverflow (rb_tail r) match_length (rb_max_capacity r))))"
proof -
  have t: "bb_tail (ring_backend k) = rb_tail" by (simp add: ring_backend_def)
  have k: "k = scalar_copy \<or> k = sse2_copy \<or> k = avx2_copy" using assms(2) by (auto simp: all_copies_def)
  note zero = scalar.ring.repeat_inner_refused(1) [where db = db and match_length = match_length and bl = bl and dict = dict] sse2.ring.repeat_inner_refused(1) [where db = db and match_length = match_length and bl = bl and dict = dict]
    avx2.ring.repeat_inner_refused(1) [where db = db and match_length = match_length and bl = bl and dict = dict]
  note other = scalar.ring.repeat_inner_refused(2-5) [where db = db and match_length = match_length and bl = bl and dict = dict and offset = offset]
    sse2.ring.repeat_inner_refused(2-5) [where db = db and match_length = match_length and bl = bl and dict = dict and offset = offset]
    avx2.ring.repeat_inner_refused(2-5) [where db = db and match_length = match_length and bl = bl and dict = dict and offset = offset]
  show ?thesis using k zero other assms(3,4) by (elim disjE) (simp_all add: r_def t [symmetric])
qed

theorem ring_repeat_refused_witness:
  "repeat_inner (ring_backend scalar_copy) True [7, 8, 9] (example_db wrapped_example) 0 97 = (example_db wrapped_example, Err ZeroOffset)
    \<and> repeat_inner (ring_backend scalar_copy) True [7, 8, 9] (example_db wrapped_example) 4 97
        = (example_db wrapped_example, Err (OutputBufferOverflow 2 97 100))
    \<and> repeat_inner (ring_backend scalar_copy) True [7, 8, 9] (example_db wrapped_example) 8 97
        = (example_db wrapped_example, Err (NotEnoughBytesInDictionary 3 4))
    \<and> repeat_inner (ring_backend scalar_copy) True [7, 8, 9] (example_db wrapped_example) 6 97
        = (example_db wrapped_example, Err (OutputBufferOverflow 2 97 100))"
  using ring_repeat_refused [of scalar_copy "example_db wrapped_example" 97 True "[7, 8, 9]" 4] ring_repeat_refused [of scalar_copy "example_db wrapped_example" 97 True "[7, 8, 9]" 8]
    ring_repeat_refused [of scalar_copy "example_db wrapped_example" 97 True "[7, 8, 9]" 6]
  by (simp add: example_db_def wrapped_example_def all_copies_def rb_ok_def rb_len_cases WILDCOPY_OVERLENGTH_def)

end
