(* ===== verification/Delivery.thy ===== *)
theory Delivery
  imports Match_Copy
begin

text \<open>
  The delivery of decoded bytes and the rollback point of the decode buffer: every byte is handed out once and in order, the
  window stays, the frame hash has read exactly what was handed out, and a restored buffer is the one the point was taken on.
\<close>

section \<open>Sinks\<close>

text \<open>What a sink promises: it takes a prefix of the bytes it is given. \<open>held\<close> is what it has taken so far.\<close>

locale byte_sink =
  fixes put :: "'s \<Rightarrow> u8 list \<Rightarrow> 's \<times> nat \<times> (unit, 'e) result" and held :: "'s \<Rightarrow> u8 list"
  assumes prefix: "put s bs = (s', w, r) \<Longrightarrow> w \<le> length bs \<and> held s' = held s @ take w bs"

interpretation vec_sink: byte_sink "vec_sink :: u8 list \<Rightarrow> u8 list \<Rightarrow> u8 list \<times> nat \<times> (unit, unit) result" "\<lambda>vec. vec"
  by unfold_locales (auto simp: vec_sink_def)

locale raw_sink =
  fixes wr :: "'s \<Rightarrow> u8 list \<Rightarrow> 's \<times> (nat, 'e) result" and held :: "'s \<Rightarrow> u8 list"
  assumes some_bytes: "wr s bs = (s', Ok w) \<Longrightarrow> w \<le> length bs \<and> held s' = held s @ take w bs"
    and no_bytes: "wr s bs = (s', Err e) \<Longrightarrow> held s' = held s" "wr s bs = (s', Panic) \<Longrightarrow> held s' = held s"
begin

lemma write_all_from_prefix:
  "written \<le> length buf \<Longrightarrow> write_all_from wr s buf written = (s', w, r) \<Longrightarrow>
    w \<le> length buf \<and> written \<le> w \<and> held s' = held s @ take (w - written) (drop written buf)"
proof (induction "length buf - written" arbitrary: s written rule: less_induct)
  case less
  show ?case
  proof (cases "written < length buf")
    case False
    then show ?thesis using less.prems by (simp add: write_all_from.simps [of wr s])
  next
    case True
    obtain s1 r1 where s1: "wr s (drop written buf) = (s1, r1)" by fastforce
    show ?thesis
    proof (cases r1)
      case (Ok n)
      then have n: "n \<le> length buf - written" "held s1 = held s @ take n (drop written buf)" using some_bytes s1 by fastforce+
      show ?thesis
      proof (cases "n = 0")
        case True
        then show ?thesis using less.prems s1 Ok n \<open>written < length buf\<close> by (simp add: write_all_from.simps [of wr s])
      next
        case False
        then have rec: "write_all_from wr s1 buf (written + n) = (s', w, r)"
          using less.prems(2) s1 Ok True by (simp add: write_all_from.simps [of wr s])
        have "w \<le> length buf \<and> written + n \<le> w \<and> held s' = held s1 @ take (w - (written + n)) (drop (written + n) buf)"
          using less.hyps [OF _ _ rec] n(1) True False by simp
        moreover have "take n (drop written buf) @ take (w - (written + n)) (drop (written + n) buf) = take (w - written) (drop written buf)"
          if "written + n \<le> w" using that take_add [of n "w - (written + n)" "drop written buf"] by (simp add: add.commute)
        ultimately show ?thesis using n(2) by auto
      qed
    qed (use no_bytes s1 less.prems True in \<open>auto simp: write_all_from.simps [of wr s]\<close>)
  qed
qed

text \<open>A sink that takes at least one byte whenever it is given any ends up with all of them.\<close>

lemma write_all_from_complete:
  assumes "\<And>s bs. bs \<noteq> [] \<Longrightarrow> \<exists>s' w. wr s bs = (s', Ok w) \<and> 0 < w"
  shows "written \<le> length buf \<Longrightarrow> \<exists>s'. write_all_from wr s buf written = (s', length buf, Ok ())"
proof (induction "length buf - written" arbitrary: s written rule: less_induct)
  case less
  show ?case
  proof (cases "written < length buf")
    case True
    then obtain s1 n where n: "wr s (drop written buf) = (s1, Ok n)" "0 < n" using assms [of "drop written buf" s] by auto
    then have "n \<le> length buf - written" using some_bytes by fastforce
    then show ?thesis using less.hyps [of "written + n" s1] less.prems True n by (auto simp: write_all_from.simps [of wr s])
  qed (use less.prems in \<open>simp add: write_all_from.simps [of wr s]\<close>)
qed

lemma write_all_prefix: "write_all_bytes wr s bs = (s', w, r) \<Longrightarrow> w \<le> length bs \<and> held s' = held s @ take w bs"
  using write_all_from_prefix [of 0 bs s s' w r] by (simp add: write_all_bytes_def)

end

sublocale raw_sink \<subseteq> all: byte_sink "write_all_bytes wr" held
  by unfold_locales (rule write_all_prefix)

text \<open>
  The two sinks of \<^verbatim>\<open>io_nostd.rs\<close>: a \<open>&mut [u8]\<close>, which is a view into a caller's buffer that moves forward (the buffer and
  the position of the view), and a \<open>Vec<u8>\<close>.
\<close>

fun slice_write :: "u8 list \<times> nat \<Rightarrow> u8 list \<Rightarrow> (u8 list \<times> nat) \<times> (nat, error_kind) result" where
  "slice_write (target, pos) data =
     (let amt = min (length data) (length target - pos) in ((take pos target @ take amt data @ drop (pos + amt) target, pos + amt), Ok amt))"

definition vec_write :: "u8 list \<Rightarrow> u8 list \<Rightarrow> u8 list \<times> (nat, error_kind) result" where
  "vec_write vec data = (vec @ data, Ok (length data))"

interpretation vec_writer: raw_sink vec_write "\<lambda>vec. vec"
  by unfold_locales (auto simp: vec_write_def)

interpretation slice_writer: raw_sink slice_write "\<lambda>(target, pos). take pos target"
proof (unfold_locales, goal_cases)
  case (1 s bs s' w)
  obtain target pos where s: "s = (target, pos)" by fastforce
  show ?case using 1 by (auto simp: s Let_def min_def take_add)
qed (auto simp: Let_def)

section \<open>The hash\<close>

text \<open>What the frame hash promises: writing in pieces is writing the whole.\<close>

locale stream_hash =
  fixes hw :: "'h \<Rightarrow> u8 list \<Rightarrow> 'h"
  assumes pieces: "hw (hw h xs) ys = hw h (xs @ ys)" and no_piece: "hw h [] = h"

interpretation list_hash: stream_hash "\<lambda>h xs. h @ (xs :: u8 list)"
  by unfold_locales simp_all

section \<open>Delivery\<close>

definition hashed :: "('h \<Rightarrow> u8 list \<Rightarrow> 'h) \<Rightarrow> ('b, 'h) decode_buffer \<Rightarrow> u8 list \<Rightarrow> 'h" where
  "hashed hw db bytes = (if db_compute_hash db then hw (db_hash db) bytes else db_hash db)"

lemma hash_write_fields [simp]:
  "db_buffer (hash_write hw db xs) = db_buffer db" "db_window_size (hash_write hw db xs) = db_window_size db"
  "db_delivered (hash_write hw db xs) = db_delivered db" "db_hash (hash_write hw db xs) = hashed hw db xs"
  "db_compute_hash (hash_write hw db xs) = db_compute_hash db" "db_total_output_counter (hash_write hw db xs) = db_total_output_counter db"
  by (simp_all add: hash_write_def hashed_def)

locale delivery = buffer_backend B ok contents room writable limit same_base + byte_sink put held + stream_hash hw
  for B :: "'b backend" and ok contents room writable limit same_base
    and put :: "'s \<Rightarrow> u8 list \<Rightarrow> 's \<times> nat \<times> (unit, 'e) result" and held and hw :: "'h \<Rightarrow> u8 list \<Rightarrow> 'h"
begin

lemma release_ok:
  fixes keep_window :: bool
  assumes "ok (db_buffer db)" "db_delivered db \<le> length (contents (db_buffer db))"
  defines "db' \<equiv> release_delivered B db keep_window"
  shows "ok (db_buffer db')" "db_hash db' = db_hash db"
    "\<exists>n. contents (db_buffer db') = drop n (contents (db_buffer db)) \<and> db_delivered db' = db_delivered db - n \<and> n \<le> db_delivered db
      \<and> (keep_window \<longrightarrow> min (db_window_size db) (length (contents (db_buffer db))) \<le> length (contents (db_buffer db')))"
proof -
  let ?keep = "if keep_window then db_window_size db else 0" and ?len = "length (contents (db_buffer db))"
  let ?n = "min (?len - ?keep) (db_delivered db)"
  have L: "bb_len B (db_buffer db) = ?len" by (rule len [OF assms(1)])
  have d: "ok (bb_drop_first_n B (db_buffer db) ?n)" "contents (bb_drop_first_n B (db_buffer db) ?n) = drop ?n (contents (db_buffer db))"
    using drop_first [OF assms(1), of ?n] assms(2) by simp_all
  show "ok (db_buffer db')" "db_hash db' = db_hash db" using d assms(1) by (simp_all add: db'_def release_delivered_def L Let_def)
  show "\<exists>n. contents (db_buffer db') = drop n (contents (db_buffer db)) \<and> db_delivered db' = db_delivered db - n \<and> n \<le> db_delivered db
      \<and> (keep_window \<longrightarrow> min (db_window_size db) ?len \<le> length (contents (db_buffer db')))"
  proof (cases "?len < ?keep")
    case True
    then show ?thesis by (intro exI [of _ 0]) (auto simp: db'_def release_delivered_def L Let_def split: if_splits)
  next
    case False
    then show ?thesis using d(2) by (intro exI [of _ ?n]) (auto simp: db'_def release_delivered_def L Let_def)
  qed
qed

text \<open>The part of \<open>deliver_to\<close> that hands bytes to the sink.\<close>

lemma hand_out:
  assumes ok: "ok (db_buffer db)" and d: "db_delivered db \<le> length (contents (db_buffer db))"
  shows "\<exists>db1 s1 t (outcome :: (unit, 'e) result). deliver_to B hw put db s amount keep_window
        = Some (release_delivered B (db1\<lparr>db_delivered := db_delivered db1 + t\<rparr>) keep_window, s1, rbind outcome (\<lambda>_. Ok t))
      \<and> t \<le> min amount (length (contents (db_buffer db)) - db_delivered db)
      \<and> held s1 = held s @ take t (drop (db_delivered db) (contents (db_buffer db)))
      \<and> db_buffer db1 = db_buffer db \<and> db_delivered db1 = db_delivered db \<and> db_window_size db1 = db_window_size db
      \<and> db_hash db1 = hashed hw db (take t (drop (db_delivered db) (contents (db_buffer db))))"
proof -
  let ?c = "contents (db_buffer db)" and ?amount = "min amount (undelivered B db)"
  let ?p = "drop (db_delivered db) ?c"
  have U: "undelivered B db = length ?c - db_delivered db" by (simp add: undelivered_def len [OF ok])
  show ?thesis
  proof (cases "?amount = 0")
    case True
    then have "deliver_to B hw put db s amount keep_window
        = Some (release_delivered B (db\<lparr>db_delivered := db_delivered db + 0\<rparr>) keep_window, s, rbind (Ok ()) (\<lambda>_. Ok 0))"
      by (simp add: deliver_to_def Let_def)
    moreover have "db_hash db = hashed hw db (take 0 ?p)" "held s = held s @ take 0 ?p"
        "0 \<le> min amount (length ?c - db_delivered db)" by (simp_all add: hashed_def no_piece)
    ultimately show ?thesis by blast
  next
    case False
    obtain s1 s2 where s: "bb_as_slices B (db_buffer db) = Some (s1, s2)" "s1 @ s2 = ?c" using slices [OF ok] by blast
    define hd' tl' where "hd' = (if length s1 \<le> db_delivered db then drop (db_delivered db - length s1) s2 else drop (db_delivered db) s1)"
      and "tl' = (if length s1 \<le> db_delivered db then [] else s2)"
    have parts: "hd' @ tl' = ?p" by (simp add: hd'_def tl'_def s(2) [symmetric])
    define n1 n2 where "n1 = min (length hd') ?amount" and "n2 = min (length tl') (?amount - n1)"
    obtain k1 w1 r1 where k1: "put s (take n1 hd') = (k1, w1, r1)" by (metis prod.exhaust)
    have p1: "w1 \<le> n1" "held k1 = held s @ take w1 hd'" using prefix [OF k1] by (auto simp: n1_def min_def split: if_splits)
    have wl: "w1 \<le> length hd'" using p1(1) by (simp add: n1_def)
    have take1: "take w1 ?p = take w1 hd'" using wl by (simp add: parts [symmetric])
    have pair: "(if length s1 \<le> db_delivered db then (drop (db_delivered db - length s1) s2, []) else (drop (db_delivered db) s1, s2)) = (hd', tl')"
      by (simp add: hd'_def tl'_def)
    show ?thesis
    proof (cases "r1 = Ok () \<and> w1 = n1 \<and> n2 \<noteq> 0")
      case nt: False
      have "deliver_to B hw put db s amount keep_window
          = Some (release_delivered B ((hash_write hw db (take w1 hd'))\<lparr>db_delivered := db_delivered (hash_write hw db (take w1 hd')) + w1\<rparr>) keep_window, k1, rbind r1 (\<lambda>_. Ok w1))"
        unfolding deliver_to_def Let_def using nt False wl
        by (simp only: s(1) Option.bind.bind_lunit prod.case pair n1_def [symmetric] n2_def [symmetric] k1) auto
      then show ?thesis using p1 take1 parts
        by (intro exI [of _ "hash_write hw db (take w1 hd')"] exI [of _ k1] exI [of _ w1] exI [of _ r1]) (auto simp: n1_def U)
    next
      case True
      obtain k2 w2 r2 where k2: "put k1 (take n2 tl') = (k2, w2, r2)" by (metis prod.exhaust)
      have p2: "w2 \<le> n2" "held k2 = held k1 @ take w2 tl'" using prefix [OF k2] by (auto simp: n2_def min_def split: if_splits)
      have wl2: "w2 \<le> length tl'" using p2(1) by (simp add: n2_def)
      have full: "n1 = length hd'" using True by (auto simp: n1_def n2_def)
      have take2: "take (w1 + w2) ?p = take w1 hd' @ take w2 tl'" using True full by (simp add: parts [symmetric])
      let ?d = "hash_write hw (hash_write hw db (take w1 hd')) (take w2 tl')"
      have "deliver_to B hw put db s amount keep_window
          = Some (release_delivered B (?d\<lparr>db_delivered := db_delivered ?d + (w1 + w2)\<rparr>) keep_window, k2, rbind r2 (\<lambda>_. Ok (w1 + w2)))"
        unfolding deliver_to_def Let_def using True False wl wl2
        by (simp only: s(1) Option.bind.bind_lunit prod.case pair n1_def [symmetric] n2_def [symmetric] k1 k2) simp
      moreover have "w1 + w2 \<le> ?amount"
      proof -
        have "n1 \<le> ?amount" "n2 \<le> ?amount - n1" unfolding n1_def n2_def by (rule min.cobounded2)+
        then show ?thesis using p1(1) p2(1) by linarith
      qed
      moreover have "db_hash ?d = hashed hw db (take (w1 + w2) ?p)" using take2 by (simp add: hashed_def pieces)
      ultimately show ?thesis using p1 p2 take2
        by (intro exI [of _ ?d] exI [of _ k2] exI [of _ "w1 + w2"] exI [of _ r2]) (auto simp: U)
    qed
  qed
qed

lemma deliver_to_ok:
  assumes ok: "ok (db_buffer db)" and d: "db_delivered db \<le> length (contents (db_buffer db))"
  defines "pending \<equiv> drop (db_delivered db) (contents (db_buffer db))"
  shows "\<exists>db' s' res t n. deliver_to B hw put db s amount keep_window = Some (db', s', res) \<and> t \<le> min amount (length pending)
      \<and> held s' = held s @ take t pending \<and> ok (db_buffer db') \<and> db_hash db' = hashed hw db (take t pending)
      \<and> contents (db_buffer db') = drop n (contents (db_buffer db)) \<and> n \<le> db_delivered db + t
      \<and> db_delivered db' \<le> length (contents (db_buffer db')) \<and> drop (db_delivered db') (contents (db_buffer db')) = drop t pending
      \<and> (keep_window \<longrightarrow> min (db_window_size db) (length (contents (db_buffer db))) \<le> length (contents (db_buffer db')))
      \<and> (\<forall>u. res = Ok u \<longrightarrow> u = t)"
proof -
  let ?c = "contents (db_buffer db)"
  obtain db1 s1 t and outcome :: "(unit, 'e) result" where h: "deliver_to B hw put db s amount keep_window
        = Some (release_delivered B (db1\<lparr>db_delivered := db_delivered db1 + t\<rparr>) keep_window, s1, rbind outcome (\<lambda>_. Ok t))"
      "t \<le> min amount (length ?c - db_delivered db)" "held s1 = held s @ take t pending" "db_buffer db1 = db_buffer db"
      "db_delivered db1 = db_delivered db" "db_window_size db1 = db_window_size db" "db_hash db1 = hashed hw db (take t pending)"
    using hand_out [OF ok d, of s amount keep_window] unfolding pending_def by blast
  let ?d1 = "db1\<lparr>db_delivered := db_delivered db1 + t\<rparr>" and ?d2 = "release_delivered B (db1\<lparr>db_delivered := db_delivered db1 + t\<rparr>) keep_window"
  have "ok (db_buffer ?d1)" "db_delivered ?d1 \<le> length (contents (db_buffer ?d1))"
    using ok d h(4,5) le_diff_conv2 [OF d, of t] h(2) by (simp_all add: add.commute)
  note r = release_ok [OF this, of keep_window]
  obtain n where n: "contents (db_buffer ?d2) = drop n ?c" "db_delivered ?d2 = db_delivered db + t - n" "n \<le> db_delivered db + t"
      "keep_window \<longrightarrow> min (db_window_size db) (length ?c) \<le> length (contents (db_buffer ?d2))"
    using r(3) h(4-6) by auto
  have "drop (db_delivered ?d2) (contents (db_buffer ?d2)) = drop t pending" using n(1-3) by (simp add: pending_def add.commute)
  moreover have "db_delivered ?d2 \<le> length (contents (db_buffer ?d2))"
    using n(1,2) d h(2) le_diff_conv2 [OF d, of t] by (simp add: diff_le_mono add.commute)
  moreover have "\<forall>u. rbind outcome (\<lambda>_. Ok t) = Ok u \<longrightarrow> u = t" by (cases outcome) auto
  ultimately show ?thesis using h(1-3,7) r(1,2) n by (auto simp: pending_def)
qed

end

context delivery
begin

text \<open>A sink that takes all it is given gets all of the amount.\<close>

lemma deliver_to_all:
  assumes all: "\<And>s bs. \<exists>s'. put s bs = (s', length bs, Ok ())"
    and ok: "ok (db_buffer db)" and d: "db_delivered db \<le> length (contents (db_buffer db))"
  shows "\<exists>db' s'. deliver_to B hw put db s amount keep_window = Some (db', s', Ok (min amount (length (contents (db_buffer db)) - db_delivered db)))"
proof -
  let ?amount = "min amount (undelivered B db)"
  obtain s1 s2 where s: "bb_as_slices B (db_buffer db) = Some (s1, s2)" "s1 @ s2 = contents (db_buffer db)" using slices [OF ok] by blast
  define hd' tl' where "hd' = (if length s1 \<le> db_delivered db then drop (db_delivered db - length s1) s2 else drop (db_delivered db) s1)"
    and "tl' = (if length s1 \<le> db_delivered db then [] else s2)"
  define n1 n2 where "n1 = min (length hd') ?amount" and "n2 = min (length tl') (?amount - n1)"
  have pair: "(if length s1 \<le> db_delivered db then (drop (db_delivered db - length s1) s2, []) else (drop (db_delivered db) s1, s2)) = (hd', tl')"
    by (simp add: hd'_def tl'_def)
  have "length (contents (db_buffer db)) = length s1 + length s2" using arg_cong [OF s(2), of length] by simp
  then have U: "undelivered B db = length (contents (db_buffer db)) - db_delivered db" "length hd' + length tl' = undelivered B db"
    using d by (simp_all add: undelivered_def len [OF ok] hd'_def tl'_def add.commute)
  have n: "n1 \<le> length hd'" "n2 \<le> length tl'" "n1 + n2 = ?amount" using U(2) unfolding n1_def n2_def by linarith+
  obtain f where f: "put s bs = (f s bs, length bs, Ok ())" for s bs using all by metis
  have f1: "put s (take n1 hd') = (f s (take n1 hd'), n1, Ok ())" and f2: "put s' (take n2 tl') = (f s' (take n2 tl'), n2, Ok ())" for s'
    using f n by (metis length_take min.absorb2)+
  show ?thesis
  proof (cases "?amount = 0")
    case True
    then show ?thesis by (auto simp: deliver_to_def Let_def U(1))
  next
    case False
    then show ?thesis unfolding deliver_to_def Let_def
      by (simp only: s(1) Option.bind.bind_lunit prod.case pair n1_def [symmetric] n2_def [symmetric] f1 f2) (use n U(1) in auto)
  qed
qed

end

section \<open>Rollback\<close>

text \<open>
  What the sequence loop does between taking a rollback point and using it: push literals and copy matches, each inside the
  address space (\<open>W\<close>).
\<close>

inductive db_writes :: "'b backend \<Rightarrow> ('b \<Rightarrow> nat \<Rightarrow> bool) \<Rightarrow> bool \<Rightarrow> u8 list \<Rightarrow> ('b, 'h) decode_buffer \<Rightarrow> ('b, 'h) decode_buffer \<Rightarrow> bool"
  for B W bl dict db where
  start: "db_writes B W bl dict db db"
| push: "db_writes B W bl dict db db1 \<Longrightarrow> W (db_buffer db1) (length data) \<Longrightarrow> db_try_push B db1 data = Ok db2 \<Longrightarrow> db_writes B W bl dict db db2"
| copy: "db_writes B W bl dict db db1 \<Longrightarrow> W (db_buffer db1) match_length \<Longrightarrow> repeat_inner B bl dict db1 offset match_length = (db2, Ok ()) \<Longrightarrow>
    db_writes B W bl dict db db2"

context buffer_backend
begin

lemma repeat_inner_success:
  assumes ok: "ok (db_buffer db)" and wr: "writable (db_buffer db) match_length" and res: "repeat_inner B bl dict db offset match_length = (db2, Ok ())"
  shows "\<exists>ys b'. db2 = db\<lparr>db_buffer := b', db_total_output_counter := db_total_output_counter db + match_length\<rparr> \<and> app (db_buffer db) ys b'"
proof (cases "match_length = 0")
  case True
  then have "db2 = db" using res by (auto simp: repeat_inner.simps split: if_splits)
  then show ?thesis using True wrote_refl [OF ok] by (intro exI [of _ "[]"] exI [of _ "db_buffer db"]) simp
next
  case False
  let ?len = "length (contents (db_buffer db))"
  note no = repeat_inner_refused [OF ok, of match_length]
  have "0 < offset" using no(1) [of bl dict] res False by (cases "offset = 0") auto
  moreover have win: "max (db_total_output_counter db) ?len \<le> db_window_size db" if "?len < offset"
    using no(3) [where offset = offset and bl = bl and dict = dict] res False that
    by (cases "max (db_total_output_counter db) ?len \<le> db_window_size db") (simp_all add: not_le)
  moreover have "offset \<le> length dict + ?len" 
    using no(4) [where offset = offset and bl = bl and dict = dict] win res False by (intro leI notI) auto
  moreover have "?len + match_length \<le> limit (db_buffer db)"
    using no(2,5) [where offset = offset and bl = bl and dict = dict] calculation res False
    by (cases "?len < offset") (intro leI notI, auto)+
  ultimately show ?thesis using repeat_inner_ok [OF ok, of offset dict match_length bl] wr res by auto
qed

lemma db_writes_wrote:
  assumes "db_writes B writable bl dict db db'" "ok (db_buffer db)"
  shows "\<exists>ys. app (db_buffer db) ys (db_buffer db')"
  using assms(1)
proof induction
  case start
  then show ?case using wrote_refl [OF assms(2)] by blast
next
  case (push db1 data db2)
  then obtain ys where ys: "app (db_buffer db) ys (db_buffer db1)" by blast
  obtain b' where b': "bb_extend B (db_buffer db1) data = Some b'" "app (db_buffer db1) data b'"
    using extend [OF wrote_ok(1) [OF ys] push.hyps(2)] by blast
  then have "db_buffer db2 = b'" using push.hyps(3) by (auto simp: db_try_push_def try_extend_def)
  then show ?case using wrote_trans [OF ys b'(2)] by blast
next
  case (copy db1 match_length offset db2)
  then obtain ys where ys: "app (db_buffer db) ys (db_buffer db1)" by blast
  obtain zs b' where "db2 = db1\<lparr>db_buffer := b', db_total_output_counter := db_total_output_counter db1 + match_length\<rparr>" "app (db_buffer db1) zs b'"
    using repeat_inner_success [OF wrote_ok(1) [OF ys] copy.hyps(2,3)] by blast
  then have "app (db_buffer db) (ys @ zs) (db_buffer db2)" using wrote_trans [OF ys] by simp
  then show ?case by blast
qed

lemma rollback:
  assumes w: "db_writes B writable bl dict db db'" and ok: "ok (db_buffer db)"
  defines "res \<equiv> db_try_restore_checkpoint B db' (db_checkpoint B db)"
  shows "snd res \<longleftrightarrow> bb_cap B (db_buffer db') = bb_cap B (db_buffer db)"
    "snd res \<Longrightarrow> ok (db_buffer (fst res)) \<and> contents (db_buffer (fst res)) = contents (db_buffer db)
      \<and> db_total_output_counter (fst res) = db_total_output_counter db"
    "\<not> snd res \<Longrightarrow> fst res = db'"
proof -
  obtain ys where ys: "app (db_buffer db) ys (db_buffer db')" using db_writes_wrote [OF w ok] by blast
  show "snd res \<longleftrightarrow> bb_cap B (db_buffer db') = bb_cap B (db_buffer db)" "\<not> snd res \<Longrightarrow> fst res = db'"
    by (auto simp: res_def db_try_restore_checkpoint_def db_checkpoint_def split: if_splits)
  show "ok (db_buffer (fst res)) \<and> contents (db_buffer (fst res)) = contents (db_buffer db) \<and> db_total_output_counter (fst res) = db_total_output_counter db"
    if "snd res"
    using that ys set_tail [OF ok wrote_ok(1) [OF ys]] by (auto simp: res_def db_try_restore_checkpoint_def db_checkpoint_def wrote_def split: if_splits)
qed

end

section \<open>The decode buffer over the ring\<close>

lemma ring_is_backend:
  assumes "k \<in> set all_copies"
  shows "buffer_backend (ring_backend k) rb_ok rb_contents (\<lambda>r n. n \<le> rb_free r) rb_writable rb_max_capacity rb_same_base"
  using assms scalar.ring.buffer_backend_axioms sse2.ring.buffer_backend_axioms avx2.ring.buffer_backend_axioms by (auto simp: all_copies_def)

interpretation ring_to_vec: delivery "ring_backend scalar_copy" rb_ok rb_contents "\<lambda>r n. n \<le> rb_free r" rb_writable rb_max_capacity rb_same_base
    "vec_sink :: u8 list \<Rightarrow> u8 list \<Rightarrow> u8 list \<times> nat \<times> (unit, unit) result" "\<lambda>vec. vec" "\<lambda>h xs. h @ (xs :: u8 list)"
  by unfold_locales

text \<open>
  C8. Handing decoded bytes out of the ring: whatever prefix of its bytes the sink takes, the sink gets bytes that were pending, in
  order, the frame hash reads exactly those, the bytes that stay pending are the ones it did not take, and with
  \<open>keep_window\<close> at least a window of history stays for later matches.
\<close>

theorem ring_delivery_in_order:
  fixes db :: "(ring_buffer, 'h) decode_buffer" and put :: "'s \<Rightarrow> u8 list \<Rightarrow> 's \<times> nat \<times> (unit, 'e) result"
  defines "pending \<equiv> drop (db_delivered db) (rb_contents (db_buffer db))"
  assumes "k \<in> set all_copies" "rb_ok (db_buffer db)" "db_delivered db \<le> rb_len (db_buffer db)"
    and sink: "\<And>s bs s' w r. put s bs = (s', w, r) \<Longrightarrow> w \<le> length bs \<and> held s' = held s @ take w bs"
    and hash: "\<And>h xs ys. hw (hw h xs) ys = hw h (xs @ ys)" "\<And>h. hw h [] = h"
  shows "\<exists>db' s' res t. deliver_to (ring_backend k) hw put db s amount keep_window = Some (db', s', res) \<and> t \<le> min amount (length pending)
      \<and> held s' = held s @ take t pending \<and> db_hash db' = hashed hw db (take t pending) \<and> rb_ok (db_buffer db')
      \<and> drop (db_delivered db') (rb_contents (db_buffer db')) = drop t pending
      \<and> (keep_window \<longrightarrow> min (db_window_size db) (rb_len (db_buffer db)) \<le> rb_len (db_buffer db')) \<and> (\<forall>u. res = Ok u \<longrightarrow> u = t)"
proof -
  have "delivery (ring_backend k) rb_ok rb_contents (\<lambda>r n. n \<le> rb_free r) rb_writable rb_max_capacity rb_same_base put held hw"
    using ring_is_backend [OF assms(2)] sink hash by (intro delivery.intro byte_sink.intro stream_hash.intro)
  from delivery.deliver_to_ok [OF this assms(3), of s amount keep_window] assms(4) show ?thesis
    unfolding length_rb_contents pending_def [symmetric] by meson
qed

definition pending_example :: "(ring_buffer, u8 list) decode_buffer" where
  "pending_example = \<lparr>db_buffer = wrapped_example, db_window_size = 2, db_total_output_counter = 4, db_hash = [], db_compute_hash = True, db_hash_dirty = False,
     db_declared_content = None, db_block_limit = 40, db_delivered = 1\<rparr>"

lemma pending_example_facts: "rb_ok (db_buffer pending_example)" "rb_len (db_buffer pending_example) = 4" "db_delivered pending_example = 1"
    "rb_contents (db_buffer pending_example) = [5, 6, 0, 1]" "db_window_size pending_example = 2" "hashed (@) pending_example xs = xs"
  by (simp_all add: pending_example_def wrapped_example_def rb_ok_def rb_len_cases WILDCOPY_OVERLENGTH_def hashed_def rb_contents_def rb_wrap_def upt_rec)

theorem ring_delivery_in_order_witness:
  "\<exists>db' s' res t. deliver_to (ring_backend avx2_copy) (@) (write_all_bytes slice_write) pending_example (replicate 2 0, 0) 3 True = Some (db', s', res) \<and> t \<le> 3
      \<and> (\<lambda>(target, pos). take pos target) s' = take t [6, 0, 1] \<and> db_hash db' = take t [6, 0, 1] \<and> rb_ok (db_buffer db')
      \<and> drop (db_delivered db') (rb_contents (db_buffer db')) = drop t [6, 0, 1] \<and> 2 \<le> rb_len (db_buffer db') \<and> (\<forall>u. res = Ok u \<longrightarrow> u = t)"
  using ring_delivery_in_order [of avx2_copy pending_example "write_all_bytes slice_write" "\<lambda>(target, pos). take pos target" "(@)" "(replicate 2 0, 0)" 3 True]
    slice_writer.write_all_prefix
  by (simp add: all_copies_def pending_example_facts numeral_eq_Suc)

text \<open>
  C38. Draining into a writer that never fails and takes at least one byte of what it is given ends with every pending byte
  written, in order, however few bytes each call takes, and nothing pending.
\<close>

theorem ring_drain_complete:
  fixes db :: "(ring_buffer, 'h) decode_buffer" and wr :: "'s \<Rightarrow> u8 list \<Rightarrow> 's \<times> (nat, 'e) result"
  defines "pending \<equiv> drop (db_delivered db) (rb_contents (db_buffer db))"
  assumes "k \<in> set all_copies" "rb_ok (db_buffer db)" "db_delivered db \<le> rb_len (db_buffer db)"
    and takes: "\<And>s bs. \<exists>s' w. wr s bs = (s', Ok w) \<and> (bs \<noteq> [] \<longrightarrow> 0 < w)"
    and sink: "\<And>s bs s' w. wr s bs = (s', Ok w) \<Longrightarrow> w \<le> length bs \<and> held s' = held s @ take w bs"
    and hash: "\<And>h xs ys. hw (hw h xs) ys = hw h (xs @ ys)" "\<And>h. hw h [] = h"
  shows "\<exists>db' s'. drain_to_writer (ring_backend k) hw wr db s = Some (db', s', Ok (length pending)) \<and> held s' = held s @ pending
      \<and> rb_ok (db_buffer db') \<and> rb_len (db_buffer db') \<le> db_delivered db'"
proof -
  have rs: "raw_sink wr held" using takes sink by unfold_locales (auto, (metis prod.inject result.distinct)+)
  then have dl: "delivery (ring_backend k) rb_ok rb_contents (\<lambda>r n. n \<le> rb_free r) rb_writable rb_max_capacity rb_same_base (write_all_bytes wr) held hw"
    using ring_is_backend [OF assms(2)] hash raw_sink.write_all_prefix [OF rs] by (intro delivery.intro byte_sink.intro stream_hash.intro)
  have L: "undelivered (ring_backend k) db = length pending" by (simp add: undelivered_def ring_backend_def pending_def)
  have "\<exists>s'. write_all_bytes wr s bs = (s', length bs, Ok ())" for s bs
    unfolding write_all_bytes_def using raw_sink.write_all_from_complete [OF rs, of 0 bs s] takes by blast
  from delivery.deliver_to_all [OF dl this, of db s "length pending" False] assms(3,4)
  obtain db' s' where r: "deliver_to (ring_backend k) hw (write_all_bytes wr) db s (length pending) False = Some (db', s', Ok (length pending))"
    by (auto simp: pending_def)
  from delivery.deliver_to_ok [OF dl assms(3), of s "length pending" False] assms(4)
  have "held s' = held s @ take (length pending) pending" "rb_ok (db_buffer db')"
      "drop (db_delivered db') (rb_contents (db_buffer db')) = drop (length pending) pending"
    unfolding length_rb_contents pending_def [symmetric] r by (auto simp del: drop_eq_Nil drop_eq_Nil2)
  then show ?thesis using r by (auto simp: drain_to_writer_def L)
qed

theorem ring_drain_complete_witness:
  "\<exists>db' s'. drain_to_writer (ring_backend sse2_copy) (@) vec_write pending_example [9] = Some (db', s', Ok 3) \<and> s' = [9, 6, 0, 1]
      \<and> rb_ok (db_buffer db') \<and> rb_len (db_buffer db') \<le> db_delivered db'"
  using ring_drain_complete [of sse2_copy pending_example vec_write "\<lambda>vec. vec" "(@)" "[9]"]
  by (simp add: all_copies_def pending_example_facts vec_write_def numeral_eq_Suc)

text \<open>
  C37. The rollback point of the ring: after any literals pushed and matches copied since it was taken, restoring succeeds exactly
  when the allocation has not grown, and then the buffer holds the bytes it held and the output counter has its old value; when
  it does not succeed, nothing is changed.
\<close>

theorem ring_rollback:
  assumes "k \<in> set all_copies" "db_writes (ring_backend k) rb_writable bl dict db db'" "rb_ok (db_buffer db)"
    "db_try_restore_checkpoint (ring_backend k) db' (db_checkpoint (ring_backend k) db) = (db'', restored)"
  shows "(restored \<longleftrightarrow> rb_cap (db_buffer db') = rb_cap (db_buffer db))
    \<and> (restored \<longrightarrow> rb_ok (db_buffer db'') \<and> rb_contents (db_buffer db'') = rb_contents (db_buffer db)
        \<and> db_total_output_counter db'' = db_total_output_counter db) \<and> (\<not> restored \<longrightarrow> db'' = db')"
  using buffer_backend.rollback [OF ring_is_backend [OF assms(1)] assms(2,3)] assms(4) by (auto simp: ring_backend_def)

definition pushed_example :: "(ring_buffer, u8 list) decode_buffer" where
  "pushed_example = pending_example\<lparr>db_buffer := the (rb_extend scalar_copy wrapped_example [7]), db_total_output_counter := 5\<rparr>"

lemma pushed_example_facts: "db_writes (ring_backend scalar_copy) rb_writable False [] pending_example pushed_example"
  "rb_cap (db_buffer pushed_example) = rb_cap (db_buffer pending_example)"
proof -
  have w: "rb_writable wrapped_example 1" by (simp add: wrapped_example_def rb_writable_def rb_len_cases)
  have "rb_ok wrapped_example" by (simp add: wrapped_example_def rb_ok_def WILDCOPY_OVERLENGTH_def)
  then obtain r where r: "rb_extend scalar_copy wrapped_example [7] = Some r"
    using w scalar.ring.extend [of wrapped_example "[7]"] by (auto simp: ring_backend_def)
  then show "rb_cap (db_buffer pushed_example) = rb_cap (db_buffer pending_example)"
    by (auto simp: pushed_example_def pending_example_def wrapped_example_def rb_extend_def rb_reserve_def rb_free_cases Let_def bind_eq_Some_conv
        split: prod.splits if_splits)
  from r have "db_try_push (ring_backend scalar_copy) pending_example [7] = Ok pushed_example"
    by (simp add: db_try_push_def try_extend_def ring_backend_def pending_example_def pushed_example_def)
  then show "db_writes (ring_backend scalar_copy) rb_writable False [] pending_example pushed_example"
    using w by (intro db_writes.push [OF db_writes.start, where data = "[7]"]) (simp_all add: pending_example_def)
qed

theorem ring_rollback_witness:
  "\<exists>db''. db_try_restore_checkpoint (ring_backend scalar_copy) pushed_example (db_checkpoint (ring_backend scalar_copy) pending_example) = (db'', True)
      \<and> rb_contents (db_buffer db'') = [5, 6, 0, 1] \<and> db_total_output_counter db'' = db_total_output_counter pending_example"
  using ring_rollback [OF _ pushed_example_facts(1) pending_example_facts(1) surjective_pairing] pushed_example_facts(2) pending_example_facts(4)
  by (metis all_copies_def list.set_intros(1) surjective_pairing)

end
