(* ===== verification/Fse_Encoder.thy ===== *)
theory Fse_Encoder
  imports Fse_Decoder Bit_Streams
begin

text \<open>
  The FSE encoding table of \<^verbatim>\<open>zstd/src/fse/fse_encoder.rs\<close>: its construction from normalised
  probabilities, the state transition by fixed-point arithmetic on \<open>u32\<close>, and the coding of a symbol.
  \<open>None\<close> is a panic, also where the source reads the flat table without a bounds check: a slot outside
  of the table has no result. The symbols are placed by the walk of the decoding table, whose loop the two
  files share word for word. \<open>symbol_tt\<close> keeps \<open>delta_nb_bits\<close> as \<open>u32\<close>; \<open>delta_find_state\<close> stays within the
  table size, so it is an integer.
\<close>

declare skip_taken.simps [code]

section \<open>The table\<close>

record symbol_transform =
  delta_nb_bits :: u32
  delta_find_state :: int

record symbol_states =
  sy_start_state :: "nat option"
  sy_probability :: int
  sy_max_num_bits :: "u8 option"

record enc_table =
  en_states :: "symbol_states list"
  en_table_size :: nat
  en_state_table_flat :: "u16 list"
  en_symbol_tt :: "symbol_transform list"
  en_live_symbols :: nat

definition MAX_FSE_TABLE_SIZE :: nat where
  "MAX_FSE_TABLE_SIZE = 512"

definition no_states :: symbol_states where
  "no_states = \<lparr>sy_start_state = None, sy_probability = 0, sy_max_num_bits = None\<rparr>"

definition no_transform :: symbol_transform where
  "no_transform = \<lparr>delta_nb_bits = 0, delta_find_state = 0\<rparr>"

definition enc_table_blank :: enc_table where
  "enc_table_blank = \<lparr>en_states = replicate 256 no_states, en_table_size = 0, en_state_table_flat = replicate MAX_FSE_TABLE_SIZE 0,
     en_symbol_tt = replicate 256 no_transform, en_live_symbols = 0\<rparr>"

definition en_acc_log :: "enc_table \<Rightarrow> nat" where
  "en_acc_log t = ilog2 (en_table_size t)"

definition symbol_probability :: "enc_table \<Rightarrow> u8 \<Rightarrow> int" where
  "symbol_probability t symbol = sy_probability (en_states t ! unat symbol)"

definition max_num_bits_for_symbol :: "enc_table \<Rightarrow> u8 \<Rightarrow> u8 option" where
  "max_num_bits_for_symbol t symbol = sy_max_num_bits (en_states t ! unat symbol)"

section \<open>Transitions\<close>

record enc_state =
  es_num_bits :: u8
  es_index :: nat

definition next_state :: "enc_table \<Rightarrow> u8 \<Rightarrow> nat \<Rightarrow> enc_state option" where
  "next_state t symbol idx =
     (let tt = en_symbol_tt t ! unat symbol;
          value = of_nat (en_table_size t + idx) :: u32;
          nb_bits = unat (drop_bit 16 (value + delta_nb_bits tt));
          slot = int (unat (drop_bit nb_bits value)) + delta_find_state tt
      in if 0 \<le> slot \<and> slot < int (en_table_size t) \<and> nat slot < length (en_state_table_flat t)
         then Some \<lparr>es_num_bits = of_nat nb_bits, es_index = unat (en_state_table_flat t ! nat slot)\<rparr> else None)"

definition start_state :: "enc_table \<Rightarrow> u8 \<Rightarrow> enc_state option" where
  "start_state t symbol = map_option (\<lambda>index. \<lparr>es_num_bits = 0, es_index = index\<rparr>) (sy_start_state (en_states t ! unat symbol))"

text \<open>The bits that a transition out of a state emits.\<close>

definition enc_transition_bits :: "nat \<Rightarrow> u8 \<Rightarrow> nat" where
  "enc_transition_bits index num_bits = index AND (2 ^ unat num_bits - 1)"

definition encode_symbol_with_state :: "enc_table \<Rightarrow> bit_writer \<Rightarrow> nat \<Rightarrow> u8 \<Rightarrow> (bit_writer \<times> nat) option" where
  "encode_symbol_with_state t w state_index symbol =
     Option.bind (next_state t symbol state_index) (\<lambda>nxt.
     Option.bind (write_bits_64 w (of_nat (enc_transition_bits state_index (es_num_bits nxt))) (unat (es_num_bits nxt))) (\<lambda>w.
       Some (w, es_index nxt)))"

section \<open>Building a table\<close>

text \<open>\<open>u32::saturating_sub\<close>\<close>

definition saturating_sub :: "u32 \<Rightarrow> u32 \<Rightarrow> u32" where
  "saturating_sub a b = (if b \<le> a then a - b else 0)"

text \<open>Phase 1: the symbols of probability \<open>-1\<close> at the top, and the prefix sums of the slots.\<close>

fun enc_place_low :: "int list \<Rightarrow> nat \<Rightarrow> int \<Rightarrow> u8 list \<Rightarrow> u32 list \<Rightarrow> (int \<times> u8 list \<times> u32 list) option" where
  "enc_place_low [] symbol high_threshold table_symbol cumul = Some (high_threshold, table_symbol, cumul)"
| "enc_place_low (prob # probs) symbol high_threshold table_symbol cumul =
     (if symbol + 1 < length cumul then
        if prob = -1 then
          if 0 \<le> high_threshold \<and> nat high_threshold < length table_symbol then
            enc_place_low probs (Suc symbol) (high_threshold - 1) (table_symbol[nat high_threshold := of_nat symbol])
              (cumul[symbol + 1 := cumul ! symbol + 1])
          else None
        else enc_place_low probs (Suc symbol) high_threshold table_symbol
               (cumul[symbol + 1 := cumul ! symbol + (if prob > 0 then of_int prob else 0)])
      else None)"

text \<open>Phase 2: the walk, which also returns where it stopped. A position is taken when it lies above the threshold.\<close>

fun enc_spread :: "int list \<Rightarrow> nat \<Rightarrow> nat \<Rightarrow> int \<Rightarrow> nat \<Rightarrow> u8 list \<Rightarrow> (nat \<times> u8 list) option" where
  "enc_spread [] symbol table_size high_threshold position table_symbol = Some (position, table_symbol)"
| "enc_spread (prob # probs) symbol table_size high_threshold position table_symbol =
     (if prob \<le> 0 then enc_spread probs (Suc symbol) table_size high_threshold position table_symbol
      else
        Option.bind (place_times table_size (nat (high_threshold + 1)) (nat prob) (of_nat symbol) position table_symbol)
          (\<lambda>(position, table_symbol). enc_spread probs (Suc symbol) table_size high_threshold position table_symbol))"

text \<open>Phase 3: every slot at the running cursor of its symbol.\<close>

fun fill_state_table :: "u8 list \<Rightarrow> nat \<Rightarrow> u32 list \<Rightarrow> u16 list \<Rightarrow> u16 list option" where
  "fill_state_table [] u cursor flat = Some flat"
| "fill_state_table (s # symbols) u cursor flat =
     (let c = unat (cursor ! unat s) in
      if c < length flat then
        fill_state_table symbols (Suc u) (cursor[unat s := cursor ! unat s + 1]) (flat[c := of_nat u])
      else None)"

text \<open>Phase 4: the transform of one symbol; a probability below \<open>-1\<close> is the unreachable branch.\<close>

definition symbol_transform_of :: "nat \<Rightarrow> int \<Rightarrow> nat \<Rightarrow> symbol_transform option" where
  "symbol_transform_of acc_log prob slots_so_far =
     (if prob = -1 \<or> prob = 1 then
        Some \<lparr>delta_nb_bits = saturating_sub (push_bit 16 (of_nat acc_log)) (push_bit acc_log 1), delta_find_state = int slots_so_far - 1\<rparr>
      else if prob > 1 then
        let log = ilog2 (nat prob - 1) in
        if log > acc_log then None
        else
          let max_bits_out = acc_log - log; min_state_plus = push_bit max_bits_out (of_int prob) in
          Some \<lparr>delta_nb_bits = saturating_sub (push_bit 16 (of_nat max_bits_out)) min_state_plus, delta_find_state = int slots_so_far - prob\<rparr>
      else None)"

definition start_index :: "u16 list \<Rightarrow> symbol_transform \<Rightarrow> nat option" where
  "start_index flat tt =
     (let init_nb_bits_out = drop_bit 16 (delta_nb_bits tt + push_bit 15 1);
          init_value = saturating_sub (push_bit 16 init_nb_bits_out) (delta_nb_bits tt);
          state_table_index = int (unat (drop_bit (unat init_nb_bits_out) init_value)) + delta_find_state tt
      in if 0 \<le> state_table_index \<and> nat state_table_index < length flat
         then Some (unat (flat ! nat state_table_index)) else None)"

fun fill_symbols ::
  "nat \<Rightarrow> u16 list \<Rightarrow> int list \<Rightarrow> nat \<Rightarrow> nat \<Rightarrow> symbol_states list \<Rightarrow> symbol_transform list
     \<Rightarrow> (symbol_states list \<times> symbol_transform list) option" where
  "fill_symbols acc_log flat [] symbol slots_so_far states tts = Some (states, tts)"
| "fill_symbols acc_log flat (prob # probs) symbol slots_so_far states tts =
     (if symbol < length states \<and> symbol < length tts then
        if prob = 0 then
          fill_symbols acc_log flat probs (Suc symbol) slots_so_far
            (states[symbol := \<lparr>sy_start_state = None, sy_probability = prob, sy_max_num_bits = None\<rparr>])
            (tts[symbol := \<lparr>delta_nb_bits = saturating_sub (push_bit 16 (of_nat acc_log + 1)) (push_bit acc_log 1), delta_find_state = 0\<rparr>])
        else
          Option.bind (symbol_transform_of acc_log prob slots_so_far) (\<lambda>tt.
          Option.bind (start_index flat tt) (\<lambda>start.
            let max_value = (2 * push_bit acc_log 1 - 1) + delta_nb_bits tt in
            fill_symbols acc_log flat probs (Suc symbol) (slots_so_far + nat \<bar>prob\<bar>)
              (states[symbol := \<lparr>sy_start_state = Some start, sy_probability = prob, sy_max_num_bits = Some (ucast (drop_bit 16 max_value))\<rparr>])
              (tts[symbol := tt])))
      else None)"

text \<open>What an earlier, wider alphabet left behind is cleared first.\<close>

definition clear_tail :: "'a \<Rightarrow> nat \<Rightarrow> nat \<Rightarrow> 'a list \<Rightarrow> 'a list" where
  "clear_tail x from_idx to_idx xs = (if to_idx > from_idx then take from_idx xs @ replicate (to_idx - from_idx) x @ drop to_idx xs else xs)"

definition build_table_from_probabilities_into :: "int list \<Rightarrow> nat \<Rightarrow> enc_table \<Rightarrow> enc_table option" where
  "build_table_from_probabilities_into probs acc_log out =
     (let table_size = 2 ^ acc_log;
          states = clear_tail no_states (length probs) (en_live_symbols out) (en_states out);
          tts = clear_tail no_transform (length probs) (en_live_symbols out) (en_symbol_tt out) in
      if table_size > MAX_FSE_TABLE_SIZE then None
      else
        Option.bind (enc_place_low probs 0 (int table_size - 1) (replicate table_size 0) (replicate 257 0)) (\<lambda>(high_threshold, table_symbol, cumul).
        Option.bind (enc_spread probs 0 table_size high_threshold 0 table_symbol) (\<lambda>(position, table_symbol).
          if position \<noteq> 0 \<or> unat (cumul ! length probs) \<noteq> table_size then None
          else
            Option.bind (fill_state_table table_symbol 0 cumul (en_state_table_flat out)) (\<lambda>flat.
            Option.bind (fill_symbols acc_log flat probs 0 0 states tts) (\<lambda>(states, tts).
              Some \<lparr>en_states = states, en_table_size = table_size, en_state_table_flat = flat, en_symbol_tt = tts,
                    en_live_symbols = length probs\<rparr>)))))"

definition build_table_from_probabilities :: "int list \<Rightarrow> nat \<Rightarrow> enc_table option" where
  "build_table_from_probabilities probs acc_log = build_table_from_probabilities_into probs acc_log enc_table_blank"


section \<open>The spread\<close>

text \<open>The walk stands on a free slot, or on the first one again when no slot is left.\<close>

definition on_slot :: "nat \<Rightarrow> nat \<Rightarrow> nat \<Rightarrow> nat list \<Rightarrow> bool" where
  "on_slot k neg pos rem \<longleftrightarrow> (\<exists>i \<le> 2 ^ k. pos = table_walk k i \<and> pos < neg \<and> rem = free_slots k neg i)"

lemma on_slot_end: "on_slot k neg pos [] \<Longrightarrow> pos = 0"
proof -
  assume "on_slot k neg pos []"
  then obtain i where i: "i \<le> 2 ^ k" "pos = table_walk k i" "pos < neg" "free_slots k neg i = []" by (auto simp: on_slot_def)
  have "i = 2 ^ k" using i by (cases "i = 2 ^ k") (auto simp: free_slots_def upt_conv_Cons)
  then show "pos = 0" using i(2) walk_period [of _ "2 ^ k" 1] by simp
qed

lemma place_times_on_slot:
  assumes "on_slot k neg pos rem" "n \<le> length rem" "neg \<le> length spread"
  shows "\<exists>pos'. place_times (2 ^ k) neg n s pos spread = Some (pos', scatter (take n rem) (replicate n s) spread) \<and> on_slot k neg pos' (drop n rem)"
  using assms
proof (induction n arbitrary: pos rem spread)
  case (Suc n)
  from Suc.prems(1) obtain i where i: "i \<le> 2 ^ k" "pos = table_walk k i" "pos < neg" "rem = free_slots k neg i" by (auto simp: on_slot_def)
  have lt: "i < 2 ^ k" using i Suc.prems(2) by (cases "i = 2 ^ k") (auto simp: free_slots_def)
  have rem: "rem = pos # free_slots k neg (Suc i)" using i lt by (simp add: free_slots_def upt_conv_Cons)
  obtain j where j: "Suc i \<le> j" "table_walk k j < neg" "\<forall>m. Suc i \<le> m \<and> m < j \<longrightarrow> neg \<le> table_walk k m"
    using next_free_slot [of neg "Suc i" k] i(3) by auto
  have "\<not> 2 ^ k < j"
  proof
    assume "2 ^ k < j"
    then have "neg \<le> table_walk k (2 ^ k)" using j(3) lt by simp
    moreover have "table_walk k (2 ^ k) = 0" using walk_period [of _ "2 ^ k" 1] by simp
    ultimately show False using i(3) by linarith
  qed
  then have jk: "j \<le> 2 ^ k" by simp
  have skip: "skip_taken (2 ^ k) neg (next_position pos (2 ^ k)) = Some (table_walk k j)"
    unfolding i(2) next_position_walk by (rule skip_taken_walk [OF j])
  have "free_slots k neg (Suc i) = free_slots k neg j"
  proof (cases "j = 2 ^ k")
    case False
    then have "free_slots k neg (Suc i) \<noteq> []" using j(1,2) jk by (auto simp: free_slots_def filter_empty_conv intro!: bexI [of _ j])
    then show ?thesis using free_slots_next [OF j(1,3)] by blast
  qed (use free_slots_next [OF j(1,3)] in \<open>simp add: free_slots_def\<close>)
  then have "on_slot k neg (table_walk k j) (free_slots k neg (Suc i))" using j(2) jk by (auto simp: on_slot_def)
  from Suc.IH [OF this, of "spread[pos := s]"] Suc.prems(2,3) i(3) skip show ?case by (simp add: rem store_def)
qed (simp add: on_slot_def)

lemma enc_spread_spec:
  assumes "on_slot k neg pos rem" "length (ordered_symbols symbol ps) \<le> length rem" "neg \<le> length spread"
  shows "\<exists>pos'. enc_spread ps symbol (2 ^ k) (int neg - 1) pos spread
       = Some (pos', scatter (take (length (ordered_symbols symbol ps)) rem) (ordered_symbols symbol ps) spread)
     \<and> on_slot k neg pos' (drop (length (ordered_symbols symbol ps)) rem)"
  using assms
proof (induction ps arbitrary: symbol pos rem spread)
  case (Cons p ps)
  show ?case
  proof (cases "p \<le> 0")
    case False
    obtain pos' where place: "place_times (2 ^ k) neg (nat p) (of_nat symbol) pos spread
         = Some (pos', scatter (take (nat p) rem) (replicate (nat p) (of_nat symbol)) spread)"
        and at: "on_slot k neg pos' (drop (nat p) rem)"
      using place_times_on_slot [OF Cons.prems(1), of "nat p" spread "of_nat symbol"] Cons.prems(2,3) by auto
    have "length (take (nat p) rem) = length (replicate (nat p) (of_nat symbol :: u8))" using Cons.prems(2) by simp
    from scatter_append [OF this] Cons.IH [OF at, of "Suc symbol"] False place Cons.prems show ?thesis
      by (auto simp: take_add add.commute)
  qed (use Cons in simp)
qed simp

lemma enc_spread_nothing: "list_all (\<lambda>p. p \<le> 0) ps \<Longrightarrow> enc_spread ps symbol table_size high pos spread = Some (pos, spread)"
  by (induction ps arbitrary: symbol) simp_all

definition slots_before :: "int list \<Rightarrow> nat \<Rightarrow> nat" where
  "slots_before ps s = sum_list (map prob_slots (take s ps))"

lemma enc_place_low_spec:
  assumes "list_all (\<lambda>p. -1 \<le> p) ps" "length (low_symbols symbol ps) \<le> neg" "neg \<le> length spread" "symbol + length ps < length cumul"
  shows "\<exists>cumul'. enc_place_low ps symbol (int neg - 1) spread cumul =
     Some (int (neg - length (low_symbols symbol ps)) - 1,
       take (neg - length (low_symbols symbol ps)) spread @ rev (low_symbols symbol ps) @ drop neg spread, cumul') \<and> length cumul' = length cumul
     \<and> (\<forall>i \<le> symbol. cumul' ! i = cumul ! i) \<and> (\<forall>i \<le> length ps. cumul' ! (symbol + i) = cumul ! symbol + of_nat (slots_before ps i))"
  using assms
proof (induction ps arbitrary: symbol neg spread cumul)
  case (Cons p ps)
  let ?c = "cumul[symbol + 1 := cumul ! symbol + of_nat (prob_slots p)]"
  have sn: "symbol < length cumul" "symbol + 1 < length cumul" using Cons.prems(4) by simp_all
  have fin: "\<forall>i \<le> Suc symbol. c' ! i = ?c ! i \<Longrightarrow> \<forall>i \<le> length ps. c' ! (Suc symbol + i) = ?c ! Suc symbol + of_nat (slots_before ps i)
      \<Longrightarrow> (\<forall>i \<le> symbol. c' ! i = cumul ! i) \<and> (\<forall>i \<le> length (p # ps). c' ! (symbol + i) = cumul ! symbol + of_nat (slots_before (p # ps) i))" for c'
  proof (intro conjI allI impI, goal_cases)
    case (2 i)
    show ?case
    proof (cases i)
      case 0
      then show ?thesis using 2(1) sn by (auto simp: slots_before_def)
    next
      case (Suc j)
      then show ?thesis using 2 sn by (auto simp: slots_before_def)
    qed
  qed auto
  show ?case
  proof (cases "p = -1")
    case True
    let ?n = "length (low_symbols (Suc symbol) ps)" and ?sp = "spread[neg - 1 := of_nat symbol]"
    have n: "?n \<le> neg - 1" "0 < neg" "neg - 1 < length spread" using Cons.prems True by auto
    have upd: "?sp = take (neg - 1) spread @ [of_nat symbol] @ drop neg spread" using n by (simp add: upd_conv_take_nth_drop)
    have t: "take (neg - 1 - ?n) ?sp = take (neg - Suc ?n) spread" "drop (neg - 1) ?sp = of_nat symbol # drop neg spread"
      unfolding upd using n by simp_all
    have high: "int neg - 1 - 1 = int (neg - 1) - 1" "nat (int neg - 1) = neg - 1" and ge: "0 \<le> int neg - 1" using n by auto
    have "prob_slots p = 1" using True by (simp add: prob_slots_def)
    then have step: "enc_place_low (p # ps) symbol (int neg - 1) spread cumul = enc_place_low ps (Suc symbol) (int (neg - 1) - 1) ?sp ?c"
      using True n(3) sn(2) ge by (simp only: enc_place_low.simps(2) high of_nat_1 if_True simp_thms Suc_eq_plus1 [symmetric])
    obtain c' where c': "enc_place_low ps (Suc symbol) (int (neg - 1) - 1) ?sp ?c = Some (int (neg - 1 - ?n) - 1,
         take (neg - 1 - ?n) ?sp @ rev (low_symbols (Suc symbol) ps) @ drop (neg - 1) ?sp, c')" "length c' = length cumul"
         "\<forall>i \<le> Suc symbol. c' ! i = ?c ! i" "\<forall>i \<le> length ps. c' ! (Suc symbol + i) = ?c ! Suc symbol + of_nat (slots_before ps i)"
      using Cons.IH [of "Suc symbol" "neg - 1" ?sp ?c] Cons.prems(1,4) n by auto
    show ?thesis unfolding step using c'(1,2) fin [OF c'(3,4)] True t by (intro exI [of _ c']) simp
  next
    case False
    then have pp: "prob_slots p = nat p" "0 \<le> p" using Cons.prems(1) by (simp_all add: prob_slots_def)
    then have "of_nat (prob_slots p) = (if p > 0 then of_int p else 0 :: u32)" by (simp add: of_nat_nat)
    then have step: "enc_place_low (p # ps) symbol (int neg - 1) spread cumul = enc_place_low ps (Suc symbol) (int neg - 1) spread ?c"
      using False sn by simp
    obtain c' where c': "enc_place_low ps (Suc symbol) (int neg - 1) spread ?c = Some (int (neg - length (low_symbols (Suc symbol) ps)) - 1,
         take (neg - length (low_symbols (Suc symbol) ps)) spread @ rev (low_symbols (Suc symbol) ps) @ drop neg spread, c')" "length c' = length cumul"
         "\<forall>i \<le> Suc symbol. c' ! i = ?c ! i" "\<forall>i \<le> length ps. c' ! (Suc symbol + i) = ?c ! Suc symbol + of_nat (slots_before ps i)"
      using Cons.IH [of "Suc symbol" neg spread ?c] Cons.prems False by auto
    show ?thesis unfolding step using c'(1,2) fin [OF c'(3,4)] False by (intro exI [of _ c']) simp
  qed
qed (simp add: slots_before_def)

text \<open>Both tables spread the symbols alike, and the walk ends where it began.\<close>

lemma enc_spread_equals:
  assumes fill: "probs_fill k ps" and k: "k = 2 \<or> 4 \<le> k" "(2 :: nat) ^ k \<le> 512" and sp: "map_option fst (spread_symbols ps (2 ^ k)) = Some spread"
  shows "\<exists>high ts cumul. enc_place_low ps 0 (int (2 ^ k) - 1) (replicate (2 ^ k) 0) (replicate 257 0) = Some (high, ts, cumul)
     \<and> enc_spread ps 0 (2 ^ k) high 0 ts = Some (0, spread) \<and> length cumul = 257 \<and> (\<forall>i \<le> length ps. cumul ! i = of_nat (slots_before ps i))"
proof -
  define low neg where "low = low_symbols 0 ps" and "neg = 2 ^ k - length (low_symbols 0 ps)"
  have odd: "odd (spread_step (2 ^ k))" using k(1) by (rule odd_spread_step)
  have len: "length low + length (ordered_symbols 0 ps) = 2 ^ k" "length ps \<le> 256" "list_all (\<lambda>p. -1 \<le> p) ps"
    using fill slots_split [of ps 0] by (simp_all add: probs_fill_def low_def)
  then have neg: "length (ordered_symbols 0 ps) = neg" "neg \<le> 2 ^ k" "length low \<le> 2 ^ k" by (simp_all add: neg_def low_def)
  have spread: "spread = scatter (free_slots k neg 0) (ordered_symbols 0 ps) (replicate neg 0 @ rev low)"
    using spread_symbols_scatter [OF fill _ k(2) odd] sp k(1) by (auto simp: neg_def low_def)
  obtain cumul where c: "enc_place_low ps 0 (int (2 ^ k) - 1) (replicate (2 ^ k) 0) (replicate 257 0) = Some (int neg - 1, replicate neg 0 @ rev low, cumul)"
      "length cumul = 257" "\<forall>i \<le> length ps. cumul ! i = of_nat (slots_before ps i)"
    using enc_place_low_spec [OF len(3), of 0 "2 ^ k" "replicate (2 ^ k) 0" "replicate 257 0"] neg(3) len(2) by (auto simp: low_def neg_def)
  have "enc_spread ps 0 (2 ^ k) (int neg - 1) 0 (replicate neg 0 @ rev low) = Some (0, spread)"
  proof (cases "neg = 0")
    case True
    then have o: "ordered_symbols 0 ps = []" using neg(1) by simp
    have "list_all (\<lambda>p. p \<le> 0) qs" if "ordered_symbols s qs = []" for s qs using that by (induction qs arbitrary: s) auto
    then have "list_all (\<lambda>p. p \<le> 0) ps" using o by blast
    moreover have "spread = replicate neg 0 @ rev low" unfolding spread o by (cases "free_slots k neg 0") simp_all
    ultimately show ?thesis by (simp add: enc_spread_nothing)
  next
    case False
    then have "on_slot k neg 0 (free_slots k neg 0)" by (auto simp: on_slot_def intro!: exI [of _ 0])
    from enc_spread_spec [OF this, of 0 ps "replicate neg 0 @ rev low"] obtain pos' where
        "enc_spread ps 0 (2 ^ k) (int neg - 1) 0 (replicate neg 0 @ rev low) = Some (pos', scatter (take neg (free_slots k neg 0)) (ordered_symbols 0 ps) (replicate neg 0 @ rev low))"
        "on_slot k neg pos' (drop neg (free_slots k neg 0))"
      using neg free_slots_all(3) [OF odd neg(2)] by auto
    then show ?thesis using on_slot_end free_slots_all(3) [OF odd neg(2)] by (simp add: spread)
  qed
  then show ?thesis using c by blast
qed

section \<open>The flat table\<close>

definition slot_of :: "int list \<Rightarrow> u8 list \<Rightarrow> nat \<Rightarrow> nat" where
  "slot_of ps spread i = slots_before ps (unat (spread ! i)) + count_list (take i spread) (spread ! i)"

lemma slots_before_Suc: "unat s < length ps \<Longrightarrow> slots_before ps (Suc (unat s)) = slots_before ps (unat s) + slots_of ps s"
  by (simp add: slots_before_def slots_of_def take_Suc_conv_app_nth)

lemma slots_before_mono: "i \<le> j \<Longrightarrow> slots_before ps i \<le> slots_before ps j"
proof -
  assume "i \<le> j"
  then have "take j ps = take i ps @ drop i (take j ps)" using append_take_drop_id [of i "take j ps"] by (simp add: min_def)
  then show ?thesis unfolding slots_before_def by (metis map_append sum_list_append le_add1)
qed

lemma count_take_less: "\<lbrakk>i < length xs; xs ! i = s\<rbrakk> \<Longrightarrow> count_list (take i xs) s < count_list xs s"
  using arg_cong [OF id_take_nth_drop [of i xs], of "\<lambda>ys. count_list ys s"] by (simp only: count_list_append) simp

lemma count_take_mono: "i \<le> j \<Longrightarrow> count_list (take i xs) s \<le> count_list (take j xs) s"
proof -
  assume "i \<le> j"
  then have "take j xs = take i xs @ drop i (take j xs)" using append_take_drop_id [of i "take j xs"] by (simp add: min_def)
  then show ?thesis by (metis count_list_append le_add1)
qed

text \<open>A spread that gives every symbol its share.\<close>

definition spread_of :: "nat \<Rightarrow> int list \<Rightarrow> u8 list \<Rightarrow> bool" where
  "spread_of k ps spread \<longleftrightarrow> probs_fill k ps \<and> length spread = 2 ^ k \<and> (\<forall>s. count_list spread s = slots_of ps s)"

lemma spread_symbol:
  assumes "spread_of k ps spread" "i < length spread"
  shows "unat (spread ! i) < length ps" "count_list (take i spread) (spread ! i) < slots_of ps (spread ! i)"
    "slot_of ps spread i < slots_before ps (Suc (unat (spread ! i)))" "slots_before ps (Suc (unat (spread ! i))) \<le> 2 ^ k"
proof -
  show c: "count_list (take i spread) (spread ! i) < slots_of ps (spread ! i)"
    using count_take_less [OF assms(2) refl] assms(1) by (simp add: spread_of_def)
  then show u: "unat (spread ! i) < length ps" by (simp add: slots_of_def split: if_splits)
  show "slot_of ps spread i < slots_before ps (Suc (unat (spread ! i)))" using c slots_before_Suc [OF u] by (simp add: slot_of_def)
  have "slots_before ps (Suc (unat (spread ! i))) \<le> slots_before ps (length ps)" using u by (intro slots_before_mono) simp
  also have "\<dots> = 2 ^ k" using assms(1) by (simp add: spread_of_def slots_before_def probs_fill_def)
  finally show "slots_before ps (Suc (unat (spread ! i))) \<le> 2 ^ k" .
qed

lemma slot_of_less: "\<lbrakk>spread_of k ps spread; i < length spread\<rbrakk> \<Longrightarrow> slot_of ps spread i < 2 ^ k"
  using spread_symbol(3,4) by (meson less_le_trans)

lemma slot_of_inj:
  assumes sp: "spread_of k ps spread" and i: "i < j" "j < length spread"
  shows "slot_of ps spread i \<noteq> slot_of ps spread j"
proof (cases "spread ! i = spread ! j")
  case True
  have "count_list (take i spread) (spread ! i) < count_list (take (Suc i) spread) (spread ! i)"
    using i by (simp add: take_Suc_conv_app_nth)
  also have "\<dots> \<le> count_list (take j spread) (spread ! i)" using i by (intro count_take_mono) simp
  finally show ?thesis using True by (simp add: slot_of_def)
next
  case False
  then have "unat (spread ! i) < unat (spread ! j) \<or> unat (spread ! j) < unat (spread ! i)" by (simp add: word_unat_eq_iff nat_neq_iff)
  then show ?thesis
  proof
    assume "unat (spread ! i) < unat (spread ! j)"
    then have "slots_before ps (Suc (unat (spread ! i))) \<le> slots_before ps (unat (spread ! j))" by (intro slots_before_mono) simp
    then show ?thesis using spread_symbol(3) [OF sp, of i] i by (simp add: slot_of_def)
  next
    assume "unat (spread ! j) < unat (spread ! i)"
    then have "slots_before ps (Suc (unat (spread ! j))) \<le> slots_before ps (unat (spread ! i))" by (intro slots_before_mono) simp
    then show ?thesis using spread_symbol(3) [OF sp i(2)] by (simp add: slot_of_def)
  qed
qed

lemma fill_state_table_spec:
  assumes sp: "spread_of k ps spread" and k: "(2 :: nat) ^ k \<le> 512" and flat: "length flat = 512"
    and cursor: "length cursor = 257" "\<forall>s. unat s < length ps \<longrightarrow> cursor ! unat s = of_nat (slots_before ps (unat s) + count_list (take u spread) s)"
    and filled: "\<forall>i < u. flat ! slot_of ps spread i = of_nat i" and u: "u \<le> length spread"
  shows "\<exists>flat'. fill_state_table (drop u spread) u cursor flat = Some flat' \<and> length flat' = 512
     \<and> (\<forall>i < length spread. flat' ! slot_of ps spread i = of_nat i)"
  using u flat cursor filled
proof (induction "length spread - u" arbitrary: u cursor flat)
  case (Suc n)
  let ?s = "spread ! u" and ?c = "slot_of ps spread u"
  have u: "u < length spread" using Suc.hyps(2) by simp
  have us: "unat ?s < length ps" "unat ?s < 257" using spread_symbol(1) [OF sp u] byte_less [of ?s] by simp_all
  have c: "?c < 512" using slot_of_less [OF sp u] k by simp
  have "cursor ! unat ?s = of_nat ?c" using Suc.prems(4) us by (simp add: slot_of_def)
  then have cu: "unat (cursor ! unat ?s) = ?c" using c by (simp add: unat_of_nat)
  let ?cursor = "cursor[unat ?s := cursor ! unat ?s + 1]" and ?flat = "flat[?c := of_nat u]"
  have "drop u spread = ?s # drop (Suc u) spread" using u by (simp add: Cons_nth_drop_Suc)
  then have step: "fill_state_table (drop u spread) u cursor flat = fill_state_table (drop (Suc u) spread) (Suc u) ?cursor ?flat"
    using cu c Suc.prems(2) by (simp add: Let_def)
  have cur: "\<forall>s. unat s < length ps \<longrightarrow> ?cursor ! unat s = of_nat (slots_before ps (unat s) + count_list (take (Suc u) spread) s)"
  proof (intro allI impI)
    fix s :: u8 assume s: "unat s < length ps"
    show "?cursor ! unat s = of_nat (slots_before ps (unat s) + count_list (take (Suc u) spread) s)"
    proof (cases "s = ?s")
      case True
      then show ?thesis using Suc.prems(3,4) s us u by (simp add: take_Suc_conv_app_nth)
    next
      case False
      then have "unat ?s \<noteq> unat s" by (simp add: word_unat_eq_iff)
      then show ?thesis using Suc.prems(4) s False u by (simp add: take_Suc_conv_app_nth)
    qed
  qed
  have fl: "\<forall>i < Suc u. ?flat ! slot_of ps spread i = of_nat i"
  proof (intro allI impI)
    fix i assume "i < Suc u"
    then show "?flat ! slot_of ps spread i = of_nat i"
      using Suc.prems(2,5) c u slot_of_inj [OF sp, of i u] by (cases "i = u") auto
  qed
  show ?case unfolding step using Suc.hyps(2) u Suc.prems(2,3) cur fl by (intro Suc.hyps(1)) simp_all
qed simp

section \<open>The transforms\<close>

lemma unat_saturating_sub: "saturating_sub a b = of_nat (unat a - unat b)"
proof (cases "b \<le> a")
  case True
  then have u: "unat (a - b) = unat a - unat b" by (rule unat_sub)
  show ?thesis unfolding u [symmetric] using True by (simp add: saturating_sub_def)
qed (simp add: saturating_sub_def word_le_nat_alt)

text \<open>The width of a transition into a symbol with \<open>p\<close> slots, and the first state that needs it.\<close>

definition max_out :: "nat \<Rightarrow> nat \<Rightarrow> nat" where
  "max_out al p = (if p = 1 then al else al - ilog2 (p - 1))"

lemma max_out_bounds:
  assumes "0 < p" "p \<le> 2 ^ al"
  shows "max_out al p \<le> al" "2 ^ al \<le> p * 2 ^ max_out al p" "p * 2 ^ max_out al p \<le> 2 ^ Suc al"
    "0 < al \<Longrightarrow> 0 < max_out al p" "1 < p \<Longrightarrow> p * 2 ^ (max_out al p - 1) \<le> 2 ^ al"
proof -
  consider "p = 1" | "1 < p" using assms(1) by linarith
  then have "max_out al p \<le> al \<and> 2 ^ al \<le> p * 2 ^ max_out al p \<and> p * 2 ^ max_out al p \<le> 2 ^ Suc al \<and> (0 < al \<longrightarrow> 0 < max_out al p)
     \<and> (1 < p \<longrightarrow> p * 2 ^ (max_out al p - 1) \<le> 2 ^ al)"
  proof cases
    case 2
    define l where "l = ilog2 (p - 1)"
    have l: "2 ^ l \<le> p - 1" "p - 1 < 2 ^ Suc l" using ilog2_bounds [of "p - 1"] 2 by (simp_all add: l_def)
    then have "(2 :: nat) ^ l < 2 ^ al" using assms(2) 2 by linarith
    then have la: "l < al" by simp
    have m: "max_out al p = al - l" using 2 by (simp add: max_out_def l_def)
    have e: "(2 :: nat) ^ l * 2 ^ (al - l) = 2 ^ al" "(2 :: nat) ^ Suc l * 2 ^ (al - l - 1) = 2 ^ al" "(2 :: nat) ^ Suc l * 2 ^ (al - l) = 2 ^ Suc al"
      using la by (simp_all flip: power_add power_Suc) (simp add: mult.assoc flip: power_add)?
    have p: "2 ^ l \<le> p" "p \<le> 2 ^ Suc l" using l 2 by linarith+
    have "2 ^ al \<le> p * 2 ^ (al - l)" "p * 2 ^ (al - l) \<le> 2 ^ Suc al" "p * 2 ^ (al - l - 1) \<le> 2 ^ al"
      using mult_le_mono1 [OF p(1), of "2 ^ (al - l)"] mult_le_mono1 [OF p(2), of "2 ^ (al - l)"] mult_le_mono1 [OF p(2), of "2 ^ (al - l - 1)"]
      by (simp_all only: e)
    then show ?thesis unfolding m using la by simp
  qed (simp add: max_out_def)
  then show "max_out al p \<le> al" "2 ^ al \<le> p * 2 ^ max_out al p" "p * 2 ^ max_out al p \<le> 2 ^ Suc al"
    "0 < al \<Longrightarrow> 0 < max_out al p" "1 < p \<Longrightarrow> p * 2 ^ (max_out al p - 1) \<le> 2 ^ al" by blast+
qed

definition transform_for :: "nat \<Rightarrow> nat \<Rightarrow> nat \<Rightarrow> symbol_transform" where
  "transform_for al p tot = \<lparr>delta_nb_bits = of_nat (max_out al p * 65536 - p * 2 ^ max_out al p), delta_find_state = int tot - int p\<rparr>"

lemma unat_shifted: "\<lbrakk>n * 2 ^ m < 2 ^ 32\<rbrakk> \<Longrightarrow> unat (push_bit m (of_nat n :: u32)) = n * 2 ^ m"
proof -
  assume n: "n * 2 ^ m < 2 ^ 32"
  have e: "push_bit m (of_nat n :: u32) = of_nat (n * 2 ^ m)" by (simp add: push_bit_eq_mult)
  show ?thesis unfolding e unat_of_nat using n by simp
qed

lemma unat_drop_of_nat: "n < 2 ^ 32 \<Longrightarrow> unat (drop_bit k (of_nat n :: u32)) = n div 2 ^ k"
  unfolding unat_drop_bit_eq by (simp add: unat_of_nat drop_bit_eq_div)

lemma symbol_transform_ok:
  assumes "-1 \<le> prob" "prob \<noteq> 0" "prob_slots prob \<le> 2 ^ al" "0 < al" "al \<le> 9"
  shows "symbol_transform_of al prob tot = Some (transform_for al (prob_slots prob) tot)"
proof -
  define p m where "p = prob_slots prob" and "m = max_out al p"
  have p: "0 < p" "p \<le> 2 ^ al" using assms(1-3) by (auto simp: p_def prob_slots_def)
  note b = max_out_bounds [OF p]
  have small: "(2 :: nat) ^ Suc al \<le> 2 ^ 10" using assms(5) by (intro power_increasing) simp_all
  have pm: "p * 2 ^ m \<le> 1024" using b(3) small by (simp add: m_def)
  have m9: "m \<le> 9" using b(1) assms(5) by (simp add: m_def)
  have sh: "unat (push_bit 16 (of_nat m :: u32)) = m * 65536" using unat_shifted [of m 16] m9 by simp
  have sp: "unat (push_bit m (of_nat p :: u32)) = p * 2 ^ m" using pm by (intro unat_shifted) simp
  show ?thesis
  proof (cases "prob = -1 \<or> prob = 1")
    case True
    then have "p = 1" by (auto simp: p_def prob_slots_def)
    then show ?thesis using True sh sp by (simp add: symbol_transform_of_def transform_for_def unat_saturating_sub m_def max_out_def p_def [symmetric])
  next
    case False
    then have pp: "1 < prob" "prob = int p" "1 < p" using assms(1,2) by (auto simp: p_def prob_slots_def)
    have me: "m = al - ilog2 (p - 1)" using pp by (simp add: m_def max_out_def)
    have "ilog2 (p - 1) \<le> al" using b(4) assms(4) me unfolding m_def by linarith
    moreover have "nat prob - 1 = p - 1" using pp by simp
    ultimately have "symbol_transform_of al prob tot
        = Some \<lparr>delta_nb_bits = saturating_sub (push_bit 16 (of_nat m)) (push_bit m (of_int prob)), delta_find_state = int tot - prob\<rparr>"
      using False pp(1) unfolding symbol_transform_of_def Let_def me by simp
    then show ?thesis using sh sp unfolding transform_for_def unat_saturating_sub p_def [symmetric] m_def [symmetric] by (simp add: pp(2))
  qed
qed

text \<open>Where a transition goes: the state, with the table size added, divided by the width of the transition is a counter of the symbol.\<close>

lemma transition_arith:
  fixes tot :: nat
  assumes p: "0 < p" "p \<le> 2 ^ al" and al: "0 < al" "al \<le> 9" and x: "x < 2 ^ al"
  defines "nb \<equiv> unat (drop_bit 16 ((of_nat (2 ^ al + x) :: u32) + delta_nb_bits (transform_for al p tot)))"
  shows "nb \<le> al" "p \<le> (2 ^ al + x) div 2 ^ nb" "(2 ^ al + x) div 2 ^ nb < 2 * p"
proof -
  define m v where "m = max_out al p" and "v = 2 ^ al + x"
  note b = max_out_bounds [OF p, folded m_def]
  have small: "(2 :: nat) ^ Suc al \<le> 2 ^ 10" using al by (intro power_increasing) simp_all
  have v: "2 ^ al \<le> v" "v < 2 ^ Suc al" "v < 1024" using x small by (simp_all add: v_def)
  have m: "0 < m" "m \<le> 9" "p * 2 ^ m \<le> 1024" using b al small by simp_all
  have "(of_nat v :: u32) + of_nat (m * 65536 - p * 2 ^ m) = of_nat (v + (m * 65536 - p * 2 ^ m))" by simp
  moreover have "v + (m * 65536 - p * 2 ^ m) < 2 ^ 32" using v(3) m(2) by simp
  ultimately have nb: "nb = (v + (m * 65536 - p * 2 ^ m)) div 65536"
    unfolding nb_def transform_for_def symbol_transform.select_convs m_def [symmetric] v_def [symmetric]
    using unat_drop_of_nat [of "v + (m * 65536 - p * 2 ^ m)" 16] by (simp del: of_nat_add)
  have m0: "m * 65536 = (m - 1) * 65536 + 65536" using m(1) by (cases m) simp_all
  have "nb = m \<and> p * 2 ^ m \<le> v \<or> nb = m - 1 \<and> v < p * 2 ^ m"
  proof (cases "p * 2 ^ m \<le> v")
    case True
    then have "v + (m * 65536 - p * 2 ^ m) = (v - p * 2 ^ m) + m * 65536" using m m0 by linarith
    then show ?thesis using True v(3) unfolding nb by simp
  next
    case False
    then have "v + (m * 65536 - p * 2 ^ m) = (65536 - (p * 2 ^ m - v)) + (m - 1) * 65536" using m m0 by linarith
    moreover have "(65536 - (p * 2 ^ m - v)) div 65536 = 0" using False by simp
    ultimately show ?thesis using False unfolding nb by simp
  qed
  then show "nb \<le> al" "p \<le> (2 ^ al + x) div 2 ^ nb" "(2 ^ al + x) div 2 ^ nb < 2 * p"
  proof -
    assume c: "nb = m \<and> p * 2 ^ m \<le> v \<or> nb = m - 1 \<and> v < p * 2 ^ m"
    show "nb \<le> al" using c b(1) by linarith
    have "p * 2 ^ nb \<le> v"
    proof (cases "nb = m \<and> p * 2 ^ m \<le> v")
      case False
      then have n: "nb = m - 1" "v < p * 2 ^ m" using c by auto
      then have "1 < p" using p b v by (cases "p = 1") (auto simp: m_def max_out_def)
      then show ?thesis using b(5) v(1) n(1) by simp
    qed simp
    then show "p \<le> (2 ^ al + x) div 2 ^ nb" by (simp add: v_def [symmetric] less_eq_div_iff_mult_less_eq)
    have "v < 2 * p * 2 ^ nb"
    proof (cases "nb = m")
      case True
      then show ?thesis using v(2) b(2) by simp
    next
      case False
      then have n: "nb = m - 1" "v < p * 2 ^ m" using c by auto
      moreover have "(2 :: nat) ^ m = 2 * 2 ^ (m - 1)" using m(1) by (cases m) simp_all
      ultimately show ?thesis by simp
    qed
    then show "(2 ^ al + x) div 2 ^ nb < 2 * p" by (simp add: v_def [symmetric] div_less_iff_less_mult)
  qed
qed

lemma start_index_ok:
  assumes p: "0 < p" "p \<le> 2 ^ al" and al: "0 < al" "al \<le> 9" and tot: "tot < length flat"
  shows "start_index flat (transform_for al p tot) = Some (unat (flat ! tot))"
proof -
  define m q where "m = max_out al p" and "q = p * 2 ^ max_out al p"
  note b = max_out_bounds [OF p, folded m_def]
  have small: "(2 :: nat) ^ Suc al \<le> 2 ^ 10" using al by (intro power_increasing) simp_all
  have m: "0 < m" "m \<le> 9" "q \<le> 1024" using b al small by (simp_all add: q_def m_def)
  have d: "delta_nb_bits (transform_for al p tot) = of_nat (m * 65536 - q)" by (simp add: transform_for_def m_def q_def)
  have "push_bit 15 (1 :: u32) = of_nat 32768" by simp
  then have "delta_nb_bits (transform_for al p tot) + push_bit 15 1 = of_nat (m * 65536 - q + 32768)" by (simp only: d of_nat_add)
  moreover have "m * 65536 - q + 32768 < 2 ^ 32" "(m * 65536 - q + 32768) div 2 ^ 16 = m"
    using m by (simp, intro div_nat_eqI) simp_all
  ultimately have nb: "unat (drop_bit 16 (delta_nb_bits (transform_for al p tot) + push_bit 15 1)) = m" using unat_drop_of_nat by metis
  then have nbw: "drop_bit 16 (delta_nb_bits (transform_for al p tot) + push_bit 15 1) = of_nat m" unfolding nb [symmetric] by simp
  have "unat (push_bit 16 (of_nat m :: u32)) = m * 65536" using unat_shifted [of m 16] m(2) by simp
  moreover have "unat (of_nat (m * 65536 - q) :: u32) = m * 65536 - q" using m unfolding unat_of_nat by simp
  moreover have "m * 65536 - (m * 65536 - q) = q" using m by simp
  ultimately have "saturating_sub (push_bit 16 (of_nat m)) (delta_nb_bits (transform_for al p tot)) = of_nat q" unfolding unat_saturating_sub d by simp
  moreover have "unat (drop_bit m (of_nat q :: u32)) = p" using unat_drop_of_nat [of q m] m(3) by (simp add: q_def m_def)
  moreover have "unat (of_nat m :: u32) = m" using m(2) unfolding unat_of_nat by simp
  ultimately show ?thesis using tot unfolding start_index_def Let_def nbw by (simp add: transform_for_def)
qed

lemma slots_before_Cons: "slots_before (p # ps) (Suc i) = prob_slots p + slots_before ps i" "slots_before ps 0 = 0"
  by (simp_all add: slots_before_def)

lemma fill_symbols_spec:
  assumes "list_all (\<lambda>p. -1 \<le> p) ps" "tot + slots_before ps (length ps) \<le> 2 ^ al" "0 < al" "al \<le> 9" "length flat = 512"
    "symbol + length ps \<le> 256" "length states = 256" "length tts = 256"
  shows "\<exists>states' tts'. fill_symbols al flat ps symbol tot states tts = Some (states', tts') \<and> length states' = 256 \<and> length tts' = 256
     \<and> (\<forall>i. i < symbol \<or> symbol + length ps \<le> i \<longrightarrow> states' ! i = states ! i \<and> tts' ! i = tts ! i)
     \<and> (\<forall>i < length ps. sy_probability (states' ! (symbol + i)) = ps ! i
          \<and> (ps ! i = 0 \<longrightarrow> sy_start_state (states' ! (symbol + i)) = None)
          \<and> (ps ! i \<noteq> 0 \<longrightarrow> tts' ! (symbol + i) = transform_for al (prob_slots (ps ! i)) (tot + slots_before ps i)
               \<and> sy_start_state (states' ! (symbol + i)) = Some (unat (flat ! (tot + slots_before ps i)))))"
  using assms(1,2,6-)
proof (induction ps arbitrary: symbol tot states tts)
  case (Cons p ps)
  have sy: "symbol < 256" using Cons.prems(3) by simp
  have tt: "tot + prob_slots p + slots_before ps (length ps) \<le> 2 ^ al" using Cons.prems(2) by (simp add: slots_before_Cons add.assoc)
  have fin: ?case if step: "fill_symbols al flat (p # ps) symbol tot states tts = fill_symbols al flat ps (Suc symbol) (tot + prob_slots p) (states[symbol := st]) (tts[symbol := tr])"
      and st: "sy_probability st = p" "p = 0 \<longrightarrow> sy_start_state st = None" "p \<noteq> 0 \<longrightarrow> tr = transform_for al (prob_slots p) tot \<and> sy_start_state st = Some (unat (flat ! tot))" for st tr
  proof -
    let ?S = "states[symbol := st]" and ?T = "tts[symbol := tr]"
    from Cons.IH [of "tot + prob_slots p" "Suc symbol" ?S ?T] Cons.prems tt obtain S' T' where
        r: "fill_symbols al flat ps (Suc symbol) (tot + prob_slots p) ?S ?T = Some (S', T')" "length S' = 256" "length T' = 256"
        and o: "\<forall>i. i < Suc symbol \<or> Suc symbol + length ps \<le> i \<longrightarrow> S' ! i = ?S ! i \<and> T' ! i = ?T ! i"
        and e: "\<forall>i < length ps. sy_probability (S' ! (Suc symbol + i)) = ps ! i
          \<and> (ps ! i = 0 \<longrightarrow> sy_start_state (S' ! (Suc symbol + i)) = None)
          \<and> (ps ! i \<noteq> 0 \<longrightarrow> T' ! (Suc symbol + i) = transform_for al (prob_slots (ps ! i)) (tot + prob_slots p + slots_before ps i)
               \<and> sy_start_state (S' ! (Suc symbol + i)) = Some (unat (flat ! (tot + prob_slots p + slots_before ps i))))" by auto
    have new: "S' ! symbol = st" "T' ! symbol = tr" using o sy Cons.prems(4,5) by simp_all
    show ?thesis unfolding step
    proof (intro exI [of _ S'] exI [of _ T'] conjI r allI impI, goal_cases)
      case (3 i)
      then show ?case using new st(1) e by (cases i) (auto simp: slots_before_Cons)
    next
      case (4 i)
      then show ?case using new st(2) e by (cases i) (auto simp: slots_before_Cons)
    next
      case (5 i)
      then show ?case using new st(3) e by (cases i) (auto simp: slots_before_Cons add.assoc)
    next
      case (6 i)
      then show ?case using new st(3) e by (cases i) (auto simp: slots_before_Cons add.assoc)
    qed (use o in auto)
  qed
  show ?case
  proof (cases "p = 0")
    case True
    then have ps: "prob_slots p = 0" by (simp add: prob_slots_def)
    show ?thesis by (rule fin) (use True sy ps Cons.prems in auto)
  next
    case False
    have pp: "-1 \<le> p" "prob_slots p \<le> 2 ^ al" "0 < prob_slots p" "nat \<bar>p\<bar> = prob_slots p"
      using Cons.prems(1) tt False by (auto simp: prob_slots_def split: if_splits)
    have "(2 :: nat) ^ al \<le> 2 ^ 9" using assms(4) by (intro power_increasing) simp_all
    then have "tot < length flat" using tt pp(3) assms(5) by simp
    note si = start_index_ok [OF pp(3,2) assms(3,4) this]
    show ?thesis
      by (rule fin) (use False sy pp symbol_transform_ok [OF pp(1) False pp(2) assms(3,4), of tot] si Cons.prems(4,5) in \<open>auto simp: Let_def\<close>)
  qed
qed simp

section \<open>A built table\<close>

text \<open>Arrays of the fixed sizes, default past the live symbols.\<close>

definition enc_table_inv :: "enc_table \<Rightarrow> bool" where
  "enc_table_inv t \<longleftrightarrow> length (en_states t) = 256 \<and> length (en_symbol_tt t) = 256 \<and> length (en_state_table_flat t) = 512 \<and> en_live_symbols t \<le> 256
     \<and> (\<forall>i. en_live_symbols t \<le> i \<and> i < 256 \<longrightarrow> en_states t ! i = no_states \<and> en_symbol_tt t ! i = no_transform)"

definition enc_built :: "nat \<Rightarrow> int list \<Rightarrow> u8 list \<Rightarrow> enc_table \<Rightarrow> bool" where
  "enc_built k ps spread t \<longleftrightarrow> enc_table_inv t \<and> en_table_size t = 2 ^ k \<and> spread_of k ps spread \<and> 0 < k \<and> k \<le> 9
     \<and> (\<forall>i < 256. sy_probability (en_states t ! i) = (if i < length ps then ps ! i else 0))
     \<and> (\<forall>s. 0 < slots_of ps s \<longrightarrow> en_symbol_tt t ! unat s = transform_for k (slots_of ps s) (slots_before ps (unat s))
           \<and> sy_start_state (en_states t ! unat s) = Some (unat (en_state_table_flat t ! slots_before ps (unat s))))
     \<and> (\<forall>i < length spread. en_state_table_flat t ! slot_of ps spread i = of_nat i)"

lemma clear_tail_spec:
  assumes "length xs = 256" "n \<le> 256" "live \<le> 256" "\<forall>i. live \<le> i \<and> i < 256 \<longrightarrow> xs ! i = x"
  shows "length (clear_tail x n live xs) = 256" "\<forall>i. n \<le> i \<and> i < 256 \<longrightarrow> clear_tail x n live xs ! i = x"
  using assms by (auto simp: clear_tail_def nth_append)

lemma build_table_built:
  assumes fill: "probs_fill k ps" and k: "4 \<le> k" "k \<le> 9" and inv: "enc_table_inv out" and sp: "map_option fst (spread_symbols ps (2 ^ k)) = Some spread"
  shows "\<exists>t. build_table_from_probabilities_into ps k out = Some t \<and> enc_built k ps spread t"
proof -
  have k9: "(2 :: nat) ^ k \<le> 2 ^ 9" using k(2) by (intro power_increasing) simp_all
  then have k512: "(2 :: nat) ^ k \<le> 512" by simp
  have ps: "list_all (\<lambda>p. -1 \<le> p) ps" "slots_before ps (length ps) = 2 ^ k" "length ps \<le> 256" using fill by (simp_all add: probs_fill_def slots_before_def)
  obtain high ts cumul where c: "enc_place_low ps 0 (int (2 ^ k) - 1) (replicate (2 ^ k) 0) (replicate 257 0) = Some (high, ts, cumul)"
      "enc_spread ps 0 (2 ^ k) high 0 ts = Some (0, spread)" "length cumul = 257" "\<forall>i \<le> length ps. cumul ! i = of_nat (slots_before ps i)"
    using enc_spread_equals [OF fill _ k512 sp] k(1) by blast
  obtain spread' sn where "spread_symbols ps (2 ^ k) = Some (spread', sn)" "length spread' = 2 ^ k" "\<forall>s. count (mset spread') s = slots_of ps s"
    using spread_symbols_spec [OF fill _ k512] k(1) by blast
  then have spo: "spread_of k ps spread" using sp fill by (simp add: spread_of_def count_mset)
  obtain flat where f: "fill_state_table spread 0 cumul (en_state_table_flat out) = Some flat" "length flat = 512"
      "\<forall>i < length spread. flat ! slot_of ps spread i = of_nat i"
    using fill_state_table_spec [OF spo k512, of "en_state_table_flat out" cumul 0] inv c(3,4) by (auto simp: enc_table_inv_def)
  let ?S = "clear_tail no_states (length ps) (en_live_symbols out) (en_states out)" and ?T = "clear_tail no_transform (length ps) (en_live_symbols out) (en_symbol_tt out)"
  have cl: "length ?S = 256" "\<forall>i. length ps \<le> i \<and> i < 256 \<longrightarrow> ?S ! i = no_states" "length ?T = 256" "\<forall>i. length ps \<le> i \<and> i < 256 \<longrightarrow> ?T ! i = no_transform"
    using inv ps(3) clear_tail_spec [of "en_states out" "length ps" "en_live_symbols out" no_states]
      clear_tail_spec [of "en_symbol_tt out" "length ps" "en_live_symbols out" no_transform] by (simp_all add: enc_table_inv_def)
  obtain S T where st: "fill_symbols k flat ps 0 0 ?S ?T = Some (S, T)" "length S = 256" "length T = 256"
      "\<forall>i. length ps \<le> i \<longrightarrow> S ! i = ?S ! i \<and> T ! i = ?T ! i"
      "\<forall>i < length ps. sy_probability (S ! i) = ps ! i \<and> (ps ! i \<noteq> 0 \<longrightarrow> T ! i = transform_for k (prob_slots (ps ! i)) (slots_before ps i)
               \<and> sy_start_state (S ! i) = Some (unat (flat ! slots_before ps i)))"
    using fill_symbols_spec [OF ps(1), of 0 k flat 0 ?S ?T] ps(2,3) k f(2) cl(1,3) by auto
  have last: "unat (cumul ! length ps) = 2 ^ k" using c(4) ps(2) k512 unat_drop_of_nat [of "2 ^ k" 0] by simp
  let ?t = "\<lparr>en_states = S, en_table_size = 2 ^ k, en_state_table_flat = flat, en_symbol_tt = T, en_live_symbols = length ps\<rparr>"
  have "build_table_from_probabilities_into ps k out = Some ?t"
    using c(1,2) f(1) st(1) last k512 unfolding build_table_from_probabilities_into_def Let_def MAX_FSE_TABLE_SIZE_def by simp
  moreover have "enc_table_inv ?t" using st(2-4) cl f(2) ps(3) by (simp add: enc_table_inv_def)
  moreover have "slots_of ps s \<noteq> 0 \<Longrightarrow> unat s < length ps \<and> slots_of ps s = prob_slots (ps ! unat s) \<and> ps ! unat s \<noteq> 0" for s
    by (auto simp: slots_of_def prob_slots_def split: if_splits)
  ultimately show ?thesis using spo k f(3) st cl by (intro exI [of _ ?t]) (auto simp: enc_built_def no_states_def)
qed

section \<open>Transitions of a built table\<close>

text \<open>The counter that the decoding table keeps for a state.\<close>

definition state_counter :: "int list \<Rightarrow> u8 list \<Rightarrow> nat \<Rightarrow> nat" where
  "state_counter ps spread i = slots_of ps (spread ! i) + count_list (take i spread) (spread ! i)"

text \<open>A state of a symbol from which the decoder, reading the low bits of the former state, comes to that state.\<close>

definition leads_to :: "nat \<Rightarrow> int list \<Rightarrow> u8 list \<Rightarrow> nat \<Rightarrow> nat \<Rightarrow> bool" where
  "leads_to k ps spread i x \<longleftrightarrow> (let c = state_counter ps spread i in state_base k c + x mod 2 ^ state_bits k c = x)"

lemma ilog2_shifted:
  assumes "2 ^ k \<le> (y :: nat)" "y < 2 ^ Suc k" "j \<le> k"
  shows "ilog2 (y div 2 ^ j) = k - j"
proof (rule ilog2_eqI)
  have "2 ^ (k - j) = (2 :: nat) ^ k div 2 ^ j" using assms(3) by (simp add: power_diff)
  also have "\<dots> \<le> y div 2 ^ j" using assms(1) by (rule div_le_mono)
  finally show "2 ^ (k - j) \<le> y div 2 ^ j" .
  have "(2 :: nat) ^ Suc k = 2 ^ Suc (k - j) * 2 ^ j" using assms(3) by (simp only: Suc_diff_le [symmetric] flip: power_add) simp
  then have "y < 2 ^ Suc (k - j) * 2 ^ j" using assms(2) by simp
  then show "y div 2 ^ j < 2 ^ Suc (k - j)" by (simp only: less_mult_imp_div_less)
qed

lemma occurrence_entry:
  assumes b: "enc_built k ps spread t" and m: "m < slots_of ps s"
  shows "\<exists>i < 2 ^ k. spread ! i = s \<and> count_list (take i spread) s = m
     \<and> slots_before ps (unat s) + m < 2 ^ k \<and> unat (en_state_table_flat t ! (slots_before ps (unat s) + m)) = i"
proof -
  have sp: "spread_of k ps spread" "length spread = 2 ^ k" "count_list spread s = slots_of ps s" "k \<le> 9" using b by (auto simp: enc_built_def spread_of_def)
  obtain i where i: "i < length spread" "spread ! i = s" "count_list (take i spread) s = m" using nth_occurrence [of m spread s] m sp(3) by metis
  have so: "slot_of ps spread i = slots_before ps (unat s) + m" using i by (simp add: slot_of_def)
  have "(2 :: nat) ^ k \<le> 2 ^ 9" using sp(4) by (intro power_increasing) simp_all
  then have "i < 512" using i(1) sp(2) by simp
  then have "unat (of_nat i :: u16) = i" unfolding unat_of_nat by simp
  then show ?thesis using b i so sp(2) slot_of_less [OF sp(1) i(1)] by (auto simp: enc_built_def)
qed

lemma next_state_ok:
  assumes b: "enc_built k ps spread t" and s: "0 < slots_of ps s" and x: "x < 2 ^ k"
  shows "\<exists>i < 2 ^ k. spread ! i = s \<and> leads_to k ps spread i x
     \<and> next_state t s x = Some \<lparr>es_num_bits = of_nat (state_bits k (state_counter ps spread i)), es_index = i\<rparr>"
proof -
  define p where "p = slots_of ps s"
  have k: "0 < k" "k \<le> 9" and sz: "en_table_size t = 2 ^ k" "length (en_state_table_flat t) = 512"
    and tt: "en_symbol_tt t ! unat s = transform_for k p (slots_before ps (unat s))" and fill: "probs_fill k ps"
    using b s by (auto simp: enc_built_def enc_table_inv_def p_def spread_of_def)
  have p: "0 < p" "p \<le> 2 ^ k" using s slots_of_le [OF fill] by (simp_all add: p_def)
  have pow: "(2 :: nat) ^ k \<le> 2 ^ 9" using k(2) by (intro power_increasing) simp_all
  define nb where "nb = unat (drop_bit 16 ((of_nat (2 ^ k + x) :: u32) + delta_nb_bits (transform_for k p (slots_before ps (unat s)))))"
  define c where "c = (2 ^ k + x) div 2 ^ nb"
  have nb: "nb \<le> k" "p \<le> c" "c < 2 * p" using transition_arith [OF p k x, of "slots_before ps (unat s)"] by (simp_all add: nb_def c_def)
  have "c - p < slots_of ps s" using nb(2,3) by (simp add: p_def [symmetric])
  then obtain i where i: "i < 2 ^ k" "spread ! i = s" "count_list (take i spread) s = c - p"
      "slots_before ps (unat s) + (c - p) < 2 ^ k" "unat (en_state_table_flat t ! (slots_before ps (unat s) + (c - p))) = i"
    using occurrence_entry [OF b] by blast
  have ctr: "state_counter ps spread i = c" using i nb(2) by (simp add: state_counter_def p_def)
  have bits: "state_bits k c = nb" using ilog2_shifted [of k "2 ^ k + x" nb] x nb(1) by (simp add: state_bits_def c_def)
  have "c * 2 ^ nb + (2 ^ k + x) mod 2 ^ nb = 2 ^ k + x" unfolding c_def by (rule div_mult_mod_eq)
  moreover have "(2 ^ k + x) mod 2 ^ nb = x mod 2 ^ nb" using nb(1) by (metis le_imp_power_dvd mod_add_left_eq dvd_imp_mod_0 add_0)
  moreover have "x mod 2 ^ nb \<le> x" by simp
  ultimately have lead: "leads_to k ps spread i x" unfolding leads_to_def Let_def ctr state_base_def bits by linarith
  have "2 ^ k + x < 2 ^ 32" using x pow by simp
  then have "unat (drop_bit nb (of_nat (2 ^ k + x) :: u32)) = c" unfolding c_def by (rule unat_drop_of_nat)
  then have slot: "int (unat (drop_bit nb (of_nat (2 ^ k + x) :: u32))) + delta_find_state (transform_for k p (slots_before ps (unat s)))
      = int (slots_before ps (unat s) + (c - p))" using nb(2) by (simp add: transform_for_def of_nat_diff)
  have "next_state t s x = Some \<lparr>es_num_bits = of_nat nb, es_index = i\<rparr>"
    unfolding next_state_def Let_def tt sz(1) nb_def [symmetric] slot nat_int using i(4,5) sz(2) pow by (simp del: of_nat_add of_nat_power add: of_nat_less_iff)
  then show ?thesis using i(1,2) lead ctr bits by (intro exI [of _ i]) simp
qed

lemma start_state_ok:
  assumes b: "enc_built k ps spread t" and s: "0 < slots_of ps s"
  shows "\<exists>i < 2 ^ k. spread ! i = s \<and> state_counter ps spread i = slots_of ps s \<and> start_state t s = Some \<lparr>es_num_bits = 0, es_index = i\<rparr>"
  using occurrence_entry [OF b s] b s by (auto simp: start_state_def enc_built_def state_counter_def)

lemma state_counter_range:
  assumes "spread_of k ps spread" "i < 2 ^ k"
  shows "0 < state_counter ps spread i" "state_counter ps spread i < 2 ^ Suc k"
  using spread_symbol(2) [OF assms(1), of i] assms slots_of_le [of k ps "spread ! i"] by (auto simp: spread_of_def state_counter_def)

text \<open>A transition writes the bits that lead back.\<close>

lemma encode_symbol_ok:
  assumes b: "enc_built k ps spread t" and s: "0 < slots_of ps s" and x: "x < 2 ^ k" and w: "bw_inv w"
  shows "\<exists>i w'. encode_symbol_with_state t w x s = Some (w', i) \<and> i < 2 ^ k \<and> spread ! i = s \<and> leads_to k ps spread i x \<and> bw_inv w'
     \<and> bw_bits w' = bw_bits w @ word_bits (state_bits k (state_counter ps spread i)) (of_nat (x mod 2 ^ state_bits k (state_counter ps spread i)) :: u64)"
proof -
  obtain i where i: "i < 2 ^ k" "spread ! i = s" "leads_to k ps spread i x"
      "next_state t s x = Some \<lparr>es_num_bits = of_nat (state_bits k (state_counter ps spread i)), es_index = i\<rparr>" using next_state_ok [OF b s x] by blast
  define nb where "nb = state_bits k (state_counter ps spread i)"
  have k: "k \<le> 9" using b by (simp add: enc_built_def)
  have nb: "nb \<le> 9" using state_bits_le [of k "state_counter ps spread i"] k by (simp add: nb_def)
  then have u: "unat (of_nat nb :: u8) = nb" unfolding unat_of_nat by simp
  have p9: "(2 :: nat) ^ nb \<le> 2 ^ 9" using nb by (intro power_increasing) simp_all
  have lt: "x mod 2 ^ nb < 2 ^ nb" by simp
  have "x mod 2 ^ nb < 512" by (rule less_le_trans [OF lt]) (use p9 in simp)
  then have "unat (of_nat (x mod 2 ^ nb) :: u64) = x mod 2 ^ nb" unfolding unat_of_nat by simp
  then have "clean_above nb (of_nat (x mod 2 ^ nb) :: u64)" using lt by (simp add: clean_above_iff_less)
  then obtain w' where "write_bits_64 w (of_nat (x mod 2 ^ nb)) nb = Some w'" "bw_inv w'" "bw_bits w' = bw_bits w @ word_bits nb (of_nat (x mod 2 ^ nb) :: u64)"
    using write_bits_64_bits [OF w, of nb "of_nat (x mod 2 ^ nb)"] nb by auto
  then show ?thesis using i u and_mask_mod [of x nb] unfolding nb_def [symmetric]
    by (intro exI [of _ i] exI [of _ w']) (simp add: encode_symbol_with_state_def enc_transition_bits_def nb_def [symmetric])
qed

end
