(* ===== verification/Fse_NCount.thy ===== *)
theory Fse_NCount
  imports Fse_Encoder
begin

text \<open>
  The description of an FSE table (\<open>write_ncount\<close> and \<open>ncount_header_bits\<close> of \<^verbatim>\<open>zstd/src/fse/fse_encoder.rs\<close>): what
  is written, what its size is computed to be, and that \<open>read_probabilities\<close> of the decoder reads it back. The
  probabilities are a list; reading past its end is the panic that ends both loops on a distribution that does
  not fill the table.
\<close>

section \<open>Writing\<close>

text \<open>The further zeros behind a zero probability, three at a time, and what is left of the list.\<close>

fun zero_fields :: "int list \<Rightarrow> nat \<Rightarrow> (u64 \<times> nat) list \<times> int list" where
  "zero_fields [] zeros = ([(of_nat zeros, 2)], [])"
| "zero_fields (p # ps) zeros =
     (if p = 0 then
        if zeros + 1 = 3 then let (fs, rest) = zero_fields ps 0 in ((3, 2) # fs, rest)
        else zero_fields ps (zeros + 1)
      else ([(of_nat zeros, 2)], p # ps))"

lemma zero_fields_length: "length (snd (zero_fields ps zeros)) \<le> length ps"
  by (induction ps zeros rule: zero_fields.induct) (auto simp: Let_def split_def)

text \<open>The field of one probability: a value that cannot be confused takes a bit less.\<close>

definition prob_field :: "nat \<Rightarrow> int \<Rightarrow> u64 \<times> nat" where
  "prob_field max_remaining_value p =
     (let bits_to_write = ilog2 max_remaining_value + 1;
          low_threshold = of_nat ((2 ^ bits_to_write - 1) - max_remaining_value) :: u32;
          msk = of_nat (2 ^ (bits_to_write - 1) - 1) :: u32;
          v = of_int (p + 1) :: u32
      in if v < low_threshold then (ucast v, bits_to_write - 1)
         else if v > msk then (ucast (v + low_threshold), bits_to_write)
         else (ucast v, bits_to_write))"

function ncount_fields :: "nat \<Rightarrow> nat \<Rightarrow> int list \<Rightarrow> (u64 \<times> nat) list option" where
  "ncount_fields probability_sum probability_counter ps =
     (if probability_counter < probability_sum then
        (case ps of
           [] \<Rightarrow> None
         | p # ps \<Rightarrow>
             let f = prob_field (probability_sum - probability_counter + 1) p in
             if p = -1 then map_option ((#) f) (ncount_fields probability_sum (probability_counter + 1) ps)
             else if p > 0 then map_option ((#) f) (ncount_fields probability_sum (probability_counter + nat p) ps)
             else
               let (zeros, rest) = zero_fields ps 0 in
               map_option (\<lambda>fs. f # zeros @ fs) (ncount_fields probability_sum probability_counter rest))
      else Some [])"
  by pat_completeness auto
termination
proof (relation "measure (\<lambda>(sum, counter, ps). length ps)", goal_cases)
  case (4 sum counter ps p ps' f x zeros rest)
  then have "rest = snd (zero_fields ps' 0)" by (metis snd_conv)
  then show ?case using zero_fields_length [of ps' 0] 4(2) by (simp add: le_imp_less_Suc)
qed auto

declare ncount_fields.simps [simp del]

definition write_ncount :: "int list \<Rightarrow> nat \<Rightarrow> bit_writer \<Rightarrow> bit_writer option" where
  "write_ncount probs acc_log w =
     (if \<not> 8 dvd bw_index w \<or> acc_log < 5 then None
      else
        Option.bind (write_bits_64 w (of_nat (acc_log - 5)) 4) (\<lambda>w.
        Option.bind (ncount_fields (2 ^ acc_log) 0 probs) (\<lambda>fs.
        Option.bind (write_fields w fs) (\<lambda>w. write_bits_64 w 0 (misaligned w)))))"

definition en_write_table :: "enc_table \<Rightarrow> bit_writer \<Rightarrow> bit_writer option" where
  "en_write_table t w = write_ncount (map sy_probability (en_states t)) (en_acc_log t) w"

section \<open>Counting\<close>

fun zero_bits :: "int list \<Rightarrow> nat \<Rightarrow> nat \<Rightarrow> nat \<times> int list" where
  "zero_bits [] zeros bits = (bits + 2, [])"
| "zero_bits (p # ps) zeros bits =
     (if p = 0 then if zeros + 1 = 3 then zero_bits ps 0 (bits + 2) else zero_bits ps (zeros + 1) bits
      else (bits + 2, p # ps))"

lemma zero_bits_length: "length (snd (zero_bits ps zeros bits)) \<le> length ps"
  by (induction ps zeros bits rule: zero_bits.induct) auto

function ncount_bits :: "nat \<Rightarrow> nat \<Rightarrow> int list \<Rightarrow> nat \<Rightarrow> nat option" where
  "ncount_bits probability_sum probability_counter ps bits =
     (if probability_counter < probability_sum then
        (case ps of
           [] \<Rightarrow> None
         | p # ps \<Rightarrow>
             let max_remaining_value = probability_sum - probability_counter + 1;
                 bits_to_write = ilog2 max_remaining_value + 1;
                 low_threshold = of_nat ((2 ^ bits_to_write - 1) - max_remaining_value) :: u32;
                 v = of_int (p + 1) :: u32;
                 bits = (if v < low_threshold then bits + (bits_to_write - 1) else bits + bits_to_write) in
             if p = -1 then ncount_bits probability_sum (probability_counter + 1) ps bits
             else if p > 0 then ncount_bits probability_sum (probability_counter + nat p) ps bits
             else
               let (bits, rest) = zero_bits ps 0 bits in
               ncount_bits probability_sum probability_counter rest bits)
      else Some bits)"
  by pat_completeness auto
termination
proof (relation "measure (\<lambda>(sum, counter, ps, bits). length ps)", goal_cases)
  case (4 sum counter ps bits p ps' m b l v bits' x bits'' rest)
  then have "rest = snd (zero_bits ps' 0 bits')" by (metis snd_conv)
  then show ?case using zero_bits_length [of ps' 0 bits'] 4(2) by (simp add: le_imp_less_Suc)
qed auto

declare ncount_bits.simps [simp del]

definition ncount_header_bits :: "int list \<Rightarrow> nat \<Rightarrow> nat option" where
  "ncount_header_bits probs acc_log =
     map_option (\<lambda>bits. if bits mod 8 \<noteq> 0 then bits + (8 - bits mod 8) else bits) (ncount_bits (2 ^ acc_log) 0 probs 4)"

definition table_header_bits :: "enc_table \<Rightarrow> nat option" where
  "table_header_bits t = ncount_header_bits (map sy_probability (en_states t)) (en_acc_log t)"

lemma zero_bits_counts: "zero_bits ps zeros bits = (bits + sum_list (map snd (fst (zero_fields ps zeros))), snd (zero_fields ps zeros))"
  by (induction ps zeros bits rule: zero_bits.induct) (auto simp: Let_def split_def)

lemma ncount_bits_counts: "ncount_bits S c ps bits = map_option (\<lambda>fs. bits + sum_list (map snd fs)) (ncount_fields S c ps)"
proof (induction S c ps bits rule: ncount_bits.induct)
  case (1 S c ps bits)
  show ?case
  proof (cases "c < S \<and> ps \<noteq> []")
    case True
    then obtain p ps' where ps: "ps = p # ps'" by (cases ps) auto
    have c: "c < S" using True by simp
    define M where "M = S - c + 1"
    define f where "f = prob_field M p"
    define bits' where "bits' = (if (of_int (p + 1) :: u32) < of_nat ((2 ^ (ilog2 M + 1) - 1) - M) then bits + (ilog2 M + 1 - 1) else bits + (ilog2 M + 1))"
    have f: "bits' = bits + snd f" by (simp add: f_def bits'_def prob_field_def Let_def)
    note IH = "1.IH" [OF c ps M_def refl refl refl bits'_def]
    note unf = ncount_bits.simps [of S c "p # ps'" bits] ncount_fields.simps [of S c "p # ps'"]
    consider "p = -1" | "p \<noteq> -1" "p > 0" | "p \<noteq> -1" "\<not> p > 0" by linarith
    then show ?thesis
    proof cases
      case 1
      show ?thesis using IH(1) [OF 1] c 1 unfolding ps unf list.case Let_def M_def [symmetric] f_def [symmetric] bits'_def [symmetric]
        by (simp add: f option.map_comp comp_def add.assoc)
    next
      case 2
      show ?thesis using IH(2) [OF 2] c 2 unfolding ps unf list.case Let_def M_def [symmetric] f_def [symmetric] bits'_def [symmetric]
        by (simp add: f option.map_comp comp_def add.assoc)
    next
      case 3
      obtain fs rest where z: "zero_fields ps' 0 = (fs, rest)" by fastforce
      then have zb: "zero_bits ps' 0 bits' = (bits' + sum_list (map snd fs), rest)" using zero_bits_counts [of ps' 0 bits'] by simp
      show ?thesis using IH(3) [OF 3 zb [symmetric] refl] c 3 unfolding ps unf list.case Let_def M_def [symmetric] f_def [symmetric] bits'_def [symmetric] z zb
        by (simp add: f option.map_comp comp_def add.assoc)
    qed
  next
    case False
    then show ?thesis by (cases ps) (auto simp: ncount_bits.simps [of S c] ncount_fields.simps [of S c])
  qed
qed

section \<open>Reading fields forwards\<close>

lemma bit_field_at:
  assumes "n \<le> 57"
  shows "bit (field_at source p n) i \<longleftrightarrow> i < n \<and> sbit source (p + i)"
proof -
  let ?w = "(if 8 \<le> length (drop (p div 8) source) then from_le_bytes (take 8 (drop (p div 8) source))
       else from_le_bytes (zero_extend 8 (drop (p div 8) source))) :: u64"
  have w: "bit ?w j \<longleftrightarrow> sbit source (8 * (p div 8) + j)" if "j < 64" for j
    using that by (auto simp: from_le_zero_extend bit_from_le_bytes sbit_take sbit_drop)
  have f: "field_at source p n = take_bit n (drop_bit (p mod 8) ?w)"
    by (simp only: field_at_def Let_def push_1_minus_1 flip: take_bit_eq_mask)
  have at: "p mod 8 + i < 64" "8 * (p div 8) + (p mod 8 + i) = p + i" if "i < n" using that assms by (simp, simp flip: add.assoc)
  show ?thesis unfolding f bit_take_bit_iff bit_drop_bit_eq comp_def using w at by (auto simp: add.commute [of "p mod 8"])
qed

lemma read_bits_bits:
  assumes "n \<le> 57" "p + n \<le> 8 * length source"
  shows "\<exists>u :: u64. read_bits source p n = Ok (unat u, p + n) \<and> (\<forall>i. bit u i \<longleftrightarrow> i < n \<and> sbit source (p + i))"
  using assms by (intro exI [of _ "field_at source p n"]) (auto simp: read_bits_def Let_def bit_field_at)

lemma sbit_at:
  assumes "bits_of source = pre @ xs @ post" "i < length xs"
  shows "sbit source (length pre + i) = xs ! i"
proof -
  have "length pre + i < 8 * length source" using arg_cong [OF assms(1), of length] assms(2) by simp
  then have "sbit source (length pre + i) = bits_of source ! (length pre + i)" by simp
  then show ?thesis using assms(2) by (simp add: assms(1) nth_append)
qed

lemma read_bits_at:
  assumes b: "bits_of source = pre @ word_bits n v @ post" and v: "unat v < 2 ^ n" and n: "n \<le> 57"
  shows "read_bits source (length pre) n = Ok (unat (v :: u64), length pre + n)"
proof -
  have "length pre + n \<le> 8 * length source" using arg_cong [OF b, of length] by simp
  from read_bits_bits [OF n this] obtain u :: u64 where u: "read_bits source (length pre) n = Ok (unat u, length pre + n)"
      "\<forall>i. bit u i \<longleftrightarrow> i < n \<and> sbit source (length pre + i)" by blast
  have "clean_above n v" using v by (simp add: clean_above_iff_less)
  then have cl: "i < n" if "bit v i" for i using that by (meson clean_above_def not_le)
  have "u = v" using u(2) sbit_at [OF b] by (intro bit_eqI) (auto dest: cl)
  then show ?thesis using u(1) by simp
qed

text \<open>A field of one bit less is the low part of what the decoder reads.\<close>

lemma read_bits_short:
  assumes b: "bits_of source = pre @ word_bits n v @ post" "post \<noteq> []" and v: "unat v < 2 ^ n" and n: "n < 57"
  shows "\<exists>u. read_bits source (length pre) (Suc n) = Ok (u, length pre + Suc n) \<and> u mod 2 ^ n = unat (v :: u64)"
proof -
  have "length pre + Suc n \<le> 8 * length source" using arg_cong [OF b(1), of length] b(2) by (cases post) auto
  from read_bits_bits [OF _ this] n obtain u :: u64 where u: "read_bits source (length pre) (Suc n) = Ok (unat u, length pre + Suc n)"
      "\<forall>i. bit u i \<longleftrightarrow> i < Suc n \<and> sbit source (length pre + i)" by auto
  have "clean_above n v" using v by (simp add: clean_above_iff_less)
  then have cl: "i < n" if "bit v i" for i using that by (meson clean_above_def not_le)
  have "take_bit n u = v" using u(2) sbit_at [OF b(1)] by (intro bit_eqI) (auto simp: bit_take_bit_iff dest: cl)
  then have "unat u mod 2 ^ n = unat v" using unsigned_take_bit_eq [of n u, where ?'a = nat] by (simp add: take_bit_eq_mod)
  then show ?thesis using u(1) by blast
qed

section \<open>One probability\<close>

lemma prob_field_value:
  assumes M: "0 < M" "M \<le> 65537" and v: "int v = p + 1" "v \<le> M"
  shows "prob_field M p = (let bits = ilog2 M + 1; thr = (2 ^ bits - 1) - M in
     if v < thr then (of_nat v, bits - 1) else if v > 2 ^ (bits - 1) - 1 then (of_nat (v + thr), bits) else (of_nat v, bits))"
    "ilog2 M \<le> 16"
proof -
  have q: "2 ^ ilog2 M \<le> M" "M < 2 ^ Suc (ilog2 M)" using ilog2_bounds [OF M(1)] by simp_all
  have "ilog2 M < 17" using q(1) M(2) power_increasing [of 17 "ilog2 M" "2 :: nat"] by (cases "ilog2 M < 17") auto
  then show l: "ilog2 M \<le> 16" by simp
  have u: "unat (of_nat n :: u32) = n" "ucast (of_nat n :: u32) = (of_nat n :: u64)" if "n < 2 ^ 32" for n
    using that by (simp_all add: unat_of_nat unsigned_of_nat take_bit_nat_eq_self)
  define bits thr where "bits = ilog2 M + 1" and "thr = (2 ^ bits - 1) - M"
  have "(2 :: nat) ^ bits \<le> 2 ^ 17" using l by (intro power_increasing) (simp_all add: bits_def)
  then have p17: "(2 :: nat) ^ bits \<le> 131072" by simp
  have "(2 :: nat) ^ (bits - 1) \<le> 2 ^ bits" by (intro power_increasing) simp_all
  then have pb: "(2 :: nat) ^ (bits - 1) \<le> 131072" using p17 by (rule le_trans)
  have s: "thr < 2 ^ 32" "2 ^ (bits - 1) - (1 :: nat) < 2 ^ 32" "v < 2 ^ 32" "v + thr < 2 ^ 32"
    using p17 pb v(2) M(2) by (simp_all add: thr_def less_imp_diff_less)
  have "(of_int (p + 1) :: u32) = of_nat v" unfolding v(1) [symmetric] by simp
  moreover have "(of_nat v :: u32) + of_nat thr = of_nat (v + thr)" by simp
  ultimately show "prob_field M p = (let bits = ilog2 M + 1; thr = (2 ^ bits - 1) - M in
     if v < thr then (of_nat v, bits - 1) else if v > 2 ^ (bits - 1) - 1 then (of_nat (v + thr), bits) else (of_nat v, bits))"
    unfolding prob_field_def Let_def bits_def [symmetric] thr_def [symmetric]
    by (simp only: word_less_nat_alt u [OF s(1)] u [OF s(2)] u [OF s(3)] u [OF s(4)])
qed

lemma read_prob:
  assumes M: "0 < M" "M \<le> 65537" and v: "int v = p + 1" "v \<le> M"
    and b: "bits_of source = pre @ field_bits [prob_field M p] @ post" "post \<noteq> []"
  shows "\<exists>u b. read_bits source (length pre) (Suc (ilog2 M)) = Ok (u, length pre + Suc (ilog2 M))
     \<and> short_value (Suc (ilog2 M)) M u = (v, b)
     \<and> (if b then length pre + Suc (ilog2 M) - 1 else length pre + Suc (ilog2 M)) = length pre + snd (prob_field M p)"
proof -
  define bits q thr where "bits = ilog2 M + 1" and "q = (2 :: nat) ^ ilog2 M" and "thr = (2 ^ bits - 1) - M"
  have q: "q \<le> M" "M < 2 * q" "0 < q" and p2: "2 ^ bits = 2 * q" using ilog2_bounds [OF M(1)] by (simp_all add: q_def bits_def)
  note pf = prob_field_value [OF assms(1-4)]
  have u64: "unat (of_nat n :: u64) = n" if "n < 2 ^ 64" for n using that by (simp add: unat_of_nat)
  have small: "2 * q \<le> 131072" using pf(2) power_increasing [of "ilog2 M" 16 "2 :: nat"] by (simp add: q_def)
  have pe: "prob_field M p = (if v < thr then (of_nat v, ilog2 M) else if v > q - 1 then (of_nat (v + thr), bits) else (of_nat v, bits))"
    unfolding pf(1) Let_def thr_def bits_def q_def by simp
  have thr: "thr < q" "M + thr = 2 * q - 1" using q by (simp_all add: thr_def p2)
  have sv: "short_value bits M u = (if u mod q < thr then (u mod q, True) else if u > q - 1 then (u - thr, False) else (u, False))" for u
    unfolding short_value_def Let_def thr_def [symmetric] by (simp add: bits_def q_def and_mask_mod del: One_nat_def)
  consider "v < thr" | "\<not> v < thr" "v > q - 1" | "\<not> v < thr" "v \<le> q - 1" by linarith
  then show ?thesis
  proof cases
    case 1
    then have f: "prob_field M p = (of_nat v, ilog2 M)" by (simp add: pe)
    have uv: "unat (of_nat v :: u64) = v" using 1 thr small by (intro u64) simp
    have "bits_of source = pre @ word_bits (ilog2 M) (of_nat v :: u64) @ post" using b(1) by (simp add: f)
    from read_bits_short [OF this b(2)] obtain u where u: "read_bits source (length pre) (Suc (ilog2 M)) = Ok (u, length pre + Suc (ilog2 M))" "u mod q = v"
      using uv 1 thr pf(2) by (auto simp: q_def)
    have "short_value (Suc (ilog2 M)) M u = (v, True)" using sv [of u] u(2) 1 by (simp add: bits_def)
    then show ?thesis using u(1) f by auto
  next
    case 2
    then have f: "prob_field M p = (of_nat (v + thr), bits)" by (simp add: pe)
    have lt: "v + thr < 2 * q" using v(2) thr(2) q by linarith
    have uv: "unat (of_nat (v + thr) :: u64) = v + thr" using lt small by (intro u64) simp
    have "bits_of source = pre @ word_bits bits (of_nat (v + thr) :: u64) @ post" using b(1) by (simp only: f field_bits.simps append_Nil2)
    from read_bits_at [OF this] have u: "read_bits source (length pre) (Suc (ilog2 M)) = Ok (v + thr, length pre + Suc (ilog2 M))"
      using uv lt p2 pf(2) by (simp add: bits_def)
    have "(v + thr) mod q = v + thr - q" using lt 2 q by (simp add: mod_if [of "v + thr"] le_mod_geq)
    then have "short_value (Suc (ilog2 M)) M (v + thr) = (v, False)" using sv [of "v + thr"] 2 q by (simp add: bits_def)
    then show ?thesis using u f by (auto simp: bits_def)
  next
    case 3
    then have f: "prob_field M p = (of_nat v, bits)" by (simp add: pe)
    have lt: "v < q" using 3 q by linarith
    have uv: "unat (of_nat v :: u64) = v" using lt small by (intro u64) simp
    have "bits_of source = pre @ word_bits bits (of_nat v :: u64) @ post" using b(1) by (simp add: f)
    from read_bits_at [OF this] have u: "read_bits source (length pre) (Suc (ilog2 M)) = Ok (v, length pre + Suc (ilog2 M))"
      using uv lt p2 pf(2) by (simp add: bits_def)
    have "short_value (Suc (ilog2 M)) M v = (v, False)" using sv [of v] lt 3 by (simp add: bits_def)
    then show ?thesis using u f by (auto simp: bits_def)
  qed
qed

section \<open>The whole description\<close>

text \<open>The probabilities that are written: none behind the last one that is not zero.\<close>

fun strip_zeros :: "int list \<Rightarrow> int list" where
  "strip_zeros [] = []"
| "strip_zeros (p # ps) = (if p = 0 \<and> strip_zeros ps = [] then [] else p # strip_zeros ps)"

lemma strip_zeros_append: "strip_zeros (replicate j 0 @ ps) = (if strip_zeros ps = [] then [] else replicate j 0 @ strip_zeros ps)"
  by (induction j) simp_all

lemma strip_zeros_sum: "sum_list (map prob_slots (strip_zeros ps)) = sum_list (map prob_slots ps)"
proof (induction ps)
  case (Cons p ps)
  have "sum_list (map prob_slots ps) = 0" if "strip_zeros ps = []" using that Cons by simp
  then show ?case using Cons by (auto simp: prob_slots_def)
qed simp

lemma strip_zeros_nonempty: "sum_list (map prob_slots ps) \<noteq> 0 \<Longrightarrow> strip_zeros ps \<noteq> []"
  using strip_zeros_sum [of ps] by (cases "strip_zeros ps") simp_all

lemma strip_zeros_empty: "\<lbrakk>list_all (\<lambda>p. -1 \<le> p) ps; sum_list (map prob_slots ps) = 0\<rbrakk> \<Longrightarrow> strip_zeros ps = []"
  by (induction ps) (auto simp: prob_slots_def split: if_splits)

lemma prob_slots_simps: "prob_slots (-1) = 1" "prob_slots 0 = 0" "0 < p \<Longrightarrow> prob_slots p = nat p"
  by (simp_all add: prob_slots_def)

lemma strip_zeros_decomp: "\<exists>z. ps = strip_zeros ps @ replicate z 0"
proof (induction ps)
  case (Cons p ps)
  then obtain z where z: "ps = strip_zeros ps @ replicate z 0" by blast
  show ?case
  proof (cases "p = 0 \<and> strip_zeros ps = []")
    case True
    then show ?thesis using z by (intro exI [of _ "Suc z"]) simp
  qed (use z in auto)
qed simp

lemma zero_fields_run:
  assumes "zero_fields ps z = (fs, rest)" "z < 3" "bits_of source = pre @ field_bits fs @ post"
  shows "\<exists>j. ps = replicate j 0 @ rest
     \<and> (\<forall>acc. length acc + z + j \<le> m \<longrightarrow> skip_zeros source m (length pre) acc = (acc @ replicate (z + j) 0, Ok (length pre + sum_list (map snd fs))))"
  using assms
proof (induction ps z arbitrary: fs rest pre rule: zero_fields.induct)
  case (1 z)
  then have fs: "fs = [(of_nat z, 2)]" "rest = []" by simp_all
  have z: "unat (of_nat z :: u64) = z" using 1(2) by (simp add: unat_of_nat)
  have "read_bits source (length pre) 2 = Ok (z, length pre + 2)" using read_bits_at [of source pre 2 "of_nat z" post] 1(2,3) z by (simp add: fs)
  then show ?case using 1(2) z by (intro exI [of _ 0]) (simp add: fs skip_zeros.simps)
next
  case (2 p ps z)
  consider "p \<noteq> 0" | "p = 0" "z + 1 = 3" | "p = 0" "z + 1 \<noteq> 3" by blast
  then show ?case
  proof cases
    case 1
    then have fs: "fs = [(of_nat z, 2)]" "rest = p # ps" using 2(3) by simp_all
    have z: "unat (of_nat z :: u64) = z" using 2(4) by (simp add: unat_of_nat)
    have "read_bits source (length pre) 2 = Ok (z, length pre + 2)" using read_bits_at [of source pre 2 "of_nat z" post] 2(4,5) z by (simp add: fs)
    then show ?thesis using 2(4) z by (intro exI [of _ 0]) (simp add: fs skip_zeros.simps)
  next
    case b: 2
    obtain fs' where fs: "zero_fields ps 0 = (fs', rest)" "fs = (3, 2) # fs'" using 2(3) b by (cases "zero_fields ps 0") simp
    have r: "read_bits source (length pre) 2 = Ok (3, length pre + 2)" using read_bits_at [of source pre 2 3 "field_bits fs' @ post"] 2(5) by (simp add: fs)
    from 2(1) [OF b fs(1), of "pre @ word_bits 2 3"] 2(5) obtain j where j: "ps = replicate j 0 @ rest"
        "\<forall>acc. length acc + j \<le> m \<longrightarrow> skip_zeros source m (length pre + 2) acc = (acc @ replicate j 0, Ok (length pre + 2 + sum_list (map snd fs')))"
      by (auto simp: fs)
    have "skip_zeros source m (length pre) acc = (acc @ replicate (z + Suc j) 0, Ok (length pre + sum_list (map snd fs)))" if "length acc + z + Suc j \<le> m" for acc
    proof -
      have e: "z + Suc j = 3 + j" using b by simp
      have "skip_zeros source m (length pre) acc = skip_zeros source m (length pre + 2) (acc @ replicate 3 0)"
        using r that b by (subst skip_zeros.simps) simp
      then show ?thesis using j(2) that b unfolding e replicate_add by (simp add: fs)
    qed
    then show ?thesis using j(1) b by (intro exI [of _ "Suc j"]) (simp add: fs)
  next
    case c: 3
    then have "zero_fields ps (z + 1) = (fs, rest)" "z + 1 < 3" using 2(3,4) by simp_all
    from 2(2) [OF c this 2(5)] obtain j where "ps = replicate j 0 @ rest"
        "\<forall>acc. length acc + (z + 1) + j \<le> m \<longrightarrow> skip_zeros source m (length pre) acc = (acc @ replicate (z + 1 + j) 0, Ok (length pre + sum_list (map snd fs)))" by blast
    then show ?thesis using c by (intro exI [of _ "Suc j"]) simp
  qed
qed

text \<open>On a distribution that fills the table every field fits.\<close>

lemma prob_field_ok:
  assumes "0 < M" "M \<le> 65537" "int v = p + 1" "v \<le> M"
  shows "fields_ok [prob_field M p]"
proof -
  define q where "q = (2 :: nat) ^ ilog2 M"
  note pf = prob_field_value [OF assms]
  have q: "q \<le> M" "M < 2 * q" using ilog2_bounds [OF assms(1)] by (simp_all add: q_def)
  have small: "2 * q \<le> 131072" using pf(2) power_increasing [of "ilog2 M" 16 "2 :: nat"] by (simp add: q_def)
  have u: "unat (of_nat n :: u64) = n" if "n < 2 * q" for n using that small by (simp add: unat_of_nat)
  have e: "fst (prob_field M p) = of_nat (if v < 2 * q - 1 - M then v else if v > q - 1 then v + (2 * q - 1 - M) else v)"
    "snd (prob_field M p) = (if v < 2 * q - 1 - M then ilog2 M else ilog2 M + 1)"
    unfolding pf(1) Let_def by (simp_all add: q_def)
  have "unat (fst (prob_field M p)) < 2 ^ snd (prob_field M p)" unfolding e using q assms(4) by (subst u) (auto simp: q_def [symmetric])
  moreover have "snd (prob_field M p) \<le> 64" unfolding e using pf(2) by simp
  ultimately show ?thesis by (auto simp: fields_ok_def split: prod.splits)
qed

lemma zero_fields_ok: "z < 3 \<Longrightarrow> fields_ok (fst (zero_fields ps z))"
  by (induction ps z rule: zero_fields.induct) (auto simp: fields_ok_def unat_of_nat Let_def split_def)

lemma zero_fields_rest: "\<exists>j. ps = replicate j 0 @ snd (zero_fields ps z)"
proof (induction ps z rule: zero_fields.induct)
  case (2 p ps z)
  show ?case
  proof (cases "p = 0")
    case True
    then obtain j where "ps = replicate j 0 @ snd (zero_fields (p # ps) z)" using 2 by (cases "z + 1 = 3") (auto simp: Let_def split_def)
    then show ?thesis using True by (intro exI [of _ "Suc j"]) simp
  qed (intro exI [of _ 0], simp)
qed simp

lemma ncount_fields_ok:
  assumes "list_all (\<lambda>p. -1 \<le> p) ps" "c + sum_list (map prob_slots ps) = S" "S \<le> 65536"
  shows "\<exists>fs. ncount_fields S c ps = Some fs \<and> fields_ok fs"
  using assms
proof (induction S c ps rule: ncount_fields.induct)
  case (1 S c ps)
  show ?case
  proof (cases "c < S")
    case True
    then obtain p ps' where ps: "ps = p # ps'" using "1.prems"(2) by (cases ps) auto
    define M where "M = S - c + 1"
    have le: "prob_slots p \<le> S - c" using "1.prems"(2) ps by simp
    have pp: "-1 \<le> p" using "1.prems"(1) ps by simp
    have "int (nat (p + 1)) = p + 1" "nat (p + 1) \<le> M" using pp le by (auto simp: M_def prob_slots_def split: if_splits)
    then have f: "fields_ok [prob_field M p]" using "1.prems"(3) by (intro prob_field_ok) (auto simp: M_def)
    note IH = "1.IH" [OF True ps refl]
    consider "p = -1" | "p \<noteq> -1" "p > 0" | "p = 0" using pp by linarith
    then show ?thesis
    proof cases
      case 1
      have "c + 1 + sum_list (map prob_slots ps') = S" "list_all (\<lambda>p. -1 \<le> p) ps'" using "1.prems" 1 ps by (simp_all add: prob_slots_simps)
      from IH(1) [OF 1 this(2,1) "1.prems"(3)] obtain fs where "ncount_fields S (c + 1) ps' = Some fs" "fields_ok fs" by blast
      then show ?thesis using True 1 f unfolding ps ncount_fields.simps [of S c "p # ps'"] M_def [symmetric] by (auto simp: fields_ok_def)
    next
      case 2
      have "c + nat p + sum_list (map prob_slots ps') = S" "list_all (\<lambda>p. -1 \<le> p) ps'" using "1.prems" 2 ps by (simp_all add: prob_slots_simps)
      from IH(2) [OF 2 this(2,1) "1.prems"(3)] obtain fs where "ncount_fields S (c + nat p) ps' = Some fs" "fields_ok fs" by blast
      then show ?thesis using True 2 f unfolding ps ncount_fields.simps [of S c "p # ps'"] M_def [symmetric] by (auto simp: fields_ok_def)
    next
      case 3
      obtain zs rest where z: "zero_fields ps' 0 = (zs, rest)" by fastforce
      obtain j where j: "ps' = replicate j 0 @ rest" using zero_fields_rest [of ps' 0] z by auto
      have "c + sum_list (map prob_slots rest) = S" "list_all (\<lambda>p. -1 \<le> p) rest" using "1.prems" 3 ps j by (simp_all add: prob_slots_simps sum_list_replicate)
      from IH(3) [OF _ _ z [symmetric] refl this(2,1) "1.prems"(3)] 3 obtain fs where "ncount_fields S c rest = Some fs" "fields_ok fs" by auto
      moreover have "fields_ok zs" using zero_fields_ok [of 0 ps'] z by simp
      ultimately show ?thesis using True 3 f z unfolding ps ncount_fields.simps [of S c "p # ps'"] M_def [symmetric] by (auto simp: fields_ok_def)
    qed
  next
    case False
    then show ?thesis by (subst ncount_fields.simps) (simp add: fields_ok_def)
  qed
qed

lemma ncount_read:
  assumes "list_all (\<lambda>p. -1 \<le> p) ps" "c + sum_list (map prob_slots ps) = S" "S \<le> 65536" "ncount_fields S c ps = Some fs"
    "bits_of source = pre @ field_bits fs @ post" "post \<noteq> []" "length acc + length (strip_zeros ps) \<le> m"
  shows "read_loop source m S (length pre) c acc = (acc @ strip_zeros ps, Ok (length pre + sum_list (map snd fs), S))"
  using assms
proof (induction S c ps arbitrary: fs pre acc rule: ncount_fields.induct)
  case (1 S c ps)
  show ?case
  proof (cases "c < S")
    case True
    then obtain p ps' where ps: "ps = p # ps'" using "1.prems"(2) by (cases ps) auto
    define M where "M = S - c + 1"
    define f where "f = prob_field M p"
    have le: "prob_slots p \<le> S - c" using "1.prems"(2) ps by simp
    have pp: "-1 \<le> p" "list_all (\<lambda>p. -1 \<le> p) ps'" using "1.prems"(1) ps by simp_all
    define v where "v = nat (p + 1)"
    have v: "int v = p + 1" "v \<le> M" using pp le by (auto simp: v_def M_def prob_slots_def split: if_splits)
    have M: "0 < M" "M \<le> 65537" using "1.prems"(3) by (simp_all add: M_def)
    have ne: "strip_zeros ps = p # strip_zeros ps'"
    proof -
      have "strip_zeros ps \<noteq> []" using "1.prems"(2) True by (intro strip_zeros_nonempty) linarith
      then show ?thesis by (simp add: ps split: if_splits)
    qed
    note IH = "1.IH" [OF True ps refl, folded M_def f_def]
    note nf = "1.prems"(4) [unfolded ps ncount_fields.simps [of S c "p # ps'"] list.case Let_def M_def [symmetric] f_def [symmetric] if_P [OF True]]
    have rd: "\<exists>u b. read_bits source (length pre) (Suc (ilog2 M)) = Ok (u, length pre + Suc (ilog2 M)) \<and> short_value (Suc (ilog2 M)) M u = (v, b)
       \<and> (if b then length pre + Suc (ilog2 M) - 1 else length pre + Suc (ilog2 M)) = length pre + snd f" if "fs = f # fs'" for fs'
    proof -
      have "field_bits fs = field_bits [f] @ field_bits fs'" using that by (cases f) simp
      then show ?thesis unfolding f_def using "1.prems"(5,6) by (intro read_prob [OF M v, of source pre "field_bits fs' @ post"]) (simp_all add: f_def)
    qed
    have room: "\<not> m \<le> length acc" using "1.prems"(7) ne by simp
    have step: "read_loop source m S (length pre) c acc =
        (if p \<noteq> 0 then if p > 0 then read_loop source m S (length pre + snd f) (c + nat p) (acc @ [p]) else read_loop source m S (length pre + snd f) (c + 1) (acc @ [p])
         else case skip_zeros source m (length pre + snd f) (acc @ [p]) of (probs, Ok bit_pos) \<Rightarrow> read_loop source m S bit_pos c probs
            | (probs, Err e) \<Rightarrow> (probs, Err e) | (probs, Panic) \<Rightarrow> (probs, Panic))" if fs: "fs = f # fs'" for fs'
    proof -
      obtain u b where u: "read_bits source (length pre) (Suc (ilog2 M)) = Ok (u, length pre + Suc (ilog2 M))" "short_value (Suc (ilog2 M)) M u = (v, b)"
          "(if b then length pre + Suc (ilog2 M) - 1 else length pre + Suc (ilog2 M)) = length pre + snd f" using rd [OF fs] by blast
      have ip: "int v - 1 = p" using v(1) by simp
      show ?thesis
        unfolding read_loop.simps [of source m S "length pre" c acc] Let_def M_def [symmetric] u(1) result.case prod.case u(2,3) ip using True room pp(1) by auto
    qed
    consider "p = -1" | "p \<noteq> -1" "p > 0" | "p = 0" using pp(1) by linarith
    then show ?thesis
    proof cases
      case 1
      obtain fs' where fs: "ncount_fields S (c + 1) ps' = Some fs'" "fs = f # fs'" using nf 1 by auto
      have s: "c + 1 + sum_list (map prob_slots ps') = S" using "1.prems"(2) 1 ps by (simp add: prob_slots_simps)
      have b: "bits_of source = (pre @ word_bits (snd f) (fst f)) @ field_bits fs' @ post" using "1.prems"(5) fs(2) by (cases f) simp
      show ?thesis unfolding step [OF fs(2)] ne
        using IH(1) [OF 1 pp(2) s "1.prems"(3) fs(1) b "1.prems"(6), of "acc @ [p]"] "1.prems"(7) ne 1 by (simp add: fs(2) add.assoc)
    next
      case 2
      obtain fs' where fs: "ncount_fields S (c + nat p) ps' = Some fs'" "fs = f # fs'" using nf 2 by auto
      have s: "c + nat p + sum_list (map prob_slots ps') = S" using "1.prems"(2) 2 ps by (simp add: prob_slots_simps)
      have b: "bits_of source = (pre @ word_bits (snd f) (fst f)) @ field_bits fs' @ post" using "1.prems"(5) fs(2) by (cases f) simp
      show ?thesis unfolding step [OF fs(2)] ne
        using IH(2) [OF 2 pp(2) s "1.prems"(3) fs(1) b "1.prems"(6), of "acc @ [p]"] "1.prems"(7) ne 2 by (simp add: fs(2) add.assoc)
    next
      case 3
      obtain zs rest where z: "zero_fields ps' 0 = (zs, rest)" by fastforce
      obtain fs' where fs: "ncount_fields S c rest = Some fs'" "fs = f # zs @ fs'" using nf 3 z by auto
      have b0: "bits_of source = (pre @ word_bits (snd f) (fst f)) @ field_bits zs @ field_bits fs' @ post" using "1.prems"(5) fs(2) by (cases f) simp
      obtain j where j: "ps' = replicate j 0 @ rest"
          "\<forall>acc. length acc + 0 + j \<le> m \<longrightarrow> skip_zeros source m (length (pre @ word_bits (snd f) (fst f))) acc = (acc @ replicate (0 + j) 0, Ok (length (pre @ word_bits (snd f) (fst f)) + sum_list (map snd zs)))"
        using zero_fields_run [OF z _ b0] by auto
      have s: "c + sum_list (map prob_slots rest) = S" "list_all (\<lambda>p. -1 \<le> p) rest" using "1.prems"(2) 3 ps j pp(2) by (simp_all add: prob_slots_simps sum_list_replicate)
      have rne: "strip_zeros rest \<noteq> []" using s(1) True by (intro strip_zeros_nonempty) linarith
      then have st: "strip_zeros ps' = replicate j 0 @ strip_zeros rest" by (simp add: j(1) strip_zeros_append)
      have b: "bits_of source = (pre @ word_bits (snd f) (fst f) @ field_bits zs) @ field_bits fs' @ post" using b0 by simp
      have sk: "skip_zeros source m (length pre + snd f) (acc @ [p]) = (acc @ [p] @ replicate j 0, Ok (length pre + snd f + sum_list (map snd zs)))"
        using j(2) "1.prems"(7) ne st by simp
      have lf: "length (field_bits zs) = sum_list (map snd zs)" by simp
      show ?thesis unfolding step [OF fs(2)] ne st sk
        using IH(3) [OF _ _ z [symmetric] refl s(2,1) "1.prems"(3) fs(1) b "1.prems"(6), of "acc @ [p] @ replicate j 0"] "1.prems"(7) ne st 3
        by (simp add: fs(2) add.assoc)
    qed
  next
    case False
    then have fs: "fs = []" using "1.prems"(4) by (subst (asm) ncount_fields.simps) simp
    have "sum_list (map prob_slots ps) = 0" "c = S" using "1.prems"(2) False by linarith+
    then have "strip_zeros ps = []" using "1.prems"(1) by (intro strip_zeros_empty)
    then show ?thesis using False fs \<open>c = S\<close> by (subst read_loop.simps) simp
  qed
qed

text \<open>A description: the fields, then zeros up to the next byte.\<close>

definition describes :: "int list \<Rightarrow> nat \<Rightarrow> u8 list \<Rightarrow> bool" where
  "describes ps k hdr \<longleftrightarrow> (\<exists>fs pad. ncount_fields (2 ^ k) 0 ps = Some fs \<and> pad < 8
     \<and> bits_of hdr = word_bits 4 (of_nat (k - 5) :: u64) @ field_bits fs @ replicate pad False \<and> ncount_header_bits ps k = Some (8 * length hdr))"

lemma bytes_of_bits:
  assumes "8 dvd length bits"
  shows "\<exists>bs. bits_of bs = bits"
proof -
  obtain n where n: "length bits = 8 * n" using assms by (elim dvdE)
  define bs where "bs = map (\<lambda>i. horner_sum of_bool 2 (map (\<lambda>j. bits ! (8 * i + j)) [0..<8]) :: u8) [0..<n]"
  have "bits_of bs = bits"
  proof (rule nth_equalityI)
    show "length (bits_of bs) = length bits" by (simp add: bs_def n)
    fix i assume "i < length (bits_of bs)"
    then have i: "i < 8 * n" by (simp add: bs_def)
    then have "i div 8 < n" by (simp add: less_mult_imp_div_less mult.commute)
    then have "bits_of bs ! i = bit (bs ! (i div 8)) (i mod 8)" using i by (simp add: bs_def sbit_def)
    also have "\<dots> = bits ! i" using \<open>i div 8 < n\<close> by (simp add: bs_def bit_horner_sum_bit_word_iff)
    finally show "bits_of bs ! i = bits ! i" .
  qed
  then show ?thesis by blast
qed

lemma write_ncount_describes:
  assumes fill: "list_all (\<lambda>p. -1 \<le> p) ps" "sum_list (map prob_slots ps) = 2 ^ k" and k: "5 \<le> k" "k \<le> 16"
    and w: "bw_inv w" "bw_bits w = bits_of pre"
  shows "\<exists>w' hdr. write_ncount ps k w = Some w' \<and> bw_inv w' \<and> bw_bits w' = bits_of (pre @ hdr) \<and> describes ps k hdr"
proof -
  have "(2 :: nat) ^ k \<le> 2 ^ 16" using k(2) by (intro power_increasing) simp_all
  then obtain fs where fs: "ncount_fields (2 ^ k) 0 ps = Some fs" "fields_ok fs" using ncount_fields_ok [OF fill(1), of 0 "2 ^ k"] fill(2) by auto
  have u: "unat (of_nat (k - 5) :: u64) = k - 5" unfolding unat_of_nat using k by simp
  then have "clean_above 4 (of_nat (k - 5) :: u64)" using k by (simp add: clean_above_iff_less)
  then obtain w1 where w1: "write_bits_64 w (of_nat (k - 5)) 4 = Some w1" "bw_inv w1" "bw_bits w1 = bw_bits w @ word_bits 4 (of_nat (k - 5) :: u64)"
    using write_bits_64_bits [OF w(1), of 4 "of_nat (k - 5)"] by auto
  obtain w2 where w2: "write_fields w1 fs = Some w2" "bw_inv w2" "bw_bits w2 = bw_bits w1 @ field_bits fs" using write_fields_bits [OF w1(2) fs(2)] by blast
  define pad where "pad = misaligned w2"
  define n where "n = 4 + sum_list (map snd fs)"
  have idx: "bw_index w2 = 8 * length pre + n" using bw_index_length [OF w2(2)] w2(3) w1(3) w(2) by (simp add: n_def)
  have pad: "pad = (if n mod 8 \<noteq> 0 then 8 - n mod 8 else 0)" unfolding pad_def misaligned_def Let_def idx by (simp add: dvd_eq_mod_eq_0 mod_simps)
  have p8: "pad < 8 \<and> 8 dvd n + pad"
  proof (cases "n mod 8 = 0")
    case False
    then have "pad = 8 - n mod 8" by (simp add: pad)
    then show ?thesis using next_byte_boundary [of n] False by simp
  qed (simp add: pad dvd_eq_mod_eq_0)
  then have p8: "pad < 8" "8 dvd n + pad" by simp_all
  obtain w3 where w3: "write_bits_64 w2 0 pad = Some w3" "bw_inv w3" "bw_bits w3 = bw_bits w2 @ word_bits pad (0 :: u64)"
    using write_bits_64_bits [OF w2(2), of pad 0] p8(1) by (auto simp: clean_above_def)
  have z: "word_bits pad (0 :: u64) = replicate pad False" by (rule nth_equalityI) simp_all
  obtain hdr where hdr: "bits_of hdr = word_bits 4 (of_nat (k - 5) :: u64) @ field_bits fs @ replicate pad False"
    using bytes_of_bits [of "word_bits 4 (of_nat (k - 5) :: u64) @ field_bits fs @ replicate pad False"] p8(2) by (auto simp: n_def add.assoc)
  have "8 * length hdr = n + pad" using arg_cong [OF hdr, of length] by (simp add: n_def)
  then have "ncount_header_bits ps k = Some (8 * length hdr)" unfolding ncount_header_bits_def ncount_bits_counts fs(1) using pad by (auto simp: n_def)
  then have d: "describes ps k hdr" using fs(1) p8(1) hdr by (auto simp: describes_def)
  have "8 dvd bw_index w" using bw_index_length [OF w(1)] w(2) by simp
  then have "write_ncount ps k w = Some w3" using k w1(1) fs(1) w2(1) w3(1) by (simp add: write_ncount_def pad_def)
  then show ?thesis using w3 d hdr z w2(3) w1(3) w(2) by (intro exI [of _ w3] exI [of _ hdr]) simp
qed

lemma bytes_taken:
  assumes "n + pad = 8 * len" "pad < 8"
  shows "(if n mod 8 = 0 then n div 8 else n div 8 + 1) = (len :: nat)"
proof (cases "pad = 0")
  case False
  define q where "q = 8 - pad"
  have n: "n = q + 8 * (len - 1)" "0 < len" "0 < q" "q < 8" using assms False by (auto simp: q_def)
  have "n div 8 = len - 1" "n mod 8 = q" unfolding n(1) using n(4) by simp_all
  then show ?thesis using n(2,3) by simp
qed (use assms in simp)

lemma read_described:
  assumes fill: "list_all (\<lambda>p. -1 \<le> p) ps" "sum_list (map prob_slots ps) = 2 ^ k" and k: "5 \<le> k" "k \<le> 16" "k \<le> max_log"
    and d: "describes ps k hdr" and rest: "rest \<noteq> []" and len: "length (strip_zeros ps) \<le> unat (ft_max_symbol t) + 1"
  shows "read_probabilities (hdr @ rest) max_log t = (t\<lparr>ft_accuracy_log := k, ft_symbol_probabilities := strip_zeros ps\<rparr>, Ok (length hdr))"
proof -
  obtain fs pad where fs: "ncount_fields (2 ^ k) 0 ps = Some fs" "pad < 8" "bits_of hdr = word_bits 4 (of_nat (k - 5) :: u64) @ field_bits fs @ replicate pad False"
    using d by (auto simp: describes_def)
  let ?post = "replicate pad False @ bits_of rest"
  have bits: "bits_of (hdr @ rest) = word_bits 4 (of_nat (k - 5) :: u64) @ field_bits fs @ ?post" by (simp add: fs(3))
  have post: "?post \<noteq> []" using rest by (cases rest) (simp_all add: bits_of_def)
  have u: "unat (of_nat (k - 5) :: u64) = k - 5" unfolding unat_of_nat using k by simp
  have acc: "read_bits (hdr @ rest) 0 4 = Ok (k - 5, 4)" using read_bits_at [of "hdr @ rest" "[]" 4 "of_nat (k - 5)" "field_bits fs @ ?post"] bits u k by simp
  have "(2 :: nat) ^ k \<le> 2 ^ 16" using k(2) by (intro power_increasing) simp_all
  then have loop: "read_loop (hdr @ rest) (unat (ft_max_symbol t) + 1) (2 ^ k) 4 0 [] = (strip_zeros ps, Ok (4 + sum_list (map snd fs), 2 ^ k))"
    using ncount_read [OF fill(1) _ _ fs(1) bits post, of "[]"] fill(2) len by simp
  have "4 + sum_list (map snd fs) + pad = 8 * length hdr" using arg_cong [OF fs(3), of length] by simp
  then have "(if (4 + sum_list (map snd fs)) mod 8 = 0 then (4 + sum_list (map snd fs)) div 8 else (4 + sum_list (map snd fs)) div 8 + 1) = length hdr"
    by (rule bytes_taken [OF _ fs(2)])
  then show ?thesis using acc loop k unfolding read_probabilities_def Let_def by (simp add: ACC_LOG_OFFSET_def ENTRY_MAX_ACCURACY_LOG_def)
qed

end
