(* ===== verification/Fse_Normalize.thy ===== *)
theory Fse_Normalize
  imports Fse_NCount
begin

text \<open>
  From a histogram to the probabilities of an FSE table (\<^verbatim>\<open>zstd/src/fse/fse_encoder.rs\<close>): the table log, the
  normalisation with its second method, and the builders that compose them. The fixed-point values of the
  source are \<open>u64\<close>; \<open>fixed_point_fits\<close> shows that they stay below \<open>2 ^ 64\<close>, so they are natural numbers here; \<open>total * 3\<close>
  does for fewer than \<open>2 ^ 62\<close> samples. \<open>None\<close> is a panic, and a loop that does not end has no result either.
\<close>

section \<open>The table log\<close>

definition min_table_log :: "nat \<Rightarrow> nat \<Rightarrow> nat" where
  "min_table_log samples max_symbol =
     (let min_bits_src = ilog2 samples + 1;
          min_bits_symbols = (if max_symbol = 0 then 2 else ilog2 max_symbol + 2)
      in min min_bits_src min_bits_symbols)"

definition optimal_table_log :: "nat \<Rightarrow> nat \<Rightarrow> nat \<Rightarrow> nat \<Rightarrow> nat" where
  "optimal_table_log max_table_log samples max_symbol minus_bits =
     (let max_bits_src = ilog2 (samples - 1) - minus_bits;
          min_bits = min_table_log samples max_symbol;
          table_log = max_table_log;
          table_log = (if max_bits_src < table_log then max_bits_src else table_log);
          table_log = (if min_bits > table_log then min_bits else table_log)
      in max 5 (min 12 table_log))"

section \<open>The second method\<close>

definition NOT_YET_ASSIGNED :: int where
  "NOT_YET_ASSIGNED = -2"

text \<open>The first pass: what every symbol gets, the slots given away and the samples left.\<close>

fun m2_assign :: "nat \<Rightarrow> nat \<Rightarrow> int \<Rightarrow> nat list \<Rightarrow> nat \<Rightarrow> nat \<Rightarrow> int list \<times> nat \<times> nat" where
  "m2_assign low_threshold low_one low_prob_count [] distributed samples = ([], distributed, samples)"
| "m2_assign low_threshold low_one low_prob_count (c # counts) distributed samples =
     (let (p, d, s) = (if c = 0 then (0, distributed, samples)
                       else if c \<le> low_threshold then (low_prob_count, distributed + 1, samples - c)
                       else if c \<le> low_one then (1, distributed + 1, samples - c)
                       else (NOT_YET_ASSIGNED, distributed, samples));
          (ps, d, s) = m2_assign low_threshold low_one low_prob_count counts d s
      in (p # ps, d, s))"

text \<open>The second pass gives one slot to the symbols that a larger threshold covers.\<close>

fun m2_assign_ones :: "nat \<Rightarrow> int list \<Rightarrow> nat list \<Rightarrow> nat \<Rightarrow> nat \<Rightarrow> int list \<times> nat \<times> nat" where
  "m2_assign_ones low_one (p # ps) (c # counts) distributed samples =
     (let (p, d, s) = (if p = NOT_YET_ASSIGNED \<and> c \<le> low_one then (1, distributed + 1, samples - c) else (p, distributed, samples));
          (ps, d, s) = m2_assign_ones low_one ps counts d s
      in (p # ps, d, s))"
| "m2_assign_ones low_one ps counts distributed samples = (ps, distributed, samples)"

text \<open>\<open>Iterator::max_by_key\<close> returns the last of several maxima.\<close>

definition last_max :: "nat list \<Rightarrow> nat" where
  "last_max counts = fold (\<lambda>i best. if counts ! best \<le> counts ! i then i else best) [0..<length counts] 0"

partial_function (option) round_robin :: "int list \<Rightarrow> nat \<Rightarrow> nat \<Rightarrow> int list option" where
  "round_robin normalized to_distribute symbol =
     (if to_distribute = 0 then Some normalized
      else
        let nxt = (symbol + 1) mod length normalized in
        if normalized ! symbol > 0 then round_robin (normalized[symbol := normalized ! symbol + 1]) (to_distribute - 1) nxt
        else round_robin normalized to_distribute nxt)"

declare round_robin.simps [code]

text \<open>The rest is cut in proportion, with a running sum in fixed point.\<close>

fun m2_proportional :: "nat \<Rightarrow> nat \<Rightarrow> int list \<Rightarrow> nat list \<Rightarrow> nat \<Rightarrow> int list option" where
  "m2_proportional v_step_log r_step (p # ps) (c # counts) tmp_total =
     (if p = NOT_YET_ASSIGNED then
        let end_total = tmp_total + c * r_step;
            weight = drop_bit v_step_log end_total - drop_bit v_step_log tmp_total in
        if weight \<ge> 1 then map_option ((#) (int weight)) (m2_proportional v_step_log r_step ps counts end_total) else None
      else map_option ((#) p) (m2_proportional v_step_log r_step ps counts tmp_total))"
| "m2_proportional v_step_log r_step ps counts tmp_total = Some ps"

text \<open>The last pass, on what the others left: the probabilities, the slots given away and the samples without one.\<close>

definition m2_distribute :: "nat \<Rightarrow> nat list \<Rightarrow> int list \<times> nat \<times> nat \<Rightarrow> int list option" where
  "m2_distribute table_log counts state =
     (case state of (normalized, distributed, samples) \<Rightarrow>
        if distributed > 2 ^ table_log then None
        else
          let to_distribute = 2 ^ table_log - distributed in
          if distributed = length counts then
            let i = last_max counts in Some (normalized[i := normalized ! i + int to_distribute])
          else if samples = 0 then round_robin normalized to_distribute 0
          else
            let v_step_log = 62 - table_log; mid = 2 ^ (v_step_log - 1) - 1;
                r_step = (2 ^ v_step_log * to_distribute + mid) div samples in
            m2_proportional v_step_log r_step normalized counts mid)"

definition normalize_m2 :: "nat \<Rightarrow> nat list \<Rightarrow> nat \<Rightarrow> int \<Rightarrow> int list option" where
  "normalize_m2 table_log counts samples low_prob_count =
     (let low_threshold = drop_bit table_log samples;
          low_one = drop_bit (table_log + 1) (samples * 3);
          (normalized, distributed, samples) = m2_assign low_threshold low_one low_prob_count counts 0 samples in
      if distributed > 2 ^ table_log then None
      else
        let to_distribute = 2 ^ table_log - distributed in
        if to_distribute = 0 then Some normalized
        else
          m2_distribute table_log counts
            (if samples div to_distribute > low_one
             then m2_assign_ones (samples * 3 div (to_distribute * 2)) normalized counts distributed samples
             else (normalized, distributed, samples)))"

section \<open>The first method\<close>

definition RTB_TABLE :: "nat list" where
  "RTB_TABLE = [0, 473195, 504333, 520860, 550000, 700000, 750000, 830000]"

text \<open>The share of a symbol above the low threshold, rounded by its own threshold when it is small.\<close>

definition scaled_probability :: "nat \<Rightarrow> nat \<Rightarrow> nat \<Rightarrow> nat" where
  "scaled_probability table_log samples c =
     (let scale = 62 - table_log; step = 2 ^ 62 div samples; v_step = 2 ^ (scale - 20);
          product = c * step; probability = drop_bit scale product in
      if probability < 8 then
        probability + (if product - probability * 2 ^ scale > v_step * (RTB_TABLE ! probability) then 1 else 0)
      else probability)"

fun normalize_loop ::
  "nat \<Rightarrow> nat \<Rightarrow> int \<Rightarrow> nat list \<Rightarrow> nat \<Rightarrow> int \<Rightarrow> nat \<Rightarrow> int \<Rightarrow> int list \<times> int \<times> nat" where
  "normalize_loop table_log samples low_prob_count [] symbol still largest largest_probability = ([], still, largest)"
| "normalize_loop table_log samples low_prob_count (c # counts) symbol still largest largest_probability =
     (let (p, still, largest, largest_probability) =
            (if c = 0 then (0, still, largest, largest_probability)
             else if c \<le> drop_bit table_log samples then (low_prob_count, still - 1, largest, largest_probability)
             else
               let probability = int (scaled_probability table_log samples c) in
               if probability > largest_probability then (probability, still - probability, symbol, probability)
               else (probability, still - probability, largest, largest_probability));
          (ps, still, largest) = normalize_loop table_log samples low_prob_count counts (Suc symbol) still largest largest_probability
      in (p # ps, still, largest))"

text \<open>
  \<open>counts\<close> are the counts up to the last symbol; the rest of the destination keeps its zeros. \<open>normalized[largest] >> 1\<close>
  is the floor of the half.
\<close>

definition normalize_counts :: "nat \<Rightarrow> nat list \<Rightarrow> nat \<Rightarrow> bool \<Rightarrow> int list option" where
  "normalize_counts table_log counts samples use_low_prob_count =
     (let low_prob_count = (if use_low_prob_count then -1 else 1);
          (normalized, still, largest) = normalize_loop table_log samples low_prob_count counts 0 (2 ^ table_log) 0 0 in
      if samples = 0 \<or> largest \<ge> length normalized then None
      else if - still \<ge> normalized ! largest div 2 then normalize_m2 table_log counts samples low_prob_count
      else Some (normalized[largest := normalized ! largest + still]))"

section \<open>Builders\<close>

text \<open>\<open>rposition(|count| count > 0).unwrap_or_default()\<close>\<close>

definition last_nonzero :: "nat list \<Rightarrow> nat" where
  "last_nonzero counts = length (dropWhile (\<lambda>c. c = 0) (rev counts)) - 1"

text \<open>The normalised list padded with the zeros of the destination.\<close>

definition normalized_for :: "nat list \<Rightarrow> nat \<Rightarrow> nat \<Rightarrow> bool \<Rightarrow> int list option" where
  "normalized_for counts table_log samples use_low_prob_count =
     map_option (\<lambda>ps. ps @ replicate (length counts - Suc (last_nonzero counts)) 0)
       (normalize_counts table_log (take (Suc (last_nonzero counts)) counts) samples use_low_prob_count)"

definition build_table_from_counts_into :: "nat list \<Rightarrow> nat \<Rightarrow> bool \<Rightarrow> enc_table \<Rightarrow> enc_table option" where
  "build_table_from_counts_into counts max_log avoid_0_numbit out =
     (let samples = sum_list counts in
      if samples \<le> 1 \<or> length counts > 256 then None
      else
        let table_log = optimal_table_log max_log samples (last_nonzero counts) 2 in
        Option.bind (normalized_for counts table_log samples avoid_0_numbit) (\<lambda>probs.
          build_table_from_probabilities_into probs table_log out))"

definition fse_header_bits_for_counts :: "nat list \<Rightarrow> nat \<Rightarrow> bool \<Rightarrow> nat option" where
  "fse_header_bits_for_counts counts max_log avoid_0_numbit =
     (let samples = sum_list counts in
      if samples \<le> 1 \<or> length counts > 256 then None
      else
        let table_log = optimal_table_log max_log samples (last_nonzero counts) 2 in
        Option.bind (normalized_for counts table_log samples avoid_0_numbit) (\<lambda>probs. ncount_header_bits probs table_log))"

text \<open>The code of the last sequence starts the stream, so one occurrence of it does not count.\<close>

definition build_seq_ctable_into :: "nat list \<Rightarrow> nat \<Rightarrow> nat \<Rightarrow> enc_table \<Rightarrow> enc_table option" where
  "build_seq_ctable_into counts max_log last_code out =
     (let samples = sum_list counts; max_symbol = last_nonzero counts;
          table_log = optimal_table_log max_log samples max_symbol 2 in
      if last_code \<ge> length counts then None
      else
        let adjust = counts ! last_code > 1;
            counts = (if adjust then counts[last_code := counts ! last_code - 1] else counts);
            norm_total = (if adjust then samples - 1 else samples) in
        Option.bind (normalize_counts table_log (take (Suc max_symbol) counts) norm_total (norm_total \<ge> 2048)) (\<lambda>probs.
          build_table_from_probabilities_into probs table_log out))"

definition write_ncount_at_log :: "nat list \<Rightarrow> nat \<Rightarrow> bit_writer \<Rightarrow> bit_writer option" where
  "write_ncount_at_log counts table_log w =
     (let samples = sum_list counts; max_symbol = last_nonzero counts in
      Option.bind (normalize_counts table_log (take (Suc max_symbol) counts) samples True) (\<lambda>probs. write_ncount probs table_log w))"

section \<open>The fixed-point values fit\<close>

text \<open>The largest value of every product and sum of the two methods: none of them wraps in \<open>u64\<close>.\<close>

lemma fixed_point_fits:
  assumes "5 \<le> table_log" "table_log \<le> 12" "0 < samples" "c \<le> samples"
  shows "c * (2 ^ 62 div samples) < (2 ^ 64 :: nat)"
    "v \<in> set RTB_TABLE \<Longrightarrow> 2 ^ (62 - table_log - 20) * v < (2 ^ 64 :: nat)"
    "to_distribute \<le> 2 ^ table_log \<Longrightarrow> 2 ^ (62 - table_log) * to_distribute + (2 ^ (62 - table_log - 1) - 1) < (2 ^ 64 :: nat)"
    "to_distribute \<le> 2 ^ table_log \<Longrightarrow>
       (2 ^ (62 - table_log - 1) - 1) + c * ((2 ^ (62 - table_log) * to_distribute + (2 ^ (62 - table_log - 1) - 1)) div samples) < (2 ^ 64 :: nat)"
proof -
  have below: "c * (n div samples) \<le> n" for n :: nat
    using mult_le_mono1 [OF assms(4), of "n div samples"] times_div_less_eq_dividend [of samples n] by linarith
  show "c * (2 ^ 62 div samples) < (2 ^ 64 :: nat)" using below [of "2 ^ 62"] by simp
  have step: "(2 :: nat) ^ (62 - table_log - 20) \<le> 2 ^ 37" "(2 :: nat) ^ (62 - table_log - 1) \<le> 2 ^ 56" using assms(1) by (intro power_increasing; simp)+
  show "2 ^ (62 - table_log - 20) * v < (2 ^ 64 :: nat)" if "v \<in> set RTB_TABLE"
  proof -
    have "v \<le> 830000" using that by (auto simp: RTB_TABLE_def)
    then have "2 ^ (62 - table_log - 20) * v \<le> 2 ^ 37 * 830000" by (intro mult_le_mono step)
    then show ?thesis by simp
  qed
  have top: "2 ^ (62 - table_log) * to_distribute + (2 ^ (62 - table_log - 1) - 1) \<le> (2 ^ 62 + 2 ^ 56 :: nat)" if "to_distribute \<le> 2 ^ table_log"
  proof -
    have "2 ^ (62 - table_log) * to_distribute \<le> 2 ^ (62 - table_log) * (2 ^ table_log :: nat)" using that by simp
    also have "\<dots> = 2 ^ 62" using assms(2) by (simp flip: power_add)
    finally show ?thesis using step(2) by linarith
  qed
  show "2 ^ (62 - table_log) * to_distribute + (2 ^ (62 - table_log - 1) - 1) < (2 ^ 64 :: nat)" if "to_distribute \<le> 2 ^ table_log"
    using top [OF that] by simp
  show "(2 ^ (62 - table_log - 1) - 1) + c * ((2 ^ (62 - table_log) * to_distribute + (2 ^ (62 - table_log - 1) - 1)) div samples) < (2 ^ 64 :: nat)"
    if "to_distribute \<le> 2 ^ table_log"
  proof -
    have "c * ((2 ^ (62 - table_log) * to_distribute + (2 ^ (62 - table_log - 1) - 1)) div samples) \<le> 2 ^ 62 + 2 ^ 56" using below top [OF that] by (rule order_trans)
    then have "(2 ^ (62 - table_log - 1) - 1) + c * ((2 ^ (62 - table_log) * to_distribute + (2 ^ (62 - table_log - 1) - 1)) div samples) \<le> 2 ^ 56 + (2 ^ 62 + 2 ^ 56 :: nat)"
      using step(2) by (intro add_mono) simp_all
    then show ?thesis by simp
  qed
qed

section \<open>The second method fills the table\<close>

text \<open>What a symbol gets when counts up to \<open>one\<close> are settled.\<close>

definition share :: "nat \<Rightarrow> int \<Rightarrow> nat \<Rightarrow> nat \<Rightarrow> int" where
  "share thr low one c = (if c = 0 then 0 else if c \<le> thr then low else if c \<le> one then 1 else NOT_YET_ASSIGNED)"

definition settled :: "nat \<Rightarrow> nat list \<Rightarrow> nat" where
  "settled one counts = length (filter (\<lambda>c. 0 < c \<and> c \<le> one) counts)"

definition unsettled :: "nat \<Rightarrow> nat list \<Rightarrow> nat" where
  "unsettled one counts = sum_list (filter (\<lambda>c. one < c) counts)"

lemma share_open: "low \<noteq> NOT_YET_ASSIGNED \<Longrightarrow> share thr low one c = NOT_YET_ASSIGNED \<longleftrightarrow> 0 < c \<and> thr < c \<and> one < c"
  by (cases "c = 0"; cases "c \<le> thr"; cases "c \<le> one") (simp_all add: share_def NOT_YET_ASSIGNED_def)

lemma settled_simps [simp]: "settled one [] = 0" "settled one (c # cs) = (if 0 < c \<and> c \<le> one then Suc (settled one cs) else settled one cs)"
  by (simp_all add: settled_def)

lemma unsettled_simps [simp]: "unsettled one [] = 0" "unsettled one (c # cs) = (if one < c then c + unsettled one cs else unsettled one cs)"
  by (simp_all add: unsettled_def)

lemma m2_assign_spec:
  assumes "thr \<le> one"
  shows "m2_assign thr one low counts d (s + sum_list counts) = (map (share thr low one) counts, d + settled one counts, s + unsettled one counts)"
proof (induction counts arbitrary: d s)
  case (Cons c counts)
  have e: "s + sum_list (c # counts) = s + c + sum_list counts" "s + sum_list (c # counts) - c = s + sum_list counts" by simp_all
  show ?case
    using assms Cons [of d s] Cons [of "d + 1" s] Cons [of d "s + c"] unfolding m2_assign.simps e by (auto simp: share_def)
qed simp

lemma m2_assign_ones_spec:
  assumes "thr \<le> one" "one \<le> one'" "low \<noteq> NOT_YET_ASSIGNED"
  shows "m2_assign_ones one' (map (share thr low one) counts) counts d (s + unsettled one counts)
     = (map (share thr low one') counts, d + (settled one' counts - settled one counts), s + unsettled one' counts)"
proof (induction counts arbitrary: d s)
  case (Cons c counts)
  have mono: "settled one counts \<le> settled one' counts" using assms(2) by (induction counts) auto
  consider "c \<le> one" | "one < c" "c \<le> one'" | "one' < c" by linarith
  then show ?case
  proof cases
    case 1
    then show ?thesis using Cons [of d s] assms by (auto simp: share_def NOT_YET_ASSIGNED_def)
  next
    case 2
    have "s + (c + unsettled one counts) - c = s + unsettled one counts" by simp
    then show ?thesis using Cons [of "d + 1" s] 2 assms mono by (auto simp: share_def Suc_diff_le)
  next
    case 3
    then show ?thesis using Cons [of d "s + c"] assms by (auto simp: share_def add.assoc)
  qed
qed simp

lemma settled_bounds: "settled one counts \<le> length counts" "settled one counts + unsettled one counts \<le> sum_list counts"
  by (induction counts) auto

lemma unsettled_drop: "one \<le> one' \<Longrightarrow> unsettled one' counts + (settled one' counts - settled one counts) * Suc one \<le> unsettled one counts"
  "one \<le> one' \<Longrightarrow> settled one counts \<le> settled one' counts"
proof (induction counts)
  case (Cons c counts)
  { case 1 then show ?case using Cons by (auto simp: Suc_diff_le) next case 2 then show ?case using Cons by auto }
qed simp_all

lemma settled_all: "settled one counts = length counts \<Longrightarrow> \<forall>c \<in> set counts. 0 < c \<and> c \<le> one"
  using sum_length_filter_compl [of "\<lambda>c. 0 < c \<and> c \<le> one" counts] by (auto simp: settled_def filter_empty_conv)

lemma unsettled_none: "unsettled one counts = 0 \<Longrightarrow> \<forall>c \<in> set counts. c \<le> one"
  by (induction counts) (auto split: if_splits)

text \<open>Some count lies above the low threshold.\<close>

definition histogram_fits :: "nat \<Rightarrow> nat list \<Rightarrow> bool" where
  "histogram_fits L counts \<longleftrightarrow> 0 < sum_list counts \<and> sum_list counts \<le> 2 ^ 25 \<and> 5 \<le> L \<and> L \<le> 12 \<and> (sum_list counts < 2 ^ L \<or> 2 * length counts \<le> 2 ^ L)"

lemma sum_list_le_bound: "\<forall>c \<in> set counts. c \<le> b \<Longrightarrow> sum_list counts \<le> length counts * (b :: nat)"
  by (induction counts) auto

lemma exists_above:
  assumes "histogram_fits L counts"
  shows "\<exists>c \<in> set counts. sum_list counts div 2 ^ L < c"
proof (rule ccontr)
  let ?T = "sum_list counts" and ?q = "sum_list counts div 2 ^ L"
  assume "\<not> (\<exists>c \<in> set counts. ?q < c)"
  then have le: "?T \<le> length counts * ?q" by (intro sum_list_le_bound) (simp add: not_less)
  show False
  proof (cases "?T < 2 ^ L")
    case True
    then have "?q = 0" by simp
    then have "?T \<le> 0" using le by (simp only: mult_0_right)
    then show False using assms unfolding histogram_fits_def by linarith
  next
    case False
    then have "2 * length counts * ?q \<le> 2 ^ L * ?q" using assms by (intro mult_le_mono1) (simp add: histogram_fits_def)
    moreover have "2 ^ L * ?q \<le> ?T" by simp
    moreover have "2 * ?T \<le> 2 * length counts * ?q" using mult_le_mono2 [OF le, of 2] by (simp only: mult.assoc)
    ultimately have "?T \<le> 0" by linarith
    then show False using assms unfolding histogram_fits_def by linarith
  qed
qed

text \<open>The counts that are left are each worth at least a slot.\<close>

lemma slot_inequality:
  fixes A B H s0 s o0 o1 T :: nat
  assumes s: "s + (A - B) * Suc o0 \<le> s0" and o0: "3 * T < 2 * H * Suc o0" and o1: "3 * s0 < 2 * A * Suc o1" and T: "s0 \<le> T"
    and AB: "B \<le> A" "A \<le> H" "H \<le> 2 * B" "0 < B"
  shows "s < B * Suc o1"
proof -
  define a b h where "a = int A" and "b = int B" and "h = int H"
  have ab: "b \<le> a" "a \<le> h" "h \<le> 2 * b" "0 < b" using AB by (simp_all add: a_def b_def h_def)
  define x y u v where "x = int s" and "y = int s0" and "u = int (Suc o0)" and "v = int (Suc o1)"
  have s': "x + (a - b) * u \<le> y"
  proof -
    have "int (s + (A - B) * Suc o0) \<le> int s0" using s by (rule of_nat_mono)
    then show ?thesis by (simp only: x_def y_def a_def b_def u_def of_nat_add of_nat_mult of_nat_diff [OF AB(1)])
  qed
  have o0': "3 * y \<le> 2 * h * u"
  proof -
    have "int (3 * s0) \<le> int (2 * H * Suc o0)" using o0 T by linarith
    then show ?thesis by (simp only: y_def h_def u_def of_nat_mult of_nat_numeral)
  qed
  have o1': "3 * y < 2 * a * v"
  proof -
    have "int (3 * s0) < int (2 * A * Suc o1)" using o1 by (simp only: of_nat_less_iff)
    then show ?thesis by (simp only: y_def a_def v_def of_nat_mult of_nat_numeral)
  qed
  have y0: "0 \<le> y" by (simp add: y_def)
  have h0: "0 < h" "0 < a" using ab by linarith+
  have quad: "4 * h * a - 6 * a * (a - b) \<le> 6 * h * b"
  proof -
    have "0 \<le> (12 * a - 7 * h)\<^sup>2 + 23 * h\<^sup>2" by simp
    also have "\<dots> = 24 * (6 * a * a - 7 * h * a + 3 * h * h)" by (simp add: power2_eq_square algebra_simps)
    finally have q: "0 \<le> 6 * a * a - 7 * h * a + 3 * h * h" by simp
    have "3 * h * (h - a) \<le> 6 * b * (h - a)" using ab by (intro mult_right_mono) auto
    then show ?thesis using q by (simp add: algebra_simps)
  qed
  have "4 * h * a * x \<le> 4 * h * a * (y - (a - b) * u)" using s' h0 by (intro mult_left_mono) auto
  also have "\<dots> = 4 * h * a * y - 2 * a * (a - b) * (2 * h * u)" by (simp add: algebra_simps)
  also have "\<dots> \<le> 4 * h * a * y - 2 * a * (a - b) * (3 * y)"
  proof -
    have "2 * a * (a - b) * (3 * y) \<le> 2 * a * (a - b) * (2 * h * u)" using o0' ab h0 by (intro mult_left_mono) auto
    then show ?thesis by linarith
  qed
  also have "\<dots> = (4 * h * a - 6 * a * (a - b)) * y" by (simp add: algebra_simps)
  also have "\<dots> \<le> 6 * h * b * y" using quad y0 by (rule mult_right_mono)
  also have "\<dots> = 2 * h * b * (3 * y)" by simp
  also have "\<dots> < 2 * h * b * (2 * a * v)" using o1' h0 ab by (intro mult_strict_left_mono) auto
  also have "\<dots> = 4 * h * a * (b * v)" by simp
  finally have "x < b * v" using h0 by (simp add: mult_less_cancel_left_pos)
  then have "int s < int (B * Suc o1)" by (simp only: x_def b_def v_def of_nat_mult)
  then show ?thesis by (simp only: of_nat_less_iff)
qed

lemma m2_proportional_spec:
  assumes "\<forall>c \<in> set counts. one < c \<longrightarrow> 2 ^ v \<le> c * r" "low \<noteq> NOT_YET_ASSIGNED"
  shows "\<exists>ws. m2_proportional v r (map (share thr low one) counts) counts tmp = Some ws \<and> length ws = length counts
     \<and> (\<forall>i < length counts. if share thr low one (counts ! i) = NOT_YET_ASSIGNED then 1 \<le> ws ! i else ws ! i = share thr low one (counts ! i))
     \<and> (thr \<le> one \<longrightarrow> low = 1 \<or> low = -1 \<longrightarrow> sum_list (map prob_slots ws) + tmp div 2 ^ v = settled one counts + (tmp + unsettled one counts * r) div 2 ^ v)"
  using assms(1)
proof (induction counts arbitrary: tmp)
  case (Cons c counts)
  have c: "one < c \<longrightarrow> 2 ^ v \<le> c * r" and rest: "\<forall>c \<in> set counts. one < c \<longrightarrow> 2 ^ v \<le> c * r" using Cons.prems by simp_all
  let ?f = "share thr low one"
  show ?case
  proof (cases "?f c = NOT_YET_ASSIGNED")
    case True
    then have big: "one < c" "\<not> c \<le> thr" using share_open [OF assms(2)] by simp_all
    have le: "tmp div 2 ^ v + 1 \<le> (tmp + c * r) div 2 ^ v"
    proof -
      have "tmp div 2 ^ v + 1 = (tmp + 2 ^ v) div 2 ^ v" using div_add_self2 [of "2 ^ v" tmp] by simp
      also have "\<dots> \<le> (tmp + c * r) div 2 ^ v" using c big by (intro div_le_mono) simp
      finally show ?thesis .
    qed
    obtain ws where ws: "m2_proportional v r (map ?f counts) counts (tmp + c * r) = Some ws" "length ws = length counts"
        "\<forall>i < length counts. if ?f (counts ! i) = NOT_YET_ASSIGNED then 1 \<le> ws ! i else ws ! i = ?f (counts ! i)"
        "thr \<le> one \<longrightarrow> low = 1 \<or> low = -1 \<longrightarrow> sum_list (map prob_slots ws) + (tmp + c * r) div 2 ^ v = settled one counts + (tmp + c * r + unsettled one counts * r) div 2 ^ v"
      using Cons.IH [OF rest, of "tmp + c * r"] by blast
    define k where "k = (tmp + c * r) div 2 ^ v - tmp div 2 ^ v"
    have k: "1 \<le> k" "k + tmp div 2 ^ v = (tmp + c * r) div 2 ^ v" using le by (simp_all add: k_def)
    have slots: "prob_slots (int k) = k" using k(1) by (simp add: prob_slots_def)
    have e1: "m2_proportional v r (map ?f (c # counts)) (c # counts) tmp = Some (int k # ws)"
      using True ws(1) k(1) by (simp add: drop_bit_eq_div k_def)
    have e2: "if ?f ((c # counts) ! i) = NOT_YET_ASSIGNED then 1 \<le> (int k # ws) ! i else (int k # ws) ! i = ?f ((c # counts) ! i)" if "i < length (c # counts)" for i
    proof (cases i)
      case (Suc j)
      then show ?thesis using that ws(3) by simp
    qed (use True k(1) in simp)
    have e3: "sum_list (map prob_slots (int k # ws)) + tmp div 2 ^ v = settled one (c # counts) + (tmp + unsettled one (c # counts) * r) div 2 ^ v"
      if "thr \<le> one" "low = 1 \<or> low = -1"
    proof -
      have "tmp + unsettled one (c # counts) * r = tmp + c * r + unsettled one counts * r" using big by (simp add: add_mult_distrib)
      moreover have "settled one (c # counts) = settled one counts" using big by simp
      moreover have "sum_list (map prob_slots (int k # ws)) + tmp div 2 ^ v = sum_list (map prob_slots ws) + (tmp + c * r) div 2 ^ v"
        using slots k(2) by (simp only: list.map sum_list.Cons add.assoc add.commute [of k] add.left_commute)
      ultimately show ?thesis using ws(4) that by (simp only: simp_thms)
    qed
    show ?thesis
    proof (intro exI [of _ "int k # ws"] conjI allI impI)
      show "length (int k # ws) = length (c # counts)" by (simp add: ws(2))
    qed (rule e1, erule e2, erule (1) e3)
  next
    case False
    then have small: "c \<le> one \<or> c \<le> thr" by (auto simp: share_def split: if_splits)
    obtain ws where ws: "m2_proportional v r (map ?f counts) counts tmp = Some ws" "length ws = length counts"
        "\<forall>i < length counts. if ?f (counts ! i) = NOT_YET_ASSIGNED then 1 \<le> ws ! i else ws ! i = ?f (counts ! i)"
        "thr \<le> one \<longrightarrow> low = 1 \<or> low = -1 \<longrightarrow> sum_list (map prob_slots ws) + tmp div 2 ^ v = settled one counts + (tmp + unsettled one counts * r) div 2 ^ v"
      using Cons.IH [OF rest, of tmp] by blast
    have "m2_proportional v r (map ?f (c # counts)) (c # counts) tmp = Some (?f c # ws)" using False ws(1) by simp
    moreover have "if ?f ((c # counts) ! i) = NOT_YET_ASSIGNED then 1 \<le> (?f c # ws) ! i else (?f c # ws) ! i = ?f ((c # counts) ! i)" if "i < length (c # counts)" for i
    proof (cases i)
      case (Suc j)
      then show ?thesis using that ws(3) by simp
    qed (use False in simp)
    moreover have "prob_slots (?f c) = (if 0 < c then 1 else 0)" if "thr \<le> one" "low = 1 \<or> low = -1" using that small by (auto simp: share_def prob_slots_def)
    ultimately show ?thesis using ws(2,4) small by (intro exI [of _ "?f c # ws"]) auto
  qed
qed simp

text \<open>The round over the symbols ends as soon as one of them has a slot.\<close>

definition grown :: "int list \<Rightarrow> int list \<Rightarrow> bool" where
  "grown xs ys \<longleftrightarrow> length ys = length xs \<and> (\<forall>i < length xs. if xs ! i > 0 then ys ! i \<ge> xs ! i else ys ! i = xs ! i)"

lemma sum_slots_update:
  assumes "i < length xs" "0 < xs ! i"
  shows "sum_list (map prob_slots (xs[i := xs ! i + int k])) = sum_list (map prob_slots xs) + k"
proof -
  have xs: "xs = take i xs @ xs ! i # drop (Suc i) xs" using assms(1) by (rule id_take_nth_drop)
  have u: "xs[i := xs ! i + int k] = take i xs @ (xs ! i + int k) # drop (Suc i) xs" using assms(1) by (rule upd_conv_take_nth_drop)
  have p: "prob_slots (xs ! i + int k) = prob_slots (xs ! i) + k" using assms(2) by (simp add: prob_slots_def)
  show ?thesis unfolding u by (subst (3) xs) (simp add: p)
qed

lemma round_robin_spec:
  assumes "xs \<noteq> []" "\<exists>i < length xs. 0 < xs ! i" "symbol < length xs"
  shows "\<exists>ys. round_robin xs n symbol = Some ys \<and> grown xs ys \<and> sum_list (map prob_slots ys) = sum_list (map prob_slots xs) + n"
  using assms
proof (induction n arbitrary: xs symbol)
  case 0
  then show ?case by (subst round_robin.simps) (simp add: grown_def)
next
  case (Suc n)
  let ?len = "length xs"
  obtain i where i: "i < ?len" "0 < xs ! i" using Suc.prems(2) by blast
  have give: "\<exists>ys. round_robin xs (Suc n) s = Some ys \<and> grown xs ys \<and> sum_list (map prob_slots ys) = sum_list (map prob_slots xs) + Suc n"
    if s: "s < ?len" "0 < xs ! s" for s
  proof -
    let ?xs = "xs[s := xs ! s + 1]"
    have "0 < ?xs ! s" using s by simp
    then have "\<exists>i < length ?xs. 0 < ?xs ! i" using s(1) by (intro exI [of _ s]) simp
    moreover have "(s + 1) mod ?len < length ?xs" using Suc.prems(1) by simp
    ultimately obtain ys where ys: "round_robin ?xs n ((s + 1) mod ?len) = Some ys" "grown ?xs ys" "sum_list (map prob_slots ys) = sum_list (map prob_slots ?xs) + n"
      using Suc.IH [of ?xs "(s + 1) mod ?len"] Suc.prems(1) by auto
    have "round_robin xs (Suc n) s = Some ys" using s ys(1) by (subst round_robin.simps) simp
    moreover have "grown xs ys" unfolding grown_def
    proof (intro conjI allI impI)
      fix j assume "j < ?len"
      then show "if xs ! j > 0 then ys ! j \<ge> xs ! j else ys ! j = xs ! j" using ys(2) s by (cases "j = s") (auto simp: grown_def split: if_splits)
    qed (use ys(2) in \<open>simp add: grown_def\<close>)
    ultimately show ?thesis using ys(3) sum_slots_update [OF s, of 1] by simp
  qed
  have "\<exists>ys. round_robin xs (Suc n) ((i + (?len - d)) mod ?len) = Some ys \<and> grown xs ys \<and> sum_list (map prob_slots ys) = sum_list (map prob_slots xs) + Suc n"
    if "d < ?len" for d using that
  proof (induction d)
    case 0
    then show ?case using give [OF i] i by simp
  next
    case (Suc d)
    let ?s = "(i + (?len - Suc d)) mod ?len"
    have s: "?s < ?len" using i(1) by (intro mod_less_divisor) linarith
    have "i + (?len - d) = Suc (i + (?len - Suc d))" using Suc.prems by simp
    then have nxt: "(?s + 1) mod ?len = (i + (?len - d)) mod ?len" by (simp add: mod_Suc_eq)
    show ?case
    proof (cases "0 < xs ! ?s")
      case False
      then have "round_robin xs (Suc n) ?s = round_robin xs (Suc n) ((?s + 1) mod ?len)" by (subst round_robin.simps) simp
      then show ?thesis using Suc unfolding nxt by simp
    qed (use give [OF s] in simp)
  qed
  note all = this
  define d where "d = (if symbol \<le> i then i - symbol else i + ?len - symbol)"
  have "d < ?len" "(i + (?len - d)) mod ?len = symbol" using i Suc.prems(3) by (auto simp: d_def mod_if)
  then show ?case using all [of d] by simp
qed

lemma last_max_spec:
  assumes "counts \<noteq> []"
  shows "last_max counts < length counts" "\<forall>c \<in> set counts. c \<le> counts ! last_max counts"
proof -
  define f where "f = (\<lambda>i best. if counts ! best \<le> counts ! i then i else best)"
  have "fold f [0..<n] 0 < length counts \<and> (\<forall>i < n. counts ! i \<le> counts ! fold f [0..<n] 0)" if "n \<le> length counts" for n
    using that assms
  proof (induction n)
    case (Suc n)
    define b where "b = fold f [0..<n] 0"
    have "b < length counts" "\<forall>i < n. counts ! i \<le> counts ! b" using Suc by (simp_all add: b_def)
    moreover have "fold f [0..<Suc n] 0 = f n b" by (simp add: b_def)
    ultimately show ?case using Suc.prems unfolding f_def by (auto simp: less_Suc_eq)
  qed simp
  then show "last_max counts < length counts" "\<forall>c \<in> set counts. c \<le> counts ! last_max counts"
    unfolding last_max_def f_def [symmetric] by (auto simp: in_set_conv_nth)
qed

text \<open>Every symbol that occurs gets a share, and no other does.\<close>

definition shares_ok :: "nat list \<Rightarrow> int list \<Rightarrow> bool" where
  "shares_ok counts ps \<longleftrightarrow> length ps = length counts \<and> (\<forall>i < length counts. if counts ! i = 0 then ps ! i = 0 else ps ! i = -1 \<or> 1 \<le> ps ! i)"

lemma share_settled:
  assumes "low = 1 \<or> low = -1" "thr \<le> one" "c \<le> one"
  shows "share thr low one c = (if c = 0 then 0 else if c \<le> thr then low else 1)" "prob_slots (share thr low one c) = (if 0 < c then 1 else 0)"
  using assms by (auto simp: share_def prob_slots_def)

lemma slots_settled:
  assumes "low = 1 \<or> low = -1" "thr \<le> one" "\<forall>c \<in> set counts. c \<le> one"
  shows "sum_list (map prob_slots (map (share thr low one) counts)) = settled one counts"
  using assms(3) by (induction counts) (auto simp: share_settled(2) [OF assms(1,2)])

text \<open>The three ways to give the remaining slots away.\<close>

lemma m2_distribute_all:
  assumes low: "low = 1 \<or> low = -1" "thr \<le> one" and above: "\<exists>c \<in> set counts. thr < c"
    and d: "settled one counts = length counts" "settled one counts < 2 ^ L"
  shows "\<exists>ps. m2_distribute L counts (map (share thr low one) counts, settled one counts, s) = Some ps \<and> shares_ok counts ps \<and> sum_list (map prob_slots ps) = 2 ^ L"
proof -
  let ?f = "share thr low one"
  define td where "td = 2 ^ L - length counts"
  have ne: "counts \<noteq> []" using above by auto
  note c1 = settled_all [OF d(1)]
  define i where "i = last_max counts"
  have i: "i < length counts" "\<forall>c \<in> set counts. c \<le> counts ! i" using last_max_spec [OF ne] by (simp_all add: i_def)
  have "thr < counts ! i" using above i(2) by (meson less_le_trans)
  then have fi: "map ?f counts ! i = 1" using i(1) share_settled(1) [OF low, of "counts ! i"] c1 by simp
  let ?ps = "(map ?f counts)[i := map ?f counts ! i + int td]"
  have "sum_list (map prob_slots ?ps) = sum_list (map prob_slots (map ?f counts)) + td"
    by (rule sum_slots_update) (use i(1) fi in simp_all)
  also have "\<dots> = 2 ^ L" using slots_settled [OF low] c1 d by (simp add: td_def)
  finally have sum: "sum_list (map prob_slots ?ps) = 2 ^ L" .
  have "shares_ok counts ?ps" unfolding shares_ok_def
  proof (intro conjI allI impI)
    fix j assume j: "j < length counts"
    then have "0 < counts ! j" "counts ! j \<le> one" using c1 by simp_all
    then show "if counts ! j = 0 then ?ps ! j = 0 else ?ps ! j = -1 \<or> 1 \<le> ?ps ! j"
      using j fi i(1) share_settled(1) [OF low] low(1) by (cases "j = i") auto
  qed simp
  moreover have "m2_distribute L counts (map ?f counts, settled one counts, s) = Some ?ps"
    using d unfolding m2_distribute_def Let_def d(1) prod.case td_def [symmetric] i_def [symmetric] by simp
  ultimately show ?thesis using sum by blast
qed

lemma m2_distribute_none:
  assumes low: "low = 1 \<or> low = -1" "thr \<le> one" and above: "\<exists>c \<in> set counts. thr < c"
    and d: "settled one counts \<noteq> length counts" "settled one counts < 2 ^ L" "unsettled one counts = 0"
  shows "\<exists>ps. m2_distribute L counts (map (share thr low one) counts, settled one counts, 0) = Some ps \<and> shares_ok counts ps \<and> sum_list (map prob_slots ps) = 2 ^ L"
proof -
  let ?f = "share thr low one"
  define td where "td = 2 ^ L - settled one counts"
  note c1 = unsettled_none [OF d(3)]
  obtain c where c: "c \<in> set counts" "thr < c" using above by blast
  then obtain j where j: "j < length counts" "counts ! j = c" by (auto simp: in_set_conv_nth)
  have "0 < map ?f counts ! j" using j c c1 share_settled(1) [OF low, of c] by auto
  then have "\<exists>i < length (map ?f counts). 0 < map ?f counts ! i" using j(1) by (intro exI [of _ j]) simp
  moreover have "map ?f counts \<noteq> []" "0 < length (map ?f counts)" using j(1) by auto
  ultimately obtain ps where ps: "round_robin (map ?f counts) td 0 = Some ps" "grown (map ?f counts) ps"
      "sum_list (map prob_slots ps) = sum_list (map prob_slots (map ?f counts)) + td"
    using round_robin_spec by blast
  have "sum_list (map prob_slots ps) = 2 ^ L" using ps(3) slots_settled [OF low c1] d(2) by (simp add: td_def)
  moreover have "shares_ok counts ps" unfolding shares_ok_def
  proof (intro conjI allI impI)
    fix i assume i: "i < length counts"
    have "counts ! i \<le> one" using c1 i by simp
    then show "if counts ! i = 0 then ps ! i = 0 else ps ! i = -1 \<or> 1 \<le> ps ! i"
      using ps(2) i share_settled(1) [OF low, of "counts ! i"] low(1) by (auto simp: grown_def split: if_splits)
  qed (use ps(2) in \<open>simp add: grown_def\<close>)
  moreover have "m2_distribute L counts (map ?f counts, settled one counts, 0) = Some ps"
    using d ps(1) unfolding m2_distribute_def Let_def prod.case td_def [symmetric] by simp
  ultimately show ?thesis by blast
qed

text \<open>In the proportional cut the running sum comes out exactly, and every count that is left is worth a slot.\<close>

lemma proportional_steps:
  fixes T td v c one :: nat
  assumes v: "1 \<le> v" and T: "0 < T" "T < 2 ^ (v - 1)" "T < td * Suc one"
  defines "mid \<equiv> 2 ^ (v - 1) - 1" and "r \<equiv> (2 ^ v * td + (2 ^ (v - 1) - 1)) div T"
  shows "one < c \<Longrightarrow> 2 ^ v \<le> c * r" "(mid + T * r) div 2 ^ v = td" "mid div 2 ^ v = 0"
proof -
  have v2: "(2 :: nat) ^ v = 2 * 2 ^ (v - 1)" using v by (cases v) simp_all
  have mid: "mid + 1 = 2 ^ (v - 1)" "T \<le> mid" "2 * mid + 2 = 2 ^ v" using T(2) by (simp_all add: mid_def v2)
  have rT: "T * r \<le> 2 ^ v * td + mid" "2 ^ v * td + mid < T * r + T"
    using div_times_less_eq_dividend [of "2 ^ v * td + mid" T] dividend_less_div_times [OF T(1), of "2 ^ v * td + mid"] by (simp_all add: r_def mid_def mult.commute)
  show "2 ^ v \<le> c * r" if "one < c"
  proof -
    have "T < td * Suc one" by (rule T(3))
    also have "\<dots> \<le> td * c" using that by (intro mult_le_mono2) simp
    finally have "T \<le> td * c" by simp
    then have "2 ^ v * T \<le> 2 ^ v * (td * c)" by (rule mult_le_mono2)
    also have "\<dots> = c * (2 ^ v * td)" by simp
    also have "\<dots> \<le> c * (T * r)" using rT(2) mid(2) by (intro mult_le_mono2) linarith
    finally have "T * 2 ^ v \<le> T * (c * r)" by (simp add: mult.commute mult.left_commute)
    then show ?thesis using T(1) by (simp add: nat_mult_le_cancel_disj)
  qed
  show "(mid + T * r) div 2 ^ v = td"
  proof (rule div_nat_eqI)
    show "2 ^ v * td \<le> mid + T * r" using rT(2) mid(2) by linarith
    show "mid + T * r < 2 ^ v * Suc td" using rT(1) mid(3) by simp
  qed
  show "mid div 2 ^ v = 0" using mid(3) by simp
qed

lemma m2_distribute_rest:
  assumes L: "L \<le> 12" and low: "low = 1 \<or> low = -1" "thr \<le> one"
    and d: "settled one counts \<noteq> length counts" "settled one counts < 2 ^ L" "0 < unsettled one counts"
      "unsettled one counts < (2 ^ L - settled one counts) * Suc one" "unsettled one counts \<le> 2 ^ 25"
  shows "\<exists>ps. m2_distribute L counts (map (share thr low one) counts, settled one counts, unsettled one counts) = Some ps \<and> shares_ok counts ps \<and> sum_list (map prob_slots ps) = 2 ^ L"
proof -
  let ?f = "share thr low one"
  define T td v where "T = unsettled one counts" and "td = 2 ^ L - settled one counts" and "v = 62 - L"
  define mid r where "mid = (2 :: nat) ^ (v - 1) - 1" and "r = (2 ^ v * td + (2 ^ (v - 1) - 1)) div T"
  have lowN: "low \<noteq> NOT_YET_ASSIGNED" using low(1) by (auto simp: NOT_YET_ASSIGNED_def)
  have v: "1 \<le> v" "49 \<le> v - 1" using L by (simp_all add: v_def)
  have "(2 :: nat) ^ 49 \<le> 2 ^ (v - 1)" using v(2) by (intro power_increasing) simp_all
  then have T: "0 < T" "T < 2 ^ (v - 1)" "T < td * Suc one" using d by (simp_all add: T_def td_def)
  note st = proportional_steps [OF v(1) T, folded mid_def r_def]
  obtain ws where ws: "m2_proportional v r (map ?f counts) counts mid = Some ws" "length ws = length counts"
      "\<forall>i < length counts. if ?f (counts ! i) = NOT_YET_ASSIGNED then 1 \<le> ws ! i else ws ! i = ?f (counts ! i)"
      "sum_list (map prob_slots ws) + mid div 2 ^ v = settled one counts + (mid + T * r) div 2 ^ v"
    using m2_proportional_spec [of counts one v r low thr mid] st(1) lowN low by (auto simp: T_def)
  have sum: "sum_list (map prob_slots ws) = 2 ^ L" using ws(4) st(2,3) d(2) by (simp add: td_def)
  have "shares_ok counts ws" unfolding shares_ok_def
  proof (intro conjI allI impI)
    fix i assume i: "i < length counts"
    show "if counts ! i = 0 then ws ! i = 0 else ws ! i = -1 \<or> 1 \<le> ws ! i"
    proof (cases "?f (counts ! i) = NOT_YET_ASSIGNED")
      case True
      then have "0 < counts ! i" using share_open [OF lowN] by simp
      moreover have "1 \<le> ws ! i" using ws(3) i True by simp
      ultimately show ?thesis by simp
    next
      case False
      then have "ws ! i = ?f (counts ! i)" using ws(3) i by simp
      moreover have "counts ! i \<le> one" using share_open [OF lowN, of thr one "counts ! i"] False low(2) by (cases "counts ! i \<le> one") auto
      ultimately show ?thesis using share_settled(1) [OF low, of "counts ! i"] low(1) by (auto split: if_splits)
    qed
  qed (rule ws(2))
  moreover have "m2_distribute L counts (map ?f counts, settled one counts, T) = Some ws"
    using d(1,2) T(1) ws(1) [unfolded r_def mid_def] unfolding m2_distribute_def Let_def prod.case td_def [symmetric] v_def [symmetric] by simp
  ultimately show ?thesis using sum by (auto simp: T_def)
qed

lemma m2_distribute_fills:
  assumes "L \<le> 12" "low = 1 \<or> low = -1" "thr \<le> one" "\<exists>c \<in> set counts. thr < c" "settled one counts < 2 ^ L"
    "unsettled one counts < (2 ^ L - settled one counts) * Suc one" "unsettled one counts \<le> 2 ^ 25"
  shows "\<exists>ps. m2_distribute L counts (map (share thr low one) counts, settled one counts, unsettled one counts) = Some ps \<and> shares_ok counts ps \<and> sum_list (map prob_slots ps) = 2 ^ L"
  using m2_distribute_all [OF assms(2-4) _ assms(5)] m2_distribute_none [OF assms(2-4) _ assms(5)] m2_distribute_rest [OF assms(1-3) _ assms(5) _ assms(6,7)]
  by (cases "settled one counts = length counts"; cases "unsettled one counts = 0") auto

text \<open>The passes together.\<close>

lemma normalize_m2_fills:
  assumes h: "histogram_fits L counts" and low: "low = 1 \<or> low = -1"
  shows "\<exists>ps. normalize_m2 L counts (sum_list counts) low = Some ps \<and> shares_ok counts ps \<and> sum_list (map prob_slots ps) = 2 ^ L"
proof -
  define T H where "T = sum_list counts" and "H = (2 :: nat) ^ L"
  define thr o0 where "thr = T div H" and "o0 = T * 3 div (2 * H)"
  have H: "0 < H" "drop_bit L T = thr" "drop_bit (L + 1) (T * 3) = o0" by (simp_all add: H_def thr_def o0_def drop_bit_eq_div)
  have fits: "0 < T" "T \<le> 2 ^ 25" "L \<le> 12" "T < H \<or> 2 * length counts \<le> H" using h by (simp_all add: histogram_fits_def T_def H_def)
  have "T * 2 div (H * 2) \<le> T * 3 div (H * 2)" by (intro div_le_mono) simp
  then have to: "thr \<le> o0" by (simp add: thr_def o0_def mult.commute)
  have above: "\<exists>c \<in> set counts. thr < c" using exists_above [OF h] by (simp add: thr_def T_def H_def)
  have room: "settled one counts < H" for one
    using settled_bounds [of one counts] fits(1,4) H(1) unfolding T_def [symmetric] by (cases "T < H") linarith+
  have le25: "unsettled one counts \<le> 2 ^ 25" for one using settled_bounds(2) [of one counts] fits(2) by (simp add: T_def)
  have lowN: "low \<noteq> NOT_YET_ASSIGNED" using low by (auto simp: NOT_YET_ASSIGNED_def)
  define d0 s0 td0 where "d0 = settled o0 counts" and "s0 = unsettled o0 counts" and "td0 = H - d0"
  have td0: "0 < td0" "d0 + td0 = H" using room [of o0] by (simp_all add: td0_def d0_def)
  have first: "m2_assign thr o0 low counts 0 T = (map (share thr low o0) counts, d0, s0)"
    using m2_assign_spec [OF to, of low counts 0 0] by (simp add: T_def d0_def s0_def)
  have m2: "normalize_m2 L counts T low = m2_distribute L counts (if s0 div td0 > o0
      then m2_assign_ones (s0 * 3 div (td0 * 2)) (map (share thr low o0) counts) counts d0 s0 else (map (share thr low o0) counts, d0, s0))"
    using td0 unfolding normalize_m2_def Let_def H_def [symmetric] H(2,3) first prod.case td0_def [symmetric] by simp
  show ?thesis unfolding T_def [symmetric] m2
  proof (cases "s0 div td0 > o0")
    case False
    then have "s0 < td0 * Suc o0" using td0(1) by (simp add: not_less div_less_iff_less_mult flip: less_Suc_eq_le) (simp add: mult.commute)
    then show "\<exists>ps. m2_distribute L counts (if s0 div td0 > o0 then m2_assign_ones (s0 * 3 div (td0 * 2)) (map (share thr low o0) counts) counts d0 s0
        else (map (share thr low o0) counts, d0, s0)) = Some ps \<and> shares_ok counts ps \<and> sum_list (map prob_slots ps) = 2 ^ L"
      using m2_distribute_fills [OF fits(3) low to above] room [of o0] le25 [of o0] False unfolding H_def [symmetric] d0_def [symmetric] td0_def [symmetric] s0_def [symmetric] by simp
  next
    case True
    define o1 where "o1 = s0 * 3 div (td0 * 2)"
    define s1 d1 where "s1 = unsettled o1 counts" and "d1 = settled o1 counts"
    define td1 where "td1 = H - d1"
    have "s0 * 2 div (td0 * 2) \<le> o1" unfolding o1_def by (intro div_le_mono) simp
    then have o01: "o0 \<le> o1" using True by simp
    have TH: "\<not> T < H"
    proof
      assume "T < H"
      then have "s0 < td0" using settled_bounds(2) [of o0 counts] td0 by (simp add: d0_def s0_def T_def)
      then show False using True by simp
    qed
    note dr = unsettled_drop [OF o01, of counts, folded s1_def s0_def d1_def d0_def]
    have td1: "td1 \<le> td0" "H \<le> 2 * td1" "0 < td1" "td0 - td1 = d1 - d0"
      using room [of o1] settled_bounds(1) [of o1 counts] fits(4) TH dr(2) by (auto simp: td1_def td0_def d1_def)
    have "s1 < td1 * Suc o1"
    proof (rule slot_inequality)
      show "s1 + (td0 - td1) * Suc o0 \<le> s0" using dr(1) unfolding td1(4) .
      show "3 * T < 2 * H * Suc o0" using dividend_less_div_times [of "2 * H" "T * 3"] H(1) by (simp add: o0_def mult.commute)
      show "3 * s0 < 2 * td0 * Suc o1" using dividend_less_div_times [of "td0 * 2" "s0 * 3"] td0(1) by (simp add: o1_def mult.commute)
      show "s0 \<le> T" using settled_bounds(2) [of o0 counts] by (simp add: s0_def T_def)
      show "td0 \<le> H" using td0 by simp
    qed (use td1 in auto)
    moreover have to1: "thr \<le> o1" using to o01 by simp
    moreover have second: "m2_assign_ones (s0 * 3 div (td0 * 2)) (map (share thr low o0) counts) counts d0 s0 = (map (share thr low o1) counts, d1, s1)"
      using m2_assign_ones_spec [OF to o01 lowN, of counts d0 0] dr(2) by (simp add: o1_def [symmetric] s0_def [symmetric] s1_def d0_def [symmetric] d1_def [symmetric])
    ultimately show "\<exists>ps. m2_distribute L counts (if s0 div td0 > o0 then m2_assign_ones (s0 * 3 div (td0 * 2)) (map (share thr low o0) counts) counts d0 s0
        else (map (share thr low o0) counts, d0, s0)) = Some ps \<and> shares_ok counts ps \<and> sum_list (map prob_slots ps) = 2 ^ L"
      using m2_distribute_fills [OF fits(3) low to1 above] room [of o1] le25 [of o1] True
      unfolding H_def [symmetric] d1_def [symmetric] td1_def [symmetric] s1_def [symmetric] by simp
  qed
qed

section \<open>Normalising fills the table\<close>

definition first_share :: "nat \<Rightarrow> nat \<Rightarrow> int \<Rightarrow> nat \<Rightarrow> int" where
  "first_share L T low c = (if c = 0 then 0 else if c \<le> T div 2 ^ L then low else int (scaled_probability L T c))"

lemma scaled_positive:
  assumes "0 < c" "0 < T" "T \<le> 2 ^ 25"
  shows "1 \<le> scaled_probability L T c"
proof (cases "drop_bit (62 - L) (c * (2 ^ 62 div T)) = 0")
  case True
  have "1 \<le> (2 :: nat) ^ 62 div T" using assms(2,3) by (simp add: less_eq_div_iff_mult_less_eq)
  then have "0 < c * (2 ^ 62 div T)" using assms(1) by simp
  then show ?thesis using True by (simp add: scaled_probability_def RTB_TABLE_def)
next
  case False
  then show ?thesis by (simp add: scaled_probability_def Let_def)
qed

text \<open>What the loop returns: the shares, the rest, and a symbol with a share of at least one.\<close>

lemma normalize_loop_spec:
  assumes "normalize_loop L T low counts symbol still largest lp = (ps, still', largest')" "low = 1 \<or> low = -1" "0 \<le> lp"
  shows "ps = map (first_share L T low) counts \<and> still' = still - int (sum_list (map prob_slots ps))
     \<and> (largest' = largest \<and> (\<forall>c \<in> set counts. T div 2 ^ L < c \<longrightarrow> int (scaled_probability L T c) \<le> lp)
        \<or> (\<exists>i < length counts. largest' = symbol + i \<and> lp < ps ! i))"
  using assms
proof (induction counts arbitrary: symbol still largest lp ps still' largest')
  case (Cons c counts)
  define g where "g = first_share L T low c"
  define big where "big = (c \<noteq> 0 \<and> T div 2 ^ L < c \<and> lp < g)"
  have slots: "prob_slots (int n) = n" "prob_slots low = 1" for n using Cons.prems(2) by (auto simp: prob_slots_def)
  have step: "normalize_loop L T low (c # counts) symbol still largest lp =
      (case normalize_loop L T low counts (Suc symbol) (still - int (prob_slots g)) (if big then symbol else largest) (if big then g else lp) of (qs, s, l) \<Rightarrow> (g # qs, s, l))"
    using slots by (cases "c = 0"; cases "c \<le> T div 2 ^ L"; cases "lp < int (scaled_probability L T c)")
      (simp_all add: g_def first_share_def big_def drop_bit_eq_div Let_def prob_slots_simps)
  obtain qs where q: "normalize_loop L T low counts (Suc symbol) (still - int (prob_slots g)) (if big then symbol else largest) (if big then g else lp) = (qs, still', largest')" "ps = g # qs"
    using Cons.prems(1) unfolding step by (auto split: prod.splits)
  have lp: "0 \<le> (if big then g else lp)" using Cons.prems(3) by (auto simp: big_def)
  note IH = Cons.IH [OF q(1) Cons.prems(2) lp]
  have ps: "ps = map (first_share L T low) (c # counts)" "still' = still - int (sum_list (map prob_slots ps))" using IH q(2) by (simp_all add: g_def)
  from IH consider "largest' = (if big then symbol else largest)" "\<forall>c \<in> set counts. T div 2 ^ L < c \<longrightarrow> int (scaled_probability L T c) \<le> (if big then g else lp)"
    | i where "i < length counts" "largest' = Suc symbol + i" "(if big then g else lp) < qs ! i" by blast
  then show ?case
  proof cases
    case 1
    show ?thesis
    proof (cases big)
      case True
      then have "lp < ps ! 0" "largest' = symbol + 0" using 1 q(2) by (simp_all add: big_def)
      then show ?thesis using ps by (intro conjI disjI2 exI [of _ 0]) auto
    next
      case False
      have "T div 2 ^ L < c \<Longrightarrow> int (scaled_probability L T c) \<le> lp" using False by (auto simp: big_def g_def first_share_def split: if_splits)
      then show ?thesis using 1 False ps by simp
    qed
  next
    case (2 i)
    have "lp < ps ! Suc i" using 2(3) q(2) by (auto simp: big_def split: if_splits)
    then show ?thesis using 2 ps by (intro conjI disjI2 exI [of _ "Suc i"]) auto
  qed
qed simp

lemma normalize_counts_fills:
  assumes h: "histogram_fits L counts"
  shows "\<exists>ps. normalize_counts L counts (sum_list counts) use_low = Some ps \<and> shares_ok counts ps \<and> sum_list (map prob_slots ps) = 2 ^ L"
proof -
  define T low where "T = sum_list counts" and "low = (if use_low then -1 else 1 :: int)"
  have low: "low = 1 \<or> low = -1" by (simp add: low_def)
  have fits: "0 < T" "T \<le> 2 ^ 25" using h by (simp_all add: histogram_fits_def T_def)
  obtain ps still largest where n: "normalize_loop L T low counts 0 (2 ^ L) 0 0 = (ps, still, largest)" by (metis prod_cases3)
  obtain c where c: "c \<in> set counts" "T div 2 ^ L < c" using exists_above [OF h] by (auto simp: T_def)
  have "1 \<le> scaled_probability L T c" using scaled_positive [of c T L] c(2) fits by simp
  then obtain ps: "ps = map (first_share L T low) counts" "still = 2 ^ L - int (sum_list (map prob_slots ps))"
      and lg: "largest < length counts" "0 < ps ! largest"
    using normalize_loop_spec [OF n low] c by fastforce
  show ?thesis
  proof (cases "- still \<ge> ps ! largest div 2")
    case True
    then have "normalize_counts L counts T use_low = normalize_m2 L counts T low" using fits(1) lg(1) ps(1) n by (simp add: normalize_counts_def low_def [symmetric])
    then show ?thesis using normalize_m2_fills [OF h low] by (simp add: T_def)
  next
    case False
    let ?ps = "ps[largest := ps ! largest + still]"
    have r: "normalize_counts L counts T use_low = Some ?ps" using False fits(1) lg(1) ps(1) n by (simp add: normalize_counts_def low_def [symmetric])
    have pos: "1 \<le> ps ! largest + still" using False lg(2) by linarith
    have lp: "largest < length ps" using lg(1) ps(1) by simp
    have xs: "ps = take largest ps @ ps ! largest # drop (Suc largest) ps" using lp by (rule id_take_nth_drop)
    have "int (sum_list (map prob_slots ?ps)) = int (sum_list (map prob_slots ps)) + still"
    proof -
      have "?ps = take largest ps @ (ps ! largest + still) # drop (Suc largest) ps" using lp by (rule upd_conv_take_nth_drop)
      moreover have "sum_list (map prob_slots ps) = sum_list (map prob_slots (take largest ps)) + prob_slots (ps ! largest) + sum_list (map prob_slots (drop (Suc largest) ps))"
        using arg_cong [OF xs, of "\<lambda>ys. sum_list (map prob_slots ys)"] by simp
      moreover have "int (prob_slots (ps ! largest + still)) = int (prob_slots (ps ! largest)) + still" using pos lg(2) by (simp add: prob_slots_def)
      ultimately show ?thesis by simp
    qed
    then have sum: "sum_list (map prob_slots ?ps) = 2 ^ L" unfolding ps(2) by simp
    have "shares_ok counts ?ps" unfolding shares_ok_def
    proof (intro conjI allI impI)
      fix i assume i: "i < length counts"
      have "if counts ! i = 0 then ps ! i = 0 else ps ! i = -1 \<or> 1 \<le> ps ! i"
        using i low scaled_positive [of "counts ! i" T L] fits unfolding ps(1) by (auto simp: first_share_def)
      moreover have "counts ! i \<noteq> 0" if "i = largest" using lg(2) that i unfolding ps(1) by (auto simp: first_share_def split: if_splits)
      ultimately show "if counts ! i = 0 then ?ps ! i = 0 else ?ps ! i = -1 \<or> 1 \<le> ?ps ! i" using i pos ps(1) by (cases "i = largest") auto
    qed (simp add: ps(1))
    then show ?thesis using r sum by (auto simp: T_def)
  qed
qed

section \<open>Building from a histogram\<close>

lemma last_nonzero_split:
  assumes "0 < sum_list counts"
  shows "last_nonzero counts < length counts" "counts = take (Suc (last_nonzero counts)) counts @ replicate (length counts - Suc (last_nonzero counts)) 0"
    "sum_list (take (Suc (last_nonzero counts)) counts) = sum_list counts"
proof -
  let ?d = "dropWhile (\<lambda>c. c = 0) (rev counts)" and ?t = "takeWhile (\<lambda>c. c = 0) (rev counts)"
  have z: "?t = replicate (length ?t) 0" by (rule replicate_eqI) (auto dest: set_takeWhileD)
  have eq: "counts = rev ?d @ rev ?t" by (metis rev_append rev_rev_ident takeWhile_dropWhile_id)
  have "?d \<noteq> []"
  proof
    assume "?d = []"
    then have "counts = replicate (length ?t) 0" using eq z by (metis append_Nil rev.simps(1) rev_replicate)
    then have "sum_list counts = 0" by (metis sum_list_replicate mult_zero_right)
    with assms show False by simp
  qed
  then have n: "Suc (last_nonzero counts) = length ?d" by (simp add: last_nonzero_def)
  have tk: "take (length ?d) counts = rev ?d" by (subst (2) eq) simp
  have len: "length counts = length ?d + length ?t" using arg_cong [OF eq, of length] by simp
  show "last_nonzero counts < length counts" using n len by linarith
  show e: "counts = take (Suc (last_nonzero counts)) counts @ replicate (length counts - Suc (last_nonzero counts)) 0"
    unfolding n tk using eq z len by (metis add_diff_cancel_left' rev_replicate)
  show "sum_list (take (Suc (last_nonzero counts)) counts) = sum_list counts"
    using arg_cong [OF e, of sum_list] by (simp only: sum_list_append sum_list_replicate mult_0_right add_0_right)
qed

text \<open>The chosen table log leaves room for the symbols, and the tables of the format can hold it.\<close>

lemma optimal_table_log_room:
  assumes T: "1 < T" and ms: "ms < 256" and max_log: "max_log \<le> 9"
  defines "L \<equiv> optimal_table_log max_log T ms 2"
  shows "5 \<le> L" "L \<le> 9" "T < 2 ^ L \<or> 2 * Suc ms \<le> 2 ^ L"
proof -
  define sym where "sym = (if ms = 0 then 2 else ilog2 ms + 2)"
  define tl0 where "tl0 = (if ilog2 (T - 1) - 2 < max_log then ilog2 (T - 1) - 2 else max_log)"
  define mb where "mb = min (ilog2 T + 1) sym"
  have L: "L = max 5 (min 12 (if mb > tl0 then mb else tl0))"
    unfolding L_def optimal_table_log_def min_table_log_def Let_def mb_def tl0_def sym_def by (rule refl)
  have "ilog2 ms < 8" if "ms \<noteq> 0" using ilog2_range [of 0 ms 8] that ms by simp
  then have sym9: "sym \<le> 9" unfolding sym_def by (cases "ms = 0") (auto simp: less_Suc_eq_le [of _ 7, symmetric])
  have tl0: "tl0 \<le> 9" using max_log by (simp add: tl0_def)
  show "5 \<le> L" "L \<le> 9" using sym9 tl0 by (auto simp: L mb_def)
  have mbL: "mb \<le> L" using sym9 by (auto simp: L mb_def)
  have pow: "(2 :: nat) ^ mb \<le> 2 ^ L" using mbL by (intro power_increasing) simp_all
  show "T < 2 ^ L \<or> 2 * Suc ms \<le> 2 ^ L"
  proof (cases "ilog2 T + 1 \<le> sym")
    case True
    then have "T < 2 ^ mb" using ilog2_bounds [of T] T by (simp add: mb_def)
    then show ?thesis using pow by linarith
  next
    case False
    then have mb: "mb = sym" by (simp add: mb_def)
    have "2 * Suc ms \<le> 2 ^ sym"
    proof (cases "ms = 0")
      case False
      then have "Suc ms \<le> 2 ^ Suc (ilog2 ms)" using ilog2_bounds [of ms] by (simp add: Suc_leI)
      then show ?thesis using False by (simp add: sym_def)
    qed (simp add: sym_def)
    then show ?thesis using pow unfolding mb by linarith
  qed
qed

lemma shares_ok_range: "shares_ok counts ps \<Longrightarrow> list_all (\<lambda>p. -1 \<le> p) ps"
  unfolding shares_ok_def list_all_length by (auto split: if_splits)

lemma normalized_for_fills:
  assumes T: "1 < sum_list counts" "sum_list counts \<le> 2 ^ 25" and len: "length counts \<le> 256" and max_log: "max_log \<le> 9"
  defines "L \<equiv> optimal_table_log max_log (sum_list counts) (last_nonzero counts) 2"
  shows "\<exists>ps. normalized_for counts L (sum_list counts) low = Some ps \<and> shares_ok counts ps \<and> probs_fill L ps" "5 \<le> L" "L \<le> 9"
proof -
  let ?cs = "take (Suc (last_nonzero counts)) counts" and ?z = "length counts - Suc (last_nonzero counts)"
  have T0: "0 < sum_list counts" using T(1) by simp
  note ln = last_nonzero_split [OF T0]
  note room = optimal_table_log_room [OF T(1) _ max_log, of "last_nonzero counts", folded L_def]
  have ms: "last_nonzero counts < 256" using ln(1) len by simp
  show L: "5 \<le> L" "L \<le> 9" using room(1,2) [OF ms] by simp_all
  have "length ?cs = Suc (last_nonzero counts)" using ln(1) by simp
  then have "histogram_fits L ?cs" using T T0 L room(3) [OF ms] unfolding histogram_fits_def ln(3) by simp
  then obtain ps where ps: "normalize_counts L ?cs (sum_list counts) low = Some ps" "shares_ok ?cs ps" "sum_list (map prob_slots ps) = 2 ^ L"
    using normalize_counts_fills [of L ?cs low] unfolding ln(3) by blast
  let ?ps = "ps @ replicate ?z 0"
  have len: "length ps = Suc (last_nonzero counts)" using ps(2) ln(1) by (simp add: shares_ok_def)
  have "shares_ok counts ?ps" unfolding shares_ok_def
  proof (intro conjI allI impI)
    fix i assume i: "i < length counts"
    show "if counts ! i = 0 then ?ps ! i = 0 else ?ps ! i = -1 \<or> 1 \<le> ?ps ! i"
    proof (cases "i < Suc (last_nonzero counts)")
      case True
      then show ?thesis using ps(2) len ln(1) by (auto simp: shares_ok_def nth_append)
    next
      case False
      then have "counts ! i = 0" by (subst ln(2)) (use i in \<open>simp add: nth_append\<close>)
      then show ?thesis using False i len by (simp add: nth_append)
    qed
  qed (use len ln(1) in simp)
  moreover from this have "probs_fill L ?ps" using shares_ok_range [of counts ?ps] ps(3) \<open>length counts \<le> 256\<close> len ln(1)
    by (simp add: probs_fill_def prob_slots_simps sum_list_replicate)
  ultimately show "\<exists>ps. normalized_for counts L (sum_list counts) low = Some ps \<and> shares_ok counts ps \<and> probs_fill L ps"
    using ps(1) by (simp add: normalized_for_def)
qed

lemma slots_of_shares:
  assumes "shares_ok counts ps" "length counts \<le> 256"
  shows "0 < slots_of ps s \<longleftrightarrow> unat s < length counts \<and> 0 < counts ! unat s"
  using assms(1) by (auto simp: slots_of_def shares_ok_def prob_slots_def split: if_splits)

lemma build_from_counts_built:
  assumes "1 < sum_list counts" "sum_list counts \<le> 2 ^ 25" "length counts \<le> 256" "max_log \<le> 9" "enc_table_inv out"
  defines "L \<equiv> optimal_table_log max_log (sum_list counts) (last_nonzero counts) 2"
  shows "\<exists>ps spread t. normalized_for counts L (sum_list counts) low = Some ps \<and> shares_ok counts ps \<and> probs_fill L ps
     \<and> build_table_from_counts_into counts max_log low out = Some t \<and> enc_built L ps spread t
     \<and> map_option fst (spread_symbols ps (2 ^ L)) = Some spread"
proof -
  obtain ps where ps: "normalized_for counts L (sum_list counts) low = Some ps" "shares_ok counts ps" "probs_fill L ps"
    using normalized_for_fills(1) [OF assms(1-4)] by (auto simp: L_def)
  have L: "5 \<le> L" "L \<le> 9" using normalized_for_fills(2,3) [OF assms(1-4)] by (simp_all add: L_def)
  have "(2 :: nat) ^ L \<le> 2 ^ 9" using L(2) by (intro power_increasing) simp_all
  then obtain spread where sp: "map_option fst (spread_symbols ps (2 ^ L)) = Some spread"
    using spread_symbols_spec [OF ps(3)] L(1) by fastforce
  obtain t where "build_table_from_probabilities_into ps L out = Some t" "enc_built L ps spread t"
    using build_table_built [OF ps(3) _ L(2) assms(5) sp] L(1) by auto
  moreover from this have "build_table_from_counts_into counts max_log low out = Some t"
    using assms(1,3) ps(1) by (simp add: build_table_from_counts_into_def Let_def L_def [symmetric])
  ultimately show ?thesis using ps sp by blast
qed

section \<open>Properties\<close>

text \<open>
  C6. Every histogram gives an encoding table. For at most 256 counts of at least two and at most \<open>2 ^ 25\<close> samples and a largest log
  of at most 9, which is the most the encoding table has room for, at the table log that the code derives
  from them, both methods of normalisation return, without a panic or a loop that does not end: every symbol that occurs gets
  a probability of minus one or at least one, no other symbol gets one, and together they fill the table exactly. The table is then built over any
  table left from an earlier block, and every symbol that occurs has a first state and, from each state, a transition inside of the table.
\<close>

theorem fse_table_from_any_histogram:
  assumes "1 < sum_list counts" "sum_list counts \<le> 2 ^ 25" "length counts \<le> 256" "max_log \<le> 9" "enc_table_inv out"
  defines "L \<equiv> optimal_table_log max_log (sum_list counts) (last_nonzero counts) 2"
  shows "\<exists>ps t. normalized_for counts L (sum_list counts) low = Some ps \<and> shares_ok counts ps \<and> sum_list (map prob_slots ps) = 2 ^ L
     \<and> build_table_from_counts_into counts max_log low out = Some t \<and> enc_table_inv t \<and> en_table_size t = 2 ^ L
     \<and> (\<forall>s. unat s < length counts \<and> 0 < counts ! unat s \<longrightarrow>
          (\<exists>st. start_state t s = Some st \<and> es_index st < 2 ^ L)
        \<and> (\<forall>x < 2 ^ L. \<exists>st. next_state t s x = Some st \<and> es_index st < 2 ^ L))"
proof -
  obtain ps spread t where b: "normalized_for counts L (sum_list counts) low = Some ps" "shares_ok counts ps" "probs_fill L ps"
      "build_table_from_counts_into counts max_log low out = Some t" "enc_built L ps spread t"
    using build_from_counts_built [OF assms(1-5), of low, folded L_def] by blast
  have "(\<exists>st. start_state t s = Some st \<and> es_index st < 2 ^ L) \<and> (\<forall>x < 2 ^ L. \<exists>st. next_state t s x = Some st \<and> es_index st < 2 ^ L)"
    if "unat s < length counts \<and> 0 < counts ! unat s" for s
  proof -
    have s: "0 < slots_of ps s" using slots_of_shares [OF b(2) assms(3)] that by simp
    have "\<exists>st. next_state t s x = Some st \<and> es_index st < 2 ^ L" if "x < 2 ^ L" for x using next_state_ok [OF b(5) s that] by auto
    then show ?thesis using start_state_ok [OF b(5) s] by auto
  qed
  then show ?thesis using b by (intro exI [of _ ps] exI [of _ t]) (simp add: probs_fill_def enc_built_def)
qed

theorem fse_table_from_any_histogram_witness:
  "\<exists>ps t. normalized_for [9, 0, 1, 4] (optimal_table_log 6 14 3 2) 14 False = Some ps \<and> shares_ok [9, 0, 1, 4] ps
     \<and> build_table_from_counts_into [9, 0, 1, 4] 6 False enc_table_blank = Some t
     \<and> (\<forall>x < 2 ^ optimal_table_log 6 14 3 2. \<exists>st. next_state t 2 x = Some st)"
proof -
  have inv: "enc_table_inv enc_table_blank" by (simp add: enc_table_inv_def enc_table_blank_def MAX_FSE_TABLE_SIZE_def)
  have ln: "last_nonzero [9, 0, 1, 4] = 3" by (simp add: last_nonzero_def)
  have s: "sum_list [9, 0, 1, 4 :: nat] = 14" by simp
  have "1 < sum_list [9, 0, 1, 4 :: nat]" "sum_list [9, 0, 1, 4 :: nat] \<le> 2 ^ 25" "length [9, 0, 1, 4 :: nat] \<le> 256" "6 \<le> (9 :: nat)" by simp_all
  from fse_table_from_any_histogram [OF this inv, of False, unfolded ln s]
  obtain ps t where pt: "normalized_for [9, 0, 1, 4] (optimal_table_log 6 14 3 2) 14 False = Some ps" "shares_ok [9, 0, 1, 4] ps"
      "build_table_from_counts_into [9, 0, 1, 4] 6 False enc_table_blank = Some t"
      "\<forall>s. unat s < length [9, 0, 1, 4 :: nat] \<and> 0 < [9, 0, 1, 4 :: nat] ! unat s \<longrightarrow>
        (\<exists>st. start_state t s = Some st \<and> es_index st < 2 ^ optimal_table_log 6 14 3 2)
        \<and> (\<forall>x < 2 ^ optimal_table_log 6 14 3 2. \<exists>st. next_state t s x = Some st \<and> es_index st < 2 ^ optimal_table_log 6 14 3 2)"
    by blast
  moreover have "\<forall>x < 2 ^ optimal_table_log 6 14 3 2. \<exists>st. next_state t 2 x = Some st" using spec [OF pt(4), of 2] by auto
  ultimately show ?thesis by blast
qed

text \<open>
  C7. A table description is read back. For every distribution that fills its table, written at any byte position, the description is as long as
  the size that the table selection computes for it without writing, and the decoder, given at least one byte behind it, as the bit stream behind a table
  in a block is, reads the same accuracy log and probabilities (without the zeros behind the last symbol) and consumes exactly the description.
\<close>

theorem fse_description_roundtrip:
  assumes "probs_fill k ps" "5 \<le> k" "k \<le> 16" "k \<le> max_log" "rest \<noteq> []" "length (strip_zeros ps) \<le> unat (ft_max_symbol t) + 1"
  shows "\<exists>w hdr. write_ncount ps k (bit_writer_from pre) = Some w \<and> dump w = Some (pre @ hdr) \<and> ncount_header_bits ps k = Some (8 * length hdr)
     \<and> read_probabilities (hdr @ rest) max_log t = (t\<lparr>ft_accuracy_log := k, ft_symbol_probabilities := strip_zeros ps\<rparr>, Ok (length hdr))"
proof -
  have fill: "list_all (\<lambda>p. -1 \<le> p) ps" "sum_list (map prob_slots ps) = 2 ^ k" using assms(1) by (simp_all add: probs_fill_def)
  obtain w hdr where w: "write_ncount ps k (bit_writer_from pre) = Some w" "bw_inv w" "bw_bits w = bits_of (pre @ hdr)" and d: "describes ps k hdr"
    using write_ncount_describes [OF fill assms(2,3), of "bit_writer_from pre" pre] bw_inv_from by auto
  have "8 dvd bw_index w" using bw_index_length [OF w(2)] w(3) by simp
  then have "8 dvd bw_bits_in_partial w" using w(2) by (metis bw_index_def bw_inv_def dvd_add_right_iff dvd_triv_left)
  then have "dump w = Some (pre @ hdr)" using dump_bits [OF w(2)] w(3) bits_of_inject by metis
  then show ?thesis using w(1) d read_described [OF fill assms(2-4) d assms(5,6)] by (auto simp: describes_def)
qed

theorem fse_description_roundtrip_witness:
  "\<exists>w hdr. write_ncount [20, 0, 0, 0, 0, -1, 11, 0] 5 (bit_writer_from [7]) = Some w \<and> dump w = Some ([7] @ hdr)
     \<and> ncount_header_bits [20, 0, 0, 0, 0, -1, 11, 0] 5 = Some (8 * length hdr)
     \<and> read_probabilities (hdr @ [1]) 6 (fse_table_new 64 255 :: entry fse_table)
        = ((fse_table_new 64 255)\<lparr>ft_accuracy_log := 5, ft_symbol_probabilities := strip_zeros [20, 0, 0, 0, 0, -1, 11, 0]\<rparr>, Ok (length hdr))"
  by (rule fse_description_roundtrip) (simp_all add: probs_fill_def prob_slots_def fse_table_new_def)

text \<open>
  Without a byte behind it a description can be refused: the decoder asks for the long form of the last field before it sees that the short
  one was written.
\<close>

lemma description_alone_refused:
  "(case write_ncount [1, 30, -1] 5 (bit_writer_from []) of Some w \<Rightarrow> dump w | None \<Rightarrow> None) = Some [0x20, 0x3E]"
  "snd (read_probabilities [0x20, 0x3E] 5 (fse_table_new 64 255 :: entry fse_table)) = Err (FseGetBitsError (NotEnoughRemainingBits 2 1))"
  by code_simp+

end
