(* ===== verification/Huff_Table.thy ===== *)
theory Huff_Table
  imports Fse_Decoder
begin

text \<open>
  The Huffman decoding table of \<^verbatim>\<open>zstd/src/huff0/huff0_decoder.rs\<close>: from the weights of the symbols to their code
  lengths, and from these to the lookup table, filled one code length at a time after a counting sort. Weights, lengths and
  counters are natural numbers; the places where the source would underflow or shift too far are panics here. The lookup
  entries are the packed 16-bit words of the source, and the spare capacity the fill writes into holds \<open>None\<close> until it is
  written. The result is compared with the table read off the canonical code: the symbols by descending length, each with as
  many entries as its length leaves free bits.
\<close>

section \<open>The table\<close>

definition MAX_MAX_NUM_BITS :: nat where
  "MAX_MAX_NUM_BITS = 12"

record huffman_table =
  ht_packed_decode :: "u16 list"
  ht_weights :: "nat list"
  ht_max_num_bits :: nat
  ht_state_mask :: u64
  ht_bits :: "nat list"
  ht_bit_ranks :: "nat list"
  ht_weight_sum :: nat
  ht_weight_rank_count :: "nat list"
  ht_last_weight :: nat
  ht_fse_table :: "entry fse_table"

datatype huffman_table_error =
    HufFSEDecoderError fse_decoder_error
  | HufFSETableError fse_table_error
  | SourceIsEmpty
  | NotEnoughBytesForWeights (nw_got: nat) (nw_expected: nat)
  | HufExtraPadding (hep_skipped: nat)
  | TooManyWeights (tmw_got: nat)
  | MissingWeights
  | LeftoverIsNotAPowerOf2 (lo_got: nat)
  | NotEnoughBytesToDecompressWeights (nd_have: nat) (nd_need: nat)
  | FSETableUsedTooManyBytes (tb_used: nat) (tb_available: nat)
  | NotEnoughBytesInSource (ns_got: nat) (ns_need: nat)
  | WeightBiggerThanMaxNumBits (wb_got: nat)
  | MaxBitsTooHigh (mb_got: nat)

definition no_ranks :: "nat list" where
  "no_ranks = replicate (MAX_MAX_NUM_BITS + 1) 0"

definition huffman_table_new :: huffman_table where
  "huffman_table_new =
     \<lparr>ht_packed_decode = [], ht_weights = [], ht_max_num_bits = 0, ht_state_mask = 0, ht_bits = [], ht_bit_ranks = no_ranks,
      ht_weight_sum = 0, ht_weight_rank_count = no_ranks, ht_last_weight = 0, ht_fse_table = fse_table_new 64 255\<rparr>"

definition huffman_reset :: "huffman_table \<Rightarrow> huffman_table" where
  "huffman_reset t =
     t\<lparr>ht_packed_decode := [], ht_weights := [], ht_max_num_bits := 0, ht_state_mask := 0, ht_bits := [], ht_bit_ranks := no_ranks,
       ht_weight_sum := 0, ht_weight_rank_count := no_ranks, ht_last_weight := 0, ht_fse_table := fse_reset (ht_fse_table t)\<rparr>"

definition huffman_reinit_from :: "huffman_table \<Rightarrow> huffman_table \<Rightarrow> huffman_table" where
  "huffman_reinit_from t other =
     (huffman_reset t)\<lparr>ht_packed_decode := ht_packed_decode other, ht_max_num_bits := ht_max_num_bits other,
       ht_state_mask := ht_state_mask other\<rparr>"

section \<open>Code lengths\<close>

definition is_power_of_two :: "nat \<Rightarrow> bool" where
  "is_power_of_two n \<longleftrightarrow> n > 0 \<and> 2 ^ ilog2 n = n"

text \<open>
  The code length of a weight; a weight above \<open>max_bits + 1\<close> would underflow. The table keeps \<open>max_num_bits\<close> and the mask also
  when the lengths are refused as too long.
\<close>

definition length_of_weight :: "nat \<Rightarrow> nat \<Rightarrow> nat" where
  "length_of_weight max_bits w = (if w > 0 then max_bits + 1 - w else 0)"

definition compute_huffman_bits :: "huffman_table \<Rightarrow> huffman_table \<times> (nat, huffman_table_error) result" where
  "compute_huffman_bits t =
     (let t = t\<lparr>ht_bits := replicate (length (ht_weights t) + 1) 0\<rparr>; weight_sum = ht_weight_sum t in
      if weight_sum = 0 then (t, Err MissingWeights)
      else case highest_bit_set weight_sum of None \<Rightarrow> (t, Panic) | Some max_bits \<Rightarrow>
        if max_bits \<ge> 32 then (t, Panic)
        else let left_over = 2 ^ max_bits - weight_sum in
          if \<not> is_power_of_two left_over then (t, Err (LeftoverIsNotAPowerOf2 left_over))
          else case highest_bit_set left_over of None \<Rightarrow> (t, Panic) | Some last_weight \<Rightarrow>
            let t = t\<lparr>ht_last_weight := last_weight\<rparr> in
            if list_ex (\<lambda>w. w > max_bits + 1) (ht_weights t @ [last_weight]) then (t, Panic)
            else let t = t\<lparr>ht_bits := map (length_of_weight max_bits) (ht_weights t) @ [max_bits + 1 - last_weight],
                           ht_max_num_bits := max_bits, ht_state_mask := push_bit max_bits 1 - 1\<rparr> in
              if max_bits > MAX_MAX_NUM_BITS then (t, Err (MaxBitsTooHigh max_bits)) else (t, Ok max_bits))"

section \<open>The lookup table\<close>

text \<open>The histogram of the code lengths, from the histogram of the weights.\<close>

definition derive_bit_ranks :: "nat \<Rightarrow> nat list \<Rightarrow> nat \<Rightarrow> nat list" where
  "derive_bit_ranks max_bits weight_rank_count last_weight =
     (let ranks = no_ranks[0 := weight_rank_count ! 0];
          ranks = fold (\<lambda>w ranks. ranks[max_bits + 1 - w := weight_rank_count ! w]) [1..<Suc max_bits] ranks;
          last_len = max_bits + 1 - last_weight
      in ranks[last_len := ranks ! last_len + 1])"

definition rank_starts :: "nat \<Rightarrow> nat list \<Rightarrow> nat list" where
  "rank_starts max_bits bit_ranks =
     fold (\<lambda>bits starts. starts[bits - 1 := starts ! bits + bit_ranks ! bits * 2 ^ (max_bits - bits)])
       (rev [1..<Suc max_bits]) (replicate 16 0)"

fun symbol_offsets :: "nat list \<Rightarrow> nat \<Rightarrow> nat list" where
  "symbol_offsets [] acc = []"
| "symbol_offsets (rank # ranks) acc = acc # symbol_offsets ranks (acc + rank)"

text \<open>The counting sort; the write is unchecked in the source, so it has no result outside of the array.\<close>

fun sort_symbols :: "nat list \<Rightarrow> nat \<Rightarrow> nat list \<Rightarrow> u8 list \<Rightarrow> u8 list option" where
  "sort_symbols [] symbol cursor order = Some order"
| "sort_symbols (len # lens) symbol cursor order =
     (let g = len mod 16 in
      Option.bind (store order (cursor ! g) (of_nat symbol))
        (sort_symbols lens (Suc symbol) (cursor[g := cursor ! g + 1])))"

definition pack_entry :: "nat \<Rightarrow> u8 \<Rightarrow> u16" where
  "pack_entry len symbol = of_nat len OR push_bit 8 (ucast symbol)"

definition packed64 :: "u16 \<Rightarrow> u64" where
  "packed64 packed = ucast packed * 0x0001000100010001"

text \<open>An unaligned eight-byte store: four entries.\<close>

definition lanes :: "u64 \<Rightarrow> u16 list" where
  "lanes p64 = map (\<lambda>i. ucast (drop_bit (16 * i) p64)) [0..<4]"

function write_run :: "u64 \<Rightarrow> nat \<Rightarrow> nat \<Rightarrow> nat \<Rightarrow> u16 option list \<Rightarrow> u16 option list option" where
  "write_run p64 u off run_len slots =
     (if off < run_len then
        Option.bind (copy_into slots (u + off) (map Some (lanes p64))) (\<lambda>slots.
        Option.bind (copy_into slots (u + off + 4) (map Some (lanes p64))) (\<lambda>slots.
        Option.bind (copy_into slots (u + off + 8) (map Some (lanes p64))) (\<lambda>slots.
        Option.bind (copy_into slots (u + off + 12) (map Some (lanes p64))) (write_run p64 u (off + 16) run_len))))
      else Some slots)"
  by pat_completeness auto
termination by (relation "measure (\<lambda>(p64, u, off, run_len, slots). run_len - off)") auto

declare write_run.simps [simp del]

definition write_entries :: "nat \<Rightarrow> u16 \<Rightarrow> nat \<Rightarrow> u16 option list \<Rightarrow> u16 option list option" where
  "write_entries run_len packed u slots =
     (if run_len = 1 then copy_into slots u [Some packed]
      else if run_len = 2 then Option.bind (copy_into slots u [Some packed]) (\<lambda>slots. copy_into slots (u + 1) [Some packed])
      else if run_len = 4 then copy_into slots u (map Some (lanes (packed64 packed)))
      else if run_len = 8 then
        Option.bind (copy_into slots u (map Some (lanes (packed64 packed)))) (\<lambda>slots. copy_into slots (u + 4) (map Some (lanes (packed64 packed))))
      else write_run (packed64 packed) u 0 run_len slots)"

fun fill_group :: "nat \<Rightarrow> nat \<Rightarrow> u8 list \<Rightarrow> nat \<Rightarrow> u16 option list \<Rightarrow> u16 option list option" where
  "fill_group len run_len [] u slots = Some slots"
| "fill_group len run_len (symbol # symbols) u slots =
     Option.bind (write_entries run_len (pack_entry len symbol) u slots) (fill_group len run_len symbols (u + run_len))"

text \<open>The unchecked reads of \<open>order\<close> lie in the group's part of it.\<close>

fun fill_lengths ::
  "nat \<Rightarrow> nat list \<Rightarrow> nat list \<Rightarrow> nat list \<Rightarrow> u8 list \<Rightarrow> nat list \<Rightarrow> nat \<Rightarrow> u16 option list \<Rightarrow> (nat \<times> u16 option list) option" where
  "fill_lengths max_bits bit_ranks rank_start sym_off order [] filled slots = Some (filled, slots)"
| "fill_lengths max_bits bit_ranks rank_start sym_off order (len # lens) filled slots =
     (let count = bit_ranks ! len in
      if count = 0 then fill_lengths max_bits bit_ranks rank_start sym_off order lens filled slots
      else
        let run_len = 2 ^ (max_bits - len); grp = sym_off ! len; u = rank_start ! len in
        if u + count * run_len \<le> 2 ^ max_bits \<and> grp + count \<le> length order then
          Option.bind (fill_group len run_len (take count (drop grp order)) u slots)
            (fill_lengths max_bits bit_ranks rank_start sym_off order lens (filled + count * run_len))
        else None)"

definition build_table_from_weights :: "huffman_table \<Rightarrow> huffman_table \<times> (unit, huffman_table_error) result" where
  "build_table_from_weights t =
     (case compute_huffman_bits t of
        (t, Err e) \<Rightarrow> (t, Err e)
      | (t, Panic) \<Rightarrow> (t, Panic)
      | (t, Ok max_bits) \<Rightarrow>
          let t = t\<lparr>ht_bit_ranks := derive_bit_ranks max_bits (ht_weight_rank_count t) (ht_last_weight t)\<rparr>;
              table_size = 2 ^ ht_max_num_bits t;
              rank_start = rank_starts max_bits (ht_bit_ranks t) in
          if rank_start ! 0 \<noteq> table_size then (t, Panic)
          else
            let t = t\<lparr>ht_packed_decode := []\<rparr>;
                sym_off = symbol_offsets (ht_bit_ranks t) 0 @ replicate 3 0 in
            case Option.bind (sort_symbols (ht_bits t) 0 sym_off (replicate 256 0)) (\<lambda>order.
                   fill_lengths max_bits (ht_bit_ranks t) rank_start sym_off order [1..<Suc max_bits] 0 (replicate table_size None)) of
              None \<Rightarrow> (t, Panic)
            | Some (filled, slots) \<Rightarrow>
                if filled \<noteq> table_size \<or> list_ex (\<lambda>s. s = None) slots then (t, Panic)
                else (t\<lparr>ht_packed_decode := map the slots\<rparr>, Ok ()))"

section \<open>The canonical table\<close>

text \<open>The symbols with a code of length \<open>l\<close>, in order, and the table read off the code lengths.\<close>

definition syms :: "nat list \<Rightarrow> nat \<Rightarrow> nat list" where
  "syms L l = filter (\<lambda>s. L ! s = l) [0..<length L]"

definition group_entries :: "nat list \<Rightarrow> nat \<Rightarrow> nat \<Rightarrow> u16 list" where
  "group_entries L M l = concat (map (\<lambda>s. replicate (2 ^ (M - l)) (pack_entry l (of_nat s))) (syms L l))"

definition canonical_table :: "nat list \<Rightarrow> nat \<Rightarrow> u16 list" where
  "canonical_table L M = concat (map (group_entries L M) (rev [1..<Suc M]))"

text \<open>Where the codes of length \<open>l\<close> start: behind those of the longer codes.\<close>

definition first_slot :: "nat list \<Rightarrow> nat \<Rightarrow> nat \<Rightarrow> nat" where
  "first_slot L M l = (\<Sum>k \<in> {l<..M}. length (syms L k) * 2 ^ (M - k))"

text \<open>A complete code: every length is at most \<open>M\<close> and the codes cover all \<open>M\<close>-bit words.\<close>

definition complete_code :: "nat list \<Rightarrow> nat \<Rightarrow> bool" where
  "complete_code L M \<longleftrightarrow> (\<forall>l \<in> set L. l \<le> M) \<and> 0 < M \<and> first_slot L M 0 = 2 ^ M"

lemma first_slot_step: "\<lbrakk>0 < l; l \<le> M\<rbrakk> \<Longrightarrow> first_slot L M (l - 1) = length (syms L l) * 2 ^ (M - l) + first_slot L M l"
proof -
  assume l: "0 < l" "l \<le> M"
  then have "{l - 1<..M} = insert l {l<..M}" by auto
  then show ?thesis by (simp add: first_slot_def)
qed

lemma first_slot_top: "first_slot L M M = 0"
  by (simp add: first_slot_def)

lemma length_group_entries: "length (group_entries L M l) = length (syms L l) * 2 ^ (M - l)"
  by (simp add: group_entries_def length_concat o_def sum_list_triv)

section \<open>Filling\<close>

lemma lane_of_four:
  assumes "a < (65536 :: nat)" "b < 65536" "c < 65536" "d < 65536" "i < 4"
  shows "(a + 65536 * (b + 65536 * (c + 65536 * d))) div 2 ^ (16 * i) mod 65536 = [a, b, c, d] ! i"
proof -
  have i: "i = 0 \<or> i = 1 \<or> i = 2 \<or> i = 3" using assms(5) by linarith
  define z y x where "z = c + 65536 * d" and "y = b + 65536 * z" and "x = a + 65536 * y"
  have dm: "(u + 65536 * v) div 65536 = v" "(u + 65536 * v) mod 65536 = u" if "u < 65536" for u v :: nat using that by simp_all
  have "x div 65536 = y" "x mod 65536 = a" unfolding x_def by (rule dm [OF assms(1)])+
  moreover have "y div 65536 = z" "y mod 65536 = b" unfolding y_def by (rule dm [OF assms(2)])+
  moreover have "z div 65536 = d" "z mod 65536 = c" "d mod 65536 = d" unfolding z_def using dm [OF assms(3)] assms(4) by simp_all
  moreover have "x div 4294967296 = x div 65536 div 65536" "x div 281474976710656 = x div 65536 div 65536 div 65536"
    by (simp_all add: div_mult2_eq [symmetric])
  ultimately have "x div 2 ^ (16 * i) mod 65536 = [a, b, c, d] ! i" using i by (elim disjE) simp_all
  then show ?thesis by (simp add: x_def y_def z_def)
qed

lemma lanes_packed64: "lanes (packed64 p) = replicate 4 p"
proof -
  let ?p = "unat p"
  have p: "?p < 65536" using unsigned_less [of p] by simp
  have "?p * 0x0001000100010001 < 2 ^ 64" using p by simp
  then have w: "unat (packed64 p) = ?p * 0x0001000100010001" by (simp add: packed64_def unat_word_ariths unsigned_ucast_eq take_bit_nat_eq_self)
  have e: "?p * 0x0001000100010001 = ?p + 65536 * (?p + 65536 * (?p + 65536 * ?p))" by simp
  have "ucast (drop_bit (16 * i) (packed64 p)) = p" if "i < 4" for i
  proof -
    have "unat (drop_bit (16 * i) (packed64 p)) = (?p + 65536 * (?p + 65536 * (?p + 65536 * ?p))) div 2 ^ (16 * i)"
      by (simp only: unat_drop_bit_eq w e) (simp only: drop_bit_eq_div)
    also have "\<dots> mod 65536 = [?p, ?p, ?p, ?p] ! i" by (rule lane_of_four [OF p p p p that])
    also have "\<dots> = ?p" using that by (auto simp: numeral_eq_Suc less_Suc_eq)
    finally have "unat (drop_bit (16 * i) (packed64 p)) mod 65536 = ?p" .
    then show ?thesis by (simp add: word_unat_eq_iff unsigned_ucast_eq take_bit_eq_mod)
  qed
  then have "lanes (packed64 p) = map (\<lambda>i. p) [0..<4]" unfolding lanes_def by (intro map_cong refl) simp
  then show ?thesis by (simp add: map_replicate_const)
qed

lemma copy_into_append: "\<lbrakk>n = length pre; length mid = length xs\<rbrakk> \<Longrightarrow> copy_into (pre @ mid @ post) n xs = Some (pre @ xs @ post)"
  by (simp add: copy_into_def)

lemma write_run_spec:
  assumes "run_len = 16 * q" "off = 16 * i" "i \<le> q" "length mid = run_len - off"
  shows "write_run (packed64 p) (length pre) off run_len (pre @ replicate off (Some p) @ mid @ post)
     = Some (pre @ replicate run_len (Some p) @ post)"
  using assms
proof (induction "q - i" arbitrary: i off mid)
  case 0
  then show ?case by (simp add: write_run.simps)
next
  case (Suc n)
  let ?lane = "replicate 4 (Some p)" and ?pre = "pre @ replicate off (Some p)"
  have len: "16 \<le> length mid" "off < run_len" using Suc.prems Suc.hyps(2) by simp_all
  define a b c d rest where "a = take 4 mid" and "b = take 4 (drop 4 mid)" and "c = take 4 (drop 8 mid)" and "d = take 4 (drop 12 mid)" and "rest = drop 16 mid"
  have "drop 4 (drop 4 mid) = drop 8 mid" "drop 4 (drop 8 mid) = drop 12 mid" "drop 4 (drop 12 mid) = drop 16 mid" by simp_all
  then have mid: "mid = a @ b @ c @ d @ rest"
    unfolding a_def b_def c_def d_def rest_def by (metis append_take_drop_id)
  have l4: "length a = 4" "length b = 4" "length c = 4" "length d = 4" using len(1) by (simp_all add: a_def b_def c_def d_def)
  have rest: "length rest = run_len - (off + 16)" using Suc.prems(4) by (simp add: rest_def)
  have s1: "copy_into (pre @ replicate off (Some p) @ mid @ post) (length pre + off) ?lane = Some (?pre @ ?lane @ (b @ c @ d @ rest @ post))"
    using copy_into_append [of "length pre + off" ?pre a ?lane "b @ c @ d @ rest @ post"] l4 by (simp add: mid)
  have s2: "copy_into (?pre @ ?lane @ (b @ c @ d @ rest @ post)) (length pre + off + 4) ?lane = Some (?pre @ ?lane @ ?lane @ (c @ d @ rest @ post))"
    using copy_into_append [of "length pre + off + 4" "?pre @ ?lane" b ?lane "c @ d @ rest @ post"] l4 by simp
  have s3: "copy_into (?pre @ ?lane @ ?lane @ (c @ d @ rest @ post)) (length pre + off + 8) ?lane = Some (?pre @ ?lane @ ?lane @ ?lane @ (d @ rest @ post))"
    using copy_into_append [of "length pre + off + 8" "?pre @ ?lane @ ?lane" c ?lane "d @ rest @ post"] l4 by simp
  have s4: "copy_into (?pre @ ?lane @ ?lane @ ?lane @ (d @ rest @ post)) (length pre + off + 12) ?lane = Some (?pre @ ?lane @ ?lane @ ?lane @ ?lane @ (rest @ post))"
    using copy_into_append [of "length pre + off + 12" "?pre @ ?lane @ ?lane @ ?lane" d ?lane "rest @ post"] l4 by simp
  have "?lane @ ?lane @ ?lane @ ?lane = replicate 16 (Some p)" by (simp add: replicate_add [symmetric])
  then have glue: "pre @ replicate off (Some p) @ ?lane @ ?lane @ ?lane @ ?lane @ rest @ post = pre @ replicate (off + 16) (Some p) @ rest @ post"
    by (simp add: replicate_add)
  have "write_run (packed64 p) (length pre) off run_len (pre @ replicate off (Some p) @ mid @ post)
      = write_run (packed64 p) (length pre) (off + 16) run_len (pre @ replicate (off + 16) (Some p) @ rest @ post)"
    using len(2) s1 s2 s3 s4 by (subst write_run.simps) (simp add: lanes_packed64 glue)
  also have "\<dots> = Some (pre @ replicate run_len (Some p) @ post)"
    using Suc.hyps(1) [of "Suc i" "off + 16" rest] Suc.hyps(2) Suc.prems rest by simp
  finally show ?case .
qed

lemma power_classes: "2 ^ k = (1 :: nat) \<or> 2 ^ k = (2 :: nat) \<or> 2 ^ k = (4 :: nat) \<or> 2 ^ k = (8 :: nat) \<or> (\<exists>q > 0. 2 ^ k = 16 * (q :: nat))"
proof -
  consider "k = 0" | "k = 1" | "k = 2" | "k = 3" | "4 \<le> k" by linarith
  then show ?thesis
  proof cases
    case 5
    then have "(2 :: nat) ^ k = 16 * 2 ^ (k - 4)" using power_add [of "2 :: nat" 4 "k - 4"] by simp
    then show ?thesis by (metis zero_less_numeral zero_less_power)
  qed simp_all
qed

lemma write_entries_spec:
  assumes len: "length mid = 2 ^ k" and u: "u = length pre"
  shows "write_entries (2 ^ k) p u (pre @ mid @ post) = Some (pre @ replicate (2 ^ k) (Some p) @ post)"
proof -
  have halves: "\<exists>a b. mid = a @ b \<and> length a = n \<and> length b = n" if "length mid = 2 * n" for n
    by (rule exI [of _ "take n mid"], rule exI [of _ "drop n mid"]) (simp add: that)
  have two: "Option.bind (copy_into (pre @ mid @ post) u xs) (\<lambda>slots. copy_into slots (u + length xs) xs) = Some (pre @ xs @ xs @ post)"
    if len: "length mid = 2 * length xs" for xs
  proof -
    obtain a b where ab: "mid = a @ b" "length a = length xs" "length b = length xs" using halves [OF len] by blast
    have "copy_into (pre @ mid @ post) u xs = Some (pre @ xs @ b @ post)" using copy_into_append [of u pre a xs "b @ post"] ab u by simp
    moreover have "copy_into ((pre @ xs) @ b @ post) (u + length xs) xs = Some ((pre @ xs) @ xs @ post)"
      using copy_into_append [of "u + length xs" "pre @ xs" b xs post] ab u by simp
    ultimately show ?thesis by simp
  qed
  have one: "copy_into (pre @ mid @ post) u xs = Some (pre @ xs @ post)" if "length mid = length xs" for xs
    using copy_into_append [of u pre mid xs post] that u by simp
  have r2: "replicate 2 x = [x] @ [x]" and r8: "replicate 8 x = replicate 4 x @ replicate 4 x" for x :: "u16 option"
    by (simp_all add: numeral_eq_Suc)
  have lane: "map Some (lanes (packed64 p)) = replicate 4 (Some p)" by (simp add: lanes_packed64)
  show ?thesis using power_classes [of k]
  proof (elim disjE exE conjE)
    assume "2 ^ k = (1 :: nat)"
    then show ?thesis using one [of "[Some p]"] len by (simp add: write_entries_def)
  next
    assume "2 ^ k = (2 :: nat)"
    then show ?thesis using two [of "[Some p]"] len by (simp add: write_entries_def r2)
  next
    assume "2 ^ k = (4 :: nat)"
    then show ?thesis using one [of "replicate 4 (Some p)"] len by (simp add: write_entries_def lane)
  next
    assume "2 ^ k = (8 :: nat)"
    then show ?thesis using two [of "replicate 4 (Some p)"] len by (simp add: write_entries_def lane r8)
  next
    fix q assume "0 < q" "2 ^ k = 16 * (q :: nat)"
    then show ?thesis using write_run_spec [of "2 ^ k" q 0 0 mid p pre post] len u by (simp add: write_entries_def)
  qed
qed

lemma fill_group_spec:
  assumes "length mid = length symbols * 2 ^ k" "u = length pre"
  shows "fill_group len (2 ^ k) symbols u (pre @ mid @ post)
     = Some (pre @ map Some (concat (map (\<lambda>s. replicate (2 ^ k) (pack_entry len s)) symbols)) @ post)"
  using assms
proof (induction symbols arbitrary: u pre mid)
  case (Cons s symbols)
  let ?e = "replicate (2 ^ k) (Some (pack_entry len s))"
  have "write_entries (2 ^ k) (pack_entry len s) u (pre @ take (2 ^ k) mid @ (drop (2 ^ k) mid @ post)) = Some (pre @ ?e @ (drop (2 ^ k) mid @ post))"
    using Cons.prems by (intro write_entries_spec) simp_all
  moreover have "pre @ take (2 ^ k) mid @ (drop (2 ^ k) mid @ post) = pre @ mid @ post" by (metis append.assoc append_take_drop_id)
  ultimately have w: "write_entries (2 ^ k) (pack_entry len s) u (pre @ mid @ post) = Some ((pre @ ?e) @ drop (2 ^ k) mid @ post)" by simp
  have "fill_group len (2 ^ k) symbols (u + 2 ^ k) ((pre @ ?e) @ drop (2 ^ k) mid @ post)
      = Some ((pre @ ?e) @ map Some (concat (map (\<lambda>s. replicate (2 ^ k) (pack_entry len s)) symbols)) @ post)"
    using Cons.prems by (intro Cons.IH) simp_all
  then show ?case using w by simp
qed simp

lemma fill_lengths_spec:
  assumes ranks: "\<And>l. \<lbrakk>1 \<le> l; l \<le> M\<rbrakk> \<Longrightarrow> bit_ranks ! l = length (syms L l)"
    and starts: "\<And>l. l \<le> M \<Longrightarrow> rank_start ! l = first_slot L M l"
    and groups: "\<And>l. \<lbrakk>1 \<le> l; l \<le> M\<rbrakk> \<Longrightarrow> sym_off ! l + length (syms L l) \<le> length order
        \<and> take (length (syms L l)) (drop (sym_off ! l) order) = map of_nat (syms L l)"
    and total: "first_slot L M 0 = 2 ^ M"
  shows "\<lbrakk>1 \<le> l; l \<le> Suc M\<rbrakk> \<Longrightarrow> fill_lengths M bit_ranks rank_start sym_off order [l..<Suc M] filled
        (replicate (first_slot L M (l - 1)) None @ map Some (concat (map (group_entries L M) (rev [1..<l]))))
      = Some (filled + first_slot L M (l - 1), map Some (canonical_table L M))"
proof (induction "Suc M - l" arbitrary: l filled)
  case 0
  then have "l = Suc M" by simp
  then show ?case by (simp add: first_slot_top canonical_table_def)
next
  case (Suc n)
  then have l: "1 \<le> l" "l \<le> M" by simp_all
  let ?c = "length (syms L l)" and ?done = "map Some (concat (map (group_entries L M) (rev [1..<l])))"
  have step: "first_slot L M (l - 1) = ?c * 2 ^ (M - l) + first_slot L M l" using first_slot_step [of l M L] l by simp
  have le: "first_slot L M (l - 1) \<le> 2 ^ M"
    unfolding total [symmetric] first_slot_def by (rule sum_mono2) auto
  have IH: "fill_lengths M bit_ranks rank_start sym_off order [Suc l..<Suc M] f
        (replicate (first_slot L M l) None @ map Some (concat (map (group_entries L M) (rev [1..<Suc l]))))
      = Some (f + first_slot L M l, map Some (canonical_table L M))" for f
    using Suc.hyps(1) [of "Suc l" f] Suc.hyps(2) l by simp
  have up: "[l..<Suc M] = l # [Suc l..<Suc M]" using l by (simp add: upt_rec)
  have snoc: "rev [1..<Suc l] = l # rev [1..<l]" using l by simp
  show ?case
  proof (cases "?c = 0")
    case True
    then have "group_entries L M l = []" using length_group_entries [of L M l] by simp
    then show ?thesis using IH [of filled] True ranks l step snoc by (simp add: up del: upt_Suc)
  next
    case False
    have "replicate (first_slot L M (l - 1)) (None :: u16 option) = replicate (first_slot L M l) None @ replicate (?c * 2 ^ (M - l)) None"
      using step by (simp add: replicate_add [symmetric] add.commute)
    moreover have "fill_group l (2 ^ (M - l)) (map of_nat (syms L l)) (first_slot L M l)
         (replicate (first_slot L M l) None @ replicate (?c * 2 ^ (M - l)) None @ ?done)
       = Some (replicate (first_slot L M l) None @ map Some (group_entries L M l) @ ?done)"
      using fill_group_spec [of "replicate (?c * 2 ^ (M - l)) None" "map of_nat (syms L l)" "M - l" "first_slot L M l" "replicate (first_slot L M l) None" l ?done]
      by (simp add: group_entries_def o_def)
    moreover have "first_slot L M l + ?c * 2 ^ (M - l) \<le> 2 ^ M" using le step by simp
    ultimately show ?thesis
      using IH [of "filled + ?c * 2 ^ (M - l)"] False ranks [of l] starts [of l] groups [of l] l step snoc
      by (simp add: up Let_def add.assoc del: upt_Suc)
  qed
qed

section \<open>Sorting\<close>

definition syms_upto :: "nat list \<Rightarrow> nat \<Rightarrow> nat \<Rightarrow> nat list" where
  "syms_upto L k l = filter (\<lambda>s. L ! s = l) [0..<k]"

lemma syms_upto_Suc: "syms_upto L (Suc k) l = (if L ! k = l then syms_upto L k l @ [k] else syms_upto L k l)"
  by (simp add: syms_upto_def)

lemma syms_upto_all: "syms_upto L (length L) l = syms L l"
  by (simp add: syms_upto_def syms_def)

lemma length_syms_upto_mono: "k \<le> m \<Longrightarrow> length (syms_upto L k l) \<le> length (syms_upto L m l)"
proof (induction m rule: dec_induct)
  case (step m)
  then show ?case by (simp add: syms_upto_Suc)
qed simp

definition group_offset :: "nat list \<Rightarrow> nat \<Rightarrow> nat" where
  "group_offset L g = (\<Sum>h < g. length (syms L h))"

lemma group_offset_Suc: "group_offset L (Suc g) = group_offset L g + length (syms L g)"
  by (simp add: group_offset_def)

lemma group_offset_mono: "g \<le> h \<Longrightarrow> group_offset L g \<le> group_offset L h"
  unfolding group_offset_def by (rule sum_mono2) auto

lemma group_offset_all: "(\<forall>l \<in> set L. l < n) \<Longrightarrow> group_offset L n = length L"
proof (induction L)
  case Nil
  then show ?case by (simp add: group_offset_def syms_def)
next
  case (Cons x xs)
  have s: "length (syms (x # xs) h) = (if x = h then 1 else 0) + length (syms xs h)" for h
  proof -
    have "syms (x # xs) h = (if x = h then [0] else []) @ map Suc (syms xs h)"
      by (simp add: syms_def upt_conv_Cons map_Suc_upt [symmetric] filter_map o_def del: upt_Suc)
    then show ?thesis by simp
  qed
  have "(\<Sum>h < n. if x = h then 1 else 0) = (1 :: nat)" using Cons.prems by simp
  then show ?case using Cons by (simp add: group_offset_def s sum.distrib)
qed

text \<open>After \<open>k\<close> symbols the cursor of a length stands behind its symbols so far, and these lie in its part of the array.\<close>

definition sorted_upto :: "nat list \<Rightarrow> nat \<Rightarrow> nat list \<Rightarrow> u8 list \<Rightarrow> bool" where
  "sorted_upto L k cursor order \<longleftrightarrow> length cursor = 16 \<and> length order = 256
     \<and> (\<forall>g < 13. cursor ! g = group_offset L g + length (syms_upto L k g))
     \<and> (\<forall>g < 13. \<forall>i < length (syms_upto L k g). order ! (group_offset L g + i) = of_nat (syms_upto L k g ! i))"

lemma sorted_step:
  assumes inv: "sorted_upto L k cursor order" and k: "k < length L" and L: "\<forall>l \<in> set L. l < 13" "length L \<le> 256"
  defines "g \<equiv> L ! k"
  shows "cursor ! g < 256" "sorted_upto L (Suc k) (cursor[g := cursor ! g + 1]) (order[cursor ! g := of_nat k])"
proof -
  have g: "g < 13" using L(1) k by (simp add: g_def)
  have c: "cursor ! g = group_offset L g + length (syms_upto L k g)" using inv g by (simp add: sorted_upto_def)
  have "length (syms_upto L (Suc k) g) \<le> length (syms L g)" using length_syms_upto_mono [of "Suc k" "length L" L g] k by (simp add: syms_upto_all)
  then have lt: "length (syms_upto L k g) < length (syms L g)" by (simp add: syms_upto_Suc g_def)
  then have end_g: "cursor ! g < group_offset L (Suc g)" by (simp add: c group_offset_Suc)
  also have "\<dots> \<le> group_offset L 13" using g by (intro group_offset_mono) simp
  finally show c256: "cursor ! g < 256" using group_offset_all [OF L(1)] L(2) by simp
  have apart: "group_offset L h + i \<noteq> cursor ! g" if h: "h < 13" "h \<noteq> g" "i < length (syms_upto L k h)" for h i
  proof -
    have "i < length (syms L h)" using h(3) length_syms_upto_mono [of k "length L" L h] k by (simp add: syms_upto_all)
    then have "group_offset L h + i < group_offset L (Suc h)" by (simp add: group_offset_Suc)
    moreover have "group_offset L (Suc h) \<le> cursor ! g" if "h < g" using group_offset_mono [of "Suc h" g L] that c by simp
    moreover have "group_offset L (Suc g) \<le> group_offset L h" if "g < h" using group_offset_mono [of "Suc g" h L] that by simp
    ultimately show ?thesis using h(2) end_g by (cases "h < g") simp_all
  qed
  show "sorted_upto L (Suc k) (cursor[g := cursor ! g + 1]) (order[cursor ! g := of_nat k])"
    unfolding sorted_upto_def
  proof (intro conjI allI impI)
    fix h i assume hi: "h < 13" "i < length (syms_upto L (Suc k) h)"
    show "order[cursor ! g := of_nat k] ! (group_offset L h + i) = of_nat (syms_upto L (Suc k) h ! i)"
    proof (cases "h = g \<and> i = length (syms_upto L k g)")
      case True
      then show ?thesis using c c256 inv by (simp add: syms_upto_Suc g_def sorted_upto_def)
    next
      case False
      then have i: "i < length (syms_upto L k h)" using hi(2) by (auto simp: syms_upto_Suc g_def split: if_splits)
      moreover have "group_offset L h + i \<noteq> cursor ! g" using apart [OF hi(1) _ i] False i c by (cases "h = g") auto
      ultimately show ?thesis using inv hi(1) by (simp add: sorted_upto_def syms_upto_Suc nth_append)
    qed
  qed (use inv g c in \<open>auto simp: sorted_upto_def syms_upto_Suc g_def nth_list_update\<close>)
qed

lemma sort_symbols_spec:
  assumes L: "\<forall>l \<in> set L. l < 13" "length L \<le> 256"
  shows "\<lbrakk>sorted_upto L k cursor order; k \<le> length L\<rbrakk> \<Longrightarrow>
     \<exists>cursor' order'. sort_symbols (drop k L) k cursor order = Some order' \<and> sorted_upto L (length L) cursor' order'"
proof (induction "length L - k" arbitrary: k cursor order)
  case 0
  then show ?case by auto
next
  case (Suc n)
  then have k: "k < length L" by simp
  then have d: "drop k L = L ! k # drop (Suc k) L" by (simp add: Cons_nth_drop_Suc)
  have g: "L ! k < 13" using L(1) k by simp
  note st = sorted_step [OF Suc.prems(1) k L]
  have "length order = 256" using Suc.prems(1) by (simp add: sorted_upto_def)
  then show ?case using Suc.hyps(1) [OF _ st(2)] Suc.hyps(2) k st(1) g by (simp add: d store_def Let_def)
qed

section \<open>Histograms\<close>

lemma length_symbol_offsets [simp]: "length (symbol_offsets ranks acc) = length ranks"
  by (induction ranks arbitrary: acc) simp_all

lemma symbol_offsets_nth: "g < length ranks \<Longrightarrow> symbol_offsets ranks acc ! g = acc + (\<Sum>h < g. ranks ! h)"
proof (induction ranks arbitrary: acc g)
  case (Cons r ranks)
  then show ?case by (cases g) (simp_all add: sum.lessThan_Suc_shift del: sum.lessThan_Suc)
qed simp

lemma rank_starts_nth:
  assumes "\<And>l. \<lbrakk>1 \<le> l; l \<le> M\<rbrakk> \<Longrightarrow> bit_ranks ! l = length (syms L l)" "M < 16" "l \<le> M"
  shows "rank_starts M bit_ranks ! l = first_slot L M l"
proof -
  let ?f = "\<lambda>bits starts. starts[bits - 1 := starts ! bits + bit_ranks ! bits * 2 ^ (M - bits)]"
  have "length (fold ?f (rev [Suc k..<Suc M]) (replicate 16 0)) = 16
      \<and> (\<forall>l. k \<le> l \<and> l \<le> M \<longrightarrow> fold ?f (rev [Suc k..<Suc M]) (replicate 16 0) ! l = first_slot L M l)" if "k \<le> M" for k
    using that
  proof (induction k rule: inc_induct)
    case base
    then show ?case using assms(2) first_slot_top [of L M] by (auto dest: le_antisym)
  next
    case (step k)
    have up: "rev [Suc k..<Suc M] = rev [Suc (Suc k)..<Suc M] @ [Suc k]" using step.hyps by (simp add: upt_conv_Cons)
    let ?s = "fold ?f (rev [Suc (Suc k)..<Suc M]) (replicate 16 0)"
    have "?s ! Suc k + bit_ranks ! Suc k * 2 ^ (M - Suc k) = first_slot L M k"
      using step assms(1) [of "Suc k"] first_slot_step [of "Suc k" M L] by simp
    then show ?case using step assms(2) by (auto simp: up nth_list_update simp del: upt_Suc)
  qed
  from this [of 0] assms(3) show ?thesis by (simp add: rank_starts_def del: upt_Suc)
qed

lemma fold_update_other:
  "\<lbrakk>\<And>w. w \<in> set ws \<Longrightarrow> f w \<noteq> i\<rbrakk> \<Longrightarrow> fold (\<lambda>w xs. xs[f w := g w]) ws xs ! i = xs ! i"
  by (induction ws arbitrary: xs) auto

lemma length_fold_update [simp]: "length (fold (\<lambda>w xs. xs[f w := g w]) ws xs) = length xs"
  by (induction ws arbitrary: xs) auto

lemma fold_update_at:
  assumes "inj_on f (set ws)" "distinct ws" "w \<in> set ws" "f w < length xs"
  shows "fold (\<lambda>w xs. xs[f w := g w]) ws xs ! f w = g w"
  using assms
proof (induction ws arbitrary: xs)
  case (Cons v ws)
  show ?case
  proof (cases "w = v")
    case True
    have "f u \<noteq> f v" if "u \<in> set ws" for u using Cons.prems(1,2) that by (auto simp: inj_on_def)
    then show ?thesis using True Cons.prems(4) by (simp add: fold_update_other)
  next
    case False
    then show ?thesis using Cons.IH [of "xs[f v := g v]"] Cons.prems by (auto simp: inj_on_def)
  qed
qed simp

text \<open>What the weight reader leaves: valid weights and their running statistics.\<close>

definition weight_value :: "nat \<Rightarrow> nat" where
  "weight_value w = (if w > 0 then 2 ^ (w - 1) else 0)"

definition weights_ok :: "huffman_table \<Rightarrow> bool" where
  "weights_ok t \<longleftrightarrow> length (ht_weights t) \<le> 255 \<and> (\<forall>w \<in> set (ht_weights t). w \<le> 12)
     \<and> ht_weight_sum t = sum_list (map weight_value (ht_weights t))
     \<and> length (ht_weight_rank_count t) = 13 \<and> (\<forall>w \<le> 12. ht_weight_rank_count t ! w = length (filter (\<lambda>v. v = w) (ht_weights t)))"

lemma length_syms: "length (syms L l) = length (filter (\<lambda>x. x = l) L)"
proof -
  have "map ((!) L) (syms L l) = filter (\<lambda>x. x = l) (map ((!) L) [0..<length L])" by (simp add: syms_def filter_map o_def)
  then show ?thesis by (metis length_map map_nth)
qed

lemma length_of_weight_eq: "\<lbrakk>w \<le> M; 1 \<le> l; l \<le> M\<rbrakk> \<Longrightarrow> length_of_weight M w = l \<longleftrightarrow> w = M + 1 - l"
  by (auto simp: length_of_weight_def)

lemma derive_bit_ranks_nth:
  assumes M: "1 \<le> M" "M \<le> 12" and W: "\<forall>w \<in> set W. w \<le> M" and last: "1 \<le> lw" "lw \<le> M" and len: "length wrc = 13"
    and counts: "\<forall>w \<le> 12. wrc ! w = length (filter (\<lambda>v. v = w) W)" and l: "l < 13"
  shows "derive_bit_ranks M wrc lw ! l = length (syms (map (length_of_weight M) W @ [M + 1 - lw]) l)" "length (derive_bit_ranks M wrc lw) = 13"
proof -
  let ?r = "fold (\<lambda>w ranks. ranks[M + 1 - w := wrc ! w]) [1..<Suc M] (no_ranks[0 := wrc ! 0])"
  have n: "length no_ranks = 13" by (simp add: no_ranks_def MAX_MAX_NUM_BITS_def)
  then have lr: "length ?r = 13" by simp
  then show "length (derive_bit_ranks M wrc lw) = 13" by (simp add: derive_bit_ranks_def Let_def)
  have inj: "inj_on (\<lambda>w. M + 1 - w) (set [1..<Suc M])" by (auto simp: inj_on_def)
  have at: "?r ! l = length (filter (\<lambda>v. length_of_weight M v = l) W)"
  proof -
    consider "l = 0" | "1 \<le> l" "l \<le> M" | "M < l" by linarith
    then show ?thesis
    proof cases
      case 1
      have "?r ! 0 = no_ranks[0 := wrc ! 0] ! 0" by (rule fold_update_other) auto
      moreover have "length_of_weight M v = 0 \<longleftrightarrow> v = 0" if "v \<in> set W" for v
        using bspec [OF W that] by (auto simp: length_of_weight_def)
      ultimately show ?thesis using 1 counts n by (simp cong: filter_cong)
    next
      case 2
      have "?r ! (M + 1 - (M + 1 - l)) = wrc ! (M + 1 - l)"
        by (rule fold_update_at [OF inj]) (use 2 n l in \<open>auto simp del: upt_Suc\<close>)
      moreover have "length_of_weight M v = l \<longleftrightarrow> v = M + 1 - l" if "v \<in> set W" for v
        using length_of_weight_eq [of v M l] W that 2 by blast
      ultimately show ?thesis using 2 counts M by (simp cong: filter_cong)
    next
      case 3
      have "?r ! l = no_ranks[0 := wrc ! 0] ! l" by (rule fold_update_other) (use 3 in auto)
      moreover have "length_of_weight M v \<noteq> l" for v using 3 by (auto simp: length_of_weight_def)
      ultimately show ?thesis using 3 l by (simp add: no_ranks_def MAX_MAX_NUM_BITS_def nth_list_update)
    qed
  qed
  have "derive_bit_ranks M wrc lw ! l = ?r ! l + (if l = M + 1 - lw then 1 else 0)"
    using lr M last by (auto simp: derive_bit_ranks_def Let_def simp del: upt_Suc)
  then show "derive_bit_ranks M wrc lw ! l = length (syms (map (length_of_weight M) W @ [M + 1 - lw]) l)"
    unfolding at by (auto simp: length_syms filter_map o_def)
qed

section \<open>The code lengths cover the table\<close>

lemma kraft_sum:
  assumes "\<forall>l \<in> set L. l \<le> M"
  shows "first_slot L M 0 = sum_list (map (\<lambda>l. if l = 0 then 0 else 2 ^ (M - l)) L)"
  using assms
proof (induction L)
  case (Cons x xs)
  have "first_slot (x # xs) M 0 = (\<Sum>k \<in> {0<..M}. (if k = x then 2 ^ (M - k) else 0) + length (syms xs k) * 2 ^ (M - k))"
    unfolding first_slot_def by (rule sum.cong) (auto simp: length_syms algebra_simps)
  also have "\<dots> = (\<Sum>k \<in> {0<..M}. if k = x then 2 ^ (M - k) else 0) + first_slot xs M 0"
    by (simp add: sum.distrib first_slot_def)
  also have "(\<Sum>k \<in> {0<..M}. if k = x then 2 ^ (M - k) else 0 :: nat) = (if x = 0 then 0 else 2 ^ (M - x))"
    using Cons.prems by (auto simp: sum.delta)
  finally show ?case using Cons by simp
qed (simp add: first_slot_def syms_def)

lemma weight_length_value: "\<lbrakk>w \<le> M\<rbrakk> \<Longrightarrow> (if length_of_weight M w = 0 then 0 else 2 ^ (M - length_of_weight M w)) = weight_value w"
  by (auto simp: length_of_weight_def weight_value_def)

lemma complete_code_weights:
  assumes "\<forall>w \<in> set W. w \<le> M" "1 \<le> lw" "lw \<le> M" "sum_list (map weight_value W) + 2 ^ (lw - 1) = 2 ^ M"
  shows "complete_code (map (length_of_weight M) W @ [M + 1 - lw]) M"
proof -
  let ?L = "map (length_of_weight M) W @ [M + 1 - lw]"
  have L: "\<forall>l \<in> set ?L. l \<le> M" using assms(2,3) by (auto simp: length_of_weight_def)
  have "sum_list (map (\<lambda>l. if l = 0 then 0 else 2 ^ (M - l)) (map (length_of_weight M) W)) = sum_list (map weight_value W)"
    unfolding map_map o_def by (rule arg_cong [where f = sum_list]) (use assms(1) weight_length_value in \<open>auto intro!: map_cong\<close>)
  moreover have "M - (M + 1 - lw) = lw - 1" using assms(2,3) by simp
  ultimately show ?thesis using kraft_sum [OF L] L assms(2-4) by (simp add: complete_code_def)
qed

lemma sum_list_bound: "(\<forall>x \<in> set xs. f x \<le> b) \<Longrightarrow> sum_list (map f xs) \<le> length xs * (b :: nat)"
  by (induction xs) auto

definition table_error :: "huffman_table_error \<Rightarrow> bool" where
  "table_error e \<longleftrightarrow> e = MissingWeights \<or> (\<exists>n. e = LeftoverIsNotAPowerOf2 n) \<or> (\<exists>n. e = MaxBitsTooHigh n)"

lemma compute_huffman_bits_spec:
  assumes ok: "weights_ok t" and c: "compute_huffman_bits t = (t', r)"
  shows "ht_weight_rank_count t' = ht_weight_rank_count t \<and> ht_weights t' = ht_weights t \<and> (case r of
     Ok M \<Rightarrow> 1 \<le> M \<and> M \<le> 12 \<and> ht_max_num_bits t' = M \<and> ht_state_mask t' = mask M \<and> length (ht_bits t') \<le> 256
         \<and> 1 \<le> ht_last_weight t' \<and> ht_last_weight t' \<le> M \<and> (\<forall>w \<in> set (ht_weights t). w \<le> M)
         \<and> ht_bits t' = map (length_of_weight M) (ht_weights t) @ [M + 1 - ht_last_weight t'] \<and> complete_code (ht_bits t') M
   | Err e \<Rightarrow> table_error e
   | Panic \<Rightarrow> False)"
proof -
  let ?W = "ht_weights t" and ?S = "ht_weight_sum t"
  have w: "length ?W \<le> 255" "\<forall>w \<in> set ?W. w \<le> 12" "?S = sum_list (map weight_value ?W)" using ok by (simp_all add: weights_ok_def)
  show ?thesis
  proof (cases "?S = 0")
    case True
    then show ?thesis using c by (auto simp: compute_huffman_bits_def Let_def table_error_def)
  next
    case False
    define M where "M = Suc (ilog2 ?S)"
    have hb: "highest_bit_set ?S = Some M" using False by (simp add: highest_bit_set_def M_def)
    have b: "2 ^ (M - 1) \<le> ?S" "?S < 2 ^ M" "1 \<le> M" using ilog2_bounds [of ?S] False by (simp_all add: M_def)
    have "\<forall>w \<in> set ?W. weight_value w \<le> 2048"
    proof
      fix v assume "v \<in> set ?W"
      then have "(2 :: nat) ^ (v - 1) \<le> 2 ^ 11" using w(2) by (intro power_increasing) auto
      then show "weight_value v \<le> 2048" by (simp add: weight_value_def)
    qed
    then have "?S \<le> length ?W * 2048" unfolding w(3) by (rule sum_list_bound)
    then have "?S < 2 ^ 20" using w(1) by simp
    then have M32: "M < 32" using ilog2_range [of 0 ?S 20] False by (simp add: M_def)
    define lo where "lo = 2 ^ M - ?S"
    have "(2 :: nat) ^ M = 2 * 2 ^ (M - 1)" using b(3) by (metis Suc_diff_1 less_le_trans less_one power_Suc zero_less_one)
    then have lo: "0 < lo" "lo \<le> 2 ^ (M - 1)" "?S + lo = 2 ^ M" using b by (simp_all add: lo_def)
    have small: "v \<le> M" if "v \<in> set ?W" for v
    proof (rule ccontr)
      assume "\<not> v \<le> M"
      then have v: "M \<le> v - 1" "0 < v" by simp_all
      have "weight_value v \<le> ?S" unfolding w(3) using that by (intro member_le_sum_list) simp_all
      moreover have "(2 :: nat) ^ M \<le> 2 ^ (v - 1)" using v by (intro power_increasing) simp_all
      moreover have "weight_value v = 2 ^ (v - 1)" using v by (simp add: weight_value_def)
      ultimately show False using b(2) by linarith
    qed
    show ?thesis
    proof (cases "is_power_of_two lo")
      case no: False
      then show ?thesis using c False M32 by (auto simp: compute_huffman_bits_def hb Let_def lo_def [symmetric] table_error_def)
    next
      case True
      define lw where "lw = Suc (ilog2 lo)"
      have hl: "highest_bit_set lo = Some lw" using lo(1) by (simp add: highest_bit_set_def lw_def)
      have p: "2 ^ (lw - 1) = lo" "1 \<le> lw" using True by (simp_all add: is_power_of_two_def lw_def)
      then have "(2 :: nat) ^ (lw - 1) \<le> 2 ^ (M - 1)" using lo(2) by simp
      then have "lw - 1 \<le> M - 1" by (simp only: power_increasing_iff one_less_numeral_iff semiring_norm)
      then have lw: "lw \<le> M" using p(2) b(3) by linarith
      have cc: "complete_code (map (length_of_weight M) ?W @ [M + 1 - lw]) M"
        using small lw lo(3) w(3) p by (intro complete_code_weights) simp_all
      have nex: "\<not> list_ex (\<lambda>v. v > M + 1) (?W @ [lw])" using small lw by (fastforce simp: list_ex_iff)
      let ?t1 = "t\<lparr>ht_last_weight := lw, ht_bits := map (length_of_weight M) ?W @ [M + 1 - lw], ht_max_num_bits := M, ht_state_mask := mask M\<rparr>"
      have "compute_huffman_bits t = (?t1, if M > MAX_MAX_NUM_BITS then Err (MaxBitsTooHigh M) else Ok M)"
        using False True M32 nex unfolding compute_huffman_bits_def Let_def
        by (simp add: hb hl lo_def [symmetric] mask_eq_exp_minus_1 del: list_ex_append)
      then show ?thesis using c cc lw p(2) b(3) small w(1) by (auto simp: table_error_def MAX_MAX_NUM_BITS_def)
    qed
  qed
qed

section \<open>The build\<close>

text \<open>A table as the decoder needs it: the canonical one of a complete code.\<close>

definition huffman_table_ok :: "huffman_table \<Rightarrow> bool" where
  "huffman_table_ok t \<longleftrightarrow> (\<exists>L. complete_code L (ht_max_num_bits t) \<and> length L \<le> 256 \<and> ht_max_num_bits t \<le> 12
     \<and> ht_packed_decode t = canonical_table L (ht_max_num_bits t)) \<and> ht_state_mask t = mask (ht_max_num_bits t)"

lemma build_table_spec:
  assumes ok: "weights_ok t" and b: "build_table_from_weights t = (t', r)"
  shows "case r of
     Ok u \<Rightarrow> huffman_table_ok t' \<and> ht_packed_decode t' = canonical_table (ht_bits t') (ht_max_num_bits t') \<and> complete_code (ht_bits t') (ht_max_num_bits t')
         \<and> compute_huffman_bits t = (t'\<lparr>ht_bit_ranks := ht_bit_ranks t, ht_packed_decode := ht_packed_decode t\<rparr>, Ok (ht_max_num_bits t'))
   | Err e \<Rightarrow> compute_huffman_bits t = (t', Err e) \<and> table_error e
   | Panic \<Rightarrow> False"
proof -
  obtain t1 r1 where c: "compute_huffman_bits t = (t1, r1)" by fastforce
  note spec = compute_huffman_bits_spec [OF ok c]
  show ?thesis
  proof (cases r1)
    case (Ok M)
    let ?L = "ht_bits t1" and ?ranks = "derive_bit_ranks M (ht_weight_rank_count t1) (ht_last_weight t1)"
    let ?off = "symbol_offsets ?ranks 0 @ replicate 3 0"
    have f: "1 \<le> M" "M \<le> 12" "ht_max_num_bits t1 = M" "ht_state_mask t1 = mask M" "length ?L \<le> 256" "complete_code ?L M"
        "?L = map (length_of_weight M) (ht_weights t) @ [M + 1 - ht_last_weight t1]" "1 \<le> ht_last_weight t1" "ht_last_weight t1 \<le> M"
        "\<forall>w \<in> set (ht_weights t). w \<le> M" "ht_weight_rank_count t1 = ht_weight_rank_count t"
      using spec unfolding Ok result.case by blast+
    have rk: "?ranks ! l = length (syms ?L l)" "length ?ranks = 13" if "l < 13" for l
      using derive_bit_ranks_nth [OF f(1,2,10,8,9) _ _ that, of "ht_weight_rank_count t1"] ok f(7,11) by (simp_all add: weights_ok_def)
    have rk13: "length ?ranks = 13" using rk(2) [of 0] by simp
    have L13: "\<forall>l \<in> set ?L. l < 13" using f(2,6) by (fastforce simp: complete_code_def)
    have starts: "rank_starts M ?ranks ! l = first_slot ?L M l" if "l \<le> M" for l
      using rank_starts_nth [of M ?ranks ?L l] rk(1) f(2) that by simp
    have off: "?off ! g = group_offset ?L g" if "g < 13" for g
      using that rk(1) rk13 by (simp add: nth_append symbol_offsets_nth group_offset_def)
    have "sorted_upto ?L 0 ?off (replicate 256 0)" using off rk13 by (simp add: sorted_upto_def syms_upto_def)
    from sort_symbols_spec [OF L13 f(5) this] obtain cursor order where order:
        "sort_symbols ?L 0 ?off (replicate 256 0) = Some order" "sorted_upto ?L (length ?L) cursor order" by auto
    have groups: "?off ! l + length (syms ?L l) \<le> length order
        \<and> take (length (syms ?L l)) (drop (?off ! l) order) = map of_nat (syms ?L l)" if "1 \<le> l" "l \<le> M" for l
    proof -
      have l: "l < 13" using that f(2) by simp
      have "group_offset ?L (Suc l) \<le> group_offset ?L 13" using l by (intro group_offset_mono) simp
      then have e: "group_offset ?L l + length (syms ?L l) \<le> 256" using group_offset_all [OF L13] f(5) by (simp add: group_offset_Suc)
      have o: "length order = 256" "\<And>i. i < length (syms ?L l) \<Longrightarrow> order ! (group_offset ?L l + i) = of_nat (syms ?L l ! i)"
        using order(2) l by (simp_all add: sorted_upto_def syms_upto_all)
      have "take (length (syms ?L l)) (drop (?off ! l) order) = map of_nat (syms ?L l)"
        by (rule nth_equalityI) (use off [OF l] e o in auto)
      then show ?thesis using off [OF l] e o by simp
    qed
    have total: "first_slot ?L M 0 = 2 ^ M" using f(6) by (simp add: complete_code_def)
    have "fill_lengths M ?ranks (rank_starts M ?ranks) ?off order [1..<Suc M] 0
        (replicate (first_slot ?L M (1 - 1)) None @ map Some (concat (map (group_entries ?L M) (rev [1..<1]))))
      = Some (0 + first_slot ?L M (1 - 1), map Some (canonical_table ?L M))"
      using rk(1) starts groups total f(1,2) by (intro fill_lengths_spec) simp_all
    then have fill: "fill_lengths M ?ranks (rank_starts M ?ranks) ?off order [1..<Suc M] 0 (replicate (2 ^ M) None) = Some (2 ^ M, map Some (canonical_table ?L M))"
      using total by (simp del: upt_Suc)
    have start0: "rank_starts M ?ranks ! 0 = 2 ^ M" using starts [of 0] total by simp
    have "build_table_from_weights t = (t1\<lparr>ht_bit_ranks := ?ranks, ht_packed_decode := canonical_table ?L M\<rparr>, Ok ())"
      using order(1) fill start0 f(3)
      by (simp add: build_table_from_weights_def c Ok Let_def list_ex_iff o_def del: upt_Suc)
    moreover have "huffman_table_ok (t1\<lparr>ht_bit_ranks := ?ranks, ht_packed_decode := canonical_table ?L M\<rparr>)"
      using f by (auto simp: huffman_table_ok_def)
    moreover have "ht_bit_ranks t1 = ht_bit_ranks t" "ht_packed_decode t1 = ht_packed_decode t"
      using c by (auto simp: compute_huffman_bits_def Let_def split: if_splits option.splits)
    ultimately show ?thesis using b c Ok f by auto
  next
    case (Err e)
    then show ?thesis using b c spec by (auto simp: build_table_from_weights_def)
  next
    case Panic
    then show ?thesis using spec by simp
  qed
qed

end
