(* ===== verification/Huff_Weights.thy ===== *)
theory Huff_Weights
  imports Huff_Table Bit_Streams
begin

text \<open>
  Reading a Huffman table from untrusted bytes (\<^verbatim>\<open>zstd/src/huff0/huff0_decoder.rs\<close>): the weights as nibbles or as two
  interleaved FSE streams, the running statistics, and the table build behind them. The reader of the weight stream uses the
  scalar kernel. An error part-way leaves the weights read so far in the table and its statistics as they were.
\<close>

section \<open>Weights\<close>

text \<open>The weights so far, their sum and the count of each weight.\<close>

type_synonym weight_stats = "nat list \<times> nat \<times> nat list"

fun count_weight :: "nat \<Rightarrow> weight_stats \<Rightarrow> weight_stats" where
  "count_weight w (weights, weight_sum, rank_count) =
     (weights @ [w], (if w > 0 then weight_sum + 2 ^ (w - 1) else weight_sum), rank_count[w := rank_count ! w + 1])"

definition push_weight :: "nat \<Rightarrow> weight_stats \<Rightarrow> weight_stats \<times> (unit, huffman_table_error) result" where
  "push_weight w st = (if w > MAX_MAX_NUM_BITS then (st, Err (WeightBiggerThanMaxNumBits w)) else (count_weight w st, Ok ()))"

definition push_weight_capped :: "nat \<Rightarrow> weight_stats \<Rightarrow> weight_stats \<times> (unit, huffman_table_error) result" where
  "push_weight_capped w st =
     (if w > MAX_MAX_NUM_BITS then (st, Err (WeightBiggerThanMaxNumBits w))
      else if length (fst st) \<ge> 255 then (st, Err (TooManyWeights (length (fst st) + 1)))
      else (count_weight w st, Ok ()))"

fun raw_weights :: "nat \<Rightarrow> u8 list \<Rightarrow> nat \<Rightarrow> weight_stats \<Rightarrow> weight_stats \<times> (unit, huffman_table_error) result" where
  "raw_weights num_weights [] idx st = (st, Ok ())"
| "raw_weights num_weights (byte # bytes) idx st =
     (case push_weight (unat (drop_bit 4 byte)) st of
        (st, Ok _) \<Rightarrow>
          if idx + 1 < num_weights then
            (case push_weight (unat (byte AND 0xF)) st of
               (st, Ok _) \<Rightarrow> raw_weights num_weights bytes (idx + 2) st
             | r \<Rightarrow> r)
          else raw_weights num_weights bytes (idx + 1) st
      | r \<Rightarrow> r)"

definition WEIGHTS_REFILL_BUDGET :: nat where
  "WEIGHTS_REFILL_BUDGET = 12"

text \<open>The two decoders take turns; a full list of weights ends the loop when the bits do not.\<close>

function fse_weights ::
  "bool \<Rightarrow> entry fse_decoder \<Rightarrow> entry fse_decoder \<Rightarrow> bit_reader_rev \<Rightarrow> weight_stats \<Rightarrow> weight_stats \<times> (unit, huffman_table_error) result" where
  "fse_weights on_amd dec1 dec2 br st =
     (case ensure_bits on_amd br WEIGHTS_REFILL_BUDGET of None \<Rightarrow> (st, Panic) | Some br \<Rightarrow>
      case push_weight_capped (unat (decode_symbol dec1)) st of
        (st1, Ok _) \<Rightarrow>
          (case update_state_fast entry_ops scalar_mask_lower_bits dec1 br of None \<Rightarrow> (st1, Panic) | Some (dec1, br) \<Rightarrow>
           if bits_remaining br \<le> -1 then push_weight_capped (unat (decode_symbol dec2)) st1
           else case push_weight_capped (unat (decode_symbol dec2)) st1 of
             (st2, Ok _) \<Rightarrow>
               (case update_state_fast entry_ops scalar_mask_lower_bits dec2 br of None \<Rightarrow> (st2, Panic) | Some (dec2, br) \<Rightarrow>
                if bits_remaining br \<le> -1 then push_weight_capped (unat (decode_symbol dec1)) st2
                else fse_weights on_amd dec1 dec2 br st2)
           | r \<Rightarrow> r)
      | r \<Rightarrow> r)"
  by pat_completeness auto
termination
  by (relation "measure (\<lambda>(on_amd, dec1, dec2, br, st). 255 - length (fst st))")
    (auto simp: push_weight_capped_def split: if_splits)

declare fse_weights.simps [simp del]

definition commit_weights :: "huffman_table \<Rightarrow> weight_stats \<times> (unit, huffman_table_error) result \<Rightarrow> huffman_table \<times> (unit, huffman_table_error) result" where
  "commit_weights t outcome =
     (case outcome of
        ((weights, weight_sum, rank_count), Ok _) \<Rightarrow>
          (t\<lparr>ht_weights := weights, ht_weight_sum := weight_sum, ht_weight_rank_count := rank_count\<rparr>, Ok ())
      | ((weights, weight_sum, rank_count), r) \<Rightarrow> (t\<lparr>ht_weights := weights\<rparr>, r))"

definition read_fse_weights :: "bool \<Rightarrow> huffman_table \<Rightarrow> u8 list \<Rightarrow> nat \<Rightarrow> huffman_table \<times> (nat, huffman_table_error) result" where
  "read_fse_weights on_amd t fse_stream header =
     (if header > length fse_stream then (t, Err (NotEnoughBytesForWeights (length fse_stream) header))
      else case build_decoder entry_ops fse_stream 6 (ht_fse_table t) of
        (ft, Err e) \<Rightarrow> (t\<lparr>ht_fse_table := ft\<rparr>, Err (HufFSETableError e))
      | (ft, Panic) \<Rightarrow> (t\<lparr>ht_fse_table := ft\<rparr>, Panic)
      | (ft, Ok bytes_used_by_fse_header) \<Rightarrow>
          let t = t\<lparr>ht_fse_table := ft\<rparr> in
          if bytes_used_by_fse_header > header then (t, Err (FSETableUsedTooManyBytes bytes_used_by_fse_header header))
          else
            let state0 = \<lparr>e_new_state = 0, e_symbol = 0, e_num_bits = 0\<rparr>;
                dec1 = fse_decoder_new state0 ft; dec2 = fse_decoder_new state0 ft;
                compressed_length = header - bytes_used_by_fse_header;
                compressed_weights = drop bytes_used_by_fse_header fse_stream in
            if length compressed_weights < compressed_length
            then (t, Err (NotEnoughBytesToDecompressWeights (length compressed_weights) compressed_length))
            else
              let compressed_weights = take compressed_length compressed_weights;
                  bits_read = 8 + (bytes_used_by_fse_header + compressed_length) * 8 in
              case skip_padding_loop on_amd scalar_mask_lower_bits (bit_reader_rev_new compressed_weights) 0 of
                None \<Rightarrow> (t, Panic)
              | Some (br, skipped_bits) \<Rightarrow>
                  if skipped_bits > 8 then (t, Err (HufExtraPadding skipped_bits))
                  else case map_err HufFSEDecoderError (init_state on_amd scalar_mask_lower_bits dec1 br) of
                    Err e \<Rightarrow> (t, Err e) | Panic \<Rightarrow> (t, Panic)
                  | Ok (dec1, br) \<Rightarrow>
                      (case map_err HufFSEDecoderError (init_state on_amd scalar_mask_lower_bits dec2 br) of
                         Err e \<Rightarrow> (t, Err e) | Panic \<Rightarrow> (t, Panic)
                       | Ok (dec2, br) \<Rightarrow>
                           (case commit_weights t (fse_weights on_amd dec1 dec2 br ([], 0, no_ranks)) of
                              (t, Ok _) \<Rightarrow> (t, Ok bits_read)
                            | (t, Err e) \<Rightarrow> (t, Err e)
                            | (t, Panic) \<Rightarrow> (t, Panic))))"

definition read_raw_weights :: "huffman_table \<Rightarrow> u8 list \<Rightarrow> nat \<Rightarrow> huffman_table \<times> (nat, huffman_table_error) result" where
  "read_raw_weights t weights_raw header =
     (let num_weights = header - 127; t = t\<lparr>ht_weights := []\<rparr>;
          bytes_needed = (if even num_weights then num_weights div 2 else num_weights div 2 + 1) in
      if length weights_raw < bytes_needed then (t, Err (NotEnoughBytesInSource (length weights_raw) bytes_needed))
      else case commit_weights t (raw_weights num_weights (take bytes_needed weights_raw) 0 ([], 0, no_ranks)) of
          (t, Ok _) \<Rightarrow> (t, Ok (8 + num_weights * 4))
        | (t, Err e) \<Rightarrow> (t, Err e)
        | (t, Panic) \<Rightarrow> (t, Panic))"

definition read_weights :: "bool \<Rightarrow> huffman_table \<Rightarrow> u8 list \<Rightarrow> huffman_table \<times> (nat, huffman_table_error) result" where
  "read_weights on_amd t source =
     (case source of
        [] \<Rightarrow> (t, Err SourceIsEmpty)
      | header # rest \<Rightarrow>
          (case (if unat header \<le> 127 then read_fse_weights on_amd t rest (unat header) else read_raw_weights t rest (unat header)) of
             (t, Ok bits_read) \<Rightarrow> (t, Ok (if bits_read mod 8 = 0 then bits_read div 8 else bits_read div 8 + 1))
           | (t, Err e) \<Rightarrow> (t, Err e)
           | (t, Panic) \<Rightarrow> (t, Panic)))"

definition huffman_build_decoder :: "bool \<Rightarrow> huffman_table \<Rightarrow> u8 list \<Rightarrow> huffman_table \<times> (nat, huffman_table_error) result" where
  "huffman_build_decoder on_amd t source =
     (case read_weights on_amd (t\<lparr>ht_packed_decode := []\<rparr>) source of
        (t, Ok bytes_used) \<Rightarrow>
          (case build_table_from_weights t of
             (t, Ok _) \<Rightarrow> (t, Ok bytes_used)
           | (t, Err e) \<Rightarrow> (t, Err e)
           | (t, Panic) \<Rightarrow> (t, Panic))
      | (t, Err e) \<Rightarrow> (t, Err e)
      | (t, Panic) \<Rightarrow> (t, Panic))"

definition build_weights_only :: "bool \<Rightarrow> huffman_table \<Rightarrow> u8 list \<Rightarrow> huffman_table \<times> (nat, huffman_table_error) result" where
  "build_weights_only on_amd t source =
     (case read_weights on_amd (t\<lparr>ht_packed_decode := []\<rparr>) source of
        (t, Ok bytes_used) \<Rightarrow>
          (case compute_huffman_bits t of
             (t, Ok _) \<Rightarrow> (t, Ok bytes_used)
           | (t, Err e) \<Rightarrow> (t, Err e)
           | (t, Panic) \<Rightarrow> (t, Panic))
      | (t, Err e) \<Rightarrow> (t, Err e)
      | (t, Panic) \<Rightarrow> (t, Panic))"

section \<open>The statistics\<close>

fun stats_ok :: "weight_stats \<Rightarrow> bool" where
  "stats_ok (weights, weight_sum, rank_count) \<longleftrightarrow> (\<forall>w \<in> set weights. w \<le> 12) \<and> weight_sum = sum_list (map weight_value weights)
     \<and> length rank_count = 13 \<and> (\<forall>w \<le> 12. rank_count ! w = length (filter (\<lambda>v. v = w) weights))"

lemma stats_ok_empty: "stats_ok ([], 0, no_ranks)"
  by (simp add: no_ranks_def MAX_MAX_NUM_BITS_def nth_replicate del: replicate.simps)

lemma count_weight_ok: "\<lbrakk>stats_ok st; w \<le> 12\<rbrakk> \<Longrightarrow> stats_ok (count_weight w st) \<and> length (fst (count_weight w st)) = Suc (length (fst st))"
  by (cases st) (auto simp: weight_value_def nth_list_update)

lemma push_weight_ok:
  assumes "stats_ok st" "push_weight w st = (st', r)"
  shows "r \<noteq> Panic \<and> (\<forall>u. r = Ok u \<longrightarrow> stats_ok st' \<and> length (fst st') = Suc (length (fst st)))"
  using assms count_weight_ok [OF assms(1), of w] by (auto simp: push_weight_def MAX_MAX_NUM_BITS_def not_less split: if_splits)

lemma push_weight_capped_ok:
  assumes "stats_ok st" "length (fst st) \<le> 255" "push_weight_capped w st = (st', r)"
  shows "r \<noteq> Panic \<and> length (fst st') \<le> 255 \<and> (\<forall>u. r = Ok u \<longrightarrow> stats_ok st' \<and> length (fst st') = Suc (length (fst st)))"
  using assms count_weight_ok [OF assms(1), of w] by (auto simp: push_weight_capped_def MAX_MAX_NUM_BITS_def not_less split: if_splits)

lemma raw_weights_ok:
  assumes "stats_ok st" "raw_weights n bytes idx st = (st', r)"
  shows "r \<noteq> Panic \<and> (\<forall>u. r = Ok u \<longrightarrow> stats_ok st' \<and> length (fst st') \<le> length (fst st) + 2 * length bytes)"
  using assms
proof (induction n bytes idx st rule: raw_weights.induct)
  case (2 n byte bytes idx st)
  obtain st1 r1 where p1: "push_weight (unat (drop_bit 4 byte)) st = (st1, r1)" by fastforce
  note o1 = push_weight_ok [OF "2.prems"(1) p1]
  obtain st2 r2 where p2: "push_weight (unat (byte AND 0xF)) st1 = (st2, r2)" by fastforce
  show ?case
  proof (cases r1)
    case (Ok u1)
    then have s1: "stats_ok st1" "length (fst st1) = Suc (length (fst st))" using o1 by simp_all
    note o2 = push_weight_ok [OF s1(1) p2]
    show ?thesis
    proof (cases "idx + 1 < n")
      case True
      show ?thesis
      proof (cases r2)
        case (Ok u2)
        then have s2: "stats_ok st2" "length (fst st2) = Suc (length (fst st1))" using o2 by simp_all
        have "raw_weights n bytes (idx + 2) st2 = (st', r)" using "2.prems"(2) p1 p2 \<open>r1 = Ok u1\<close> Ok True by simp
        from "2.IH"(1) [OF p1 [symmetric] \<open>r1 = Ok u1\<close> True p2 [symmetric] Ok s2(1) this] show ?thesis using s1(2) s2(2) by auto
      qed (use "2.prems"(2) p1 p2 Ok True o2 in auto)
    next
      case False
      have "raw_weights n bytes (idx + 1) st1 = (st', r)" using "2.prems"(2) p1 Ok False by simp
      from "2.IH"(2) [OF p1 [symmetric] Ok False s1(1) this] show ?thesis using s1(2) by auto
    qed
  qed (use "2.prems"(2) p1 o1 in auto)
qed auto

lemma fse_weights_ok:
  assumes "decoder_ok entry_ops dec1" "decoder_ok entry_ops dec2" "ft_accuracy_log (fd_table dec1) \<le> 6" "ft_accuracy_log (fd_table dec2) \<le> 6"
    "rev_inv br" "stats_ok st" "length (fst st) \<le> 255" "fse_weights on_amd dec1 dec2 br st = (st', r)"
  shows "r \<noteq> Panic \<and> (\<forall>u. r = Ok u \<longrightarrow> stats_ok st' \<and> length (fst st') \<le> 255)"
  using assms
proof (induction "255 - length (fst st)" arbitrary: dec1 dec2 br st rule: less_induct)
  case less
  note scal = scalar_kernel.cpu_kernel_axioms
  obtain br1 where br1: "ensure_bits on_amd br WEIGHTS_REFILL_BUDGET = Some br1" "rev_inv br1" "rr_bits_consumed br1 + 12 \<le> 64"
    using ensure_bits_ok [OF less.prems(5), of 12 on_amd] by (auto simp: WEIGHTS_REFILL_BUDGET_def)
  obtain st1 r1 where p1: "push_weight_capped (unat (decode_symbol dec1)) st = (st1, r1)" by fastforce
  note o1 = push_weight_capped_ok [OF less.prems(6,7) p1]
  have nb: "unat (fe_num_bits entry_ops (fd_state dec1)) \<le> 6" "unat (fe_num_bits entry_ops (fd_state dec2)) \<le> 6"
    using decoder_ok_entry [OF less.prems(1)] decoder_ok_entry [OF less.prems(2)] less.prems(3,4) by (auto simp: entry_ok_def)
  obtain d1 br2 where u1: "update_state_fast entry_ops scalar_mask_lower_bits dec1 br1 = Some (d1, br2)" "decoder_ok entry_ops d1"
      "fd_table d1 = fd_table dec1" "rev_inv br2" "rr_bits_consumed br2 = rr_bits_consumed br1 + unat (fe_num_bits entry_ops (fd_state dec1))"
    using scalar_kernel.update_state_fast_ok [OF less.prems(1) br1(2)] br1(3) nb(1) by force
  show ?case
  proof (cases r1)
    case (Ok v1)
    then have s1: "stats_ok st1" "length (fst st1) = Suc (length (fst st))" "length (fst st1) \<le> 255" using o1 by simp_all
    obtain st2 r2 where p2: "push_weight_capped (unat (decode_symbol dec2)) st1 = (st2, r2)" by fastforce
    note o2 = push_weight_capped_ok [OF s1(1,3) p2]
    obtain d2 br3 where u2: "update_state_fast entry_ops scalar_mask_lower_bits dec2 br2 = Some (d2, br3)" "decoder_ok entry_ops d2"
        "fd_table d2 = fd_table dec2" "rev_inv br3"
      using scalar_kernel.update_state_fast_ok [OF less.prems(2) u1(4)] br1(3) nb u1(5) by force
    show ?thesis
    proof (cases "bits_remaining br2 \<le> -1")
      case True
      then show ?thesis using less.prems(8) br1(1) p1 Ok u1(1) p2 o2 by (auto simp: fse_weights.simps [of on_amd dec1])
    next
      case False
      show ?thesis
      proof (cases r2)
        case (Ok v2)
        then have s2: "stats_ok st2" "length (fst st2) = Suc (length (fst st1))" "length (fst st2) \<le> 255" using o2 by simp_all
        obtain st3 r3 where p3: "push_weight_capped (unat (decode_symbol d1)) st2 = (st3, r3)" by fastforce
        show ?thesis
        proof (cases "bits_remaining br3 \<le> -1")
          case True
          then show ?thesis
            using less.prems(8) br1(1) p1 \<open>r1 = Ok v1\<close> u1(1) False p2 Ok u2(1) p3 push_weight_capped_ok [OF s2(1,3) p3]
            by (auto simp: fse_weights.simps [of on_amd dec1])
        next
          case more: False
          have "fse_weights on_amd d1 d2 br3 st2 = (st', r)"
            using less.prems(8) br1(1) p1 \<open>r1 = Ok v1\<close> u1(1) False p2 Ok u2(1) more by (simp add: fse_weights.simps [of on_amd dec1])
          from less.hyps [OF _ u1(2) u2(2) _ _ u2(4) s2(1,3) this] show ?thesis using s1 s2 u1(3) u2(3) less.prems(3,4) by simp
        qed
      qed (use less.prems(8) br1(1) p1 Ok u1(1) False p2 o2 in \<open>auto simp: fse_weights.simps [of on_amd dec1]\<close>)
    qed
  qed (use less.prems(8) br1(1) p1 o1 in \<open>auto simp: fse_weights.simps [of on_amd dec1]\<close>)
qed

section \<open>Reading weights\<close>

text \<open>The table between builds: the array of its weight decoder has the 64 slots of its type.\<close>

definition huffman_scratch_ok :: "huffman_table \<Rightarrow> bool" where
  "huffman_scratch_ok t \<longleftrightarrow> length (ft_decode (ht_fse_table t)) = 64"

lemma commit_weights_ok:
  assumes "stats_ok st" "length (fst st) \<le> 255"
  shows "\<exists>t'. commit_weights t (st, Ok u) = (t', Ok ()) \<and> weights_ok t' \<and> ht_fse_table t' = ht_fse_table t \<and> ht_packed_decode t' = ht_packed_decode t"
  using assms by (cases st) (auto simp: commit_weights_def weights_ok_def)

lemma commit_weights_fields: "ht_fse_table (fst (commit_weights t p)) = ht_fse_table t" "ht_packed_decode (fst (commit_weights t p)) = ht_packed_decode t"
  by (auto simp: commit_weights_def split: prod.splits result.splits)

definition weights_result_ok :: "huffman_table \<Rightarrow> nat \<Rightarrow> huffman_table \<times> (nat, huffman_table_error) result \<Rightarrow> bool" where
  "weights_result_ok t len p \<longleftrightarrow> (case p of (t', r) \<Rightarrow> huffman_scratch_ok t' \<and> ht_packed_decode t' = ht_packed_decode t
     \<and> (case r of Ok n \<Rightarrow> weights_ok t' \<and> n \<le> len | Err e \<Rightarrow> True | Panic \<Rightarrow> False))"

lemma read_raw_weights_ok:
  assumes "huffman_scratch_ok t" "128 \<le> header" "header < 256"
  shows "weights_result_ok t (8 * (Suc (length rest))) (read_raw_weights t rest header)"
proof -
  let ?n = "header - 127" and ?t = "t\<lparr>ht_weights := []\<rparr>"
  define need where "need = (if even ?n then ?n div 2 else ?n div 2 + 1)"
  have need: "4 * ?n \<le> 8 * need" "need \<le> 64"
    using assms(2,3) odd_two_times_div_two_succ [of ?n] by (auto simp: need_def elim!: evenE) 
  have eq: "read_raw_weights t rest header =
      (if length rest < need then (?t, Err (NotEnoughBytesInSource (length rest) need))
       else case commit_weights ?t (raw_weights ?n (take need rest) 0 ([], 0, no_ranks)) of
          (t, Ok _) \<Rightarrow> (t, Ok (8 + ?n * 4)) | (t, Err e) \<Rightarrow> (t, Err e) | (t, Panic) \<Rightarrow> (t, Panic))"
    by (simp only: read_raw_weights_def Let_def need_def)
  show ?thesis
  proof (cases "length rest < need")
    case True
    then show ?thesis using assms(1) by (simp add: eq weights_result_ok_def huffman_scratch_ok_def)
  next
    case False
    obtain st r where rw: "raw_weights ?n (take need rest) 0 ([], 0, no_ranks) = (st, r)" by fastforce
    note o = raw_weights_ok [OF stats_ok_empty rw]
    obtain t' r' where c: "commit_weights ?t (st, r) = (t', r')" by fastforce
    have f: "ht_fse_table t' = ht_fse_table t" "ht_packed_decode t' = ht_packed_decode t"
      using commit_weights_fields [of ?t "(st, r)"] c by simp_all
    have "case r' of Ok u \<Rightarrow> weights_ok t' | Err e \<Rightarrow> True | Panic \<Rightarrow> False"
    proof (cases r)
      case (Ok u)
      then have "stats_ok st" "length (fst st) \<le> 255" using o need(2) by auto
      from commit_weights_ok [OF this, of ?t u] c Ok show ?thesis by auto
    qed (use c o in \<open>auto simp: commit_weights_def split: prod.splits\<close>)
    then show ?thesis using False rw c f need assms(1)
      by (auto simp: eq weights_result_ok_def huffman_scratch_ok_def split: result.splits)
  qed
qed

lemma read_fse_weights_ok:
  assumes "huffman_scratch_ok t"
  shows "weights_result_ok t (8 * (Suc (length rest))) (read_fse_weights on_amd t rest header)"
proof (cases "header > length rest")
  case True
  then show ?thesis using assms by (simp add: read_fse_weights_def weights_result_ok_def)
next
  case False
  note scal = scalar_kernel.cpu_kernel_axioms
  have cap: "2 ^ 6 \<le> length (ft_decode (ht_fse_table t))" "length (ft_decode (ht_fse_table t)) \<le> 512" using assms by (simp_all add: huffman_scratch_ok_def)
  obtain ft r where b: "build_decoder entry_ops rest 6 (ht_fse_table t) = (ft, r)" by fastforce
  have bo: "decoder_result_ok entry_ops rest 6 (ft, r)" using huf_entry.build_decoder_ok [OF cap, of rest NoMeta] b by (simp add: build_decoder_def)
  have "length (ft_decode ft) = 64"
    using huf_entry.build_decoder_keeps [OF cap, of rest NoMeta] b assms by (simp add: build_decoder_def huffman_scratch_ok_def)
  then have sc: "huffman_scratch_ok (t\<lparr>ht_fse_table := ft\<rparr>)" by (simp add: huffman_scratch_ok_def)
  let ?t = "t\<lparr>ht_fse_table := ft\<rparr>"
  show ?thesis
  proof (cases r)
    case (Ok used)
    have tok: "table_ok entry_ops ft" "ft_accuracy_log ft \<le> 6" "used \<le> length rest" using bo by (simp_all add: decoder_result_ok_def Ok)
    show ?thesis
    proof (cases "used > header")
      case True
      then show ?thesis using False b Ok sc by (simp add: read_fse_weights_def Let_def weights_result_ok_def)
    next
      case fits: False
      let ?d0 = "fse_decoder_new \<lparr>e_new_state = 0, e_symbol = 0, e_num_bits = 0\<rparr> ft"
      let ?cw = "take (header - used) (drop used rest)"
      have enough: "\<not> length (drop used rest) < header - used" using False fits by simp
      obtain br k where sk: "skip_padding_loop on_amd scalar_mask_lower_bits (bit_reader_rev_new ?cw) 0 = Some (br, k)" "rev_inv br"
        using scalar_kernel.skip_padding_total [OF rev_inv_new] by blast
      have t0: "table_ok entry_ops (fd_table ?d0)" using tok(1) by (simp add: fse_decoder_new_def)
      obtain d1 br1 where i1: "init_state on_amd scalar_mask_lower_bits ?d0 br = Ok (d1, br1)" "decoder_ok entry_ops d1" "fd_table d1 = ft" "rev_inv br1"
        using scalar_kernel.init_state_ok [OF t0 sk(2), of on_amd] by (auto simp: fse_decoder_new_def)
      obtain d2 br2 where i2: "init_state on_amd scalar_mask_lower_bits ?d0 br1 = Ok (d2, br2)" "decoder_ok entry_ops d2" "fd_table d2 = ft" "rev_inv br2"
        using scalar_kernel.init_state_ok [OF t0 i1(4), of on_amd] by (auto simp: fse_decoder_new_def)
      obtain st r1 where fw: "fse_weights on_amd d1 d2 br2 ([], 0, no_ranks) = (st, r1)" by fastforce
      have o: "r1 \<noteq> Panic \<and> (\<forall>u. r1 = Ok u \<longrightarrow> stats_ok st \<and> length (fst st) \<le> 255)"
        using fse_weights_ok [OF i1(2) i2(2) _ _ i2(4) stats_ok_empty _ fw] i1(3) i2(3) tok(2) by simp
      obtain t' r' where c: "commit_weights ?t (st, r1) = (t', r')" by fastforce
      have f: "ht_fse_table t' = ft" "ht_packed_decode t' = ht_packed_decode t"
        using commit_weights_fields [of ?t "(st, r1)"] c by simp_all
      have w: "case r' of Ok u \<Rightarrow> weights_ok t' | Err e \<Rightarrow> True | Panic \<Rightarrow> False"
      proof (cases r1)
        case (Ok u)
        then have "stats_ok st" "length (fst st) \<le> 255" using o by auto
        from commit_weights_ok [OF this, of ?t u] c Ok show ?thesis by auto
      qed (use c o in \<open>auto simp: commit_weights_def split: prod.splits\<close>)
      show ?thesis
      proof (cases "k > 8")
        case True
        then show ?thesis using False fits b Ok sc sk enough by (simp add: read_fse_weights_def Let_def weights_result_ok_def)
      next
        case small: False
        have "read_fse_weights on_amd t rest header = (case (t', r') of
            (t, Ok _) \<Rightarrow> (t, Ok (8 + (used + (header - used)) * 8)) | (t, Err e) \<Rightarrow> (t, Err e) | (t, Panic) \<Rightarrow> (t, Panic))"
          using False fits b Ok sk(1) enough small i1(1) i2(1) fw c
          by (simp add: read_fse_weights_def Let_def)
        then show ?thesis using w f sc fits False
          by (auto simp: weights_result_ok_def huffman_scratch_ok_def split: result.splits)
      qed
    qed
  qed (use False b sc bo in \<open>simp_all add: read_fse_weights_def weights_result_ok_def decoder_result_ok_def\<close>)
qed

lemma read_weights_ok:
  assumes "huffman_scratch_ok t"
  shows "weights_result_ok t (length source) (read_weights on_amd t source)"
proof (cases source)
  case Nil
  then show ?thesis using assms by (simp add: read_weights_def weights_result_ok_def)
next
  case (Cons header rest)
  have "unat header < 256" using byte_less [of header] by simp
  define p where "p = (if unat header \<le> 127 then read_fse_weights on_amd t rest (unat header) else read_raw_weights t rest (unat header))"
  have ok: "weights_result_ok t (8 * Suc (length rest)) p" unfolding p_def
    using read_raw_weights_ok [OF assms, of "unat header" rest] read_fse_weights_ok [OF assms, of rest on_amd "unat header"] \<open>unat header < 256\<close> by simp
  have bytes: "(if n mod 8 = 0 then n div 8 else n div 8 + 1) \<le> Suc m" if "n \<le> 8 * Suc m" for n m :: nat
  proof -
    define d r where "d = n div 8" and "r = n mod 8"
    then have "8 * d + r \<le> 8 * Suc m" using that by simp
    then have "d \<le> Suc m" "r \<noteq> 0 \<longrightarrow> d + 1 \<le> Suc m" by presburger+
    then show ?thesis unfolding d_def r_def by simp
  qed
  have eq: "read_weights on_amd t source = (case p of
      (t, Ok bits_read) \<Rightarrow> (t, Ok (if bits_read mod 8 = 0 then bits_read div 8 else bits_read div 8 + 1))
    | (t, Err e) \<Rightarrow> (t, Err e) | (t, Panic) \<Rightarrow> (t, Panic))"
    unfolding Cons read_weights_def p_def by simp
  obtain t' r where p: "p = (t', r)" by fastforce
  show ?thesis
  proof (cases r)
    case (Ok n)
    then have "n \<le> 8 * Suc (length rest)" using ok p by (simp add: weights_result_ok_def)
    then show ?thesis using ok bytes [of n "length rest"] Ok Cons unfolding eq p by (simp add: weights_result_ok_def)
  qed (use ok in \<open>simp_all add: eq p weights_result_ok_def\<close>)
qed

lemma huffman_build_facts:
  assumes "huffman_scratch_ok t" "huffman_build_decoder on_amd t source = (t', r)"
  shows "huffman_scratch_ok t' \<and> (case r of
      Ok n \<Rightarrow> n \<le> length source \<and> huffman_table_ok t' \<and> complete_code (ht_bits t') (ht_max_num_bits t')
         \<and> ht_packed_decode t' = canonical_table (ht_bits t') (ht_max_num_bits t') \<and> length (ht_bits t') \<le> 256
    | Err e \<Rightarrow> ht_packed_decode t' = []
    | Panic \<Rightarrow> False)
    \<and> snd (build_weights_only on_amd t source) = r"
proof -
  let ?t = "t\<lparr>ht_packed_decode := []\<rparr>"
  have sc: "huffman_scratch_ok ?t" using assms(1) by (simp add: huffman_scratch_ok_def)
  obtain t1 r1 where rw: "read_weights on_amd ?t source = (t1, r1)" by fastforce
  have w: "weights_result_ok ?t (length source) (t1, r1)" using read_weights_ok [OF sc, of source on_amd] rw by simp
  show ?thesis
  proof (cases r1)
    case (Ok n)
    have ok: "weights_ok t1" "n \<le> length source" "huffman_scratch_ok t1" "ht_packed_decode t1 = []" using w by (simp_all add: weights_result_ok_def Ok)
    obtain t2 r2 where b: "build_table_from_weights t1 = (t2, r2)" by fastforce
    obtain t3 r3 where c: "compute_huffman_bits t1 = (t3, r3)" by fastforce
    have fse: "ht_fse_table t3 = ht_fse_table t1" "ht_packed_decode t3 = ht_packed_decode t1"
      using c by (auto simp: compute_huffman_bits_def Let_def split: if_splits option.splits)
    note spec = build_table_spec [OF ok(1) b] and cs = compute_huffman_bits_spec [OF ok(1) c]
    show ?thesis
    proof (cases r2)
      case (Ok u)
      have e: "t3 = t2\<lparr>ht_bit_ranks := ht_bit_ranks t1, ht_packed_decode := ht_packed_decode t1\<rparr>" "r3 = Ok (ht_max_num_bits t2)"
        using spec c by (simp_all add: Ok)
      then have "huffman_scratch_ok t2" "length (ht_bits t2) \<le> 256" using fse(1) ok(1,3) cs by (simp_all add: huffman_scratch_ok_def weights_ok_def)
      moreover have "t' = t2" "r = Ok n" using assms(2) rw \<open>r1 = Ok n\<close> b Ok by (auto simp: huffman_build_decoder_def)
      ultimately show ?thesis using rw \<open>r1 = Ok n\<close> Ok spec ok(2) c e by (simp add: build_weights_only_def)
    next
      case (Err x)
      then have "t3 = t2" "r3 = Err x" using spec c by simp_all
      then show ?thesis using assms(2) rw \<open>r1 = Ok n\<close> b Err ok(3,4) c fse
        by (auto simp: huffman_build_decoder_def build_weights_only_def huffman_scratch_ok_def)
    qed (use spec in simp)
  qed (use assms(2) rw w in \<open>auto simp: huffman_build_decoder_def build_weights_only_def weights_result_ok_def\<close>)
qed

section \<open>Properties\<close>

text \<open>
  C5. Building a Huffman table from untrusted bytes is total and safe. For every input and every earlier state of the table, the build
  returns without a panic and without an unchecked access outside of its arrays; on success the bytes counted are part of the input and
  the lookup table is exactly the canonical one of a complete prefix code of at most 256 symbols and lengths of at most twelve bits; after
  an error the lookup table is empty. The encoder's variant, which builds no lookup table, accepts and refuses the same inputs.
\<close>

theorem huffman_build_total:
  assumes "huffman_scratch_ok t" "huffman_build_decoder on_amd t source = (t', r)"
  shows "huffman_scratch_ok t' \<and> (case r of
      Ok n \<Rightarrow> n \<le> length source \<and> huffman_table_ok t' \<and> complete_code (ht_bits t') (ht_max_num_bits t')
         \<and> ht_packed_decode t' = canonical_table (ht_bits t') (ht_max_num_bits t') \<and> length (ht_bits t') \<le> 256
    | Err e \<Rightarrow> ht_packed_decode t' = []
    | Panic \<Rightarrow> False)
    \<and> snd (build_weights_only on_amd t source) = r"
  by (rule huffman_build_facts [OF assms])

text \<open>Three symbols of weight one, in direct nibbles: the last one is inferred to have weight one as well, so every code has two bits.\<close>

theorem huffman_build_total_witness:
  "\<exists>t'. huffman_build_decoder True huffman_table_new [130, 0x11, 0x10] = (t', Ok 3) \<and> huffman_table_ok t' \<and> ht_bits t' = [2, 2, 2, 2]"
proof -
  let ?b = "huffman_build_decoder True huffman_table_new [130, 0x11, 0x10]"
  have "huffman_scratch_ok huffman_table_new" by (simp add: huffman_scratch_ok_def huffman_table_new_def fse_table_new_def)
  note ok = huffman_build_total [OF this surjective_pairing [of ?b]]
  have "snd ?b = Ok 3" "ht_bits (fst ?b) = [2, 2, 2, 2]" by code_simp+
  then show ?thesis using ok surjective_pairing [of ?b] by (metis result.case(1))
qed

end
