(* ===== verification/Huff_Decoder.thy ===== *)
theory Huff_Decoder
  imports Huff_Weights
begin

text \<open>
  The stepping of a Huffman stream (\<^verbatim>\<open>zstd/src/huff0/huff0_decoder.rs\<close>): the state is the window of \<open>max_num_bits\<close> bits the
  lookup table is indexed with; one step takes the symbol from the table and shifts its code out. The specification has no
  window: it reads the symbols off the bits of the slice, from a position downwards, with zero bits before the front.
\<close>

section \<open>The decoder\<close>

record huffman_decoder =
  hd_table :: huffman_table
  hd_state :: u64

definition huffman_decoder_new :: "huffman_table \<Rightarrow> huffman_decoder" where
  "huffman_decoder_new table = \<lparr>hd_table = table, hd_state = 0\<rparr>"

text \<open>The two bytes of a lookup entry.\<close>

definition entry_num_bits :: "u16 \<Rightarrow> nat" where
  "entry_num_bits packed = unat (ucast packed :: u8)"

definition entry_symbol :: "u16 \<Rightarrow> u8" where
  "entry_symbol packed = ucast (drop_bit 8 packed)"

definition state_entry :: "huffman_decoder \<Rightarrow> u16 option" where
  "state_entry d =
     (let packed_decode = ht_packed_decode (hd_table d) in
      if unat (hd_state d) < length packed_decode then Some (packed_decode ! unat (hd_state d)) else None)"

definition huff_init_state ::
  "bool \<Rightarrow> (u64 \<Rightarrow> nat \<Rightarrow> u64) \<Rightarrow> huffman_decoder \<Rightarrow> bit_reader_rev \<Rightarrow> (nat \<times> huffman_decoder \<times> bit_reader_rev) option" where
  "huff_init_state on_amd mlb d br =
     (let num_bits = ht_max_num_bits (hd_table d) in
      Option.bind (get_bits_rev on_amd mlb br num_bits) (\<lambda>(new_bits, br). Some (num_bits, d\<lparr>hd_state := new_bits\<rparr>, br)))"

definition next_window :: "huffman_decoder \<Rightarrow> nat \<Rightarrow> u64 \<Rightarrow> huffman_decoder" where
  "next_window d num_bits new_bits =
     d\<lparr>hd_state := (push_bit num_bits (hd_state d) AND ht_state_mask (hd_table d)) OR new_bits\<rparr>"

definition huff_decode_symbol :: "huffman_decoder \<Rightarrow> u8 option" where
  "huff_decode_symbol d = map_option entry_symbol (state_entry d)"

definition huff_next_state ::
  "bool \<Rightarrow> (u64 \<Rightarrow> nat \<Rightarrow> u64) \<Rightarrow> huffman_decoder \<Rightarrow> bit_reader_rev \<Rightarrow> (nat \<times> huffman_decoder \<times> bit_reader_rev) option" where
  "huff_next_state on_amd mlb d br =
     Option.bind (state_entry d) (\<lambda>packed.
       let num_bits = entry_num_bits packed in
       Option.bind (get_bits_rev on_amd mlb br num_bits) (\<lambda>(new_bits, br). Some (num_bits, next_window d num_bits new_bits, br)))"

definition decode_symbol_and_advance ::
  "bool \<Rightarrow> (u64 \<Rightarrow> nat \<Rightarrow> u64) \<Rightarrow> huffman_decoder \<Rightarrow> bit_reader_rev \<Rightarrow> (u8 \<times> huffman_decoder \<times> bit_reader_rev) option" where
  "decode_symbol_and_advance on_amd mlb d br =
     Option.bind (state_entry d) (\<lambda>packed.
       let num_bits = entry_num_bits packed in
       Option.bind (get_bits_rev on_amd mlb br num_bits) (\<lambda>(new_bits, br).
         Some (entry_symbol packed, next_window d num_bits new_bits, br)))"

definition decode_symbol_and_advance_no_refill ::
  "(u64 \<Rightarrow> nat \<Rightarrow> u64) \<Rightarrow> huffman_decoder \<Rightarrow> bit_reader_rev \<Rightarrow> (u8 \<times> huffman_decoder \<times> bit_reader_rev) option" where
  "decode_symbol_and_advance_no_refill mlb d br =
     Option.bind (state_entry d) (\<lambda>packed.
       let num_bits = entry_num_bits packed; (new_bits, br) = get_bits_unchecked mlb br num_bits in
       Some (entry_symbol packed, next_window d num_bits new_bits, br))"

section \<open>Symbols off the bits\<close>

definition bits_below :: "u8 list \<Rightarrow> int \<Rightarrow> nat \<Rightarrow> u64" where
  "bits_below source p n = horner_sum of_bool 2 (map (\<lambda>i. zbit source (p - int n + int i)) [0..<n])"

definition entry_at :: "huffman_table \<Rightarrow> u8 list \<Rightarrow> int \<Rightarrow> u16" where
  "entry_at t source p = ht_packed_decode t ! unat (bits_below source p (ht_max_num_bits t))"

fun decode_symbols :: "huffman_table \<Rightarrow> u8 list \<Rightarrow> nat \<Rightarrow> int \<Rightarrow> u8 list \<times> int" where
  "decode_symbols t source 0 p = ([], p)"
| "decode_symbols t source (Suc n) p =
     (let e = entry_at t source p; (ys, q) = decode_symbols t source n (p - int (entry_num_bits e)) in (entry_symbol e # ys, q))"

text \<open>What stepping needs of a table: every window has an entry, and every entry a length from one to the width of the window.\<close>

definition decode_table_ok :: "huffman_table \<Rightarrow> bool" where
  "decode_table_ok t \<longleftrightarrow> 0 < ht_max_num_bits t \<and> ht_max_num_bits t \<le> 12 \<and> length (ht_packed_decode t) = 2 ^ ht_max_num_bits t
     \<and> ht_state_mask t = mask (ht_max_num_bits t) \<and> (\<forall>e \<in> set (ht_packed_decode t). 0 < entry_num_bits e \<and> entry_num_bits e \<le> ht_max_num_bits t)"

lemma rev_field_bits_below: "n \<le> 64 \<Longrightarrow> rev_field source p n (bits_below source p n)"
  by (auto simp: rev_field_def bits_below_def bit_horner_sum_bit_word_iff)

lemma rev_field_eq: "\<lbrakk>rev_field source p n v; n \<le> 64\<rbrakk> \<Longrightarrow> v = bits_below source p n"
  using rev_field_unique rev_field_bits_below by blast

lemma entry_at_mem:
  assumes "decode_table_ok t"
  shows "unat (bits_below source p (ht_max_num_bits t)) < length (ht_packed_decode t)"
    and "0 < entry_num_bits (entry_at t source p)" "entry_num_bits (entry_at t source p) \<le> ht_max_num_bits t"
proof -
  have "unat (bits_below source p (ht_max_num_bits t)) < 2 ^ ht_max_num_bits t"
    using assms by (intro rev_field_less [OF rev_field_bits_below]) (simp add: decode_table_ok_def)
  then show l: "unat (bits_below source p (ht_max_num_bits t)) < length (ht_packed_decode t)" using assms by (simp add: decode_table_ok_def)
  then have "entry_at t source p \<in> set (ht_packed_decode t)" by (simp add: entry_at_def)
  then show "0 < entry_num_bits (entry_at t source p)" "entry_num_bits (entry_at t source p) \<le> ht_max_num_bits t"
    using assms by (simp_all add: decode_table_ok_def)
qed

lemma length_decode_symbols [simp]: "length (fst (decode_symbols t source n p)) = n"
  by (induction n arbitrary: p) (simp_all add: Let_def split_def)

lemma decode_symbols_add:
  "decode_symbols t source (m + n) p =
     (let (xs, q) = decode_symbols t source m p; (ys, q') = decode_symbols t source n q in (xs @ ys, q'))"
  by (induction m arbitrary: p) (simp_all add: Let_def split_def)

lemma decode_symbols_bound:
  assumes "decode_table_ok t"
  shows "snd (decode_symbols t source n p) \<le> p - int n" "p - int (n * ht_max_num_bits t) \<le> snd (decode_symbols t source n p)"
proof (induction n arbitrary: p)
  case (Suc n)
  {
    case 1
    note e = entry_at_mem(2) [OF assms, of source p]
    have "1 \<le> int (entry_num_bits (entry_at t source p))" using e by linarith
    then show ?case using Suc.IH(1) [of "p - int (entry_num_bits (entry_at t source p))"] by (simp add: Let_def split_def)
  next
    case 2
    note e = entry_at_mem(3) [OF assms, of source p]
    then show ?case using Suc.IH(2) [of "p - int (entry_num_bits (entry_at t source p))"] by (simp add: Let_def split_def algebra_simps)
  }
qed simp_all

section \<open>Stepping reads the symbols\<close>

text \<open>The decoder and its reader at position \<open>p\<close>: the window holds the bits below \<open>p\<close>, the reader stands behind them.\<close>

definition stands_at :: "huffman_decoder \<Rightarrow> bit_reader_rev \<Rightarrow> u8 list \<Rightarrow> int \<Rightarrow> bool" where
  "stands_at d br source p \<longleftrightarrow> rev_inv br \<and> rr_source br = source \<and> bits_remaining br = p - int (ht_max_num_bits (hd_table d))
     \<and> hd_state d = bits_below source p (ht_max_num_bits (hd_table d))"

lemma next_window_bits:
  assumes "decode_table_ok (hd_table d)" "hd_state d = bits_below source p M" "M = ht_max_num_bits (hd_table d)" "n \<le> M"
    "new_bits = bits_below source (p - int M) n"
  shows "hd_state (next_window d n new_bits) = bits_below source (p - int n) M"
proof (rule rev_field_eq)
  have M: "M \<le> 12" "ht_state_mask (hd_table d) = mask M" using assms(1,3) by (simp_all add: decode_table_ok_def)
  then show "M \<le> 64" by simp
  have s: "bit (hd_state d) i \<longleftrightarrow> i < M \<and> zbit source (p - int M + int i)" for i
    using rev_field_bits_below [of M source p] M by (simp add: assms(2) rev_field_def)
  have b: "bit new_bits i \<longleftrightarrow> i < n \<and> zbit source (p - int M - int n + int i)" for i
    using rev_field_bits_below [of n source "p - int M"] M assms(4) by (simp add: assms(5) rev_field_def)
  show "rev_field source (p - int n) M (hd_state (next_window d n new_bits))"
    unfolding rev_field_def
  proof
    fix i
    show "bit (hd_state (next_window d n new_bits)) i \<longleftrightarrow> i < M \<and> zbit source (p - int n - int M + int i)"
    proof (cases "i < n")
      case True
      then show ?thesis using assms(4)
        by (simp add: next_window_def bit_or_iff bit_and_iff bit_push_bit_iff b algebra_simps)
    next
      case False
      then show ?thesis using M
        by (auto simp: next_window_def bit_or_iff bit_and_iff bit_push_bit_iff b s bit_mask_iff algebra_simps)
    qed
  qed
qed

lemma stands_at_entry:
  assumes "decode_table_ok (hd_table d)" "stands_at d br source p"
  shows "state_entry d = Some (entry_at (hd_table d) source p)"
  using assms entry_at_mem(1) [OF assms(1), of source p] by (simp add: state_entry_def stands_at_def entry_at_def)

lemma table_next_window [simp]: "hd_table (next_window d n v) = hd_table d"
  by (simp add: next_window_def)

context cpu_kernel
begin

lemma huff_init_state_ok:
  assumes "decode_table_ok t" "rev_inv br"
  shows "\<exists>d br'. huff_init_state on_amd mask_lower_bits (huffman_decoder_new t) br = Some (ht_max_num_bits t, d, br')
     \<and> hd_table d = t \<and> stands_at d br' (rr_source br) (bits_remaining br)"
proof -
  have "ht_max_num_bits t \<le> 56" using assms(1) by (simp add: decode_table_ok_def)
  from get_bits_rev_ok [OF assms(2) this, of on_amd] obtain v br' where
      g: "get_bits_rev on_amd mask_lower_bits br (ht_max_num_bits t) = Some (v, br')" "rev_field (rr_source br) (bits_remaining br) (ht_max_num_bits t) v"
      "rev_inv br'" "bits_remaining br' = bits_remaining br - int (ht_max_num_bits t)" "rr_source br' = rr_source br" by blast
  then have "v = bits_below (rr_source br) (bits_remaining br) (ht_max_num_bits t)"
    using \<open>ht_max_num_bits t \<le> 56\<close> by (intro rev_field_eq) simp_all
  then show ?thesis using g by (simp add: huff_init_state_def huffman_decoder_new_def stands_at_def Let_def)
qed

lemma decode_symbol_and_advance_ok:
  assumes "decode_table_ok (hd_table d)" "stands_at d br source p" "e = entry_at (hd_table d) source p"
  shows "\<exists>d' br'. decode_symbol_and_advance on_amd mask_lower_bits d br = Some (entry_symbol e, d', br')
     \<and> hd_table d' = hd_table d \<and> stands_at d' br' source (p - int (entry_num_bits e))"
proof -
  let ?M = "ht_max_num_bits (hd_table d)" and ?n = "entry_num_bits e"
  have M: "?M \<le> 12" and n: "?n \<le> ?M" using assms(1) entry_at_mem(3) [OF assms(1)] by (simp_all add: decode_table_ok_def assms(3))
  have inv: "rev_inv br" and at: "bits_remaining br = p - int ?M" "rr_source br = source" "hd_state d = bits_below source p ?M"
    using assms(2) by (simp_all add: stands_at_def)
  obtain v br' where g: "get_bits_rev on_amd mask_lower_bits br ?n = Some (v, br')" "rev_field (rr_source br) (bits_remaining br) ?n v"
      "rev_inv br'" "bits_remaining br' = bits_remaining br - int ?n" "rr_source br' = rr_source br"
    using get_bits_rev_ok [OF inv, of ?n on_amd] M n by auto
  have "v = bits_below source (p - int ?M) ?n" using rev_field_eq [OF g(2)] M n at by simp
  from next_window_bits [OF assms(1) at(3) refl n this] show ?thesis
    using stands_at_entry [OF assms(1,2)] g at assms(3)
    by (simp add: decode_symbol_and_advance_def stands_at_def)
qed

lemma decode_symbol_no_refill_ok:
  assumes "decode_table_ok (hd_table d)" "stands_at d br source p" "e = entry_at (hd_table d) source p"
    and fits: "rr_bits_consumed br + ht_max_num_bits (hd_table d) \<le> 64"
  shows "\<exists>d' br'. decode_symbol_and_advance_no_refill mask_lower_bits d br = Some (entry_symbol e, d', br')
     \<and> hd_table d' = hd_table d \<and> stands_at d' br' source (p - int (entry_num_bits e))
     \<and> rr_bits_consumed br' \<le> rr_bits_consumed br + ht_max_num_bits (hd_table d)"
proof -
  let ?M = "ht_max_num_bits (hd_table d)" and ?n = "entry_num_bits e"
  have M: "?M \<le> 12" and n: "?n \<le> ?M" using assms(1) entry_at_mem(3) [OF assms(1)] by (simp_all add: decode_table_ok_def assms(3))
  have inv: "rev_inv br" and at: "bits_remaining br = p - int ?M" "rr_source br = source" "hd_state d = bits_below source p ?M"
    using assms(2) by (simp_all add: stands_at_def)
  obtain v br' where g: "get_bits_unchecked mask_lower_bits br ?n = (v, br')" "rev_field (rr_source br) (bits_remaining br) ?n v"
      "rev_inv br'" "bits_remaining br' = bits_remaining br - int ?n" "rr_source br' = rr_source br" "rr_bits_consumed br' = rr_bits_consumed br + ?n"
    using get_bits_unchecked_ok [OF inv, of ?n] fits n by auto
  have "v = bits_below source (p - int ?M) ?n" using rev_field_eq [OF g(2)] M n at by simp
  from next_window_bits [OF assms(1) at(3) refl n this] show ?thesis
    using stands_at_entry [OF assms(1,2)] g at assms(3) n
    by (simp add: decode_symbol_and_advance_no_refill_def stands_at_def)
qed

end

lemma decode_symbol_and_advance_split:
  "decode_symbol_and_advance on_amd mlb d br =
     Option.bind (huff_decode_symbol d) (\<lambda>symbol. map_option (\<lambda>(_, d, br). (symbol, d, br)) (huff_next_state on_amd mlb d br))"
  by (auto simp: decode_symbol_and_advance_def huff_decode_symbol_def huff_next_state_def Let_def split: Option.bind_splits option.splits)

section \<open>Built tables can be stepped\<close>

lemma entry_num_bits_pack: "l < 256 \<Longrightarrow> entry_num_bits (pack_entry l s) = l"
proof -
  assume l: "l < 256"
  have "ucast (pack_entry l s) = (of_nat l :: u8)"
    by (rule bit_word_eqI) (auto simp: pack_entry_def bit_unsigned_iff bit_or_iff bit_push_bit_iff bit_of_nat_iff)
  then show ?thesis using l by (simp add: entry_num_bits_def unat_of_nat)
qed

lemma entry_symbol_pack: "l < 256 \<Longrightarrow> entry_symbol (pack_entry l s) = s"
proof -
  assume l: "l < 256"
  have "\<not> bit (of_nat l :: u16) (8 + i)" for i
    using l bit_nat_bound [of l "8 + i" 8] by (auto simp: bit_of_nat_iff)
  then show ?thesis
    by (intro bit_word_eqI) (auto simp: entry_symbol_def pack_entry_def bit_unsigned_iff bit_or_iff bit_push_bit_iff bit_drop_bit_eq)
qed

lemma length_longer_groups: "k \<le> M \<Longrightarrow> length (concat (map (group_entries L M) (rev [Suc k..<Suc M]))) = first_slot L M k"
proof (induction "M - k" arbitrary: k)
  case 0
  then show ?case by (simp add: first_slot_top)
next
  case (Suc n)
  then have "k < M" "n = M - Suc k" by simp_all
  then have "[Suc k..<Suc M] = Suc k # [Suc (Suc k)..<Suc M]" by (simp add: upt_rec)
  then show ?case using Suc.hyps(1) [OF \<open>n = M - Suc k\<close>] \<open>k < M\<close> first_slot_step [of "Suc k" M L]
    by (simp add: length_group_entries del: upt_Suc)
qed

lemma length_canonical_table: "length (canonical_table L M) = first_slot L M 0"
  using length_longer_groups [of 0 M L] by (simp add: canonical_table_def del: upt_Suc)

lemma huffman_table_ok_decode: "huffman_table_ok t \<Longrightarrow> decode_table_ok t"
proof -
  assume "huffman_table_ok t"
  then obtain L where L: "complete_code L (ht_max_num_bits t)" "ht_max_num_bits t \<le> 12"
      "ht_packed_decode t = canonical_table L (ht_max_num_bits t)" "ht_state_mask t = mask (ht_max_num_bits t)"
    by (auto simp: huffman_table_ok_def)
  have "0 < entry_num_bits e \<and> entry_num_bits e \<le> ht_max_num_bits t" if e: "e \<in> set (ht_packed_decode t)" for e
  proof -
    from e obtain l s where "1 \<le> l" "l \<le> ht_max_num_bits t" "e = pack_entry l s"
      by (auto simp: L(3) canonical_table_def group_entries_def simp del: upt_Suc)
    then show ?thesis using L(2) by (simp add: entry_num_bits_pack)
  qed
  then show ?thesis using L by (simp add: decode_table_ok_def length_canonical_table complete_code_def)
qed

end
