(* ===== verification/Lit_Burst.thy ===== *)
theory Lit_Burst
  imports Huff_Decoder
begin

text \<open>
  The four-stream burst loop of \<^verbatim>\<open>zstd/src/decoding/literals_section_decoder.rs\<close>. Each stream keeps its window, its unread
  bits and a sentinel bit in one 64-bit register: the sentinel's position counts the bits shifted out since the last load. A
  burst decodes a fixed number of symbols from every stream in turn and then reloads the registers from the slices. The
  output is the reserved room behind the target, where a byte is \<open>None\<close> until it is written. The unchecked accesses have no
  result outside of their arrays.
\<close>

section \<open>The loop\<close>

record loop_bounds =
  lb_symbols_per_burst :: nat
  lb_burst_bits :: nat
  lb_table_shift :: nat
  lb_cursor_burst_ceil :: nat
  lb_burst_eligible :: bool
  lb_alloc_upper_bound :: nat

text \<open>The locals \<open>b\<close>, \<open>ip\<close>, \<open>c\<close> and \<open>src\<close> of one stream.\<close>

record burst_lane =
  la_b :: u64
  la_ip :: nat
  la_c :: nat
  la_src :: "u8 list"

type_synonym room = "u8 option list"

definition wrapping_shl :: "u64 \<Rightarrow> nat \<Rightarrow> u64" where
  "wrapping_shl b k = push_bit (k mod 64) b"

definition trailing_zeros :: "u64 \<Rightarrow> nat" where
  "trailing_zeros b = length (takeWhile Not (map (bit b) [0..<64]))"

definition start_lane :: "nat \<Rightarrow> bit_reader_rev \<Rightarrow> nat \<Rightarrow> burst_lane option" where
  "start_lane max_num_bits br c =
     (if max_num_bits \<le> rr_bits_consumed br \<and> rr_bits_consumed br - max_num_bits < 64
      then Some \<lparr>la_b = push_bit (rr_bits_consumed br - max_num_bits) (rr_bit_container br OR 1), la_ip = rr_index br,
                 la_c = c, la_src = rr_source br\<rparr>
      else None)"

fun start_lanes :: "nat \<Rightarrow> bit_reader_rev list \<Rightarrow> nat list \<Rightarrow> burst_lane list option" where
  "start_lanes max_num_bits (br # brs) (c # cs) =
     Option.bind (start_lane max_num_bits br c) (\<lambda>lane. map_option ((#) lane) (start_lanes max_num_bits brs cs))"
| "start_lanes max_num_bits _ _ = Some []"

definition decode1 :: "u16 list \<Rightarrow> nat \<Rightarrow> burst_lane \<Rightarrow> room \<Rightarrow> (burst_lane \<times> room) option" where
  "decode1 packed table_shift lane out =
     (let idx = unat (drop_bit table_shift (la_b lane)) in
      if idx < length packed then
        let entry = packed ! idx in
        Option.bind (store out (la_c lane) (Some (entry_symbol entry))) (\<lambda>out.
          Some (lane\<lparr>la_c := la_c lane + 1, la_b := wrapping_shl (la_b lane) (unat entry)\<rparr>, out))
      else None)"

definition reload1 :: "burst_lane \<Rightarrow> burst_lane option" where
  "reload1 lane =
     (let ctz = trailing_zeros (la_b lane) in
      if la_ip lane < ctz div 8 then None
      else let ip = la_ip lane - ctz div 8; nb_bits = ctz mod 8 in
        Option.bind (load_window (la_src lane) ip) (\<lambda>new_window.
          Some (lane\<lparr>la_ip := ip, la_b := push_bit nb_bits (new_window OR 1)\<rparr>)))"

fun decode_round :: "u16 list \<Rightarrow> nat \<Rightarrow> burst_lane list \<Rightarrow> room \<Rightarrow> (burst_lane list \<times> room) option" where
  "decode_round packed table_shift [] out = Some ([], out)"
| "decode_round packed table_shift (lane # regs) out =
     Option.bind (decode1 packed table_shift lane out) (\<lambda>(lane, out).
       map_option (\<lambda>(regs, out). (lane # regs, out)) (decode_round packed table_shift regs out))"

fun burst :: "nat \<Rightarrow> u16 list \<Rightarrow> nat \<Rightarrow> burst_lane list \<Rightarrow> room \<Rightarrow> (burst_lane list \<times> room) option" where
  "burst 0 packed table_shift regs out = Some (regs, out)"
| "burst (Suc n) packed table_shift regs out =
     Option.bind (decode_round packed table_shift regs out) (\<lambda>(regs, out). burst n packed table_shift regs out)"

fun reload_all :: "burst_lane list \<Rightarrow> burst_lane list option" where
  "reload_all [] = Some []"
| "reload_all (lane # regs) = Option.bind (reload1 lane) (\<lambda>lane. map_option ((#) lane) (reload_all regs))"

text \<open>With no symbols in a burst the loop would not end; a result needs its end.\<close>

partial_function (option) burst_loop ::
  "u16 list \<Rightarrow> nat \<Rightarrow> nat \<Rightarrow> nat \<Rightarrow> nat \<Rightarrow> burst_lane list \<Rightarrow> room \<Rightarrow> bool \<Rightarrow> (burst_lane list \<times> room \<times> bool) option" where
  "burst_loop packed table_shift symbols_per_burst bytes_per_iter_upper cursor_burst_ceil regs out any_iter =
     (if la_c (regs ! 0) \<le> cursor_burst_ceil \<and> \<not> min_list (map la_ip regs) < bytes_per_iter_upper then
        Option.bind (burst symbols_per_burst packed table_shift regs out) (\<lambda>(regs, out).
        Option.bind (reload_all regs) (\<lambda>regs.
          burst_loop packed table_shift symbols_per_burst bytes_per_iter_upper cursor_burst_ceil regs out True))
      else Some (regs, out, any_iter))"

declare burst_loop.simps [code]

definition writeback ::
  "nat \<Rightarrow> burst_lane \<Rightarrow> huffman_decoder \<Rightarrow> bit_reader_rev \<Rightarrow> (huffman_decoder \<times> bit_reader_rev) option" where
  "writeback table_shift lane d br =
     Option.bind (load_window (la_src lane) (la_ip lane)) (\<lambda>container.
       Some (d\<lparr>hd_state := drop_bit table_shift (la_b lane)\<rparr>,
             br\<lparr>rr_index := la_ip lane, rr_bit_container := container,
                rr_bits_consumed := trailing_zeros (la_b lane) + (64 - table_shift)\<rparr>))"

fun writeback_all ::
  "nat \<Rightarrow> burst_lane list \<Rightarrow> huffman_decoder list \<Rightarrow> bit_reader_rev list \<Rightarrow> (huffman_decoder list \<times> bit_reader_rev list) option" where
  "writeback_all table_shift (lane # regs) (d # ds) (br # brs) =
     Option.bind (writeback table_shift lane d br) (\<lambda>(d, br).
       map_option (\<lambda>(ds, brs). (d # ds, br # brs)) (writeback_all table_shift regs ds brs))"
| "writeback_all table_shift _ _ _ = Some ([], [])"

text \<open>The parameter \<open>table_bits\<close> is the constant of the specialised instances, zero for the general one.\<close>

definition run_4stream_burst_loop ::
  "nat \<Rightarrow> huffman_decoder list \<Rightarrow> bit_reader_rev list \<Rightarrow> room \<Rightarrow> u16 list \<Rightarrow> nat list \<Rightarrow> loop_bounds
     \<Rightarrow> (huffman_decoder list \<times> bit_reader_rev list \<times> room \<times> nat list) option" where
  "run_4stream_burst_loop table_bits decoders brs out packed cursors bounds =
     (let table_shift = (if table_bits = 0 then lb_table_shift bounds else 64 - table_bits);
          symbols_per_burst = (if table_bits = 0 then lb_symbols_per_burst bounds else 55 div table_bits);
          burst_bits = (if table_bits = 0 then lb_burst_bits bounds else symbols_per_burst * table_bits);
          max_num_bits = 64 - table_shift in
      if \<not> lb_burst_eligible bounds then Some (decoders, brs, out, cursors)
      else
        let bytes_per_iter_upper = (8 + burst_bits) div 8 in
        Option.bind (start_lanes max_num_bits brs cursors) (\<lambda>regs.
        Option.bind (burst_loop packed table_shift symbols_per_burst bytes_per_iter_upper (lb_cursor_burst_ceil bounds) regs out False)
          (\<lambda>(regs, out, any_iter).
            let cursors = map la_c regs in
            if \<not> any_iter then Some (decoders, brs, out, cursors)
            else map_option (\<lambda>(decoders, brs). (decoders, brs, out, cursors)) (writeback_all table_shift regs decoders brs))))"

section \<open>The fused register\<close>

text \<open>The register holds the window at byte \<open>ip\<close>, shifted by \<open>c\<close>, with the sentinel at bit \<open>c\<close>.\<close>

definition fused :: "u8 list \<Rightarrow> nat \<Rightarrow> nat \<Rightarrow> u64 \<Rightarrow> bool" where
  "fused src ip c b \<longleftrightarrow> c < 64 \<and> (\<forall>i < 64. bit b i \<longleftrightarrow> i = c \<or> c < i \<and> zbit src (8 * int ip + int i - int c))"

lemma takeWhile_first:
  assumes "k < length xs" "xs ! k" "\<forall>i < k. \<not> xs ! i"
  shows "length (takeWhile Not xs) = k"
proof -
  have "takeWhile Not xs = take k xs" using assms by (intro takeWhile_eq_take_P_nth) auto
  then show ?thesis using assms(1) by simp
qed

lemma fused_trailing_zeros: "fused src ip c b \<Longrightarrow> trailing_zeros b = c"
  unfolding trailing_zeros_def by (rule takeWhile_first) (auto simp: fused_def)

lemma fused_window:
  assumes "\<forall>j < 64. bit w j = zbit src (8 * int ip + int j)" "k < 64"
  shows "fused src ip k (push_bit k (w OR 1))"
proof -
  have "bit (push_bit k (w OR 1)) i \<longleftrightarrow> i = k \<or> k < i \<and> zbit src (8 * int ip + int i - int k)" if "i < 64" for i
  proof (cases "k < i")
    case True
    then show ?thesis using assms(1) that by (auto simp: bit_push_bit_iff bit_or_iff bit_exp_iff algebra_simps)
  qed (use that in \<open>auto simp: bit_push_bit_iff bit_or_iff bit_exp_iff\<close>)
  then show ?thesis using assms(2) by (simp add: fused_def)
qed

lemma fused_shift:
  assumes "fused src ip c b" "c + n < 64"
  shows "fused src ip (c + n) (push_bit n b)"
proof -
  have "bit (push_bit n b) i \<longleftrightarrow> i = c + n \<or> c + n < i \<and> zbit src (8 * int ip + int i - int (c + n))" if i: "i < 64" for i
  proof (cases "n \<le> i")
    case True
    then have "int (i - n) = int i - int n" "i - n < 64" using i by simp_all
    moreover have "i - n = c \<longleftrightarrow> i = c + n" "c < i - n \<longleftrightarrow> c + n < i" using True by auto
    ultimately show ?thesis using assms(1) i True by (simp add: fused_def bit_push_bit_iff algebra_simps)
  qed (use i in \<open>auto simp: bit_push_bit_iff\<close>)
  then show ?thesis using assms(2) by (simp add: fused_def)
qed

lemma fused_top:
  assumes "fused src ip c b" "c + M < 64" "0 < M"
  shows "drop_bit (64 - M) b = bits_below src (8 * int ip + 64 - int c) M"
proof (rule rev_field_eq)
  show "rev_field src (8 * int ip + 64 - int c) M (drop_bit (64 - M) b)"
    unfolding rev_field_def
  proof
    fix i
    show "bit (drop_bit (64 - M) b) i \<longleftrightarrow> i < M \<and> zbit src (8 * int ip + 64 - int c - int M + int i)"
    proof (cases "i < M")
      case True
      then have "64 - M + i < 64" "64 - M + i \<noteq> c" "c < 64 - M + i" "int (64 - M + i) = 64 - int M + int i" using assms(2) by auto
      then show ?thesis using assms(1) True by (simp add: fused_def bit_drop_bit_eq algebra_simps)
    next
      case False
      then have "\<not> bit b (64 - M + i)" using bit_imp_le_length [of b "64 - M + i"] assms(2) by fastforce
      then show ?thesis using False by (simp add: bit_drop_bit_eq)
    qed
  qed
qed (use assms in simp)

section \<open>Streams and their part of the output\<close>

text \<open>A stream: its slice, its part of the output and the position of its first code.\<close>

record lit_stream =
  sg_src :: "u8 list"
  sg_start :: nat
  sg_fin :: nat
  sg_p0 :: int

text \<open>The stream has written its symbols up to the cursor \<open>c\<close> and stands at \<open>p\<close>.\<close>

definition seg_inv :: "huffman_table \<Rightarrow> room \<Rightarrow> lit_stream \<Rightarrow> nat \<Rightarrow> int \<Rightarrow> bool" where
  "seg_inv t out sg c p \<longleftrightarrow> sg_start sg \<le> c \<and> c \<le> sg_fin sg \<and> sg_fin sg \<le> length out
     \<and> snd (decode_symbols t (sg_src sg) (c - sg_start sg) (sg_p0 sg)) = p
     \<and> (\<forall>i < c - sg_start sg. out ! (sg_start sg + i) = Some (fst (decode_symbols t (sg_src sg) (c - sg_start sg) (sg_p0 sg)) ! i))"

definition in_seg :: "lit_stream \<Rightarrow> nat \<Rightarrow> bool" where
  "in_seg sg i \<longleftrightarrow> sg_start sg \<le> i \<and> i < sg_fin sg"

definition segs_disjoint :: "lit_stream list \<Rightarrow> bool" where
  "segs_disjoint sgs \<longleftrightarrow> sorted_wrt (\<lambda>a b. \<forall>i. \<not> (in_seg a i \<and> in_seg b i)) sgs"

lemma seg_inv_cong:
  "\<lbrakk>seg_inv t out sg c p; length out' = length out; \<And>i. in_seg sg i \<Longrightarrow> out' ! i = out ! i\<rbrakk> \<Longrightarrow> seg_inv t out' sg c p"
  by (auto simp: seg_inv_def in_seg_def)

lemma seg_inv_start: "\<lbrakk>sg_start sg \<le> sg_fin sg; sg_fin sg \<le> length out\<rbrakk> \<Longrightarrow> seg_inv t out sg (sg_start sg) (sg_p0 sg)"
  by (simp add: seg_inv_def)

lemma seg_inv_step:
  assumes inv: "seg_inv t out sg c p" and c: "c < sg_fin sg" and e: "e = entry_at t (sg_src sg) p"
  shows "seg_inv t (out[c := Some (entry_symbol e)]) sg (c + 1) (p - int (entry_num_bits e))"
proof -
  define k where "k = c - sg_start sg"
  obtain ys where ys: "decode_symbols t (sg_src sg) k (sg_p0 sg) = (ys, p)" "length ys = k"
    using inv length_decode_symbols [of t "sg_src sg" k "sg_p0 sg"] unfolding seg_inv_def k_def by (metis prod.collapse)
  have "sg_start sg \<le> c" using inv by (simp add: seg_inv_def)
  then have c1: "c + 1 - sg_start sg = k + 1" and ck: "c = sg_start sg + k" by (simp_all add: k_def)
  have ds: "decode_symbols t (sg_src sg) (k + 1) (sg_p0 sg) = (ys @ [entry_symbol e], p - int (entry_num_bits e))"
    using decode_symbols_add [of t "sg_src sg" k 1 "sg_p0 sg"] ys(1) e by (simp add: Let_def)
  have old: "out ! (sg_start sg + i) = Some (ys ! i)" if "i < k" for i
    using inv that ys(1) by (simp add: seg_inv_def k_def)
  have "out[c := Some (entry_symbol e)] ! (sg_start sg + i) = Some ((ys @ [entry_symbol e]) ! i)" if "i < k + 1" for i
    using that old [of i] inv c ys(2) by (cases "i = k") (auto simp: nth_append ck seg_inv_def)
  then show ?thesis using inv c unfolding seg_inv_def c1 ds by simp
qed

text \<open>The register of a stream, with at most \<open>k\<close> bits shifted out.\<close>

definition lane_at :: "lit_stream \<Rightarrow> nat \<Rightarrow> burst_lane \<Rightarrow> int \<Rightarrow> bool" where
  "lane_at sg k lane p \<longleftrightarrow> la_src lane = sg_src sg \<and> la_ip lane + 8 \<le> length (sg_src sg)
     \<and> (\<exists>c \<le> k. fused (sg_src sg) (la_ip lane) c (la_b lane) \<and> p = 8 * int (la_ip lane) + 64 - int c)"

definition lane_inv :: "huffman_table \<Rightarrow> nat \<Rightarrow> room \<Rightarrow> lit_stream \<Rightarrow> burst_lane \<Rightarrow> bool" where
  "lane_inv t k out sg lane \<longleftrightarrow> (\<exists>p. lane_at sg k lane p \<and> seg_inv t out sg (la_c lane) p)"

lemma lane_inv_cong:
  "\<lbrakk>lane_inv t k out sg lane; length out' = length out; \<And>i. in_seg sg i \<Longrightarrow> out' ! i = out ! i\<rbrakk> \<Longrightarrow> lane_inv t k out' sg lane"
  unfolding lane_inv_def using seg_inv_cong by blast

lemma lane_inv_mono: "\<lbrakk>lane_inv t k out sg lane; k \<le> k'\<rbrakk> \<Longrightarrow> lane_inv t k' out sg lane"
  unfolding lane_inv_def lane_at_def using le_trans by blast

lemma unat_entry_mod: "entry_num_bits e < 64 \<Longrightarrow> unat (e :: u16) mod 64 = entry_num_bits e"
proof -
  assume "entry_num_bits e < 64"
  moreover have "entry_num_bits e = unat e mod 256" by (simp add: entry_num_bits_def unsigned_ucast_eq take_bit_eq_mod)
  ultimately show ?thesis using mod_mod_cancel [of 64 256 "unat e"] by simp
qed

lemma decode1_ok:
  assumes t: "decode_table_ok t" and inv: "lane_inv t k out sg lane" and k: "k + ht_max_num_bits t < 64" and c: "la_c lane < sg_fin sg"
  shows "\<exists>lane' x. decode1 (ht_packed_decode t) (64 - ht_max_num_bits t) lane out = Some (lane', out[la_c lane := x])
     \<and> lane_inv t (k + ht_max_num_bits t) (out[la_c lane := x]) sg lane' \<and> la_c lane' = la_c lane + 1 \<and> la_ip lane' = la_ip lane"
proof -
  let ?M = "ht_max_num_bits t"
  obtain p c0 where p: "c0 \<le> k" "fused (sg_src sg) (la_ip lane) c0 (la_b lane)" "p = 8 * int (la_ip lane) + 64 - int c0"
      "la_src lane = sg_src sg" "la_ip lane + 8 \<le> length (sg_src sg)" "seg_inv t out sg (la_c lane) p"
    using inv by (auto simp: lane_inv_def lane_at_def)
  define e where "e = entry_at t (sg_src sg) p"
  have M: "0 < ?M" using t by (simp add: decode_table_ok_def)
  have top: "drop_bit (64 - ?M) (la_b lane) = bits_below (sg_src sg) p ?M" using fused_top [OF p(2)] p(1,3) k M by simp
  have n: "entry_num_bits e \<le> ?M" using entry_at_mem(3) [OF t] by (simp add: e_def)
  have "la_c lane < length out" using p(6) c by (simp add: seg_inv_def)
  then have d: "decode1 (ht_packed_decode t) (64 - ?M) lane out =
      Some (lane\<lparr>la_c := la_c lane + 1, la_b := push_bit (entry_num_bits e) (la_b lane)\<rparr>, out[la_c lane := Some (entry_symbol e)])"
    using entry_at_mem(1) [OF t, of "sg_src sg" p] n k unat_entry_mod [of e]
    by (simp add: decode1_def top entry_at_def [symmetric] e_def [symmetric] store_def wrapping_shl_def Let_def)
  have "c0 + entry_num_bits e < 64" using p(1) n k by simp
  note fs = fused_shift [OF p(2) this]
  let ?lane = "lane\<lparr>la_c := la_c lane + 1, la_b := push_bit (entry_num_bits e) (la_b lane)\<rparr>"
  have "lane_at sg (k + ?M) ?lane (p - int (entry_num_bits e))" unfolding lane_at_def
    using fs p(1,3-5) n by (auto intro!: exI [of _ "c0 + entry_num_bits e"])
  then have "lane_inv t (k + ?M) (out[la_c lane := Some (entry_symbol e)]) sg ?lane"
    using seg_inv_step [OF p(6) c e_def] by (auto simp: lane_inv_def)
  then show ?thesis using d by (intro exI [of _ ?lane] exI [of _ "Some (entry_symbol e)"]) simp
qed

lemma decode_round_ok:
  assumes t: "decode_table_ok t" and k: "k + ht_max_num_bits t < 64"
    and "list_all2 (lane_inv t k out) sgs regs" "segs_disjoint sgs" "list_all2 (\<lambda>sg c. c < sg_fin sg) sgs (map la_c regs)"
  shows "\<exists>regs' out'. decode_round (ht_packed_decode t) (64 - ht_max_num_bits t) regs out = Some (regs', out')
     \<and> list_all2 (lane_inv t (k + ht_max_num_bits t) out') sgs regs' \<and> length out' = length out
     \<and> (\<forall>i. (\<forall>sg \<in> set sgs. \<not> in_seg sg i) \<longrightarrow> out' ! i = out ! i)
     \<and> map la_c regs' = map (\<lambda>lane. la_c lane + 1) regs \<and> map la_ip regs' = map la_ip regs"
  using assms(3-)
proof (induction sgs arbitrary: regs out)
  case Nil
  then show ?case by simp
next
  case (Cons sg sgs)
  let ?M = "ht_max_num_bits t" and ?P = "ht_packed_decode t"
  obtain lane rest where regs: "regs = lane # rest" "lane_inv t k out sg lane" "list_all2 (lane_inv t k out) sgs rest"
      "la_c lane < sg_fin sg" "list_all2 (\<lambda>sg c. c < sg_fin sg) sgs (map la_c rest)"
    using Cons.prems(1,3) by (auto simp: list_all2_Cons1)
  have dis: "segs_disjoint sgs" "b \<in> set sgs \<Longrightarrow> in_seg b i \<Longrightarrow> \<not> in_seg sg i" for b i
    using Cons.prems(2) by (auto simp: segs_disjoint_def)
  obtain lane' x where d: "decode1 ?P (64 - ?M) lane out = Some (lane', out[la_c lane := x])"
      "lane_inv t (k + ?M) (out[la_c lane := x]) sg lane'" "la_c lane' = la_c lane + 1" "la_ip lane' = la_ip lane"
    using decode1_ok [OF t regs(2) k regs(4)] by blast
  let ?out = "out[la_c lane := x]"
  have here: "in_seg sg (la_c lane)" using regs(2,4) by (auto simp: lane_inv_def seg_inv_def in_seg_def)
  have "list_all2 (lane_inv t k ?out) sgs rest"
    using regs(3)
  proof (rule list.rel_mono_strong)
    fix b r assume b: "b \<in> set sgs" "lane_inv t k out b r"
    show "lane_inv t k ?out b r"
    proof (rule lane_inv_cong [OF b(2)])
      fix i assume "in_seg b i"
      then have "i \<noteq> la_c lane" using dis(2) [OF b(1)] here by blast
      then show "?out ! i = out ! i" by simp
    qed simp
  qed
  from Cons.IH [OF this dis(1) regs(5)] obtain regs' out' where r: "decode_round ?P (64 - ?M) rest ?out = Some (regs', out')"
      "list_all2 (lane_inv t (k + ?M) out') sgs regs'" "length out' = length ?out"
      "\<forall>i. (\<forall>sg \<in> set sgs. \<not> in_seg sg i) \<longrightarrow> out' ! i = ?out ! i"
      "map la_c regs' = map (\<lambda>lane. la_c lane + 1) rest" "map la_ip regs' = map la_ip rest" by blast
  have "lane_inv t (k + ?M) out' sg lane'"
  proof (rule lane_inv_cong [OF d(2) r(3)])
    fix i assume "in_seg sg i"
    then show "out' ! i = ?out ! i" using r(4) dis(2) by blast
  qed
  moreover have "out' ! i = out ! i" if "\<forall>sg \<in> set (sg # sgs). \<not> in_seg sg i" for i
  proof -
    have "i \<noteq> la_c lane" using that here by auto
    then show ?thesis using r(4) that by simp
  qed
  ultimately show ?case using d(1,3,4) r(1-3,5,6) by (simp add: regs(1))
qed

lemma burst_ok:
  assumes t: "decode_table_ok t"
    and "k + n * ht_max_num_bits t < 64" "list_all2 (lane_inv t k out) sgs regs" "segs_disjoint sgs"
      "list_all2 (\<lambda>sg c. c + n \<le> sg_fin sg) sgs (map la_c regs)"
  shows "\<exists>regs' out'. burst n (ht_packed_decode t) (64 - ht_max_num_bits t) regs out = Some (regs', out')
     \<and> list_all2 (lane_inv t (k + n * ht_max_num_bits t) out') sgs regs' \<and> length out' = length out
     \<and> (\<forall>i. (\<forall>sg \<in> set sgs. \<not> in_seg sg i) \<longrightarrow> out' ! i = out ! i)
     \<and> map la_c regs' = map (\<lambda>c. c + n) (map la_c regs) \<and> map la_ip regs' = map la_ip regs"
  using assms(2-)
proof (induction n arbitrary: k regs out)
  case 0
  then show ?case by (auto simp: list_all2_conv_all_nth)
next
  case (Suc n)
  let ?M = "ht_max_num_bits t"
  have k: "k + ?M < 64" "k + ?M + n * ?M < 64" using Suc.prems(1) by simp_all
  have "list_all2 (\<lambda>sg c. c < sg_fin sg) sgs (map la_c regs)" by (rule list_all2_mono [OF Suc.prems(4)]) simp
  from decode_round_ok [OF t k(1) Suc.prems(2,3) this] obtain regs1 out1 where
      r: "decode_round (ht_packed_decode t) (64 - ?M) regs out = Some (regs1, out1)" "list_all2 (lane_inv t (k + ?M) out1) sgs regs1"
      "length out1 = length out" "\<forall>i. (\<forall>sg \<in> set sgs. \<not> in_seg sg i) \<longrightarrow> out1 ! i = out ! i"
      "map la_c regs1 = map (\<lambda>lane. la_c lane + 1) regs" "map la_ip regs1 = map la_ip regs" by blast
  have c1: "map la_c regs1 = map (\<lambda>c. c + 1) (map la_c regs)" using r(5) by simp
  have "list_all2 (\<lambda>sg c. c + n \<le> sg_fin sg) sgs (map la_c regs1)"
    unfolding c1 list_all2_map2 using Suc.prems(4) by (simp add: list_all2_map2)
  from Suc.IH [OF k(2) r(2) Suc.prems(3) this] r c1 show ?case by (auto simp: add.assoc)
qed

lemma reload1_ok:
  assumes inv: "lane_inv t k out sg lane" and ip: "k div 8 \<le> la_ip lane"
  shows "\<exists>lane'. reload1 lane = Some lane' \<and> lane_inv t 7 out sg lane' \<and> la_c lane' = la_c lane"
proof -
  obtain p c where p: "c \<le> k" "fused (sg_src sg) (la_ip lane) c (la_b lane)" "p = 8 * int (la_ip lane) + 64 - int c"
      "la_src lane = sg_src sg" "la_ip lane + 8 \<le> length (sg_src sg)" "seg_inv t out sg (la_c lane) p"
    using inv by (auto simp: lane_inv_def lane_at_def)
  have z: "trailing_zeros (la_b lane) = c" by (rule fused_trailing_zeros [OF p(2)])
  have le: "c div 8 \<le> la_ip lane" using div_le_mono [OF p(1), of 8] ip by simp
  let ?ip = "la_ip lane - c div 8"
  have "?ip + 8 \<le> length (sg_src sg)" using p(5) by simp
  from load_window_bits [OF this] obtain w where w: "load_window (sg_src sg) ?ip = Some w"
      "\<forall>j < 64. bit w j = zbit (sg_src sg) (8 * int ?ip + int j)" by blast
  have f: "fused (sg_src sg) ?ip (c mod 8) (push_bit (c mod 8) (w OR 1))" by (rule fused_window [OF w(2)]) (simp add: less_le_trans [of _ 8])
  have "int c = 8 * int (c div 8) + int (c mod 8)" by (metis mult_div_mod_eq of_nat_add of_nat_mult of_nat_numeral)
  then have "p = 8 * int ?ip + 64 - int (c mod 8)" using p(3) le by (simp add: of_nat_diff)
  moreover have "c mod 8 \<le> 7" by simp
  ultimately have "lane_inv t 7 out sg (lane\<lparr>la_ip := ?ip, la_b := push_bit (c mod 8) (w OR 1)\<rparr>)"
    unfolding lane_inv_def lane_at_def using f p(4,6) \<open>?ip + 8 \<le> length (sg_src sg)\<close> by fastforce
  moreover have "reload1 lane = Some (lane\<lparr>la_ip := ?ip, la_b := push_bit (c mod 8) (w OR 1)\<rparr>)"
    using le p(4) w(1) by (simp add: reload1_def z Let_def)
  ultimately show ?thesis by simp
qed

lemma reload_all_ok:
  assumes "list_all2 (lane_inv t k out) sgs regs" "\<forall>lane \<in> set regs. k div 8 \<le> la_ip lane"
  shows "\<exists>regs'. reload_all regs = Some regs' \<and> list_all2 (lane_inv t 7 out) sgs regs' \<and> map la_c regs' = map la_c regs"
  using assms
proof (induction sgs regs rule: list_all2_induct)
  case (Cons sg sgs lane regs)
  then obtain regs' where "reload_all regs = Some regs'" "list_all2 (lane_inv t 7 out) sgs regs'" "map la_c regs' = map la_c regs" by auto
  with reload1_ok [OF Cons.hyps(1)] Cons.prems show ?case by fastforce
qed simp

text \<open>The streams advance in step: after \<open>m\<close> symbols each, another burst fits while the first cursor is below the ceiling.\<close>

lemma burst_loop_ok:
  assumes t: "decode_table_ok t" and dis: "segs_disjoint sgs" and ne: "sgs \<noteq> []"
    and n: "0 < n" "8 + n * ht_max_num_bits t < 64" "n \<le> len" "\<forall>sg \<in> set sgs. sg_start sg + len \<le> sg_fin sg"
    and lim: "lim = sg_start (sgs ! 0) + len - n"
    and "list_all2 (lane_inv t 8 out) sgs regs" "map la_c regs = map (\<lambda>sg. sg_start sg + m) sgs"
  shows "\<exists>regs' out' any'. burst_loop (ht_packed_decode t) (64 - ht_max_num_bits t) n ((8 + n * ht_max_num_bits t) div 8) lim regs out any
       = Some (regs', out', any')
     \<and> list_all2 (lane_inv t 8 out') sgs regs' \<and> length out' = length out
     \<and> (\<forall>i. (\<forall>sg \<in> set sgs. \<not> in_seg sg i) \<longrightarrow> out' ! i = out ! i)
     \<and> (any \<longrightarrow> any') \<and> (any' \<or> (regs' = regs \<and> out' = out))"
  using assms(9-)
proof (induction "len - m" arbitrary: m regs out any rule: less_induct)
  case less
  let ?M = "ht_max_num_bits t" and ?P = "ht_packed_decode t"
  let ?bpi = "(8 + n * ?M) div 8"
  have c0: "la_c (regs ! 0) = sg_start (sgs ! 0) + m"
    using arg_cong [OF less.prems(2), of "\<lambda>xs. xs ! 0"] arg_cong [OF less.prems(2), of length] ne by simp
  show ?case
  proof (cases "la_c (regs ! 0) \<le> lim \<and> \<not> min_list (map la_ip regs) < ?bpi")
    case False
    then show ?thesis using less.prems(1) by (subst burst_loop.simps) auto
  next
    case True
    have "sg_start (sgs ! 0) + m \<le> lim" using True c0 by simp
    then have m: "m + n \<le> len" using n(3) lim by linarith
    have fits: "list_all2 (\<lambda>sg c. c + n \<le> sg_fin sg) sgs (map la_c regs)"
      unfolding less.prems(2) list_all2_map2 using n(4) m by (fastforce simp: list_all2_same)
    from burst_ok [OF t n(2) less.prems(1) dis fits] obtain regs1 out1 where
        b: "burst n ?P (64 - ?M) regs out = Some (regs1, out1)" "list_all2 (lane_inv t (8 + n * ?M) out1) sgs regs1"
        "length out1 = length out" "\<forall>i. (\<forall>sg \<in> set sgs. \<not> in_seg sg i) \<longrightarrow> out1 ! i = out ! i"
        "map la_c regs1 = map (\<lambda>c. c + n) (map la_c regs)" "map la_ip regs1 = map la_ip regs" by blast
    have "regs \<noteq> []" using less.prems(1) ne by auto
    then have "?bpi \<le> ip" if "ip \<in> set (map la_ip regs)" for ip
      using True that by (metis List.finite_set Min_le list.map_disc_iff min_list_Min not_less order_trans)
    then have "\<forall>ip \<in> set (map la_ip regs1). ?bpi \<le> ip" unfolding b(6) by blast
    then have "\<forall>lane \<in> set regs1. ?bpi \<le> la_ip lane" by simp
    from reload_all_ok [OF b(2) this] obtain regs2 where
        r: "reload_all regs1 = Some regs2" "list_all2 (lane_inv t 7 out1) sgs regs2" "map la_c regs2 = map la_c regs1" by blast
    have inv: "list_all2 (lane_inv t 8 out1) sgs regs2" using r(2) by (rule list_all2_mono) (erule lane_inv_mono, simp)
    have cur: "map la_c regs2 = map (\<lambda>sg. sg_start sg + (m + n)) sgs" using r(3) b(5) less.prems(2) by (simp add: add.assoc)
    have "len - (m + n) < len - m" using m n(1) by simp
    from less.hyps [OF this inv cur, of True] obtain regs' out' any' where
      l: "burst_loop ?P (64 - ?M) n ?bpi lim regs2 out1 True = Some (regs', out', any')"
      "list_all2 (lane_inv t 8 out') sgs regs'" "length out' = length out1"
      "\<forall>i. (\<forall>sg \<in> set sgs. \<not> in_seg sg i) \<longrightarrow> out' ! i = out1 ! i" "any'" by blast
    then show ?thesis using True b(1,3,4) r(1)
      by (subst burst_loop.simps) (intro exI [of _ regs'] exI [of _ out'] exI [of _ any'], simp)
  qed
qed

section \<open>Entering and leaving the loop\<close>

text \<open>
  A reader that has not moved past its first window: its container is whole, and at most \<open>k\<close> of its bits are consumed; or the slice is
  so short that the reader is at the front.
\<close>

definition first_window :: "nat \<Rightarrow> bit_reader_rev \<Rightarrow> bool" where
  "first_window k br \<longleftrightarrow> rr_index br = 0 \<or> (rr_bits_consumed br \<le> k \<and> rr_index br + 8 \<le> length (rr_source br)
     \<and> (\<forall>j < 64. bit (rr_bit_container br) j = zbit (rr_source br) (8 * int (rr_index br) + int j)))"

text \<open>A decoder between the symbols of its stream.\<close>

definition stream_at :: "huffman_table \<Rightarrow> room \<Rightarrow> lit_stream \<Rightarrow> huffman_decoder \<Rightarrow> bit_reader_rev \<Rightarrow> nat \<Rightarrow> bool" where
  "stream_at t out sg d br c \<longleftrightarrow> hd_table d = t \<and> (\<exists>p. stands_at d br (sg_src sg) p \<and> seg_inv t out sg c p)"

text \<open>The state of a stream when the loop is entered.\<close>

definition stream_ready :: "huffman_table \<Rightarrow> lit_stream \<Rightarrow> huffman_decoder \<Rightarrow> bit_reader_rev \<Rightarrow> bool" where
  "stream_ready t sg d br \<longleftrightarrow> hd_table d = t \<and> stands_at d br (sg_src sg) (sg_p0 sg)
     \<and> first_window (8 + ht_max_num_bits t) br \<and> ht_max_num_bits t \<le> rr_bits_consumed br"

lemma start_lane_ok:
  assumes t: "decode_table_ok t" and r: "stream_ready t sg d br" and sg: "sg_start sg \<le> sg_fin sg" "sg_fin sg \<le> length out"
  shows "\<exists>lane. start_lane (ht_max_num_bits t) br (sg_start sg) = Some lane \<and> la_c lane = sg_start sg \<and> la_ip lane = rr_index br
     \<and> (0 < rr_index br \<longrightarrow> lane_inv t 8 out sg lane \<and> rr_extra_bits br = 0)"
proof -
  let ?M = "ht_max_num_bits t" and ?k = "rr_bits_consumed br - ht_max_num_bits t"
  have M: "0 < ?M" "?M \<le> 12" using t by (simp_all add: decode_table_ok_def)
  have inv: "rev_inv br" "rr_source br = sg_src sg" "bits_remaining br = sg_p0 sg - int ?M"
    using r by (auto simp: stream_ready_def stands_at_def)
  have k: "?M \<le> rr_bits_consumed br" "?k < 64" using r inv(1) M by (auto simp: stream_ready_def rev_inv_def)
  define lane where "lane = \<lparr>la_b = push_bit ?k (rr_bit_container br OR 1), la_ip = rr_index br, la_c = sg_start sg, la_src = rr_source br\<rparr>"
  have st: "start_lane ?M br (sg_start sg) = Some lane" using k by (simp add: start_lane_def lane_def)
  have "lane_inv t 8 out sg lane \<and> rr_extra_bits br = 0" if "0 < rr_index br"
  proof -
    have fw: "?k \<le> 8" "rr_index br + 8 \<le> length (sg_src sg)"
        "\<forall>j < 64. bit (rr_bit_container br) j = zbit (sg_src sg) (8 * int (rr_index br) + int j)"
      using r that inv(2) by (auto simp: stream_ready_def first_window_def)
    have x: "rr_extra_bits br = 0" using inv(1) that by (auto simp: rev_inv_def)
    have "sg_p0 sg = 8 * int (rr_index br) + 64 - int ?k" using inv(3) k(1) x by (simp add: bits_remaining_def of_nat_diff)
    moreover have "fused (sg_src sg) (rr_index br) ?k (la_b lane)" unfolding lane_def using fused_window [OF fw(3) k(2)] by simp
    ultimately have "lane_at sg 8 lane (sg_p0 sg)" unfolding lane_at_def using fw(1,2) inv(2) by (auto simp: lane_def)
    then show ?thesis using seg_inv_start [OF sg, of t] x unfolding lane_inv_def by (auto simp: lane_def)
  qed
  then show ?thesis using st by (simp add: lane_def)
qed

lemma start_lanes_ok:
  assumes t: "decode_table_ok t"
    and "list_all2 (\<lambda>sg (d, br). stream_ready t sg d br) sgs (zip ds brs)" "length ds = length brs"
      "\<forall>sg \<in> set sgs. sg_start sg \<le> sg_fin sg \<and> sg_fin sg \<le> length out"
  shows "\<exists>regs. start_lanes (ht_max_num_bits t) brs (map sg_start sgs) = Some regs \<and> map la_c regs = map sg_start sgs
     \<and> map la_ip regs = map rr_index brs
     \<and> ((\<forall>br \<in> set brs. 0 < rr_index br) \<longrightarrow> list_all2 (lane_inv t 8 out) sgs regs \<and> (\<forall>br \<in> set brs. rr_extra_bits br = 0))"
  using assms(2-)
proof (induction sgs arbitrary: ds brs)
  case (Cons sg sgs)
  then obtain d ds' br brs' where l: "ds = d # ds'" "brs = br # brs'" "stream_ready t sg d br"
      "list_all2 (\<lambda>sg (d, br). stream_ready t sg d br) sgs (zip ds' brs')" "length ds' = length brs'"
    by (cases ds; cases brs) auto
  have "sg_start sg \<le> sg_fin sg" "sg_fin sg \<le> length out" using Cons.prems(3) by simp_all
  from start_lane_ok [OF t l(3) this] Cons.IH [OF l(4,5)] Cons.prems(3) show ?case by (fastforce simp: l(1,2))
qed (auto simp: list_all2_Nil)

lemma writeback_ok:
  assumes t: "decode_table_ok t" and inv: "lane_inv t 8 out sg lane" and br: "rr_extra_bits br = 0" "rr_source br = sg_src sg" and d: "hd_table d = t"
  shows "\<exists>d' br'. writeback (64 - ht_max_num_bits t) lane d br = Some (d', br') \<and> stream_at t out sg d' br' (la_c lane)"
proof -
  let ?M = "ht_max_num_bits t"
  have M: "0 < ?M" "?M \<le> 12" using t by (simp_all add: decode_table_ok_def)
  obtain p c where p: "c \<le> 8" "fused (sg_src sg) (la_ip lane) c (la_b lane)" "p = 8 * int (la_ip lane) + 64 - int c"
      "la_src lane = sg_src sg" "la_ip lane + 8 \<le> length (sg_src sg)" "seg_inv t out sg (la_c lane) p"
    using inv by (auto simp: lane_inv_def lane_at_def)
  obtain w where w: "load_window (sg_src sg) (la_ip lane) = Some w" "\<forall>j < 64. bit w j = zbit (sg_src sg) (8 * int (la_ip lane) + int j)"
    using load_window_bits [OF p(5)] by blast
  define br' where "br' = br\<lparr>rr_index := la_ip lane, rr_bit_container := w, rr_bits_consumed := c + ?M\<rparr>"
  have "rev_inv br'" using p(1,5) w(2) M br by (simp add: rev_inv_def br'_def window_placed_def window_base_def)
  moreover have "bits_remaining br' = p - int ?M" using p(3) br by (simp add: bits_remaining_def br'_def)
  moreover have "drop_bit (64 - ?M) (la_b lane) = bits_below (sg_src sg) p ?M" using fused_top [OF p(2)] p(1,3) M by simp
  ultimately have "stands_at (d\<lparr>hd_state := drop_bit (64 - ?M) (la_b lane)\<rparr>) br' (sg_src sg) p"
    using br d by (simp add: stands_at_def br'_def)
  moreover have "writeback (64 - ?M) lane d br = Some (d\<lparr>hd_state := drop_bit (64 - ?M) (la_b lane)\<rparr>, br')"
    using p(4) w(1) M fused_trailing_zeros [OF p(2)] by (simp add: writeback_def br'_def)
  ultimately show ?thesis using p(6) d by (auto simp: stream_at_def)
qed

lemma writeback_all_ok:
  assumes t: "decode_table_ok t" and "list_all2 (lane_inv t 8 out) sgs regs" "length ds = length sgs" "length brs = length sgs"
    "\<forall>d \<in> set ds. hd_table d = t" "\<forall>br \<in> set brs. rr_extra_bits br = 0" "map rr_source brs = map sg_src sgs"
  shows "\<exists>ds' brs'. writeback_all (64 - ht_max_num_bits t) regs ds brs = Some (ds', brs') \<and> length ds' = length sgs \<and> length brs' = length sgs
     \<and> (\<forall>i < length sgs. stream_at t out (sgs ! i) (ds' ! i) (brs' ! i) (la_c (regs ! i)))"
  using assms(2-)
proof (induction sgs regs arbitrary: ds brs rule: list_all2_induct)
  case (Cons sg sgs lane regs)
  obtain d ds1 br brs1 where l: "ds = d # ds1" "brs = br # brs1" using Cons.prems(1,2) by (cases ds; cases brs) auto
  obtain d' br' where w: "writeback (64 - ht_max_num_bits t) lane d br = Some (d', br')" "stream_at t out sg d' br' (la_c lane)"
    using writeback_ok [OF t Cons.hyps(1), of br d] Cons.prems by (auto simp: l)
  obtain ds' brs' where "writeback_all (64 - ht_max_num_bits t) regs ds1 brs1 = Some (ds', brs')" "length ds' = length sgs" "length brs' = length sgs"
      "\<forall>i < length sgs. stream_at t out (sgs ! i) (ds' ! i) (brs' ! i) (la_c (regs ! i))"
    using Cons.IH [of ds1 brs1] Cons.prems by (auto simp: l)
  moreover have "stream_at t out ((sg # sgs) ! i) ((d' # ds') ! i) ((br' # brs') ! i) (la_c ((lane # regs) ! i))" if "i < length (sg # sgs)" for i
    using calculation(4) w(2) that by (cases i) simp_all
  ultimately show ?case using w(1) unfolding l by (intro exI [of _ "d' # ds'"] exI [of _ "br' # brs'"]) simp
qed simp

text \<open>
  The whole loop, specialised or not: every stream ends between two of its symbols, with what it has decoded in its part of the output and
  nothing written elsewhere.
\<close>

definition bounds_for :: "huffman_table \<Rightarrow> lit_stream list \<Rightarrow> nat \<Rightarrow> loop_bounds \<Rightarrow> bool" where
  "bounds_for t sgs len bounds \<longleftrightarrow> lb_symbols_per_burst bounds = 55 div ht_max_num_bits t
     \<and> lb_burst_bits bounds = 55 div ht_max_num_bits t * ht_max_num_bits t \<and> lb_table_shift bounds = 64 - ht_max_num_bits t
     \<and> lb_cursor_burst_ceil bounds = sg_start (sgs ! 0) + len - 55 div ht_max_num_bits t
     \<and> lb_burst_eligible bounds = (1 \<le> 55 div ht_max_num_bits t \<and> 55 div ht_max_num_bits t \<le> len)"

lemma run_4stream_burst_loop_ok:
  assumes t: "decode_table_ok t" and dis: "segs_disjoint sgs" and ne: "sgs \<noteq> []" and tb: "table_bits = 0 \<or> table_bits = ht_max_num_bits t"
    and ready: "list_all2 (\<lambda>sg (d, br). stream_ready t sg d br) sgs (zip ds brs)" "length ds = length sgs" "length brs = length sgs"
    and sg: "\<forall>sg \<in> set sgs. sg_start sg + len \<le> sg_fin sg \<and> sg_fin sg \<le> length out"
    and bounds: "bounds_for t sgs len bounds"
  shows "\<exists>ds' brs' out' cs. run_4stream_burst_loop table_bits ds brs out (ht_packed_decode t) (map sg_start sgs) bounds = Some (ds', brs', out', cs)
     \<and> length ds' = length sgs \<and> length brs' = length sgs \<and> length cs = length sgs \<and> length out' = length out
     \<and> (\<forall>i < length sgs. stream_at t out' (sgs ! i) (ds' ! i) (brs' ! i) (cs ! i))
     \<and> (\<forall>i. (\<forall>sg \<in> set sgs. \<not> in_seg sg i) \<longrightarrow> out' ! i = out ! i)"
proof -
  let ?M = "ht_max_num_bits t" and ?n = "55 div ht_max_num_bits t" and ?P = "ht_packed_decode t"
  let ?bpi = "(8 + ?n * ?M) div 8" and ?lim = "lb_cursor_burst_ceil bounds"
  have M: "0 < ?M" "?M \<le> 12" using t by (simp_all add: decode_table_ok_def)
  have nM: "?n * ?M \<le> 55" by (metis div_times_less_eq_dividend)
  have nth: "stream_ready t (sgs ! i) (ds ! i) (brs ! i)" if "i < length sgs" for i
    using ready that by (auto simp: list_all2_conv_all_nth)
  have start: "stream_at t out (sgs ! i) (ds ! i) (brs ! i) (map sg_start sgs ! i)" if "i < length sgs" for i
  proof -
    have "sg_start (sgs ! i) + len \<le> sg_fin (sgs ! i)" "sg_fin (sgs ! i) \<le> length out" using sg that by simp_all
    then show ?thesis using nth [OF that] that seg_inv_start [of "sgs ! i" out t] by (auto simp: stream_ready_def stream_at_def)
  qed
  have eqs: "(if table_bits = 0 then lb_table_shift bounds else 64 - table_bits) = 64 - ?M"
      "(if table_bits = 0 then lb_symbols_per_burst bounds else 55 div table_bits) = ?n"
      "(if table_bits = 0 then lb_burst_bits bounds else ?n * table_bits) = ?n * ?M" "64 - (64 - ?M) = ?M"
    using tb bounds M by (auto simp: bounds_for_def)
  have run: "run_4stream_burst_loop table_bits ds brs out ?P (map sg_start sgs) bounds =
     (if \<not> lb_burst_eligible bounds then Some (ds, brs, out, map sg_start sgs)
      else Option.bind (start_lanes ?M brs (map sg_start sgs)) (\<lambda>regs.
        Option.bind (burst_loop ?P (64 - ?M) ?n ?bpi ?lim regs out False) (\<lambda>(regs, out, any_iter).
            if \<not> any_iter then Some (ds, brs, out, map la_c regs)
            else map_option (\<lambda>(ds, brs). (ds, brs, out, map la_c regs)) (writeback_all (64 - ?M) regs ds brs))))"
    unfolding run_4stream_burst_loop_def Let_def eqs ..
  show ?thesis
  proof (cases "lb_burst_eligible bounds")
    case False
    then show ?thesis using start ready(2,3) unfolding run by simp
  next
    case True
    then have n: "0 < ?n" "?n \<le> len" "8 + ?n * ?M < 64" "?lim = sg_start (sgs ! 0) + len - ?n"
      using bounds nM unfolding bounds_for_def by linarith+
    have "\<forall>sg \<in> set sgs. sg_start sg \<le> sg_fin sg \<and> sg_fin sg \<le> length out" using sg by fastforce
    from start_lanes_ok [OF t ready(1) _ this] obtain regs where
        s: "start_lanes ?M brs (map sg_start sgs) = Some regs" "map la_c regs = map sg_start sgs" "map la_ip regs = map rr_index brs"
        "(\<forall>br \<in> set brs. 0 < rr_index br) \<Longrightarrow> list_all2 (lane_inv t 8 out) sgs regs \<and> (\<forall>br \<in> set brs. rr_extra_bits br = 0)"
      using ready(2,3) by auto
    show ?thesis
    proof (cases "\<forall>br \<in> set brs. 0 < rr_index br")
      case False
      then obtain br where "br \<in> set brs" "rr_index br = 0" by blast
      then have "min_list (map la_ip regs) = 0" using s(3) min_list_Min [of "map la_ip regs"]
        by (metis List.finite_set Min_le bot_nat_0.extremum_uniqueI empty_iff image_eqI list.set(1) list.set_map)
      moreover have "0 < ?bpi" by simp
      ultimately have "burst_loop ?P (64 - ?M) ?n ?bpi ?lim regs out False = Some (regs, out, False)" by (subst burst_loop.simps) simp
      then show ?thesis using start ready(2,3) True s(1,2) unfolding run by simp
    next
      case pos: True
      have "list_all2 (lane_inv t 8 out) sgs regs" "map la_c regs = map (\<lambda>sg. sg_start sg + 0) sgs" using s(2,4) pos by simp_all
      from burst_loop_ok [OF t dis ne n(1,3,2) _ n(4) this, of False] sg obtain regs' out' any' where
          l: "burst_loop ?P (64 - ?M) ?n ?bpi ?lim regs out False = Some (regs', out', any')"
          "list_all2 (lane_inv t 8 out') sgs regs'" "length out' = length out"
          "\<forall>i. (\<forall>sg \<in> set sgs. \<not> in_seg sg i) \<longrightarrow> out' ! i = out ! i" "any' \<or> (regs' = regs \<and> out' = out)" by auto
      show ?thesis
      proof (cases any')
        case False
        then show ?thesis using start ready(2,3) True s(1,2) l unfolding run by simp
      next
        case any: True
        have hd: "\<forall>d \<in> set ds. hd_table d = t" "map rr_source brs = map sg_src sgs"
          using nth ready(2,3) by (auto simp: in_set_conv_nth stream_ready_def stands_at_def intro!: nth_equalityI)
        obtain ds' brs' where w: "writeback_all (64 - ?M) regs' ds brs = Some (ds', brs')" "length ds' = length sgs" "length brs' = length sgs"
            "\<forall>i < length sgs. stream_at t out' (sgs ! i) (ds' ! i) (brs' ! i) (la_c (regs' ! i))"
          using writeback_all_ok [OF t l(2) ready(2,3) hd(1) _ hd(2)] s(4) pos by blast
        have "length regs' = length sgs" using l(2) by (simp add: list_all2_lengthD)
        then show ?thesis using True any s(1) l(1,3,4) w unfolding run by simp
      qed
    qed
  qed
qed

end
