(* ===== verification/Lit_Streams.thy ===== *)
theory Lit_Streams
  imports Lit_Burst Section_Headers
begin

text \<open>
  The Huffman streams of a literals section (\<^verbatim>\<open>zstd/src/decoding/literals_section_decoder.rs\<close>): opening a stream, draining what the
  burst loop has left, and the two ways of decoding, four streams into reserved room or one stream pushed byte by byte. The
  target is the list of its bytes; the reserved room behind it is \<open>None\<close> until it is written, and committing it unwritten has
  no result.
\<close>

section \<open>Operations\<close>

datatype decompress_literals_error =
    MissingCompressedSize
  | MissingNumStreams
  | LitGetBitsError get_bits_error
  | LitHuffmanTableError huffman_table_error
  | LitHuffmanDecoderError get_bits_error
  | UninitializedHuffmanTable
  | MissingBytesForJumpHeader (mj_got: nat)
  | MissingBytesForLiterals (ml_got: nat) (ml_needed: nat)
  | LitExtraPadding (lep_skipped: nat)
  | BitstreamReadMismatch (bm_read_til: int) (bm_expected: int)
  | DecodedLiteralCountMismatch (cm_decoded: nat) (cm_expected: nat)

text \<open>Opening: skip the padding, then fill the window.\<close>

definition open_huff_stream ::
  "bool \<Rightarrow> (u64 \<Rightarrow> nat \<Rightarrow> u64) \<Rightarrow> huffman_table \<Rightarrow> u8 list \<Rightarrow> (huffman_decoder \<times> bit_reader_rev, decompress_literals_error) result" where
  "open_huff_stream on_amd mlb table source =
     (case skip_padding_loop on_amd mlb (bit_reader_rev_new source) 0 of
        None \<Rightarrow> Panic
      | Some (br, skipped_bits) \<Rightarrow>
          if skipped_bits > 8 then Err (LitExtraPadding skipped_bits)
          else case huff_init_state on_amd mlb (huffman_decoder_new table) br of
            None \<Rightarrow> Panic
          | Some (_, d, br) \<Rightarrow> Ok (d, br))"

fun open_huff_streams ::
  "bool \<Rightarrow> (u64 \<Rightarrow> nat \<Rightarrow> u64) \<Rightarrow> huffman_table \<Rightarrow> u8 list list \<Rightarrow> ((huffman_decoder \<times> bit_reader_rev) list, decompress_literals_error) result" where
  "open_huff_streams on_amd mlb table [] = Ok []"
| "open_huff_streams on_amd mlb table (source # sources) =
     rbind (open_huff_stream on_amd mlb table source) (\<lambda>s.
       rbind (open_huff_streams on_amd mlb table sources) (\<lambda>ss. Ok (s # ss)))"

text \<open>Draining: groups of four symbols behind one refill, then the last ones.\<close>

fun drain_steps ::
  "(u64 \<Rightarrow> nat \<Rightarrow> u64) \<Rightarrow> nat \<Rightarrow> huffman_decoder \<Rightarrow> bit_reader_rev \<Rightarrow> room \<Rightarrow> nat \<Rightarrow> (huffman_decoder \<times> bit_reader_rev \<times> room) option" where
  "drain_steps mlb 0 d br out c = Some (d, br, out)"
| "drain_steps mlb (Suc n) d br out c =
     Option.bind (decode_symbol_and_advance_no_refill mlb d br) (\<lambda>(byte, d, br).
     Option.bind (store out c (Some byte)) (\<lambda>out. drain_steps mlb n d br out (c + 1)))"

function drain_groups ::
  "bool \<Rightarrow> (u64 \<Rightarrow> nat \<Rightarrow> u64) \<Rightarrow> nat \<Rightarrow> nat \<Rightarrow> huffman_decoder \<Rightarrow> bit_reader_rev \<Rightarrow> room \<Rightarrow> nat
     \<Rightarrow> (huffman_decoder \<times> bit_reader_rev \<times> room \<times> nat) option" where
  "drain_groups on_amd mlb group_bits fin d br out c =
     (if c + 4 \<le> fin then
        Option.bind (ensure_bits on_amd br group_bits) (\<lambda>br.
        Option.bind (drain_steps mlb 4 d br out c) (\<lambda>(d, br, out). drain_groups on_amd mlb group_bits fin d br out (c + 4)))
      else Some (d, br, out, c))"
  by pat_completeness auto
termination by (relation "measure (\<lambda>(_, _, _, fin, _, _, _, c). fin - c)") auto

declare drain_groups.simps [simp del]

definition drain_stream ::
  "bool \<Rightarrow> (u64 \<Rightarrow> nat \<Rightarrow> u64) \<Rightarrow> nat \<Rightarrow> nat \<Rightarrow> huffman_decoder \<Rightarrow> bit_reader_rev \<Rightarrow> room \<Rightarrow> nat
     \<Rightarrow> (bit_reader_rev \<times> room \<times> nat) option" where
  "drain_stream on_amd mlb group_bits fin d br out c =
     Option.bind (drain_groups on_amd mlb group_bits fin d br out c) (\<lambda>(d, br, out, c).
       if c < fin then
         Option.bind (ensure_bits on_amd br group_bits) (\<lambda>br.
           map_option (\<lambda>(d, br, out). (br, out, fin)) (drain_steps mlb (fin - c) d br out c))
       else Some (br, out, c))"

text \<open>All streams in turn; a stream that does not end at its front stops the drain. The cursors are returned.\<close>

fun drain_streams ::
  "bool \<Rightarrow> (u64 \<Rightarrow> nat \<Rightarrow> u64) \<Rightarrow> nat \<Rightarrow> nat list \<Rightarrow> huffman_decoder list \<Rightarrow> bit_reader_rev list \<Rightarrow> room \<Rightarrow> nat list
     \<Rightarrow> (room \<times> nat list, decompress_literals_error) result" where
  "drain_streams on_amd mlb max_num_bits (fin # fins) (d # ds) (br # brs) out (c # cs) =
     (case drain_stream on_amd mlb (4 * max_num_bits) fin d br out c of
        None \<Rightarrow> Panic
      | Some (br, out, c) \<Rightarrow>
          if bits_remaining br \<noteq> - int max_num_bits then Err (BitstreamReadMismatch (bits_remaining br) (- int max_num_bits))
          else rbind (drain_streams on_amd mlb max_num_bits fins ds brs out cs) (\<lambda>(out, cs). Ok (out, c # cs)))"
| "drain_streams on_amd mlb max_num_bits _ _ _ out _ = Ok (out, [])"

definition burst_bounds :: "nat \<Rightarrow> nat list \<Rightarrow> nat list \<Rightarrow> nat \<Rightarrow> loop_bounds" where
  "burst_bounds max_num_bits starts fins upper =
     (let symbols_per_burst = (63 - 8) div max_num_bits;
          min_seg_len = min_list (map2 (\<lambda>e s. e - s) fins starts)
      in \<lparr>lb_symbols_per_burst = symbols_per_burst, lb_burst_bits = symbols_per_burst * max_num_bits, lb_table_shift = 64 - max_num_bits,
          lb_cursor_burst_ceil = starts ! 0 + min_seg_len - symbols_per_burst,
          lb_burst_eligible = (symbols_per_burst \<ge> 1 \<and> min_seg_len \<ge> symbols_per_burst), lb_alloc_upper_bound = upper\<rparr>)"

text \<open>The burst and the drain of four opened streams.\<close>

definition burst_and_drain ::
  "bool \<Rightarrow> (u64 \<Rightarrow> nat \<Rightarrow> u64) \<Rightarrow> huffman_table \<Rightarrow> nat \<Rightarrow> nat list \<Rightarrow> nat list \<Rightarrow> (huffman_decoder \<times> bit_reader_rev) list \<Rightarrow> room
     \<Rightarrow> (room \<times> nat list, decompress_literals_error) result" where
  "burst_and_drain on_amd mlb t upper starts fins opened room =
     (case run_4stream_burst_loop (if ht_max_num_bits t = 10 then 10 else if ht_max_num_bits t = 11 then 11 else 0)
         (map fst opened) (map snd opened) room (ht_packed_decode t) starts (burst_bounds (ht_max_num_bits t) starts fins upper) of
        None \<Rightarrow> Panic
      | Some (ds, brs, room, cursors) \<Rightarrow> drain_streams on_amd mlb (ht_max_num_bits t) fins ds brs room cursors)"

text \<open>
  Four streams. The jump table is in front of them; \<open>bytes_read\<close> counts what was consumed before. A division by a width of zero is a
  panic.
\<close>

definition decode_four_streams ::
  "bool \<Rightarrow> (u64 \<Rightarrow> nat \<Rightarrow> u64) \<Rightarrow> huffman_table \<Rightarrow> u8 list \<Rightarrow> u8 list \<Rightarrow> nat \<Rightarrow> nat
     \<Rightarrow> u8 list \<times> (nat, decompress_literals_error) result" where
  "decode_four_streams on_amd mlb table target source regen bytes_read =
     (let base = length target in
      if length source < 6 then (target, Err (MissingBytesForJumpHeader (length source)))
      else
        let jump1 = unat (source ! 0) + 256 * unat (source ! 1);
            jump2 = jump1 + unat (source ! 2) + 256 * unat (source ! 3);
            jump3 = jump2 + unat (source ! 4) + 256 * unat (source ! 5);
            bytes_read = bytes_read + 6;
            source = drop 6 source in
        if length source < jump3 then (target, Err (MissingBytesForLiterals (length source) jump3))
        else
          let streams = [take jump1 source, take (jump2 - jump1) (drop jump1 source), take (jump3 - jump2) (drop jump2 source), drop jump3 source] in
          case open_huff_streams on_amd mlb table streams of
            Err e \<Rightarrow> (target, Err e)
          | Panic \<Rightarrow> (target, Panic)
          | Ok opened \<Rightarrow>
              let max_num_bits = ht_max_num_bits table;
                  seg = (regen + 3) div 4;
                  upper = base + regen;
                  starts = [base, min (base + seg) upper, min (base + 2 * seg) upper, min (base + 3 * seg) upper];
                  fins = [starts ! 1, starts ! 2, starts ! 3, upper];
                  room = map Some target @ replicate regen None in
              if max_num_bits = 0 then (target, Panic)
              else
                case burst_and_drain on_amd mlb table upper starts fins opened room of
                  Err e \<Rightarrow> (target, Err e)
                | Panic \<Rightarrow> (target, Panic)
                | Ok (room, cursors) \<Rightarrow>
                    let decoded = sum_list (map2 (\<lambda>c s. c - s) cursors starts) in
                    if decoded \<noteq> regen then (target, Err (DecodedLiteralCountMismatch decoded regen))
                    else if list_ex (\<lambda>b. b = None) room then (target, Panic)
                    else (map the room, Ok (bytes_read + length source)))"

text \<open>One stream; a table whose entries consume nothing would not end.\<close>

partial_function (option) push_symbols ::
  "bool \<Rightarrow> (u64 \<Rightarrow> nat \<Rightarrow> u64) \<Rightarrow> huffman_decoder \<Rightarrow> bit_reader_rev \<Rightarrow> u8 list \<Rightarrow> (bit_reader_rev \<times> u8 list) option" where
  "push_symbols on_amd mlb d br target =
     (if bits_remaining br > - int (ht_max_num_bits (hd_table d)) then
        Option.bind (decode_symbol_and_advance on_amd mlb d br) (\<lambda>(byte, d, br). push_symbols on_amd mlb d br (target @ [byte]))
      else Some (br, target))"

declare push_symbols.simps [code]

definition decode_one_stream ::
  "bool \<Rightarrow> (u64 \<Rightarrow> nat \<Rightarrow> u64) \<Rightarrow> huffman_table \<Rightarrow> u8 list \<Rightarrow> u8 list \<Rightarrow> nat \<Rightarrow> u8 list \<times> (nat, decompress_literals_error) result" where
  "decode_one_stream on_amd mlb table target source bytes_read =
     (case open_huff_stream on_amd mlb table source of
        Err e \<Rightarrow> (target, Err e)
      | Panic \<Rightarrow> (target, Panic)
      | Ok (d, br) \<Rightarrow>
          (case push_symbols on_amd mlb d br target of
             None \<Rightarrow> (target, Panic)
           | Some (br, pushed) \<Rightarrow>
               let expected = - int (ht_max_num_bits table) in
               if bits_remaining br \<noteq> expected then (target, Err (BitstreamReadMismatch (bits_remaining br) expected))
               else (pushed, Ok (bytes_read + length source))))"

section \<open>The specification\<close>

text \<open>The first one bit below position \<open>q\<close>, if there is one among \<open>n\<close>.\<close>

fun first_one :: "u8 list \<Rightarrow> int \<Rightarrow> nat \<Rightarrow> int option" where
  "first_one source q 0 = None"
| "first_one source q (Suc n) = (if zbit source (q - 1) then Some (q - 1) else first_one source (q - 1) n)"

definition stream_marker :: "u8 list \<Rightarrow> int option" where
  "stream_marker source = first_one source (8 * int (length source)) 8"

text \<open>Streams with the number of symbols each has to give: every one has to end at its front.\<close>

fun read_streams :: "huffman_table \<Rightarrow> (u8 list \<times> int \<times> nat) list \<Rightarrow> (u8 list, decompress_literals_error) result" where
  "read_streams t [] = Ok []"
| "read_streams t ((source, p, n) # rest) =
     (let (ys, q) = decode_symbols t source n p in
      if q \<noteq> 0 then Err (BitstreamReadMismatch (q - int (ht_max_num_bits t)) (- int (ht_max_num_bits t)))
      else rbind (read_streams t rest) (\<lambda>zs. Ok (ys @ zs)))"

definition huff_streams :: "huffman_table \<Rightarrow> (u8 list \<times> nat) list \<Rightarrow> (u8 list, decompress_literals_error) result" where
  "huff_streams t streams =
     (if list_ex (\<lambda>(source, n). stream_marker source = None) streams then Err (LitExtraPadding 9)
      else read_streams t (map (\<lambda>(source, n). (source, the (stream_marker source), n)) streams))"

section \<open>Opening\<close>

lemma get_bits_first_window:
  assumes "get_bits_rev on_amd mlb br n = Some (v, br')" "first_window k br" "k + n \<le> 64"
  shows "first_window (k + n) br' \<and> n \<le> rr_bits_consumed br'"
proof (cases "rr_index br = 0")
  case True
  then have "rr_index r = 0" if "refill on_amd br = Some r" for r
    using that by (auto simp: refill_def refill_slow_def Let_def split: if_splits)
  then show ?thesis using assms(1) True by (auto simp: get_bits_rev_def first_window_def consume_def split: if_splits Option.bind_splits)
next
  case False
  then show ?thesis using assms by (auto simp: get_bits_rev_def first_window_def consume_def)
qed

lemma get_bits_fresh_window:
  assumes "get_bits_rev on_amd mlb (bit_reader_rev_new source) 1 = Some (v, br')"
  shows "first_window 1 br'"
proof -
  let ?r = "bit_reader_rev_new source"
  obtain r where r: "refill on_amd ?r = Some r" "br' = consume r 1"
    using assms by (auto simp: get_bits_rev_def bit_reader_rev_new_def split: Option.bind_splits)
  show ?thesis
  proof (cases "length source < 8")
    case True
    then have "rr_index r = 0" using r(1) by (auto simp: refill_def refill_slow_def bit_reader_rev_new_def Let_def split: if_splits)
    then show ?thesis using r(2) by (simp add: first_window_def consume_def)
  next
    case False
    then have len: "length source - 8 + 8 \<le> length source" by simp
    from load_window_bits [OF this] obtain w where w: "load_window source (length source - 8) = Some w"
        "\<forall>j < 64. bit w j = zbit source (8 * int (length source - 8) + int j)" by blast
    have "slide_window ?r 8 = Some r" using r(1) False by (auto simp: refill_def bit_reader_rev_new_def split: if_splits)
    then have "r = ?r\<lparr>rr_index := length source - 8, rr_bits_consumed := 0, rr_bit_container := w\<rparr>"
      using w(1) by (simp add: slide_window_def bit_reader_rev_new_def)
    then show ?thesis using r(2) w(2) len by (simp add: first_window_def consume_def bit_reader_rev_new_def)
  qed
qed

lemma rev_field_one: "rev_field source p 1 v \<Longrightarrow> v = 1 \<longleftrightarrow> zbit source (p - 1)"
proof -
  assume f: "rev_field source p 1 v"
  then have "bit v 0 \<longleftrightarrow> zbit source (p - 1)" by (simp add: rev_field_def)
  moreover have "v = 0 \<or> v = 1" using rev_field_less [OF f] by (auto simp: word_unat_eq_iff)
  ultimately show ?thesis by auto
qed

context cpu_kernel
begin

lemma skip_padding_spec:
  assumes "rev_inv r" "k \<le> 8" "first_window k r \<or> (k = 0 \<and> r = bit_reader_rev_new source)"
  shows "\<exists>r' k'. skip_padding_loop on_amd mask_lower_bits r k = Some (r', k') \<and> rev_inv r' \<and> rr_source r' = rr_source r
     \<and> (case first_one (rr_source r) (bits_remaining r) (8 - k) of
          Some p \<Rightarrow> k' \<le> 8 \<and> bits_remaining r' = p \<and> first_window k' r' | None \<Rightarrow> k' = 9)"
  using assms
proof (induction "8 - k" arbitrary: r k)
  case (0 k)
  then have k: "k = 8" by simp
  obtain v r' where "get_bits_rev on_amd mask_lower_bits r 1 = Some (v, r')" "rev_inv r'" "rr_source r' = rr_source r"
    using get_bits_rev_ok [OF 0(2), of 1 on_amd] by auto
  then show ?case by (subst skip_padding_loop.simps) (simp add: k)
next
  case (Suc n)
  obtain v r1 where g: "get_bits_rev on_amd mask_lower_bits r 1 = Some (v, r1)" "rev_field (rr_source r) (bits_remaining r) 1 v" "rev_inv r1"
      "bits_remaining r1 = bits_remaining r - 1" "rr_source r1 = rr_source r"
    using get_bits_rev_ok [OF Suc.prems(1), of 1 on_amd] by auto
  have w: "first_window (k + 1) r1"
    using Suc.prems(3) get_bits_first_window [OF g(1), of k] Suc.prems(2) get_bits_fresh_window [of on_amd mask_lower_bits source v r1] g(1) by auto
  have n: "8 - k = Suc n" "n = 8 - (k + 1)" "k + 1 \<le> 8" using Suc.hyps(2) by simp_all
  show ?case
  proof (cases "v = 1")
    case True
    then have "first_one (rr_source r) (bits_remaining r) (8 - k) = Some (bits_remaining r - 1)"
      using rev_field_one [OF g(2)] n(1) by simp
    then show ?thesis using True g w n(3) by (subst skip_padding_loop.simps) simp
  next
    case False
    then have "first_one (rr_source r) (bits_remaining r) (8 - k) = first_one (rr_source r1) (bits_remaining r1) (8 - (k + 1))"
      using rev_field_one [OF g(2)] n g(4,5) by simp
    moreover have "skip_padding_loop on_amd mask_lower_bits r k = skip_padding_loop on_amd mask_lower_bits r1 (k + 1)"
      using False g(1) n(3) by (subst skip_padding_loop.simps) simp
    ultimately show ?thesis using Suc.hyps(1) [OF n(2) g(3) n(3)] w g(5) by simp
  qed
qed

lemma open_huff_stream_spec:
  assumes "decode_table_ok t"
  shows "case stream_marker source of
     None \<Rightarrow> open_huff_stream on_amd mask_lower_bits t source = Err (LitExtraPadding 9)
   | Some p \<Rightarrow> \<exists>d br. open_huff_stream on_amd mask_lower_bits t source = Ok (d, br) \<and> hd_table d = t \<and> stands_at d br source p
       \<and> first_window (8 + ht_max_num_bits t) br \<and> ht_max_num_bits t \<le> rr_bits_consumed br"
proof -
  let ?r = "bit_reader_rev_new source" and ?M = "ht_max_num_bits t"
  have M: "?M \<le> 12" using assms by (simp add: decode_table_ok_def)
  have src: "rr_source ?r = source" by (simp add: bit_reader_rev_new_def)
  obtain r' k' where s: "skip_padding_loop on_amd mask_lower_bits ?r 0 = Some (r', k')" "rev_inv r'" "rr_source r' = source"
      "case stream_marker source of Some p \<Rightarrow> k' \<le> 8 \<and> bits_remaining r' = p \<and> first_window k' r' | None \<Rightarrow> k' = 9"
    using skip_padding_spec [OF rev_inv_new, of 0 source source on_amd] by (auto simp: src stream_marker_def bits_remaining_new)
  show ?thesis
  proof (cases "stream_marker source")
    case None
    then show ?thesis using s by (simp add: open_huff_stream_def)
  next
    case (Some p)
    then have k: "k' \<le> 8" "bits_remaining r' = p" "first_window k' r'" using s(4) by simp_all
    obtain d br where i: "huff_init_state on_amd mask_lower_bits (huffman_decoder_new t) r' = Some (?M, d, br)" "hd_table d = t" "stands_at d br source p"
      using huff_init_state_ok [OF assms s(2), of on_amd] k(2) s(3) by auto
    then obtain v where "get_bits_rev on_amd mask_lower_bits r' ?M = Some (v, br)"
      by (auto simp: huff_init_state_def huffman_decoder_new_def Let_def split: Option.bind_splits)
    from get_bits_first_window [OF this k(3)] have "first_window (k' + ?M) br" "?M \<le> rr_bits_consumed br" using k(1) M by simp_all
    then have "first_window (8 + ?M) br" using k(1) by (auto simp: first_window_def)
    then show ?thesis using Some s(1) k(1) i \<open>?M \<le> rr_bits_consumed br\<close> by (simp add: open_huff_stream_def)
  qed
qed

end

section \<open>Draining\<close>

text \<open>What a step leaves as it was: the length of the room and everything outside of the stream's part.\<close>

definition only_in :: "lit_stream \<Rightarrow> room \<Rightarrow> room \<Rightarrow> bool" where
  "only_in sg out out' \<longleftrightarrow> length out' = length out \<and> (\<forall>i. \<not> in_seg sg i \<longrightarrow> out' ! i = out ! i)"

definition to_read :: "lit_stream \<Rightarrow> u8 list \<times> int \<times> nat" where
  "to_read sg = (sg_src sg, sg_p0 sg, sg_fin sg - sg_start sg)"

lemma only_in_refl [simp]: "only_in sg out out"
  by (simp add: only_in_def)

lemma only_in_trans: "\<lbrakk>only_in sg a b; only_in sg b c\<rbrakk> \<Longrightarrow> only_in sg a c"
  by (simp add: only_in_def)

context cpu_kernel
begin

lemma drain_steps_ok:
  assumes t: "decode_table_ok t"
    and "stream_at t out sg d br c" "c + n \<le> sg_fin sg" "rr_bits_consumed br + n * ht_max_num_bits t \<le> 64"
  shows "\<exists>d' br' out'. drain_steps mask_lower_bits n d br out c = Some (d', br', out') \<and> stream_at t out' sg d' br' (c + n) \<and> only_in sg out out'"
  using assms(2-)
proof (induction n arbitrary: d br out c)
  case (Suc n)
  let ?M = "ht_max_num_bits t"
  obtain p where p: "hd_table d = t" "stands_at d br (sg_src sg) p" "seg_inv t out sg c p" using Suc.prems(1) by (auto simp: stream_at_def)
  define e where "e = entry_at t (sg_src sg) p"
  have room: "rr_bits_consumed br + ht_max_num_bits (hd_table d) \<le> 64" using Suc.prems(3) p(1) by simp
  have tab: "decode_table_ok (hd_table d)" "e = entry_at (hd_table d) (sg_src sg) p" using t p(1) by (simp_all add: e_def)
  obtain d1 br1 where d1: "decode_symbol_and_advance_no_refill mask_lower_bits d br = Some (entry_symbol e, d1, br1)"
      "hd_table d1 = t" "stands_at d1 br1 (sg_src sg) (p - int (entry_num_bits e))" "rr_bits_consumed br1 \<le> rr_bits_consumed br + ?M"
    using decode_symbol_no_refill_ok [OF tab(1) p(2) tab(2) room] p(1) by auto
  have c: "c < sg_fin sg" "c < length out" "in_seg sg c" using Suc.prems(2) p(3) by (auto simp: seg_inv_def in_seg_def)
  let ?out = "out[c := Some (entry_symbol e)]"
  have s1: "stream_at t ?out sg d1 br1 (c + 1)" using seg_inv_step [OF p(3) c(1) e_def] d1(2,3) by (auto simp: stream_at_def)
  have o1: "only_in sg out ?out" using c(3) by (metis only_in_def length_list_update nth_list_update_neq)
  have room1: "rr_bits_consumed br1 + n * ?M \<le> 64" using d1(4) Suc.prems(3) by simp
  obtain d' br' out' where "drain_steps mask_lower_bits n d1 br1 ?out (c + 1) = Some (d', br', out')" "stream_at t out' sg d' br' (c + 1 + n)"
      "only_in sg ?out out'"
    using Suc.IH [OF s1 _ room1] Suc.prems(2) by auto
  then show ?case using d1(1) c(2) only_in_trans [OF o1] by (simp add: store_def)
qed simp

lemma ensure_stream_at:
  assumes "stream_at t out sg d br c" "n \<le> 56"
  shows "\<exists>br'. ensure_bits on_amd br n = Some br' \<and> stream_at t out sg d br' c \<and> rr_bits_consumed br' + n \<le> 64"
proof -
  obtain p where p: "hd_table d = t" "stands_at d br (sg_src sg) p" "seg_inv t out sg c p" using assms(1) by (auto simp: stream_at_def)
  then have "rev_inv br" by (simp add: stands_at_def)
  from ensure_bits_ok [OF this assms(2), of on_amd] p show ?thesis by (auto simp: stream_at_def stands_at_def)
qed

lemma drain_groups_ok:
  assumes t: "decode_table_ok t" and "stream_at t out sg d br c"
  shows "\<exists>d' br' out' c'. drain_groups on_amd mask_lower_bits (4 * ht_max_num_bits t) (sg_fin sg) d br out c = Some (d', br', out', c')
     \<and> stream_at t out' sg d' br' c' \<and> only_in sg out out' \<and> sg_fin sg < c' + 4"
  using assms(2)
proof (induction "sg_fin sg - c" arbitrary: d br out c rule: less_induct)
  case less
  let ?g = "4 * ht_max_num_bits t"
  have M: "?g \<le> 56" using t by (simp add: decode_table_ok_def)
  show ?case
  proof (cases "c + 4 \<le> sg_fin sg")
    case False
    then show ?thesis using less.prems by (subst drain_groups.simps) simp
  next
    case True
    obtain br1 where b: "ensure_bits on_amd br ?g = Some br1" "stream_at t out sg d br1 c" "rr_bits_consumed br1 + ?g \<le> 64"
      using ensure_stream_at [OF less.prems M] by blast
    obtain d2 br2 out2 where s: "drain_steps mask_lower_bits 4 d br1 out c = Some (d2, br2, out2)" "stream_at t out2 sg d2 br2 (c + 4)" "only_in sg out out2"
      using drain_steps_ok [OF t b(2) True b(3)] by blast
    have "sg_fin sg - (c + 4) < sg_fin sg - c" using True by simp
    from less.hyps [OF this s(2)] show ?thesis using True b(1) s(1) only_in_trans [OF s(3)] by (subst drain_groups.simps) auto
  qed
qed

lemma drain_stream_ok:
  assumes t: "decode_table_ok t" and "stream_at t out sg d br c"
  shows "\<exists>br' out'. drain_stream on_amd mask_lower_bits (4 * ht_max_num_bits t) (sg_fin sg) d br out c = Some (br', out', sg_fin sg)
     \<and> seg_inv t out' sg (sg_fin sg) (bits_remaining br' + int (ht_max_num_bits t)) \<and> only_in sg out out'"
proof -
  let ?M = "ht_max_num_bits t"
  have M: "4 * ?M \<le> 56" using t by (simp add: decode_table_ok_def)
  obtain d1 br1 out1 c1 where g: "drain_groups on_amd mask_lower_bits (4 * ?M) (sg_fin sg) d br out c = Some (d1, br1, out1, c1)"
      "stream_at t out1 sg d1 br1 c1" "only_in sg out out1" "sg_fin sg < c1 + 4"
    using drain_groups_ok [OF t assms(2)] by blast
  have at_end: "seg_inv t o' sg (sg_fin sg) (bits_remaining b' + int ?M)" if "stream_at t o' sg d' b' (sg_fin sg)" for o' d' b'
    using that by (auto simp: stream_at_def stands_at_def)
  show ?thesis
  proof (cases "c1 < sg_fin sg")
    case False
    then have "c1 = sg_fin sg" using g(2) by (auto simp: stream_at_def seg_inv_def)
    then show ?thesis using g at_end by (simp add: drain_stream_def)
  next
    case True
    let ?n = "sg_fin sg - c1"
    obtain br2 where b: "ensure_bits on_amd br1 (4 * ?M) = Some br2" "stream_at t out1 sg d1 br2 c1" "rr_bits_consumed br2 + 4 * ?M \<le> 64"
      using ensure_stream_at [OF g(2) M] by blast
    have "?n * ?M \<le> 4 * ?M" using g(4) by (intro mult_le_mono1) simp
    then have room: "rr_bits_consumed br2 + ?n * ?M \<le> 64" using b(3) by linarith
    obtain d3 br3 out3 where "drain_steps mask_lower_bits ?n d1 br2 out1 c1 = Some (d3, br3, out3)" "stream_at t out3 sg d3 br3 (sg_fin sg)" "only_in sg out1 out3"
      using drain_steps_ok [OF t b(2) _ room] True by auto
    then show ?thesis using True g(1) b(1) at_end only_in_trans [OF g(3)] by (simp add: drain_stream_def)
  qed
qed

text \<open>All streams: each ends with its symbols written, or the first that does not end at its front is reported.\<close>

lemma drain_streams_ok:
  assumes t: "decode_table_ok t"
    and "segs_disjoint sgs" "length ds = length sgs" "length brs = length sgs" "length cs = length sgs"
      "\<forall>i < length sgs. stream_at t out (sgs ! i) (ds ! i) (brs ! i) (cs ! i)"
  shows "case read_streams t (map to_read sgs) of
     Ok ys \<Rightarrow> \<exists>out'. drain_streams on_amd mask_lower_bits (ht_max_num_bits t) (map sg_fin sgs) ds brs out cs = Ok (out', map sg_fin sgs)
         \<and> length out' = length out \<and> (\<forall>i. (\<forall>sg \<in> set sgs. \<not> in_seg sg i) \<longrightarrow> out' ! i = out ! i)
         \<and> (\<forall>sg \<in> set sgs. seg_inv t out' sg (sg_fin sg) 0)
   | Err e \<Rightarrow> drain_streams on_amd mask_lower_bits (ht_max_num_bits t) (map sg_fin sgs) ds brs out cs = Err e
   | Panic \<Rightarrow> False"
  using assms(2-)
proof (induction sgs arbitrary: ds brs cs out)
  case (Cons sg sgs)
  let ?M = "ht_max_num_bits t"
  obtain d ds1 br brs1 c cs1 where l: "ds = d # ds1" "brs = br # brs1" "cs = c # cs1" using Cons.prems(2-4) by (cases ds; cases brs; cases cs) auto
  have dis: "segs_disjoint sgs" "\<And>b i. b \<in> set sgs \<Longrightarrow> in_seg b i \<Longrightarrow> \<not> in_seg sg i"
    using Cons.prems(1) by (auto simp: segs_disjoint_def)
  have st: "stream_at t out sg d br c" "\<And>i. i < length sgs \<Longrightarrow> stream_at t out (sgs ! i) (ds1 ! i) (brs1 ! i) (cs1 ! i)"
    using Cons.prems(5) by (force simp: l)+
  obtain br1 out1 where dr: "drain_stream on_amd mask_lower_bits (4 * ?M) (sg_fin sg) d br out c = Some (br1, out1, sg_fin sg)"
      "seg_inv t out1 sg (sg_fin sg) (bits_remaining br1 + int ?M)" "only_in sg out out1"
    using drain_stream_ok [OF t st(1)] by blast
  have q: "snd (decode_symbols t (sg_src sg) (sg_fin sg - sg_start sg) (sg_p0 sg)) = bits_remaining br1 + int ?M" using dr(2) by (simp add: seg_inv_def)
  show ?case
  proof (cases "bits_remaining br1 = - int ?M")
    case False
    then show ?thesis using dr(1) q by (simp add: l to_read_def [of sg] split_def)
  next
    case True
    have keep: "stream_at t out1 (sgs ! i) (ds1 ! i) (brs1 ! i) (cs1 ! i)" if i: "i < length sgs" for i
    proof -
      obtain p where p: "hd_table (ds1 ! i) = t" "stands_at (ds1 ! i) (brs1 ! i) (sg_src (sgs ! i)) p" "seg_inv t out (sgs ! i) (cs1 ! i) p"
        using st(2) [OF i] by (auto simp: stream_at_def)
      have "seg_inv t out1 (sgs ! i) (cs1 ! i) p"
      proof (rule seg_inv_cong [OF p(3)])
        show "length out1 = length out" using dr(3) by (simp add: only_in_def)
        fix j assume "in_seg (sgs ! i) j"
        then show "out1 ! j = out ! j" using dis(2) [of "sgs ! i" j] i dr(3) by (simp add: only_in_def)
      qed
      then show ?thesis using p by (auto simp: stream_at_def)
    qed
    have IH: "case read_streams t (map to_read sgs) of
       Ok ys \<Rightarrow> \<exists>out'. drain_streams on_amd mask_lower_bits ?M (map sg_fin sgs) ds1 brs1 out1 cs1 = Ok (out', map sg_fin sgs)
           \<and> length out' = length out1 \<and> (\<forall>i. (\<forall>sg \<in> set sgs. \<not> in_seg sg i) \<longrightarrow> out' ! i = out1 ! i)
           \<and> (\<forall>sg \<in> set sgs. seg_inv t out' sg (sg_fin sg) 0)
     | Err e \<Rightarrow> drain_streams on_amd mask_lower_bits ?M (map sg_fin sgs) ds1 brs1 out1 cs1 = Err e
     | Panic \<Rightarrow> False"
      using Cons.IH [OF dis(1), of ds1 brs1 cs1 out1] Cons.prems(2-4) keep by (simp add: l)
    show ?thesis
    proof (cases "read_streams t (map to_read sgs)")
      case (Ok ys)
      then obtain out2 where o: "drain_streams on_amd mask_lower_bits ?M (map sg_fin sgs) ds1 brs1 out1 cs1 = Ok (out2, map sg_fin sgs)"
          "length out2 = length out1" "\<forall>i. (\<forall>sg \<in> set sgs. \<not> in_seg sg i) \<longrightarrow> out2 ! i = out1 ! i" "\<forall>sg \<in> set sgs. seg_inv t out2 sg (sg_fin sg) 0"
        using IH by auto
      have "seg_inv t out2 sg (sg_fin sg) 0"
      proof (rule seg_inv_cong [of t out1])
        show "seg_inv t out1 sg (sg_fin sg) 0" using dr(2) True by simp
        fix j assume "in_seg sg j"
        then show "out2 ! j = out1 ! j" using o(3) dis(2) by blast
      qed (rule o(2))
      then show ?thesis using dr(1,3) q True Ok o by (simp add: l to_read_def [of sg] split_def only_in_def)
    next
      case (Err e)
      then show ?thesis using dr(1) q True IH by (simp add: l to_read_def [of sg] split_def)
    qed (use IH in simp)
  qed
qed simp

end

section \<open>Four streams\<close>

text \<open>Parts that follow each other from \<open>b\<close> to \<open>e\<close>.\<close>

fun chained :: "nat \<Rightarrow> lit_stream list \<Rightarrow> nat \<Rightarrow> bool" where
  "chained b [] e \<longleftrightarrow> b = e"
| "chained b (sg # sgs) e \<longleftrightarrow> sg_start sg = b \<and> b \<le> sg_fin sg \<and> chained (sg_fin sg) sgs e"

lemma chained_bounds: "chained b sgs e \<Longrightarrow> b \<le> e \<and> (\<forall>sg \<in> set sgs. b \<le> sg_start sg \<and> sg_start sg \<le> sg_fin sg \<and> sg_fin sg \<le> e)"
  by (induction sgs arbitrary: b) (auto dest: order_trans)

lemma chained_disjoint: "chained b sgs e \<Longrightarrow> segs_disjoint sgs"
proof (induction sgs arbitrary: b)
  case (Cons sg sgs)
  then have "segs_disjoint sgs" "\<forall>x \<in> set sgs. sg_fin sg \<le> sg_start x" using chained_bounds [of "sg_fin sg" sgs e] by auto
  then show ?case by (auto simp: segs_disjoint_def in_seg_def)
qed (simp add: segs_disjoint_def)

lemma chained_content:
  assumes "chained b sgs e" "e \<le> length out" "\<forall>sg \<in> set sgs. seg_inv t out sg (sg_fin sg) 0" "read_streams t (map to_read sgs) = Ok ys"
  shows "take (e - b) (drop b out) = map Some ys"
  using assms
proof (induction sgs arbitrary: b ys)
  case (Cons sg sgs)
  let ?m = "sg_fin sg" and ?d = "decode_symbols t (sg_src sg) (sg_fin sg - sg_start sg) (sg_p0 sg)"
  have b: "sg_start sg = b" "b \<le> ?m" "chained ?m sgs e" using Cons.prems(1) by simp_all
  have m: "?m \<le> e" using chained_bounds [OF b(3)] by simp
  have sg: "seg_inv t out sg ?m 0" using Cons.prems(3) by simp
  obtain zs where zs: "read_streams t (map to_read sgs) = Ok zs" "ys = fst ?d @ zs"
    using Cons.prems(4) by (auto simp: to_read_def [of sg] split_def Let_def result_iffs split: if_splits)
  have "take (e - ?m) (drop ?m out) = map Some zs" using Cons.IH [OF b(3) Cons.prems(2) _ zs(1)] Cons.prems(3) by simp
  moreover have "take (?m - b) (drop b out) = map Some (fst ?d)"
    using sg b m Cons.prems(2) by (intro nth_equalityI) (auto simp: seg_inv_def)
  moreover have "take (e - b) (drop b out) = take (?m - b) (drop b out) @ take (e - ?m) (drop ?m out)"
    using take_add [of "?m - b" "e - ?m" "drop b out"] b(2) m by simp
  ultimately show ?case using zs(2) by simp
qed simp

context cpu_kernel
begin

lemma open_huff_streams_spec:
  assumes "decode_table_ok t"
  shows "if list_ex (\<lambda>source. stream_marker source = None) sources
     then open_huff_streams on_amd mask_lower_bits t sources = Err (LitExtraPadding 9)
     else \<exists>opened. open_huff_streams on_amd mask_lower_bits t sources = Ok opened
       \<and> list_all2 (\<lambda>source (d, br). hd_table d = t \<and> stands_at d br source (the (stream_marker source))
           \<and> first_window (8 + ht_max_num_bits t) br \<and> ht_max_num_bits t \<le> rr_bits_consumed br) sources opened"
proof (induction sources)
  case (Cons source sources)
  show ?case
  proof (cases "stream_marker source")
    case None
    then show ?thesis using open_huff_stream_spec [OF assms, of on_amd source] by simp
  next
    case (Some p)
    then show ?thesis using open_huff_stream_spec [OF assms, of on_amd source] Cons.IH by (auto split: if_splits)
  qed
qed simp

end

definition segment_lengths :: "nat \<Rightarrow> nat list" where
  "segment_lengths regen =
     (let seg = (regen + 3) div 4 in
      [min seg regen, min (2 * seg) regen - min seg regen, min (3 * seg) regen - min (2 * seg) regen, regen - min (3 * seg) regen])"

text \<open>The section with four streams, symbol by symbol.\<close>

definition four_streams_spec ::
  "huffman_table \<Rightarrow> u8 list \<Rightarrow> u8 list \<Rightarrow> nat \<Rightarrow> nat \<Rightarrow> u8 list \<times> (nat, decompress_literals_error) result" where
  "four_streams_spec t target source regen bytes_read =
     (if length source < 6 then (target, Err (MissingBytesForJumpHeader (length source)))
      else
        let jump1 = unat (source ! 0) + 256 * unat (source ! 1);
            jump2 = jump1 + unat (source ! 2) + 256 * unat (source ! 3);
            jump3 = jump2 + unat (source ! 4) + 256 * unat (source ! 5);
            bytes_read = bytes_read + 6;
            source = drop 6 source in
        if length source < jump3 then (target, Err (MissingBytesForLiterals (length source) jump3))
        else
          case huff_streams t (zip [take jump1 source, take (jump2 - jump1) (drop jump1 source), take (jump3 - jump2) (drop jump2 source), drop jump3 source]
                 (segment_lengths regen)) of
            Ok ys \<Rightarrow> (target @ ys, Ok (bytes_read + length source))
          | Err e \<Rightarrow> (target, Err e)
          | Panic \<Rightarrow> (target, Panic))"

lemma list_ex_zip_fst: "length xs = length ys \<Longrightarrow> list_ex (\<lambda>(x, y). P x) (zip xs ys) = list_ex P xs"
  by (induction xs ys rule: list_induct2) auto

context cpu_kernel
begin

lemma burst_and_drain_ok:
  assumes t: "decode_table_ok t" and ch: "chained b sgs upper" and ne: "sgs \<noteq> []" and len: "length room = upper"
    and opened: "list_all2 (\<lambda>sg (d, br). stream_ready t sg d br) sgs opened"
  shows "case read_streams t (map to_read sgs) of
     Ok ys \<Rightarrow> \<exists>room'. burst_and_drain on_amd mask_lower_bits t upper (map sg_start sgs) (map sg_fin sgs) opened room = Ok (room', map sg_fin sgs)
         \<and> room' = take b room @ map Some ys
   | Err e \<Rightarrow> burst_and_drain on_amd mask_lower_bits t upper (map sg_start sgs) (map sg_fin sgs) opened room = Err e
   | Panic \<Rightarrow> False"
proof -
  let ?M = "ht_max_num_bits t" and ?lens = "map2 (\<lambda>e s. e - s) (map sg_fin sgs) (map sg_start sgs)"
  let ?tb = "if ?M = 10 then 10 else if ?M = 11 then 11 else 0 :: nat"
  define sl where "sl = min_list ?lens"
  have lens: "?lens = map (\<lambda>sg. sg_fin sg - sg_start sg) sgs" by (simp add: map2_map_map)
  have "?lens \<noteq> []" using ne lens by simp
  then have "sl \<le> x" if "x \<in> set ?lens" for x using that unfolding sl_def by (simp add: min_list_Min)
  then have sl: "sl \<le> sg_fin sg - sg_start sg" if "sg \<in> set sgs" for sg using that unfolding lens by auto
  have bo: "\<forall>sg \<in> set sgs. sg_start sg + sl \<le> sg_fin sg \<and> sg_fin sg \<le> length room"
  proof
    fix sg assume "sg \<in> set sgs"
    then show "sg_start sg + sl \<le> sg_fin sg \<and> sg_fin sg \<le> length room" using sl [of sg] chained_bounds [OF ch] len by fastforce
  qed
  have bf: "bounds_for t sgs sl (burst_bounds ?M (map sg_start sgs) (map sg_fin sgs) upper)"
    using ne by (simp add: bounds_for_def burst_bounds_def Let_def sl_def)
  have zip: "zip (map fst opened) (map snd opened) = opened" by (simp add: zip_map_fst_snd)
  have tb: "?tb = 0 \<or> ?tb = ?M" by simp
  have lo: "length opened = length sgs" using opened by (simp add: list_all2_lengthD)
  obtain ds brs room1 cs where r: "run_4stream_burst_loop ?tb (map fst opened) (map snd opened) room (ht_packed_decode t) (map sg_start sgs)
      (burst_bounds ?M (map sg_start sgs) (map sg_fin sgs) upper) = Some (ds, brs, room1, cs)"
      "length ds = length sgs" "length brs = length sgs" "length cs = length sgs" "length room1 = length room"
      "\<forall>i < length sgs. stream_at t room1 (sgs ! i) (ds ! i) (brs ! i) (cs ! i)"
      "\<forall>i. (\<forall>sg \<in> set sgs. \<not> in_seg sg i) \<longrightarrow> room1 ! i = room ! i"
    using run_4stream_burst_loop_ok [OF t chained_disjoint [OF ch] ne tb _ _ _ bo bf, of "map fst opened" "map snd opened"] opened lo
    unfolding zip by auto
  have eq: "burst_and_drain on_amd mask_lower_bits t upper (map sg_start sgs) (map sg_fin sgs) opened room
      = drain_streams on_amd mask_lower_bits ?M (map sg_fin sgs) ds brs room1 cs"
    using r(1) by (simp add: burst_and_drain_def)
  note dr = drain_streams_ok [OF t chained_disjoint [OF ch] r(2-4,6), of on_amd]
  show ?thesis
  proof (cases "read_streams t (map to_read sgs)")
    case (Ok ys)
    then obtain room' where o: "drain_streams on_amd mask_lower_bits ?M (map sg_fin sgs) ds brs room1 cs = Ok (room', map sg_fin sgs)"
        "length room' = length room1" "\<forall>i. (\<forall>sg \<in> set sgs. \<not> in_seg sg i) \<longrightarrow> room' ! i = room1 ! i"
        "\<forall>sg \<in> set sgs. seg_inv t room' sg (sg_fin sg) 0"
      using dr by auto
    have "upper \<le> length room'" "b \<le> upper" using o(2) r(5) len chained_bounds [OF ch] by simp_all
    then have "drop b room' = map Some ys" using chained_content [OF ch _ o(4) Ok] o(2) r(5) len by simp
    moreover have "take b room' = take b room"
    proof (rule nth_equalityI)
      fix i assume "i < length (take b room')"
      then have "i < b" by simp
      then have "\<forall>sg \<in> set sgs. \<not> in_seg sg i" using chained_bounds [OF ch] by (fastforce simp: in_seg_def)
      then show "take b room' ! i = take b room ! i" using o(3) r(7) \<open>i < b\<close> by simp
    qed (use o(2) r(5) in simp)
    ultimately have "room' = take b room @ map Some ys" by (metis append_take_drop_id)
    then show ?thesis using Ok eq o(1) by simp
  qed (use dr eq in auto)
qed

end

text \<open>The part of each stream, from the cut points of the output.\<close>

definition part :: "u8 list \<Rightarrow> nat \<Rightarrow> nat \<Rightarrow> lit_stream" where
  "part source s e = \<lparr>sg_src = source, sg_start = s, sg_fin = e, sg_p0 = the (stream_marker source)\<rparr>"

definition four_parts :: "u8 list list \<Rightarrow> nat \<Rightarrow> nat \<Rightarrow> lit_stream list" where
  "four_parts streams base regen =
     (let seg = (regen + 3) div 4; s1 = min (base + seg) (base + regen); s2 = min (base + 2 * seg) (base + regen);
          s3 = min (base + 3 * seg) (base + regen)
      in [part (streams ! 0) base s1, part (streams ! 1) s1 s2, part (streams ! 2) s2 s3, part (streams ! 3) s3 (base + regen)])"

lemma part_simps [simp]:
  "sg_src (part source s e) = source" "sg_start (part source s e) = s" "sg_fin (part source s e) = e"
  "sg_p0 (part source s e) = the (stream_marker source)" "to_read (part source s e) = (source, the (stream_marker source), e - s)"
  by (simp_all add: part_def to_read_def)

lemma telescope: "\<lbrakk>x \<le> y; y \<le> z; z \<le> (r :: nat)\<rbrakk> \<Longrightarrow> x + (y - x) + (z - y) + (r - z) = r"
  by simp

lemma four_parts_facts:
  "chained base (four_parts [a, b, c, d] base regen) (base + regen)" "four_parts [a, b, c, d] base regen \<noteq> []"
  "map sg_src (four_parts [a, b, c, d] base regen) = [a, b, c, d]"
  "map to_read (four_parts [a, b, c, d] base regen) = map (\<lambda>(source, n). (source, the (stream_marker source), n)) (zip [a, b, c, d] (segment_lengths regen))"
  "sum_list (map2 (\<lambda>c s. c - s) (map sg_fin (four_parts [a, b, c, d] base regen)) (map sg_start (four_parts [a, b, c, d] base regen))) = regen"
  "\<forall>sg \<in> set (four_parts [a, b, c, d] base regen). sg_p0 sg = the (stream_marker (sg_src sg))"
proof -
  define seg where "seg = (regen + 3) div 4"
  have m: "min (base + x) (base + y) = base + min x y" for x y by (simp add: min_def)
  have fp: "four_parts [a, b, c, d] base regen =
      [part a base (base + min seg regen), part b (base + min seg regen) (base + min (2 * seg) regen),
       part c (base + min (2 * seg) regen) (base + min (3 * seg) regen), part d (base + min (3 * seg) regen) (base + regen)]"
    unfolding four_parts_def Let_def seg_def [symmetric] m by simp
  have le: "min seg regen \<le> min (2 * seg) regen" "min (2 * seg) regen \<le> min (3 * seg) regen" "min (3 * seg) regen \<le> regen" by (simp_all add: min_def)
  show "chained base (four_parts [a, b, c, d] base regen) (base + regen)" unfolding fp using le by simp
  show "four_parts [a, b, c, d] base regen \<noteq> []" unfolding fp by simp
  show "map sg_src (four_parts [a, b, c, d] base regen) = [a, b, c, d]" unfolding fp by simp
  show "map to_read (four_parts [a, b, c, d] base regen) = map (\<lambda>(source, n). (source, the (stream_marker source), n)) (zip [a, b, c, d] (segment_lengths regen))"
    unfolding fp by (simp add: segment_lengths_def seg_def Let_def)
  show "\<forall>sg \<in> set (four_parts [a, b, c, d] base regen). sg_p0 sg = the (stream_marker (sg_src sg))" unfolding fp by simp
  have "min seg regen + (min (2 * seg) regen - min seg regen) + (min (3 * seg) regen - min (2 * seg) regen) + (regen - min (3 * seg) regen) = regen"
    by (rule telescope [OF le])
  then show "sum_list (map2 (\<lambda>c s. c - s) (map sg_fin (four_parts [a, b, c, d] base regen)) (map sg_start (four_parts [a, b, c, d] base regen))) = regen"
    unfolding fp by (simp add: add.assoc)
qed

lemma nth_of_four: "[w, x, y, z] ! 1 = x" "[w, x, y, z] ! 2 = y" "[w, x, y, z] ! 3 = z"
  by simp_all

lemma four_parts_cuts:
  "map sg_start (four_parts [a, b, c, d] base regen) =
     [base, min (base + (regen + 3) div 4) (base + regen), min (base + 2 * ((regen + 3) div 4)) (base + regen), min (base + 3 * ((regen + 3) div 4)) (base + regen)]"
  "map sg_fin (four_parts [a, b, c, d] base regen) =
     [min (base + (regen + 3) div 4) (base + regen), min (base + 2 * ((regen + 3) div 4)) (base + regen), min (base + 3 * ((regen + 3) div 4)) (base + regen), base + regen]"
  unfolding four_parts_def Let_def by (simp_all only: list.map part_simps)

context cpu_kernel
begin

lemma four_core:
  fixes a b c d :: "u8 list"
  defines streams: "streams \<equiv> [a, b, c, d]"
  assumes t: "decode_table_ok t"
    and starts: "starts = map sg_start (four_parts [a, b, c, d] (length target) regen)" and fins: "fins = map sg_fin (four_parts [a, b, c, d] (length target) regen)"
  shows "(case open_huff_streams on_amd mask_lower_bits t streams of
       Err e \<Rightarrow> (target, Err e) | Panic \<Rightarrow> (target, Panic)
     | Ok opened \<Rightarrow>
         (case burst_and_drain on_amd mask_lower_bits t (length target + regen) starts fins opened (map Some target @ replicate regen None) of
            Err e \<Rightarrow> (target, Err e) | Panic \<Rightarrow> (target, Panic)
          | Ok (room, cursors) \<Rightarrow>
              let decoded = sum_list (map2 (\<lambda>c s. c - s) cursors starts) in
              if decoded \<noteq> regen then (target, Err (DecodedLiteralCountMismatch decoded regen))
              else if list_ex (\<lambda>b. b = None) room then (target, Panic)
              else (map the room, Ok n)))
     = (case huff_streams t (zip streams (segment_lengths regen)) of
          Ok ys \<Rightarrow> (target @ ys, Ok n) | Err e \<Rightarrow> (target, Err e) | Panic \<Rightarrow> (target, Panic))"
proof -
  define sgs where "sgs = four_parts [a, b, c, d] (length target) regen"
  note fp = four_parts_facts [where base = "length target" and a = a and b = b and c = c and d = d and regen = regen, folded sgs_def streams]
  have ls: "length streams = length (segment_lengths regen)" by (simp add: streams segment_lengths_def Let_def)
  note os = open_huff_streams_spec [OF t, of streams on_amd]
  show ?thesis
  proof (cases "list_ex (\<lambda>source. stream_marker source = None) streams")
    case True
    then show ?thesis using os list_ex_zip_fst [OF ls, of "\<lambda>source. stream_marker source = None"] by (simp add: huff_streams_def)
  next
    case False
    then obtain opened where o: "open_huff_streams on_amd mask_lower_bits t streams = Ok opened"
        "list_all2 (\<lambda>source (d, br). hd_table d = t \<and> stands_at d br source (the (stream_marker source))
           \<and> first_window (8 + ht_max_num_bits t) br \<and> ht_max_num_bits t \<le> rr_bits_consumed br) streams opened"
      using os by auto
    have "list_all2 (\<lambda>sg (d, br). stream_ready t sg d br) sgs opened"
      using o(2) unfolding fp(3) [symmetric] list_all2_map1 by (rule list.rel_mono_strong) (use fp(6) in \<open>auto simp: stream_ready_def\<close>)
    moreover have "length (map Some target @ replicate regen None) = length target + regen" by simp
    ultimately have bd: "case read_streams t (map to_read sgs) of
       Ok ys \<Rightarrow> \<exists>room'. burst_and_drain on_amd mask_lower_bits t (length target + regen) starts fins opened (map Some target @ replicate regen None)
             = Ok (room', fins) \<and> room' = take (length target) (map Some target @ replicate regen None) @ map Some ys
     | Err e \<Rightarrow> burst_and_drain on_amd mask_lower_bits t (length target + regen) starts fins opened (map Some target @ replicate regen None) = Err e
     | Panic \<Rightarrow> False"
      unfolding starts fins sgs_def [symmetric] by (intro burst_and_drain_ok [OF t fp(1,2)])
    have hs: "huff_streams t (zip streams (segment_lengths regen)) = read_streams t (map to_read sgs)"
      using False list_ex_zip_fst [OF ls, of "\<lambda>source. stream_marker source = None"] by (simp add: huff_streams_def fp(4))
    have sum: "sum_list (map2 (\<lambda>c s. c - s) fins starts) = regen" using fp(5) by (simp add: starts fins sgs_def)
    show ?thesis
      using bd by (cases "read_streams t (map to_read sgs)") (auto simp: o(1) hs sum Let_def list_ex_iff o_def)
  qed
qed

lemma decode_four_streams_spec:
  assumes t: "decode_table_ok t"
  shows "decode_four_streams on_amd mask_lower_bits t target source regen n = four_streams_spec t target source regen n"
proof -
  have M: "ht_max_num_bits t \<noteq> 0" using t by (simp add: decode_table_ok_def)
  show ?thesis
    unfolding decode_four_streams_def four_streams_spec_def Let_def if_not_P [OF M]
    by (simp only: nth_of_four four_core [OF t refl refl, unfolded four_parts_cuts Let_def])
qed

end

section \<open>One stream\<close>

context cpu_kernel
begin

lemma push_symbols_ok:
  assumes t: "decode_table_ok t" and "hd_table d = t" "stands_at d br source p"
  shows "\<exists>n br'. push_symbols on_amd mask_lower_bits d br target = Some (br', target @ fst (decode_symbols t source n p))
     \<and> bits_remaining br' = snd (decode_symbols t source n p) - int (ht_max_num_bits t) \<and> snd (decode_symbols t source n p) \<le> 0
     \<and> (\<forall>m < n. 0 < snd (decode_symbols t source m p))"
  using assms(2-)
proof (induction "nat p" arbitrary: d br p target rule: less_induct)
  case less
  have br: "bits_remaining br = p - int (ht_max_num_bits t)" using less.prems by (simp add: stands_at_def)
  show ?case
  proof (cases "p > 0")
    case False
    then have "push_symbols on_amd mask_lower_bits d br target = Some (br, target)"
      using br less.prems(1) by (subst push_symbols.simps) simp
    then show ?thesis using False br by (intro exI [of _ 0] exI [of _ br]) simp
  next
    case True
    define e where "e = entry_at t source p"
    have e: "0 < entry_num_bits e" using entry_at_mem(2) [OF t] by (simp add: e_def)
    let ?p = "p - int (entry_num_bits e)"
    obtain d' br' where s: "decode_symbol_and_advance on_amd mask_lower_bits d br = Some (entry_symbol e, d', br')" "hd_table d' = t" "stands_at d' br' source ?p"
      using decode_symbol_and_advance_ok [of d br source p e on_amd] t less.prems e_def by auto
    have "nat ?p < nat p" using True e by simp
    from less.hyps [OF this s(2,3), of "target @ [entry_symbol e]"] obtain n br2 where
        n: "push_symbols on_amd mask_lower_bits d' br' (target @ [entry_symbol e]) = Some (br2, (target @ [entry_symbol e]) @ fst (decode_symbols t source n ?p))"
        "bits_remaining br2 = snd (decode_symbols t source n ?p) - int (ht_max_num_bits t)" "snd (decode_symbols t source n ?p) \<le> 0"
        "\<forall>m < n. 0 < snd (decode_symbols t source m ?p)" by blast
    have step: "decode_symbols t source (Suc m) p = (entry_symbol e # fst (decode_symbols t source m ?p), snd (decode_symbols t source m ?p))" for m
      by (simp add: Let_def e_def split_def)
    have "0 < snd (decode_symbols t source m p)" if "m < Suc n" for m
      using that True n(4) step by (cases m) auto
    moreover have "push_symbols on_amd mask_lower_bits d br target = push_symbols on_amd mask_lower_bits d' br' (target @ [entry_symbol e])"
      using True br less.prems(1) s(1) by (subst push_symbols.simps) simp
    ultimately show ?thesis using n step [of n] by (intro exI [of _ "Suc n"] exI [of _ br2]) simp
  qed
qed

text \<open>One stream gives the symbols asked for exactly when that many symbols end at the front of the stream.\<close>

lemma decode_one_stream_spec:
  assumes t: "decode_table_ok t" and d: "decode_one_stream on_amd mask_lower_bits t target source k = (target', r)"
  shows "case r of
       Ok m \<Rightarrow> m = k + length source \<and> (\<exists>ys. target' = target @ ys
          \<and> (\<forall>zs. huff_streams t [(source, regen)] = Ok zs \<longleftrightarrow> length ys = regen \<and> zs = ys))
     | Err e \<Rightarrow> target' = target \<and> (\<exists>e. huff_streams t [(source, regen)] = Err e)
     | Panic \<Rightarrow> False"
proof (cases "stream_marker source")
  case None
  then show ?thesis using d open_huff_stream_spec [OF t, of on_amd source] by (auto simp: decode_one_stream_def huff_streams_def)
next
  case (Some p)
  obtain dc br where o: "open_huff_stream on_amd mask_lower_bits t source = Ok (dc, br)" "hd_table dc = t" "stands_at dc br source p"
    using open_huff_stream_spec [OF t, of on_amd source] Some by auto
  obtain n br' where n: "push_symbols on_amd mask_lower_bits dc br target = Some (br', target @ fst (decode_symbols t source n p))"
      "bits_remaining br' = snd (decode_symbols t source n p) - int (ht_max_num_bits t)" "snd (decode_symbols t source n p) \<le> 0"
      "\<forall>m < n. 0 < snd (decode_symbols t source m p)"
    using push_symbols_ok [OF t o(2,3)] by blast
  have hs: "huff_streams t [(source, regen)] =
      (if snd (decode_symbols t source regen p) = 0 then Ok (fst (decode_symbols t source regen p))
       else Err (BitstreamReadMismatch (snd (decode_symbols t source regen p) - int (ht_max_num_bits t)) (- int (ht_max_num_bits t))))"
    using Some by (simp add: huff_streams_def split_def Let_def)
  have only: "regen = n" if z: "snd (decode_symbols t source regen p) = 0"
  proof (rule ccontr)
    assume "regen \<noteq> n"
    moreover have "\<not> regen < n" using n(4) z by fastforce
    ultimately obtain j where "regen = n + Suc j" using less_imp_Suc_add [of n regen] by auto
    then have "snd (decode_symbols t source regen p) \<le> snd (decode_symbols t source n p) - int (Suc j)"
      using decode_symbols_bound(1) [OF t, of source "Suc j" "snd (decode_symbols t source n p)"] decode_symbols_add [of t source n "Suc j" p]
      by (simp add: split_def Let_def)
    then show False using z n(3) by simp
  qed
  show ?thesis
  proof (cases "snd (decode_symbols t source n p) = 0")
    case True
    then have "r = Ok (k + length source)" "target' = target @ fst (decode_symbols t source n p)"
      using d o(1) n(1,2) by (simp_all add: decode_one_stream_def)
    then show ?thesis using True only hs by (auto simp: length_decode_symbols split: if_splits)
  next
    case False
    then have "r = Err (BitstreamReadMismatch (bits_remaining br') (- int (ht_max_num_bits t)))" "target' = target"
      using d o(1) n(1,2) by (simp_all add: decode_one_stream_def)
    then show ?thesis using False only hs by auto
  qed
qed

end

end
