(* ===== verification/Literals.thy ===== *)
theory Literals
  imports Lit_Streams Flat_Buf
begin

text \<open>
  The literals section of a compressed block (\<^verbatim>\<open>zstd/src/decoding/literals_section_decoder.rs\<close>) with the Huffman workspace of
  \<^verbatim>\<open>zstd/src/decoding/scratch.rs\<close>. The table in use is the local one or the dictionary's; the dictionary enters as its Huffman
  table. A view is the literals with the bytes behind them that the copiers may read. The scratch and the target are returned
  with the result, as an error leaves both changed.
\<close>

section \<open>The workspace\<close>

datatype table_source = HufLocal | HufDict

record huffman_scratch =
  hs_table :: huffman_table
  hs_table_source :: table_source

definition huffman_scratch_new :: huffman_scratch where
  "huffman_scratch_new = \<lparr>hs_table = huffman_table_new, hs_table_source = HufLocal\<rparr>"

definition huf_table :: "huffman_scratch \<Rightarrow> huffman_table option \<Rightarrow> huffman_table option" where
  "huf_table scratch dict = (case hs_table_source scratch of HufLocal \<Rightarrow> Some (hs_table scratch) | HufDict \<Rightarrow> dict)"

definition huf_attach_dict :: "huffman_scratch \<Rightarrow> huffman_scratch" where
  "huf_attach_dict scratch = scratch\<lparr>hs_table_source := HufDict\<rparr>"

definition huf_detach_dict :: "huffman_scratch \<Rightarrow> huffman_scratch" where
  "huf_detach_dict scratch = scratch\<lparr>hs_table_source := HufLocal\<rparr>"

definition mark_table_local :: "huffman_scratch \<Rightarrow> huffman_scratch" where
  "mark_table_local scratch = scratch\<lparr>hs_table_source := HufLocal\<rparr>"

definition huf_reinit_resolved_from :: "huffman_scratch \<Rightarrow> huffman_scratch \<Rightarrow> huffman_table option \<Rightarrow> huffman_scratch option" where
  "huf_reinit_resolved_from scratch other dict =
     Option.bind (huf_table other dict) (\<lambda>table. Some (huf_detach_dict (scratch\<lparr>hs_table := huffman_reinit_from (hs_table scratch) table\<rparr>)))"

definition huf_reset_entropy :: "huffman_scratch \<Rightarrow> huffman_scratch" where
  "huf_reset_entropy scratch =
     huf_detach_dict (if ht_max_num_bits (hs_table scratch) \<noteq> 0 then scratch\<lparr>hs_table := huffman_reset (hs_table scratch)\<rparr> else scratch)"

section \<open>Decoding a section\<close>

definition read_tree ::
  "bool \<Rightarrow> literals_section_type \<Rightarrow> huffman_scratch \<Rightarrow> huffman_table option \<Rightarrow> u8 list
     \<Rightarrow> huffman_scratch \<times> (nat, decompress_literals_error) result" where
  "read_tree on_amd ty scratch dict source =
     (case ty of
        LitCompressed \<Rightarrow>
          (case huffman_build_decoder on_amd (hs_table scratch) source of
             (t, Ok n) \<Rightarrow> (mark_table_local (scratch\<lparr>hs_table := t\<rparr>), Ok n)
           | (t, Err e) \<Rightarrow> (scratch\<lparr>hs_table := t\<rparr>, Err (LitHuffmanTableError e))
           | (t, Panic) \<Rightarrow> (scratch\<lparr>hs_table := t\<rparr>, Panic))
      | LitTreeless \<Rightarrow>
          (case huf_table scratch dict of
             None \<Rightarrow> (scratch, Panic)
           | Some t \<Rightarrow> (scratch, if ht_max_num_bits t = 0 then Err UninitializedHuffmanTable else Ok 0))
      | _ \<Rightarrow> (scratch, Ok 0))"

definition decode_streams ::
  "bool \<Rightarrow> (u64 \<Rightarrow> nat \<Rightarrow> u64) \<Rightarrow> nat \<Rightarrow> huffman_table \<Rightarrow> u8 list \<Rightarrow> u8 list \<Rightarrow> nat \<Rightarrow> nat
     \<Rightarrow> u8 list \<times> (nat, decompress_literals_error) result" where
  "decode_streams on_amd mlb num_streams table target source regen bytes_read =
     (case (if num_streams = 4 then decode_four_streams on_amd mlb table target source regen bytes_read
            else if num_streams = 1 then decode_one_stream on_amd mlb table target source bytes_read
            else (target, Panic)) of
        (target', Ok bytes_read) \<Rightarrow>
          if length target' \<noteq> length target + regen
          then (target, Err (DecodedLiteralCountMismatch (length target' - length target) regen))
          else (target', Ok bytes_read)
      | (target', Err e) \<Rightarrow> (target', Err e)
      | (target', Panic) \<Rightarrow> (target', Panic))"

definition decompress_literals_impl ::
  "bool \<Rightarrow> (u64 \<Rightarrow> nat \<Rightarrow> u64) \<Rightarrow> literals_section \<Rightarrow> huffman_scratch \<Rightarrow> huffman_table option \<Rightarrow> u8 list \<Rightarrow> u8 list
     \<Rightarrow> huffman_scratch \<times> u8 list \<times> (nat, decompress_literals_error) result" where
  "decompress_literals_impl on_amd mlb section scratch dict source target =
     (case ls_compressed_size section of None \<Rightarrow> (scratch, target, Err MissingCompressedSize) | Some compressed_size \<Rightarrow>
      case ls_num_streams section of None \<Rightarrow> (scratch, target, Err MissingNumStreams) | Some num_streams \<Rightarrow>
      if length source < compressed_size then (scratch, target, Err (MissingBytesForLiterals (length source) compressed_size))
      else
        let source = take compressed_size source in
        case read_tree on_amd (ls_type section) scratch dict source of
          (scratch, Err e) \<Rightarrow> (scratch, target, Err e)
        | (scratch, Panic) \<Rightarrow> (scratch, target, Panic)
        | (scratch, Ok bytes_read) \<Rightarrow>
            if length source < bytes_read then (scratch, target, Panic)
            else
              (case huf_table scratch dict of
                 None \<Rightarrow> (scratch, target, Panic)
               | Some table \<Rightarrow>
                   (scratch, decode_streams on_amd mlb num_streams table target (drop bytes_read source) (ls_regenerated_size section) bytes_read)))"

record literals_view =
  lv_data :: "u8 list"
  lv_len :: nat
  lv_bytes_used :: nat

text \<open>\<open>Vec::resize\<close>\<close>

definition vec_resize :: "u8 list \<Rightarrow> nat \<Rightarrow> u8 \<Rightarrow> u8 list" where
  "vec_resize v new_len x = take new_len v @ replicate (new_len - length v) x"

definition bytes_used_raw :: "literals_section \<Rightarrow> nat" where
  "bytes_used_raw section = ls_regenerated_size section"

definition pad_with_slack ::
  "u8 list \<Rightarrow> nat \<Rightarrow> nat \<Rightarrow> nat \<Rightarrow> bool \<Rightarrow> u8 list \<times> (literals_view, decompress_literals_error) result" where
  "pad_with_slack target base n bytes_used needs_slack =
     (let target = (if needs_slack then vec_resize target (base + n + WILDCOPY_OVERLENGTH) 0 else target)
      in (target, Ok \<lparr>lv_data = drop base target, lv_len = n, lv_bytes_used = bytes_used\<rparr>))"

definition decode_literals_zerocopy ::
  "bool \<Rightarrow> (u64 \<Rightarrow> nat \<Rightarrow> u64) \<Rightarrow> literals_section \<Rightarrow> huffman_scratch \<Rightarrow> huffman_table option \<Rightarrow> u8 list \<Rightarrow> nat \<Rightarrow> bool \<Rightarrow> u8 list
     \<Rightarrow> huffman_scratch \<times> u8 list \<times> (literals_view, decompress_literals_error) result" where
  "decode_literals_zerocopy on_amd mlb section scratch dict source payload_len needs_slack target =
     (let base = length target; n = ls_regenerated_size section in
      case ls_type section of
        LitRaw \<Rightarrow>
          if length source < n then (scratch, target, Err (MissingBytesForLiterals (length source) n))
          else if \<not> needs_slack \<or> length source \<ge> n + WILDCOPY_OVERLENGTH then
            let view_end = (if needs_slack then n + WILDCOPY_OVERLENGTH else n) in
            (scratch, target, Ok \<lparr>lv_data = take view_end source, lv_len = n, lv_bytes_used = n\<rparr>)
          else (scratch, pad_with_slack (target @ take n source) base n (bytes_used_raw section) needs_slack)
      | LitRLE \<Rightarrow>
          if source = [] then (scratch, target, Err (MissingBytesForLiterals 0 1))
          else (scratch, pad_with_slack (vec_resize target (base + n) (source ! 0)) base n 1 needs_slack)
      | _ \<Rightarrow>
          let payload = take (min payload_len (length source)) source in
          case decompress_literals_impl on_amd mlb section scratch dict payload target of
            (scratch, target, Err e) \<Rightarrow> (scratch, target, Err e)
          | (scratch, target, Panic) \<Rightarrow> (scratch, target, Panic)
          | (scratch, target, Ok bytes_used) \<Rightarrow> (scratch, pad_with_slack target base (length target - base) bytes_used needs_slack))"

section \<open>The specification\<close>

text \<open>What the streams of a section hold, read symbol by symbol.\<close>

definition streams_content :: "huffman_table \<Rightarrow> nat \<Rightarrow> u8 list \<Rightarrow> nat \<Rightarrow> (u8 list, decompress_literals_error) result" where
  "streams_content t num_streams source regen =
     (if num_streams = 4 then (case four_streams_spec t [] source regen 0 of (ys, Ok _) \<Rightarrow> Ok ys | (_, Err e) \<Rightarrow> Err e | (_, Panic) \<Rightarrow> Panic)
      else huff_streams t [(source, regen)])"

text \<open>A workspace in which every table that would be used is absent or can be stepped.\<close>

definition huf_live_ok :: "huffman_scratch \<Rightarrow> huffman_table option \<Rightarrow> bool" where
  "huf_live_ok scratch dict \<longleftrightarrow> huffman_scratch_ok (hs_table scratch)
     \<and> (\<exists>t. huf_table scratch dict = Some t \<and> (ht_max_num_bits t = 0 \<or> decode_table_ok t))"

lemma length_read_streams: "read_streams t ss = Ok ys \<Longrightarrow> length ys = sum_list (map (snd \<circ> snd) ss)"
proof (induction ss arbitrary: ys)
  case (Cons s ss)
  obtain source p n where s: "s = (source, p, n)" by (cases s)
  obtain zs where "read_streams t ss = Ok zs" "ys = fst (decode_symbols t source n p) @ zs"
    using Cons.prems by (auto simp: s split_def Let_def result_iffs split: if_splits)
  then show ?case using Cons.IH by (simp add: s)
qed simp

lemma sum_segment_lengths: "sum_list (segment_lengths regen) = regen"
proof -
  define seg where "seg = (regen + 3) div 4"
  have le: "min seg regen \<le> min (2 * seg) regen" "min (2 * seg) regen \<le> min (3 * seg) regen" "min (3 * seg) regen \<le> regen" by (simp_all add: min_def)
  have "sum_list (segment_lengths regen) =
      min seg regen + (min (2 * seg) regen - min seg regen) + (min (3 * seg) regen - min (2 * seg) regen) + (regen - min (3 * seg) regen)"
    unfolding segment_lengths_def Let_def seg_def [symmetric] by (simp only: sum_list.Cons sum_list.Nil add_0_right add.assoc)
  also have "\<dots> = regen" by (rule telescope [OF le])
  finally show ?thesis .
qed

lemma length_four_huff_streams:
  "\<lbrakk>huff_streams t (zip [a, b, c, d] (segment_lengths regen)) = Ok ys\<rbrakk> \<Longrightarrow> length ys = regen"
proof -
  assume h: "huff_streams t (zip [a, b, c, d] (segment_lengths regen)) = Ok ys"
  have "map (snd \<circ> snd) (map (\<lambda>(source, n). (source, the (stream_marker source), n)) (zip [a, b, c, d] (segment_lengths regen))) = segment_lengths regen"
    by (simp add: segment_lengths_def Let_def)
  then show ?thesis using h length_read_streams [of t _ ys] sum_segment_lengths [of regen] by (auto simp: huff_streams_def split: if_splits)
qed

lemma read_streams_not_Panic: "read_streams t ss \<noteq> Panic"
  by (induction ss) (auto simp: split_def Let_def result_iffs split: if_splits)

lemma huff_streams_not_Panic: "huff_streams t ss \<noteq> Panic"
  by (simp add: huff_streams_def read_streams_not_Panic)

lemma four_streams_spec_content:
  assumes "four_streams_spec t target source regen k = (target', r)"
  shows "case r of
       Ok m \<Rightarrow> m = k + length source \<and> (\<exists>ys. target' = target @ ys \<and> length ys = regen \<and> streams_content t 4 source regen = Ok ys)
     | Err e \<Rightarrow> target' = target \<and> streams_content t 4 source regen = Err e
     | Panic \<Rightarrow> False"
proof -
  define j1 where "j1 = unat (source ! 0) + 256 * unat (source ! 1)"
  define j2 where "j2 = j1 + unat (source ! 2) + 256 * unat (source ! 3)"
  define j3 where "j3 = j2 + unat (source ! 4) + 256 * unat (source ! 5)"
  define h where "h = huff_streams t (zip [take j1 (drop 6 source), take (j2 - j1) (drop j1 (drop 6 source)), take (j3 - j2) (drop j2 (drop 6 source)), drop j3 (drop 6 source)] (segment_lengths regen))"
  have eq: "four_streams_spec t tg source regen kk = (if length source < 6 then (tg, Err (MissingBytesForJumpHeader (length source)))
      else if length (drop 6 source) < j3 then (tg, Err (MissingBytesForLiterals (length (drop 6 source)) j3))
      else case h of Ok ys \<Rightarrow> (tg @ ys, Ok (kk + 6 + length (drop 6 source))) | Err e \<Rightarrow> (tg, Err e) | Panic \<Rightarrow> (tg, Panic))" for tg kk
    unfolding four_streams_spec_def Let_def h_def j3_def j2_def j1_def by (rule refl)
  have len: "length ys = regen" if "h = Ok ys" for ys using that length_four_huff_streams unfolding h_def by blast
  have np: "h \<noteq> Panic" unfolding h_def by (rule huff_streams_not_Panic)
  show ?thesis
    using assms len np unfolding streams_content_def eq by (cases h) (auto split: if_splits)
qed

context cpu_kernel
begin

lemma decode_streams_spec:
  assumes t: "decode_table_ok t" and ns: "num_streams = 1 \<or> num_streams = 4"
    and d: "decode_streams on_amd mask_lower_bits num_streams t target source regen k = (target', r)"
  shows "case r of
       Ok m \<Rightarrow> m = k + length source \<and> (\<exists>ys. target' = target @ ys \<and> length ys = regen \<and> streams_content t num_streams source regen = Ok ys)
     | Err e \<Rightarrow> target' = target \<and> (\<exists>e. streams_content t num_streams source regen = Err e)
     | Panic \<Rightarrow> False"
proof (cases "num_streams = 4")
  case True
  obtain tg r' where f: "four_streams_spec t target source regen k = (tg, r')" by fastforce
  have d': "decode_streams on_amd mask_lower_bits num_streams t target source regen k = (case (tg, r') of
        (target', Ok bytes_read) \<Rightarrow>
          if length target' \<noteq> length target + regen then (target, Err (DecodedLiteralCountMismatch (length target' - length target) regen))
          else (target', Ok bytes_read)
      | (target', Err e) \<Rightarrow> (target', Err e) | (target', Panic) \<Rightarrow> (target', Panic))"
    using True f decode_four_streams_spec [OF t, of on_amd target source regen k] by (simp add: decode_streams_def)
  show ?thesis using four_streams_spec_content [OF f] d [unfolded d'] unfolding True by (cases r') auto
next
  case False
  then have n1: "num_streams = 1" using ns by simp
  obtain tg r' where f: "decode_one_stream on_amd mask_lower_bits t target source k = (tg, r')" by fastforce
  note sp = decode_one_stream_spec [OF t f, of regen]
  have np: "huff_streams t [(source, regen)] \<noteq> Panic" by (rule huff_streams_not_Panic)
  show ?thesis
  proof (cases r')
    case (Ok m)
    then obtain ys where y: "m = k + length source" "tg = target @ ys" "\<forall>zs. huff_streams t [(source, regen)] = Ok zs \<longleftrightarrow> length ys = regen \<and> zs = ys"
      using sp by auto
    show ?thesis
    proof (cases "length ys = regen")
      case True
      then have "target' = target @ ys" "r = Ok (k + length source)" using d [unfolded n1] f Ok y(1,2) by (simp_all add: decode_streams_def)
      then show ?thesis using True y(3) n1 by (simp add: streams_content_def)
    next
      case neq: False
      then have "\<exists>e. huff_streams t [(source, regen)] = Err e" using y(3) np by (cases "huff_streams t [(source, regen)]") auto
      moreover have "target' = target" "\<exists>e. r = Err e" using d [unfolded n1] f Ok y(2) neq by (auto simp: decode_streams_def)
      ultimately show ?thesis using n1 by (auto simp: streams_content_def)
    qed
  next
    case (Err e)
    then have e: "tg = target" "\<exists>e. huff_streams t [(source, regen)] = Err e" using sp by simp_all
    have "target' = tg" "r = Err e" using d [unfolded n1] f Err by (auto simp: decode_streams_def)
    then show ?thesis using e n1 by (auto simp: streams_content_def)
  qed (use sp in simp)
qed

lemma read_tree_ok:
  assumes live: "huf_live_ok scratch dict" and ty: "ty = LitCompressed \<or> ty = LitTreeless"
    and r: "read_tree on_amd ty scratch dict source = (scratch', r)"
  shows "case r of
       Ok n \<Rightarrow> n \<le> length source \<and> huf_live_ok scratch' dict \<and> (\<exists>t. huf_table scratch' dict = Some t \<and> decode_table_ok t)
     | Err e \<Rightarrow> huffman_scratch_ok (hs_table scratch') \<and> (ty = LitTreeless \<longrightarrow> scratch' = scratch)
     | Panic \<Rightarrow> False"
proof (cases "ty = LitCompressed")
  case True
  obtain t r' where b: "huffman_build_decoder on_amd (hs_table scratch) source = (t, r')" by fastforce
  have sc: "huffman_scratch_ok (hs_table scratch)" using live by (simp add: huf_live_ok_def)
  note ok = huffman_build_facts [OF sc b]
  show ?thesis
  proof (cases r')
    case (Ok n)
    then have "decode_table_ok t" "n \<le> length source" "huffman_scratch_ok t" using ok huffman_table_ok_decode by simp_all
    then show ?thesis using r b True Ok by (auto simp: read_tree_def mark_table_local_def huf_live_ok_def huf_table_def)
  next
    case (Err e)
    then show ?thesis using r b True ok by (auto simp: read_tree_def)
  qed (use ok in simp)
next
  case False
  then have "ty = LitTreeless" using ty by simp
  then show ?thesis using r live by (auto simp: read_tree_def huf_live_ok_def split: if_splits)
qed

lemma decompress_literals_spec:
  assumes live: "huf_live_ok scratch dict" and sec: "ls_type section = LitCompressed \<or> ls_type section = LitTreeless"
      "ls_compressed_size section = Some csize" "ls_num_streams section = Some num_streams" "num_streams = 1 \<or> num_streams = 4"
    and d: "decompress_literals_impl on_amd mask_lower_bits section scratch dict source target = (scratch', target', r)"
  shows "case r of
       Ok n \<Rightarrow> n = csize \<and> csize \<le> length source \<and> huf_live_ok scratch' dict
         \<and> (\<exists>k t ys. read_tree on_amd (ls_type section) scratch dict (take csize source) = (scratch', Ok k) \<and> k \<le> csize
              \<and> huf_table scratch' dict = Some t \<and> decode_table_ok t
              \<and> streams_content t num_streams (drop k (take csize source)) (ls_regenerated_size section) = Ok ys
              \<and> length ys = ls_regenerated_size section \<and> target' = target @ ys)
     | Err e \<Rightarrow> target' = target \<and> (ls_type section = LitTreeless \<longrightarrow> scratch' = scratch)
         \<and> \<not> (csize \<le> length source \<and> (\<exists>k t ys. read_tree on_amd (ls_type section) scratch dict (take csize source) = (scratch', Ok k)
              \<and> huf_table scratch' dict = Some t \<and> streams_content t num_streams (drop k (take csize source)) (ls_regenerated_size section) = Ok ys))
     | Panic \<Rightarrow> False"
proof (cases "length source < csize")
  case True
  then show ?thesis using d sec(2,3) by (auto simp: decompress_literals_impl_def)
next
  case False
  define src where "src = take csize source"
  have len: "length src = csize" using False by (simp add: src_def)
  obtain sc1 r1 where rt: "read_tree on_amd (ls_type section) scratch dict src = (sc1, r1)" by fastforce
  note ok = read_tree_ok [OF live sec(1) rt]
  show ?thesis
  proof (cases r1)
    case (Ok k)
    then obtain t where t: "k \<le> csize" "huf_live_ok sc1 dict" "huf_table sc1 dict = Some t" "decode_table_ok t" using ok len by auto
    obtain tg r2 where ds: "decode_streams on_amd mask_lower_bits num_streams t target (drop k src) (ls_regenerated_size section) k = (tg, r2)" by fastforce
    have eq: "scratch' = sc1" "target' = tg" "r = r2"
      using d sec(2,3) False rt Ok t(1,3) ds len by (simp_all add: decompress_literals_impl_def Let_def src_def [symmetric])
    have tl: "ls_type section = LitTreeless \<longrightarrow> sc1 = scratch" using rt Ok by (auto simp: read_tree_def split: option.splits)
    show ?thesis using decode_streams_spec [OF t(4) sec(4) ds] len t rt Ok False tl unfolding eq src_def [symmetric] by (cases r2) auto
  next
    case (Err e)
    then have "scratch' = sc1" "target' = target" "r = Err e"
      using d sec(2,3) False rt by (simp_all add: decompress_literals_impl_def Let_def src_def [symmetric])
    then show ?thesis using rt Err ok unfolding src_def [symmetric] by auto
  qed (use ok in simp)
qed

end

section \<open>Views\<close>

text \<open>The bytes a section takes from the block, and a section as the header parser fills it.\<close>

definition upper_limit_for_literals :: "literals_section \<Rightarrow> nat" where
  "upper_limit_for_literals section =
     (case ls_compressed_size section of Some x \<Rightarrow> x | None \<Rightarrow> if ls_type section = LitRLE then 1 else ls_regenerated_size section)"

definition section_filled :: "literals_section \<Rightarrow> bool" where
  "section_filled section \<longleftrightarrow>
     (if ls_type section = LitRaw \<or> ls_type section = LitRLE then ls_compressed_size section = None
      else (\<exists>n. ls_compressed_size section = Some n) \<and> (ls_num_streams section = Some 1 \<or> ls_num_streams section = Some 4))"

text \<open>What the literals of a section are, the Huffman ones with the table that is live after the section's tree was read.\<close>

definition section_literals ::
  "bool \<Rightarrow> literals_section \<Rightarrow> huffman_scratch \<Rightarrow> huffman_scratch \<Rightarrow> huffman_table option \<Rightarrow> u8 list \<Rightarrow> u8 list \<Rightarrow> bool" where
  "section_literals on_amd section scratch scratch' dict source ys \<longleftrightarrow>
     (case ls_type section of
        LitRaw \<Rightarrow> scratch' = scratch \<and> ys = take (ls_regenerated_size section) source
      | LitRLE \<Rightarrow> scratch' = scratch \<and> source \<noteq> [] \<and> ys = replicate (ls_regenerated_size section) (hd source)
      | _ \<Rightarrow> let payload = take (upper_limit_for_literals section) source in
          \<exists>k t. read_tree on_amd (ls_type section) scratch dict payload = (scratch', Ok k) \<and> huf_table scratch' dict = Some t
            \<and> streams_content t (the (ls_num_streams section)) (drop k payload) (ls_regenerated_size section) = Ok ys)"

lemma pad_with_slack_ok:
  assumes "pad_with_slack target base n used needs_slack = (target', r)" "length target = base + n"
  shows "\<exists>v. r = Ok v \<and> lv_len v = n \<and> lv_bytes_used v = used \<and> take n (lv_data v) = drop base target
     \<and> n + (if needs_slack then WILDCOPY_OVERLENGTH else 0) \<le> length (lv_data v)"
  using assms by (auto simp: pad_with_slack_def vec_resize_def Let_def split: if_splits)

context cpu_kernel
begin

lemma literals_view_spec:
  assumes live: "huf_live_ok scratch dict" and filled: "section_filled section"
    and d: "decode_literals_zerocopy on_amd mask_lower_bits section scratch dict source (upper_limit_for_literals section) needs_slack target = (scratch', target', r)"
  shows "case r of
       Ok v \<Rightarrow> section_literals on_amd section scratch scratch' dict source (take (lv_len v) (lv_data v))
         \<and> lv_len v = ls_regenerated_size section \<and> lv_bytes_used v = upper_limit_for_literals section
         \<and> lv_len v + (if needs_slack then WILDCOPY_OVERLENGTH else 0) \<le> length (lv_data v) \<and> huf_live_ok scratch' dict
     | Err e \<Rightarrow> ls_type section = LitCompressed \<or> scratch' = scratch
     | Panic \<Rightarrow> False"
proof -
  let ?n = "ls_regenerated_size section" and ?u = "upper_limit_for_literals section" and ?base = "length target"
  consider (raw) "ls_type section = LitRaw" | (rle) "ls_type section = LitRLE" | (huf) "ls_type section = LitCompressed \<or> ls_type section = LitTreeless"
    by (cases "ls_type section") auto
  then show ?thesis
  proof cases
    case raw
    then have u: "?u = ?n" using filled by (simp add: upper_limit_for_literals_def section_filled_def)
    have pad: "length (target @ take ?n source) = ?base + ?n" if "\<not> length source < ?n" using that by simp
    show ?thesis
    proof (cases "length source < ?n \<or> \<not> needs_slack \<or> length source \<ge> ?n + WILDCOPY_OVERLENGTH")
      case True
      then show ?thesis using d raw u live
        by (auto simp: decode_literals_zerocopy_def Let_def section_literals_def split: if_splits)
    next
      case False
      then have p: "pad_with_slack (target @ take ?n source) ?base ?n ?n needs_slack = (target', r)" "scratch' = scratch"
        using d raw by (simp_all add: decode_literals_zerocopy_def Let_def bytes_used_raw_def)
      from pad_with_slack_ok [OF p(1) pad] False show ?thesis using raw u live p(2) by (auto simp: section_literals_def)
    qed
  next
    case rle
    then have u: "?u = 1" using filled by (simp add: upper_limit_for_literals_def section_filled_def)
    show ?thesis
    proof (cases "source = []")
      case True
      then show ?thesis using d rle by (auto simp: decode_literals_zerocopy_def)
    next
      case False
      have v: "vec_resize target (?base + ?n) (source ! 0) = target @ replicate ?n (hd source)" using False by (simp add: vec_resize_def hd_conv_nth)
      have p: "pad_with_slack (target @ replicate ?n (hd source)) ?base ?n 1 needs_slack = (target', r)" "scratch' = scratch"
        using d rle False by (simp_all add: decode_literals_zerocopy_def Let_def v)
      from pad_with_slack_ok [OF p(1)] False show ?thesis using rle u live p(2) by (auto simp: section_literals_def)
    qed
  next
    case huf
    then have ty: "ls_type section \<noteq> LitRaw" "ls_type section \<noteq> LitRLE" by auto
    obtain ns where ns: "ls_compressed_size section = Some ?u" "ls_num_streams section = Some ns" "ns = 1 \<or> ns = 4"
      using filled ty by (auto simp: section_filled_def upper_limit_for_literals_def)
    define payload where "payload = take (min ?u (length source)) source"
    have payload: "payload = take ?u source" by (simp add: payload_def min_def)
    obtain sc1 tg1 r1 where i: "decompress_literals_impl on_amd mask_lower_bits section scratch dict payload target = (sc1, tg1, r1)" by (metis prod_cases3)
    note sp = decompress_literals_spec [OF live huf ns i]
    have eq: "(scratch', target', r) = (case (sc1, tg1, r1) of
            (scratch, target, Err e) \<Rightarrow> (scratch, target, Err e)
          | (scratch, target, Panic) \<Rightarrow> (scratch, target, Panic)
          | (scratch, target, Ok bytes_used) \<Rightarrow> (scratch, pad_with_slack target ?base (length target - ?base) bytes_used needs_slack))"
      using d huf i unfolding decode_literals_zerocopy_def Let_def payload_def [symmetric] by (cases "ls_type section") auto
    show ?thesis
    proof (cases r1)
      case (Ok m)
      then obtain k t ys where o: "m = ?u" "?u \<le> length payload" "huf_live_ok sc1 dict"
          "read_tree on_amd (ls_type section) scratch dict (take ?u payload) = (sc1, Ok k)" "huf_table sc1 dict = Some t"
          "streams_content t ns (drop k (take ?u payload)) ?n = Ok ys" "length ys = ?n" "tg1 = target @ ys"
        using sp by auto
      have tk: "take ?u payload = payload" by (simp add: payload)
      have "section_literals on_amd section scratch sc1 dict source ys"
        using huf o(4-6) ns(2) unfolding tk payload by (auto simp: section_literals_def Let_def)
      moreover have e: "scratch' = sc1" "pad_with_slack tg1 ?base ?n ?u needs_slack = (target', r)" using eq Ok o(1,7,8) by simp_all
      from pad_with_slack_ok [OF e(2)] o(7,8) obtain v where "r = Ok v" "lv_len v = ?n" "lv_bytes_used v = ?u" "take ?n (lv_data v) = ys"
          "?n + (if needs_slack then WILDCOPY_OVERLENGTH else 0) \<le> length (lv_data v)" by auto
      ultimately show ?thesis using o(3) e(1) by simp
    next
      case (Err e)
      then show ?thesis using sp eq huf by auto
    qed (use sp in simp)
  qed
qed

end

text \<open>
  C1. A literals section is decoded to exactly its literals. For every section the header parser can fill, every source, both mask
  kernels and every workspace whose table is usable, decoding returns a view or an error and never panics or accesses memory outside of
  its arrays, although the four-stream loop reads its slices, its table and its output unchecked. A view holds the literals of the
  section (the payload itself, one byte repeated, or the symbols that stepping the Huffman table bit by bit gives, over one or four
  streams that each end exactly at their front), followed by the slack the copiers may read when they asked for it, and counts exactly
  the payload as used. The workspace stays usable, except for a table whose description was refused.
\<close>

theorem literals_view_decoded:
  assumes kernel: "mlb \<in> {scalar_mask_lower_bits, mask_lower_bits_bmi2_impl}" and live: "huf_live_ok scratch dict" and filled: "section_filled section"
    and d: "decode_literals_zerocopy on_amd mlb section scratch dict source (upper_limit_for_literals section) needs_slack target = (scratch', target', r)"
  shows "case r of
       Ok v \<Rightarrow> section_literals on_amd section scratch scratch' dict source (take (lv_len v) (lv_data v))
         \<and> lv_len v = ls_regenerated_size section \<and> lv_bytes_used v = upper_limit_for_literals section
         \<and> lv_len v + (if needs_slack then WILDCOPY_OVERLENGTH else 0) \<le> length (lv_data v) \<and> huf_live_ok scratch' dict
     | Err e \<Rightarrow> ls_type section = LitCompressed \<or> scratch' = scratch
     | Panic \<Rightarrow> False"
  by (rule cpu_kernel.literals_view_spec [OF _ live filled d])
    (use kernel scalar_kernel.cpu_kernel_axioms bmi2_kernel.cpu_kernel_axioms in auto)

text \<open>Four symbols with codes of two bits, and one byte of stream: the marker, then the codes of the symbols three, two and one.\<close>

theorem literals_view_decoded_witness:
  "\<exists>scratch' v. decode_literals_zerocopy True scalar_mask_lower_bits
       \<lparr>ls_regenerated_size = 3, ls_compressed_size = Some 4, ls_num_streams = Some 1, ls_type = LitCompressed\<rparr>
       huffman_scratch_new None [130, 0x11, 0x10, 0x79] 4 False [] = (scratch', [3, 2, 1], Ok v)
     \<and> lv_data v = [3, 2, 1] \<and> lv_bytes_used v = 4 \<and> huf_live_ok scratch' None"
proof -
  let ?sec = "\<lparr>ls_regenerated_size = 3, ls_compressed_size = Some 4, ls_num_streams = Some 1, ls_type = LitCompressed\<rparr>"
  let ?d = "decode_literals_zerocopy True scalar_mask_lower_bits ?sec huffman_scratch_new None [130, 0x11, 0x10, 0x79] (upper_limit_for_literals ?sec) False []"
  have live: "huf_live_ok huffman_scratch_new None"
    by (simp add: huf_live_ok_def huffman_scratch_ok_def huffman_scratch_new_def huf_table_def huffman_table_new_def fse_table_new_def)
  have filled: "section_filled ?sec" by (simp add: section_filled_def)
  have "fst (snd ?d) = [3, 2, 1] \<and> snd (snd ?d) = Ok \<lparr>lv_data = [3, 2, 1], lv_len = 3, lv_bytes_used = 4\<rparr>" by code_simp
  moreover have "?d = (fst ?d, fst (snd ?d), snd (snd ?d))" by simp
  ultimately have e: "?d = (fst ?d, [3, 2, 1], Ok \<lparr>lv_data = [3, 2, 1], lv_len = 3, lv_bytes_used = 4\<rparr>)" by metis
  have u: "upper_limit_for_literals ?sec = 4" by (simp add: upper_limit_for_literals_def)
  have "huf_live_ok (fst ?d) None" using literals_view_decoded [OF _ live filled e] unfolding result.case by blast
  then show ?thesis using e unfolding u by (metis literals_view.select_convs(1,3))
qed

text \<open>
  On one run, a refused table description leaves a table that a later section uses. The first section builds a table of two bits. The second one's
  description has only the weight zero and is refused, after the lookup table was emptied and with the width of the old table in place. A
  treeless section that follows tests only that the width is not zero: with one stream its first lookup panics, and with four streams the
  first step of the burst loop, which does not check the index, reads outside of the empty table.
\<close>

theorem treeless_after_refused_table:
  "\<exists>scratch1 scratch2.
     decompress_literals_impl True scalar_mask_lower_bits
       \<lparr>ls_regenerated_size = 3, ls_compressed_size = Some 4, ls_num_streams = Some 1, ls_type = LitCompressed\<rparr>
       huffman_scratch_new None [130, 0x11, 0x10, 0x79] [] = (scratch1, [3, 2, 1], Ok 4)
     \<and> decompress_literals_impl True scalar_mask_lower_bits
       \<lparr>ls_regenerated_size = 3, ls_compressed_size = Some 2, ls_num_streams = Some 1, ls_type = LitCompressed\<rparr>
       scratch1 None [128, 0] [] = (scratch2, [], Err (LitHuffmanTableError MissingWeights))
     \<and> read_tree True LitTreeless scratch2 None source = (scratch2, Ok 0)
     \<and> decompress_literals_impl True scalar_mask_lower_bits
         \<lparr>ls_regenerated_size = 3, ls_compressed_size = Some 1, ls_num_streams = Some 1, ls_type = LitTreeless\<rparr> scratch2 None [0x79] []
         = (scratch2, [], Panic)
     \<and> burst (Suc n) (ht_packed_decode (hs_table scratch2)) table_shift (lane # regs) out = None"
proof -
  let ?s1 = "\<lparr>ls_regenerated_size = 3, ls_compressed_size = Some 4, ls_num_streams = Some 1, ls_type = LitCompressed\<rparr>"
  let ?s2 = "\<lparr>ls_regenerated_size = 3, ls_compressed_size = Some 2, ls_num_streams = Some 1, ls_type = LitCompressed\<rparr>"
  let ?s3 = "\<lparr>ls_regenerated_size = 3, ls_compressed_size = Some 1, ls_num_streams = Some 1, ls_type = LitTreeless\<rparr>"
  let ?d = "decompress_literals_impl True scalar_mask_lower_bits"
  let ?d1 = "?d ?s1 huffman_scratch_new None [130, 0x11, 0x10, 0x79] []"
  let ?d2 = "?d ?s2 (fst ?d1) None [128, 0] []"
  let ?d3 = "?d ?s3 (fst ?d2) None [0x79] []"
  have "snd ?d1 = ([3, 2, 1], Ok 4)" "snd ?d2 = ([], Err (LitHuffmanTableError MissingWeights))" "snd ?d3 = ([], Panic)" by code_simp+
  then have d: "?d1 = (fst ?d1, [3, 2, 1], Ok 4)" "?d2 = (fst ?d2, [], Err (LitHuffmanTableError MissingWeights))" "?d3 = (fst ?d3, [], Panic)"
    by (metis prod.collapse)+
  have t: "hs_table_source (fst ?d2) = HufLocal" "ht_max_num_bits (hs_table (fst ?d2)) = 2" "ht_packed_decode (hs_table (fst ?d2)) = []" by code_simp+
  have rt: "read_tree True LitTreeless (fst ?d2) None source = (fst ?d2, Ok 0)" for source using t by (simp add: read_tree_def huf_table_def)
  have "fst ?d3 = fst ?d2" using rt t(1) by (simp add: decompress_literals_impl_def huf_table_def)
  then have "?d3 = (fst ?d2, [], Panic)" using d(3) by metis
  moreover have "burst (Suc n) (ht_packed_decode (hs_table (fst ?d2))) table_shift (lane # regs) out = None" unfolding t(3) by (simp add: decode1_def)
  ultimately show ?thesis using d(1,2) rt by blast
qed

end
