(* ===== verification/Huf_CStream.thy ===== *)
theory Huf_CStream
  imports Literals
begin

text \<open>
  The bit packer of the Huffman encoder (\<^verbatim>\<open>zstd/src/huff0/huf_cstream.rs\<close>): codes enter a 64-bit container from the top, two
  containers are filled in turn and merged, and whole bytes are stored through a raw cursor. \<open>hc_mem\<close> is the vector with the
  spare capacity its \<open>reserve\<close> made room for; a store outside of it has no result. A packed code carries its length in the low
  byte, which the fast additions let into the container and into the bit counter. The theory ends with the stream that the
  packer writes, bit by bit, for all unroll settings the encoder picks.
\<close>

section \<open>Packed codes and containers\<close>

definition HUF_BITS_IN_CONTAINER :: nat where
  "HUF_BITS_IN_CONTAINER = 64"

definition HUF_TABLELOG_ABSOLUTEMAX :: nat where
  "HUF_TABLELOG_ABSOLUTEMAX = 12"

definition pack_huf_celt :: "u32 \<Rightarrow> nat \<Rightarrow> u64" where
  "pack_huf_celt val nb_bits =
     (if nb_bits = 0 then 0 else of_nat nb_bits OR push_bit (HUF_BITS_IN_CONTAINER - nb_bits) (ucast val))"

record huf_cstream =
  hc_container0 :: u64
  hc_container1 :: u64
  hc_bit_pos0 :: u64
  hc_bit_pos1 :: u64
  hc_mem :: "u8 list"
  hc_start_idx :: nat
  hc_cursor :: nat
  hc_end_ptr :: nat
  hc_overflow :: bool

text \<open>\<open>huf_add!\<close> on a container and its counter; \<open>add_bits\<close> is the same on one of the stream's pairs.\<close>

fun huf_add :: "bool \<Rightarrow> u64 \<Rightarrow> u64 \<times> u64 \<Rightarrow> u64 \<times> u64" where
  "huf_add fast elt (bc, bp) =
     (let nb_bits = elt AND 0xFF in
      (drop_bit (unat nb_bits) bc OR (if fast then elt else elt AND NOT 0xFF), bp + (if fast then elt else nb_bits)))"

definition hc_add_bits :: "bool \<Rightarrow> u64 \<Rightarrow> nat \<Rightarrow> huf_cstream \<Rightarrow> huf_cstream" where
  "hc_add_bits fast elt idx s =
     (if idx = 0 then
        let (bc, bp) = huf_add fast elt (hc_container0 s, hc_bit_pos0 s) in s\<lparr>hc_container0 := bc, hc_bit_pos0 := bp\<rparr>
      else
        let (bc, bp) = huf_add fast elt (hc_container1 s, hc_bit_pos1 s) in s\<lparr>hc_container1 := bc, hc_bit_pos1 := bp\<rparr>)"

text \<open>The masked shift: no pending bits shift by 64, which is by nothing.\<close>

definition hc_flush_bits :: "bool \<Rightarrow> huf_cstream \<Rightarrow> huf_cstream option" where
  "hc_flush_bits fast s =
     (let nb_bits = unat (hc_bit_pos0 s AND 0xFF); nb_bytes = nb_bits div 8;
          chunk = drop_bit ((HUF_BITS_IN_CONTAINER - nb_bits) mod 64) (hc_container0 s);
          s = s\<lparr>hc_bit_pos0 := hc_bit_pos0 s AND 7\<rparr> in
      Option.bind (copy_into (hc_mem s) (hc_cursor s) (to_le_bytes 8 chunk)) (\<lambda>mem.
        let s = s\<lparr>hc_mem := mem, hc_cursor := hc_cursor s + nb_bytes\<rparr> in
        Some (if \<not> fast \<and> hc_cursor s > hc_end_ptr s then s\<lparr>hc_cursor := hc_end_ptr s, hc_overflow := True\<rparr> else s)))"

definition hc_new :: "u8 list \<Rightarrow> nat \<Rightarrow> u8 list \<Rightarrow> huf_cstream option" where
  "hc_new output dst_capacity spare =
     (if dst_capacity \<le> 8 then None
      else let start_idx = length output in
        Some \<lparr>hc_container0 = 0, hc_container1 = 0, hc_bit_pos0 = 0, hc_bit_pos1 = 0, hc_mem = output @ spare,
          hc_start_idx = start_idx, hc_cursor = start_idx, hc_end_ptr = start_idx + dst_capacity - 8, hc_overflow = False\<rparr>)"

section \<open>The encoding loop\<close>

text \<open>The packed codes of \<open>data[n - 1]\<close> down to \<open>data[n - k]\<close>; the table has 256 entries.\<close>

definition elts_down :: "u64 list \<Rightarrow> u8 list \<Rightarrow> nat \<Rightarrow> nat \<Rightarrow> u64 list" where
  "elts_down table data n k = map (\<lambda>u. table ! unat (data ! (n - u))) [1..<Suc k]"

definition hc_adds :: "bool \<Rightarrow> u64 list \<Rightarrow> nat \<Rightarrow> huf_cstream \<Rightarrow> huf_cstream" where
  "hc_adds fast elts idx s = fold (\<lambda>elt. hc_add_bits fast elt idx) elts s"

text \<open>\<open>K_UNROLL\<close> symbols, all but the last added fast.\<close>

definition hc_group :: "u64 list \<Rightarrow> u8 list \<Rightarrow> nat \<Rightarrow> bool \<Rightarrow> nat \<Rightarrow> nat \<Rightarrow> huf_cstream \<Rightarrow> huf_cstream" where
  "hc_group table data ku klf n idx s =
     hc_add_bits klf (table ! unat (data ! (n - ku))) idx (hc_adds True (elts_down table data n (ku - 1)) idx s)"

definition merge_index1 :: "huf_cstream \<Rightarrow> huf_cstream" where
  "merge_index1 s =
     (let nb_bits_1 = hc_bit_pos1 s AND 0xFF in
      s\<lparr>hc_container0 := drop_bit (unat nb_bits_1) (hc_container0 s) OR hc_container1 s, hc_bit_pos0 := hc_bit_pos0 s + hc_bit_pos1 s\<rparr>)"

fun hc_chunks :: "u64 list \<Rightarrow> u8 list \<Rightarrow> nat \<Rightarrow> bool \<Rightarrow> bool \<Rightarrow> nat \<Rightarrow> nat \<Rightarrow> huf_cstream \<Rightarrow> huf_cstream option" where
  "hc_chunks table data ku kff klf 0 n s = Some s"
| "hc_chunks table data ku kff klf (Suc chunks) n s =
     Option.bind (hc_flush_bits kff (hc_group table data ku klf n 0 s)) (\<lambda>s.
       let s = s\<lparr>hc_container1 := 0, hc_bit_pos1 := 0\<rparr> in
       Option.bind (hc_flush_bits kff (merge_index1 (hc_group table data ku klf (n - ku) 1 s)))
         (hc_chunks table data ku kff klf chunks (n - 2 * ku)))"

definition encode_unrolled :: "u64 list \<Rightarrow> u8 list \<Rightarrow> nat \<Rightarrow> bool \<Rightarrow> bool \<Rightarrow> huf_cstream \<Rightarrow> huf_cstream option" where
  "encode_unrolled table data ku kff klf s =
     (let n = length data; rem = n mod ku in
      Option.bind (if rem > 0 then hc_flush_bits kff (hc_adds False (elts_down table data n rem) 0 s) else Some s) (\<lambda>s.
        let n = n - rem in
        Option.bind (if n mod (2 * ku) \<noteq> 0 then hc_flush_bits kff (hc_group table data ku klf n 0 s) else Some s) (\<lambda>s.
          let n = (if n mod (2 * ku) \<noteq> 0 then n - ku else n) in
          hc_chunks table data ku kff klf (n div (2 * ku)) n s)))"

definition pending_bits :: "huf_cstream \<Rightarrow> nat" where
  "pending_bits s = unat (hc_bit_pos0 s AND 0xFF)"

text \<open>The vector after closing, and the number of bytes reported: zero, with the vector as it was, after an overflow.\<close>

definition hc_close :: "huf_cstream \<Rightarrow> (u8 list \<times> nat) option" where
  "hc_close s =
     (let end_mark = 1 OR push_bit (HUF_BITS_IN_CONTAINER - 1) 1 in
      Option.bind (hc_flush_bits False (hc_add_bits False end_mark 0 s)) (\<lambda>s.
        let nb_bits = pending_bits s in
        if hc_overflow s then Some (take (hc_start_idx s) (hc_mem s), 0)
        else let bytes_written = (hc_cursor s - hc_start_idx s) + (if nb_bits > 0 then 1 else 0) in
          Some (take (hc_start_idx s + bytes_written) (hc_mem s), bytes_written)))"

section \<open>What the containers hold\<close>

text \<open>
  The pending bits are the top ones of the container, oldest lowest; nothing is known of the bits below. For the second container
  the bits from \<open>d\<close> up to the pending ones are zero, \<open>d\<close> being at most four: no length has a higher bit.
\<close>

fun pend :: "u64 \<times> u64 \<Rightarrow> bool list \<Rightarrow> bool" where
  "pend (bc, bp) bs \<longleftrightarrow> unat (bp AND 0xFF) = length bs \<and> length bs \<le> 64 \<and> (\<forall>i < length bs. bit bc (64 + i - length bs) = bs ! i)"

fun zero_below :: "nat \<Rightarrow> u64 \<times> u64 \<Rightarrow> bool list \<Rightarrow> bool" where
  "zero_below d (bc, bp) bs \<longleftrightarrow> (\<forall>j. d \<le> j \<and> j < 64 - length bs \<longrightarrow> \<not> bit bc j)"

lemma and_255: "unat (w AND 0xFF :: u64) = unat w mod 256"
  using unsigned_take_bit_eq [of 8 w, where ?'a = nat] by (simp add: take_bit_eq_mask [where ?'a = u64] mask_numeral) (simp add: take_bit_eq_mod)

lemma and_7: "unat (w AND 7 :: u64) = unat w mod 8"
  using unsigned_take_bit_eq [of 3 w, where ?'a = nat] by (simp add: take_bit_eq_mask [where ?'a = u64] mask_numeral) (simp add: take_bit_eq_mod)

lemma bit_255: "bit (0xFF :: u64) i \<longleftrightarrow> i < 8"
  using bit_mask_iff [of 8 i, where ?'a = u64] by (auto simp: mask_numeral possible_bit_def)

lemma bit_clear_low: "bit (w AND NOT 0xFF :: u64) i \<longleftrightarrow> bit w i \<and> 8 \<le> i"
  unfolding bit_and_iff bit_not_iff bit_255 by (auto simp: possible_bit_def dest: bit_imp_le_length)

lemma count_add: "(unat (a + b :: u64)) mod 256 = (unat a mod 256 + unat b mod 256) mod 256"
  by (simp add: unat_word_ariths mod_mod_cancel mod_add_eq)

lemma elt_bits:
  assumes "0 < nb" "nb \<le> 12" "unat (v :: u32) < 2 ^ nb"
  shows "pack_huf_celt v nb AND 0xFF = of_nat nb"
    and "bit (pack_huf_celt v nb) j \<longleftrightarrow> (if j < 8 then bit (of_nat nb :: u64) j else j < 64 \<and> 64 - nb \<le> j \<and> bit v (j - (64 - nb)))"
    and "4 \<le> j \<Longrightarrow> \<not> bit (of_nat nb :: u64) j"
proof -
  have small: "\<not> bit (of_nat nb :: u64) j" if "4 \<le> j" for j
  proof -
    have "\<not> bit nb j" using bit_nat_bound [of nb j 4] that assms(2) by auto
    then show ?thesis by (simp add: bit_of_nat_iff)
  qed
  then show "4 \<le> j \<Longrightarrow> \<not> bit (of_nat nb :: u64) j" .
  have b: "bit (pack_huf_celt v nb) j \<longleftrightarrow> bit (of_nat nb :: u64) j \<or> j < 64 \<and> 64 - nb \<le> j \<and> bit v (j - (64 - nb))" for j
    using assms by (auto simp: pack_huf_celt_def HUF_BITS_IN_CONTAINER_def bit_or_iff bit_push_bit_iff bit_unsigned_iff)
  show "bit (pack_huf_celt v nb) j \<longleftrightarrow> (if j < 8 then bit (of_nat nb :: u64) j else j < 64 \<and> 64 - nb \<le> j \<and> bit v (j - (64 - nb)))"
    using b small assms(1,2) by auto
  show "pack_huf_celt v nb AND 0xFF = of_nat nb"
  proof (rule bit_word_eqI)
    fix i assume "i < LENGTH(64)"
    then show "bit (pack_huf_celt v nb AND 0xFF) i \<longleftrightarrow> bit (of_nat nb :: u64) i"
      using b [of i] small [of i] assms(1,2) by (cases "i < 4") (auto simp: bit_and_iff bit_255)
  qed
qed

lemma huf_add_pend:
  assumes p: "pend c bs" and nb: "0 < nb" "nb \<le> 12" and v: "unat (v :: u32) < 2 ^ nb"
    and room: "length bs + nb \<le> (if fast then 60 else 64)"
  shows "pend (huf_add fast (pack_huf_celt v nb) c) (bs @ word_bits nb v)"
    and "zero_below d c bs \<Longrightarrow> zero_below (if fast then max d 4 else d - nb) (huf_add fast (pack_huf_celt v nb) c) (bs @ word_bits nb v)"
proof -
  obtain bc bp where c: "c = (bc, bp)" by fastforce
  let ?e = "pack_huf_celt v nb" and ?p = "length bs"
  note e = elt_bits [OF nb v]
  have nbits: "unat (?e AND 0xFF) = nb" unfolding e(1) using nb by (simp add: unat_of_nat)
  have e256: "unat ?e mod 256 = nb" using nbits by (simp add: and_255)
  have eb: "bit (if fast then ?e else ?e AND NOT 0xFF) j \<longleftrightarrow> 64 - nb \<le> j \<and> j < 64 \<and> bit v (j - (64 - nb))" if "fast \<longrightarrow> 4 \<le> j" for j
    using that e(2) [of j] e(3) [of j] nb bit_clear_low [of ?e j] by (cases "j < 4") auto
  have P: "unat bp mod 256 = ?p" "?p \<le> 64" "\<forall>i < ?p. bit bc (64 + i - ?p) = bs ! i"
    using p by (simp_all add: c and_255)
  have "unat (bp + (if fast then ?e else ?e AND 0xFF)) mod 256 = (?p + nb) mod 256"
    using P(1) e256 nbits by (simp add: count_add and_255 split: if_splits)
  then have cnt: "unat ((bp + (if fast then ?e else ?e AND 0xFF)) AND 0xFF) = ?p + nb" using room by (simp add: and_255 split: if_splits)
  have bits: "bit (drop_bit nb bc OR (if fast then ?e else ?e AND NOT 0xFF)) (64 + i - (?p + nb)) = (bs @ word_bits nb v) ! i"
    if i: "i < ?p + nb" for i
  proof -
    let ?j = "64 + i - (?p + nb)"
    have j: "fast \<longrightarrow> 4 \<le> ?j" "?j < 64" using room i by (auto split: if_splits)
    show ?thesis
    proof (cases "i < ?p")
      case True
      then have "nb + ?j = 64 + i - ?p" "\<not> 64 - nb \<le> ?j" using room P(2) by (auto split: if_splits)
      then show ?thesis using P(3) True eb [OF j(1)] by (simp add: bit_or_iff bit_drop_bit_eq nth_append)
    next
      case False
      then have "\<not> nb + ?j < 64" "64 - nb \<le> ?j" "?j - (64 - nb) = i - ?p" using room nb i by (auto split: if_splits)
      moreover from this(1) have "\<not> bit bc (nb + ?j)" by (auto dest: bit_imp_le_length)
      ultimately show ?thesis using False i eb [OF j(1)] j(2) by (simp add: bit_or_iff bit_drop_bit_eq nth_append)
    qed
  qed
  show "pend (huf_add fast ?e c) (bs @ word_bits nb v)"
    using cnt bits room by (simp add: c nbits Let_def split: if_splits)
  assume z: "zero_below d c bs"
  have "\<not> bit (drop_bit nb bc OR (if fast then ?e else ?e AND NOT 0xFF)) j"
    if "(if fast then max d 4 else d - nb) \<le> j" "j < 64 - (?p + nb)" for j
  proof -
    have "\<not> 64 - nb \<le> j" "fast \<longrightarrow> 4 \<le> j" "d \<le> nb + j" "nb + j < 64 - ?p" using that room by (auto split: if_splits)
    then show ?thesis using z eb [of j] by (simp add: c bit_or_iff bit_drop_bit_eq)
  qed
  then show "zero_below (if fast then max d 4 else d - nb) (huf_add fast ?e c) (bs @ word_bits nb v)"
    by (simp add: c nbits Let_def)
qed

section \<open>The stream\<close>

definition hc_pair :: "nat \<Rightarrow> huf_cstream \<Rightarrow> u64 \<times> u64" where
  "hc_pair idx s = (if idx = 0 then (hc_container0 s, hc_bit_pos0 s) else (hc_container1 s, hc_bit_pos1 s))"

definition hc_set :: "nat \<Rightarrow> u64 \<times> u64 \<Rightarrow> huf_cstream \<Rightarrow> huf_cstream" where
  "hc_set idx c s =
     (if idx = 0 then s\<lparr>hc_container0 := fst c, hc_bit_pos0 := snd c\<rparr> else s\<lparr>hc_container1 := fst c, hc_bit_pos1 := snd c\<rparr>)"

lemma hc_add_bits_set: "hc_add_bits fast elt idx s = hc_set idx (huf_add fast elt (hc_pair idx s)) s"
  by (simp add: hc_add_bits_def hc_set_def hc_pair_def Let_def)

lemma hc_set_simps [simp]:
  "hc_pair idx (hc_set idx c s) = c" "hc_set idx c' (hc_set idx c s) = hc_set idx c' s" "hc_set idx (hc_pair idx s) s = s"
  "hc_pair 0 (hc_set (Suc 0) c s) = hc_pair 0 s" "hc_pair (Suc 0) (hc_set 0 c s) = hc_pair (Suc 0) s"
  "hc_mem (hc_set idx c s) = hc_mem s" "hc_cursor (hc_set idx c s) = hc_cursor s" "hc_start_idx (hc_set idx c s) = hc_start_idx s"
  "hc_end_ptr (hc_set idx c s) = hc_end_ptr s" "hc_overflow (hc_set idx c s) = hc_overflow s"
  by (simp_all add: hc_set_def hc_pair_def)

lemma hc_adds_set: "hc_adds fast elts idx s = hc_set idx (fold (huf_add fast) elts (hc_pair idx s)) s"
  unfolding hc_adds_def by (induction elts arbitrary: s) (simp_all add: hc_add_bits_set)

text \<open>The bytes stored so far hold \<open>out\<close>, the container \<open>bs\<close>; the room is what \<open>hc_new\<close> reserved.\<close>

definition hc_at :: "nat \<Rightarrow> nat \<Rightarrow> huf_cstream \<Rightarrow> bool list \<Rightarrow> bool list \<Rightarrow> bool" where
  "hc_at start cap s out bs \<longleftrightarrow> hc_start_idx s = start \<and> 8 \<le> cap \<and> hc_end_ptr s = start + cap - 8 \<and> start + cap \<le> length (hc_mem s)
     \<and> \<not> hc_overflow s \<and> start \<le> hc_cursor s \<and> hc_cursor s \<le> length (hc_mem s) \<and> bits_of (take (hc_cursor s) (hc_mem s)) = out \<and> pend (hc_pair 0 s) bs"

lemma hc_at_add: "\<lbrakk>hc_at start cap s out bs; pend c bs'\<rbrakk> \<Longrightarrow> hc_at start cap (hc_set 0 c s) out bs'"
  by (simp add: hc_at_def)

lemma hc_at_second [simp]: "hc_at start cap (hc_set (Suc 0) c s) out bs = hc_at start cap s out bs"
  by (simp add: hc_at_def)

lemma hc_flush_at:
  assumes at: "hc_at start cap s out bs" and room: "length out + length bs + 64 \<le> 8 * (start + cap)" and k: "k = length bs div 8"
  shows "\<exists>s'. hc_flush_bits fast s = Some s' \<and> hc_at start cap s' (out @ take (8 * k) bs) (drop (8 * k) bs) \<and> hc_pair 1 s' = hc_pair 1 s
     \<and> (bs \<noteq> [] \<longrightarrow> length bs < 64 \<longrightarrow> bits_of (take (hc_cursor s' + 1) (hc_mem s')) = out @ bs @ replicate (8 - length bs mod 8) False)"
proof -
  let ?p = "length bs" and ?mem = "hc_mem s" and ?cur = "hc_cursor s"
  define chunk where "chunk = drop_bit ((64 - ?p) mod 64) (hc_container0 s)"
  have p: "?p \<le> 64" "unat (hc_bit_pos0 s AND 0xFF) = ?p" "\<forall>i < ?p. bit (hc_container0 s) (64 + i - ?p) = bs ! i"
    using at by (simp_all add: hc_at_def hc_pair_def)
  have b: "bit chunk i \<longleftrightarrow> i < ?p \<and> bs ! i" if "0 < ?p" for i
  proof -
    have "(64 - ?p) mod 64 = 64 - ?p" using that by simp
    moreover have "64 - ?p + i = 64 + i - ?p" using p(1) by simp
    moreover have "\<not> bit (hc_container0 s) (64 + i - ?p)" if "\<not> i < ?p" using that by (auto dest: bit_imp_le_length)
    ultimately show ?thesis using p(3) by (auto simp: chunk_def bit_drop_bit_eq)
  qed
  have wb: "word_bits n chunk = take n bs @ replicate (n - ?p) False" if "0 < ?p" for n
    by (rule nth_equalityI) (auto simp: b [OF that] nth_append)
  have k8: "8 * k \<le> ?p" "k \<le> 8" using p(1) by (simp_all add: k)
  have out: "length out = 8 * ?cur" "?cur \<le> length ?mem" "start \<le> ?cur" "hc_end_ptr s = start + cap - 8" "start + cap \<le> length ?mem" "8 \<le> cap"
    using at by (auto simp: hc_at_def)
  have fits: "?cur + 8 \<le> length ?mem" "?cur + k \<le> start + cap - 8" 
    using room out k8 by simp_all
  define mem where "mem = take ?cur ?mem @ to_le_bytes 8 chunk @ drop (?cur + 8) ?mem"
  let ?s = "s\<lparr>hc_bit_pos0 := hc_bit_pos0 s AND 7, hc_mem := mem, hc_cursor := ?cur + k\<rparr>"
  have fl: "hc_flush_bits fast s = Some ?s"
    using fits out(4) p(2) by (simp add: hc_flush_bits_def HUF_BITS_IN_CONTAINER_def copy_into_def Let_def mem_def k chunk_def)
  have tk: "bits_of (take (?cur + j) mem) = out @ word_bits (8 * j) chunk" if "j \<le> 8" for j
  proof -
    have "take (?cur + j) mem = take ?cur ?mem @ to_le_bytes j chunk"
      using that out(2) fits(1) by (simp add: mem_def min_def take_to_le_bytes)
    then show ?thesis using at by (simp add: hc_at_def bits_of_to_le_bytes)
  qed
  have outk: "bits_of (take (?cur + k) mem) = out @ take (8 * k) bs"
    using tk [OF k8(2)] wb [of "8 * k"] k8 by (cases "?p = 0") auto
  have "unat (hc_bit_pos0 s AND 7) = ?p - 8 * k"
  proof -
    have "unat (hc_bit_pos0 s) mod 256 = ?p" using p(2) by (simp add: and_255)
    then have "unat (hc_bit_pos0 s) mod 8 = ?p mod 8" using mod_mod_cancel [of 8 256 "unat (hc_bit_pos0 s)"] by simp
    then show ?thesis by (simp add: and_7 k minus_mult_div_eq_mod)
  qed
  then have "unat (hc_bit_pos0 s AND 7 AND 0xFF) = ?p - 8 * k" using p(1) by (simp add: and_255)
  moreover have "bit (hc_container0 s) (64 + i - (?p - 8 * k)) = bs ! (8 * k + i)" if "i < ?p - 8 * k" for i
  proof -
    have "64 + i - (?p - 8 * k) = 64 + (8 * k + i) - ?p" using that p(1) k8 by simp
    then show ?thesis using p(3) that by simp
  qed
  ultimately have "pend (hc_container0 s, hc_bit_pos0 s AND 7) (drop (8 * k) bs)" using p(1) by (simp add: and_255)
  then have "hc_at start cap ?s (out @ take (8 * k) bs) (drop (8 * k) bs)"
    using at outk fits out by (simp add: hc_at_def hc_pair_def mem_def)
  moreover have "bits_of (take (?cur + k + 1) mem) = out @ bs @ replicate (8 - ?p mod 8) False" if "bs \<noteq> []" "?p < 64"
  proof -
    have "k + 1 \<le> 8" "8 * (k + 1) - ?p = 8 - ?p mod 8" "?p \<le> 8 * (k + 1)" using that(2) unfolding k by presburger+
    then show ?thesis using tk [of "k + 1"] wb [of "8 * (k + 1)"] that(1) by (simp add: add.assoc)
  qed
  ultimately show ?thesis using fl by (simp add: hc_pair_def)
qed

section \<open>Codes\<close>

text \<open>The codes of the symbols: value and length. Data is coded when every symbol of it has a code that the packed table holds.\<close>

definition code_bits :: "(u32 \<times> nat) list \<Rightarrow> u8 list \<Rightarrow> bool list" where
  "code_bits codes xs = concat (map (\<lambda>x. word_bits (snd (codes ! unat x)) (fst (codes ! unat x))) xs)"

definition symbol_coded :: "nat \<Rightarrow> (u32 \<times> nat) list \<Rightarrow> u64 list \<Rightarrow> u8 \<Rightarrow> bool" where
  "symbol_coded tlog codes table x \<longleftrightarrow>
     (case codes ! unat x of (v, nb) \<Rightarrow> 0 < nb \<and> nb \<le> tlog \<and> unat v < 2 ^ nb \<and> table ! unat x = pack_huf_celt v nb)"

definition coded :: "nat \<Rightarrow> (u32 \<times> nat) list \<Rightarrow> u64 list \<Rightarrow> u8 list \<Rightarrow> bool" where
  "coded tlog codes table xs \<longleftrightarrow> tlog \<le> 12 \<and> (\<forall>x \<in> set xs. symbol_coded tlog codes table x)"

lemma code_bits_simps [simp]:
  "code_bits codes [] = []" "code_bits codes (x # xs) = word_bits (snd (codes ! unat x)) (fst (codes ! unat x)) @ code_bits codes xs"
  "code_bits codes (xs @ ys) = code_bits codes xs @ code_bits codes ys"
  by (simp_all add: code_bits_def)

lemma coded_simps [simp]: "coded tlog codes table (xs @ ys) \<longleftrightarrow> coded tlog codes table xs \<and> coded tlog codes table ys"
  by (auto simp: coded_def)

lemma coded_subset: "\<lbrakk>coded tlog codes table xs; set ys \<subseteq> set xs\<rbrakk> \<Longrightarrow> coded tlog codes table ys"
  by (auto simp: coded_def)

lemma length_code_bits: "coded tlog codes table xs \<Longrightarrow> length (code_bits codes xs) \<le> length xs * tlog"
proof (induction xs)
  case (Cons x xs)
  then have "length (code_bits codes xs) \<le> length xs * tlog" "snd (codes ! unat x) \<le> tlog" by (auto simp: coded_def symbol_coded_def)
  then show ?case by simp
qed simp

abbreviation elts_of :: "u64 list \<Rightarrow> u8 list \<Rightarrow> u64 list" where
  "elts_of table xs \<equiv> map (\<lambda>x. table ! unat x) xs"

lemma huf_adds_pend:
  assumes "coded tlog codes table xs" "pend c bs" "length bs + length xs * tlog \<le> (if fast then 60 else 64)"
  shows "pend (fold (huf_add fast) (elts_of table xs) c) (bs @ code_bits codes xs)"
    "fast \<Longrightarrow> zero_below 4 c bs \<Longrightarrow> zero_below 4 (fold (huf_add fast) (elts_of table xs) c) (bs @ code_bits codes xs)"
  using assms
proof (induction xs arbitrary: c bs)
  case (Cons x xs)
  {
    case 1
    obtain v nb where x: "codes ! unat x = (v, nb)" by fastforce
    then have c: "0 < nb" "nb \<le> tlog" "nb \<le> 12" "unat v < 2 ^ nb" "table ! unat x = pack_huf_celt v nb" "coded tlog codes table xs"
      using 1(1) by (auto simp: coded_def symbol_coded_def)
    have r: "length bs + nb \<le> (if fast then 60 else 64)" "length (bs @ word_bits nb v) + length xs * tlog \<le> (if fast then 60 else 64)"
      using 1(3) c(2) by (auto split: if_splits)
    show ?case using Cons.IH(1) [OF c(6) huf_add_pend(1) [OF 1(2) c(1,3,4) r(1)] r(2)] x c(5) by simp
  next
    case 2
    obtain v nb where x: "codes ! unat x = (v, nb)" by fastforce
    then have c: "0 < nb" "nb \<le> tlog" "nb \<le> 12" "unat v < 2 ^ nb" "table ! unat x = pack_huf_celt v nb" "coded tlog codes table xs"
      using 2(3) by (auto simp: coded_def symbol_coded_def)
    have r: "length bs + nb \<le> (if fast then 60 else 64)" "length (bs @ word_bits nb v) + length xs * tlog \<le> (if fast then 60 else 64)"
      using 2(5) c(2) by (auto split: if_splits)
    note a = huf_add_pend [OF 2(4) c(1,3,4) r(1)]
    have z: "zero_below 4 (huf_add fast (pack_huf_celt v nb) c) (bs @ word_bits nb v)" using a(2) [OF 2(2)] 2(1) by simp
    show ?case using Cons.IH(2) [OF 2(1) z c(6) a(1) r(2)] x c(5) by simp
  }
qed simp_all

text \<open>The settings of the unrolled loop: between flushes, at most seven old bits and \<open>ku\<close> codes.\<close>

definition unroll_ok :: "nat \<Rightarrow> nat \<Rightarrow> bool \<Rightarrow> bool" where
  "unroll_ok tlog ku klf \<longleftrightarrow> 0 < ku \<and> 7 + (ku - 1) * tlog \<le> 60 \<and> 7 + ku * tlog \<le> (if klf then 60 else 64)"

definition group_pair :: "u64 list \<Rightarrow> bool \<Rightarrow> u8 list \<Rightarrow> u64 \<times> u64 \<Rightarrow> u64 \<times> u64" where
  "group_pair table klf xs c = huf_add klf (table ! unat (last xs)) (fold (huf_add True) (elts_of table (butlast xs)) c)"

lemma group_pend:
  assumes xs: "coded tlog codes table xs" "length xs = ku" and u: "unroll_ok tlog ku klf" and p: "pend c bs" "length bs < 8"
  shows "pend (group_pair table klf xs c) (bs @ code_bits codes xs)"
    "zero_below 4 c bs \<Longrightarrow> \<exists>d. zero_below d (group_pair table klf xs c) (bs @ code_bits codes xs) \<and> d + 7 + length (code_bits codes xs) \<le> 64"
proof -
  have ne: "xs \<noteq> []" using u xs(2) by (auto simp: unroll_ok_def)
  define x ys where "x = last xs" and "ys = butlast xs"
  have split: "xs = ys @ [x]" using ne by (simp add: x_def ys_def)
  obtain v nb where x: "codes ! unat x = (v, nb)" by fastforce
  have c: "0 < nb" "nb \<le> tlog" "nb \<le> 12" "unat v < 2 ^ nb" "table ! unat x = pack_huf_celt v nb" "coded tlog codes table ys"
    using xs(1) x unfolding split by (auto simp: coded_def symbol_coded_def)
  have ku: "length ys = ku - 1" "ku * tlog = (ku - 1) * tlog + tlog" using xs(2) split ne by (auto simp: algebra_simps)
  have b: "7 + (ku - 1) * tlog \<le> 60" "7 + ku * tlog \<le> (if klf then 60 else 64)" using u by (simp_all add: unroll_ok_def)
  have l: "length (code_bits codes ys) \<le> (ku - 1) * tlog" using length_code_bits [OF c(6)] ku by simp
  have r1: "length bs + length ys * tlog \<le> (if True then 60 else 64)" using b(1) p(2) ku by simp
  note a = huf_adds_pend [OF c(6) p(1) r1]
  have r2: "length (bs @ code_bits codes ys) + nb \<le> (if klf then 60 else 64)" using l b(2) p(2) ku c(2) by (auto split: if_splits)
  note g = huf_add_pend [OF a(1) c(1,3,4) r2]
  have eq: "group_pair table klf xs c = huf_add klf (pack_huf_celt v nb) (fold (huf_add True) (elts_of table ys) c)"
    by (simp add: group_pair_def split c(5))
  have cb: "bs @ code_bits codes xs = (bs @ code_bits codes ys) @ word_bits nb v" by (simp add: split x)
  show "pend (group_pair table klf xs c) (bs @ code_bits codes xs)" unfolding eq cb by (rule g(1))
  assume "zero_below 4 c bs"
  from g(2) [OF a(2) [OF TrueI this]]
  have "zero_below (if klf then max 4 4 else 4 - nb) (group_pair table klf xs c) (bs @ code_bits codes xs)" unfolding eq cb .
  moreover have "(if klf then max 4 4 else 4 - nb) + 7 + length (code_bits codes xs) \<le> 64"
    using l b ku c(2) by (auto simp: split x split: if_splits)
  ultimately show "\<exists>d. zero_below d (group_pair table klf xs c) (bs @ code_bits codes xs) \<and> d + 7 + length (code_bits codes xs) \<le> 64" by blast
qed

lemma merge_pend:
  assumes "pend (b0, p0) bs0" "pend (b1, p1) bs1" "zero_below d (b1, p1) bs1" "d + length bs0 + length bs1 \<le> 64"
  shows "pend (drop_bit (unat (p1 AND 0xFF)) b0 OR b1, p0 + p1) (bs0 @ bs1)"
proof -
  let ?m = "length bs0" and ?n = "length bs1"
  have P: "unat p0 mod 256 = ?m" "unat p1 mod 256 = ?n" using assms(1,2) by (simp_all add: and_255)
  then have "unat ((p0 + p1) AND 0xFF) = ?m + ?n" using assms(4) by (simp add: and_255 count_add)
  moreover have "bit (drop_bit ?n b0 OR b1) (64 + i - (?m + ?n)) = (bs0 @ bs1) ! i" if i: "i < ?m + ?n" for i
  proof (cases "i < ?m")
    case True
    then have "?n + (64 + i - (?m + ?n)) = 64 + i - ?m" "d \<le> 64 + i - (?m + ?n)" "64 + i - (?m + ?n) < 64 - ?n" using assms(4) by auto
    moreover from this(2,3) have "\<not> bit b1 (64 + i - (?m + ?n))" using assms(3) by (simp del: diff_diff_left)
    ultimately show ?thesis using assms(1) True by (simp add: bit_or_iff bit_drop_bit_eq nth_append)
  next
    case False
    then have "64 + i - (?m + ?n) = 64 + (i - ?m) - ?n" "\<not> ?n + (64 + i - (?m + ?n)) < 64" using assms(4) i by auto
    moreover from this(2) have "\<not> bit b0 (?n + (64 + i - (?m + ?n)))" by (auto dest: bit_imp_le_length)
    moreover have "i - ?m < ?n" using False i by simp
    then have "bit b1 (64 + (i - ?m) - ?n) = bs1 ! (i - ?m)" using assms(2) unfolding pend.simps by blast
    ultimately show ?thesis using False i by (simp only: bit_or_iff bit_drop_bit_eq nth_append) simp
  qed
  ultimately show ?thesis using assms(4) P by (simp add: and_255)
qed

section \<open>The loop writes the codes\<close>

lemma elts_down_eq:
  assumes "k \<le> n" "n \<le> length data"
  shows "elts_down table data n k = elts_of table (rev (drop (n - k) (take n data)))"
proof -
  have "map (\<lambda>u. data ! (n - u)) [1..<Suc k] = rev (drop (n - k) (take n data))"
    using assms by (intro nth_equalityI) (auto simp: rev_nth simp del: upt_Suc)
  then show ?thesis unfolding elts_down_def by (metis (no_types, lifting) map_map o_def map_cong)
qed

lemma hc_group_set:
  assumes "0 < ku" "ku \<le> n" "n \<le> length data"
  shows "hc_group table data ku klf n idx s = hc_set idx (group_pair table klf (rev (drop (n - ku) (take n data))) (hc_pair idx s)) s"
proof -
  let ?xs = "rev (drop (n - ku) (take n data))"
  have "length ?xs = ku" using assms by simp
  then have "last ?xs = data ! (n - ku)" using assms by (simp add: last_rev hd_drop_conv_nth)
  moreover have "butlast ?xs = rev (drop (n - (ku - 1)) (take n data))"
    using assms by (simp add: butlast_rev drop_Suc [symmetric] tl_drop flip: drop_Suc) (simp add: Suc_diff_le [symmetric] drop_Suc tl_drop)
  ultimately show ?thesis using elts_down_eq [of "ku - 1" n data table] assms
    by (simp add: hc_group_def hc_adds_set hc_add_bits_set group_pair_def)
qed

text \<open>Everything written so far, whichever part of it is still in the container.\<close>

definition hc_holds :: "nat \<Rightarrow> nat \<Rightarrow> huf_cstream \<Rightarrow> bool list \<Rightarrow> bool" where
  "hc_holds start cap s full \<longleftrightarrow> (\<exists>out bs. hc_at start cap s out bs \<and> length bs < 8 \<and> full = out @ bs)"

lemma hc_flush_holds:
  assumes "hc_at start cap s out bs" "length out + length bs + 64 \<le> 8 * (start + cap)"
  shows "\<exists>s'. hc_flush_bits fast s = Some s' \<and> hc_holds start cap s' (out @ bs) \<and> hc_pair 1 s' = hc_pair 1 s"
proof -
  let ?k = "8 * (length bs div 8)"
  obtain s' where "hc_flush_bits fast s = Some s'" "hc_at start cap s' (out @ take ?k bs) (drop ?k bs)" "hc_pair 1 s' = hc_pair 1 s"
    using hc_flush_at [OF assms refl] by blast
  moreover have "length (drop ?k bs) < 8" by (simp add: minus_mult_div_eq_mod)
  ultimately show ?thesis unfolding hc_holds_def by (metis append.assoc append_take_drop_id)
qed

lemma hc_group_flush:
  assumes h: "hc_holds start cap s full" and u: "unroll_ok tlog ku klf" and n: "ku \<le> n" "n \<le> length data"
    and xs: "xs = rev (drop (n - ku) (take n data))" "coded tlog codes table xs"
    and room: "length full + length (code_bits codes xs) + 64 \<le> 8 * (start + cap)"
  shows "\<exists>s'. hc_flush_bits kff (hc_group table data ku klf n 0 s) = Some s' \<and> hc_holds start cap s' (full @ code_bits codes xs)"
proof -
  obtain out bs where at: "hc_at start cap s out bs" "length bs < 8" "full = out @ bs" using h by (auto simp: hc_holds_def)
  have len: "length xs = ku" using n xs(1) by simp
  have p: "pend (hc_pair 0 s) bs" using at(1) by (simp add: hc_at_def)
  have "0 < ku" using u by (simp add: unroll_ok_def)
  then have g: "hc_group table data ku klf n 0 s = hc_set 0 (group_pair table klf xs (hc_pair 0 s)) s" using hc_group_set n xs(1) by simp
  have "hc_at start cap (hc_group table data ku klf n 0 s) out (bs @ code_bits codes xs)"
    unfolding g by (rule hc_at_add [OF at(1) group_pend(1) [OF xs(2) len u p at(2)]])
  from hc_flush_holds [OF this, of kff] room show ?thesis by (auto simp: at(3))
qed

lemma hc_merge_flush:
  assumes h: "hc_holds start cap s full" and u: "unroll_ok tlog ku klf" and n: "ku \<le> n" "n \<le> length data"
    and xs: "xs = rev (drop (n - ku) (take n data))" "coded tlog codes table xs"
    and room: "length full + length (code_bits codes xs) + 64 \<le> 8 * (start + cap)"
  shows "\<exists>s'. hc_flush_bits kff (merge_index1 (hc_group table data ku klf n 1 (s\<lparr>hc_container1 := 0, hc_bit_pos1 := 0\<rparr>))) = Some s'
     \<and> hc_holds start cap s' (full @ code_bits codes xs)"
proof -
  obtain out bs where at: "hc_at start cap s out bs" "length bs < 8" "full = out @ bs" using h by (auto simp: hc_holds_def)
  have len: "length xs = ku" using n xs(1) by simp
  let ?s = "s\<lparr>hc_container1 := 0, hc_bit_pos1 := 0\<rparr>" and ?c = "group_pair table klf xs (0, 0)"
  have "0 < ku" using u by (simp add: unroll_ok_def)
  then have g: "hc_group table data ku klf n 1 ?s = hc_set 1 ?c s" using hc_group_set [of ku n data table klf 1 ?s] n xs(1)
    by (simp add: hc_set_def hc_pair_def)
  have z: "pend (0, 0) []" "zero_below 4 (0, 0) []" by simp_all
  have p1: "pend ?c (code_bits codes xs)" using group_pend(1) [OF xs(2) len u z(1)] by simp
  obtain d where d: "zero_below d ?c (code_bits codes xs)" "d + 7 + length (code_bits codes xs) \<le> 64"
    using group_pend(2) [OF xs(2) len u z(1) _ z(2)] by auto
  obtain b1 q1 where c: "?c = (b1, q1)" by fastforce
  have m: "merge_index1 (hc_set 1 ?c s) = hc_set 0 (drop_bit (unat (q1 AND 0xFF)) (hc_container0 s) OR b1, hc_bit_pos0 s + q1) (hc_set 1 ?c s)"
    by (simp add: merge_index1_def hc_set_def c Let_def)
  have "pend (hc_container0 s, hc_bit_pos0 s) bs" using at(1) by (simp add: hc_at_def hc_pair_def)
  from merge_pend [OF this p1 [unfolded c] d(1) [unfolded c]] d(2) at(2)
  have "hc_at start cap (merge_index1 (hc_set 1 ?c s)) out (bs @ code_bits codes xs)"
    unfolding m using at(1) by (intro hc_at_add [of _ _ _ _ bs]) simp_all
  from hc_flush_holds [OF this, of kff] room show ?thesis unfolding g by (auto simp: at(3))
qed

lemma rev_take_split: "\<lbrakk>k \<le> n; n \<le> length data\<rbrakk> \<Longrightarrow> rev (take n data) = rev (drop (n - k) (take n data)) @ rev (take (n - k) data)"
  by (metis append_take_drop_id diff_le_self min.absorb1 rev_append take_take)

lemma hc_chunks_holds:
  assumes "hc_holds start cap s full" "unroll_ok tlog ku klf" "n = chunks * (2 * ku)" "n \<le> length data" "coded tlog codes table data"
    "length full + length (code_bits codes (rev (take n data))) + 64 \<le> 8 * (start + cap)"
  shows "\<exists>s'. hc_chunks table data ku kff klf chunks n s = Some s' \<and> hc_holds start cap s' (full @ code_bits codes (rev (take n data)))"
  using assms
proof (induction chunks arbitrary: n s full)
  case (Suc chunks)
  define a b r where "a = rev (drop (n - ku) (take n data))" and "b = rev (drop (n - ku - ku) (take (n - ku) data))" and "r = rev (take (n - 2 * ku) data)"
  have n: "2 * ku \<le> n" "ku \<le> n" "ku \<le> n - ku" "n - ku \<le> length data" using Suc.prems(3,4) by auto
  have split: "rev (take n data) = a @ b @ r"
    unfolding a_def b_def r_def using rev_take_split [OF n(2) Suc.prems(4)] rev_take_split [OF n(3,4)] by (simp add: mult_2)
  have "coded tlog codes table (rev (take n data))" using Suc.prems(5) by (rule coded_subset) (auto dest: in_set_takeD)
  then have c: "coded tlog codes table a" "coded tlog codes table b" by (simp_all add: split)
  obtain s1 where s1: "hc_flush_bits kff (hc_group table data ku klf n 0 s) = Some s1" "hc_holds start cap s1 (full @ code_bits codes a)"
    using hc_group_flush [OF Suc.prems(1,2) n(2) Suc.prems(4) a_def c(1), of kff] Suc.prems(6) by (auto simp: split)
  obtain s2 where s2: "hc_flush_bits kff (merge_index1 (hc_group table data ku klf (n - ku) 1 (s1\<lparr>hc_container1 := 0, hc_bit_pos1 := 0\<rparr>))) = Some s2"
      "hc_holds start cap s2 ((full @ code_bits codes a) @ code_bits codes b)"
    using hc_merge_flush [OF s1(2) Suc.prems(2) n(3,4) b_def c(2), of kff] Suc.prems(6) by (auto simp: split)
  have "n - 2 * ku = chunks * (2 * ku)" "n - 2 * ku \<le> length data" using Suc.prems(3,4) by auto
  from Suc.IH [OF s2(2) Suc.prems(2) this Suc.prems(5)] s1(1) s2(1) Suc.prems(6) show ?case
    by (auto simp: split r_def [symmetric])
qed simp

lemma encode_unrolled_holds:
  assumes h: "hc_holds start cap s full" and u: "unroll_ok tlog ku klf" and c: "coded tlog codes table data"
    and room: "length full + length (code_bits codes (rev data)) + 64 \<le> 8 * (start + cap)"
  shows "\<exists>s'. encode_unrolled table data ku kff klf s = Some s' \<and> hc_holds start cap s' (full @ code_bits codes (rev data))"
proof -
  have ku: "0 < ku" using u by (simp add: unroll_ok_def)
  define r n where "r = length data mod ku" and "n = length data - r"
  have r: "r < ku" "r \<le> length data" using ku by (simp_all add: r_def)
  define a where "a = rev (drop n data)"
  have sp1: "rev data = a @ rev (take n data)" unfolding a_def using rev_take_split [of r "length data" data] r by (simp add: n_def)
  have ca: "coded tlog codes table a" using c by (rule coded_subset) (auto simp: a_def dest: in_set_dropD)
  have la: "length a = r" using r by (simp add: a_def n_def)
  obtain s1 where s1: "(if r > 0 then hc_flush_bits kff (hc_adds False (elts_down table data (length data) r) 0 s) else Some s) = Some s1"
      "hc_holds start cap s1 (full @ code_bits codes a)"
  proof (cases "r > 0")
    case True
    obtain out bs where at: "hc_at start cap s out bs" "length bs < 8" "full = out @ bs" using h by (auto simp: hc_holds_def)
    have e: "elts_down table data (length data) r = elts_of table a" using elts_down_eq [of r "length data" data table] r by (simp add: a_def n_def)
    have "r * tlog \<le> (ku - 1) * tlog" using r(1) by (intro mult_le_mono1) simp
    moreover have "7 + (ku - 1) * tlog \<le> 60" using u by (simp add: unroll_ok_def)
    ultimately have "length bs + r * tlog \<le> 64" using at(2) by linarith
    then have "length bs + length a * tlog \<le> (if False then 60 else 64)" by (simp add: la)
    from huf_adds_pend(1) [OF ca _ this] at(1)
    have "hc_at start cap (hc_adds False (elts_down table data (length data) r) 0 s) out (bs @ code_bits codes a)"
      unfolding hc_adds_set e by (intro hc_at_add [OF at(1)]) (simp add: hc_at_def)
    from hc_flush_holds [OF this, of kff] room True that show ?thesis by (auto simp: at(3) sp1)
  next
    case False
    then have "a = []" using la by simp
    then show ?thesis using that [of s] False h by simp
  qed
  have nk: "ku dvd n" "n \<le> length data" by (simp_all add: n_def r_def)
  define m where "m = (if n mod (2 * ku) \<noteq> 0 then n - ku else n)"
  have m: "2 * ku dvd m" "n mod (2 * ku) \<noteq> 0 \<Longrightarrow> ku \<le> n \<and> m = n - ku" "m \<le> n"
  proof -
    obtain q where q: "n = ku * q" using nk(1) by blast
    have odd: "\<exists>j. q = 2 * j + 1" if ne: "n mod (2 * ku) \<noteq> 0"
    proof (rule ccontr)
      assume "\<not> (\<exists>j. q = 2 * j + 1)"
      then obtain j where "q = 2 * j" by (metis oddE evenE)
      then show False using ne by (simp add: q mult.left_commute)
    qed
    show "n mod (2 * ku) \<noteq> 0 \<Longrightarrow> ku \<le> n \<and> m = n - ku"
    proof -
      assume ne: "n mod (2 * ku) \<noteq> 0"
      then obtain j where "q = 2 * j + 1" using odd by blast
      then show ?thesis using ne by (simp only: m_def q) simp
    qed
    show "m \<le> n" by (simp add: m_def)
    show "2 * ku dvd m" 
    proof (cases "n mod (2 * ku) \<noteq> 0")
      case True
      then obtain j where "q = 2 * j + 1" using odd by blast
      then have "m = 2 * ku * j" using True by (simp add: m_def q)
      then show ?thesis by simp
    qed (simp add: m_def mod_eq_0_iff_dvd)
  qed
  define b where "b = rev (drop m (take n data))"
  have sp2: "rev (take n data) = b @ rev (take m data)"
    unfolding b_def using rev_take_split [of "n - m" n data] m(3) nk(2) by simp
  have cb: "coded tlog codes table b" using c by (rule coded_subset) (auto simp: b_def dest: in_set_dropD in_set_takeD)
  obtain s2 where s2: "(if n mod (2 * ku) \<noteq> 0 then hc_flush_bits kff (hc_group table data ku klf n 0 s1) else Some s1) = Some s2"
      "hc_holds start cap s2 ((full @ code_bits codes a) @ code_bits codes b)"
  proof (cases "n mod (2 * ku) \<noteq> 0")
    case True
    with m(2) have k: "ku \<le> n" "b = rev (drop (n - ku) (take n data))" by (simp_all add: b_def)
    show ?thesis using hc_group_flush [OF s1(2) u k(1) nk(2) k(2) cb, of kff] room True that by (auto simp: sp1 sp2)
  next
    case False
    then have "b = []" by (simp add: b_def m_def)
    then show ?thesis using that [of s1] False s1(2) by simp
  qed
  have mk: "m = m div (2 * ku) * (2 * ku)" "m \<le> length data" using m(1,3) nk(2) by simp_all
  obtain s3 where s3: "hc_chunks table data ku kff klf (m div (2 * ku)) m s2 = Some s3"
      "hc_holds start cap s3 (((full @ code_bits codes a) @ code_bits codes b) @ code_bits codes (rev (take m data)))"
    using hc_chunks_holds [OF s2(2) u mk c, of kff] room by (auto simp: sp1 sp2)
  have "encode_unrolled table data ku kff klf s = Some s3"
    unfolding encode_unrolled_def Let_def r_def [symmetric] n_def [symmetric] s1(1) m_def [symmetric] Option.bind_lunit s2(1) by (rule s3(1))
  then show ?thesis using s3(2) by (simp add: sp1 sp2)
qed

section \<open>Opening and closing\<close>

lemma hc_new_holds:
  assumes "8 < cap" "cap \<le> length spare"
  shows "\<exists>s. hc_new output cap spare = Some s \<and> hc_holds (length output) cap s (bits_of output)"
proof -
  let ?s = "\<lparr>hc_container0 = 0, hc_container1 = 0, hc_bit_pos0 = 0, hc_bit_pos1 = 0, hc_mem = output @ spare,
          hc_start_idx = length output, hc_cursor = length output, hc_end_ptr = length output + cap - 8, hc_overflow = False\<rparr>"
  have "hc_at (length output) cap ?s (bits_of output) []" using assms by (simp add: hc_at_def hc_pair_def)
  then show ?thesis using assms(1) unfolding hc_holds_def by (force simp: hc_new_def Let_def)
qed

lemma hc_close_holds:
  assumes h: "hc_holds start cap s full" and room: "length full + 65 \<le> 8 * (start + cap)"
  shows "\<exists>out n p. hc_close s = Some (out, n) \<and> length out = start + n \<and> p < 8 \<and> bits_of out = full @ True # replicate p False"
proof -
  obtain out bs where at: "hc_at start cap s out bs" "length bs < 8" "full = out @ bs" using h by (auto simp: hc_holds_def)
  have mark: "1 OR push_bit (HUF_BITS_IN_CONTAINER - 1) 1 = pack_huf_celt 1 1" by (simp add: pack_huf_celt_def HUF_BITS_IN_CONTAINER_def)
  have one: "word_bits 1 (1 :: u32) = [True]" by (simp add: word_bits_def)
  have p0: "pend (hc_pair 0 s) bs" using at(1) by (simp add: hc_at_def)
  let ?bs = "bs @ [True]" and ?s = "hc_add_bits False (pack_huf_celt 1 1) 0 s"
  have "hc_at start cap ?s out ?bs"
    unfolding hc_add_bits_set using huf_add_pend(1) [OF p0, of 1 1 False] at(2) one by (intro hc_at_add [OF at(1)]) simp
  from hc_flush_at [OF this _ refl, of False] room at(3) obtain s' where s': "hc_flush_bits False ?s = Some s'"
      "hc_at start cap s' (out @ take (8 * (length ?bs div 8)) ?bs) (drop (8 * (length ?bs div 8)) ?bs)"
      "bits_of (take (hc_cursor s' + 1) (hc_mem s')) = out @ ?bs @ replicate (8 - length ?bs mod 8) False"
    using at(2) by auto
  let ?k = "length ?bs div 8" and ?pb = "pending_bits s'"
  have f: "\<not> hc_overflow s'" "hc_start_idx s' = start" "start \<le> hc_cursor s'" "hc_cursor s' \<le> length (hc_mem s')"
      "bits_of (take (hc_cursor s') (hc_mem s')) = out @ take (8 * ?k) ?bs"
    using s'(2) by (simp_all add: hc_at_def)
  have pb: "?pb = length ?bs - 8 * ?k" using s'(2) by (simp add: hc_at_def hc_pair_def pending_bits_def)
  have cl: "hc_close s = Some (take (hc_cursor s' + (if ?pb > 0 then 1 else 0)) (hc_mem s'), (hc_cursor s' - start) + (if ?pb > 0 then 1 else 0))"
    using s'(1) f(1-3) unfolding hc_close_def Let_def mark by simp
  show ?thesis
  proof (cases "length bs = 7")
    case True
    then have k: "?pb = 0" "take (8 * ?k) ?bs = ?bs" using pb by simp_all
    show ?thesis unfolding cl using k f at(3) by (intro exI [of _ "take (hc_cursor s') (hc_mem s')"] exI [of _ "hc_cursor s' - start"] exI [of _ 0]) simp
  next
    case False
    then have k: "?pb > 0" "length ?bs mod 8 = length ?bs" "length bs < 7" using pb at(2) by simp_all
    let ?o = "take (hc_cursor s' + 1) (hc_mem s')"
    have b: "bits_of ?o = full @ True # replicate (8 - length ?bs) False" using s'(3) k(2) at(3) by simp
    have "length full + 1 + (8 - length ?bs) = length out + 8" using at(3) k(3) by simp
    moreover have "length out = 8 * hc_cursor s'" using f(4) arg_cong [OF f(5), of length] k(3) by simp
    ultimately have "length ?o = hc_cursor s' + 1" using arg_cong [OF b, of length] by simp
    then show ?thesis unfolding cl using k(1,3) f(3) b
      by (intro exI [of _ ?o] exI [of _ "hc_cursor s' - start + 1"] exI [of _ "8 - length ?bs"]) simp
  qed
qed

end
