(* ===== verification/Huff_Codes.thy ===== *)
theory Huff_Codes
  imports Huf_CStream
begin

text \<open>
  The codes of the Huffman encoder (\<^verbatim>\<open>zstd/src/huff0/huff0_encoder.rs\<close>): building the code table from weights, into new or
  recycled buffers, the weights read back from it, size estimates, and the streams, one symbol at a time through the bit writer
  or in four segments through the packer. Counts and lengths are natural numbers; the code values of the build are 16 bits wide
  and wrap. The codes are then shown to be the canonical ones that the decoder's lookup table is made of.
\<close>

section \<open>The table\<close>

record huffman_code_table =
  he_codes :: "(u32 \<times> nat) list"
  he_packed_codes :: "u64 list"
  he_table_log :: nat

definition per_weight :: "nat list \<Rightarrow> nat list" where
  "per_weight weights = map (\<lambda>w. length (filter (\<lambda>v. v = w) weights)) [0..<13]"

definition weight_sum_of :: "nat list \<Rightarrow> nat" where
  "weight_sum_of counts = (\<Sum>w \<leftarrow> [1..<13]. counts ! w * 2 ^ (w - 1))"

definition enc_highest_bit_set :: "nat \<Rightarrow> nat" where
  "enc_highest_bit_set x = ilog2 x + 1"

text \<open>The first code of every length, from the longest down.\<close>

fun first_codes :: "nat list \<Rightarrow> nat \<Rightarrow> nat \<Rightarrow> nat \<Rightarrow> nat list \<Rightarrow> nat list" where
  "first_codes counts table_log 0 lo val_per_rank = val_per_rank"
| "first_codes counts table_log (Suc n) lo val_per_rank =
     first_codes counts table_log n ((lo + counts ! (table_log + 1 - Suc n)) mod 2 ^ 16 div 2) (val_per_rank[Suc n := lo])"

fun assign_codes :: "nat \<Rightarrow> nat list \<Rightarrow> nat list \<Rightarrow> (u32 \<times> nat) list" where
  "assign_codes table_log val_per_rank [] = []"
| "assign_codes table_log val_per_rank (weight # weights) =
     (if weight = 0 then (0, 0) # assign_codes table_log val_per_rank weights
      else
        let nb_bits = table_log + 1 - weight; val = val_per_rank ! nb_bits in
        (of_nat val, nb_bits) # assign_codes table_log (val_per_rank[nb_bits := val + 1]) weights)"

definition packed_of :: "u32 \<times> nat \<Rightarrow> u64" where
  "packed_of c = (if snd c = 0 then 0 else pack_huf_celt (fst c) (snd c))"

text \<open>
  A weight above 12, a weight sum that is not a power of two and a table log above 12 are panics. Recycled packed codes keep
  what lies behind both the old and the new symbols.
\<close>

definition build_from_weights_reusing :: "nat list \<Rightarrow> huffman_code_table option \<Rightarrow> huffman_code_table option" where
  "build_from_weights_reusing weights spare =
     (if list_ex (\<lambda>w. w > 12) weights then None
      else
        let counts = per_weight weights; weight_sum = weight_sum_of counts in
        if \<not> is_power_of_two weight_sum then None
        else
          let table_log = enc_highest_bit_set weight_sum - 1;
              old_packed = (case spare of
                  Some spare \<Rightarrow>
                    let stale = max (length (he_codes spare)) (length weights) in
                    take (length weights) (he_packed_codes spare) @ replicate (stale - length weights) 0 @ drop stale (he_packed_codes spare)
                | None \<Rightarrow> replicate 256 0) in
          if table_log > 12 \<or> list_ex (\<lambda>w. w > table_log + 1) weights \<or> length weights > length old_packed then None
          else
            let val_per_rank = first_codes counts table_log table_log 0 (replicate 13 0);
                codes = assign_codes table_log val_per_rank weights in
            Some \<lparr>he_codes = codes, he_packed_codes = map packed_of codes @ drop (length weights) old_packed, he_table_log = table_log\<rparr>)"

definition build_from_weights :: "nat list \<Rightarrow> huffman_code_table option" where
  "build_from_weights weights = build_from_weights_reusing weights None"

definition weights_into :: "huffman_code_table \<Rightarrow> nat list option" where
  "weights_into t =
     (if he_codes t = [] then None
      else let mx = Max (set (map snd (he_codes t))) in Some (map (\<lambda>(_, nb). if nb = 0 then 0 else mx - nb + 1) (he_codes t)))"

section \<open>Sizes\<close>

definition stream_bytes :: "nat \<Rightarrow> nat" where
  "stream_bytes bits = (bits + 7) div 8 + (if bits mod 8 = 0 then 1 else 0)"

definition estimate_compressed_size_from_counts :: "huffman_code_table \<Rightarrow> nat list \<Rightarrow> nat" where
  "estimate_compressed_size_from_counts t counts =
     (let bits = sum_list (map (\<lambda>((_, bits), cnt). bits * cnt) (zip (he_codes t) counts)) in stream_bytes bits)"

fun checked_bits :: "(u32 \<times> nat) list \<Rightarrow> nat \<Rightarrow> nat list \<Rightarrow> nat \<Rightarrow> nat option" where
  "checked_bits codes symbol [] bits = Some bits"
| "checked_bits codes symbol (cnt # counts) bits =
     (if cnt = 0 then checked_bits codes (Suc symbol) counts bits
      else if symbol \<ge> length codes \<or> snd (codes ! symbol) = 0 then None
      else checked_bits codes (Suc symbol) counts (bits + snd (codes ! symbol) * cnt))"

definition estimate_compressed_size_from_counts_checked :: "huffman_code_table \<Rightarrow> nat list \<Rightarrow> nat option" where
  "estimate_compressed_size_from_counts_checked t counts = map_option stream_bytes (checked_bits (he_codes t) 0 counts 0)"

fun encode_cost :: "(nat \<times> nat) list \<Rightarrow> nat \<Rightarrow> nat option" where
  "encode_cost [] acc = Some acc"
| "encode_cost ((other_num_bits, self_num_bits) # rest) acc =
     (if other_num_bits \<noteq> 0 \<and> self_num_bits = 0 then None
      else encode_cost rest (acc + ((other_num_bits - self_num_bits) + (self_num_bits - other_num_bits))))"

definition can_encode :: "huffman_code_table \<Rightarrow> huffman_code_table \<Rightarrow> nat option" where
  "can_encode t other =
     (if length (he_codes other) > length (he_codes t) then None
      else encode_cost (zip (map snd (he_codes other)) (map snd (he_codes t))) 0)"

definition num_bits_for_symbol :: "huffman_code_table \<Rightarrow> u8 \<Rightarrow> nat option" where
  "num_bits_for_symbol t symbol =
     (if unat symbol < length (he_codes t) \<and> snd (he_codes t ! unat symbol) > 0 then Some (snd (he_codes t ! unat symbol)) else None)"

section \<open>Writing\<close>

fun raw_weight_fields :: "nat list \<Rightarrow> (u64 \<times> nat) list" where
  "raw_weight_fields (weight1 # weight2 # weights) = (of_nat weight2, 4) # (of_nat weight1, 4) # raw_weight_fields weights"
| "raw_weight_fields [weight] = [(of_nat (weight * 16), 8)]"
| "raw_weight_fields [] = []"

definition write_raw_weight_description :: "bit_writer \<Rightarrow> nat list \<Rightarrow> bit_writer option" where
  "write_raw_weight_description w weights =
     (if length weights > 128 \<or> list_ex (\<lambda>weight. weight \<ge> 16) weights then None
      else write_fields w ((of_nat (length weights + 127), 8) # raw_weight_fields weights))"

fun encode_symbols :: "(u32 \<times> nat) list \<Rightarrow> bit_writer \<Rightarrow> u8 list \<Rightarrow> bit_writer option" where
  "encode_symbols codes w [] = Some w"
| "encode_symbols codes w (symbol # symbols) =
     (if unat symbol < length codes then
        let (code, num_bits) = codes ! unat symbol in
        Option.bind (write_bits_64 w (ucast code) num_bits) (\<lambda>w. encode_symbols codes w symbols)
      else None)"

definition encode_stream :: "huffman_code_table \<Rightarrow> bit_writer \<Rightarrow> u8 list \<Rightarrow> bit_writer option" where
  "encode_stream t w data = Option.bind (encode_symbols (he_codes t) w (rev data)) close_stream"

definition huf_tight_compress_bound :: "nat \<Rightarrow> nat \<Rightarrow> nat" where
  "huf_tight_compress_bound src_size table_log = src_size * table_log div 8 + 8 + 16"

definition encode_one_stream :: "u64 list \<Rightarrow> huf_cstream \<Rightarrow> u8 list \<Rightarrow> nat \<Rightarrow> huf_cstream option" where
  "encode_one_stream table bit_c data table_log =
     (if table_log = 11 then encode_unrolled table data 5 True False bit_c
      else if table_log = 10 then encode_unrolled table data 5 True True bit_c
      else if table_log = 9 then encode_unrolled table data 6 True False bit_c
      else if table_log = 8 then encode_unrolled table data 7 True False bit_c
      else if table_log = 7 then encode_unrolled table data 8 True False bit_c
      else encode_unrolled table data 4 False False bit_c)"

text \<open>The closure that one segment runs on the output: \<open>None\<close> is a panic in it.\<close>

definition encode_segment :: "huffman_code_table \<Rightarrow> u8 list \<Rightarrow> u8 list \<Rightarrow> u8 list \<Rightarrow> nat option \<times> u8 list" where
  "encode_segment t segment spare output =
     (let dst_capacity = huf_tight_compress_bound (length segment) (he_table_log t) in
      case Option.bind (hc_new output dst_capacity spare) (\<lambda>bit_c.
             Option.bind (encode_one_stream (he_packed_codes t) bit_c segment (he_table_log t)) hc_close) of
        None \<Rightarrow> (None, output)
      | Some (output, bytes_written) \<Rightarrow> (Some bytes_written, output))"

fun encode_segments :: "huffman_code_table \<Rightarrow> (nat \<Rightarrow> u8 list) \<Rightarrow> nat \<Rightarrow> u8 list list \<Rightarrow> bit_writer \<Rightarrow> (nat list \<times> bit_writer) option" where
  "encode_segments t spare i [] w = Some ([], w)"
| "encode_segments t spare i (segment # segments) w =
     Option.bind (with_aligned_output_mut w (encode_segment t segment (spare i))) (\<lambda>(bytes_written, w).
       case bytes_written of
         None \<Rightarrow> None
       | Some bytes_written \<Rightarrow>
           if bytes_written = 0 \<or> i < 3 \<and> bytes_written > 65535 then None
           else Option.bind (encode_segments t spare (Suc i) segments w) (\<lambda>(sizes, w). Some (bytes_written # sizes, w)))"

text \<open>Without the table description, which is written before.\<close>

definition encode4x_streams :: "huffman_code_table \<Rightarrow> (nat \<Rightarrow> u8 list) \<Rightarrow> bit_writer \<Rightarrow> u8 list \<Rightarrow> bit_writer option" where
  "encode4x_streams t spare w data =
     (if length data < 12 then None
      else
        let jt_bit_idx = bw_index w in
        Option.bind (write_fields w [(0, 16), (0, 16), (0, 16)]) (\<lambda>w.
          let segment_size = (length data + 3) div 4;
              segments = [take segment_size data, take segment_size (drop segment_size data),
                          take segment_size (drop (segment_size * 2) data), drop (segment_size * 3) data] in
          Option.bind (encode_segments t spare 0 segments w) (\<lambda>(stream_sizes, w).
            Option.bind (change_bits_64 w jt_bit_idx (of_nat (stream_sizes ! 0)) 16) (\<lambda>w.
            Option.bind (change_bits_64 w (jt_bit_idx + 16) (of_nat (stream_sizes ! 1)) 16) (\<lambda>w.
            change_bits_64 w (jt_bit_idx + 32) (of_nat (stream_sizes ! 2)) 16)))))"

section \<open>The codes are the canonical ones\<close>

text \<open>The first code of a length: the slots of the longer codes, in units of its own slots.\<close>

definition code_base :: "nat list \<Rightarrow> nat \<Rightarrow> nat \<Rightarrow> nat" where
  "code_base L M l = first_slot L M l div 2 ^ (M - l)"

lemma code_base_step:
  assumes "0 < l" "l \<le> M"
  shows "code_base L M (l - 1) = (code_base L M l + length (syms L l)) div 2"
proof -
  have "(2 :: nat) ^ (M - (l - 1)) = 2 ^ (M - l) * 2" using assms by (simp add: Suc_diff_le)
  then show ?thesis unfolding code_base_def first_slot_step [OF assms] by (simp add: div_mult2_eq add.commute)
qed

lemma first_slot_unit:
  assumes "first_slot L M 0 = 2 ^ M" "l \<le> M"
  shows "2 ^ (M - l) dvd first_slot L M l"
proof -
  have "{0<..M} = {0<..l} \<union> {l<..M}" using assms(2) by auto
  then have "first_slot L M 0 = (\<Sum>k \<in> {0<..l}. length (syms L k) * 2 ^ (M - k)) + first_slot L M l"
    unfolding first_slot_def by (simp add: sum.union_disjoint ivl_disj_int)
  moreover have "2 ^ (M - l) dvd (\<Sum>k \<in> {0<..l}. length (syms L k) * 2 ^ (M - k))"
    by (intro dvd_sum dvd_mult le_imp_power_dvd) auto
  moreover have "(2 :: nat) ^ (M - l) dvd 2 ^ M" by (intro le_imp_power_dvd) simp
  ultimately show ?thesis using assms(1) by (metis dvd_add_right_iff)
qed

lemma first_slot_le: "first_slot L M l \<le> first_slot L M 0"
  unfolding first_slot_def by (rule sum_mono2) auto

lemma code_base_bound:
  assumes c: "complete_code L M" and l: "0 < l" "l \<le> M"
  shows "code_base L M l * 2 ^ (M - l) = first_slot L M l" "code_base L M l + length (syms L l) \<le> 2 ^ l"
proof -
  have tot: "first_slot L M 0 = 2 ^ M" using c by (simp add: complete_code_def)
  show b: "code_base L M l * 2 ^ (M - l) = first_slot L M l" using first_slot_unit [OF tot l(2)] by (simp add: code_base_def)
  have "(code_base L M l + length (syms L l)) * 2 ^ (M - l) = first_slot L M (l - 1)" using first_slot_step [OF l] b by (simp add: algebra_simps)
  also have "\<dots> \<le> 2 ^ l * 2 ^ (M - l)" using first_slot_le [of L M "l - 1"] tot l by (simp add: power_add [symmetric])
  finally show "code_base L M l + length (syms L l) \<le> 2 ^ l" by simp
qed

lemma first_codes_nth:
  assumes c: "complete_code L M" "M \<le> 12" and cnt: "\<And>l. \<lbrakk>0 < l; l \<le> M\<rbrakk> \<Longrightarrow> counts ! (M + 1 - l) = length (syms L l)"
    and n: "n \<le> M" "length vals = 13"
    and above: "\<And>l. \<lbrakk>n < l; l \<le> M\<rbrakk> \<Longrightarrow> vals ! l = code_base L M l"
  shows "length (first_codes counts M n (code_base L M n) vals) = 13
    \<and> (\<forall>l. 0 < l \<and> l \<le> M \<longrightarrow> first_codes counts M n (code_base L M n) vals ! l = code_base L M l)"
  using n above
proof (induction n arbitrary: vals)
  case (Suc n)
  let ?b = "code_base L M (Suc n)"
  have le: "?b + length (syms L (Suc n)) \<le> 2 ^ Suc n" using code_base_bound(2) [OF c(1), of "Suc n"] Suc.prems(1) by (metis zero_less_Suc)
  also have "(2 :: nat) ^ Suc n \<le> 2 ^ 12" using Suc.prems(1) c(2) by (intro power_increasing) auto
  finally have "(?b + counts ! (M + 1 - Suc n)) mod 2 ^ 16 div 2 = code_base L M n"
    using code_base_step [of "Suc n" M L] cnt [of "Suc n"] Suc.prems(1) by simp
  then have eq: "first_codes counts M (Suc n) ?b vals = first_codes counts M n (code_base L M n) (vals[Suc n := ?b])" by simp
  have v: "(vals[Suc n := ?b]) ! k = code_base L M k" if "n < k" "k \<le> M" for k
    using Suc.prems that c(2) by (auto simp: nth_list_update)
  show ?case unfolding eq using Suc.prems(1,2) v by (intro Suc.IH) auto
qed simp

lemma assign_codes_nth:
  assumes M: "M \<le> 12" and W: "\<forall>w \<in> set W. w \<le> M" and L: "L = map (length_of_weight M) W"
  shows "\<lbrakk>k \<le> length W; length vals = 13; \<forall>l. 0 < l \<and> l \<le> M \<longrightarrow> vals ! l = base l + length (syms_upto L k l); k \<le> i; i < length W\<rbrakk>
    \<Longrightarrow> assign_codes M vals (drop k W) ! (i - k) = (if W ! i = 0 then (0, 0) else (of_nat (base (L ! i) + length (syms_upto L i (L ! i))), L ! i))"
proof (induction "length W - k" arbitrary: k vals)
  case (Suc n)
  then have k: "k < length W" "drop k W = W ! k # drop (Suc k) W" by (simp_all add: Cons_nth_drop_Suc)
  have Lk: "L ! k = length_of_weight M (W ! k)" using k(1) by (simp add: L)
  have wk: "W ! k \<le> M" using W k(1) by auto
  define vals' where "vals' = (if W ! k = 0 then vals else vals[L ! k := vals ! (L ! k) + 1])"
  have pos: "W ! k \<noteq> 0 \<Longrightarrow> 0 < L ! k \<and> L ! k \<le> M \<and> L ! k = M + 1 - W ! k" using wk by (auto simp: Lk length_of_weight_def)
  have v': "\<forall>l. 0 < l \<and> l \<le> M \<longrightarrow> vals' ! l = base l + length (syms_upto L (Suc k) l)"
  proof (intro allI impI)
    fix l assume l: "0 < l \<and> l \<le> M"
    show "vals' ! l = base l + length (syms_upto L (Suc k) l)"
    proof (cases "W ! k = 0")
      case True
      then have "L ! k \<noteq> l" using l by (simp add: Lk length_of_weight_def)
      then show ?thesis using Suc.prems(3) l True by (simp add: vals'_def syms_upto_Suc)
    next
      case False
      then show ?thesis using Suc.prems(2,3) l M pos by (auto simp: vals'_def syms_upto_Suc nth_list_update)
    qed
  qed
  have unfold: "assign_codes M vals (drop k W) = (if W ! k = 0 then (0, 0) else (of_nat (vals ! (L ! k)), L ! k)) # assign_codes M vals' (drop (Suc k) W)"
    unfolding k(2) using pos by (simp add: vals'_def Let_def)
  show ?case
  proof (cases "i = k")
    case True
    moreover have "vals ! (L ! k) = base (L ! k) + length (syms_upto L k (L ! k))" if "W ! k \<noteq> 0" using Suc.prems(3) pos [OF that] by blast
    ultimately show ?thesis unfolding unfold by (cases "W ! k = 0") simp_all
  next
    case False
    then have "assign_codes M vals' (drop (Suc k) W) ! (i - Suc k)
        = (if W ! i = 0 then (0, 0) else (of_nat (base (L ! i) + length (syms_upto L i (L ! i))), L ! i))"
      using Suc.hyps(1) [of "Suc k" vals'] Suc.hyps(2) Suc.prems v' k(1) by (simp add: vals'_def)
    moreover have "i - k = Suc (i - Suc k)" using False Suc.prems(4) by simp
    ultimately show ?thesis unfolding unfold by (simp only: nth_Cons_Suc)
  qed
qed simp

lemma length_assign_codes: "length (assign_codes M vals W) = length W"
  by (induction W arbitrary: vals) (simp_all add: Let_def)

lemma syms_upto_less: "\<lbrakk>i < length L\<rbrakk> \<Longrightarrow> length (syms_upto L i (L ! i)) < length (syms L (L ! i))"
  using length_syms_upto_mono [of "Suc i" "length L" L "L ! i"] by (simp add: syms_upto_Suc syms_upto_all)

lemma per_weight_nth: "w < 13 \<Longrightarrow> per_weight W ! w = length (filter (\<lambda>v. v = w) W)"
  by (simp add: per_weight_def del: upt_Suc)

lemma weight_sum_values:
  assumes "\<forall>w \<in> set W. w \<le> 12"
  shows "weight_sum_of (per_weight W) = sum_list (map weight_value W)"
proof -
  have "weight_sum_of (per_weight W) = (\<Sum>w \<in> {1..<13}. length (filter (\<lambda>v. v = w) W) * 2 ^ (w - 1))"
    unfolding weight_sum_of_def sum_list_distinct_conv_sum_set [OF distinct_upt] set_upt by (rule sum.cong) (simp_all add: per_weight_nth)
  also have "\<dots> = sum_list (map weight_value W)"
    using assms
  proof (induction W)
    case (Cons x xs)
    have "(\<Sum>w \<in> {1..<13}. length (filter (\<lambda>v. v = w) (x # xs)) * 2 ^ (w - 1))
        = (\<Sum>w \<in> {1..<13}. (if w = x then 2 ^ (w - 1) else 0) + length (filter (\<lambda>v. v = w) xs) * 2 ^ (w - 1))"
      by (rule sum.cong) (auto simp: algebra_simps)
    also have "\<dots> = (\<Sum>w \<in> {1..<13}. if w = x then 2 ^ (w - 1) else 0) + sum_list (map weight_value xs)"
      using Cons by (simp add: sum.distrib)
    also have "(\<Sum>w \<in> {1..<13}. if w = x then 2 ^ (w - 1) else 0 :: nat) = weight_value x"
      using Cons.prems by (auto simp: sum.delta weight_value_def)
    finally show ?case by simp
  qed simp
  finally show ?thesis .
qed

text \<open>Weights that describe a code: the last symbol has one, and another one has.\<close>

definition weights_usable :: "nat list \<Rightarrow> bool" where
  "weights_usable W \<longleftrightarrow> W \<noteq> [] \<and> last W > 0 \<and> list_ex (\<lambda>w. w > 0) (butlast W)"

definition code_value :: "nat list \<Rightarrow> nat \<Rightarrow> nat \<Rightarrow> nat" where
  "code_value L M i = code_base L M (L ! i) + length (syms_upto L i (L ! i))"

lemma weights_below:
  assumes u: "weights_usable W" and sum: "sum_list (map weight_value W) = 2 ^ M"
  shows "\<forall>w \<in> set W. w \<le> M" "0 < M"
proof -
  have W: "W = butlast W @ [last W]" "last W > 0" using u by (simp_all add: weights_usable_def)
  obtain v where v: "v \<in> set (butlast W)" "v > 0" using u by (auto simp: weights_usable_def list_ex_iff)
  have val: "weight_value w > 0" if "w > 0" for w using that by (simp add: weight_value_def)
  have s: "sum_list (map weight_value W) = sum_list (map weight_value (butlast W)) + weight_value (last W)" by (subst W(1)) simp
  have mem: "weight_value w \<le> sum_list (map weight_value (butlast W))" if "w \<in> set (butlast W)" for w using that by (simp add: member_le_sum_list)
  have less: "weight_value w < 2 ^ M" if "w \<in> set W" for w
  proof (cases "w \<in> set (butlast W)")
    case True
    then show ?thesis using mem [OF True] val [OF W(2)] s sum by linarith
  next
    case False
    then have "w = last W" using that by (subst (asm) W(1)) auto
    then have "weight_value w = weight_value (last W)" by simp
    then show ?thesis using mem [OF v(1)] val [OF v(2)] s sum by linarith
  qed
  show "\<forall>w \<in> set W. w \<le> M"
  proof
    fix w assume "w \<in> set W"
    from less [OF this] show "w \<le> M"
      by (cases "w = 0") (auto simp: weight_value_def dest: power_less_imp_less_exp [rotated])
  qed
  show "0 < M" using mem [OF v(1)] val [OF v(2)] val [OF W(2)] s sum by (cases M) auto
qed

lemma build_codes:
  assumes b: "build_from_weights_reusing W spare = Some t" and u: "weights_usable W"
    and L: "L = map (length_of_weight (he_table_log t)) W" and M: "M = he_table_log t"
  shows "complete_code L M" "M \<le> 12" "length (he_codes t) = length W" "\<forall>w \<in> set W. w \<le> M"
    "\<And>i. i < length W \<Longrightarrow> he_codes t ! i = (if W ! i = 0 then (0, 0) else (of_nat (code_value L M i), L ! i))"
proof -
  have w12: "\<forall>w \<in> set W. w \<le> 12" using b by (auto simp: build_from_weights_reusing_def list_ex_iff split: if_splits)
  let ?S = "sum_list (map weight_value W)"
  have pow: "is_power_of_two ?S" and m: "M = enc_highest_bit_set ?S - 1" "M \<le> 12"
    and codes: "he_codes t = assign_codes M (first_codes (per_weight W) M M 0 (replicate 13 0)) W"
    using b unfolding build_from_weights_reusing_def weight_sum_values [OF w12] M Let_def by (auto split: if_splits)
  show "M \<le> 12" by (rule m(2))
  have S: "?S = 2 ^ M" using pow m(1) by (simp add: is_power_of_two_def enc_highest_bit_set_def)
  note below = weights_below [OF u S]
  show "\<forall>w \<in> set W. w \<le> M" by (rule below(1))
  have W: "W = butlast W @ [last W]" "last W > 0" "last W \<le> M" using u below(1) by (simp_all add: weights_usable_def)
  have ll: "length_of_weight M (last W) = M + 1 - last W" using W(2) by (simp add: length_of_weight_def)
  have "weight_value (last W) = 2 ^ (last W - 1)" using W(2) by (simp add: weight_value_def)
  then have "sum_list (map weight_value (butlast W)) + 2 ^ (last W - 1) = 2 ^ M" using S by (subst (asm) W(1)) simp
  moreover have "\<forall>w \<in> set (butlast W). w \<le> M" using below(1) by (auto dest: in_set_butlastD)
  ultimately have "complete_code (map (length_of_weight M) (butlast W) @ [M + 1 - last W]) M" using W(2,3) by (intro complete_code_weights) auto
  then show c: "complete_code L M" unfolding L M [symmetric] by (subst W(1)) (simp add: ll)
  show "length (he_codes t) = length W" by (simp add: codes length_assign_codes)
  have cnt: "per_weight W ! (M + 1 - l) = length (syms L l)" if "0 < l" "l \<le> M" for l
  proof -
    have "filter (\<lambda>w. length_of_weight M w = l) W = filter (\<lambda>w. w = M + 1 - l) W"
      using below(1) that by (intro filter_cong refl) (simp add: length_of_weight_eq)
    then show ?thesis unfolding length_syms L M [symmetric] using that m(2) by (simp add: per_weight_nth filter_map o_def)
  qed
  have top: "code_base L M M = 0" by (simp add: code_base_def first_slot_top)
  note fc = first_codes_nth [OF c m(2) cnt, of M "replicate 13 0", simplified top]
  fix i assume i: "i < length W"
  show "he_codes t ! i = (if W ! i = 0 then (0, 0) else (of_nat (code_value L M i), L ! i))"
    using assign_codes_nth [OF m(2) below(1) L [folded M], of 0 "first_codes (per_weight W) M M 0 (replicate 13 0)" "code_base L M" i] fc i
    by (simp add: codes code_value_def syms_upto_def)
qed

lemma code_value_bound:
  assumes "complete_code L M" "i < length L" "0 < L ! i"
  shows "code_value L M i < 2 ^ (L ! i)" "code_value L M i * 2 ^ (M - L ! i) = first_slot L M (L ! i) + length (syms_upto L i (L ! i)) * 2 ^ (M - L ! i)"
proof -
  have l: "L ! i \<le> M" using assms(1,2) by (simp add: complete_code_def)
  note b = code_base_bound [OF assms(1,3) l]
  show "code_value L M i < 2 ^ (L ! i)" using b(2) syms_upto_less [OF assms(2)] by (simp add: code_value_def)
  show "code_value L M i * 2 ^ (M - L ! i) = first_slot L M (L ! i) + length (syms_upto L i (L ! i)) * 2 ^ (M - L ! i)"
    unfolding code_value_def using b(1) by (simp add: algebra_simps)
qed

text \<open>Only the lengths matter, not the log the codes were built at.\<close>

lemma first_slot_scale:
  assumes "\<forall>l \<in> set L. l \<le> N" "N \<le> M" "l \<le> N"
  shows "first_slot L M l = first_slot L N l * 2 ^ (M - N)"
proof -
  have none: "length (syms L k) = 0" if "N < k" for k using that assms(1) by (auto simp: syms_def filter_empty_conv all_set_conv_all_nth)
  have "first_slot L M l = (\<Sum>k \<in> {l<..N}. length (syms L k) * 2 ^ (M - k))"
    unfolding first_slot_def using assms(2,3) none by (intro sum.mono_neutral_right) auto
  also have "\<dots> = (\<Sum>k \<in> {l<..N}. length (syms L k) * 2 ^ (N - k) * 2 ^ (M - N))"
    using assms(2) by (intro sum.cong) (auto simp: power_add [symmetric])
  finally show ?thesis by (simp add: first_slot_def sum_distrib_right)
qed

lemma code_value_scale:
  assumes "complete_code L M" "\<forall>l \<in> set L. l \<le> N" "0 < N" "N \<le> M" "i < length L"
  shows "code_value L N i = code_value L M i" "complete_code L N"
proof -
  have l: "L ! i \<le> N" using assms(2,5) by simp
  have "(2 :: nat) ^ (M - L ! i) = 2 ^ (M - N) * 2 ^ (N - L ! i)" using l assms(4) by (simp add: power_add [symmetric])
  then show "code_value L N i = code_value L M i"
    unfolding code_value_def code_base_def first_slot_scale [OF assms(2,4) l] by (simp add: div_mult2_eq)
  have "first_slot L N 0 * 2 ^ (M - N) = 2 ^ N * 2 ^ (M - N)"
    using assms(1,4) first_slot_scale [OF assms(2,4), of 0] by (simp add: complete_code_def power_add [symmetric])
  then show "complete_code L N" using assms(2,3) by (simp add: complete_code_def)
qed

end
