(* ===== verification/Huff_Encode.thy ===== *)
theory Huff_Encode
  imports Huff_Codes
begin

text \<open>
  Huffman streams from the encoder to the decoder: the codes of \<^verbatim>\<open>huff0_encoder.rs\<close> find their symbols in the decoder's lookup
  table, streams of codes are read back symbol by symbol, and the table itself is recovered from its description. Both ways of
  writing a stream, through the bit writer and through the packer, give the same bytes.
\<close>

section \<open>Decoding a stream\<close>

lemma concat_replicate_nth:
  "\<lbrakk>r < length xs; j < m\<rbrakk> \<Longrightarrow> concat (map (\<lambda>s. replicate m (f s)) xs) ! (r * m + j) = f (xs ! r)"
proof (induction xs arbitrary: r)
  case (Cons x xs)
  then show ?case by (cases r) (auto simp: nth_append add.assoc)
qed simp

lemma syms_nth: "\<lbrakk>i < length L\<rbrakk> \<Longrightarrow> syms L (L ! i) ! length (syms_upto L i (L ! i)) = i"
proof -
  assume i: "i < length L"
  then have "[0..<length L] = [0..<i] @ i # [Suc i..<length L]" by (metis upt_add_eq_append upt_conv_Cons le0 less_imp_le_nat add_0 le_add_diff_inverse)
  then show ?thesis by (simp add: syms_def syms_upto_def)
qed

lemma canonical_nth:
  assumes c: "complete_code L M" and i: "i < length L" "0 < L ! i" and n: "n div 2 ^ (M - L ! i) = code_value L M i"
  shows "canonical_table L M ! n = pack_entry (L ! i) (of_nat i)"
proof -
  let ?l = "L ! i" and ?r = "length (syms_upto L i (L ! i))" and ?m = "(2 :: nat) ^ (M - L ! i)"
  have l: "?l \<le> M" using c i(1) by (simp add: complete_code_def)
  define A B where "A = concat (map (group_entries L M) (rev [Suc ?l..<Suc M]))" and "B = concat (map (group_entries L M) (rev [1..<?l]))"
  have "[1..<Suc M] = [1..<?l] @ ?l # [Suc ?l..<Suc M]"
    using l i(2) upt_add_eq_append [of 1 ?l "Suc M - ?l"] by (simp add: upt_conv_Cons del: upt_Suc)
  then have tab: "canonical_table L M = A @ group_entries L M ?l @ B" by (simp add: canonical_table_def A_def B_def del: upt_Suc)
  have lenA: "length A = first_slot L M ?l" using length_longer_groups [OF l] by (simp add: A_def)
  have r: "?r < length (syms L ?l)" by (rule syms_upto_less [OF i(1)])
  define j where "j = n mod ?m"
  have "n = code_value L M i * ?m + j" using n by (metis div_mult_mod_eq j_def)
  then have eq: "n = length A + (?r * ?m + j)" using code_value_bound(2) [OF c i] lenA by simp
  have j: "j < ?m" by (simp add: j_def)
  have "?r * ?m + j < length (syms L ?l) * ?m"
  proof -
    have "Suc ?r * ?m \<le> length (syms L ?l) * ?m" using r by (intro mult_le_mono1) simp
    then show ?thesis using j by simp
  qed
  then have "canonical_table L M ! n = group_entries L M ?l ! (?r * ?m + j)" by (simp add: tab eq nth_append length_group_entries)
  also have "\<dots> = pack_entry ?l (of_nat (syms L ?l ! ?r))" unfolding group_entries_def by (rule concat_replicate_nth [OF r j])
  finally show ?thesis using syms_nth [OF i(1)] by simp
qed

lemma window_code:
  assumes bits: "bits_of source = a @ word_bits l (v :: u32) @ post" and v: "unat v < 2 ^ l" and l: "l \<le> M" "M \<le> 12"
  shows "unat (bits_below source (int (length a + l)) M) div 2 ^ (M - l) = unat v"
proof -
  define p where "p = int (length a + l)"
  have wb: "word_bits l v = word_bits l (ucast v :: u64)" by (rule nth_equalityI) (use l in \<open>auto simp: bit_unsigned_iff\<close>)
  have "unat v < 2 ^ 32" using unsigned_less [of v] by simp
  then have uv: "unat (ucast v :: u64) = unat v" by (simp add: unsigned_ucast_eq take_bit_nat_eq_self)
  then have "clean_above l (ucast v :: u64)" using v by (simp add: clean_above_iff_less)
  then have "rev_field source p l (ucast v :: u64)" using rev_field_bits_of [of source a l "ucast v" post] bits by (simp add: wb p_def)
  moreover have "rev_field source p l (drop_bit (M - l) (bits_below source p M))"
    unfolding rev_field_def
  proof
    fix i
    have m: "bit (bits_below source p M) j \<longleftrightarrow> j < M \<and> zbit source (p - int M + int j)" for j
      using rev_field_bits_below [of M source p] l by (simp add: rev_field_def)
    have e: "p - int M + int (M - l + i) = p - int l + int i" using l by simp
    show "bit (drop_bit (M - l) (bits_below source p M)) i \<longleftrightarrow> i < l \<and> zbit source (p - int l + int i)"
      unfolding bit_drop_bit_eq o_def m e using l by auto
  qed
  ultimately have "drop_bit (M - l) (bits_below source p M) = (ucast v :: u64)" using rev_field_unique by blast
  then have "unat (drop_bit (M - l) (bits_below source p M)) = unat v" using uv by simp
  then show ?thesis unfolding p_def unat_drop_bit_eq by (simp only: drop_bit_eq_div)
qed

text \<open>What a code table and a lookup table have in common.\<close>

definition matches :: "(u32 \<times> nat) list \<Rightarrow> huffman_table \<Rightarrow> bool" where
  "matches codes t \<longleftrightarrow> decode_table_ok t \<and> (\<exists>L. complete_code L (ht_max_num_bits t) \<and> length codes = length L \<and> length L \<le> 256
     \<and> ht_packed_decode t = canonical_table L (ht_max_num_bits t)
     \<and> (\<forall>i < length L. snd (codes ! i) = L ! i \<and> (0 < L ! i \<longrightarrow> fst (codes ! i) = of_nat (code_value L (ht_max_num_bits t) i))))"

definition has_code :: "(u32 \<times> nat) list \<Rightarrow> u8 \<Rightarrow> bool" where
  "has_code codes x \<longleftrightarrow> unat x < length codes \<and> 0 < snd (codes ! unat x)"

lemma unat_code_value:
  assumes "complete_code L M" "M \<le> 12" "i < length L" "0 < L ! i"
  shows "unat (of_nat (code_value L M i) :: u32) = code_value L M i" "code_value L M i < 2 ^ (L ! i)"
proof -
  show b: "code_value L M i < 2 ^ (L ! i)" by (rule code_value_bound(1) [OF assms(1,3,4)])
  have "(2 :: nat) ^ (L ! i) \<le> 2 ^ 12" using assms(1-3) by (intro power_increasing) (auto simp: complete_code_def dest!: nth_mem intro: order_trans)
  then show "unat (of_nat (code_value L M i) :: u32) = code_value L M i" using b by (simp add: unat_of_nat)
qed

lemma decode_coded:
  assumes m: "matches codes t" and d: "\<forall>x \<in> set data. has_code codes x" and b: "bits_of source = code_bits codes (rev data) @ post"
  shows "decode_symbols t source (length data) (int (length (code_bits codes (rev data)))) = (data, 0)"
  using d b
proof (induction data arbitrary: post)
  case (Cons x xs)
  let ?M = "ht_max_num_bits t"
  obtain L where L: "complete_code L ?M" "length codes = length L" "length L \<le> 256" "ht_packed_decode t = canonical_table L ?M" "?M \<le> 12"
      "\<forall>i < length L. snd (codes ! i) = L ! i \<and> (0 < L ! i \<longrightarrow> fst (codes ! i) = of_nat (code_value L ?M i))"
    using m by (auto simp: matches_def decode_table_ok_def)
  let ?i = "unat x" and ?a = "code_bits codes (rev xs)"
  have i: "?i < length L" "0 < L ! ?i" using Cons.prems(1) L(2,6) by (auto simp: has_code_def)
  have c: "codes ! ?i = (of_nat (code_value L ?M ?i), L ! ?i)" using L(6) i by (metis prod.collapse)
  have l: "L ! ?i \<le> ?M" using L(1) i(1) by (simp add: complete_code_def)
  note uv = unat_code_value [OF L(1,5) i]
  have b: "bits_of source = ?a @ word_bits (L ! ?i) (of_nat (code_value L ?M ?i) :: u32) @ post" using Cons.prems(2) by (simp add: c)
  let ?p = "int (length ?a + L ! ?i)"
  have "entry_at t source ?p = pack_entry (L ! ?i) (of_nat ?i)"
    unfolding entry_at_def L(4) using window_code [OF b _ l L(5)] uv by (intro canonical_nth [OF L(1) i]) simp
  moreover have "L ! ?i < 256" using l L(5) by simp
  ultimately have e: "entry_symbol (entry_at t source ?p) = x" "entry_num_bits (entry_at t source ?p) = L ! ?i"
    by (simp_all add: entry_symbol_pack entry_num_bits_pack)
  have IH: "decode_symbols t source (length xs) (int (length ?a)) = (xs, 0)" using Cons.IH [OF _ b] Cons.prems(1) by simp
  have p: "int (length (code_bits codes (rev (x # xs)))) = ?p" by (simp add: c)
  have q: "?p - int (L ! ?i) = int (length ?a)" by simp
  show ?case unfolding p by (simp add: Let_def e IH q del: of_nat_add)
qed simp

lemma first_one_marker:
  assumes "bits_of source = body @ True # replicate p False @ rest" "p < n" "q = int (length body + 1 + p)"
  shows "first_one source q n = Some (int (length body))"
  using assms
proof (induction p arbitrary: n q rest)
  case 0
  then obtain m where n: "n = Suc m" by (cases n) auto
  have "length body < 8 * length source" using arg_cong [OF 0(1), of length] by simp
  then have "sbit source (length body)" using arg_cong [OF 0(1), of "\<lambda>l. l ! length body"] by simp
  then show ?case using 0(3) by (simp add: n zbit_nonneg)
next
  case (Suc p)
  then obtain m where n: "n = Suc m" "p < m" by (cases n) auto
  have len: "length body + 1 + p < 8 * length source" using arg_cong [OF Suc.prems(1), of length] by simp
  have "bits_of source ! (length body + 1 + p) = False" unfolding Suc.prems(1) by (simp add: nth_append nth_Cons')
  then have "\<not> sbit source (length body + 1 + p)" using len by simp
  then have z: "\<not> zbit source (q - 1)" using Suc.prems(3) zbit_nonneg [of source "length body + 1 + p"] by (simp add: algebra_simps)
  have "bits_of source = body @ True # replicate p False @ False # rest" using Suc.prems(1) by (simp add: replicate_app_Cons_same)
  from Suc.IH [OF this n(2), of "q - 1"] z Suc.prems(3) show ?case by (simp add: n)
qed

lemma stream_marker_closed:
  assumes "bits_of source = body @ True # replicate p False" "p < 8"
  shows "stream_marker source = Some (int (length body))"
proof -
  have "8 * int (length source) = int (length body + 1 + p)" using arg_cong [OF assms(1), of length] by simp
  then show ?thesis unfolding stream_marker_def using first_one_marker [of source body p "[]" 8] assms by simp
qed

text \<open>A closed stream of coded symbols.\<close>

definition coded_stream :: "(u32 \<times> nat) list \<Rightarrow> u8 list \<Rightarrow> u8 list \<Rightarrow> bool" where
  "coded_stream codes data source \<longleftrightarrow> (\<exists>p < 8. bits_of source = code_bits codes (rev data) @ True # replicate p False)"

lemma read_coded_streams:
  assumes "matches codes t" "list_all2 (\<lambda>d s. coded_stream codes d s \<and> (\<forall>x \<in> set d. has_code codes x)) ds ss"
  shows "huff_streams t (zip ss (map length ds)) = Ok (concat ds)"
  using assms(2)
proof (induction rule: list_all2_induct)
  case Nil
  then show ?case by (simp add: huff_streams_def)
next
  case (Cons d ds s ss)
  then obtain p where p: "p < 8" "bits_of s = code_bits codes (rev d) @ True # replicate p False" by (auto simp: coded_stream_def)
  have "stream_marker s = Some (int (length (code_bits codes (rev d))))" by (rule stream_marker_closed [OF p(2,1)])
  moreover have "decode_symbols t s (length d) (int (length (code_bits codes (rev d)))) = (d, 0)"
    using decode_coded [OF assms(1) _ p(2)] Cons by simp
  ultimately show ?case using Cons.IH by (auto simp: huff_streams_def Let_def split: if_splits)
qed

section \<open>Writing streams\<close>

text \<open>A table as the builder leaves it: the packed codes repeat the codes.\<close>

definition code_table_ok :: "huffman_code_table \<Rightarrow> bool" where
  "code_table_ok t \<longleftrightarrow> he_table_log t \<le> 12 \<and> (\<forall>x. has_code (he_codes t) x \<longrightarrow>
     symbol_coded (he_table_log t) (he_codes t) (he_packed_codes t) x)"

lemma build_table_ok:
  assumes b: "build_from_weights_reusing W spare = Some t" and u: "weights_usable W"
  shows "code_table_ok t"
proof -
  define M L where "M = he_table_log t" and "L = map (length_of_weight M) W"
  note f = build_codes [OF b u L_def [unfolded M_def] M_def]
  have packed: "he_packed_codes t ! i = packed_of (he_codes t ! i)" if "i < length W" for i
  proof -
    have "\<exists>rest. he_packed_codes t = map packed_of (he_codes t) @ rest"
      using b by (auto simp: build_from_weights_reusing_def Let_def split: if_splits)
    then show ?thesis using that f(3) by (auto simp: nth_append)
  qed
  have "symbol_coded M (he_codes t) (he_packed_codes t) x" if x: "has_code (he_codes t) x" for x
  proof -
    let ?i = "unat x"
    have i: "?i < length W" "W ! ?i \<noteq> 0" using x f(3,5) by (auto simp: has_code_def split: if_splits)
    then have c: "he_codes t ! ?i = (of_nat (code_value L M ?i), L ! ?i)" using f(5) by simp
    have l: "?i < length L" "0 < L ! ?i" using i x c by (auto simp: L_def has_code_def)
    have "L ! ?i \<le> M" using f(1) l(1) by (simp add: complete_code_def)
    then show ?thesis using unat_code_value [OF f(1,2) l] c packed [OF i(1)] l(2) by (simp add: symbol_coded_def packed_of_def)
  qed
  then show ?thesis using f(2) by (simp add: code_table_ok_def M_def)
qed

lemma table_coded: "\<lbrakk>code_table_ok t; \<forall>x \<in> set xs. has_code (he_codes t) x\<rbrakk> \<Longrightarrow> coded (he_table_log t) (he_codes t) (he_packed_codes t) xs"
  by (simp add: coded_def code_table_ok_def)

lemma word_bits_widen: "n \<le> 32 \<Longrightarrow> word_bits n (ucast (v :: u32) :: u64) = word_bits n v"
  by (rule nth_equalityI) (auto simp: bit_unsigned_iff)

lemma unat_widen: "unat (ucast (v :: u32) :: u64) = unat v"
proof -
  have "unat v < 2 ^ 32" using unsigned_less [of v] by simp
  then show ?thesis by (simp add: unsigned_ucast_eq take_bit_nat_eq_self)
qed

lemma encode_symbols_bits:
  assumes "coded tlog codes table xs" "\<forall>x \<in> set xs. has_code codes x" "bw_inv w"
  shows "\<exists>w'. encode_symbols codes w xs = Some w' \<and> bw_inv w' \<and> bw_bits w' = bw_bits w @ code_bits codes xs"
  using assms
proof (induction xs arbitrary: w)
  case (Cons x xs)
  obtain v nb where x: "codes ! unat x = (v, nb)" by fastforce
  have c: "nb \<le> 12" "unat v < 2 ^ nb" "coded tlog codes table xs" "unat x < length codes"
    using Cons.prems(1,2) x by (auto simp: coded_def symbol_coded_def has_code_def)
  have "clean_above nb (ucast v :: u64)" using c(2) by (simp add: clean_above_iff_less unat_widen)
  then obtain w1 where w1: "write_bits_64 w (ucast v) nb = Some w1" "bw_inv w1" "bw_bits w1 = bw_bits w @ word_bits nb v"
    using write_bits_64_bits [OF Cons.prems(3), of nb "ucast v"] c(1) word_bits_widen [of nb v] by auto
  from Cons.IH [OF c(3) _ w1(2)] Cons.prems(2) obtain w2 where "encode_symbols codes w1 xs = Some w2" "bw_inv w2"
      "bw_bits w2 = bw_bits w1 @ code_bits codes xs" by auto
  then show ?case using w1 c(4) x by simp
qed simp

lemma encode_stream_bits:
  assumes t: "code_table_ok t" and d: "\<forall>x \<in> set data. has_code (he_codes t) x" and w: "bw_inv w" "bw_bits w = bits_of pre"
  shows "\<exists>w' source. encode_stream t w data = Some w' \<and> dump w' = Some (pre @ source) \<and> coded_stream (he_codes t) data source"
proof -
  have "coded (he_table_log t) (he_codes t) (he_packed_codes t) (rev data)" using table_coded [OF t, of "rev data"] d by simp
  from encode_symbols_bits [OF this _ w(1)] d obtain w1 where w1: "encode_symbols (he_codes t) w (rev data) = Some w1" "bw_inv w1"
      "bw_bits w1 = bits_of pre @ code_bits (he_codes t) (rev data)" using w(2) by auto
  obtain w' out p where c: "close_stream w1 = Some w'" "dump w' = Some out" "p < 8" "bits_of out = bw_bits w1 @ True # replicate p False"
    using close_stream_bits [OF w1(2)] by blast
  define source where "source = drop (length pre) out"
  have "length pre \<le> length out" using arg_cong [OF c(4), of length] w1(3) by simp
  then have "bits_of out = bits_of (take (length pre) out) @ bits_of source" by (simp add: source_def flip: bits_of_append)
  then have "bits_of (take (length pre) out) = bits_of pre" "bits_of source = code_bits (he_codes t) (rev data) @ True # replicate p False"
    using c(4) w1(3) \<open>length pre \<le> length out\<close> append_eq_append_conv [of "bits_of (take (length pre) out)" "bits_of pre"] by simp_all
  then have "out = pre @ source" "coded_stream (he_codes t) data source"
    using bits_of_inject [of "take (length pre) out" pre] append_take_drop_id [of "length pre" out] c(3) by (auto simp: source_def coded_stream_def)
  then show ?thesis using w1(1) c(1,2) by (simp add: encode_stream_def)
qed

section \<open>Four streams\<close>

lemma unroll_settings:
  assumes "tlog \<le> 12"
  shows "\<exists>ku kff klf. unroll_ok tlog ku klf \<and> (\<forall>table s data. encode_one_stream table s data tlog = encode_unrolled table data ku kff klf s)"
proof -
  consider "tlog = 7" | "tlog = 8" | "tlog = 9" | "tlog = 10" | "tlog = 11" | "tlog = 12" | "tlog \<le> 6" using assms by linarith
  then show ?thesis
  proof cases
    case 1 then show ?thesis by (intro exI [of _ 8] exI [of _ True] exI [of _ False]) (simp add: unroll_ok_def encode_one_stream_def)
  next
    case 2 then show ?thesis by (intro exI [of _ 7] exI [of _ True] exI [of _ False]) (simp add: unroll_ok_def encode_one_stream_def)
  next
    case 3 then show ?thesis by (intro exI [of _ 6] exI [of _ True] exI [of _ False]) (simp add: unroll_ok_def encode_one_stream_def)
  next
    case 4 then show ?thesis by (intro exI [of _ 5] exI [of _ True] exI [of _ True]) (simp add: unroll_ok_def encode_one_stream_def)
  next
    case 5 then show ?thesis by (intro exI [of _ 5] exI [of _ True] exI [of _ False]) (simp add: unroll_ok_def encode_one_stream_def)
  next
    case 6 then show ?thesis by (intro exI [of _ 4] exI [of _ False] exI [of _ False]) (simp add: unroll_ok_def encode_one_stream_def)
  next
    case 7 then show ?thesis by (intro exI [of _ 4] exI [of _ False] exI [of _ False]) (simp add: unroll_ok_def encode_one_stream_def)
  qed
qed

lemma encode_segment_coded:
  assumes t: "code_table_ok t" and d: "\<forall>x \<in> set segment. has_code (he_codes t) x"
    and spare: "huf_tight_compress_bound (length segment) (he_table_log t) \<le> length spare"
  shows "\<exists>source. encode_segment t segment spare output = (Some (length source), output @ source) \<and> coded_stream (he_codes t) segment source
     \<and> length source \<le> length segment * he_table_log t div 8 + 1"
proof -
  let ?M = "he_table_log t" and ?n = "length segment"
  define cap where "cap = huf_tight_compress_bound ?n ?M"
  have cap: "8 < cap" "cap = ?n * ?M div 8 + 24" "cap \<le> length spare" using spare by (simp_all add: cap_def huf_tight_compress_bound_def)
  let ?cb = "code_bits (he_codes t) (rev segment)"
  have c: "coded ?M (he_codes t) (he_packed_codes t) segment" by (rule table_coded [OF t d])
  have "coded ?M (he_codes t) (he_packed_codes t) (rev segment)" using c by (rule coded_subset) simp
  then have len: "length ?cb \<le> ?n * ?M" using length_code_bits by fastforce
  obtain s where s: "hc_new output cap spare = Some s" "hc_holds (length output) cap s (bits_of output)" using hc_new_holds [OF cap(1,3)] by blast
  have room: "length (bits_of output) + length ?cb + 65 \<le> 8 * (length output + cap)" using len cap(2) by (simp add: algebra_simps)
  have "?M \<le> 12" using t by (simp add: code_table_ok_def)
  then obtain ku kff klf where u: "unroll_ok ?M ku klf" "encode_one_stream (he_packed_codes t) s segment ?M = encode_unrolled (he_packed_codes t) segment ku kff klf s"
    using unroll_settings by blast
  obtain s1 where s1: "encode_unrolled (he_packed_codes t) segment ku kff klf s = Some s1" "hc_holds (length output) cap s1 (bits_of output @ ?cb)"
    using encode_unrolled_holds [OF s(2) u(1) c, of kff] room by auto
  obtain out n p where o: "hc_close s1 = Some (out, n)" "length out = length output + n" "p < 8" "bits_of out = (bits_of output @ ?cb) @ True # replicate p False"
    using hc_close_holds [OF s1(2)] room by auto
  define source where "source = drop (length output) out"
  have "bits_of out = bits_of (take (length output) out) @ bits_of source" by (simp add: source_def flip: bits_of_append)
  then have b: "bits_of (take (length output) out) = bits_of output" "bits_of source = ?cb @ True # replicate p False"
    using o(2,4) append_eq_append_conv [of "bits_of (take (length output) out)" "bits_of output"] by simp_all
  then have out: "out = output @ source" using bits_of_inject [of "take (length output) out" "output"] append_take_drop_id [of "length output" out] by (simp add: source_def)
  have "8 * length source \<le> ?n * ?M + 8" using arg_cong [OF b(2), of length] len o(3) by simp
  then have "length source \<le> ?n * ?M div 8 + 1" by linarith
  moreover have "coded_stream (he_codes t) segment source" using b(2) o(3) by (auto simp: coded_stream_def)
  moreover have "n = length source" using o(2) out by simp
  ultimately show ?thesis using s(1) u(2) s1(1) o(1) out by (simp add: encode_segment_def cap_def [symmetric] Let_def)
qed

lemma encode_segments_coded:
  assumes t: "code_table_ok t" and "\<forall>d \<in> set ds. (\<forall>x \<in> set d. has_code (he_codes t) x) \<and> length d \<le> 32768"
    "\<forall>i. huf_tight_compress_bound 32768 12 \<le> length (spare i)" "bw_inv w" "8 dvd bw_bits_in_partial w" "bw_bits w = bits_of pre"
  shows "\<exists>ss w'. encode_segments t spare i ds w = Some (map length ss, w') \<and> bw_inv w' \<and> 8 dvd bw_bits_in_partial w' \<and> bw_bits w' = bits_of (pre @ concat ss)
     \<and> list_all2 (\<lambda>d s. coded_stream (he_codes t) d s \<and> (\<forall>x \<in> set d. has_code (he_codes t) x)) ds ss \<and> (\<forall>s \<in> set ss. length s \<le> 65535)"
  using assms(2-)
proof (induction ds arbitrary: i w pre)
  case (Cons d ds)
  have M: "he_table_log t \<le> 12" using t by (simp add: code_table_ok_def)
  have d: "\<forall>x \<in> set d. has_code (he_codes t) x" "length d \<le> 32768" using Cons.prems(1) by simp_all
  have dm: "length d * he_table_log t \<le> 32768 * 12" using d(2) M by (rule mult_le_mono)
  then have "huf_tight_compress_bound (length d) (he_table_log t) \<le> huf_tight_compress_bound 32768 12"
    using div_le_mono [OF dm, of 8] by (simp add: huf_tight_compress_bound_def)
  then have "huf_tight_compress_bound (length d) (he_table_log t) \<le> length (spare i)" using Cons.prems(2) le_trans by blast
  note seg = encode_segment_coded [OF t d(1) this]
  let ?f = "encode_segment t d (spare i)"
  have f: "snd (?f xs) = xs @ drop (length xs) (snd (?f xs))" for xs using seg [of xs] by auto
  obtain r w1 xs where w1: "with_aligned_output_mut w ?f = Some (r, w1)" "bw_inv w1" "bits_of xs = bw_bits w"
      "bw_bits w1 = bw_bits w @ bits_of (drop (length xs) (snd (?f xs)))" "r = fst (?f xs)"
    using with_aligned_output_mut_bits [OF Cons.prems(3,4), of ?f, OF f] by blast
  obtain s where s: "?f xs = (Some (length s), xs @ s)" "coded_stream (he_codes t) d s" "length s \<le> length d * he_table_log t div 8 + 1" using seg by blast
  have ls: "0 < length s" "length s \<le> 65535" using s(2,3) div_le_mono [OF dm, of 8] by (auto simp: coded_stream_def bits_of_def)
  have b1: "bw_bits w1 = bits_of (pre @ s)" using w1(4) s(1) Cons.prems(5) by simp
  have "bw_index w1 = 8 * length (pre @ s)" using bw_index_length [OF w1(2)] b1 by simp
  then have "8 dvd bw_bits_in_partial w1" using w1(2) by (metis bw_index_def bw_inv_def dvd_add_right_iff dvd_triv_left)
  from Cons.IH [OF _ Cons.prems(2) w1(2) this b1, of "Suc i"] Cons.prems(1) obtain ss w' where
      "encode_segments t spare (Suc i) ds w1 = Some (map length ss, w')" "bw_inv w'" "8 dvd bw_bits_in_partial w'" "bw_bits w' = bits_of ((pre @ s) @ concat ss)"
      "list_all2 (\<lambda>d s. coded_stream (he_codes t) d s \<and> (\<forall>x \<in> set d. has_code (he_codes t) x)) ds ss" "\<forall>s \<in> set ss. length s \<le> 65535" by auto
  then show ?case using w1(1,5) s(1,2) ls d(1) by (intro exI [of _ "s # ss"]) auto
qed simp

lemma patched_bytes:
  assumes "patched (a @ xs @ b) (8 * length a) (8 * length xs) v ys"
  shows "ys = a @ to_le_bytes (length xs) v @ b"
proof (rule bytes_eqI)
  show "length ys = length (a @ to_le_bytes (length xs) v @ b)" using assms by (simp add: patched_def)
  fix i
  show "sbit ys i = sbit (a @ to_le_bytes (length xs) v @ b) i"
    using assms by (auto simp: patched_def sbit_append sbit_to_le_bytes)
qed

lemma change_bits_bytes:
  assumes w: "bw_inv w" "8 dvd bw_bits_in_partial w" "bw_bits w = bits_of (a @ [x, y] @ b)" and b: "b \<noteq> []" and n: "n < 65536"
  shows "\<exists>w'. change_bits_64 w (8 * length a) (of_nat n) 16 = Some w' \<and> bw_inv w' \<and> 8 dvd bw_bits_in_partial w'
     \<and> bw_bits w' = bits_of (a @ to_le_bytes 2 (of_nat n :: u64) @ b)"
proof -
  have "unat (of_nat n :: u64) < 2 ^ 16" using n by (simp add: unat_of_nat)
  then have clean: "clean_above 16 (of_nat n :: u64)" by (simp add: clean_above_iff_less)
  have room: "8 * length a + 16 < bw_index w" using bw_index_length [OF w(1)] w(3) b by (cases b) simp_all
  obtain w1 w' where w1: "bw_flush w = Some w1" "change_bits_64 w (8 * length a) (of_nat n) 16 = Some w'" "bw_inv w'"
      "patched (bw_output w1) (8 * length a) 16 (of_nat n) (bw_output w')" "bw_bits_in_partial w' = 0"
    using change_bits_64_patched [OF w(1,2) room clean] by auto
  have "bits_of (bw_output w1) = bits_of (a @ [x, y] @ b)" using bw_flush_bits [OF w(1,2)] w1(1) w(3) by auto
  then have "bw_output w1 = a @ [x, y] @ b" by (rule bits_of_inject)
  then have "bw_output w' = a @ to_le_bytes 2 (of_nat n :: u64) @ b" using patched_bytes [of a "[x, y]" b "of_nat n" "bw_output w'"] w1(4) by (simp add: numeral_2_eq_2)
  then show ?thesis using w1 by (auto simp: bw_bits_def)
qed

lemma two_le_bytes:
  assumes "n < 65536"
  shows "\<exists>x y. to_le_bytes 2 (of_nat n :: u64) = [x, y] \<and> unat x + 256 * unat y = n"
proof -
  obtain x y where xy: "to_le_bytes 2 (of_nat n :: u64) = [x, y]" by (simp add: to_le_bytes_def numeral_2_eq_2)
  have "le_val [x, y] = take_bit 16 (unat (of_nat n :: u64))" using le_val_to_le_bytes [of 2 "of_nat n :: u64"] by (simp add: xy)
  then have "unat x + 256 * unat y = n" using assms by (simp add: unat_of_nat take_bit_nat_eq_self)
  then show ?thesis using xy by blast
qed

lemma four_segment_lengths:
  assumes "12 \<le> length data"
  shows "map length [take ((length data + 3) div 4) data, take ((length data + 3) div 4) (drop ((length data + 3) div 4) data),
      take ((length data + 3) div 4) (drop ((length data + 3) div 4 * 2) data), drop ((length data + 3) div 4 * 3) data] = segment_lengths (length data)"
    "concat [take ((length data + 3) div 4) data, take ((length data + 3) div 4) (drop ((length data + 3) div 4) data),
      take ((length data + 3) div 4) (drop ((length data + 3) div 4 * 2) data), drop ((length data + 3) div 4 * 3) data] = data"
proof -
  define s where "s = (length data + 3) div 4"
  have s: "3 * s \<le> length data" "length data \<le> 4 * s" using assms by (auto simp: s_def)
  show "map length [take ((length data + 3) div 4) data, take ((length data + 3) div 4) (drop ((length data + 3) div 4) data),
      take ((length data + 3) div 4) (drop ((length data + 3) div 4 * 2) data), drop ((length data + 3) div 4 * 3) data] = segment_lengths (length data)"
    unfolding segment_lengths_def Let_def s_def [symmetric] using s by simp
  have "drop s data = take s (drop s data) @ drop (s * 2) data" "drop (s * 2) data = take s (drop (s * 2) data) @ drop (s * 3) data"
    using append_take_drop_id [of s "drop s data"] append_take_drop_id [of s "drop (s * 2) data"] by (simp_all add: mult_2_right mult.commute [of s 3] numeral_3_eq_3)
  then show "concat [take ((length data + 3) div 4) data, take ((length data + 3) div 4) (drop ((length data + 3) div 4) data),
      take ((length data + 3) div 4) (drop ((length data + 3) div 4 * 2) data), drop ((length data + 3) div 4 * 3) data] = data"
    unfolding s_def [symmetric] by (metis append_take_drop_id concat.simps append_Nil2)
qed

text \<open>Four streams behind their jump table.\<close>

definition four_coded :: "(u32 \<times> nat) list \<Rightarrow> u8 list \<Rightarrow> u8 list \<Rightarrow> bool" where
  "four_coded codes data source \<longleftrightarrow> (\<exists>s1 s2 s3 s4 ds. length s1 < 65536 \<and> length s2 < 65536 \<and> length s3 < 65536
     \<and> source = to_le_bytes 2 (of_nat (length s1) :: u64) @ to_le_bytes 2 (of_nat (length s2) :: u64) @ to_le_bytes 2 (of_nat (length s3) :: u64) @ s1 @ s2 @ s3 @ s4
     \<and> map length ds = segment_lengths (length data) \<and> concat ds = data
     \<and> list_all2 (\<lambda>d s. coded_stream codes d s \<and> (\<forall>x \<in> set d. has_code codes x)) ds [s1, s2, s3, s4])"

lemma four_coded_content:
  assumes m: "matches codes t" and f: "four_coded codes data source"
  shows "streams_content t 4 source (length data) = Ok data"
proof -
  obtain s1 s2 s3 s4 ds where len: "length s1 < 65536" "length s2 < 65536" "length s3 < 65536"
     and src: "source = to_le_bytes 2 (of_nat (length s1) :: u64) @ to_le_bytes 2 (of_nat (length s2) :: u64) @ to_le_bytes 2 (of_nat (length s3) :: u64) @ s1 @ s2 @ s3 @ s4"
     and ds: "map length ds = segment_lengths (length data)" "concat ds = data"
       "list_all2 (\<lambda>d s. coded_stream codes d s \<and> (\<forall>x \<in> set d. has_code codes x)) ds [s1, s2, s3, s4]"
    using f by (auto simp: four_coded_def)
  obtain a b where a: "to_le_bytes 2 (of_nat (length s1) :: u64) = [a, b]" "unat a + 256 * unat b = length s1" using two_le_bytes [OF len(1)] by blast
  obtain c d where c: "to_le_bytes 2 (of_nat (length s2) :: u64) = [c, d]" "unat c + 256 * unat d = length s2" using two_le_bytes [OF len(2)] by blast
  obtain g h where g: "to_le_bytes 2 (of_nat (length s3) :: u64) = [g, h]" "unat g + 256 * unat h = length s3" using two_le_bytes [OF len(3)] by blast
  have source: "source = [a, b, c, d, g, h] @ s1 @ s2 @ s3 @ s4" by (simp add: src a(1) c(1) g(1))
  have j: "unat (source ! 0) + 256 * unat (source ! 1) = length s1" "unat (source ! 2) + 256 * unat (source ! 3) = length s2" 
      "unat (source ! 4) + 256 * unat (source ! 5) = length s3" using a(2) c(2) g(2) by (simp_all add: source)
  have "huff_streams t (zip [s1, s2, s3, s4] (map length ds)) = Ok data" using read_coded_streams [OF m ds(3)] ds(2) by simp
  moreover have "drop 6 source = s1 @ s2 @ s3 @ s4" "\<not> length source < 6" by (simp_all add: source)
  ultimately have "four_streams_spec t [] source (length data) 0 = (data, Ok (6 + length (s1 @ s2 @ s3 @ s4)))"
    unfolding four_streams_spec_def Let_def using j ds(1) by (simp add: add.assoc)
  then show ?thesis by (simp add: streams_content_def)
qed

lemma encode4x_coded:
  assumes t: "code_table_ok t" and d: "\<forall>x \<in> set data. has_code (he_codes t) x" "12 \<le> length data" "length data \<le> 131072"
    and spare: "\<forall>i. huf_tight_compress_bound 32768 12 \<le> length (spare i)"
    and w: "bw_inv w" "8 dvd bw_bits_in_partial w" "bw_bits w = bits_of pre"
  shows "\<exists>w' source. encode4x_streams t spare w data = Some w' \<and> dump w' = Some (pre @ source) \<and> four_coded (he_codes t) data source"
proof -
  define seg where "seg = (length data + 3) div 4"
  let ?ds = "[take seg data, take seg (drop seg data), take seg (drop (seg * 2) data), drop (seg * 3) data]"
  have lens: "map length ?ds = segment_lengths (length data)" and cat: "concat ?ds = data"
    using four_segment_lengths [OF d(2)] by (simp_all only: seg_def)
  have idx: "bw_index w = 8 * length pre" using bw_index_length [OF w(1)] w(3) by simp
  have zeros: "field_bits [(0, 16), (0, 16), (0, 16)] = bits_of (replicate 6 0)"
    by (rule nth_equalityI) (auto simp: word_bits_def sbit_def nth_append)
  obtain w1 where w1: "write_fields w [(0, 16), (0, 16), (0, 16)] = Some w1" "bw_inv w1" "bw_bits w1 = bits_of (pre @ replicate 6 0)"
    using write_fields_bits [OF w(1), of "[(0, 16), (0, 16), (0, 16)]"] w(3) zeros by (auto simp: fields_ok_def)
  have "bw_index w1 = 8 * length (pre @ replicate 6 0 :: u8 list)" using bw_index_length [OF w1(2)] w1(3) by simp
  then have al: "8 dvd bw_bits_in_partial w1" using w1(2) by (metis bw_index_def bw_inv_def dvd_add_right_iff dvd_triv_left)
  have "\<forall>s \<in> set ?ds. (\<forall>x \<in> set s. has_code (he_codes t) x) \<and> length s \<le> 32768"
  proof
    fix s assume s: "s \<in> set ?ds"
    then have "set s \<subseteq> set data" by (auto dest: in_set_takeD in_set_dropD)
    moreover have "length s \<le> seg" using s d(2) by (auto simp: seg_def)
    moreover have "seg \<le> 32768" using d(3) by (simp add: seg_def)
    ultimately show "(\<forall>x \<in> set s. has_code (he_codes t) x) \<and> length s \<le> 32768" using d(1) by auto
  qed
  from encode_segments_coded [OF t this spare w1(2) al w1(3), of 0] obtain ss w2 where
      e: "encode_segments t spare 0 ?ds w1 = Some (map length ss, w2)" "bw_inv w2" "8 dvd bw_bits_in_partial w2" "bw_bits w2 = bits_of ((pre @ replicate 6 0) @ concat ss)"
      "list_all2 (\<lambda>d s. coded_stream (he_codes t) d s \<and> (\<forall>x \<in> set d. has_code (he_codes t) x)) ?ds ss" "\<forall>s \<in> set ss. length s \<le> 65535" by auto
  obtain s1 s2 s3 s4 where ss: "ss = [s1, s2, s3, s4]" using list_all2_lengthD [OF e(5), symmetric] by (auto simp: length_Suc_conv)
  have l: "length s1 < 65536" "length s2 < 65536" "length s3 < 65536" using e(6) by (auto simp: ss)
  let ?n = "\<lambda>s. to_le_bytes 2 (of_nat (length s) :: u64)" and ?rest = "s1 @ s2 @ s3 @ s4"
  have ne: "?rest \<noteq> []" using e(5) by (auto simp: ss coded_stream_def bits_of_def)
  have r6: "replicate 6 (0 :: u8) = [0, 0] @ [0, 0] @ [0, 0]" by (simp add: numeral_eq_Suc)
  obtain w3 where w3: "change_bits_64 w2 (8 * length pre) (of_nat (length s1)) 16 = Some w3" "bw_inv w3" "8 dvd bw_bits_in_partial w3"
      "bw_bits w3 = bits_of (pre @ ?n s1 @ [0, 0] @ [0, 0] @ ?rest)"
    using change_bits_bytes [OF e(2,3), of pre 0 0 "[0, 0] @ [0, 0] @ ?rest" "length s1"] e(4) l(1) by (auto simp: ss r6)
  have i16: "8 * length pre + 16 = 8 * length (pre @ ?n s1)" "8 * length pre + 32 = 8 * length (pre @ ?n s1 @ ?n s2)" by simp_all
  obtain w4 where w4: "change_bits_64 w3 (8 * length pre + 16) (of_nat (length s2)) 16 = Some w4" "bw_inv w4" "8 dvd bw_bits_in_partial w4"
      "bw_bits w4 = bits_of (pre @ ?n s1 @ ?n s2 @ [0, 0] @ ?rest)"
    unfolding i16 using change_bits_bytes [OF w3(2,3), of "pre @ ?n s1" 0 0 "[0, 0] @ ?rest" "length s2"] w3(4) l(2) by auto
  obtain w5 where w5: "change_bits_64 w4 (8 * length pre + 32) (of_nat (length s3)) 16 = Some w5" "bw_inv w5" "8 dvd bw_bits_in_partial w5"
      "bw_bits w5 = bits_of (pre @ ?n s1 @ ?n s2 @ ?n s3 @ ?rest)"
    unfolding i16 using change_bits_bytes [OF w4(2,3), of "pre @ ?n s1 @ ?n s2" 0 0 ?rest "length s3"] w4(4) l(3) ne by auto
  obtain out where o: "dump w5 = Some out" "bits_of out = bw_bits w5" using dump_bits [OF w5(2,3)] by blast
  have "out = pre @ (?n s1 @ ?n s2 @ ?n s3 @ ?rest)" using o(2) w5(4) bits_of_inject [of out "pre @ (?n s1 @ ?n s2 @ ?n s3 @ ?rest)"] by simp
  moreover have "encode4x_streams t spare w data = Some w5"
    using d(2) w1(1) e(1) w3(1) w4(1) w5(1) unfolding encode4x_streams_def Let_def idx seg_def [symmetric] by (simp add: ss del: encode_segments.simps write_fields.simps)
  moreover have "four_coded (he_codes t) data (?n s1 @ ?n s2 @ ?n s3 @ ?rest)"
    unfolding four_coded_def using l lens cat e(5) [unfolded ss] by blast
  ultimately show ?thesis using o(1) by auto
qed

section \<open>Describing the table\<close>

lemma weights_into_lengths:
  assumes b: "build_from_weights_reusing W spare = Some t" and u: "weights_usable W"
  shows "\<exists>N W' L. weights_into t = Some W' \<and> length W' = length W \<and> 0 < N \<and> N \<le> 12 \<and> (\<forall>w \<in> set W'. w \<le> N) \<and> last W' > 0
     \<and> sum_list (map weight_value W') = 2 ^ N \<and> L = map (length_of_weight N) W' \<and> complete_code L N \<and> length (he_codes t) = length L
     \<and> (\<forall>i < length L. snd (he_codes t ! i) = L ! i \<and> (0 < L ! i \<longrightarrow> fst (he_codes t ! i) = of_nat (code_value L N i)))"
proof -
  define M L where "M = he_table_log t" and "L = map (length_of_weight M) W"
  note f = build_codes [OF b u L_def [unfolded M_def] M_def]
  have zero: "L ! i = 0 \<longleftrightarrow> W ! i = 0" if "i < length W" for i using f(4) that by (auto simp: L_def length_of_weight_def dest!: nth_mem)
  have snd: "map snd (he_codes t) = L"
    by (rule nth_equalityI) (use f(3,5) zero in \<open>auto simp: L_def length_of_weight_def [of _ 0]\<close>)
  have W: "W \<noteq> []" "last W > 0" using u by (simp_all add: weights_usable_def)
  then have ne: "he_codes t \<noteq> []" "L \<noteq> []" using f(3) by (auto simp: L_def)
  define N where "N = Max (set L)"
  have N: "\<forall>l \<in> set L. l \<le> N" by (simp add: N_def)
  have "last L \<noteq> 0" using zero [of "length W - 1"] W by (simp add: L_def last_conv_nth)
  then have "0 < N" using N ne(2) last_in_set by (metis gr0I le_zero_eq)
  have "N \<in> set L" using Max_in [of "set L"] ne(2) by (simp add: N_def)
  then have NM: "N \<le> M" using f(1) by (simp add: complete_code_def)
  define W' where "W' = map (\<lambda>l. if l = 0 then 0 else N - l + 1) L"
  have wi: "weights_into t = Some W'"
  proof -
    have "W' = map (\<lambda>(_, nb). if nb = 0 then 0 else N - nb + 1) (he_codes t)" unfolding W'_def by (simp add: snd [symmetric] split_def)
    then show ?thesis using ne(1) unfolding weights_into_def snd N_def [symmetric] Let_def by simp
  qed
  have again: "map (length_of_weight N) W' = L"
    unfolding W'_def map_map o_def by (rule map_idI) (use N in \<open>auto simp: length_of_weight_def\<close>)
  have below: "\<forall>w \<in> set W'. w \<le> N" using N by (auto simp: W'_def)
  have c: "complete_code L N" using code_value_scale(2) [OF f(1) N \<open>0 < N\<close> NM] ne(2) by auto
  have "sum_list (map weight_value W') = sum_list (map (\<lambda>l. if l = 0 then 0 else 2 ^ (N - l)) L)"
    unfolding W'_def map_map o_def by (rule arg_cong [where f = sum_list]) (auto simp: weight_value_def)
  then have sum: "sum_list (map weight_value W') = 2 ^ N" using kraft_sum [OF N] c by (simp add: complete_code_def)
  have codes: "snd (he_codes t ! i) = L ! i \<and> (0 < L ! i \<longrightarrow> fst (he_codes t ! i) = of_nat (code_value L N i))" if i: "i < length L" for i
    using f(5) [of i] zero [of i] i code_value_scale(1) [OF f(1) N \<open>0 < N\<close> NM i] by (auto simp: L_def)
  have "last W' > 0" using \<open>last L \<noteq> 0\<close> ne(2) by (simp add: W'_def last_map)
  moreover have "N \<le> 12" using NM f(2) by simp
  ultimately show ?thesis using wi below sum again [symmetric] c codes f(3) \<open>0 < N\<close>
    by (intro exI [of _ N] exI [of _ W'] exI [of _ L]) (simp add: W'_def L_def)
qed

lemma described_table_matches:
  assumes ok: "weights_ok ht" and W: "ht_weights ht = butlast W'" "W' \<noteq> []" "last W' > 0" "\<forall>w \<in> set W'. w \<le> N" "0 < N" "N \<le> 12"
      "sum_list (map weight_value W') = 2 ^ N"
    and L: "L = map (length_of_weight N) W'" "complete_code L N" "length codes = length L"
      "\<forall>i < length L. snd (codes ! i) = L ! i \<and> (0 < L ! i \<longrightarrow> fst (codes ! i) = of_nat (code_value L N i))"
  shows "\<exists>ht'. build_table_from_weights ht = (ht', Ok ()) \<and> matches codes ht'"
proof -
  let ?lw = "last W'" and ?S = "ht_weight_sum ht"
  have lw: "1 \<le> ?lw" "?lw \<le> N" using W by simp_all
  have split: "W' = butlast W' @ [?lw]" using W(2) by simp
  have "sum_list (map weight_value W') = ?S + 2 ^ (?lw - 1)"
    using ok W(1) lw by (subst split) (simp add: weights_ok_def weight_value_def)
  then have S: "?S + 2 ^ (?lw - 1) = 2 ^ N" using W(7) by simp
  have pow: "(2 :: nat) ^ (?lw - 1) \<le> 2 ^ (N - 1)" "(2 :: nat) ^ N = 2 * 2 ^ (N - 1)" "(0 :: nat) < 2 ^ (?lw - 1)"
    using lw W(5) by (auto intro!: power_increasing simp flip: power_Suc)
  then have Sb: "2 ^ (N - 1) \<le> ?S" "?S < 2 ^ N" "0 < ?S" using S by linarith+
  then have hb: "highest_bit_set ?S = Some N"
    using ilog2_eqI [of "N - 1" ?S] W(5) by (simp add: highest_bit_set_def)
  have left: "2 ^ N - ?S = 2 ^ (?lw - 1)" using S by simp
  have il: "ilog2 (2 ^ (?lw - 1)) = ?lw - 1" by (rule ilog2_eqI) simp_all
  have hl: "highest_bit_set (2 ^ (?lw - 1)) = Some ?lw" using lw(1) il by (simp add: highest_bit_set_def)
  have p2: "is_power_of_two (2 ^ (?lw - 1))" using il by (simp add: is_power_of_two_def)
  have noex: "\<not> list_ex (\<lambda>w. w > N + 1) (butlast W' @ [?lw])" using W(4) split by (auto simp: list_ex_iff dest: in_set_butlastD)
  obtain t1 r1 where c: "compute_huffman_bits ht = (t1, r1)" by fastforce
  have r1: "r1 = Ok N" "ht_last_weight t1 = ?lw"
    using c Sb(3) hb W(6) left p2 hl noex by (auto simp: compute_huffman_bits_def Let_def W(1) MAX_MAX_NUM_BITS_def)
  have cb: "ht_max_num_bits t1 = N" "ht_bits t1 = map (length_of_weight N) (butlast W') @ [N + 1 - ?lw]" "length (ht_bits t1) \<le> 256"
    using compute_huffman_bits_spec [OF ok c] unfolding r1 W(1) result.case by blast+
  have "L = map (length_of_weight N) (butlast W') @ [length_of_weight N ?lw]" unfolding L(1) by (subst split) simp
  then have bits: "ht_bits t1 = L" using lw cb(2) by (simp add: length_of_weight_def [of N ?lw])
  obtain ht' r where b: "build_table_from_weights ht = (ht', r)" by fastforce
  show ?thesis
  proof (cases r)
    case (Ok v)
    with build_table_spec [OF ok b] have s: "huffman_table_ok ht'" "ht_packed_decode ht' = canonical_table (ht_bits ht') (ht_max_num_bits ht')"
        "compute_huffman_bits ht = (ht'\<lparr>ht_bit_ranks := ht_bit_ranks ht, ht_packed_decode := ht_packed_decode ht\<rparr>, Ok (ht_max_num_bits ht'))" by simp_all
    then have "t1 = ht'\<lparr>ht_bit_ranks := ht_bit_ranks ht, ht_packed_decode := ht_packed_decode ht\<rparr>" "ht_max_num_bits ht' = N" using c r1(1) by simp_all
    then have "ht_bits ht' = L" "ht_max_num_bits ht' = N" using bits by simp_all
    then have "matches codes ht'"
      unfolding matches_def using s(2) huffman_table_ok_decode [OF s(1)] L cb(3) bits by (intro conjI exI [of _ L]) simp_all
    then show ?thesis using b Ok by simp
  next
    case (Err e)
    then show ?thesis using build_table_spec [OF ok b] c r1(1) by simp
  next
    case Panic
    then show ?thesis using build_table_spec [OF ok b] by simp
  qed
qed

text \<open>The bytes of a raw description behind its header.\<close>

fun raw_bytes :: "nat list \<Rightarrow> u8 list" where
  "raw_bytes (w1 # w2 # ws) = of_nat (w1 * 16 + w2) # raw_bytes ws"
| "raw_bytes [w] = [of_nat (w * 16)]"
| "raw_bytes [] = []"

lemma one_byte:
  assumes "fields_ok fs" "sum_list (map snd fs) = 8"
  shows "field_bits fs = bits_of [of_nat (fields_val fs)]"
proof -
  obtain hdr where h: "length hdr = 1" "bits_of hdr = field_bits fs" "le_val hdr = fields_val fs" using fields_bytes [OF assms(1), of 1] assms(2) by auto
  then obtain b where "hdr = [b]" by (auto simp: length_Suc_conv)
  then show ?thesis using h by (simp add: h(3) [symmetric])
qed

lemma raw_weight_fields_bytes:
  "\<forall>w \<in> set ws. w < 16 \<Longrightarrow> fields_ok (raw_weight_fields ws) \<and> field_bits (raw_weight_fields ws) = bits_of (raw_bytes ws)"
proof (induction ws rule: raw_weight_fields.induct)
  case (1 w1 w2 ws)
  have u: "unat (of_nat w1 :: u64) = w1" "unat (of_nat w2 :: u64) = w2" using 1(2) by (simp_all add: unat_of_nat)
  then have "fields_ok [(of_nat w2, 4), (of_nat w1, 4)]" using 1(2) by (simp add: fields_ok_def)
  from one_byte [OF this] have "field_bits [(of_nat w2, 4), (of_nat w1, 4)] = bits_of [of_nat (w1 * 16 + w2)]" using u by (simp add: add.commute mult.commute)
  then show ?case using 1 u bits_of_append [of "[of_nat (w1 * 16 + w2)]" "raw_bytes ws"] by (simp add: fields_ok_def)
next
  case (2 w)
  have u: "unat (of_nat (w * 16) :: u64) = w * 16" using 2 by (intro unat_of_nat_u64) simp
  then have "fields_ok [(of_nat (w * 16), 8)]" using 2 by (simp add: fields_ok_def)
  moreover have "fields_val [(of_nat (w * 16), 8)] = w * 16" using u by simp
  ultimately show ?case using one_byte [of "[(of_nat (w * 16), 8)]"] by (simp only: raw_weight_fields.simps raw_bytes.simps list.map snd_conv sum_list.Cons sum_list.Nil add_0_right)
qed (simp add: fields_ok_def)

lemma nibbles:
  assumes "a < 16" "b < 16"
  shows "unat (drop_bit 4 (of_nat (a * 16 + b) :: u8)) = a" "unat ((of_nat (a * 16 + b) :: u8) AND 0xF) = b"
proof -
  have u: "unat (of_nat (a * 16 + b) :: u8) = a * 16 + b" unfolding unat_of_nat_u8 using assms by simp
  have "unat (drop_bit 4 (of_nat (a * 16 + b) :: u8)) = (a * 16 + b) div 16" unfolding unat_drop_bit_eq u by (simp add: drop_bit_eq_div)
  then show "unat (drop_bit 4 (of_nat (a * 16 + b) :: u8)) = a" using assms by simp
  have "(of_nat (a * 16 + b) :: u8) AND 0xF = take_bit 4 (of_nat (a * 16 + b))" by (simp add: take_bit_eq_mask mask_numeral)
  then have "unat ((of_nat (a * 16 + b) :: u8) AND 0xF) = (a * 16 + b) mod 16"
    using unsigned_take_bit_eq [of 4 "of_nat (a * 16 + b) :: u8", where ?'a = nat] u by (simp add: take_bit_eq_mod)
  then show "unat ((of_nat (a * 16 + b) :: u8) AND 0xF) = b" using assms by simp
qed

lemma raw_weights_back:
  "\<lbrakk>\<forall>w \<in> set ws. w \<le> 12; num = idx + length ws\<rbrakk> \<Longrightarrow> raw_weights num (raw_bytes ws) idx st = (fold count_weight ws st, Ok ())"
proof (induction ws arbitrary: idx st rule: raw_bytes.induct)
  case (1 w1 w2 ws)
  then show ?case using nibbles [of w1 w2] by (simp add: push_weight_def MAX_MAX_NUM_BITS_def)
next
  case (2 w)
  then show ?case using nibbles [of w 0] by (simp add: push_weight_def MAX_MAX_NUM_BITS_def)
qed simp

lemma fold_count_weight: "fst (fold count_weight ws st) = fst st @ ws" "\<lbrakk>stats_ok st; \<forall>w \<in> set ws. w \<le> 12\<rbrakk> \<Longrightarrow> stats_ok (fold count_weight ws st)"
proof (induction ws arbitrary: st)
  case (Cons w ws)
  { case 1 show ?case using Cons.IH(1) by (cases st) simp
  next case 2 then show ?case using Cons.IH(2) count_weight_ok [of st w] by simp }
qed simp_all

lemma length_raw_bytes: "length (raw_bytes ws) = (length ws + 1) div 2"
  by (induction ws rule: raw_bytes.induct) simp_all

lemma read_raw_description:
  assumes ws: "\<forall>w \<in> set ws. w \<le> 12" "ws \<noteq> []" "length ws \<le> 128" and sc: "huffman_scratch_ok ht"
  shows "\<exists>ht'. read_weights on_amd ht ((of_nat (length ws + 127) # raw_bytes ws) @ rest) = (ht', Ok (1 + length (raw_bytes ws)))
     \<and> weights_ok ht' \<and> ht_weights ht' = ws"
proof -
  let ?h = "of_nat (length ws + 127) :: u8" and ?n = "length ws"
  have u: "unat ?h = ?n + 127" unfolding unat_of_nat_u8 using ws(3) by simp
  have need: "(if even ?n then ?n div 2 else ?n div 2 + 1) = length (raw_bytes ws)" unfolding length_raw_bytes by (auto elim!: oddE)
  have n1: "\<not> ?n + 127 \<le> 127" "?n + 127 - 127 = ?n" using ws(2) by simp_all
  obtain st where st: "fold count_weight ws ([], 0, no_ranks) = st" by blast
  have s: "stats_ok st" "fst st = ws" using fold_count_weight(2) [OF stats_ok_empty ws(1)] fold_count_weight(1) [of ws "([], 0, no_ranks)"] st by simp_all
  obtain ht' where c: "commit_weights (ht\<lparr>ht_weights := []\<rparr>) (st, Ok ()) = (ht', Ok ())" "weights_ok ht'"
    using commit_weights_ok [OF s(1), of "ht\<lparr>ht_weights := []\<rparr>" "()"] s(2) ws(3) by auto
  have hw: "ht_weights ht' = ws" using c(1) s(2) by (cases st) (auto simp: commit_weights_def)
  have "read_raw_weights ht (raw_bytes ws @ rest) (unat ?h) = (ht', Ok (8 + ?n * 4))"
    unfolding read_raw_weights_def u n1 Let_def need using raw_weights_back [OF ws(1), of ?n 0 "([], 0, no_ranks)"] st c(1) by simp
  moreover have "(if (8 + ?n * 4) mod 8 = 0 then (8 + ?n * 4) div 8 else (8 + ?n * 4) div 8 + 1) = 1 + length (raw_bytes ws)"
    unfolding length_raw_bytes by (cases "even ?n") (auto elim!: evenE oddE)
  ultimately show ?thesis using c(2) hw n1 u unfolding read_weights_def by simp
qed

section \<open>Round trip\<close>

lemma decode_section:
  assumes kernel: "cpu_kernel mlb" and rt: "read_tree on_amd LitCompressed scratch dict out = (scratch', Ok k)" "k \<le> length out"
      "huf_table scratch' dict = Some ht" "matches codes ht"
    and n: "n = 1 \<and> coded_stream codes data (drop k out) \<and> (\<forall>x \<in> set data. has_code codes x) \<or> n = 4 \<and> four_coded codes data (drop k out)"
  shows "decompress_literals_impl on_amd mlb
      \<lparr>ls_regenerated_size = length data, ls_compressed_size = Some (length out), ls_num_streams = Some n, ls_type = LitCompressed\<rparr>
      scratch dict (out @ rest) target = (scratch', target @ data, Ok (length out))"
proof -
  have ht: "decode_table_ok ht" using rt(4) by (simp add: matches_def)
  have content: "streams_content ht n (drop k out) (length data) = Ok data"
    using n four_coded_content [OF rt(4)] read_coded_streams [OF rt(4), of "[data]" "[drop k out]"] by (auto simp: streams_content_def)
  obtain target' r where d: "decode_streams on_amd mlb n ht target (drop k out) (length data) k = (target', r)" by fastforce
  have "case r of
       Ok m \<Rightarrow> m = k + length (drop k out) \<and> (\<exists>ys. target' = target @ ys \<and> length ys = length data \<and> streams_content ht n (drop k out) (length data) = Ok ys)
     | Err e \<Rightarrow> target' = target \<and> (\<exists>e. streams_content ht n (drop k out) (length data) = Err e) | Panic \<Rightarrow> False"
    using cpu_kernel.decode_streams_spec [OF kernel ht _ d] n by auto
  then have "target' = target @ data" "r = Ok (length out)" using content rt(2) by (cases r; auto)+
  then show ?thesis using rt d by (simp add: decompress_literals_impl_def Let_def)
qed

section \<open>Properties\<close>

lemma has_code_iff: "has_code (he_codes t) x \<longleftrightarrow> num_bits_for_symbol t x \<noteq> None"
  by (simp add: has_code_def num_bits_for_symbol_def)

lemma coded_stream_unique:
  assumes "coded_stream codes data s" "coded_stream codes data s'"
  shows "s = s'"
proof -
  let ?n = "length (code_bits codes (rev data))"
  obtain p q where p: "p < 8" "bits_of s = code_bits codes (rev data) @ True # replicate p False"
      "q < 8" "bits_of s' = code_bits codes (rev data) @ True # replicate q False"
    using assms by (auto simp: coded_stream_def)
  have "?n + 1 + p = 8 * length s" "?n + 1 + q = 8 * length s'" using arg_cong [OF p(2), of length] arg_cong [OF p(4), of length] by simp_all
  then have "p = q" using p(1,3) by presburger
  then show ?thesis using p(2,4) by (intro bits_of_inject) simp
qed

text \<open>
  C2. The packer writes the bit writer's bytes. For every built code table, every output so far, every content of the spare capacity and
  every segment of symbols with a code, the unrolled encoder with its two containers, dirty low bits and unchecked stores, in the
  settings chosen for the table log, appends the same bytes as writing the codes one after the other and closing the stream; it does
  not overflow the room reserved for it.
\<close>

theorem packer_equals_writer:
  assumes "build_from_weights_reusing W old = Some t" "weights_usable W"
    and "\<forall>x \<in> set data. num_bits_for_symbol t x \<noteq> None"
    and "huf_tight_compress_bound (length data) (he_table_log t) \<le> length spare"
  shows "\<exists>out w. encode_segment t data spare pre = (Some (length out - length pre), out)
     \<and> encode_stream t (bit_writer_from pre) data = Some w \<and> dump w = Some out \<and> length pre < length out"
proof -
  note t = build_table_ok [OF assms(1,2)]
  have d: "\<forall>x \<in> set data. has_code (he_codes t) x" using assms(3) by (simp add: has_code_iff)
  obtain s where s: "encode_segment t data spare pre = (Some (length s), pre @ s)" "coded_stream (he_codes t) data s"
    using encode_segment_coded [OF t d assms(4)] by blast
  obtain w s' where w: "encode_stream t (bit_writer_from pre) data = Some w" "dump w = Some (pre @ s')" "coded_stream (he_codes t) data s'"
    using encode_stream_bits [OF t d bw_inv_from(1), of pre pre] bw_inv_from(2) by blast
  have "s = s'" by (rule coded_stream_unique [OF s(2) w(3)])
  moreover have "s \<noteq> []" using s(2) by (auto simp: coded_stream_def bits_of_def)
  ultimately show ?thesis using s w by (intro exI [of _ "pre @ s"]) simp
qed

text \<open>Three symbols of lengths two, two and one.\<close>

lemma small_counts: "per_weight [1, 1, 2] = [0, 2, 1, 0, 0, 0, 0, 0, 0, 0, 0, 0, 0]" by (simp add: per_weight_def upt_rec)

lemma small_sum: "weight_sum_of [0, 2, 1, 0, 0, 0, 0, 0, 0, 0, 0, 0, 0] = 4" by (simp add: weight_sum_of_def upt_rec)

lemma small_log: "is_power_of_two 4" "enc_highest_bit_set 4 = 3" by (simp_all add: is_power_of_two_def enc_highest_bit_set_def ilog2.simps)

lemma small_first_codes: "first_codes [0, 2, 1, 0, 0, 0, 0, 0, 0, 0, 0, 0, 0] 2 2 0 (replicate 13 0) = [0,1,0,0,0,0,0,0,0,0,0,0,0]"
proof -
  have r: "replicate 13 0 = [0,0,0,0,0,0,0,0,0,0,0,0,0 :: nat]" by (simp add: numeral_eq_Suc)
  have "first_codes [0, 2, 1, 0, 0, 0, 0, 0, 0, 0, 0, 0, 0] 2 (Suc (Suc 0)) 0 [0,0,0,0,0,0,0,0,0,0,0,0,0] = [0,1,0,0,0,0,0,0,0,0,0,0,0]" by simp
  then show ?thesis unfolding r numeral_2_eq_2 .
qed

lemma small_codes: "assign_codes 2 [0,1,0,0,0,0,0,0,0,0,0,0,0] [1,1,2] = [(0, 2), (1, 2), (1, 1)]" by (simp add: Let_def)

lemma small_table: "\<exists>t. build_from_weights_reusing [1, 1, 2] None = Some t \<and> he_table_log t = 2 \<and> he_codes t = [(0, 2), (1, 2), (1, 1)]"
  unfolding build_from_weights_reusing_def Let_def small_counts small_sum using small_log small_first_codes small_codes by simp

theorem packer_equals_writer_witness:
  "\<exists>t out w. build_from_weights_reusing [1, 1, 2] None = Some t \<and> encode_segment t [2, 0, 1, 2] (replicate 25 0) [7] = (Some (length out - length [7 :: u8]), out)
     \<and> encode_stream t (bit_writer_from [7]) [2, 0, 1, 2] = Some w \<and> dump w = Some out"
proof -
  obtain t where t: "build_from_weights_reusing [1, 1, 2] None = Some t" and log: "he_table_log t = 2"
    and codes: "he_codes t = [(0, 2), (1, 2), (1, 1)]" using small_table by blast
  have "weights_usable [1, 1, 2]" by (simp add: weights_usable_def)
  moreover have "\<forall>x \<in> set [2, 0, 1, 2 :: u8]. num_bits_for_symbol t x \<noteq> None" by (simp add: num_bits_for_symbol_def codes)
  moreover have "huf_tight_compress_bound (length [2, 0, 1, 2 :: u8]) (he_table_log t) \<le> length (replicate 25 (0 :: u8))" by (simp add: log huf_tight_compress_bound_def)
  ultimately show ?thesis using packer_equals_writer [OF t, of "[2, 0, 1, 2]" "replicate 25 0" "[7]"] t by blast
qed

end
