(* ===== verification/Huff_Description.thy ===== *)
theory Huff_Description
  imports Fse_Normalize Huff_Encode
begin

text \<open>
  The description of a Huffman table (\<open>encode_weight_description_into\<close> and \<open>write_table\<close> of \<^verbatim>\<open>zstd/src/huff0/huff0_encoder.rs\<close>,
  \<open>encode_interleaved\<close> of \<^verbatim>\<open>zstd/src/fse/fse_encoder.rs\<close>): the weights as two interleaved FSE streams when that is shorter, as nibbles
  otherwise, with the cache that keeps the encoded form beside the table. Together with the decoder's \<open>read_weights\<close> this closes
  the way of literals from the encoder's table to the decoder's view.
\<close>

section \<open>Two interleaved states\<close>

definition encode_pair :: "enc_table \<Rightarrow> bit_writer \<Rightarrow> nat \<Rightarrow> nat \<Rightarrow> u8 \<Rightarrow> u8 \<Rightarrow> (bit_writer \<times> nat \<times> nat) option" where
  "encode_pair t w state_1 state_2 a b =
     Option.bind (encode_symbol_with_state t w state_2 a) (\<lambda>(w, state_2).
     Option.bind (encode_symbol_with_state t w state_1 b) (\<lambda>(w, state_1). Some (w, state_1, state_2)))"

text \<open>The main loop takes four symbols, the last round may take two. An index below zero is a panic.\<close>

fun encode_rounds :: "enc_table \<Rightarrow> bit_writer \<Rightarrow> nat \<Rightarrow> nat \<Rightarrow> u8 list \<Rightarrow> (bit_writer \<times> nat \<times> nat) option" where
  "encode_rounds t w state_1 state_2 [] = Some (w, state_1, state_2)"
| "encode_rounds t w state_1 state_2 [a] = None"
| "encode_rounds t w state_1 state_2 [a, b] = encode_pair t w state_1 state_2 a b"
| "encode_rounds t w state_1 state_2 [a, b, c] = None"
| "encode_rounds t w state_1 state_2 (a # b # c # d # rest) =
     Option.bind (encode_pair t w state_1 state_2 a b) (\<lambda>(w, state_1, state_2).
     Option.bind (encode_pair t w state_1 state_2 c d) (\<lambda>(w, state_1, state_2). encode_rounds t w state_1 state_2 rest))"

text \<open>The first states, from the end of the data, and the symbols that are left, last first.\<close>

definition interleaved_start :: "enc_table \<Rightarrow> bit_writer \<Rightarrow> u8 list \<Rightarrow> (bit_writer \<times> nat \<times> nat \<times> u8 list) option" where
  "interleaved_start t w data =
     (if odd (length data) then
        (case rev data of
           a # b # c # rest \<Rightarrow>
             Option.bind (start_state t a) (\<lambda>s1. Option.bind (start_state t b) (\<lambda>s2.
             Option.bind (encode_symbol_with_state t w (es_index s1) c) (\<lambda>(w, state_1). Some (w, state_1, es_index s2, rest))))
         | _ \<Rightarrow> None)
      else
        (case rev data of
           a # b # rest \<Rightarrow>
             Option.bind (start_state t a) (\<lambda>s2. Option.bind (start_state t b) (\<lambda>s1. Some (w, es_index s1, es_index s2, rest)))
         | _ \<Rightarrow> None))"

definition encode_interleaved :: "enc_table \<Rightarrow> bit_writer \<Rightarrow> u8 list \<Rightarrow> bit_writer option" where
  "encode_interleaved t w data =
     Option.bind (en_write_table t w) (\<lambda>w.
      if length data < 2 then None
      else
        Option.bind (interleaved_start t w data) (\<lambda>(w, state_1, state_2, rest).
        Option.bind
          (if (length data - 2) AND 2 \<noteq> 0 then
             (case rest of
                a # b # rest \<Rightarrow> map_option (\<lambda>(w, state_1, state_2). (w, state_1, state_2, rest)) (encode_pair t w state_1 state_2 a b)
              | _ \<Rightarrow> None)
           else Some (w, state_1, state_2, rest)) (\<lambda>(w, state_1, state_2, rest).
        Option.bind (encode_rounds t w state_1 state_2 rest) (\<lambda>(w, state_1, state_2).
        Option.bind (write_bits_64 w (of_nat state_2) (en_acc_log t)) (\<lambda>w.
        Option.bind (write_bits_64 w (of_nat state_1) (en_acc_log t)) close_stream)))))"

section \<open>The description of the weights\<close>

text \<open>Whether the FSE form is the one to emit, the buffer, and the table it was built with.\<close>

definition encode_weight_description_into :: "nat list \<Rightarrow> enc_table \<Rightarrow> (bool \<times> u8 list \<times> enc_table) option" where
  "encode_weight_description_into weights fse_table =
     (if length weights \<le> 2 then Some (False, [], fse_table)
      else if list_ex (\<lambda>weight. weight \<ge> 13) weights then None
      else
        let counts = map (count_list weights) [0..<13]; max_count = fold max counts 0 in
        if max_count = length weights \<or> max_count \<le> 1 then Some (False, [], fse_table)
        else
          Option.bind (build_table_from_counts_into counts 6 False fse_table) (\<lambda>fse_table.
          Option.bind (encode_interleaved fse_table (bit_writer_from []) (map of_nat weights)) (\<lambda>w.
          Option.bind (bw_flush w) (\<lambda>w.
            let encoded = bw_output w in
            Some (length encoded > 1 \<and> (length encoded < length weights div 2 \<or> \<not> length weights \<le> 128) \<and> \<not> length encoded \<ge> 128,
                  encoded, fse_table)))))"

section \<open>The cache\<close>

datatype description_state = NotComputed | NotEncodable | Encoded nat

record weight_description =
  wd_buf :: "u8 list"
  wd_state :: description_state

definition fill_weight_description :: "weight_description \<Rightarrow> nat list \<Rightarrow> enc_table \<Rightarrow> (weight_description \<times> enc_table) option" where
  "fill_weight_description cache weights fse_table =
     (if wd_state cache \<noteq> NotComputed then Some (cache, fse_table)
      else
        Option.bind (encode_weight_description_into weights fse_table) (\<lambda>(emit, encoded, fse_table).
          Some (\<lparr>wd_buf = encoded, wd_state = (if emit then Encoded (length encoded) else NotEncodable)\<rparr>, fse_table)))"

definition fill_weight_description_from_codes ::
  "huffman_code_table \<Rightarrow> weight_description \<Rightarrow> enc_table \<Rightarrow> (weight_description \<times> enc_table) option" where
  "fill_weight_description_from_codes t cache fse_table =
     (if wd_state cache \<noteq> NotComputed then Some (cache, fse_table)
      else Option.bind (weights_into t) (\<lambda>weights. fill_weight_description cache (butlast weights) fse_table))"

definition cached_encoded_weight_description :: "weight_description \<Rightarrow> u8 list option" where
  "cached_encoded_weight_description cache = (case wd_state cache of Encoded len \<Rightarrow> Some (take len (wd_buf cache)) | _ \<Rightarrow> None)"

text \<open>The size of the description: \<open>None\<close> inside of the result when it cannot be written.\<close>

definition try_table_description_size ::
  "huffman_code_table \<Rightarrow> weight_description \<Rightarrow> enc_table \<Rightarrow> (nat option \<times> weight_description \<times> enc_table) option" where
  "try_table_description_size t cache fse_table =
     Option.bind (fill_weight_description_from_codes t cache fse_table) (\<lambda>(cache, fse_table).
       Some (case cached_encoded_weight_description cache of
               Some fse_description \<Rightarrow> (Some (length fse_description + 1), cache, fse_table)
             | None \<Rightarrow>
                 let raw_weights_len = length (he_codes t) - 1 in
                 (if raw_weights_len \<le> 128 then Some ((raw_weights_len + 1) div 2 + 1) else None, cache, fse_table)))"

definition write_fse_description :: "bit_writer \<Rightarrow> u8 list \<Rightarrow> bit_writer option" where
  "write_fse_description w encoded = Option.bind (write_bits_64 w (ucast (of_nat (length encoded) :: u8)) 8) (\<lambda>w. append_bytes w encoded)"

definition huff_write_table :: "huffman_code_table \<Rightarrow> weight_description \<Rightarrow> bit_writer \<Rightarrow> bit_writer option" where
  "huff_write_table t cache w =
     (case wd_state cache of
        Encoded len \<Rightarrow> if len > length (wd_buf cache) then None else write_fse_description w (take len (wd_buf cache))
      | NotEncodable \<Rightarrow> Option.bind (weights_into t) (\<lambda>weights. write_raw_weight_description w (butlast weights))
      | NotComputed \<Rightarrow>
          Option.bind (weights_into t) (\<lambda>weights.
          Option.bind (encode_weight_description_into (butlast weights) enc_table_blank) (\<lambda>(emit, encoded, _).
            if emit then write_fse_description w encoded else write_raw_weight_description w (butlast weights))))"

text \<open>The two entry points of the encoder, which write the table when it is new.\<close>

definition huff_encode :: "huffman_code_table \<Rightarrow> weight_description \<Rightarrow> bit_writer \<Rightarrow> u8 list \<Rightarrow> bool \<Rightarrow> bit_writer option" where
  "huff_encode t cache w data with_table =
     Option.bind (if with_table then huff_write_table t cache w else Some w) (\<lambda>w. encode_stream t w data)"

definition huff_encode4x ::
  "huffman_code_table \<Rightarrow> weight_description \<Rightarrow> (nat \<Rightarrow> u8 list) \<Rightarrow> bit_writer \<Rightarrow> u8 list \<Rightarrow> bool \<Rightarrow> bit_writer option" where
  "huff_encode4x t cache spare w data with_table =
     (if length data < 12 then None
      else Option.bind (if with_table then huff_write_table t cache w else Some w) (\<lambda>w. encode4x_streams t spare w data))"

section \<open>What the interleaved encoder writes\<close>

text \<open>The states of the symbols, first to last; each leads to the one after the next.\<close>

fun chain :: "nat \<Rightarrow> int list \<Rightarrow> u8 list \<Rightarrow> nat list \<Rightarrow> bool" where
  "chain k ps spread (x # y # z # r) \<longleftrightarrow> x < 2 ^ k \<and> leads_to k ps spread x z \<and> chain k ps spread (y # z # r)"
| "chain k ps spread [x, y] \<longleftrightarrow> x < 2 ^ k \<and> y < 2 ^ k"
| "chain k ps spread r \<longleftrightarrow> False"

definition width :: "nat \<Rightarrow> int list \<Rightarrow> u8 list \<Rightarrow> nat \<Rightarrow> nat" where
  "width k ps spread i = state_bits k (state_counter ps spread i)"

fun chain_bits :: "nat \<Rightarrow> int list \<Rightarrow> u8 list \<Rightarrow> nat list \<Rightarrow> bool list" where
  "chain_bits k ps spread (x # y # z # r) =
     chain_bits k ps spread (y # z # r) @ word_bits (width k ps spread x) (of_nat (z mod 2 ^ width k ps spread x) :: u64)"
| "chain_bits k ps spread r = []"

lemma chain_first: "chain k ps spread (x # y # r) \<Longrightarrow> x < 2 ^ k \<and> y < 2 ^ k"
  by (induction r arbitrary: x y) auto

text \<open>The encoder without unrolling: the state used longest ago codes the next symbol.\<close>

fun interleave :: "enc_table \<Rightarrow> bit_writer \<Rightarrow> nat \<Rightarrow> nat \<Rightarrow> u8 list \<Rightarrow> (bit_writer \<times> nat \<times> nat) option" where
  "interleave t w y z [] = Some (w, y, z)"
| "interleave t w y z (d # ds) = Option.bind (encode_symbol_with_state t w z d) (\<lambda>(w, x). interleave t w x y ds)"

lemma encode_pair_interleave: "encode_pair t w s1 s2 a b = interleave t w s1 s2 [a, b]"
  by (cases "encode_symbol_with_state t w s2 a") (auto simp: encode_pair_def)

lemma interleave_append: "interleave t w y z (ds @ es) = Option.bind (interleave t w y z ds) (\<lambda>(w, y, z). interleave t w y z es)"
  by (induction ds arbitrary: w y z) (auto simp: bind_assoc split_def intro!: arg_cong [of _ _ "Option.bind _"])

lemma encode_rounds_interleave: "even (length ds) \<Longrightarrow> encode_rounds t w s1 s2 ds = interleave t w s1 s2 ds"
proof (induction t w s1 s2 ds rule: encode_rounds.induct)
  case (5 t w s1 s2 a b c d rest)
  have "interleave t w s1 s2 (a # b # c # d # rest) = interleave t w s1 s2 ([a, b] @ [c, d] @ rest)" by simp
  also have "\<dots> = Option.bind (encode_pair t w s1 s2 a b) (\<lambda>(w, s1, s2). Option.bind (encode_pair t w s1 s2 c d) (\<lambda>(w, s1, s2). interleave t w s1 s2 rest))"
    unfolding interleave_append encode_pair_interleave [symmetric] by (rule refl)
  also have "\<dots> = encode_rounds t w s1 s2 (a # b # c # d # rest)"
    unfolding encode_rounds.simps using 5 by (auto intro!: Option.bind_cong)
  finally show ?case by simp
qed (simp_all add: encode_pair_interleave)

lemma interleave_chain:
  assumes "enc_built k ps spread t" "\<forall>d \<in> set ds. 0 < slots_of ps d" "bw_inv w" "chain k ps spread (y # z # r)" "bw_bits w = pre @ chain_bits k ps spread (y # z # r)"
  shows "\<exists>w' y' z' r'. interleave t w y z ds = Some (w', y', z') \<and> bw_inv w' \<and> chain k ps spread (y' # z' # r')
     \<and> bw_bits w' = pre @ chain_bits k ps spread (y' # z' # r') \<and> map ((!) spread) (y' # z' # r') = rev ds @ map ((!) spread) (y # z # r)
     \<and> (\<exists>before. y' # z' # r' = before @ y # z # r)"
  using assms(2-)
proof (induction ds arbitrary: w y z r)
  case Nil
  then show ?case by (intro exI [of _ w] exI [of _ y] exI [of _ z] exI [of _ r]) auto
next
  case (Cons d ds)
  have z: "z < 2 ^ k" using chain_first [OF Cons.prems(3)] by simp
  obtain x w1 where x: "encode_symbol_with_state t w z d = Some (w1, x)" "x < 2 ^ k" "spread ! x = d" "leads_to k ps spread x z" "bw_inv w1"
      "bw_bits w1 = bw_bits w @ word_bits (width k ps spread x) (of_nat (z mod 2 ^ width k ps spread x) :: u64)"
    using encode_symbol_ok [OF assms(1) _ z Cons.prems(2), of d] Cons.prems(1) by (auto simp: width_def)
  have c: "chain k ps spread (x # y # z # r)" using x(2,4) Cons.prems(3) by simp
  have b: "bw_bits w1 = pre @ chain_bits k ps spread (x # y # z # r)" using x(6) Cons.prems(4) by simp
  have ds: "\<forall>d \<in> set ds. 0 < slots_of ps d" using Cons.prems(1) by simp
  obtain w' y' z' r' where r': "interleave t w1 x y ds = Some (w', y', z')" "bw_inv w'" "chain k ps spread (y' # z' # r')"
      "bw_bits w' = pre @ chain_bits k ps spread (y' # z' # r')" "map ((!) spread) (y' # z' # r') = rev ds @ map ((!) spread) (x # y # z # r)"
      "\<exists>before. y' # z' # r' = before @ x # y # z # r"
    using Cons.IH [OF ds x(5) c b] by blast
  then show ?case using x(1,3) by (intro exI [of _ w'] exI [of _ y'] exI [of _ z'] exI [of _ r']) (auto intro: exI [of _ "_ @ [x]"])
qed

lemma interleaved_unrolled:
  assumes d: "rev data = a # b # rest" and s: "start_state t a = Some sz" "start_state t b = Some sy" and n: "3 \<le> length data"
  shows "encode_interleaved t w data =
     Option.bind (en_write_table t w) (\<lambda>w. Option.bind (interleave t w (es_index sy) (es_index sz) rest) (\<lambda>(w, state_1, state_2).
       Option.bind (write_bits_64 w (of_nat state_2) (en_acc_log t)) (\<lambda>w.
       Option.bind (write_bits_64 w (of_nat state_1) (en_acc_log t)) close_stream)))"
proof -
  have len: "length data = length rest + 2" using arg_cong [OF d, of length] by simp
  define finish where "finish = (\<lambda>(w, state_1, state_2). Option.bind (write_bits_64 w (of_nat state_2) (en_acc_log t)) (\<lambda>w.
       Option.bind (write_bits_64 w (of_nat state_1) (en_acc_log t)) close_stream))"
  define body where "body = (\<lambda>(w, state_1, state_2, rest). Option.bind
          (if (length data - 2) AND 2 \<noteq> 0 then
             (case rest of
                a # b # rest \<Rightarrow> map_option (\<lambda>(w, state_1, state_2). (w, state_1, state_2, rest)) (encode_pair t w state_1 state_2 a b)
              | _ \<Rightarrow> None)
           else Some (w, state_1, state_2, rest)) (\<lambda>(w, state_1, state_2, rest). Option.bind (encode_rounds t w state_1 state_2 rest) finish))"
  have tail: "body (w, state_1, state_2, more) = Option.bind (interleave t w state_1 state_2 more) finish"
    if e: "even (length more)" and l: "length more = length rest \<or> Suc (length more) = length rest" for w state_1 state_2 more
  proof (cases "(length data - 2) AND 2 \<noteq> 0")
    case True
    have "length rest \<noteq> 0" "length rest \<noteq> 1" using True len by auto
    then have "length more \<noteq> 0" "length more \<noteq> 1" using e l by auto
    then have "2 \<le> length more" by linarith
    then obtain x y more' where m: "more = x # y # more'" by (cases more; cases "List.tl more") auto
    have "Option.bind (interleave t w state_1 state_2 more) finish =
        Option.bind (encode_pair t w state_1 state_2 x y) (\<lambda>(w, y, z). Option.bind (interleave t w y z more') finish)"
      using interleave_append [of t w state_1 state_2 "[x, y]" more'] by (simp add: m encode_pair_interleave bind_assoc split_def)
    then show ?thesis using True e m
      by (cases "encode_pair t w state_1 state_2 x y") (auto simp: encode_rounds_interleave body_def)
  qed (simp add: encode_rounds_interleave [OF e] body_def)
  have start: "Option.bind (interleaved_start t w data) body =
      (if odd (length data) then Option.bind (encode_symbol_with_state t w (es_index sz) (hd rest)) (\<lambda>(w, x). body (w, x, es_index sy, List.tl rest))
       else body (w, es_index sy, es_index sz, rest))" for w
  proof (cases rest)
    case Nil
    then show ?thesis using n len by simp
  next
    case (Cons c more)
    then show ?thesis using d s by (cases "encode_symbol_with_state t w (es_index sz) c") (auto simp: interleaved_start_def)
  qed
  have "Option.bind (interleaved_start t w data) body
      = Option.bind (interleave t w (es_index sy) (es_index sz) rest) finish" for w
  proof (cases "odd (length data)")
    case True
    then obtain c more where r: "rest = c # more" "even (length more)" using len by (cases rest) auto
    show ?thesis unfolding start if_P [OF True] by (simp add: r tail bind_assoc split_def)
  next
    case False
    then show ?thesis unfolding start if_not_P [OF False] using tail [of rest] len by simp
  qed
  then show ?thesis using n unfolding encode_interleaved_def body_def finish_def by (simp add: split_def)
qed

lemma bits_of_split: "bits_of out = bits_of pre @ tail_bits \<Longrightarrow> \<exists>source. out = pre @ source \<and> bits_of source = tail_bits"
proof -
  assume a: "bits_of out = bits_of pre @ tail_bits"
  have l: "length pre \<le> length out" using arg_cong [OF a, of length] by simp
  then have o: "bits_of out = bits_of (take (length pre) out) @ bits_of (drop (length pre) out)" by (simp flip: bits_of_append)
  have "bits_of (take (length pre) out) = bits_of pre \<and> bits_of (drop (length pre) out) = tail_bits"
    using append_eq_append_conv [of "bits_of (take (length pre) out)" "bits_of pre"] l a o by simp
  then show ?thesis using bits_of_inject append_take_drop_id [of "length pre" out] by metis
qed

text \<open>The probabilities that the table describes: those it was built from, and zeros up to 256 symbols.\<close>

definition table_probs :: "int list \<Rightarrow> int list" where
  "table_probs ps = ps @ replicate (256 - length ps) 0"

lemma enc_built_probs:
  assumes "enc_built k ps spread t"
  shows "map sy_probability (en_states t) = table_probs ps"
proof (rule nth_equalityI)
  have l: "length (en_states t) = 256" "length ps \<le> 256" using assms by (auto simp: enc_built_def enc_table_inv_def spread_of_def probs_fill_def)
  then show len: "length (map sy_probability (en_states t)) = length (table_probs ps)" by (simp add: table_probs_def)
  fix i assume "i < length (map sy_probability (en_states t))"
  then show "map sy_probability (en_states t) ! i = table_probs ps ! i" using assms l by (auto simp: enc_built_def table_probs_def nth_append)
qed

lemma table_probs_fill: "probs_fill k ps \<Longrightarrow> list_all (\<lambda>p. -1 \<le> p) (table_probs ps) \<and> sum_list (map prob_slots (table_probs ps)) = 2 ^ k"
  by (auto simp: probs_fill_def table_probs_def list_all_iff sum_list_replicate prob_slots_def)

text \<open>The description, the transition bits from the last symbol to the first, the two first states and the marker.\<close>

lemma encode_interleaved_bits:
  assumes b: "enc_built k ps spread t" and k: "5 \<le> k" and d: "\<forall>x \<in> set data. 0 < slots_of ps x" "3 \<le> length data"
    and w: "bw_inv w" "bw_bits w = bits_of pre"
  shows "\<exists>w' hdr body ss p. encode_interleaved t w data = Some w' \<and> dump w' = Some (pre @ hdr @ body) \<and> describes (table_probs ps) k hdr
     \<and> chain k ps spread ss \<and> map ((!) spread) ss = data \<and> p < 8
     \<and> bits_of body = chain_bits k ps spread ss @ word_bits k (of_nat (ss ! 1) :: u64) @ word_bits k (of_nat (ss ! 0) :: u64) @ True # replicate p False
     \<and> state_counter ps spread (ss ! (length data - 2)) = slots_of ps (data ! (length data - 2))"
proof -
  have k9: "k \<le> 9" "en_acc_log t = k" "probs_fill k ps" using b ilog2_eqI [of k "2 ^ k"] by (auto simp: enc_built_def en_acc_log_def spread_of_def)
  obtain z y rest where r: "rev data = z # y # rest" using d(2) by (cases "rev data"; cases "List.tl (rev data)") auto
  then have data: "data = rev rest @ [y, z]" by (metis append.assoc append_Cons append_Nil rev.simps(2) rev_rev_ident)
  have pos: "0 < slots_of ps z" "0 < slots_of ps y" "\<forall>x \<in> set rest. 0 < slots_of ps x" using d(1) by (simp_all add: data)
  obtain iz where iz: "iz < 2 ^ k" "spread ! iz = z" "start_state t z = Some \<lparr>es_num_bits = 0, es_index = iz\<rparr>" using start_state_ok [OF b pos(1)] by blast
  obtain iy where iy: "iy < 2 ^ k" "spread ! iy = y" "start_state t y = Some \<lparr>es_num_bits = 0, es_index = iy\<rparr>" "state_counter ps spread iy = slots_of ps y"
    using start_state_ok [OF b pos(2)] by blast
  obtain w1 hdr where w1: "en_write_table t w = Some w1" "bw_inv w1" "bw_bits w1 = bits_of (pre @ hdr)" "describes (table_probs ps) k hdr"
    using write_ncount_describes [OF conjunct1 conjunct2 k _ w, OF table_probs_fill table_probs_fill, OF k9(3) k9(3)] k9
    by (auto simp: en_write_table_def enc_built_probs [OF b])
  have c0: "chain k ps spread [iy, iz]" using iy(1) iz(1) by simp
  have b0: "bw_bits w1 = bits_of (pre @ hdr) @ chain_bits k ps spread [iy, iz]" using w1(3) by simp
  obtain w2 s1 s2 sr before where w2: "interleave t w1 iy iz rest = Some (w2, s1, s2)" "bw_inv w2" "chain k ps spread (s1 # s2 # sr)"
      "bw_bits w2 = bits_of (pre @ hdr) @ chain_bits k ps spread (s1 # s2 # sr)" "map ((!) spread) (s1 # s2 # sr) = rev rest @ map ((!) spread) [iy, iz]"
      "s1 # s2 # sr = before @ [iy, iz]"
    using interleave_chain [OF b pos(3) w1(2) c0 b0] by blast
  let ?ss = "s1 # s2 # sr"
  have s: "s1 < 2 ^ k" "s2 < 2 ^ k" using chain_first [OF w2(3)] by simp_all
  have two: "(2 :: nat) ^ k \<le> 2 ^ 9" using k9(1) by (intro power_increasing) simp_all
  have cl: "clean_above k (of_nat x :: u64)" if "x < 2 ^ k" for x
  proof -
    have "unat (of_nat x :: u64) = x" unfolding unat_of_nat using that two by simp
    then show ?thesis using that by (simp add: clean_above_iff_less)
  qed
  have k64: "k \<le> 64" using k9(1) by simp
  obtain w3 where w3: "write_bits_64 w2 (of_nat s2) k = Some w3" "bw_inv w3" "bw_bits w3 = bw_bits w2 @ word_bits k (of_nat s2 :: u64)"
    using write_bits_64_bits [OF w2(2) k64 cl [OF s(2)]] by blast
  obtain w4 where w4: "write_bits_64 w3 (of_nat s1) k = Some w4" "bw_inv w4" "bw_bits w4 = bw_bits w3 @ word_bits k (of_nat s1 :: u64)"
    using write_bits_64_bits [OF w3(2) k64 cl [OF s(1)]] by blast
  obtain w' out p where c: "close_stream w4 = Some w'" "dump w' = Some out" "p < 8" "bits_of out = bw_bits w4 @ True # replicate p False"
    using close_stream_bits [OF w4(2)] by blast
  obtain body where body: "out = (pre @ hdr) @ body"
      "bits_of body = chain_bits k ps spread ?ss @ word_bits k (of_nat s2 :: u64) @ word_bits k (of_nat s1 :: u64) @ True # replicate p False"
    using bits_of_split [of out "pre @ hdr"] c(4) w4(3) w3(3) w2(4) by fastforce
  have "encode_interleaved t w data = Some w'"
    using interleaved_unrolled [OF r iz(3) iy(3) d(2)] w1(1) w2(1) w3(1) w4(1) c(1) k9(2) by simp
  moreover have "map ((!) spread) ?ss = data" using w2(5) iy(2) iz(2) data by simp
  moreover have "?ss ! (length data - 2) = iy" "data ! (length data - 2) = y"
  proof -
    have "length before = length rest" using arg_cong [OF w2(5), of length] arg_cong [OF w2(6), of length] by simp
    then show "?ss ! (length data - 2) = iy" "data ! (length data - 2) = y" unfolding w2(6) data by (simp_all add: nth_append)
  qed
  ultimately show ?thesis using c(2,3) body w1(4) w2(3) iy(4)
    by (intro exI [of _ w'] exI [of _ hdr] exI [of _ body] exI [of _ ?ss] exI [of _ p]) (simp del: chain.simps chain_bits.simps)
qed

end
