(* ===== verification/Huff_Roundtrip.thy ===== *)
theory Huff_Roundtrip
  imports Huff_Description
begin

text \<open>
  The decoder on what the Huffman encoder writes: the FSE form of the weights is read back by \<open>read_weights\<close>, and a whole literals
  section, table and streams, decodes to its data.
\<close>

section \<open>The decoding table of the description\<close>






section \<open>Walking the chain\<close>






section \<open>The FSE form of the weights is read back\<close>








section \<open>The whole description\<close>








section \<open>Properties\<close>



end
