(* ===== verification/Dictionary.thy ===== *)
theory Dictionary
  imports Sequence_Setup Literals
begin

text \<open>
  Dictionaries (\<^verbatim>\<open>zstd/src/decoding/dictionary.rs\<close>): the parser of the serialized form for the decoder and for the encoder, raw
  content, and the choice between them; then the life of the sequence workspace of a decoder with blocks, frame resets, attached
  dictionaries and the snapshots of \<^verbatim>\<open>zstd/src/decoding/frame_decoder.rs\<close>. A parse that fails returns nothing of the dictionary
  it was filling, so the state is not kept with an error.
\<close>

section \<open>The parser\<close>

datatype dictionary_decode_error =
    BadMagicNum (dict_bad_magic: "u8 list")
  | DictionaryTooSmall (dict_got: nat) (dict_need: nat)
  | ZeroDictionaryId
  | ZeroRepeatOffsetInDictionary nat
  | DictFSETableError fse_table_error
  | DictHuffmanTableError huffman_table_error

record dictionary =
  dict_id :: u32
  dict_fse :: fse_scratch
  dict_huf :: huffman_scratch
  dict_content :: "u8 list"
  dict_offset_hist :: "u32 list"

definition DICT_MAGIC_NUM :: "u8 list" where
  "DICT_MAGIC_NUM = [0x37, 0xA4, 0x30, 0xEC]"

definition empty_dictionary :: "u32 \<Rightarrow> u8 list \<Rightarrow> dictionary" where
  "empty_dictionary i content =
     \<lparr>dict_id = i, dict_fse = fse_scratch_new, dict_huf = huffman_scratch_new, dict_content = content, dict_offset_hist = [1, 4, 8]\<rparr>"

definition from_raw_content :: "u32 \<Rightarrow> u8 list \<Rightarrow> (dictionary, dictionary_decode_error) result" where
  "from_raw_content i content = (if content = [] then Err (DictionaryTooSmall 0 1) else Ok (empty_dictionary i content))"

definition is_serialized :: "u8 list \<Rightarrow> bool" where
  "is_serialized raw \<longleftrightarrow> 8 \<le> length raw \<and> take 4 raw = DICT_MAGIC_NUM"

text \<open>\<open>&raw[a..b]\<close> panics out of range.\<close>

definition slice_range :: "'a list \<Rightarrow> nat \<Rightarrow> nat \<Rightarrow> 'a list option" where
  "slice_range xs a b = (if a \<le> b \<and> b \<le> length xs then Some (take (b - a) (drop a xs)) else None)"

text \<open>One sequence table: the decoding table with its metadata, or only the probabilities.\<close>

definition dict_axis ::
  "bool \<Rightarrow> u8 list \<Rightarrow> nat \<Rightarrow> (seq_symbol fse_table \<Rightarrow> seq_symbol fse_table option) \<Rightarrow> seq_symbol fse_table
     \<Rightarrow> (seq_symbol fse_table \<times> nat, dictionary_decode_error) result" where
  "dict_axis build_decode_tables raw_tables max_log enrich_pass t =
     (if build_decode_tables then
        (case build_decoder seq_symbol_ops raw_tables max_log t of (t, r) \<Rightarrow>
           rbind (map_err DictFSETableError r) (\<lambda>n. rbind (or_panic (enrich_pass t)) (\<lambda>t. Ok (t, n))))
      else
        (case read_table_probabilities raw_tables max_log t of (t, r) \<Rightarrow>
           rbind (map_err DictFSETableError r) (\<lambda>n. Ok (t, n))))"

definition dict_huffman ::
  "bool \<Rightarrow> bool \<Rightarrow> u8 list \<Rightarrow> huffman_table \<Rightarrow> (huffman_table \<times> nat, dictionary_decode_error) result" where
  "dict_huffman on_amd build_decode_tables raw_tables t =
     (case (if build_decode_tables then huffman_build_decoder on_amd t raw_tables else build_weights_only on_amd t raw_tables) of
        (t, r) \<Rightarrow> rbind (map_err DictHuffmanTableError r) (\<lambda>n. Ok (t, n)))"

text \<open>The repeat offsets, and the content behind them.\<close>

definition dict_offsets :: "u8 list \<Rightarrow> (u32 list \<times> u8 list, dictionary_decode_error) result" where
  "dict_offsets raw_tables =
     (if length raw_tables < 12 then Err (DictionaryTooSmall (length raw_tables) 12) else
      rbind (or_panic (slice_range raw_tables 0 4)) (\<lambda>bytes1.
      rbind (or_panic (slice_range raw_tables 4 8)) (\<lambda>bytes2.
      rbind (or_panic (slice_range raw_tables 8 12)) (\<lambda>bytes3.
      let offset1 = from_le_bytes bytes1; offset2 = from_le_bytes bytes2; offset3 = from_le_bytes bytes3 in
      if offset1 = 0 then Err (ZeroRepeatOffsetInDictionary 0)
      else if offset2 = 0 then Err (ZeroRepeatOffsetInDictionary 1)
      else if offset3 = 0 then Err (ZeroRepeatOffsetInDictionary 2)
      else rbind (or_panic (slice_from raw_tables 12)) (\<lambda>content. Ok ([offset1, offset2, offset3], content))))))"

definition decode_dict_inner :: "bool \<Rightarrow> bool \<Rightarrow> u8 list \<Rightarrow> (dictionary, dictionary_decode_error) result" where
  "decode_dict_inner on_amd build_decode_tables raw =
     (if length raw < 8 then Err (DictionaryTooSmall (length raw) 8) else
      rbind (or_panic (slice_range raw 0 4)) (\<lambda>magic_num.
      if magic_num \<noteq> DICT_MAGIC_NUM then Err (BadMagicNum magic_num) else
      rbind (or_panic (slice_range raw 4 8)) (\<lambda>id_bytes.
      let i = from_le_bytes id_bytes in
      if i = 0 then Err ZeroDictionaryId else
      rbind (or_panic (slice_from raw 8)) (\<lambda>raw_tables.
      rbind (dict_huffman on_amd build_decode_tables raw_tables huffman_table_new) (\<lambda>(huf, huf_size).
      rbind (or_panic (slice_from raw_tables huf_size)) (\<lambda>raw_tables.
      rbind (dict_axis build_decode_tables raw_tables OF_MAX_LOG enrich_for_offsets (fs_offsets fse_scratch_new)) (\<lambda>(off, of_size).
      rbind (or_panic (slice_from raw_tables of_size)) (\<lambda>raw_tables.
      rbind (dict_axis build_decode_tables raw_tables ML_MAX_LOG (enrich_with_packed_seq_meta ML_PACKED)
               (fs_match_lengths fse_scratch_new)) (\<lambda>(ml, ml_size).
      rbind (or_panic (slice_from raw_tables ml_size)) (\<lambda>raw_tables.
      rbind (dict_axis build_decode_tables raw_tables LL_MAX_LOG (enrich_with_packed_seq_meta LL_PACKED)
               (fs_literal_lengths fse_scratch_new)) (\<lambda>(ll, ll_size).
      rbind (or_panic (slice_from raw_tables ll_size)) (\<lambda>raw_tables.
      rbind (dict_offsets raw_tables) (\<lambda>(hist, content).
      Ok \<lparr>dict_id = i,
          dict_fse = fse_scratch_new\<lparr>fs_offsets := off, fs_match_lengths := ml, fs_literal_lengths := ll,
            fs_offsets_long_share := (if build_decode_tables then compute_offsets_long_share off else 0)\<rparr>,
          dict_huf = huffman_scratch_new\<lparr>hs_table := huf\<rparr>, dict_content = content, dict_offset_hist = hist\<rparr>)))))))))))))"

definition decode_dict :: "bool \<Rightarrow> u8 list \<Rightarrow> (dictionary, dictionary_decode_error) result" where
  "decode_dict on_amd raw = decode_dict_inner on_amd True raw"

definition decode_dict_for_encoding :: "bool \<Rightarrow> u8 list \<Rightarrow> (dictionary, dictionary_decode_error) result" where
  "decode_dict_for_encoding on_amd raw = decode_dict_inner on_amd False raw"

definition from_serialized_or_raw_content :: "bool \<Rightarrow> u8 list \<Rightarrow> (dictionary, dictionary_decode_error) result" where
  "from_serialized_or_raw_content on_amd raw =
     (if is_serialized raw then decode_dict on_amd raw
      else if raw = [] then Ok (empty_dictionary 0 [])
      else from_raw_content 0 raw)"

section \<open>One table of a dictionary\<close>

text \<open>Two parses of the same bytes that accept together and refuse with the same error.\<close>

definition results_agree :: "('a \<Rightarrow> 'b \<Rightarrow> bool) \<Rightarrow> ('a, 'e) result \<Rightarrow> ('b, 'e) result \<Rightarrow> bool" where
  "results_agree R r1 r2 \<longleftrightarrow> (case r1 of Ok x \<Rightarrow> (\<exists>y. r2 = Ok y \<and> R x y) | Err e \<Rightarrow> r2 = Err e | Panic \<Rightarrow> False)"

lemma results_agree_simps [simp]:
  "results_agree R (Ok x) (Ok y) = R x y" "results_agree R (Err e) (Err e)"
  by (simp_all add: results_agree_def)

lemma results_agree_bind:
  assumes "results_agree R m m'" "\<And>x y. R x y \<Longrightarrow> results_agree S (f x) (g y)"
  shows "results_agree S (rbind m f) (rbind m' g)"
proof (cases m)
  case (Ok x)
  then obtain y where "m' = Ok y" "R x y" using assms(1) by (auto simp: results_agree_def)
  then show ?thesis using assms(2) Ok by simp
qed (use assms(1) in \<open>simp_all add: results_agree_def\<close>)

text \<open>A table of a description is read, and the bytes behind it go to the rest of the parse.\<close>

lemma results_agree_part:
  assumes "results_agree R m m'" "\<And>p q. R p q \<Longrightarrow> snd q = snd p \<and> snd p \<le> length raw"
    and "\<And>p q. R p q \<Longrightarrow> results_agree S (f (fst p) (drop (snd p) raw)) (g (fst q) (drop (snd p) raw))"
  shows "results_agree S (rbind m (\<lambda>(t, n). rbind (or_panic (slice_from raw n)) (f t)))
     (rbind m' (\<lambda>(t, n). rbind (or_panic (slice_from raw n)) (g t)))"
  using assms(2,3) by (intro results_agree_bind [OF assms(1)]) (simp add: slice_from_def split_beta)

definition axes_agree ::
  "(seq_symbol \<Rightarrow> bool) \<Rightarrow> nat \<Rightarrow> u8 \<Rightarrow> nat \<Rightarrow> seq_symbol fse_table \<times> nat \<Rightarrow> seq_symbol fse_table \<times> nat \<Rightarrow> bool" where
  "axes_agree meta_ok max_log max_code len p q \<longleftrightarrow> snd p \<le> len \<and> axis_ok meta_ok max_log (fst p) \<and> length (ft_decode (fst p)) = 512
     \<and> ft_max_symbol (fst p) = max_code \<and> snd q = snd p \<and> ft_symbol_probabilities (fst q) = ft_symbol_probabilities (fst p)
     \<and> ft_accuracy_log (fst q) = ft_accuracy_log (fst p)"

lemma dict_axis_spec:
  assumes t: "t = fse_table_new 512 max_code"
    and m: "meta_fits meta_ok meta max_code" "max_log \<le> 9" and e: "enrich_pass = enrich (meta_of meta)"
  shows "results_agree (axes_agree meta_ok max_log max_code (length raw))
     (dict_axis True raw max_log enrich_pass t) (dict_axis False raw max_log enrich_pass t)"
proof -
  have min: "min max_log ENTRY_MAX_ACCURACY_LOG = max_log" using m(2) by (simp add: ENTRY_MAX_ACCURACY_LOG_def)
  have t0: "t\<lparr>ft_accuracy_log := 0\<rparr> = t" "t\<lparr>ft_decode_len := 0\<rparr> = t" "length (ft_decode t) = 512" "ft_max_symbol t = max_code"
    by (simp_all add: t fse_table_new_def)
  obtain t1 r where rd: "read_probabilities raw max_log t = (t1, r)" by fastforce
  have t1: "ft_decode t1 = ft_decode t" "ft_max_symbol t1 = max_code"
    using read_probabilities_spec(2,3) [OF rd] t0 by simp_all
  have enc: "dict_axis False raw max_log enrich_pass t = rbind (map_err DictFSETableError r) (\<lambda>n. Ok (t1, n))"
    using rd by (simp add: dict_axis_def read_table_probabilities_def min t0 Let_def)
  show ?thesis
  proof (cases r)
    case (Ok n)
    have f: "n \<le> length raw" "ft_accuracy_log t1 \<le> max_log" "5 \<le> ft_accuracy_log t1"
        "probs_fill (ft_accuracy_log t1) (ft_symbol_probabilities t1)"
        "length (ft_symbol_probabilities t1) \<le> unat max_code + 1"
      using read_probabilities_spec(1) [OF rd] t0(4) by (simp_all add: Ok)
    have "(2 :: nat) ^ ft_accuracy_log t1 \<le> 2 ^ 9" using f(2) m(2) by (intro power_increasing) simp_all
    then have b: "buildable t1" using f t1 t0(3) by (simp add: buildable_def)
    obtain s2 t2 s3 t3 where x: "build_decoding_table_meta seq_symbol_ops NoMeta t1 = (t2, Ok ())" "built seq_symbol_ops NoMeta t1 s2 t2"
        "built seq_symbol_ops meta t1 s3 t3"
      using build_decoding_table_spec [OF b, of seq_symbol_ops] by metis
    have "enrich_pass t2 = Some t3" using enrich_built [OF x(2,3)] b by (simp add: e buildable_def)
    then have "dict_axis True raw max_log enrich_pass t = Ok (t3, n)"
      using rd Ok x(1) by (simp add: dict_axis_def build_decoder_def build_decoder_fused_def min t0 Let_def)
    moreover have "axis_ok meta_ok max_log t3" using built_axis_ok [OF b x(3)] t1(2) m(1) f(2) by simp
    ultimately show ?thesis using x(3) t1 t0(3) f(1) enc Ok by (simp add: built_def axes_agree_def)
  next
    case (Err x)
    then show ?thesis
      using rd enc by (simp add: dict_axis_def build_decoder_def build_decoder_fused_def min t0 Let_def)
  qed (use read_probabilities_spec(1) [OF rd] in simp)
qed

lemma huffman_weights_only_same:
  assumes sc: "huffman_scratch_ok t" and b: "huffman_build_decoder on_amd t raw = (t', Ok n)"
    and w: "build_weights_only on_amd t raw = (u, Ok m)"
  shows "ht_bits u = ht_bits t' \<and> ht_max_num_bits u = ht_max_num_bits t'"
proof -
  let ?t = "t\<lparr>ht_packed_decode := []\<rparr>"
  have "huffman_scratch_ok ?t" using sc by (simp add: huffman_scratch_ok_def)
  obtain t1 r1 where rw: "read_weights on_amd ?t raw = (t1, r1)" by fastforce
  have r1: "r1 = Ok n" using b rw by (auto simp: huffman_build_decoder_def split: result.splits prod.splits)
  then have "weights_ok t1" using read_weights_ok [OF \<open>huffman_scratch_ok ?t\<close>, of raw on_amd] rw by (simp add: weights_result_ok_def)
  moreover have "build_table_from_weights t1 = (t', Ok ())"
    using b rw r1 by (auto simp: huffman_build_decoder_def split: result.splits prod.splits)
  ultimately show ?thesis using build_table_spec [of t1 t' "Ok ()"] w rw r1 by (auto simp: build_weights_only_def)
qed

definition trees_agree :: "nat \<Rightarrow> huffman_table \<times> nat \<Rightarrow> huffman_table \<times> nat \<Rightarrow> bool" where
  "trees_agree len p q \<longleftrightarrow> snd p \<le> len \<and> huffman_table_ok (fst p) \<and> huffman_scratch_ok (fst p)
     \<and> snd q = snd p \<and> ht_bits (fst q) = ht_bits (fst p) \<and> ht_max_num_bits (fst q) = ht_max_num_bits (fst p)"

lemma dict_huffman_spec:
  "results_agree (trees_agree (length raw)) (dict_huffman on_amd True raw huffman_table_new) (dict_huffman on_amd False raw huffman_table_new)"
proof -
  have sc: "huffman_scratch_ok huffman_table_new" by (simp add: huffman_scratch_ok_def huffman_table_new_def fse_table_new_def)
  obtain t' r where b: "huffman_build_decoder on_amd huffman_table_new raw = (t', r)" by fastforce
  obtain u r' where w: "build_weights_only on_amd huffman_table_new raw = (u, r')" by fastforce
  note ok = huffman_build_facts [OF sc b]
  have r': "r' = r" using ok w by simp
  show ?thesis
  proof (cases r)
    case (Ok n)
    have "ht_bits u = ht_bits t' \<and> ht_max_num_bits u = ht_max_num_bits t'" using huffman_weights_only_same [OF sc] b w Ok r' by simp
    then show ?thesis using b w Ok r' ok by (simp add: dict_huffman_def trees_agree_def)
  qed (use b w r' ok in \<open>simp_all add: dict_huffman_def\<close>)
qed

section \<open>The whole parse\<close>

text \<open>What the decoder may rely on in a dictionary.\<close>

definition dictionary_ok :: "dictionary \<Rightarrow> bool" where
  "dictionary_ok d \<longleftrightarrow> fse_scratch_ok None (dict_fse d) \<and> huf_live_ok (dict_huf d) None
     \<and> hs_table_source (dict_huf d) = HufLocal \<and> length (dict_offset_hist d) = 3 \<and> 0 \<notin> set (dict_offset_hist d)"

lemma empty_dictionary_ok: "dictionary_ok (empty_dictionary i content)"
  by (simp add: dictionary_ok_def empty_dictionary_def fse_scratch_new_ok huf_live_ok_def huffman_scratch_ok_def huffman_scratch_new_def
      huf_table_def huffman_table_new_def fse_table_new_def)

text \<open>The tables of a serialized dictionary, and the same dictionary as the encoder parses it.\<close>

definition dictionary_tables_ok :: "dictionary \<Rightarrow> bool" where
  "dictionary_tables_ok d \<longleftrightarrow> axis_ok ll_meta_ok LL_MAX_LOG (fs_literal_lengths (dict_fse d))
     \<and> axis_ok of_meta_ok OF_MAX_LOG (fs_offsets (dict_fse d)) \<and> axis_ok ml_meta_ok ML_MAX_LOG (fs_match_lengths (dict_fse d))
     \<and> fs_offsets_long_share (dict_fse d) = compute_offsets_long_share (fs_offsets (dict_fse d))
     \<and> huffman_table_ok (hs_table (dict_huf d))"

definition same_probabilities :: "seq_symbol fse_table \<Rightarrow> seq_symbol fse_table \<Rightarrow> bool" where
  "same_probabilities t u \<longleftrightarrow> ft_symbol_probabilities u = ft_symbol_probabilities t \<and> ft_accuracy_log u = ft_accuracy_log t"

definition same_for_encoding :: "dictionary \<Rightarrow> dictionary \<Rightarrow> bool" where
  "same_for_encoding d e \<longleftrightarrow> dict_id e = dict_id d \<and> dict_content e = dict_content d \<and> dict_offset_hist e = dict_offset_hist d
     \<and> same_probabilities (fs_literal_lengths (dict_fse d)) (fs_literal_lengths (dict_fse e))
     \<and> same_probabilities (fs_match_lengths (dict_fse d)) (fs_match_lengths (dict_fse e))
     \<and> same_probabilities (fs_offsets (dict_fse d)) (fs_offsets (dict_fse e))
     \<and> ht_bits (hs_table (dict_huf e)) = ht_bits (hs_table (dict_huf d))
     \<and> ht_max_num_bits (hs_table (dict_huf e)) = ht_max_num_bits (hs_table (dict_huf d))"

lemma parsed_dictionary_ok:
  assumes "axis_ok of_meta_ok OF_MAX_LOG off" "length (ft_decode off) = 512" "ft_max_symbol off = MAX_OFFSET_CODE"
    "axis_ok ml_meta_ok ML_MAX_LOG ml" "length (ft_decode ml) = 512" "ft_max_symbol ml = MAX_MATCH_LENGTH_CODE"
    "axis_ok ll_meta_ok LL_MAX_LOG ll" "length (ft_decode ll) = 512" "ft_max_symbol ll = MAX_LITERAL_LENGTH_CODE"
    "huffman_table_ok huf" "huffman_scratch_ok huf" "length hist = 3" "0 \<notin> set hist"
    "d = \<lparr>dict_id = i,
          dict_fse = fse_scratch_new\<lparr>fs_offsets := off, fs_match_lengths := ml, fs_literal_lengths := ll,
            fs_offsets_long_share := compute_offsets_long_share off\<rparr>,
          dict_huf = huffman_scratch_new\<lparr>hs_table := huf\<rparr>, dict_content = content, dict_offset_hist = hist\<rparr>"
  shows "dictionary_ok d \<and> dictionary_tables_ok d"
  using assms by (simp add: dictionary_ok_def dictionary_tables_ok_def fse_scratch_ok_def axis_state_ok_def axis_ok_stored fse_scratch_new_def
      huf_live_ok_def huf_table_def huffman_scratch_new_def huffman_table_ok_decode)

lemma new_axes:
  "fs_offsets fse_scratch_new = fse_table_new 512 MAX_OFFSET_CODE"
  "fs_match_lengths fse_scratch_new = fse_table_new 512 MAX_MATCH_LENGTH_CODE"
  "fs_literal_lengths fse_scratch_new = fse_table_new 512 MAX_LITERAL_LENGTH_CODE"
  by (simp_all add: fse_scratch_new_def)

lemmas dict_of_spec = dict_axis_spec [OF new_axes(1) meta_fits_axes(3) _ enrich_functions(2)]
lemmas dict_ml_spec = dict_axis_spec [OF new_axes(2) meta_fits_axes(2) _ enrich_functions(1)]
lemmas dict_ll_spec = dict_axis_spec [OF new_axes(3) meta_fits_axes(1) _ enrich_functions(1)]

text \<open>Where the parts of an accepted dictionary come from.\<close>

definition dictionary_parts :: "u8 list \<Rightarrow> dictionary \<Rightarrow> bool" where
  "dictionary_parts raw d \<longleftrightarrow> is_serialized raw \<and> dict_id d = from_le_bytes (take 4 (drop 4 raw)) \<and> dict_id d \<noteq> 0
     \<and> (\<exists>n. 8 \<le> n \<and> n + 12 \<le> length raw \<and> dict_content d = drop (n + 12) raw
          \<and> dict_offset_hist d = map (\<lambda>i. from_le_bytes (take 4 (drop (n + i) raw))) [0, 4, 8])"

definition accepted :: "u8 list \<Rightarrow> dictionary \<Rightarrow> dictionary \<Rightarrow> bool" where
  "accepted raw d e \<longleftrightarrow> dictionary_ok d \<and> dictionary_tables_ok d \<and> dictionary_parts raw d \<and> same_for_encoding d e"

lemma dict_offsets_agree:
  "results_agree (\<lambda>p q. q = p \<and> 12 \<le> length raw \<and> snd p = drop 12 raw \<and> 0 \<notin> set (fst p)
     \<and> fst p = map (\<lambda>i. from_le_bytes (take 4 (drop i raw))) [0, 4, 8]) (dict_offsets raw) (dict_offsets raw)"
  by (simp add: dict_offsets_def slice_range_def slice_from_def Let_def)

text \<open>The last step of the parse, with the repeat offsets at position \<open>n\<close>.\<close>

definition filled_dictionary :: "bool \<Rightarrow> u32 \<Rightarrow> huffman_table \<Rightarrow> seq_symbol fse_table \<Rightarrow> seq_symbol fse_table \<Rightarrow> seq_symbol fse_table
     \<Rightarrow> u32 list \<times> u8 list \<Rightarrow> dictionary" where
  "filled_dictionary b i huf off ml ll p =
     \<lparr>dict_id = i,
      dict_fse = fse_scratch_new\<lparr>fs_offsets := off, fs_match_lengths := ml, fs_literal_lengths := ll,
        fs_offsets_long_share := (if b then compute_offsets_long_share off else 0)\<rparr>,
      dict_huf = huffman_scratch_new\<lparr>hs_table := huf\<rparr>, dict_content = snd p, dict_offset_hist = fst p\<rparr>"

lemma offsets_accepted:
  assumes "is_serialized raw" "from_le_bytes (take 4 (drop 4 raw)) = i" "i \<noteq> 0" "8 \<le> n"
    and huf: "trees_agree k0 huf huf'" and off: "axes_agree of_meta_ok OF_MAX_LOG MAX_OFFSET_CODE k1 off off'"
    and ml: "axes_agree ml_meta_ok ML_MAX_LOG MAX_MATCH_LENGTH_CODE k2 ml ml'"
    and ll: "axes_agree ll_meta_ok LL_MAX_LOG MAX_LITERAL_LENGTH_CODE k3 ll ll'"
  shows "results_agree (accepted raw)
     (rbind (dict_offsets (drop n raw)) (\<lambda>(hist, content). Ok (filled_dictionary True i (fst huf) (fst off) (fst ml) (fst ll) (hist, content))))
     (rbind (dict_offsets (drop n raw)) (\<lambda>(hist, content). Ok (filled_dictionary False i (fst huf') (fst off') (fst ml') (fst ll') (hist, content))))"
proof (rule results_agree_bind [OF dict_offsets_agree], goal_cases)
  case (1 p q)
  obtain hist content where hc: "p = (hist, content)" by fastforce
  have p: "12 \<le> length (drop n raw)" "content = drop 12 (drop n raw)" "0 \<notin> set hist"
      "hist = map (\<lambda>i. from_le_bytes (take 4 (drop i (drop n raw)))) [0, 4, 8]" and q: "q = p"
    using 1 unfolding hc fst_conv snd_conv by blast+
  let ?d = "filled_dictionary True i (fst huf) (fst off) (fst ml) (fst ll) (hist, content)"
  let ?e = "filled_dictionary False i (fst huf') (fst off') (fst ml') (fst ll') (hist, content)"
  have h: "length hist = 3" using p(4) by simp
  have "dictionary_ok ?d \<and> dictionary_tables_ok ?d"
    by (rule parsed_dictionary_ok [where huf = "fst huf" and off = "fst off" and ml = "fst ml" and ll = "fst ll" and hist = hist])
      (use huf off ml ll p h in \<open>simp_all add: trees_agree_def axes_agree_def filled_dictionary_def\<close>)
  moreover have "dictionary_parts raw ?d"
    unfolding dictionary_parts_def using assms(1-4) p
    by (simp add: filled_dictionary_def) (auto intro!: exI [of _ n] simp: add.commute)
  moreover have "same_for_encoding ?d ?e"
    using huf off ml ll by (simp add: same_for_encoding_def filled_dictionary_def same_probabilities_def trees_agree_def axes_agree_def)
  ultimately show ?case by (simp add: accepted_def q hc)
qed

lemma decode_dict_agree: "results_agree (accepted raw) (decode_dict_inner on_amd True raw) (decode_dict_inner on_amd False raw)"
proof (cases "8 \<le> length raw \<and> take 4 raw = DICT_MAGIC_NUM \<and> from_le_bytes (take 4 (drop 4 raw)) \<noteq> (0 :: u32)")
  case False
  then show ?thesis by (auto simp: decode_dict_inner_def slice_range_def)
next
  case True
  define i :: u32 where "i = from_le_bytes (take 4 (drop 4 raw))"
  have ser: "is_serialized raw" "from_le_bytes (take 4 (drop 4 raw)) = i" "i \<noteq> 0" using True by (simp_all add: is_serialized_def i_def)
  have eq: "decode_dict_inner on_amd b raw =
      rbind (dict_huffman on_amd b (drop 8 raw) huffman_table_new) (\<lambda>(huf, huf_size).
      rbind (or_panic (slice_from (drop 8 raw) huf_size)) (\<lambda>raw_tables.
      rbind (dict_axis b raw_tables OF_MAX_LOG enrich_for_offsets (fs_offsets fse_scratch_new)) (\<lambda>(off, of_size).
      rbind (or_panic (slice_from raw_tables of_size)) (\<lambda>raw_tables.
      rbind (dict_axis b raw_tables ML_MAX_LOG (enrich_with_packed_seq_meta ML_PACKED) (fs_match_lengths fse_scratch_new)) (\<lambda>(ml, ml_size).
      rbind (or_panic (slice_from raw_tables ml_size)) (\<lambda>raw_tables.
      rbind (dict_axis b raw_tables LL_MAX_LOG (enrich_with_packed_seq_meta LL_PACKED) (fs_literal_lengths fse_scratch_new)) (\<lambda>(ll, ll_size).
      rbind (or_panic (slice_from raw_tables ll_size)) (\<lambda>raw_tables.
      rbind (dict_offsets raw_tables) (\<lambda>(hist, content). Ok (filled_dictionary b i huf off ml ll (hist, content)))))))))))" for b
    using True by (simp add: decode_dict_inner_def slice_range_def slice_from_def [of raw] filled_dictionary_def i_def)
  have "OF_MAX_LOG \<le> 9" "ML_MAX_LOG \<le> 9" "LL_MAX_LOG \<le> 9" by (simp_all add: seq_consts)
  note parts = dict_huffman_spec dict_of_spec [OF this(1)] dict_ml_spec [OF this(2)] dict_ll_spec [OF this(3)]
  show ?thesis
    unfolding eq
  proof (rule results_agree_part [OF parts(1)], goal_cases)
    case (2 huf huf')
    note huf = this
    show ?case
    proof (rule results_agree_part [OF parts(2)], goal_cases)
      case (2 off off')
      note off = this
      show ?case
      proof (rule results_agree_part [OF parts(3)], goal_cases)
        case (2 ml ml')
        note ml = this
        show ?case
        proof (rule results_agree_part [OF parts(4)], goal_cases)
          case (2 ll ll')
          show ?case unfolding drop_drop by (rule offsets_accepted [OF ser _ huf off ml 2]) simp
        qed (simp add: axes_agree_def)
      qed (simp add: axes_agree_def)
    qed (simp add: axes_agree_def)
  qed (simp add: trees_agree_def)
qed

section \<open>The life of a workspace\<close>

text \<open>
  The sequence half of \<open>export_entropy\<close> and \<open>restore_entropy\<close>: a snapshot is a workspace of its own with every table resolved, and is
  installed without a dictionary. \<open>None\<close> is the panic of a table read from a dictionary that is not there.
\<close>

definition fse_dict :: "dictionary option \<Rightarrow> fse_scratch option" where
  "fse_dict = map_option dict_fse"

definition export_fse :: "fse_scratch \<Rightarrow> dictionary option \<Rightarrow> fse_scratch option" where
  "export_fse s dict = fse_scratch_reinit_from fse_scratch_new s (fse_dict dict)"

definition restore_fse :: "fse_scratch \<Rightarrow> fse_scratch \<Rightarrow> fse_scratch option" where
  "restore_fse s saved = fse_scratch_reinit_from s saved None"

text \<open>The ways a program gets a dictionary to decode with.\<close>

definition parses_to :: "dictionary \<Rightarrow> bool" where
  "parses_to d \<longleftrightarrow> (\<exists>on_amd raw. decode_dict on_amd raw = Ok d) \<or> (\<exists>i content. from_raw_content i content = Ok d)
     \<or> (\<exists>on_amd raw. from_serialized_or_raw_content on_amd raw = Ok d)"

text \<open>
  The dictionary in use, the workspace, and the snapshots taken so far: one block's table update, one frame reset, one reset with a
  dictionary attached, one snapshot taken, one snapshot installed.
\<close>

type_synonym scratch_state = "dictionary option \<times> fse_scratch \<times> fse_scratch list"

inductive scratch_step :: "scratch_state \<Rightarrow> scratch_state \<Rightarrow> bool" where
  block: "scratch_step (dict, s, saved) (dict, fst (maybe_update_fse_tables std section source s), saved)"
| reset: "scratch_step (dict, s, saved) (None, fse_reset_entropy s, saved)"
| attach: "parses_to d \<Longrightarrow> scratch_step (dict, s, saved) (Some d, fse_init_from_dict (dict_fse d) (fse_reset_entropy s), saved)"
| export: "export_fse s dict = Some f \<Longrightarrow> scratch_step (dict, s, saved) (dict, s, f # saved)"
| restore: "f \<in> set saved \<Longrightarrow> restore_fse s f = Some s' \<Longrightarrow> scratch_step (dict, s, saved) (dict, s', saved)"

lemma parses_to_ok: "parses_to d \<Longrightarrow> dictionary_ok d"
proof -
  have dec: "dictionary_ok d" if "decode_dict on_amd raw = Ok d" for on_amd raw
    using decode_dict_agree [of raw on_amd] that by (auto simp: decode_dict_def results_agree_def accepted_def)
  have rawc: "dictionary_ok d" if "from_raw_content i content = Ok d" for i content
    using that empty_dictionary_ok by (auto simp: from_raw_content_def split: if_splits)
  have "dictionary_ok d" if "from_serialized_or_raw_content on_amd raw = Ok d" for on_amd raw
    using that dec rawc empty_dictionary_ok by (auto simp: from_serialized_or_raw_content_def split: if_splits)
  then show "parses_to d \<Longrightarrow> dictionary_ok d" using dec rawc by (auto simp: parses_to_def)
qed

text \<open>Every table an axis reads from has the 512 slots of its array type.\<close>

fun source_sized :: "seq_table_source \<Rightarrow> bool" where
  "source_sized (PredefinedTable p) \<longleftrightarrow> length (ft_decode p) = 512"
| "source_sized _ \<longleftrightarrow> True"

definition sources_sized :: "fse_scratch \<Rightarrow> bool" where
  "sources_sized s \<longleftrightarrow> source_sized (fs_ll_source s) \<and> source_sized (fs_of_source s) \<and> source_sized (fs_ml_source s)"

lemma predefined_sized:
  "predefined_ll_table = Some t \<Longrightarrow> length (ft_decode t) = 512"
  "predefined_ml_table = Some t \<Longrightarrow> length (ft_decode t) = 512"
  "predefined_of_table = Some (t, n) \<Longrightarrow> length (ft_decode t) = 512"
  using default_ll [of "fse_table_new 512 MAX_LITERAL_LENGTH_CODE"] default_ml [of "fse_table_new 512 MAX_MATCH_LENGTH_CODE"]
    default_of [of "fse_table_new 512 MAX_OFFSET_CODE"]
  by (auto simp: predefined_ll_table_def predefined_ml_table_def predefined_of_table_def fse_table_new_def)

lemma update_sized:
  "sources_sized s \<Longrightarrow> sources_sized (fst (update_ll std mode source s))"
  "sources_sized s \<Longrightarrow> sources_sized (fst (update_of std mode source s))"
  "sources_sized s \<Longrightarrow> sources_sized (fst (update_ml std mode source s))"
  by (simp_all add: update_ll_def update_of_def update_ml_def sources_sized_def predefined_sized
      split: option.split mode_type.split prod.split result.split)

lemma maybe_update_sized:
  assumes "sources_sized s"
  shows "sources_sized (fst (maybe_update_fse_tables std section source s))"
proof -
  have "update_ll std m src s = (s', r) \<Longrightarrow> sources_sized s \<Longrightarrow> sources_sized s'"
       "update_of std m src s = (s', r) \<Longrightarrow> sources_sized s \<Longrightarrow> sources_sized s'"
       "update_ml std m src s = (s', r) \<Longrightarrow> sources_sized s \<Longrightarrow> sources_sized s'" for m src s s' r
    using update_sized [of s std m src] by simp_all
  then show ?thesis using assms
    by (simp add: maybe_update_fse_tables_def split: option.split prod.split result.split)
qed

text \<open>The table an axis reads from, and the copy a snapshot takes of it.\<close>

lemma axis_source:
  assumes "axis_state_ok meta_ok max_log max_code t src dict_table" "\<And>p. src = PredefinedTable p \<Longrightarrow> length (ft_decode p) = 512"
    "\<And>d. dict_table = Some d \<Longrightarrow> length (ft_decode d) = 512"
  obtains x where "(case src of Local \<Rightarrow> Some t | Dict \<Rightarrow> dict_table | PredefinedTable p \<Rightarrow> Some p) = Some x"
    "length (ft_decode x) = 512" "stored_ok meta_ok max_log x"
  using assms by (cases src; cases dict_table) (auto simp: axis_state_ok_def axis_ok_stored)

lemma reinit_axis_ok:
  "length (ft_decode x) = 512 \<Longrightarrow> stored_ok meta_ok max_log x \<Longrightarrow> ft_max_symbol t = max_code
   \<Longrightarrow> axis_state_ok meta_ok max_log max_code (reinit_from t x) Local dict_table"
  using reinit_stored by (simp add: axis_state_ok_def) (simp add: reinit_from_def fse_reset_def)

definition all_local :: "fse_scratch \<Rightarrow> bool" where
  "all_local s \<longleftrightarrow> fs_ll_source s = Local \<and> fs_of_source s = Local \<and> fs_ml_source s = Local"

lemma all_local_facts:
  "all_local s \<Longrightarrow> sources_sized s" "all_local s \<Longrightarrow> fse_scratch_ok dict s \<longleftrightarrow> fse_scratch_ok None s"
  by (auto simp: all_local_def sources_sized_def fse_scratch_ok_def axis_state_ok_def)

lemma reinit_ok:
  assumes ok: "fse_scratch_ok dict other" "sources_sized other" "\<And>d. dict = Some d \<Longrightarrow> fse_scratch_ok None d"
    and s: "fse_scratch_ok dict' s"
  obtains f where "fse_scratch_reinit_from s other dict = Some f" "fse_scratch_ok None f" "all_local f"
proof -
  have d: "\<And>x. map_option fs_literal_lengths dict = Some x \<Longrightarrow> length (ft_decode x) = 512"
      "\<And>x. map_option fs_offsets dict = Some x \<Longrightarrow> length (ft_decode x) = 512"
      "\<And>x. map_option fs_match_lengths dict = Some x \<Longrightarrow> length (ft_decode x) = 512"
    using ok(3) by (auto simp: fse_scratch_ok_def axis_state_ok_def)
  have p: "\<And>p. fs_ll_source other = PredefinedTable p \<Longrightarrow> length (ft_decode p) = 512"
      "\<And>p. fs_of_source other = PredefinedTable p \<Longrightarrow> length (ft_decode p) = 512"
      "\<And>p. fs_ml_source other = PredefinedTable p \<Longrightarrow> length (ft_decode p) = 512"
    using ok(2) by (auto simp: sources_sized_def)
  note axes = ok(1) [unfolded fse_scratch_ok_def]
  obtain ll where ll: "ll_table other dict = Some ll" "length (ft_decode ll) = 512" "stored_ok ll_meta_ok LL_MAX_LOG ll"
    using axis_source [OF axes [THEN conjunct1] p(1) d(1)] by (metis ll_table_def)
  obtain off where off: "of_table other dict = Some off" "length (ft_decode off) = 512" "stored_ok of_meta_ok OF_MAX_LOG off"
    using axis_source [OF axes [THEN conjunct2, THEN conjunct1] p(2) d(2)] by (metis of_table_def)
  obtain ml where ml: "ml_table other dict = Some ml" "length (ft_decode ml) = 512" "stored_ok ml_meta_ok ML_MAX_LOG ml"
    using axis_source [OF axes [THEN conjunct2, THEN conjunct2] p(3) d(3)] by (metis ml_table_def)
  have m: "ft_max_symbol (fs_literal_lengths s) = MAX_LITERAL_LENGTH_CODE" "ft_max_symbol (fs_offsets s) = MAX_OFFSET_CODE"
      "ft_max_symbol (fs_match_lengths s) = MAX_MATCH_LENGTH_CODE"
    using s by (simp_all add: fse_scratch_ok_def axis_state_ok_def)
  show ?thesis
    by (rule that, simp add: fse_scratch_reinit_from_def ll(1) off(1) ml(1))
      (use ll off ml m in \<open>simp_all add: fse_scratch_ok_def reinit_axis_ok all_local_def\<close>)
qed

fun scratch_inv :: "scratch_state \<Rightarrow> bool" where
  "scratch_inv (dict, s, saved) \<longleftrightarrow> fse_scratch_ok (fse_dict dict) s \<and> sources_sized s
     \<and> (\<forall>d. dict = Some d \<longrightarrow> fse_scratch_ok None (dict_fse d)) \<and> (\<forall>f \<in> set saved. fse_scratch_ok None f \<and> all_local f)"

lemma export_fse_ok:
  assumes "scratch_inv (dict, s, saved)"
  obtains f where "export_fse s dict = Some f" "fse_scratch_ok None f" "all_local f"
  using assms reinit_ok [OF _ _ _ fse_scratch_new_ok, of "fse_dict dict" s] by (force simp: export_fse_def fse_dict_def)

lemma restore_fse_ok:
  assumes "scratch_inv (dict, s, saved)" "f \<in> set saved"
  obtains s' where "restore_fse s f = Some s'" "fse_scratch_ok None s'" "all_local s'"
  using assms reinit_ok [of None f "fse_dict dict" s] all_local_facts(1) [of f] by (force simp: restore_fse_def)

lemma scratch_step_inv:
  assumes "scratch_step x y" "scratch_inv x"
  shows "scratch_inv y"
  using assms
proof (cases rule: scratch_step.cases)
  case (block dict s saved std hdr source)
  then show ?thesis using assms(2) maybe_update_ok [of "fse_dict dict" s source std hdr] maybe_update_sized
    by (simp add: update_result_ok_def)
next
  case (reset dict s saved)
  then show ?thesis using assms(2) reset_entropy_ok
    by (auto simp: sources_sized_def fse_reset_entropy_def detach_dict_def Let_def)
next
  case (attach d dict s saved)
  have d: "fse_scratch_ok None (dict_fse d)" using parses_to_ok [OF attach(3)] by (simp add: dictionary_ok_def)
  have s: "fse_scratch_ok (fse_dict dict) s" using assms(2) attach(1) by simp
  have "fse_scratch_ok (fse_dict (Some d)) (fse_init_from_dict (dict_fse d) (fse_reset_entropy s))"
    unfolding fse_dict_def option.map by (rule init_from_dict_ok [OF d reset_entropy_ok [OF s, of None]])
  then show ?thesis using attach assms(2) d by (simp add: sources_sized_def fse_init_from_dict_def attach_dict_def)
next
  case (export s dict f saved)
  obtain g where "export_fse s dict = Some g" "fse_scratch_ok None g" "all_local g"
    using export_fse_ok [of dict s saved] assms(2) export(1) by blast
  then show ?thesis using assms(2) export by simp
next
  case (restore f saved s s' dict)
  obtain g where "restore_fse s f = Some g" "fse_scratch_ok None g" "all_local g"
    using restore_fse_ok [of dict s saved f] assms(2) restore by blast
  then show ?thesis using assms(2) restore all_local_facts [of s'] by simp
qed

section \<open>Properties\<close>

text \<open>
  C13. Parsing a serialized dictionary is total and safe on any bytes. It returns without a panic. A dictionary it accepts has the
  magic number and the nonzero id of its header, three nonzero repeat offsets and the rest of the bytes as its content; its three
  sequence tables have in-range transitions and metadata, its Huffman table is the lookup table of a complete code, and the share of
  long offsets is the one of its offsets table. The encoder's parse of the same bytes accepts and refuses the same inputs with the
  same error, and gives the same id, content, repeat offsets, probabilities, accuracy logs and code lengths.
\<close>

theorem dictionary_parse_safe:
  "case decode_dict on_amd raw of
     Ok d \<Rightarrow> dictionary_ok d \<and> dictionary_tables_ok d \<and> dictionary_parts raw d
        \<and> (\<exists>e. decode_dict_for_encoding on_amd raw = Ok e \<and> same_for_encoding d e)
   | Err x \<Rightarrow> decode_dict_for_encoding on_amd raw = Err x
   | Panic \<Rightarrow> False"
  using decode_dict_agree [of raw on_amd]
  by (auto simp: decode_dict_def decode_dict_for_encoding_def results_agree_def accepted_def split: result.splits)

text \<open>A small dictionary: four symbols of two bits, three tables of the counts 1, 30 and a less-than-one, two bytes of content.\<close>

definition small_dictionary :: "u8 list" where
  "small_dictionary = [0x37, 0xA4, 0x30, 0xEC, 7, 0, 0, 0, 130, 0x11, 0x10, 0x20, 0x3E, 0x20, 0x3E, 0x20, 0x3E,
     2, 0, 0, 0, 4, 0, 0, 0, 8, 0, 0, 0, 97, 98]"

lemma small_logs: "ilog2 33 = 5" "ilog2 32 = 5" "ilog2 2 = 1"
  by code_simp+

lemma small_fields:
  assumes "n \<in> {11, 13, 15}"
  shows "read_bits (drop n small_dictionary) 0 4 = Ok (0, 4)" "read_bits (drop n small_dictionary) 4 6 = Ok (34, 10)"
    "read_bits (drop n small_dictionary) 9 6 = Ok (31, 15)" "read_bits (drop n small_dictionary) 15 2 = Ok (0, 17)"
  using assms by (auto simp: small_dictionary_def read_bits_def field_at_def from_le_bytes_def)

lemma small_values: "short_value 6 33 34 = (2, True)" "short_value 6 32 31 = (31, False)" "short_value 2 2 0 = (0, True)"
  by (simp_all add: short_value_def)

lemma small_loop:
  assumes "n \<in> {11, 13, 15}" "3 \<le> m"
  shows "read_loop (drop n small_dictionary) m 32 4 0 [] = ([1, 30, -1], Ok (16, 32))"
  using small_fields [OF assms(1)] assms(2)
  by (simp add: read_loop.simps small_logs small_values small_logs(3) [unfolded numeral_2_eq_2]
      small_values(3) [unfolded numeral_2_eq_2] Let_def numeral_2_eq_2 [symmetric])

lemma small_axis:
  assumes "n \<in> {11, 13, 15}" "5 \<le> max_log" "max_log \<le> 9" "3 \<le> unat max_code + 1"
  obtains u where "dict_axis False (drop n small_dictionary) max_log enrich_pass (fse_table_new 512 max_code) = Ok (u, 2)"
  using small_fields(1) [OF assms(1)] small_loop [OF assms(1,4)] assms(3,2)
  by (simp add: dict_axis_def read_table_probabilities_def read_probabilities_def fse_table_new_def ENTRY_MAX_ACCURACY_LOG_def
      ACC_LOG_OFFSET_def Let_def)

lemma small_dictionary_accepted: "\<exists>d. decode_dict True small_dictionary = Ok d"
proof -
  let ?s = small_dictionary
  have "snd (build_weights_only True huffman_table_new (drop 8 ?s)) = Ok 3" by code_simp
  then obtain huf where huf: "dict_huffman True False (drop 8 ?s) huffman_table_new = Ok (huf, 3)"
    by (cases "build_weights_only True huffman_table_new (drop 8 ?s)") (simp add: dict_huffman_def)
  obtain off where off: "dict_axis False (drop 11 ?s) OF_MAX_LOG enrich_for_offsets (fs_offsets fse_scratch_new) = Ok (off, 2)"
    unfolding new_axes by (rule small_axis [of 11 OF_MAX_LOG MAX_OFFSET_CODE enrich_for_offsets]) (simp_all add: seq_consts)
  obtain ml where ml: "dict_axis False (drop 13 ?s) ML_MAX_LOG (enrich_with_packed_seq_meta ML_PACKED) (fs_match_lengths fse_scratch_new) = Ok (ml, 2)"
    unfolding new_axes
    by (rule small_axis [of 13 ML_MAX_LOG MAX_MATCH_LENGTH_CODE "enrich_with_packed_seq_meta ML_PACKED"]) (simp_all add: seq_consts)
  obtain ll where ll: "dict_axis False (drop 15 ?s) LL_MAX_LOG (enrich_with_packed_seq_meta LL_PACKED) (fs_literal_lengths fse_scratch_new) = Ok (ll, 2)"
    unfolding new_axes
    by (rule small_axis [of 15 LL_MAX_LOG MAX_LITERAL_LENGTH_CODE "enrich_with_packed_seq_meta LL_PACKED"]) (simp_all add: seq_consts)
  obtain p where p: "dict_offsets (drop 17 ?s) = Ok p"
    by (simp add: dict_offsets_def small_dictionary_def slice_range_def slice_from_def from_le_bytes_def)
  have len: "length ?s = 31" and hdr: "take 4 ?s = DICT_MAGIC_NUM" "from_le_bytes (take 4 (drop 4 ?s)) = (7 :: u32)"
    by (simp_all add: small_dictionary_def DICT_MAGIC_NUM_def from_le_bytes_def)
  have "\<exists>d. decode_dict_inner True False ?s = Ok d"
    by (cases p) (simp add: decode_dict_inner_def slice_range_def slice_from_def len hdr huf off ml ll p Let_def)
  then show ?thesis using decode_dict_agree [of ?s True]
    by (cases "decode_dict_inner True True ?s") (auto simp: decode_dict_def results_agree_def)
qed

text \<open>
  C14. A sequence workspace never holds a table the unchecked reads could leave. From a new workspace, any sequence of blocks with any
  modes and any bytes, also failing ones, of frame resets, of attached dictionaries as the parser or the raw-content constructors
  return them, and of snapshots taken and installed keeps every axis sound: what it reads from is empty, or has in-range metadata and
  transitions for the accuracy log its shape shows. Taking a snapshot and installing one that was taken never ask for a dictionary
  that is not there.
\<close>

theorem workspace_tables_sound:
  assumes "scratch_step\<^sup>*\<^sup>* (None, fse_scratch_new, []) (dict, s, saved)"
  shows "fse_scratch_ok (fse_dict dict) s \<and> export_fse s dict \<noteq> None
     \<and> (\<forall>f \<in> set saved. fse_scratch_ok None f \<and> restore_fse s f \<noteq> None)"
proof -
  have "scratch_inv (None, fse_scratch_new, [])"
    by (simp add: fse_scratch_new_ok) (simp add: sources_sized_def fse_scratch_new_def)
  with assms have inv: "scratch_inv (dict, s, saved)" by (induction rule: rtranclp_induct) (auto intro: scratch_step_inv)
  then show ?thesis using export_fse_ok [OF inv] restore_fse_ok [OF inv] by (metis option.distinct(1) scratch_inv.simps)
qed

text \<open>A dictionary is attached, a block reads one of its tables, a snapshot is taken, and the frame is reset.\<close>

theorem workspace_tables_sound_witness:
  "\<exists>d f. decode_dict True small_dictionary = Ok d
     \<and> (let s = fst (maybe_update_fse_tables True \<lparr>sh_num_sequences = 3, sh_modes = Some 0x5C\<rparr> [3, 7, 9]
                  (fse_init_from_dict (dict_fse d) (fse_reset_entropy fse_scratch_new)))
        in fse_scratch_ok (fse_dict (Some d)) s \<and> export_fse s (Some d) = Some f \<and> fse_scratch_ok None f)"
proof -
  obtain d where d: "decode_dict True small_dictionary = Ok d" using small_dictionary_accepted by blast
  define s0 where "s0 = fse_init_from_dict (dict_fse d) (fse_reset_entropy fse_scratch_new)"
  define s1 where "s1 = fst (maybe_update_fse_tables True \<lparr>sh_num_sequences = 3, sh_modes = Some 0x5C\<rparr> [3, 7, 9] s0)"
  have "scratch_step (None, fse_scratch_new, []) (Some d, s0, [])"
    unfolding s0_def using d by (intro scratch_step.attach) (auto simp: parses_to_def)
  moreover have "scratch_step (Some d, s0, []) (Some d, s1, [])" unfolding s1_def by (rule scratch_step.block)
  ultimately have r: "scratch_step\<^sup>*\<^sup>* (None, fse_scratch_new, []) (Some d, s1, [])" by (meson converse_rtranclp_into_rtranclp rtranclp.rtrancl_refl)
  obtain f where f: "export_fse s1 (Some d) = Some f" using workspace_tables_sound [OF r] by blast
  then have "scratch_step (Some d, s1, []) (Some d, s1, [f])" by (rule scratch_step.export)
  with r have "scratch_step\<^sup>*\<^sup>* (None, fse_scratch_new, []) (Some d, s1, [f])" by (rule rtranclp.rtrancl_into_rtrancl)
  then have "fse_scratch_ok (fse_dict (Some d)) s1 \<and> fse_scratch_ok None f" using workspace_tables_sound by fastforce
  then show ?thesis using d f unfolding Let_def s0_def s1_def by blast
qed

end
