(* ===== verification/Spec2Isabelle.thy ===== *)
theory Spec2Isabelle
  imports Bit_Reader Bit_Streams Cpu_Ceiling Block_Header Section_Headers Sequence_Codes Frame_Header Sequence_Pipeline Delivery Huff_Roundtrip Dictionary
begin

text \<open>
  A verification library of the Zstandard codec in \<^verbatim>\<open>zstd/src\<close>. Paths below are relative to that directory.

  \<^bold>\<open>The program.\<close> A frame is a header (\<^verbatim>\<open>decoding/frame.rs\<close>, \<^verbatim>\<open>encoding/frame_header.rs\<close>) and blocks
  (\<^verbatim>\<open>decoding/block_decoder.rs\<close>). A compressed block holds literals and sequences; the sequences are coded with three
  FSE tables (\<^verbatim>\<open>fse/fse_decoder.rs\<close>) in a bit stream read backwards (\<^verbatim>\<open>bit_io\<close>), and each of them pushes literals into the
  decode buffer and copies a match from it (\<^verbatim>\<open>decoding/decode_buffer.rs\<close>). The buffer keeps its bytes in a ring or a flat
  vector behind one trait (\<^verbatim>\<open>ringbuffer.rs\<close>, \<^verbatim>\<open>flat_buf.rs\<close>, \<^verbatim>\<open>buffer_backend.rs\<close>), moved by the copies of
  \<^verbatim>\<open>simd_copy.rs\<close>, which differ by CPU kernel (\<^verbatim>\<open>cpu_kernel.rs\<close>).

  \<^bold>\<open>Theories and sources.\<close>
  \<^item> \<open>Prelude\<close>: machine integers, results with panics, little-endian bytes, list and word lemmas.
  \<^item> \<open>Bit_Reader\<close>, \<open>Bit_Reader_Reverse\<close>, \<open>Bit_Writer\<close>, \<open>Bit_Streams\<close> (\<^verbatim>\<open>bit_io/*.rs\<close>): the readers and the writer with their
    word-sized windows; a stream of fields written, closed and read backwards is the fields again.
  \<^item> \<open>Cpu_Kernel\<close>, \<open>Cpu_Ceiling\<close> (\<^verbatim>\<open>cpu_kernel.rs\<close>): the bit masks, the ceiling cell as a machine of interleaved steps, and the
    choice of kernel. The CPU probes are a parameter.
  \<^item> \<open>Block_Header\<close>, \<open>Section_Headers\<close>, \<open>Frame_Header\<close>: the headers of frames, blocks and sections, both directions.
  \<^item> \<open>Sequence_Codes\<close> (\<^verbatim>\<open>encoding/blocks/compressed.rs\<close>, \<^verbatim>\<open>decoding/sequence_execution.rs\<close>): length codes and the repeat-offset history.
  \<^item> \<open>Fse_Walk\<close>, \<open>Fse_Table\<close>, \<open>Fse_Spread\<close>, \<open>Fse_Build\<close>, \<open>Fse_Read\<close>, \<open>Fse_Decoder\<close> (\<^verbatim>\<open>fse/fse_decoder.rs\<close>): reading a table
    description, spreading the symbols, building the states and decoding with them.
  \<^item> \<open>Sequence_Decoder\<close>, \<open>Sequence_Tables\<close>, \<open>Sequence_Setup\<close>, \<open>Sequence_Pipeline\<close> (\<^verbatim>\<open>decoding/seq_decoder_scalar.rs\<close>,
    \<^verbatim>\<open>decoding/sequence_section_decoder.rs\<close>, \<^verbatim>\<open>decoding/scratch.rs\<close>): choosing the tables of a block, opening the stream, and
    the direct and the pipelined loop.
  \<^item> \<open>Wild_Copy\<close>, \<open>Ring_Buffer\<close>, \<open>Ring_Branchless\<close>, \<open>Buffer_Backend\<close>, \<open>Flat_Buf\<close>, \<open>Decode_Buffer\<close>, \<open>Match_Copy\<close>, \<open>Delivery\<close>: the copies
    over an explicit memory, the two buffers, their common contract, and the decode buffer on any buffer that keeps it.

  \<^item> \<open>Huff_Table\<close>, \<open>Huff_Weights\<close>, \<open>Huff_Decoder\<close> (\<^verbatim>\<open>huff0/huff0_decoder.rs\<close>): reading the weights of a Huffman table, its code
    lengths and lookup table, and stepping it over a stream; a table that is accepted is the canonical one of a complete code.
  \<^item> \<open>Lit_Burst\<close>, \<open>Lit_Streams\<close>, \<open>Literals\<close> (\<^verbatim>\<open>decoding/literals_section_decoder.rs\<close>): the burst loop over four streams with its fused
    registers, the drain and the single stream, the trees and the views of a literals section.
  \<^item> \<open>Huf_CStream\<close>, \<open>Huff_Codes\<close>, \<open>Huff_Encode\<close> (\<^verbatim>\<open>huff0/huf_cstream.rs\<close>, \<^verbatim>\<open>huff0/huff0_encoder.rs\<close>): the packer with two containers, the codes
    of a table from its weights, and the streams of the encoder.
  \<^item> \<open>Fse_Encoder\<close>, \<open>Fse_NCount\<close>, \<open>Fse_Normalize\<close> (\<^verbatim>\<open>fse/fse_encoder.rs\<close>): the encoding table and its transitions, the description of a
    table, and the normalisation of a histogram by both methods. The fixed-point values of the normalisation are natural numbers; they
    fit the source's \<open>u64\<close> for the at most \<open>2 ^ 25\<close> samples the properties assume.
  \<^item> \<open>Huff_Description\<close>, \<open>Huff_Roundtrip\<close>: the description of a Huffman table as two interleaved FSE streams or as nibbles, with its
    cache, and literals from the encoder's table to the decoded bytes.
  \<^item> \<open>Dictionary\<close> (\<^verbatim>\<open>decoding/dictionary.rs\<close>, the snapshots of \<^verbatim>\<open>decoding/frame_decoder.rs\<close>): the dictionary parser for both sides, and the
    life of the sequence workspace over blocks, resets, dictionaries and snapshots.

  \<^bold>\<open>Conventions.\<close> A panic, an index out of range and a failed assertion are \<open>None\<close> or \<open>Panic\<close>; an error of the source is \<open>Err\<close>
  of its own datatype. Integers have their width where the source computes with it (\<open>u8\<close> \<dots> \<open>u64\<close> are words) and are natural
  numbers where they are lengths and indices, with the checks of the source written out. Memory is a list of bytes and a
  pointer an index; a load or a store outside of it is \<open>None\<close>, so a theorem that a copy has a result says that it stays in bounds.
  Loops are recursive functions with a measure; no definition takes fuel.

  \<^bold>\<open>Interfaces.\<close> \<open>copy_kernel\<close> (what a copy of a CPU kernel promises; interpreted by the scalar, SSE2 and AVX2 copies),
  \<open>buffer_backend\<close> (what a buffer promises; every copy kernel gives the ring and the flat buffer as instances), \<open>byte_sink\<close>,
  \<open>raw_sink\<close> (writers), \<open>stream_hash\<close> (the frame hash, a library) and \<open>delivery\<close>, which extends them. The match copies, the rollback and the
  delivery are proved once, on the contract. \<open>cpu_kernel\<close> is what a bit mask promises; the scalar table and both BMI2 bodies have it.

  \<^bold>\<open>Choices.\<close> The readers of headers follow the slice reader of \<^verbatim>\<open>io_nostd.rs\<close>, which leaves the input as it was when it is too short;
  the reader of the standard library takes what is left, which shows only in the input that remains after a truncated header. The
  dispatch over CPU kernels is a parameter; of the two BMI2 masks the theorems name the one of 32-bit x86, which does more, and the
  one-instruction mask of x86-64 has the same contract. A dictionary in \<open>scratch_step\<close> is one that a constructor of \<^verbatim>\<open>Dictionary\<close>
  returned; the fields of that type are public, and a value a program assembles by hand is outside of the model.

  \<^bold>\<open>Not modelled.\<close> The frame loops of both sides and the body of the block decoder, which drive the parts above over I/O; the inline
  executors and the per-CPU copies of the sequence loop, which the loops here take as a parameter; the buffer over a caller's slice; the
  legacy formats; match finding, optimal parsing, long-distance matching and the heuristics and parameter tables of the encoder, which
  choose among valid outputs; the search for Huffman code lengths; dictionary training; the writer of the sequence stream; the command
  line, the C interface and the WebAssembly package.
\<close>

end
